(* ===== verification/Prelude.thy ===== *)
theory Prelude
  imports Main "HOL-Library.Word"
begin

text \<open>
  What every component of the model shares: the exceptions of
  \<^verbatim>\<open>src/btclib_ecc/exceptions.py\<close> as values, the result type of a Python call that may raise,
  the octets of \<^verbatim>\<open>bytes\<close> as 8-bit words, and the generic lemmas on congruences and folds
  that the component proofs use.
\<close>

section \<open>Exceptions and results\<close>

text \<open>
  One constructor per exception class the library raises, then the built-in ones that can escape.
  A message is kept up to its formatted tail: the text that tells one raise from another.
\<close>

datatype py_error =
    BTClibEccValueError string
  | BTClibEccTypeError string
  | BTClibEccRuntimeError string
  | InvalidContributionError "nat option" string
  | BorromeanRingError string "nat option" "nat option"
  | OverflowError
  | IndexError
  | ZeroDivisionError
  | ValueError string

type_synonym 'a result = "py_error + 'a"

definition rbind :: "'a result \<Rightarrow> ('a \<Rightarrow> 'b result) \<Rightarrow> 'b result" where
  "rbind m f = (case m of Inl e \<Rightarrow> Inl e | Inr x \<Rightarrow> f x)"

definition require :: "bool \<Rightarrow> py_error \<Rightarrow> unit result" where
  "require c e = (if c then Inr () else Inl e)"

fun is_ok :: "'a result \<Rightarrow> bool" where
  "is_ok (Inr _) = True"
| "is_ok (Inl _) = False"

primrec rmap :: "('a \<Rightarrow> 'b result) \<Rightarrow> 'a list \<Rightarrow> 'b list result" where
  "rmap f [] = Inr []"
| "rmap f (x # xs) = rbind (f x) (\<lambda>y. rbind (rmap f xs) (\<lambda>ys. Inr (y # ys)))"

lemma rbind_simps [simp]:
  "rbind (Inl e) f = Inl e"
  "rbind (Inr x) f = f x"
  by (simp_all add: rbind_def)

lemma rbind_eq_Inr_iff: "rbind m f = Inr y \<longleftrightarrow> (\<exists>x. m = Inr x \<and> f x = Inr y)"
  by (cases m) simp_all

lemma rbind_eq_Inl_iff: "rbind m f = Inl e \<longleftrightarrow> m = Inl e \<or> (\<exists>x. m = Inr x \<and> f x = Inl e)"
  by (cases m) simp_all

lemma require_simps [simp]:
  "require True e = Inr ()"
  "require False e = Inl e"
  by (simp_all add: require_def)

lemma require_eq_Inr_iff [simp]: "require c e = Inr u \<longleftrightarrow> c"
  by (simp add: require_def)

lemma require_eq_Inl_iff [simp]: "require c e = Inl e' \<longleftrightarrow> \<not> c \<and> e' = e"
  by (auto simp: require_def)

lemma rmap_Inr: "(\<And>x. x \<in> set xs \<Longrightarrow> f x = Inr (g x)) \<Longrightarrow> rmap f xs = Inr (map g xs)"
  by (induction xs) auto

primrec rfold :: "('s \<Rightarrow> 'a \<Rightarrow> 's result) \<Rightarrow> 's \<Rightarrow> 'a list \<Rightarrow> 's result" where
  "rfold f s [] = Inr s"
| "rfold f s (x # xs) = rbind (f s x) (\<lambda>s'. rfold f s' xs)"

text \<open>A Python subscript: a negative index counts from the end, one out of range raises.\<close>

definition py_nth :: "'a list \<Rightarrow> int \<Rightarrow> 'a result" where
  "py_nth xs i =
     (let j = (if i < 0 then i + int (length xs) else i)
      in if 0 \<le> j \<and> j < int (length xs) then Inr (xs ! nat j) else Inl IndexError)"

lemma py_nth_in_range [simp]: "0 \<le> i \<Longrightarrow> i < int (length xs) \<Longrightarrow> py_nth xs i = Inr (xs ! nat i)"
  by (simp add: py_nth_def)

lemma all_nth_snoc:
  assumes "\<And>i. i < length T \<Longrightarrow> P i (T ! i)" and "P (length T) x" and "i < length (T @ [x])"
  shows "P i ((T @ [x]) ! i)"
  using assms by (cases "i = length T") (simp_all add: nth_append)

lemma py_nth_last [simp]: "xs \<noteq> [] \<Longrightarrow> py_nth xs (- 1) = Inr (last xs)"
  by (cases xs rule: rev_cases) (simp_all add: py_nth_def nth_append)

section \<open>What a call returns\<close>

text \<open>
  \<open>returns m Q\<close>: the call does not raise and its value satisfies \<open>Q\<close>. The rules take a call apart the
  way it is composed.
\<close>

named_theorems returns_intros \<open>a call returns a value with the property\<close>

definition returns :: "'a result \<Rightarrow> ('a \<Rightarrow> bool) \<Rightarrow> bool" where
  "returns m Q \<longleftrightarrow> (\<exists>x. m = Inr x \<and> Q x)"

lemma returns_Inr [simp]: "returns (Inr x) Q \<longleftrightarrow> Q x"
  by (simp add: returns_def)

lemma returns_Inl [simp]: "\<not> returns (Inl e) Q"
  by (simp add: returns_def)

lemma returns_InrI [returns_intros]: "Q x \<Longrightarrow> returns (Inr x) Q"
  by simp

lemma returns_rbind: "returns m Q \<Longrightarrow> (\<And>x. Q x \<Longrightarrow> returns (f x) R) \<Longrightarrow> returns (rbind m f) R"
  by (auto simp: returns_def)

lemma returns_rbind_iff: "returns (rbind m f) R \<longleftrightarrow> returns m (\<lambda>x. returns (f x) R)"
  by (cases m) simp_all

lemma returns_mono: "returns m Q \<Longrightarrow> (\<And>x. Q x \<Longrightarrow> R x) \<Longrightarrow> returns m R"
  by (auto simp: returns_def)

lemma returns_rfold:
  assumes "I s v" "\<And>x s v. x \<in> set xs \<Longrightarrow> I s v \<Longrightarrow> returns (f s x) (\<lambda>s'. I s' (g v x))"
  shows "returns (rfold f s xs) (\<lambda>s'. I s' (foldl g v xs))"
  using assms
proof (induction xs arbitrary: s v)
  case (Cons x xs)
  have "returns (f s x) (\<lambda>s'. I s' (g v x))" using Cons.prems by simp
  then show ?case unfolding rfold.simps foldl.simps
    by (rule returns_rbind) (use Cons in simp)
qed simp

lemma foldl_rel:
  assumes "I s v" "\<And>x s v. x \<in> set xs \<Longrightarrow> I s v \<Longrightarrow> I (f s x) (g v x)"
  shows "I (foldl f s xs) (foldl g v xs)"
  using assms by (induction xs arbitrary: s v) simp_all

lemma foldl_add_rev: "foldl (\<lambda>v i. v + f i) v (rev [0..<k]) = v + (\<Sum>i<k. f i)" for v :: int
  by (induction k arbitrary: v) (simp_all add: algebra_simps)

section \<open>Integers\<close>

text \<open>\<^verbatim>\<open>int.bit_length\<close>, and the quotient rounded up.\<close>

function bit_length :: "int \<Rightarrow> nat" where
  "bit_length m = (if m = 0 then 0 else Suc (bit_length (\<bar>m\<bar> div 2)))"
  by auto
termination by (relation "measure (\<lambda>m. nat \<bar>m\<bar>)") auto

declare bit_length.simps [simp del]

lemma bit_length_upper: "0 \<le> m \<Longrightarrow> m < 2 ^ bit_length m"
proof (induction m rule: bit_length.induct)
  case (1 m)
  show ?case
  proof (cases "m = 0")
    case False
    have "m div 2 < 2 ^ bit_length (m div 2)" using 1 False by simp
    then show ?thesis using 1(2) False by (subst bit_length.simps) simp
  qed (simp add: bit_length.simps)
qed

lemma bit_length_least: "0 \<le> m \<Longrightarrow> m < 2 ^ k \<Longrightarrow> bit_length m \<le> k"
proof (induction m arbitrary: k rule: bit_length.induct)
  case (1 m)
  show ?case
  proof (cases "m = 0")
    case False
    then obtain j where k: "k = Suc j" using 1(3) 1(2) by (cases k) auto
    then have "bit_length (m div 2) \<le> j" using 1 False by simp
    then show ?thesis using 1(2) False k by (subst bit_length.simps) simp
  qed (simp add: bit_length.simps)
qed

definition ceil_div :: "int \<Rightarrow> int \<Rightarrow> int" where
  "ceil_div a b = - ((- a) div b)"

lemma ceil_div_bound: "0 < b \<Longrightarrow> a \<le> b * ceil_div a b"
  unfolding ceil_div_def by (smt (verit) minus_mult_right mult.commute pos_mod_sign minus_mod_eq_mult_div)

section \<open>Octets\<close>

type_synonym octets = "8 word list"

section \<open>Congruence modulo the field prime\<close>

text \<open>
  Congruences are written as divisibilities of a difference, the form the \<^theory_text>\<open>algebra\<close>
  method decides.
\<close>

named_theorems cong_intros \<open>reduced terms are congruent to the unreduced ones\<close>

lemma dvd_mod_diff [cong_intros]: "(m::int) dvd (x mod m - x)"
  by (simp add: mod_eq_dvd_iff [symmetric])

lemma dvd_diff_mod [cong_intros]: "(m::int) dvd (x - x mod m)"
  by (simp add: mod_eq_dvd_iff [symmetric])

lemma eq_if_dvd_diff:
  fixes m :: int
  assumes "m dvd (x - y)" "0 \<le> x" "x < m" "0 \<le> y" "y < m"
  shows "x = y"
  using assms by (metis mod_eq_dvd_iff mod_pos_pos_trivial)

lemma mod_eq_if_dvd_diff: "(m::int) dvd (x - y) \<Longrightarrow> x mod m = y mod m"
  by (simp add: mod_eq_dvd_iff)

lemma dvd_range_zero_iff: "0 \<le> (x::int) \<Longrightarrow> x < m \<Longrightarrow> m dvd x \<longleftrightarrow> x = 0"
  by (metis dvd_0_right leD less_le zdvd_imp_le)

end
