(* ===== verification/Prime_Field.thy ===== *)
theory Prime_Field
  imports Prelude
begin

text \<open>
  Arithmetic modulo a prime, as far as the curve and the signature schemes rely on it: primality,
  cancellation, Fermat's little theorem, and the modular inverse by the extended Euclidean
  algorithm. Nothing here models code; it is the mathematics the code is compared with.
\<close>

section \<open>Primes\<close>

definition prime_int :: "int \<Rightarrow> bool" where
  "prime_int p \<longleftrightarrow> 1 < p \<and> (\<forall>d. 0 < d \<longrightarrow> d dvd p \<longrightarrow> d = 1 \<or> d = p)"

lemma prime_int_gt_1: "prime_int p \<Longrightarrow> 1 < p"
  by (simp add: prime_int_def)

lemma prime_int_pos [simp]: "prime_int p \<Longrightarrow> 0 < p"
  by (simp add: prime_int_def)

lemma prime_int_by_trial:
  assumes "1 < p" and "list_all (\<lambda>d. \<not> d dvd p) [2..p - 1]"
  shows "prime_int p"
  unfolding prime_int_def
proof (intro conjI allI impI)
  fix d assume "0 < d" "d dvd p"
  then have "d \<le> p" using assms(1) zdvd_imp_le by simp
  show "d = 1 \<or> d = p"
  proof (rule ccontr)
    assume "\<not> (d = 1 \<or> d = p)"
    with \<open>0 < d\<close> \<open>d \<le> p\<close> have "d \<in> set [2..p - 1]" by auto
    with assms(2) \<open>d dvd p\<close> show False by (auto simp: list_all_iff)
  qed
qed (use assms in simp)

lemma prime_int_coprime:
  assumes "prime_int p" "\<not> p dvd a"
  shows "coprime a p"
proof (rule coprimeI)
  fix c assume c: "c dvd a" "c dvd p"
  have "p \<noteq> 0" using assms(1) prime_int_gt_1 by force
  then have "0 < \<bar>c\<bar>" "\<bar>c\<bar> dvd p" using c(2) by auto
  then have "\<bar>c\<bar> = 1 \<or> \<bar>c\<bar> = p" using assms(1) by (simp add: prime_int_def)
  then show "is_unit c" using c(1) assms(2) by auto
qed

lemma prime_int_dvd_mult_iff:
  assumes "prime_int p"
  shows "p dvd a * b \<longleftrightarrow> p dvd a \<or> p dvd b"
  using prime_int_coprime [OF assms, of a] coprime_dvd_mult_right_iff [of p a b]
  by (auto simp: coprime_commute)

lemma prime_dvd_cancel:
  "prime_int p \<Longrightarrow> p dvd a * c \<Longrightarrow> \<not> p dvd c \<Longrightarrow> p dvd a"
  by (simp add: prime_int_dvd_mult_iff)

lemma prime_int_dvd_power: "prime_int p \<Longrightarrow> p dvd a ^ k \<Longrightarrow> p dvd a"
proof (induction k)
  case 0
  then show ?case using prime_int_gt_1 [of p] zdvd_imp_le [of p 1] by simp
qed (auto simp: prime_int_dvd_mult_iff)

lemma prime_odd: "prime_int p \<Longrightarrow> 2 < p \<Longrightarrow> odd p"
  unfolding prime_int_def by (metis dual_order.strict_iff_order one_less_numeral_iff
      rel_simps(51) semiring_norm(76) zero_less_numeral)

lemma prime_not_dvd_2: "prime_int p \<Longrightarrow> 2 < p \<Longrightarrow> \<not> p dvd 2"
  using zdvd_imp_le [of p 2] by auto

section \<open>The modular inverse\<close>

text \<open>
  Python's \<^verbatim>\<open>pow(a, -1, m)\<close> returns the \<^verbatim>\<open>x\<close> of \<open>0..m-1\<close> with \<^verbatim>\<open>a*x = 1 (mod m)\<close>. The value is
  computed here from the Bezout coefficients of the two operands.
\<close>

definition inv_mod :: "int \<Rightarrow> int \<Rightarrow> int" where
  "inv_mod a m = fst (bezw (nat (a mod m)) (nat m)) mod m"

lemma inv_mod_correct:
  assumes "0 < m" "coprime a m"
  shows "m dvd (a * inv_mod a m - 1)"
proof -
  define x where "x = fst (bezw (nat (a mod m)) (nat m))"
  define y where "y = snd (bezw (nat (a mod m)) (nat m))"
  have am: "0 \<le> a mod m" using assms(1) by simp
  have "x * int (nat (a mod m)) + y * int (nat m) = int (gcd (nat (a mod m)) (nat m))"
    unfolding x_def y_def by (rule bezw_aux [symmetric])
  moreover have "int (gcd (nat (a mod m)) (nat m)) = gcd (a mod m) m"
    using am assms(1) by (simp add: gcd_int_def nat_abs_int_diff)
  moreover have "gcd (a mod m) m = 1"
    using assms by (metis coprime_iff_gcd_eq_1 gcd_red_int gcd.commute)
  ultimately have e: "x * (a mod m) + y * m = 1"
    using am assms(1) by simp
  have "m dvd (x mod m - x)" "m dvd (a mod m - a)" by (rule dvd_mod_diff)+
  with e have "m dvd (a * (x mod m) - 1)" by algebra
  then show ?thesis by (simp add: inv_mod_def x_def)
qed

lemma inv_mod_range [simp]: "0 < m \<Longrightarrow> 0 \<le> inv_mod a m" "0 < m \<Longrightarrow> inv_mod a m < m"
  by (simp_all add: inv_mod_def)

lemma inverse_unique:
  fixes m :: int
  assumes "m dvd (a * x - 1)" "m dvd (a * y - 1)"
  shows "m dvd (x - y)"
  using assms by algebra

lemma inverse_coprime:
  fixes m :: int
  assumes "m dvd (a * x - 1)"
  shows "coprime a m"
proof (rule coprimeI)
  fix c assume "c dvd a" "c dvd m"
  then have "c dvd a * x - 1" "c dvd a * x" using assms dvd_trans by auto
  then show "is_unit c" by (metis dvd_diff_right_iff)
qed

lemma inv_mod_eqI:
  assumes "0 < m" "m dvd (a * x - 1)" "0 \<le> x" "x < m"
  shows "inv_mod a m = x"
proof -
  have "m dvd (a * inv_mod a m - 1)"
    using inv_mod_correct assms(1) inverse_coprime [OF assms(2)] by blast
  then have "m dvd (inv_mod a m - x)" using assms(2) by (rule inverse_unique)
  then show ?thesis using eq_if_dvd_diff assms by simp
qed

lemma inv_mod_prime:
  assumes "prime_int p" "\<not> p dvd a"
  shows "p dvd (a * inv_mod a p - 1)"
  using assms prime_int_coprime inv_mod_correct prime_int_pos by blast

section \<open>Fermat's little theorem\<close>

lemma prime_dvd_binomial:
  assumes "prime_int (int p)" "0 < k" "k < p"
  shows "int p dvd int (p choose k)"
proof -
  have "int k * int (p choose k) = int p * int ((p - 1) choose (k - 1))"
    using times_binomial_minus1_eq [of k p] assms(2) by (metis of_nat_mult)
  then have "int p dvd int k * int (p choose k)" by simp
  moreover have "\<not> int p dvd int k" using assms(2,3) by (simp add: nat_dvd_not_less)
  ultimately show ?thesis using assms(1) by (simp add: prime_int_dvd_mult_iff)
qed

lemma freshman_dream:
  assumes "prime_int (int p)"
  shows "int p dvd ((a + 1) ^ p - (a ^ p + 1))"
proof -
  have p: "1 < p" using prime_int_gt_1 [OF assms] by simp
  have "(a + 1) ^ p = (\<Sum>k\<le>p. of_nat (p choose k) * a ^ k)"
    by (simp add: binomial_ring)
  also have "{..p} = insert 0 (insert p {0<..<p})" using p by auto
  also have "(\<Sum>k\<in>insert 0 (insert p {0<..<p}). of_nat (p choose k) * a ^ k)
      = 1 + a ^ p + (\<Sum>k\<in>{0<..<p}. of_nat (p choose k) * a ^ k)"
    using p by simp
  finally have e: "(a + 1) ^ p - (a ^ p + 1) = (\<Sum>k\<in>{0<..<p}. of_nat (p choose k) * a ^ k)"
    by simp
  show ?thesis
    unfolding e using assms prime_dvd_binomial by (auto intro!: dvd_sum)
qed

lemma fermat_nat:
  assumes "prime_int (int p)"
  shows "int p dvd (int a ^ p - int a)"
proof (induction a)
  case 0
  have "0 < p" using prime_int_pos [OF assms] by simp
  then show ?case by (simp add: zero_power)
next
  case (Suc a)
  have "int p dvd ((int a + 1) ^ p - (int a ^ p + 1))" using assms by (rule freshman_dream)
  with Suc have "int p dvd ((int a + 1) ^ p - (int a ^ p + 1) + (int a ^ p - int a))"
    by (rule dvd_add [rotated])
  then show ?case by (simp add: algebra_simps)
qed

theorem fermat_little:
  assumes "prime_int p" "\<not> p dvd a"
  shows "p dvd (a ^ nat (p - 1) - 1)"
proof -
  define q where "q = nat p"
  have q: "int q = p" "0 < q" using prime_int_pos [OF assms(1)] by (auto simp: q_def)
  define b where "b = nat (a mod p)"
  have b: "int b = a mod p" using prime_int_pos [OF assms(1)] by (simp add: b_def)
  have "p dvd (int b ^ q - int b)" using fermat_nat [of q b] q assms(1) by simp
  then have "(a mod p) ^ q mod p = a mod p" by (simp add: b mod_eq_dvd_iff [symmetric])
  then have "p dvd (a ^ q - a)" by (simp add: power_mod mod_eq_dvd_iff [symmetric])
  moreover have "a ^ q - a = (a ^ nat (p - 1) - 1) * a"
  proof -
    have "q = Suc (nat (p - 1))" using q by simp
    then show ?thesis by (simp add: algebra_simps)
  qed
  ultimately show ?thesis using assms by (simp add: prime_int_dvd_mult_iff)
qed

section \<open>Square roots\<close>

lemma prime_square_cases:
  assumes "prime_int p" "p dvd (x * x - y * y)"
  shows "p dvd (x - y) \<or> p dvd (x + y)"
proof -
  have "p dvd (x - y) * (x + y)" using assms(2) by (simp add: algebra_simps)
  then show ?thesis using assms(1) by (simp add: prime_int_dvd_mult_iff)
qed

end
