(* ===== verification/Group_Law.thy ===== *)
theory Group_Law
  imports Prime_Field
begin

text \<open>
  The abstract specification every curve routine of the package refines: the points of a short
  Weierstrass curve over the integers modulo a prime \<^verbatim>\<open>p > 2\<close>, with a constructor of its own for
  the point at infinity, and the chord-and-tangent addition. The theory proves that the points
  form a commutative group.

  The associativity proof is by slopes. If \<open>l\<close> is the slope of the line through P1 and P2 (a chord
  or a tangent, \<open>line_slope\<close> covers both), \<open>m\<close> the slope through P2 and P3 and \<open>n\<close> the slope
  through P1 + P2 and P3, then \<open>(l - m) * (n + l) = x1 - x3\<close>: this one identity
  (\<open>slope_identity\<close>), used in both directions, makes the two ways to add three points agree.
\<close>

section \<open>Points and curves\<close>

datatype point = Inf | Pt (px: int) (py: int)

definition nonsingular :: "int \<Rightarrow> int \<Rightarrow> int \<Rightarrow> bool" where
  "nonsingular p a b \<longleftrightarrow> \<not> p dvd (4 * a * a * a + 27 * b * b)"

definition curve_params :: "int \<Rightarrow> int \<Rightarrow> int \<Rightarrow> bool" where
  "curve_params p a b \<longleftrightarrow>
     prime_int p \<and> 2 < p \<and> 0 \<le> a \<and> a < p \<and> 0 \<le> b \<and> b < p \<and> nonsingular p a b"

fun on_curve :: "int \<Rightarrow> int \<Rightarrow> int \<Rightarrow> point \<Rightarrow> bool" where
  "on_curve p a b Inf = True"
| "on_curve p a b (Pt x y) =
     (0 \<le> x \<and> x < p \<and> 0 \<le> y \<and> y < p \<and> p dvd (y * y - (x * x * x + a * x + b)))"

fun ec_neg :: "int \<Rightarrow> point \<Rightarrow> point" where
  "ec_neg p Inf = Inf"
| "ec_neg p (Pt x y) = Pt x ((- y) mod p)"

definition third_point :: "int \<Rightarrow> int \<Rightarrow> int \<Rightarrow> int \<Rightarrow> int \<Rightarrow> point" where
  "third_point p l x1 y1 x2 =
     (let x3 = (l * l - x1 - x2) mod p in Pt x3 ((l * (x1 - x3) - y1) mod p))"

fun ec_add :: "int \<Rightarrow> int \<Rightarrow> point \<Rightarrow> point \<Rightarrow> point" where
  "ec_add p a Inf Q = Q"
| "ec_add p a (Pt x y) Inf = Pt x y"
| "ec_add p a (Pt x1 y1) (Pt x2 y2) =
     (if x1 = x2 \<and> p dvd (y1 + y2) then Inf
      else third_point p
        (if x1 = x2 then (3 * x1 * x1 + a) * inv_mod (2 * y1) p
         else (y2 - y1) * inv_mod (x2 - x1) p) x1 y1 x2)"

lemma ec_add_Inf_right [simp]: "ec_add p a P Inf = P"
  by (cases P) simp_all

section \<open>The line through two points\<close>

text \<open>
  \<open>l\<close> is the slope of the line that meets the curve at both points: the first congruence fixes it
  for a chord, the second for a tangent, and each implies the other where it does.
\<close>

definition line_slope :: "int \<Rightarrow> int \<Rightarrow> int \<Rightarrow> int \<Rightarrow> int \<Rightarrow> int \<Rightarrow> int \<Rightarrow> bool" where
  "line_slope p a x1 y1 x2 y2 l \<longleftrightarrow>
     p dvd (y1 - y2 - l * (x1 - x2)) \<and>
     p dvd (l * (y1 + y2) - (x1 * x1 + x1 * x2 + x2 * x2 + a))"

definition opposite :: "int \<Rightarrow> int \<Rightarrow> int \<Rightarrow> int \<Rightarrow> int \<Rightarrow> bool" where
  "opposite p x1 y1 x2 y2 \<longleftrightarrow> x1 = x2 \<and> p dvd (y1 + y2)"

lemma line_slope_sym: "line_slope p a x1 y1 x2 y2 l \<Longrightarrow> line_slope p a x2 y2 x1 y1 l"
  unfolding line_slope_def by (intro conjI; elim conjE) algebra+

lemma line_slope_cong:
  assumes "line_slope p a x1 y1 x2 y2 l" "p dvd (k - l)"
  shows "line_slope p a x1 y1 x2 y2 k"
  using assms unfolding line_slope_def by (intro conjI; elim conjE) algebra+

lemma same_x:
  assumes "prime_int p" "on_curve p a b (Pt x y1)" "on_curve p a b (Pt x y2)"
  shows "y1 = y2 \<or> p dvd (y1 + y2)"
proof -
  have "p dvd (y1 * y1 - (x * x * x + a * x + b))" "p dvd (y2 * y2 - (x * x * x + a * x + b))"
    using assms by simp_all
  then have "p dvd (y1 * y1 - y2 * y2)" by algebra
  then show ?thesis
    using prime_square_cases [OF assms(1)] eq_if_dvd_diff assms(2,3) by (metis on_curve.simps(2))
qed

lemma line_slope_unique:
  assumes "prime_int p" "on_curve p a b (Pt x1 y1)" "on_curve p a b (Pt x2 y2)"
    and "\<not> opposite p x1 y1 x2 y2"
    and "line_slope p a x1 y1 x2 y2 l" "line_slope p a x1 y1 x2 y2 k"
  shows "p dvd (l - k)"
proof (cases "x1 = x2")
  case True
  have "p dvd (l - k) * (y1 + y2)"
    using assms(5,6) unfolding line_slope_def by (elim conjE) algebra
  moreover have "\<not> p dvd (y1 + y2)" using True assms(4) by (simp add: opposite_def)
  ultimately show ?thesis using assms(1) prime_dvd_cancel by blast
next
  case False
  have "p dvd (l - k) * (x1 - x2)"
    using assms(5,6) unfolding line_slope_def by (elim conjE) algebra
  moreover have "\<not> p dvd (x1 - x2)"
    using False eq_if_dvd_diff assms(2,3) by (metis on_curve.simps(2))
  ultimately show ?thesis using assms(1) prime_dvd_cancel by blast
qed

lemma chord_slope:
  assumes "prime_int p" "on_curve p a b (Pt x1 y1)" "on_curve p a b (Pt x2 y2)" "x1 \<noteq> x2"
  shows "line_slope p a x1 y1 x2 y2 ((y2 - y1) * inv_mod (x2 - x1) p)" (is "line_slope _ _ _ _ _ _ ?l")
proof -
  have nz: "\<not> p dvd (x2 - x1)"
    using assms(2-4) eq_if_dvd_diff by (metis on_curve.simps(2))
  have i: "p dvd ((x2 - x1) * inv_mod (x2 - x1) p - 1)"
    using assms(1) nz by (rule inv_mod_prime)
  have 1: "p dvd (y1 - y2 - ?l * (x1 - x2))" using i by algebra
  have c: "p dvd (y1 * y1 - (x1 * x1 * x1 + a * x1 + b))"
    "p dvd (y2 * y2 - (x2 * x2 * x2 + a * x2 + b))" using assms(2,3) by simp_all
  have "p dvd (?l * (y1 + y2) - (x1 * x1 + x1 * x2 + x2 * x2 + a)) * (x2 - x1)"
  proof -
    have "p dvd (?l * (x2 - x1) - (y2 - y1))" using i by algebra
    then show ?thesis using c by algebra
  qed
  then have "p dvd (?l * (y1 + y2) - (x1 * x1 + x1 * x2 + x2 * x2 + a))"
    using assms(1) nz prime_dvd_cancel by blast
  with 1 show ?thesis by (simp add: line_slope_def)
qed

lemma tangent_slope:
  assumes "prime_int p" "2 < p" "\<not> p dvd y"
  shows "line_slope p a x y x y ((3 * x * x + a) * inv_mod (2 * y) p)"
proof -
  have "\<not> p dvd 2 * y"
    using assms prime_not_dvd_2 by (simp add: prime_int_dvd_mult_iff)
  then have "p dvd (2 * y * inv_mod (2 * y) p - 1)"
    using assms(1) by (intro inv_mod_prime)
  then have "p dvd ((3 * x * x + a) * inv_mod (2 * y) p * (y + y) - (x * x + x * x + x * x + a))"
    by algebra
  then show ?thesis by (simp add: line_slope_def)
qed

section \<open>Addition along a line\<close>

lemma third_point_eqI:
  assumes "0 < p" "0 \<le> x3" "x3 < p" "0 \<le> y3" "y3 < p"
    and "p dvd (x3 - (l * l - x1 - x2))" "p dvd (y3 - (l * (x1 - x3) - y1))"
  shows "third_point p l x1 y1 x2 = Pt x3 y3"
proof -
  have x: "(l * l - x1 - x2) mod p = x3"
    using assms by (metis mod_eq_if_dvd_diff mod_pos_pos_trivial)
  have "(l * (x1 - x3) - y1) mod p = y3"
    using assms by (metis mod_eq_if_dvd_diff mod_pos_pos_trivial)
  with x show ?thesis by (simp add: third_point_def)
qed

lemma third_pointE:
  assumes "0 < p"
  obtains x3 y3 where "third_point p l x1 y1 x2 = Pt x3 y3"
    "0 \<le> x3" "x3 < p" "0 \<le> y3" "y3 < p"
    "p dvd (x3 - (l * l - x1 - x2))" "p dvd (y3 - (l * (x1 - x3) - y1))"
proof
  let ?x = "(l * l - x1 - x2) mod p"
  show "third_point p l x1 y1 x2 = Pt ?x ((l * (x1 - ?x) - y1) mod p)"
    by (simp add: third_point_def Let_def)
qed (use assms in \<open>auto intro: dvd_mod_diff\<close>)

lemma third_point_cong:
  assumes "0 < p" "p dvd (l - k)"
  shows "third_point p l x1 y1 x2 = third_point p k x1 y1 x2"
proof -
  obtain x3 y3 where t: "third_point p k x1 y1 x2 = Pt x3 y3"
    "0 \<le> x3" "x3 < p" "0 \<le> y3" "y3 < p"
    and d: "p dvd (x3 - (k * k - x1 - x2))" "p dvd (y3 - (k * (x1 - x3) - y1))"
    using third_pointE [OF assms(1)] .
  have "p dvd (x3 - (l * l - x1 - x2))" using d(1) assms(2) by algebra
  moreover have "p dvd (y3 - (l * (x1 - x3) - y1))" using d(2) assms(2) by algebra
  ultimately show ?thesis using t third_point_eqI assms(1) by presburger
qed

lemma ec_add_line:
  assumes "prime_int p" "2 < p" "on_curve p a b (Pt x1 y1)" "on_curve p a b (Pt x2 y2)"
    and "\<not> opposite p x1 y1 x2 y2" "line_slope p a x1 y1 x2 y2 l"
  shows "ec_add p a (Pt x1 y1) (Pt x2 y2) = third_point p l x1 y1 x2"
proof (cases "x1 = x2")
  case True
  then have "y1 = y2" using same_x assms(1,3-5) unfolding opposite_def by blast
  have "\<not> p dvd y1" using assms(5) True \<open>y1 = y2\<close> by (auto simp: opposite_def)
  then have t: "line_slope p a x1 y1 x2 y2 ((3 * x1 * x1 + a) * inv_mod (2 * y1) p)"
    using True \<open>y1 = y2\<close> tangent_slope assms(1,2) by simp
  have "p dvd ((3 * x1 * x1 + a) * inv_mod (2 * y1) p - l)"
    by (rule line_slope_unique [OF assms(1,3,4,5) t assms(6)])
  then show ?thesis using True assms(1,5) third_point_cong prime_int_pos
    by (auto simp: opposite_def)
next
  case False
  have "p dvd ((y2 - y1) * inv_mod (x2 - x1) p - l)"
    by (rule line_slope_unique [OF assms(1,3,4,5) chord_slope [OF assms(1,3,4) False] assms(6)])
  then show ?thesis using False assms(1) third_point_cong prime_int_pos by auto
qed

lemma line_slope_ex:
  assumes "prime_int p" "2 < p" "on_curve p a b (Pt x1 y1)" "on_curve p a b (Pt x2 y2)"
    and "\<not> opposite p x1 y1 x2 y2"
  obtains l where "line_slope p a x1 y1 x2 y2 l"
proof (cases "x1 = x2")
  case True
  then have "y1 = y2" using same_x assms(1,3-5) unfolding opposite_def by blast
  have "\<not> p dvd y1" using assms(5) True \<open>y1 = y2\<close> by (auto simp: opposite_def)
  with True \<open>y1 = y2\<close> show ?thesis using that tangent_slope assms(1,2) by blast
next
  case False
  then show ?thesis using that chord_slope assms(1,3,4) by blast
qed

section \<open>Closure, commutativity, negation\<close>

lemma third_on_curve:
  fixes p :: int
  assumes "line_slope p a x1 y1 x2 y2 l"
    and c: "p dvd (y1 * y1 - (x1 * x1 * x1 + a * x1 + b))"
    and x: "p dvd (x3 - (l * l - x1 - x2))" and y: "p dvd (y3 - (l * (x1 - x3) - y1))"
  shows "p dvd (y3 * y3 - (x3 * x3 * x3 + a * x3 + b))"
proof -
  have s: "p dvd (y1 - y2 - l * (x1 - x2))" "p dvd (l * (y1 + y2) - (x1 * x1 + x1 * x2 + x2 * x2 + a))"
    using assms(1) by (simp_all add: line_slope_def)
  have t: "p dvd (l * (2 * y1 - l * (x1 - x2)) - (x1 * x1 + x1 * x2 + x2 * x2 + a))"
    using s by algebra
  have "p dvd (y3 * y3 - (l * (x3 - x1) + y1) * (l * (x3 - x1) + y1))" using y by algebra
  moreover have "p dvd ((l * (x3 - x1) + y1) * (l * (x3 - x1) + y1) - (x3 * x3 * x3 + a * x3 + b))"
    using t c x by algebra
  ultimately show ?thesis by algebra
qed

lemma ec_add_closed:
  assumes "prime_int p" "2 < p" "on_curve p a b P" "on_curve p a b Q"
  shows "on_curve p a b (ec_add p a P Q)"
proof (cases P)
  case (Pt x1 y1)
  note P = this
  show ?thesis
  proof (cases Q)
    case (Pt x2 y2)
    note Q = this
    show ?thesis
    proof (cases "opposite p x1 y1 x2 y2")
      case True
      then show ?thesis by (simp add: P Q opposite_def)
    next
      case False
      have on: "on_curve p a b (Pt x1 y1)" "on_curve p a b (Pt x2 y2)"
        using assms(3,4) P Q by simp_all
      obtain l where l: "line_slope p a x1 y1 x2 y2 l"
        using line_slope_ex [OF assms(1,2) on False] .
      have e: "ec_add p a P Q = third_point p l x1 y1 x2"
        unfolding P Q using ec_add_line [OF assms(1,2) on False l] .
      have "0 < p" using assms(2) by simp
      then obtain x3 y3 where t: "third_point p l x1 y1 x2 = Pt x3 y3"
        "0 \<le> x3" "x3 < p" "0 \<le> y3" "y3 < p"
        and d: "p dvd (x3 - (l * l - x1 - x2))" "p dvd (y3 - (l * (x1 - x3) - y1))"
        by (rule third_pointE)
      have "p dvd (y3 * y3 - (x3 * x3 * x3 + a * x3 + b))"
        using third_on_curve [OF l _ d] on(1) by simp
      then show ?thesis using e t by simp
    qed
  qed (use assms P in auto)
qed (use assms in auto)

lemma ec_neg_closed:
  assumes "0 < p" "on_curve p a b P"
  shows "on_curve p a b (ec_neg p P)"
proof (cases P)
  case (Pt x y)
  have "p dvd ((- y) mod p - (- y))" by (rule dvd_mod_diff)
  then have "p dvd ((- y) mod p * ((- y) mod p) - y * y)" by algebra
  moreover have "p dvd (y * y - (x * x * x + a * x + b))" using assms Pt by simp
  ultimately have "p dvd ((- y) mod p * ((- y) mod p) - (x * x * x + a * x + b))" by algebra
  then show ?thesis using assms Pt by simp
qed simp

lemma ec_add_comm:
  assumes "prime_int p" "2 < p" "on_curve p a b P" "on_curve p a b Q"
  shows "ec_add p a P Q = ec_add p a Q P"
proof (cases P)
  case (Pt x1 y1)
  note P = this
  show ?thesis
  proof (cases Q)
    case (Pt x2 y2)
    note Q = this
    show ?thesis
    proof (cases "opposite p x1 y1 x2 y2")
      case True
      then show ?thesis by (simp add: P Q opposite_def add.commute)
    next
      case False
      then have False': "\<not> opposite p x2 y2 x1 y1" by (auto simp: opposite_def add.commute)
      have on: "on_curve p a b (Pt x1 y1)" "on_curve p a b (Pt x2 y2)"
        using assms(3,4) P Q by simp_all
      obtain l where l: "line_slope p a x1 y1 x2 y2 l"
        using line_slope_ex [OF assms(1,2) on False] .
      have "0 < p" using assms(2) by simp
      then obtain x3 y3 where t: "third_point p l x1 y1 x2 = Pt x3 y3"
        "0 \<le> x3" "x3 < p" "0 \<le> y3" "y3 < p"
        and d: "p dvd (x3 - (l * l - x1 - x2))" "p dvd (y3 - (l * (x1 - x3) - y1))"
        by (rule third_pointE)
      have s: "p dvd (y1 - y2 - l * (x1 - x2))" using l by (simp add: line_slope_def)
      have "p dvd (x3 - (l * l - x2 - x1))" using d(1) by algebra
      moreover have "p dvd (y3 - (l * (x2 - x3) - y2))" using d(2) s by algebra
      ultimately have "third_point p l x2 y2 x1 = Pt x3 y3"
        using t third_point_eqI \<open>0 < p\<close> by presburger
      then show ?thesis unfolding P Q
        using t ec_add_line [OF assms(1,2) on False l]
          ec_add_line [OF assms(1,2) on(2,1) False' line_slope_sym [OF l]] by simp
    qed
  qed (use P in simp)
qed simp

lemma opposite_iff_neg:
  assumes "on_curve p a b (Pt x1 y1)" "on_curve p a b (Pt x2 y2)"
  shows "opposite p x1 y1 x2 y2 \<longleftrightarrow> Pt x2 y2 = ec_neg p (Pt x1 y1)"
proof -
  have r: "0 \<le> y2" "y2 < p" "0 < p" using assms by auto
  have "p dvd (y1 + y2) \<longleftrightarrow> y2 = (- y1) mod p"
  proof
    assume "p dvd (y1 + y2)"
    then have "p dvd (y2 - (- y1))" by (simp add: add.commute)
    then show "y2 = (- y1) mod p" using r mod_eq_if_dvd_diff by fastforce
  next
    assume "y2 = (- y1) mod p"
    then show "p dvd (y1 + y2)" using dvd_mod_diff [of p "- y1"] by (simp add: add.commute)
  qed
  then show ?thesis by (auto simp: opposite_def)
qed

lemma ec_add_neg:
  assumes "on_curve p a b P"
  shows "ec_add p a P (ec_neg p P) = Inf"
proof (cases P)
  case (Pt x y)
  have "p dvd (y + (- y) mod p)" using dvd_mod_diff [of p "- y"] by (simp add: add.commute)
  then show ?thesis by (simp add: Pt)
qed simp

lemma ec_neg_neg:
  assumes "on_curve p a b P"
  shows "ec_neg p (ec_neg p P) = P"
proof (cases P)
  case (Pt x y)
  then show ?thesis using assms by (simp add: mod_minus_eq)
qed simp

lemma ec_add_eq_Inf_iff:
  assumes "prime_int p" "2 < p" "on_curve p a b P" "on_curve p a b Q"
  shows "ec_add p a P Q = Inf \<longleftrightarrow> Q = ec_neg p P"
proof
  assume s: "ec_add p a P Q = Inf"
  show "Q = ec_neg p P"
  proof (cases P)
    case (Pt x1 y1)
    then show ?thesis
      using s assms opposite_iff_neg [of p a b x1 y1]
      by (cases Q) (auto simp: opposite_def third_point_def Let_def split: if_splits)
  qed (use s in auto)
next
  assume "Q = ec_neg p P"
  then show "ec_add p a P Q = Inf" using ec_add_neg assms(3) by simp
qed

lemma ec_neg_add:
  assumes "prime_int p" "2 < p" "on_curve p a b P" "on_curve p a b Q"
  shows "ec_neg p (ec_add p a P Q) = ec_add p a (ec_neg p P) (ec_neg p Q)"
proof (cases P)
  case (Pt x1 y1)
  note P = this
  show ?thesis
  proof (cases Q)
    case (Pt x2 y2)
    note Q = this
    have p0: "0 < p" using assms(2) by simp
    have on: "on_curve p a b (Pt x1 y1)" "on_curve p a b (Pt x2 y2)"
      using assms(3,4) P Q by simp_all
    define z1 z2 where "z1 = (- y1) mod p" and "z2 = (- y2) mod p"
    have z: "p dvd (z1 - (- y1))" "p dvd (z2 - (- y2))"
      unfolding z1_def z2_def by (rule dvd_mod_diff)+
    have on': "on_curve p a b (Pt x1 z1)" "on_curve p a b (Pt x2 z2)"
      using ec_neg_closed [OF p0 on(1)] ec_neg_closed [OF p0 on(2)] by (simp_all add: z1_def z2_def)
    have o: "opposite p x1 z1 x2 z2 \<longleftrightarrow> opposite p x1 y1 x2 y2"
    proof -
      have "p dvd (z1 + z2) \<longleftrightarrow> p dvd (y1 + y2)"
        using z by (auto; algebra)
      then show ?thesis by (simp add: opposite_def)
    qed
    show ?thesis
    proof (cases "opposite p x1 y1 x2 y2")
      case True
      with o have "opposite p x1 z1 x2 z2" by simp
      with True show ?thesis by (simp add: P Q opposite_def z1_def z2_def)
    next
      case False
      obtain l where l: "line_slope p a x1 y1 x2 y2 l"
        using line_slope_ex [OF assms(1,2) on False] .
      have l': "line_slope p a x1 z1 x2 z2 (- l)"
        using l z unfolding line_slope_def by (intro conjI; elim conjE) algebra+
      obtain x3 y3 where t: "third_point p l x1 y1 x2 = Pt x3 y3"
        "0 \<le> x3" "x3 < p" "0 \<le> y3" "y3 < p"
        and d: "p dvd (x3 - (l * l - x1 - x2))" "p dvd (y3 - (l * (x1 - x3) - y1))"
        using p0 by (rule third_pointE)
      define z3 where "z3 = (- y3) mod p"
      have z3: "p dvd (z3 - (- y3))" "0 \<le> z3" "z3 < p"
        unfolding z3_def using p0 dvd_mod_diff [of p "- y3"] by simp_all
      have "p dvd (x3 - ((- l) * (- l) - x1 - x2))" using d(1) by algebra
      moreover have "p dvd (z3 - ((- l) * (x1 - x3) - z1))" using d(2) z z3(1) by algebra
      ultimately have "third_point p (- l) x1 z1 x2 = Pt x3 z3"
        using t z3 third_point_eqI p0 by presburger
      then show ?thesis
        using ec_add_line [OF assms(1,2) on False l] ec_add_line [OF assms(1,2) on' _ l'] o False t
        by (simp add: P Q z1_def z2_def z3_def)
    qed
  qed (use P in simp)
qed simp

section \<open>Cancellation\<close>

text \<open>
  \<open>- P + (P + Q) = Q\<close>: the line through \<open>- P\<close> and \<open>P + Q\<close> is the mirror image of the line through
  \<open>P\<close> and \<open>Q\<close>. The discriminant enters here, and only here: it excludes a double point on the
  x-axis.
\<close>

lemma singular_at_double_root:
  fixes p :: int
  assumes "p dvd (x * x * x + a * x + b)" "p dvd (3 * x * x + a)"
  shows "p dvd (4 * a * a * a + 27 * b * b)"
proof -
  have a: "p dvd (a - (- (3 * x * x)))" using assms(2) by algebra
  have b: "p dvd (b - 2 * x * x * x)" using assms(1) a by algebra
  show ?thesis using a b by algebra
qed

lemma mirror_slope:
  assumes "curve_params p a b" "on_curve p a b (Pt x1 y1)" "on_curve p a b (Pt x2 y2)"
    and "\<not> opposite p x1 y1 x2 y2" "line_slope p a x1 y1 x2 y2 l"
    and x3: "p dvd (x3 - (l * l - x1 - x2))" and y3: "p dvd (y3 - (l * (x1 - x3) - y1))"
    and "0 \<le> x3" "x3 < p" "0 \<le> y3" "y3 < p" and z: "p dvd (z - (- y1))"
  shows "line_slope p a x1 z x3 y3 (- l)" "\<not> (x1 = x3 \<and> p dvd (z + y3))"
proof -
  have pr: "prime_int p" "2 < p" "nonsingular p a b" using assms(1) by (auto simp: curve_params_def)
  have s: "p dvd (y1 - y2 - l * (x1 - x2))" "p dvd (l * (y1 + y2) - (x1 * x1 + x1 * x2 + x2 * x2 + a))"
    using assms(5) by (simp_all add: line_slope_def)
  have tang: "p dvd (l * (2 * y1 - l * (x1 - x2)) - (x1 * x1 + x1 * x2 + x2 * x2 + a))"
    using s by algebra
  have u: "p dvd (- l * (z + y3) - (x1 * x1 + x1 * x3 + x3 * x3 + a))"
  proof -
    have "p dvd (z + y3 - (l * (x1 - x3) - 2 * y1))" using y3 z by algebra
    then show ?thesis using tang x3 by algebra
  qed
  have v: "p dvd (z - y3 - (- l) * (x1 - x3))" using y3 z by algebra
  show ls: "line_slope p a x1 z x3 y3 (- l)" using u v by (simp add: line_slope_def)
  show "\<not> (x1 = x3 \<and> p dvd (z + y3))"
  proof
    assume "x1 = x3 \<and> p dvd (z + y3)"
    then have x: "x1 = x3" and d: "p dvd (z + y3)" by auto
    have u': "p dvd (- l * (z + y3) - (x1 * x1 + x1 * x1 + x1 * x1 + a))" using u x by simp
    have v': "p dvd (z - y3)" using v x by simp
    have t: "p dvd (3 * x1 * x1 + a)" using u' d by algebra
    have "p dvd y1"
    proof -
      have "p dvd 2 * y1" using d v' z by algebra
      then show ?thesis using pr prime_not_dvd_2 by (simp add: prime_int_dvd_mult_iff)
    qed
    moreover have "p dvd (y1 * y1 - (x1 * x1 * x1 + a * x1 + b))" using assms(2) by simp
    ultimately have "p dvd (x1 * x1 * x1 + a * x1 + b)" by algebra
    then show False using t pr(3) singular_at_double_root by (simp add: nonsingular_def)
  qed
qed

lemma ec_add_cancel:
  assumes "curve_params p a b" "on_curve p a b P" "on_curve p a b Q"
  shows "ec_add p a (ec_neg p P) (ec_add p a P Q) = Q"
proof -
  have pr: "prime_int p" "2 < p" "0 < p" using assms(1) by (auto simp: curve_params_def)
  show ?thesis
  proof (cases P)
    case (Pt x1 y1)
    note P = this
    show ?thesis
    proof (cases Q)
      case Inf
      then show ?thesis
        using P assms(2) pr ec_add_comm ec_neg_closed ec_add_neg ec_add_Inf_right by metis
    next
      case (Pt x2 y2)
      note Q = this
      have on: "on_curve p a b (Pt x1 y1)" "on_curve p a b (Pt x2 y2)"
        using assms P Q by simp_all
      show ?thesis
      proof (cases "opposite p x1 y1 x2 y2")
        case True
        then have "Q = ec_neg p P" using on opposite_iff_neg P Q by blast
        then show ?thesis using ec_add_neg assms(2) by simp
      next
        case False
        obtain l where l: "line_slope p a x1 y1 x2 y2 l"
          using line_slope_ex [OF pr(1,2) on False] .
        obtain x3 y3 where t: "third_point p l x1 y1 x2 = Pt x3 y3"
          "0 \<le> x3" "x3 < p" "0 \<le> y3" "y3 < p"
          and d: "p dvd (x3 - (l * l - x1 - x2))" "p dvd (y3 - (l * (x1 - x3) - y1))"
          using pr(3) by (rule third_pointE)
        define z where "z = (- y1) mod p"
        have z: "p dvd (z - (- y1))" unfolding z_def by (rule dvd_mod_diff)
        have S: "ec_add p a P Q = Pt x3 y3"
          using ec_add_line [OF pr(1,2) on False l] t P Q by simp
        have on3: "on_curve p a b (Pt x3 y3)"
          using ec_add_closed [OF pr(1,2) assms(2,3)] S by simp
        have onz: "on_curve p a b (Pt x1 z)"
          using ec_neg_closed [OF pr(3) on(1)] by (simp add: z_def)
        note m = mirror_slope [OF assms(1) on False l d t(2-5) z]
        have no: "\<not> opposite p x1 z x3 y3" using m(2) by (simp add: opposite_def)
        have "p dvd (x2 - ((- l) * (- l) - x1 - x3))" using d(1) by algebra
        moreover have "p dvd (y2 - ((- l) * (x1 - x2) - z))"
          using z l unfolding line_slope_def by (elim conjE) algebra
        ultimately have "third_point p (- l) x1 z x3 = Pt x2 y2"
          using on(2) third_point_eqI pr(3) on_curve.simps(2) by metis
        then show ?thesis
          using ec_add_line [OF pr(1,2) onz on3 no m(1)] S P Q by (simp add: z_def)
      qed
    qed
  qed simp
qed

section \<open>Associativity\<close>

lemma slope_identity_chord:
  fixes p :: int
  assumes h1: "p dvd (y1 - y2 - l * (x1 - x2))"
    and h2: "p dvd (l * (y1 + y2) - (x1 * x1 + x1 * x2 + x2 * x2 + a))"
    and h3: "p dvd (y3 - y2 - m * (x3 - x2))"
    and h4: "p dvd (m * (y3 + y2) - (x3 * x3 + x3 * x2 + x2 * x2 + a))"
    and h5: "p dvd (x4 - (l * l - x1 - x2))" and h6: "p dvd (y4 - (l * (x1 - x4) - y1))"
    and h7: "p dvd (y3 - y4 - n * (x3 - x4))"
  shows "p dvd ((l - m) * (n + l) - (x1 - x3)) * (x3 - x4)"
proof -
  have a1: "p dvd (l * (2 * y2 + l * (x1 - x2)) - (x1 * x1 + x1 * x2 + x2 * x2 + a))"
    using h1 h2 by algebra
  have a2: "p dvd (m * (2 * y2 + m * (x3 - x2)) - (x3 * x3 + x3 * x2 + x2 * x2 + a))"
    using h3 h4 by algebra
  have r: "p dvd (l * (2 * y2 + l * (x1 - x2)) - m * (2 * y2 + m * (x3 - x2))
      - (x1 * x1 + x1 * x2 - x3 * x3 - x3 * x2))"
    using a1 a2 by algebra
  have s: "p dvd (2 * y2 + m * (x3 - x2) + l * (x4 - x2) - n * (x3 - x4))"
    using h1 h3 h6 h7 by algebra
  show ?thesis using r s h5 by algebra
qed

lemma slope_identity_tangent:
  fixes p :: int
  assumes h1: "p dvd (y1 - y2 - l * (x1 - x2))"
    and h2: "p dvd (l * (y1 + y2) - (x1 * x1 + x1 * x2 + x2 * x2 + a))"
    and h3: "p dvd (y3 - y2 - m * (x3 - x2))"
    and h4: "p dvd (m * (y3 + y2) - (x3 * x3 + x3 * x2 + x2 * x2 + a))"
    and h5: "p dvd (x3 - (l * l - x1 - x2))" and h6: "p dvd (y3 - (l * (x1 - x3) - y1))"
    and h7: "p dvd (n * (y3 + y3) - (x3 * x3 + x3 * x3 + x3 * x3 + a))"
  shows "p dvd ((l - m) * (n + l) - (x1 - x3)) * (x3 - x2)"
    and "p dvd (2 * y3 - (m - l) * (x3 - x2))"
proof -
  have A: "p dvd (2 * y2 + m * (x3 - x2) + l * (x3 - x2))" using h1 h3 h6 by algebra
  show Y: "p dvd (2 * y3 - (m - l) * (x3 - x2))" using A h3 by algebra
  have B: "p dvd (m * (2 * y2 + m * (x3 - x2)) - (x3 * x3 + x3 * x2 + x2 * x2 + a))"
    using h3 h4 by algebra
  have C: "p dvd (m * (- l) * (x3 - x2) - (x3 * x3 + x3 * x2 + x2 * x2 + a))"
    using A B by algebra
  have D: "p dvd (n * (m - l) * (x3 - x2) - (3 * x3 * x3 + a))" using Y h7 by algebra
  show "p dvd ((l - m) * (n + l) - (x1 - x3)) * (x3 - x2)" using C D h5 by algebra
qed

lemma slope_identity:
  assumes "prime_int p" "2 < p"
    and "line_slope p a x1 y1 x2 y2 l" "line_slope p a x3 y3 x2 y2 m"
    and x4: "p dvd (x4 - (l * l - x1 - x2))" and y4: "p dvd (y4 - (l * (x1 - x4) - y1))"
    and on: "on_curve p a b (Pt x3 y3)" "on_curve p a b (Pt x4 y4)"
    and no: "\<not> opposite p x3 y3 x4 y4" and n: "line_slope p a x3 y3 x4 y4 n"
  shows "p dvd ((l - m) * (n + l) - (x1 - x3))"
proof -
  have h: "p dvd (y1 - y2 - l * (x1 - x2))" "p dvd (l * (y1 + y2) - (x1 * x1 + x1 * x2 + x2 * x2 + a))"
    "p dvd (y3 - y2 - m * (x3 - x2))" "p dvd (m * (y3 + y2) - (x3 * x3 + x3 * x2 + x2 * x2 + a))"
    "p dvd (y3 - y4 - n * (x3 - x4))" "p dvd (n * (y3 + y4) - (x3 * x3 + x3 * x4 + x4 * x4 + a))"
    using assms(3,4,10) by (simp_all add: line_slope_def)
  show ?thesis
  proof (cases "x3 = x4")
    case False
    then have "\<not> p dvd (x3 - x4)" using on eq_if_dvd_diff by (metis on_curve.simps(2))
    then show ?thesis
      using slope_identity_chord [OF h(1-4) x4 y4 h(5)] assms(1) prime_dvd_cancel by blast
  next
    case True
    then have y: "y4 = y3" using same_x assms(1) on no unfolding opposite_def by metis
    have t: "p dvd ((l - m) * (n + l) - (x1 - x3)) * (x3 - x2)" "p dvd (2 * y3 - (m - l) * (x3 - x2))"
      using slope_identity_tangent [OF h(1-4), of n] x4 y4 h(6) True y by simp_all
    have "\<not> p dvd 2 * y3"
      using no True y assms(1,2) prime_not_dvd_2
      by (auto simp: opposite_def prime_int_dvd_mult_iff)
    moreover have "p dvd 2 * y3" if "p dvd (x3 - x2)" using t(2) that by algebra
    ultimately have "\<not> p dvd (x3 - x2)" by blast
    then show ?thesis using t(1) assms(1) prime_dvd_cancel by blast
  qed
qed

text \<open>
  Two lines with the same slope through \<open>P2\<close>, or different ones with \<open>slope_identity\<close> in both
  directions, give the same last point.
\<close>

lemma third_points_agree:
  fixes p :: int
  assumes "prime_int p" "\<not> p dvd (l - m)" "0 < p"
    and sl: "p dvd (y1 - y2 - l * (x1 - x2))" and sm: "p dvd (y3 - y2 - m * (x3 - x2))"
    and x4: "p dvd (x4 - (l * l - x1 - x2))" and x5: "p dvd (x5 - (m * m - x3 - x2))"
    and i: "p dvd ((l - m) * (n + l) - (x1 - x3))" and j: "p dvd ((m - l) * (k + m) - (x3 - x1))"
  shows "third_point p n x3 y3 x4 = third_point p k x1 y1 x5"
proof -
  have "p dvd (n + l - (k + m)) * (l - m)" using i j by algebra
  then have e: "p dvd (n + l - (k + m))" using assms(1,2) prime_dvd_cancel by blast
  obtain x6 y6 where t: "third_point p k x1 y1 x5 = Pt x6 y6"
    "0 \<le> x6" "x6 < p" "0 \<le> y6" "y6 < p"
    and d: "p dvd (x6 - (k * k - x1 - x5))" "p dvd (y6 - (k * (x1 - x6) - y1))"
    using assms(3) by (rule third_pointE)
  have q: "p dvd (k - (n + l - m))" using e by algebra
  have w: "p dvd (x6 - ((n + l - m) * (n + l - m) - x1 - (m * m - x3 - x2)))"
    using d(1) x5 q by algebra
  have x: "p dvd (x6 - (n * n - x3 - (l * l - x1 - x2)))" using w i by algebra
  have X: "p dvd (x6 - (n * n - x3 - x4))" using x x4 by algebra
  have "p dvd (y6 - ((n + l - m) * (x1 - x6) - (y2 + l * (x1 - x2))))"
    using d(2) q sl by algebra
  then have "p dvd (y6 - (n * (x3 - x6) - (y2 + m * (x3 - x2))))"
    using x i by algebra
  then have Y: "p dvd (y6 - (n * (x3 - x6) - y3))" using sm by algebra
  show ?thesis using X Y t third_point_eqI assms(3) by presburger
qed

lemma ec_add_assoc_generic:
  assumes "curve_params p a b"
    and "on_curve p a b (Pt x1 y1)" "on_curve p a b (Pt x2 y2)" "on_curve p a b (Pt x3 y3)"
    and o12: "\<not> opposite p x1 y1 x2 y2" and o32: "\<not> opposite p x3 y3 x2 y2"
    and S: "ec_add p a (Pt x1 y1) (Pt x2 y2) = Pt x4 y4"
    and T: "ec_add p a (Pt x3 y3) (Pt x2 y2) = Pt x5 y5"
    and o34: "\<not> opposite p x3 y3 x4 y4" and o15: "\<not> opposite p x1 y1 x5 y5"
    and ne: "Pt x1 y1 \<noteq> Pt x3 y3"
  shows "ec_add p a (Pt x3 y3) (Pt x4 y4) = ec_add p a (Pt x1 y1) (Pt x5 y5)"
proof -
  have pr: "prime_int p" "2 < p" "0 < p" using assms(1) by (auto simp: curve_params_def)
  have on4: "on_curve p a b (Pt x4 y4)" using ec_add_closed [OF pr(1,2) assms(2,3)] S by simp
  have on5: "on_curve p a b (Pt x5 y5)" using ec_add_closed [OF pr(1,2) assms(4,3)] T by simp
  obtain l where l: "line_slope p a x1 y1 x2 y2 l" using line_slope_ex [OF pr(1,2) assms(2,3) o12] .
  obtain m where m: "line_slope p a x3 y3 x2 y2 m" using line_slope_ex [OF pr(1,2) assms(4,3) o32] .
  obtain n where n: "line_slope p a x3 y3 x4 y4 n" using line_slope_ex [OF pr(1,2) assms(4) on4 o34] .
  obtain k where k: "line_slope p a x1 y1 x5 y5 k" using line_slope_ex [OF pr(1,2) assms(2) on5 o15] .
  have d4: "p dvd (x4 - (l * l - x1 - x2))" "p dvd (y4 - (l * (x1 - x4) - y1))"
    using third_pointE [OF pr(3), of l x1 y1 x2] S ec_add_line [OF pr(1,2) assms(2,3) o12 l]
    by (metis point.inject)+
  have d5: "p dvd (x5 - (m * m - x3 - x2))" "p dvd (y5 - (m * (x3 - x5) - y3))"
    using third_pointE [OF pr(3), of m x3 y3 x2] T ec_add_line [OF pr(1,2) assms(4,3) o32 m]
    by (metis point.inject)+
  have i: "p dvd ((l - m) * (n + l) - (x1 - x3))"
    by (rule slope_identity [OF pr(1,2) l m d4 assms(4) on4 o34 n])
  have j: "p dvd ((m - l) * (k + m) - (x3 - x1))"
    by (rule slope_identity [OF pr(1,2) m l d5 assms(2) on5 o15 k])
  have sl: "p dvd (y1 - y2 - l * (x1 - x2))" "p dvd (y3 - y2 - m * (x3 - x2))"
    using l m by (simp_all add: line_slope_def)
  have "\<not> p dvd (l - m)"
  proof
    assume e: "p dvd (l - m)"
    then have "p dvd (x1 - x3)" using i by algebra
    then have x: "x1 = x3" using eq_if_dvd_diff assms(2,4) on_curve.simps(2) by metis
    have "p dvd (y1 - y3 - l * (x1 - x3))" using sl e by algebra
    then have "p dvd (y1 - y3)" using x by simp
    then have "y1 = y3" using eq_if_dvd_diff assms(2,4) on_curve.simps(2) by metis
    with x ne show False by simp
  qed
  then have "third_point p n x3 y3 x4 = third_point p k x1 y1 x5"
    using third_points_agree [OF pr(1) _ pr(3) sl d4(1) d5(1) i j] by blast
  then show ?thesis
    using ec_add_line [OF pr(1,2) assms(4) on4 o34 n] ec_add_line [OF pr(1,2) assms(2) on5 o15 k]
    by simp
qed

text \<open>The law with the middle point on the right of both inner sums, then the usual form.\<close>

lemma ec_add_middle:
  assumes c: "curve_params p a b"
    and P: "on_curve p a b P" and Q: "on_curve p a b Q" and R: "on_curve p a b R"
  shows "ec_add p a R (ec_add p a P Q) = ec_add p a P (ec_add p a R Q)"
proof -
  have pr: "prime_int p" "2 < p" "0 < p" using c by (auto simp: curve_params_def)
  note comm = ec_add_comm [OF pr(1,2), where b = b]
  note closed = ec_add_closed [OF pr(1,2), where b = b] ec_neg_closed [OF pr(3), of a b]
  note nneg = ec_neg_neg [where p = p and a = a and b = b]
  have opp: "ec_add p a R (ec_add p a P Q) = ec_add p a P (ec_add p a R Q)"
    if P: "on_curve p a b P" and R: "on_curve p a b R" and eq: "Q = ec_neg p P" for P R
  proof -
    have "ec_add p a P (ec_add p a R Q) = ec_add p a (ec_neg p Q) (ec_add p a Q R)"
      using comm [OF R Q] nneg [OF P] eq by simp
    also have "\<dots> = R" using ec_add_cancel [OF c Q R] .
    finally show ?thesis using ec_add_neg [OF P] eq by simp
  qed
  have inner: "ec_add p a R (ec_add p a P Q) = ec_add p a P (ec_add p a R Q)"
    if P: "on_curve p a b P" and R: "on_curve p a b R" and eq: "ec_add p a P Q = ec_neg p R"
    for P R
  proof -
    have "ec_neg p (ec_add p a P Q) = R" using eq nneg [OF R] by simp
    then have R': "R = ec_add p a (ec_neg p P) (ec_neg p Q)"
      using ec_neg_add [OF pr(1,2) P Q] by simp
    have "ec_add p a R Q = ec_add p a (ec_neg p (ec_neg p Q)) (ec_add p a (ec_neg p Q) (ec_neg p P))"
      using R' comm closed P Q R nneg [OF Q] by metis
    also have "\<dots> = ec_neg p P" using ec_add_cancel [OF c] closed P Q by blast
    finally show ?thesis using ec_add_neg P R eq by simp
  qed
  consider "P = Inf" | "Q = Inf" | "R = Inf" | "P = R"
    | "Q = ec_neg p P" | "Q = ec_neg p R" | "ec_add p a P Q = ec_neg p R" | "ec_add p a R Q = ec_neg p P"
    | "P \<noteq> Inf" "Q \<noteq> Inf" "R \<noteq> Inf" "P \<noteq> R" "Q \<noteq> ec_neg p P" "Q \<noteq> ec_neg p R"
      "ec_add p a P Q \<noteq> ec_neg p R" "ec_add p a R Q \<noteq> ec_neg p P"
    by blast
  then show ?thesis
  proof cases
    case 9
    obtain x1 y1 x2 y2 x3 y3 where e: "P = Pt x1 y1" "Q = Pt x2 y2" "R = Pt x3 y3"
      using 9 point.exhaust by metis
    have "ec_add p a P Q \<noteq> Inf" "ec_add p a R Q \<noteq> Inf"
      using 9 ec_add_eq_Inf_iff [OF pr(1,2)] P Q R by blast+
    then obtain x4 y4 x5 y5 where f: "ec_add p a P Q = Pt x4 y4" "ec_add p a R Q = Pt x5 y5"
      using point.exhaust by metis
    have on: "on_curve p a b (Pt x4 y4)" "on_curve p a b (Pt x5 y5)"
      using closed P Q R f by metis+
    show ?thesis
      using ec_add_assoc_generic [OF c, of x1 y1 x2 y2 x3 y3 x4 y4 x5 y5] 9 e f on P Q R
        opposite_iff_neg by metis
  next
    case 1 then show ?thesis by simp
  next
    case 2 then show ?thesis using comm [OF R P] by simp
  next
    case 3 then show ?thesis by simp
  next
    case 4 then show ?thesis by simp
  next
    case 5 then show ?thesis by (rule opp [OF P R])
  next
    case 6 then show ?thesis by (rule opp [OF R P, symmetric])
  next
    case 7 then show ?thesis by (rule inner [OF P R])
  next
    case 8 then show ?thesis by (rule inner [OF R P, symmetric])
  qed
qed

theorem ec_add_assoc:
  assumes c: "curve_params p a b"
    and P: "on_curve p a b P" and Q: "on_curve p a b Q" and R: "on_curve p a b R"
  shows "ec_add p a (ec_add p a P Q) R = ec_add p a P (ec_add p a Q R)"
proof -
  have pr: "prime_int p" "2 < p" using c by (auto simp: curve_params_def)
  show ?thesis
    using ec_add_middle [OF assms] ec_add_comm [OF pr] ec_add_closed [OF pr] P Q R by metis
qed

end
