(* ===== verification/Point_Group.thy ===== *)
theory Point_Group
  imports Group_Law "HOL-Library.Multiset"
begin

text \<open>
  The interface between the curve and everything computed on it. The locale \<open>point_group\<close> states
  what a client of the point arithmetic relies on (a commutative group on the points that satisfy a
  carrier predicate); inside it the theory of integer multiples and of linear combinations is
  developed once. \<open>order_group\<close> adds a number every carrier point is annihilated by, which is what
  the signature schemes use when they reduce scalars modulo the group order. Both are interpreted
  on the group law of \<open>Group_Law\<close>, for every curve.
\<close>

section \<open>Multiples and linear combinations\<close>

primrec gmult :: "('g \<Rightarrow> 'g \<Rightarrow> 'g) \<Rightarrow> 'g \<Rightarrow> nat \<Rightarrow> 'g \<Rightarrow> 'g" where
  "gmult add z 0 P = z"
| "gmult add z (Suc k) P = add P (gmult add z k P)"

definition zmult :: "('g \<Rightarrow> 'g \<Rightarrow> 'g) \<Rightarrow> ('g \<Rightarrow> 'g) \<Rightarrow> 'g \<Rightarrow> int \<Rightarrow> 'g \<Rightarrow> 'g" where
  "zmult add neg z k P =
     (if 0 \<le> k then gmult add z (nat k) P else neg (gmult add z (nat (- k)) P))"

definition lincomb ::
  "('g \<Rightarrow> 'g \<Rightarrow> 'g) \<Rightarrow> ('g \<Rightarrow> 'g) \<Rightarrow> 'g \<Rightarrow> (int \<times> 'g) list \<Rightarrow> 'g" where
  "lincomb add neg z kPs = foldr (\<lambda>(k, P) acc. add (zmult add neg z k P) acc) kPs z"

text \<open>
  Sums listed by binary position, least significant first: their value, and the list after the
  digits of a recoded scalar have been added to it.
\<close>

primrec pos_value :: "('g \<Rightarrow> 'g \<Rightarrow> 'g) \<Rightarrow> 'g \<Rightarrow> 'g list \<Rightarrow> 'g" where
  "pos_value add z [] = z"
| "pos_value add z (s # ss) = add s (add (pos_value add z ss) (pos_value add z ss))"

fun pos_add :: "('g \<Rightarrow> 'g \<Rightarrow> 'g) \<Rightarrow> (int \<Rightarrow> 'g) \<Rightarrow> int list \<Rightarrow> 'g list \<Rightarrow> 'g list" where
  "pos_add add f (d # ds) (s # ss) = add s (f d) # pos_add add f ds ss"
| "pos_add add f ds ss = ss"

text \<open>The value of digits listed from the least significant one.\<close>

primrec le_value :: "int \<Rightarrow> int list \<Rightarrow> int" where
  "le_value b [] = 0"
| "le_value b (d # ds) = d + b * le_value b ds"

section \<open>The group interface\<close>

locale point_group =
  fixes C :: "'g \<Rightarrow> bool" and add :: "'g \<Rightarrow> 'g \<Rightarrow> 'g" and neg :: "'g \<Rightarrow> 'g" and zero :: "'g"
  assumes add_closed: "C P \<Longrightarrow> C Q \<Longrightarrow> C (add P Q)"
    and neg_closed: "C P \<Longrightarrow> C (neg P)"
    and zero_closed: "C P \<Longrightarrow> C zero"
    and add_assoc: "C P \<Longrightarrow> C Q \<Longrightarrow> C R \<Longrightarrow> add (add P Q) R = add P (add Q R)"
    and add_comm: "C P \<Longrightarrow> C Q \<Longrightarrow> add P Q = add Q P"
    and add_zero: "C P \<Longrightarrow> add P zero = P"
    and add_neg: "C P \<Longrightarrow> add P (neg P) = zero"
begin

abbreviation gm :: "nat \<Rightarrow> 'g \<Rightarrow> 'g" where "gm \<equiv> gmult add zero"
abbreviation zm :: "int \<Rightarrow> 'g \<Rightarrow> 'g" where "zm \<equiv> zmult add neg zero"

lemma zero_add: "C P \<Longrightarrow> add zero P = P"
  using add_comm add_zero zero_closed by metis

lemma neg_add_self: "C P \<Longrightarrow> add (neg P) P = zero"
  using add_comm add_neg neg_closed by metis

lemma add_left_comm: "C P \<Longrightarrow> C Q \<Longrightarrow> C R \<Longrightarrow> add P (add Q R) = add Q (add P R)"
  using add_assoc add_comm by metis

lemma add_swap:
  "C P \<Longrightarrow> C Q \<Longrightarrow> C R \<Longrightarrow> C S \<Longrightarrow> add (add P Q) (add R S) = add (add P R) (add Q S)"
  using add_assoc add_left_comm add_closed by metis

lemma neg_unique: "C P \<Longrightarrow> C Q \<Longrightarrow> add P Q = zero \<Longrightarrow> Q = neg P"
  using add_assoc add_zero neg_add_self neg_closed zero_add by metis

lemma neg_neg: "C P \<Longrightarrow> neg (neg P) = P"
  using neg_unique neg_add_self neg_closed by metis

lemma neg_zero: "C P \<Longrightarrow> neg zero = zero"
  using neg_unique add_zero zero_closed by metis

lemma neg_add: assumes "C P" "C Q" shows "neg (add P Q) = add (neg P) (neg Q)"
proof -
  have "add (add P Q) (add (neg P) (neg Q)) = add (add P (neg P)) (add Q (neg Q))"
    using assms add_assoc add_left_comm add_closed neg_closed by metis
  also have "\<dots> = zero" using assms add_neg add_zero zero_closed by metis
  finally show ?thesis using neg_unique assms add_closed neg_closed by metis
qed

lemma cancel_left: "C P \<Longrightarrow> C Q \<Longrightarrow> C R \<Longrightarrow> add P Q = add P R \<longleftrightarrow> Q = R"
  using add_assoc neg_add_self neg_closed zero_add by metis

lemma gm_closed: "C P \<Longrightarrow> C (gm k P)"
  by (induction k) (auto intro: zero_closed add_closed)

lemma zm_closed: "C P \<Longrightarrow> C (zm k P)"
  by (simp add: zmult_def gm_closed neg_closed)

lemma gm_add: "C P \<Longrightarrow> gm (j + k) P = add (gm j P) (gm k P)"
  by (induction j) (simp_all add: zero_add gm_closed add_assoc)

lemma gm_distrib: "C P \<Longrightarrow> C Q \<Longrightarrow> gm k (add P Q) = add (gm k P) (gm k Q)"
proof (induction k)
  case 0
  then show ?case using add_zero zero_closed by simp
next
  case (Suc k)
  then show ?case using add_assoc add_left_comm add_closed gm_closed by simp
qed

lemma gm_mult: "C P \<Longrightarrow> gm (j * k) P = gm j (gm k P)"
  by (induction j) (simp_all add: gm_add)

lemma gm_neg: "C P \<Longrightarrow> gm k (neg P) = neg (gm k P)"
  by (induction k) (simp_all add: neg_zero neg_add gm_closed)

lemma gm_zero: "C P \<Longrightarrow> gm k zero = zero"
  by (induction k) (auto simp: zero_closed add_zero)

lemma zm_of_nat [simp]: "zm (int k) P = gm k P"
  by (simp add: zmult_def)

lemma zm_0 [simp]: "zm 0 P = zero"
  by (simp add: zmult_def)

lemma zm_1: "C P \<Longrightarrow> zm 1 P = P"
  by (simp add: zmult_def add_zero)

lemma zm_2: "C P \<Longrightarrow> zm 2 P = add P P"
  by (simp add: zmult_def add_zero numeral_2_eq_2)

lemma zm_minus: "C P \<Longrightarrow> zm (- k) P = neg (zm k P)"
  by (auto simp: zmult_def neg_neg gm_closed neg_zero)

lemma zm_neg: "C P \<Longrightarrow> zm k (neg P) = neg (zm k P)"
  by (simp add: zmult_def gm_neg)

lemma zm_zero: "C P \<Longrightarrow> zm k zero = zero"
  by (auto simp: zmult_def gm_zero neg_zero)

lemma gm_diff: "C P \<Longrightarrow> k \<le> j \<Longrightarrow> gm (j - k) P = add (gm j P) (neg (gm k P))"
  using gm_add [of P "j - k" k] add_assoc add_neg add_zero gm_closed neg_closed
  by (metis le_add_diff_inverse2)

lemma zm_diff_nat: "C P \<Longrightarrow> zm (int j - int k) P = add (gm j P) (neg (gm k P))"
proof (cases "k \<le> j")
  case True
  then show "C P \<Longrightarrow> ?thesis" using gm_diff by (metis of_nat_diff zm_of_nat)
next
  case False
  assume P: "C P"
  from False have e: "int j - int k = - int (k - j)" by simp
  have "zm (int j - int k) P = neg (gm (k - j) P)" unfolding e using P zm_minus zm_of_nat by simp
  also have "\<dots> = neg (add (gm k P) (neg (gm j P)))" using P False gm_diff by simp
  also have "\<dots> = add (gm j P) (neg (gm k P))"
    using P neg_add neg_neg gm_closed neg_closed add_comm by metis
  finally show ?thesis .
qed

lemma zm_add: assumes "C P" shows "zm (j + k) P = add (zm j P) (zm k P)"
proof -
  obtain a b where j: "j = int a - int b" using int_diff_cases .
  obtain c d where k: "k = int c - int d" using int_diff_cases .
  have "zm (j + k) P = zm (int (a + c) - int (b + d)) P" by (simp add: j k algebra_simps)
  also have "\<dots> = add (add (gm a P) (gm c P)) (neg (add (gm b P) (gm d P)))"
    using assms zm_diff_nat gm_add by metis
  also have "\<dots> = add (add (gm a P) (neg (gm b P))) (add (gm c P) (neg (gm d P)))"
    using assms by (simp add: neg_add gm_closed neg_closed add_assoc add_left_comm add_closed)
  finally show ?thesis using assms j k zm_diff_nat by metis
qed

lemma zm_diff: "C P \<Longrightarrow> zm (j - k) P = add (zm j P) (neg (zm k P))"
  using zm_add [of P j "- k"] zm_minus by simp

lemma zm_distrib: "C P \<Longrightarrow> C Q \<Longrightarrow> zm k (add P Q) = add (zm k P) (zm k Q)"
  by (simp add: zmult_def gm_distrib neg_add gm_closed)

lemma zm_mult: assumes "C P" shows "zm (j * k) P = zm j (zm k P)"
proof -
  have nat: "zm (int a * k) P = gm a (zm k P)" for a
  proof (induction a)
    case (Suc a)
    have "zm (int (Suc a) * k) P = zm (k + int a * k) P" by (simp add: algebra_simps)
    then show ?case using Suc assms zm_add by simp
  qed simp
  show ?thesis
  proof (cases "0 \<le> j")
    case True
    then show ?thesis using nat [of "nat j"] zm_of_nat [of "nat j"] by simp
  next
    case False
    then have j: "int (nat (- j)) = - j" by simp
    have "zm (j * k) P = neg (zm (- j * k) P)"
      using zm_minus [OF assms, of "- j * k"] by simp
    also have "\<dots> = neg (zm (- j) (zm k P))"
      using nat [of "nat (- j)"] zm_of_nat [of "nat (- j)" "zm k P"] unfolding j by simp
    also have "\<dots> = zm j (zm k P)"
      using zm_minus [of "zm k P" "- j"] zm_closed assms by simp
    finally show ?thesis .
  qed
qed

lemma zm_Suc_double: "C P \<Longrightarrow> zm (2 * k) P = add (zm k P) (zm k P)"
  by (simp only: mult_2 zm_add)

lemma zm_double_swap: "C P \<Longrightarrow> zm k (add P P) = zm (2 * k) P"
  by (simp only: zm_distrib zm_Suc_double)

text \<open>Linear combinations: the empty one, one more term, and invariance under reordering.\<close>

abbreviation lc :: "(int \<times> 'g) list \<Rightarrow> 'g" where "lc \<equiv> lincomb add neg zero"

lemma lc_Nil [simp]: "lc [] = zero"
  by (simp add: lincomb_def)

lemma lc_Cons [simp]: "lc ((k, P) # xs) = add (zm k P) (lc xs)"
  by (simp add: lincomb_def)

lemma lc_closed: "C P0 \<Longrightarrow> (\<And>k P. (k, P) \<in> set xs \<Longrightarrow> C P) \<Longrightarrow> C (lc xs)"
proof (induction xs)
  case (Cons x xs)
  then show ?case by (cases x) (auto intro: add_closed zm_closed)
qed (auto intro: zero_closed)

lemma lc_Cons' [simp]: "lc (x # xs) = add (zm (fst x) (snd x)) (lc xs)"
  by (simp add: lincomb_def split: prod.splits)

lemma lc_closed': "C P0 \<Longrightarrow> \<forall>x\<in>set xs. C (snd x) \<Longrightarrow> C (lc xs)"
  by (induction xs) (auto intro: add_closed zm_closed zero_closed)

lemma lc_insort:
  fixes x :: "'b :: linorder"
  assumes "C P0"
  shows "\<forall>y\<in>set (x # xs). C (snd (f y)) \<Longrightarrow> lc (map f (insort x xs)) = lc (map f (x # xs))"
proof (induction xs)
  case (Cons y xs)
  have c: "C (snd (f x))" "C (snd (f y))" using Cons.prems by simp_all
  have cl: "C (lc (map f xs))" by (rule lc_closed' [OF assms]) (use Cons.prems in simp)
  show ?case
  proof (cases "x \<le> y")
    case False
    then have "lc (map f (insort x (y # xs))) = add (zm (fst (f y)) (snd (f y))) (lc (map f (x # xs)))"
      using Cons by simp
    then show ?thesis using c cl add_left_comm zm_closed by simp
  qed simp
qed simp

lemma lc_sort:
  fixes xs :: "('b :: linorder) list"
  assumes "C P0"
  shows "\<forall>y\<in>set xs. C (snd (f y)) \<Longrightarrow> lc (map f (sort xs)) = lc (map f xs)"
proof (induction xs)
  case (Cons x xs)
  have "lc (map f (sort (x # xs))) = lc (map f (x # sort xs))"
    using lc_insort [OF assms, of x "sort xs" f] Cons.prems by simp
  then show ?case using Cons by simp
qed simp

text \<open>Sums by position.\<close>

abbreviation pv :: "'g list \<Rightarrow> 'g" where "pv \<equiv> pos_value add zero"

lemma pv_closed: "C P \<Longrightarrow> (\<And>s. s \<in> set ss \<Longrightarrow> C s) \<Longrightarrow> C (pv ss)"
  by (induction ss) (auto intro: zero_closed add_closed)

lemma pv_zeros: "C P \<Longrightarrow> pv (replicate k zero) = zero"
  by (induction k) (simp_all add: add_zero [OF zero_closed])

lemma pos_add_closed:
  assumes "C P"
  shows "\<forall>s\<in>set ss. C s \<Longrightarrow> \<forall>s\<in>set (pos_add add (\<lambda>d. zm d P) ds ss). C s"
proof (induction ds arbitrary: ss)
  case (Cons d ds)
  note IH = Cons.IH and prems = Cons.prems
  show ?case
  proof (cases ss)
    case (Cons s rest)
    then have "\<forall>t\<in>set (pos_add add (\<lambda>d. zm d P) ds rest). C t"
      using prems by (intro IH) simp
    moreover have "C (add s (zm d P))" using prems Cons assms by (simp add: add_closed zm_closed)
    ultimately show ?thesis using Cons by simp
  qed simp
qed simp

lemma pv_pos_add:
  assumes "C P"
  shows "length ds \<le> length ss \<Longrightarrow> (\<And>s. s \<in> set ss \<Longrightarrow> C s) \<Longrightarrow>
    pv (pos_add add (\<lambda>d. zm d P) ds ss) = add (pv ss) (zm (le_value 2 ds) P)"
proof (induction ds arbitrary: ss)
  case Nil
  then show ?case using add_zero pv_closed [OF assms Nil(2)] by simp
next
  case (Cons d ds)
  then obtain s rest where ss: "ss = s # rest" by (cases ss) auto
  let ?l = "zm (le_value 2 ds) P"
  have c: "C s" "C (pv rest)" "C (zm d P)" "C ?l"
    using Cons.prems ss pv_closed [OF assms] zm_closed assms by auto
  have IH: "pv (pos_add add (\<lambda>d. zm d P) ds rest) = add (pv rest) ?l"
    using Cons ss by simp
  have "zm (le_value 2 (d # ds)) P = add (zm d P) (add ?l ?l)"
    using zm_add [OF assms] zm_Suc_double [OF assms] by simp
  then show ?case using IH c ss
    by (simp add: add_assoc add_left_comm add_closed)
qed

end

section \<open>Reduction of scalars modulo the order\<close>

locale order_group = point_group +
  fixes n :: int
  assumes order_pos: "C P \<Longrightarrow> 0 < n"
    and order: "C P \<Longrightarrow> zmult add neg zero n P = zero"
begin

lemma zm_mult_order: "C P \<Longrightarrow> zm (k * n) P = zero"
  using zm_mult order zm_zero by metis

lemma zm_mod: assumes "C P" shows "zm (k mod n) P = zm k P"
proof -
  have "zm k P = zm (k div n * n + k mod n) P" by simp
  also have "\<dots> = add zero (zm (k mod n) P)" using assms zm_add zm_mult_order by metis
  finally show ?thesis using zero_add zm_closed assms by metis
qed

lemma zm_cong: "C P \<Longrightarrow> n dvd (j - k) \<Longrightarrow> zm j P = zm k P"
  using zm_mod mod_eq_if_dvd_diff by metis

lemma zm_inverse: "C P \<Longrightarrow> n dvd (j * k - 1) \<Longrightarrow> zm j (zm k P) = P"
  using zm_cong [of P "j * k" 1] zm_mult zm_1 by metis

lemma zm_inverse': "C P \<Longrightarrow> n dvd (j * k - 1) \<Longrightarrow> zm k (zm j P) = P"
  using zm_inverse [of P k j] by (simp add: mult.commute)

end

section \<open>The points of a curve\<close>

abbreviation ec_mult :: "int \<Rightarrow> int \<Rightarrow> int \<Rightarrow> point \<Rightarrow> point" where
  "ec_mult p a \<equiv> zmult (ec_add p a) (ec_neg p) Inf"

interpretation ecg: point_group
  "\<lambda>P. curve_params p a b \<and> on_curve p a b P" "ec_add p a" "ec_neg p" Inf for p a b
proof (unfold_locales, goal_cases)
  case (1 P Q) then show ?case using ec_add_closed by (auto simp: curve_params_def)
next
  case (2 P) then show ?case using ec_neg_closed by (auto simp: curve_params_def)
next
  case (3 P) then show ?case by simp
next
  case (4 P Q R) then show ?case using ec_add_assoc by blast
next
  case (5 P Q) then show ?case using ec_add_comm by (auto simp: curve_params_def)
next
  case (6 P) then show ?case by simp
next
  case (7 P) then show ?case using ec_add_neg by blast
qed

interpretation eco: order_group
  "\<lambda>P. (curve_params p a b \<and> on_curve p a b P) \<and> 0 < n \<and> ec_mult p a n P = Inf"
  "ec_add p a" "ec_neg p" Inf n for p a b n
proof (unfold_locales, goal_cases)
  case (1 P Q) then show ?case
    using ecg.add_closed [of p a b P Q] ecg.zm_distrib [of p a b P Q n] by simp
next
  case (2 P) then show ?case
    using ecg.neg_closed [of p a b P] ecg.zm_neg [of p a b P n] by simp
next
  case (3 P) then show ?case using ecg.zm_zero [of p a b P n] by simp
next
  case (4 P Q R) then show ?case using ecg.add_assoc by blast
next
  case (5 P Q) then show ?case using ecg.add_comm by blast
next
  case (6 P) then show ?case by simp
next
  case (7 P) then show ?case using ec_add_neg by blast
qed auto

end
