(* ===== verification/Recoding.thy ===== *)
theory Recoding
  imports Point_Group
begin

text \<open>
  The integer-only helpers of the scalar multiplications in
  \<^verbatim>\<open>src/btclib_ecc/curves/curve_group.py\<close>: the digits of a number in a base, its width-w NAF, and the
  regular signed odd digits of Joye and Tunstall. Each recoding is proved to represent the number it
  is given, with digits in the range the tables of multiples are built for.
\<close>

section \<open>Digits in a base\<close>

text \<open>
  The Python loop does not end for a negative \<open>i\<close> or a base below 2, which no caller passes; there the
  model returns the digits found so far.
\<close>

function base_loop :: "int \<Rightarrow> int \<Rightarrow> int list \<Rightarrow> int list" where
  "base_loop i b digits =
     (if 0 \<le> i \<and> 2 \<le> b \<and> (i \<noteq> 0 \<or> digits = []) then base_loop (i div b) b (digits @ [i mod b])
      else digits)"
  by auto
termination
proof (relation "measure (\<lambda>(i, b, ds). nat i + (if ds = [] then 1 else 0))", goal_cases)
  case (2 i b digits)
  have "i div b < i" if "i \<noteq> 0" using that 2 int_div_less_self [of i b] by simp
  moreover have "0 \<le> i div b" using 2 by (simp add: pos_imp_zdiv_nonneg_iff)
  ultimately show ?case using 2 by (cases "i = 0") auto
qed simp

declare base_loop.simps [simp del]

definition convert_number_to_base_var :: "int \<Rightarrow> int \<Rightarrow> int list" where
  "convert_number_to_base_var i b = rev (base_loop i b [])"

definition horner :: "int \<Rightarrow> int list \<Rightarrow> int" where
  "horner b ds = foldl (\<lambda>acc d. b * acc + d) 0 ds"

lemma foldl_horner:
  "foldl (\<lambda>acc d. b * acc + d) x zs = x * b ^ length zs + foldl (\<lambda>acc d. b * acc + d) 0 zs" for b :: int
proof (induction zs arbitrary: x rule: rev_induct)
  case (snoc z zs)
  show ?case using snoc [of x] by (simp add: algebra_simps)
qed simp

lemma horner_Cons: "horner b (x # zs) = x * b ^ length zs + horner b zs"
  using foldl_horner [of b x zs] by (simp add: horner_def)

lemma base_loop_correct:
  assumes "0 \<le> i" "2 \<le> b" "\<forall>d\<in>set ds. 0 \<le> d \<and> d < b"
  shows "\<forall>d\<in>set (base_loop i b ds). 0 \<le> d \<and> d < b"
    and "horner b (rev (base_loop i b ds)) = i * b ^ length ds + horner b (rev ds)"
    and "base_loop i b ds \<noteq> []"
proof -
  have "(\<forall>d\<in>set (base_loop i b ds). 0 \<le> d \<and> d < b)
      \<and> horner b (rev (base_loop i b ds)) = i * b ^ length ds + horner b (rev ds) \<and> base_loop i b ds \<noteq> []"
    using assms
  proof (induction i b ds rule: base_loop.induct)
    case (1 i b ds)
    show ?case
    proof (cases "i \<noteq> 0 \<or> ds = []")
      case True
      have e: "i div b * b ^ length (ds @ [i mod b]) + i mod b * b ^ length ds = i * b ^ length ds"
      proof -
        define B where "B = b ^ length ds"
        have "B * (i mod b) + B * (b * (i div b)) = B * i" by (simp only: distrib_left [symmetric] mod_mult_div_eq)
        then show ?thesis by (simp add: algebra_simps flip: B_def)
      qed
      have r: "0 \<le> i div b" "\<forall>d\<in>set (ds @ [i mod b]). 0 \<le> d \<and> d < b"
        using 1(2-4) by (auto simp: pos_imp_zdiv_nonneg_iff)
      have c: "0 \<le> i \<and> 2 \<le> b \<and> (i \<noteq> 0 \<or> ds = [])" using True 1(2,3) by simp
      have u: "base_loop i b ds = base_loop (i div b) b (ds @ [i mod b])"
        using c by (subst base_loop.simps) simp
      note I = 1(1) [OF c r(1) 1(3) r(2)]
      then have "horner b (rev (base_loop i b ds))
          = i div b * b ^ length (ds @ [i mod b]) + horner b (rev (ds @ [i mod b]))" unfolding u by blast
      also have "\<dots> = i div b * b ^ length (ds @ [i mod b]) + (i mod b * b ^ length ds + horner b (rev ds))"
        by (simp add: horner_Cons)
      also have "\<dots> = i * b ^ length ds + horner b (rev ds)" using e by linarith
      finally have "horner b (rev (base_loop i b ds)) = i * b ^ length ds + horner b (rev ds)" .
      then show ?thesis using I unfolding u by blast
    next
      case False
      then have u: "base_loop i b ds = ds" by (subst base_loop.simps) simp
      show ?thesis unfolding u using 1(4) False by simp
    qed
  qed
  then show "\<forall>d\<in>set (base_loop i b ds). 0 \<le> d \<and> d < b"
    and "horner b (rev (base_loop i b ds)) = i * b ^ length ds + horner b (rev ds)"
    and "base_loop i b ds \<noteq> []" by simp_all
qed

lemma convert_number_to_base_var_correct:
  assumes "0 \<le> i" "2 \<le> b"
  shows "d \<in> set (convert_number_to_base_var i b) \<Longrightarrow> 0 \<le> d \<and> d < b"
    and "horner b (convert_number_to_base_var i b) = i"
    and "convert_number_to_base_var i b \<noteq> []"
  using base_loop_correct [OF assms, of "[]"]
  by (auto simp: convert_number_to_base_var_def horner_def)

lemma div_less_power: "2 \<le> b \<Longrightarrow> i < b * b ^ k \<Longrightarrow> i div b < b ^ k" for b :: int
  by (smt (verit) mult.commute mult_less_cancel_left_pos minus_mod_eq_mult_div pos_mod_sign)

lemma base_loop_length:
  assumes "0 \<le> i" "2 \<le> b" "i < b ^ k" "ds \<noteq> []"
  shows "length (base_loop i b ds) \<le> length ds + k"
  using assms
proof (induction k arbitrary: i ds)
  case 0
  then show ?case by (simp add: base_loop.simps)
next
  case (Suc k)
  show ?case
  proof (cases "i = 0")
    case False
    have "i div b < b ^ k" using Suc.prems by (simp add: div_less_power)
    moreover have "0 \<le> i div b" using Suc.prems by (simp add: pos_imp_zdiv_nonneg_iff)
    ultimately have "length (base_loop (i div b) b (ds @ [i mod b])) \<le> length (ds @ [i mod b]) + k"
      using Suc.prems by (intro Suc.IH) auto
    then show ?thesis using Suc.prems False by (subst base_loop.simps) simp
  qed (use Suc.prems in \<open>simp add: base_loop.simps\<close>)
qed

lemma convert_number_to_base_var_length:
  assumes "0 \<le> i" "2 \<le> b" "i < b ^ Suc k"
  shows "length (convert_number_to_base_var i b) \<le> Suc k"
proof -
  have "i div b < b ^ k" using assms by (simp add: div_less_power)
  moreover have "0 \<le> i div b" using assms by (simp add: pos_imp_zdiv_nonneg_iff)
  ultimately have "length (base_loop (i div b) b [i mod b]) \<le> 1 + k"
    using base_loop_length [of "i div b" b k "[i mod b]"] assms by simp
  then show ?thesis using assms unfolding convert_number_to_base_var_def
    by (subst base_loop.simps) simp
qed

section \<open>Width-w non-adjacent form\<close>

definition mods :: "int \<Rightarrow> int \<Rightarrow> int" where
  "mods m w = (let w2 = 2 ^ nat w; M = m mod w2 in if w2 div 2 \<le> M then M - w2 else M)"

definition naf_digit :: "int \<Rightarrow> int \<Rightarrow> int" where
  "naf_digit m w = (if w = 1 then 2 - m mod 4 else mods m w)"

text \<open>A width below 1, which every caller refuses, is where the Python loop may not end.\<close>

lemma two_power_pred: "1 \<le> w \<Longrightarrow> (2::int) ^ nat w = 2 * 2 ^ nat (w - 1)"
  by (simp add: nat_diff_distrib flip: power_Suc)

lemma mods_bounds:
  assumes "2 \<le> w" "m mod 2 = 1"
  shows "\<bar>mods m w\<bar> < 2 ^ nat (w - 1)" "mods m w mod 2 = 1" "2 dvd (m - mods m w)"
    "2 ^ nat w dvd (m - mods m w)"
proof -
  let ?h = "2 ^ nat (w - 1) :: int"
  have w: "(2::int) ^ nat w = 2 * ?h" using assms two_power_pred by simp
  have h: "?h = 2 * 2 ^ nat (w - 2)" using two_power_pred [of "w - 1"] assms by (simp add: algebra_simps)
  then have eh: "even ?h" by simp
  have d: "2 ^ nat w dvd (m - mods m w)"
    unfolding mods_def Let_def by (auto intro: dvd_diff_mod)
      (metis dvd_add_triv_right_iff dvd_diff_mod diff_diff_eq2 diff_add_eq)
  then show "2 ^ nat w dvd (m - mods m w)" .
  have "(2::int) dvd 2 ^ nat w" using w by simp
  then show d2: "2 dvd (m - mods m w)" using d dvd_trans by blast
  then show o: "mods m w mod 2 = 1" using assms(2) by presburger
  define M where "M = m mod 2 ^ nat w"
  have "0 \<le> M" "M < 2 * ?h" "0 < ?h" unfolding M_def w by (simp_all add: pos_mod_bound)
  moreover have "mods m w = (if ?h \<le> M then M - 2 * ?h else M)"
    unfolding mods_def Let_def M_def [symmetric] unfolding w by simp
  ultimately have "- ?h \<le> mods m w \<and> mods m w < ?h" by auto
  moreover have "mods m w \<noteq> - ?h" using o eh by (metis dvd_minus_iff odd_iff_mod_2_eq_one)
  ultimately show "\<bar>mods m w\<bar> < ?h" by auto
qed

lemma naf_digit_bounds:
  assumes "1 \<le> w" "m mod 2 = 1"
  shows "naf_digit m w mod 2 = 1" "2 dvd (m - naf_digit m w)"
    "\<bar>naf_digit m w\<bar> \<le> 2 ^ nat (w - 1)"
    "2 \<le> w \<Longrightarrow> \<bar>naf_digit m w\<bar> < 2 ^ nat (w - 1)"
proof -
  have 1: "w = 1 \<or> 2 \<le> w" using assms by auto
  have m4: "m mod 4 = 1 \<or> m mod 4 = 3" using assms(2) by presburger
  show "naf_digit m w mod 2 = 1"
    using 1 mods_bounds [of w m] assms m4 by (auto simp: naf_digit_def)
  show "2 dvd (m - naf_digit m w)"
    using 1 mods_bounds [of w m] assms m4 by (auto simp: naf_digit_def mod_eq_dvd_iff; presburger)
  show "\<bar>naf_digit m w\<bar> \<le> 2 ^ nat (w - 1)"
    using 1 mods_bounds [of w m] assms m4 by (auto simp: naf_digit_def)
  show "2 \<le> w \<Longrightarrow> \<bar>naf_digit m w\<bar> < 2 ^ nat (w - 1)"
    using 1 mods_bounds [of w m] assms by (auto simp: naf_digit_def)
qed

lemma naf_step_less:
  assumes "0 < m" "1 \<le> w" "m mod 2 = 1"
  shows "(m - naf_digit m w) div 2 < m" "0 \<le> m - naf_digit m w"
proof -
  have "(m - naf_digit m w) div 2 < m \<and> 0 \<le> m - naf_digit m w"
  proof (cases "w = 1")
    case True
    have "m mod 4 = 1 \<or> m mod 4 = 3" using assms(3) by presburger
    moreover have "m mod 4 = 3 \<Longrightarrow> 3 \<le> m" using assms(1) by presburger
    ultimately show ?thesis using assms True by (auto simp: naf_digit_def)
  next
    case False
    then have w: "2 \<le> w" using assms by simp
    let ?h = "2 ^ nat (w - 1) :: int"
    have b: "naf_digit m w = mods m w" "\<bar>mods m w\<bar> < ?h" using mods_bounds [OF w assms(3)] False
      by (auto simp: naf_digit_def)
    have W: "(2::int) ^ nat w = 2 * ?h" using w two_power_pred by simp
    show ?thesis
    proof (cases "m < ?h")
      case True
      then have "m mod 2 ^ nat w = m" using assms(1) W by simp
      then have "mods m w = m" using True W by (simp add: mods_def Let_def)
      then show ?thesis using b assms(1) by simp
    next
      case False
      then show ?thesis using b by auto
    qed
  qed
  then show "(m - naf_digit m w) div 2 < m" "0 \<le> m - naf_digit m w" by simp_all
qed

function wNAF_of_m_var :: "int \<Rightarrow> int \<Rightarrow> int list" where
  "wNAF_of_m_var m w =
     (if 0 < m \<and> 1 \<le> w then
        (let d = (if m mod 2 = 1 then naf_digit m w else 0) in d # wNAF_of_m_var ((m - d) div 2) w)
      else [])"
  by auto
termination
proof (relation "measure (\<lambda>(m, w). nat m)", goal_cases)
  case (2 m w d)
  have "(m - d) div 2 < m" using 2 naf_step_less [of m w] by (auto split: if_splits)
  then show ?case using 2 by auto
qed simp

declare wNAF_of_m_var.simps [simp del]

lemma le_value_append: "le_value b (xs @ ys) = le_value b xs + b ^ length xs * le_value b ys"
  by (induction xs) (simp_all add: algebra_simps)

lemma le_value_snoc_foldl: "le_value b ds = foldl (\<lambda>k d. b * k + d) 0 (rev ds)"
  by (induction ds) simp_all

lemma le_value_last:
  "ds \<noteq> [] \<Longrightarrow> le_value b ds = foldl (\<lambda>k d. b * k + d) (last ds) (tl (rev ds))"
  unfolding le_value_snoc_foldl by (cases ds rule: rev_cases) simp_all

lemma le_value_sum: "le_value b ds = (\<Sum>i<length ds. b ^ i * ds ! i)"
proof (induction ds rule: rev_induct)
  case (snoc d ds)
  then show ?case by (simp add: le_value_append nth_append)
qed simp

lemma wNAF_correct:
  assumes "0 \<le> m" "1 \<le> w"
  shows "le_value 2 (wNAF_of_m_var m w) = m"
    and "\<And>d. d \<in> set (wNAF_of_m_var m w) \<Longrightarrow>
          d = 0 \<or> d mod 2 = 1 \<and> \<bar>d\<bar> \<le> 2 ^ nat (w - 1) \<and> (2 \<le> w \<longrightarrow> \<bar>d\<bar> < 2 ^ nat (w - 1))"
proof -
  have "le_value 2 (wNAF_of_m_var m w) = m \<and> (\<forall>d \<in> set (wNAF_of_m_var m w).
          d = 0 \<or> d mod 2 = 1 \<and> \<bar>d\<bar> \<le> 2 ^ nat (w - 1) \<and> (2 \<le> w \<longrightarrow> \<bar>d\<bar> < 2 ^ nat (w - 1)))"
    using assms
  proof (induction m w rule: wNAF_of_m_var.induct)
    case (1 m w)
    show ?case
    proof (cases "m = 0")
      case True
      then show ?thesis by (simp add: wNAF_of_m_var.simps)
    next
      case False
      then have m: "0 < m \<and> 1 \<le> w" using 1(2,3) by simp
      define d where "d = (if m mod 2 = 1 then naf_digit m w else 0)"
      have d2: "2 dvd (m - d)" using naf_digit_bounds(2) [of w m] m unfolding d_def by auto
      have nn: "0 \<le> (m - d) div 2" using naf_step_less(2) [of m w] m unfolding d_def by auto
      have db: "d = 0 \<or> d mod 2 = 1 \<and> \<bar>d\<bar> \<le> 2 ^ nat (w - 1) \<and> (2 \<le> w \<longrightarrow> \<bar>d\<bar> < 2 ^ nat (w - 1))"
        using naf_digit_bounds [of w m] m unfolding d_def by auto
      have u: "wNAF_of_m_var m w = d # wNAF_of_m_var ((m - d) div 2) w"
        using m by (subst wNAF_of_m_var.simps) (simp add: d_def Let_def)
      show ?thesis unfolding u
        using 1(1) [OF m d_def nn 1(3)] db d2 by auto
    qed
  qed
  then show "le_value 2 (wNAF_of_m_var m w) = m"
    and "\<And>d. d \<in> set (wNAF_of_m_var m w) \<Longrightarrow>
          d = 0 \<or> d mod 2 = 1 \<and> \<bar>d\<bar> \<le> 2 ^ nat (w - 1) \<and> (2 \<le> w \<longrightarrow> \<bar>d\<bar> < 2 ^ nat (w - 1))"
    by blast+
qed

section \<open>Signed odd digits\<close>

text \<open>The loop appends \<open>size - 1\<close> digits and then what is left of \<open>m\<close>.\<close>

fun odd_digits_loop :: "nat \<Rightarrow> int \<Rightarrow> int \<Rightarrow> int list" where
  "odd_digits_loop 0 w2 m = [m]"
| "odd_digits_loop (Suc k) w2 m =
     (let digit = m mod (2 * w2) - w2 in digit # odd_digits_loop k w2 ((m - digit) div w2))"

definition signed_odd_digits :: "int \<Rightarrow> int \<Rightarrow> int \<Rightarrow> int list result" where
  "signed_odd_digits m w sz =
     rbind (require (\<not> m < 0) (BTClibEccValueError ''negative m'')) (\<lambda>_.
     rbind (require (\<not> w \<le> 0) (BTClibEccValueError ''non positive w'')) (\<lambda>_.
     rbind (require (\<not> m mod 2 = 0) (BTClibEccValueError ''even m'')) (\<lambda>_.
     rbind (require (\<not> sz < 1) (BTClibEccValueError ''size too low'')) (\<lambda>_.
     rbind (require (m div 2 ^ nat (w * sz) = 0) (BTClibEccValueError ''m does not fit size digits'')) (\<lambda>_.
       Inr (odd_digits_loop (nat (sz - 1)) (2 ^ nat w) m))))))"

lemma odd_digits_loop_correct:
  assumes "even w2" "0 < w2" "odd m" "0 < m" "m < w2 ^ Suc k"
  shows "le_value w2 (odd_digits_loop k w2 m) = m
    \<and> (\<forall>d\<in>set (odd_digits_loop k w2 m). odd d \<and> \<bar>d\<bar> < w2)
    \<and> length (odd_digits_loop k w2 m) = Suc k \<and> 0 < last (odd_digits_loop k w2 m)"
  using assms(3-)
proof (induction k arbitrary: m)
  case 0
  then show ?case by simp
next
  case (Suc k)
  define q where "q = m div (2 * w2)"
  define r where "r = m mod (2 * w2)"
  have m: "m = 2 * w2 * q + r" by (simp add: q_def r_def)
  have r: "0 \<le> r" "r < 2 * w2" using assms(2) by (simp_all add: r_def pos_mod_bound)
  have q: "0 \<le> q" using Suc.prems assms(2) by (simp add: q_def pos_imp_zdiv_nonneg_iff)
  have e: "m - (r - w2) = w2 * (2 * q + 1)" by (simp add: m algebra_simps)
  then have d: "(m - (r - w2)) div w2 = 2 * q + 1" using assms(2) by simp
  have o: "odd r" using Suc.prems(1) unfolding m by simp
  then have "r \<noteq> 0" by auto
  have "w2 * (2 * q) \<le> m" using m r by (simp add: algebra_simps)
  also have "\<dots> < w2 * w2 ^ Suc k" using Suc.prems(3) by simp
  finally have "2 * q < w2 ^ Suc k" using assms(2) mult_less_cancel_left_pos by blast
  moreover have "2 * q + 1 \<noteq> w2 ^ Suc k" 
  proof
    assume "2 * q + 1 = w2 ^ Suc k"
    then have "even (2 * q + 1)" using assms(1) by simp
    then show False by simp
  qed
  ultimately have b: "2 * q + 1 < w2 ^ Suc k" by simp
  have IH: "le_value w2 (odd_digits_loop k w2 (2 * q + 1)) = 2 * q + 1
    \<and> (\<forall>d\<in>set (odd_digits_loop k w2 (2 * q + 1)). odd d \<and> \<bar>d\<bar> < w2)
    \<and> length (odd_digits_loop k w2 (2 * q + 1)) = Suc k \<and> 0 < last (odd_digits_loop k w2 (2 * q + 1))"
    using Suc.IH [of "2 * q + 1"] q b by simp
  have u: "odd_digits_loop (Suc k) w2 m = (r - w2) # odd_digits_loop k w2 (2 * q + 1)"
    using d by (simp add: Let_def r_def)
  have ne: "odd_digits_loop k w2 (2 * q + 1) \<noteq> []" using IH by (metis list.size(3) nat.distinct(1))
  have "odd (r - w2) \<and> \<bar>r - w2\<bar> < w2" using o assms(1) r \<open>r \<noteq> 0\<close> by auto
  moreover have "(r - w2) + w2 * (2 * q + 1) = m" using e by simp
  ultimately show ?case unfolding u using IH ne by simp
qed

lemma signed_odd_digits_correct:
  assumes "0 < m" "odd m" "1 \<le> w" "1 \<le> sz" "m < 2 ^ nat (w * sz)"
  shows "returns (signed_odd_digits m w sz) (\<lambda>ds.
     le_value (2 ^ nat w) ds = m \<and> (\<forall>d\<in>set ds. odd d \<and> \<bar>d\<bar> < 2 ^ nat w)
     \<and> length ds = nat sz \<and> 0 < last ds)"
proof -
  have k: "Suc (nat (sz - 1)) = nat sz" using assms by simp
  have e: "(2::int) ^ nat (w * sz) = (2 ^ nat w) ^ nat sz"
    using assms by (simp add: nat_mult_distrib flip: power_mult)
  have z: "m div 2 ^ nat (w * sz) = 0" using assms(1,5) by (simp add: div_pos_pos_trivial)
  have o: "m mod 2 \<noteq> 0" using assms(2) by presburger
  have "even ((2::int) ^ nat w)" using assms(3) by simp
  moreover have "m < (2 ^ nat w) ^ Suc (nat (sz - 1))" using assms(5) unfolding e k .
  ultimately have c: "le_value (2 ^ nat w) (odd_digits_loop (nat (sz - 1)) (2 ^ nat w) m) = m
    \<and> (\<forall>d\<in>set (odd_digits_loop (nat (sz - 1)) (2 ^ nat w) m). odd d \<and> \<bar>d\<bar> < 2 ^ nat w)
    \<and> length (odd_digits_loop (nat (sz - 1)) (2 ^ nat w) m) = nat sz
    \<and> 0 < last (odd_digits_loop (nat (sz - 1)) (2 ^ nat w) m)"
    using odd_digits_loop_correct [of "2 ^ nat w" m "nat (sz - 1)"] assms(1,2) k by simp
  have "signed_odd_digits m w sz = Inr (odd_digits_loop (nat (sz - 1)) (2 ^ nat w) m)"
    using z o assms(1,3,4) by (simp add: signed_odd_digits_def)
  then show ?thesis using c by simp
qed

lemma signed_odd_digits_Inl:
  "signed_odd_digits m w sz = Inl e \<Longrightarrow>
     m < 0 \<or> w \<le> 0 \<or> even m \<or> sz < 1 \<or> 2 ^ nat (w * sz) \<le> m"
  by (auto simp: signed_odd_digits_def rbind_eq_Inl_iff require_def div_pos_pos_trivial
      split: if_splits)

end
