(* ===== verification/Octets.thy ===== *)
theory Octets
  imports Recoding
begin

unbundle bit_operations_syntax

text \<open>
  The octets and integers of \<^verbatim>\<open>src/btclib_ecc/_utils.py\<close>: \<^verbatim>\<open>int.from_bytes\<close> and \<^verbatim>\<open>int.to_bytes\<close> in big
  endian, the size check on octets, the bits of a digest as an integer, and the two spellings of an
  integer as text. Octets are lists of 8-bit words; a text is a \<open>string\<close>. What is not a value of the
  documented type is refused by the code before any of this and has no counterpart here.
\<close>

section \<open>Integers as octets\<close>

definition int_from_bytes :: "octets \<Rightarrow> int" where
  "int_from_bytes bs = foldl (\<lambda>v b. 256 * v + uint b) 0 bs"

fun to_bytes :: "nat \<Rightarrow> int \<Rightarrow> octets" where
  "to_bytes 0 x = []"
| "to_bytes (Suc n) x = to_bytes n (x div 256) @ [word_of_int (x mod 256)]"

definition int_to_bytes :: "int \<Rightarrow> nat \<Rightarrow> octets result" where
  "int_to_bytes x n = (if x < 0 \<or> 256 ^ n \<le> x then Inl OverflowError else Inr (to_bytes n x))"

lemma length_to_bytes [simp]: "length (to_bytes n x) = n"
  by (induction n arbitrary: x) simp_all

lemma int_from_bytes_Nil [simp]: "int_from_bytes [] = 0"
  by (simp add: int_from_bytes_def)

lemma int_from_bytes_snoc [simp]: "int_from_bytes (bs @ [b]) = 256 * int_from_bytes bs + uint b"
  by (simp add: int_from_bytes_def)

lemma int_from_bytes_append: "int_from_bytes (as @ bs) = 256 ^ length bs * int_from_bytes as + int_from_bytes bs"
  by (induction bs rule: rev_induct) (simp_all add: algebra_simps flip: append_assoc)

lemma uint_octet: "0 \<le> uint (b :: 8 word)" "uint (b :: 8 word) < 256"
  using uint_bounded [of b] by simp_all

lemma int_from_bytes_bounds: "0 \<le> int_from_bytes bs \<and> int_from_bytes bs < 256 ^ length bs"
proof (induction bs rule: rev_induct)
  case (snoc b bs)
  have "256 * int_from_bytes bs + uint b < 256 * (int_from_bytes bs + 1)" using uint_octet [of b] by simp
  also have "\<dots> \<le> 256 * 256 ^ length bs" using snoc by (intro mult_left_mono) simp_all
  finally show ?case using snoc uint_octet [of b] by simp
qed simp

lemma int_from_to_bytes: "int_from_bytes (to_bytes n x) = x mod 256 ^ n"
proof (induction n arbitrary: x)
  case (Suc n)
  have "uint (word_of_int (x mod 256) :: 8 word) = x mod 256"
    by (simp add: uint_word_of_int mod_mod_trivial)
  moreover have "256 * (x div 256 mod 256 ^ n) + x mod 256 = x mod (256 * 256 ^ n)"
    by (simp add: zmod_zmult2_eq)
  ultimately show ?case by (simp add: Suc)
qed simp

lemma to_bytes_from_bytes: "to_bytes (length bs) (int_from_bytes bs) = bs"
proof (induction bs rule: rev_induct)
  case (snoc b bs)
  have "(256 * int_from_bytes bs + uint b) div 256 = int_from_bytes bs"
    and "(256 * int_from_bytes bs + uint b) mod 256 = uint b"
    using uint_octet [of b] by simp_all
  then show ?case using snoc by simp
qed simp

lemma int_to_bytes_Inr_iff:
  "int_to_bytes x n = Inr bs \<longleftrightarrow> length bs = n \<and> int_from_bytes bs = x"
  using int_from_bytes_bounds [of bs] to_bytes_from_bytes [of bs] int_from_to_bytes [of n x]
  by (auto simp: int_to_bytes_def)

lemma int_from_bytes_inj: "length as = length bs \<Longrightarrow> int_from_bytes as = int_from_bytes bs \<Longrightarrow> as = bs"
  by (metis to_bytes_from_bytes)

section \<open>Sizes and digests\<close>

text \<open>\<^verbatim>\<open>bytes_from_octets\<close> on octets: only the size is left to check.\<close>

definition bytes_from_octets :: "octets \<Rightarrow> nat list option \<Rightarrow> octets result" where
  "bytes_from_octets bs out_size =
     (case out_size of
        None \<Rightarrow> Inr bs
      | Some sizes \<Rightarrow> if length bs \<in> set sizes then Inr bs else Inl (BTClibEccValueError ''invalid size''))"

definition int_from_bits :: "octets \<Rightarrow> nat \<Rightarrow> int" where
  "int_from_bits bs nlen =
     (let i = int_from_bytes bs; blen = length bs * 8; n = (if nlen \<le> blen then blen - nlen else 0)
      in drop_bit n i)"

lemma power_256: "(256 :: int) ^ k = 2 ^ (k * 8)"
  using power_mult [of "2 :: int" 8 k] by (simp add: mult.commute)

lemma div_less_mult: "0 < d \<Longrightarrow> i < c * d \<Longrightarrow> i div d < c" for i :: int
proof (rule ccontr)
  assume d: "0 < d" "i < c * d" and "\<not> i div d < c"
  then have "c * d \<le> i div d * d" by (intro mult_right_mono) simp_all
  also have "\<dots> \<le> i" using d(1) by (simp add: minus_mod_eq_div_mult [symmetric])
  finally show False using d(2) by simp
qed

lemma int_from_bits_bounds: "0 \<le> int_from_bits bs nlen \<and> int_from_bits bs nlen < 2 ^ nlen"
proof -
  define k where "k = length bs * 8"
  define i where "i = int_from_bytes bs"
  have i: "0 \<le> i" "i < 2 ^ k" using int_from_bytes_bounds [of bs] by (simp_all add: i_def k_def power_256)
  have "i div 2 ^ (if nlen \<le> k then k - nlen else 0) < 2 ^ nlen"
  proof (cases "nlen \<le> k")
    case True
    have "i < 2 ^ nlen * 2 ^ (k - nlen)" using i(2) True by (simp flip: power_add)
    then have "i div 2 ^ (k - nlen) < 2 ^ nlen" by (rule div_less_mult [rotated]) simp
    then show ?thesis using True by simp
  next
    case False
    then have "(2 :: int) ^ k \<le> 2 ^ nlen" by (intro power_increasing) simp_all
    then have "i < 2 ^ nlen" using i by linarith
    then show ?thesis using False by simp
  qed
  then show ?thesis using i by (simp add: int_from_bits_def Let_def drop_bit_eq_div pos_imp_zdiv_nonneg_iff flip: k_def i_def)
qed

section \<open>Integers as text\<close>

definition hex_val :: "char \<Rightarrow> int option" where
  "hex_val c = (let k = int (of_char c :: nat) in
     if 48 \<le> k \<and> k \<le> 57 then Some (k - 48)
     else if 65 \<le> k \<and> k \<le> 70 then Some (k - 55)
     else if 97 \<le> k \<and> k \<le> 102 then Some (k - 87)
     else None)"

definition is_space :: "char \<Rightarrow> bool" where
  "is_space c \<longleftrightarrow> (of_char c :: nat) \<in> {9, 10, 11, 12, 13, 32}"

text \<open>\<^verbatim>\<open>bytes.fromhex\<close>: pairs of hexadecimal digits, with white space allowed between the pairs.\<close>

fun fromhex :: "string \<Rightarrow> octets option" where
  "fromhex [] = Some []"
| "fromhex (c # cs) =
     (if is_space c then fromhex cs
      else case cs of
        [] \<Rightarrow> None
      | d # ds \<Rightarrow>
        (case (hex_val c, hex_val d, fromhex ds) of
           (Some h, Some l, Some bs) \<Rightarrow> Some (word_of_int (16 * h + l) # bs)
         | _ \<Rightarrow> None))"

text \<open>The three types \<^verbatim>\<open>int_from_integer\<close> takes.\<close>

datatype py_integer = PyInt int | PyStr string | PyBytes octets

text \<open>What \<^verbatim>\<open>str.strip\<close> takes off, of the characters below 256: more than \<^verbatim>\<open>bytes.fromhex\<close> skips.\<close>

definition str_space :: "char \<Rightarrow> bool" where
  "str_space c \<longleftrightarrow> (of_char c :: nat) \<in> {9, 10, 11, 12, 13, 28, 29, 30, 31, 32, 133, 160}"

definition strip :: "string \<Rightarrow> string" where
  "strip s = rev (dropWhile str_space (rev (dropWhile str_space s)))"

definition lower_char :: "char \<Rightarrow> char" where
  "lower_char c = (let k = (of_char c :: nat) in if 65 \<le> k \<and> k \<le> 90 then char_of (k + 32) else c)"

definition lower :: "string \<Rightarrow> string" where
  "lower s = map lower_char s"

definition hex_int :: "string \<Rightarrow> int result" where
  "hex_int digits =
     (if digits = [] \<or> list_ex (\<lambda>c. hex_val c = None) digits
      then Inl (BTClibEccValueError ''invalid hex integer'')
      else Inr (foldl (\<lambda>v c. 16 * v + the (hex_val c)) 0 digits))"

definition int_from_integer :: "py_integer \<Rightarrow> int result" where
  "int_from_integer i =
     (case i of
        PyInt k \<Rightarrow> Inr k
      | PyBytes bs \<Rightarrow> Inr (int_from_bytes bs)
      | PyStr s \<Rightarrow>
          let s = lower (strip s) in
          if take 2 s = ''0x'' then hex_int (drop 2 s)
          else if take 3 s = ''-0x'' then rbind (hex_int (drop 3 s)) (\<lambda>k. Inr (- k))
          else (case fromhex s of
              None \<Rightarrow> Inl (BTClibEccValueError ''invalid hex string'')
            | Some bs \<Rightarrow> Inr (int_from_bytes bs)))"

definition hex_char :: "int \<Rightarrow> char" where
  "hex_char d = ''0123456789ABCDEF'' ! nat d"

text \<open>The groups of eight digits, aligned at the right.\<close>

function hex_groups :: "string \<Rightarrow> string list" where
  "hex_groups s = (if length s \<le> 8 then [s] else hex_groups (take (length s - 8) s) @ [drop (length s - 8) s])"
  by pat_completeness auto
termination by (relation "measure length") auto

declare hex_groups.simps [simp del]

fun join :: "string \<Rightarrow> string list \<Rightarrow> string" where
  "join sep [] = []"
| "join sep [x] = x"
| "join sep (x # y # ys) = x @ sep @ join sep (y # ys)"

definition hex_string :: "int \<Rightarrow> string result" where
  "hex_string i =
     (if i < 0 then Inl (BTClibEccValueError ''negative integer'')
      else
        let a_str = map hex_char (convert_number_to_base_var i 16);
          a_str = (if length a_str mod 2 \<noteq> 0 then ''0'' @ a_str else a_str)
        in Inr (join '' '' (hex_groups a_str)))"

text \<open>Reading what \<^verbatim>\<open>hex_string\<close> prints.\<close>

lemma hex_char_val:
  assumes "0 \<le> d" "d < 16"
  shows "hex_val (hex_char d) = Some d" "\<not> is_space (hex_char d)" "\<not> str_space (hex_char d)"
proof -
  have "d \<in> {0, 1, 2, 3, 4, 5, 6, 7, 8, 9, 10, 11, 12, 13, 14, 15}"
    using assms by (simp only: insert_iff empty_iff simp_thms) presburger
  then have "hex_val (hex_char d) = Some d \<and> \<not> is_space (hex_char d) \<and> \<not> str_space (hex_char d)"
    by (elim insertE emptyE) (simp_all add: hex_val_def hex_char_def is_space_def str_space_def)
  then show "hex_val (hex_char d) = Some d" "\<not> is_space (hex_char d)" "\<not> str_space (hex_char d)" by simp_all
qed

lemma append_Nil_fun: "(@) [] = (\<lambda>cs. cs)"
  by auto

lemma fromhex_pairs:
  assumes "even (length ds)" "\<forall>d\<in>set ds. 0 \<le> d \<and> d < (16 :: int)"
  shows "\<exists>bs. length bs = length ds div 2 \<and> int_from_bytes bs = horner 16 ds
    \<and> (\<forall>s. fromhex (map hex_char ds @ s) = map_option (\<lambda>cs. bs @ cs) (fromhex s))"
  using assms
proof (induction ds rule: induct_list012)
  case (3 d e ds)
  then obtain bs where bs: "length bs = length ds div 2" "int_from_bytes bs = horner 16 ds"
    "\<And>s. fromhex (map hex_char ds @ s) = map_option (\<lambda>cs. bs @ cs) (fromhex s)" by auto
  define b where "b = (word_of_int (16 * d + e) :: 8 word)"
  have de: "0 \<le> d" "d < 16" "0 \<le> e" "e < 16" using 3 by auto
  then have u: "uint b = 16 * d + e" unfolding b_def uint_word_of_int by simp
  have "fromhex (map hex_char (d # e # ds) @ s) = map_option (\<lambda>cs. (b # bs) @ cs) (fromhex s)" for s
    using hex_char_val [OF de(1,2)] hex_char_val [OF de(3,4)] bs(3) [of s]
    by (cases "fromhex s") (simp_all add: b_def)
  moreover have "int_from_bytes (b # bs) = horner 16 (d # e # ds)"
  proof -
    have "even (length ds)" using 3 by simp
    then have l: "(256 :: int) ^ length bs = 16 ^ length ds"
      unfolding bs(1) using power_mult [of "16 :: int" 2 "length ds div 2"] by simp
    have "int_from_bytes ([b] @ bs) = 256 ^ length bs * uint b + horner 16 ds"
      unfolding int_from_bytes_append bs(2) by (simp add: int_from_bytes_def)
    then show ?thesis using u by (simp add: l horner_Cons algebra_simps)
  qed
  moreover have "length (b # bs) = length (d # e # ds) div 2" using bs(1) by simp
  ultimately show ?case by blast
qed (auto simp: horner_def append_Nil_fun option.map_ident)

lemma fromhex_space: "fromhex ('' '' @ s) = fromhex s"
  by (simp add: is_space_def)

lemma join_snoc: "xs \<noteq> [] \<Longrightarrow> join sep (xs @ [x]) = join sep xs @ sep @ x"
  by (induction sep xs rule: join.induct) auto

lemma hex_groups_nonempty: "hex_groups s \<noteq> []"
  by (subst hex_groups.simps) simp

text \<open>Grouping an even number of digits changes nothing of what is read.\<close>

lemma fromhex_hex_groups:
  assumes "even (length ds)" "\<forall>d\<in>set ds. 0 \<le> d \<and> d < (16 :: int)"
  shows "fromhex (join '' '' (hex_groups (map hex_char ds)) @ s) = fromhex (map hex_char ds @ s)"
  using assms
proof (induction "length ds" arbitrary: ds s rule: less_induct)
  case less
  show ?case
  proof (cases "length ds \<le> 8")
    case True
    then show ?thesis by (subst hex_groups.simps) simp
  next
    case False
    define k where "k = length ds - 8"
    let ?a = "take k ds" and ?b = "drop k ds"
    have e: "even (length ?a)" "length ?a < length ds" using less(2) False by (auto simp: k_def)
    have r: "\<forall>d\<in>set ?a. 0 \<le> d \<and> d < 16" "\<forall>d\<in>set ?b. 0 \<le> d \<and> d < 16"
      using less(3) by (auto dest: in_set_takeD in_set_dropD)
    have "hex_groups (map hex_char ds) = hex_groups (map hex_char ?a) @ [map hex_char ?b]"
      using False by (subst hex_groups.simps) (simp add: k_def take_map drop_map)
    then have "fromhex (join '' '' (hex_groups (map hex_char ds)) @ s)
        = fromhex (join '' '' (hex_groups (map hex_char ?a)) @ ('' '' @ map hex_char ?b @ s))"
      by (simp add: join_snoc hex_groups_nonempty)
    also have "\<dots> = fromhex (map hex_char ?a @ ('' '' @ map hex_char ?b @ s))"
      by (rule less(1) [OF e(2,1) r(1)])
    also have "\<dots> = fromhex (map hex_char ?a @ map hex_char ?b @ s)"
      using fromhex_pairs [OF e(1) r(1)] fromhex_space [of "map hex_char ?b @ s"] by metis
    also have "map hex_char ?a @ map hex_char ?b @ s = map hex_char ds @ s"
      by (metis append.assoc append_take_drop_id map_append)
    finally show ?thesis .
  qed
qed

lemma lower_char_hex: "hex_val (lower_char c) = hex_val c" "is_space (lower_char c) = is_space c"
  by (auto simp: hex_val_def lower_char_def is_space_def Let_def)

lemma fromhex_lower: "fromhex (lower s) = fromhex s"
  by (induction s rule: fromhex.induct) (auto simp: lower_def lower_char_hex split: list.splits option.splits)

lemma lower_hex_char_neq_x:
  assumes "0 \<le> d" "d < 16"
  shows "lower_char (hex_char d) \<noteq> CHR ''x''"
proof -
  have "d \<in> {0, 1, 2, 3, 4, 5, 6, 7, 8, 9, 10, 11, 12, 13, 14, 15}"
    using assms by (simp only: insert_iff empty_iff simp_thms) presburger
  then show ?thesis by (elim insertE emptyE) (simp_all add: hex_char_def lower_char_def char_of_def)
qed

lemma hex_groups_ends:
  assumes "xs \<noteq> []"
  shows "join sep (hex_groups xs) \<noteq> [] \<and> hd (join sep (hex_groups xs)) = hd xs
    \<and> last (join sep (hex_groups xs)) = last xs \<and> set (join sep (hex_groups xs)) \<subseteq> set xs \<union> set sep"
  using assms
proof (induction xs rule: hex_groups.induct)
  case (1 xs)
  show ?case
  proof (cases "length xs \<le> 8")
    case True
    then show ?thesis using 1(2) by (subst (1 2 3 4) hex_groups.simps) simp
  next
    case False
    let ?k = "length xs - 8"
    let ?a = "take ?k xs" and ?b = "drop ?k xs"
    have ne: "?a \<noteq> []" "?b \<noteq> []" using False by auto
    have "hex_groups xs = hex_groups ?a @ [?b]" using False by (subst hex_groups.simps) simp
    then have e: "join sep (hex_groups xs) = join sep (hex_groups ?a) @ sep @ ?b"
      by (simp add: join_snoc hex_groups_nonempty)
    have "hd ?a = hd xs" "last ?b = last xs" using ne by (simp_all add: hd_take last_drop)
    moreover have "set ?a \<subseteq> set xs" "set ?b \<subseteq> set xs" by (auto dest: in_set_takeD in_set_dropD)
    ultimately show ?thesis using 1(1) [OF False ne(1)] ne unfolding e by auto
  qed
qed

lemma strip_id:
  assumes "s \<noteq> []" "\<not> str_space (hd s)" "\<not> str_space (last s)"
  shows "strip s = s"
proof -
  have "dropWhile str_space s = s" using assms(1,2) by (cases s) auto
  moreover have "dropWhile str_space (rev s) = rev s" using assms(1,3) by (cases s rule: rev_cases) auto
  ultimately show ?thesis by (simp add: strip_def)
qed

lemma int_from_hex_string:
  assumes "hex_string i = Inr s"
  shows "int_from_integer (PyStr s) = Inr i"
proof -
  define ds where "ds = convert_number_to_base_var i 16"
  define es where "es = (if length ds mod 2 \<noteq> 0 then 0 # ds else ds)"
  have i: "0 \<le> i" using assms by (auto simp: hex_string_def split: if_splits)
  note ds = convert_number_to_base_var_correct [OF i, of 16, folded ds_def, simplified]
  have es: "even (length es)" "\<forall>d\<in>set es. 0 \<le> d \<and> d < 16" "horner 16 es = i" "es \<noteq> []"
    using ds by (auto simp: es_def horner_Cons dest: odd_iff_mod_2_eq_one [THEN iffD2])
  have s: "s = join '' '' (hex_groups (map hex_char es))"
  proof -
    have "''0'' @ map hex_char ds = map hex_char (0 # ds)" by (simp add: hex_char_def)
    then show ?thesis using assms i by (auto simp: hex_string_def es_def ds_def [symmetric] Let_def)
  qed
  have me: "map hex_char es \<noteq> []" using es(4) by simp
  note ends = hex_groups_ends [OF me, of "'' ''", folded s]
  have "\<not> str_space (hd s)" "\<not> str_space (last s)"
    using ends es(2,4) hex_char_val(3) by (simp_all add: hd_map last_map)
  then have strip: "strip s = s" using ends strip_id by blast
  have "CHR ''x'' \<notin> set (lower s)"
  proof
    assume "CHR ''x'' \<in> set (lower s)"
    then obtain c where c: "c \<in> set s" "lower_char c = CHR ''x''" by (auto simp: lower_def)
    then have "c = CHR '' '' \<or> (\<exists>d\<in>set es. c = hex_char d)" using ends by auto
    then show False using c(2) lower_hex_char_neq_x es(2) by (auto simp: lower_char_def)
  qed
  then have pre: "take 2 (lower s) \<noteq> ''0x''" "take 3 (lower s) \<noteq> ''-0x''"
    by (metis in_set_takeD list.set_intros(1,2))+
  obtain bs where bs: "int_from_bytes bs = horner 16 es"
    "\<And>t. fromhex (map hex_char es @ t) = map_option (\<lambda>cs. bs @ cs) (fromhex t)"
    using fromhex_pairs [OF es(1,2)] by blast
  have "fromhex (lower s) = Some bs"
    using fromhex_hex_groups [OF es(1,2), of "[]"] bs(2) [of "[]"] by (simp add: fromhex_lower s)
  then show ?thesis using pre bs(1) es(3) by (simp add: int_from_integer_def strip)
qed

end
