(* ===== verification/Hashes.thy ===== *)
theory Hashes
  imports Octets
begin

unbundle bit_operations_syntax

text \<open>
  Hashes and key derivation, \<^verbatim>\<open>src/btclib_ecc/hashes.py\<close> and \<^verbatim>\<open>src/btclib_ecc/kdf.py\<close>. A hash function is
  a parameter, the record of what \<^verbatim>\<open>hashlib\<close> offers of it: the digest, its size and the block size that
  \<^verbatim>\<open>hmac\<close> reads. Nothing is assumed of it but \<open>hash_ok\<close>, that its digests have the size it states.
\<close>

section \<open>Hash functions\<close>

record hash_fn =
  hf_digest :: "octets \<Rightarrow> octets"
  hf_size :: nat
  hf_block :: nat

definition hash_ok :: "hash_fn \<Rightarrow> bool" where
  "hash_ok hf \<longleftrightarrow> 0 < hf_size hf \<and> hf_size hf \<le> hf_block hf \<and> (\<forall>m. length (hf_digest hf m) = hf_size hf)"

definition ascii :: "string \<Rightarrow> octets" where
  "ascii s = map (\<lambda>c. word_of_nat (of_char c)) s"

definition reduce_to_hlen :: "octets \<Rightarrow> hash_fn \<Rightarrow> octets" where
  "reduce_to_hlen msg hf = hf_digest hf msg"

definition tagged_hash :: "octets \<Rightarrow> octets \<Rightarrow> hash_fn \<Rightarrow> octets" where
  "tagged_hash tag m hf = (let tag_hash = hf_digest hf tag in hf_digest hf (tag_hash @ tag_hash @ m))"

text \<open>\<^verbatim>\<open>hmac.new(key, msg, hf).digest()\<close>.\<close>

definition hmac :: "hash_fn \<Rightarrow> octets \<Rightarrow> octets \<Rightarrow> octets" where
  "hmac hf key msg =
     (let key = (if hf_block hf < length key then hf_digest hf key else key);
        key = key @ replicate (hf_block hf - length key) 0;
        inner = hf_digest hf (map (\<lambda>b. b XOR 0x36) key @ msg)
      in hf_digest hf (map (\<lambda>b. b XOR 0x5C) key @ inner))"

lemma length_tagged_hash: "hash_ok hf \<Longrightarrow> length (tagged_hash tag m hf) = hf_size hf"
  by (simp add: tagged_hash_def hash_ok_def Let_def)

lemma length_hmac: "hash_ok hf \<Longrightarrow> length (hmac hf key msg) = hf_size hf"
  by (simp add: hmac_def hash_ok_def Let_def)

section \<open>Key derivation\<close>

definition assert_valid_keying_data_size :: "int \<Rightarrow> int \<Rightarrow> unit result" where
  "assert_valid_keying_data_size sz max_size =
     (if sz \<le> 0 then Inl (BTClibEccValueError ''invalid keying data size'')
      else if max_size < sz then Inl (BTClibEccValueError ''cannot derive a key larger than the limit'')
      else Inr ())"

definition ansi_x9_63_kdf :: "octets \<Rightarrow> int \<Rightarrow> hash_fn \<Rightarrow> octets option \<Rightarrow> octets result" where
  "ansi_x9_63_kdf z sz hf shared_info =
     (let hs = int (hf_size hf) in
      rbind (assert_valid_keying_data_size sz (hs * (2 ^ 32 - 1))) (\<lambda>_.
        let n_blocks = nat (ceil_div sz hs);
          info = (case shared_info of None \<Rightarrow> [] | Some i \<Rightarrow> i)
        in Inr (take (nat sz)
             (concat (map (\<lambda>counter. hf_digest hf (z @ to_bytes 4 (int counter) @ info)) [1..<n_blocks + 1])))))"

definition hkdf_extract :: "octets \<Rightarrow> octets option \<Rightarrow> hash_fn \<Rightarrow> octets" where
  "hkdf_extract ikm salt hf = hmac hf (case salt of None \<Rightarrow> [] | Some s \<Rightarrow> s) ikm"

fun hkdf_blocks :: "hash_fn \<Rightarrow> octets \<Rightarrow> octets \<Rightarrow> octets \<Rightarrow> nat list \<Rightarrow> octets" where
  "hkdf_blocks hf prk context block [] = []"
| "hkdf_blocks hf prk context block (counter # cs) =
     (let block = hmac hf prk (block @ context @ [word_of_nat counter])
      in block @ hkdf_blocks hf prk context block cs)"

definition hkdf_expand :: "octets \<Rightarrow> int \<Rightarrow> hash_fn \<Rightarrow> octets option \<Rightarrow> octets result" where
  "hkdf_expand prk sz hf info =
     (let hs = int (hf_size hf) in
      rbind (assert_valid_keying_data_size sz (255 * hs)) (\<lambda>_.
        if length prk < hf_size hf then Inl (BTClibEccValueError ''pseudorandom key shorter than the digest'')
        else
          let context = (case info of None \<Rightarrow> [] | Some i \<Rightarrow> i)
          in Inr (take (nat sz) (hkdf_blocks hf prk context [] [1..<nat (ceil_div sz hs) + 1]))))"

definition hkdf :: "octets \<Rightarrow> int \<Rightarrow> hash_fn \<Rightarrow> octets option \<Rightarrow> octets option \<Rightarrow> octets result" where
  "hkdf ikm sz hf salt info = hkdf_expand (hkdf_extract ikm salt hf) sz hf info"

section \<open>Sizes\<close>

lemma length_concat_const: "(\<And>x. x \<in> set xs \<Longrightarrow> length (f x) = k) \<Longrightarrow> length (concat (map f xs)) = length xs * k"
  by (induction xs) auto

lemma length_hkdf_blocks: "hash_ok hf \<Longrightarrow> length (hkdf_blocks hf prk context block cs) = length cs * hf_size hf"
  by (induction cs arbitrary: block) (simp_all add: Let_def length_hmac)

lemma blocks_cover:
  assumes "0 < sz" "0 < hs"
  shows "nat sz \<le> nat (ceil_div sz (int hs)) * hs"
proof -
  have "sz \<le> int hs * ceil_div sz (int hs)" using assms ceil_div_bound by simp
  also have "\<dots> \<le> int hs * int (nat (ceil_div sz (int hs)))" by (intro mult_left_mono) simp_all
  finally have "sz \<le> int (nat (ceil_div sz (int hs)) * hs)" by (simp only: of_nat_mult mult.commute)
  then show ?thesis by (simp only: nat_le_iff)
qed

lemma ansi_x9_63_kdf_size:
  assumes "hash_ok hf"
  shows "returns (ansi_x9_63_kdf z sz hf info) (\<lambda>k. length k = nat sz)
    \<longleftrightarrow> 0 < sz \<and> sz \<le> int (hf_size hf) * (2 ^ 32 - 1)"
  using assms blocks_cover [of sz "hf_size hf"]
  by (cases "0 < sz") (auto simp: ansi_x9_63_kdf_def assert_valid_keying_data_size_def Let_def hash_ok_def
      length_concat_const [where k = "hf_size hf"] min_def)

lemma hkdf_size:
  assumes "hash_ok hf"
  shows "returns (hkdf ikm sz hf salt info) (\<lambda>k. length k = nat sz) \<longleftrightarrow> 0 < sz \<and> sz \<le> 255 * int (hf_size hf)"
  using assms blocks_cover [of sz "hf_size hf"]
  by (cases "0 < sz") (auto simp: hkdf_def hkdf_expand_def hkdf_extract_def assert_valid_keying_data_size_def Let_def
      length_hmac length_hkdf_blocks hash_ok_def min_def)

end
