(* ===== verification/Number_Theory.thy ===== *)
theory Number_Theory
  imports Prime_Field
begin

text \<open>
  Model of \<^verbatim>\<open>src/btclib_ecc/number_theory.py\<close>, first part: extended Euclid and the modular inverses
  (one, blinded, batched, batched and blinded); \<open>Jacobi\<close> and \<open>Square_Roots\<close> hold the rest.
  The random draws of the blinded functions are arguments. Python's three-argument \<^verbatim>\<open>pow\<close> is
  \<open>pow_mod\<close> (square and multiply) and, with exponent \<^verbatim>\<open>-1\<close>, \<open>py_pow_inv\<close>.
\<close>

section \<open>Python's modular exponentiation\<close>

fun pow_mod :: "int \<Rightarrow> nat \<Rightarrow> int \<Rightarrow> int" where
  "pow_mod b e m =
     (if e = 0 then 1 mod m
      else let h = pow_mod (b * b mod m) (e div 2) m in
        if odd e then b * h mod m else h)"

declare pow_mod.simps [simp del]

lemma pow_mod_eq: "pow_mod b e m = b ^ e mod m"
proof (induction b e m rule: pow_mod.induct)
  case (1 b e m)
  show ?case
  proof (cases "e = 0")
    case True
    then show ?thesis by (simp add: pow_mod.simps)
  next
    case False
    have h: "pow_mod (b * b mod m) (e div 2) m = (b ^ 2) ^ (e div 2) mod m"
      using 1 False by (simp add: power_mod power2_eq_square)
    show ?thesis
    proof (cases "odd e")
      case True
      then have e: "e = Suc (2 * (e div 2))" by simp
      have "b ^ e = b * (b ^ 2) ^ (e div 2)"
        by (subst e) (simp add: power_mult)
      then show ?thesis using True h False by (simp add: pow_mod.simps [of b e] mod_mult_right_eq)
    next
      case even: False
      then have e: "e = 2 * (e div 2)" by simp
      have "b ^ e = (b ^ 2) ^ (e div 2)"
        by (subst e) (simp add: power_mult)
      then show ?thesis using even h False by (simp add: pow_mod.simps [of b e])
    qed
  qed
qed

definition py_pow_inv :: "int \<Rightarrow> int \<Rightarrow> int option" where
  "py_pow_inv a m = (if gcd a m = 1 then Some (inv_mod a m) else None)"

section \<open>Extended Euclid\<close>

function xgcd_loop :: "int \<Rightarrow> int \<Rightarrow> int \<Rightarrow> int \<Rightarrow> int \<Rightarrow> int \<Rightarrow> int \<times> int \<times> int" where
  "xgcd_loop a b x0 x1 y0 y1 =
     (if a \<noteq> 0 then
        let q = b div a in xgcd_loop (b mod a) a x1 (x0 - q * x1) y1 (y0 - q * y1)
      else (b, x0, y0))"
  by pat_completeness auto
termination
  by (relation "measure (\<lambda>(a, b, _). nat \<bar>a\<bar>)") (auto simp: abs_mod_less)

declare xgcd_loop.simps [simp del]

definition xgcd_var :: "int \<Rightarrow> int \<Rightarrow> int \<times> int \<times> int" where
  "xgcd_var a b = xgcd_loop a b 0 1 1 0"

lemma xgcd_loop_invariant:
  assumes "b = x0 * A + y0 * B" "a = x1 * A + y1 * B"
    and "xgcd_loop a b x0 x1 y0 y1 = (g, x, y)"
  shows "g = x * A + y * B \<and> \<bar>g\<bar> = gcd a b"
  using assms
proof (induction a b x0 x1 y0 y1 arbitrary: g x y rule: xgcd_loop.induct)
  case (1 a b x0 x1 y0 y1)
  show ?case
  proof (cases "a = 0")
    case True
    then show ?thesis using "1.prems" by (auto simp: xgcd_loop.simps [of 0])
  next
    case False
    define q where "q = b div a"
    have m: "b mod a = b - q * a" by (simp add: q_def minus_div_mult_eq_mod [symmetric])
    have "b mod a = (x0 - q * x1) * A + (y0 - q * y1) * B"
      unfolding m using "1.prems" by (simp add: algebra_simps)
    moreover have "xgcd_loop (b mod a) a x1 (x0 - q * x1) y1 (y0 - q * y1) = (g, x, y)"
      using "1.prems"(3) False by (simp add: xgcd_loop.simps [of a b] q_def Let_def)
    ultimately have "g = x * A + y * B \<and> \<bar>g\<bar> = gcd (b mod a) a"
      using "1.IH" [OF False q_def "1.prems"(2)] q_def by blast
    then show ?thesis by (metis gcd_red_int gcd.commute)
  qed
qed

section \<open>The modular inverse of one operand\<close>

definition assert_valid_modulus :: "int \<Rightarrow> unit result" where
  "assert_valid_modulus m = require (1 \<le> m) (BTClibEccValueError ''non-positive modulus'')"

definition mod_inv_var :: "int \<Rightarrow> int \<Rightarrow> int result" where
  "mod_inv_var a m = rbind (assert_valid_modulus m) (\<lambda>_.
     case py_pow_inv a m of
       Some x \<Rightarrow> Inr x
     | None \<Rightarrow> Inl (BTClibEccValueError ''no inverse mod''))"

text \<open>
  The blinded inverse: \<open>rnd\<close> is what \<^verbatim>\<open>secrets.randbelow(m - 1)\<close> returns. A refusal of the product
  runs the inverse again unblinded, as the \<^verbatim>\<open>except\<close> branch does.
\<close>

definition blind_factor :: "int \<Rightarrow> int \<Rightarrow> int" where
  "blind_factor rnd m = (if 1 < m then 1 + rnd else 1)"

definition mod_inv :: "int \<Rightarrow> int \<Rightarrow> int \<Rightarrow> int result" where
  "mod_inv rnd a m = rbind (assert_valid_modulus m) (\<lambda>_.
     let b = blind_factor rnd m in
     case mod_inv_var (a * b mod m) m of
       Inr i \<Rightarrow> Inr (i * b mod m)
     | Inl _ \<Rightarrow> mod_inv_var a m)"

lemma gcd_eq_1_coprime: "gcd a (m::int) = 1 \<longleftrightarrow> coprime a m"
  by (simp add: coprime_iff_gcd_eq_1)

lemma py_pow_inv_Some_iff:
  assumes "0 < m"
  shows "py_pow_inv a m = Some x \<longleftrightarrow> 0 \<le> x \<and> x < m \<and> m dvd (a * x - 1)"
proof
  assume "py_pow_inv a m = Some x"
  then have "coprime a m" "x = inv_mod a m"
    by (simp_all add: py_pow_inv_def gcd_eq_1_coprime split: if_splits)
  then show "0 \<le> x \<and> x < m \<and> m dvd (a * x - 1)" using assms inv_mod_correct by simp
next
  assume x: "0 \<le> x \<and> x < m \<and> m dvd (a * x - 1)"
  then have "inv_mod a m = x" "coprime a m" using assms inv_mod_eqI inverse_coprime by blast+
  then show "py_pow_inv a m = Some x" by (simp add: py_pow_inv_def gcd_eq_1_coprime)
qed

lemma mod_inv_var_Inr_iff:
  assumes "0 < m"
  shows "mod_inv_var a m = Inr x \<longleftrightarrow> 0 \<le> x \<and> x < m \<and> m dvd (a * x - 1)"
  using assms py_pow_inv_Some_iff [OF assms, of a x]
  by (auto simp: mod_inv_var_def assert_valid_modulus_def split: option.splits)

lemma mod_inv_var_Inl:
  "mod_inv_var a m = Inl e \<longleftrightarrow>
     (m < 1 \<and> e = BTClibEccValueError ''non-positive modulus'') \<or>
     (1 \<le> m \<and> gcd a m \<noteq> 1 \<and> e = BTClibEccValueError ''no inverse mod'')"
  by (auto simp: mod_inv_var_def assert_valid_modulus_def py_pow_inv_def require_def)

lemma mod_inv_var_prime:
  assumes "prime_int p" "\<not> p dvd a"
  shows "mod_inv_var a p = Inr (inv_mod a p)"
  using assms prime_int_coprime [OF assms] prime_int_gt_1 [OF assms(1)]
  by (simp add: mod_inv_var_def assert_valid_modulus_def py_pow_inv_def gcd_eq_1_coprime)

lemma mod_inv_var_coprime: "0 < m \<Longrightarrow> coprime a m \<Longrightarrow> mod_inv_var a m = Inr (inv_mod a m)"
  by (simp add: mod_inv_var_def assert_valid_modulus_def py_pow_inv_def gcd_eq_1_coprime)

lemma unblind_inverse:
  fixes m :: int
  assumes "m dvd (a * b mod m * i - 1)"
  shows "m dvd (a * (i * b mod m) - 1)"
proof -
  have "m dvd (a * b mod m - a * b)" "m dvd (i * b mod m - i * b)" by (rule dvd_mod_diff)+
  then show ?thesis using assms by algebra
qed

lemma mod_inv_eq_mod_inv_var: "mod_inv rnd a m = mod_inv_var a m"
proof (cases "1 \<le> m")
  case False
  then show ?thesis by (simp add: mod_inv_def mod_inv_var_def assert_valid_modulus_def)
next
  case True
  then have m: "0 < m" by simp
  show ?thesis
  proof (cases "mod_inv_var (a * blind_factor rnd m mod m) m")
    case (Inl e)
    then show ?thesis using True by (simp add: mod_inv_def assert_valid_modulus_def Let_def)
  next
    case (Inr i)
    then have "m dvd (a * blind_factor rnd m mod m * i - 1)" using m mod_inv_var_Inr_iff by blast
    then have "m dvd (a * (i * blind_factor rnd m mod m) - 1)" by (rule unblind_inverse)
    then have "mod_inv_var a m = Inr (i * blind_factor rnd m mod m)"
      using m mod_inv_var_Inr_iff by simp
    then show ?thesis using Inr True by (simp add: mod_inv_def assert_valid_modulus_def Let_def)
  qed
qed

section \<open>Batched inverses\<close>

text \<open>
  \<open>prefix_products\<close> is the forward pass that fills \<^verbatim>\<open>acc\<close>, \<open>batch_loop\<close> the backward loop with
  its list assignments, \<open>i\<close> the loop variable.
\<close>

fun prefix_products :: "int \<Rightarrow> int list \<Rightarrow> int \<Rightarrow> int list" where
  "prefix_products product [] m = []"
| "prefix_products product (x # xs) m =
     (let product' = product * x mod m in product' # prefix_products product' xs m)"

fun batch_loop :: "nat \<Rightarrow> int \<Rightarrow> int list \<Rightarrow> int list \<Rightarrow> int \<Rightarrow> int list \<Rightarrow> int list" where
  "batch_loop 0 iv a acc m inverses = inverses[0 := iv]"
| "batch_loop (Suc i) iv a acc m inverses =
     batch_loop i (iv * a ! Suc i mod m) a acc m (inverses[Suc i := iv * acc ! i mod m])"

definition mod_inv_batch_var :: "int list \<Rightarrow> int \<Rightarrow> int list result" where
  "mod_inv_batch_var a m = rbind (assert_valid_modulus m) (\<lambda>_.
     if a = [] then Inr []
     else let acc = prefix_products 1 a m in
       case py_pow_inv (last acc) m of
         None \<Rightarrow> rmap (\<lambda>x. mod_inv_var x m) a
       | Some iv \<Rightarrow>
           Inr (batch_loop (length a - 1) iv a acc m (replicate (length a) 0)))"

definition mod_inv_batch :: "int list \<Rightarrow> (nat \<Rightarrow> int) \<Rightarrow> int list \<Rightarrow> int \<Rightarrow> int list result" where
  "mod_inv_batch rnds rnds' a m = rbind (assert_valid_modulus m) (\<lambda>_.
     if a = [] then Inr []
     else let factors = map (\<lambda>r. blind_factor r m) rnds;
       blinded = map2 (\<lambda>x b. x * b mod m) a factors in
       case mod_inv_batch_var blinded m of
         Inl _ \<Rightarrow> rmap (\<lambda>(i, x). mod_inv (rnds' i) x m) (zip [0..<length a] a)
       | Inr inverses \<Rightarrow> Inr (map2 (\<lambda>i b. i * b mod m) inverses factors))"

lemma length_prefix_products [simp]: "length (prefix_products c xs m) = length xs"
  by (induction c xs m rule: prefix_products.induct) (simp_all add: Let_def)

lemma prefix_products_nth:
  "i < length xs \<Longrightarrow> prefix_products c xs m ! i mod m = c * prod_list (take (Suc i) xs) mod m"
proof (induction c xs m arbitrary: i rule: prefix_products.induct)
  case (2 c x xs m)
  show ?case
  proof (cases i)
    case (Suc j)
    then have "prefix_products (c * x mod m) xs m ! j mod m
        = (c * x mod m) * prod_list (take (Suc j) xs) mod m"
      using 2 by simp
    then show ?thesis using Suc by (simp add: Let_def mod_mult_left_eq mult.assoc)
  qed (simp add: Let_def)
qed simp

lemma batch_loop_correct:
  assumes "0 < m" "i < length a" "length inverses = length a"
    and "\<And>j. j \<le> i \<Longrightarrow> m dvd (acc ! j - prod_list (take (Suc j) a))"
    and "m dvd (iv * prod_list (take (Suc i) a) - 1)" "0 \<le> iv" "iv < m"
  shows "batch_loop i iv a acc m inverses = map (\<lambda>x. inv_mod x m) (take (Suc i) a) @ drop (Suc i) inverses"
  using assms(2-)
proof (induction i arbitrary: iv inverses)
  case 0
  then obtain x xs y ys where e: "a = x # xs" "inverses = y # ys" by (cases a; cases inverses) auto
  have "m dvd (x * iv - 1)" using 0(4) by (simp add: e mult.commute)
  then have "inv_mod x m = iv" using assms(1) 0 inv_mod_eqI by blast
  then show ?case by (simp add: e)
next
  case (Suc i)
  define P where "P = prod_list (take (Suc i) a)"
  define x where "x = a ! Suc i"
  have t: "take (Suc (Suc i)) a = take (Suc i) a @ [x]"
    using Suc.prems(1) by (simp add: take_Suc_conv_app_nth x_def)
  have w: "m dvd (iv * (P * x) - 1)" using Suc.prems(4) by (simp add: t P_def)
  have c: "m dvd (acc ! i - P)" using Suc.prems(3) [of i] by (simp add: P_def)
  have d: "m dvd (iv * acc ! i mod m - iv * acc ! i)" "m dvd (iv * x mod m - iv * x)"
    by (rule dvd_mod_diff)+
  have "m dvd (x * (iv * acc ! i mod m) - 1)" using w c d(1) by algebra
  then have ix: "inv_mod x m = iv * acc ! i mod m" using assms(1) inv_mod_eqI by simp
  have "m dvd ((iv * x mod m) * P - 1)" using w d(2) by algebra
  then have "batch_loop (Suc i) iv a acc m inverses
      = map (\<lambda>x. inv_mod x m) (take (Suc i) a) @ drop (Suc i) (inverses[Suc i := iv * acc ! i mod m])"
    using Suc.IH [of "inverses[Suc i := iv * acc ! i mod m]" "iv * x mod m"] Suc.prems assms(1)
    by (simp add: P_def x_def)
  also have "drop (Suc i) (inverses[Suc i := iv * acc ! i mod m])
      = inv_mod x m # drop (Suc (Suc i)) inverses"
    using Suc.prems(1,2) by (simp add: ix Cons_nth_drop_Suc [symmetric] drop_update_swap)
  finally show ?case by (simp add: t)
qed

lemma coprime_prod_list:
  fixes m :: int
  assumes "coprime (prod_list xs) m" "x \<in> set xs"
  shows "coprime x m"
  using assms by (induction xs) auto

lemma coprime_prod_listI:
  fixes m :: int
  shows "(\<And>x. x \<in> set xs \<Longrightarrow> coprime x m) \<Longrightarrow> coprime (prod_list xs) m"
  by (induction xs) auto

lemma last_prefix_products:
  assumes "xs \<noteq> []"
  shows "m dvd (last (prefix_products 1 xs m) - prod_list xs)"
proof -
  have "prefix_products 1 xs m \<noteq> []" using assms by (metis length_0_conv length_prefix_products)
  then have "last (prefix_products 1 xs m) = prefix_products 1 xs m ! (length xs - 1)"
    by (simp add: last_conv_nth)
  then show ?thesis
    using prefix_products_nth [of "length xs - 1" xs 1 m] assms by (simp add: mod_eq_dvd_iff)
qed

lemma coprime_cong:
  fixes m :: int
  assumes "m dvd (x - y)"
  shows "coprime x m \<longleftrightarrow> coprime y m"
  using assms by (metis coprime_iff_gcd_eq_1 gcd.commute gcd_red_int mod_eq_dvd_iff)

lemma rmap_mod_inv_var_coprime:
  "0 < m \<Longrightarrow> (\<And>x. x \<in> set xs \<Longrightarrow> coprime x m) \<Longrightarrow>
     rmap (\<lambda>x. mod_inv_var x m) xs = Inr (map (\<lambda>x. inv_mod x m) xs)"
  by (intro rmap_Inr mod_inv_var_coprime) auto

lemma mod_inv_batch_var_eq:
  "mod_inv_batch_var xs m = (if xs = [] then rbind (assert_valid_modulus m) (\<lambda>_. Inr [])
     else rmap (\<lambda>x. mod_inv_var x m) xs)"
proof (cases "1 \<le> m \<and> xs \<noteq> []")
  case False
  then show ?thesis
    by (cases xs) (auto simp: mod_inv_batch_var_def assert_valid_modulus_def mod_inv_var_def
        require_def rbind_def)
next
  case True
  then have m: "0 < m" and ne: "xs \<noteq> []" by auto
  define acc where "acc = prefix_products 1 xs m"
  have l: "m dvd (last acc - prod_list xs)" unfolding acc_def using ne by (rule last_prefix_products)
  show ?thesis
  proof (cases "py_pow_inv (last acc) m")
    case None
    then show ?thesis using True
      by (simp add: mod_inv_batch_var_def assert_valid_modulus_def acc_def Let_def)
  next
    case (Some iv)
    then have i: "0 \<le> iv" "iv < m" "m dvd (last acc * iv - 1)"
      using py_pow_inv_Some_iff [OF m] by blast+
    have "coprime (prod_list xs) m" using inverse_coprime [OF i(3)] coprime_cong [OF l] by simp
    then have c: "\<And>x. x \<in> set xs \<Longrightarrow> coprime x m" by (rule coprime_prod_list)
    have "m dvd (iv * prod_list xs - 1)" using i(3) l by algebra
    then have "m dvd (iv * prod_list (take (Suc (length xs - 1)) xs) - 1)" using ne by simp
    moreover have "m dvd (acc ! j - prod_list (take (Suc j) xs))" if "j \<le> length xs - 1" for j
    proof -
      have "j < length xs" using that ne by (cases xs) auto
      then show ?thesis using prefix_products_nth [of j xs 1 m] by (simp add: acc_def mod_eq_dvd_iff)
    qed
    ultimately have "batch_loop (length xs - 1) iv xs acc m (replicate (length xs) 0)
        = map (\<lambda>x. inv_mod x m) (take (Suc (length xs - 1)) xs)
          @ drop (Suc (length xs - 1)) (replicate (length xs) 0)"
      using m ne i(1,2) by (intro batch_loop_correct) auto
    then show ?thesis using True Some rmap_mod_inv_var_coprime [OF m c] ne
      by (simp add: mod_inv_batch_var_def assert_valid_modulus_def acc_def Let_def)
  qed
qed

lemma rmap_Inr_iff: "rmap f xs = Inr ys \<longleftrightarrow> list_all2 (\<lambda>x y. f x = Inr y) xs ys"
  by (induction xs arbitrary: ys) (auto simp: rbind_eq_Inr_iff list_all2_Cons1)

lemma rmap_zip_index: "rmap (\<lambda>(i, x). f x) (zip [j..<j + length xs] xs) = rmap f xs"
proof (induction xs arbitrary: j)
  case (Cons x xs)
  have "zip [j..<j + length (x # xs)] (x # xs) = (j, x) # zip [Suc j..<Suc j + length xs] xs"
    by (simp add: upt_rec)
  then show ?case using Cons [of "Suc j"] by simp
qed simp

lemma mod_inv_batch_eq:
  assumes "length rnds = length xs"
  shows "mod_inv_batch rnds rnds' xs m = mod_inv_batch_var xs m"
proof (cases "1 \<le> m \<and> xs \<noteq> []")
  case False
  then show ?thesis
    by (cases xs) (auto simp: mod_inv_batch_def mod_inv_batch_var_def assert_valid_modulus_def)
next
  case True
  then have m: "0 < m" and ne: "xs \<noteq> []" by auto
  define fs where "fs = map (\<lambda>r. blind_factor r m) rnds"
  have len: "length fs = length xs" using assms by (simp add: fs_def)
  define bl where "bl = map2 (\<lambda>x b. x * b mod m) xs fs"
  have bl: "length bl = length xs" "bl \<noteq> []"
    using len ne by (simp_all add: bl_def) (cases xs; cases fs; simp)
  show ?thesis
  proof (cases "mod_inv_batch_var bl m")
    case (Inl e)
    have "rmap (\<lambda>(i, x). mod_inv (rnds' i) x m) (zip [0..<length xs] xs)
        = rmap (\<lambda>x. mod_inv_var x m) xs"
      using rmap_zip_index [of "\<lambda>x. mod_inv_var x m" 0 xs] by (simp add: mod_inv_eq_mod_inv_var)
    then show ?thesis using True Inl ne
      by (simp add: mod_inv_batch_def mod_inv_batch_var_eq assert_valid_modulus_def fs_def bl_def Let_def)
  next
    case (Inr invs)
    then have r: "list_all2 (\<lambda>x y. mod_inv_var x m = Inr y) bl invs"
      using bl by (simp add: mod_inv_batch_var_eq rmap_Inr_iff)
    have "list_all2 (\<lambda>x y. mod_inv_var x m = Inr y) xs (map2 (\<lambda>i b. i * b mod m) invs fs)"
    proof (rule list_all2_all_nthI)
      show "length xs = length (map2 (\<lambda>i b. i * b mod m) invs fs)"
        using list_all2_lengthD [OF r] bl len by simp
      fix j assume j: "j < length xs"
      then have "mod_inv_var (bl ! j) m = Inr (invs ! j)" using list_all2_nthD [OF r, of j] bl by simp
      then have "m dvd (xs ! j * fs ! j mod m * invs ! j - 1)"
        using m mod_inv_var_Inr_iff j len by (simp add: bl_def)
      then have "m dvd (xs ! j * (invs ! j * fs ! j mod m) - 1)" by (rule unblind_inverse)
      then show "mod_inv_var (xs ! j) m = Inr (map2 (\<lambda>i b. i * b mod m) invs fs ! j)"
        using m mod_inv_var_Inr_iff j len list_all2_lengthD [OF r] bl by simp
    qed
    then have "mod_inv_batch_var xs m = Inr (map2 (\<lambda>i b. i * b mod m) invs fs)"
      using ne by (simp add: mod_inv_batch_var_eq rmap_Inr_iff)
    then show ?thesis using True Inr
      by (simp add: mod_inv_batch_def assert_valid_modulus_def fs_def bl_def Let_def)
  qed
qed

end
