(* ===== verification/Jacobi.thy ===== *)
theory Jacobi
  imports Number_Theory
begin

text \<open>
  Model of the two Jacobi symbols of \<^verbatim>\<open>src/btclib_ecc/number_theory.py\<close> (\<^verbatim>\<open>legendre_symbol_var\<close> and
  \<^verbatim>\<open>_jacobi\<close>): they compute the same value, and it is zero exactly on a common factor.
\<close>

section \<open>The Jacobi symbol\<close>

text \<open>
  \<open>legendre_loop\<close> takes the powers of two out in one shift (\<^verbatim>\<open>twos = (a & -a).bit_length() - 1\<close> is
  the number of trailing zero bits); \<open>jacobi_loop\<close> is the helper of the primality test, which
  divides by two one bit at a time.
\<close>

function trailing_zeros :: "int \<Rightarrow> nat" where
  "trailing_zeros a = (if 0 < a \<and> even a then Suc (trailing_zeros (a div 2)) else 0)"
  by pat_completeness auto
termination by (relation "measure nat") auto

declare trailing_zeros.simps [simp del]

lemma trailing_zeros_split:
  assumes "0 < a"
  shows "a = a div 2 ^ trailing_zeros a * 2 ^ trailing_zeros a"
    and "odd (a div 2 ^ trailing_zeros a)" and "0 < a div 2 ^ trailing_zeros a"
proof -
  have "a = a div 2 ^ trailing_zeros a * 2 ^ trailing_zeros a
      \<and> odd (a div 2 ^ trailing_zeros a) \<and> 0 < a div 2 ^ trailing_zeros a"
    using assms
  proof (induction a rule: trailing_zeros.induct)
    case (1 a)
    show ?case
    proof (cases "even a")
      case True
      then have "0 < a div 2" using "1.prems" by auto
      moreover have "a div 2 ^ trailing_zeros a = a div 2 div 2 ^ trailing_zeros (a div 2)"
        using True "1.prems" by (simp add: trailing_zeros.simps [of a] zdiv_zmult2_eq)
      ultimately show ?thesis using "1.IH" True "1.prems"
        by (simp add: trailing_zeros.simps [of a]) (metis dvd_div_mult_self mult.assoc mult.commute)
    next
      case False
      then show ?thesis using "1.prems" by (simp add: trailing_zeros.simps [of a])
    qed
  qed
  then show "a = a div 2 ^ trailing_zeros a * 2 ^ trailing_zeros a"
    "odd (a div 2 ^ trailing_zeros a)" "0 < a div 2 ^ trailing_zeros a"
    by simp_all
qed

lemma div_power_2_le: "0 < a \<Longrightarrow> a div 2 ^ k \<le> (a::int)"
  by (metis div_by_1 less_imp_le one_le_numeral one_le_power zdiv_mono2 zero_less_one)

function legendre_loop :: "int \<Rightarrow> int \<Rightarrow> int \<Rightarrow> int" where
  "legendre_loop a p result =
     (if 0 < a then
        let twos = trailing_zeros a;
          a' = a div 2 ^ twos;
          result = (if odd twos \<and> p mod 8 \<in> {3, 5} then - result else result);
          result = (if a' mod 4 = 3 \<and> p mod 4 = 3 then - result else result)
        in legendre_loop (p mod a') a' result
      else if p = 1 then result else 0)"
  by pat_completeness auto
termination
proof (relation "measure (\<lambda>(a, _). nat a)", goal_cases)
  case (2 a p result twos a' r r')
  then have "0 < a'" "a' \<le> a" using trailing_zeros_split(3) div_power_2_le by simp_all
  then have "p mod a' < a" using pos_mod_bound [of a' p] by linarith
  then show ?case using 2 by simp
qed simp

declare legendre_loop.simps [simp del]

definition legendre_symbol_var :: "int \<Rightarrow> int \<Rightarrow> int result" where
  "legendre_symbol_var a p =
     rbind (assert_valid_modulus p) (\<lambda>_. Inr (legendre_loop (a mod p) p 1))"

function jacobi_twos :: "int \<Rightarrow> int \<Rightarrow> int \<Rightarrow> int \<times> int" where
  "jacobi_twos a n result =
     (if 0 < a \<and> a mod 2 = 0
      then jacobi_twos (a div 2) n (if n mod 8 \<in> {3, 5} then - result else result)
      else (a, result))"
  by pat_completeness auto
termination by (relation "measure (\<lambda>(a, _). nat a)") auto

declare jacobi_twos.simps [simp del]

lemma jacobi_twos_eq:
  "0 < a \<Longrightarrow> jacobi_twos a n result =
     (a div 2 ^ trailing_zeros a,
      if odd (trailing_zeros a) \<and> n mod 8 \<in> {3, 5} then - result else result)"
proof (induction a n result rule: jacobi_twos.induct)
  case (1 a n result)
  show ?case
  proof (cases "even a")
    case True
    then have "jacobi_twos a n result
        = jacobi_twos (a div 2) n (if n mod 8 \<in> {3, 5} then - result else result)"
      using "1.prems" by (simp add: jacobi_twos.simps [of a] even_iff_mod_2_eq_zero)
    moreover have "0 < a div 2" "a mod 2 = 0" using True "1.prems" by auto
    ultimately show ?thesis using True "1.prems" 1(1)
      by (auto simp: trailing_zeros.simps [of a] zdiv_zmult2_eq)
  next
    case False
    then show ?thesis using "1.prems"
      by (simp add: jacobi_twos.simps [of a] trailing_zeros.simps [of a] even_iff_mod_2_eq_zero)
  qed
qed

function jacobi_loop :: "int \<Rightarrow> int \<Rightarrow> int \<Rightarrow> int" where
  "jacobi_loop a n result =
     (if 0 < a then
        let (a1, result) = jacobi_twos a n result;
          a2 = n; n2 = a1;
          result = (if a2 mod 4 = 3 \<and> n2 mod 4 = 3 then - result else result)
        in jacobi_loop (a2 mod n2) n2 result
      else if n = 1 then result else 0)"
  by pat_completeness auto
termination
proof (relation "measure (\<lambda>(a, _). nat a)", goal_cases)
  case (2 a n result x a1 r a2 n2 r2)
  then have "n2 = a div 2 ^ trailing_zeros a" using jacobi_twos_eq [of a n result] by simp
  then have "0 < n2" "n2 \<le> a" using 2 trailing_zeros_split(3) div_power_2_le by simp_all
  then have "a2 mod n2 < a" using pos_mod_bound [of n2 a2] by linarith
  then show ?case using 2 by simp
qed simp

declare jacobi_loop.simps [simp del]

definition jacobi :: "int \<Rightarrow> int \<Rightarrow> int" where
  "jacobi a n = jacobi_loop (a mod n) n 1"

lemma legendre_loop_eq_jacobi_loop: "legendre_loop a p r = jacobi_loop a p r"
proof (induction a p r rule: legendre_loop.induct)
  case (1 a p r)
  show ?case
  proof (cases "0 < a")
    case True
    then show ?thesis using "1.IH" [OF True refl refl refl refl]
      by (subst legendre_loop.simps, subst jacobi_loop.simps)
        (auto simp: jacobi_twos_eq Let_def conj_commute)
  qed (simp add: legendre_loop.simps [of a] jacobi_loop.simps [of a])
qed

lemma gcd_odd_strip_twos:
  fixes a p :: int
  assumes "odd p" "0 < a"
  shows "gcd a p = gcd (a div 2 ^ trailing_zeros a) p"
proof -
  have "coprime (2 ^ trailing_zeros a) p" using assms(1) by simp
  then have "gcd (a div 2 ^ trailing_zeros a * 2 ^ trailing_zeros a) p
      = gcd (a div 2 ^ trailing_zeros a) p"
    by (simp add: gcd_mult_right_right_cancel gcd.commute gcd_mult_left_left_cancel
        gcd_mult_left_right_cancel)
  then show ?thesis using trailing_zeros_split(1) [OF assms(2)] by simp
qed

lemma legendre_loop_values:
  assumes "odd p" "0 < p" "0 \<le> a" "r = 1 \<or> r = - 1"
  shows "legendre_loop a p r = (if gcd a p = 1 then 1 else 0) \<or>
         legendre_loop a p r = (if gcd a p = 1 then - 1 else 0)"
  using assms
proof (induction a p r rule: legendre_loop.induct)
  case (1 a p r)
  show ?case
  proof (cases "0 < a")
    case True
    define a' where "a' = a div 2 ^ trailing_zeros a"
    have a': "odd a'" "0 < a'" using trailing_zeros_split [OF True] by (simp_all add: a'_def)
    have g: "gcd a p = gcd (p mod a') a'"
      using gcd_odd_strip_twos [OF "1.prems"(1) True] by (metis a'_def gcd_red_int gcd.commute)
    define r1 where "r1 = (if odd (trailing_zeros a) \<and> p mod 8 \<in> {3, 5} then - r else r)"
    define r2 where "r2 = (if a' mod 4 = 3 \<and> p mod 4 = 3 then - r1 else r1)"
    have r2: "r2 = 1 \<or> r2 = - 1" using "1.prems"(4) by (auto simp: r1_def r2_def)
    have "legendre_loop a p r = legendre_loop (p mod a') a' r2"
      using True by (subst legendre_loop.simps) (simp add: Let_def a'_def r1_def r2_def)
    moreover have "0 \<le> p mod a'" using a' by simp
    ultimately show ?thesis
      unfolding g using 1(1) [OF True refl a'_def r1_def r2_def a'(1,2) _ r2] by simp
  next
    case False
    with "1.prems" have "a = 0" by simp
    then show ?thesis using "1.prems" by (auto simp: legendre_loop.simps [of 0])
  qed
qed

end
