(* ===== verification/Square_Roots.thy ===== *)
theory Square_Roots
  imports Jacobi
begin

text \<open>
  Model of \<^verbatim>\<open>mod_sqrt_var\<close> and \<^verbatim>\<open>tonelli_var\<close> of \<^verbatim>\<open>src/btclib_ecc/number_theory.py\<close>. A root that is
  returned is a root, whatever the modulus; for a prime that is 3 modulo 4 (secp256k1 among them)
  a root is returned whenever there is one.
\<close>

section \<open>Square roots modulo a prime\<close>

text \<open>
  \<open>strip_twos\<close> is the loop that writes \<^verbatim>\<open>p - 1\<close> as \<^verbatim>\<open>q * 2^s\<close> (its guard also stops at zero, which
  the code cannot reach), \<open>find_nonresidue\<close> the search for \<^verbatim>\<open>z\<close> (the code leaves it at
  \<^verbatim>\<open>z == p\<close>, the first \<open>z\<close> that is not below \<open>p\<close>), \<open>tonelli_find\<close> the inner \<^verbatim>\<open>for\<close> with its
  \<^verbatim>\<open>else\<close> as \<open>None\<close>, and \<open>tonelli_loop\<close> the outer \<^verbatim>\<open>while\<close>, which ends because \<open>s\<close> decreases.
\<close>

function strip_twos :: "int \<Rightarrow> nat \<Rightarrow> int \<times> nat" where
  "strip_twos q s = (if q mod 2 = 0 \<and> 0 < q then strip_twos (q div 2) (s + 1) else (q, s))"
  by pat_completeness auto
termination by (relation "measure (\<lambda>(q, _). nat q)") auto

declare strip_twos.simps [simp del]

function find_nonresidue :: "int \<Rightarrow> int \<Rightarrow> int result" where
  "find_nonresidue z p =
     (if legendre_symbol_var z p = Inr (- 1) then Inr z
      else if p \<le> z + 1 then Inl (BTClibEccValueError ''p is not prime'')
      else find_nonresidue (z + 1) p)"
  by pat_completeness auto
termination by (relation "measure (\<lambda>(z, p). nat (p - z))") auto

declare find_nonresidue.simps [simp del]

function tonelli_find :: "int \<Rightarrow> nat \<Rightarrow> nat \<Rightarrow> int \<Rightarrow> nat option" where
  "tonelli_find t2i i s p =
     (if i < s then
        let t2i = t2i * t2i mod p in
          if t2i = 1 then Some i else tonelli_find t2i (i + 1) s p
      else None)"
  by pat_completeness auto
termination by (relation "measure (\<lambda>(_, i, s, _). s - i)") auto

declare tonelli_find.simps [simp del]

lemma tonelli_find_less: "tonelli_find t2i i s p = Some j \<Longrightarrow> j < s"
proof (induction t2i i s p rule: tonelli_find.induct)
  case (1 t2i i s p)
  then show ?case
    by (subst (asm) tonelli_find.simps) (auto simp: Let_def split: if_splits)
qed

function tonelli_loop :: "int \<Rightarrow> int \<Rightarrow> int \<Rightarrow> nat \<Rightarrow> int \<Rightarrow> int result" where
  "tonelli_loop r c t s p =
     (if t \<noteq> 1 then
        (case tonelli_find t 1 s p of
           Some i \<Rightarrow>
             (let b = pow_mod c (2 ^ (s - i - 1)) p;
                r = r * b mod p;
                c = b * b mod p;
                t = t * c mod p
              in tonelli_loop r c t i p)
         | None \<Rightarrow> Inl (BTClibEccValueError ''p is not prime''))
      else Inr r)"
  by pat_completeness auto
termination
  by (relation "measure (\<lambda>(_, _, _, s, _). s)") (auto dest: tonelli_find_less)

declare tonelli_loop.simps [simp del]

definition tonelli_var :: "int \<Rightarrow> int \<Rightarrow> int result" where
  "tonelli_var a p = rbind (assert_valid_modulus p) (\<lambda>_.
     let a = a mod p in
     if a = 0 \<or> p = 2 then Inr a
     else if legendre_symbol_var a p \<noteq> Inr 1 then Inl (BTClibEccValueError ''no root mod'')
     else let (q, s) = strip_twos (p - 1) 0 in
       if s = 1 then Inr (pow_mod a (nat ((p + 1) div 4)) p)
       else rbind (find_nonresidue 2 p) (\<lambda>z.
         let c = pow_mod z (nat q) p;
           r = pow_mod a (nat ((q + 1) div 2)) p;
           t = pow_mod a (nat q) p
         in tonelli_loop r c t s p))"

definition checked_root :: "int \<Rightarrow> int \<Rightarrow> int \<Rightarrow> int result" where
  "checked_root a p r =
     (if r * r mod p \<noteq> a then Inl (BTClibEccValueError ''no root mod'') else Inr r)"

definition mod_sqrt_var :: "int \<Rightarrow> int \<Rightarrow> int result" where
  "mod_sqrt_var a p = rbind (assert_valid_modulus p) (\<lambda>_.
     let a = a mod p in
     if p mod 4 = 3 then checked_root a p (pow_mod a (nat (p div 4) + 1) p)
     else if p mod 8 = 5 then
       let r = pow_mod a (nat (p div 8) + 1) p in
       if r * r mod p = a then Inr r
       else checked_root a p (r * pow_mod 2 (nat (p div 4)) p mod p)
     else tonelli_var a p)"

lemma checked_root_Inr_iff: "checked_root a p r = Inr x \<longleftrightarrow> x = r \<and> r * r mod p = a"
  by (auto simp: checked_root_def)

lemma pow_mod_range [simp]: "0 < m \<Longrightarrow> 0 \<le> pow_mod b e m" "0 < m \<Longrightarrow> pow_mod b e m < m"
  by (simp_all add: pow_mod_eq)

lemma dvd_pow_mod: "m dvd (pow_mod b e m - b ^ e)"
  by (simp add: pow_mod_eq dvd_mod_diff)

lemma square_of_cong:
  fixes p :: int
  shows "p dvd (r - u) \<Longrightarrow> p dvd (t - v) \<Longrightarrow> u * u = a * v \<Longrightarrow> p dvd (r * r - a * t)"
  by algebra

lemma dvd_diff_trans: "(p::int) dvd (x - y) \<Longrightarrow> p dvd (y - z) \<Longrightarrow> p dvd (x - z)"
  by (metis dvd_add diff_add_cancel add_diff_eq)

lemma tonelli_loop_sound:
  assumes "0 < p" "p dvd (r * r - a * t)" "0 \<le> r" "r < p"
    and "tonelli_loop r c t s p = Inr x"
  shows "p dvd (x * x - a) \<and> 0 \<le> x \<and> x < p"
  using assms
proof (induction r c t s p rule: tonelli_loop.induct)
  case (1 r c t s p)
  show ?case
  proof (cases "t = 1")
    case True
    then show ?thesis using "1.prems" by (simp add: tonelli_loop.simps [of r])
  next
    case False
    then obtain i where i: "tonelli_find t 1 s p = Some i"
      using "1.prems"(5) by (auto simp: tonelli_loop.simps [of r] split: option.splits)
    define b where "b = pow_mod c (2 ^ (s - i - 1)) p"
    define r' c' t' where "r' = r * b mod p" and "c' = b * b mod p" and "t' = t * (b * b mod p) mod p"
    have "p dvd (r' - r * b)" "p dvd (c' - b * b)" "p dvd (t' - t * c')"
      unfolding r'_def c'_def t'_def by (rule dvd_mod_diff)+
    then have "p dvd (r' * r' - a * t')" using "1.prems"(2) by algebra
    moreover have "tonelli_loop r' c' t' i p = Inr x"
      using "1.prems"(5) False i
      by (simp add: tonelli_loop.simps [of r] Let_def b_def r'_def c'_def t'_def)
    ultimately show ?thesis
      using 1(1) [OF False i b_def r'_def c'_def, of t'] "1.prems"(1)
      by (simp add: r'_def t'_def c'_def)
  qed
qed

lemma strip_twos_eq:
  assumes "0 < q"
  shows "strip_twos q s = (q div 2 ^ trailing_zeros q, s + trailing_zeros q)"
  using assms
proof (induction q s rule: strip_twos.induct)
  case (1 q s)
  show ?case
  proof (cases "even q")
    case True
    then have "strip_twos q s = strip_twos (q div 2) (s + 1)" "q mod 2 = 0" "0 < q div 2"
      using "1.prems" by (auto simp: strip_twos.simps [of q])
    then show ?thesis using 1 True
      by (simp add: trailing_zeros.simps [of q] zdiv_zmult2_eq)
  next
    case False
    then have "q mod 2 = 1" by presburger
    then show ?thesis using False by (simp add: strip_twos.simps [of q] trailing_zeros.simps [of q])
  qed
qed

lemma tonelli_var_sound:
  assumes "p mod 4 \<noteq> 3" "tonelli_var a p = Inr x"
  shows "p dvd (x * x - a) \<and> 0 \<le> x \<and> x < p"
proof -
  have p: "0 < p" using assms(2) by (auto simp: tonelli_var_def assert_valid_modulus_def rbind_eq_Inr_iff)
  define a' where "a' = a mod p"
  have a': "p dvd (a' - a)" "0 \<le> a'" "a' < p" using p by (auto simp: a'_def intro: dvd_mod_diff)
  have "p dvd (x * x - a') \<and> 0 \<le> x \<and> x < p"
  proof (cases "a' = 0 \<or> p = 2")
    case True
    then have "x = a'" using assms(2) p by (simp add: tonelli_var_def assert_valid_modulus_def a'_def Let_def)
    moreover have "a' = 0 \<or> a' = 1" using True a' by auto
    ultimately show ?thesis using a' by auto
  next
    case False
    then have p1: "1 < p" using a' by auto
    obtain q s where qs: "strip_twos (p - 1) 0 = (q, s)" by fastforce
    have "strip_twos (p - 1) 0 = ((p - 1) div 2 ^ trailing_zeros (p - 1), trailing_zeros (p - 1))"
      using strip_twos_eq [of "p - 1" 0] p1 by simp
    with qs have q: "q = (p - 1) div 2 ^ trailing_zeros (p - 1)" "s = trailing_zeros (p - 1)"
      by (metis Pair_inject)+
    have split: "p - 1 = q * 2 ^ s" "odd q" "0 < q"
      using trailing_zeros_split [of "p - 1"] p1 q by simp_all
    have s1: "s \<noteq> 1"
    proof
      assume "s = 1"
      then have "p = 2 * q + 1" using split by simp
      moreover obtain k where "q = 2 * k + 1" using split(2) by (rule oddE)
      ultimately have "p mod 4 = 3" by presburger
      then show False using assms(1) by simp
    qed
    obtain z where "tonelli_loop (pow_mod a' (nat ((q + 1) div 2)) p) (pow_mod z (nat q) p)
        (pow_mod a' (nat q) p) s p = Inr x"
      using assms(2) False s1 p qs
      by (auto simp: tonelli_var_def assert_valid_modulus_def a'_def [symmetric] Let_def
          rbind_eq_Inr_iff split: if_splits)
    moreover have "p dvd (pow_mod a' (nat ((q + 1) div 2)) p * pow_mod a' (nat ((q + 1) div 2)) p
        - a' * pow_mod a' (nat q) p)"
    proof -
      define e where "e = nat ((q + 1) div 2)"
      obtain k where "q = 2 * k + 1" using split(2) by (rule oddE)
      then have "e + e = Suc (nat q)" using split(3) by (simp add: e_def)
      then have "a' ^ e * a' ^ e = a' * a' ^ nat q" by (metis power_Suc power_add)
      moreover have "p dvd (pow_mod a' e p - a' ^ e)" "p dvd (pow_mod a' (nat q) p - a' ^ nat q)"
        by (rule dvd_pow_mod)+
      ultimately show ?thesis unfolding e_def [symmetric] by (intro square_of_cong)
    qed
    ultimately show ?thesis using tonelli_loop_sound p pow_mod_range by metis
  qed
  then show ?thesis using a'(1) by (auto; algebra)
qed

lemma mod_sqrt_var_sound:
  assumes "mod_sqrt_var a p = Inr r"
  shows "r * r mod p = a mod p \<and> 0 \<le> r \<and> r < p"
proof -
  have p: "0 < p"
    using assms by (auto simp: mod_sqrt_var_def assert_valid_modulus_def rbind_eq_Inr_iff)
  then have v: "assert_valid_modulus p = Inr ()" by (simp add: assert_valid_modulus_def)
  consider "p mod 4 = 3" | "p mod 4 \<noteq> 3" "p mod 8 = 5" | "p mod 4 \<noteq> 3" "p mod 8 \<noteq> 5" by blast
  then show ?thesis
  proof cases
    case 1
    then have "checked_root (a mod p) p (pow_mod (a mod p) (nat (p div 4) + 1) p) = Inr r"
      using assms v by (simp add: mod_sqrt_var_def Let_def)
    then show ?thesis using p by (auto simp: checked_root_Inr_iff)
  next
    case 2
    define r5 where "r5 = pow_mod (a mod p) (nat (p div 8) + 1) p"
    have "(if r5 * r5 mod p = a mod p then Inr r5
        else checked_root (a mod p) p (r5 * pow_mod 2 (nat (p div 4)) p mod p)) = Inr r"
      using assms v 2 by (auto simp: mod_sqrt_var_def Let_def r5_def split: if_splits)
    moreover have "0 \<le> r5" "r5 < p" using p by (simp_all add: r5_def)
    ultimately show ?thesis using p by (auto simp: checked_root_Inr_iff split: if_splits)
  next
    case 3
    then have "tonelli_var (a mod p) p = Inr r"
      using assms v by (simp add: mod_sqrt_var_def Let_def)
    then have "p dvd (r * r - a mod p) \<and> 0 \<le> r \<and> r < p" using 3 by (intro tonelli_var_sound) auto
    then show ?thesis using mod_eq_if_dvd_diff [of p "r * r" "a mod p"] by simp
  qed
qed

lemma mod_sqrt_var_3_mod_4:
  assumes "prime_int p" "p mod 4 = 3" "p dvd (s * s - a)"
  shows "mod_sqrt_var a p = Inr (pow_mod (a mod p) (nat (p div 4) + 1) p)"
proof -
  define e where "e = nat (p div 4) + 1"
  define r where "r = pow_mod (a mod p) e p"
  have p: "0 < p" using assms(1) by simp
  have e: "2 * e = nat (p - 1) div 2 + 1" "nat (p - 1) = 2 * (nat (p - 1) div 2)"
  proof -
    obtain k where k: "nat (p div 4) = k" by simp
    then have "p = 4 * int k + 3" using assms(2) p mult_div_mod_eq [of 4 p] by auto
    then have "nat (p - 1) = 4 * k + 2" by simp
    then show "2 * e = nat (p - 1) div 2 + 1" "nat (p - 1) = 2 * (nat (p - 1) div 2)"
      by (simp_all add: e_def k)
  qed
  have "p dvd (r * r - a)"
  proof (cases "p dvd s")
    case True
    then have "p dvd a" using assms(3) by (metis dvd_diff_right_iff dvd_mult)
    then have "r = 0" by (simp add: r_def e_def pow_mod_eq)
    then show ?thesis using \<open>p dvd a\<close> by (simp add: r_def)
  next
    case False
    define f where "f = nat (p - 1) div 2"
    have "p dvd (r - (a mod p) ^ e)" unfolding r_def by (rule dvd_pow_mod)
    moreover have "p dvd ((a mod p) ^ e - a ^ e)" by (simp add: power_mod mod_eq_dvd_iff [symmetric])
    ultimately have ae: "p dvd (r - a ^ e)" by (rule dvd_diff_trans)
    have "a mod p = s * s mod p" using mod_eq_if_dvd_diff [OF assms(3)] by simp
    then have "p dvd (a ^ f - (s * s) ^ f)" by (metis mod_eq_dvd_iff power_mod)
    moreover have "(s * s) ^ f = s ^ nat (p - 1)"
      using e(2) by (metis f_def power2_eq_square power_mult)
    ultimately have "p dvd (a ^ f - 1)"
      using fermat_little [OF assms(1) False] dvd_diff_trans by metis
    then have "p dvd (1 - a ^ f)" by (metis dvd_minus_iff minus_diff_eq)
    moreover have "a ^ e * a ^ e = a * a ^ f"
      using e(1) by (metis f_def Suc_eq_plus1 mult_2 power_Suc power_add)
    ultimately have "p dvd (r * r - a * 1)" by (intro square_of_cong [OF ae])
    then show ?thesis by simp
  qed
  then have "r * r mod p = a mod p" by (rule mod_eq_if_dvd_diff)
  then show ?thesis using assms(2) p
    by (simp add: mod_sqrt_var_def assert_valid_modulus_def Let_def r_def e_def checked_root_def)
qed

end
