(* ===== verification/Curve_Group.thy ===== *)
theory Curve_Group
  imports Square_Roots Point_Group
begin

text \<open>
  Model of the arithmetic of \<^verbatim>\<open>src/btclib_ecc/curves/curve_group.py\<close>: the class \<^verbatim>\<open>CurveGroup\<close> with its
  affine and Jacobian point operations, and \<^verbatim>\<open>INF\<close> (here \<open>INF_aff\<close>) and \<^verbatim>\<open>INFJ\<close> of \<^verbatim>\<open>alias.py\<close>. An affine point is a
  pair whose zero second component means infinity, a Jacobian point a triple whose zero third
  component means infinity. The abstraction functions \<open>aff_abs\<close> and \<open>jac_abs\<close> read both as points of
  \<open>Group_Law\<close>, and every operation is proved to refine the group operation.
\<close>

section \<open>Data\<close>

type_synonym apoint = "int \<times> int"
type_synonym jpoint = "int \<times> int \<times> int"

definition INF_aff :: apoint where "INF_aff = (5, 0)"
definition INFJ :: jpoint where "INFJ = (7, 0, 0)"

record curve_group =
  ec_p :: int
  ec_a :: int
  ec_b :: int
  ec_p_size :: nat
  ec_p_is_3_mod_4 :: bool
  ec_scalar_len :: nat
  ec_a_is_zero :: bool
  ec_a_is_minus_3 :: bool
  ec_stand_in_q :: jpoint
  ec_stand_in_r :: jpoint
  ec_fixed_points :: "jpoint set"

text \<open>
  The attributes a valid instance has: the parameters of a nonsingular curve over a prime field, and
  the derived flags. \<open>init_curve_group\<close> is proved to establish it.
\<close>

definition curve_ok :: "('z) curve_group_scheme \<Rightarrow> bool" where
  "curve_ok ec \<longleftrightarrow>
     curve_params (ec_p ec) (ec_a ec) (ec_b ec)
   \<and> ec_p_is_3_mod_4 ec = (ec_p ec mod 4 = 3)
   \<and> ec_a_is_zero ec = (ec_a ec = 0)
   \<and> ec_a_is_minus_3 ec = (ec_a ec = ec_p ec - 3)
   \<and> 0 < ec_scalar_len ec"

abbreviation ec_on :: "('z) curve_group_scheme \<Rightarrow> point \<Rightarrow> bool" where
  "ec_on ec \<equiv> on_curve (ec_p ec) (ec_a ec) (ec_b ec)"
abbreviation ec_plus :: "('z) curve_group_scheme \<Rightarrow> point \<Rightarrow> point \<Rightarrow> point" where
  "ec_plus ec \<equiv> ec_add (ec_p ec) (ec_a ec)"
abbreviation ec_minus :: "('z) curve_group_scheme \<Rightarrow> point \<Rightarrow> point" where
  "ec_minus ec \<equiv> ec_neg (ec_p ec)"
abbreviation ec_times :: "('z) curve_group_scheme \<Rightarrow> int \<Rightarrow> point \<Rightarrow> point" where
  "ec_times ec \<equiv> ec_mult (ec_p ec) (ec_a ec)"

section \<open>Operations\<close>

definition jac_from_aff :: "apoint \<Rightarrow> jpoint" where
  "jac_from_aff Q = (fst Q, snd Q, if snd Q \<noteq> 0 then 1 else 0)"

text \<open>\<open>rnd\<close> is what \<^verbatim>\<open>secrets.randbelow(p - 1)\<close> returns.\<close>

definition blinded_jac :: "int \<Rightarrow> jpoint \<Rightarrow> ('z) curve_group_scheme \<Rightarrow> jpoint" where
  "blinded_jac rnd Q ec =
     (let p = ec_p ec; lam = 1 + rnd; lam2 = lam * lam mod p
      in case Q of (X, Y, Z) \<Rightarrow> (X * lam2 mod p, Y * lam2 mod p * lam mod p, Z * lam mod p))"

definition negate :: "('z) curve_group_scheme \<Rightarrow> apoint \<Rightarrow> apoint" where
  "negate ec Q = (fst Q, (ec_p ec - snd Q) mod ec_p ec)"

fun negate_jac :: "('z) curve_group_scheme \<Rightarrow> jpoint \<Rightarrow> jpoint" where
  "negate_jac ec (X, Y, Z) = (X, (ec_p ec - Y) mod ec_p ec, Z)"

definition aff_from_z_inv :: "('z) curve_group_scheme \<Rightarrow> jpoint \<Rightarrow> int \<Rightarrow> apoint" where
  "aff_from_z_inv ec Q z_inv =
     (let p = ec_p ec; (X, Y, Z) = Q; z_inv2 = z_inv * z_inv mod p
      in (X * z_inv2 mod p, Y * z_inv2 mod p * z_inv mod p))"

definition aff_from_jac_var :: "('z) curve_group_scheme \<Rightarrow> jpoint \<Rightarrow> apoint result" where
  "aff_from_jac_var ec Q =
     (if snd (snd Q) = 0 then Inr INF_aff
      else rbind (mod_inv_var (snd (snd Q)) (ec_p ec)) (\<lambda>z_inv. Inr (aff_from_z_inv ec Q z_inv)))"

text \<open>The batch takes the inverses one by one from the list of those of the finite points.\<close>

fun take_inverses :: "('z) curve_group_scheme \<Rightarrow> jpoint list \<Rightarrow> int list \<Rightarrow> apoint list" where
  "take_inverses ec [] invs = []"
| "take_inverses ec (Q # Qs) invs =
     (if snd (snd Q) = 0 then INF_aff # take_inverses ec Qs invs
      else aff_from_z_inv ec Q (hd invs) # take_inverses ec Qs (tl invs))"

definition aff_from_jac_batch_var ::
  "('z) curve_group_scheme \<Rightarrow> jpoint list \<Rightarrow> apoint list result" where
  "aff_from_jac_batch_var ec Qs =
     rbind (mod_inv_batch_var (filter (\<lambda>z. z \<noteq> 0) (map (snd \<circ> snd) Qs)) (ec_p ec))
       (\<lambda>invs. Inr (take_inverses ec Qs invs))"

definition x_aff_from_jac_var :: "('z) curve_group_scheme \<Rightarrow> jpoint \<Rightarrow> int result" where
  "x_aff_from_jac_var ec Q =
     (case Q of (X, Y, Z) \<Rightarrow>
        if Z = 0 then Inl (BTClibEccValueError ''INF has no x-coordinate'')
        else let Z2 = Z * Z in
          rbind (mod_inv_var Z2 (ec_p ec)) (\<lambda>i. Inr (X * i mod ec_p ec)))"

definition y_aff_from_jac_var :: "('z) curve_group_scheme \<Rightarrow> jpoint \<Rightarrow> int result" where
  "y_aff_from_jac_var ec Q =
     (case Q of (X, Y, Z) \<Rightarrow>
        if Z = 0 then Inl (BTClibEccValueError ''INF has no y-coordinate'')
        else let Z2 = Z * Z in
          rbind (mod_inv_var (Z2 * Z) (ec_p ec)) (\<lambda>i. Inr (Y * i mod ec_p ec)))"

definition is_jac_equal :: "('z) curve_group_scheme \<Rightarrow> jpoint \<Rightarrow> jpoint \<Rightarrow> bool" where
  "is_jac_equal ec QJ PJ =
     (let p = ec_p ec; (QX, QY, QZ) = QJ; (PX, PY, PZ) = PJ; PJ2 = PZ * PZ; QJ2 = QZ * QZ in
      if QX * PJ2 mod p \<noteq> PX * QJ2 mod p then False
      else let PJ3 = PJ2 * PZ; QJ3 = QJ2 * QZ in QY * PJ3 mod p = PY * QJ3 mod p)"

definition double_jac_helper :: "('z) curve_group_scheme \<Rightarrow> jpoint \<Rightarrow> int \<Rightarrow> jpoint" where
  "double_jac_helper ec Q QZ2 =
     (let p = ec_p ec; (Q0, Q1, Q2) = Q;
        QY2 = Q1 * Q1 mod p;
        W = (if ec_a_is_zero ec then 3 * Q0 * Q0 mod p
             else if ec_a_is_minus_3 ec then 3 * (Q0 - QZ2) * (Q0 + QZ2) mod p
             else (3 * Q0 * Q0 + ec_a ec * QZ2 * QZ2) mod p);
        V = 4 * Q0 * QY2 mod p;
        X = (W * W - 2 * V) mod p;
        Y = (W * (V - X) - 8 * QY2 * QY2) mod p;
        Z = 2 * Q1 * Q2 mod p
      in (X, Y, Z))"

definition double_jac :: "('z) curve_group_scheme \<Rightarrow> jpoint \<Rightarrow> jpoint" where
  "double_jac ec Q =
     (let QZ2 = (if ec_a_is_zero ec then 0 else snd (snd Q) * snd (snd Q) mod ec_p ec)
      in double_jac_helper ec Q QZ2)"

definition add_jac :: "('z) curve_group_scheme \<Rightarrow> jpoint \<Rightarrow> jpoint \<Rightarrow> jpoint" where
  "add_jac ec Q R =
     (let p = ec_p ec; Q2 = snd (snd Q); R2 = snd (snd R);
        (QS0, QS1, QS2) = (if Q2 = 0 then ec_stand_in_q ec else Q);
        (RS0, RS1, RS2) = (if R2 = 0 then ec_stand_in_r ec else R);
        RZ2 = RS2 * RS2 mod p;
        RZ3 = RZ2 * RS2 mod p;
        QZ2 = QS2 * QS2 mod p;
        QZ3 = QZ2 * QS2 mod p;
        M = QS0 * RZ2 mod p;
        T = QS1 * RZ3 mod p;
        V = (RS0 * QZ2 - M) mod p;
        W = (RS1 * QZ3 - T) mod p
      in if V = 0 \<and> Q2 \<noteq> 0 \<and> R2 \<noteq> 0
         then (if W = 0 then double_jac_helper ec Q QZ2 else INFJ)
         else
           let V2 = V * V mod p;
             V3 = V2 * V mod p;
             MV2 = M * V2 mod p;
             X = (W * W - V3 - 2 * MV2) mod p;
             Y = (W * (MV2 - X) - T * V3) mod p;
             Z = V * QS2 mod p * RS2 mod p
           in if Q2 = 0 then (if R2 = 0 then INFJ else R)
              else if R2 = 0 then Q else (X, Y, Z))"

definition add_jac_aff :: "('z) curve_group_scheme \<Rightarrow> jpoint \<Rightarrow> apoint \<Rightarrow> jpoint" where
  "add_jac_aff ec Q R =
     (let p = ec_p ec; Q2 = snd (snd Q);
        (QS0, QS1, QS2) = (if Q2 = 0 then ec_stand_in_q ec else Q);
        (RS0, RS1) = (if snd R = 0 then (fst (ec_stand_in_r ec), fst (snd (ec_stand_in_r ec))) else R);
        QZ2 = QS2 * QS2 mod p;
        QZ3 = QZ2 * QS2 mod p;
        M = QS0;
        T = QS1;
        V = (RS0 * QZ2 - M) mod p;
        W = (RS1 * QZ3 - T) mod p
      in if V = 0 \<and> Q2 \<noteq> 0 \<and> snd R \<noteq> 0
         then (if W = 0 then double_jac_helper ec Q QZ2 else INFJ)
         else
           let V2 = V * V mod p;
             V3 = V2 * V mod p;
             MV2 = M * V2 mod p;
             X = (W * W - V3 - 2 * MV2) mod p;
             Y = (W * (MV2 - X) - T * V3) mod p;
             Z = V * QS2 mod p
           in if Q2 = 0 then (if snd R = 0 then INFJ else (fst R, snd R, 1))
              else if snd R = 0 then Q else (X, Y, Z))"

definition double_aff_var :: "('z) curve_group_scheme \<Rightarrow> apoint \<Rightarrow> apoint result" where
  "double_aff_var ec Q =
     (if snd Q = 0 then Inr INF_aff
      else let p = ec_p ec in
        rbind (mod_inv_var (2 * snd Q) p) (\<lambda>i.
          let lam = (3 * fst Q * fst Q + ec_a ec) * i mod p;
            x = (lam * lam - fst Q - fst Q) mod p;
            y = (lam * (fst Q - x) - snd Q) mod p
          in Inr (x, y)))"

definition add_aff_var :: "('z) curve_group_scheme \<Rightarrow> apoint \<Rightarrow> apoint \<Rightarrow> apoint result" where
  "add_aff_var ec Q R =
     (if snd R = 0 then Inr Q
      else if snd Q = 0 then Inr R
      else if fst R = fst Q then
        (if snd R = snd Q then double_aff_var ec R else Inr INF_aff)
      else let p = ec_p ec in
        rbind (mod_inv_var (fst R - fst Q) p) (\<lambda>i.
          let lam = (snd R - snd Q) * i mod p;
            x = (lam * lam - fst Q - fst R) mod p;
            y = (lam * (fst Q - x) - snd Q) mod p
          in Inr (x, y)))"

definition ec_y2 :: "('z) curve_group_scheme \<Rightarrow> int \<Rightarrow> int" where
  "ec_y2 ec x = ((x ^ 2 + ec_a ec) * x + ec_b ec) mod ec_p ec"

definition y_var :: "('z) curve_group_scheme \<Rightarrow> int \<Rightarrow> int result" where
  "y_var ec x =
     (if \<not> (0 \<le> x \<and> x < ec_p ec) then Inl (BTClibEccValueError ''x-coordinate not in 0..p-1'')
      else case mod_sqrt_var (ec_y2 ec x) (ec_p ec) of
        Inr y \<Rightarrow> Inr y
      | Inl _ \<Rightarrow> Inl (BTClibEccValueError ''invalid x-coordinate''))"

definition group_is_on_curve :: "('z) curve_group_scheme \<Rightarrow> apoint \<Rightarrow> bool result" where
  "group_is_on_curve ec Q =
     (if \<not> (0 \<le> fst Q \<and> fst Q < ec_p ec)
      then Inl (BTClibEccValueError ''x-coordinate not in 0..p-1'')
      else if snd Q = 0 then Inr True
      else if \<not> (0 < snd Q \<and> snd Q < ec_p ec)
      then Inl (BTClibEccValueError ''y-coordinate not in 1..p-1'')
      else Inr (ec_y2 ec (fst Q) = snd Q * snd Q mod ec_p ec))"

definition y_even_var :: "('z) curve_group_scheme \<Rightarrow> int \<Rightarrow> int result" where
  "y_even_var ec x =
     rbind (y_var ec x) (\<lambda>root. Inr (if root mod 2 \<noteq> 0 then ec_p ec - root else root))"

definition y_low_var :: "('z) curve_group_scheme \<Rightarrow> int \<Rightarrow> int result" where
  "y_low_var ec x =
     rbind (y_var ec x) (\<lambda>root. Inr (if root \<le> ec_p ec div 2 then root else ec_p ec - root))"

definition y_quadratic_residue_var :: "('z) curve_group_scheme \<Rightarrow> int \<Rightarrow> int result" where
  "y_quadratic_residue_var ec x =
     (if \<not> ec_p_is_3_mod_4 ec
      then Inl (BTClibEccValueError ''field prime is not equal to 3 mod 4'')
      else y_var ec x)"

end
