(* ===== verification/Curve_Arith.thy ===== *)
theory Curve_Arith
  imports Curve_Group
begin

text \<open>
  The point operations of \<open>Curve_Group\<close> refine the group law. \<open>jrep ec Q P\<close> says that the Jacobian
  triple \<open>Q\<close> is a reduced representative of the point \<open>P\<close> of the curve, \<open>arep ec Q P\<close> the same of an
  affine pair. The affine encoding has no word for a point on the x-axis, so what goes through it is
  correct for the points off that axis (\<open>off_axis\<close>), which the points of odd order are.
\<close>

section \<open>Representation relations\<close>

named_theorems jrep_intros \<open>the Jacobian operations preserve representation\<close>

definition aff_abs :: "apoint \<Rightarrow> point" where
  "aff_abs Q = (if snd Q = 0 then Inf else Pt (fst Q) (snd Q))"

fun aff_of :: "point \<Rightarrow> apoint" where
  "aff_of Inf = INF_aff"
| "aff_of (Pt x y) = (x, y)"

definition arep :: "('z) curve_group_scheme \<Rightarrow> apoint \<Rightarrow> point \<Rightarrow> bool" where
  "arep ec Q P \<longleftrightarrow> ec_on ec P \<and> aff_abs Q = P"

fun jrep :: "('z) curve_group_scheme \<Rightarrow> jpoint \<Rightarrow> point \<Rightarrow> bool" where
  "jrep ec (X, Y, Z) Inf \<longleftrightarrow> Z = 0"
| "jrep ec (X, Y, Z) (Pt x y) \<longleftrightarrow>
     ec_on ec (Pt x y) \<and> 0 \<le> X \<and> X < ec_p ec \<and> 0 \<le> Y \<and> Y < ec_p ec \<and> 0 < Z \<and> Z < ec_p ec
   \<and> ec_p ec dvd (X - x * Z * Z) \<and> ec_p ec dvd (Y - y * Z * Z * Z)"

definition off_axis :: "point \<Rightarrow> bool" where
  "off_axis P \<longleftrightarrow> (\<forall>x. P \<noteq> Pt x 0)"

lemma curve_ok_params: "curve_ok ec \<Longrightarrow> curve_params (ec_p ec) (ec_a ec) (ec_b ec)"
  by (simp add: curve_ok_def)

lemma curve_ok_p:
  assumes "curve_ok ec"
  shows "prime_int (ec_p ec)" "2 < ec_p ec" "0 < ec_p ec"
    "nonsingular (ec_p ec) (ec_a ec) (ec_b ec)"
  using assms by (auto simp: curve_ok_def curve_params_def)

lemma jrep_on: "jrep ec Q P \<Longrightarrow> ec_on ec P"
  by (cases P; cases Q) auto

lemma arep_on: "arep ec Q P \<Longrightarrow> ec_on ec P"
  by (simp add: arep_def)

lemma range_not_dvd: "0 < (z::int) \<Longrightarrow> z < m \<Longrightarrow> \<not> m dvd z"
  using zdvd_imp_le by fastforce

lemma jrep_unique:
  assumes "curve_ok ec" "jrep ec Q P" "jrep ec Q P'"
  shows "P = P'"
proof -
  obtain X Y Z where Q: "Q = (X, Y, Z)" by (cases Q)
  show ?thesis
  proof (cases "Z = 0")
    case True
    then show ?thesis using assms Q by (cases P; cases P') auto
  next
    case False
    then obtain x y x' y' where P: "P = Pt x y" "P' = Pt x' y'"
      using assms Q by (cases P; cases P') auto
    let ?p = "ec_p ec"
    have z: "\<not> ?p dvd Z" using assms(2) Q P range_not_dvd by auto
    have d: "?p dvd (X - x * Z * Z)" "?p dvd (Y - y * Z * Z * Z)"
      "?p dvd (X - x' * Z * Z)" "?p dvd (Y - y' * Z * Z * Z)"
      using assms(2,3) Q P by simp_all
    have "?p dvd (x - x') * (Z * Z)" using d(1,3) by algebra
    moreover have "?p dvd (y - y') * (Z * Z * Z)" using d(2,4) by algebra
    ultimately have "?p dvd (x - x')" "?p dvd (y - y')"
      using z curve_ok_p(1) [OF assms(1)] by (auto simp: prime_int_dvd_mult_iff)
    then show ?thesis using eq_if_dvd_diff assms(2,3) Q P jrep_on on_curve.simps(2) by metis
  qed
qed

section \<open>Conversions\<close>

lemma jrep_INFJ [jrep_intros]: "jrep ec INFJ Inf"
  by (simp add: INFJ_def)

lemma arep_INF: "arep ec INF_aff Inf"
  by (simp add: arep_def aff_abs_def INF_aff_def)

lemma jrep_jac_from_aff [jrep_intros]: "curve_ok ec \<Longrightarrow> arep ec Q P \<Longrightarrow> jrep ec (jac_from_aff Q) P"
  by (cases Q) (auto simp: arep_def aff_abs_def jac_from_aff_def dest: curve_ok_p(2))

lemma arep_finite: "arep ec Q P \<Longrightarrow> snd Q \<noteq> 0 \<Longrightarrow> P = Pt (fst Q) (snd Q)"
  by (simp add: arep_def aff_abs_def)

lemma arep_infinite: "arep ec Q P \<Longrightarrow> snd Q = 0 \<longleftrightarrow> P = Inf"
  by (auto simp: arep_def aff_abs_def split: if_splits)

lemma arep_aff_of: "ec_on ec P \<Longrightarrow> off_axis P \<Longrightarrow> arep ec (aff_of P) P"
  by (cases P) (auto simp: arep_def aff_abs_def INF_aff_def off_axis_def)

lemma jrep_affine: "curve_ok ec \<Longrightarrow> ec_on ec (Pt x y) \<Longrightarrow> jrep ec (x, y, 1) (Pt x y)"
  using curve_ok_p(2) [of ec] by simp

lemma jrep_scale:
  assumes "curve_ok ec" "jrep ec (X, Y, Z) P" "0 < k" "k < ec_p ec"
    and "ec_p ec dvd (X' - X * k * k)" "ec_p ec dvd (Y' - Y * k * k * k)" "ec_p ec dvd (Z' - Z * k)"
    and "0 \<le> X'" "X' < ec_p ec" "0 \<le> Y'" "Y' < ec_p ec" "0 \<le> Z'" "Z' < ec_p ec"
  shows "jrep ec (X', Y', Z') P"
proof (cases P)
  case Inf
  then have "ec_p ec dvd Z'" using assms(2,7) by simp
  then show ?thesis using Inf assms dvd_range_zero_iff by auto
next
  case (Pt x y)
  let ?p = "ec_p ec"
  have d: "?p dvd (X - x * Z * Z)" "?p dvd (Y - y * Z * Z * Z)" using assms(2) Pt by simp_all
  have "?p dvd (X' - x * Z' * Z')" using d(1) assms(5,7) by algebra
  moreover have "?p dvd (Y' - y * Z' * Z' * Z')" using d(2) assms(6,7) by algebra
  moreover have "Z' \<noteq> 0"
  proof
    assume "Z' = 0"
    then have "?p dvd Z * k" using assms(7) by simp
    moreover have "\<not> ?p dvd Z" "\<not> ?p dvd k" using assms(2-4) Pt range_not_dvd by auto
    ultimately show False using curve_ok_p(1) [OF assms(1)] by (simp add: prime_int_dvd_mult_iff)
  qed
  ultimately show ?thesis using assms Pt by auto
qed

lemma jrep_blinded_jac [jrep_intros]:
  assumes "curve_ok ec" "jrep ec Q P" "0 \<le> rnd" "rnd < ec_p ec - 1"
  shows "jrep ec (blinded_jac rnd Q ec) P"
proof -
  obtain X Y Z where Q: "Q = (X, Y, Z)" by (cases Q)
  let ?p = "ec_p ec" and ?k = "1 + rnd"
  define k2 where "k2 = ?k * ?k mod ?p"
  have k2: "?p dvd (k2 - ?k * ?k)" unfolding k2_def by (rule dvd_mod_diff)
  have m: "?p dvd (X * k2 mod ?p - X * k2)"
    "?p dvd (Y * k2 mod ?p * ?k mod ?p - Y * k2 mod ?p * ?k)" "?p dvd (Y * k2 mod ?p - Y * k2)"
    by (rule dvd_mod_diff)+
  have f1: "?p dvd (X * k2 mod ?p - X * ?k * ?k)" using m(1) k2 by algebra
  have f2: "?p dvd (Y * k2 mod ?p * ?k mod ?p - Y * ?k * ?k * ?k)" using m(2,3) k2 by algebra
  have f3: "?p dvd (Z * ?k mod ?p - Z * ?k)" by (rule dvd_mod_diff)
  have k: "0 < ?k" "?k < ?p" and J: "jrep ec (X, Y, Z) P" using assms Q by auto
  have "jrep ec (X * k2 mod ?p, Y * k2 mod ?p * ?k mod ?p, Z * ?k mod ?p) P"
    by (rule jrep_scale [OF assms(1) J k f1 f2 f3]) (use curve_ok_p(3) [OF assms(1)] in simp_all)
  then show ?thesis by (simp add: Q blinded_jac_def k2_def Let_def)
qed

lemma jrep_negate_jac [jrep_intros]:
  assumes "curve_ok ec" "jrep ec Q P"
  shows "jrep ec (negate_jac ec Q) (ec_minus ec P)"
proof -
  obtain X Y Z where Q: "Q = (X, Y, Z)" by (cases Q)
  let ?p = "ec_p ec"
  show ?thesis
  proof (cases P)
    case (Pt x y)
    have d: "?p dvd (Y - y * Z * Z * Z)" using assms(2) Q Pt by simp
    have m: "?p dvd ((?p - Y) mod ?p - (?p - Y))" "?p dvd ((- y) mod ?p - (- y))"
      by (rule dvd_mod_diff)+
    have "?p dvd ((?p - Y) mod ?p - ((- y) mod ?p) * Z * Z * Z)" using d m by algebra
    then show ?thesis using assms Q Pt ec_neg_closed [of ?p "ec_a ec" "ec_b ec" P] curve_ok_p(3) by auto
  qed (use assms Q in auto)
qed

lemma arep_negate:
  assumes "curve_ok ec" "arep ec Q P"
  shows "arep ec (negate ec Q) (ec_minus ec P)"
proof (cases P)
  case (Pt x y)
  have on: "ec_on ec (ec_minus ec P)"
    using ec_neg_closed curve_ok_p(3) assms arep_on by blast
  have e: "(ec_p ec - y) mod ec_p ec = (- y) mod ec_p ec"
    using mod_add_self1 [of "ec_p ec" "- y"] by (simp only: diff_conv_add_uminus)
  have y: "0 < y" "y < ec_p ec" using Pt assms by (auto simp: arep_def aff_abs_def split: if_splits)
  then have "(- y) mod ec_p ec \<noteq> 0" using zdvd_imp_le [of "ec_p ec" y] by (auto simp: mod_eq_0_iff_dvd)
  then show ?thesis using on Pt assms e
    by (auto simp: arep_def aff_abs_def negate_def split: if_splits)
next
  case Inf
  then have "snd Q = 0" using assms arep_infinite by blast
  then show ?thesis using Inf by (simp add: arep_def aff_abs_def negate_def)
qed

lemma aff_from_z_inv_correct:
  assumes "curve_ok ec" "jrep ec Q (Pt x y)" "ec_p ec dvd (snd (snd Q) * i - 1)"
  shows "aff_from_z_inv ec Q i = (x, y)"
proof -
  obtain X Y Z where Q: "Q = (X, Y, Z)" by (cases Q)
  let ?p = "ec_p ec"
  have d: "?p dvd (X - x * Z * Z)" "?p dvd (Y - y * Z * Z * Z)" and i: "?p dvd (Z * i - 1)"
    and r: "0 \<le> x" "x < ?p" "0 \<le> y" "y < ?p"
    using assms(2,3) Q by simp_all
  define j where "j = i * i mod ?p"
  define t where "t = Y * j mod ?p"
  have j: "?p dvd (j - i * i)" "?p dvd (t - Y * j)"
    unfolding j_def t_def by (rule dvd_mod_diff)+
  have m: "?p dvd (X * j mod ?p - X * j)" "?p dvd (t * i mod ?p - t * i)" by (rule dvd_mod_diff)+
  have u: "?p dvd (x * Z * Z * i * i - x)" "?p dvd (y * Z * Z * Z * i * i * i - y)" using i by algebra+
  have "?p dvd (X * j mod ?p - x * Z * Z * i * i)" using m(1) d(1) j(1) by algebra
  then have "?p dvd (X * j mod ?p - x)" using u(1) dvd_diff_trans by blast
  then have 1: "X * j mod ?p = x" using r curve_ok_p(3) [OF assms(1)] eq_if_dvd_diff by simp
  have "?p dvd (t * i mod ?p - Y * i * i * i)" using m(2) j by algebra
  then have "?p dvd (t * i mod ?p - y * Z * Z * Z * i * i * i)" using d(2) by algebra
  then have "?p dvd (t * i mod ?p - y)" using u(2) dvd_diff_trans by blast
  then have "t * i mod ?p = y" using r curve_ok_p(3) [OF assms(1)] eq_if_dvd_diff by simp
  then show ?thesis using 1 by (simp add: Q aff_from_z_inv_def Let_def j_def t_def)
qed

lemma jrep_z_inverse:
  assumes "curve_ok ec" "jrep ec Q P" "P \<noteq> Inf"
  shows "mod_inv_var (snd (snd Q)) (ec_p ec) = Inr (inv_mod (snd (snd Q)) (ec_p ec))"
    and "ec_p ec dvd (snd (snd Q) * inv_mod (snd (snd Q)) (ec_p ec) - 1)"
    and "coprime (snd (snd Q)) (ec_p ec)" and "snd (snd Q) \<noteq> 0"
proof -
  have "0 < snd (snd Q) \<and> snd (snd Q) < ec_p ec"
    using assms by (cases P; cases Q) auto
  then have n: "\<not> ec_p ec dvd snd (snd Q)" "snd (snd Q) \<noteq> 0" using range_not_dvd by auto
  show "mod_inv_var (snd (snd Q)) (ec_p ec) = Inr (inv_mod (snd (snd Q)) (ec_p ec))"
    by (rule mod_inv_var_prime [OF curve_ok_p(1) [OF assms(1)] n(1)])
  show "ec_p ec dvd (snd (snd Q) * inv_mod (snd (snd Q)) (ec_p ec) - 1)"
    by (rule inv_mod_prime [OF curve_ok_p(1) [OF assms(1)] n(1)])
  show "coprime (snd (snd Q)) (ec_p ec)"
    by (rule prime_int_coprime [OF curve_ok_p(1) [OF assms(1)] n(1)])
  show "snd (snd Q) \<noteq> 0" by (rule n(2))
qed

lemma aff_from_jac_var_correct:
  assumes "curve_ok ec" "jrep ec Q P"
  shows "aff_from_jac_var ec Q = Inr (aff_of P)"
proof (cases P)
  case Inf
  then show ?thesis using assms by (cases Q) (auto simp: aff_from_jac_var_def)
next
  case (Pt x y)
  then have "P \<noteq> Inf" by simp
  note z = jrep_z_inverse [OF assms this]
  show ?thesis
    using z aff_from_z_inv_correct [OF assms(1), of Q x y] assms(2) Pt
    by (simp add: aff_from_jac_var_def)
qed

end
