(* ===== verification/Curve_Jacobian.thy ===== *)
theory Curve_Jacobian
  imports Curve_Arith
begin

text \<open>
  The Jacobian doubling and the two Jacobian additions compute the group operation, on every branch:
  the three forms of the doubling slope (a = 0, a = p - 3, any a), the operands at infinity answered
  through the stand-ins, and the branch on equal x-coordinates.
\<close>

section \<open>Doubling\<close>

lemma double_frame:
  fixes p :: int
  assumes X: "p dvd (X - x * Z * Z)" and Y: "p dvd (Y - y * Z * Z * Z)"
    and W: "p dvd (W - (3 * X * X + a * Z * Z * Z * Z))"
    and l: "p dvd (l * (y + y) - (x * x + x * x + x * x + a))"
    and x3: "p dvd (x3 - (l * l - x - x))" and y3: "p dvd (y3 - (l * (x - x3) - y))"
    and V: "p dvd (V - 4 * X * Y * Y)" and X3: "p dvd (X3 - (W * W - 2 * V))"
    and Y3: "p dvd (Y3 - (W * (V - X3) - 8 * Y * Y * Y * Y))" and Z3: "p dvd (Z3 - 2 * Y * Z)"
  shows "p dvd (X3 - x3 * Z3 * Z3)" "p dvd (Y3 - y3 * Z3 * Z3 * Z3)"
proof -
  define u where "u = 2 * y * Z * Z * Z * Z"
  have z: "p dvd (Z3 - u)" using Z3 Y unfolding u_def by algebra
  have w0: "p dvd (W - (3 * x * x + a) * Z * Z * Z * Z)" using W X by algebra
  have "p dvd (l * (2 * y) - (3 * x * x + a))" using l by algebra
  then have w: "p dvd (W - l * u)" using w0 unfolding u_def by algebra
  have v0: "p dvd (V - 4 * X * (y * Z * Z * Z) * (y * Z * Z * Z))" using V Y by algebra
  then have v: "p dvd (V - x * u * u)" using X unfolding u_def by algebra
  have y4: "p dvd (8 * Y * Y * Y * Y - 8 * (y * Z * Z * Z) * (y * Z * Z * Z) * (y * Z * Z * Z) * (y * Z * Z * Z))"
    using Y by algebra
  then have y5: "p dvd (8 * Y * Y * Y * Y - y * u * u * u)"
  proof -
    have e: "8 * (y * Z * Z * Z) * (y * Z * Z * Z) * (y * Z * Z * Z) * (y * Z * Z * Z) = y * u * u * u"
      unfolding u_def by algebra
    show ?thesis using y4 unfolding e .
  qed
  have X3': "p dvd (X3 - x3 * u * u)" using X3 w v x3 by algebra
  then show "p dvd (X3 - x3 * Z3 * Z3)" using z by algebra
  have "p dvd (Y3 - (W * (V - X3) - y * u * u * u))" using Y3 y5 by algebra
  then have "p dvd (Y3 - (l * u * (x * u * u - x3 * u * u) - y * u * u * u))"
    using w v X3' by algebra
  then have "p dvd (Y3 - y3 * u * u * u)" using y3 by algebra
  then show "p dvd (Y3 - y3 * Z3 * Z3 * Z3)" using z by algebra
qed

lemma double_slope:
  assumes "curve_ok ec" and "ec_p ec dvd (QZ2 - Z * Z) \<or> ec_a_is_zero ec"
  shows "ec_p ec dvd ((if ec_a_is_zero ec then 3 * X * X mod ec_p ec
             else if ec_a_is_minus_3 ec then 3 * (X - QZ2) * (X + QZ2) mod ec_p ec
             else (3 * X * X + ec_a ec * QZ2 * QZ2) mod ec_p ec)
           - (3 * X * X + ec_a ec * Z * Z * Z * Z))" (is "?p dvd (?W - ?R)")
proof -
  have f: "ec_a_is_zero ec = (ec_a ec = 0)" "ec_a_is_minus_3 ec = (ec_a ec = ?p - 3)"
    using assms(1) by (simp_all add: curve_ok_def)
  have m: "?p dvd (t mod ?p - t)" for t by (rule dvd_mod_diff)
  consider "ec_a ec = 0" | "ec_a ec \<noteq> 0" "ec_a ec = ?p - 3" | "ec_a ec \<noteq> 0" "ec_a ec \<noteq> ?p - 3"
    by blast
  then show ?thesis
  proof cases
    case 1
    then show ?thesis using m [of "3 * X * X"] f by simp
  next
    case 2
    have q: "?p dvd (QZ2 - Z * Z)" using assms(2) 2 f by simp
    have a: "?p dvd (ec_a ec + 3)" using 2 by simp
    have "?p dvd (3 * (X - QZ2) * (X + QZ2) mod ?p - ?R)" using m [of "3 * (X - QZ2) * (X + QZ2)"] q a by algebra
    then show ?thesis using 2 f by simp
  next
    case 3
    have q: "?p dvd (QZ2 - Z * Z)" using assms(2) 3 f by simp
    have "?p dvd ((3 * X * X + ec_a ec * QZ2 * QZ2) mod ?p - ?R)"
      using m [of "3 * X * X + ec_a ec * QZ2 * QZ2"] q by algebra
    then show ?thesis using 3 f by simp
  qed
qed

lemma jrep_double_jac_helper:
  assumes ok: "curve_ok ec" and Q: "jrep ec Q P"
    and QZ2: "ec_p ec dvd (QZ2 - snd (snd Q) * snd (snd Q)) \<or> ec_a_is_zero ec"
  shows "jrep ec (double_jac_helper ec Q QZ2) (ec_plus ec P P)"
proof -
  obtain X Y Z where q: "Q = (X, Y, Z)" by (cases Q)
  let ?p = "ec_p ec"
  note p = curve_ok_p [OF ok]
  define QY2 where "QY2 = Y * Y mod ?p"
  define W where "W = (if ec_a_is_zero ec then 3 * X * X mod ?p
             else if ec_a_is_minus_3 ec then 3 * (X - QZ2) * (X + QZ2) mod ?p
             else (3 * X * X + ec_a ec * QZ2 * QZ2) mod ?p)"
  define V where "V = 4 * X * QY2 mod ?p"
  define X3 where "X3 = (W * W - 2 * V) mod ?p"
  define Y3 where "Y3 = (W * (V - X3) - 8 * QY2 * QY2) mod ?p"
  define Z3 where "Z3 = 2 * Y * Z mod ?p"
  have r: "double_jac_helper ec Q QZ2 = (X3, Y3, Z3)"
    by (simp only: double_jac_helper_def q Let_def prod.case X3_def Y3_def Z3_def W_def V_def QY2_def)
  have b: "0 \<le> X3" "X3 < ?p" "0 \<le> Y3" "Y3 < ?p" "0 \<le> Z3" "Z3 < ?p"
    using p(3) by (simp_all add: X3_def Y3_def Z3_def)
  have m: "?p dvd (QY2 - Y * Y)" "?p dvd (V - 4 * X * QY2)" "?p dvd (X3 - (W * W - 2 * V))"
    "?p dvd (Y3 - (W * (V - X3) - 8 * QY2 * QY2))" "?p dvd (Z3 - 2 * Y * Z)"
    unfolding QY2_def V_def X3_def Y3_def Z3_def by (rule dvd_mod_diff)+
  show ?thesis
  proof (cases P)
    case Inf
    then have "Z3 = 0" using Q q by (simp add: Z3_def)
    then show ?thesis using Inf r by simp
  next
    case (Pt x y)
    have d: "?p dvd (X - x * Z * Z)" "?p dvd (Y - y * Z * Z * Z)" and z: "\<not> ?p dvd Z"
      and on: "ec_on ec (Pt x y)"
      using Q q Pt range_not_dvd by auto
    show ?thesis
    proof (cases "?p dvd y")
      case True
      then have y: "y = 0" using on dvd_range_zero_iff by auto
      then have "?p dvd Z3" using m(5) d(2) by (simp, algebra)
      then have "Z3 = 0" using b dvd_range_zero_iff by simp
      then show ?thesis using y Pt r by simp
    next
      case False
      have no: "\<not> opposite ?p x y x y"
        using False p(1,2) prime_not_dvd_2 [of ?p]
        by (auto simp: opposite_def prime_int_dvd_mult_iff simp flip: mult_2)
      have l: "line_slope ?p (ec_a ec) x y x y ((3 * x * x + ec_a ec) * inv_mod (2 * y) ?p)"
        using tangent_slope [OF p(1,2) False] .
      define l' where "l' = (3 * x * x + ec_a ec) * inv_mod (2 * y) ?p"
      obtain x3 y3 where t: "third_point ?p l' x y x = Pt x3 y3"
        "0 \<le> x3" "x3 < ?p" "0 \<le> y3" "y3 < ?p"
        and e: "?p dvd (x3 - (l' * l' - x - x))" "?p dvd (y3 - (l' * (x - x3) - y))"
        using p(3) by (rule third_pointE)
      have s: "ec_plus ec P P = Pt x3 y3"
        using ec_add_line [OF p(1,2) on on no l] t Pt by (simp add: l'_def)
      have on3: "ec_on ec (Pt x3 y3)" using ec_add_closed [OF p(1,2) on on] s Pt by simp
      have W: "?p dvd (W - (3 * X * X + ec_a ec * Z * Z * Z * Z))"
        unfolding W_def using ok QZ2 q by (intro double_slope) simp_all
      have l2: "?p dvd (l' * (y + y) - (x * x + x * x + x * x + ec_a ec))"
        using l by (simp add: line_slope_def l'_def)
      have V: "?p dvd (V - 4 * X * Y * Y)" using m(1,2) by algebra
      have Y3': "?p dvd (Y3 - (W * (V - X3) - 8 * Y * Y * Y * Y))" using m(1,4) by algebra
      note f = double_frame [OF d W l2 e V m(3) Y3' m(5)]
      have "Z3 \<noteq> 0"
      proof
        assume "Z3 = 0"
        then have "?p dvd 2 * Y * Z" using m(5) by simp
        then have "?p dvd Y" using z p prime_not_dvd_2 by (auto simp: prime_int_dvd_mult_iff)
        then have "?p dvd y * Z * Z * Z" using d(2) by algebra
        then show False using False z p(1) by (simp add: prime_int_dvd_mult_iff)
      qed
      then show ?thesis using r s on3 b f by simp
    qed
  qed
qed

lemma jrep_double_jac [jrep_intros]:
  assumes "curve_ok ec" "jrep ec Q P"
  shows "jrep ec (double_jac ec Q) (ec_plus ec P P)"
  unfolding double_jac_def Let_def
  by (rule jrep_double_jac_helper [OF assms]) (auto intro: dvd_mod_diff)

section \<open>Addition\<close>

lemma chord_frame:
  fixes p :: int
  assumes M: "p dvd (M - x1 * z * z)" and T: "p dvd (T - y1 * z * z * z)"
    and V: "p dvd (V - (x2 - x1) * z * z)" and W: "p dvd (W - (y2 - y1) * z * z * z)"
    and l: "p dvd (y1 - y2 - l * (x1 - x2))"
    and x3: "p dvd (x3 - (l * l - x1 - x2))" and y3: "p dvd (y3 - (l * (x1 - x3) - y1))"
    and X: "p dvd (X - (W * W - V * V * V - 2 * (M * V * V)))"
    and Y: "p dvd (Y - (W * (M * V * V - X) - T * V * V * V))"
    and Z: "p dvd (Z - V * z)"
  shows "p dvd (X - x3 * Z * Z)" "p dvd (Y - y3 * Z * Z * Z)"
proof -
  have w: "p dvd (W - l * V * z)" using W V l by algebra
  have s: "p dvd (V + 2 * M - (x1 + x2) * z * z)" using M V by algebra
  have "p dvd (X - (l * V * z * (l * V * z) - V * V * (V + 2 * M)))" using X w by algebra
  then have "p dvd (X - (l * V * z * (l * V * z) - V * V * ((x1 + x2) * z * z)))" using s by algebra
  then have X': "p dvd (X - x3 * (V * z) * (V * z))" using x3 by algebra
  then show "p dvd (X - x3 * Z * Z)" using Z by algebra
  have "p dvd (Y - (l * V * z * (x1 * z * z * V * V - x3 * (V * z) * (V * z)) - y1 * z * z * z * V * V * V))"
    using Y w M T X' by algebra
  then have "p dvd (Y - y3 * (V * z) * (V * z) * (V * z))" using y3 by algebra
  then show "p dvd (Y - y3 * Z * Z * Z)" using Z by algebra
qed

text \<open>
  The finite case of both additions: the operands in a common frame, then the branch on \<open>V\<close>.
\<close>

lemma jrep_chord:
  assumes ok: "curve_ok ec" and on1: "ec_on ec (Pt x1 y1)" and on2: "ec_on ec (Pt x2 y2)"
    and z: "\<not> ec_p ec dvd z"
    and M: "ec_p ec dvd (M - x1 * z * z)" and T: "ec_p ec dvd (T - y1 * z * z * z)"
    and V: "ec_p ec dvd (V - (x2 - x1) * z * z)" and W: "ec_p ec dvd (W - (y2 - y1) * z * z * z)"
    and Vr: "0 \<le> V" "V < ec_p ec" and Wr: "0 \<le> W" "W < ec_p ec"
    and D: "jrep ec D (ec_plus ec (Pt x1 y1) (Pt x1 y1))"
    and X: "ec_p ec dvd (X - (W * W - V * V * V - 2 * (M * V * V)))"
    and Y: "ec_p ec dvd (Y - (W * (M * V * V - X) - T * V * V * V))"
    and Z: "ec_p ec dvd (Z - V * z)"
    and r: "0 \<le> X" "X < ec_p ec" "0 \<le> Y" "Y < ec_p ec" "0 \<le> Z" "Z < ec_p ec"
  shows "jrep ec (if V = 0 then if W = 0 then D else INFJ else (X, Y, Z))
     (ec_plus ec (Pt x1 y1) (Pt x2 y2))"
proof -
  let ?p = "ec_p ec"
  note p = curve_ok_p [OF ok]
  have eq: "V = 0 \<longleftrightarrow> x1 = x2"
  proof
    assume "V = 0"
    then have "?p dvd (x2 - x1) * (z * z)" using V by algebra
    then have "?p dvd (x2 - x1)" using z p(1) by (simp add: prime_int_dvd_mult_iff)
    then show "x1 = x2" using eq_if_dvd_diff on1 on2 by (metis on_curve.simps(2))
  next
    assume "x1 = x2"
    then have "?p dvd V" using V by simp
    then show "V = 0" using Vr dvd_range_zero_iff by blast
  qed
  show ?thesis
  proof (cases "V = 0")
    case True
    then have x: "x1 = x2" using eq by simp
    have "W = 0 \<longleftrightarrow> y1 = y2"
    proof
      assume "W = 0"
      then have "?p dvd (y2 - y1) * (z * z * z)" using W by algebra
      then have "?p dvd (y2 - y1)" using z p(1) by (simp add: prime_int_dvd_mult_iff)
      then show "y1 = y2" using eq_if_dvd_diff on1 on2 by (metis on_curve.simps(2))
    next
      assume "y1 = y2"
      then have "?p dvd W" using W by simp
      then show "W = 0" using Wr dvd_range_zero_iff by blast
    qed
    moreover have "y1 = y2 \<or> ?p dvd (y1 + y2)" using same_x [OF p(1)] on1 on2 x by blast
    ultimately show ?thesis using True D x jrep_INFJ by auto
  next
    case False
    then have x: "x1 \<noteq> x2" using eq by simp
    then have no: "\<not> opposite ?p x1 y1 x2 y2" by (simp add: opposite_def)
    obtain l where l: "line_slope ?p (ec_a ec) x1 y1 x2 y2 l"
      using line_slope_ex [OF p(1,2) on1 on2 no] .
    obtain x3 y3 where t: "third_point ?p l x1 y1 x2 = Pt x3 y3"
      "0 \<le> x3" "x3 < ?p" "0 \<le> y3" "y3 < ?p"
      and e: "?p dvd (x3 - (l * l - x1 - x2))" "?p dvd (y3 - (l * (x1 - x3) - y1))"
      using p(3) by (rule third_pointE)
    have s: "ec_plus ec (Pt x1 y1) (Pt x2 y2) = Pt x3 y3"
      using ec_add_line [OF p(1,2) on1 on2 no l] t by simp
    have on3: "ec_on ec (Pt x3 y3)" using ec_add_closed [OF p(1,2) on1 on2] s by simp
    have l1: "?p dvd (y1 - y2 - l * (x1 - x2))" using l by (simp add: line_slope_def)
    note f = chord_frame [OF M T V W l1 e X Y Z]
    have "Z \<noteq> 0"
    proof
      assume "Z = 0"
      then have "?p dvd V * z" using Z by simp
      then have "?p dvd V" using z p(1) by (simp add: prime_int_dvd_mult_iff)
      then show False using Vr False dvd_range_zero_iff by blast
    qed
    then show ?thesis using False s on3 r f by simp
  qed
qed

lemma add_jac_infinite:
  "snd (snd Q) = 0 \<Longrightarrow> add_jac ec Q R = (if snd (snd R) = 0 then INFJ else R)"
  "snd (snd Q) \<noteq> 0 \<Longrightarrow> snd (snd R) = 0 \<Longrightarrow> add_jac ec Q R = Q"
  by (simp_all only: add_jac_def Let_def case_prod_beta simp_thms if_True if_False)

lemma add_jac_aff_infinite:
  "snd (snd Q) = 0 \<Longrightarrow>
     add_jac_aff ec Q R = (if snd R = 0 then INFJ else (fst R, snd R, 1))"
  "snd (snd Q) \<noteq> 0 \<Longrightarrow> snd R = 0 \<Longrightarrow> add_jac_aff ec Q R = Q"
  by (simp_all only: add_jac_aff_def Let_def case_prod_beta simp_thms if_True if_False)

lemma jrep_add_jac [jrep_intros]:
  assumes ok: "curve_ok ec" and Q: "jrep ec Q P" and R: "jrep ec R S"
  shows "jrep ec (add_jac ec Q R) (ec_plus ec P S)"
proof -
  obtain X1 Y1 Z1 X2 Y2 Z2 where q: "Q = (X1, Y1, Z1)" "R = (X2, Y2, Z2)" by (cases Q, cases R)
  let ?p = "ec_p ec"
  note p = curve_ok_p [OF ok]
  consider "P = Inf" "S = Inf" | "P = Inf" "S \<noteq> Inf" | "P \<noteq> Inf" "S = Inf"
    | x1 y1 x2 y2 where "P = Pt x1 y1" "S = Pt x2 y2"
    by (meson point.exhaust)
  then show ?thesis
  proof cases
    case 1
    then have "Z1 = 0" "Z2 = 0" using Q R q by simp_all
    then show ?thesis using 1 q by (simp add: add_jac_infinite jrep_INFJ)
  next
    case 2
    then have "Z1 = 0" "Z2 \<noteq> 0" using Q R q by (cases S; simp)+
    then show ?thesis using 2 q R by (simp add: add_jac_infinite)
  next
    case 3
    then have "Z1 \<noteq> 0" "Z2 = 0" using Q R q by (cases P; simp)+
    then show ?thesis using 3 q Q by (simp add: add_jac_infinite)
  next
    case (4 x1 y1 x2 y2)
    have d: "?p dvd (X1 - x1 * Z1 * Z1)" "?p dvd (Y1 - y1 * Z1 * Z1 * Z1)"
      "?p dvd (X2 - x2 * Z2 * Z2)" "?p dvd (Y2 - y2 * Z2 * Z2 * Z2)"
      and z: "\<not> ?p dvd Z1" "\<not> ?p dvd Z2" "Z1 \<noteq> 0" "Z2 \<noteq> 0"
      and on: "ec_on ec (Pt x1 y1)" "ec_on ec (Pt x2 y2)"
      using Q R q 4 range_not_dvd by auto
    define RZ2 RZ3 QZ2 QZ3 where "RZ2 = Z2 * Z2 mod ?p" and "RZ3 = RZ2 * Z2 mod ?p"
      and "QZ2 = Z1 * Z1 mod ?p" and "QZ3 = QZ2 * Z1 mod ?p"
    have a: "?p dvd (RZ2 - Z2 * Z2)" "?p dvd (RZ3 - RZ2 * Z2)" "?p dvd (QZ2 - Z1 * Z1)"
      "?p dvd (QZ3 - QZ2 * Z1)"
      unfolding RZ2_def RZ3_def QZ2_def QZ3_def by (rule dvd_mod_diff)+
    define M T V W where "M = X1 * RZ2 mod ?p" and "T = Y1 * RZ3 mod ?p"
      and "V = (X2 * QZ2 - M) mod ?p" and "W = (Y2 * QZ3 - T) mod ?p"
    have b: "?p dvd (M - X1 * RZ2)" "?p dvd (T - Y1 * RZ3)" "?p dvd (V - (X2 * QZ2 - M))"
      "?p dvd (W - (Y2 * QZ3 - T))"
      unfolding M_def T_def V_def W_def by (rule dvd_mod_diff)+
    define V2 V3 MV2 where "V2 = V * V mod ?p" and "V3 = V2 * V mod ?p" and "MV2 = M * V2 mod ?p"
    have c: "?p dvd (V2 - V * V)" "?p dvd (V3 - V2 * V)" "?p dvd (MV2 - M * V2)"
      unfolding V2_def V3_def MV2_def by (rule dvd_mod_diff)+
    define X Y Z where "X = (W * W - V3 - 2 * MV2) mod ?p" and "Y = (W * (MV2 - X) - T * V3) mod ?p"
      and "Z = V * Z1 mod ?p * Z2 mod ?p"
    have e: "?p dvd (X - (W * W - V3 - 2 * MV2))" "?p dvd (Y - (W * (MV2 - X) - T * V3))"
      "?p dvd (Z - V * Z1 mod ?p * Z2)" "?p dvd (V * Z1 mod ?p - V * Z1)"
      unfolding X_def Y_def Z_def by (rule dvd_mod_diff)+
    define zz where "zz = Z1 * Z2"
    have M: "?p dvd (M - x1 * zz * zz)" using b(1) a(1) d(1) unfolding zz_def by algebra
    have t: "?p dvd (RZ3 - Z2 * Z2 * Z2)" "?p dvd (QZ3 - Z1 * Z1 * Z1)" using a by algebra+
    have T: "?p dvd (T - y1 * zz * zz * zz)" using b(2) t(1) d(2) unfolding zz_def by algebra
    have V0: "?p dvd (V + M - x2 * zz * zz)" using b(3) a(3) d(3) unfolding zz_def by algebra
    have V: "?p dvd (V - (x2 - x1) * zz * zz)" using V0 M by algebra
    have W0: "?p dvd (W + T - y2 * zz * zz * zz)" using b(4) t(2) d(4) unfolding zz_def by algebra
    have W: "?p dvd (W - (y2 - y1) * zz * zz * zz)" using W0 T by algebra
    have X: "?p dvd (X - (W * W - V * V * V - 2 * (M * V * V)))" using e(1) c by algebra
    have Y: "?p dvd (Y - (W * (M * V * V - X) - T * V * V * V))" using e(2) c by algebra
    have Z: "?p dvd (Z - V * zz)" using e(3,4) unfolding zz_def by algebra
    have zz: "\<not> ?p dvd zz" using z p(1) by (simp add: zz_def prime_int_dvd_mult_iff)
    have D: "jrep ec (double_jac_helper ec Q QZ2) (ec_plus ec (Pt x1 y1) (Pt x1 y1))"
      using jrep_double_jac_helper [OF ok, of Q "Pt x1 y1" QZ2] Q q 4 a(3) by simp
    have "add_jac ec Q R = (if V = 0 then if W = 0 then double_jac_helper ec Q QZ2 else INFJ else (X, Y, Z))"
      using z by (simp only: q add_jac_def Let_def RZ2_def RZ3_def QZ2_def QZ3_def M_def T_def V_def
          W_def V2_def V3_def MV2_def X_def Y_def Z_def prod.case fst_conv snd_conv simp_thms
          if_False if_True)
    moreover have "0 \<le> V" "V < ?p" "0 \<le> W" "W < ?p" "0 \<le> X" "X < ?p" "0 \<le> Y" "Y < ?p" "0 \<le> Z" "Z < ?p"
      using p(3) by (simp_all add: V_def W_def X_def Y_def Z_def)
    ultimately show ?thesis using jrep_chord [OF ok on zz M T V W _ _ _ _ D X Y Z] 4 by simp
  qed
qed

lemma jrep_add_jac_aff [jrep_intros]:
  assumes ok: "curve_ok ec" and Q: "jrep ec Q P" and R: "arep ec R S"
  shows "jrep ec (add_jac_aff ec Q R) (ec_plus ec P S)"
proof -
  obtain X1 Y1 Z1 x2 y2 where q: "Q = (X1, Y1, Z1)" "R = (x2, y2)" by (cases Q, cases R)
  let ?p = "ec_p ec"
  note p = curve_ok_p [OF ok]
  consider "P = Inf" "y2 = 0" | "P = Inf" "y2 \<noteq> 0" | "P \<noteq> Inf" "y2 = 0"
    | x1 y1 where "P = Pt x1 y1" "y2 \<noteq> 0"
    by (meson point.exhaust)
  then show ?thesis
  proof cases
    case 1
    then have "Z1 = 0" "S = Inf" using Q R q by (simp_all add: arep_def aff_abs_def)
    then show ?thesis using 1 q by (simp add: add_jac_aff_infinite jrep_INFJ)
  next
    case 2
    then have "Z1 = 0" "S = Pt x2 y2" using Q R q by (simp_all add: arep_def aff_abs_def)
    moreover have "jrep ec (x2, y2, 1) S" using jrep_affine ok R calculation(2) arep_on by blast
    ultimately show ?thesis using 2 q by (simp add: add_jac_aff_infinite)
  next
    case 3
    then have "Z1 \<noteq> 0" "S = Inf" using Q R q by (cases P; simp add: arep_def aff_abs_def)+
    then show ?thesis using 3 q Q by (simp add: add_jac_aff_infinite)
  next
    case (4 x1 y1)
    have S: "S = Pt x2 y2" using R q 4 by (simp add: arep_def aff_abs_def)
    have d: "?p dvd (X1 - x1 * Z1 * Z1)" "?p dvd (Y1 - y1 * Z1 * Z1 * Z1)"
      and z: "\<not> ?p dvd Z1" "Z1 \<noteq> 0" and on: "ec_on ec (Pt x1 y1)" "ec_on ec (Pt x2 y2)"
      using Q q 4 range_not_dvd arep_on [OF R] S by auto
    define QZ2 QZ3 V W where "QZ2 = Z1 * Z1 mod ?p" and "QZ3 = QZ2 * Z1 mod ?p"
      and "V = (x2 * QZ2 - X1) mod ?p" and "W = (y2 * QZ3 - Y1) mod ?p"
    have a: "?p dvd (QZ2 - Z1 * Z1)" "?p dvd (QZ3 - QZ2 * Z1)" "?p dvd (V - (x2 * QZ2 - X1))"
      "?p dvd (W - (y2 * QZ3 - Y1))"
      unfolding QZ2_def QZ3_def V_def W_def by (rule dvd_mod_diff)+
    define V2 V3 MV2 where "V2 = V * V mod ?p" and "V3 = V2 * V mod ?p" and "MV2 = X1 * V2 mod ?p"
    have c: "?p dvd (V2 - V * V)" "?p dvd (V3 - V2 * V)" "?p dvd (MV2 - X1 * V2)"
      unfolding V2_def V3_def MV2_def by (rule dvd_mod_diff)+
    define X Y Z where "X = (W * W - V3 - 2 * MV2) mod ?p" and "Y = (W * (MV2 - X) - Y1 * V3) mod ?p"
      and "Z = V * Z1 mod ?p"
    have e: "?p dvd (X - (W * W - V3 - 2 * MV2))" "?p dvd (Y - (W * (MV2 - X) - Y1 * V3))"
      "?p dvd (Z - V * Z1)"
      unfolding X_def Y_def Z_def by (rule dvd_mod_diff)+
    have V: "?p dvd (V - (x2 - x1) * Z1 * Z1)" using a(1,3) d(1) by algebra
    have W: "?p dvd (W - (y2 - y1) * Z1 * Z1 * Z1)" using a(1,2,4) d(2) by algebra
    have X: "?p dvd (X - (W * W - V * V * V - 2 * (X1 * V * V)))" using e(1) c by algebra
    have Y: "?p dvd (Y - (W * (X1 * V * V - X) - Y1 * V * V * V))" using e(2) c by algebra
    have D: "jrep ec (double_jac_helper ec Q QZ2) (ec_plus ec (Pt x1 y1) (Pt x1 y1))"
      using jrep_double_jac_helper [OF ok, of Q "Pt x1 y1" QZ2] Q q 4 a(1) by simp
    have "add_jac_aff ec Q R
        = (if V = 0 then if W = 0 then double_jac_helper ec Q QZ2 else INFJ else (X, Y, Z))"
      using z 4 by (simp only: q add_jac_aff_def Let_def QZ2_def QZ3_def V_def
          W_def V2_def V3_def MV2_def X_def Y_def Z_def prod.case fst_conv snd_conv simp_thms
          if_False if_True)
    moreover have "0 \<le> V" "V < ?p" "0 \<le> W" "W < ?p" "0 \<le> X" "X < ?p" "0 \<le> Y" "Y < ?p" "0 \<le> Z" "Z < ?p"
      using p(3) by (simp_all add: V_def W_def X_def Y_def Z_def)
    ultimately show ?thesis using jrep_chord [OF ok on z(1) d V W _ _ _ _ D X Y e(3)] 4 S by simp
  qed
qed

end
