(* ===== verification/Curve_Affine.thy ===== *)
theory Curve_Affine
  imports Curve_Jacobian
begin

text \<open>
  The affine operations of \<open>Curve_Group\<close>, the batched conversion to affine coordinates, the comparison
  of Jacobian points, and the lifting of an x-coordinate to a point of the curve.
\<close>

section \<open>Affine addition\<close>

lemma third_point_code:
  fixes p :: int
  assumes "0 < p" "p dvd (lam - l)"
  shows "third_point p l x1 y1 x2
     = Pt ((lam * lam - x1 - x2) mod p) ((lam * (x1 - (lam * lam - x1 - x2) mod p) - y1) mod p)"
  unfolding third_point_cong [OF assms, symmetric] by (simp add: third_point_def Let_def)

lemma double_aff_var_correct:
  assumes ok: "curve_ok ec" and Q: "arep ec Q P"
  shows "double_aff_var ec Q = Inr (aff_of (ec_plus ec P P))"
proof (cases P)
  case Inf
  then show ?thesis using arep_infinite [OF Q] by (simp add: double_aff_var_def)
next
  case (Pt x y)
  let ?p = "ec_p ec"
  note p = curve_ok_p [OF ok]
  have y: "snd Q \<noteq> 0" "Q = (x, y)" using arep_infinite [OF Q] arep_finite [OF Q] Pt by (auto simp: prod_eq_iff)
  then have "0 < y" "y < ?p" using arep_on [OF Q] Pt by auto
  then have n: "\<not> ?p dvd y" by (rule range_not_dvd)
  then have n2: "\<not> ?p dvd 2 * y" using p prime_not_dvd_2 by (simp add: prime_int_dvd_mult_iff)
  have "ec_plus ec P P = third_point ?p ((3 * x * x + ec_a ec) * inv_mod (2 * y) ?p) x y x"
    using Pt n2 by simp
  also have "\<dots> = (let lam = (3 * x * x + ec_a ec) * inv_mod (2 * y) ?p mod ?p;
      x3 = (lam * lam - x - x) mod ?p in Pt x3 ((lam * (x - x3) - y) mod ?p))"
    unfolding Let_def using p(3) by (intro third_point_code dvd_mod_diff)
  finally show ?thesis
    using y mod_inv_var_prime [OF p(1) n2] by (simp add: double_aff_var_def Let_def)
qed

lemma add_aff_var_correct:
  assumes ok: "curve_ok ec" and Q: "arep ec Q P" and R: "arep ec R S"
  shows "\<exists>A. add_aff_var ec Q R = Inr A \<and> aff_abs A = aff_abs (aff_of (ec_plus ec P S))
           \<and> (P \<noteq> Inf \<longrightarrow> S \<noteq> Inf \<longrightarrow> A = aff_of (ec_plus ec P S))"
proof -
  let ?p = "ec_p ec"
  note p = curve_ok_p [OF ok]
  consider "S = Inf" | "S \<noteq> Inf" "P = Inf" | x1 y1 x2 y2 where "P = Pt x1 y1" "S = Pt x2 y2"
    by (meson point.exhaust)
  then show ?thesis
  proof cases
    case 1
    then show ?thesis using Q arep_infinite [OF R] arep_infinite [OF Q] arep_finite [OF Q]
      by (cases P) (auto simp: add_aff_var_def arep_def aff_abs_def INF_aff_def)
  next
    case 2
    then show ?thesis using R arep_infinite [OF R] arep_infinite [OF Q] arep_finite [OF R]
      by (cases S) (auto simp: add_aff_var_def arep_def aff_abs_def INF_aff_def)
  next
    case (3 x1 y1 x2 y2)
    have f: "Q = (x1, y1)" "R = (x2, y2)" "y1 \<noteq> 0" "y2 \<noteq> 0"
      using arep_infinite [OF Q] arep_finite [OF Q] arep_infinite [OF R] arep_finite [OF R] 3
      by (auto simp: prod_eq_iff)
    have on: "ec_on ec (Pt x1 y1)" "ec_on ec (Pt x2 y2)" using arep_on Q R 3 by blast+
    have "add_aff_var ec Q R = Inr (aff_of (ec_plus ec P S))"
    proof (cases "x1 = x2")
      case True
      have "\<not> ?p dvd y1 + y1"
        using p prime_not_dvd_2 range_not_dvd [of y1 ?p] on(1) f(3)
        by (simp add: prime_int_dvd_mult_iff flip: mult_2)
      moreover have "y1 = y2 \<or> ?p dvd (y1 + y2)" using same_x [OF p(1)] on True by blast
      moreover have "double_aff_var ec R = Inr (aff_of (ec_plus ec S S))"
        by (rule double_aff_var_correct [OF ok R])
      ultimately show ?thesis using f True 3 by (auto simp: add_aff_var_def)
    next
      case False
      have n: "\<not> ?p dvd (x2 - x1)" using False eq_if_dvd_diff on on_curve.simps(2) by metis
      have "ec_plus ec P S = third_point ?p ((y2 - y1) * inv_mod (x2 - x1) ?p) x1 y1 x2"
        using 3 False by simp
      also have "\<dots> = (let lam = (y2 - y1) * inv_mod (x2 - x1) ?p mod ?p;
          x3 = (lam * lam - x1 - x2) mod ?p in Pt x3 ((lam * (x1 - x3) - y1) mod ?p))"
        unfolding Let_def using p(3) by (intro third_point_code dvd_mod_diff)
      finally show ?thesis
        using f False mod_inv_var_prime [OF p(1) n] by (simp add: add_aff_var_def Let_def)
    qed
    then show ?thesis by blast
  qed
qed

lemma arep_add_aff_var:
  assumes "curve_ok ec" "arep ec Q P" "arep ec R S" "off_axis (ec_plus ec P S)"
  shows "\<exists>A. add_aff_var ec Q R = Inr A \<and> arep ec A (ec_plus ec P S)"
proof -
  obtain A where A: "add_aff_var ec Q R = Inr A" "aff_abs A = aff_abs (aff_of (ec_plus ec P S))"
    using add_aff_var_correct [OF assms(1-3)] by blast
  have "ec_on ec (ec_plus ec P S)"
    using ec_add_closed curve_ok_p assms(1-3) arep_on by blast
  then show ?thesis using A arep_aff_of [of ec "ec_plus ec P S"] assms(4) by (simp add: arep_def)
qed

section \<open>Batched conversion\<close>

lemma take_inverses_correct:
  assumes ok: "curve_ok ec"
  shows "list_all2 (jrep ec) Qs Ps \<Longrightarrow>
    take_inverses ec Qs (map (\<lambda>z. inv_mod z (ec_p ec)) (filter (\<lambda>z. z \<noteq> 0) (map (snd \<circ> snd) Qs)))
      = map aff_of Ps"
proof (induction Qs Ps rule: list_all2_induct)
  case (Cons Q Qs P Ps)
  show ?case
  proof (cases P)
    case Inf
    then have "snd (snd Q) = 0" using Cons by (cases Q) auto
    then show ?thesis using Cons Inf by simp
  next
    case (Pt x y)
    then have "P \<noteq> Inf" by simp
    note z = jrep_z_inverse [OF ok Cons(1) this]
    show ?thesis using Cons Pt z aff_from_z_inv_correct [OF ok, of Q x y] by simp
  qed
qed simp

lemma aff_from_jac_batch_var_correct:
  assumes ok: "curve_ok ec" and Qs: "list_all2 (jrep ec) Qs Ps"
  shows "aff_from_jac_batch_var ec Qs = Inr (map aff_of Ps)"
proof -
  define zs where "zs = filter (\<lambda>z. z \<noteq> 0) (map (snd \<circ> snd) Qs)"
  have p: "0 < ec_p ec" by (rule curve_ok_p(3) [OF ok])
  have cop: "coprime z (ec_p ec)" if "z \<in> set zs" for z
  proof -
    from that obtain i where i: "i < length Qs" "snd (snd (Qs ! i)) = z" "z \<noteq> 0"
      by (auto simp: zs_def in_set_conv_nth)
    then have j: "jrep ec (Qs ! i) (Ps ! i)" using Qs by (simp add: list_all2_conv_all_nth)
    moreover have "Ps ! i \<noteq> Inf" using i j by (cases "Qs ! i") auto
    ultimately show ?thesis using jrep_z_inverse(3) ok i by blast
  qed
  have "rmap (\<lambda>z. mod_inv_var z (ec_p ec)) zs = Inr (map (\<lambda>z. inv_mod z (ec_p ec)) zs)"
    using rmap_mod_inv_var_coprime [OF p] cop by blast
  then have "mod_inv_batch_var zs (ec_p ec) = Inr (map (\<lambda>z. inv_mod z (ec_p ec)) zs)"
    using p by (cases "zs = []") (simp_all add: mod_inv_batch_var_eq assert_valid_modulus_def)
  then show ?thesis using take_inverses_correct [OF ok Qs]
    by (simp add: aff_from_jac_batch_var_def flip: zs_def)
qed

section \<open>Comparison and coordinates\<close>

lemma is_jac_equal_finite:
  assumes ok: "curve_ok ec" and Q: "jrep ec Q P" "P \<noteq> Inf" and R: "jrep ec R S" "S \<noteq> Inf"
  shows "is_jac_equal ec Q R \<longleftrightarrow> P = S"
proof -
  obtain X1 Y1 Z1 X2 Y2 Z2 where q: "Q = (X1, Y1, Z1)" "R = (X2, Y2, Z2)" by (cases Q, cases R)
  obtain x1 y1 x2 y2 where e: "P = Pt x1 y1" "S = Pt x2 y2" using Q R by (meson point.exhaust)
  let ?p = "ec_p ec"
  note p = curve_ok_p [OF ok]
  have d: "?p dvd (X1 - x1 * Z1 * Z1)" "?p dvd (Y1 - y1 * Z1 * Z1 * Z1)"
    "?p dvd (X2 - x2 * Z2 * Z2)" "?p dvd (Y2 - y2 * Z2 * Z2 * Z2)"
    and z: "\<not> ?p dvd Z1" "\<not> ?p dvd Z2" and on: "ec_on ec (Pt x1 y1)" "ec_on ec (Pt x2 y2)"
    using Q R q e range_not_dvd by auto
  have x: "?p dvd (X1 * (Z2 * Z2) - X2 * (Z1 * Z1)) \<longleftrightarrow> x1 = x2"
  proof
    assume "?p dvd (X1 * (Z2 * Z2) - X2 * (Z1 * Z1))"
    then have "?p dvd (x1 - x2) * (Z1 * Z1 * Z2 * Z2)" using d by algebra
    then have "?p dvd (x1 - x2)" using z p(1) by (auto simp: prime_int_dvd_mult_iff)
    then show "x1 = x2" using eq_if_dvd_diff on on_curve.simps(2) by metis
  next
    assume "x1 = x2"
    then have "?p dvd (X1 - x2 * Z1 * Z1)" using d(1) by simp
    then show "?p dvd (X1 * (Z2 * Z2) - X2 * (Z1 * Z1))" using d(3) by algebra
  qed
  have y: "?p dvd (Y1 * (Z2 * Z2 * Z2) - Y2 * (Z1 * Z1 * Z1)) \<longleftrightarrow> y1 = y2"
  proof
    assume "?p dvd (Y1 * (Z2 * Z2 * Z2) - Y2 * (Z1 * Z1 * Z1))"
    then have "?p dvd (y1 - y2) * (Z1 * Z1 * Z1 * Z2 * Z2 * Z2)" using d by algebra
    then have "?p dvd (y1 - y2)" using z p(1) by (auto simp: prime_int_dvd_mult_iff)
    then show "y1 = y2" using eq_if_dvd_diff on on_curve.simps(2) by metis
  next
    assume "y1 = y2"
    then have "?p dvd (Y1 - y2 * Z1 * Z1 * Z1)" using d(2) by simp
    then show "?p dvd (Y1 * (Z2 * Z2 * Z2) - Y2 * (Z1 * Z1 * Z1))" using d(4) by algebra
  qed
  show ?thesis using x y
    by (simp add: is_jac_equal_def q e Let_def mod_eq_dvd_iff)
qed

lemma x_aff_from_jac_var_correct:
  assumes ok: "curve_ok ec" and Q: "jrep ec Q (Pt x y)"
  shows "x_aff_from_jac_var ec Q = Inr x" "y_aff_from_jac_var ec Q = Inr y"
proof -
  obtain X Y Z where q: "Q = (X, Y, Z)" by (cases Q)
  let ?p = "ec_p ec"
  note p = curve_ok_p [OF ok]
  have d: "?p dvd (X - x * Z * Z)" "?p dvd (Y - y * Z * Z * Z)" and z: "\<not> ?p dvd Z" "Z \<noteq> 0"
    and r: "0 \<le> x" "x < ?p" "0 \<le> y" "y < ?p"
    using Q q range_not_dvd by auto
  have n: "\<not> ?p dvd Z * Z" "\<not> ?p dvd Z * Z * Z" using z p(1) by (simp_all add: prime_int_dvd_mult_iff)
  have "?p dvd (X * inv_mod (Z * Z) ?p mod ?p - X * inv_mod (Z * Z) ?p)"
    "?p dvd (Y * inv_mod (Z * Z * Z) ?p mod ?p - Y * inv_mod (Z * Z * Z) ?p)" by (rule dvd_mod_diff)+
  moreover have "?p dvd (Z * Z * inv_mod (Z * Z) ?p - 1)" "?p dvd (Z * Z * Z * inv_mod (Z * Z * Z) ?p - 1)"
    using n inv_mod_prime p(1) by blast+
  ultimately have "?p dvd (X * inv_mod (Z * Z) ?p mod ?p - x)"
    "?p dvd (Y * inv_mod (Z * Z * Z) ?p mod ?p - y)"
    using d by algebra+
  then have "X * inv_mod (Z * Z) ?p mod ?p = x" "Y * inv_mod (Z * Z * Z) ?p mod ?p = y"
    using r p(3) eq_if_dvd_diff by simp_all
  then show "x_aff_from_jac_var ec Q = Inr x" "y_aff_from_jac_var ec Q = Inr y"
    using z n mod_inv_var_prime [OF p(1)]
    by (simp_all add: x_aff_from_jac_var_def y_aff_from_jac_var_def q Let_def)
qed

section \<open>Points from x-coordinates\<close>

lemma ec_y2_on_curve:
  assumes "0 < ec_p ec" "0 \<le> x" "x < ec_p ec" "0 \<le> y" "y < ec_p ec"
  shows "ec_on ec (Pt x y) \<longleftrightarrow> y * y mod ec_p ec = ec_y2 ec x"
proof -
  have e: "(x ^ 2 + ec_a ec) * x + ec_b ec = x * x * x + ec_a ec * x + ec_b ec"
    by (simp add: power2_eq_square algebra_simps)
  show ?thesis using assms unfolding ec_y2_def e by (simp add: mod_eq_dvd_iff)
qed

lemma y_var_sound:
  assumes "y_var ec x = Inr y" "curve_ok ec"
  shows "ec_on ec (Pt x y)"
proof -
  have x: "0 \<le> x" "x < ec_p ec" and r: "mod_sqrt_var (ec_y2 ec x) (ec_p ec) = Inr y"
    using assms(1) by (auto simp: y_var_def split: if_splits sum.splits)
  have "y * y mod ec_p ec = ec_y2 ec x mod ec_p ec" "0 \<le> y" "y < ec_p ec"
    using mod_sqrt_var_sound [OF r] by auto
  moreover have "ec_y2 ec x mod ec_p ec = ec_y2 ec x" by (simp add: ec_y2_def)
  ultimately show ?thesis using ec_y2_on_curve [of ec x y] x curve_ok_p(3) [OF assms(2)] by simp
qed

lemma y_var_complete:
  assumes "curve_ok ec" "ec_p ec mod 4 = 3" "ec_on ec (Pt x y)"
  shows "\<exists>r. y_var ec x = Inr r \<and> (r = y \<or> r = (- y) mod ec_p ec)"
proof -
  note p = curve_ok_p [OF assms(1)]
  have r: "0 \<le> x" "x < ec_p ec" "0 \<le> y" "y < ec_p ec" using assms(3) by auto
  have "y * y mod ec_p ec = ec_y2 ec x" using ec_y2_on_curve [OF p(3) r] assms(3) by simp
  then have "ec_p ec dvd (y * y - ec_y2 ec x)" by (metis dvd_diff_mod)
  then obtain s where s: "mod_sqrt_var (ec_y2 ec x) (ec_p ec) = Inr s"
    using mod_sqrt_var_3_mod_4 [OF p(1) assms(2)] by blast
  then have v: "y_var ec x = Inr s" using r by (simp add: y_var_def)
  have on: "ec_on ec (Pt x s)" using y_var_sound [OF v assms(1)] .
  have "y = s \<or> ec_p ec dvd (y + s)" using same_x [OF p(1) assms(3) on] .
  then have "s = y \<or> s = (- y) mod ec_p ec"
    using opposite_iff_neg [OF assms(3) on] by (auto simp: opposite_def)
  then show ?thesis using v by blast
qed

lemma y_even_var_sound:
  assumes "y_even_var ec x = Inr y" "curve_ok ec" "y \<noteq> ec_p ec"
  shows "ec_on ec (Pt x y)" "even y"
proof -
  note p = curve_ok_p [OF assms(2)]
  obtain r where r: "y_var ec x = Inr r" "y = (if r mod 2 \<noteq> 0 then ec_p ec - r else r)"
    using assms(1) by (auto simp: y_even_var_def rbind_eq_Inr_iff)
  have on: "ec_on ec (Pt x r)" using y_var_sound [OF r(1) assms(2)] .
  have o: "odd (ec_p ec)" using prime_odd p by blast
  have "ec_on ec (Pt x y) \<and> even y"
  proof (cases "r mod 2 = 0")
    case False
    then have "r \<noteq> 0" by auto
    then have "(- r) mod ec_p ec = ec_p ec - r" using on
      by (metis on_curve.simps(2) zmod_zminus1_eq_if mod_pos_pos_trivial)
    then have "ec_on ec (Pt x (ec_p ec - r))"
      using ec_neg_closed [OF p(3) on] by simp
    moreover have "even (ec_p ec - r)" using o False by presburger
    ultimately show ?thesis using False r(2) by simp
  qed (use r on in auto)
  then show "ec_on ec (Pt x y)" "even y" by auto
qed

lemma group_is_on_curve_True_iff:
  assumes "curve_ok ec"
  shows "group_is_on_curve ec Q = Inr True \<longleftrightarrow>
     0 \<le> fst Q \<and> fst Q < ec_p ec \<and> arep ec Q (aff_abs Q)"
  using ec_y2_on_curve [of ec "fst Q" "snd Q"] curve_ok_p(3) [OF assms]
  by (auto simp: group_is_on_curve_def arep_def aff_abs_def)

end
