(* ===== verification/Odd_Order.thy ===== *)
theory Odd_Order
  imports Curve_Affine
begin

text \<open>
  The points a scheme multiplies: those of the curve that an odd number annihilates. Their multiples
  form a group in which the affine encoding is faithful, a point on the x-axis having even order; the
  scalars act on them modulo that number. \<open>mul_rel\<close> and \<open>ord_rel\<close> say that a Jacobian triple is the
  \<open>k\<close>-th multiple of a point, the second under the hypothesis on the order.
\<close>

section \<open>Points of odd order\<close>

definition in_order :: "('z) curve_group_scheme \<Rightarrow> int \<Rightarrow> point \<Rightarrow> bool" where
  "in_order ec n P \<longleftrightarrow> curve_ok ec \<and> ec_on ec P \<and> 0 < n \<and> odd n \<and> ec_times ec n P = Inf"

interpretation ecc: point_group "\<lambda>P. curve_ok ec \<and> ec_on ec P" "ec_plus ec" "ec_minus ec" Inf
  for ec :: "('z) curve_group_scheme"
proof (unfold_locales, goal_cases)
  case (1 P Q) then show ?case using ec_add_closed curve_ok_p by blast
next
  case (2 P) then show ?case using ec_neg_closed curve_ok_p by blast
next
  case (3 P) then show ?case by simp
next
  case (4 P Q R) then show ?case using ec_add_assoc curve_ok_params by blast
next
  case (5 P Q) then show ?case using ec_add_comm curve_ok_p by blast
next
  case (6 P) then show ?case by simp
next
  case (7 P) then show ?case using ec_add_neg curve_ok_params by blast
qed

interpretation ecn: order_group "in_order ec n" "ec_plus ec" "ec_minus ec" Inf n
  for ec :: "('z) curve_group_scheme" and n
proof (unfold_locales, goal_cases)
  case (1 P Q) then show ?case
    using ecc.zm_distrib [of ec P Q n] ecc.add_closed [of ec P Q] by (auto simp: in_order_def)
next
  case (2 P) then show ?case
    using ecc.zm_neg [of ec P n] ecc.neg_closed [of ec P] by (auto simp: in_order_def)
next
  case (3 P) then show ?case using ecc.zm_zero [of ec P n] by (auto simp: in_order_def)
next
  case (4 P Q R) then show ?case using ecc.add_assoc by (auto simp: in_order_def)
next
  case (5 P Q) then show ?case using ecc.add_comm by (auto simp: in_order_def)
next
  case (7 P) then show ?case using ecc.add_neg by (auto simp: in_order_def)
qed (auto simp: in_order_def)

lemma in_order_off_axis:
  assumes "in_order ec n P"
  shows "off_axis P"
  unfolding off_axis_def
proof (intro allI notI)
  fix x assume P: "P = Pt x 0"
  obtain k where n: "n = 2 * k + 1" using assms by (auto simp: in_order_def elim: oddE)
  have on: "curve_ok ec \<and> ec_on ec P" using assms by (simp add: in_order_def)
  have "ec_plus ec P P = Inf" by (simp add: P)
  then have "ec_times ec (2 * k) P = Inf"
    using ecc.zm_double_swap [OF on, of k] ecc.zm_zero [OF on] by simp
  then have "ec_times ec n P = P" using ecc.zm_add [OF on, of "2 * k" 1] ecc.zm_1 [OF on] n by simp
  then show False using assms P by (simp add: in_order_def)
qed

lemma in_order_arep: "in_order ec n P \<Longrightarrow> arep ec (aff_of P) P"
  by (rule arep_aff_of [OF _ in_order_off_axis]) (auto simp: in_order_def)

lemma in_order_times: "in_order ec n P \<Longrightarrow> in_order ec n (ec_times ec k P)"
  by (rule ecn.zm_closed)

section \<open>Representatives of multiples\<close>

definition mul_rel :: "('z) curve_group_scheme \<Rightarrow> point \<Rightarrow> jpoint \<Rightarrow> int \<Rightarrow> bool" where
  "mul_rel ec P Q k \<longleftrightarrow> curve_ok ec \<and> ec_on ec P \<longrightarrow> jrep ec Q (ec_times ec k P)"

definition ord_rel :: "('z) curve_group_scheme \<Rightarrow> int \<Rightarrow> point \<Rightarrow> jpoint \<Rightarrow> int \<Rightarrow> bool" where
  "ord_rel ec n P Q k \<longleftrightarrow> in_order ec n P \<longrightarrow> jrep ec Q (ec_times ec k P)"

definition aff_rel :: "('z) curve_group_scheme \<Rightarrow> int \<Rightarrow> point \<Rightarrow> apoint \<Rightarrow> int \<Rightarrow> bool" where
  "aff_rel ec n P A k \<longleftrightarrow> in_order ec n P \<longrightarrow> arep ec A (ec_times ec k P)"

text \<open>
  What the multiplication algorithms need of the point arithmetic, and nothing else: a relation
  between representatives and multipliers that addition, doubling and negation respect.
\<close>

locale mult_rep =
  fixes rep :: "'q \<Rightarrow> int \<Rightarrow> bool" and radd :: "'q \<Rightarrow> 'q \<Rightarrow> 'q" and rdbl :: "'q \<Rightarrow> 'q"
    and rneg :: "'q \<Rightarrow> 'q" and rinf :: 'q
  assumes rep_inf: "rep rinf 0"
    and rep_add: "rep Q j \<Longrightarrow> rep R k \<Longrightarrow> rep (radd Q R) (j + k)"
    and rep_dbl: "rep Q k \<Longrightarrow> rep (rdbl Q) (2 * k)"
    and rep_neg: "rep Q k \<Longrightarrow> rep (rneg Q) (- k)"
begin

lemma rep_dbls: "rep Q k \<Longrightarrow> rep ((rdbl ^^ w) Q) (2 ^ w * k)"
proof (induction w)
  case (Suc w)
  then show ?case using rep_dbl [of "(rdbl ^^ w) Q" "2 ^ w * k"] by (simp add: mult.assoc)
qed simp

lemma window_fold:
  assumes "rep R v" and "\<And>d. d \<in> set ds \<Longrightarrow> returns (look d) (\<lambda>t. rep t d)"
  shows "returns (rfold (\<lambda>R d. rbind (look d) (\<lambda>t. Inr (radd ((rdbl ^^ w) R) t))) R ds)
           (\<lambda>R. rep R (foldl (\<lambda>k d. 2 ^ w * k + d) v ds))"
proof (rule returns_rfold [where I = rep], rule assms(1))
  fix d R k assume d: "d \<in> set ds" and R: "rep R k"
  show "returns (rbind (look d) (\<lambda>t. Inr (radd ((rdbl ^^ w) R) t))) (\<lambda>s'. rep s' (2 ^ w * k + d))"
    by (rule returns_rbind [OF assms(2) [OF d]]) (simp add: rep_add rep_dbls R)
qed

text \<open>A table filled two entries at a time: twice an earlier entry, then one more.\<close>

lemma fill_step:
  assumes "\<And>i. i < length T \<Longrightarrow> rep (T ! i) (int i)" and "length T = 2 * k + 2" and "rep Q 1"
    and "T' = T @ [rdbl (T ! (k + 1))]"
  shows "\<And>i. i < length (T' @ [radd (last T') Q]) \<Longrightarrow> rep ((T' @ [radd (last T') Q]) ! i) (int i)"
proof -
  have "rep (rdbl (T ! (k + 1))) (2 * int (k + 1))" using assms(1) [of "k + 1"] assms(2) by (intro rep_dbl) simp
  then have d: "rep (rdbl (T ! (k + 1))) (int (length T))" using assms(2) by (simp add: algebra_simps)
  have 1: "\<And>i. i < length T' \<Longrightarrow> rep (T' ! i) (int i)"
    unfolding assms(4) by (rule all_nth_snoc [where P = "\<lambda>i t. rep t (int i)"]) (use assms(1) d in simp_all)
  have l: "rep (radd (last T') Q) (int (length T'))"
    using rep_add [OF d assms(3)] assms(4) by (simp add: add.commute)
  show "\<And>i. i < length (T' @ [radd (last T') Q]) \<Longrightarrow> rep ((T' @ [radd (last T') Q]) ! i) (int i)"
    by (rule all_nth_snoc [where P = "\<lambda>i t. rep t (int i)"]) (use 1 l in simp_all)
qed

end

text \<open>Tables of affine points, added by mixed addition.\<close>

locale mult_table = mult_rep +
  fixes arel :: "'a \<Rightarrow> int \<Rightarrow> bool" and madd :: "'q \<Rightarrow> 'a \<Rightarrow> 'q" and lift :: "'a \<Rightarrow> 'q"
  assumes rep_madd: "rep Q j \<Longrightarrow> arel A k \<Longrightarrow> rep (madd Q A) (j + k)"
    and rep_lift: "arel A k \<Longrightarrow> rep (lift A) k"
begin

lemma mixed_window_fold:
  assumes "rep R v" and "\<And>d. d \<in> set ds \<Longrightarrow> returns (look d) (\<lambda>t. arel t d)"
  shows "returns (rfold (\<lambda>R d. rbind (look d) (\<lambda>t. Inr (madd ((rdbl ^^ w) R) t))) R ds)
           (\<lambda>R. rep R (foldl (\<lambda>k d. 2 ^ w * k + d) v ds))"
proof (rule returns_rfold [where I = rep], rule assms(1))
  fix d R k assume d: "d \<in> set ds" and R: "rep R k"
  show "returns (rbind (look d) (\<lambda>t. Inr (madd ((rdbl ^^ w) R) t))) (\<lambda>s'. rep s' (2 ^ w * k + d))"
    by (rule returns_rbind [OF assms(2) [OF d]]) (simp add: rep_madd rep_dbls R)
qed

end

interpretation mj: mult_rep "mul_rel ec P" "add_jac ec" "double_jac ec" "negate_jac ec" INFJ
  for ec :: "('z) curve_group_scheme" and P
proof (unfold_locales, goal_cases)
  case 1 show ?case by (simp add: mul_rel_def jrep_INFJ)
next
  case (2 Q j R k) then show ?case by (auto simp: mul_rel_def ecc.zm_add intro: jrep_add_jac)
next
  case (3 Q k) then show ?case by (auto simp: mul_rel_def ecc.zm_Suc_double intro: jrep_double_jac)
next
  case (4 Q k) then show ?case by (auto simp: mul_rel_def ecc.zm_minus intro: jrep_negate_jac)
qed

interpretation mo: mult_table "ord_rel ec n P" "add_jac ec" "double_jac ec" "negate_jac ec" INFJ
  "aff_rel ec n P" "add_jac_aff ec" jac_from_aff
  for ec :: "('z) curve_group_scheme" and n P
proof (unfold_locales, goal_cases)
  case 1 show ?case by (simp add: ord_rel_def jrep_INFJ)
next
  case (2 Q j R k) then show ?case
    using ecn.zm_add [of ec n P j k] by (auto simp: ord_rel_def in_order_def intro: jrep_add_jac)
next
  case (3 Q k) then show ?case
    using ecn.zm_Suc_double [of ec n P k] by (auto simp: ord_rel_def in_order_def intro: jrep_double_jac)
next
  case (4 Q k) then show ?case
    using ecn.zm_minus [of ec n P k] by (auto simp: ord_rel_def in_order_def intro: jrep_negate_jac)
next
  case (5 Q j A k) then show ?case
    using ecn.zm_add [of ec n P j k]
    by (auto simp: ord_rel_def aff_rel_def in_order_def intro: jrep_add_jac_aff)
next
  case (6 A k) then show ?case
    by (auto simp: ord_rel_def aff_rel_def in_order_def intro: jrep_jac_from_aff)
qed

lemma mul_rel_ord_rel: "mul_rel ec P Q k \<Longrightarrow> ord_rel ec n P Q k"
  by (simp add: mul_rel_def ord_rel_def in_order_def)

lemma aff_rel_negate: "aff_rel ec n P A k \<Longrightarrow> aff_rel ec n P (negate ec A) (- k)"
  unfolding aff_rel_def using arep_negate [of ec A] ecn.zm_minus [of ec n P k] by (auto simp: in_order_def)

lemma aff_rel_aff_of: "aff_rel ec n P (aff_of (ec_times ec k P)) k"
  unfolding aff_rel_def by (blast intro: in_order_arep in_order_times)

lemma mul_rel_1: "jrep ec Q P \<Longrightarrow> mul_rel ec P Q 1"
  by (simp add: mul_rel_def ecc.zm_1)

lemma mul_relD: "curve_ok ec \<Longrightarrow> ec_on ec P \<Longrightarrow> mul_rel ec P Q k \<Longrightarrow> jrep ec Q (ec_times ec k P)"
  by (simp add: mul_rel_def)

lemma ord_relD: "in_order ec n P \<Longrightarrow> ord_rel ec n P Q k \<Longrightarrow> jrep ec Q (ec_times ec k P)"
  by (simp add: ord_rel_def)

section \<open>The point a triple stands for\<close>

definition jac_abs :: "('z) curve_group_scheme \<Rightarrow> jpoint \<Rightarrow> point" where
  "jac_abs ec Q =
     (if snd (snd Q) = 0 then Inf
      else let A = aff_from_z_inv ec Q (inv_mod (snd (snd Q)) (ec_p ec)) in Pt (fst A) (snd A))"

lemma jac_abs_eq:
  assumes "curve_ok ec" "jrep ec Q P"
  shows "jac_abs ec Q = P"
proof (cases P)
  case Inf
  then show ?thesis using assms by (cases Q) (simp add: jac_abs_def)
next
  case (Pt x y)
  then have "P \<noteq> Inf" by simp
  note z = jrep_z_inverse [OF assms this]
  have "aff_from_z_inv ec Q (inv_mod (snd (snd Q)) (ec_p ec)) = (x, y)"
    using aff_from_z_inv_correct [OF assms(1) _ z(2)] assms(2) Pt by simp
  then show ?thesis using z(4) Pt by (simp add: jac_abs_def)
qed

text \<open>A reduced representative of a point that the odd number \<open>n\<close> annihilates.\<close>

definition jgood :: "('z) curve_group_scheme \<Rightarrow> int \<Rightarrow> jpoint \<Rightarrow> bool" where
  "jgood ec n Q \<longleftrightarrow> in_order ec n (jac_abs ec Q) \<and> jrep ec Q (jac_abs ec Q)"

lemma jgoodI: "in_order ec n P \<Longrightarrow> jrep ec Q P \<Longrightarrow> jgood ec n Q \<and> jac_abs ec Q = P"
  using jac_abs_eq [of ec Q P] by (simp add: jgood_def in_order_def)

lemma jgoodD:
  "jgood ec n Q \<Longrightarrow> in_order ec n (jac_abs ec Q)" "jgood ec n Q \<Longrightarrow> jrep ec Q (jac_abs ec Q)"
  "jgood ec n Q \<Longrightarrow> curve_ok ec"
  by (simp_all add: jgood_def in_order_def)

lemma jgood_add_jac:
  assumes "jgood ec n Q" "jgood ec n R"
  shows "jgood ec n (add_jac ec Q R) \<and> jac_abs ec (add_jac ec Q R) = ec_plus ec (jac_abs ec Q) (jac_abs ec R)"
  by (rule jgoodI)
    (use assms jgoodD in \<open>blast intro: ecn.add_closed jrep_add_jac\<close>)+

end
