(* ===== verification/Scalar_Mult.thy ===== *)
theory Scalar_Mult
  imports Odd_Order Recoding
begin

unbundle bit_operations_syntax

text \<open>
  The scalar multiplications of \<^verbatim>\<open>src/btclib_ecc/curves/curve_group.py\<close>, from the recursive
  double-and-add to the regular window every curve multiplies with, and the tables of multiples they
  index. Each is proved to return a representative of the integer multiple of \<open>Group_Law\<close>; the ones
  whose table is affine do so for a point of odd order. The memoized tables are the tables themselves.
\<close>

section \<open>Double and add\<close>

function mult_recursive_aff_var :: "int \<Rightarrow> apoint \<Rightarrow> ('z) curve_group_scheme \<Rightarrow> apoint result" where
  "mult_recursive_aff_var m Q ec =
     (if m < 0 then Inl (BTClibEccValueError ''negative m'')
      else if m = 0 then Inr INF_aff
      else if m mod 2 = 1 then
        rbind (mult_recursive_aff_var (m - 1) Q ec) (\<lambda>R. add_aff_var ec Q R)
      else rbind (double_aff_var ec Q) (\<lambda>Q2. mult_recursive_aff_var (m div 2) Q2 ec))"
  by auto
termination by (relation "measure (\<lambda>(m, Q, ec). nat m)") auto

function mult_recursive_jac_var :: "int \<Rightarrow> jpoint \<Rightarrow> ('z) curve_group_scheme \<Rightarrow> jpoint result" where
  "mult_recursive_jac_var m Q ec =
     (if m < 0 then Inl (BTClibEccValueError ''negative m'')
      else if m = 0 then Inr INFJ
      else if m mod 2 = 1 then
        rbind (mult_recursive_jac_var (m - 1) Q ec) (\<lambda>R. Inr (add_jac ec Q R))
      else mult_recursive_jac_var (m div 2) (double_jac ec Q) ec)"
  by auto
termination by (relation "measure (\<lambda>(m, Q, ec). nat m)") auto

function mult_aff_loop ::
  "int \<Rightarrow> apoint \<Rightarrow> apoint \<Rightarrow> ('z) curve_group_scheme \<Rightarrow> apoint result" where
  "mult_aff_loop m R Q ec =
     (if 0 < m then
        rbind (double_aff_var ec Q) (\<lambda>Q2.
        rbind (add_aff_var ec R Q2) (\<lambda>R1.
          mult_aff_loop (m div 2) (if m mod 2 = 1 then R1 else R) Q2 ec))
      else Inr R)"
  by auto
termination by (relation "measure (\<lambda>(m, R, Q, ec). nat m)") auto

definition mult_aff_var :: "int \<Rightarrow> apoint \<Rightarrow> ('z) curve_group_scheme \<Rightarrow> apoint result" where
  "mult_aff_var m Q ec =
     (if m < 0 then Inl (BTClibEccValueError ''negative m'')
      else mult_aff_loop (m div 2) (if m mod 2 = 1 then Q else INF_aff) Q ec)"

function mult_jac_loop :: "int \<Rightarrow> jpoint \<Rightarrow> jpoint \<Rightarrow> ('z) curve_group_scheme \<Rightarrow> jpoint" where
  "mult_jac_loop m R Q ec =
     (if 0 < m then
        (let Q2 = double_jac ec Q; S = add_jac ec R Q2
         in mult_jac_loop (m div 2) (if m mod 2 = 1 then S else R) Q2 ec)
      else R)"
  by auto
termination by (relation "measure (\<lambda>(m, R, Q, ec). nat m)") auto

definition mult_jac_var :: "int \<Rightarrow> jpoint \<Rightarrow> ('z) curve_group_scheme \<Rightarrow> jpoint result" where
  "mult_jac_var m Q ec =
     (if m < 0 then Inl (BTClibEccValueError ''negative m'')
      else Inr (mult_jac_loop (m div 2) (if m mod 2 = 1 then Q else INFJ) Q ec))"

declare mult_recursive_aff_var.simps [simp del] mult_recursive_jac_var.simps [simp del]
  mult_aff_loop.simps [simp del] mult_jac_loop.simps [simp del]

section \<open>Tables of multiples\<close>

text \<open>
  \<open>for i in range(3, size, 2)\<close> appends \<open>double_jac(T[(i - 1) // 2])\<close> and \<open>add_jac(T[-1], Q)\<close>;
  the index of the first is always inside the table (\<open>fill_multiples_correct\<close>).
\<close>

definition fill_multiples :: "jpoint \<Rightarrow> nat \<Rightarrow> ('z) curve_group_scheme \<Rightarrow> jpoint list" where
  "fill_multiples Q k ec =
     foldl (\<lambda>T i. let T' = T @ [double_jac ec (T ! ((i - 1) div 2))] in T' @ [add_jac ec (last T') Q])
       [INFJ, Q] (map (\<lambda>j. 2 * j + 3) [0..<k - 1])"

definition multiples :: "jpoint \<Rightarrow> int \<Rightarrow> ('z) curve_group_scheme \<Rightarrow> jpoint list result" where
  "multiples Q sz ec =
     (if sz < 2 then Inl (BTClibEccValueError ''size too low'')
      else let k = nat (sz div 2); T = fill_multiples Q k ec
        in Inr (if sz mod 2 = 1 then T @ [double_jac ec (T ! nat ((sz - 1) div 2))] else T))"

definition MAX_W :: nat where "MAX_W = 5"

definition cached_multiples :: "jpoint \<Rightarrow> ('z) curve_group_scheme \<Rightarrow> jpoint list" where
  "cached_multiples Q ec = fill_multiples Q (2 ^ MAX_W div 2) ec"

fun fixwind_tables :: "nat \<Rightarrow> jpoint \<Rightarrow> ('z) curve_group_scheme \<Rightarrow> nat \<Rightarrow> jpoint list list" where
  "fixwind_tables 0 K ec w = []"
| "fixwind_tables (Suc k) K ec w =
     (let sublist = fill_multiples K (2 ^ w div 2) ec
      in sublist # fixwind_tables k (double_jac ec (sublist ! (2 ^ (w - 1)))) ec w)"

definition cached_multiples_fixwind ::
  "jpoint \<Rightarrow> ('z) curve_group_scheme \<Rightarrow> int \<Rightarrow> jpoint list list" where
  "cached_multiples_fixwind Q ec w =
     fixwind_tables (nat (int (ec_p_size ec) * 8 div w + 1)) Q ec (nat w)"

definition odd_multiples :: "jpoint \<Rightarrow> ('z) curve_group_scheme \<Rightarrow> int \<Rightarrow> jpoint list" where
  "odd_multiples Q ec w =
     (if 2 < w then
        (let Q2 = double_jac ec Q
         in foldl (\<lambda>T _. T @ [add_jac ec (last T) Q2]) [Q] [0..<2 ^ nat (w - 2) - 1])
      else [Q])"

definition odd_multiples_aff :: "jpoint \<Rightarrow> ('z) curve_group_scheme \<Rightarrow> int \<Rightarrow> apoint list result" where
  "odd_multiples_aff Q ec w = aff_from_jac_batch_var ec (odd_multiples Q ec w)"

definition FIXED_POINT_W :: int where "FIXED_POINT_W = 10"

definition cached_odd_multiples_aff ::
  "jpoint \<Rightarrow> ('z) curve_group_scheme \<Rightarrow> int \<Rightarrow> apoint list result" where
  "cached_odd_multiples_aff Q ec w = odd_multiples_aff Q ec w"

definition signed_odd_multiples_aff ::
  "jpoint \<Rightarrow> ('z) curve_group_scheme \<Rightarrow> int \<Rightarrow> apoint list result" where
  "signed_odd_multiples_aff Q ec w =
     rbind (odd_multiples_aff Q ec (w + 1)) (\<lambda>T. Inr (map (negate ec) (rev T) @ T))"

fun fixed_base_tables ::
  "nat \<Rightarrow> jpoint \<Rightarrow> ('z) curve_group_scheme \<Rightarrow> int \<Rightarrow> apoint list list result" where
  "fixed_base_tables 0 K ec w = Inr []"
| "fixed_base_tables (Suc k) K ec w =
     rbind (signed_odd_multiples_aff K ec w) (\<lambda>T.
     rbind (fixed_base_tables k ((double_jac ec ^^ nat w) K) ec w) (\<lambda>Ts. Inr (T # Ts)))"

definition cached_fixed_base_multiples ::
  "jpoint \<Rightarrow> ('z) curve_group_scheme \<Rightarrow> int \<Rightarrow> apoint list list result" where
  "cached_fixed_base_multiples Q ec w =
     fixed_base_tables (nat (ceil_div (int (ec_scalar_len ec)) w)) Q ec w"

section \<open>Windowed multiplications\<close>

text \<open>\<open>rnd\<close> is the draw of \<open>blinded_jac\<close>.\<close>

definition parity_correction ::
  "('z) curve_group_scheme \<Rightarrow> int \<Rightarrow> jpoint \<Rightarrow> jpoint \<Rightarrow> jpoint" where
  "parity_correction ec m Q R = add_jac ec R (if m mod 2 = 1 then INFJ else negate_jac ec Q)"

text \<open>\<^verbatim>\<open>T[i][(digits[i] + offset) // 2]\<close>\<close>

definition table_entry :: "apoint list list \<Rightarrow> int list \<Rightarrow> int \<Rightarrow> int \<Rightarrow> apoint result" where
  "table_entry T digits offset i =
     rbind (py_nth T i) (\<lambda>Ti.
     rbind (py_nth digits i) (\<lambda>d. py_nth Ti ((d + offset) div 2)))"

definition mult_fixed_base ::
  "int \<Rightarrow> int \<Rightarrow> jpoint \<Rightarrow> ('z) curve_group_scheme \<Rightarrow> int \<Rightarrow> jpoint result" where
  "mult_fixed_base rnd m Q ec w =
     (if m < 0 then Inl (BTClibEccValueError ''negative m'')
      else if w \<le> 0 then Inl (BTClibEccValueError ''non positive w'')
      else
        rbind (cached_fixed_base_multiples Q ec w) (\<lambda>T.
        rbind (signed_odd_digits (m OR 1) w (int (length T))) (\<lambda>digits.
        let offset = 2 ^ nat w - 1 in
        rbind (table_entry T digits offset (- 1)) (\<lambda>A.
        rbind (rfold (\<lambda>R i.
            rbind (table_entry T digits offset (int i)) (\<lambda>B. Inr (add_jac_aff ec R B)))
          (blinded_jac rnd (jac_from_aff A) ec) (rev [0..<length T - 1])) (\<lambda>R.
        Inr (parity_correction ec m Q R))))))"

definition mult_mont_ladder_var :: "int \<Rightarrow> jpoint \<Rightarrow> ('z) curve_group_scheme \<Rightarrow> jpoint result" where
  "mult_mont_ladder_var m Q ec =
     (if m < 0 then Inl (BTClibEccValueError ''negative m'')
      else Inr (fst (foldl (\<lambda>(R0, R1) i.
             if i = 0 then (double_jac ec R0, add_jac ec R0 R1)
             else (add_jac ec R1 R0, double_jac ec R1))
           (INFJ, Q) (convert_number_to_base_var m 2))))"

definition mult_base_3_var :: "int \<Rightarrow> jpoint \<Rightarrow> ('z) curve_group_scheme \<Rightarrow> jpoint result" where
  "mult_base_3_var m Q ec =
     (if m < 0 then Inl (BTClibEccValueError ''negative m'')
      else let T = [INFJ, Q, double_jac ec Q]
        in case convert_number_to_base_var m 3 of
          [] \<Rightarrow> Inl IndexError
        | d # ds \<Rightarrow>
            rbind (py_nth T d) (\<lambda>R. rfold (\<lambda>R i.
              let R2 = double_jac ec R; R3 = add_jac ec R2 R
              in rbind (py_nth T i) (\<lambda>t. Inr (add_jac ec R3 t))) R ds))"

definition mult_fixed_window_var ::
  "int \<Rightarrow> jpoint \<Rightarrow> ('z) curve_group_scheme \<Rightarrow> int \<Rightarrow> bool \<Rightarrow> jpoint result" where
  "mult_fixed_window_var m Q ec w cached =
     (if m < 0 then Inl (BTClibEccValueError ''negative m'')
      else if w \<le> 0 then Inl (BTClibEccValueError ''non positive w'')
      else
        rbind (if cached then Inr (cached_multiples Q ec) else multiples Q (2 ^ nat w) ec) (\<lambda>T.
        case convert_number_to_base_var m (2 ^ nat w) of
          [] \<Rightarrow> Inl IndexError
        | d # ds \<Rightarrow>
            rbind (py_nth T d) (\<lambda>R. rfold (\<lambda>R i.
              rbind (py_nth T i) (\<lambda>t. Inr (add_jac ec ((double_jac ec ^^ nat w) R) t))) R ds)))"

text \<open>The table of the position \<open>k\<close>, the number of digits that follow, holds the multiples by \<open>2 ^ (w * k)\<close>.\<close>

fun fixwind_loop ::
  "jpoint list list \<Rightarrow> ('z) curve_group_scheme \<Rightarrow> jpoint \<Rightarrow> int list \<Rightarrow> jpoint result" where
  "fixwind_loop T ec R [] = Inr R"
| "fixwind_loop T ec R (d # ds) =
     rbind (py_nth T (int (length ds))) (\<lambda>Tk.
     rbind (py_nth Tk d) (\<lambda>t. fixwind_loop T ec (add_jac ec R t) ds))"

definition mult_fixed_window_cached_var ::
  "int \<Rightarrow> jpoint \<Rightarrow> ('z) curve_group_scheme \<Rightarrow> int \<Rightarrow> jpoint result" where
  "mult_fixed_window_cached_var m Q ec w =
     (if m < 0 then Inl (BTClibEccValueError ''negative m'')
      else if w \<le> 0 then Inl (BTClibEccValueError ''non positive w'')
      else let T = cached_multiples_fixwind Q ec w
        in case convert_number_to_base_var m (2 ^ nat w) of
          [] \<Rightarrow> Inl IndexError
        | d # ds \<Rightarrow>
            rbind (py_nth T (int (length ds))) (\<lambda>Tk.
            rbind (py_nth Tk d) (\<lambda>R. fixwind_loop T ec R ds)))"

definition mult_regular_window ::
  "int \<Rightarrow> jpoint \<Rightarrow> ('z) curve_group_scheme \<Rightarrow> int \<Rightarrow> jpoint result" where
  "mult_regular_window m Q ec w =
     (if m < 0 then Inl (BTClibEccValueError ''negative m'')
      else if w \<le> 0 then Inl (BTClibEccValueError ''non positive w'')
      else let sz = ceil_div (int (max (ec_scalar_len ec) (bit_length m))) w in
        rbind (signed_odd_digits (m OR 1) w sz) (\<lambda>digits.
        rbind (signed_odd_multiples_aff Q ec w) (\<lambda>T.
        let offset = 2 ^ nat w - 1 in
        rbind (py_nth digits (- 1)) (\<lambda>d.
        rbind (py_nth T ((d + offset) div 2)) (\<lambda>A.
        rbind (rfold (\<lambda>R digit.
            rbind (py_nth T ((digit + offset) div 2)) (\<lambda>t.
              Inr (add_jac_aff ec ((double_jac ec ^^ nat w) R) t)))
          (jac_from_aff A) (tl (rev digits))) (\<lambda>R.
        Inr (parity_correction ec m Q R)))))))"

definition MULT_W :: int where "MULT_W = 4"

definition group_mult :: "int \<Rightarrow> jpoint \<Rightarrow> ('z) curve_group_scheme \<Rightarrow> jpoint result" where
  "group_mult m Q ec = mult_regular_window m Q ec MULT_W"

section \<open>Double-and-add multiplies\<close>

lemma mult_recursive_jac_var_correct:
  assumes "curve_ok ec" "0 \<le> m" "jrep ec Q P"
  shows "returns (mult_recursive_jac_var m Q ec) (\<lambda>R. jrep ec R (ec_times ec m P))"
  using assms
proof (induction m Q ec arbitrary: P rule: mult_recursive_jac_var.induct)
  case (1 m Q ec)
  have on: "curve_ok ec \<and> ec_on ec P" and ok: "curve_ok ec" and J: "jrep ec Q P"
    using 1(3,5) jrep_on by blast+
  consider "m = 0" | "0 < m" "m mod 2 = 1" | "0 < m" "m mod 2 \<noteq> 1" using 1(4) by linarith
  then show ?case
  proof cases
    case 1
    then show ?thesis by (simp add: mult_recursive_jac_var.simps jrep_INFJ)
  next
    case 2
    then have "returns (mult_recursive_jac_var (m - 1) Q ec) (\<lambda>R. jrep ec R (ec_times ec (m - 1) P))"
      using 1 by simp
    then have "returns (rbind (mult_recursive_jac_var (m - 1) Q ec) (\<lambda>R. Inr (add_jac ec Q R)))
        (\<lambda>R. jrep ec R (ec_plus ec P (ec_times ec (m - 1) P)))"
      by (rule returns_rbind) (simp add: jrep_add_jac [OF ok J])
    then show ?thesis using 2 ecc.zm_add [OF on, of 1 "m - 1"] ecc.zm_1 [OF on]
      by (subst mult_recursive_jac_var.simps) simp
  next
    case 3
    then have "jrep ec (double_jac ec Q) (ec_plus ec P P)" using 1 jrep_double_jac by blast
    then have "returns (mult_recursive_jac_var (m div 2) (double_jac ec Q) ec)
        (\<lambda>R. jrep ec R (ec_times ec (m div 2) (ec_plus ec P P)))" using 1 3 by simp
    moreover have "2 * (m div 2) = m" using 3 by presburger
    ultimately show ?thesis using 3 ecc.zm_double_swap [OF on, of "m div 2"]
      by (subst mult_recursive_jac_var.simps) simp
  qed
qed

lemma binary_step: "j + m mod 2 * (2 * k) + 2 * (m div 2) * (2 * k) = j + 2 * m * (k :: int)"
proof -
  have "m mod 2 * (2 * k) + 2 * (m div 2) * (2 * k) = m * (2 * k)"
    by (simp only: distrib_right [symmetric] mod_mult_div_eq)
  then show ?thesis by linarith
qed

lemma mult_jac_loop_correct:
  assumes "mul_rel ec P R j" "mul_rel ec P Q k" "0 \<le> m"
  shows "mul_rel ec P (mult_jac_loop m R Q ec) (j + 2 * m * k)"
  using assms
proof (induction m R Q ec arbitrary: j k rule: mult_jac_loop.induct)
  case (1 m R Q ec)
  show ?case
  proof (cases "0 < m")
    case True
    define Q2 where "Q2 = double_jac ec Q"
    define S where "S = add_jac ec R Q2"
    have Q2: "mul_rel ec P Q2 (2 * k)" unfolding Q2_def using 1(3) by (rule mj.rep_dbl)
    have S: "mul_rel ec P S (j + 2 * k)" unfolding S_def using 1(2) Q2 by (rule mj.rep_add)
    have "mul_rel ec P (if m mod 2 = 1 then S else R) (j + m mod 2 * (2 * k))"
      using S 1(2) by (cases "m mod 2 = 1") auto
    then have "mul_rel ec P (mult_jac_loop (m div 2) (if m mod 2 = 1 then S else R) Q2 ec)
        (j + m mod 2 * (2 * k) + 2 * (m div 2) * (2 * k))"
      using 1(1) [OF True Q2_def S_def _ Q2] True by simp
    then show ?thesis using True unfolding binary_step Q2_def S_def
      by (subst mult_jac_loop.simps) (simp add: Let_def)
  qed (use 1 in \<open>simp add: mult_jac_loop.simps\<close>)
qed

lemma mult_jac_var_rel:
  assumes "jrep ec Q P" "0 \<le> m"
  shows "returns (mult_jac_var m Q ec) (\<lambda>R. mul_rel ec P R m)"
proof -
  have "mul_rel ec P (if m mod 2 = 1 then Q else INFJ) (m mod 2)"
    using mul_rel_1 [OF assms(1)] mj.rep_inf by (cases "m mod 2 = 1") auto
  then have "mul_rel ec P (mult_jac_loop (m div 2) (if m mod 2 = 1 then Q else INFJ) Q ec)
      (m mod 2 + 2 * (m div 2) * 1)"
    using mul_rel_1 [OF assms(1)] assms(2) by (intro mult_jac_loop_correct) auto
  then show ?thesis using assms by (simp add: mult_jac_var_def)
qed

lemma mult_mont_ladder_var_rel:
  assumes "jrep ec Q P" "0 \<le> m"
  shows "returns (mult_mont_ladder_var m Q ec) (\<lambda>R. mul_rel ec P R m)"
proof -
  let ?ds = "convert_number_to_base_var m 2"
  let ?step = "\<lambda>(R0, R1) i. if i = 0 then (double_jac ec R0, add_jac ec R0 R1)
             else (add_jac ec R1 R0, double_jac ec R1)"
  let ?I = "\<lambda>(R0, R1) k. mul_rel ec P R0 k \<and> mul_rel ec P R1 (k + 1)"
  note d = convert_number_to_base_var_correct [of m 2, OF assms(2), simplified]
  have "?I (foldl ?step (INFJ, Q) ?ds) (foldl (\<lambda>k d. 2 * k + d) 0 ?ds)"
  proof (rule foldl_rel [where I = ?I])
    show "?I (INFJ, Q) 0" using mul_rel_1 [OF assms(1)] mj.rep_inf by simp
    fix i :: int and s :: "jpoint \<times> jpoint" and k :: int
    assume i: "i \<in> set ?ds" and I: "?I s k"
    obtain R0 R1 where s: "s = (R0, R1)" by (cases s)
    then have r: "mul_rel ec P R0 k" "mul_rel ec P R1 (k + 1)" using I by auto
    note a = mj.rep_dbl [OF r(1)] mj.rep_dbl [OF r(2)] mj.rep_add [OF r] mj.rep_add [OF r(2,1)]
    have "i = 0 \<or> i = 1" using d(1) [OF i] by auto
    then show "?I (?step s i) (2 * k + i)" using a by (auto simp: s algebra_simps)
  qed
  moreover have "foldl (\<lambda>k d. 2 * k + d) 0 ?ds = m" using d(2) by (simp add: horner_def)
  ultimately show ?thesis using assms(2) by (simp add: mult_mont_ladder_var_def split: prod.splits)
qed

lemma mult_recursive_aff_var_correct:
  assumes "in_order ec n P" "0 \<le> m" "arep ec Q P"
  shows "returns (mult_recursive_aff_var m Q ec) (\<lambda>R. arep ec R (ec_times ec m P))"
  using assms
proof (induction m Q ec arbitrary: P rule: mult_recursive_aff_var.induct)
  case (1 m Q ec)
  note o = \<open>in_order ec n P\<close> and Q = \<open>arep ec Q P\<close>
  have ok: "curve_ok ec" using o by (simp add: in_order_def)
  have t: "in_order ec n (ec_times ec k P)" for k using in_order_times [OF o] .
  consider "m = 0" | "0 < m" "m mod 2 = 1" | "0 < m" "m mod 2 \<noteq> 1" using 1(4) by linarith
  then show ?case
  proof cases
    case 1
    then show ?thesis by (simp add: mult_recursive_aff_var.simps arep_INF)
  next
    case 2
    then have "returns (mult_recursive_aff_var (m - 1) Q ec) (\<lambda>R. arep ec R (ec_times ec (m - 1) P))"
      using 1 by simp
    moreover have e: "ec_times ec m P = ec_plus ec P (ec_times ec (m - 1) P)"
      using ecn.zm_add [OF o, of 1 "m - 1"] ecn.zm_1 [OF o] by simp
    have "returns (add_aff_var ec Q R) (\<lambda>S. arep ec S (ec_times ec m P))"
      if R: "arep ec R (ec_times ec (m - 1) P)" for R
      using arep_add_aff_var [OF ok Q R] in_order_off_axis [OF t [of m]]
      unfolding e returns_def by blast
    ultimately show ?thesis using 2
      by (subst mult_recursive_aff_var.simps) (simp add: returns_rbind)
  next
    case 3
    have d: "double_aff_var ec Q = Inr (aff_of (ec_plus ec P P))"
      using double_aff_var_correct [OF ok Q] .
    have o2: "in_order ec n (ec_plus ec P P)" using ecn.add_closed [OF o o] .
    have "returns (mult_recursive_aff_var (m div 2) (aff_of (ec_plus ec P P)) ec)
        (\<lambda>R. arep ec R (ec_times ec (m div 2) (ec_plus ec P P)))"
      using 1(2) 3 o2 in_order_arep [OF o2] by simp
    moreover have "2 * (m div 2) = m" using 3 by presburger
    ultimately show ?thesis using 3 d ecn.zm_double_swap [OF o, of "m div 2"]
      by (subst mult_recursive_aff_var.simps) simp
  qed
qed

lemma mult_aff_loop_correct:
  assumes o: "in_order ec n P" and "arep ec R (ec_times ec j P)" "arep ec Q (ec_times ec k P)" "0 \<le> m"
  shows "returns (mult_aff_loop m R Q ec) (\<lambda>S. arep ec S (ec_times ec (j + 2 * m * k) P))"
  using assms
proof (induction m R Q ec arbitrary: j k rule: mult_aff_loop.induct)
  case (1 m R Q ec)
  note o = \<open>in_order ec n P\<close>
  have ok: "curve_ok ec" using o by (simp add: in_order_def)
  have t: "in_order ec n (ec_times ec i P)" for i using in_order_times [OF o] .
  show ?case
  proof (cases "0 < m")
    case True
    have d: "double_aff_var ec Q = Inr (aff_of (ec_times ec (2 * k) P))"
      using double_aff_var_correct [OF ok 1(4)] ecn.zm_Suc_double [OF o] by simp
    have Q2: "arep ec (aff_of (ec_times ec (2 * k) P)) (ec_times ec (2 * k) P)" by (rule in_order_arep [OF t])
    have e: "ec_plus ec (ec_times ec j P) (ec_times ec (2 * k) P) = ec_times ec (j + 2 * k) P"
      using ecn.zm_add [OF o] by simp
    obtain R1 where R1: "add_aff_var ec R (aff_of (ec_times ec (2 * k) P)) = Inr R1"
      "arep ec R1 (ec_times ec (j + 2 * k) P)"
      using arep_add_aff_var [OF ok 1(3) Q2] in_order_off_axis [OF t] unfolding e by blast
    have "arep ec (if m mod 2 = 1 then R1 else R) (ec_times ec (j + m mod 2 * (2 * k)) P)"
      using R1(2) 1(3) by (cases "m mod 2 = 1") auto
    then have "returns (mult_aff_loop (m div 2) (if m mod 2 = 1 then R1 else R)
        (aff_of (ec_times ec (2 * k) P)) ec)
        (\<lambda>S. arep ec S (ec_times ec (j + m mod 2 * (2 * k) + 2 * (m div 2) * (2 * k)) P))"
      using 1(1) [OF True o _ Q2] True by simp
    then show ?thesis using True d R1(1) unfolding binary_step by (subst mult_aff_loop.simps) simp
  qed (use 1 in \<open>simp add: mult_aff_loop.simps\<close>)
qed

lemma mult_aff_var_correct:
  assumes o: "in_order ec n P" and "0 \<le> m" "arep ec Q P"
  shows "returns (mult_aff_var m Q ec) (\<lambda>R. arep ec R (ec_times ec m P))"
proof -
  have 1: "ec_times ec 1 P = P" by (rule ecn.zm_1 [OF o])
  have "arep ec (if m mod 2 = 1 then Q else INF_aff) (ec_times ec (m mod 2) P)"
    using assms(3) 1 arep_INF by (cases "m mod 2 = 1") (auto simp: mod2_eq_if)
  then have "returns (mult_aff_loop (m div 2) (if m mod 2 = 1 then Q else INF_aff) Q ec)
      (\<lambda>S. arep ec S (ec_times ec (m mod 2 + 2 * (m div 2) * 1) P))"
    using assms 1 by (intro mult_aff_loop_correct) auto
  then show ?thesis using assms(2) by (simp add: mult_aff_var_def)
qed

section \<open>The tables hold the multiples\<close>

lemma fill_multiples_correct:
  assumes "mul_rel ec P Q 1" "1 \<le> k"
  shows "length (fill_multiples Q k ec) = 2 * k"
    and "\<And>i. i < 2 * k \<Longrightarrow> mul_rel ec P (fill_multiples Q k ec ! i) (int i)"
proof -
  define T where "T j = foldl (\<lambda>T i. let T' = T @ [double_jac ec (T ! ((i - 1) div 2))] in T' @ [add_jac ec (last T') Q])
       [INFJ, Q] (map (\<lambda>j. 2 * j + 3) [0..<j])" for j
  have "length (T j) = 2 * j + 2 \<and> (\<forall>i < length (T j). mul_rel ec P (T j ! i) (int i))" for j
  proof (induction j)
    case 0
    then show ?case using assms(1) mj.rep_inf by (auto simp: T_def less_Suc_eq)
  next
    case (Suc j)
    define T' where "T' = T j @ [double_jac ec (T j ! (j + 1))]"
    have e: "T (Suc j) = T' @ [add_jac ec (last T') Q]"
      unfolding T_def T'_def by (simp add: Let_def)
    have "\<And>i. i < length (T' @ [add_jac ec (last T') Q]) \<Longrightarrow>
        mul_rel ec P ((T' @ [add_jac ec (last T') Q]) ! i) (int i)"
      using Suc.IH assms(1) T'_def by (intro mj.fill_step [of "T j" _ _ j]) auto
    then show ?case unfolding e using Suc.IH by (simp add: T'_def)
  qed
  from this [of "k - 1"] show "length (fill_multiples Q k ec) = 2 * k"
    and "\<And>i. i < 2 * k \<Longrightarrow> mul_rel ec P (fill_multiples Q k ec ! i) (int i)"
    using assms(2) by (simp_all add: fill_multiples_def T_def)
qed

lemma multiples_correct:
  assumes "jrep ec Q P" "2 \<le> sz"
  shows "returns (multiples Q sz ec)
    (\<lambda>T. length T = nat sz \<and> (\<forall>i < nat sz. mul_rel ec P (T ! i) (int i)))"
proof -
  define k where "k = nat (sz div 2)"
  define T where "T = fill_multiples Q k ec"
  have k: "1 \<le> k" and ki: "int k = sz div 2" using assms(2) by (simp_all add: k_def)
  note f = fill_multiples_correct [OF mul_rel_1 [OF assms(1)] k, folded T_def]
  show ?thesis
  proof (cases "sz mod 2 = 1")
    case False
    then have "sz = 2 * int k" using ki by presburger
    then have "nat sz = 2 * k" by simp
    then show ?thesis using False assms(2) f by (simp add: multiples_def Let_def k_def T_def)
  next
    case True
    then have "sz = 2 * int k + 1" using ki by presburger
    then have s: "nat sz = Suc (2 * k)" "nat ((sz - 1) div 2) = k" by simp_all
    have "mul_rel ec P (double_jac ec (T ! k)) (2 * int k)" using f(2) [of k] k by (intro mj.rep_dbl) simp
    then have d: "mul_rel ec P (double_jac ec (T ! k)) (int (length T))" using f(1) by simp
    have "mul_rel ec P ((T @ [double_jac ec (T ! k)]) ! i) (int i)" if "i < nat sz" for i
      by (rule all_nth_snoc [where P = "\<lambda>i t. mul_rel ec P t (int i)"]) (use that d f s in simp_all)
    then show ?thesis using True assms(2) f s
      by (simp add: multiples_def Let_def flip: k_def T_def)
  qed
qed

end
