(* ===== verification/Window_Mult.thy ===== *)
theory Window_Mult
  imports Scalar_Mult
begin

text \<open>
  Correctness of the table-driven multiplications of \<open>Scalar_Mult\<close>: the ternary and the fixed windows,
  the window with a table per position, and the two the library signs with, the regular window and
  the fixed base.
\<close>

section \<open>Ternary and fixed windows\<close>

lemma horner_foldl: "foldl (\<lambda>k d. b * k + d) d ds = horner b (d # ds)" for b :: int
  by (simp add: horner_def)

lemma mult_base_3_var_rel:
  assumes "jrep ec Q P" "0 \<le> m"
  shows "returns (mult_base_3_var m Q ec) (\<lambda>R. mul_rel ec P R m)"
proof -
  note c = convert_number_to_base_var_correct [of m 3, OF assms(2), simplified]
  define T where "T = [INFJ, Q, double_jac ec Q]"
  obtain d ds where ds: "convert_number_to_base_var m 3 = d # ds" using c(3) by (meson list.exhaust)
  have look: "returns (py_nth T i) (\<lambda>t. mul_rel ec P t i)" if "i \<in> set (d # ds)" for i
  proof -
    have "i = 0 \<or> i = 1 \<or> i = 2" using c(1) that ds by fastforce
    then show ?thesis using mul_rel_1 [OF assms(1)] mj.rep_inf mj.rep_dbl [OF mul_rel_1 [OF assms(1)]]
      by (auto simp: T_def)
  qed
  have step: "returns (let R2 = double_jac ec R; R3 = add_jac ec R2 R
      in rbind (py_nth T i) (\<lambda>t. Inr (add_jac ec R3 t))) (\<lambda>S. mul_rel ec P S (3 * k + i))"
    if i: "i \<in> set ds" and R: "mul_rel ec P R k" for R i k
  proof -
    have A: "mul_rel ec P (add_jac ec (double_jac ec R) R) (3 * k)"
      using mj.rep_add [OF mj.rep_dbl [OF R] R] by simp
    show ?thesis unfolding Let_def
    proof (rule returns_rbind [OF look])
      show "i \<in> set (d # ds)" using i by simp
      fix t assume "mul_rel ec P t i"
      then show "returns (Inr (add_jac ec (add_jac ec (double_jac ec R) R) t)) (\<lambda>S. mul_rel ec P S (3 * k + i))"
        using mj.rep_add [OF A] by simp
    qed
  qed
  have "returns (rbind (py_nth T d) (\<lambda>R. rfold (\<lambda>R i. let R2 = double_jac ec R; R3 = add_jac ec R2 R
      in rbind (py_nth T i) (\<lambda>t. Inr (add_jac ec R3 t))) R ds))
      (\<lambda>R. mul_rel ec P R (foldl (\<lambda>k d. 3 * k + d) d ds))"
    by (rule returns_rbind [OF look], simp) (rule returns_rfold, assumption, rule step)
  moreover have "foldl (\<lambda>k d. 3 * k + d) d ds = m" using c(2) by (simp add: horner_foldl ds)
  ultimately show ?thesis using assms(2) by (simp add: mult_base_3_var_def ds T_def Let_def)
qed

lemma fixed_window_table:
  assumes "jrep ec Q P" "1 \<le> w" "cached \<longrightarrow> nat w \<le> MAX_W"
  shows "returns (if cached then Inr (cached_multiples Q ec) else multiples Q (2 ^ nat w) ec)
    (\<lambda>T. \<forall>i. 0 \<le> i \<and> i < 2 ^ nat w \<longrightarrow> returns (py_nth T i) (\<lambda>t. mul_rel ec P t i))"
proof (cases cached)
  case True
  have f: "length (cached_multiples Q ec) = 32" "\<And>i. i < 32 \<Longrightarrow> mul_rel ec P (cached_multiples Q ec ! i) (int i)"
    using fill_multiples_correct [OF mul_rel_1 [OF assms(1)], of 16] by (simp_all add: cached_multiples_def MAX_W_def)
  have "(2::int) ^ nat w \<le> 2 ^ MAX_W" using assms(3) True by (intro power_increasing) auto
  then have "(2::int) ^ nat w \<le> 32" by (simp add: MAX_W_def)
  moreover have "returns (py_nth (cached_multiples Q ec) i) (\<lambda>t. mul_rel ec P t i)" if "0 \<le> i" "i < 32" for i
    using that f(1) f(2) [of "nat i"] by simp
  ultimately show ?thesis using True by simp
next
  case False
  have "(2::int) ^ nat w = 2 * 2 ^ nat (w - 1)" using assms(2) by (rule two_power_pred)
  then have "(2::int) \<le> 2 ^ nat w" by simp
  then have "returns (multiples Q (2 ^ nat w) ec) (\<lambda>T. length T = nat (2 ^ nat w)
      \<and> (\<forall>i < nat (2 ^ nat w). mul_rel ec P (T ! i) (int i)))"
    by (rule multiples_correct [OF assms(1)])
  moreover have "returns (py_nth T i) (\<lambda>t. mul_rel ec P t i)"
    if "length T = nat (2 ^ nat w) \<and> (\<forall>i < nat (2 ^ nat w). mul_rel ec P (T ! i) (int i))"
      "0 \<le> i" "i < 2 ^ nat w" for T i
  proof -
    have "nat i < nat (2 ^ nat w)" using that by simp
    then have "mul_rel ec P (T ! nat i) (int (nat i))" using that(1) by blast
    then show ?thesis using that by simp
  qed
  ultimately show ?thesis using False by (auto intro: returns_mono)
qed

lemma mult_fixed_window_var_rel:
  assumes "jrep ec Q P" "0 \<le> m" "1 \<le> w" "cached \<longrightarrow> nat w \<le> MAX_W"
  shows "returns (mult_fixed_window_var m Q ec w cached) (\<lambda>R. mul_rel ec P R m)"
proof -
  have b: "(2::int) \<le> 2 ^ nat w" using two_power_pred [OF assms(3)] by simp
  note c = convert_number_to_base_var_correct [of m "2 ^ nat w", OF assms(2) b]
  obtain d ds where ds: "convert_number_to_base_var m (2 ^ nat w) = d # ds" using c(3) by (meson list.exhaust)
  have v: "foldl (\<lambda>k d. 2 ^ nat w * k + d) d ds = m" using c(2) by (simp add: horner_foldl ds)
  have "returns (rbind (if cached then Inr (cached_multiples Q ec) else multiples Q (2 ^ nat w) ec) (\<lambda>T.
      rbind (py_nth T d) (\<lambda>R. rfold (\<lambda>R i.
        rbind (py_nth T i) (\<lambda>t. Inr (add_jac ec ((double_jac ec ^^ nat w) R) t))) R ds)))
      (\<lambda>R. mul_rel ec P R (foldl (\<lambda>k d. 2 ^ nat w * k + d) d ds))"
  proof (rule returns_rbind [OF fixed_window_table [OF assms(1,3,4)]])
    fix T assume T: "\<forall>i. 0 \<le> i \<and> i < 2 ^ nat w \<longrightarrow> returns (py_nth T i) (\<lambda>t. mul_rel ec P t i)"
    then have look: "\<And>i. i \<in> set (d # ds) \<Longrightarrow> returns (py_nth T i) (\<lambda>t. mul_rel ec P t i)"
      using c(1) unfolding ds by blast
    show "returns (rbind (py_nth T d) (\<lambda>R. rfold (\<lambda>R i.
        rbind (py_nth T i) (\<lambda>t. Inr (add_jac ec ((double_jac ec ^^ nat w) R) t))) R ds))
      (\<lambda>R. mul_rel ec P R (foldl (\<lambda>k d. 2 ^ nat w * k + d) d ds))"
    proof (rule returns_rbind)
      show "returns (py_nth T d) (\<lambda>t. mul_rel ec P t d)" by (rule look) simp
    qed (rule mj.window_fold, assumption, rule look, simp)
  qed
  then show ?thesis using assms(2,3) unfolding v by (simp add: mult_fixed_window_var_def ds)
qed

section \<open>Multiples of multiples\<close>

lemma mul_rel_times:
  assumes "curve_ok ec" "ec_on ec P" "mul_rel ec (ec_times ec c P) R i"
  shows "mul_rel ec P R (i * c)"
  using assms ecc.zm_mult [of ec P i c] ecc.zm_closed [of ec P c] by (simp add: mul_rel_def)

lemma aff_rel_times:
  assumes "in_order ec n P" "aff_rel ec n (ec_times ec c P) A i"
  shows "aff_rel ec n P A (i * c)"
  using assms ecn.zm_mult [of ec n P i c] in_order_times [of ec n P c] by (simp add: aff_rel_def)

lemma jrep_dbls:
  assumes "curve_ok ec" "jrep ec K P"
  shows "jrep ec ((double_jac ec ^^ w) K) (ec_times ec (2 ^ w) P)"
  using mj.rep_dbls [OF mul_rel_1 [OF assms(2)], of w] assms jrep_on [OF assms(2)] by (simp add: mul_rel_def)

lemma fixwind_tables_correct:
  assumes "curve_ok ec" "1 \<le> w"
  shows "jrep ec K P \<Longrightarrow> length (fixwind_tables k K ec w) = k
    \<and> (\<forall>j<k. \<forall>d. 0 \<le> d \<and> d < 2 ^ w \<longrightarrow>
         returns (py_nth (fixwind_tables k K ec w ! j) d) (\<lambda>t. mul_rel ec P t (d * 2 ^ (w * j))))"
proof (induction k arbitrary: K P)
  case (Suc k)
  have on: "ec_on ec P" using Suc.prems by (rule jrep_on)
  obtain v where v: "w = Suc v" using assms(2) by (cases w) auto
  define sub where "sub = fill_multiples K (2 ^ w div 2) ec"
  have l: "length sub = 2 ^ w" and e: "\<And>i. i < 2 ^ w \<Longrightarrow> mul_rel ec P (sub ! i) (int i)"
    using fill_multiples_correct [OF mul_rel_1 [OF Suc.prems], of "2 ^ w div 2"]
    by (simp_all add: sub_def v)
  have look: "returns (py_nth sub d) (\<lambda>t. mul_rel ec P t (d * 1))" if "0 \<le> d \<and> d < 2 ^ w" for d
    using that l e [of "nat d"] by (simp add: nat_less_iff)
  have "mul_rel ec P (double_jac ec (sub ! (2 ^ (w - 1)))) (2 * int (2 ^ (w - 1)))"
    by (rule mj.rep_dbl [OF e]) (simp add: v)
  then have "jrep ec (double_jac ec (sub ! (2 ^ (w - 1)))) (ec_times ec (2 ^ w) P)"
    using assms(1) on by (simp add: mul_rel_def v)
  note IH = Suc.IH [OF this]
  let ?K = "double_jac ec (sub ! (2 ^ (w - 1)))"
  have u: "fixwind_tables (Suc k) K ec w = sub # fixwind_tables k ?K ec w"
    by (simp add: sub_def Let_def)
  have "returns (py_nth ((sub # fixwind_tables k ?K ec w) ! j) d) (\<lambda>t. mul_rel ec P t (d * 2 ^ (w * j)))"
    if j: "j < Suc k" and d: "0 \<le> d \<and> d < 2 ^ w" for j d
  proof (cases j)
    case 0
    then show ?thesis using look [OF d] by simp
  next
    case (Suc i)
    then have i: "i < k" using j by simp
    have e: "d * 2 ^ (w * i) * 2 ^ w = d * (2::int) ^ (w * Suc i)"
      by (simp add: power_add algebra_simps)
    have "returns (py_nth (fixwind_tables k ?K ec w ! i) d)
        (\<lambda>t. mul_rel ec (ec_times ec (2 ^ w) P) t (d * 2 ^ (w * i)))" using IH i d by blast
    then show ?thesis unfolding Suc nth_Cons_Suc e [symmetric]
      by (rule returns_mono) (rule mul_rel_times [OF assms(1) on])
  qed
  then show ?case unfolding u using IH by simp
qed simp

lemma fixwind_loop_correct:
  assumes "\<And>j d. j < length T \<Longrightarrow> 0 \<le> d \<and> d < b \<Longrightarrow> returns (py_nth (T ! j) d) (\<lambda>t. mul_rel ec P t (d * b ^ j))"
  shows "(\<And>d. d \<in> set ds \<Longrightarrow> 0 \<le> d \<and> d < b) \<Longrightarrow> length ds \<le> length T \<Longrightarrow> mul_rel ec P R v \<Longrightarrow>
    returns (fixwind_loop T ec R ds) (\<lambda>S. mul_rel ec P S (v + horner b ds))"
proof (induction ds arbitrary: R v)
  case (Cons d ds)
  have l: "length ds < length T" using Cons.prems(2) by simp
  have "returns (rbind (py_nth (T ! length ds) d) (\<lambda>t. fixwind_loop T ec (add_jac ec R t) ds))
      (\<lambda>S. mul_rel ec P S (v + horner b (d # ds)))"
  proof (rule returns_rbind [OF assms [OF l]])
    show "0 \<le> d \<and> d < b" using Cons.prems(1) by simp
    fix t assume "mul_rel ec P t (d * b ^ length ds)"
    then have "mul_rel ec P (add_jac ec R t) (v + d * b ^ length ds)"
      using mj.rep_add [OF Cons.prems(3)] by blast
    then have "returns (fixwind_loop T ec (add_jac ec R t) ds)
        (\<lambda>S. mul_rel ec P S (v + d * b ^ length ds + horner b ds))"
      using Cons.prems(1,2) by (intro Cons.IH) auto
    then show "returns (fixwind_loop T ec (add_jac ec R t) ds) (\<lambda>S. mul_rel ec P S (v + horner b (d # ds)))"
      by (simp add: horner_Cons add.assoc)
  qed
  then show ?case using l by simp
qed (simp add: horner_def)

lemma mult_fixed_window_cached_var_rel:
  assumes "curve_ok ec" "jrep ec Q P" "0 \<le> m" "m < 2 ^ (8 * ec_p_size ec)" "1 \<le> w"
  shows "returns (mult_fixed_window_cached_var m Q ec w) (\<lambda>R. mul_rel ec P R m)"
proof -
  let ?k = "nat (int (ec_p_size ec) * 8 div w)"
  let ?b = "2 ^ nat w :: int"
  define T where "T = cached_multiples_fixwind Q ec w"
  have b: "2 \<le> ?b" using two_power_pred [OF assms(5)] by simp
  have d0: "0 \<le> int (ec_p_size ec) * 8 div w" using assms(5) by (simp add: pos_imp_zdiv_nonneg_iff)
  then have n: "nat (int (ec_p_size ec) * 8 div w + 1) = Suc ?k" by simp
  have "int (ec_p_size ec) * 8 < w * (int (ec_p_size ec) * 8 div w + 1)"
    using assms(5) by (smt (verit) distrib_left minus_mod_eq_mult_div pos_mod_bound mult.commute mult_cancel_left1)
  also have "\<dots> = int (nat w * Suc ?k)" using d0 assms(5) by (simp add: algebra_simps)
  finally have "8 * ec_p_size ec \<le> nat w * Suc ?k" by linarith
  then have "(2::int) ^ (8 * ec_p_size ec) \<le> 2 ^ (nat w * Suc ?k)" by (intro power_increasing) auto
  then have m: "m < ?b ^ Suc ?k" using assms(4) by (simp only: power_mult)
  note c = convert_number_to_base_var_correct [of m ?b, OF assms(3) b]
  obtain d ds where ds: "convert_number_to_base_var m ?b = d # ds" using c(3) by (meson list.exhaust)
  have t: "length T = Suc ?k" "\<And>j d. j < length T \<Longrightarrow> 0 \<le> d \<and> d < ?b \<Longrightarrow>
      returns (py_nth (T ! j) d) (\<lambda>t. mul_rel ec P t (d * ?b ^ j))"
    using fixwind_tables_correct [OF assms(1) _ assms(2), of "nat w" "Suc ?k"] assms(5)
    by (simp_all add: T_def cached_multiples_fixwind_def n power_mult)
  have l: "length ds < length T"
    using convert_number_to_base_var_length [OF assms(3) b m] t(1) by (simp add: ds)
  have "returns (rbind (py_nth (T ! length ds) d) (\<lambda>R. fixwind_loop T ec R ds))
      (\<lambda>R. mul_rel ec P R (d * ?b ^ length ds + horner ?b ds))"
  proof (rule returns_rbind [OF t(2) [OF l]])
    show "0 \<le> d \<and> d < ?b" using c(1) ds by simp
    fix R assume "mul_rel ec P R (d * ?b ^ length ds)"
    then show "returns (fixwind_loop T ec R ds) (\<lambda>R. mul_rel ec P R (d * ?b ^ length ds + horner ?b ds))"
      using c(1) ds l by (intro fixwind_loop_correct [OF t(2)]) auto
  qed
  moreover have "d * ?b ^ length ds + horner ?b ds = m" using c(2) by (simp add: ds horner_Cons)
  ultimately show ?thesis using assms(3,5) l
    by (simp add: mult_fixed_window_cached_var_def ds flip: T_def)
qed

section \<open>Odd multiples\<close>

definition odd_count :: "int \<Rightarrow> nat" where
  "odd_count w = (if 2 < w then 2 ^ nat (w - 2) else 1)"

lemma odd_multiples_correct:
  assumes "mul_rel ec P Q 1"
  shows "length (odd_multiples Q ec w) = odd_count w"
    and "\<And>i. i < odd_count w \<Longrightarrow> mul_rel ec P (odd_multiples Q ec w ! i) (2 * int i + 1)"
proof -
  define Q2 where "Q2 = double_jac ec Q"
  define T where "T k = foldl (\<lambda>T _. T @ [add_jac ec (last T) Q2]) [Q] [0..<k]" for k
  have Q2: "mul_rel ec P Q2 2" using mj.rep_dbl [OF assms] by (simp add: Q2_def)
  have T: "length (T k) = Suc k \<and> (\<forall>i<Suc k. mul_rel ec P (T k ! i) (2 * int i + 1))" for k
  proof (induction k)
    case 0
    then show ?case using assms by (simp add: T_def)
  next
    case (Suc k)
    have "T k \<noteq> []" using Suc.IH by auto
    then have l: "last (T k) = T k ! k" using Suc.IH by (simp add: last_conv_nth)
    have "mul_rel ec P (add_jac ec (last (T k)) Q2) (2 * int k + 1 + 2)"
      using Suc.IH Q2 unfolding l by (intro mj.rep_add) auto
    then have a: "mul_rel ec P (add_jac ec (last (T k)) Q2) (2 * int (length (T k)) + 1)"
      using Suc.IH by (simp add: algebra_simps)
    have e: "T (Suc k) = T k @ [add_jac ec (last (T k)) Q2]" by (simp add: T_def)
    have "mul_rel ec P (T (Suc k) ! i) (2 * int i + 1)" if "i < Suc (Suc k)" for i
      unfolding e
      by (rule all_nth_snoc [where P = "\<lambda>i t. mul_rel ec P t (2 * int i + 1)"]) (use that a Suc.IH in simp_all)
    then show ?case using Suc.IH e by simp
  qed
  have o: "odd_multiples Q ec w = (if 2 < w then T (2 ^ nat (w - 2) - 1) else [Q])"
    by (simp add: odd_multiples_def T_def Q2_def Let_def)
  show "length (odd_multiples Q ec w) = odd_count w"
    and "\<And>i. i < odd_count w \<Longrightarrow> mul_rel ec P (odd_multiples Q ec w ! i) (2 * int i + 1)"
    using T [of "2 ^ nat (w - 2) - 1"] assms by (cases "2 < w"; simp add: o odd_count_def)+
qed

lemma odd_multiples_aff_correct:
  assumes "curve_ok ec" "jrep ec Q P"
  shows "odd_multiples_aff Q ec w = Inr (map (\<lambda>i. aff_of (ec_times ec (2 * int i + 1) P)) [0..<odd_count w])"
proof -
  note o = odd_multiples_correct [OF mul_rel_1 [OF assms(2)], where w = w]
  have "list_all2 (jrep ec) (odd_multiples Q ec w) (map (\<lambda>i. ec_times ec (2 * int i + 1) P) [0..<odd_count w])"
    using o assms(1) jrep_on [OF assms(2)] by (simp add: list_all2_conv_all_nth mul_rel_def)
  then show ?thesis unfolding odd_multiples_aff_def
    by (simp only: aff_from_jac_batch_var_correct [OF assms(1)] map_map comp_def)
qed

text \<open>
  The entry a signed odd digit selects from the table of odd multiples and their opposites.
\<close>

definition signed_table :: "('z) curve_group_scheme \<Rightarrow> point \<Rightarrow> int \<Rightarrow> apoint list" where
  "signed_table ec P w =
     (let T = map (\<lambda>i. aff_of (ec_times ec (2 * int i + 1) P)) [0..<2 ^ nat (w - 1)]
      in map (negate ec) (rev T) @ T)"

lemma signed_odd_multiples_aff_correct:
  assumes "curve_ok ec" "jrep ec Q P" "1 \<le> w"
  shows "signed_odd_multiples_aff Q ec w = Inr (signed_table ec P w)"
proof -
  have "odd_count (w + 1) = 2 ^ nat (w - 1)" using assms(3) by (auto simp: odd_count_def)
  then show ?thesis using odd_multiples_aff_correct [OF assms(1,2), of "w + 1"]
    by (simp add: signed_odd_multiples_aff_def signed_table_def Let_def)
qed

lemma signed_table_lookup:
  assumes "1 \<le> w" "odd d" "\<bar>d\<bar> < 2 ^ nat w"
  shows "returns (py_nth (signed_table ec P w) ((d + (2 ^ nat w - 1)) div 2)) (\<lambda>A. aff_rel ec n P A d)"
proof -
  define N :: nat where "N = 2 ^ nat (w - 1)"
  define T where "T = map (\<lambda>i. aff_of (ec_times ec (2 * int i + 1) P)) [0..<N]"
  have N: "(2::int) ^ nat w = 2 * int N" using two_power_pred [OF assms(1)] by (simp add: N_def)
  obtain e where d: "d = 2 * e + 1" using assms(2) by (auto elim: oddE)
  then have b: "- int N \<le> e" "e < int N" using assms(3) N by auto
  have ix: "(d + (2 ^ nat w - 1)) div 2 = e + int N" using d N by simp
  have t: "signed_table ec P w = map (negate ec) (rev T) @ T"
    by (simp add: signed_table_def T_def N_def Let_def)
  have T: "length T = N" "\<And>i. i < N \<Longrightarrow> aff_rel ec n P (T ! i) (2 * int i + 1)"
    by (simp_all add: T_def aff_rel_aff_of)
  have "aff_rel ec n P ((map (negate ec) (rev T) @ T) ! nat (e + int N)) d"
  proof (cases "0 \<le> e")
    case True
    then have "nat (e + int N) = N + nat e" by simp
    then show ?thesis using T(2) [of "nat e"] T(1) True b d by (simp add: nth_append)
  next
    case False
    then have k: "nat (e + int N) < N" "N - Suc (nat (e + int N)) = nat (- 1 - e)" using b by auto
    have "aff_rel ec n P (T ! nat (- 1 - e)) (2 * int (nat (- 1 - e)) + 1)" using False b by (intro T(2)) auto
    then have "aff_rel ec n P (negate ec (T ! nat (- 1 - e))) (- (2 * int (nat (- 1 - e)) + 1))"
      by (rule aff_rel_negate)
    moreover have "- (2 * int (nat (- 1 - e)) + 1) = d" using False d by simp
    ultimately show ?thesis using k T(1) by (simp add: nth_append rev_nth)
  qed
  then show ?thesis unfolding ix t using b T(1) by simp
qed

section \<open>The regular window\<close>

lemma or_one: "m OR 1 = (if m mod 2 = 1 then m else m + 1)" for m :: int
  by (auto simp: or_one_eq odd_iff_mod_2_eq_one)

lemma parity_correction_rel:
  assumes "jrep ec Q P" "ord_rel ec n P R (m OR 1)"
  shows "ord_rel ec n P (parity_correction ec m Q R) m"
proof (cases "m mod 2 = 1")
  case True
  then show ?thesis using mo.rep_add [OF assms(2) mo.rep_inf] by (simp add: parity_correction_def or_one)
next
  case False
  have "ord_rel ec n P (negate_jac ec Q) (- 1)"
    by (rule mo.rep_neg [OF mul_rel_ord_rel [OF mul_rel_1 [OF assms(1)]]])
  then show ?thesis using mo.rep_add [OF assms(2)] False by (fastforce simp: parity_correction_def or_one)
qed

lemma or_one_fits:
  fixes m :: int
  assumes "0 \<le> m" "m < 2 ^ k" "1 \<le> k"
  shows "0 < m OR 1" "odd (m OR 1)" "m OR 1 < 2 ^ k"
proof -
  define N :: int where "N = 2 ^ k"
  have "even N" "m < N" using assms(2,3) by (simp_all add: N_def)
  then have "m mod 2 \<noteq> 1 \<Longrightarrow> m + 1 < N" by presburger
  then have "0 < m OR 1 \<and> odd (m OR 1) \<and> m OR 1 < N"
    using assms(1) \<open>m < N\<close> unfolding or_one
    by (cases "m mod 2 = 1"; cases "m = 0") (simp_all add: odd_iff_mod_2_eq_one)
  then show "0 < m OR 1" "odd (m OR 1)" "m OR 1 < 2 ^ k" by (simp_all add: N_def)
qed

lemma mult_regular_window_rel:
  assumes "curve_ok ec" "jrep ec Q P" "0 \<le> m" "1 \<le> w"
  shows "returns (mult_regular_window m Q ec w) (\<lambda>R. ord_rel ec n P R m)"
proof -
  define sz where "sz = ceil_div (int (max (ec_scalar_len ec) (bit_length m))) w"
  let ?b = "2 ^ nat w :: int"
  define T where "T = signed_table ec P w"
  have l: "0 < ec_scalar_len ec" using assms(1) by (simp add: curve_ok_def)
  have c: "int (max (ec_scalar_len ec) (bit_length m)) \<le> w * sz"
    unfolding sz_def using assms(4) by (intro ceil_div_bound) simp
  then have "0 < w * sz" using l by linarith
  then have s: "1 \<le> sz" using assms(4) by (simp add: zero_less_mult_iff)
  have "bit_length m \<le> nat (w * sz)" using c by linarith
  then have "(2::int) ^ bit_length m \<le> 2 ^ nat (w * sz)" by (intro power_increasing) auto
  then have "m < 2 ^ nat (w * sz)" using bit_length_upper [OF assms(3)] by linarith
  note f = or_one_fits [OF assms(3) this]
  have f: "0 < m OR 1" "odd (m OR 1)" "m OR 1 < 2 ^ nat (w * sz)" using f \<open>0 < w * sz\<close> by auto
  have look: "returns (py_nth T ((d + (?b - 1)) div 2)) (\<lambda>A. aff_rel ec n P A d)"
    if "odd d \<and> \<bar>d\<bar> < ?b" for d
    using signed_table_lookup [OF assms(4)] that unfolding T_def by blast
  have "returns (rbind (signed_odd_digits (m OR 1) w sz) (\<lambda>digits.
        rbind (py_nth digits (- 1)) (\<lambda>d.
        rbind (py_nth T ((d + (?b - 1)) div 2)) (\<lambda>A.
        rbind (rfold (\<lambda>R digit.
            rbind (py_nth T ((digit + (?b - 1)) div 2)) (\<lambda>t.
              Inr (add_jac_aff ec ((double_jac ec ^^ nat w) R) t)))
          (jac_from_aff A) (tl (rev digits))) (\<lambda>R.
        Inr (parity_correction ec m Q R)))))) (\<lambda>R. ord_rel ec n P R m)"
  proof (rule returns_rbind [OF signed_odd_digits_correct [OF f(1,2) assms(4) s f(3)]])
    fix digits :: "int list"
    assume g: "le_value ?b digits = m OR 1 \<and> (\<forall>d\<in>set digits. odd d \<and> \<bar>d\<bar> < ?b)
     \<and> length digits = nat sz \<and> 0 < last digits"
    then have "length digits = nat sz" by blast
    then have ne: "digits \<noteq> []" using s by (cases digits) simp_all
    have v: "foldl (\<lambda>k d. ?b * k + d) (last digits) (tl (rev digits)) = m OR 1"
      unfolding le_value_last [OF ne, symmetric] using g by blast
    have t: "odd d \<and> \<bar>d\<bar> < ?b" if "d \<in> set (tl (rev digits))" for d
    proof -
      have "d \<in> set (rev digits)" using that by (cases "rev digits") simp_all
      then show ?thesis using g unfolding set_rev by blast
    qed
    have body: "returns (rfold (\<lambda>R digit.
            rbind (py_nth T ((digit + (?b - 1)) div 2)) (\<lambda>t.
              Inr (add_jac_aff ec ((double_jac ec ^^ nat w) R) t)))
          (jac_from_aff A) (tl (rev digits))) (\<lambda>R. ord_rel ec n P R (m OR 1))"
      if A: "aff_rel ec n P A (last digits)" for A
      unfolding v [symmetric] by (rule mo.mixed_window_fold [OF mo.rep_lift [OF A]]) (rule look [OF t])
    show "returns (rbind (py_nth digits (- 1)) (\<lambda>d.
        rbind (py_nth T ((d + (?b - 1)) div 2)) (\<lambda>A.
        rbind (rfold (\<lambda>R digit.
            rbind (py_nth T ((digit + (?b - 1)) div 2)) (\<lambda>t.
              Inr (add_jac_aff ec ((double_jac ec ^^ nat w) R) t)))
          (jac_from_aff A) (tl (rev digits))) (\<lambda>R.
        Inr (parity_correction ec m Q R))))) (\<lambda>R. ord_rel ec n P R m)"
      unfolding py_nth_last [OF ne] rbind_simps
    proof (rule returns_rbind [OF look])
      show "odd (last digits) \<and> \<bar>last digits\<bar> < ?b" using g last_in_set [OF ne] by blast
      fix A assume "aff_rel ec n P A (last digits)"
      from body [OF this] show "returns (rbind (rfold (\<lambda>R digit.
            rbind (py_nth T ((digit + (?b - 1)) div 2)) (\<lambda>t.
              Inr (add_jac_aff ec ((double_jac ec ^^ nat w) R) t)))
          (jac_from_aff A) (tl (rev digits))) (\<lambda>R.
        Inr (parity_correction ec m Q R))) (\<lambda>R. ord_rel ec n P R m)"
        by (rule returns_rbind) (simp add: parity_correction_rel [OF assms(2)])
    qed
  qed
  then show ?thesis
    using assms(3,4) signed_odd_multiples_aff_correct [OF assms(1,2,4)]
    by (simp add: mult_regular_window_def Let_def flip: sz_def T_def)
qed

section \<open>A table per digit position\<close>

lemma fixed_base_tables_correct:
  assumes "1 \<le> w"
  shows "in_order ec n P \<Longrightarrow> jrep ec K P \<Longrightarrow> returns (fixed_base_tables k K ec w) (\<lambda>T. length T = k
    \<and> (\<forall>j<k. \<forall>d. odd d \<and> \<bar>d\<bar> < 2 ^ nat w \<longrightarrow>
         returns (py_nth (T ! j) ((d + (2 ^ nat w - 1)) div 2)) (\<lambda>A. aff_rel ec n P A (d * (2 ^ nat w) ^ j))))"
proof (induction k arbitrary: K P)
  case (Suc k)
  let ?b = "2 ^ nat w :: int"
  have ok: "curve_ok ec" using Suc.prems(1) by (simp add: in_order_def)
  let ?K = "(double_jac ec ^^ nat w) K"
  have K: "jrep ec ?K (ec_times ec ?b P)" by (rule jrep_dbls [OF ok Suc.prems(2)])
  note IH = Suc.IH [OF in_order_times [OF Suc.prems(1), of ?b] K]
  have "returns (rbind (fixed_base_tables k ?K ec w) (\<lambda>Ts. Inr (signed_table ec P w # Ts)))
      (\<lambda>T. length T = Suc k \<and> (\<forall>j<Suc k. \<forall>d. odd d \<and> \<bar>d\<bar> < ?b \<longrightarrow>
         returns (py_nth (T ! j) ((d + (?b - 1)) div 2)) (\<lambda>A. aff_rel ec n P A (d * ?b ^ j))))"
  proof (rule returns_rbind [OF IH], rule returns_InrI, intro conjI allI impI)
    fix Ts :: "apoint list list" and j d
    assume t: "length Ts = k \<and> (\<forall>j<k. \<forall>d. odd d \<and> \<bar>d\<bar> < ?b \<longrightarrow> returns (py_nth (Ts ! j) ((d + (?b - 1)) div 2))
         (\<lambda>A. aff_rel ec n (ec_times ec ?b P) A (d * ?b ^ j)))"
      and j: "j < Suc k" and d: "odd d \<and> \<bar>d\<bar> < ?b"
    show "returns (py_nth ((signed_table ec P w # Ts) ! j) ((d + (?b - 1)) div 2))
        (\<lambda>A. aff_rel ec n P A (d * ?b ^ j))"
    proof (cases j)
      case 0
      then show ?thesis using signed_table_lookup [OF assms, of d ec P n] d by simp
    next
      case (Suc i)
      have e: "d * ?b ^ i * ?b = d * ?b ^ Suc i" by simp
      have "returns (py_nth (Ts ! i) ((d + (?b - 1)) div 2))
        (\<lambda>A. aff_rel ec n (ec_times ec ?b P) A (d * ?b ^ i))" using t j d Suc by blast
      then show ?thesis unfolding Suc nth_Cons_Suc e [symmetric]
        by (rule returns_mono) (rule aff_rel_times [OF Suc.prems(1)])
    qed
  qed simp
  then show ?case using signed_odd_multiples_aff_correct [OF ok Suc.prems(2) assms] by simp
qed simp

text \<open>The loop over the positions below the top one, for tables that hold the multiples.\<close>

lemma fixed_base_fold:
  assumes T: "length T = k" "1 \<le> k"
    and t: "\<And>j. j < k \<Longrightarrow> returns (table_entry T digits c (int j)) (\<lambda>A. aff_rel ec n P A (digits ! j * b ^ j))"
    and g: "length digits = k"
    and A: "ord_rel ec n P R (digits ! (k - 1) * b ^ (k - 1))"
  shows "returns (rfold (\<lambda>R i. rbind (table_entry T digits c (int i)) (\<lambda>B. Inr (add_jac_aff ec R B)))
      R (rev [0..<length T - 1])) (\<lambda>R. ord_rel ec n P R (le_value b digits))"
proof -
  have "returns (rfold (\<lambda>R i. rbind (table_entry T digits c (int i)) (\<lambda>B. Inr (add_jac_aff ec R B)))
      R (rev [0..<k - 1])) (\<lambda>R. ord_rel ec n P R (foldl (\<lambda>v i. v + digits ! i * b ^ i)
         (digits ! (k - 1) * b ^ (k - 1)) (rev [0..<k - 1])))"
  proof (rule returns_rfold, rule A)
    fix j R v assume j: "j \<in> set (rev [0..<k - 1])" and R: "ord_rel ec n P R v"
    then have jk: "j < k" by auto
    show "returns (rbind (table_entry T digits c (int j)) (\<lambda>B. Inr (add_jac_aff ec R B)))
        (\<lambda>S. ord_rel ec n P S (v + digits ! j * b ^ j))"
      by (rule returns_rbind [OF t [OF jk]]) (simp add: mo.rep_madd [OF R])
  qed
  moreover have "foldl (\<lambda>v i. v + digits ! i * b ^ i) (digits ! (k - 1) * b ^ (k - 1)) (rev [0..<k - 1])
      = le_value b digits"
  proof -
    have "le_value b digits = (\<Sum>i<Suc (k - 1). b ^ i * digits ! i)"
      unfolding le_value_sum g using T(2) by simp
    then show ?thesis unfolding foldl_add_rev by (simp add: mult.commute add.commute)
  qed
  ultimately show ?thesis using T by simp
qed

lemma scalar_fits:
  fixes m :: int
  assumes "0 < l" "1 \<le> w" "0 \<le> m" "m < 2 ^ l"
  shows "1 \<le> nat (ceil_div (int l) w)"
    and "0 < m OR 1" "odd (m OR 1)" "m OR 1 < 2 ^ nat (w * int (nat (ceil_div (int l) w)))"
proof -
  define k where "k = nat (ceil_div (int l) w)"
  have c: "int l \<le> w * ceil_div (int l) w" using assms by (intro ceil_div_bound) simp
  then have "0 < w * ceil_div (int l) w" using assms by linarith
  then have "0 < ceil_div (int l) w" using assms by (simp add: zero_less_mult_iff)
  then have k: "1 \<le> k" "int k = ceil_div (int l) w" by (simp_all add: k_def)
  have "l \<le> nat (w * int k)" using c k(2) by simp
  then have "(2::int) ^ l \<le> 2 ^ nat (w * int k)" by (intro power_increasing) auto
  then have "m < 2 ^ nat (w * int k)" using assms by linarith
  moreover have "0 < w * int k" using assms k(1) by simp
  ultimately show "1 \<le> nat (ceil_div (int l) w)" "0 < m OR 1" "odd (m OR 1)"
    "m OR 1 < 2 ^ nat (w * int (nat (ceil_div (int l) w)))"
    using or_one_fits [OF assms(3), of "nat (w * int k)"] k(1) by (simp_all add: k_def)
qed

lemma mult_fixed_base_rel:
  assumes o: "in_order ec n P" and Q: "jrep ec Q P" and m: "0 \<le> m" "m < 2 ^ ec_scalar_len ec"
    and w: "1 \<le> w" and r: "0 \<le> rnd" "rnd < ec_p ec - 1"
  shows "returns (mult_fixed_base rnd m Q ec w) (\<lambda>R. ord_rel ec n P R m)"
proof -
  let ?b = "2 ^ nat w :: int"
  have ok: "curve_ok ec" and sl: "0 < ec_scalar_len ec" using o by (simp_all add: in_order_def curve_ok_def)
  define k where "k = nat (ceil_div (int (ec_scalar_len ec)) w)"
  note f = scalar_fits [OF sl w m, folded k_def]
  then have sk: "1 \<le> int k" by simp
  have "returns (rbind (fixed_base_tables k Q ec w) (\<lambda>T.
        rbind (signed_odd_digits (m OR 1) w (int (length T))) (\<lambda>digits.
        rbind (table_entry T digits (?b - 1) (- 1)) (\<lambda>A.
        rbind (rfold (\<lambda>R i. rbind (table_entry T digits (?b - 1) (int i)) (\<lambda>B. Inr (add_jac_aff ec R B)))
          (blinded_jac rnd (jac_from_aff A) ec) (rev [0..<length T - 1])) (\<lambda>R.
        Inr (parity_correction ec m Q R)))))) (\<lambda>R. ord_rel ec n P R m)" (is "returns (rbind _ ?rest) _")
  proof (rule returns_rbind [OF fixed_base_tables_correct [OF w o Q]])
    fix T :: "apoint list list"
    assume "length T = k \<and> (\<forall>j<k. \<forall>d. odd d \<and> \<bar>d\<bar> < ?b \<longrightarrow>
         returns (py_nth (T ! j) ((d + (?b - 1)) div 2)) (\<lambda>A. aff_rel ec n P A (d * ?b ^ j)))"
    then have l: "length T = k" and t: "\<And>j d. j < k \<Longrightarrow> odd d \<Longrightarrow> \<bar>d\<bar> < ?b \<Longrightarrow>
         returns (py_nth (T ! j) ((d + (?b - 1)) div 2)) (\<lambda>A. aff_rel ec n P A (d * ?b ^ j))" by blast+
    show "returns (?rest T) (\<lambda>R. ord_rel ec n P R m)"
      unfolding l
    proof (rule returns_rbind [OF signed_odd_digits_correct [OF f(2,3) w sk f(4)]])
      fix digits :: "int list"
      assume "le_value ?b digits = m OR 1 \<and> (\<forall>d\<in>set digits. odd d \<and> \<bar>d\<bar> < ?b)
        \<and> length digits = nat (int k) \<and> 0 < last digits"
      then have g: "le_value ?b digits = m OR 1" "\<forall>d\<in>set digits. odd d \<and> \<bar>d\<bar> < ?b" "length digits = k"
        by auto
      have e: "returns (table_entry T digits (?b - 1) (int j)) (\<lambda>A. aff_rel ec n P A (digits ! j * ?b ^ j))"
        if "j < k" for j using t [OF that, of "digits ! j"] g(2,3) l that by (simp add: table_entry_def)
      have te: "table_entry T digits (?b - 1) (- 1) = table_entry T digits (?b - 1) (int (k - 1))"
        using l g(3) f(1) by (simp add: table_entry_def py_nth_def of_nat_diff Let_def)
      have "k - 1 < k" using f(1) by simp
      note top = e [OF this, folded te]
      show "returns (rbind (table_entry T digits (?b - 1) (- 1)) (\<lambda>A.
        rbind (rfold (\<lambda>R i. rbind (table_entry T digits (?b - 1) (int i)) (\<lambda>B. Inr (add_jac_aff ec R B)))
          (blinded_jac rnd (jac_from_aff A) ec) (rev [0..<k - 1])) (\<lambda>R.
        Inr (parity_correction ec m Q R)))) (\<lambda>R. ord_rel ec n P R m)"
      proof (rule returns_rbind [OF top])
        fix A assume "aff_rel ec n P A (digits ! (k - 1) * ?b ^ (k - 1))"
        from mo.rep_lift [OF this]
        have "ord_rel ec n P (blinded_jac rnd (jac_from_aff A) ec) (digits ! (k - 1) * ?b ^ (k - 1))"
          using jrep_blinded_jac [OF ok _ r] by (simp add: ord_rel_def)
        from fixed_base_fold [OF l f(1) e g(3) this]
        show "returns (rbind (rfold (\<lambda>R i. rbind (table_entry T digits (?b - 1) (int i)) (\<lambda>B. Inr (add_jac_aff ec R B)))
          (blinded_jac rnd (jac_from_aff A) ec) (rev [0..<k - 1])) (\<lambda>R.
          Inr (parity_correction ec m Q R))) (\<lambda>R. ord_rel ec n P R m)"
          unfolding g(1) l by (rule returns_rbind) (assumption, rule returns_InrI, rule parity_correction_rel [OF Q])
      qed
    qed
  qed
  then show ?thesis using m w
    by (simp add: mult_fixed_base_def cached_fixed_base_multiples_def Let_def flip: k_def)
qed

lemma returns_ord:
  assumes "in_order ec n P" "returns m (\<lambda>R. ord_rel ec n P R k)"
  shows "\<exists>R. m = Inr R \<and> jrep ec R (ec_times ec k P)"
  using assms ord_relD by (fastforce simp: returns_def)

lemma returns_mul:
  assumes "curve_ok ec" "ec_on ec P" "returns m (\<lambda>R. mul_rel ec P R k)"
  shows "\<exists>R. m = Inr R \<and> jrep ec R (ec_times ec k P)"
  using assms mul_relD by (fastforce simp: returns_def)

lemma in_order_ok: "in_order ec n P \<Longrightarrow> curve_ok ec"
  by (simp add: in_order_def)

end
