(* ===== verification/Multi_Mult_Correct.thy ===== *)
theory Multi_Mult_Correct
  imports Multi_Mult
begin

text \<open>
  The multi-scalar multiplications of \<open>Multi_Mult\<close> return the linear combination of their points, for
  points that a common odd number annihilates.
\<close>

abbreviation ec_lc :: "('z) curve_group_scheme \<Rightarrow> (int \<times> point) list \<Rightarrow> point" where
  "ec_lc ec \<equiv> lincomb (ec_plus ec) (ec_minus ec) Inf"
abbreviation ec_pv :: "('z) curve_group_scheme \<Rightarrow> point list \<Rightarrow> point" where
  "ec_pv ec \<equiv> pos_value (ec_plus ec) Inf"

section \<open>What a list of table entries adds\<close>

definition adds :: "('z) curve_group_scheme \<Rightarrow> int \<Rightarrow> apoint list \<Rightarrow> point \<Rightarrow> bool" where
  "adds ec n As s \<longleftrightarrow> in_order ec n s \<and>
     (\<forall>R X. in_order ec n X \<longrightarrow> jrep ec R X \<longrightarrow> jrep ec (foldl (add_jac_aff ec) R As) (ec_plus ec X s))"

lemma addsI:
  "in_order ec n s \<Longrightarrow> (\<And>R X. in_order ec n X \<Longrightarrow> jrep ec R X \<Longrightarrow>
     jrep ec (foldl (add_jac_aff ec) R As) (ec_plus ec X s)) \<Longrightarrow> adds ec n As s"
  unfolding adds_def by blast

lemma addsD:
  "adds ec n As s \<Longrightarrow> in_order ec n X \<Longrightarrow> jrep ec R X \<Longrightarrow>
     jrep ec (foldl (add_jac_aff ec) R As) (ec_plus ec X s)"
  unfolding adds_def by blast

lemma adds_order: "adds ec n As s \<Longrightarrow> in_order ec n s"
  unfolding adds_def by blast

lemma adds_orders: "list_all2 (adds ec n) at_position ss \<Longrightarrow> \<forall>s\<in>set ss. in_order ec n s"
  by (induction at_position ss rule: list_all2_induct) (auto dest: adds_order)

lemma adds_Nil: "in_order ec n P \<Longrightarrow> adds ec n [] Inf"
  by (rule addsI) (simp_all add: ecn.zero_closed ecn.add_zero)

lemma adds_append:
  assumes "adds ec n As s" "adds ec n Bs t"
  shows "adds ec n (As @ Bs) (ec_plus ec s t)"
proof (rule addsI)
  note o = adds_order [OF assms(1)] adds_order [OF assms(2)]
  show "in_order ec n (ec_plus ec s t)" by (rule ecn.add_closed [OF o])
  fix R X assume X: "in_order ec n X" "jrep ec R X"
  have "jrep ec (foldl (add_jac_aff ec) R (As @ Bs)) (ec_plus ec (ec_plus ec X s) t)"
    unfolding foldl_append
    by (rule addsD [OF assms(2) ecn.add_closed [OF X(1) o(1)] addsD [OF assms(1) X]])
  then show "jrep ec (foldl (add_jac_aff ec) R (As @ Bs)) (ec_plus ec X (ec_plus ec s t))"
    by (simp only: ecn.add_assoc [OF X(1) o])
qed

lemma adds_single: "in_order ec n P \<Longrightarrow> arep ec A P \<Longrightarrow> adds ec n [A] P"
  by (rule addsI) (simp_all add: jrep_add_jac_aff in_order_ok)

lemma interleave_correct:
  assumes "in_order ec n P"
  shows "list_all2 (adds ec n) at_position ss \<Longrightarrow>
    jrep ec (interleave ec at_position) (ec_pv ec ss) \<and> in_order ec n (ec_pv ec ss)"
proof (induction at_position ss rule: list_all2_induct)
  case Nil
  then show ?case using ecn.zero_closed [OF assms] by (simp add: interleave_def jrep_INFJ)
next
  case (Cons As at_position s ss)
  let ?R = "interleave ec at_position" and ?V = "ec_pv ec ss"
  have ok: "curve_ok ec" using assms by (rule in_order_ok)
  have u: "interleave ec (As # at_position) = foldl (add_jac_aff ec) (double_jac ec ?R) As"
    by (simp add: interleave_def)
  have o: "in_order ec n s" "in_order ec n ?V" using Cons adds_order by blast+
  then have o2: "in_order ec n (ec_plus ec ?V ?V)" using ecn.add_closed by blast
  have "jrep ec (double_jac ec ?R) (ec_plus ec ?V ?V)" using Cons ok jrep_double_jac by blast
  then have "jrep ec (interleave ec (As # at_position)) (ec_plus ec (ec_plus ec ?V ?V) s)"
    unfolding u by (rule addsD [OF Cons(1) o2])
  then show ?case using ecn.add_comm [OF o2 o(1)] ecn.add_closed [OF o(1) o2] by simp
qed

section \<open>The interleaved wNAF\<close>

definition digits_ok :: "('z) curve_group_scheme \<Rightarrow> int \<Rightarrow> int list \<times> apoint list \<Rightarrow> int \<times> point \<Rightarrow> bool" where
  "digits_ok ec n nT mP \<longleftrightarrow> in_order ec n (snd mP) \<and> le_value 2 (fst nT) = fst mP
     \<and> (\<forall>d\<in>set (fst nT). returns (digit_points ec (snd nT) d) (\<lambda>qs. adds ec n qs (ec_times ec d (snd mP))))"

lemma digits_ok_orders:
  "list_all2 (digits_ok ec n) nTs mPs \<Longrightarrow> \<forall>mP\<in>set mPs. in_order ec n (snd mP)"
  by (induction nTs mPs rule: list_all2_induct) (auto simp: digits_ok_def)

lemma add_naf_correct:
  assumes "in_order ec n P"
    and "list_all2 (adds ec n) at_position ss" "length ds \<le> length at_position"
    and "\<forall>d\<in>set ds. returns (digit_points ec T d) (\<lambda>qs. adds ec n qs (ec_times ec d P))"
  shows "returns (add_naf ec T ds at_position) (\<lambda>at'. length at' = length at_position
    \<and> list_all2 (adds ec n) at' (pos_add (ec_plus ec) (\<lambda>d. ec_times ec d P) ds ss))"
  using assms(2-)
proof (induction ds arbitrary: at_position ss)
  case (Cons d ds)
  obtain ps rest s ss' where a: "at_position = ps # rest" "ss = s # ss'"
    using Cons.prems by (cases at_position; cases ss) auto
  have l: "adds ec n ps s" "list_all2 (adds ec n) rest ss'" "length ds \<le> length rest"
    using Cons.prems a by auto
  have dp: "returns (digit_points ec T d) (\<lambda>qs. adds ec n qs (ec_times ec d P))" using Cons.prems(3) by simp
  have IH: "returns (add_naf ec T ds rest) (\<lambda>at'. length at' = length rest
      \<and> list_all2 (adds ec n) at' (pos_add (ec_plus ec) (\<lambda>d. ec_times ec d P) ds ss'))"
    using Cons.IH [OF l(2,3)] Cons.prems(3) by simp
  have "returns (add_naf ec T ds rest) (\<lambda>at'. length ((ps @ qs) # at') = length at_position
      \<and> list_all2 (adds ec n) ((ps @ qs) # at') (pos_add (ec_plus ec) (\<lambda>d. ec_times ec d P) (d # ds) ss))"
    if "adds ec n qs (ec_times ec d P)" for qs
    by (rule returns_mono [OF IH]) (use adds_append [OF l(1) that] in \<open>simp add: a\<close>)
  then show ?case unfolding a(1) add_naf.simps returns_rbind_iff
    by (intro returns_mono [OF dp]) (simp add: returns_rbind_iff a(1))
qed simp

lemma additions_fold:
  assumes P: "in_order ec n P0"
  shows "list_all2 (digits_ok ec n) nTs mPs \<Longrightarrow> list_all2 (adds ec n) at_position ss \<Longrightarrow>
    (\<And>nT. nT \<in> set nTs \<Longrightarrow> length (fst nT) \<le> length at_position) \<Longrightarrow>
    returns (rfold (\<lambda>at_position (naf, T). add_naf ec T naf at_position) at_position nTs)
      (\<lambda>at'. \<exists>ss'. list_all2 (adds ec n) at' ss' \<and> ec_pv ec ss' = ec_plus ec (ec_pv ec ss) (ec_lc ec mPs))"
proof (induction nTs mPs arbitrary: at_position ss rule: list_all2_induct)
  case Nil
  have "\<forall>s\<in>set ss. in_order ec n s"
    using Nil adds_orders by blast
  then have "in_order ec n (ec_pv ec ss)" using ecn.pv_closed [OF P] by blast
  then show ?case using Nil ecn.add_zero by auto
next
  case (Cons nT nTs mP mPs)
  obtain naf T where nT: "nT = (naf, T)" by (cases nT)
  obtain m P where mP: "mP = (m, P)" by (cases mP)
  have d: "in_order ec n P" "le_value 2 naf = m"
    "\<forall>d\<in>set naf. returns (digit_points ec T d) (\<lambda>qs. adds ec n qs (ec_times ec d P))"
    using Cons(1) by (simp_all add: digits_ok_def nT mP)
  have l: "length naf \<le> length at_position" using Cons.prems(2) [of nT] nT by simp
  let ?ss = "pos_add (ec_plus ec) (\<lambda>d. ec_times ec d P) naf ss"
  have ls: "length naf \<le> length ss" using l Cons.prems(1) list_all2_lengthD by metis
  have c: "\<forall>s\<in>set ss. in_order ec n s"
    using Cons.prems(1) adds_orders by blast
  have pv: "ec_pv ec ?ss = ec_plus ec (ec_pv ec ss) (ec_times ec m P)"
    using ecn.pv_pos_add [OF d(1) ls] c d(2) by simp
  have cl: "in_order ec n (ec_pv ec ss)" using ecn.pv_closed [OF P] c by blast
  have cm: "in_order ec n (ec_lc ec mPs)"
    by (rule ecn.lc_closed' [OF P digits_ok_orders [OF Cons(2)]])
  have "ec_plus ec (ec_pv ec ss) (ec_lc ec (mP # mPs)) = ec_plus ec (ec_pv ec ?ss) (ec_lc ec mPs)"
    using pv ecn.add_assoc [OF cl in_order_times [OF d(1), of m] cm] by (simp add: mP)
  note e = this
  have "returns (rfold (\<lambda>at_position (naf, T). add_naf ec T naf at_position) at' nTs)
      (\<lambda>at'. \<exists>ss'. list_all2 (adds ec n) at' ss' \<and> ec_pv ec ss' = ec_plus ec (ec_pv ec ss) (ec_lc ec (mP # mPs)))"
    if "length at' = length at_position \<and> list_all2 (adds ec n) at' ?ss" for at'
    unfolding e by (rule Cons.IH) (use that Cons.prems(2) in auto)
  then show ?case unfolding rfold.simps nT prod.case
    by (rule returns_rbind [OF add_naf_correct [OF d(1) Cons.prems(1) l d(3)]])
qed

lemma additions_by_position_correct:
  assumes P: "in_order ec n P0" and d: "list_all2 (digits_ok ec n) (zip nafs tables) mPs"
    and l: "length nafs = length tables"
  shows "returns (additions_by_position nafs tables ec)
    (\<lambda>at'. \<exists>ss'. list_all2 (adds ec n) at' ss' \<and> ec_pv ec ss' = ec_lc ec mPs)"
proof -
  let ?k = "Max (set (map length nafs))"
  have i: "list_all2 (adds ec n) (replicate ?k []) (replicate ?k Inf)"
    using adds_Nil [OF P] by (simp add: list_all2_conv_all_nth)
  have b: "length (fst nT) \<le> length (replicate ?k [])" if "nT \<in> set (zip nafs tables)" for nT
  proof -
    have "fst nT \<in> set nafs" using that by (metis in_set_zipE prod.collapse)
    then show ?thesis by simp
  qed
  have "in_order ec n (ec_lc ec mPs)"
    by (rule ecn.lc_closed' [OF P digits_ok_orders [OF d]])
  then have "ec_plus ec (ec_pv ec (replicate ?k Inf)) (ec_lc ec mPs) = ec_lc ec mPs"
    using ecn.pv_zeros [OF P] ecn.zero_add by simp
  then show ?thesis using additions_fold [OF P d i b] by (simp add: additions_by_position_def)
qed

section \<open>Tables built in one batch\<close>

definition odd_table :: "('z) curve_group_scheme \<Rightarrow> int \<Rightarrow> point \<Rightarrow> apoint list" where
  "odd_table ec w P = map (\<lambda>i. aff_of (ec_times ec (2 * int i + 1) P)) [0..<odd_count w]"

lemma odd_nonneg_int: "odd e \<Longrightarrow> 0 < e \<Longrightarrow> \<exists>k. e = 2 * int k + 1"
proof -
  assume "odd e" "0 < e"
  then obtain j where "e = 2 * j + 1" "0 \<le> j" by (auto elim!: oddE)
  then show ?thesis by (metis nonneg_int_cases)
qed

lemma odd_table_digit:
  assumes o: "in_order ec n P" and w: "1 \<le> w"
    and d: "d = 0 \<or> d mod 2 = 1 \<and> \<bar>d\<bar> \<le> 2 ^ nat (w - 1) \<and> (2 \<le> w \<longrightarrow> \<bar>d\<bar> < 2 ^ nat (w - 1))"
  shows "returns (digit_points ec (odd_table ec w P) d) (\<lambda>qs. adds ec n qs (ec_times ec d P))"
proof (cases "d = 0")
  case True
  then show ?thesis using adds_Nil [OF o] by (simp add: digit_points_def)
next
  case False
  then have d: "odd d" "\<bar>d\<bar> \<le> 2 ^ nat (w - 1)" "2 \<le> w \<Longrightarrow> \<bar>d\<bar> < 2 ^ nat (w - 1)"
    using d by (auto simp: odd_iff_mod_2_eq_one)
  have entry: "returns (py_nth (odd_table ec w P) ((e - 1) div 2)) (\<lambda>t. arep ec t (ec_times ec e P))"
    if e: "odd e" "0 < e" "e = \<bar>d\<bar>" for e
  proof -
    obtain k where k: "e = 2 * int k + 1" using e(1,2) odd_nonneg_int by blast
    have "k < odd_count w"
    proof (cases "2 < w")
      case True
      have "(2::int) ^ nat (w - 1) = 2 * 2 ^ nat (w - 2)" using two_power_pred [of "w - 1"] True by simp
      then have "int k < 2 ^ nat (w - 2)" using d(3) True e k by linarith
      then show ?thesis using True by (simp add: odd_count_def flip: of_nat_less_iff)
    next
      case False
      then have "w = 1 \<or> w = 2" using w by linarith
      then have "\<bar>d\<bar> \<le> 1" using d by auto
      then show ?thesis using e k False by (simp add: odd_count_def)
    qed
    then show ?thesis using k in_order_arep [OF in_order_times [OF o]] by (simp add: odd_table_def)
  qed
  show ?thesis
  proof (cases "0 < d")
    case True
    then have e: "odd d" "0 < d" "d = \<bar>d\<bar>" using d(1) by simp_all
    have "returns (py_nth (odd_table ec w P) ((d - 1) div 2)) (\<lambda>t. arep ec t (ec_times ec d P))"
      by (rule entry [OF e])
    then have "returns (rbind (py_nth (odd_table ec w P) ((d - 1) div 2)) (\<lambda>t. Inr [t]))
        (\<lambda>qs. adds ec n qs (ec_times ec d P))"
      by (rule returns_rbind) (simp add: adds_single [OF in_order_times [OF o]])
    then show ?thesis using True by (simp add: digit_points_def)
  next
    case neg: False
    then have e: "odd (- d)" "0 < - d" "- d = \<bar>d\<bar>" using d(1) \<open>d \<noteq> 0\<close> by simp_all
    have n: "returns (py_nth (odd_table ec w P) ((- d - 1) div 2)) (\<lambda>t. arep ec t (ec_times ec (- d) P))"
      by (rule entry [OF e])
    have neg_entry: "arep ec (negate ec t) (ec_times ec d P)" if "arep ec t (ec_times ec (- d) P)" for t
      using arep_negate [OF in_order_ok [OF o] that] ecn.zm_minus [OF o, of "- d"] by simp
    have "returns (rbind (py_nth (odd_table ec w P) ((- d - 1) div 2)) (\<lambda>t. Inr [negate ec t]))
        (\<lambda>qs. adds ec n qs (ec_times ec d P))"
      by (rule returns_rbind [OF n]) (simp add: adds_single [OF in_order_times [OF o]] neg_entry)
    then show ?thesis using neg \<open>d \<noteq> 0\<close> by (simp add: digit_points_def)
  qed
qed

lemma fill_slots_map:
  "fill_slots slots (map f (pending slots)) = map (case_sum id (map f)) slots"
  by (induction slots rule: pending.induct) simp_all

lemma list_all2_map_self: "\<forall>x\<in>set xs. R x (f x) \<Longrightarrow> list_all2 R xs (map f xs)"
  by (induction xs) simp_all

lemma pending_all: "\<forall>jac. Inr jac \<in> set slots \<longrightarrow> (\<forall>Q\<in>set jac. R Q) \<Longrightarrow> \<forall>Q\<in>set (pending slots). R Q"
  by (induction slots rule: pending.induct) fastforce+

lemma odd_multiples_jac_abs:
  assumes "curve_ok ec" "jrep ec Q P"
  shows "\<forall>R\<in>set (odd_multiples Q ec w). jrep ec R (jac_abs ec R)"
    and "map (aff_of \<circ> jac_abs ec) (odd_multiples Q ec w) = odd_table ec w P"
proof -
  note o = odd_multiples_correct [OF mul_rel_1 [OF assms(2)], where w = w]
  have r: "jrep ec (odd_multiples Q ec w ! i) (ec_times ec (2 * int i + 1) P)" if "i < odd_count w" for i
    using o(2) [OF that] assms(1) jrep_on [OF assms(2)] by (simp add: mul_rel_def)
  then have a: "jac_abs ec (odd_multiples Q ec w ! i) = ec_times ec (2 * int i + 1) P" if "i < odd_count w" for i
    using that jac_abs_eq [OF assms(1)] by blast
  show "\<forall>R\<in>set (odd_multiples Q ec w). jrep ec R (jac_abs ec R)"
  proof
    fix R assume "R \<in> set (odd_multiples Q ec w)"
    then obtain i where "i < odd_count w" "R = odd_multiples Q ec w ! i" using o(1) by (metis in_set_conv_nth)
    then show "jrep ec R (jac_abs ec R)" using r a by simp
  qed
  show "map (aff_of \<circ> jac_abs ec) (odd_multiples Q ec w) = odd_table ec w P"
    by (rule nth_equalityI) (simp_all add: o(1) a odd_table_def)
qed

section \<open>The checked pairs\<close>

lemma nonzero_pairs_correct:
  assumes "\<forall>x\<in>set xs. 0 \<le> fst x"
  shows "nonzero_pairs xs = Inr (filter (\<lambda>x. fst x \<noteq> 0) xs)"
  using assms by (induction xs rule: nonzero_pairs.induct) auto

definition abs_pairs :: "('z) curve_group_scheme \<Rightarrow> (int \<times> jpoint) list \<Rightarrow> (int \<times> point) list" where
  "abs_pairs ec xs = map (\<lambda>x. (fst x, jac_abs ec (snd x))) xs"

lemma lc_drop_zeros:
  assumes "in_order ec n P0" "\<forall>x\<in>set xs. jgood ec n (snd x)"
  shows "ec_lc ec (abs_pairs ec (filter (\<lambda>x. fst x \<noteq> 0) xs)) = ec_lc ec (abs_pairs ec xs)
    \<and> in_order ec n (ec_lc ec (abs_pairs ec xs))"
  using assms(2)
proof (induction xs)
  case Nil
  then show ?case using ecn.zero_closed [OF assms(1)] by (simp add: abs_pairs_def)
next
  case (Cons x xs)
  have o: "in_order ec n (jac_abs ec (snd x))" using Cons.prems by (simp add: jgoodD(1))
  have IH: "ec_lc ec (abs_pairs ec (filter (\<lambda>x. fst x \<noteq> 0) xs)) = ec_lc ec (abs_pairs ec xs)"
    "in_order ec n (ec_lc ec (abs_pairs ec xs))" using Cons by simp_all
  show ?case
    using IH ecn.zero_add [OF IH(2)] ecn.add_closed [OF in_order_times [OF o] IH(2)]
    by (simp add: abs_pairs_def)
qed

lemma multi_mult_pairs_correct:
  assumes "length scalars = length Qs" "2 \<le> length scalars" "\<forall>m\<in>set scalars. 0 \<le> m"
  shows "multi_mult_pairs scalars Qs = Inr (filter (\<lambda>x. fst x \<noteq> 0) (zip scalars Qs))"
proof -
  have "\<forall>x\<in>set (zip scalars Qs). 0 \<le> fst x" using assms(3) by (auto dest: set_zip_leftD)
  then show ?thesis using assms(1,2) nonzero_pairs_correct by (simp add: multi_mult_pairs_def)
qed

section \<open>Interleaving multiplies\<close>

lemma naf_width_pos: "curve_ok ec \<Longrightarrow> 1 \<le> w \<Longrightarrow> 1 \<le> naf_width ec w fixed PJ"
  by (auto simp: naf_width_def FIXED_POINT_W_def curve_ok_def)

lemma table_slots_correct:
  assumes "\<forall>x\<in>set pairs. jgood ec n (snd x)" "curve_ok ec"
  shows "returns (rmap (\<lambda>(m, PJ). table_slot ec w fixed PJ) pairs) (\<lambda>slots.
    (\<forall>Q\<in>set (pending slots). jrep ec Q (jac_abs ec Q))
    \<and> map (case_sum id (map (aff_of \<circ> jac_abs ec))) slots
      = map (\<lambda>x. odd_table ec (naf_width ec w fixed (snd x)) (jac_abs ec (snd x))) pairs)"
  using assms(1)
proof (induction pairs)
  case (Cons x pairs)
  obtain m PJ where x: "x = (m, PJ)" by (cases x)
  have J: "jrep ec PJ (jac_abs ec PJ)" using Cons.prems x jgoodD(2) [of ec n PJ] by simp
  let ?w = "naf_width ec w fixed PJ"
  have t: "odd_multiples_aff PJ ec ?w = Inr (odd_table ec ?w (jac_abs ec PJ))"
    using odd_multiples_aff_correct [OF assms(2) J] by (simp add: odd_table_def)
  note j = odd_multiples_jac_abs [OF assms(2) J, of ?w]
  have s: "returns (table_slot ec w fixed PJ) (\<lambda>s.
      (\<forall>Q\<in>set (pending [s]). jrep ec Q (jac_abs ec Q))
      \<and> case_sum id (map (aff_of \<circ> jac_abs ec)) s = odd_table ec ?w (jac_abs ec PJ))"
    using t j by (simp add: table_slot_def cached_odd_multiples_aff_def)
  have p: "set (pending (s # slots)) = set (pending [s]) \<union> set (pending slots)" for s slots
    by (cases s) auto
  show ?case
    unfolding x rmap.simps prod.case
  proof (rule returns_rbind [OF s], rule returns_rbind [OF Cons.IH])
    show "\<forall>x\<in>set pairs. jgood ec n (snd x)" using Cons.prems by simp
    fix s slots
    assume "(\<forall>Q\<in>set (pending [s]). jrep ec Q (jac_abs ec Q))
        \<and> case_sum id (map (aff_of \<circ> jac_abs ec)) s = odd_table ec ?w (jac_abs ec PJ)"
      and "(\<forall>Q\<in>set (pending slots). jrep ec Q (jac_abs ec Q))
        \<and> map (case_sum id (map (aff_of \<circ> jac_abs ec))) slots
          = map (\<lambda>x. odd_table ec (naf_width ec w fixed (snd x)) (jac_abs ec (snd x))) pairs"
    then show "returns (Inr (s # slots)) (\<lambda>slots.
        (\<forall>Q\<in>set (pending slots). jrep ec Q (jac_abs ec Q))
        \<and> map (case_sum id (map (aff_of \<circ> jac_abs ec))) slots
          = map (\<lambda>x. odd_table ec (naf_width ec w fixed (snd x)) (jac_abs ec (snd x))) ((m, PJ) # pairs))"
      unfolding returns_Inr p [of s slots] by (simp add: ball_Un)
  qed
qed simp

lemma multi_mult_w_NAF_var_correct:
  assumes P0: "in_order ec n P0" and l: "length scalars = length Qs" "2 \<le> length scalars"
    and m: "\<forall>m\<in>set scalars. 0 \<le> m" and Q: "\<forall>Q\<in>set Qs. jgood ec n Q" and w: "1 \<le> w"
  shows "returns (multi_mult_w_NAF_var scalars Qs ec w fixed)
    (\<lambda>R. jrep ec R (ec_lc ec (abs_pairs ec (zip scalars Qs))))"
proof -
  have ok: "curve_ok ec" by (rule in_order_ok [OF P0])
  define pairs where "pairs = filter (\<lambda>x. fst x \<noteq> 0) (zip scalars Qs)"
  have gz: "\<forall>x\<in>set (zip scalars Qs). jgood ec n (snd x) \<and> 0 \<le> fst x"
    using Q m by (auto dest: set_zip_leftD set_zip_rightD)
  then have g: "\<forall>x\<in>set pairs. jgood ec n (snd x)" "\<forall>x\<in>set pairs. 0 \<le> fst x" by (simp_all add: pairs_def)
  have lc: "ec_lc ec (abs_pairs ec pairs) = ec_lc ec (abs_pairs ec (zip scalars Qs))"
    unfolding pairs_def using lc_drop_zeros [OF P0] gz by blast
  let ?W = "\<lambda>x. naf_width ec w fixed (snd x)"
  define nafs where "nafs = map (\<lambda>(n, PJ). wNAF_of_m_var n (naf_width ec w fixed PJ)) pairs"
  define tables where "tables = map (\<lambda>x. odd_table ec (?W x) (jac_abs ec (snd x))) pairs"
  have d: "list_all2 (digits_ok ec n) (zip nafs tables) (abs_pairs ec pairs)"
  proof (rule list_all2_all_nthI)
    show "length (zip nafs tables) = length (abs_pairs ec pairs)"
      by (simp add: nafs_def tables_def abs_pairs_def)
    fix i assume "i < length (zip nafs tables)"
    then have i: "i < length pairs" by (simp add: nafs_def tables_def)
    then have p: "jgood ec n (snd (pairs ! i))" "0 \<le> fst (pairs ! i)" using g by simp_all
    note c = wNAF_correct [OF p(2) naf_width_pos [OF ok w]]
    show "digits_ok ec n (zip nafs tables ! i) (abs_pairs ec pairs ! i)"
      using i c(1) odd_table_digit [OF jgoodD(1) [OF p(1)] naf_width_pos [OF ok w] c(2)] jgoodD(1) [OF p(1)]
      by (simp add: digits_ok_def nafs_def tables_def abs_pairs_def split_beta)
  qed
  have body: "returns (rbind (aff_from_jac_batch_var ec (pending slots)) (\<lambda>aff.
        rbind (additions_by_position nafs (fill_slots slots aff) ec) (\<lambda>at_position.
          Inr (interleave ec at_position)))) (\<lambda>R. jrep ec R (ec_lc ec (abs_pairs ec pairs)))"
    if s: "(\<forall>Q\<in>set (pending slots). jrep ec Q (jac_abs ec Q))
      \<and> map (case_sum id (map (aff_of \<circ> jac_abs ec))) slots = tables" for slots
  proof -
    have "aff_from_jac_batch_var ec (pending slots) = Inr (map (aff_of \<circ> jac_abs ec) (pending slots))"
      using aff_from_jac_batch_var_correct [OF ok list_all2_map_self] s by simp
    moreover have "fill_slots slots (map (aff_of \<circ> jac_abs ec) (pending slots)) = tables"
      using fill_slots_map s by blast
    moreover have "returns (rbind (additions_by_position nafs tables ec) (\<lambda>at_position.
        Inr (interleave ec at_position))) (\<lambda>R. jrep ec R (ec_lc ec (abs_pairs ec pairs)))"
    proof (rule returns_rbind [OF additions_by_position_correct [OF P0 d]])
      show "length nafs = length tables" by (simp add: nafs_def tables_def)
      fix at' assume "\<exists>ss'. list_all2 (adds ec n) at' ss' \<and> ec_pv ec ss' = ec_lc ec (abs_pairs ec pairs)"
      then show "returns (Inr (interleave ec at')) (\<lambda>R. jrep ec R (ec_lc ec (abs_pairs ec pairs)))"
        using interleave_correct [OF P0] by fastforce
    qed
    ultimately show ?thesis by simp
  qed
  show ?thesis
  proof (cases "pairs = []")
    case True
    then show ?thesis using w multi_mult_pairs_correct [OF l m] lc
      by (simp add: multi_mult_w_NAF_var_def jrep_INFJ abs_pairs_def flip: pairs_def)
  next
    case False
    have "returns (rbind (rmap (\<lambda>(n, PJ). table_slot ec w fixed PJ) pairs) (\<lambda>slots.
        rbind (aff_from_jac_batch_var ec (pending slots)) (\<lambda>aff.
        rbind (additions_by_position nafs (fill_slots slots aff) ec) (\<lambda>at_position.
          Inr (interleave ec at_position))))) (\<lambda>R. jrep ec R (ec_lc ec (abs_pairs ec pairs)))"
      by (rule returns_rbind [OF table_slots_correct [OF g(1) ok]]) (rule body, simp add: tables_def)
    then show ?thesis using False w multi_mult_pairs_correct [OF l m] lc
      by (simp add: multi_mult_w_NAF_var_def flip: pairs_def nafs_def)
  qed
qed

section \<open>Bos and Coster\<close>

definition heap_pairs :: "('z) curve_group_scheme \<Rightarrow> int \<times> jpoint \<Rightarrow> int \<times> point" where
  "heap_pairs ec x = (- fst x, jac_abs ec (snd x))"

lemma heap_pairs_Pair [simp]: "heap_pairs ec (a, Q) = (- a, jac_abs ec Q)"
  by (simp add: heap_pairs_def)

lemma snd_heap_pairs [simp]: "snd (heap_pairs ec y) = jac_abs ec (snd y)"
  by (simp add: heap_pairs_def)

lemma euclid_step:
  assumes P: "in_order ec n P" "in_order ec n Q" "in_order ec n X"
  shows "ec_plus ec (ec_times ec b (ec_plus ec (ec_times ec (a div b) P) Q)) (ec_plus ec (ec_times ec (a mod b) P) X)
    = ec_plus ec (ec_times ec a P) (ec_plus ec (ec_times ec b Q) X)"
proof -
  let ?t = "\<lambda>k R. ec_times ec k R"
  note c = in_order_times [OF P(1)] in_order_times [OF P(2)] P(3)
  have "?t a P = ?t (b * (a div b) + a mod b) P" by simp
  also have "\<dots> = ec_plus ec (?t b (?t (a div b) P)) (?t (a mod b) P)"
    by (simp only: ecn.zm_add [OF P(1)] ecn.zm_mult [OF P(1)])
  finally have a: "?t a P = ec_plus ec (?t b (?t (a div b) P)) (?t (a mod b) P)" .
  have b: "?t b (ec_plus ec (?t (a div b) P) Q) = ec_plus ec (?t b (?t (a div b) P)) (?t b Q)"
    by (rule ecn.zm_distrib [OF c(1) P(2)])
  have o: "in_order ec n (?t b (?t (a div b) P))" by (rule in_order_times [OF c(1)])
  show ?thesis unfolding a b
    by (rule trans [OF ecn.add_swap [OF o c(2) c(1) c(3)]]) (rule refl)
qed

lemma group_mult_rel:
  assumes "in_order ec n P" "jrep ec Q P" "0 \<le> m"
  shows "returns (group_mult m Q ec) (\<lambda>R. jrep ec R (ec_times ec m P))"
proof -
  have "(1::int) \<le> MULT_W" by (simp add: MULT_W_def)
  from mult_regular_window_rel [OF in_order_ok [OF assms(1)] assms(2,3) this, of n] show ?thesis
    unfolding group_mult_def by (rule returns_mono) (rule ord_relD [OF assms(1)])
qed

lemma bos_coster_step:
  assumes "jgood ec n p1" "jgood ec n p2" "0 \<le> q"
  shows "returns (mult_jac_var q p1 ec) (\<lambda>S. jgood ec n (add_jac ec S p2)
    \<and> jac_abs ec (add_jac ec S p2) = ec_plus ec (ec_times ec q (jac_abs ec p1)) (jac_abs ec p2))"
proof (rule returns_mono [OF mult_jac_var_rel [OF jgoodD(2) [OF assms(1)] assms(3)]])
  fix S assume "mul_rel ec (jac_abs ec p1) S q"
  then have J: "jrep ec S (ec_times ec q (jac_abs ec p1))"
    using jgoodD [OF assms(1)] by (simp add: mul_rel_def in_order_def)
  have o: "in_order ec n (ec_times ec q (jac_abs ec p1))" using in_order_times jgoodD(1) assms(1) by blast
  note S = jgoodI [OF o J]
  then show "jgood ec n (add_jac ec S p2)
      \<and> jac_abs ec (add_jac ec S p2) = ec_plus ec (ec_times ec q (jac_abs ec p1)) (jac_abs ec p2)"
    using jgood_add_jac [of ec n S p2] assms(2) by simp
qed

lemma bos_coster_loop_correct:
  "x \<noteq> [] \<Longrightarrow> sorted x \<Longrightarrow> \<forall>y\<in>set x. fst y < 0 \<and> jgood ec n (snd y) \<Longrightarrow>
    returns (bos_coster_loop ec x) (\<lambda>R. jrep ec R (ec_lc ec (map (heap_pairs ec) x)))"
proof (induction ec x rule: bos_coster_loop.induct)
  case (1 ec np1 np2 x)
  define n1 p1 n2 p2 where "n1 = - fst np1" and "p1 = snd np1" and "n2 = - fst np2" and "p2 = snd np2"
  note defs = n1_def p1_def n2_def p2_def
  have pos: "0 < n2" "n2 \<le> n1"
    using 1(3,4) by (auto simp: defs less_eq_prod_def)
  have g: "jgood ec n p1" "jgood ec n p2" "\<forall>y\<in>set x. fst y < 0 \<and> jgood ec n (snd y)"
    using 1(4) by (simp_all add: defs)
  have o: "in_order ec n (jac_abs ec p1)" "in_order ec n (jac_abs ec p2)" using g(1,2) jgoodD(1) by blast+
  have cx: "in_order ec n (ec_lc ec (map (heap_pairs ec) x))"
    by (rule ecn.lc_closed' [OF o(1)]) (use g(3) in \<open>auto intro: jgoodD(1)\<close>)
  have q: "0 \<le> n1 div n2" using pos by (simp add: pos_imp_zdiv_nonneg_iff)
  obtain S where S: "mult_jac_var (n1 div n2) p1 ec = Inr S" "jgood ec n (add_jac ec S p2)"
    "jac_abs ec (add_jac ec S p2) = ec_plus ec (ec_times ec (n1 div n2) (jac_abs ec p1)) (jac_abs ec p2)"
    using bos_coster_step [OF g(1,2) q] by (auto simp: returns_def)
  define y where "y = (if 0 < n1 mod n2 then insort (- (n1 mod n2), p1) x else x)"
  have sx: "sorted x" using 1(3) by simp
  have r: "0 \<le> n1 mod n2" using pos by simp
  have gy: "\<forall>z\<in>set y. fst z < 0 \<and> jgood ec n (snd z)" using g by (auto simp: y_def set_insort_key)
  have ly: "ec_lc ec (map (heap_pairs ec) y)
      = ec_plus ec (ec_times ec (n1 mod n2) (jac_abs ec p1)) (ec_lc ec (map (heap_pairs ec) x))"
  proof (cases "0 < n1 mod n2")
    case True
    have "\<forall>z\<in>set ((- (n1 mod n2), p1) # x). in_order ec n (snd (heap_pairs ec z))"
      using g by (auto intro: jgoodD(1))
    from ecn.lc_insort [OF o(1) this] show ?thesis using True by (simp add: y_def)
  next
    case False
    then have "n1 mod n2 = 0" using r by simp
    then show ?thesis using ecn.zero_add [OF cx] by (simp add: y_def)
  qed
  let ?z = "insort (- n2, add_jac ec S p2) y"
  have gz: "\<forall>z\<in>set ?z. fst z < 0 \<and> jgood ec n (snd z)" using gy S(2) pos by (auto simp: set_insort_key)
  have "\<forall>z\<in>set ((- n2, add_jac ec S p2) # y). in_order ec n (snd (heap_pairs ec z))"
    using gy S(2) by (auto intro: jgoodD(1))
  from ecn.lc_insort [OF o(1) this]
  have lz: "ec_lc ec (map (heap_pairs ec) ?z)
      = ec_plus ec (ec_times ec n1 (jac_abs ec p1))
          (ec_plus ec (ec_times ec n2 (jac_abs ec p2)) (ec_lc ec (map (heap_pairs ec) x)))"
    using euclid_step [OF o cx, of n2 n1] ly S(3) by simp
  have sz: "sorted ?z" using sx by (simp add: y_def sorted_insort)
  have nz: "?z \<noteq> []" by (metis insort_is_Cons insort_not_Nil)
  have u: "bos_coster_loop ec (np1 # np2 # x) = bos_coster_loop ec ?z"
    using pos S(1) by (simp add: Let_def y_def flip: defs)
  have "returns (bos_coster_loop ec ?z) (\<lambda>R. jrep ec R (ec_lc ec (map (heap_pairs ec) ?z)))"
    by (rule 1(1) [OF n1_def p1_def n2_def p2_def _ S(1) refl refl y_def nz sz gz]) (use pos in simp)
  moreover have "ec_lc ec (map (heap_pairs ec) (np1 # np2 # x)) = ec_lc ec (map (heap_pairs ec) ?z)"
    unfolding lz by (simp add: heap_pairs_def [of ec np1] heap_pairs_def [of ec np2] flip: defs)
  ultimately show ?case unfolding u by simp
next
  case (2 ec np1)
  have g: "jgood ec n (snd np1)" "0 \<le> - fst np1" using 2(3) by simp_all
  note o = jgoodD(1) [OF g(1)]
  have "ec_plus ec (ec_times ec (- fst np1) (jac_abs ec (snd np1))) Inf = ec_times ec (- fst np1) (jac_abs ec (snd np1))"
    by (rule ecn.add_zero [OF in_order_times [OF o]])
  then show ?case using group_mult_rel [OF o jgoodD(2) [OF g(1)] g(2)] by (simp add: heap_pairs_def)
qed simp

lemma multi_mult_bos_coster_var_correct:
  assumes P0: "in_order ec n P0" and l: "length scalars = length Qs" "2 \<le> length scalars"
    and m: "\<forall>m\<in>set scalars. 0 \<le> m" and Q: "\<forall>Q\<in>set Qs. jgood ec n Q"
  shows "returns (multi_mult_bos_coster_var scalars Qs ec)
    (\<lambda>R. jrep ec R (ec_lc ec (abs_pairs ec (zip scalars Qs))))"
proof -
  define pairs where "pairs = filter (\<lambda>x. fst x \<noteq> 0) (zip scalars Qs)"
  have gz: "\<forall>x\<in>set (zip scalars Qs). jgood ec n (snd x) \<and> 0 \<le> fst x"
    using Q m by (auto dest: set_zip_leftD set_zip_rightD)
  then have lc: "ec_lc ec (abs_pairs ec pairs) = ec_lc ec (abs_pairs ec (zip scalars Qs))"
    unfolding pairs_def using lc_drop_zeros [OF P0] by blast
  let ?h = "map (\<lambda>(n, PJ). (- n, PJ)) pairs"
  have g: "\<forall>y\<in>set ?h. fst y < 0 \<and> jgood ec n (snd y)"
    using gz by (fastforce simp: pairs_def)
  then have "\<forall>y\<in>set ?h. in_order ec n (snd (heap_pairs ec y))" by (simp add: heap_pairs_def jgoodD(1))
  from ecn.lc_sort [OF P0 this] have "ec_lc ec (map (heap_pairs ec) (sort ?h)) = ec_lc ec (map (heap_pairs ec) ?h)" .
  also have "map (heap_pairs ec) ?h = abs_pairs ec pairs"
    by (simp add: abs_pairs_def heap_pairs_def split_beta comp_def)
  finally have e: "ec_lc ec (map (heap_pairs ec) (sort ?h)) = ec_lc ec (abs_pairs ec (zip scalars Qs))"
    using lc by simp
  show ?thesis
  proof (cases "pairs = []")
    case True
    then show ?thesis using multi_mult_pairs_correct [OF l m] lc
      by (simp add: multi_mult_bos_coster_var_def jrep_INFJ abs_pairs_def flip: pairs_def)
  next
    case False
    then have "length (sort ?h) \<noteq> 0" by (simp only: length_sort length_map length_0_conv not_False_eq_True)
    then have "sort ?h \<noteq> []" by (simp only: length_0_conv not_False_eq_True)
    then have "returns (bos_coster_loop ec (sort ?h)) (\<lambda>R. jrep ec R (ec_lc ec (map (heap_pairs ec) (sort ?h))))"
      by (rule bos_coster_loop_correct [where n = n]) (use g in simp_all)
    then show ?thesis using False multi_mult_pairs_correct [OF l m] unfolding e
      by (simp add: multi_mult_bos_coster_var_def flip: pairs_def)
  qed
qed

lemma multi_mult_var_correct:
  assumes "in_order ec n P0" "length scalars = length Qs" "2 \<le> length scalars"
    and "\<forall>m\<in>set scalars. 0 \<le> m" "\<forall>Q\<in>set Qs. jgood ec n Q"
  shows "returns (multi_mult_var scalars Qs ec) (\<lambda>R. jrep ec R (ec_lc ec (abs_pairs ec (zip scalars Qs))))"
  using multi_mult_w_NAF_var_correct [OF assms, of MULTI_MULT_W "ec_fixed_points ec"]
    multi_mult_bos_coster_var_correct [OF assms]
  by (simp add: multi_mult_var_def MULTI_MULT_W_def)

section \<open>Shamir and Strauss\<close>

definition lin2 :: "('z) curve_group_scheme \<Rightarrow> point \<Rightarrow> point \<Rightarrow> int \<times> int \<Rightarrow> point" where
  "lin2 ec H Q ab = ec_plus ec (ec_times ec (fst ab) H) (ec_times ec (snd ab) Q)"

lemma lin2_step:
  assumes ok: "curve_ok ec" and "ec_on ec H" "ec_on ec Q"
  shows "ec_plus ec (ec_plus ec (lin2 ec H Q (a, b)) (lin2 ec H Q (a, b))) (lin2 ec H Q (c, d))
    = lin2 ec H Q (2 * a + c, 2 * b + d)" and "ec_on ec (lin2 ec H Q (a, b))"
proof -
  have H: "curve_ok ec \<and> ec_on ec H" and Q: "curve_ok ec \<and> ec_on ec Q" using assms by simp_all
  note c = ecc.zm_closed [OF H] ecc.zm_closed [OF Q]
  show "ec_on ec (lin2 ec H Q (a, b))" using ecc.add_closed [OF c] by (simp add: lin2_def)
  have "ec_plus ec (lin2 ec H Q (a, b)) (lin2 ec H Q (a, b)) = lin2 ec H Q (2 * a, 2 * b)"
    using ecc.add_swap [OF c(1) c(2) c(1) c(2)] ecc.zm_Suc_double [OF H] ecc.zm_Suc_double [OF Q]
    by (simp add: lin2_def)
  then show "ec_plus ec (ec_plus ec (lin2 ec H Q (a, b)) (lin2 ec H Q (a, b))) (lin2 ec H Q (c, d))
    = lin2 ec H Q (2 * a + c, 2 * b + d)"
    using ecc.add_swap [OF c(1) c(2) c(1) c(2)] ecc.zm_add [OF H] ecc.zm_add [OF Q]
    by (simp add: lin2_def)
qed

lemma joint_digits_correct:
  assumes "0 \<le> u" "0 \<le> v"
  shows "foldl (\<lambda>(a, b) d. (2 * a + d mod 2, 2 * b + d div 2)) (0, 0) (joint_digits u v) = (u, v)"
    and "\<forall>d\<in>set (joint_digits u v). 0 \<le> d \<and> d < 4" and "joint_digits u v \<noteq> []"
proof -
  define ds es where "ds = convert_number_to_base_var u 2" and "es = convert_number_to_base_var v 2"
  define k where "k = max (length ds) (length es)"
  note c = convert_number_to_base_var_correct [OF assms(1), of 2, simplified, folded ds_def]
    convert_number_to_base_var_correct [OF assms(2), of 2, simplified, folded es_def]
  have z: "horner 2 (zfill xs k) = horner 2 xs" "\<forall>d\<in>set xs. 0 \<le> d \<and> d < 2 \<Longrightarrow> \<forall>d\<in>set (zfill xs k). 0 \<le> d \<and> d < 2"
    for xs :: "int list" and k
  proof -
    have "foldl (\<lambda>acc d. 2 * acc + d) (0::int) (replicate j 0) = 0" for j by (induction j) simp_all
    then show "horner 2 (zfill xs k) = horner 2 xs" by (simp add: horner_def zfill_def)
  qed (auto simp: zfill_def)
  have f: "foldl (\<lambda>(a, b) d. (2 * a + d mod 2, 2 * b + d div 2)) (a, b) (map2 (\<lambda>j k. j + 2 * k) xs ys)
      = (foldl (\<lambda>acc d. 2 * acc + d) a xs, foldl (\<lambda>acc d. 2 * acc + d) b ys)"
    if "length xs = length ys" "\<forall>d\<in>set xs. 0 \<le> d \<and> d < 2" for xs ys :: "int list" and a b
    using that by (induction xs ys arbitrary: a b rule: list_induct2) (auto simp: div_add1_eq)
  have e: "joint_digits u v = map2 (\<lambda>j k. j + 2 * k) (zfill ds k) (zfill es k)"
    by (cases "length ds \<le> length es")
      (simp_all add: joint_digits_def Let_def zfill_def k_def max_def flip: ds_def es_def)
  have l: "length (zfill ds k) = length (zfill es k)" by (simp add: zfill_def k_def)
  have ranges: "\<forall>d\<in>set (zfill ds k). 0 \<le> d \<and> d < 2" "\<forall>d\<in>set (zfill es k). 0 \<le> d \<and> d < 2"
    using c z(2) by blast+
  show "foldl (\<lambda>(a, b) d. (2 * a + d mod 2, 2 * b + d div 2)) (0, 0) (joint_digits u v) = (u, v)"
    unfolding e f [OF l ranges(1)] using z(1) c by (simp add: horner_def)
  show "\<forall>d\<in>set (joint_digits u v). 0 \<le> d \<and> d < 4"
  proof
    fix d assume "d \<in> set (joint_digits u v)"
    then obtain j k' where d: "d = j + 2 * k'" "(j, k') \<in> set (zip (zfill ds k) (zfill es k))"
      unfolding e by auto
    then show "0 \<le> d \<and> d < 4" using ranges set_zip_leftD [OF d(2)] set_zip_rightD [OF d(2)] by fastforce
  qed
  show "joint_digits u v \<noteq> []" unfolding e using l c(3) by (auto simp: zfill_def k_def)
qed

lemma double_mult_shamir_correct:
  assumes ok: "curve_ok ec" and J: "jrep ec HJ H" "jrep ec QJ Q" and uv: "0 \<le> u" "0 \<le> v"
  shows "returns (double_mult_shamir u HJ v QJ ec)
    (\<lambda>R. jrep ec R (ec_plus ec (ec_times ec u H) (ec_times ec v Q)))"
proof -
  have H: "curve_ok ec \<and> ec_on ec H" and Q: "curve_ok ec \<and> ec_on ec Q" using ok J jrep_on by blast+
  define T where "T = [INFJ, HJ, QJ, add_jac ec HJ QJ]"
  note j = joint_digits_correct [OF uv]
  obtain d ds where ds: "joint_digits u v = d # ds" using j(3) by (meson list.exhaust)
  have look: "returns (py_nth T d) (\<lambda>t. jrep ec t (lin2 ec H Q (d mod 2, d div 2)))"
    if "d \<in> set (joint_digits u v)" for d
  proof -
    have "0 \<le> d \<and> d < 4" using j(2) that by blast
    then consider "d = 0" | "d = 1" | "d = 2" | "d = 3" by linarith
    then show ?thesis
      using jrep_add_jac [OF ok J] J jrep_INFJ ecc.zm_1 [OF H] ecc.zm_1 [OF Q] ecc.add_zero [OF H] ecc.zero_add [OF Q]
      by cases (simp_all add: T_def lin2_def numeral_3_eq_3 numeral_2_eq_2)
  qed
  have "returns (rbind (py_nth T d) (\<lambda>R. rfold (\<lambda>R i.
      rbind (py_nth T i) (\<lambda>t. Inr (add_jac ec (double_jac ec R) t))) R ds))
      (\<lambda>R. jrep ec R (lin2 ec H Q (foldl (\<lambda>(a, b) d. (2 * a + d mod 2, 2 * b + d div 2))
         (d mod 2, d div 2) ds)))"
  proof (rule returns_rbind [OF look])
    show "d \<in> set (joint_digits u v)" by (simp add: ds)
    fix R assume R: "jrep ec R (lin2 ec H Q (d mod 2, d div 2))"
    show "returns (rfold (\<lambda>R i. rbind (py_nth T i) (\<lambda>t. Inr (add_jac ec (double_jac ec R) t))) R ds)
      (\<lambda>R. jrep ec R (lin2 ec H Q (foldl (\<lambda>(a, b) d. (2 * a + d mod 2, 2 * b + d div 2))
         (d mod 2, d div 2) ds)))"
    proof (rule returns_rfold [where I = "\<lambda>R ab. jrep ec R (lin2 ec H Q ab)"], rule R)
      fix i R and ab :: "int \<times> int" assume i: "i \<in> set ds" and R: "jrep ec R (lin2 ec H Q ab)"
      obtain a b where ab: "ab = (a, b)" by (cases ab)
      have i': "i \<in> set (joint_digits u v)" using i by (simp add: ds)
      have D: "jrep ec (double_jac ec R) (ec_plus ec (lin2 ec H Q (a, b)) (lin2 ec H Q (a, b)))"
        using jrep_double_jac [OF ok R] ab by simp
      have "jrep ec (add_jac ec (double_jac ec R) t) (lin2 ec H Q (2 * a + i mod 2, 2 * b + i div 2))"
        if "jrep ec t (lin2 ec H Q (i mod 2, i div 2))" for t
        using jrep_add_jac [OF ok D that] lin2_step(1) [OF ok] H Q by simp
      then show "returns (rbind (py_nth T i) (\<lambda>t. Inr (add_jac ec (double_jac ec R) t)))
          (\<lambda>s'. jrep ec s' (lin2 ec H Q ((\<lambda>(a, b) d. (2 * a + d mod 2, 2 * b + d div 2)) ab i)))"
        unfolding ab prod.case by (intro returns_rbind [OF look [OF i']]) simp
    qed
  qed
  moreover have "foldl (\<lambda>(a, b) d. (2 * a + d mod 2, 2 * b + d div 2)) (d mod 2, d div 2) ds = (u, v)"
    using j(1) by (simp add: ds)
  ultimately have "returns (rbind (py_nth T d) (\<lambda>R. rfold (\<lambda>R i.
      rbind (py_nth T i) (\<lambda>t. Inr (add_jac ec (double_jac ec R) t))) R ds))
      (\<lambda>R. jrep ec R (lin2 ec H Q (u, v)))" by simp
  then show ?thesis using uv by (simp add: double_mult_shamir_def ds lin2_def Let_def flip: T_def)
qed

end
