(* ===== verification/Mult_Variants.thy ===== *)
theory Mult_Variants
  imports Multi_Mult_Correct
begin

unbundle bit_operations_syntax

text \<open>
  Model of \<^verbatim>\<open>src/btclib_ecc/curves/curve_group_2.py\<close>: the sliding window, the wNAF, the double
  multiplication over the regular window, and on secp256k1 the decomposition of a scalar along the
  endomorphism \<open>(x, y) \<mapsto> (\<beta> x, y)\<close> with the multiplications built on it.
\<close>

section \<open>Sliding window\<close>

definition sliding_window_table :: "jpoint \<Rightarrow> ('z) curve_group_scheme \<Rightarrow> int \<Rightarrow> jpoint list" where
  "sliding_window_table Q ec w =
     foldl (\<lambda>T _. T @ [add_jac ec (last T) Q]) [(double_jac ec ^^ nat (w - 1)) Q] [1..<2 ^ nat (w - 1)]"

definition double_and_add_var :: "jpoint \<Rightarrow> jpoint \<Rightarrow> int list \<Rightarrow> ('z) curve_group_scheme \<Rightarrow> jpoint" where
  "double_and_add_var R Q digits ec =
     foldl (\<lambda>R digit. let R = double_jac ec R in if digit = 1 then add_jac ec R Q else R) R digits"

text \<open>The loop on the digits from the index \<open>i\<close> on; the window it takes is one digit and \<open>w - 1\<close> more.\<close>

function sliding_loop ::
  "jpoint list \<Rightarrow> jpoint \<Rightarrow> ('z) curve_group_scheme \<Rightarrow> nat \<Rightarrow> jpoint \<Rightarrow> int list \<Rightarrow> jpoint result" where
  "sliding_loop T Q ec w R [] = Inr R"
| "sliding_loop T Q ec w R (d # ds) =
     (if d = 0 then sliding_loop T Q ec w (double_jac ec R) ds
      else if length (d # ds) < w then Inr (double_and_add_var R Q (d # ds) ec)
      else let t = foldl (\<lambda>t d. 2 * t + d) 0 (take w (d # ds)) in
        rbind (py_nth T (t - 2 ^ (w - 1))) (\<lambda>x.
          sliding_loop T Q ec w (add_jac ec ((double_jac ec ^^ w) R) x) (drop (w - 1) ds)))"
  by pat_completeness auto
termination by (relation "measure (\<lambda>(T, Q, ec, w, R, ds). length ds)") auto

definition mult_sliding_window_var ::
  "int \<Rightarrow> jpoint \<Rightarrow> ('z) curve_group_scheme \<Rightarrow> int \<Rightarrow> jpoint result" where
  "mult_sliding_window_var m Q ec w =
     (if m < 0 then Inl (BTClibEccValueError ''negative m'')
      else if w \<le> 0 then Inl (BTClibEccValueError ''non positive w'')
      else sliding_loop (sliding_window_table Q ec w) Q ec (nat w) INFJ (convert_number_to_base_var m 2))"

section \<open>wNAF\<close>

definition wnaf_table :: "jpoint \<Rightarrow> ('z) curve_group_scheme \<Rightarrow> int \<Rightarrow> jpoint list" where
  "wnaf_table Q ec w =
     (let b = 2 ^ nat w; Q2 = double_jac ec Q;
        T = foldl (\<lambda>T i. T @ [add_jac ec (T ! (i - 1)) Q2]) [Q] [1..<b div 4]
      in foldl (\<lambda>T i. T @ [negate_jac ec (T ! (i - b div 4))]) T [b div 4..<b div 2])"

definition wnaf_index :: "int \<Rightarrow> int \<Rightarrow> int" where
  "wnaf_index w d =
     (if 0 < d then (d - 1) div 2
      else if w = 1 then 1
      else 2 ^ nat w div 4 - (d + 1) div 2)"

definition mult_w_NAF_var :: "int \<Rightarrow> jpoint \<Rightarrow> ('z) curve_group_scheme \<Rightarrow> int \<Rightarrow> jpoint result" where
  "mult_w_NAF_var m Q ec w =
     (if m < 0 then Inl (BTClibEccValueError ''negative m'')
      else if w \<le> 0 then Inl (BTClibEccValueError ''non positive w'')
      else let T = wnaf_table Q ec w in
        rfold (\<lambda>R d. let R = double_jac ec R in
            if d = 0 then Inr R
            else rbind (py_nth T (wnaf_index w d)) (\<lambda>t. Inr (add_jac ec R t)))
          INFJ (rev (wNAF_of_m_var m w)))"

definition double_mult_w_NAF_var ::
  "int \<Rightarrow> jpoint \<Rightarrow> int \<Rightarrow> jpoint \<Rightarrow> ('z) curve_group_scheme \<Rightarrow> int \<Rightarrow> jpoint set \<Rightarrow> jpoint result" where
  "double_mult_w_NAF_var u HJ v QJ ec w fixed =
     (if u < 0 then Inl (BTClibEccValueError ''negative first coefficient'')
      else if v < 0 then Inl (BTClibEccValueError ''negative second coefficient'')
      else if w \<le> 0 then Inl (BTClibEccValueError ''non positive w'')
      else multi_mult_w_NAF_var [u, v] [HJ, QJ] ec w fixed)"

section \<open>Double multiplication over the regular window\<close>

definition double_mult_regular_window ::
  "int \<Rightarrow> jpoint \<Rightarrow> int \<Rightarrow> jpoint \<Rightarrow> ('z) curve_group_scheme \<Rightarrow> int \<Rightarrow> nat \<Rightarrow> jpoint result" where
  "double_mult_regular_window u HJ v QJ ec w scalar_len =
     (if u < 0 then Inl (BTClibEccValueError ''negative first coefficient'')
      else if v < 0 then Inl (BTClibEccValueError ''negative second coefficient'')
      else if w \<le> 0 then Inl (BTClibEccValueError ''non positive w'')
      else
        let bits = max (max (if scalar_len \<noteq> 0 then scalar_len else ec_scalar_len ec) (bit_length u)) (bit_length v);
          sz = ceil_div (int bits) w in
        rbind (signed_odd_digits (u OR 1) w sz) (\<lambda>us.
        rbind (signed_odd_digits (v OR 1) w sz) (\<lambda>vs.
        rbind (signed_odd_multiples_aff HJ ec w) (\<lambda>TH.
        rbind (signed_odd_multiples_aff QJ ec w) (\<lambda>TQ.
        let offset = 2 ^ nat w - 1 in
        rbind (py_nth us (- 1)) (\<lambda>du.
        rbind (py_nth TH ((du + offset) div 2)) (\<lambda>A.
        rbind (py_nth vs (- 1)) (\<lambda>dv.
        rbind (py_nth TQ ((dv + offset) div 2)) (\<lambda>B.
        rbind (rfold (\<lambda>R (du, dv).
            rbind (py_nth TH ((du + offset) div 2)) (\<lambda>a.
            rbind (py_nth TQ ((dv + offset) div 2)) (\<lambda>b.
              Inr (add_jac_aff ec (add_jac_aff ec ((double_jac ec ^^ nat w) R) a) b))))
          (add_jac_aff ec (jac_from_aff A) B) (zip (tl (rev us)) (tl (rev vs)))) (\<lambda>R.
        Inr (parity_correction ec v QJ (parity_correction ec u HJ R))))))))))))"

section \<open>The endomorphism of secp256k1\<close>

definition secp_N :: int where
  "secp_N = 0xFFFFFFFFFFFFFFFFFFFFFFFFFFFFFFFEBAAEDCE6AF48A03BBFD25E8CD0364141"
definition secp_LAM :: int where
  "secp_LAM = 0x5363AD4CC05C30E0A5261C028812645A122E22EA20816678DF02967C1B23BD72"
definition secp_BETA :: int where
  "secp_BETA = 0x7AE96A2B657C07106E64479EAC3434E99CF0497512F58995C1396C28719501EE"
definition secp_A1 :: int where "secp_A1 = 0x3086D221A7D46BCDE86C90E49284EB15"
definition secp_B1 :: int where "secp_B1 = - 0xE4437ED6010E88286F547FA90ABFE4C3"
definition secp_A2 :: int where "secp_A2 = 0x114CA50F7A8E2F3F657C1108D9D44CFD8"
definition secp_B2 :: int where "secp_B2 = 0x3086D221A7D46BCDE86C90E49284EB15"

definition multiplier_decomposer :: "int \<Rightarrow> int \<times> int" where
  "multiplier_decomposer m =
     (let m = m mod secp_N;
        c1 = (secp_B2 * m + secp_N div 2) div secp_N;
        c2 = (- secp_B1 * m + secp_N div 2) div secp_N;
        m1 = m - c1 * secp_A1 - c2 * secp_A2;
        m2 = - c1 * secp_B1 - c2 * secp_B2
      in (m1, m2))"

definition HALF_LEN :: nat where "HALF_LEN = 128"

definition endomorphism_split_secp256k1 ::
  "int \<Rightarrow> jpoint \<Rightarrow> ('z) curve_group_scheme \<Rightarrow> int \<times> jpoint \<times> int \<times> jpoint" where
  "endomorphism_split_secp256k1 m Q ec =
     (let (m1, m2) = multiplier_decomposer m;
        K = (fst Q * secp_BETA mod ec_p ec, fst (snd Q), snd (snd Q));
        P = (if m1 < 0 then negate_jac ec Q else Q);
        K = (if m2 < 0 then negate_jac ec K else K)
      in (\<bar>m1\<bar>, P, \<bar>m2\<bar>, K))"

definition mult_endomorphism_secp256k1 ::
  "int \<Rightarrow> jpoint \<Rightarrow> ('z) curve_group_scheme \<Rightarrow> int \<Rightarrow> jpoint result" where
  "mult_endomorphism_secp256k1 m Q ec w =
     (if m < 0 then Inl (BTClibEccValueError ''negative m'')
      else let (m1, P, m2, K) = endomorphism_split_secp256k1 m Q ec
        in double_mult_regular_window m1 P m2 K ec w HALF_LEN)"

definition mult_endomorphism_secp256k1_var ::
  "int \<Rightarrow> jpoint \<Rightarrow> ('z) curve_group_scheme \<Rightarrow> int \<Rightarrow> jpoint result" where
  "mult_endomorphism_secp256k1_var m Q ec w =
     (if m < 0 then Inl (BTClibEccValueError ''negative m'')
      else let (m1, P, m2, K) = endomorphism_split_secp256k1 m Q ec
        in double_mult_w_NAF_var m1 P m2 K ec w (ec_fixed_points ec))"

definition double_mult_endomorphism_secp256k1_var ::
  "int \<Rightarrow> jpoint \<Rightarrow> int \<Rightarrow> jpoint \<Rightarrow> ('z) curve_group_scheme \<Rightarrow> int \<Rightarrow> jpoint set \<Rightarrow> jpoint result" where
  "double_mult_endomorphism_secp256k1_var u HJ v QJ ec w fixed =
     (if u < 0 then Inl (BTClibEccValueError ''negative first coefficient'')
      else if v < 0 then Inl (BTClibEccValueError ''negative second coefficient'')
      else
        let (u1, U1, u2, U2) = endomorphism_split_secp256k1 u HJ ec;
          (v1, V1, v2, V2) = endomorphism_split_secp256k1 v QJ ec;
          fixed1 = (if HJ \<in> fixed then fixed \<union> {U1, U2} else fixed);
          fixed2 = (if QJ \<in> fixed1 then fixed1 \<union> {V1, V2} else fixed1)
        in multi_mult_w_NAF_var [u1, u2, v1, v2] [U1, U2, V1, V2] ec w fixed2)"

end
