(* ===== verification/Mult_Variants_Correct.thy ===== *)
theory Mult_Variants_Correct
  imports Mult_Variants
begin

unbundle bit_operations_syntax

text \<open>
  Correctness of the multiplications of \<open>Mult_Variants\<close>; for the endomorphism, that the decomposition
  is exact and short, and that the multiplications built on it are right for every point on which the
  map \<open>(x, y) \<mapsto> (\<beta> x, y)\<close> acts as \<open>\<lambda>\<close>.
\<close>

section \<open>Sliding window\<close>

lemma double_and_add_rel:
  assumes "mul_rel ec P Q 1"
  shows "mul_rel ec P R v \<Longrightarrow> \<forall>d\<in>set ds. d = 0 \<or> d = 1 \<Longrightarrow>
    mul_rel ec P (double_and_add_var R Q ds ec) (foldl (\<lambda>k d. 2 * k + d) v ds)"
  unfolding double_and_add_var_def
proof (rule foldl_rel [where I = "mul_rel ec P"], assumption)
  fix d :: int and R k assume d: "\<forall>d\<in>set ds. d = 0 \<or> d = 1" "d \<in> set ds" and R: "mul_rel ec P R k"
  have "mul_rel ec P (add_jac ec (double_jac ec R) Q) (2 * k + 1)"
    by (rule mj.rep_add [OF mj.rep_dbl [OF R] assms])
  then show "mul_rel ec P (let R = double_jac ec R in if d = 1 then add_jac ec R Q else R) (2 * k + d)"
    using d mj.rep_dbl [OF R] by (auto simp: Let_def)
qed

lemma sliding_window_table_correct:
  assumes "mul_rel ec P Q 1" "1 \<le> w"
  shows "length (sliding_window_table Q ec w) = 2 ^ nat (w - 1)"
    and "\<And>i. i < 2 ^ nat (w - 1) \<Longrightarrow>
      mul_rel ec P (sliding_window_table Q ec w ! i) (2 ^ nat (w - 1) + int i)"
proof -
  define D where "D = (double_jac ec ^^ nat (w - 1)) Q"
  define T where "T k = foldl (\<lambda>T _. T @ [add_jac ec (last T) Q]) [D] [1..<Suc k]" for k
  have D: "mul_rel ec P D (2 ^ nat (w - 1))" using mj.rep_dbls [OF assms(1)] by (simp add: D_def)
  have T: "length (T k) = Suc k \<and> (\<forall>i<Suc k. mul_rel ec P (T k ! i) (2 ^ nat (w - 1) + int i))" for k
  proof (induction k)
    case 0
    then show ?case using D by (simp add: T_def)
  next
    case (Suc k)
    then have l: "last (T k) = T k ! k" by (cases "T k = []") (simp_all add: last_conv_nth)
    have "mul_rel ec P (add_jac ec (last (T k)) Q) (2 ^ nat (w - 1) + int k + 1)"
      using Suc.IH assms(1) unfolding l by (intro mj.rep_add) auto
    then have a: "mul_rel ec P (add_jac ec (last (T k)) Q) (2 ^ nat (w - 1) + int (length (T k)))"
      using Suc.IH by (simp add: algebra_simps)
    have e: "T (Suc k) = T k @ [add_jac ec (last (T k)) Q]" by (simp add: T_def)
    have "mul_rel ec P (T (Suc k) ! i) (2 ^ nat (w - 1) + int i)" if "i < Suc (Suc k)" for i
      unfolding e
      by (rule all_nth_snoc [where P = "\<lambda>i t. mul_rel ec P t (2 ^ nat (w - 1) + int i)"])
        (use that a Suc.IH in simp_all)
    then show ?case using Suc.IH e by simp
  qed
  have "Suc (2 ^ nat (w - 1) - 1) = (2::nat) ^ nat (w - 1)" by simp
  then have e: "sliding_window_table Q ec w = T (2 ^ nat (w - 1) - 1)"
    by (simp only: sliding_window_table_def T_def D_def)
  show "length (sliding_window_table Q ec w) = 2 ^ nat (w - 1)"
    and "\<And>i. i < 2 ^ nat (w - 1) \<Longrightarrow>
      mul_rel ec P (sliding_window_table Q ec w ! i) (2 ^ nat (w - 1) + int i)"
    using T [of "2 ^ nat (w - 1) - 1"] by (simp_all add: e)
qed

lemma binary_window:
  assumes "d \<noteq> 0" "\<forall>x\<in>set (d # ds). x = 0 \<or> x = (1::int)"
  shows "2 ^ length ds \<le> horner 2 (d # ds)" "horner 2 (d # ds) < 2 ^ Suc (length ds)"
proof -
  have b: "0 \<le> horner 2 xs \<and> horner 2 xs < 2 ^ length xs" if "\<forall>x\<in>set xs. x = 0 \<or> x = (1::int)" for xs
    using that by (induction xs) (auto simp: horner_Cons horner_def [of _ "[]"])
  have "d = 1" using assms by auto
  then show "2 ^ length ds \<le> horner 2 (d # ds)" "horner 2 (d # ds) < 2 ^ Suc (length ds)"
    using b [of ds] assms(2) by (simp_all add: horner_Cons)
qed

lemma sliding_loop_rel:
  assumes Q: "mul_rel ec P Q 1" and w: "1 \<le> w"
    and T: "length T = 2 ^ (w - 1)" "\<And>i. i < 2 ^ (w - 1) \<Longrightarrow> mul_rel ec P (T ! i) (2 ^ (w - 1) + int i)"
  shows "mul_rel ec P R v \<Longrightarrow> \<forall>d\<in>set ds. d = 0 \<or> d = 1 \<Longrightarrow>
    returns (sliding_loop T Q ec w R ds) (\<lambda>S. mul_rel ec P S (foldl (\<lambda>k d. 2 * k + d) v ds))"
proof (induction ds arbitrary: R v rule: length_induct)
  case (1 ds)
  have IH: "\<And>ys R v. length ys < length ds \<Longrightarrow> mul_rel ec P R v \<Longrightarrow> \<forall>d\<in>set ys. d = 0 \<or> d = 1 \<Longrightarrow>
      returns (sliding_loop T Q ec w R ys) (\<lambda>S. mul_rel ec P S (foldl (\<lambda>k d. 2 * k + d) v ys))"
    using 1(1) by blast
  note R = 1(2) and ds = 1(3)
  show ?case
  proof (cases ds)
    case Nil
    then show ?thesis using R by simp
  next
    case (Cons d es)
    consider "d = 0" | "d \<noteq> 0" "length ds < w" | "d \<noteq> 0" "w \<le> length ds" by linarith
    then show ?thesis
    proof cases
      case 1
      have "returns (sliding_loop T Q ec w (double_jac ec R) es)
          (\<lambda>S. mul_rel ec P S (foldl (\<lambda>k d. 2 * k + d) (2 * v) es))"
        by (rule IH) (use Cons ds mj.rep_dbl [OF R] in simp_all)
      then show ?thesis using 1 Cons by simp
    next
      case 2
      then show ?thesis using double_and_add_rel [OF Q R ds] Cons by simp
    next
      case 3
      obtain u where u: "w = Suc u" using w by (cases w) auto
      let ?ws = "take w ds" and ?rest = "drop w ds"
      let ?t = "horner 2 ?ws"
      have ws: "?ws = d # take u es" using Cons u by simp
      have lw: "length (take u es) = u" using 3 Cons u by simp
      have bits: "\<forall>x\<in>set (d # take u es). x = 0 \<or> x = 1"
        using ds Cons by (auto dest: in_set_takeD)
      have t: "2 ^ (w - 1) \<le> ?t" "?t < 2 * 2 ^ (w - 1)"
        using binary_window [OF 3(1) bits] lw u ws by simp_all
      then have "mul_rel ec P (T ! nat (?t - 2 ^ (w - 1))) (2 ^ (w - 1) + int (nat (?t - 2 ^ (w - 1))))"
        by (intro T(2)) (simp add: nat_less_iff)
      then have x: "mul_rel ec P (T ! nat (?t - 2 ^ (w - 1))) ?t" using t by simp
      define x where "x = T ! nat (?t - 2 ^ (w - 1))"
      have ix: "py_nth T (?t - 2 ^ (w - 1)) = Inr x" using t T(1) by (simp add: x_def)
      have R': "mul_rel ec P (add_jac ec ((double_jac ec ^^ w) R) x) (2 ^ w * v + ?t)"
        using mj.rep_add [OF mj.rep_dbls [OF R]] x unfolding x_def by blast
      have v: "2 ^ w * v + ?t = foldl (\<lambda>k d. 2 * k + d) v ?ws"
      proof -
        have "length ?ws = w" using 3 by simp
        then show ?thesis unfolding foldl_horner [of 2 v ?ws] horner_def by (simp only: mult.commute)
      qed
      have "length ?rest < length ds" using Cons w by simp
      moreover have "\<forall>d\<in>set ?rest. d = 0 \<or> d = 1" using ds by (auto dest: in_set_dropD)
      ultimately have "returns (sliding_loop T Q ec w (add_jac ec ((double_jac ec ^^ w) R) x) ?rest)
          (\<lambda>S. mul_rel ec P S (foldl (\<lambda>k d. 2 * k + d) (foldl (\<lambda>k d. 2 * k + d) v ?ws) ?rest))"
        using IH R' unfolding v by blast
      moreover have "foldl (\<lambda>k d. 2 * k + d) (foldl (\<lambda>k d. 2 * k + d) v ?ws) ?rest
          = foldl (\<lambda>k d. 2 * k + d) v ds"
        by (simp only: foldl_append [symmetric] append_take_drop_id)
      moreover have "sliding_loop T Q ec w R ds
          = sliding_loop T Q ec w (add_jac ec ((double_jac ec ^^ w) R) x) ?rest"
        using 3 Cons ix u by (simp add: horner_def)
      ultimately show ?thesis by simp
    qed
  qed
qed

lemma mult_sliding_window_var_rel:
  assumes "jrep ec Q P" "0 \<le> m" "1 \<le> w"
  shows "returns (mult_sliding_window_var m Q ec w) (\<lambda>R. mul_rel ec P R m)"
proof -
  note c = convert_number_to_base_var_correct [of m 2, OF assms(2), simplified]
  have Q: "mul_rel ec P Q 1" using assms(1) by (rule mul_rel_1)
  have w: "nat w - 1 = nat (w - 1)" "1 \<le> nat w" using assms(3) by simp_all
  have "\<forall>d\<in>set (convert_number_to_base_var m 2). d = 0 \<or> d = 1" using c(1) by force
  then have "returns (sliding_loop (sliding_window_table Q ec w) Q ec (nat w) INFJ (convert_number_to_base_var m 2))
      (\<lambda>S. mul_rel ec P S (foldl (\<lambda>k d. 2 * k + d) 0 (convert_number_to_base_var m 2)))"
    by (intro sliding_loop_rel [OF Q w(2) sliding_window_table_correct [OF Q assms(3), folded w(1)]])
      (simp_all add: mj.rep_inf)
  then show ?thesis using c(2) assms(2,3) by (simp add: mult_sliding_window_var_def horner_def)
qed

section \<open>wNAF\<close>

lemma wnaf_table_correct:
  assumes "mul_rel ec P Q 1" "1 \<le> w" and d: "d mod 2 = 1" "\<bar>d\<bar> \<le> 2 ^ nat (w - 1)" "2 \<le> w \<longrightarrow> \<bar>d\<bar> < 2 ^ nat (w - 1)"
  shows "returns (py_nth (wnaf_table Q ec w) (wnaf_index w d)) (\<lambda>t. mul_rel ec P t d)"
proof -
  define b :: nat where "b = 2 ^ nat w"
  define q where "q = b div 4"
  define p where "p = max 1 q"
  define Q2 where "Q2 = double_jac ec Q"
  define T where "T k = foldl (\<lambda>T i. T @ [add_jac ec (T ! (i - 1)) Q2]) [Q] [1..<Suc k]" for k
  define U where "U k = foldl (\<lambda>T i. T @ [negate_jac ec (T ! (i - q))]) (T (p - 1)) [q..<q + k]" for k
  have Q2: "mul_rel ec P Q2 2" using mj.rep_dbl [OF assms(1)] by (simp add: Q2_def)
  have T: "length (T k) = Suc k \<and> (\<forall>i<Suc k. mul_rel ec P (T k ! i) (2 * int i + 1))" for k
  proof (induction k)
    case 0
    then show ?case using assms(1) by (simp add: T_def)
  next
    case (Suc k)
    have "mul_rel ec P (add_jac ec (T k ! k) Q2) (2 * int k + 1 + 2)"
      using Suc.IH Q2 by (intro mj.rep_add) auto
    then have a: "mul_rel ec P (add_jac ec (T k ! k) Q2) (2 * int (length (T k)) + 1)"
      using Suc.IH by (simp add: algebra_simps)
    have e: "T (Suc k) = T k @ [add_jac ec (T k ! k) Q2]" by (simp add: T_def)
    have "mul_rel ec P (T (Suc k) ! i) (2 * int i + 1)" if "i < Suc (Suc k)" for i
      unfolding e
      by (rule all_nth_snoc [where P = "\<lambda>i t. mul_rel ec P t (2 * int i + 1)"]) (use that a Suc.IH in simp_all)
    then show ?case using Suc.IH e by simp
  qed
  have wq: "w = 1 \<and> q = 0 \<and> b = 2 \<or> 2 \<le> w \<and> b = 4 * q \<and> 1 \<le> q \<and> q = 2 ^ nat (w - 2)"
  proof (cases "w = 1")
    case True
    then show ?thesis by (simp add: b_def q_def)
  next
    case False
    then have "nat w = Suc (Suc (nat (w - 2)))" using assms(2) by simp
    then have "b = 4 * 2 ^ nat (w - 2)" by (simp add: b_def)
    then show ?thesis using False assms(2) by (simp add: q_def)
  qed
  have p: "b div 2 = q + p" "q \<le> p" "1 \<le> p" using wq by (auto simp: p_def)
  have U: "length (U k) = p + k \<and> take p (U k) = T (p - 1)
      \<and> (\<forall>i<k. U k ! (p + i) = negate_jac ec (T (p - 1) ! i))" if "k \<le> p" for k
    using that
  proof (induction k)
    case 0
    then show ?case using T [of "p - 1"] p by (simp add: U_def)
  next
    case (Suc k)
    have IH: "length (U k) = p + k" "take p (U k) = T (p - 1)"
      "\<forall>i<k. U k ! (p + i) = negate_jac ec (T (p - 1) ! i)" using Suc by simp_all
    have e: "U (Suc k) = U k @ [negate_jac ec (U k ! k)]" by (simp add: U_def)
    have "U k ! k = T (p - 1) ! k" using Suc.prems IH by (metis nth_take Suc_le_lessD)
    then show ?case using IH unfolding e by (auto simp: nth_append less_Suc_eq)
  qed
  have e: "wnaf_table Q ec w = U p"
  proof -
    have "[1..<q] = [1..<Suc (p - 1)]" using p by (cases q) (simp_all add: p_def)
    then show ?thesis unfolding wnaf_table_def Let_def b_def [symmetric] q_def [symmetric] Q2_def [symmetric] p(1)
      by (simp only: U_def T_def)
  qed
  note U = U [OF order_refl]
  have pos: "mul_rel ec P (U p ! i) (2 * int i + 1)" if "i < p" for i
  proof -
    have "U p ! i = T (p - 1) ! i" using U that by (metis nth_take)
    then show ?thesis using T [of "p - 1"] that p by simp
  qed
  have neg: "mul_rel ec P (U p ! (p + i)) (- (2 * int i + 1))" if "i < p" for i
  proof -
    have "U p ! (p + i) = negate_jac ec (T (p - 1) ! i)" using U that by blast
    moreover have "mul_rel ec P (T (p - 1) ! i) (2 * int i + 1)" using T [of "p - 1"] that p by simp
    ultimately show ?thesis using mj.rep_neg by metis
  qed
  define h where "h = \<bar>d\<bar> div 2"
  have h: "\<bar>d\<bar> = 2 * h + 1" "0 \<le> h" using d(1) by (auto simp: h_def abs_if) presburger+
  have hp: "h < int p"
  proof (cases "w = 1")
    case True
    then show ?thesis using d(2) h p by simp
  next
    case False
    then have "2 \<le> w" using assms(2) by simp
    moreover from this have "(2::int) ^ nat (w - 1) = 2 * 2 ^ nat (w - 2)"
      using two_power_pred [of "w - 1"] by simp
    moreover have "int p = 2 ^ nat (w - 2)" using wq \<open>2 \<le> w\<close> by (auto simp: p_def)
    ultimately show ?thesis using d(3) h by simp
  qed
  show ?thesis
  proof (cases "0 < d")
    case True
    then have "wnaf_index w d = h" using h by (simp add: wnaf_index_def)
    then show ?thesis using pos [of "nat h"] hp h U True unfolding e by simp
  next
    case False
    then have dn: "d = - (2 * h + 1)" using h by simp
    have "wnaf_index w d = int p + h"
    proof (cases "w = 1")
      case True
      then show ?thesis using hp h wq False by (simp add: wnaf_index_def p_def)
    next
      case nw: False
      then have "(2::int) ^ nat w div 4 = int q" using wq by (simp add: b_def q_def flip: of_nat_power) (metis of_nat_numeral of_nat_power zdiv_int)
      moreover have "int p = int q" using nw wq by (auto simp: p_def)
      moreover have "(d + 1) div 2 = - h" unfolding dn by simp
      ultimately show ?thesis using False nw by (simp add: wnaf_index_def)
    qed
    then have "nat (wnaf_index w d) = p + nat h" "0 \<le> wnaf_index w d" "wnaf_index w d < int (length (U p))"
      using h hp U by auto
    then show ?thesis using neg [of "nat h"] hp h unfolding e dn [symmetric] by (simp add: dn)
  qed
qed

lemma mult_w_NAF_var_rel:
  assumes "jrep ec Q P" "0 \<le> m" "1 \<le> w"
  shows "returns (mult_w_NAF_var m Q ec w) (\<lambda>R. mul_rel ec P R m)"
proof -
  note n = wNAF_correct [OF assms(2,3)]
  have Q: "mul_rel ec P Q 1" using assms(1) by (rule mul_rel_1)
  let ?T = "wnaf_table Q ec w"
  let ?f = "\<lambda>R d. let R = double_jac ec R in
            if d = 0 then Inr R
            else rbind (py_nth ?T (wnaf_index w d)) (\<lambda>t. Inr (add_jac ec R t))"
  have "returns (rfold ?f INFJ (rev (wNAF_of_m_var m w)))
      (\<lambda>R. mul_rel ec P R (foldl (\<lambda>k d. 2 * k + d) 0 (rev (wNAF_of_m_var m w))))"
  proof (rule returns_rfold [where I = "mul_rel ec P"], rule mj.rep_inf)
    fix d R k assume d: "d \<in> set (rev (wNAF_of_m_var m w))" and R: "mul_rel ec P R k"
    note D = mj.rep_dbl [OF R]
    show "returns (?f R d) (\<lambda>S. mul_rel ec P S (2 * k + d))"
    proof (cases "d = 0")
      case False
      then have b: "d mod 2 = 1" "\<bar>d\<bar> \<le> 2 ^ nat (w - 1)" "2 \<le> w \<longrightarrow> \<bar>d\<bar> < 2 ^ nat (w - 1)"
        using n(2) [of d] d by auto
      have "returns (rbind (py_nth ?T (wnaf_index w d)) (\<lambda>t. Inr (add_jac ec (double_jac ec R) t)))
          (\<lambda>S. mul_rel ec P S (2 * k + d))"
        by (rule returns_rbind [OF wnaf_table_correct [OF Q assms(3) b]]) (simp add: mj.rep_add [OF D])
      then show ?thesis using False by (simp add: Let_def)
    qed (use D in simp)
  qed
  then show ?thesis using n(1) assms(2,3) unfolding le_value_snoc_foldl by (simp add: mult_w_NAF_var_def)
qed

section \<open>Two points over the regular window\<close>

lemma lin2_rules:
  assumes H: "in_order ec n H" and Q: "in_order ec n Q"
  shows "ec_times ec k (lin2 ec H Q (a, b)) = lin2 ec H Q (k * a, k * b)"
    and "ec_plus ec (lin2 ec H Q (a, b)) (ec_times ec c H) = lin2 ec H Q (a + c, b)"
    and "ec_plus ec (lin2 ec H Q (a, b)) (ec_times ec c Q) = lin2 ec H Q (a, b + c)"
    and "ec_plus ec (ec_times ec a H) (ec_times ec b Q) = lin2 ec H Q (a, b)"
    and "in_order ec n (lin2 ec H Q (a, b))"
proof -
  note t = in_order_times [OF H] in_order_times [OF Q]
  show "ec_times ec k (lin2 ec H Q (a, b)) = lin2 ec H Q (k * a, k * b)"
    using ecn.zm_distrib [OF t(1,2)] ecn.zm_mult [OF H] ecn.zm_mult [OF Q] by (simp add: lin2_def)
  show "ec_plus ec (lin2 ec H Q (a, b)) (ec_times ec c Q) = lin2 ec H Q (a, b + c)"
    using ecn.add_assoc [OF t(1,2,2)] ecn.zm_add [OF Q] by (simp add: lin2_def)
  have "ec_plus ec (ec_plus ec (ec_times ec a H) (ec_times ec b Q)) (ec_times ec c H)
      = ec_plus ec (ec_times ec a H) (ec_plus ec (ec_times ec c H) (ec_times ec b Q))"
    using ecn.add_assoc [OF t(1,2,1)] ecn.add_comm [OF t(2,1)] by simp
  then show "ec_plus ec (lin2 ec H Q (a, b)) (ec_times ec c H) = lin2 ec H Q (a + c, b)"
    using ecn.add_assoc [OF t(1,1,2)] ecn.zm_add [OF H] by (simp add: lin2_def)
qed (simp_all add: lin2_def ecn.add_closed in_order_times [OF H] in_order_times [OF Q])

lemma foldl_zip_pairs:
  assumes "length xs = length ys"
  shows "foldl (\<lambda>(a, b) (c, d). (m * a + c, m * b + d)) (a, b) (zip xs ys)
    = (foldl (\<lambda>k d. m * k + d) a xs, foldl (\<lambda>k d. m * k + d) (b :: int) ys)"
  using assms by (induction xs ys arbitrary: a b rule: list_induct2) simp_all

lemma parity_correction_lin2:
  assumes H: "in_order ec n H" and Q: "in_order ec n Q" and J: "jrep ec HJ H" "jrep ec QJ Q"
    and R: "jrep ec R (lin2 ec H Q (u OR 1, v OR 1))"
  shows "jrep ec (parity_correction ec v QJ (parity_correction ec u HJ R)) (lin2 ec H Q (u, v))"
proof -
  note r = lin2_rules [OF H Q]
  have ok: "curve_ok ec" by (rule in_order_ok [OF H])
  have mH: "jrep ec (negate_jac ec HJ) (ec_times ec (- 1) H)" and mQ: "jrep ec (negate_jac ec QJ) (ec_times ec (- 1) Q)"
    using jrep_negate_jac [OF ok J(1)] jrep_negate_jac [OF ok J(2)] ecn.zm_minus [OF H, of 1] ecn.zm_1 [OF H]
      ecn.zm_minus [OF Q, of 1] ecn.zm_1 [OF Q] by simp_all
  have corr: "jrep ec (parity_correction ec k KJ S) T" if "jrep ec S X" "in_order ec n X"
    "k mod 2 = 1 \<Longrightarrow> T = X" "k mod 2 \<noteq> 1 \<Longrightarrow> jrep ec (negate_jac ec KJ) Y \<and> T = ec_plus ec X Y"
    for k KJ S X Y T
  proof (cases "k mod 2 = 1")
    case True
    then show ?thesis using jrep_add_jac [OF ok that(1) jrep_INFJ] that(2,3) ecn.add_zero
      by (simp add: parity_correction_def)
  next
    case False
    then show ?thesis using jrep_add_jac [OF ok that(1)] that(4) by (simp add: parity_correction_def)
  qed
  have "jrep ec (parity_correction ec u HJ R) (lin2 ec H Q (u, v OR 1))"
    by (rule corr [OF R r(5), where Y = "ec_times ec (- 1) H"]) (use mH r(2) [of "u OR 1" "v OR 1" "- 1"] in \<open>simp_all add: or_one\<close>)
  then show ?thesis
    by (rule corr [OF _ r(5), where Y = "ec_times ec (- 1) Q"]) (use mQ r(3) [of u "v OR 1" "- 1"] in \<open>simp_all add: or_one\<close>)
qed

lemma signed_table_arep:
  assumes "in_order ec n P" "1 \<le> w" "odd d" "\<bar>d\<bar> < 2 ^ nat w"
  shows "returns (py_nth (signed_table ec P w) ((d + (2 ^ nat w - 1)) div 2)) (\<lambda>A. arep ec A (ec_times ec d P))"
  by (rule returns_mono [OF signed_table_lookup [OF assms(2-4), of ec P n]])
    (use assms(1) in \<open>simp add: aff_rel_def\<close>)

lemma double_window_digits:
  assumes "0 < bits" "1 \<le> w" "0 \<le> u" "bit_length u \<le> bits"
  shows "returns (signed_odd_digits (u OR 1) w (ceil_div (int bits) w)) (\<lambda>ds.
    foldl (\<lambda>k d. 2 ^ nat w * k + d) (last ds) (tl (rev ds)) = u OR 1 \<and> ds \<noteq> []
    \<and> (\<forall>d\<in>set ds. odd d \<and> \<bar>d\<bar> < 2 ^ nat w) \<and> length ds = nat (ceil_div (int bits) w))"
proof -
  have "(2::int) ^ bit_length u \<le> 2 ^ bits" using assms(4) by (intro power_increasing) auto
  then have "u < 2 ^ bits" using bit_length_upper [OF assms(3)] by linarith
  note f = scalar_fits [OF assms(1,2,3) this]
  then have i: "int (nat (ceil_div (int bits) w)) = ceil_div (int bits) w" "1 \<le> ceil_div (int bits) w" by simp_all
  show ?thesis
  proof (rule returns_mono [OF signed_odd_digits_correct [OF f(2,3) assms(2) i(2) f(4) [unfolded i(1)]]])
    fix ds :: "int list"
    assume g: "le_value (2 ^ nat w) ds = u OR 1 \<and> (\<forall>d\<in>set ds. odd d \<and> \<bar>d\<bar> < 2 ^ nat w)
     \<and> length ds = nat (ceil_div (int bits) w) \<and> 0 < last ds"
    then have "ds \<noteq> []" using i(2) by (cases ds) simp_all
    then show "foldl (\<lambda>k d. 2 ^ nat w * k + d) (last ds) (tl (rev ds)) = u OR 1 \<and> ds \<noteq> []
    \<and> (\<forall>d\<in>set ds. odd d \<and> \<bar>d\<bar> < 2 ^ nat w) \<and> length ds = nat (ceil_div (int bits) w)"
      using g le_value_last [of ds "2 ^ nat w"] by metis
  qed
qed

lemma double_mult_regular_window_correct:
  assumes H: "in_order ec n H" and Q: "in_order ec n Q" and J: "jrep ec HJ H" "jrep ec QJ Q"
    and uv: "0 \<le> u" "0 \<le> v" and w: "1 \<le> w"
  shows "returns (double_mult_regular_window u HJ v QJ ec w sl)
    (\<lambda>R. jrep ec R (ec_plus ec (ec_times ec u H) (ec_times ec v Q)))"
proof -
  have ok: "curve_ok ec" by (rule in_order_ok [OF H])
  note r = lin2_rules [OF H Q]
  define bits where "bits = max (max (if sl \<noteq> 0 then sl else ec_scalar_len ec) (bit_length u)) (bit_length v)"
  let ?b = "2 ^ nat w :: int"
  define TH TQ where "TH = signed_table ec H w" and "TQ = signed_table ec Q w"
  have b0: "0 < bits" using ok by (auto simp: bits_def curve_ok_def)
  have bu: "bit_length u \<le> bits" "bit_length v \<le> bits" by (simp_all add: bits_def)
  let ?body = "\<lambda>R (du, dv). rbind (py_nth TH ((du + (?b - 1)) div 2)) (\<lambda>a.
            rbind (py_nth TQ ((dv + (?b - 1)) div 2)) (\<lambda>b.
              Inr (add_jac_aff ec (add_jac_aff ec ((double_jac ec ^^ nat w) R) a) b)))"
  let ?I = "\<lambda>R ab. jrep ec R (lin2 ec H Q ab)"
  have step: "returns (?body R (du, dv)) (\<lambda>S. ?I S (?b * a + du, ?b * c + dv))"
    if R: "?I R (a, c)" and d: "odd du \<and> \<bar>du\<bar> < ?b" "odd dv \<and> \<bar>dv\<bar> < ?b" for R a c du dv
  proof -
    have D: "jrep ec ((double_jac ec ^^ nat w) R) (lin2 ec H Q (?b * a, ?b * c))"
      using jrep_dbls [OF ok R] r(1) by simp
    have "?I (add_jac_aff ec (add_jac_aff ec ((double_jac ec ^^ nat w) R) A) B) (?b * a + du, ?b * c + dv)"
      if "arep ec A (ec_times ec du H)" "arep ec B (ec_times ec dv Q)" for A B
      using jrep_add_jac_aff [OF ok jrep_add_jac_aff [OF ok D that(1)] that(2)] r(2,3) by simp
    then show ?thesis unfolding prod.case TH_def TQ_def
      using d by (intro returns_rbind [OF signed_table_arep [OF H w]] returns_rbind [OF signed_table_arep [OF Q w]]) auto
  qed
  have "returns (rbind (signed_odd_digits (u OR 1) w (ceil_div (int bits) w)) (\<lambda>us.
        rbind (signed_odd_digits (v OR 1) w (ceil_div (int bits) w)) (\<lambda>vs.
        rbind (py_nth us (- 1)) (\<lambda>du.
        rbind (py_nth TH ((du + (?b - 1)) div 2)) (\<lambda>A.
        rbind (py_nth vs (- 1)) (\<lambda>dv.
        rbind (py_nth TQ ((dv + (?b - 1)) div 2)) (\<lambda>B.
        rbind (rfold ?body (add_jac_aff ec (jac_from_aff A) B) (zip (tl (rev us)) (tl (rev vs)))) (\<lambda>R.
        Inr (parity_correction ec v QJ (parity_correction ec u HJ R)))))))))) (\<lambda>R. ?I R (u, v))"
  proof (rule returns_rbind [OF double_window_digits [OF b0 w uv(1) bu(1)]],
      rule returns_rbind [OF double_window_digits [OF b0 w uv(2) bu(2)]])
    fix us vs :: "int list"
    assume us: "foldl (\<lambda>k d. ?b * k + d) (last us) (tl (rev us)) = u OR 1 \<and> us \<noteq> []
    \<and> (\<forall>d\<in>set us. odd d \<and> \<bar>d\<bar> < ?b) \<and> length us = nat (ceil_div (int bits) w)"
      and vs: "foldl (\<lambda>k d. ?b * k + d) (last vs) (tl (rev vs)) = v OR 1 \<and> vs \<noteq> []
    \<and> (\<forall>d\<in>set vs. odd d \<and> \<bar>d\<bar> < ?b) \<and> length vs = nat (ceil_div (int bits) w)"
    have ne: "us \<noteq> []" "vs \<noteq> []" using us vs by blast+
    have l: "length (tl (rev us)) = length (tl (rev vs))" using us vs by (simp only: length_tl length_rev)
    have du: "odd d \<and> \<bar>d\<bar> < ?b" if "d \<in> set (tl (rev us))" for d
    proof -
      have "d \<in> set (rev us)" using that by (cases "rev us") simp_all
      then show ?thesis using us unfolding set_rev by blast
    qed
    have dv: "odd d \<and> \<bar>d\<bar> < ?b" if "d \<in> set (tl (rev vs))" for d
    proof -
      have "d \<in> set (rev vs)" using that by (cases "rev vs") simp_all
      then show ?thesis using vs unfolding set_rev by blast
    qed
    have lu: "odd (last us)" "\<bar>last us\<bar> < ?b" "odd (last vs)" "\<bar>last vs\<bar> < ?b"
      using us vs last_in_set [OF ne(1)] last_in_set [OF ne(2)] by blast+
    have loop: "returns (rfold ?body (add_jac_aff ec (jac_from_aff A) B) (zip (tl (rev us)) (tl (rev vs))))
        (\<lambda>R. ?I R (u OR 1, v OR 1))"
      if A: "arep ec A (ec_times ec (last us) H)" and B: "arep ec B (ec_times ec (last vs) Q)" for A B
    proof -
      have "?I (add_jac_aff ec (jac_from_aff A) B) (last us, last vs)"
        using jrep_add_jac_aff [OF ok jrep_jac_from_aff [OF ok A] B] r(4) by simp
      then have "returns (rfold ?body (add_jac_aff ec (jac_from_aff A) B) (zip (tl (rev us)) (tl (rev vs))))
        (\<lambda>R. ?I R (foldl (\<lambda>(a, b) (c, d). (?b * a + c, ?b * b + d)) (last us, last vs) (zip (tl (rev us)) (tl (rev vs)))))"
      proof (rule returns_rfold [where I = ?I])
        fix x R and ab :: "int \<times> int"
        assume x: "x \<in> set (zip (tl (rev us)) (tl (rev vs)))" and R: "?I R ab"
        obtain c d where cd: "x = (c, d)" by (cases x)
        obtain a b where ab: "ab = (a, b)" by (cases ab)
        show "returns (?body R x) (\<lambda>S. ?I S ((\<lambda>(a, b) (c, d). (?b * a + c, ?b * b + d)) ab x))"
          using step [of R a b c d] R du dv x
          unfolding cd ab prod.case by (blast dest: set_zip_leftD set_zip_rightD)
      qed
      then show ?thesis unfolding foldl_zip_pairs [OF l] using us vs by simp
    qed
    show "returns (rbind (py_nth us (- 1)) (\<lambda>du.
        rbind (py_nth TH ((du + (?b - 1)) div 2)) (\<lambda>A.
        rbind (py_nth vs (- 1)) (\<lambda>dv.
        rbind (py_nth TQ ((dv + (?b - 1)) div 2)) (\<lambda>B.
        rbind (rfold ?body (add_jac_aff ec (jac_from_aff A) B) (zip (tl (rev us)) (tl (rev vs)))) (\<lambda>R.
        Inr (parity_correction ec v QJ (parity_correction ec u HJ R)))))))) (\<lambda>R. ?I R (u, v))"
      unfolding py_nth_last [OF ne(1)] py_nth_last [OF ne(2)] rbind_simps
      by (rule returns_rbind [OF signed_table_arep [OF H w lu(1,2), folded TH_def]],
          rule returns_rbind [OF signed_table_arep [OF Q w lu(3,4), folded TQ_def]],
          rule returns_rbind [OF loop], assumption, assumption, rule returns_InrI,
          rule parity_correction_lin2 [OF H Q J])
  qed
  then show ?thesis
    using uv w signed_odd_multiples_aff_correct [OF ok J(1) w, folded TH_def]
      signed_odd_multiples_aff_correct [OF ok J(2) w, folded TQ_def]
    unfolding double_mult_regular_window_def bits_def [symmetric]
    by (simp add: Let_def lin2_def)
qed

section \<open>The decomposition of a scalar\<close>

text \<open>Rounding to the nearest quotient leaves a remainder of at most half the divisor.\<close>

lemma nearest_quotient:
  fixes N :: int
  assumes "0 < N" "odd N"
  shows "2 * \<bar>x - N * ((x + N div 2) div N)\<bar> < N"
proof -
  define h where "h = N div 2"
  define e where "e = x - N * ((x + h) div N)"
  have h: "2 * h + 1 = N" using assms(2) unfolding h_def by presburger
  have "e + h = (x + h) mod N" by (simp add: e_def minus_mult_div_eq_mod [symmetric])
  then have "0 \<le> e + h" "e + h < N" using assms(1) pos_mod_sign [of N "x + h"] pos_mod_bound [of N "x + h"] by simp_all
  then have "2 * \<bar>e\<bar> < N" using h by linarith
  then show ?thesis by (simp add: e_def h_def)
qed

lemma short_combination:
  fixes N :: int
  assumes "0 < N" "N * x = e1 * a + e2 * b" "2 * \<bar>e1\<bar> < N" "2 * \<bar>e2\<bar> < N" "\<bar>a\<bar> + \<bar>b\<bar> < 2 * B"
  shows "\<bar>x\<bar> < B"
proof -
  have "2 * (N * \<bar>x\<bar>) = 2 * \<bar>e1 * a + e2 * b\<bar>" using assms(1,2) by (metis abs_mult abs_of_pos)
  also have "\<dots> \<le> 2 * \<bar>e1\<bar> * \<bar>a\<bar> + 2 * \<bar>e2\<bar> * \<bar>b\<bar>" using abs_triangle_ineq [of "e1 * a" "e2 * b"] by (simp add: abs_mult)
  also have "\<dots> \<le> N * \<bar>a\<bar> + N * \<bar>b\<bar>" using assms(3,4) by (intro add_mono mult_right_mono) simp_all
  also have "\<dots> = N * (\<bar>a\<bar> + \<bar>b\<bar>)" by (simp add: distrib_left)
  also have "\<dots> < N * (2 * B)" using assms(1,5) by (rule mult_strict_left_mono [rotated])
  finally have "N * (2 * \<bar>x\<bar>) < N * (2 * B)" by (simp only: mult.left_commute)
  then show ?thesis using assms(1) by (simp add: mult_less_cancel_left_pos)
qed

lemma multiplier_decomposer_correct:
  assumes "multiplier_decomposer m = (m1, m2)"
  shows "secp_N dvd (m1 + m2 * secp_LAM - m)" and "\<bar>m1\<bar> < 2 ^ 128" and "\<bar>m2\<bar> < 2 ^ 128"
proof -
  define k c1 c2 where "k = m mod secp_N"
    and "c1 = (secp_B2 * k + secp_N div 2) div secp_N"
    and "c2 = (- secp_B1 * k + secp_N div 2) div secp_N"
  have m: "m1 = k - c1 * secp_A1 - c2 * secp_A2" "m2 = - c1 * secp_B1 - c2 * secp_B2"
    using assms by (simp_all add: multiplier_decomposer_def Let_def k_def c1_def c2_def)
  have det: "secp_A1 * secp_B2 - secp_A2 * secp_B1 = secp_N"
    by (simp add: secp_A1_def secp_B2_def secp_A2_def secp_B1_def secp_N_def)
  have N: "0 < secp_N" "odd secp_N" by (simp_all add: secp_N_def)
  define e1 e2 where "e1 = secp_B2 * k - secp_N * c1" and "e2 = - secp_B1 * k - secp_N * c2"
  have e: "2 * \<bar>e1\<bar> < secp_N" "2 * \<bar>e2\<bar> < secp_N"
    unfolding e1_def e2_def c1_def c2_def by (rule nearest_quotient [OF N])+
  have "secp_N * m1 = e1 * secp_A1 + e2 * secp_A2"
    unfolding m e1_def e2_def det [symmetric] by (simp add: algebra_simps)
  then show "\<bar>m1\<bar> < 2 ^ 128"
    by (rule short_combination [OF N(1) _ e]) (simp add: secp_A1_def secp_A2_def)
  have "secp_N * m2 = e1 * secp_B1 + e2 * secp_B2"
    unfolding m e1_def e2_def by (simp add: algebra_simps)
  then show "\<bar>m2\<bar> < 2 ^ 128"
    by (rule short_combination [OF N(1) _ e]) (simp add: secp_B1_def secp_B2_def)
  have z: "secp_N dvd (secp_A1 + secp_B1 * secp_LAM)" "secp_N dvd (secp_A2 + secp_B2 * secp_LAM)"
    by (simp_all add: secp_A1_def secp_B2_def secp_A2_def secp_B1_def secp_N_def secp_LAM_def)
  have "m1 + m2 * secp_LAM - k = - c1 * (secp_A1 + secp_B1 * secp_LAM) - c2 * (secp_A2 + secp_B2 * secp_LAM)"
    unfolding m by (simp add: algebra_simps)
  then have "secp_N dvd (m1 + m2 * secp_LAM - k)" using z by (simp add: dvd_diff dvd_mult)
  moreover have "secp_N dvd (k - m)" unfolding k_def by (rule dvd_mod_diff)
  ultimately show "secp_N dvd (m1 + m2 * secp_LAM - m)" using dvd_diff_trans [of secp_N "m1 + m2 * secp_LAM" k m] by simp
qed

section \<open>The endomorphism\<close>

definition endo :: "int \<Rightarrow> point \<Rightarrow> point" where
  "endo p P = (case P of Inf \<Rightarrow> Inf | Pt x y \<Rightarrow> Pt (x * secp_BETA mod p) y)"

text \<open>
  What the split needs of the curve: \<open>\<beta>\<close> is a cube root of one modulo the field prime, the curve is
  \<open>y\<^sup>2 = x\<^sup>3 + b\<close>, and the map acts as \<open>\<lambda>\<close> on the point.
\<close>

definition endo_acts :: "('z) curve_group_scheme \<Rightarrow> point \<Rightarrow> bool" where
  "endo_acts ec P \<longleftrightarrow> ec_a ec = 0 \<and> ec_p ec dvd (secp_BETA ^ 3 - 1)
     \<and> endo (ec_p ec) P = ec_times ec secp_LAM P"

lemma endo_on_curve:
  assumes "curve_ok ec" "endo_acts ec P" "ec_on ec P"
  shows "ec_on ec (endo (ec_p ec) P)"
proof (cases P)
  case (Pt x y)
  let ?p = "ec_p ec"
  note p = curve_ok_p [OF assms(1)]
  have m: "?p dvd (x * secp_BETA mod ?p - x * secp_BETA)" by (rule dvd_mod_diff)
  have c: "?p dvd (secp_BETA ^ 3 - 1)" and a: "ec_a ec = 0" using assms(2) by (simp_all add: endo_acts_def)
  have on: "0 \<le> y" "y < ?p" "?p dvd (y * y - (x * x * x + ec_b ec))"
    using assms(3) Pt a by simp_all
  define z where "z = x * secp_BETA mod ?p"
  have "?p dvd (secp_BETA * secp_BETA * secp_BETA - 1)" using c by (simp add: power3_eq_cube)
  then have "?p dvd (y * y - (z * z * z + ec_b ec))" using on(3) m [folded z_def] by algebra
  then show ?thesis using Pt a p(3) on(1,2) by (simp add: endo_def flip: z_def) (simp add: z_def)
qed (simp add: endo_def)

lemma jrep_endo:
  assumes "curve_ok ec" "endo_acts ec P" "jrep ec Q P"
  shows "jrep ec (fst Q * secp_BETA mod ec_p ec, fst (snd Q), snd (snd Q)) (endo (ec_p ec) P)"
proof (cases P)
  case Inf
  then show ?thesis using assms(3) by (cases Q) (simp add: endo_def)
next
  case (Pt x y)
  obtain X Y Z where Q: "Q = (X, Y, Z)" by (cases Q)
  let ?p = "ec_p ec"
  note p = curve_ok_p [OF assms(1)]
  have d: "?p dvd (X - x * Z * Z)" using assms(3) Pt Q by simp
  have m: "?p dvd (x * secp_BETA mod ?p - x * secp_BETA)" "?p dvd (X * secp_BETA mod ?p - X * secp_BETA)"
    by (rule dvd_mod_diff)+
  have "?p dvd (X * secp_BETA mod ?p - (x * secp_BETA mod ?p) * Z * Z)" using d m by algebra
  moreover have "ec_on ec (endo ?p P)" using endo_on_curve assms jrep_on by blast
  ultimately show ?thesis using assms(3) Pt Q p(3) by (simp add: endo_def)
qed

lemma endomorphism_split_correct:
  assumes P: "in_order ec secp_N P" and J: "jrep ec Q P" and E: "endo_acts ec P"
    and s: "endomorphism_split_secp256k1 m Q ec = (m1, U, m2, K)"
  shows "\<exists>A B. 0 \<le> m1 \<and> 0 \<le> m2 \<and> in_order ec secp_N A \<and> in_order ec secp_N B
    \<and> jrep ec U A \<and> jrep ec K B \<and> ec_plus ec (ec_times ec m1 A) (ec_times ec m2 B) = ec_times ec m P"
proof -
  have ok: "curve_ok ec" by (rule in_order_ok [OF P])
  obtain k1 k2 where k: "multiplier_decomposer m = (k1, k2)" by (cases "multiplier_decomposer m")
  let ?K = "(fst Q * secp_BETA mod ec_p ec, fst (snd Q), snd (snd Q))"
  let ?L = "ec_times ec secp_LAM P"
  have L: "in_order ec secp_N ?L" by (rule in_order_times [OF P])
  have JK: "jrep ec ?K ?L" using jrep_endo [OF ok E J] E by (simp add: endo_acts_def)
  have d: "m1 = \<bar>k1\<bar>" "m2 = \<bar>k2\<bar>" "U = (if k1 < 0 then negate_jac ec Q else Q)"
    "K = (if k2 < 0 then negate_jac ec ?K else ?K)"
    using s k by (auto simp: endomorphism_split_secp256k1_def Let_def)
  have sgn: "jrep ec (if k < 0 then negate_jac ec R else R) (if k < 0 then ec_minus ec X else X)
      \<and> in_order ec secp_N (if k < 0 then ec_minus ec X else X)
      \<and> ec_times ec \<bar>k\<bar> (if k < 0 then ec_minus ec X else X) = ec_times ec k X"
    if "jrep ec R X" "in_order ec secp_N X" for k R X
  proof (cases "k < 0")
    case True
    then have "ec_times ec \<bar>k\<bar> (ec_minus ec X) = ec_times ec k X"
      using ecn.zm_neg [OF that(2), of "- k"] ecn.zm_minus [OF that(2), of "- k"] by simp
    then show ?thesis using True jrep_negate_jac [OF ok that(1)] ecn.neg_closed [OF that(2)] by simp
  qed (use that in simp)
  have "ec_plus ec (ec_times ec k1 P) (ec_times ec k2 ?L) = ec_times ec (k1 + k2 * secp_LAM) P"
    by (simp only: ecn.zm_add [OF P] ecn.zm_mult [OF P])
  also have "\<dots> = ec_times ec m P" by (rule ecn.zm_cong [OF P multiplier_decomposer_correct(1) [OF k]])
  finally show ?thesis using sgn [OF J P, of k1] sgn [OF JK L, of k2] unfolding d
    by (intro exI [of _ "if k1 < 0 then ec_minus ec P else P"] exI [of _ "if k2 < 0 then ec_minus ec ?L else ?L"])
      (simp only: abs_ge_zero simp_thms)
qed

lemma mult_endomorphism_secp256k1_correct:
  assumes P: "in_order ec secp_N P" and J: "jrep ec Q P" and E: "endo_acts ec P" and m: "0 \<le> m" and w: "1 \<le> w"
  shows "returns (mult_endomorphism_secp256k1 m Q ec w) (\<lambda>R. jrep ec R (ec_times ec m P))"
proof -
  obtain m1 U m2 K where s: "endomorphism_split_secp256k1 m Q ec = (m1, U, m2, K)"
    by (cases "endomorphism_split_secp256k1 m Q ec")
  obtain A B where AB: "0 \<le> m1" "0 \<le> m2" "in_order ec secp_N A" "in_order ec secp_N B" "jrep ec U A" "jrep ec K B"
    "ec_plus ec (ec_times ec m1 A) (ec_times ec m2 B) = ec_times ec m P"
    using endomorphism_split_correct [OF P J E s] by blast
  show ?thesis
    using double_mult_regular_window_correct [OF AB(3-6,1,2) w, of HALF_LEN] AB(7) m
    by (simp add: mult_endomorphism_secp256k1_def s)
qed

lemma double_mult_w_NAF_var_correct:
  assumes H: "in_order ec n H" "jrep ec HJ H" and Q: "in_order ec n Q" "jrep ec QJ Q"
    and uv: "0 \<le> u" "0 \<le> v" and w: "1 \<le> w"
  shows "returns (double_mult_w_NAF_var u HJ v QJ ec w fixed)
    (\<lambda>R. jrep ec R (ec_plus ec (ec_times ec u H) (ec_times ec v Q)))"
proof -
  have g: "jgood ec n HJ \<and> jac_abs ec HJ = H" "jgood ec n QJ \<and> jac_abs ec QJ = Q"
    using jgoodI H Q by blast+
  then have "returns (multi_mult_w_NAF_var [u, v] [HJ, QJ] ec w fixed)
    (\<lambda>R. jrep ec R (ec_lc ec (abs_pairs ec (zip [u, v] [HJ, QJ]))))"
    by (intro multi_mult_w_NAF_var_correct [OF H(1) _ _ _ _ w]) (use uv in simp_all)
  then show ?thesis using uv w g by (simp add: double_mult_w_NAF_var_def abs_pairs_def)
qed

lemma mult_endomorphism_secp256k1_var_correct:
  assumes P: "in_order ec secp_N P" and J: "jrep ec Q P" and E: "endo_acts ec P" and m: "0 \<le> m" and w: "1 \<le> w"
  shows "returns (mult_endomorphism_secp256k1_var m Q ec w) (\<lambda>R. jrep ec R (ec_times ec m P))"
proof -
  obtain m1 U m2 K where s: "endomorphism_split_secp256k1 m Q ec = (m1, U, m2, K)"
    by (cases "endomorphism_split_secp256k1 m Q ec")
  obtain A B where AB: "0 \<le> m1" "0 \<le> m2" "in_order ec secp_N A" "in_order ec secp_N B" "jrep ec U A" "jrep ec K B"
    "ec_plus ec (ec_times ec m1 A) (ec_times ec m2 B) = ec_times ec m P"
    using endomorphism_split_correct [OF P J E s] by blast
  show ?thesis
    using double_mult_w_NAF_var_correct [OF AB(3,5,4,6,1,2) w, of "ec_fixed_points ec"] AB(7) m
    by (simp add: mult_endomorphism_secp256k1_var_def s)
qed

lemma double_mult_endomorphism_correct:
  assumes H: "in_order ec secp_N H" "jrep ec HJ H" "endo_acts ec H"
    and Q: "in_order ec secp_N Q" "jrep ec QJ Q" "endo_acts ec Q"
    and uv: "0 \<le> u" "0 \<le> v" and w: "1 \<le> w"
  shows "returns (double_mult_endomorphism_secp256k1_var u HJ v QJ ec w fixed)
    (\<lambda>R. jrep ec R (ec_plus ec (ec_times ec u H) (ec_times ec v Q)))"
proof -
  obtain u1 U1 u2 U2 where s: "endomorphism_split_secp256k1 u HJ ec = (u1, U1, u2, U2)"
    by (cases "endomorphism_split_secp256k1 u HJ ec")
  obtain v1 V1 v2 V2 where t: "endomorphism_split_secp256k1 v QJ ec = (v1, V1, v2, V2)"
    by (cases "endomorphism_split_secp256k1 v QJ ec")
  obtain A B where AB: "0 \<le> u1" "0 \<le> u2" "in_order ec secp_N A" "in_order ec secp_N B" "jrep ec U1 A" "jrep ec U2 B"
    "ec_plus ec (ec_times ec u1 A) (ec_times ec u2 B) = ec_times ec u H"
    using endomorphism_split_correct [OF H s] by blast
  obtain C D where CD: "0 \<le> v1" "0 \<le> v2" "in_order ec secp_N C" "in_order ec secp_N D" "jrep ec V1 C" "jrep ec V2 D"
    "ec_plus ec (ec_times ec v1 C) (ec_times ec v2 D) = ec_times ec v Q"
    using endomorphism_split_correct [OF Q t] by blast
  have g: "jgood ec secp_N U1 \<and> jac_abs ec U1 = A" "jgood ec secp_N U2 \<and> jac_abs ec U2 = B"
    "jgood ec secp_N V1 \<and> jac_abs ec V1 = C" "jgood ec secp_N V2 \<and> jac_abs ec V2 = D"
    using jgoodI AB(3-6) CD(3-6) by blast+
  let ?S = "[u1, u2, v1, v2]" and ?P = "[U1, U2, V1, V2]"
  have sum: "ec_lc ec (abs_pairs ec (zip ?S ?P)) = ec_plus ec (ec_times ec u H) (ec_times ec v Q)"
    unfolding AB(7) [symmetric] CD(7) [symmetric]
    using g ecn.add_assoc [OF in_order_times [OF AB(3)] in_order_times [OF AB(4)] ecn.add_closed [OF in_order_times [OF CD(3)] in_order_times [OF CD(4)]]]
    by (simp add: abs_pairs_def)
  have "returns (multi_mult_w_NAF_var ?S ?P ec w fixed')
      (\<lambda>R. jrep ec R (ec_plus ec (ec_times ec u H) (ec_times ec v Q)))" for fixed'
    unfolding sum [symmetric]
    by (rule multi_mult_w_NAF_var_correct [OF H(1) _ _ _ _ w]) (use g AB(1,2) CD(1,2) in simp_all)
  note this [simp]
  show ?thesis using uv by (simp add: double_mult_endomorphism_secp256k1_var_def s t Let_def)
qed

end
