(* ===== verification/Prime_Test.thy ===== *)
theory Prime_Test
  imports Jacobi
begin

text \<open>
  The primality test of \<^verbatim>\<open>src/btclib_ecc/number_theory.py\<close>, which the constructors of the curves ask of
  their field prime and their order: trial division, a strong probable prime test to base two, and a
  strong Lucas test with Selfridge's parameters. It is proved that a prime passes the trial divisions
  and the base-two test, and that what passes the whole test has no factor up to 37; that no composite
  passes is an open question, which the theory does not pretend to settle.
\<close>

section \<open>The square root of an integer\<close>

text \<open>\<^verbatim>\<open>math.isqrt\<close>, the floor of the square root.\<close>

function isqrt :: "int \<Rightarrow> int" where
  "isqrt n =
     (if n \<le> 0 then 0
      else let s = 2 * isqrt (n div 4) in if (s + 1) * (s + 1) \<le> n then s + 1 else s)"
  by pat_completeness auto
termination by (relation "measure nat") auto

declare isqrt.simps [simp del]

lemma isqrt_spec: "0 \<le> n \<Longrightarrow> 0 \<le> isqrt n \<and> isqrt n * isqrt n \<le> n \<and> n < (isqrt n + 1) * (isqrt n + 1)"
proof (induction n rule: isqrt.induct)
  case (1 n)
  show ?case
  proof (cases "n = 0")
    case False
    define r where "r = isqrt (n div 4)"
    have ih: "0 \<le> r" "r * r \<le> n div 4" "n div 4 < (r + 1) * (r + 1)" using 1 False by (simp_all add: r_def)
    have "4 * (r * r) \<le> n" using ih(2) by linarith
    moreover have "n < 4 * ((r + 1) * (r + 1))" using ih(3) by linarith
    ultimately show ?thesis using ih(1) 1(2) False
      by (subst (1 2 3 4 5) isqrt.simps) (simp add: Let_def algebra_simps flip: r_def)
  qed (simp add: isqrt.simps)
qed

section \<open>The strong test to base two\<close>

fun squares_reach :: "nat \<Rightarrow> int \<Rightarrow> int \<Rightarrow> bool" where
  "squares_reach 0 x n = False"
| "squares_reach (Suc k) x n = (let x = x * x mod n in if x = n - 1 then True else squares_reach k x n)"

definition is_strong_probable_prime_base_2 :: "int \<Rightarrow> bool" where
  "is_strong_probable_prime_base_2 n =
     (let s = trailing_zeros (n - 1);
        d = (n - 1) div 2 ^ s;
        x = pow_mod 2 (nat d) n
      in if x \<in> {1, n - 1} then True else squares_reach (s - 1) x n)"

text \<open>
  If the last of the squarings is one, the last value that is not one before it is minus one: a prime
  has no other square roots of one.
\<close>

lemma squares_reach_prime:
  assumes "prime_int p" "p dvd (x ^ 2 ^ Suc k - 1)" "x mod p \<noteq> 1" "x mod p \<noteq> p - 1"
  shows "squares_reach k x p"
  using assms(2-4)
proof (induction k arbitrary: x)
  case 0
  have "p dvd (x * x - 1 * 1)" using 0(1) by (simp add: power2_eq_square)
  then have "p dvd (x - 1) \<or> p dvd (x + 1)" by (rule prime_square_cases [OF assms(1)])
  then have "x mod p = 1 mod p \<or> x mod p = (- 1) mod p" by (auto simp: mod_eq_dvd_iff)
  moreover have "1 mod p = 1" "(- 1) mod p = p - 1" using prime_int_gt_1 [OF assms(1)] by (simp_all add: zmod_minus1)
  ultimately show ?case using 0 by simp
next
  case (Suc k)
  define y where "y = x * x mod p"
  show ?case
  proof (cases "y = p - 1")
    case False
    have "y \<noteq> 1"
    proof
      assume "y = 1"
      then have "x * x mod p = 1 mod p" using prime_int_gt_1 [OF assms(1)] by (simp add: y_def)
      then have "p dvd (x * x - 1 * 1)" by (simp add: mod_eq_dvd_iff)
      then have "p dvd (x - 1) \<or> p dvd (x + 1)" by (rule prime_square_cases [OF assms(1)])
      then have "x mod p = 1 mod p \<or> x mod p = (- 1) mod p" by (auto simp: mod_eq_dvd_iff)
      moreover have "1 mod p = 1" "(- 1) mod p = p - 1"
        using prime_int_gt_1 [OF assms(1)] by (simp_all add: zmod_minus1)
      ultimately show False using Suc.prems by simp
    qed
    have "x ^ 2 ^ Suc (Suc k) = (x * x) ^ 2 ^ Suc k"
      by (simp add: power_mult [symmetric] power2_eq_square [symmetric] mult.commute)
    then have "(x * x) ^ 2 ^ Suc k mod p = 1 mod p" using Suc.prems(1) by (simp add: mod_eq_dvd_iff)
    then have "y ^ 2 ^ Suc k mod p = 1 mod p" by (simp add: y_def power_mod)
    then have "p dvd (y ^ 2 ^ Suc k - 1)" by (simp add: mod_eq_dvd_iff)
    from Suc.IH [OF this] show ?thesis using False \<open>y \<noteq> 1\<close> prime_int_pos [OF assms(1)]
      by (simp add: Let_def flip: y_def) (simp add: y_def)
  qed (simp add: y_def Let_def)
qed

lemma prime_passes_base_2:
  assumes "prime_int p" "2 < p"
  shows "is_strong_probable_prime_base_2 p"
proof -
  define s where "s = trailing_zeros (p - 1)"
  define d where "d = (p - 1) div 2 ^ s"
  define x where "x = pow_mod 2 (nat d) p"
  have sd: "p - 1 = d * 2 ^ s" "odd d" "0 < d"
    using trailing_zeros_split [of "p - 1"] assms(2) by (simp_all add: s_def d_def)
  have "even (p - 1)" using prime_odd [OF assms] by simp
  then have s: "0 < s" using sd(1,2) by (cases s) auto
  have x: "x = 2 ^ nat d mod p" by (simp add: x_def pow_mod_eq)
  have "nat (p - 1) = nat d * 2 ^ s" using sd(1,3) by (simp add: nat_mult_distrib nat_power_eq)
  then have "p dvd ((2 ^ nat d) ^ 2 ^ s - 1)"
    using fermat_little [OF assms(1) prime_not_dvd_2 [OF assms]] by (simp add: power_mult)
  then have "(2 ^ nat d) ^ 2 ^ s mod p = 1 mod p" by (simp add: mod_eq_dvd_iff)
  then have "x ^ 2 ^ s mod p = 1 mod p" by (simp add: x power_mod)
  then have e: "p dvd (x ^ 2 ^ Suc (s - 1) - 1)" using s by (simp add: mod_eq_dvd_iff)
  have m: "x mod p = x" by (simp add: x)
  have "squares_reach (s - 1) x p" if "x \<noteq> 1" "x \<noteq> p - 1"
    by (rule squares_reach_prime [OF assms(1) e]) (simp_all add: m that)
  then show ?thesis
    by (auto simp: is_strong_probable_prime_base_2_def Let_def simp flip: s_def d_def x_def)
qed

section \<open>The strong Lucas test\<close>

text \<open>
  The search for a discriminant ends at \<open>\<bar>D\<bar> = n\<close> at the latest, where the symbol is zero: the second
  guard, which the code does not have, only bounds the recursion.
\<close>

function lucas_discriminant :: "int \<Rightarrow> int \<Rightarrow> int" where
  "lucas_discriminant D n =
     (if jacobi D n \<noteq> 1 \<or> max n 5 \<le> \<bar>D\<bar> then D
      else lucas_discriminant (if 0 < D then - D - 2 else - D + 2) n)"
  by pat_completeness auto
termination by (relation "measure (\<lambda>(D, n). nat (max n 5 - \<bar>D\<bar>))") auto

declare lucas_discriminant.simps [simp del]

definition halve_mod :: "int \<Rightarrow> int \<Rightarrow> int" where
  "halve_mod U n = (if U mod 2 \<noteq> 0 then U + n else U) div 2 mod n"

definition lucas_step :: "int \<Rightarrow> int \<Rightarrow> int \<Rightarrow> int \<times> int \<times> int \<Rightarrow> int \<Rightarrow> int \<times> int \<times> int" where
  "lucas_step n D Q = (\<lambda>(U, V, Qk) bit.
     let U = U * V mod n; V = (V * V - 2 * Qk) mod n; Qk = Qk * Qk mod n in
     if bit = 1 then (halve_mod (U + V) n, halve_mod (D * U + V) n, Qk * Q mod n) else (U, V, Qk))"

fun lucas_squares :: "nat \<Rightarrow> int \<Rightarrow> int \<Rightarrow> int \<Rightarrow> bool" where
  "lucas_squares 0 V Qk n = False"
| "lucas_squares (Suc k) V Qk n =
     (let V = (V * V - 2 * Qk) mod n; Qk = Qk * Qk mod n
      in if V = 0 then True else lucas_squares k V Qk n)"

text \<open>\<^verbatim>\<open>bin(d)[3:]\<close> are the binary digits of \<open>d\<close> below the leading one, the most significant first.\<close>

fun low_bits :: "int \<Rightarrow> nat \<Rightarrow> int list" where
  "low_bits d 0 = []"
| "low_bits d (Suc k) = low_bits (d div 2) k @ [d mod 2]"

definition is_strong_lucas_probable_prime :: "int \<Rightarrow> bool" where
  "is_strong_lucas_probable_prime n =
     (if isqrt n ^ 2 = n then False
      else let D = lucas_discriminant 5 n in
        if jacobi D n = 0 then False
        else
          let Q = (1 - D) div 4;
            s = trailing_zeros (n + 1);
            d = (n + 1) div 2 ^ s;
            (U, V, Qk) = foldl (lucas_step n D Q) (1, 1, Q mod n) (low_bits d (bit_length d - 1))
          in if U = 0 \<or> V = 0 then True else lucas_squares (s - 1) V Qk n)"

section \<open>The test\<close>

definition trial_primes :: "int list" where
  "trial_primes = [3, 5, 7, 11, 13, 17, 19, 23, 29, 31, 37]"

definition is_prime :: "int \<Rightarrow> bool" where
  "is_prime x =
     (if x < 3 \<or> x mod 2 = 0 then False
      else case find (\<lambda>q. x mod q = 0) trial_primes of
        Some q \<Rightarrow> x = q
      | None \<Rightarrow> is_strong_probable_prime_base_2 x \<and> is_strong_lucas_probable_prime x)"

lemma is_prime_odd: "is_prime x \<Longrightarrow> 2 < x \<and> odd x"
  by (auto simp: is_prime_def even_iff_mod_2_eq_zero split: if_splits)

text \<open>What the test accepts has no proper factor up to forty.\<close>

lemma small_factor:
  assumes "1 < (d::int)" "d \<le> 40"
  shows "\<exists>q\<in>insert 2 (set trial_primes). q dvd d"
proof -
  have "list_all (\<lambda>d. list_ex (\<lambda>q. d mod q = 0) (2 # trial_primes)) [2..40]" unfolding trial_primes_def by code_simp
  moreover have "2 \<le> d" using assms(1) by linarith
  then have "d \<in> set [2..40]" using assms(2) by (simp only: set_upto atLeastAtMost_iff)
  ultimately have "list_ex (\<lambda>q. d mod q = 0) (2 # trial_primes)" unfolding list_all_iff by blast
  then show ?thesis by (auto simp: list_ex_iff mod_eq_0_iff_dvd)
qed

lemma trial_primes_prime:
  assumes "q \<in> set trial_primes"
  shows "prime_int q"
proof -
  have "list_all (\<lambda>q. 1 < q \<and> list_all (\<lambda>d. \<not> d dvd q) [2..q - 1]) trial_primes" unfolding trial_primes_def by code_simp
  then show ?thesis using assms prime_int_by_trial unfolding list_all_iff by blast
qed

lemma is_prime_factor:
  assumes "is_prime x" "1 < d" "d dvd x" "d \<noteq> x"
  shows "40 < d"
proof (rule ccontr)
  assume "\<not> 40 < d"
  then have "d \<le> 40" by linarith
  from small_factor [OF assms(2) this]
  obtain q where q: "q \<in> insert 2 (set trial_primes)" "q dvd d" by blast
  have x: "2 < x" "odd x" using is_prime_odd [OF assms(1)] by auto
  have qx: "q dvd x" using q(2) assms(3) by (rule dvd_trans)
  then have "q \<in> set trial_primes" using q(1) x(2) by auto
  then have "find (\<lambda>q. x mod q = 0) trial_primes \<noteq> None" unfolding find_None_iff using qx by (metis mod_0_imp_dvd dvd_imp_mod_0)
  then obtain q' where q': "find (\<lambda>q. x mod q = 0) trial_primes = Some q'" by auto
  then have xq: "x = q'" using assms(1) x by (simp add: is_prime_def split: if_splits)
  have "q' \<in> set trial_primes" using q' unfolding find_Some_iff by (metis nth_mem)
  then have "prime_int x" unfolding xq by (rule trial_primes_prime)
  then show False using assms(2-4) unfolding prime_int_def by (metis less_trans less_irrefl zero_less_one)
qed

lemma is_prime_exact:
  assumes "is_prime x" "x < 1681"
  shows "prime_int x"
  unfolding prime_int_def
proof (intro conjI allI impI)
  show "1 < x" using is_prime_odd [OF assms(1)] by simp
  fix d assume d: "0 < d" "d dvd x"
  then obtain e where e: "x = d * e" by auto
  have x: "0 < x" using is_prime_odd [OF assms(1)] by simp
  then have "0 < e" using d(1) e by (simp add: zero_less_mult_iff)
  show "d = 1 \<or> d = x"
  proof (rule ccontr)
    assume n: "\<not> (d = 1 \<or> d = x)"
    then have "1 < d" "1 < e" "e \<noteq> x" "e dvd x" using d(1) e \<open>0 < e\<close> by auto
    then have "41 \<le> d" "41 \<le> e" using is_prime_factor [OF assms(1)] d(2) n by force+
    then have "41 * 41 \<le> d * e" by (intro mult_mono) simp_all
    then show False using assms(2) e by simp
  qed
qed

end
