(* ===== verification/Curve.thy ===== *)
theory Curve
  imports Mult_Variants_Correct Prime_Test
begin

text \<open>
  Model of \<^verbatim>\<open>src/btclib_ecc/curves/curve.py\<close>: the constructor of a curve with a generator of prime
  order and the checks it makes, the point-on-curve test that refuses the two-torsion point the affine
  encoding cannot tell from infinity, and the public multiplications and sums of points. The third-party
  bindings are taken not to serve, as when \<^verbatim>\<open>is_libsecp256k1_serving()\<close> is false: every function is its
  own Python code. A random factor drawn by a function is an argument of its model.
\<close>

section \<open>Constructors\<close>

text \<open>\<^verbatim>\<open>CurveGroup.__init__\<close>; \<open>trusted\<close> is the class attribute \<^verbatim>\<open>_primes_are_trusted\<close>.\<close>

definition init_curve_group :: "bool \<Rightarrow> int \<Rightarrow> int \<Rightarrow> int \<Rightarrow> curve_group result" where
  "init_curve_group trusted p a b =
     (if \<not> trusted \<and> \<not> is_prime p then Inl (BTClibEccValueError ''p is not prime'')
      else if a < 0 then Inl (BTClibEccValueError ''negative a'')
      else if p \<le> a then Inl (BTClibEccValueError ''p <= a'')
      else if b < 0 then Inl (BTClibEccValueError ''negative b'')
      else if p \<le> b then Inl (BTClibEccValueError ''p <= b'')
      else if (4 * a * a * a + 27 * b * b) mod p = 0 then Inl (BTClibEccValueError ''zero discriminant'')
      else Inr \<lparr>ec_p = p, ec_a = a, ec_b = b, ec_p_size = nat (ceil_div (int (bit_length p)) 8),
             ec_p_is_3_mod_4 = (p mod 4 = 3), ec_scalar_len = bit_length p + 1,
             ec_a_is_zero = (a = 0), ec_a_is_minus_3 = (a = p - 3),
             ec_stand_in_q = (p div 3, p div 5, p div 7), ec_stand_in_r = (p div 11, p div 13, p div 17),
             ec_fixed_points = {}\<rparr>)"

record curve = curve_group +
  cv_G :: apoint
  cv_GJ :: jpoint
  cv_n :: int
  cv_nlen :: nat
  cv_n_size :: nat
  cv_cofactor :: int

text \<open>The override of \<^verbatim>\<open>is_on_curve\<close>: a point \<open>(x, 0)\<close> of the curve is refused.\<close>

definition is_on_curve :: "('z) curve_group_scheme \<Rightarrow> apoint \<Rightarrow> bool result" where
  "is_on_curve ec Q =
     rbind (group_is_on_curve ec Q) (\<lambda>is_point.
       if is_point \<and> snd Q = 0 \<and> ec_y2 ec (fst Q) = 0
       then Inl (BTClibEccValueError ''ambiguous point: (x, 0) is both INF and real two-torsion'')
       else Inr is_point)"

definition require_on_curve :: "('z) curve_group_scheme \<Rightarrow> apoint \<Rightarrow> unit result" where
  "require_on_curve ec Q =
     rbind (is_on_curve ec Q) (\<lambda>b. require b (BTClibEccValueError ''point not on curve''))"

definition generator_from_point :: "apoint \<Rightarrow> ('z) curve_group_scheme \<Rightarrow> apoint result" where
  "generator_from_point G ec =
     rbind (is_on_curve ec G) (\<lambda>b.
       if \<not> b then Inl (BTClibEccValueError ''Generator is not on the curve'') else Inr G)"

definition assert_mov_resistant :: "int \<Rightarrow> int \<Rightarrow> unit result" where
  "assert_mov_resistant p n =
     (case find (\<lambda>i. pow_mod p i n = 1) [1..<100] of
        None \<Rightarrow> Inr ()
      | Some i \<Rightarrow> Inl (BTClibEccValueError ''weak curve: embedding degree below 100''))"

text \<open>The attributes \<^verbatim>\<open>Curve.__init__\<close> has set before it checks the order.\<close>

definition with_generator :: "curve_group \<Rightarrow> apoint \<Rightarrow> int \<Rightarrow> int \<Rightarrow> curve" where
  "with_generator g G n cofactor =
     (let GJ = (fst G, snd G, 1); nlen = bit_length n in
      curve_group.extend
        (g\<lparr>ec_fixed_points := {GJ, negate_jac g GJ}, ec_scalar_len := nlen\<rparr>)
        \<lparr>cv_G = G, cv_GJ = GJ, cv_n = n, cv_nlen = nlen, cv_n_size = (nlen + 7) div 8, cv_cofactor = cofactor\<rparr>)"

definition init_curve ::
  "bool \<Rightarrow> int \<Rightarrow> int \<Rightarrow> int \<Rightarrow> apoint \<Rightarrow> int \<Rightarrow> int \<Rightarrow> bool \<Rightarrow> bool \<Rightarrow> curve result" where
  "init_curve trusted p a b G n cofactor weakness_check order_check =
     rbind (init_curve_group trusted p a b) (\<lambda>g.
     rbind (generator_from_point G g) (\<lambda>G.
     let ec = with_generator g G n cofactor;
       delta = isqrt (4 * p); lo = p + 1 - delta; hi = p + 1 + delta in
     if \<not> trusted \<and> \<not> is_prime n then Inl (BTClibEccValueError ''n is not prime'')
     else if cofactor < 1 \<or> \<not> (lo \<le> cofactor * n \<and> cofactor * n \<le> hi)
     then Inl (BTClibEccValueError ''invalid cofactor'')
     else if snd (cv_G ec) = 0 then Inl (BTClibEccValueError ''INF point cannot be a generator'')
     else
       rbind (if order_check
              then rbind (mult_jac_var n (cv_GJ ec) ec) (\<lambda>R.
                if snd (snd R) \<noteq> 0 then Inl (BTClibEccValueError ''n is not the group order'') else Inr ())
              else Inr ()) (\<lambda>_.
       if n = p then Inl (BTClibEccValueError ''n=p weak curve'')
       else rbind (if weakness_check then assert_mov_resistant p n else Inr ()) (\<lambda>_. Inr ec))))"

text \<open>\<^verbatim>\<open>_catalogued_curve\<close>: the catalogue's primes are trusted and its two heavy checks are skipped.\<close>

definition catalogued_curve :: "int \<Rightarrow> int \<Rightarrow> int \<Rightarrow> apoint \<Rightarrow> int \<Rightarrow> int \<Rightarrow> curve result" where
  "catalogued_curve p a b G n cofactor = init_curve True p a b G n cofactor False False"

definition eq_key :: "curve \<Rightarrow> int \<times> int \<times> int \<times> apoint \<times> int \<times> int" where
  "eq_key ec = (ec_p ec, ec_a ec, ec_b ec, cv_G ec, cv_n ec, cv_cofactor ec)"

text \<open>The key of \<^verbatim>\<open>secp256k1\<close>, the entry of \<^verbatim>\<open>ec_SEC2v2.json\<close> that \<^verbatim>\<open>CURVES\<close> holds.\<close>

definition secp256k1_key :: "int \<times> int \<times> int \<times> apoint \<times> int \<times> int" where
  "secp256k1_key =
     (0xfffffffffffffffffffffffffffffffffffffffffffffffffffffffefffffc2f, 0, 7,
      (0x79be667ef9dcbbac55a06295ce870b07029bfcdb2dce28d959f2815b16f81798,
       0x483ada7726a3c4655da4fbfc0e1108a8fd17b448a68554199c47d08ffb10d4b8),
      0xfffffffffffffffffffffffffffffffebaaedce6af48a03bbfd25e8cd0364141, 1)"

definition is_secp256k1 :: "curve \<Rightarrow> bool" where
  "is_secp256k1 ec \<longleftrightarrow> eq_key ec = secp256k1_key"

section \<open>Membership\<close>

definition assert_in_subgroup :: "apoint \<Rightarrow> curve \<Rightarrow> unit result" where
  "assert_in_subgroup Q ec =
     (if 1 < cv_cofactor ec
      then rbind (mult_jac_var (cv_n ec) (jac_from_aff Q) ec) (\<lambda>R.
        require (snd (snd R) = 0) (BTClibEccValueError ''point not in the subgroup generated by G''))
      else Inr ())"

definition is_x_coordinate_var :: "int \<Rightarrow> curve \<Rightarrow> bool result" where
  "is_x_coordinate_var x ec =
     (if \<not> (0 \<le> x \<and> x < ec_p ec) then Inr False
      else rbind (legendre_symbol_var (ec_y2 ec x) (ec_p ec)) (\<lambda>s. Inr (s \<noteq> -1)))"

section \<open>Multiplication\<close>

definition ENDOMORPHISM_W :: int where "ENDOMORPHISM_W = 4"
definition DOUBLE_MULT_W :: int where "DOUBLE_MULT_W = 4"
definition FIXED_BASE_W :: int where "FIXED_BASE_W = 6"

definition mult_checked :: "int \<Rightarrow> int \<Rightarrow> apoint option \<Rightarrow> curve \<Rightarrow> bool \<Rightarrow> apoint result" where
  "mult_checked rnd m Q ec prepared =
     (case Q of
        None \<Rightarrow> rbind (mult_fixed_base rnd m (cv_GJ ec) ec FIXED_BASE_W) (aff_from_jac_var ec)
      | Some Q \<Rightarrow>
        if Q = cv_G ec
        then rbind (mult_fixed_base rnd m (cv_GJ ec) ec FIXED_BASE_W) (aff_from_jac_var ec)
        else if prepared
        then rbind (mult_fixed_base rnd m (jac_from_aff Q) ec FIXED_BASE_W) (aff_from_jac_var ec)
        else
          let QJ = blinded_jac rnd (jac_from_aff Q) ec in
          rbind (if is_secp256k1 ec then mult_endomorphism_secp256k1 m QJ ec ENDOMORPHISM_W
                 else group_mult m QJ ec) (aff_from_jac_var ec))"

definition mult :: "int \<Rightarrow> int \<Rightarrow> apoint option \<Rightarrow> curve \<Rightarrow> apoint result" where
  "mult rnd m_int Q ec =
     (let m = m_int mod cv_n ec in
      rbind (case Q of None \<Rightarrow> Inr () | Some P \<Rightarrow> if P \<noteq> cv_G ec then require_on_curve ec P else Inr ())
        (\<lambda>_. mult_checked rnd m Q ec False))"

record prepared_point =
  pp_point :: apoint
  pp_ec :: curve
  pp_fixed :: "jpoint set"

definition init_prepared_point :: "apoint \<Rightarrow> curve \<Rightarrow> prepared_point result" where
  "init_prepared_point Q ec =
     rbind (require_on_curve ec Q) (\<lambda>_.
       if snd Q = 0 then Inl (BTClibEccValueError ''cannot prepare the point at infinity'')
       else let PJ = jac_from_aff Q in
         Inr \<lparr>pp_point = Q, pp_ec = ec, pp_fixed = ec_fixed_points ec \<union> {PJ, negate_jac ec PJ}\<rparr>)"

definition prepared_mult :: "int \<Rightarrow> prepared_point \<Rightarrow> int \<Rightarrow> apoint result" where
  "prepared_mult rnd pp m_int =
     (let m = m_int mod cv_n (pp_ec pp) in mult_checked rnd m (Some (pp_point pp)) (pp_ec pp) True)"

text \<open>\<^verbatim>\<open>_double_mult_python_var\<close>; \<^verbatim>\<open>_jac_double_mult_var\<close> is it where the bindings do not serve.\<close>

definition double_mult_python_var ::
  "int \<Rightarrow> jpoint \<Rightarrow> int \<Rightarrow> jpoint \<Rightarrow> curve \<Rightarrow> jpoint set \<Rightarrow> jpoint result" where
  "double_mult_python_var u HJ v QJ ec fixed =
     (if is_secp256k1 ec then double_mult_endomorphism_secp256k1_var u HJ v QJ ec ENDOMORPHISM_W fixed
      else double_mult_w_NAF_var u HJ v QJ ec DOUBLE_MULT_W fixed)"

definition jac_double_mult_var ::
  "int \<Rightarrow> jpoint \<Rightarrow> int \<Rightarrow> jpoint \<Rightarrow> curve \<Rightarrow> jpoint set \<Rightarrow> jpoint result" where
  "jac_double_mult_var u HJ v QJ ec fixed = double_mult_python_var u HJ v QJ ec fixed"

definition double_mult_var :: "int \<Rightarrow> apoint \<Rightarrow> int \<Rightarrow> apoint \<Rightarrow> curve \<Rightarrow> apoint result" where
  "double_mult_var u H v Q ec =
     rbind (require_on_curve ec H) (\<lambda>_.
     rbind (require_on_curve ec Q) (\<lambda>_.
     rbind (double_mult_python_var (u mod cv_n ec) (jac_from_aff H) (v mod cv_n ec) (jac_from_aff Q) ec
              (ec_fixed_points ec)) (aff_from_jac_var ec)))"

section \<open>Sums\<close>

text \<open>\<^verbatim>\<open>CurveGroup.add_var\<close> on an instance of \<^verbatim>\<open>Curve\<close>.\<close>

definition add_var :: "curve \<Rightarrow> apoint \<Rightarrow> apoint \<Rightarrow> apoint result" where
  "add_var ec Q1 Q2 =
     rbind (require_on_curve ec Q1) (\<lambda>_. rbind (require_on_curve ec Q2) (\<lambda>_. add_aff_var ec Q1 Q2))"

definition sum_var :: "apoint list \<Rightarrow> curve \<Rightarrow> apoint result" where
  "sum_var points ec =
     rbind (rmap (require_on_curve ec) points) (\<lambda>_. rfold (add_aff_var ec) INF_aff points)"

definition add_points :: "int \<Rightarrow> int \<Rightarrow> apoint \<Rightarrow> apoint \<Rightarrow> curve \<Rightarrow> apoint result" where
  "add_points rnd rnd' P Q ec =
     (let PJ = blinded_jac rnd (jac_from_aff P) ec; QJ = blinded_jac rnd' (jac_from_aff Q) ec
      in aff_from_jac_var ec (add_jac ec PJ QJ))"

definition tweak_add_var :: "int \<Rightarrow> apoint \<Rightarrow> int \<Rightarrow> curve \<Rightarrow> apoint result" where
  "tweak_add_var rnd P t ec =
     rbind (require_on_curve ec P) (\<lambda>_.
     rbind (mult rnd (t mod cv_n ec) (Some (cv_G ec)) ec) (add_var ec P))"

record tweak_chain =
  tc_base :: apoint
  tc_ec :: curve
  tc_tweak :: int

definition init_tweak_chain :: "apoint \<Rightarrow> curve \<Rightarrow> tweak_chain result" where
  "init_tweak_chain base ec =
     rbind (require_on_curve ec base) (\<lambda>_. Inr \<lparr>tc_base = base, tc_ec = ec, tc_tweak = 0\<rparr>)"

text \<open>A chain without the bindings' counterpart tweaks its base anew at every call.\<close>

definition tweak_chain_point :: "int \<Rightarrow> tweak_chain \<Rightarrow> int \<Rightarrow> apoint result" where
  "tweak_chain_point rnd tc t =
     tweak_add_var rnd (tc_base tc) (t mod cv_n (tc_ec tc)) (tc_ec tc)"

definition multi_mult_points_var :: "int list \<Rightarrow> apoint list \<Rightarrow> curve \<Rightarrow> apoint result" where
  "multi_mult_points_var scalars points ec =
     (if length scalars \<noteq> length points
      then Inl (BTClibEccValueError ''mismatch between number of scalars and points'')
      else
        rbind (rmap (require_on_curve ec) points) (\<lambda>_.
        rbind (multi_mult_var (map (\<lambda>s. s mod cv_n ec) scalars) (map jac_from_aff points) ec) (aff_from_jac_var ec)))"

definition multi_mult_x_only_var :: "int list \<Rightarrow> int list \<Rightarrow> curve \<Rightarrow> apoint result" where
  "multi_mult_x_only_var scalars x_coords ec =
     rbind (rmap (\<lambda>x. rbind (y_even_var ec x) (\<lambda>y. Inr (x, y))) x_coords)
       (\<lambda>points. multi_mult_points_var scalars points ec)"

end
