(* ===== verification/Curve_Correct.thy ===== *)
theory Curve_Correct
  imports Curve
begin

text \<open>
  What \<open>Curve\<close> promises: the constructor establishes \<open>curve_valid\<close>, the invariant every public
  operation relies on, and the multiplications and sums of points of the group the generator spans
  return the affine coordinates of the multiple or sum. On secp256k1 they rest on \<open>endo_acts\<close>, that the
  map \<open>(x, y) \<mapsto> (\<beta> x, y)\<close> multiplies by \<open>\<lambda>\<close>.
\<close>

section \<open>The constructors\<close>

lemma init_curve_group_ok:
  assumes "init_curve_group trusted p a b = Inr g" "prime_int p" "trusted \<longrightarrow> 2 < p"
  shows "curve_ok g \<and> ec_p g = p \<and> ec_a g = a \<and> ec_b g = b"
proof -
  have "2 < p" using assms is_prime_odd [of p] by (auto simp: init_curve_group_def split: if_splits)
  moreover have "0 \<le> a \<and> a < p \<and> 0 \<le> b \<and> b < p \<and> (4 * a * a * a + 27 * b * b) mod p \<noteq> 0
    \<and> ec_p g = p \<and> ec_a g = a \<and> ec_b g = b \<and> ec_p_is_3_mod_4 g = (p mod 4 = 3) \<and> ec_a_is_zero g = (a = 0)
    \<and> ec_a_is_minus_3 g = (a = p - 3) \<and> 0 < ec_scalar_len g"
    using assms(1) unfolding init_curve_group_def by (auto split: if_split_asm)
  ultimately show ?thesis using assms(2)
    by (simp add: curve_ok_def curve_params_def nonsingular_def dvd_eq_mod_eq_0)
qed

lemma with_generator_sel [simp]:
  "ec_p (with_generator g G n h) = ec_p g" "ec_a (with_generator g G n h) = ec_a g"
  "ec_b (with_generator g G n h) = ec_b g" "ec_p_is_3_mod_4 (with_generator g G n h) = ec_p_is_3_mod_4 g"
  "ec_a_is_zero (with_generator g G n h) = ec_a_is_zero g"
  "ec_a_is_minus_3 (with_generator g G n h) = ec_a_is_minus_3 g"
  "ec_scalar_len (with_generator g G n h) = bit_length n" "cv_n (with_generator g G n h) = n"
  "cv_G (with_generator g G n h) = G" "cv_GJ (with_generator g G n h) = (fst G, snd G, 1)"
  "cv_cofactor (with_generator g G n h) = h" "cv_nlen (with_generator g G n h) = bit_length n"
  by (simp_all add: with_generator_def Let_def curve_group.defs)

lemma bit_length_pos: "0 < m \<Longrightarrow> 0 < bit_length m"
  by (subst bit_length.simps) simp

lemma jrep_Inf_iff: "jrep ec R P \<Longrightarrow> snd (snd R) = 0 \<longleftrightarrow> P = Inf"
  by (cases R; cases P) auto

text \<open>What a value of the class is: the constructor's checks as facts about the group.\<close>

definition curve_valid :: "curve \<Rightarrow> bool" where
  "curve_valid ec \<longleftrightarrow>
     curve_ok ec \<and> prime_int (cv_n ec) \<and> in_order ec (cv_n ec) (aff_abs (cv_G ec))
   \<and> snd (cv_G ec) \<noteq> 0 \<and> cv_GJ ec = jac_from_aff (cv_G ec) \<and> ec_scalar_len ec = bit_length (cv_n ec)
   \<and> cv_n ec \<noteq> ec_p ec \<and> 0 < cv_cofactor ec
   \<and> (cv_cofactor ec * cv_n ec - (ec_p ec + 1)) ^ 2 \<le> 4 * ec_p ec"

lemma is_on_curve_True:
  assumes "is_on_curve ec Q = Inr True" "curve_ok ec"
  shows "arep ec Q (aff_abs Q) \<and> 0 \<le> fst Q \<and> fst Q < ec_p ec"
proof -
  have "group_is_on_curve ec Q = Inr True"
    using assms(1) by (auto simp: is_on_curve_def rbind_eq_Inr_iff split: if_splits)
  then show ?thesis using group_is_on_curve_True_iff [OF assms(2)] by blast
qed

lemma require_on_curve_Inr:
  assumes "require_on_curve ec Q = Inr ()" "curve_ok ec"
  shows "arep ec Q (aff_abs Q)" and "jrep ec (jac_from_aff Q) (aff_abs Q)"
proof -
  have "is_on_curve ec Q = Inr True" using assms(1) by (auto simp: require_on_curve_def rbind_eq_Inr_iff)
  then show "arep ec Q (aff_abs Q)" using is_on_curve_True assms(2) by blast
  then show "jrep ec (jac_from_aff Q) (aff_abs Q)" by (rule jrep_jac_from_aff [OF assms(2)])
qed

lemma hasse_square:
  fixes p :: int
  assumes "0 \<le> p" "p + 1 - isqrt (4 * p) \<le> m" "m \<le> p + 1 + isqrt (4 * p)"
  shows "(m - (p + 1)) ^ 2 \<le> 4 * p"
proof -
  have i: "isqrt (4 * p) * isqrt (4 * p) \<le> 4 * p" "0 \<le> isqrt (4 * p)" using isqrt_spec [of "4 * p"] assms(1) by simp_all
  have "\<bar>m - (p + 1)\<bar> \<le> isqrt (4 * p)" using assms(2,3) by linarith
  then have "\<bar>m - (p + 1)\<bar> ^ 2 \<le> isqrt (4 * p) ^ 2" by (rule power_mono) simp
  then show ?thesis using i by (simp add: power2_eq_square)
qed

lemma init_curve_valid:
  assumes i: "init_curve trusted p a b G n h wk oc = Inr ec"
    and pr: "prime_int p" "prime_int n" "trusted \<longrightarrow> 2 < p \<and> odd n"
    and oc: "\<not> oc \<longrightarrow> ec_mult p a n (aff_abs G) = Inf"
  shows "curve_valid ec \<and> ec_p ec = p \<and> ec_a ec = a \<and> ec_b ec = b \<and> cv_G ec = G \<and> cv_n ec = n \<and> cv_cofactor ec = h"
proof -
  obtain g where g: "init_curve_group trusted p a b = Inr g" using i by (auto simp: init_curve_def rbind_eq_Inr_iff)
  note gok = init_curve_group_ok [OF g pr(1)]
  have gp: "curve_ok g" "ec_p g = p" "ec_a g = a" "ec_b g = b" using gok pr(3) by auto
  let ?E = "with_generator g G n h"
  have on: "is_on_curve g G = Inr True"
    using i g by (auto simp: init_curve_def generator_from_point_def rbind_eq_Inr_iff split: if_splits)
  have gen: "generator_from_point G g = Inr G" using on by (simp add: generator_from_point_def)
  note i' = i [unfolded init_curve_def, simplified g gen rbind_simps Let_def with_generator_sel]
  have chk: "\<not> trusted \<longrightarrow> is_prime n" "1 \<le> h" "p + 1 - isqrt (4 * p) \<le> h * n" "h * n \<le> p + 1 + isqrt (4 * p)"
    "snd G \<noteq> 0" "ec = ?E" "n \<noteq> p"
    using i' by (auto split: if_splits simp: rbind_eq_Inr_iff)
  have odd: "odd n" using chk(1) pr(3) is_prime_odd by blast
  have n: "0 < n" using pr(2) by simp
  have ok: "curve_ok ?E" using gp(1) bit_length_pos [OF n] by (simp add: curve_ok_def)
  have GJ: "(fst G, snd G, 1) = jac_from_aff G" using chk(5) by (simp add: jac_from_aff_def)
  have a: "arep ?E G (aff_abs G)" using is_on_curve_True [OF on gp(1)] by (simp add: arep_def)
  then have j: "jrep ?E (fst G, snd G, 1) (aff_abs G)" unfolding GJ by (rule jrep_jac_from_aff [OF ok])
  have "ec_times ?E n (aff_abs G) = Inf"
  proof (cases oc)
    case True
    then obtain R where R: "mult_jac_var n (fst G, snd G, 1) ?E = Inr R" "snd (snd R) = 0"
      using i' chk by (auto split: if_splits simp: rbind_eq_Inr_iff)
    have "jrep ?E R (ec_times ?E n (aff_abs G))"
      using mult_jac_var_rel [OF j, of n] n mul_relD [OF ok arep_on [OF a]] R(1) by simp
    then show ?thesis using jrep_Inf_iff R(2) by blast
  qed (use oc gp in simp)
  then have "in_order ?E n (aff_abs G)" using ok a odd n by (simp add: in_order_def arep_def)
  then show ?thesis
    using ok pr(2) chk GJ gp hasse_square [OF _ chk(3,4)] prime_int_pos [OF pr(1)]
    by (simp add: curve_valid_def)
qed

section \<open>Multiplication\<close>

text \<open>What a multiplication needs on secp256k1, and nothing elsewhere.\<close>

definition endo_ok :: "curve \<Rightarrow> point \<Rightarrow> bool" where
  "endo_ok ec P \<longleftrightarrow> (is_secp256k1 ec \<longrightarrow> endo_acts ec P)"

text \<open>A point the group operations take: on the curve, annihilated by the order.\<close>

definition member :: "curve \<Rightarrow> point \<Rightarrow> bool" where
  "member ec P \<longleftrightarrow> curve_valid ec \<and> in_order ec (cv_n ec) P"

lemma memberD:
  assumes "member ec P"
  shows "curve_valid ec" "in_order ec (cv_n ec) P" "curve_ok ec" "ec_on ec P" "0 < cv_n ec"
  using assms by (auto simp: member_def curve_valid_def in_order_def)

lemma member_closed:
  "member ec P \<Longrightarrow> member ec S \<Longrightarrow> member ec (ec_plus ec P S)"
  "member ec P \<Longrightarrow> member ec (ec_minus ec P)"
  "member ec P \<Longrightarrow> member ec (ec_times ec k P)"
  "curve_valid ec \<Longrightarrow> member ec Inf"
proof -
  show "member ec P \<Longrightarrow> member ec S \<Longrightarrow> member ec (ec_plus ec P S)"
    unfolding member_def by (blast intro: ecn.add_closed)
  show "member ec P \<Longrightarrow> member ec (ec_minus ec P)" unfolding member_def by (blast intro: ecn.neg_closed)
  show "member ec P \<Longrightarrow> member ec (ec_times ec k P)" unfolding member_def by (blast intro: in_order_times)
  show "curve_valid ec \<Longrightarrow> member ec Inf"
    using in_order_times [of ec "cv_n ec" "aff_abs (cv_G ec)" 0] by (simp add: member_def curve_valid_def)
qed

lemma member_generator: "curve_valid ec \<Longrightarrow> member ec (aff_abs (cv_G ec))"
  by (simp add: member_def curve_valid_def)

lemma is_secp256k1_n: "is_secp256k1 ec \<Longrightarrow> cv_n ec = secp_N"
  by (simp add: is_secp256k1_def eq_key_def secp256k1_key_def secp_N_def)

lemma arep_aff_of_member: "member ec P \<Longrightarrow> arep ec (aff_of P) P"
  using in_order_arep memberD(2) by blast

lemma aff_from_jac_returns:
  assumes "member ec P" "returns r (\<lambda>R. jrep ec R P)"
  shows "rbind r (aff_from_jac_var ec) = Inr (aff_of P)"
  using assms(2) aff_from_jac_var_correct [OF memberD(3) [OF assms(1)]]
  by (auto simp: returns_def)

lemma mod_n_fits:
  assumes "curve_valid ec"
  shows "0 \<le> m mod cv_n ec" "m mod cv_n ec < 2 ^ ec_scalar_len ec"
proof -
  have n: "0 < cv_n ec" "ec_scalar_len ec = bit_length (cv_n ec)"
    using assms by (auto simp: curve_valid_def in_order_def)
  then show "0 \<le> m mod cv_n ec" by simp
  have "m mod cv_n ec < cv_n ec" using n by simp
  also have "\<dots> < 2 ^ bit_length (cv_n ec)" using bit_length_upper [of "cv_n ec"] n by simp
  finally show "m mod cv_n ec < 2 ^ ec_scalar_len ec" by (simp add: n)
qed

lemma fixed_base_aff:
  assumes P: "member ec P" "jrep ec Q P" and r: "0 \<le> rnd" "rnd < ec_p ec - 1"
  shows "rbind (mult_fixed_base rnd (m mod cv_n ec) Q ec FIXED_BASE_W) (aff_from_jac_var ec)
    = Inr (aff_of (ec_times ec m P))"
proof -
  note o = memberD(2) [OF P(1)]
  have "(1 :: int) \<le> FIXED_BASE_W" by (simp add: FIXED_BASE_W_def)
  from mult_fixed_base_rel [OF o P(2) mod_n_fits [OF memberD(1) [OF P(1)]] this r]
  have "returns (mult_fixed_base rnd (m mod cv_n ec) Q ec FIXED_BASE_W)
      (\<lambda>R. jrep ec R (ec_times ec (m mod cv_n ec) P))"
    by (rule returns_mono) (rule ord_relD [OF o])
  then show ?thesis
    unfolding ecn.zm_mod [OF o] by (rule aff_from_jac_returns [OF member_closed(3) [OF P(1)]])
qed

lemma mult_checked_correct:
  assumes P: "member ec P" and Q: "arep ec A P" and e: "endo_ok ec P" and r: "0 \<le> rnd" "rnd < ec_p ec - 1"
  shows "mult_checked rnd (m mod cv_n ec) (Some A) ec prepared = Inr (aff_of (ec_times ec m P))"
proof -
  note o = memberD(2) [OF P] and ok = memberD(3) [OF P]
  have J: "jrep ec (jac_from_aff A) P" by (rule jrep_jac_from_aff [OF ok Q])
  have "cv_GJ ec = jac_from_aff (cv_G ec)" using memberD(1) [OF P] by (simp add: curve_valid_def)
  then have G: "cv_GJ ec = jac_from_aff A" if "A = cv_G ec" using that by simp
  have B: "jrep ec (blinded_jac rnd (jac_from_aff A) ec) P" by (rule jrep_blinded_jac [OF ok J r])
  have m: "0 \<le> m mod cv_n ec" by (rule mod_n_fits [OF memberD(1) [OF P]])
  have "returns (if is_secp256k1 ec
        then mult_endomorphism_secp256k1 (m mod cv_n ec) (blinded_jac rnd (jac_from_aff A) ec) ec ENDOMORPHISM_W
        else group_mult (m mod cv_n ec) (blinded_jac rnd (jac_from_aff A) ec) ec)
      (\<lambda>R. jrep ec R (ec_times ec (m mod cv_n ec) P))"
  proof (cases "is_secp256k1 ec")
    case True
    then have "in_order ec secp_N P" "endo_acts ec P" using o e is_secp256k1_n by (simp_all add: endo_ok_def)
    then show ?thesis
      using mult_endomorphism_secp256k1_correct [OF _ B _ m, of ENDOMORPHISM_W] True
      by (simp add: ENDOMORPHISM_W_def)
  qed (simp add: group_mult_rel [OF o B m])
  from aff_from_jac_returns [OF _ this [unfolded ecn.zm_mod [OF o]]]
  show ?thesis using fixed_base_aff [OF P J r, of m] G member_closed(3) [OF P]
    by (cases "A = cv_G ec") (simp_all add: mult_checked_def Let_def)
qed

lemma mult_correct:
  assumes "curve_valid ec" "require_on_curve ec A = Inr ()" "in_order ec (cv_n ec) (aff_abs A)"
    and "endo_ok ec (aff_abs A)" "0 \<le> rnd" "rnd < ec_p ec - 1"
  shows "mult rnd m (Some A) ec = Inr (aff_of (ec_times ec m (aff_abs A)))"
proof -
  have P: "member ec (aff_abs A)" using assms(1,3) by (simp add: member_def)
  note a = require_on_curve_Inr(1) [OF assms(2) memberD(3) [OF P]]
  from mult_checked_correct [OF P a assms(4-6)] assms(2) show ?thesis by (simp add: mult_def)
qed

lemma mult_generator:
  assumes "curve_valid ec" "0 \<le> rnd" "rnd < ec_p ec - 1"
  shows "mult rnd m (Some (cv_G ec)) ec = Inr (aff_of (ec_times ec m (aff_abs (cv_G ec))))"
    and "mult rnd m None ec = Inr (aff_of (ec_times ec m (aff_abs (cv_G ec))))"
proof -
  note P = member_generator [OF assms(1)]
  have "arep ec (cv_G ec) (aff_abs (cv_G ec))" using memberD(4) [OF P] by (simp add: arep_def)
  then have J: "jrep ec (jac_from_aff (cv_G ec)) (aff_abs (cv_G ec))" by (rule jrep_jac_from_aff [OF memberD(3) [OF P]])
  have "cv_GJ ec = jac_from_aff (cv_G ec)" using assms(1) by (simp add: curve_valid_def)
  with fixed_base_aff [OF P J assms(2,3), of m]
  show "mult rnd m (Some (cv_G ec)) ec = Inr (aff_of (ec_times ec m (aff_abs (cv_G ec))))"
    and "mult rnd m None ec = Inr (aff_of (ec_times ec m (aff_abs (cv_G ec))))"
    by (simp_all add: mult_def mult_checked_def)
qed

lemma prepared_mult_correct:
  assumes "init_prepared_point A ec = Inr pp" "member ec (aff_abs A)" "endo_ok ec (aff_abs A)"
    and "0 \<le> rnd" "rnd < ec_p ec - 1"
  shows "prepared_mult rnd pp m = Inr (aff_of (ec_times ec m (aff_abs A)))"
proof -
  have q: "require_on_curve ec A = Inr ()" "pp_point pp = A" "pp_ec pp = ec"
    using assms(1) by (auto simp: init_prepared_point_def rbind_eq_Inr_iff Let_def split: if_splits)
  from mult_checked_correct [OF assms(2) require_on_curve_Inr(1) [OF q(1) memberD(3) [OF assms(2)]] assms(3-5)]
  show ?thesis by (simp add: prepared_mult_def q)
qed

section \<open>Sums and linear combinations\<close>

lemma double_mult_python_correct:
  assumes "member ec P" "jrep ec HJ P" "endo_ok ec P" "member ec S" "jrep ec QJ S" "endo_ok ec S"
    and "0 \<le> u" "0 \<le> v"
  shows "returns (double_mult_python_var u HJ v QJ ec fixed)
    (\<lambda>R. jrep ec R (ec_plus ec (ec_times ec u P) (ec_times ec v S)))"
proof (cases "is_secp256k1 ec")
  case True
  then have "in_order ec secp_N P" "endo_acts ec P" "in_order ec secp_N S" "endo_acts ec S"
    using memberD(2) [OF assms(1)] memberD(2) [OF assms(4)] assms(3,6) is_secp256k1_n by (simp_all add: endo_ok_def)
  then show ?thesis
    using double_mult_endomorphism_correct [OF _ assms(2) _ _ assms(5) _ assms(7,8), of ENDOMORPHISM_W] True
    by (simp add: double_mult_python_var_def ENDOMORPHISM_W_def)
next
  case False
  then show ?thesis
    using double_mult_w_NAF_var_correct [OF memberD(2) [OF assms(1)] assms(2) memberD(2) [OF assms(4)] assms(5,7,8), of DOUBLE_MULT_W]
    by (simp add: double_mult_python_var_def DOUBLE_MULT_W_def)
qed

lemma double_mult_var_correct:
  assumes "require_on_curve ec H = Inr ()" "member ec (aff_abs H)" "endo_ok ec (aff_abs H)"
    and "require_on_curve ec Q = Inr ()" "member ec (aff_abs Q)" "endo_ok ec (aff_abs Q)"
  shows "double_mult_var u H v Q ec = Inr (aff_of (ec_plus ec (ec_times ec u (aff_abs H)) (ec_times ec v (aff_abs Q))))"
proof -
  note ok = memberD(3) [OF assms(2)] and v = memberD(1) [OF assms(2)]
  note d = double_mult_python_correct [OF assms(2) require_on_curve_Inr(2) [OF assms(1) ok] assms(3)
    assms(5) require_on_curve_Inr(2) [OF assms(4) ok] assms(6) mod_n_fits(1) [OF v] mod_n_fits(1) [OF v]]
  from aff_from_jac_returns [OF _ d [unfolded ecn.zm_mod [OF memberD(2) [OF assms(2)]] ecn.zm_mod [OF memberD(2) [OF assms(5)]]]]
  show ?thesis using member_closed assms(2,5) by (simp add: double_mult_var_def assms(1,4))
qed

lemma add_aff_members:
  assumes "member ec P" "member ec S" "arep ec A P" "arep ec B S"
  shows "\<exists>C. add_aff_var ec A B = Inr C \<and> arep ec C (ec_plus ec P S)"
  by (rule arep_add_aff_var [OF memberD(3) [OF assms(1)] assms(3,4)])
    (rule in_order_off_axis [OF memberD(2) [OF member_closed(1) [OF assms(1,2)]]])

lemma sum_fold:
  assumes "member ec S" "arep ec A S" "\<forall>Q\<in>set points. arep ec Q (aff_abs Q) \<and> member ec (aff_abs Q)"
  shows "returns (rfold (add_aff_var ec) A points) (\<lambda>B. arep ec B (foldl (ec_plus ec) S (map aff_abs points)))"
  using assms
proof (induction points arbitrary: A S)
  case (Cons Q points)
  obtain C where "add_aff_var ec A Q = Inr C" "arep ec C (ec_plus ec S (aff_abs Q))"
    using add_aff_members [OF Cons.prems(1) _ Cons.prems(2)] Cons.prems(3) by fastforce
  then show ?case using Cons.IH [OF member_closed(1) [OF Cons.prems(1)]] Cons.prems(3) by simp
qed simp

lemma rmap_require_on_curve:
  assumes "rmap (require_on_curve ec) points = Inr us" "curve_ok ec" "Q \<in> set points"
  shows "require_on_curve ec Q = Inr ()"
  using assms by (induction points arbitrary: us) (auto simp: rbind_eq_Inr_iff)

lemma rmap_require_all:
  assumes "\<And>Q. Q \<in> set points \<Longrightarrow> require_on_curve ec Q = Inr ()"
  shows "rmap (require_on_curve ec) points = Inr (map (\<lambda>_. ()) points)"
  by (rule rmap_Inr) (use assms in simp)

lemma sum_var_correct:
  assumes "curve_valid ec" "\<forall>Q\<in>set points. require_on_curve ec Q = Inr () \<and> member ec (aff_abs Q)"
  shows "\<exists>B. sum_var points ec = Inr B \<and> arep ec B (foldl (ec_plus ec) Inf (map aff_abs points))"
proof -
  have ok: "curve_ok ec" using assms(1) by (simp add: curve_valid_def)
  have "\<forall>Q\<in>set points. arep ec Q (aff_abs Q) \<and> member ec (aff_abs Q)"
    using assms(2) require_on_curve_Inr(1) ok by blast
  from sum_fold [OF member_closed(4) [OF assms(1)] arep_INF this]
  show ?thesis using rmap_require_all [of points ec] assms(2) by (auto simp: sum_var_def returns_def)
qed

lemma add_points_correct:
  assumes "member ec P" "member ec S" "arep ec A P" "arep ec B S"
    and "0 \<le> rnd" "rnd < ec_p ec - 1" "0 \<le> rnd'" "rnd' < ec_p ec - 1"
  shows "add_points rnd rnd' A B ec = Inr (aff_of (ec_plus ec P S))"
proof -
  note ok = memberD(3) [OF assms(1)]
  have "jrep ec (add_jac ec (blinded_jac rnd (jac_from_aff A) ec) (blinded_jac rnd' (jac_from_aff B) ec)) (ec_plus ec P S)"
    by (intro jrep_add_jac jrep_blinded_jac jrep_jac_from_aff ok assms)
  then show ?thesis by (simp add: add_points_def Let_def aff_from_jac_var_correct [OF ok])
qed

lemma tweak_add_var_correct:
  assumes "curve_valid ec" "require_on_curve ec A = Inr ()" "member ec (aff_abs A)"
    and "require_on_curve ec (aff_of (ec_times ec t (aff_abs (cv_G ec)))) = Inr ()"
    and "0 \<le> rnd" "rnd < ec_p ec - 1"
  shows "\<exists>B. tweak_add_var rnd A t ec = Inr B \<and> arep ec B (ec_plus ec (aff_abs A) (ec_times ec t (aff_abs (cv_G ec))))"
proof -
  note G = member_generator [OF assms(1)]
  have "mult rnd (t mod cv_n ec) (Some (cv_G ec)) ec = Inr (aff_of (ec_times ec t (aff_abs (cv_G ec))))"
    using mult_generator(1) [OF assms(1,5,6), of "t mod cv_n ec"] ecn.zm_mod [OF memberD(2) [OF G]] by simp
  moreover have "\<exists>B. add_aff_var ec A (aff_of (ec_times ec t (aff_abs (cv_G ec)))) = Inr B
      \<and> arep ec B (ec_plus ec (aff_abs A) (ec_times ec t (aff_abs (cv_G ec))))"
    by (rule add_aff_members [OF assms(3) member_closed(3) [OF G] require_on_curve_Inr(1) [OF assms(2) memberD(3) [OF G]]
      arep_aff_of_member [OF member_closed(3) [OF G]]])
  ultimately show ?thesis by (simp add: tweak_add_var_def add_var_def assms(2,4))
qed

lemma lc_mod:
  assumes "\<forall>P\<in>set Ps. in_order ec n P"
  shows "ec_lc ec (zip (map (\<lambda>s. s mod n) scalars) Ps) = ec_lc ec (zip scalars Ps)"
  using assms
proof (induction Ps arbitrary: scalars)
  case (Cons P Ps)
  then show ?case by (cases scalars) (simp_all add: ecn.zm_mod)
qed simp

lemma abs_pairs_aff:
  assumes "\<forall>A\<in>set points. member ec (aff_abs A) \<and> jrep ec (jac_from_aff A) (aff_abs A)"
  shows "abs_pairs ec (zip ks (map jac_from_aff points)) = zip ks (map aff_abs points)"
  using assms
proof (induction points arbitrary: ks)
  case (Cons A points)
  have "jac_abs ec (jac_from_aff A) = aff_abs A" using jgoodI memberD(2) Cons.prems by fastforce
  then show ?case using Cons by (cases ks) (simp_all add: abs_pairs_def)
qed (simp add: abs_pairs_def)

lemma multi_mult_points_correct:
  assumes v: "curve_valid ec" and l: "length scalars = length points" "2 \<le> length points"
    and Q: "\<forall>A\<in>set points. require_on_curve ec A = Inr () \<and> member ec (aff_abs A)"
  shows "multi_mult_points_var scalars points ec = Inr (aff_of (ec_lc ec (zip scalars (map aff_abs points))))"
proof -
  have ok: "curve_ok ec" using v by (simp add: curve_valid_def)
  let ?ks = "map (\<lambda>s. s mod cv_n ec) scalars" and ?Js = "map jac_from_aff points"
  have J: "\<forall>A\<in>set points. member ec (aff_abs A) \<and> jrep ec (jac_from_aff A) (aff_abs A)"
    using Q require_on_curve_Inr(2) ok by blast
  then have g: "\<forall>A\<in>set points. jgood ec (cv_n ec) (jac_from_aff A)" using jgoodI memberD(2) by blast
  note G = memberD(2) [OF member_generator [OF v]]
  have "returns (multi_mult_var ?ks ?Js ec) (\<lambda>R. jrep ec R (ec_lc ec (abs_pairs ec (zip ?ks ?Js))))"
    by (rule multi_mult_var_correct [OF G]) (use l g mod_n_fits(1) [OF v] in simp_all)
  moreover have "ec_lc ec (abs_pairs ec (zip ?ks ?Js)) = ec_lc ec (zip scalars (map aff_abs points))"
    unfolding abs_pairs_aff [OF J] by (rule lc_mod) (use J memberD(2) in auto)
  moreover have "member ec (ec_lc ec (zip scalars (map aff_abs points)))"
  proof -
    have "\<forall>x\<in>set (zip scalars (map aff_abs points)). in_order ec (cv_n ec) (snd x)"
      using J memberD(2) by (fastforce dest: set_zip_rightD)
    from ecn.lc_closed' [OF G this] show ?thesis using v by (simp add: member_def)
  qed
  ultimately show ?thesis
    using aff_from_jac_returns rmap_require_all [of points ec] l Q by (simp add: multi_mult_points_var_def)
qed

section \<open>Membership in the subgroup\<close>

lemma assert_in_subgroup_iff:
  assumes "curve_valid ec" "arep ec A P"
  shows "assert_in_subgroup A ec = Inr () \<longleftrightarrow> cv_cofactor ec = 1 \<or> in_order ec (cv_n ec) P"
proof -
  have ok: "curve_ok ec" "0 < cv_n ec" "odd (cv_n ec)" "0 < cv_cofactor ec"
    using assms(1) by (auto simp: curve_valid_def in_order_def)
  note J = jrep_jac_from_aff [OF ok(1) assms(2)]
  obtain R where R: "mult_jac_var (cv_n ec) (jac_from_aff A) ec = Inr R" "jrep ec R (ec_times ec (cv_n ec) P)"
    using returns_mul [OF ok(1) arep_on [OF assms(2)] mult_jac_var_rel [OF J, of "cv_n ec"]] ok(2) by auto
  then show ?thesis
    using jrep_Inf_iff [OF R(2)] ok arep_on [OF assms(2)] by (auto simp: assert_in_subgroup_def in_order_def)
qed

section \<open>Points of prime order\<close>

lemma times_Inf_iff:
  assumes "member ec P" "P \<noteq> Inf"
  shows "ec_times ec k P = Inf \<longleftrightarrow> cv_n ec dvd k"
proof
  note o = memberD(2) [OF assms(1)]
  assume k: "ec_times ec k P = Inf"
  show "cv_n ec dvd k"
  proof (rule ccontr)
    assume "\<not> cv_n ec dvd k"
    moreover have p: "prime_int (cv_n ec)" using memberD(1) [OF assms(1)] by (simp add: curve_valid_def)
    ultimately have "cv_n ec dvd (inv_mod k (cv_n ec) * k - 1)" using inv_mod_prime [of "cv_n ec" k] by (simp add: mult.commute)
    then have "P = ec_times ec (inv_mod k (cv_n ec)) (ec_times ec k P)" using ecn.zm_inverse [OF o] by simp
    also have "\<dots> = Inf" unfolding k by (rule ecn.zm_zero [OF o])
    finally show False using assms(2) by simp
  qed
next
  assume "cv_n ec dvd k"
  then have "ec_times ec k P = ec_times ec 0 P" using ecn.zm_cong [OF memberD(2) [OF assms(1)], of k 0] by simp
  then show "ec_times ec k P = Inf" by simp
qed

lemma times_eq_iff:
  assumes "member ec P" "P \<noteq> Inf"
  shows "ec_times ec j P = ec_times ec k P \<longleftrightarrow> cv_n ec dvd (j - k)"
proof -
  note o = memberD(2) [OF assms(1)]
  have "ec_times ec (j - k) P = ec_plus ec (ec_times ec j P) (ec_minus ec (ec_times ec k P))" by (rule ecn.zm_diff [OF o])
  moreover have "ec_plus ec (ec_times ec j P) (ec_minus ec (ec_times ec k P)) = Inf \<longleftrightarrow> ec_times ec j P = ec_times ec k P"
    using ecn.neg_unique [OF in_order_times [OF o] ecn.neg_closed [OF in_order_times [OF o]], of j k]
      ecn.neg_neg in_order_times [OF o] ecn.add_neg by metis
  ultimately show ?thesis using times_Inf_iff [OF assms, of "j - k"] by simp
qed

lemma generator_finite: "curve_valid ec \<Longrightarrow> aff_abs (cv_G ec) \<noteq> Inf"
  by (simp add: curve_valid_def aff_abs_def)

lemma member_finite:
  assumes "member ec P" "P \<noteq> Inf"
  obtains x y where "P = Pt x y" "0 \<le> x" "x < ec_p ec" "0 < y" "y < ec_p ec" "y * y mod ec_p ec = ec_y2 ec x"
proof -
  obtain x y where P: "P = Pt x y" using assms(2) by (cases P) auto
  have "ec_on ec (Pt x y)" using memberD(4) [OF assms(1)] P by simp
  moreover from this have "y * y mod ec_p ec = ec_y2 ec x"
    using ec_y2_on_curve [OF curve_ok_p(3) [OF memberD(3) [OF assms(1)]], of x y] by auto
  moreover have "y \<noteq> 0" using in_order_off_axis [OF memberD(2) [OF assms(1)]] P by (simp add: off_axis_def)
  ultimately show ?thesis using that P by auto
qed

lemma require_member:
  assumes "member ec P" "P \<noteq> Inf"
  shows "require_on_curve ec (aff_of P) = Inr ()" "aff_abs (aff_of P) = P" "snd (aff_of P) \<noteq> 0"
proof -
  obtain x y where P: "P = Pt x y" "0 \<le> x" "x < ec_p ec" "0 < y" "y < ec_p ec" "y * y mod ec_p ec = ec_y2 ec x"
    using member_finite [OF assms] by blast
  then show "require_on_curve ec (aff_of P) = Inr ()" "aff_abs (aff_of P) = P" "snd (aff_of P) \<noteq> 0"
    by (simp_all add: require_on_curve_def is_on_curve_def group_is_on_curve_def aff_abs_def)
qed

lemma aff_of_unique: "aff_abs A = P \<Longrightarrow> P \<noteq> Inf \<Longrightarrow> A = aff_of P"
  by (cases A) (auto simp: aff_abs_def split: if_splits)

end
