(* ===== verification/Sec_Point.thy ===== *)
theory Sec_Point
  imports Hashes Curve_Correct
begin

text \<open>
  Points and keys as octets, \<^verbatim>\<open>src/btclib_ecc/curves/sec_point.py\<close>: the SEC 1 encodings, compressed,
  uncompressed and hybrid, and the private key range check. A public key is given as a point or as
  octets; that a \<^verbatim>\<open>PreparedPoint\<close> stands for its point is the first line of the code's functions. It is
  proved that what is decoded is a point of the group, that decoding inverts encoding, and that the
  compressed and uncompressed encodings are the only octets that decode to the point.
\<close>

section \<open>Operations\<close>

definition scalar_from_int :: "int \<Rightarrow> curve \<Rightarrow> int result" where
  "scalar_from_int q ec =
     (if \<not> (0 < q \<and> q < cv_n ec) then Inl (BTClibEccValueError ''private key not in 1..n-1'') else Inr q)"

definition scalar_from_octets :: "octets \<Rightarrow> curve \<Rightarrow> int result" where
  "scalar_from_octets prv_key ec =
     rbind (bytes_from_octets prv_key (Some [cv_n_size ec])) (\<lambda>bs. scalar_from_int (int_from_bytes bs) ec)"

definition bytes_from_point :: "apoint \<Rightarrow> curve \<Rightarrow> bool \<Rightarrow> octets result" where
  "bytes_from_point Q ec compressed =
     rbind (require_on_curve ec Q) (\<lambda>_.
       if snd Q = 0 then Inl (BTClibEccValueError ''no bytes representation for infinity point'')
       else rbind (int_to_bytes (fst Q) (ec_p_size ec)) (\<lambda>xs.
         if compressed then Inr ((if odd (snd Q) then 3 else 2) # xs)
         else rbind (int_to_bytes (snd Q) (ec_p_size ec)) (\<lambda>ys. Inr (4 # xs @ ys))))"

definition bytes_from_prv_key_int :: "int \<Rightarrow> int \<Rightarrow> curve \<Rightarrow> bool \<Rightarrow> octets result" where
  "bytes_from_prv_key_int rnd prv_key_int ec compressed =
     (let q = prv_key_int mod cv_n ec in
      rbind (mult rnd q None ec) (\<lambda>Q. bytes_from_point Q ec compressed))"

text \<open>The two branches of \<^verbatim>\<open>point_from_octets\<close>, on the coordinates read.\<close>

definition point_from_x :: "8 word \<Rightarrow> int \<Rightarrow> curve \<Rightarrow> apoint result" where
  "point_from_x prefix x_Q ec =
     rbind (y_even_var ec x_Q) (\<lambda>y_Q.
       let Q = (x_Q, if prefix = 2 then y_Q else ec_p ec - y_Q) in
       rbind (require_on_curve ec Q) (\<lambda>_.
       rbind (assert_in_subgroup Q ec) (\<lambda>_. Inr Q)))"

definition point_from_xy :: "8 word \<Rightarrow> apoint \<Rightarrow> curve \<Rightarrow> apoint result" where
  "point_from_xy prefix Q ec =
     (if snd Q = 0 then Inl (BTClibEccValueError ''no bytes representation for infinity point'')
      else if prefix \<noteq> 4 \<and> snd Q mod 2 \<noteq> uint prefix - 6
      then Inl (BTClibEccValueError ''y is against the hybrid prefix'')
      else rbind (is_on_curve ec Q) (\<lambda>b.
        if b then rbind (assert_in_subgroup Q ec) (\<lambda>_. Inr Q)
        else Inl (BTClibEccValueError ''point not on curve'')))"

definition point_from_octets :: "octets \<Rightarrow> curve \<Rightarrow> bool \<Rightarrow> apoint result" where
  "point_from_octets pub_key ec hybrid =
     rbind (bytes_from_octets pub_key (Some [ec_p_size ec + 1, 2 * ec_p_size ec + 1])) (\<lambda>pub_key.
       let bsize = length pub_key; prefix = hd pub_key in
       if prefix = 2 \<or> prefix = 3 then
         (if bsize \<noteq> ec_p_size ec + 1 then Inl (BTClibEccValueError ''invalid size for compressed point'')
          else point_from_x prefix (int_from_bytes (tl pub_key)) ec)
       else if prefix = 4 \<or> hybrid \<and> (prefix = 6 \<or> prefix = 7) then
         (if bsize \<noteq> 2 * ec_p_size ec + 1 then Inl (BTClibEccValueError ''invalid size for uncompressed point'')
          else point_from_xy prefix (int_from_bytes (take (ec_p_size ec) (tl pub_key)),
                 int_from_bytes (drop (ec_p_size ec) (tl pub_key))) ec)
       else Inl (BTClibEccValueError ''not a point''))"

text \<open>A public key as it is passed around.\<close>

datatype pub_key = Key_Point apoint | Key_Octets octets | Key_Prepared prepared_point

definition point_from_tuple :: "apoint \<Rightarrow> curve \<Rightarrow> apoint result" where
  "point_from_tuple Q ec =
     rbind (is_on_curve ec Q) (\<lambda>b.
       if b \<and> snd Q \<noteq> 0 then rbind (assert_in_subgroup Q ec) (\<lambda>_. Inr Q)
       else Inl (BTClibEccValueError ''not a valid public key''))"

text \<open>\<^verbatim>\<open>contextlib.suppress(TypeError, ValueError)\<close> covers every error of the parser.\<close>

fun point_from_pub_key :: "pub_key \<Rightarrow> curve \<Rightarrow> apoint result" where
  "point_from_pub_key (Key_Point Q) ec = point_from_tuple Q ec"
| "point_from_pub_key (Key_Prepared pp) ec = point_from_tuple (pp_point pp) ec"
| "point_from_pub_key (Key_Octets bs) ec =
     (case point_from_octets bs ec False of
        Inr Q \<Rightarrow> Inr Q
      | Inl _ \<Rightarrow> Inl (BTClibEccValueError ''not a public key''))"

fun sec_from_pub_key :: "pub_key \<Rightarrow> curve \<Rightarrow> octets result" where
  "sec_from_pub_key (Key_Point Q) ec = bytes_from_point Q ec False"
| "sec_from_pub_key (Key_Prepared pp) ec = bytes_from_point (pp_point pp) ec False"
| "sec_from_pub_key (Key_Octets bs) ec =
     (case bytes_from_octets bs (Some [ec_p_size ec + 1, 2 * ec_p_size ec + 1]) of
        Inl _ \<Rightarrow> Inl (BTClibEccValueError ''not a public key'')
      | Inr sec \<Rightarrow>
          if hd sec = 6 \<or> hd sec = 7 then Inl (BTClibEccValueError ''not a public key'') else Inr sec)"

definition mult_sec :: "int \<Rightarrow> octets \<Rightarrow> int \<Rightarrow> curve \<Rightarrow> apoint result" where
  "mult_sec rnd sec m ec = rbind (point_from_octets sec ec False) (\<lambda>Q. mult rnd m (Some Q) ec)"

definition mult_pub_key :: "int \<Rightarrow> int \<Rightarrow> pub_key \<Rightarrow> curve \<Rightarrow> apoint result" where
  "mult_pub_key rnd m key ec =
     rbind (sec_from_pub_key key ec) (\<lambda>sec. mult_sec rnd sec (m mod cv_n ec) ec)"

section \<open>What is decoded\<close>

text \<open>
  The field size in octets covers the field; the constructor computes it so, and \<open>curve_valid\<close>, which
  is about the group, does not mention it.
\<close>

definition sized :: "curve \<Rightarrow> bool" where
  "sized ec \<longleftrightarrow> ec_p ec < 256 ^ ec_p_size ec \<and> 0 < ec_p_size ec"

text \<open>A finite point of the curve that the subgroup check accepts.\<close>

definition accepted :: "curve \<Rightarrow> apoint \<Rightarrow> bool" where
  "accepted ec Q \<longleftrightarrow> require_on_curve ec Q = Inr () \<and> snd Q \<noteq> 0 \<and> assert_in_subgroup Q ec = Inr ()"

lemma is_on_curve_iff_require: "is_on_curve ec Q = Inr True \<longleftrightarrow> require_on_curve ec Q = Inr ()"
  by (cases "is_on_curve ec Q") (auto simp: require_on_curve_def)

lemma accepted_point:
  assumes "accepted ec Q" "curve_ok ec"
  shows "0 \<le> fst Q" "fst Q < ec_p ec" "0 < snd Q" "snd Q < ec_p ec" "arep ec Q (Pt (fst Q) (snd Q))"
proof -
  have r: "require_on_curve ec Q = Inr ()" and y: "snd Q \<noteq> 0" using assms(1) by (simp_all add: accepted_def)
  have a: "arep ec Q (aff_abs Q)" by (rule require_on_curve_Inr(1) [OF r assms(2)])
  then have on: "ec_on ec (Pt (fst Q) (snd Q))" and p: "aff_abs Q = Pt (fst Q) (snd Q)"
    using y arep_finite by (auto simp: arep_def aff_abs_def)
  then show "0 \<le> fst Q" "fst Q < ec_p ec" "0 < snd Q" "snd Q < ec_p ec" "arep ec Q (Pt (fst Q) (snd Q))"
    using y a by (auto simp: p)
qed

lemma y_even_root:
  assumes "y_even_var ec x = Inr y" "curve_ok ec"
  shows "0 \<le> y" "y < ec_p ec" "even y" "y * y mod ec_p ec = ec_y2 ec x"
proof -
  let ?p = "ec_p ec"
  note p = curve_ok_p [OF assms(2)]
  obtain r where r: "y_var ec x = Inr r" "y = (if r mod 2 \<noteq> 0 then ?p - r else r)"
    using assms(1) by (auto simp: y_even_var_def rbind_eq_Inr_iff)
  have on: "ec_on ec (Pt x r)" by (rule y_var_sound [OF r(1) assms(2)])
  then have rr: "0 \<le> r" "r < ?p" "r * r mod ?p = ec_y2 ec x" using ec_y2_on_curve [OF p(3), of x r] by auto
  have "odd ?p" using prime_odd p by blast
  then show "0 \<le> y" "y < ?p" "even y" using rr r(2) by (auto simp: odd_iff_mod_2_eq_one intro: ccontr)
  have "?p dvd ((?p - r) * (?p - r) - r * r)" by (simp add: algebra_simps)
  then have "(?p - r) * (?p - r) mod ?p = r * r mod ?p" by (rule mod_eq_if_dvd_diff)
  then show "y * y mod ?p = ec_y2 ec x" using rr(3) r(2) by simp
qed

lemma on_curve_root:
  assumes "is_on_curve ec Q = Inr True" "curve_ok ec"
  shows "snd Q = 0 \<Longrightarrow> ec_y2 ec (fst Q) \<noteq> 0" "0 \<le> snd Q" "snd Q < ec_p ec"
  using assms curve_ok_p(3) [OF assms(2)]
  by (auto simp: is_on_curve_def group_is_on_curve_def rbind_eq_Inr_iff split: if_splits)

lemma decompressed_finite:
  assumes "y_even_var ec x = Inr y" "curve_ok ec" "is_on_curve ec (x, if c then y else ec_p ec - y) = Inr True"
  shows "(if c then y else ec_p ec - y) \<noteq> 0 \<and> y \<noteq> 0"
proof -
  note y = y_even_root [OF assms(1,2)] and r = on_curve_root [OF assms(3,2)]
  show ?thesis using y r by (cases c) auto
qed

lemma point_from_octets_Inr_iff:
  "point_from_octets bs ec h = Inr Q \<longleftrightarrow>
    (\<exists>b xs. bs = b # xs \<and>
      ((b = 2 \<or> b = 3) \<and> length xs = ec_p_size ec \<and> point_from_x b (int_from_bytes xs) ec = Inr Q
       \<or> \<not> (b = 2 \<or> b = 3) \<and> (b = 4 \<or> h \<and> (b = 6 \<or> b = 7)) \<and> length xs = 2 * ec_p_size ec
         \<and> point_from_xy b (int_from_bytes (take (ec_p_size ec) xs), int_from_bytes (drop (ec_p_size ec) xs)) ec = Inr Q))"
proof (cases bs)
  case Nil
  then show ?thesis by (simp add: point_from_octets_def bytes_from_octets_def)
next
  case (Cons b xs)
  define c u where "c \<longleftrightarrow> b = 2 \<or> b = 3" and "u \<longleftrightarrow> b = 4 \<or> h \<and> (b = 6 \<or> b = 7)"
  define X Y where "X = point_from_x b (int_from_bytes xs) ec"
    and "Y = point_from_xy b (int_from_bytes (take (ec_p_size ec) xs), int_from_bytes (drop (ec_p_size ec) xs)) ec"
  define l1 l2 where "l1 \<longleftrightarrow> length xs = ec_p_size ec" and "l2 \<longleftrightarrow> length xs = 2 * ec_p_size ec"
  have "point_from_octets bs ec h = rbind (if l1 \<or> l2 then Inr bs else Inl (BTClibEccValueError ''invalid size''))
      (\<lambda>_. if c then (if \<not> l1 then Inl (BTClibEccValueError ''invalid size for compressed point'') else X)
       else if u then (if \<not> l2 then Inl (BTClibEccValueError ''invalid size for uncompressed point'') else Y)
       else Inl (BTClibEccValueError ''not a point''))"
    unfolding point_from_octets_def bytes_from_octets_def Cons l1_def l2_def c_def u_def X_def Y_def
    by (simp only: option.case list.size set_simps insert_iff empty_iff simp_thms Suc_eq_plus1 add_0 add_0_right add_right_cancel
        if_distrib [of "\<lambda>m. rbind m _"] rbind_simps Let_def list.sel)
  also have "\<dots> = Inr Q \<longleftrightarrow> c \<and> l1 \<and> X = Inr Q \<or> \<not> c \<and> u \<and> l2 \<and> Y = Inr Q"
    by (cases c; cases u; cases l1; cases l2; simp only: rbind_simps if_True if_False simp_thms sum.distinct)
  finally show ?thesis unfolding Cons c_def u_def X_def Y_def l1_def l2_def by blast
qed

lemma point_from_x_Inr_iff:
  "point_from_x b x ec = Inr Q \<longleftrightarrow>
    (\<exists>y. y_even_var ec x = Inr y \<and> Q = (x, if b = 2 then y else ec_p ec - y)
        \<and> require_on_curve ec Q = Inr () \<and> assert_in_subgroup Q ec = Inr ())"
  by (cases "y_even_var ec x")
    (auto simp: point_from_x_def Let_def rbind_eq_Inr_iff simp del: split_paired_Ex split_paired_All)

lemma point_from_xy_Inr_iff:
  "point_from_xy b P ec = Inr Q \<longleftrightarrow>
    Q = P \<and> snd Q \<noteq> 0 \<and> (b = 4 \<or> snd Q mod 2 = uint b - 6) \<and> require_on_curve ec Q = Inr ()
    \<and> assert_in_subgroup Q ec = Inr ()"
  unfolding point_from_xy_def is_on_curve_iff_require [symmetric]
  by (cases "is_on_curve ec P") (auto simp: rbind_eq_Inr_iff)

lemma point_from_x_accepted:
  assumes "point_from_x b x ec = Inr Q" "curve_ok ec"
  shows "accepted ec Q"
proof -
  obtain y where y: "y_even_var ec x = Inr y" "Q = (x, if b = 2 then y else ec_p ec - y)"
    "require_on_curve ec Q = Inr ()" "assert_in_subgroup Q ec = Inr ()"
    using assms(1) unfolding point_from_x_Inr_iff by blast
  have "is_on_curve ec (x, if b = 2 then y else ec_p ec - y) = Inr True"
    using y(2,3) by (simp only: is_on_curve_iff_require)
  from decompressed_finite [OF y(1) assms(2) this] show ?thesis using y by (simp add: accepted_def)
qed

lemma point_from_xy_accepted: "point_from_xy b P ec = Inr Q \<Longrightarrow> accepted ec Q"
  unfolding point_from_xy_Inr_iff accepted_def by blast

lemma point_from_octets_accepted:
  assumes "point_from_octets bs ec hybrid = Inr Q" "curve_ok ec"
  shows "accepted ec Q"
  using assms point_from_x_accepted point_from_xy_accepted unfolding point_from_octets_Inr_iff by blast

lemma accepted_encodes:
  assumes "accepted ec Q" "curve_ok ec" "sized ec"
  shows "bytes_from_point Q ec True = Inr ((if odd (snd Q) then 3 else 2) # to_bytes (ec_p_size ec) (fst Q))"
    and "bytes_from_point Q ec False = Inr (4 # to_bytes (ec_p_size ec) (fst Q) @ to_bytes (ec_p_size ec) (snd Q))"
  using accepted_point [OF assms(1,2)] assms(1,3)
  by (auto simp: bytes_from_point_def accepted_def sized_def int_to_bytes_def)

lemma to_from_bytes: "0 \<le> x \<Longrightarrow> x < 256 ^ n \<Longrightarrow> int_from_bytes (to_bytes n x) = x"
  by (simp add: int_from_to_bytes)

lemma uncompressed_roundtrip:
  assumes "accepted ec Q" "curve_ok ec" "sized ec"
  shows "point_from_octets (4 # to_bytes (ec_p_size ec) (fst Q) @ to_bytes (ec_p_size ec) (snd Q)) ec h = Inr Q"
proof -
  note q = accepted_point [OF assms(1,2)]
  have "require_on_curve ec Q = Inr ()" "assert_in_subgroup Q ec = Inr ()"
    using assms(1) by (simp_all add: accepted_def)
  then show ?thesis using q assms(3)
    by (simp add: point_from_octets_Inr_iff point_from_xy_Inr_iff sized_def to_from_bytes)
qed

lemma compressed_roundtrip:
  assumes "accepted ec Q" "curve_ok ec" "sized ec" "ec_p ec mod 4 = 3"
  shows "point_from_octets ((if odd (snd Q) then 3 else 2) # to_bytes (ec_p_size ec) (fst Q)) ec h = Inr Q"
proof -
  let ?p = "ec_p ec"
  note q = accepted_point [OF assms(1,2)] and p = curve_ok_p [OF assms(2)]
  have "odd ?p" using prime_odd p by blast
  have on: "ec_on ec (Pt (fst Q) (snd Q))" using q(5) by (simp add: arep_def)
  obtain r where r: "y_var ec (fst Q) = Inr r" "r = snd Q \<or> r = (- snd Q) mod ?p"
    using y_var_complete [OF assms(2,4) on] by blast
  have "(- snd Q) mod ?p = ?p - snd Q" using q by (simp add: zmod_zminus1_eq_if)
  with r(2) have r2: "r = snd Q \<or> r = ?p - snd Q" by (simp only:)
  have "y_even_var ec (fst Q) = Inr (if odd r then ?p - r else r)"
    unfolding y_even_var_def r(1) rbind_simps by (simp only: odd_iff_mod_2_eq_one not_mod_2_eq_0_eq_1)
  moreover have "(if odd r then ?p - r else r) = (if odd (snd Q) then ?p - snd Q else snd Q)"
    using r2
  proof
    assume "r = ?p - snd Q"
    then have "odd r \<longleftrightarrow> even (snd Q)" using \<open>odd ?p\<close> by simp
    then show ?thesis using \<open>r = ?p - snd Q\<close> by simp
  qed simp
  ultimately have "y_even_var ec (fst Q) = Inr (if odd (snd Q) then ?p - snd Q else snd Q)" by (simp only:)
  moreover have "require_on_curve ec Q = Inr ()" "assert_in_subgroup Q ec = Inr ()"
    using assms(1) by (simp_all add: accepted_def)
  moreover have "int_from_bytes (to_bytes (ec_p_size ec) (fst Q)) = fst Q"
    using q assms(3) by (simp add: to_from_bytes sized_def)
  ultimately have "point_from_x (if odd (snd Q) then 3 else 2) (int_from_bytes (to_bytes (ec_p_size ec) (fst Q))) ec = Inr Q"
    unfolding point_from_x_Inr_iff by (cases "odd (snd Q)") (simp_all add: prod_eq_iff)
  then show ?thesis unfolding point_from_octets_Inr_iff by (cases "odd (snd Q)") simp_all
qed

lemma point_from_octets_cases:
  assumes "point_from_octets bs ec False = Inr Q"
  obtains (x) b xs where "bs = b # xs" "b = 2 \<or> b = 3" "length xs = ec_p_size ec"
      "point_from_x b (int_from_bytes xs) ec = Inr Q"
    | (xy) xs where "bs = 4 # xs" "length xs = 2 * ec_p_size ec"
      "point_from_xy 4 (int_from_bytes (take (ec_p_size ec) xs), int_from_bytes (drop (ec_p_size ec) xs)) ec = Inr Q"
  using assms unfolding point_from_octets_Inr_iff by blast

lemma decode_canonical:
  assumes "point_from_octets bs ec False = Inr Q" "curve_ok ec" "sized ec"
  shows "bytes_from_point Q ec True = Inr bs \<or> bytes_from_point Q ec False = Inr bs"
proof -
  note e = accepted_encodes [OF point_from_octets_accepted [OF assms(1,2)] assms(2,3)]
  show ?thesis using assms(1)
  proof (cases rule: point_from_octets_cases)
    case (x b xs)
    note b = x(1-3)
    from x(4) obtain y where y: "y_even_var ec (int_from_bytes xs) = Inr y"
      "Q = (int_from_bytes xs, if b = 2 then y else ec_p ec - y)" unfolding point_from_x_Inr_iff by blast
    have "odd (ec_p ec)" using prime_odd curve_ok_p [OF assms(2)] by blast
    then have "odd (snd Q) \<longleftrightarrow> b \<noteq> 2" using y(2) y_even_root(3) [OF y(1) assms(2)] by simp
    moreover have "to_bytes (ec_p_size ec) (fst Q) = xs" using y(2) b(3) to_bytes_from_bytes [of xs] by simp
    ultimately show ?thesis using e(1) b(1,2) by (cases "b = 2") simp_all
  next
    case (xy xs)
    from xy(3) have Q: "Q = (int_from_bytes (take (ec_p_size ec) xs), int_from_bytes (drop (ec_p_size ec) xs))"
      by (simp only: point_from_xy_Inr_iff)
    have "length (take (ec_p_size ec) xs) = ec_p_size ec" "length (drop (ec_p_size ec) xs) = ec_p_size ec"
      using xy(2) by simp_all
    then have "to_bytes (ec_p_size ec) (fst Q) = take (ec_p_size ec) xs"
      "to_bytes (ec_p_size ec) (snd Q) = drop (ec_p_size ec) xs"
      using to_bytes_from_bytes [of "take (ec_p_size ec) xs"] to_bytes_from_bytes [of "drop (ec_p_size ec) xs"] Q
      by simp_all
    then show ?thesis using e(2) xy(1) by simp
  qed
qed

lemma with_generator_p_size [simp]: "ec_p_size (with_generator g G n h) = ec_p_size g"
  by (simp add: with_generator_def Let_def curve_group.defs)

lemma init_curve_sized:
  assumes "init_curve trusted p a b G n h wk oc = Inr ec" "0 < p"
  shows "sized ec"
proof -
  obtain g where g: "init_curve_group trusted p a b = Inr g"
    using assms(1) by (auto simp: init_curve_def rbind_eq_Inr_iff)
  have s: "ec_p g = p" "ec_p_size g = nat (ceil_div (int (bit_length p)) 8)"
    using g unfolding init_curve_group_def by (auto split: if_split_asm)
  obtain G' where "ec = with_generator g G' n h"
    using assms(1) g by (auto simp: init_curve_def rbind_eq_Inr_iff Let_def split: if_split_asm)
  then have e: "ec_p ec = p" "ec_p_size ec = ec_p_size g" using s by simp_all
  have b: "0 < bit_length p" "int (bit_length p) \<le> 8 * ceil_div (int (bit_length p)) 8"
    using bit_length_pos [OF assms(2)] ceil_div_bound [of 8] by simp_all
  then have pos: "0 < ceil_div (int (bit_length p)) 8" by linarith
  then have "bit_length p \<le> ec_p_size g * 8" using b unfolding s by linarith
  then have "(2 :: int) ^ bit_length p \<le> 2 ^ (ec_p_size g * 8)" by (intro power_increasing) simp_all
  then have "p < 256 ^ ec_p_size g" using bit_length_upper [of p] assms(2) unfolding power_256 by linarith
  then show ?thesis using e s pos by (simp add: sized_def)
qed

end
