(* ===== verification/Test_Curve.thy ===== *)
theory Test_Curve
  imports Odd_Order
begin

text \<open>
  The curve \<^verbatim>\<open>Curve(13, 7, 6, (1, 1), 11, 1)\<close> of the repository's tests: eleven points, all multiples
  of the generator. The examples of the development are evaluated on it.
\<close>

definition ec13 :: curve_group where
  "ec13 = \<lparr>ec_p = 13, ec_a = 7, ec_b = 6, ec_p_size = 1, ec_p_is_3_mod_4 = False, ec_scalar_len = 5,
     ec_a_is_zero = False, ec_a_is_minus_3 = False, ec_stand_in_q = (4, 2, 1), ec_stand_in_r = (1, 1, 0),
     ec_fixed_points = {}\<rparr>"

lemma prime_13: "prime_int 13"
  by (rule prime_int_by_trial) code_simp+

lemma prime_11: "prime_int 11"
  by (rule prime_int_by_trial) code_simp+

lemma ec13_sel [simp]:
  "ec_p ec13 = 13" "ec_a ec13 = 7" "ec_b ec13 = 6" "ec_scalar_len ec13 = 5" "ec_p_size ec13 = 1"
  "ec_a_is_zero ec13 = False" "ec_a_is_minus_3 ec13 = False" "ec_p_is_3_mod_4 ec13 = False"
  by (simp_all add: ec13_def)

lemma ec13_ok: "curve_ok ec13"
  by (simp add: curve_ok_def curve_params_def nonsingular_def prime_13)

lemma ec13_G: "ec_on ec13 (Pt 1 1)" "jrep ec13 (1, 1, 1) (Pt 1 1)" "arep ec13 (1, 1) (Pt 1 1)"
  by (simp_all add: arep_def aff_abs_def)

lemma ec13_order: "in_order ec13 11 (Pt 1 1)"
proof -
  have "ec_mult 13 7 11 (Pt 1 1) = Inf" by code_simp
  then show ?thesis using ec13_ok ec13_G by (simp add: in_order_def)
qed

end
