(* ===== verification/Test_Curve19.thy ===== *)
theory Test_Curve19
  imports Sec_Point Test_Curve
begin

text \<open>
  The curve \<^verbatim>\<open>Curve(19, 0, 2, (4, 16), 13, 1)\<close> of the repository's tests, as the constructor returns
  it: a field of nineteen elements, a generator of order thirteen. The examples about keys, encodings
  and signatures are evaluated on it.
\<close>

definition ec19 :: curve where
  "ec19 = with_generator
     \<lparr>ec_p = 19, ec_a = 0, ec_b = 2, ec_p_size = 1, ec_p_is_3_mod_4 = True, ec_scalar_len = 6,
      ec_a_is_zero = True, ec_a_is_minus_3 = False, ec_stand_in_q = (6, 3, 2), ec_stand_in_r = (1, 1, 1),
      ec_fixed_points = {}\<rparr> (4, 16) 13 1"

lemma ec19_sel [simp]:
  "ec_p ec19 = 19" "ec_a ec19 = 0" "ec_b ec19 = 2" "ec_p_size ec19 = 1" "cv_n ec19 = 13"
  "cv_G ec19 = (4, 16)" "cv_cofactor ec19 = 1" "cv_nlen ec19 = 4" "cv_n_size ec19 = 1" "cv_GJ ec19 = (4, 16, 1)"
  by (simp_all add: ec19_def with_generator_def Let_def curve_group.defs bit_length.simps)

lemma ec19_init: "init_curve False 19 0 2 (4, 16) 13 1 False True = Inr ec19"
  unfolding ec19_def by code_simp

lemma prime_19: "prime_int 19"
  by (rule prime_int_by_trial) code_simp+

lemma ec19_valid: "curve_valid ec19"
  using init_curve_valid [OF ec19_init prime_19 prime_13] by simp

lemma ec19_sized: "sized ec19"
  by (rule init_curve_sized [OF ec19_init]) simp

lemma ec19_ok: "curve_ok ec19"
  using ec19_valid by (simp add: curve_valid_def)

lemma ec19_not_secp256k1 [simp]: "\<not> is_secp256k1 ec19" "endo_ok ec19 P"
  by (simp_all add: is_secp256k1_def eq_key_def secp256k1_key_def endo_ok_def)

lemma ec19_member: "member ec19 (ec_times ec19 k (Pt 4 16))"
  using member_closed(3) [OF member_generator [OF ec19_valid], of k] by (simp add: aff_abs_def)

text \<open>A hash function of one octet.\<close>

definition toy_hash :: hash_fn where
  "toy_hash = \<lparr>hf_digest = (\<lambda>m. [foldl (\<lambda>v b. 3 * v + b) 7 m]), hf_size = 1, hf_block = 4\<rparr>"

lemma toy_hash_ok: "hash_ok toy_hash"
  by (simp add: hash_ok_def toy_hash_def)

lemma toy_hash_sel [simp]: "hf_size toy_hash = 1" "hf_block toy_hash = 4"
  by (simp_all add: toy_hash_def)

end
