(* ===== verification/Nonces.thy ===== *)
theory Nonces
  imports Sec_Point
begin

unbundle bit_operations_syntax

text \<open>
  The deterministic nonces: \<^verbatim>\<open>src/btclib_ecc/ecc/rfc6979_nonce.py\<close> for ECDSA, \<^verbatim>\<open>bip340_nonce.py\<close> for
  the Schnorr signatures and \<^verbatim>\<open>commit_nonce.py\<close> for the nonces that commit to a message. Each draws
  candidates from the hash function until one is in range, a loop no hash function is obliged to let
  end: the models are partial functions, \<open>None\<close> standing for a run that does not return. It is proved
  that a returned nonce is in range, that the loop returns exactly when some candidate of its sequence
  is in range, and then the first such; and that a committed nonce opens to the committed point.
\<close>

section \<open>Runs that may not return\<close>

type_synonym 'a run = "'a result option"

definition obind :: "'a run \<Rightarrow> ('a \<Rightarrow> 'b run) \<Rightarrow> 'b run" where
  "obind m f = (case m of None \<Rightarrow> None | Some (Inl e) \<Rightarrow> Some (Inl e) | Some (Inr x) \<Rightarrow> f x)"

lemma obind_simps [simp]: "obind None f = None" "obind (Some (Inl e)) f = Some (Inl e)" "obind (Some (Inr x)) f = f x"
  by (simp_all add: obind_def)

lemma obind_Inr_iff: "obind m f = Some (Inr y) \<longleftrightarrow> (\<exists>x. m = Some (Inr x) \<and> f x = Some (Inr y))"
  by (auto simp: obind_def split: option.splits sum.splits)

text \<open>A candidate drawn from a sequence of states: the first one that is acceptable.\<close>

partial_function (option) first_accepted :: "('s \<Rightarrow> 's) \<Rightarrow> ('s \<Rightarrow> bool) \<Rightarrow> 's \<Rightarrow> 's option" where
  "first_accepted step ok s = (if ok s then Some s else first_accepted step ok (step s))"

declare first_accepted.simps [code]

lemma first_accepted_skip: "\<forall>j<i. \<not> ok ((step ^^ j) s) \<Longrightarrow> first_accepted step ok s = first_accepted step ok ((step ^^ i) s)"
proof (induction i arbitrary: s)
  case (Suc i)
  have "\<not> ok s" using Suc.prems by (metis funpow_0 zero_less_Suc)
  then have "first_accepted step ok s = first_accepted step ok (step s)" by (subst first_accepted.simps) simp
  also have "\<dots> = first_accepted step ok ((step ^^ i) (step s))"
  proof (rule Suc.IH, intro allI impI)
    fix j assume "j < i"
    then show "\<not> ok ((step ^^ j) (step s))" using Suc.prems [rule_format, of "Suc j"] by (simp only: funpow_Suc_right o_apply) simp
  qed
  finally show ?case by (simp only: funpow_Suc_right o_apply)
qed simp

lemma first_accepted_sound:
  assumes "first_accepted step ok s = Some t"
  shows "\<exists>i. t = (step ^^ i) s \<and> ok t \<and> (\<forall>j<i. \<not> ok ((step ^^ j) s))"
  using assms
proof (induction rule: first_accepted.raw_induct [rotated, consumes 1])
  case (1 f step ok s t)
  show ?case
  proof (cases "ok s")
    case True
    then have "t = s" using 1(2) by simp
    then show ?thesis using True by (intro exI [of _ 0]) simp
  next
    case False
    then have "f step ok (step s) = Some t" using 1(2) by simp
    from 1(1) [OF this] obtain i where i: "t = (step ^^ i) (step s)" "ok t" "\<forall>j<i. \<not> ok ((step ^^ j) (step s))"
      by blast
    have "\<forall>j<Suc i. \<not> ok ((step ^^ j) s)"
    proof (intro allI impI)
      fix j assume "j < Suc i"
      then show "\<not> ok ((step ^^ j) s)" using i(3) False by (cases j) (simp_all only: funpow_Suc_right o_apply funpow_0 Suc_less_eq not_False_eq_True)
    qed
    then show ?thesis using i(1,2) by (intro exI [of _ "Suc i"]) (simp only: funpow_Suc_right o_apply simp_thms)
  qed
qed

lemma first_accepted_iff:
  "first_accepted step ok s = Some t \<longleftrightarrow> (\<exists>i. t = (step ^^ i) s \<and> ok t \<and> (\<forall>j<i. \<not> ok ((step ^^ j) s)))"
proof
  assume "\<exists>i. t = (step ^^ i) s \<and> ok t \<and> (\<forall>j<i. \<not> ok ((step ^^ j) s))"
  then obtain i where i: "t = (step ^^ i) s" "ok t" "\<forall>j<i. \<not> ok ((step ^^ j) s)" by blast
  have "first_accepted step ok t = Some t" using i(2) by (subst first_accepted.simps) simp
  then show "first_accepted step ok s = Some t" using first_accepted_skip [OF i(3)] i(1) by simp
qed (rule first_accepted_sound)

lemma first_accepted_defined: "(\<exists>i. ok ((step ^^ i) s)) \<longleftrightarrow> first_accepted step ok s \<noteq> None"
proof
  assume "\<exists>i. ok ((step ^^ i) s)"
  define i where "i = (LEAST i. ok ((step ^^ i) s))"
  have "ok ((step ^^ i) s)" "\<forall>j<i. \<not> ok ((step ^^ j) s)"
    using \<open>\<exists>i. ok ((step ^^ i) s)\<close> by (auto simp: i_def intro: LeastI_ex dest: not_less_Least)
  then have "first_accepted step ok s = Some ((step ^^ i) s)" unfolding first_accepted_iff by blast
  then show "first_accepted step ok s \<noteq> None" by simp
next
  assume "first_accepted step ok s \<noteq> None"
  then show "\<exists>i. ok ((step ^^ i) s)" using first_accepted_sound by fastforce
qed

section \<open>RFC 6979\<close>

definition challenge :: "octets \<Rightarrow> curve \<Rightarrow> hash_fn \<Rightarrow> int result" where
  "challenge msg_hash ec hf =
     rbind (bytes_from_octets msg_hash (Some [hf_size hf])) (\<lambda>h. Inr (int_from_bits h (cv_nlen ec) mod cv_n ec))"

record hmac_drbg =
  dr_k :: octets
  dr_v :: octets

definition init_drbg :: "octets \<Rightarrow> hash_fn \<Rightarrow> hmac_drbg" where
  "init_drbg seed hf =
     (let v = replicate (hf_size hf) 1; k = replicate (hf_size hf) 0;
        k = hmac hf k (v @ [0] @ seed);
        v = hmac hf k v;
        k = hmac hf k (v @ [1] @ seed);
        v = hmac hf k v
      in \<lparr>dr_k = k, dr_v = v\<rparr>)"

text \<open>
  The loop of \<^verbatim>\<open>generate\<close> adds one digest at a time; it ends because digests are not empty, which the
  second guard, always false for the hash functions of \<open>hash_ok\<close>, makes a measure.
\<close>

function generate_loop :: "hash_fn \<Rightarrow> octets \<Rightarrow> octets \<Rightarrow> octets \<Rightarrow> nat \<Rightarrow> octets \<times> octets" where
  "generate_loop hf k v t sz =
     (if length t < sz \<and> hmac hf k v \<noteq> []
      then let v = hmac hf k v in generate_loop hf k v (t @ v) sz
      else (v, t))"
  by pat_completeness auto
termination
proof (relation "measure (\<lambda>(hf, k, v, t, sz). sz - length t)", goal_cases)
  case (2 hf k v t sz x)
  then have "0 < length x" "length t < sz" by simp_all
  then have "sz - (length t + length x) < sz - length t" by linarith
  then show ?case by simp
qed simp

declare generate_loop.simps [simp del]

definition drbg_generate :: "hash_fn \<Rightarrow> nat \<Rightarrow> hmac_drbg \<Rightarrow> octets \<times> hmac_drbg" where
  "drbg_generate hf sz d =
     (let (v, t) = generate_loop hf (dr_k d) (dr_v d) [] sz in (take sz t, d\<lparr>dr_v := v\<rparr>))"

definition drbg_reseed :: "hash_fn \<Rightarrow> hmac_drbg \<Rightarrow> hmac_drbg" where
  "drbg_reseed hf d =
     (let k = hmac hf (dr_k d) (dr_v d @ [0]) in \<lparr>dr_k = k, dr_v = hmac hf k (dr_v d)\<rparr>)"

lemma generate_loop_size: "hash_ok hf \<Longrightarrow> sz \<le> length (snd (generate_loop hf k v t sz))"
proof (induction hf k v t sz rule: generate_loop.induct)
  case (1 hf k v t sz)
  have "hmac hf k v \<noteq> []" using length_hmac [OF 1(2), of k v] 1(2) by (auto simp: hash_ok_def)
  then show ?case using 1 by (subst generate_loop.simps) (simp add: Let_def)
qed

lemma drbg_generate_size: "hash_ok hf \<Longrightarrow> length (fst (drbg_generate hf sz d)) = sz"
  using generate_loop_size [of hf sz "dr_k d" "dr_v d" "[]"]
  by (cases "generate_loop hf (dr_k d) (dr_v d) [] sz") (simp add: drbg_generate_def)

text \<open>
  The loop of \<^verbatim>\<open>_rfc6979_nonce_\<close>: \<open>rfc_state\<close> is what one turn leaves, the candidate and the generator,
  and a turn that is refused reseeds before the next candidate is drawn.
\<close>

definition rfc_candidate :: "curve \<Rightarrow> hash_fn \<Rightarrow> hmac_drbg \<Rightarrow> int \<times> hmac_drbg" where
  "rfc_candidate ec hf d =
     (let (t, d) = drbg_generate hf (cv_n_size ec) d in (int_from_bits t (cv_nlen ec), d))"

definition rfc6979_loop :: "curve \<Rightarrow> hash_fn \<Rightarrow> hmac_drbg \<Rightarrow> int option" where
  "rfc6979_loop ec hf d =
     map_option fst
       (first_accepted (\<lambda>(nonce, d). rfc_candidate ec hf (drbg_reseed hf d))
         (\<lambda>(nonce, d). 0 < nonce \<and> nonce < cv_n ec) (rfc_candidate ec hf d))"

definition rfc6979_nonce_raw :: "int \<Rightarrow> int \<Rightarrow> curve \<Rightarrow> hash_fn \<Rightarrow> octets option \<Rightarrow> int run" where
  "rfc6979_nonce_raw c q ec hf extra_entropy =
     obind (Some (int_to_bytes q (cv_n_size ec))) (\<lambda>q_bytes.
     obind (Some (int_to_bytes c (cv_n_size ec))) (\<lambda>c_bytes.
       let bprvbm = q_bytes @ c_bytes @ (case extra_entropy of None \<Rightarrow> [] | Some e \<Rightarrow> e)
       in map_option Inr (rfc6979_loop ec hf (init_drbg bprvbm hf))))"

definition rfc6979_nonce :: "octets \<Rightarrow> int \<Rightarrow> curve \<Rightarrow> hash_fn \<Rightarrow> octets option \<Rightarrow> int run" where
  "rfc6979_nonce msg_hash prv_key ec hf extra_entropy =
     obind (Some (challenge msg_hash ec hf)) (\<lambda>c.
     obind (Some (scalar_from_int prv_key ec)) (\<lambda>q. rfc6979_nonce_raw c q ec hf extra_entropy))"

lemma rfc6979_loop_iff:
  fixes ec :: curve and hf :: hash_fn and d :: hmac_drbg
  defines "cand \<equiv> \<lambda>i. ((\<lambda>(nonce, d). rfc_candidate ec hf (drbg_reseed hf d)) ^^ i) (rfc_candidate ec hf d)"
  shows "rfc6979_loop ec hf d = Some k \<longleftrightarrow>
    (\<exists>i. k = fst (cand i) \<and> 0 < k \<and> k < cv_n ec \<and> (\<forall>j<i. \<not> (0 < fst (cand j) \<and> fst (cand j) < cv_n ec)))"
  unfolding rfc6979_loop_def map_option_eq_Some first_accepted_iff cand_def case_prod_beta by blast

lemma rfc6979_nonce_range:
  assumes "rfc6979_nonce_raw c q ec hf extra = Some (Inr k)"
  shows "0 < k \<and> k < cv_n ec"
  using assms by (auto simp: rfc6979_nonce_raw_def obind_Inr_iff rfc6979_loop_iff Let_def)

section \<open>BIP 340\<close>

definition stretch :: "octets \<Rightarrow> octets \<Rightarrow> nat \<Rightarrow> hash_fn \<Rightarrow> octets" where
  "stretch tag m sz hf =
     (let blocks = nat (ceil_div (int sz) (int (hf_size hf)))
      in take sz (concat (map (\<lambda>i. tagged_hash tag (m @ to_bytes 4 (int i)) hf) [0..<blocks])))"

definition bip340_nonce_raw :: "octets \<Rightarrow> int \<Rightarrow> int \<Rightarrow> octets \<Rightarrow> curve \<Rightarrow> hash_fn \<Rightarrow> int run" where
  "bip340_nonce_raw msg q Q aux ec hf =
     (let hf_len = hf_size hf; stretched = hf_len * 8 < cv_nlen ec;
        randomizer = (if stretched then stretch (ascii ''BIP0340/aux'') aux (cv_n_size ec) hf
                      else tagged_hash (ascii ''BIP0340/aux'') aux hf);
        xor = q XOR int_from_bytes randomizer; max_len = max (cv_n_size ec) hf_len in
      obind (Some (int_to_bytes xor max_len)) (\<lambda>xb.
      obind (Some (int_to_bytes Q (ec_p_size ec))) (\<lambda>Qb.
        let t = xb @ Qb @ msg; nonce_tag = ascii ''BIP0340/nonce'' in
        if stretched
        then
          let sz = nat (ceil_div (int (cv_nlen ec + 64)) (int (hf_len * 8))) * hf_len
          in Some (Inr (int_from_bytes (stretch nonce_tag t sz hf) mod (cv_n ec - 1) + 1))
        else
          map_option (\<lambda>t. Inr (int_from_bits t (cv_nlen ec)))
            (first_accepted (\<lambda>t. tagged_hash nonce_tag t hf)
              (\<lambda>t. 0 < int_from_bits t (cv_nlen ec) \<and> int_from_bits t (cv_nlen ec) < cv_n ec)
              (tagged_hash nonce_tag t hf)))))"

definition bip340_nonce ::
  "(nat \<Rightarrow> int) \<Rightarrow> octets \<Rightarrow> int \<Rightarrow> octets \<Rightarrow> curve \<Rightarrow> hash_fn \<Rightarrow> (int \<times> int \<times> int \<times> int) run" where
  "bip340_nonce rnd msg prv_key aux ec hf =
     obind (Some (scalar_from_int prv_key ec)) (\<lambda>q.
     obind (Some (mult (rnd 0) q None ec)) (\<lambda>(x_Q, y_Q).
     let q = (if y_Q mod 2 \<noteq> 0 then cv_n ec - q else q) in
     obind (Some (bytes_from_octets aux (Some [hf_size hf]))) (\<lambda>aux.
     obind (bip340_nonce_raw msg q x_Q aux ec hf) (\<lambda>k.
     obind (Some (mult (rnd 1) k None ec)) (\<lambda>(x_K, y_K).
     let k = (if y_K mod 2 \<noteq> 0 then cv_n ec - k else k) in Some (Inr (k, x_K, q, x_Q)))))))"

lemma bip340_nonce_raw_range:
  assumes "bip340_nonce_raw msg q Q aux ec hf = Some (Inr k)" "1 < cv_n ec"
  shows "0 < k \<and> k < cv_n ec"
proof (cases "hf_size hf * 8 < cv_nlen ec")
  case True
  have r: "0 \<le> i mod (cv_n ec - 1) \<and> i mod (cv_n ec - 1) < cv_n ec - 1" for i using assms(2) by simp
  then obtain i where "k = i mod (cv_n ec - 1) + 1" using True assms(1)
    by (auto simp: bip340_nonce_raw_def Let_def obind_Inr_iff)
  then show ?thesis using r [of i] by linarith
next
  case False
  then show ?thesis using assms(1) by (auto simp: bip340_nonce_raw_def Let_def obind_Inr_iff first_accepted_iff)
qed

section \<open>Commitments in a nonce\<close>

definition commit_entropy :: "octets \<Rightarrow> octets \<Rightarrow> hash_fn \<Rightarrow> octets" where
  "commit_entropy commit_hash tag hf = tagged_hash tag commit_hash hf"

definition tweak :: "octets \<Rightarrow> apoint \<Rightarrow> octets \<Rightarrow> curve \<Rightarrow> hash_fn \<Rightarrow> int run" where
  "tweak commit_hash receipt tag ec hf =
     obind (Some (bytes_from_point receipt ec True)) (\<lambda>sec.
       map_option (\<lambda>t. Inr (int_from_bits t (cv_nlen ec)))
         (first_accepted (\<lambda>t. tagged_hash tag t hf)
           (\<lambda>t. 0 < int_from_bits t (cv_nlen ec) \<and> int_from_bits t (cv_nlen ec) < cv_n ec)
           (tagged_hash tag (sec @ commit_hash) hf)))"

definition commit_nonce ::
  "int \<Rightarrow> octets \<Rightarrow> int \<Rightarrow> octets \<Rightarrow> curve \<Rightarrow> hash_fn \<Rightarrow> (int \<times> apoint) run" where
  "commit_nonce rnd commit_hash nonce tag ec hf =
     obind (Some (scalar_from_int nonce ec)) (\<lambda>nonce.
     obind (Some (mult rnd nonce (Some (cv_G ec)) ec)) (\<lambda>receipt.
     obind (tweak commit_hash receipt tag ec hf) (\<lambda>t.
       let tweaked_nonce = (nonce + t) mod cv_n ec in
       if tweaked_nonce = 0 then Some (Inl (BTClibEccRuntimeError ''failed to sign: zero tweaked nonce''))
       else Some (Inr (tweaked_nonce, receipt)))))"

definition commit_point ::
  "int \<Rightarrow> octets \<Rightarrow> apoint \<Rightarrow> octets \<Rightarrow> curve \<Rightarrow> hash_fn \<Rightarrow> apoint run" where
  "commit_point rnd commit_hash receipt tag ec hf =
     obind (tweak commit_hash receipt tag ec hf) (\<lambda>t. Some (tweak_add_var rnd receipt t ec))"

text \<open>The nonce that commits opens to the point the verifier computes from the receipt.\<close>

lemma tweak_range: "tweak ch R tag ec hf = Some (Inr t) \<Longrightarrow> 0 < t \<and> t < cv_n ec"
  by (auto simp: tweak_def obind_Inr_iff first_accepted_iff)

lemma commit_nonce_opens:
  assumes v: "curve_valid ec" and r: "0 \<le> rnd" "rnd < ec_p ec - 1" "0 \<le> rnd'" "rnd' < ec_p ec - 1"
    and c: "commit_nonce rnd ch nonce tag ec hf = Some (Inr (k, R))"
  shows "0 < k \<and> k < cv_n ec \<and> commit_point rnd' ch R tag ec hf = Some (Inr (aff_of (ec_times ec k (aff_abs (cv_G ec)))))"
proof -
  let ?G = "aff_abs (cv_G ec)"
  note G = member_generator [OF v] generator_finite [OF v]
  have n: "0 < cv_n ec" using memberD(5) [OF G(1)] .
  have mG: "mult rnd nonce (Some (cv_G ec)) ec = Inr (aff_of (ec_times ec nonce ?G))"
    by (rule mult_generator(1) [OF v r(1,2)])
  obtain t where t: "tweak ch R tag ec hf = Some (Inr t)" "k = (nonce + t) mod cv_n ec" "k \<noteq> 0"
    "R = aff_of (ec_times ec nonce ?G)" "0 < nonce" "nonce < cv_n ec"
    using c mG by (auto simp: commit_nonce_def obind_Inr_iff scalar_from_int_def Let_def split: if_splits)
  have fin: "ec_times ec j ?G \<noteq> Inf" if "0 < j" "j < cv_n ec" for j
    using times_Inf_iff [OF G, of j] that zdvd_imp_le [of "cv_n ec" j] by auto
  note tr = tweak_range [OF t(1)]
  note M = require_member [OF member_closed(3) [OF G(1)] fin]
  have A: "aff_abs R = ec_times ec nonce ?G" "require_on_curve ec R = Inr ()"
    using M(1,2) [OF t(5,6)] by (simp_all add: t(4))
  obtain W where W: "tweak_add_var rnd' R t ec = Inr W" "arep ec W (ec_plus ec (ec_times ec nonce ?G) (ec_times ec t ?G))"
    using tweak_add_var_correct [OF v A(2) _ M(1) [of t] r(3,4), unfolded A(1)] tr member_closed(3) [OF G(1)] by blast
  have k: "ec_plus ec (ec_times ec nonce ?G) (ec_times ec t ?G) = ec_times ec k ?G"
    unfolding t(2) ecn.zm_mod [OF memberD(2) [OF G(1)]] by (rule ecn.zm_add [OF memberD(2) [OF G(1)], symmetric])
  have "0 \<le> k" "k < cv_n ec" unfolding t(2) using n by simp_all
  then have kr: "0 < k" "k < cv_n ec" using t(3) by simp_all
  have "W = aff_of (ec_times ec k ?G)" using aff_of_unique [OF _ fin [OF kr]] W(2) k by (simp add: arep_def)
  then show ?thesis using kr t(1) W(1) by (simp add: commit_point_def)
qed

end
