(* ===== verification/Dsa.thy ===== *)
theory Dsa
  imports Nonces
begin

unbundle bit_operations_syntax

text \<open>
  Model of \<^verbatim>\<open>src/btclib_ecc/ecc/dsa.py\<close>, ECDSA: signing with the recovery identifier, the grinding for
  a low \<open>r\<close>, verification, public key recovery, the signer that wipes its key, the anti-exfiltration
  protocol, the attack on a nonce used twice, and the DER and compact encodings. Every function is its
  pure Python path. The random factors of the blinded multiplications and inversions are arguments:
  \<open>rnd i\<close> is the \<open>i\<close>-th one a call draws.
\<close>

section \<open>Signatures\<close>

record dsa_sig =
  ds_r :: int
  ds_s :: int
  ds_ec :: curve

text \<open>The search for an x-coordinate congruent to \<open>r\<close>; the order is positive, the second guard.\<close>

function congruent_x :: "int \<Rightarrow> curve \<Rightarrow> bool result" where
  "congruent_x r ec =
     (if r < ec_p ec \<and> 0 < cv_n ec
      then rbind (is_x_coordinate_var r ec) (\<lambda>b. if b then Inr True else congruent_x (r + cv_n ec) ec)
      else Inr False)"
  by pat_completeness auto
termination by (relation "measure (\<lambda>(r, ec). nat (ec_p ec - r))") auto

declare congruent_x.simps [simp del]

definition dsa_assert_valid :: "dsa_sig \<Rightarrow> unit result" where
  "dsa_assert_valid sg =
     (let ec = ds_ec sg in
      if \<not> (0 < ds_r sg \<and> ds_r sg < cv_n ec) then Inl (BTClibEccValueError ''scalar r not in 1..n-1'')
      else rbind (congruent_x (ds_r sg) ec) (\<lambda>found.
        if \<not> found then Inl (BTClibEccValueError ''r is not (congruent to) a valid x-coordinate'')
        else if \<not> (0 < ds_s sg \<and> ds_s sg < cv_n ec) then Inl (BTClibEccValueError ''scalar s not in 1..n-1'')
        else Inr ()))"

definition dsa_compact :: "dsa_sig \<Rightarrow> octets result" where
  "dsa_compact sg =
     rbind (int_to_bytes (ds_r sg) (cv_n_size (ds_ec sg))) (\<lambda>rs.
     rbind (int_to_bytes (ds_s sg) (cv_n_size (ds_ec sg))) (\<lambda>ss. Inr (rs @ ss)))"

definition dsa_sig_from_compact :: "octets \<Rightarrow> curve \<Rightarrow> dsa_sig" where
  "dsa_sig_from_compact compact ec =
     \<lparr>ds_r = int_from_bytes (take (cv_n_size ec) compact),
      ds_s = int_from_bytes (drop (cv_n_size ec) compact), ds_ec = ec\<rparr>"

section \<open>Signing\<close>

definition dsa_gen_keys :: "int \<Rightarrow> int \<Rightarrow> curve \<Rightarrow> (int \<times> apoint) result" where
  "dsa_gen_keys rnd prv_key ec =
     rbind (scalar_from_int prv_key ec) (\<lambda>q. rbind (mult rnd q None ec) (\<lambda>Q. Inr (q, Q)))"

text \<open>
  \<^verbatim>\<open>_sign_recoverable_\<close>. The recovery identifier is kept in two parts, \<^verbatim>\<open>key_id >> 1\<close> and
  \<^verbatim>\<open>key_id & 1\<close>; \<^verbatim>\<open>key_id ^= 1\<close> flips the parity of the second.
\<close>

definition sign_recoverable_raw ::
  "(nat \<Rightarrow> int) \<Rightarrow> int \<Rightarrow> int \<Rightarrow> int \<Rightarrow> bool \<Rightarrow> curve \<Rightarrow> (dsa_sig \<times> int) result" where
  "sign_recoverable_raw rnd c q nonce lower_s ec =
     rbind (mult (rnd 0) nonce None ec) (\<lambda>K.
     let x_K = fst K; n = cv_n ec; r = x_K mod n in
     if r = 0 then Inl (BTClibEccRuntimeError ''failed to sign: r = 0'')
     else rbind (mod_inv (rnd 1) nonce n) (\<lambda>i.
       let s = i * (c + r * q) mod n in
       if s = 0 then Inl (BTClibEccRuntimeError ''failed to sign: s = 0'')
       else
         let key_id = 2 * (x_K div n) + snd K mod 2 in
         if lower_s \<and> n div 2 < s
         then Inr (\<lparr>ds_r = r, ds_s = n - s, ds_ec = ec\<rparr>, if even key_id then key_id + 1 else key_id - 1)
         else Inr (\<lparr>ds_r = r, ds_s = s, ds_ec = ec\<rparr>, key_id)))"

definition sign_raw :: "(nat \<Rightarrow> int) \<Rightarrow> int \<Rightarrow> int \<Rightarrow> int \<Rightarrow> bool \<Rightarrow> curve \<Rightarrow> dsa_sig result" where
  "sign_raw rnd c q nonce lower_s ec = rbind (sign_recoverable_raw rnd c q nonce lower_s ec) (\<lambda>sk. Inr (fst sk))"

definition is_low_r :: "int \<Rightarrow> curve \<Rightarrow> bool" where
  "is_low_r r ec \<longleftrightarrow> bit_length r < 8 * cv_n_size ec"

definition grind_entropy :: "nat \<Rightarrow> octets option" where
  "grind_entropy counter = (if counter = 0 then None else Some (rev (to_bytes 32 (int counter))))"

text \<open>The attempts are made one after the other, the first one always.\<close>

partial_function (option) grind_loop :: "(nat \<Rightarrow> dsa_sig run) \<Rightarrow> nat \<Rightarrow> dsa_sig \<Rightarrow> curve \<Rightarrow> dsa_sig run" where
  "grind_loop attempt counter sg ec =
     (if is_low_r (ds_r sg) ec then Some (Inr sg)
      else case attempt (counter + 1) of
        None \<Rightarrow> None
      | Some res \<Rightarrow> (case res of Inl e \<Rightarrow> Some (Inl e) | Inr sg \<Rightarrow> grind_loop attempt (counter + 1) sg ec))"

declare grind_loop.simps [code]

definition grind_low_r :: "(nat \<Rightarrow> dsa_sig run) \<Rightarrow> bool \<Rightarrow> curve \<Rightarrow> dsa_sig run" where
  "grind_low_r attempt grind ec =
     obind (attempt 0) (\<lambda>sg. if \<not> grind then Some (Inr sg) else grind_loop attempt 0 sg ec)"

section \<open>Verification\<close>

definition assert_as_valid_raw ::
  "int \<Rightarrow> jpoint \<Rightarrow> int \<Rightarrow> int \<Rightarrow> curve \<Rightarrow> jpoint set \<Rightarrow> bool \<Rightarrow> unit result" where
  "assert_as_valid_raw c QJ r s ec fixed lower_s =
     (let n = cv_n ec in
      if lower_s \<and> n div 2 < s then Inl (BTClibEccValueError ''not a low s'')
      else rbind (mod_inv_var s n) (\<lambda>w.
        let u = c * w mod n; v = r * w mod n in
        rbind (jac_double_mult_var v QJ u (cv_GJ ec) ec fixed) (\<lambda>(X, Y, Z).
          if Z = 0 then Inl (BTClibEccRuntimeError ''invalid (INF) key'')
          else rbind (mod_inv_var (Z * Z) (ec_p ec)) (\<lambda>i.
            let x_K = X * i mod ec_p ec in
            if r \<noteq> x_K mod n then Inl (BTClibEccRuntimeError ''signature verification failed'') else Inr ()))))"

definition is_caught :: "py_error \<Rightarrow> bool" where
  "is_caught e = (case e of BTClibEccValueError _ \<Rightarrow> True | BTClibEccRuntimeError _ \<Rightarrow> True | InvalidContributionError _ _ \<Rightarrow> True | BorromeanRingError _ _ _ \<Rightarrow> True | ValueError _ \<Rightarrow> True | _ \<Rightarrow> False)"

text \<open>\<^verbatim>\<open>except (ValueError, BTClibEccRuntimeError): return False\<close>: any other error goes through.\<close>

definition caught_false :: "unit result \<Rightarrow> bool result" where
  "caught_false m = (case m of Inr _ \<Rightarrow> Inr True | Inl e \<Rightarrow> if is_caught e then Inr False else Inl e)"

definition fixed_points_of :: "pub_key \<Rightarrow> curve \<Rightarrow> jpoint set" where
  "fixed_points_of key ec = (case key of Key_Prepared pp \<Rightarrow> pp_fixed pp | _ \<Rightarrow> ec_fixed_points ec)"

definition python_key :: "pub_key \<Rightarrow> curve \<Rightarrow> (apoint \<times> jpoint set) result" where
  "python_key key ec = rbind (point_from_pub_key key ec) (\<lambda>Q. Inr (Q, fixed_points_of key ec))"

definition python_verified :: "int \<Rightarrow> dsa_sig \<Rightarrow> curve \<Rightarrow> apoint \<times> jpoint set \<Rightarrow> bool result" where
  "python_verified c sg ec key =
     caught_false (assert_as_valid_raw c (fst (fst key), snd (fst key), 1) (ds_r sg) (ds_s sg) ec (snd key) False)"

text \<open>The check of a signature just made, with the public key given or the one derived.\<close>

definition abort_unless_checked ::
  "('k \<Rightarrow> bool result) \<Rightarrow> 'k result \<Rightarrow> 'k option \<Rightarrow> unit result" where
  "abort_unless_checked verified derive given =
     (let failed = Inl (BTClibEccRuntimeError ''signing produced a signature that does not verify'') in
      case given of
        Some key \<Rightarrow> rbind (verified key) (\<lambda>b.
          if b then Inr ()
          else rbind derive (\<lambda>k. rbind (verified k) (\<lambda>b'.
            if b' then Inl (BTClibEccValueError ''the public key given is not the one of the private key'')
            else failed)))
      | None \<Rightarrow> rbind derive (\<lambda>k. rbind (verified k) (\<lambda>b. if b then Inr () else failed)))"

definition S2C_POINT_TAG :: octets where "S2C_POINT_TAG = ascii ''s2c/ecdsa/point''"
definition S2C_DATA_TAG :: octets where "S2C_DATA_TAG = ascii ''s2c/ecdsa/data''"

text \<open>
  \<^verbatim>\<open>sign_\<close>: the result is the signature and, with a commitment, the receipt. \<open>rnd k\<close> are the factors of
  the \<open>k\<close>-th attempt, \<open>rnd'\<close> those of the rest of the call.
\<close>

definition dsa_checked ::
  "int \<Rightarrow> int \<Rightarrow> int \<Rightarrow> curve \<Rightarrow> bool \<Rightarrow> (apoint \<times> jpoint set) option \<Rightarrow> dsa_sig \<Rightarrow> dsa_sig result" where
  "dsa_checked rnd c q ec vf parsed sg =
     rbind (if vf then abort_unless_checked (python_verified c sg ec)
              (rbind (mult rnd q (Some (cv_G ec)) ec) (\<lambda>Q. Inr (Q, ec_fixed_points ec))) parsed
            else Inr ()) (\<lambda>_. Inr sg)"

definition dsa_sign_hash ::
  "(nat \<Rightarrow> nat \<Rightarrow> int) \<Rightarrow> (nat \<Rightarrow> int) \<Rightarrow> octets \<Rightarrow> int \<Rightarrow> int option \<Rightarrow> bool \<Rightarrow> curve \<Rightarrow> hash_fn
    \<Rightarrow> bool \<Rightarrow> bool \<Rightarrow> pub_key option \<Rightarrow> octets option \<Rightarrow> (dsa_sig \<times> apoint option) run" where
  "dsa_sign_hash rnd rnd' msg_hash prv_key nonce lower_s ec hf grind vf key commit_hash =
     (if key \<noteq> None \<and> \<not> vf
      then Some (Inl (BTClibEccValueError ''pub_key is for the check that verify=False declines''))
      else
        obind (Some (bytes_from_octets msg_hash (Some [hf_size hf]))) (\<lambda>msg_hash.
        obind (Some (scalar_from_int prv_key ec)) (\<lambda>q.
        if commit_hash \<noteq> None \<and> nonce \<noteq> None
        then Some (Inl (BTClibEccValueError ''a commitment derives its own nonce''))
        else if grind \<and> (nonce \<noteq> None \<or> commit_hash \<noteq> None)
        then Some (Inl (BTClibEccValueError ''grinding derives its own nonce''))
        else
          obind (Some (challenge msg_hash ec hf)) (\<lambda>c.
          obind (Some (case key of None \<Rightarrow> Inr None | Some k \<Rightarrow> rbind (python_key k ec) (\<lambda>p. Inr (Some p)))) (\<lambda>parsed.
          case commit_hash of
            None \<Rightarrow>
              (case nonce of
                 Some k \<Rightarrow>
                   Some (rbind (scalar_from_int k ec) (\<lambda>k.
                     rbind (sign_raw (rnd 0) c q k lower_s ec) (\<lambda>sg.
                     rbind (dsa_checked (rnd' 0) c q ec vf parsed sg) (\<lambda>sg. Inr (sg, None)))))
               | None \<Rightarrow>
                   obind (grind_low_r (\<lambda>counter.
                       obind (rfc6979_nonce_raw c q ec hf (grind_entropy counter)) (\<lambda>k.
                         Some (sign_raw (rnd counter) c q k lower_s ec))) grind ec) (\<lambda>sg.
                     Some (rbind (dsa_checked (rnd' 0) c q ec vf parsed sg) (\<lambda>sg. Inr (sg, None)))))
          | Some ch \<Rightarrow>
              obind (rfc6979_nonce_raw c q ec hf (Some (commit_entropy ch S2C_DATA_TAG hf))) (\<lambda>k.
              obind (commit_nonce (rnd' 1) ch k S2C_POINT_TAG ec hf) (\<lambda>(k, receipt).
                Some (rbind (sign_raw (rnd 0) c q k lower_s ec) (\<lambda>sg.
                  rbind (dsa_checked (rnd' 0) c q ec vf parsed sg) (\<lambda>sg. Inr (sg, Some receipt)))))))))))"

definition dsa_sign ::
  "(nat \<Rightarrow> nat \<Rightarrow> int) \<Rightarrow> (nat \<Rightarrow> int) \<Rightarrow> octets \<Rightarrow> int \<Rightarrow> int option \<Rightarrow> bool \<Rightarrow> curve \<Rightarrow> hash_fn
    \<Rightarrow> bool \<Rightarrow> bool \<Rightarrow> pub_key option \<Rightarrow> octets option \<Rightarrow> (dsa_sig \<times> apoint option) run" where
  "dsa_sign rnd rnd' msg prv_key nonce lower_s ec hf grind vf key commit =
     dsa_sign_hash rnd rnd' (reduce_to_hlen msg hf) prv_key nonce lower_s ec hf grind vf key
       (map_option (\<lambda>m. reduce_to_hlen m hf) commit)"

definition sign_recoverable_hash ::
  "(nat \<Rightarrow> int) \<Rightarrow> octets \<Rightarrow> int \<Rightarrow> int option \<Rightarrow> bool \<Rightarrow> curve \<Rightarrow> hash_fn \<Rightarrow> (dsa_sig \<times> int) run" where
  "sign_recoverable_hash rnd msg_hash prv_key nonce lower_s ec hf =
     obind (Some (bytes_from_octets msg_hash (Some [hf_size hf]))) (\<lambda>msg_hash.
     obind (Some (scalar_from_int prv_key ec)) (\<lambda>q.
     obind (Some (challenge msg_hash ec hf)) (\<lambda>c.
     obind (case nonce of None \<Rightarrow> rfc6979_nonce_raw c q ec hf None | Some k \<Rightarrow> Some (scalar_from_int k ec)) (\<lambda>k.
       Some (sign_recoverable_raw rnd c q k lower_s ec)))))"

section \<open>DER\<close>

definition der_length :: "int \<Rightarrow> octets result" where
  "der_length n =
     (if n < 0x80 then int_to_bytes n 1
      else
        rbind (int_to_bytes n ((bit_length n + 7) div 8)) (\<lambda>length_bytes.
        rbind (int_to_bytes (0x80 OR int (length length_bytes)) 1) (\<lambda>b. Inr (b @ length_bytes))))"

definition serialize_scalar :: "int \<Rightarrow> octets result" where
  "serialize_scalar scalar =
     (let scalar_size = bit_length scalar div 8 + 1 in
      rbind (int_to_bytes scalar scalar_size) (\<lambda>scalar_bytes.
      rbind (der_length (int (length scalar_bytes))) (\<lambda>l. Inr ([2] @ l @ scalar_bytes))))"

definition dsa_serialize :: "dsa_sig \<Rightarrow> bool \<Rightarrow> octets result" where
  "dsa_serialize sg check_validity =
     rbind (if check_validity then dsa_assert_valid sg else Inr ()) (\<lambda>_.
     rbind (serialize_scalar (ds_r sg)) (\<lambda>rs.
     rbind (serialize_scalar (ds_s sg)) (\<lambda>ss.
     rbind (der_length (int (length (rs @ ss)))) (\<lambda>l. Inr ([0x30] @ l @ rs @ ss)))))"

definition wide_size_prefix :: "int \<Rightarrow> (nat \<times> int) option" where
  "wide_size_prefix k =
     (if k = 0xFD then Some (2, 0xFD)
      else if k = 0xFE then Some (4, 0x00010000)
      else if k = 0xFF then Some (8, 0x000100000000)
      else None)"

definition MAX_SIZE :: int where "MAX_SIZE = 0x02000000"
definition MAX_SIG_DATA_SIZE :: nat where "MAX_SIG_DATA_SIZE = 70"

text \<open>A stream is the octets not read yet: a parser returns what it read and the rest.\<close>

definition parse_der_size :: "octets \<Rightarrow> bool \<Rightarrow> (int \<times> octets) result" where
  "parse_der_size stream strict =
     (case stream of
        [] \<Rightarrow> Inl (BTClibEccValueError ''not enough binary data for DER length'')
      | b # stream \<Rightarrow>
        let sz = uint b in
        if strict \<and> 0x80 \<le> sz then Inl (BTClibEccValueError ''invalid DER length: long form'')
        else
          rbind (case wide_size_prefix sz of
              None \<Rightarrow> Inr (sz, stream)
            | Some (width, minimum) \<Rightarrow>
                if length (take width stream) \<noteq> width
                then Inl (BTClibEccValueError ''not enough binary data for DER length'')
                else
                  let sz = int_from_bytes (rev (take width stream)) in
                  if sz < minimum then Inl (BTClibEccValueError ''non-canonical DER length'')
                  else Inr (sz, drop width stream)) (\<lambda>(sz, stream).
          if MAX_SIZE < sz then Inl (BTClibEccValueError ''DER length too big'') else Inr (sz, stream)))"

definition parse_der_value :: "octets \<Rightarrow> bool \<Rightarrow> (octets \<times> octets) result" where
  "parse_der_value stream strict =
     rbind (parse_der_size stream strict) (\<lambda>(sz, stream).
       if sz = 0 then Inl (BTClibEccValueError ''invalid DER length: zero size'')
       else if length (take (nat sz) stream) \<noteq> nat sz
       then Inl (BTClibEccValueError ''invalid DER length: not enough binary data'')
       else Inr (take (nat sz) stream, drop (nat sz) stream))"

definition deserialize_scalar :: "octets \<Rightarrow> bool \<Rightarrow> (int \<times> octets) result" where
  "deserialize_scalar stream strict =
     (if take 1 stream \<noteq> [2] then Inl (BTClibEccValueError ''invalid value header'')
      else rbind (parse_der_value (drop 1 stream) strict) (\<lambda>(scalar_bytes, stream).
        if strict \<and> 1 < length scalar_bytes \<and> scalar_bytes ! 0 = 0 \<and> uint (scalar_bytes ! 1) < 0x80
        then Inl (BTClibEccValueError ''invalid highest bit set padding'')
        else if strict \<and> 0x80 \<le> uint (scalar_bytes ! 0)
        then Inl (BTClibEccValueError ''invalid negative scalar'')
        else Inr (int_from_bytes scalar_bytes, stream)))"

text \<open>
  \<^verbatim>\<open>Sig.parse\<close>; the curve of a parsed signature is \<^verbatim>\<open>secp256k1\<close>, here the argument \<open>ec\<close>. Octets are
  given, not a stream, so that strict parsing refuses what follows the sequence.
\<close>

definition dsa_parse :: "octets \<Rightarrow> curve \<Rightarrow> bool \<Rightarrow> bool \<Rightarrow> dsa_sig result" where
  "dsa_parse data ec check_validity strict =
     (if take 1 data \<noteq> [0x30] then Inl (BTClibEccValueError ''invalid compound header'')
      else rbind (parse_der_value (drop 1 data) strict) (\<lambda>(sig_data, stream).
        if strict \<and> MAX_SIG_DATA_SIZE < length sig_data
        then Inl (BTClibEccValueError ''invalid DER sequence length: octets of r,s data'')
        else rbind (deserialize_scalar sig_data strict) (\<lambda>(r, sub).
          rbind (deserialize_scalar sub strict) (\<lambda>(s, sub).
          if take 1 sub \<noteq> [] then Inl (BTClibEccValueError ''invalid DER sequence length'')
          else if strict \<and> take 1 stream \<noteq> [] then Inl (BTClibEccValueError ''trailing bytes after the DER sequence'')
          else
            let sg = \<lparr>ds_r = r, ds_s = s, ds_ec = ec\<rparr> in
            rbind (if check_validity then dsa_assert_valid sg else Inr ()) (\<lambda>_. Inr sg)))))"

section \<open>Verification of a message\<close>

definition dsa_assert_commitment :: "int \<Rightarrow> octets option \<Rightarrow> apoint option \<Rightarrow> dsa_sig \<Rightarrow> hash_fn \<Rightarrow> unit run" where
  "dsa_assert_commitment rnd commit_hash receipt sg hf =
     (case (commit_hash, receipt) of
        (None, None) \<Rightarrow> Some (Inr ())
      | (None, Some _) \<Rightarrow> Some (Inl (BTClibEccTypeError ''receipt without the commitment it opens''))
      | (Some _, None) \<Rightarrow> Some (Inl (BTClibEccTypeError ''commitment without the receipt that opens it''))
      | (Some ch, Some R) \<Rightarrow>
          obind (commit_point rnd ch R S2C_POINT_TAG (ds_ec sg) hf) (\<lambda>W.
            if ds_r sg \<noteq> fst W mod cv_n (ds_ec sg)
            then Some (Inl (BTClibEccRuntimeError ''commitment verification failed'')) else Some (Inr ())))"

definition dsa_assert_as_valid_hash ::
  "int \<Rightarrow> octets \<Rightarrow> pub_key \<Rightarrow> dsa_sig \<Rightarrow> hash_fn \<Rightarrow> octets option \<Rightarrow> apoint option \<Rightarrow> unit run" where
  "dsa_assert_as_valid_hash rnd msg_hash key sg hf commit_hash receipt =
     (let ec = ds_ec sg in
      obind (Some (dsa_assert_valid sg)) (\<lambda>_.
      obind (dsa_assert_commitment rnd commit_hash receipt sg hf) (\<lambda>_.
        Some (rbind (challenge msg_hash ec hf) (\<lambda>c.
          rbind (point_from_pub_key key ec) (\<lambda>Q.
            assert_as_valid_raw c (fst Q, snd Q, 1) (ds_r sg) (ds_s sg) ec (fixed_points_of key ec) False))))))"

definition dsa_verify_hash ::
  "int \<Rightarrow> octets \<Rightarrow> pub_key \<Rightarrow> dsa_sig \<Rightarrow> hash_fn \<Rightarrow> octets option \<Rightarrow> apoint option \<Rightarrow> bool run" where
  "dsa_verify_hash rnd msg_hash key sg hf commit_hash receipt =
     obind (Some (point_from_pub_key key (ds_ec sg))) (\<lambda>_.
     obind (Some (bytes_from_octets msg_hash (Some [hf_size hf]))) (\<lambda>_.
       map_option caught_false (dsa_assert_as_valid_hash rnd msg_hash key sg hf commit_hash receipt)))"

definition dsa_verify ::
  "int \<Rightarrow> octets \<Rightarrow> pub_key \<Rightarrow> dsa_sig \<Rightarrow> hash_fn \<Rightarrow> octets option \<Rightarrow> apoint option \<Rightarrow> bool run" where
  "dsa_verify rnd msg key sg hf commit receipt =
     obind (Some (point_from_pub_key key (ds_ec sg))) (\<lambda>_.
       map_option caught_false (dsa_assert_as_valid_hash rnd (reduce_to_hlen msg hf) key sg hf
         (map_option (\<lambda>m. reduce_to_hlen m hf) commit) receipt))"

section \<open>Anti-exfiltration\<close>

definition dsa_anti_exfil_host_commit :: "octets \<Rightarrow> hash_fn \<Rightarrow> octets result" where
  "dsa_anti_exfil_host_commit rho hf =
     rbind (bytes_from_octets rho (Some [hf_size hf])) (\<lambda>rho. Inr (commit_entropy rho S2C_DATA_TAG hf))"

definition dsa_anti_exfil_signer_commit ::
  "int \<Rightarrow> octets \<Rightarrow> int \<Rightarrow> octets \<Rightarrow> curve \<Rightarrow> hash_fn \<Rightarrow> apoint run" where
  "dsa_anti_exfil_signer_commit rnd msg_hash prv_key host_commitment ec hf =
     obind (Some (challenge msg_hash ec hf)) (\<lambda>c.
     obind (Some (scalar_from_int prv_key ec)) (\<lambda>q.
     obind (Some (bytes_from_octets host_commitment (Some [hf_size hf]))) (\<lambda>entropy.
     obind (rfc6979_nonce_raw c q ec hf (Some entropy)) (\<lambda>k. Some (mult rnd k (Some (cv_G ec)) ec)))))"

definition dsa_anti_exfil_sign ::
  "(nat \<Rightarrow> nat \<Rightarrow> int) \<Rightarrow> (nat \<Rightarrow> int) \<Rightarrow> octets \<Rightarrow> int \<Rightarrow> octets \<Rightarrow> bool \<Rightarrow> curve \<Rightarrow> hash_fn \<Rightarrow> dsa_sig run" where
  "dsa_anti_exfil_sign rnd rnd' msg_hash prv_key rho lower_s ec hf =
     obind (Some (bytes_from_octets rho (Some [hf_size hf]))) (\<lambda>rho.
     obind (dsa_sign_hash rnd rnd' msg_hash prv_key None lower_s ec hf False True None (Some rho)) (\<lambda>(sg, _).
       Some (Inr sg)))"

definition dsa_anti_exfil_host_verify ::
  "int \<Rightarrow> octets \<Rightarrow> pub_key \<Rightarrow> dsa_sig \<Rightarrow> octets \<Rightarrow> apoint \<Rightarrow> hash_fn \<Rightarrow> bool run" where
  "dsa_anti_exfil_host_verify rnd msg_hash key sg rho receipt hf =
     dsa_verify_hash rnd msg_hash key sg hf (Some rho) (Some receipt)"

section \<open>Recovery of the public key\<close>

definition recover_pub_key_raw :: "int \<Rightarrow> int \<Rightarrow> int \<Rightarrow> int \<Rightarrow> curve \<Rightarrow> bool \<Rightarrow> jpoint result" where
  "recover_pub_key_raw key_id c r s ec lower_s =
     (let n = cv_n ec; p = ec_p ec in
      if lower_s \<and> n div 2 < s then Inl (BTClibEccValueError ''not a low s'')
      else
        let prime_order = cv_cofactor ec = 1; j = key_id div 2; x_K = r + j * n in
        if prime_order \<and> \<not> (0 \<le> x_K \<and> x_K < p)
        then Inl (BTClibEccValueError ''invalid key_id: x_K is not a field element'')
        else
          let x_K = (if prime_order then x_K else x_K mod p) in
          rbind (mod_inv_var r n) (\<lambda>r_1.
          let r1s = r_1 * s mod n; r1e = - r_1 * c mod n; i = key_id mod 2 in
          rbind (y_even_var ec x_K) (\<lambda>y.
          let y_K = (if i \<noteq> 0 then p - y else y); KJ = (x_K, y_K, 1) in
          rbind (if prime_order then Inr ()
                 else rbind (mult_jac_var n KJ ec) (\<lambda>R.
                   require (snd (snd R) = 0) (BTClibEccValueError ''invalid key_id: K is not in the subgroup''))) (\<lambda>_.
          rbind (jac_double_mult_var r1s KJ r1e (cv_GJ ec) ec (ec_fixed_points ec)) (\<lambda>QJ.
          if snd (snd QJ) = 0 then Inl (BTClibEccRuntimeError ''invalid (INF) key'')
          else if prime_order then Inr QJ
          else rbind (assert_as_valid_raw c QJ r s ec (ec_fixed_points ec) False) (\<lambda>_. Inr QJ))))))"

text \<open>The identifiers that recover nothing are passed over.\<close>

definition recover_pub_keys_raw :: "int \<Rightarrow> int \<Rightarrow> int \<Rightarrow> curve \<Rightarrow> bool \<Rightarrow> jpoint list result" where
  "recover_pub_keys_raw c r s ec lower_s =
     rfold (\<lambda>keys key_id.
         case recover_pub_key_raw key_id c r s ec lower_s of
           Inr QJ \<Rightarrow> Inr (keys @ [QJ])
         | Inl (BTClibEccValueError _) \<Rightarrow> Inr keys
         | Inl (BTClibEccRuntimeError _) \<Rightarrow> Inr keys
         | Inl e \<Rightarrow> Inl e)
       [] [0..2 * (cv_cofactor ec + 1) - 1]"

definition recover_pub_keys_hash :: "octets \<Rightarrow> dsa_sig \<Rightarrow> hash_fn \<Rightarrow> apoint list result" where
  "recover_pub_keys_hash msg_hash sg hf =
     rbind (dsa_assert_valid sg) (\<lambda>_.
     rbind (bytes_from_octets msg_hash (Some [hf_size hf])) (\<lambda>msg_hash.
     rbind (challenge msg_hash (ds_ec sg) hf) (\<lambda>c.
     rbind (recover_pub_keys_raw c (ds_r sg) (ds_s sg) (ds_ec sg) False) (aff_from_jac_batch_var (ds_ec sg)))))"

definition recovery_inputs :: "octets \<Rightarrow> dsa_sig \<Rightarrow> hash_fn \<Rightarrow> octets result" where
  "recovery_inputs msg_hash sg hf =
     rbind (dsa_assert_valid sg) (\<lambda>_. bytes_from_octets msg_hash (Some [hf_size hf]))"

definition recover_pub_key_hash :: "int \<Rightarrow> octets \<Rightarrow> dsa_sig \<Rightarrow> hash_fn \<Rightarrow> apoint result" where
  "recover_pub_key_hash key_id msg_hash sg hf =
     rbind (recovery_inputs msg_hash sg hf) (\<lambda>msg_hash.
     rbind (challenge msg_hash (ds_ec sg) hf) (\<lambda>c.
     rbind (recover_pub_key_raw key_id c (ds_r sg) (ds_s sg) (ds_ec sg) False) (aff_from_jac_var (ds_ec sg))))"

definition recover_sec_hash :: "int \<Rightarrow> octets \<Rightarrow> dsa_sig \<Rightarrow> hash_fn \<Rightarrow> bool \<Rightarrow> octets result" where
  "recover_sec_hash key_id msg_hash sg hf compressed =
     rbind (recover_pub_key_hash key_id msg_hash sg hf) (\<lambda>Q. bytes_from_point Q (ds_ec sg) compressed)"

section \<open>A nonce used twice\<close>

definition crack_prv_key_var :: "octets \<Rightarrow> dsa_sig \<Rightarrow> octets \<Rightarrow> dsa_sig \<Rightarrow> hash_fn \<Rightarrow> (int \<times> int) result" where
  "crack_prv_key_var msg_hash1 sig1 msg_hash2 sig2 hf =
     rbind (dsa_assert_valid sig1) (\<lambda>_.
     rbind (dsa_assert_valid sig2) (\<lambda>_.
     let ec = ds_ec sig2; n = cv_n ec in
     if eq_key (ds_ec sig1) \<noteq> eq_key ec then Inl (BTClibEccValueError ''not the same curve in signatures'')
     else if ds_r sig1 \<noteq> ds_r sig2 then Inl (BTClibEccValueError ''not the same r in signatures'')
     else if ds_s sig1 = ds_s sig2 then Inl (BTClibEccValueError ''identical signatures'')
     else
       rbind (challenge msg_hash1 ec hf) (\<lambda>c_1.
       rbind (challenge msg_hash2 ec hf) (\<lambda>c_2.
       rbind (mod_inv_var (ds_s sig1 - ds_s sig2) n) (\<lambda>i.
       let nonce = (c_1 - c_2) * i mod n in
       rbind (mod_inv_var (ds_r sig1) n) (\<lambda>j.
       let q = (ds_s sig2 * nonce - c_2) * j mod n in Inr (q, nonce)))))))"

section \<open>The signer\<close>

text \<open>A signer without the bindings' buffer keeps the key as an integer, until it is wiped.\<close>

record dsa_signer =
  dg_q :: int
  dg_ec :: curve
  dg_hf :: hash_fn
  dg_key :: "apoint \<times> jpoint set"
  dg_wiped :: bool

definition init_dsa_signer :: "int \<Rightarrow> int \<Rightarrow> curve \<Rightarrow> hash_fn \<Rightarrow> dsa_signer result" where
  "init_dsa_signer rnd prv_key ec hf =
     rbind (scalar_from_int prv_key ec) (\<lambda>q.
     rbind (mult rnd q None ec) (\<lambda>Q.
       Inr \<lparr>dg_q = q, dg_ec = ec, dg_hf = hf, dg_key = (Q, ec_fixed_points ec), dg_wiped = False\<rparr>))"

definition dsa_signer_wipe :: "dsa_signer \<Rightarrow> dsa_signer" where
  "dsa_signer_wipe sn = sn\<lparr>dg_q := 0, dg_wiped := True\<rparr>"

definition dsa_signer_sign :: "(nat \<Rightarrow> nat \<Rightarrow> int) \<Rightarrow> dsa_signer \<Rightarrow> octets \<Rightarrow> bool \<Rightarrow> bool \<Rightarrow> octets run" where
  "dsa_signer_sign rnd sn msg_hash grind vf =
     (let ec = dg_ec sn; hf = dg_hf sn in
      if dg_wiped sn then Some (Inl (BTClibEccValueError ''the signer is wiped''))
      else
        obind (Some (bytes_from_octets msg_hash (Some [hf_size hf]))) (\<lambda>msg_hash.
        obind (Some (challenge msg_hash ec hf)) (\<lambda>c.
        obind (grind_low_r (\<lambda>counter.
            obind (rfc6979_nonce_raw c (dg_q sn) ec hf (grind_entropy counter)) (\<lambda>k.
              Some (sign_raw (rnd counter) c (dg_q sn) k True ec))) grind ec) (\<lambda>sg.
        obind (Some (if vf then abort_unless_checked (python_verified c sg ec) (Inr (dg_key sn)) None else Inr ())) (\<lambda>_.
          Some (dsa_serialize sg True))))))"

end
