(* ===== verification/Ssa.thy ===== *)
theory Ssa
  imports Dsa
begin

text \<open>
  Model of \<^verbatim>\<open>src/btclib_ecc/ecc/ssa.py\<close>, the Schnorr signatures of BIP 340: the x-only public keys, the
  challenge, signing with and without a commitment in the nonce, verification, batch verification with
  its random multipliers, the recovery of the key from a challenge, the signer that wipes its key and the
  anti-exfiltration protocol, each function on its pure Python path. The random factors are arguments;
  \<open>aux0\<close> stands for the octets \<^verbatim>\<open>secrets.token_bytes\<close> draws when none are given.
\<close>

section \<open>Signatures\<close>

record ssa_sig =
  ss_r :: int
  ss_s :: int
  ss_ec :: curve

definition S2C_SSA_POINT_TAG :: octets where "S2C_SSA_POINT_TAG = ascii ''s2c/schnorr/point''"
definition S2C_SSA_DATA_TAG :: octets where "S2C_SSA_DATA_TAG = ascii ''s2c/schnorr/data''"
definition REQUIRED_LENGTH :: nat where "REQUIRED_LENGTH = 64"

definition ssa_assert_valid :: "ssa_sig \<Rightarrow> unit result" where
  "ssa_assert_valid sg =
     rbind (is_x_coordinate_var (ss_r sg) (ss_ec sg)) (\<lambda>b.
       if \<not> b then Inl (BTClibEccValueError ''r is not a valid x-coordinate'')
       else if \<not> (0 \<le> ss_s sg \<and> ss_s sg < cv_n (ss_ec sg)) then Inl (BTClibEccValueError ''scalar s not in 0..n-1'')
       else Inr ())"

definition init_ssa_sig :: "int \<Rightarrow> int \<Rightarrow> curve \<Rightarrow> bool \<Rightarrow> ssa_sig result" where
  "init_ssa_sig r s ec check_validity =
     (let sg = \<lparr>ss_r = r, ss_s = s, ss_ec = ec\<rparr> in
      rbind (if check_validity then ssa_assert_valid sg else Inr ()) (\<lambda>_. Inr sg))"

definition ssa_serialize :: "ssa_sig \<Rightarrow> bool \<Rightarrow> octets result" where
  "ssa_serialize sg check_validity =
     rbind (if check_validity then ssa_assert_valid sg else Inr ()) (\<lambda>_.
     rbind (int_to_bytes (ss_r sg) (ec_p_size (ss_ec sg))) (\<lambda>out.
     rbind (int_to_bytes (ss_s sg) (cv_n_size (ss_ec sg))) (\<lambda>s. Inr (out @ s))))"

text \<open>\<^verbatim>\<open>Sig.parse\<close> of octets; \<open>ec\<close> is \<^verbatim>\<open>secp256k1\<close> there.\<close>

definition ssa_parse :: "octets \<Rightarrow> curve \<Rightarrow> bool \<Rightarrow> ssa_sig result" where
  "ssa_parse data ec check_validity =
     (let sig_bin = take REQUIRED_LENGTH data in
      if length sig_bin \<noteq> REQUIRED_LENGTH then Inl (BTClibEccValueError ''invalid decoded length'')
      else if drop REQUIRED_LENGTH data \<noteq> [] then Inl (BTClibEccValueError ''trailing bytes after the BIP340 signature'')
      else init_ssa_sig (int_from_bytes (take (ec_p_size ec) sig_bin)) (int_from_bytes (drop (ec_p_size ec) sig_bin))
             ec check_validity)"

section \<open>Keys\<close>

datatype bip340_key = X_Int int | X_Prepared prepared_point | X_Point apoint | X_Octets octets

definition x_from_point :: "apoint \<Rightarrow> curve \<Rightarrow> int result" where
  "x_from_point Q ec =
     rbind (is_on_curve ec Q) (\<lambda>b.
       if b \<and> snd Q \<noteq> 0
       then rbind (if 1 < cv_cofactor ec then assert_in_subgroup Q ec else Inr ()) (\<lambda>_. Inr (fst Q))
       else Inl (BTClibEccValueError ''not a valid public key''))"

fun x_from_bip340pub_key :: "bip340_key \<Rightarrow> curve \<Rightarrow> int result" where
  "x_from_bip340pub_key (X_Int x) ec = Inr x"
| "x_from_bip340pub_key (X_Prepared pp) ec = x_from_point (pp_point pp) ec"
| "x_from_bip340pub_key (X_Point Q) ec = x_from_point Q ec"
| "x_from_bip340pub_key (X_Octets bs) ec =
     rbind (bytes_from_octets bs (Some [ec_p_size ec, ec_p_size ec + 1, 2 * ec_p_size ec + 1])) (\<lambda>octets.
       if length octets = ec_p_size ec then Inr (int_from_bytes octets)
       else rbind (point_from_octets octets ec False) (\<lambda>Q. Inr (fst Q)))"

definition y_even_in_subgroup_var :: "int \<Rightarrow> curve \<Rightarrow> int result" where
  "y_even_in_subgroup_var x ec =
     rbind (y_even_var ec x) (\<lambda>y.
     rbind (if 1 < cv_cofactor ec
            then rbind (require_on_curve ec (x, y)) (\<lambda>_. assert_in_subgroup (x, y) ec)
            else Inr ()) (\<lambda>_. Inr y))"

definition point_from_bip340pub_key :: "bip340_key \<Rightarrow> curve \<Rightarrow> apoint result" where
  "point_from_bip340pub_key Q ec =
     rbind (x_from_bip340pub_key Q ec) (\<lambda>x. rbind (y_even_in_subgroup_var x ec) (\<lambda>y. Inr (x, y)))"

definition ssa_gen_keys :: "int \<Rightarrow> int \<Rightarrow> curve \<Rightarrow> (int \<times> int) result" where
  "ssa_gen_keys rnd prv_key ec =
     rbind (scalar_from_int prv_key ec) (\<lambda>q.
     rbind (mult rnd q None ec) (\<lambda>(x_Q, y_Q).
       let q = (if y_Q mod 2 \<noteq> 0 then cv_n ec - q else q) in Inr (q, x_Q)))"

section \<open>Signing\<close>

definition ssa_challenge :: "octets \<Rightarrow> int \<Rightarrow> int \<Rightarrow> curve \<Rightarrow> hash_fn \<Rightarrow> int result" where
  "ssa_challenge msg x_Q x_K ec hf =
     rbind (int_to_bytes x_K (ec_p_size ec)) (\<lambda>ks.
     rbind (int_to_bytes x_Q (ec_p_size ec)) (\<lambda>qs.
       let t = tagged_hash (ascii ''BIP0340/challenge'') (ks @ qs @ msg) hf;
         c = int_from_bits t (cv_nlen ec) mod cv_n ec
       in if c = 0 then Inl (BTClibEccRuntimeError ''invalid zero challenge'') else Inr c))"

definition ssa_sign_raw :: "int \<Rightarrow> int \<Rightarrow> int \<Rightarrow> int \<Rightarrow> curve \<Rightarrow> ssa_sig result" where
  "ssa_sign_raw c q nonce r ec =
     (if c = 0 then Inl (BTClibEccRuntimeError ''invalid zero challenge'')
      else init_ssa_sig r ((nonce + c * q) mod cv_n ec) ec True)"

definition ssa_assert_as_valid_raw :: "int \<Rightarrow> jpoint \<Rightarrow> int \<Rightarrow> int \<Rightarrow> curve \<Rightarrow> jpoint set \<Rightarrow> unit result" where
  "ssa_assert_as_valid_raw c QJ r s ec fixed =
     rbind (jac_double_mult_var (cv_n ec - c) QJ s (cv_GJ ec) ec fixed) (\<lambda>KJ.
     rbind (y_aff_from_jac_var ec KJ) (\<lambda>y.
       if y mod 2 \<noteq> 0 then Inl (BTClibEccRuntimeError ''y_K is odd'')
       else case KJ of (X, Y, Z) \<Rightarrow>
         if X \<noteq> Z * Z * r mod ec_p ec then Inl (BTClibEccRuntimeError ''signature verification failed'') else Inr ()))"

definition checked_sign :: "int \<Rightarrow> ssa_sig \<Rightarrow> int \<Rightarrow> curve \<Rightarrow> bool \<Rightarrow> ssa_sig result" where
  "checked_sign c sg x_Q ec verify =
     (if \<not> verify then Inr sg
      else rbind (y_even_var ec x_Q) (\<lambda>y.
        case ssa_assert_as_valid_raw c (x_Q, y, 1) (ss_r sg) (ss_s sg) ec (ec_fixed_points ec) of
          Inr _ \<Rightarrow> Inr sg
        | Inl e \<Rightarrow> if is_caught e
                   then Inl (BTClibEccRuntimeError ''signing produced a signature that does not verify'') else Inl e))"

definition sign_commit ::
  "(nat \<Rightarrow> int) \<Rightarrow> octets \<Rightarrow> int \<Rightarrow> octets \<Rightarrow> octets \<Rightarrow> curve \<Rightarrow> hash_fn \<Rightarrow> bool \<Rightarrow> (ssa_sig \<times> apoint) run" where
  "sign_commit rnd msg prv_key nonce_aux commit_hash ec hf verify =
     obind (bip340_nonce rnd msg prv_key nonce_aux ec hf) (\<lambda>(k, x_K, q, x_Q).
     obind (commit_nonce (rnd 2) commit_hash k S2C_SSA_POINT_TAG ec hf) (\<lambda>(k, receipt).
       Some (rbind (mult (rnd 3) k None ec) (\<lambda>(x_K, y_K).
         let k = (if y_K mod 2 \<noteq> 0 then cv_n ec - k else k) in
         rbind (ssa_challenge msg x_Q x_K ec hf) (\<lambda>c.
         rbind (rbind (ssa_sign_raw c q k x_K ec) (\<lambda>sg. checked_sign c sg x_Q ec verify)) (\<lambda>sg. Inr (sg, receipt)))))))"

definition ssa_sign_msg ::
  "(nat \<Rightarrow> int) \<Rightarrow> octets \<Rightarrow> octets \<Rightarrow> int \<Rightarrow> octets option \<Rightarrow> curve \<Rightarrow> hash_fn \<Rightarrow> bool \<Rightarrow> octets option
    \<Rightarrow> (ssa_sig \<times> apoint option) run" where
  "ssa_sign_msg rnd aux0 msg prv_key aux ec hf verify commit_hash =
     obind (Some (case aux of None \<Rightarrow> Inr aux0 | Some a \<Rightarrow> bytes_from_octets a (Some [hf_size hf]))) (\<lambda>aux.
       case commit_hash of
         None \<Rightarrow>
           obind (bip340_nonce rnd msg prv_key aux ec hf) (\<lambda>(k, x_K, q, x_Q).
             Some (rbind (ssa_challenge msg x_Q x_K ec hf) (\<lambda>c.
               rbind (rbind (ssa_sign_raw c q k x_K ec) (\<lambda>sg. checked_sign c sg x_Q ec verify)) (\<lambda>sg. Inr (sg, None)))))
       | Some ch \<Rightarrow>
           obind (sign_commit rnd msg prv_key (commit_entropy (aux @ ch) S2C_SSA_DATA_TAG hf) ch ec hf verify) (\<lambda>(sg, receipt).
             Some (Inr (sg, Some receipt))))"

definition ssa_sign ::
  "(nat \<Rightarrow> int) \<Rightarrow> octets \<Rightarrow> octets \<Rightarrow> int \<Rightarrow> octets option \<Rightarrow> curve \<Rightarrow> hash_fn \<Rightarrow> bool \<Rightarrow> octets option
    \<Rightarrow> (ssa_sig \<times> apoint option) run" where
  "ssa_sign rnd aux0 msg prv_key aux ec hf verify commit =
     ssa_sign_msg rnd aux0 (reduce_to_hlen msg hf) prv_key aux ec hf verify
       (map_option (\<lambda>m. reduce_to_hlen m hf) commit)"

section \<open>Verification\<close>

definition ssa_assert_commitment :: "int \<Rightarrow> octets option \<Rightarrow> apoint option \<Rightarrow> ssa_sig \<Rightarrow> hash_fn \<Rightarrow> unit run" where
  "ssa_assert_commitment rnd commit_hash receipt sg hf =
     (case (commit_hash, receipt) of
        (None, None) \<Rightarrow> Some (Inr ())
      | (None, Some _) \<Rightarrow> Some (Inl (BTClibEccTypeError ''receipt without the commitment it opens''))
      | (Some _, None) \<Rightarrow> Some (Inl (BTClibEccTypeError ''commitment without the receipt that opens it''))
      | (Some ch, Some R) \<Rightarrow>
          obind (commit_point rnd ch R S2C_SSA_POINT_TAG (ss_ec sg) hf) (\<lambda>W.
            if ss_r sg \<noteq> fst W then Some (Inl (BTClibEccRuntimeError ''commitment verification failed''))
            else Some (Inr ())))"

definition x_only_bytes :: "int \<Rightarrow> curve \<Rightarrow> octets result" where
  "x_only_bytes x ec =
     (if \<not> (0 \<le> x \<and> x < ec_p ec) then Inl (BTClibEccValueError ''x-coordinate not in 0..p-1'')
      else int_to_bytes x (ec_p_size ec))"

definition ssa_fixed_points :: "bip340_key \<Rightarrow> curve \<Rightarrow> jpoint set" where
  "ssa_fixed_points Q ec = (case Q of X_Prepared pp \<Rightarrow> pp_fixed pp | _ \<Rightarrow> ec_fixed_points ec)"

definition ssa_assert_as_valid_msg ::
  "int \<Rightarrow> octets \<Rightarrow> bip340_key \<Rightarrow> ssa_sig \<Rightarrow> hash_fn \<Rightarrow> octets option \<Rightarrow> apoint option \<Rightarrow> unit run" where
  "ssa_assert_as_valid_msg rnd msg Q sg hf commit_hash receipt =
     (let ec = ss_ec sg in
      obind (Some (ssa_assert_valid sg)) (\<lambda>_.
      obind (ssa_assert_commitment rnd commit_hash receipt sg hf) (\<lambda>_.
        Some (rbind (x_from_bip340pub_key Q ec) (\<lambda>x_Q.
          rbind (y_even_in_subgroup_var x_Q ec) (\<lambda>y_Q.
          rbind (ssa_challenge msg x_Q (ss_r sg) ec hf) (\<lambda>c.
            ssa_assert_as_valid_raw c (x_Q, y_Q, 1) (ss_r sg) (ss_s sg) ec (ssa_fixed_points Q ec))))))))"

definition ssa_assert_as_valid ::
  "int \<Rightarrow> octets \<Rightarrow> bip340_key \<Rightarrow> ssa_sig \<Rightarrow> hash_fn \<Rightarrow> octets option \<Rightarrow> apoint option \<Rightarrow> unit run" where
  "ssa_assert_as_valid rnd msg Q sg hf commit receipt =
     ssa_assert_as_valid_msg rnd (reduce_to_hlen msg hf) Q sg hf (map_option (\<lambda>m. reduce_to_hlen m hf) commit) receipt"

definition ssa_verify_msg ::
  "int \<Rightarrow> octets \<Rightarrow> bip340_key \<Rightarrow> ssa_sig \<Rightarrow> hash_fn \<Rightarrow> octets option \<Rightarrow> apoint option \<Rightarrow> bool run" where
  "ssa_verify_msg rnd msg Q sg hf commit_hash receipt =
     obind (Some (x_from_bip340pub_key Q (ss_ec sg))) (\<lambda>_.
       map_option caught_false (ssa_assert_as_valid_msg rnd msg Q sg hf commit_hash receipt))"

definition ssa_verify ::
  "int \<Rightarrow> octets \<Rightarrow> bip340_key \<Rightarrow> ssa_sig \<Rightarrow> hash_fn \<Rightarrow> octets option \<Rightarrow> apoint option \<Rightarrow> bool run" where
  "ssa_verify rnd msg Q sg hf commit receipt =
     obind (Some (x_from_bip340pub_key Q (ss_ec sg))) (\<lambda>_.
       map_option caught_false (ssa_assert_as_valid rnd msg Q sg hf commit receipt))"

section \<open>Anti-exfiltration\<close>

definition ssa_anti_exfil_host_commit :: "octets \<Rightarrow> hash_fn \<Rightarrow> octets result" where
  "ssa_anti_exfil_host_commit rho hf =
     rbind (bytes_from_octets rho (Some [hf_size hf])) (\<lambda>rho. Inr (commit_entropy rho S2C_SSA_DATA_TAG hf))"

definition ssa_anti_exfil_signer_commit ::
  "(nat \<Rightarrow> int) \<Rightarrow> octets \<Rightarrow> int \<Rightarrow> octets \<Rightarrow> curve \<Rightarrow> hash_fn \<Rightarrow> apoint run" where
  "ssa_anti_exfil_signer_commit rnd msg prv_key host_commitment ec hf =
     obind (Some (bytes_from_octets host_commitment (Some [hf_size hf]))) (\<lambda>aux.
     obind (bip340_nonce rnd msg prv_key aux ec hf) (\<lambda>(_, x_K, _, _).
       Some (rbind (y_even_var ec x_K) (\<lambda>y. Inr (x_K, y)))))"

definition ssa_anti_exfil_sign ::
  "(nat \<Rightarrow> int) \<Rightarrow> octets \<Rightarrow> int \<Rightarrow> octets \<Rightarrow> curve \<Rightarrow> hash_fn \<Rightarrow> ssa_sig run" where
  "ssa_anti_exfil_sign rnd msg prv_key rho ec hf =
     obind (Some (bytes_from_octets rho (Some [hf_size hf]))) (\<lambda>rho.
     obind (sign_commit rnd msg prv_key (commit_entropy rho S2C_SSA_DATA_TAG hf) rho ec hf True) (\<lambda>(sg, _).
       Some (Inr sg)))"

definition ssa_anti_exfil_host_verify ::
  "int \<Rightarrow> octets \<Rightarrow> bip340_key \<Rightarrow> ssa_sig \<Rightarrow> octets \<Rightarrow> apoint \<Rightarrow> hash_fn \<Rightarrow> bool run" where
  "ssa_anti_exfil_host_verify rnd msg Q sg rho receipt hf = ssa_verify_msg rnd msg Q sg hf (Some rho) (Some receipt)"

section \<open>Recovery from a challenge\<close>

definition ssa_recover_pub_key :: "int \<Rightarrow> int \<Rightarrow> int \<Rightarrow> curve \<Rightarrow> int result" where
  "ssa_recover_pub_key c r s ec =
     (if c = 0 then Inl (BTClibEccRuntimeError ''invalid zero challenge'')
      else rbind (y_even_in_subgroup_var r ec) (\<lambda>y.
        rbind (mod_inv_var c (cv_n ec)) (\<lambda>e1.
        rbind (jac_double_mult_var (cv_n ec - e1) (r, y, 1) (e1 * s) (cv_GJ ec) ec (ec_fixed_points ec)) (\<lambda>QJ.
          if snd (snd QJ) = 0 then Inl (BTClibEccRuntimeError ''invalid (INF) key'')
          else x_aff_from_jac_var ec QJ))))"

section \<open>Batch verification\<close>

text \<open>
  One turn of the loop: the two scalars and the two x-coordinates it appends, and the term it adds to \<open>t\<close>.
  The multiplier is \<open>1\<close> for the first signature and \<^verbatim>\<open>1 + secrets.randbelow(ec.n - 1)\<close> after it.
\<close>

definition batch_rand :: "(nat \<Rightarrow> int) \<Rightarrow> nat \<Rightarrow> int" where
  "batch_rand below i = (if i = 0 then 1 else 1 + below i)"

definition batch_step ::
  "(nat \<Rightarrow> int) \<Rightarrow> curve \<Rightarrow> hash_fn \<Rightarrow> int \<times> int list \<times> int list \<Rightarrow> nat \<times> octets \<times> bip340_key \<times> ssa_sig
    \<Rightarrow> (int \<times> int list \<times> int list) result" where
  "batch_step below ec hf = (\<lambda>(t, scalars, x_coords) (i, msg, Q, sg).
     rbind (x_from_bip340pub_key Q ec) (\<lambda>x_Q.
     rbind (x_only_bytes x_Q ec) (\<lambda>_.
     rbind (if 1 < cv_cofactor ec
            then rbind (y_even_in_subgroup_var x_Q ec) (\<lambda>_. rbind (y_even_in_subgroup_var (ss_r sg) ec) (\<lambda>_. Inr ()))
            else Inr ()) (\<lambda>_.
     rbind (ssa_challenge msg x_Q (ss_r sg) ec hf) (\<lambda>c.
       let rand = batch_rand below i in
       Inr (t + rand * ss_s sg, scalars @ [rand, rand * c mod cv_n ec], x_coords @ [ss_r sg, x_Q]))))))"

definition assert_batch_as_valid ::
  "int \<Rightarrow> (nat \<Rightarrow> int) \<Rightarrow> octets list \<Rightarrow> bip340_key list \<Rightarrow> ssa_sig list \<Rightarrow> hash_fn \<Rightarrow> unit run" where
  "assert_batch_as_valid rnd below msgs Qs sigs hf =
     (let batch_size = length Qs in
      if batch_size = 0 then Some (Inl (BTClibEccValueError ''no signatures provided''))
      else if length msgs \<noteq> batch_size
      then Some (Inl (BTClibEccValueError ''mismatch between number of pub_keys and number of messages''))
      else if length sigs \<noteq> batch_size
      then Some (Inl (BTClibEccValueError ''mismatch between number of pub_keys and number of signatures''))
      else if batch_size = 1 then ssa_assert_as_valid_msg rnd (hd msgs) (hd Qs) (hd sigs) hf None None
      else
        let ec = ss_ec (hd sigs) in
        if list_ex (\<lambda>sg. eq_key (ss_ec sg) \<noteq> eq_key ec) sigs
        then Some (Inl (BTClibEccValueError ''not the same curve for all signatures''))
        else Some (
          rbind (rmap ssa_assert_valid sigs) (\<lambda>_.
          rbind (rfold (batch_step below ec hf) (0, [], []) (zip [0..<batch_size] (zip msgs (zip Qs sigs))))
            (\<lambda>(t, scalars, x_coords).
          rbind (mult rnd t None ec) (\<lambda>T.
          rbind (multi_mult_x_only_var scalars x_coords ec) (\<lambda>S.
            if T \<noteq> S then Inl (BTClibEccRuntimeError ''signature verification failed'') else Inr ()))))))"

definition assert_batch_as_valid_msgs ::
  "int \<Rightarrow> (nat \<Rightarrow> int) \<Rightarrow> octets list \<Rightarrow> bip340_key list \<Rightarrow> ssa_sig list \<Rightarrow> hash_fn \<Rightarrow> unit run" where
  "assert_batch_as_valid_msgs rnd below ms Qs sigs hf =
     assert_batch_as_valid rnd below (map (\<lambda>m. reduce_to_hlen m hf) ms) Qs sigs hf"

definition batch_verify ::
  "int \<Rightarrow> (nat \<Rightarrow> int) \<Rightarrow> octets list \<Rightarrow> bip340_key list \<Rightarrow> ssa_sig list \<Rightarrow> hash_fn \<Rightarrow> bool run" where
  "batch_verify rnd below msgs Qs sigs hf =
     obind (Some (rmap (\<lambda>(Q, sg). x_from_bip340pub_key Q (ss_ec sg)) (zip Qs sigs))) (\<lambda>_.
       map_option caught_false (assert_batch_as_valid rnd below msgs Qs sigs hf))"

definition batch_verify_msgs ::
  "int \<Rightarrow> (nat \<Rightarrow> int) \<Rightarrow> octets list \<Rightarrow> bip340_key list \<Rightarrow> ssa_sig list \<Rightarrow> hash_fn \<Rightarrow> bool run" where
  "batch_verify_msgs rnd below ms Qs sigs hf =
     obind (Some (rmap (\<lambda>(Q, sg). x_from_bip340pub_key Q (ss_ec sg)) (zip Qs sigs))) (\<lambda>_.
       map_option caught_false (assert_batch_as_valid_msgs rnd below ms Qs sigs hf))"

section \<open>The signer\<close>

record ssa_signer =
  sg_q :: int
  sg_ec :: curve
  sg_hf :: hash_fn
  sg_wiped :: bool

definition init_ssa_signer :: "int \<Rightarrow> curve \<Rightarrow> hash_fn \<Rightarrow> ssa_signer result" where
  "init_ssa_signer prv_key ec hf =
     rbind (scalar_from_int prv_key ec) (\<lambda>q. Inr \<lparr>sg_q = q, sg_ec = ec, sg_hf = hf, sg_wiped = False\<rparr>)"

definition ssa_signer_wipe :: "ssa_signer \<Rightarrow> ssa_signer" where
  "ssa_signer_wipe sn = sn\<lparr>sg_q := 0, sg_wiped := True\<rparr>"

definition ssa_signer_sign ::
  "(nat \<Rightarrow> int) \<Rightarrow> octets \<Rightarrow> ssa_signer \<Rightarrow> octets \<Rightarrow> octets option \<Rightarrow> bool \<Rightarrow> octets run" where
  "ssa_signer_sign rnd aux0 sn msg aux verify =
     (if sg_wiped sn then Some (Inl (BTClibEccValueError ''the signer is wiped''))
      else obind (ssa_sign_msg rnd aux0 msg (sg_q sn) aux (sg_ec sn) (sg_hf sn) verify None) (\<lambda>(sg, _).
        Some (ssa_serialize sg True)))"

end
