(* ===== verification/Scheme_Algebra.thy ===== *)
theory Scheme_Algebra
  imports Curve_Correct
begin

text \<open>
  What the schemes share on top of the curve: the arithmetic of scalars and points of the subgroup, the
  two linear combinations a verifier computes, the x-coordinate of a finite point and the two points
  that have it. The collection \<open>point_arith\<close> rewrites a combination of multiples of one point to one
  multiple.
\<close>

named_theorems point_arith \<open>multiples of points collected\<close>

abbreviation gen :: "curve \<Rightarrow> point" where
  "gen ec \<equiv> aff_abs (cv_G ec)"

definition px :: "point \<Rightarrow> int" where "px P = fst (aff_of P)"

definition py :: "point \<Rightarrow> int" where "py P = snd (aff_of P)"

lemma px_py_Pt [simp]: "px (Pt x y) = x" "py (Pt x y) = y"
  by (simp_all add: px_def py_def)

lemma aff_of_px_py: "aff_of P = (px P, py P)"
  by (simp add: px_def py_def)

section \<open>Scalars and points\<close>

lemma times_add: "member ec P \<Longrightarrow> ec_plus ec (ec_times ec j P) (ec_times ec k P) = ec_times ec (j + k) P"
  using ecn.zm_add memberD(2) by metis

lemma times_times: "member ec P \<Longrightarrow> ec_times ec j (ec_times ec k P) = ec_times ec (j * k) P"
  using ecn.zm_mult memberD(2) by metis

lemma minus_times: "member ec P \<Longrightarrow> ec_minus ec (ec_times ec k P) = ec_times ec (- k) P"
  using ecn.zm_minus memberD(2) by metis

lemma times_minus: "member ec P \<Longrightarrow> ec_times ec k (ec_minus ec P) = ec_times ec (- k) P"
  using ecn.zm_minus ecn.zm_neg memberD(2) by metis

lemma times_one: "member ec P \<Longrightarrow> ec_times ec 1 P = P"
  using ecn.zm_1 memberD(2) by metis

lemmas times_collect [point_arith] = times_add times_times minus_times

lemma times_distrib: "member ec P \<Longrightarrow> member ec S \<Longrightarrow> ec_times ec k (ec_plus ec P S) = ec_plus ec (ec_times ec k P) (ec_times ec k S)"
  using ecn.zm_distrib memberD(2) by metis

lemma times_mod: "member ec P \<Longrightarrow> ec_times ec (k mod cv_n ec) P = ec_times ec k P"
  using ecn.zm_mod memberD(2) by metis

lemma times_cong: "member ec P \<Longrightarrow> cv_n ec dvd (j - k) \<Longrightarrow> ec_times ec j P = ec_times ec k P"
  using ecn.zm_cong memberD(2) by metis

lemma plus_minus_cancel: "member ec P \<Longrightarrow> member ec S \<Longrightarrow> ec_plus ec (ec_minus ec P) (ec_plus ec P S) = S"
  using ecn.add_assoc ecn.neg_add_self ecn.zero_add ecn.neg_closed memberD(2) by metis

lemma plus_comm: "member ec P \<Longrightarrow> member ec S \<Longrightarrow> ec_plus ec P S = ec_plus ec S P"
  using ecn.add_comm memberD(2) by metis

lemma plus_assoc: "member ec P \<Longrightarrow> member ec S \<Longrightarrow> member ec T \<Longrightarrow> ec_plus ec (ec_plus ec P S) T = ec_plus ec P (ec_plus ec S T)"
  using ecn.add_assoc memberD(2) by metis

lemma plus_cancel: "member ec P \<Longrightarrow> member ec S \<Longrightarrow> member ec T \<Longrightarrow> ec_plus ec P S = ec_plus ec P T \<longleftrightarrow> S = T"
  using ecn.cancel_left memberD(2) by metis

lemma plus_Inf [simp]: "ec_plus ec P Inf = P"
  by simp

lemma curve_n:
  assumes "curve_valid ec"
  shows "prime_int (cv_n ec)" "0 < cv_n ec" "1 < cv_n ec" "2 < cv_n ec"
proof -
  have n: "prime_int (cv_n ec)" "odd (cv_n ec)" using assms by (simp_all add: curve_valid_def in_order_def)
  then show "prime_int (cv_n ec)" "0 < cv_n ec" "1 < cv_n ec" using prime_int_gt_1 by fastforce+
  moreover have "cv_n ec \<noteq> 2" using n(2) by auto
  ultimately show "2 < cv_n ec" by simp
qed

lemma unit_not_dvd: "0 < k \<Longrightarrow> k < n \<Longrightarrow> \<not> (n :: int) dvd k"
  using zdvd_imp_le [of n k] by auto

lemma inv_n:
  assumes "curve_valid ec" "\<not> cv_n ec dvd k"
  shows "mod_inv_var k (cv_n ec) = Inr (inv_mod k (cv_n ec))" "mod_inv rnd k (cv_n ec) = Inr (inv_mod k (cv_n ec))"
    "cv_n ec dvd (k * inv_mod k (cv_n ec) - 1)"
  using mod_inv_var_prime [OF curve_n(1) [OF assms(1)] assms(2)] mod_inv_eq_mod_inv_var
    inv_mod_prime [OF curve_n(1) [OF assms(1)] assms(2)] by simp_all

text \<open>Division by a scalar: the multiple determines the point.\<close>

lemma times_inverse_iff:
  assumes "member ec P" "member ec S" "cv_n ec dvd (k * i - 1)"
  shows "ec_times ec k P = S \<longleftrightarrow> P = ec_times ec i S"
proof
  assume "ec_times ec k P = S"
  then show "P = ec_times ec i S" using ecn.zm_inverse' [OF memberD(2) [OF assms(1)] assms(3)] by simp
next
  assume "P = ec_times ec i S"
  then show "ec_times ec k P = S" using ecn.zm_inverse [OF memberD(2) [OF assms(2)] assms(3)] by simp
qed

lemma times_unit_finite:
  assumes "member ec P" "P \<noteq> Inf" "\<not> cv_n ec dvd k"
  shows "ec_times ec k P \<noteq> Inf"
  using times_Inf_iff [OF assms(1,2)] assms(3) by simp

lemma gen_times_finite: "curve_valid ec \<Longrightarrow> 0 < k \<Longrightarrow> k < cv_n ec \<Longrightarrow> ec_times ec k (gen ec) \<noteq> Inf"
  by (rule times_unit_finite [OF member_generator generator_finite unit_not_dvd])

lemma mod_dvd_iff: "0 < (n :: int) \<Longrightarrow> n dvd (a mod n - a)"
  by (simp add: mod_eq_dvd_iff [symmetric])

lemma mod_nonzero_range: "0 < (n :: int) \<Longrightarrow> a mod n \<noteq> 0 \<Longrightarrow> 0 < a mod n \<and> a mod n < n"
  using pos_mod_bound [of n a] pos_mod_sign [of n a] by linarith

text \<open>
  The endomorphism of secp256k1 multiplies every point of the group by \<open>\<lambda>\<close>: the published fact that the
  fast multiplications rest on. On any other curve there is nothing to assume.
\<close>

definition endo_law :: "curve \<Rightarrow> bool" where
  "endo_law ec \<longleftrightarrow> (\<forall>P. member ec P \<longrightarrow> endo_ok ec P)"

lemma endo_lawD: "endo_law ec \<Longrightarrow> member ec P \<Longrightarrow> endo_ok ec P"
  by (simp add: endo_law_def)

lemma aff_of_inj:
  assumes "member ec P" "member ec S"
  shows "aff_of P = aff_of S \<longleftrightarrow> P = S"
  using arep_aff_of_member [OF assms(1)] arep_aff_of_member [OF assms(2)] by (metis arep_def)

section \<open>x-coordinates\<close>

lemma member_coords:
  assumes "member ec P" "P \<noteq> Inf"
  shows "P = Pt (px P) (py P)" "0 \<le> px P" "px P < ec_p ec" "0 < py P" "py P < ec_p ec"
    "py P * py P mod ec_p ec = ec_y2 ec (px P)"
proof -
  obtain x y where "P = Pt x y" "0 \<le> x" "x < ec_p ec" "0 < y" "y < ec_p ec" "y * y mod ec_p ec = ec_y2 ec x"
    using member_finite [OF assms] by blast
  then show "P = Pt (px P) (py P)" "0 \<le> px P" "px P < ec_p ec" "0 < py P" "py P < ec_p ec"
    "py P * py P mod ec_p ec = ec_y2 ec (px P)" by simp_all
qed

lemma minus_coords:
  assumes "member ec P" "P \<noteq> Inf"
  shows "ec_minus ec P = Pt (px P) (ec_p ec - py P)" "px (ec_minus ec P) = px P" "py (ec_minus ec P) = ec_p ec - py P"
    "ec_minus ec P \<noteq> Inf"
proof -
  note c = member_coords [OF assms]
  have "(- py P) mod ec_p ec = ec_p ec - py P" using c by (simp add: zmod_zminus1_eq_if)
  then show "ec_minus ec P = Pt (px P) (ec_p ec - py P)" using c(1) by (metis ec_neg.simps(2))
  then show "px (ec_minus ec P) = px P" "py (ec_minus ec P) = ec_p ec - py P" "ec_minus ec P \<noteq> Inf" by simp_all
qed

lemma same_px:
  assumes "member ec P" "P \<noteq> Inf" "member ec S" "S \<noteq> Inf" "px P = px S"
  shows "S = P \<or> S = ec_minus ec P"
proof -
  note P = member_coords [OF assms(1,2)] and S = member_coords [OF assms(3,4)]
  note ok = memberD(3) [OF assms(1)]
  have S': "S = Pt (px P) (py S)" using S(1) unfolding assms(5) .
  have "ec_on ec (Pt (px P) (py P))" "ec_on ec (Pt (px P) (py S))"
    using memberD(4) [OF assms(1)] memberD(4) [OF assms(3)] unfolding P(1) [symmetric] S' [symmetric] .
  from same_x [OF curve_ok_p(1) [OF ok] this] have "py P = py S \<or> ec_p ec dvd (py P + py S)" .
  then show ?thesis
  proof
    assume "py P = py S"
    then have "Pt (px P) (py S) = Pt (px P) (py P)" by simp
    then show ?thesis unfolding P(1) [symmetric] S' [symmetric] by blast
  next
    assume "ec_p ec dvd (py P + py S)"
    then obtain k where k: "py P + py S = ec_p ec * k" by (rule dvdE)
    have r: "0 < py P + py S" "py P + py S < ec_p ec * 2" using P(4,5) S(4,5) by linarith+
    have p: "0 < ec_p ec" using curve_ok_p(3) [OF ok] .
    have "0 < k" using r(1) p unfolding k zero_less_mult_iff by linarith
    moreover have "k < 2" using r(2) p unfolding k by simp
    ultimately have "k = 1" by linarith
    then have "py S = ec_p ec - py P" using k by simp
    then have "S = ec_minus ec P" unfolding minus_coords(1) [OF assms(1,2)] using S' by (simp only:)
    then show ?thesis by (rule disjI2)
  qed
qed

lemma parity_minus:
  assumes "member ec P" "P \<noteq> Inf"
  shows "even (py (ec_minus ec P)) \<longleftrightarrow> odd (py P)"
proof -
  have "odd (ec_p ec)" using prime_odd curve_ok_p [OF memberD(3) [OF assms(1)]] by blast
  then show ?thesis using minus_coords(3) [OF assms] by simp
qed

text \<open>A finite point is determined by its x-coordinate and the parity of its y-coordinate.\<close>

lemma same_px_parity:
  assumes "member ec P" "P \<noteq> Inf" "member ec S" "S \<noteq> Inf" "px P = px S" "even (py P) \<longleftrightarrow> even (py S)"
  shows "S = P"
  using same_px [OF assms(1-5)] parity_minus [OF assms(1,2)] assms(6) by auto

lemma y_even_of_px:
  assumes "member ec P" "P \<noteq> Inf" "ec_p ec mod 4 = 3"
  shows "y_even_var ec (px P) = Inr (if even (py P) then py P else ec_p ec - py P)"
proof -
  note ok = memberD(3) [OF assms(1)] and c = member_coords [OF assms(1,2)]
  have on: "ec_on ec (Pt (px P) (py P))" using memberD(4) [OF assms(1)] c(1) by metis
  obtain r where r: "y_var ec (px P) = Inr r" "r = py P \<or> r = (- py P) mod ec_p ec"
    using y_var_complete [OF ok assms(3) on] by blast
  have "(- py P) mod ec_p ec = ec_p ec - py P" using c by (simp add: zmod_zminus1_eq_if)
  then have r2: "r = py P \<or> r = ec_p ec - py P" using r(2) by (simp only:)
  have p: "odd (ec_p ec)" using prime_odd curve_ok_p [OF ok] by blast
  have "y_even_var ec (px P) = Inr (if odd r then ec_p ec - r else r)"
    unfolding y_even_var_def r(1) rbind_simps by (simp only: odd_iff_mod_2_eq_one not_mod_2_eq_0_eq_1)
  also have "(if odd r then ec_p ec - r else r) = (if even (py P) then py P else ec_p ec - py P)"
    using r2 p by (elim disjE; cases "even (py P)") simp_all
  finally show ?thesis .
qed

lemma jrep_finite:
  assumes "jrep ec R P" "P \<noteq> Inf" "curve_ok ec"
  shows "snd (snd R) \<noteq> 0" "x_aff_from_jac_var ec R = Inr (px P)" "y_aff_from_jac_var ec R = Inr (py P)"
proof -
  obtain x y where P: "P = Pt x y" using assms(2) by (cases P) auto
  show "snd (snd R) \<noteq> 0" using jrep_Inf_iff [OF assms(1)] assms(2) by simp
  show "x_aff_from_jac_var ec R = Inr (px P)" "y_aff_from_jac_var ec R = Inr (py P)"
    using x_aff_from_jac_var_correct [OF assms(3), of R x y] assms(1) P by simp_all
qed

lemma jrep_of_pair: "curve_ok ec \<Longrightarrow> arep ec A P \<Longrightarrow> P \<noteq> Inf \<Longrightarrow> jrep ec (fst A, snd A, 1) P"
  using jrep_jac_from_aff by (cases A; cases P) (fastforce simp: arep_def aff_abs_def jac_from_aff_def split: if_splits)+

end
