(* ===== verification/Dsa_Correct.thy ===== *)
theory Dsa_Correct
  imports Dsa Scheme_Algebra
begin

text \<open>
  ECDSA as a relation between the key, the challenge and the signature, with no inverse and no
  algorithm in it, and the proof that the model of \<^verbatim>\<open>dsa.py\<close> decides it: verification accepts exactly
  the related triples, signing makes one, and the public key, or the private one after a nonce is used
  twice, is recovered.
\<close>

section \<open>The specification\<close>

definition ecdsa_valid :: "curve \<Rightarrow> point \<Rightarrow> int \<Rightarrow> int \<Rightarrow> int \<Rightarrow> bool" where
  "ecdsa_valid ec Q c r s \<longleftrightarrow>
     (\<exists>R. member ec R \<and> R \<noteq> Inf \<and> px R mod cv_n ec = r
        \<and> ec_times ec s R = ec_plus ec (ec_times ec c (gen ec)) (ec_times ec r Q))"

text \<open>The point the verifier computes is the only candidate.\<close>

lemma ecdsa_valid_iff:
  assumes Q: "member ec Q" and i: "cv_n ec dvd (s * i - 1)"
    and R: "R = ec_plus ec (ec_times ec (r * i mod cv_n ec) Q) (ec_times ec (c * i mod cv_n ec) (gen ec))"
  shows "ecdsa_valid ec Q c r s \<longleftrightarrow> R \<noteq> Inf \<and> px R mod cv_n ec = r"
proof -
  note G = member_generator [OF memberD(1) [OF Q]]
  let ?T = "ec_plus ec (ec_times ec c (gen ec)) (ec_times ec r Q)"
  have T: "member ec ?T" by (intro member_closed Q G)
  have "ec_times ec i ?T = ec_plus ec (ec_times ec (c * i) (gen ec)) (ec_times ec (r * i) Q)"
    using times_distrib [OF member_closed(3) [OF G] member_closed(3) [OF Q]] times_times [OF G] times_times [OF Q]
    by (simp only: mult.commute)
  also have "\<dots> = R" unfolding R times_mod [OF Q] times_mod [OF G]
    by (rule plus_comm [OF member_closed(3) [OF G] member_closed(3) [OF Q]])
  finally have iT: "ec_times ec i ?T = R" .
  then have "member ec R" using member_closed(3) [OF T] by metis
  then show ?thesis unfolding ecdsa_valid_def using times_inverse_iff [OF _ T i] iT by metis
qed

section \<open>Verification\<close>

lemma x_of_jrep:
  assumes "jrep ec (X, Y, Z) P" "P \<noteq> Inf" "curve_ok ec"
  shows "rbind (mod_inv_var (Z * Z) (ec_p ec)) (\<lambda>i. f (X * i mod ec_p ec)) = f (px P)"
proof -
  have "x_aff_from_jac_var ec (X, Y, Z) = Inr (px P)" "Z \<noteq> 0" using jrep_finite [OF assms] by simp_all
  then show ?thesis
    by (cases "mod_inv_var (Z * Z) (ec_p ec)") (simp_all add: x_aff_from_jac_var_def Let_def)
qed

lemma caught_false_iff: "caught_false m = Inr b \<Longrightarrow> m = Inr () \<longleftrightarrow> b"
  by (auto simp: caught_false_def split: sum.splits if_splits)

lemma generator_jrep: "curve_valid ec \<Longrightarrow> jrep ec (cv_GJ ec) (gen ec)"
  using jrep_jac_from_aff [of ec "cv_G ec" "gen ec"] memberD(3,4) [OF member_generator]
  by (simp add: curve_valid_def arep_def)

lemma assert_as_valid_raw_verdict:
  assumes Q: "member ec Q" "jrep ec QJ Q" "endo_ok ec Q" and G: "endo_ok ec (gen ec)" and s: "0 < s" "s < cv_n ec"
  shows "caught_false (assert_as_valid_raw c QJ r s ec fixed lower_s) =
    Inr (\<not> (lower_s \<and> cv_n ec div 2 < s) \<and> ecdsa_valid ec Q c r s)"
proof (cases "lower_s \<and> cv_n ec div 2 < s")
  case True
  then show ?thesis by (simp add: assert_as_valid_raw_def Let_def caught_false_def is_caught_def)
next
  case False
  let ?n = "cv_n ec"
  note v = memberD(1) [OF Q(1)] and ok = memberD(3) [OF Q(1)]
  define w where "w = inv_mod s ?n"
  note i = inv_n [OF v unit_not_dvd [OF s], folded w_def]
  define R where "R = ec_plus ec (ec_times ec (r * w mod ?n) Q) (ec_times ec (c * w mod ?n) (gen ec))"
  have n: "0 \<le> r * w mod ?n" "0 \<le> c * w mod ?n" using memberD(5) [OF Q(1)] by simp_all
  obtain X Y Z where J: "jac_double_mult_var (r * w mod ?n) QJ (c * w mod ?n) (cv_GJ ec) ec fixed = Inr (X, Y, Z)"
    "jrep ec (X, Y, Z) R"
    using double_mult_python_correct [OF Q member_generator [OF v] generator_jrep [OF v] G n]
    unfolding returns_def R_def jac_double_mult_var_def by fastforce
  have "assert_as_valid_raw c QJ r s ec fixed lower_s =
      (if Z = 0 then Inl (BTClibEccRuntimeError ''invalid (INF) key'')
       else rbind (mod_inv_var (Z * Z) (ec_p ec)) (\<lambda>i. let x_K = X * i mod ec_p ec in
         if r \<noteq> x_K mod ?n then Inl (BTClibEccRuntimeError ''signature verification failed'') else Inr ()))"
    unfolding assert_as_valid_raw_def i(1) rbind_simps Let_def J(1) if_not_P [OF False] by simp
  also have "\<dots> = (if R = Inf then Inl (BTClibEccRuntimeError ''invalid (INF) key'')
       else if r \<noteq> px R mod ?n then Inl (BTClibEccRuntimeError ''signature verification failed'') else Inr ())"
    unfolding Let_def using jrep_Inf_iff [OF J(2)]
      x_of_jrep [OF J(2) _ ok, where f = "\<lambda>x. if r \<noteq> x mod ?n then Inl (BTClibEccRuntimeError ''signature verification failed'') else Inr ()"]
    by (cases "R = Inf") simp_all
  finally show ?thesis using False ecdsa_valid_iff [OF Q(1) i(3) R_def] by (simp add: caught_false_def is_caught_def)
qed

lemmas assert_as_valid_raw_iff = assert_as_valid_raw_verdict [THEN caught_false_iff]

section \<open>Signing\<close>

lemma nonce_point:
  assumes "curve_valid ec" "0 < k" "k < cv_n ec" "0 \<le> rnd" "rnd < ec_p ec - 1"
  shows "mult rnd k None ec = Inr (px (ec_times ec k (gen ec)), py (ec_times ec k (gen ec)))"
  using mult_generator(2) [OF assms(1,4,5)] by (simp add: aff_of_px_py)

text \<open>
  What a signature made with the nonce \<open>k\<close> is: the point of the nonce, or its opposite when \<open>s\<close> was made
  low, satisfies the verification equation, and the identifier tells its coordinates.
\<close>

definition signed_with :: "curve \<Rightarrow> int \<Rightarrow> int \<Rightarrow> point \<Rightarrow> int \<Rightarrow> int \<Rightarrow> int \<Rightarrow> bool" where
  "signed_with ec c q R r s key_id \<longleftrightarrow>
     member ec R \<and> R \<noteq> Inf \<and> px R mod cv_n ec = r \<and> 0 < r \<and> 0 < s \<and> s < cv_n ec
   \<and> ec_times ec s R = ec_times ec (c + r * q) (gen ec)
   \<and> 0 \<le> key_id \<and> key_id div 2 = px R div cv_n ec \<and> key_id mod 2 = py R mod 2"

lemma signed_equation:
  assumes "curve_valid ec" "\<not> cv_n ec dvd k" "s = inv_mod k (cv_n ec) * (c + r * q) mod cv_n ec"
  shows "cv_n ec dvd (s * k - (c + r * q))"
proof -
  let ?n = "cv_n ec" and ?i = "inv_mod k (cv_n ec)"
  have "?n dvd (k * ?i - 1)" using inv_n(3) [OF assms(1,2)] .
  then have "?n dvd (k * ?i - 1) * (c + r * q)" by (rule dvd_mult2)
  moreover have "?n dvd (s - ?i * (c + r * q))" unfolding assms(3) by (rule mod_dvd_iff [OF curve_n(2) [OF assms(1)]])
  then have "?n dvd (s - ?i * (c + r * q)) * k" by (rule dvd_mult2)
  ultimately have "?n dvd ((s - ?i * (c + r * q)) * k + (k * ?i - 1) * (c + r * q))" by (rule dvd_add [rotated])
  then show ?thesis by (simp add: algebra_simps)
qed

lemma flip_key_id:
  assumes "0 \<le> key_id"
  shows "0 \<le> (if even key_id then key_id + 1 else key_id - 1)"
    "(if even key_id then key_id + 1 else key_id - 1) div 2 = key_id div (2 :: int)"
    "(if even key_id then key_id + 1 else key_id - 1) mod 2 = 1 - key_id mod 2"
  using assms by (auto elim!: evenE oddE)

lemma sign_recoverable_raw_signed:
  assumes v: "curve_valid ec" and k: "0 < k" "k < cv_n ec" and r: "0 \<le> rnd 0" "rnd 0 < ec_p ec - 1"
    and S: "sign_recoverable_raw rnd c q k lower_s ec = Inr (sg, key_id)"
  shows "\<exists>R. signed_with ec c q R (ds_r sg) (ds_s sg) key_id
      \<and> (R = ec_times ec k (gen ec) \<or> lower_s \<and> R = ec_minus ec (ec_times ec k (gen ec)))"
    and "ds_ec sg = ec" "ds_r sg < cv_n ec" "lower_s \<longrightarrow> ds_s sg \<le> cv_n ec div 2"
proof -
  let ?n = "cv_n ec" and ?K = "ec_times ec k (gen ec)"
  note G = member_generator [OF v] and n = curve_n [OF v]
  have K: "member ec ?K" "?K \<noteq> Inf" using member_closed(3) [OF G] gen_times_finite [OF v k] by blast+
  note i = inv_n [OF v unit_not_dvd [OF k]]
  define s0 where "s0 = inv_mod k ?n * (c + px ?K mod ?n * q) mod ?n"
  define id0 where "id0 = 2 * (px ?K div ?n) + py ?K mod 2"
  note c = member_coords [OF K]
  have id0: "0 \<le> id0" "id0 div 2 = px ?K div ?n" "id0 mod 2 = py ?K mod 2"
    using c(2) n(2) by (simp_all add: id0_def pos_imp_zdiv_nonneg_iff)
  have nz: "px ?K mod ?n \<noteq> 0" "s0 \<noteq> 0"
    and out: "(sg, key_id) = (if lower_s \<and> ?n div 2 < s0
      then (\<lparr>ds_r = px ?K mod ?n, ds_s = ?n - s0, ds_ec = ec\<rparr>, if even id0 then id0 + 1 else id0 - 1)
      else (\<lparr>ds_r = px ?K mod ?n, ds_s = s0, ds_ec = ec\<rparr>, id0))"
    using S unfolding sign_recoverable_raw_def nonce_point [OF v k r] i(2) rbind_simps Let_def s0_def id0_def fst_conv snd_conv
    by (auto split: if_split_asm)
  have s0: "0 < s0" "s0 < ?n" using mod_nonzero_range [OF n(2) nz(2) [unfolded s0_def]] by (simp_all add: s0_def)
  have r0: "0 < px ?K mod ?n" "px ?K mod ?n < ?n" using mod_nonzero_range [OF n(2) nz(1)] by simp_all
  have eq: "ec_times ec s0 ?K = ec_times ec (c + px ?K mod ?n * q) (gen ec)"
    unfolding times_times [OF G] by (rule times_cong [OF G signed_equation [OF v unit_not_dvd [OF k] s0_def]])
  show "\<exists>R. signed_with ec c q R (ds_r sg) (ds_s sg) key_id
      \<and> (R = ?K \<or> lower_s \<and> R = ec_minus ec ?K)"
  proof (cases "lower_s \<and> ?n div 2 < s0")
    case True
    define R where "R = ec_minus ec ?K"
    have R: "member ec R" "px R = px ?K" "R \<noteq> Inf" "even (py R) \<longleftrightarrow> odd (py ?K)"
      unfolding R_def using member_closed(2) [OF K(1)] minus_coords(2,4) [OF K] parity_minus [OF K] by blast+
    have eqR: "ec_times ec (?n - s0) R = ec_times ec (c + px ?K mod ?n * q) (gen ec)"
      unfolding R_def times_minus [OF K(1)] eq [symmetric] by (rule times_cong [OF K(1)]) simp
    have o: "ds_r sg = px ?K mod ?n" "ds_s sg = ?n - s0" "key_id = (if even id0 then id0 + 1 else id0 - 1)"
      using out unfolding if_P [OF True] by simp_all
    have pR: "1 - py ?K mod 2 = py R mod 2"
      using R(4) by (auto simp: even_iff_mod_2_eq_zero odd_iff_mod_2_eq_one)
    have s1: "0 < ?n - s0" "?n - s0 < ?n" using s0 by simp_all
    note f = flip_key_id [OF id0(1)]
    have "signed_with ec c q R (ds_r sg) (ds_s sg) key_id"
      unfolding signed_with_def o R(2) f(2,3) id0(2,3) pR using R(1,3) r0(1) s1 eqR f(1) by blast
    then have "\<exists>R. signed_with ec c q R (ds_r sg) (ds_s sg) key_id \<and> R = ec_minus ec ?K" unfolding R_def by blast
    then show ?thesis using True by blast
  next
    case False
    have "sg = \<lparr>ds_r = px ?K mod ?n, ds_s = s0, ds_ec = ec\<rparr>" "key_id = id0"
      using out unfolding if_not_P [OF False] by simp_all
    then have "signed_with ec c q ?K (ds_r sg) (ds_s sg) key_id"
      using eq s0 r0 id0 K by (simp add: signed_with_def)
    then show ?thesis by blast
  qed
  show "ds_ec sg = ec" "ds_r sg < ?n" "lower_s \<longrightarrow> ds_s sg \<le> ?n div 2"
    using out r0 by (auto split: if_split_asm)
qed

lemma signed_with_valid:
  assumes v: "curve_valid ec" and s: "signed_with ec c q R r s key_id"
  shows "ecdsa_valid ec (ec_times ec q (gen ec)) c r s"
proof -
  note G = member_generator [OF v]
  have "ec_plus ec (ec_times ec c (gen ec)) (ec_times ec r (ec_times ec q (gen ec))) = ec_times ec (c + r * q) (gen ec)"
    by (simp add: point_arith G)
  then show ?thesis using s unfolding ecdsa_valid_def signed_with_def by metis
qed

section \<open>Recovery\<close>

lemma recovered_equation:
  assumes v: "curve_valid ec" and R: "member ec R" and e: "ec_times ec s R = ec_times ec (c + r * q) (gen ec)"
    and i: "cv_n ec dvd (r * i - 1)"
  shows "ec_plus ec (ec_times ec (i * s mod cv_n ec) R) (ec_times ec (- i * c mod cv_n ec) (gen ec)) = ec_times ec q (gen ec)"
proof -
  note G = member_generator [OF v]
  have "ec_times ec (i * s) R = ec_times ec (i * (c + r * q)) (gen ec)"
    using e times_times [OF R, of i s] times_times [OF G, of i "c + r * q"] by simp
  then have "ec_plus ec (ec_times ec (i * s mod cv_n ec) R) (ec_times ec (- i * c mod cv_n ec) (gen ec))
      = ec_times ec (i * (c + r * q) + - i * c) (gen ec)"
    unfolding times_mod [OF R] times_mod [OF G] by (simp only: times_add [OF G])
  also have "\<dots> = ec_times ec q (gen ec)"
  proof (rule times_cong [OF G])
    have "i * (c + r * q) + - i * c - q = (r * i - 1) * q" by (simp add: algebra_simps)
    then show "cv_n ec dvd (i * (c + r * q) + - i * c - q)" using i by simp
  qed
  finally show ?thesis .
qed

lemma recover_pub_key_raw_signed:
  assumes v: "curve_valid ec" and e: "endo_law ec" and h: "cv_cofactor ec = 1" and p: "ec_p ec mod 4 = 3"
    and S: "signed_with ec c q R r s key_id" and Q: "ec_times ec q (gen ec) \<noteq> Inf"
  shows "returns (recover_pub_key_raw key_id c r s ec False) (\<lambda>QJ. jrep ec QJ (ec_times ec q (gen ec)))"
proof -
  let ?n = "cv_n ec" and ?p = "ec_p ec" and ?Q = "ec_times ec q (gen ec)"
  note G = member_generator [OF v] and ok = memberD(3) [OF member_generator [OF v]]
  have R: "member ec R" "R \<noteq> Inf" "px R mod ?n = r" "0 < r" "ec_times ec s R = ec_times ec (c + r * q) (gen ec)"
    "key_id div 2 = px R div ?n" "key_id mod 2 = py R mod 2"
    using S by (simp_all add: signed_with_def)
  note c = member_coords [OF R(1,2)]
  have x: "r + key_id div 2 * ?n = px R" unfolding R(3) [symmetric] R(6) by simp
  have rn: "\<not> ?n dvd r" using R(3,4) unit_not_dvd [of r ?n] pos_mod_bound [OF curve_n(2) [OF v], of "px R"] by simp
  note i = inv_n [OF v rn]
  define E where "E = (if even (py R) then py R else ?p - py R)"
  have ye: "y_even_var ec (px R) = Inr E" unfolding E_def by (rule y_even_of_px [OF R(1,2) p])
  have y: "(if key_id mod 2 = 1 then ?p - E else E) = py R"
    unfolding R(7) E_def using odd_iff_mod_2_eq_one [of "py R"] by (cases "even (py R)") simp_all
  have KJ: "jrep ec (px R, py R, 1) R"
    using jrep_of_pair [OF ok, of "(px R, py R)" R] in_order_arep [OF memberD(2) [OF R(1)]] R(2)
    unfolding aff_of_px_py by simp
  have nn: "0 \<le> inv_mod r ?n * s mod ?n" "0 \<le> - inv_mod r ?n * c mod ?n" using curve_n(2) [OF v] by simp_all
  obtain QJ where J: "jac_double_mult_var (inv_mod r ?n * s mod ?n) (px R, py R, 1) (- inv_mod r ?n * c mod ?n)
      (cv_GJ ec) ec (ec_fixed_points ec) = Inr QJ" "jrep ec QJ ?Q"
    using double_mult_python_correct [OF R(1) KJ endo_lawD [OF e R(1)] G generator_jrep [OF v] endo_lawD [OF e G] nn]
    unfolding recovered_equation [OF v R(1,5) i(3)] jac_double_mult_var_def returns_def by blast
  have Z: "snd (snd QJ) \<noteq> 0" using jrep_Inf_iff [OF J(2)] Q by simp
  have "recover_pub_key_raw key_id c r s ec False = Inr QJ"
    unfolding recover_pub_key_raw_def Let_def h x i(1) rbind_simps
    using c(2,3) Z J(1) by (simp add: ye y)
  then show ?thesis using J(2) by simp
qed

end
