(* ===== verification/Dsa_Der.thy ===== *)
theory Dsa_Der
  imports Dsa
begin

text \<open>
  The DER encoding of an ECDSA signature: the strict parser accepts exactly the octets that the
  serializer writes for a body within its limit, and returns the signature they are of. So parsing
  inverts serializing, and a signature has one accepted encoding.
\<close>

section \<open>Lengths and values\<close>

lemma der_length_short: "0 \<le> n \<Longrightarrow> n < 128 \<Longrightarrow> der_length n = Inr [word_of_int n]"
  by (simp add: der_length_def int_to_bytes_def)

lemma uint_of_length: "n < 128 \<Longrightarrow> uint (word_of_int (int n) :: 8 word) = int n"
  by (simp only: uint_word_of_int) simp

lemma uint_eq_length_iff: "n < 128 \<Longrightarrow> uint (w :: 8 word) = int n \<longleftrightarrow> w = word_of_int (int n)"
  using uint_of_length [of n] by (metis word_of_int_uint)

lemma wide_size_prefix_small: "k < 128 \<Longrightarrow> wide_size_prefix k = None"
  by (simp add: wide_size_prefix_def)

lemma parse_der_size_strict_iff:
  "parse_der_size stream True = Inr (sz, rest) \<longleftrightarrow> (\<exists>w. stream = w # rest \<and> sz = uint w \<and> sz < 128)"
proof (cases stream)
  case (Cons w tl)
  show ?thesis
  proof (cases "uint w < 128")
    case True
    then show ?thesis using Cons by (auto simp: parse_der_size_def Let_def wide_size_prefix_small MAX_SIZE_def)
  next
    case False
    then show ?thesis using Cons by (auto simp: parse_der_size_def)
  qed
qed (simp add: parse_der_size_def)

lemma take_full_iff:
  "length (take k xs) = k \<and> v = take k xs \<and> rest = drop k xs \<longleftrightarrow> xs = v @ rest \<and> length v = k"
proof
  assume "length (take k xs) = k \<and> v = take k xs \<and> rest = drop k xs"
  then show "xs = v @ rest \<and> length v = k" by (metis append_take_drop_id)
qed auto

definition der_value_of :: "int \<Rightarrow> octets \<Rightarrow> (octets \<times> octets) result" where
  "der_value_of sz stream =
     (if sz = 0 then Inl (BTClibEccValueError ''invalid DER length: zero size'')
      else if length (take (nat sz) stream) \<noteq> nat sz
      then Inl (BTClibEccValueError ''invalid DER length: not enough binary data'')
      else Inr (take (nat sz) stream, drop (nat sz) stream))"

lemma der_value_of_iff:
  "0 \<le> sz \<Longrightarrow> der_value_of sz s = Inr (v, rest) \<longleftrightarrow> s = v @ rest \<and> int (length v) = sz \<and> 0 < length v"
  using take_full_iff [of "nat sz" s v rest] by (auto simp: der_value_of_def)

lemma parse_der_value_strict_iff:
  "parse_der_value stream True = Inr (v, rest) \<longleftrightarrow>
     (\<exists>w. stream = w # v @ rest \<and> uint w = int (length v) \<and> 0 < length v \<and> length v < 128)"
proof -
  have e: "parse_der_value stream True = rbind (parse_der_size stream True) (\<lambda>(sz, s). der_value_of sz s)"
    by (simp add: parse_der_value_def der_value_of_def)
  have "parse_der_value stream True = Inr (v, rest) \<longleftrightarrow>
      (\<exists>sz s. parse_der_size stream True = Inr (sz, s) \<and> der_value_of sz s = Inr (v, rest))"
    unfolding e rbind_eq_Inr_iff split_paired_Ex prod.case ..
  also have "\<dots> \<longleftrightarrow> (\<exists>w s. stream = w # s \<and> uint w < 128 \<and> der_value_of (uint w) s = Inr (v, rest))"
    unfolding parse_der_size_strict_iff by blast
  also have "\<dots> \<longleftrightarrow> (\<exists>w s. stream = w # s \<and> uint w < 128 \<and> s = v @ rest \<and> int (length v) = uint w \<and> 0 < length v)"
    unfolding der_value_of_iff [OF uint_octet(1)] ..
  finally show ?thesis by auto
qed

section \<open>Minimal scalars\<close>

lemma int_from_bytes_Cons: "int_from_bytes (b # bs) = 256 ^ length bs * uint b + int_from_bytes bs"
  using int_from_bytes_append [of "[b]" bs] int_from_bytes_snoc [of "[]" b] by simp

lemma top_bit_clear_iff: "int_from_bytes (b # bs) < 2 ^ (8 * length bs + 7) \<longleftrightarrow> uint b < 128"
proof -
  note r = int_from_bytes_bounds [of bs]
  have p: "(2 :: int) ^ (8 * length bs + 7) = 256 ^ length bs * 128"
    by (simp add: power_256 power_add mult.commute)
  show ?thesis
  proof
    assume "uint b < 128"
    then have "256 ^ length bs * (uint b + 1) \<le> 256 ^ length bs * (128 :: int)" by (intro mult_left_mono) simp_all
    then have "256 ^ length bs * uint b + 256 ^ length bs \<le> 256 ^ length bs * (128 :: int)" by (simp add: distrib_left)
    then show "int_from_bytes (b # bs) < 2 ^ (8 * length bs + 7)"
      using r unfolding int_from_bytes_Cons p by linarith
  next
    assume l: "int_from_bytes (b # bs) < 2 ^ (8 * length bs + 7)"
    have "256 ^ length bs * uint b < 256 ^ length bs * 128" using l r unfolding int_from_bytes_Cons p by linarith
    then show "uint b < 128" by simp
  qed
qed

lemma bit_length_le_iff: "0 \<le> m \<Longrightarrow> bit_length m \<le> k \<longleftrightarrow> m < 2 ^ k"
proof
  assume m: "0 \<le> m" and "bit_length m \<le> k"
  then have "(2 :: int) ^ bit_length m \<le> 2 ^ k" by (intro power_increasing) simp_all
  then show "m < 2 ^ k" using bit_length_upper [OF m] by linarith
qed (rule bit_length_least)

definition minimal_scalar :: "octets \<Rightarrow> bool" where
  "minimal_scalar vs \<longleftrightarrow>
     \<not> (1 < length vs \<and> vs ! 0 = 0 \<and> uint (vs ! 1) < 0x80) \<and> \<not> 0x80 \<le> uint (vs ! 0)"

lemma minimal_scalar_iff:
  assumes "vs \<noteq> []"
  shows "minimal_scalar vs \<longleftrightarrow> length vs = bit_length (int_from_bytes vs) div 8 + 1"
proof -
  obtain b bs where vs: "vs = b # bs" using assms by (cases vs) auto
  let ?x = "int_from_bytes vs"
  have x: "0 \<le> ?x" using int_from_bytes_bounds [of vs] by simp
  have top: "uint b < 128 \<longleftrightarrow> bit_length ?x \<le> 8 * length bs + 7"
    using top_bit_clear_iff [of b bs] bit_length_le_iff [OF x, of "8 * length bs + 7"] by (simp add: vs)
  have pad: "(1 < length vs \<and> vs ! 0 = 0 \<and> uint (vs ! 1) < 0x80) \<longleftrightarrow> 0 < length bs \<and> bit_length ?x < 8 * length bs"
  proof (cases bs)
    case Nil
    then show ?thesis by (simp add: vs)
  next
    case (Cons c cs)
    have "b = 0 \<and> uint c < 128 \<longleftrightarrow> ?x < 2 ^ (8 * length cs + 7)"
    proof (cases "b = 0")
      case True
      then have "?x = int_from_bytes (c # cs)" unfolding vs Cons int_from_bytes_Cons [of b "c # cs"] by simp
      then show ?thesis using True top_bit_clear_iff [of c cs] by simp
    next
      case False
      then have "1 \<le> uint b" using uint_octet(1) [of b] by (metis int_one_le_iff_zero_less order_le_less uint_0_iff)
      then have "256 ^ length bs * 1 \<le> 256 ^ length bs * uint b" by (intro mult_left_mono) simp_all
      then have "256 ^ length bs \<le> ?x" using int_from_bytes_bounds [of bs] unfolding vs int_from_bytes_Cons by linarith
      moreover have "(2 :: int) ^ (8 * length cs + 7) \<le> 256 ^ length bs"
        unfolding power_256 by (rule power_increasing) (simp_all add: Cons)
      ultimately show ?thesis using False by simp
    qed
    then show ?thesis using bit_length_le_iff [OF x, of "8 * length cs + 7"] by (auto simp: vs Cons)
  qed
  have "minimal_scalar vs \<longleftrightarrow> (0 < length bs \<longrightarrow> 8 * length bs \<le> bit_length ?x) \<and> bit_length ?x \<le> 8 * length bs + 7"
    unfolding minimal_scalar_def pad using top by (auto simp: vs)
  also have "\<dots> \<longleftrightarrow> length vs = bit_length ?x div 8 + 1" by (auto simp: vs)
  finally show ?thesis .
qed

text \<open>The octets of a scalar: the marker, the size in one octet, the minimal value.\<close>

definition der_scalar :: "int \<Rightarrow> octets \<Rightarrow> bool" where
  "der_scalar x vs \<longleftrightarrow> vs \<noteq> [] \<and> int_from_bytes vs = x \<and> minimal_scalar vs"

lemma der_scalar_iff: "der_scalar x vs \<longleftrightarrow> int_from_bytes vs = x \<and> length vs = bit_length x div 8 + 1"
  unfolding der_scalar_def using minimal_scalar_iff [of vs] by (cases "vs = []") auto

lemma serialize_scalar_Inr_iff:
  assumes "bit_length x div 8 + 1 < 128"
  shows "serialize_scalar x = Inr bs \<longleftrightarrow> (\<exists>vs. bs = 2 # word_of_int (int (length vs)) # vs \<and> der_scalar x vs)"
proof -
  let ?m = "bit_length x div 8 + 1"
  have l: "der_length (int (length vs)) = Inr [word_of_int (int (length vs))]" if "length vs = ?m" for vs :: octets
    by (rule der_length_short) (use that assms in simp_all)
  have "serialize_scalar x = Inr bs \<longleftrightarrow>
      (\<exists>vs. int_to_bytes x ?m = Inr vs \<and> rbind (der_length (int (length vs))) (\<lambda>l. Inr ([2] @ l @ vs)) = Inr bs)"
    unfolding serialize_scalar_def Let_def rbind_eq_Inr_iff [of "int_to_bytes x ?m"] ..
  also have "\<dots> \<longleftrightarrow> (\<exists>vs. der_scalar x vs \<and> rbind (der_length (int (length vs))) (\<lambda>l. Inr ([2] @ l @ vs)) = Inr bs)"
    unfolding int_to_bytes_Inr_iff der_scalar_iff by blast
  also have "\<dots> \<longleftrightarrow> (\<exists>vs. der_scalar x vs \<and> [2] @ [word_of_int (int (length vs))] @ vs = bs)"
  proof (intro ex_cong1 conj_cong refl)
    fix vs assume "der_scalar x vs"
    then have d: "der_length (int (length vs)) = Inr [word_of_int (int (length vs))]" by (intro l) (simp add: der_scalar_iff)
    show "(rbind (der_length (int (length vs))) (\<lambda>l. Inr ([2] @ l @ vs)) = Inr bs) = ([2] @ [word_of_int (int (length vs))] @ vs = bs)"
      unfolding d by (simp only: rbind_simps sum.inject)
  qed
  finally show ?thesis by auto
qed

lemma deserialize_scalar_strict_iff:
  "deserialize_scalar stream True = Inr (x, rest) \<longleftrightarrow>
     (\<exists>vs. stream = 2 # word_of_int (int (length vs)) # vs @ rest \<and> length vs < 128 \<and> der_scalar x vs)"
proof -
  note w = uint_eq_length_iff
  define F where "F = (\<lambda>(v, s). if True \<and> 1 < length v \<and> v ! 0 = 0 \<and> uint (v ! 1) < 0x80
        then Inl (BTClibEccValueError ''invalid highest bit set padding'')
        else if True \<and> 0x80 \<le> uint (v ! 0) then Inl (BTClibEccValueError ''invalid negative scalar'')
        else Inr (int_from_bytes v, s :: octets))"
  have F: "F (v, s) = Inr (x, rest) \<longleftrightarrow> minimal_scalar v \<and> int_from_bytes v = x \<and> s = rest" for v s
    by (simp add: F_def minimal_scalar_def)
  have "deserialize_scalar stream True = Inr (x, rest) \<longleftrightarrow>
      take 1 stream = [2] \<and> (\<exists>v s. parse_der_value (drop 1 stream) True = Inr (v, s) \<and> F (v, s) = Inr (x, rest))"
    unfolding deserialize_scalar_def F_def [symmetric]
    by (cases "take 1 stream = [2]") (simp_all only: if_True if_False simp_thms rbind_eq_Inr_iff split_paired_Ex sum.distinct)
  also have "\<dots> \<longleftrightarrow> take 1 stream = [2] \<and> (\<exists>v. parse_der_value (drop 1 stream) True = Inr (v, rest) \<and> minimal_scalar v \<and> int_from_bytes v = x)"
    unfolding F by blast
  also have "\<dots> \<longleftrightarrow> take 1 stream = [2] \<and> (\<exists>v w. drop 1 stream = w # v @ rest \<and> uint w = int (length v) \<and> length v < 128 \<and> der_scalar x v)"
    unfolding parse_der_value_strict_iff der_scalar_def by blast
  also have "\<dots> \<longleftrightarrow> (\<exists>v. stream = 2 # word_of_int (int (length v)) # v @ rest \<and> length v < 128 \<and> der_scalar x v)"
  proof (cases stream)
    case (Cons b tl)
    show ?thesis unfolding Cons using w by (simp, blast)
  qed simp
  finally show ?thesis .
qed

lemma deserialize_serialize_iff:
  "deserialize_scalar stream True = Inr (x, rest) \<longleftrightarrow>
     (\<exists>bs. serialize_scalar x = Inr bs \<and> stream = bs @ rest \<and> bit_length x div 8 + 1 < 128)"
proof (cases "bit_length x div 8 + 1 < 128")
  case True
  then have "length vs < 128" if "der_scalar x vs" for vs using that by (simp add: der_scalar_iff)
  then show ?thesis unfolding deserialize_scalar_strict_iff serialize_scalar_Inr_iff [OF True] using True by fastforce
next
  case False
  then have "\<not> length vs < 128" if "der_scalar x vs" for vs using that by (simp add: der_scalar_iff)
  then show ?thesis using False unfolding deserialize_scalar_strict_iff by blast
qed

section \<open>The signature\<close>

definition der_body :: "int \<Rightarrow> int \<Rightarrow> octets \<Rightarrow> bool" where
  "der_body r s body \<longleftrightarrow> (\<exists>rs ss. serialize_scalar r = Inr rs \<and> serialize_scalar s = Inr ss \<and> body = rs @ ss)"

lemma dsa_serialize_Inr_iff:
  "dsa_serialize sg cv = Inr bs \<longleftrightarrow> (cv \<longrightarrow> dsa_assert_valid sg = Inr ())
    \<and> (\<exists>body l. der_body (ds_r sg) (ds_s sg) body \<and> der_length (int (length body)) = Inr l \<and> bs = 0x30 # l @ body)"
proof -
  have "(if cv then dsa_assert_valid sg else Inr ()) = Inr u \<longleftrightarrow> (cv \<longrightarrow> dsa_assert_valid sg = Inr ())" for u
    by (cases cv) simp_all
  then show ?thesis unfolding dsa_serialize_def der_body_def rbind_eq_Inr_iff by auto
qed

lemma serialize_scalar_size: "serialize_scalar x = Inr bs \<Longrightarrow> bit_length x div 8 + 1 < length bs"
  by (auto simp: serialize_scalar_def Let_def rbind_eq_Inr_iff int_to_bytes_Inr_iff)

lemma serialize_scalar_nonneg: "serialize_scalar x = Inr bs \<Longrightarrow> 0 \<le> x"
  using int_from_bytes_bounds by (auto simp: serialize_scalar_def Let_def rbind_eq_Inr_iff int_to_bytes_Inr_iff)

text \<open>
  Strict parsing accepts the serialized form of the signature it returns, with a body within
  \<^verbatim>\<open>_MAX_SIG_DATA_SIZE\<close>, and nothing else.
\<close>

lemma der_body_length: "der_body r s body \<Longrightarrow> 0 < length body"
  using serialize_scalar_size by (fastforce simp: der_body_def)

definition der_scalars :: "octets \<Rightarrow> octets \<Rightarrow> curve \<Rightarrow> bool \<Rightarrow> dsa_sig result" where
  "der_scalars body stream ec cv =
     (if True \<and> MAX_SIG_DATA_SIZE < length body
      then Inl (BTClibEccValueError ''invalid DER sequence length: octets of r,s data'')
      else rbind (deserialize_scalar body True) (\<lambda>(r, sub).
        rbind (deserialize_scalar sub True) (\<lambda>(s, sub).
        if take 1 sub \<noteq> [] then Inl (BTClibEccValueError ''invalid DER sequence length'')
        else if True \<and> take 1 stream \<noteq> [] then Inl (BTClibEccValueError ''trailing bytes after the DER sequence'')
        else
          let sg = \<lparr>ds_r = r, ds_s = s, ds_ec = ec\<rparr> in
          rbind (if cv then dsa_assert_valid sg else Inr ()) (\<lambda>_. Inr sg))))"

lemma der_scalars_iff:
  "der_scalars body stream ec cv = Inr sg \<longleftrightarrow>
     length body \<le> 70 \<and> der_body (ds_r sg) (ds_s sg) body \<and> stream = [] \<and> ds_ec sg = ec
   \<and> (cv \<longrightarrow> dsa_assert_valid sg = Inr ())"
proof (cases "length body \<le> 70")
  case True
  define V where "V = (\<lambda>sg. rbind (if cv then dsa_assert_valid sg else Inr ()) (\<lambda>_. Inr sg))"
  have Vx: "V x = rbind (if cv then dsa_assert_valid x else Inr ()) (\<lambda>_. Inr x)" for x by (simp add: V_def)
  have V: "V x = Inr sg \<longleftrightarrow> x = sg \<and> (cv \<longrightarrow> dsa_assert_valid sg = Inr ())" for x
    by (cases cv) (auto simp: V_def rbind_eq_Inr_iff)
  define F where "F = (\<lambda>r. \<lambda>(s, sub :: octets). if take 1 sub \<noteq> [] then Inl (BTClibEccValueError ''invalid DER sequence length'')
        else if True \<and> take 1 stream \<noteq> [] then Inl (BTClibEccValueError ''trailing bytes after the DER sequence'')
        else V \<lparr>ds_r = r, ds_s = s, ds_ec = ec\<rparr>)"
  have Fr: "F r = (\<lambda>(s, sub :: octets). if take 1 sub \<noteq> [] then Inl (BTClibEccValueError ''invalid DER sequence length'')
        else if True \<and> take 1 stream \<noteq> [] then Inl (BTClibEccValueError ''trailing bytes after the DER sequence'')
        else V \<lparr>ds_r = r, ds_s = s, ds_ec = ec\<rparr>)" for r by (simp add: F_def)
  have F: "F r (s, sub) = Inr sg \<longleftrightarrow> sub = [] \<and> stream = [] \<and> sg = \<lparr>ds_r = r, ds_s = s, ds_ec = ec\<rparr>
      \<and> (cv \<longrightarrow> dsa_assert_valid sg = Inr ())" for r s sub
    using V [of "\<lparr>ds_r = r, ds_s = s, ds_ec = ec\<rparr>"] by (auto simp: F_def)
  have "der_scalars body stream ec cv = Inr sg \<longleftrightarrow>
      (\<exists>r sub. deserialize_scalar body True = Inr (r, sub) \<and> (\<exists>s sub'. deserialize_scalar sub True = Inr (s, sub') \<and> F r (s, sub') = Inr sg))"
    unfolding der_scalars_def Let_def Vx [symmetric] Fr [symmetric] using True
    by (simp only: MAX_SIG_DATA_SIZE_def rbind_eq_Inr_iff split_paired_Ex prod.case not_less [symmetric] simp_thms if_False)
  also have "\<dots> \<longleftrightarrow> (\<exists>r s sub. deserialize_scalar body True = Inr (r, sub) \<and> deserialize_scalar sub True = Inr (s, [])
      \<and> stream = [] \<and> sg = \<lparr>ds_r = r, ds_s = s, ds_ec = ec\<rparr> \<and> (cv \<longrightarrow> dsa_assert_valid sg = Inr ()))"
    unfolding F by blast
  also have "\<dots> \<longleftrightarrow> (\<exists>r s. der_body r s body \<and> stream = [] \<and> sg = \<lparr>ds_r = r, ds_s = s, ds_ec = ec\<rparr>
      \<and> (cv \<longrightarrow> dsa_assert_valid sg = Inr ()))"
  proof (intro ex_cong1)
    fix r s
    have size: "bit_length r div 8 + 1 < 128 \<and> bit_length s div 8 + 1 < 128"
      if "serialize_scalar r = Inr rs" "serialize_scalar s = Inr ss" "body = rs @ ss" for rs ss
      using that True serialize_scalar_size [OF that(1)] serialize_scalar_size [OF that(2)] by simp
    then have "(\<exists>sub. deserialize_scalar body True = Inr (r, sub) \<and> deserialize_scalar sub True = Inr (s, [])) \<longleftrightarrow> der_body r s body"
      unfolding deserialize_serialize_iff der_body_def by (metis append_Nil2)
    then show "(\<exists>sub. deserialize_scalar body True = Inr (r, sub) \<and> deserialize_scalar sub True = Inr (s, [])
      \<and> stream = [] \<and> sg = \<lparr>ds_r = r, ds_s = s, ds_ec = ec\<rparr> \<and> (cv \<longrightarrow> dsa_assert_valid sg = Inr ()))
      \<longleftrightarrow> der_body r s body \<and> stream = [] \<and> sg = \<lparr>ds_r = r, ds_s = s, ds_ec = ec\<rparr> \<and> (cv \<longrightarrow> dsa_assert_valid sg = Inr ())"
      by blast
  qed
  finally show ?thesis using True by (cases sg) auto
qed (simp add: der_scalars_def MAX_SIG_DATA_SIZE_def)

lemma dsa_parse_strict_iff:
  "dsa_parse data ec cv True = Inr sg \<longleftrightarrow> ds_ec sg = ec \<and> dsa_serialize sg cv = Inr data \<and> length data \<le> 72"
proof -
  have "dsa_parse data ec cv True = Inr sg \<longleftrightarrow> take 1 data = [0x30]
      \<and> (\<exists>body stream. parse_der_value (drop 1 data) True = Inr (body, stream) \<and> der_scalars body stream ec cv = Inr sg)"
    unfolding dsa_parse_def der_scalars_def [symmetric]
    by (cases "take 1 data = [0x30]") (simp_all only: if_True if_False simp_thms rbind_eq_Inr_iff split_paired_Ex sum.distinct prod.case)
  also have "\<dots> \<longleftrightarrow> (\<exists>w body. data = 0x30 # w # body \<and> uint w = int (length body) \<and> 0 < length body \<and> length body \<le> 70
      \<and> der_body (ds_r sg) (ds_s sg) body) \<and> ds_ec sg = ec \<and> (cv \<longrightarrow> dsa_assert_valid sg = Inr ())"
    unfolding parse_der_value_strict_iff der_scalars_iff by (cases data) auto
  also have "\<dots> \<longleftrightarrow> ds_ec sg = ec \<and> dsa_serialize sg cv = Inr data \<and> length data \<le> 72"
  proof -
    have w: "(uint w = int (length body) \<and> 0 < length body \<and> length body \<le> 70) \<longleftrightarrow>
        (0 < length body \<and> length body \<le> 70 \<and> der_length (int (length body)) = Inr [w])" for w :: "8 word" and body :: octets
    proof (cases "length body < 128")
      case True
      have d: "der_length (int (length body)) = Inr [word_of_int (int (length body))]"
        by (rule der_length_short) (use True in simp_all)
      show ?thesis unfolding d uint_eq_length_iff [OF True] by blast
    qed auto
    have l: "(\<exists>l. der_length (int (length body)) = Inr l \<and> data = 0x30 # l @ body) \<and> length data \<le> 72 \<longleftrightarrow>
        (\<exists>w. data = 0x30 # w # body \<and> length body \<le> 70 \<and> der_length (int (length body)) = Inr [w])" for body :: octets
    proof (cases "length body < 128")
      case True
      then show ?thesis using der_length_short [of "int (length body)"] by auto
    qed auto
    have "(\<exists>w. data = 0x30 # w # body \<and> uint w = int (length body) \<and> 0 < length body \<and> length body \<le> 70 \<and> der_body (ds_r sg) (ds_s sg) body)
        \<longleftrightarrow> der_body (ds_r sg) (ds_s sg) body \<and> (\<exists>l. der_length (int (length body)) = Inr l \<and> data = 0x30 # l @ body) \<and> length data \<le> 72" for body
      unfolding l using w [of _ body] der_body_length [of "ds_r sg" "ds_s sg" body] by blast
    then show ?thesis unfolding dsa_serialize_Inr_iff by blast
  qed
  finally show ?thesis .
qed

end
