(* ===== verification/Dsa_Message.thy ===== *)
theory Dsa_Message
  imports Dsa_Correct Dsa_Der
begin

text \<open>
  ECDSA on messages: what a call that signs returns, whichever way its nonce is chosen, and that the
  verifier and the check of the signer itself accept it; that a nonce used twice gives the private key
  away; that a wiped signer refuses.
\<close>

section \<open>The nonces\<close>

lemma raw_nonce_signed:
  assumes v: "curve_valid ec" and k: "0 < k" "k < cv_n ec" and r: "0 \<le> rnd 0" "rnd 0 < ec_p ec - 1"
    and S: "sign_raw rnd c q k lower_s ec = Inr sg"
  shows "\<exists>R key_id. signed_with ec c q R (ds_r sg) (ds_s sg) key_id \<and> px R = px (ec_times ec k (gen ec)) \<and> ds_ec sg = ec"
proof -
  obtain key_id where K: "sign_recoverable_raw rnd c q k lower_s ec = Inr (sg, key_id)"
    using S by (auto simp: sign_raw_def rbind_eq_Inr_iff)
  have m: "member ec (ec_times ec k (gen ec))" "ec_times ec k (gen ec) \<noteq> Inf"
    using member_closed(3) [OF member_generator [OF v]] gen_times_finite [OF v k] by blast+
  note s = sign_recoverable_raw_signed [OF v k r K]
  then show ?thesis using minus_coords(2) [OF m] by metis
qed

text \<open>Grinding keeps one of the attempts, and only one with a low \<open>r\<close> after the first.\<close>

lemma grind_loop_result:
  assumes "grind_loop attempt counter sg ec = Some y"
  shows "attempt counter = Some (Inr sg) \<longrightarrow> (\<forall>sg'. y = Inr sg' \<longrightarrow> (\<exists>i. attempt i = Some (Inr sg')) \<and> is_low_r (ds_r sg') ec)"
  using assms
proof (induction rule: grind_loop.raw_induct [rotated, consumes 1])
  case (1 f attempt counter sg ec y)
  show ?case
  proof (cases "is_low_r (ds_r sg) ec")
    case True
    then show ?thesis using 1(2) by auto
  next
    case False
    show ?thesis
    proof (cases "attempt (counter + 1)")
      case None
      then show ?thesis using False 1(2) by simp
    next
      case (Some res)
      show ?thesis
      proof (cases res)
        case (Inl e)
        then show ?thesis using False 1(2) Some by auto
      next
        case (Inr sg1)
        then have "f attempt (counter + 1) sg1 ec = Some y" using False 1(2) Some by simp
        from 1(1) [OF this] show ?thesis using Some Inr by blast
      qed
    qed
  qed
qed

lemma grind_loop_kept:
  assumes "grind_loop attempt counter sg ec = Some (Inr sg')" "attempt counter = Some (Inr sg)"
  shows "(\<exists>i. attempt i = Some (Inr sg')) \<and> is_low_r (ds_r sg') ec"
  using grind_loop_result [OF assms(1)] assms(2) by blast

lemma grind_low_r_kept:
  assumes "grind_low_r attempt grind ec = Some (Inr sg)"
  shows "\<exists>i. attempt i = Some (Inr sg)" "grind \<longrightarrow> is_low_r (ds_r sg) ec"
proof -
  obtain sg0 where s: "attempt 0 = Some (Inr sg0)"
    "(if \<not> grind then Some (Inr sg0) else grind_loop attempt 0 sg0 ec) = Some (Inr sg)"
    using assms by (auto simp: grind_low_r_def obind_Inr_iff)
  show "\<exists>i. attempt i = Some (Inr sg)" "grind \<longrightarrow> is_low_r (ds_r sg) ec"
    using grind_loop_kept [of attempt 0 sg0 ec sg] s by (cases grind; auto)+
qed

section \<open>Signing a message\<close>

definition draws :: "curve \<Rightarrow> (nat \<Rightarrow> int) \<Rightarrow> bool" where
  "draws ec rnd \<longleftrightarrow> (\<forall>i. 0 \<le> rnd i \<and> rnd i < ec_p ec - 1)"

lemma drawsD: "draws ec rnd \<Longrightarrow> 0 \<le> rnd i" "draws ec rnd \<Longrightarrow> rnd i < ec_p ec - 1"
  by (simp_all add: draws_def)

lemma dsa_checked_Inr: "dsa_checked rnd c q ec vf parsed sg = Inr sg' \<Longrightarrow> sg' = sg"
  by (auto simp: dsa_checked_def rbind_eq_Inr_iff)

lemma scalar_from_int_Inr_iff: "scalar_from_int q ec = Inr k \<longleftrightarrow> k = q \<and> 0 < q \<and> q < cv_n ec"
  by (auto simp: scalar_from_int_def)

lemma bytes_from_octets_Inr: "bytes_from_octets bs sizes = Inr bs' \<Longrightarrow> bs' = bs"
  by (auto simp: bytes_from_octets_def split: option.splits if_splits)

text \<open>The three ways the nonce of a signature comes about.\<close>

lemma dsa_sign_hash_nonce:
  assumes "dsa_sign_hash rnd rnd' mh q nonce lower_s ec hf grind vf key ch = Some (Inr (sg, receipt))"
  shows "\<exists>c k j. challenge mh ec hf = Inr c \<and> 0 < q \<and> q < cv_n ec \<and> sign_raw (rnd j) c q k lower_s ec = Inr sg
    \<and> (case ch of
         None \<Rightarrow> receipt = None \<and> 0 < k \<and> k < cv_n ec
       | Some h \<Rightarrow> \<exists>k0 R. receipt = Some R \<and> commit_nonce (rnd' 1) h k0 S2C_POINT_TAG ec hf = Some (Inr (k, R)))"
proof -
  define parse where "parse = (case key of None \<Rightarrow> Inr None | Some k \<Rightarrow> rbind (python_key k ec) (\<lambda>p. Inr (Some p)))"
  define given where "given = (\<lambda>q c parsed k. Some (rbind (scalar_from_int k ec) (\<lambda>k.
    rbind (sign_raw (rnd 0) c q k lower_s ec) (\<lambda>sg.
    rbind (dsa_checked (rnd' 0) c q ec vf parsed sg) (\<lambda>sg. Inr (sg, None :: apoint option))))))"
  define derived where "derived = (\<lambda>q c parsed. obind (grind_low_r (\<lambda>counter.
      obind (rfc6979_nonce_raw c q ec hf (grind_entropy counter)) (\<lambda>k. Some (sign_raw (rnd counter) c q k lower_s ec))) grind ec)
    (\<lambda>sg. Some (rbind (dsa_checked (rnd' 0) c q ec vf parsed sg) (\<lambda>sg. Inr (sg, None :: apoint option)))))"
  define committed where "committed = (\<lambda>q c parsed h.
    obind (rfc6979_nonce_raw c q ec hf (Some (commit_entropy h S2C_DATA_TAG hf))) (\<lambda>k.
    obind (commit_nonce (rnd' 1) h k S2C_POINT_TAG ec hf) (\<lambda>(k, receipt).
      Some (rbind (sign_raw (rnd 0) c q k lower_s ec) (\<lambda>sg.
        rbind (dsa_checked (rnd' 0) c q ec vf parsed sg) (\<lambda>sg. Inr (sg, Some receipt)))))))"
  have pieces: "given q c parsed k = Some (rbind (scalar_from_int k ec) (\<lambda>k.
      rbind (sign_raw (rnd 0) c q k lower_s ec) (\<lambda>sg.
      rbind (dsa_checked (rnd' 0) c q ec vf parsed sg) (\<lambda>sg. Inr (sg, None :: apoint option)))))"
    "derived q c parsed = obind (grind_low_r (\<lambda>counter.
      obind (rfc6979_nonce_raw c q ec hf (grind_entropy counter)) (\<lambda>k. Some (sign_raw (rnd counter) c q k lower_s ec))) grind ec)
    (\<lambda>sg. Some (rbind (dsa_checked (rnd' 0) c q ec vf parsed sg) (\<lambda>sg. Inr (sg, None :: apoint option))))"
    "committed q c parsed h =
    obind (rfc6979_nonce_raw c q ec hf (Some (commit_entropy h S2C_DATA_TAG hf))) (\<lambda>k.
    obind (commit_nonce (rnd' 1) h k S2C_POINT_TAG ec hf) (\<lambda>(k, receipt).
      Some (rbind (sign_raw (rnd 0) c q k lower_s ec) (\<lambda>sg.
        rbind (dsa_checked (rnd' 0) c q ec vf parsed sg) (\<lambda>sg. Inr (sg, Some receipt))))))"
    for q c parsed k h by (simp_all only: given_def derived_def committed_def)
  have ifl: "(if A then Some (Inl e) else m) = Some (Inr x) \<longleftrightarrow> \<not> A \<and> m = Some (Inr x)"
    for A :: bool and e :: py_error and m and x :: "dsa_sig \<times> apoint option"
    by simp
  note ck = dsa_checked_Inr
  obtain mh' q' c parsed where s: "bytes_from_octets mh (Some [hf_size hf]) = Inr mh'" "scalar_from_int q ec = Inr q'"
      "challenge mh' ec hf = Inr c" "parse = Inr parsed"
    and o': "(case ch of None \<Rightarrow> (case nonce of None \<Rightarrow> derived q' c parsed | Some k \<Rightarrow> given q' c parsed k)
      | Some h \<Rightarrow> committed q' c parsed h) = Some (Inr (sg, receipt))"
    using assms unfolding dsa_sign_hash_def parse_def [symmetric] pieces [symmetric] ifl obind_Inr_iff option.inject
    by blast
  have "q' = q" using s(2) by (simp add: scalar_from_int_Inr_iff)
  note o = o' [unfolded this]
  have c: "challenge mh ec hf = Inr c" using s(3) bytes_from_octets_Inr [OF s(1)] by simp
  have qr: "0 < q" "q < cv_n ec" using s(2) by (simp_all add: scalar_from_int_Inr_iff)
  show ?thesis
  proof (cases ch)
    case (Some h)
    then obtain k0 k R where "commit_nonce (rnd' 1) h k0 S2C_POINT_TAG ec hf = Some (Inr (k, R))"
      "sign_raw (rnd 0) c q k lower_s ec = Inr sg" "receipt = Some R"
      using o ck by (fastforce simp: committed_def obind_Inr_iff rbind_eq_Inr_iff)
    then show ?thesis using c qr Some by (intro exI [of _ c] exI [of _ k] exI [of _ 0]) auto
  next
    case None
    show ?thesis
    proof (cases nonce)
      case (Some k)
      then have "0 < k \<and> k < cv_n ec \<and> sign_raw (rnd 0) c q k lower_s ec = Inr sg \<and> receipt = None"
        using o None ck by (fastforce simp: given_def rbind_eq_Inr_iff scalar_from_int_Inr_iff)
      then show ?thesis using c qr None by (intro exI [of _ c] exI [of _ k] exI [of _ 0]) simp
    next
      case N: None
      define attempt where "attempt = (\<lambda>counter. obind (rfc6979_nonce_raw c q ec hf (grind_entropy counter))
          (\<lambda>k. Some (sign_raw (rnd counter) c q k lower_s ec)))"
      have "derived q c parsed = Some (Inr (sg, receipt))" using o None N by simp
      then obtain sg0 where g: "grind_low_r attempt grind ec = Some (Inr sg0)"
        "rbind (dsa_checked (rnd' 0) c q ec vf parsed sg0) (\<lambda>sg. Inr (sg, None)) = Inr (sg, receipt)"
        unfolding derived_def attempt_def [symmetric] obind_Inr_iff option.inject by blast
      have rc: "receipt = None" "sg0 = sg" using g(2) by (auto simp: rbind_eq_Inr_iff dest: ck)
      obtain i where "attempt i = Some (Inr sg)" using grind_low_r_kept(1) [OF g(1)] rc(2) by blast
      then obtain k where k: "rfc6979_nonce_raw c q ec hf (grind_entropy i) = Some (Inr k)"
        "sign_raw (rnd i) c q k lower_s ec = Inr sg" unfolding attempt_def obind_Inr_iff option.inject by blast
      show ?thesis using c qr None rc(1) rfc6979_nonce_range [OF k(1)] k(2) by (intro exI [of _ c] exI [of _ k] exI [of _ i]) simp
    qed
  qed
qed

lemma dsa_sign_hash_signed:
  assumes v: "curve_valid ec" and d: "\<And>j. draws ec (rnd j)" "draws ec rnd'"
    and S: "dsa_sign_hash rnd rnd' mh q nonce lower_s ec hf grind vf key ch = Some (Inr (sg, receipt))"
  shows "\<exists>c R key_id K. challenge mh ec hf = Inr c \<and> 0 < q \<and> q < cv_n ec
    \<and> signed_with ec c q R (ds_r sg) (ds_s sg) key_id \<and> ds_ec sg = ec \<and> px R = px K
    \<and> (case ch of None \<Rightarrow> receipt = None
       | Some h \<Rightarrow> \<exists>C. receipt = Some C \<and> (\<forall>r. 0 \<le> r \<and> r < ec_p ec - 1 \<longrightarrow>
           commit_point r h C S2C_POINT_TAG ec hf = Some (Inr (aff_of K))))"
proof -
  obtain c k j where n: "challenge mh ec hf = Inr c" "0 < q" "q < cv_n ec" "sign_raw (rnd j) c q k lower_s ec = Inr sg"
    "case ch of None \<Rightarrow> receipt = None \<and> 0 < k \<and> k < cv_n ec
       | Some h \<Rightarrow> \<exists>k0 R. receipt = Some R \<and> commit_nonce (rnd' 1) h k0 S2C_POINT_TAG ec hf = Some (Inr (k, R))"
    using dsa_sign_hash_nonce [OF S] by blast
  let ?K = "ec_times ec k (gen ec)"
  have opens: "0 < k \<and> k < cv_n ec \<and> commit_point r h C S2C_POINT_TAG ec hf = Some (Inr (aff_of ?K))"
    if "commit_nonce (rnd' 1) h k0 S2C_POINT_TAG ec hf = Some (Inr (k, C))" "0 \<le> r \<and> r < ec_p ec - 1" for h k0 C r
    using commit_nonce_opens [OF v drawsD [OF d(2)] _ _ that(1)] that(2) by blast
  have "0 < k \<and> k < cv_n ec"
  proof (cases ch)
    case (Some h)
    then show ?thesis using n(5) opens [where r = "rnd' 0"] drawsD [OF d(2)] by fastforce
  qed (use n(5) in simp)
  then obtain R key_id where "signed_with ec c q R (ds_r sg) (ds_s sg) key_id" "px R = px ?K" "ds_ec sg = ec"
    using raw_nonce_signed [OF v _ _ drawsD [OF d(1)] n(4)] by blast
  moreover have "case ch of None \<Rightarrow> receipt = None
       | Some h \<Rightarrow> \<exists>C. receipt = Some C \<and> (\<forall>r. 0 \<le> r \<and> r < ec_p ec - 1 \<longrightarrow>
           commit_point r h C S2C_POINT_TAG ec hf = Some (Inr (aff_of ?K)))"
    using n(5) opens by (cases ch) fastforce+
  ultimately show ?thesis using n(1-3) by blast
qed

section \<open>What was signed is verified\<close>

lemma key_of_member:
  assumes "member ec Q" "Q \<noteq> Inf"
  shows "point_from_pub_key (Key_Point (aff_of Q)) ec = Inr (aff_of Q)"
proof -
  note r = require_member [OF assms]
  have "is_on_curve ec (aff_of Q) = Inr True" using r(1) by (simp only: is_on_curve_iff_require)
  moreover have "assert_in_subgroup (aff_of Q) ec = Inr ()"
    using assert_in_subgroup_iff [OF memberD(1) [OF assms(1)] arep_aff_of_member [OF assms(1)]] memberD(2) [OF assms(1)] by simp
  ultimately show ?thesis using r(3) by (simp add: point_from_tuple_def)
qed

lemma key_jrep:
  assumes "member ec Q" "Q \<noteq> Inf"
  shows "jrep ec (fst (aff_of Q), snd (aff_of Q), 1) Q"
  by (rule jrep_of_pair [OF memberD(3) [OF assms(1)] arep_aff_of_member [OF assms(1)] assms(2)])

lemma challenge_size: "challenge mh ec hf = Inr c \<Longrightarrow> bytes_from_octets mh (Some [hf_size hf]) = Inr mh"
  using bytes_from_octets_Inr by (fastforce simp: challenge_def rbind_eq_Inr_iff)

lemma dsa_sign_verifies:
  assumes v: "curve_valid ec" and e: "endo_law ec" and d: "\<And>j. draws ec (rnd j)" "draws ec rnd'"
    and S: "dsa_sign_hash rnd rnd' mh q nonce lower_s ec hf grind vf key ch = Some (Inr (sg, receipt))"
    and a: "dsa_assert_valid sg = Inr ()" and r: "0 \<le> r" "r < ec_p ec - 1"
  shows "dsa_verify_hash r mh (Key_Point (aff_of (ec_times ec q (gen ec)))) sg hf ch receipt = Some (Inr True)"
proof -
  obtain c R key_id K where s: "challenge mh ec hf = Inr c" "0 < q" "q < cv_n ec"
    "signed_with ec c q R (ds_r sg) (ds_s sg) key_id" "ds_ec sg = ec" "px R = px K"
    and ch: "case ch of None \<Rightarrow> receipt = None
       | Some h \<Rightarrow> \<exists>C. receipt = Some C \<and> (\<forall>r. 0 \<le> r \<and> r < ec_p ec - 1 \<longrightarrow>
           commit_point r h C S2C_POINT_TAG ec hf = Some (Inr (aff_of K)))"
    using dsa_sign_hash_signed [OF v d S] by blast
  let ?Q = "ec_times ec q (gen ec)"
  note G = member_generator [OF v]
  have Q: "member ec ?Q" "?Q \<noteq> Inf" using member_closed(3) [OF G] gen_times_finite [OF v s(2,3)] by blast+
  have rs: "px R mod cv_n ec = ds_r sg" "0 < ds_s sg" "ds_s sg < cv_n ec" using s(4) by (simp_all add: signed_with_def)
  have raw: "assert_as_valid_raw c (fst (aff_of ?Q), snd (aff_of ?Q), 1) (ds_r sg) (ds_s sg) ec fixed False = Inr ()" for fixed
    using assert_as_valid_raw_iff [OF Q(1) key_jrep [OF Q] endo_lawD [OF e Q(1)] endo_lawD [OF e G] rs(2,3)]
      signed_with_valid [OF v s(4)] by simp
  have "dsa_assert_commitment r ch receipt sg hf = Some (Inr ())"
  proof (cases ch)
    case (Some h)
    then obtain C where "receipt = Some C" "commit_point r h C S2C_POINT_TAG ec hf = Some (Inr (aff_of K))"
      using ch r by auto
    then show ?thesis using Some s(5,6) rs(1) by (simp add: dsa_assert_commitment_def px_def)
  qed (use ch in \<open>simp add: dsa_assert_commitment_def\<close>)
  then show ?thesis using key_of_member [OF Q] s(1,5) challenge_size [OF s(1)] a raw
    by (simp add: dsa_verify_hash_def dsa_assert_as_valid_hash_def Let_def caught_false_def)
qed

text \<open>The check a signer makes of its own signature never fails.\<close>

lemma dsa_checked_passes:
  assumes v: "curve_valid ec" and e: "endo_law ec" and q: "0 < q" "q < cv_n ec"
    and k: "0 < k" "k < cv_n ec" and d: "draws ec rnd" "0 \<le> r" "r < ec_p ec - 1"
    and S: "sign_raw rnd c q k lower_s ec = Inr sg"
  shows "dsa_checked r c q ec vf None sg = Inr sg"
proof -
  let ?Q = "ec_times ec q (gen ec)"
  note G = member_generator [OF v]
  have Q: "member ec ?Q" "?Q \<noteq> Inf" using member_closed(3) [OF G] gen_times_finite [OF v q] by blast+
  obtain R key_id where s: "signed_with ec c q R (ds_r sg) (ds_s sg) key_id"
    using raw_nonce_signed [OF v k drawsD [OF d(1)] S] by blast
  then have rs: "0 < ds_s sg" "ds_s sg < cv_n ec" by (simp_all add: signed_with_def)
  have "python_verified c sg ec (aff_of ?Q, ec_fixed_points ec) = Inr True"
    unfolding python_verified_def fst_conv snd_conv
      assert_as_valid_raw_verdict [OF Q(1) key_jrep [OF Q] endo_lawD [OF e Q(1)] endo_lawD [OF e G] rs]
    using signed_with_valid [OF v s] by simp
  moreover have "mult r q (Some (cv_G ec)) ec = Inr (aff_of ?Q)" by (rule mult_generator(1) [OF v d(2,3)])
  ultimately show ?thesis by (simp add: dsa_checked_def abort_unless_checked_def)
qed

section \<open>Verification of a message decides the specification\<close>

lemma dsa_verify_hash_iff:
  assumes v: "curve_valid ec" and e: "endo_law ec" and Q: "member ec Q" "Q \<noteq> Inf" and sg: "ds_ec sg = ec"
    and h: "length mh = hf_size hf" and a: "dsa_assert_valid sg = Inr ()"
  shows "\<exists>c. challenge mh ec hf = Inr c \<and>
    dsa_verify_hash r mh (Key_Point (aff_of Q)) sg hf None None = Some (Inr (ecdsa_valid ec Q c (ds_r sg) (ds_s sg)))"
proof -
  note G = member_generator [OF v]
  have b: "bytes_from_octets mh (Some [hf_size hf]) = Inr mh" using h by (simp add: bytes_from_octets_def)
  then obtain c where c: "challenge mh ec hf = Inr c" by (simp add: challenge_def)
  have s: "0 < ds_s sg" "ds_s sg < cv_n ec"
    using a sg by (auto simp: dsa_assert_valid_def Let_def rbind_eq_Inr_iff split: if_splits)
  have "dsa_verify_hash r mh (Key_Point (aff_of Q)) sg hf None None =
      Some (caught_false (assert_as_valid_raw c (fst (aff_of Q), snd (aff_of Q), 1) (ds_r sg) (ds_s sg) ec (ec_fixed_points ec) False))"
    using key_of_member [OF Q] b c a sg
    by (simp add: dsa_verify_hash_def dsa_assert_as_valid_hash_def dsa_assert_commitment_def Let_def fixed_points_of_def)
  also have "\<dots> = Some (Inr (ecdsa_valid ec Q c (ds_r sg) (ds_s sg)))"
    unfolding assert_as_valid_raw_verdict [OF Q(1) key_jrep [OF Q] endo_lawD [OF e Q(1)] endo_lawD [OF e G] s] by simp
  finally show ?thesis using c by blast
qed

section \<open>A nonce used twice\<close>

lemma signed_scalar:
  assumes v: "curve_valid ec" and k: "0 < k" "k < cv_n ec" and d: "draws ec rnd"
    and S: "sign_raw rnd c q k lower_s ec = Inr sg"
  shows "\<exists>k' \<in> {k, cv_n ec - k}. (\<not> lower_s \<longrightarrow> k' = k) \<and> cv_n ec dvd (ds_s sg * k' - (c + ds_r sg * q))"
    "ds_r sg = px (ec_times ec k (gen ec)) mod cv_n ec" "0 < ds_r sg" "ds_r sg < cv_n ec" "ds_ec sg = ec" "0 < ds_s sg" "ds_s sg < cv_n ec"
proof -
  let ?K = "ec_times ec k (gen ec)" and ?n = "cv_n ec"
  note G = member_generator [OF v]
  obtain key_id where K: "sign_recoverable_raw rnd c q k lower_s ec = Inr (sg, key_id)"
    using S by (auto simp: sign_raw_def rbind_eq_Inr_iff)
  note s = sign_recoverable_raw_signed [OF v k drawsD [OF d] K]
  obtain R where R: "signed_with ec c q R (ds_r sg) (ds_s sg) key_id" "R = ?K \<or> lower_s \<and> R = ec_minus ec ?K" using s(1) by blast
  have K: "member ec ?K" "?K \<noteq> Inf" using member_closed(3) [OF G] gen_times_finite [OF v k] by blast+
  have px: "px R = px ?K" using R(2) minus_coords(2) [OF K] by auto
  show "ds_r sg = px ?K mod ?n" "0 < ds_r sg" "ds_r sg < ?n" "ds_ec sg = ec" "0 < ds_s sg" "ds_s sg < ?n"
    using R s(2,3) px by (simp_all add: signed_with_def)
  obtain k' where k': "k' \<in> {k, ?n - k}" "\<not> lower_s \<longrightarrow> k' = k" "R = ec_times ec k' (gen ec)"
  proof (cases "R = ?K")
    case False
    then have l: "lower_s" "R = ec_minus ec ?K" using R(2) by blast+
    have "R = ec_times ec (?n - k) (gen ec)"
      unfolding l(2) minus_times [OF G] by (rule times_cong [OF G]) simp
    then show ?thesis using that [of "?n - k"] l(1) by blast
  qed (use that [of k] in blast)
  have "ec_times ec (ds_s sg * k') (gen ec) = ec_times ec (c + ds_r sg * q) (gen ec)"
    using R(1) k'(3) by (simp add: signed_with_def times_times [OF G])
  then have "?n dvd (ds_s sg * k' - (c + ds_r sg * q))"
    using times_eq_iff [OF G generator_finite [OF v]] by blast
  then show "\<exists>k' \<in> {k, ?n - k}. (\<not> lower_s \<longrightarrow> k' = k) \<and> ?n dvd (ds_s sg * k' - (c + ds_r sg * q))" using k'(1,2) by blast
qed

text \<open>Two equations with one unknown nonce, solved for it and for the key.\<close>

lemma crack_equations:
  assumes v: "curve_valid ec" and q: "0 < q" "q < cv_n ec" and k: "0 < k" "k < cv_n ec"
    and e: "cv_n ec dvd (ds_s sig1 * k - (c1 + ds_r sig1 * q))" "cv_n ec dvd (ds_s sig2 * k - (c2 + ds_r sig2 * q))"
    and r: "ds_r sig2 = ds_r sig1" "0 < ds_r sig1" "ds_r sig1 < cv_n ec" and ec: "ds_ec sig1 = ec" "ds_ec sig2 = ec"
    and c: "challenge mh1 ec hf = Inr c1" "challenge mh2 ec hf = Inr c2" "ds_s sig1 \<noteq> ds_s sig2"
    and a: "dsa_assert_valid sig1 = Inr ()" "dsa_assert_valid sig2 = Inr ()"
  shows "crack_prv_key_var mh1 sig1 mh2 sig2 hf = Inr (q, k)"
proof -
  let ?n = "cv_n ec" and ?r = "ds_r sig1"
  note n = curve_n [OF v]
  have nr: "\<not> ?n dvd ?r" using r unit_not_dvd [of ?r ?n] by simp
  have range: "0 < ds_s sig1 \<and> ds_s sig1 < ?n" "0 < ds_s sig2 \<and> ds_s sig2 < ?n"
    using a ec by (auto simp: dsa_assert_valid_def Let_def rbind_eq_Inr_iff split: if_splits)
  have ds: "\<not> ?n dvd (ds_s sig1 - ds_s sig2)"
    using range c(3) zdvd_imp_le [of ?n "\<bar>ds_s sig1 - ds_s sig2\<bar>"] by auto
  note i = inv_n [OF v ds] and j = inv_n [OF v nr]
  define w where "w = inv_mod (ds_s sig1 - ds_s sig2) ?n"
  define z where "z = inv_mod ?r ?n"
  have iw: "?n dvd ((ds_s sig1 - ds_s sig2) * w - 1)" and jz: "?n dvd (?r * z - 1)" using i(3) j(3) by (simp_all add: w_def z_def)
  have "?n dvd ((c1 - c2) * w - k)" using e iw unfolding r(1) by algebra
  then have k': "(c1 - c2) * w mod ?n = k" using k mod_eq_if_dvd_diff by fastforce
  have "?n dvd ((ds_s sig2 * k - c2) * z - q)" using e(2) jz unfolding r(1) by algebra
  then have q': "(ds_s sig2 * k - c2) * z mod ?n = q" using q mod_eq_if_dvd_diff by fastforce
  show ?thesis
    unfolding crack_prv_key_var_def Let_def a rbind_simps ec r(1) c(1,2) i(1) j(1)
    using c(3) k' q' by (simp add: w_def z_def)
qed

text \<open>
  Normalising may have negated either scalar, and with it the nonce of its equation: the two equations share a nonce
  as they are, or after the second scalar is negated.
\<close>

lemma crack_prv_key:
  assumes v: "curve_valid ec" and q: "0 < q" "q < cv_n ec" and k: "0 < k" "k < cv_n ec"
    and d: "draws ec rnd1" "draws ec rnd2"
    and S: "sign_raw rnd1 c1 q k low1 ec = Inr sig1" "sign_raw rnd2 c2 q k low2 ec = Inr sig2"
    and c: "challenge mh1 ec hf = Inr c1" "challenge mh2 ec hf = Inr c2" "c1 \<noteq> c2"
    and a: "dsa_assert_valid sig1 = Inr ()" "dsa_assert_valid sig2 = Inr ()"
  shows "\<exists>k' \<in> {k, cv_n ec - k}. (\<not> low1 \<longrightarrow> k' = k)
    \<and> (crack_prv_key_var mh1 sig1 mh2 sig2 hf = Inr (q, k')
      \<or> (low1 \<or> low2) \<and> crack_prv_key_var mh1 sig1 mh2 (sig2\<lparr>ds_s := cv_n ec - ds_s sig2\<rparr>) hf = Inr (q, k'))"
proof -
  let ?n = "cv_n ec"
  note n = curve_n [OF v] and s1 = signed_scalar [OF v k d(1) S(1)] and s2 = signed_scalar [OF v k d(2) S(2)]
  have r: "ds_r sig2 = ds_r sig1" using s1(2) s2(2) by simp
  obtain k1 where k1: "k1 \<in> {k, ?n - k}" "\<not> low1 \<longrightarrow> k1 = k" "?n dvd (ds_s sig1 * k1 - (c1 + ds_r sig1 * q))"
    using s1(1) by blast
  obtain k2 where k2: "k2 \<in> {k, ?n - k}" "\<not> low2 \<longrightarrow> k2 = k" "?n dvd (ds_s sig2 * k2 - (c2 + ds_r sig2 * q))"
    using s2(1) by blast
  have rng: "0 < k1" "k1 < ?n" using k1(1) k by auto
  have differ: "ds_s sig1 \<noteq> t" if "?n dvd (t * k1 - (c2 + ds_r sig1 * q))" for t
  proof
    assume t: "ds_s sig1 = t"
    have "?n dvd (c1 - c2)" using dvd_diff [OF that k1(3) [unfolded t]] by simp
    moreover have "0 \<le> c1" "c1 < ?n" "0 \<le> c2" "c2 < ?n" using c(1,2) n(2) by (auto simp: challenge_def rbind_eq_Inr_iff)
    ultimately show False using c(3) eq_if_dvd_diff by blast
  qed
  note crack = crack_equations [OF v q rng k1(3) _ _ s1(3,4,5) _ c(1,2) _ a(1)]
  show ?thesis
  proof (cases "k2 = k1")
    case True
    then have e: "?n dvd (ds_s sig2 * k1 - (c2 + ds_r sig2 * q))" using k2(3) by simp
    have "crack_prv_key_var mh1 sig1 mh2 sig2 hf = Inr (q, k1)"
      by (rule crack [OF e r s2(5) differ [OF e [unfolded r]] a(2)])
    then show ?thesis using k1(1,2) by blast
  next
    case False
    let ?sig = "sig2\<lparr>ds_s := ?n - ds_s sig2\<rparr>"
    have "?n dvd (k1 + k2)" using False k1(1) k2(1) by auto
    then have "?n dvd ((?n - ds_s sig2) * k1 - (c2 + ds_r sig2 * q))" using k2(3) by algebra
    then have e: "?n dvd (ds_s ?sig * k1 - (c2 + ds_r ?sig * q))" by simp
    have av: "dsa_assert_valid ?sig = Inr ()"
      using a(2) s2(5,6,7) by (simp add: dsa_assert_valid_def Let_def split: if_splits)
    have "crack_prv_key_var mh1 sig1 mh2 ?sig hf = Inr (q, k1)"
      by (rule crack [OF e _ _ _ av]) (use r s2(5) differ e in simp_all)
    moreover have "low1 \<or> low2" using False k1(2) k2(2) by auto
    ultimately show ?thesis using k1(1,2) by blast
  qed
qed

section \<open>The signer\<close>

lemma wiped_signer_refuses:
  "dsa_signer_sign rnd (dsa_signer_wipe sn) mh grind vf = Some (Inl (BTClibEccValueError ''the signer is wiped''))"
  "dg_q (dsa_signer_wipe sn) = 0"
  by (simp_all add: dsa_signer_sign_def dsa_signer_wipe_def)

end
