(* ===== verification/Ssa_Correct.thy ===== *)
theory Ssa_Correct
  imports Ssa Dsa_Message
begin

text \<open>
  BIP 340 signatures as a relation between points, and the proof that the model of \<^verbatim>\<open>ssa.py\<close> decides it:
  verification accepts exactly the related signatures, signing makes one, the key is recovered from it;
  the equation of the batch is the weighted sum of the single ones.
\<close>

section \<open>The specification\<close>

definition schnorr_valid :: "curve \<Rightarrow> point \<Rightarrow> int \<Rightarrow> int \<Rightarrow> int \<Rightarrow> bool" where
  "schnorr_valid ec Q c r s \<longleftrightarrow>
     (\<exists>R. member ec R \<and> R \<noteq> Inf \<and> even (py R) \<and> px R = r
        \<and> ec_times ec s (gen ec) = ec_plus ec R (ec_times ec c Q))"

lemma solve_for_left:
  assumes "member ec R" "member ec T" "member ec S"
  shows "S = ec_plus ec R T \<longleftrightarrow> R = ec_plus ec (ec_minus ec T) S"
proof
  assume "S = ec_plus ec R T"
  then have "S = ec_plus ec T R" using plus_comm [OF assms(1,2)] by simp
  then show "R = ec_plus ec (ec_minus ec T) S" using plus_minus_cancel [OF assms(2,1)] by simp
next
  assume R: "R = ec_plus ec (ec_minus ec T) S"
  note m = member_closed(2) [OF assms(2)]
  have "ec_plus ec R T = ec_plus ec T (ec_plus ec (ec_minus ec T) S)"
    unfolding R by (rule plus_comm [OF member_closed(1) [OF m assms(3)] assms(2)])
  also have "\<dots> = S" using ecn.add_assoc ecn.add_neg ecn.zero_add memberD(2) assms(2,3) m by metis
  finally show "S = ec_plus ec R T" by simp
qed

lemma schnorr_valid_iff:
  assumes Q: "member ec Q" and R: "R = ec_plus ec (ec_times ec (cv_n ec - c) Q) (ec_times ec s (gen ec))"
  shows "schnorr_valid ec Q c r s \<longleftrightarrow> R \<noteq> Inf \<and> even (py R) \<and> px R = r"
proof -
  note G = member_generator [OF memberD(1) [OF Q]]
  have "ec_times ec (cv_n ec - c) Q = ec_times ec (- c) Q" by (rule times_cong [OF Q]) simp
  then have R': "R = ec_plus ec (ec_minus ec (ec_times ec c Q)) (ec_times ec s (gen ec))"
    unfolding R minus_times [OF Q] by (simp only:)
  have m: "member ec R" unfolding R by (intro member_closed Q G)
  show ?thesis unfolding schnorr_valid_def
    using solve_for_left [OF _ member_closed(3) [OF Q] member_closed(3) [OF G]] m R' by metis
qed

section \<open>Verification\<close>

lemma x_check:
  assumes ok: "curve_ok ec" and K: "jrep ec (X, Y, Z) P" "P \<noteq> Inf" and r: "0 \<le> r" "r < ec_p ec"
  shows "X = Z * Z * r mod ec_p ec \<longleftrightarrow> px P = r"
proof -
  let ?p = "ec_p ec"
  note p = curve_ok_p [OF ok]
  obtain x y where P: "P = Pt x y" using K(2) by (cases P) auto
  have k: "0 \<le> x" "x < ?p" "0 \<le> X" "X < ?p" "0 < Z" "Z < ?p" "?p dvd (X - x * Z * Z)" using K(1) P by auto
  have "X = Z * Z * r mod ?p \<longleftrightarrow> ?p dvd (X - Z * Z * r)"
    using k p by (metis mod_eq_dvd_iff mod_pos_pos_trivial)
  also have "\<dots> \<longleftrightarrow> ?p dvd (Z * Z * (x - r))"
  proof -
    have "X - Z * Z * r = (X - x * Z * Z) + Z * Z * (x - r)" by (simp add: algebra_simps)
    then show ?thesis using k(7) dvd_add_right_iff by metis
  qed
  also have "\<dots> \<longleftrightarrow> ?p dvd (x - r)" using p(1) unit_not_dvd [OF k(5,6)] by (simp add: prime_int_dvd_mult_iff)
  also have "\<dots> \<longleftrightarrow> x = r"
  proof -
    have "\<bar>x - r\<bar> < ?p" using k(1,2) r by linarith
    then show ?thesis using zdvd_not_zless [of "\<bar>x - r\<bar>" ?p] by auto
  qed
  finally show ?thesis by (simp add: P)
qed

lemma ssa_verdict:
  assumes Q: "member ec Q" "jrep ec QJ Q" and e: "endo_law ec" and c: "0 \<le> c" "c \<le> cv_n ec" and s: "0 \<le> s"
    and r: "0 \<le> r" "r < ec_p ec"
  shows "caught_false (ssa_assert_as_valid_raw c QJ r s ec fixed) = Inr (schnorr_valid ec Q c r s)"
proof -
  note v = memberD(1) [OF Q(1)] and ok = memberD(3) [OF Q(1)]
  note G = member_generator [OF v]
  define R where "R = ec_plus ec (ec_times ec (cv_n ec - c) Q) (ec_times ec s (gen ec))"
  have n: "0 \<le> cv_n ec - c" using c(2) by simp
  obtain X Y Z where J: "jac_double_mult_var (cv_n ec - c) QJ s (cv_GJ ec) ec fixed = Inr (X, Y, Z)" "jrep ec (X, Y, Z) R"
    using double_mult_python_correct [OF Q endo_lawD [OF e Q(1)] G generator_jrep [OF v] endo_lawD [OF e G] n s]
    unfolding returns_def R_def jac_double_mult_var_def by fastforce
  note spec = schnorr_valid_iff [OF Q(1) R_def]
  show ?thesis
  proof (cases "R = Inf")
    case True
    then have "Z = 0" using jrep_Inf_iff [OF J(2)] by simp
    then have "ssa_assert_as_valid_raw c QJ r s ec fixed = Inl (BTClibEccValueError ''INF has no y-coordinate'')"
      by (simp add: ssa_assert_as_valid_raw_def J(1) y_aff_from_jac_var_def)
    then show ?thesis using spec True by (simp add: caught_false_def is_caught_def)
  next
    case False
    note y = jrep_finite(3) [OF J(2) False ok]
    have "ssa_assert_as_valid_raw c QJ r s ec fixed =
        (if py R mod 2 \<noteq> 0 then Inl (BTClibEccRuntimeError ''y_K is odd'')
         else if \<not> px R = r then Inl (BTClibEccRuntimeError ''signature verification failed'') else Inr ())"
      unfolding ssa_assert_as_valid_raw_def J(1) rbind_simps y prod.case x_check [OF ok J(2) False r] by (rule refl)
    then show ?thesis using spec False by (auto simp: caught_false_def is_caught_def even_iff_mod_2_eq_zero)
  qed
qed

section \<open>Keys and nonces with an even y-coordinate\<close>

lemma even_scalar:
  assumes v: "curve_valid ec" and k: "0 < k" "k < cv_n ec"
    and k': "k' = (if py (ec_times ec k (gen ec)) mod 2 \<noteq> 0 then cv_n ec - k else k)"
  shows "member ec (ec_times ec k' (gen ec))" "ec_times ec k' (gen ec) \<noteq> Inf" "even (py (ec_times ec k' (gen ec)))"
    "px (ec_times ec k' (gen ec)) = px (ec_times ec k (gen ec))" "0 < k'" "k' < cv_n ec"
proof -
  note G = member_generator [OF v]
  let ?K = "ec_times ec k (gen ec)"
  have K: "member ec ?K" "?K \<noteq> Inf" using member_closed(3) [OF G] gen_times_finite [OF v k] by blast+
  show "member ec (ec_times ec k' (gen ec))" by (rule member_closed(3) [OF G])
  show r: "0 < k'" "k' < cv_n ec" using k by (simp_all add: k')
  show "ec_times ec k' (gen ec) \<noteq> Inf" by (rule gen_times_finite [OF v r])
  show "even (py (ec_times ec k' (gen ec)))" "px (ec_times ec k' (gen ec)) = px ?K"
  proof -
    have "even (py (ec_times ec k' (gen ec))) \<and> px (ec_times ec k' (gen ec)) = px ?K"
    proof (cases "py ?K mod 2 = 0")
      case True
      then show ?thesis by (simp add: k' even_iff_mod_2_eq_zero)
    next
      case False
      have "ec_times ec (cv_n ec - k) (gen ec) = ec_minus ec ?K"
        unfolding minus_times [OF G] by (rule times_cong [OF G]) simp
      then have e: "ec_times ec k' (gen ec) = ec_minus ec ?K" using False by (simp only: k' if_True not_False_eq_True)
      show ?thesis unfolding e using parity_minus [OF K] minus_coords(2) [OF K] False by (simp add: even_iff_mod_2_eq_zero)
    qed
    then show "even (py (ec_times ec k' (gen ec)))" "px (ec_times ec k' (gen ec)) = px ?K" by blast+
  qed
qed

definition even_multiple :: "curve \<Rightarrow> int \<Rightarrow> int \<Rightarrow> bool" where
  "even_multiple ec k x \<longleftrightarrow>
     0 < k \<and> k < cv_n ec \<and> member ec (ec_times ec k (gen ec)) \<and> ec_times ec k (gen ec) \<noteq> Inf
   \<and> even (py (ec_times ec k (gen ec))) \<and> px (ec_times ec k (gen ec)) = x"

lemma even_multiple_of:
  assumes "curve_valid ec" "0 < k" "k < cv_n ec"
  shows "even_multiple ec (if py (ec_times ec k (gen ec)) mod 2 \<noteq> 0 then cv_n ec - k else k) (px (ec_times ec k (gen ec)))"
  using even_scalar [OF assms refl] unfolding even_multiple_def by blast

lemma bip340_nonce_even:
  assumes v: "curve_valid ec" and d: "draws ec rnd"
    and b: "bip340_nonce rnd msg prv aux ec hf = Some (Inr (k, x_K, q, x_Q))"
  shows "even_multiple ec k x_K" "even_multiple ec q x_Q" "0 < prv" "prv < cv_n ec" "x_Q = px (ec_times ec prv (gen ec))"
proof -
  obtain q0 k0 where q: "scalar_from_int prv ec = Inr q0"
    and k: "bip340_nonce_raw msg (if py (ec_times ec q0 (gen ec)) mod 2 \<noteq> 0 then cv_n ec - q0 else q0)
        (px (ec_times ec q0 (gen ec))) aux ec hf = Some (Inr k0)"
    and o: "k = (if py (ec_times ec k0 (gen ec)) mod 2 \<noteq> 0 then cv_n ec - k0 else k0)" "x_K = px (ec_times ec k0 (gen ec))"
      "q = (if py (ec_times ec q0 (gen ec)) mod 2 \<noteq> 0 then cv_n ec - q0 else q0)" "x_Q = px (ec_times ec q0 (gen ec))"
  proof -
    from b obtain q0 X where q: "scalar_from_int prv ec = Inr q0" and X: "mult (rnd 0) q0 None ec = Inr X"
      and rest: "(case X of (x_Q, y_Q) \<Rightarrow> let q = (if y_Q mod 2 \<noteq> 0 then cv_n ec - q0 else q0) in
       obind (Some (bytes_from_octets aux (Some [hf_size hf]))) (\<lambda>aux.
       obind (bip340_nonce_raw msg q x_Q aux ec hf) (\<lambda>k.
       obind (Some (mult (rnd 1) k None ec)) (\<lambda>(x_K, y_K).
       let k = (if y_K mod 2 \<noteq> 0 then cv_n ec - k else k) in Some (Inr (k, x_K, q, x_Q)))))) = Some (Inr (k, x_K, q, x_Q))"
      unfolding bip340_nonce_def obind_Inr_iff [of "Some _"] option.inject by blast
    have q0: "0 < q0" "q0 < cv_n ec" using q by (simp_all add: scalar_from_int_Inr_iff)
    have X': "X = (px (ec_times ec q0 (gen ec)), py (ec_times ec q0 (gen ec)))"
      using X nonce_point [OF v q0 drawsD [OF d]] by simp
    define q1 where "q1 = (if py (ec_times ec q0 (gen ec)) mod 2 \<noteq> 0 then cv_n ec - q0 else q0)"
    from rest obtain aux' k0 W where k: "bytes_from_octets aux (Some [hf_size hf]) = Inr aux'"
      "bip340_nonce_raw msg q1 (px (ec_times ec q0 (gen ec))) aux' ec hf = Some (Inr k0)" "mult (rnd 1) k0 None ec = Inr W"
      and e: "(case W of (x_K, y_K) \<Rightarrow>
         Some (Inr (if y_K mod 2 \<noteq> 0 then cv_n ec - k0 else k0, x_K, q1, px (ec_times ec q0 (gen ec))))) = (Some (Inr (k, x_K, q, x_Q)) :: (int \<times> int \<times> int \<times> int) run)"
      unfolding X' prod.case Let_def q1_def [symmetric] obind_Inr_iff option.inject by blast
    have k0: "0 < k0" "k0 < cv_n ec" using bip340_nonce_raw_range [OF k(2) curve_n(3) [OF v]] by blast+
    have W: "W = (px (ec_times ec k0 (gen ec)), py (ec_times ec k0 (gen ec)))"
      using k(3) nonce_point [OF v k0 drawsD [OF d]] by simp
    have a: "aux' = aux" using bytes_from_octets_Inr [OF k(1)] .
    have e': "(if py (ec_times ec k0 (gen ec)) mod 2 \<noteq> 0 then cv_n ec - k0 else k0) = k" "px (ec_times ec k0 (gen ec)) = x_K"
      "q1 = q" "px (ec_times ec q0 (gen ec)) = x_Q"
      using e unfolding W prod.case option.inject sum.inject prod.inject by blast+
    show thesis by (rule that [OF q k(2) [unfolded a q1_def] e'(1,2) [symmetric] e'(3) [symmetric, unfolded q1_def] e'(4) [symmetric]])
  qed
  have q0: "0 < q0" "q0 < cv_n ec" "q0 = prv" using q by (simp_all add: scalar_from_int_Inr_iff)
  have k0: "0 < k0" "k0 < cv_n ec" using bip340_nonce_raw_range [OF k curve_n(3) [OF v]] by blast+
  show "even_multiple ec k x_K" unfolding o(1,2) by (rule even_multiple_of [OF v k0])
  show "even_multiple ec q x_Q" unfolding o(3,4) by (rule even_multiple_of [OF v q0(1,2)])
  show "0 < prv" "prv < cv_n ec" "x_Q = px (ec_times ec prv (gen ec))" using q0 o(4) by simp_all
qed

section \<open>Signing\<close>

lemma ssa_sign_raw_valid:
  assumes v: "curve_valid ec" and k: "even_multiple ec k r" and q: "even_multiple ec q x_Q"
    and S: "ssa_sign_raw c q k r ec = Inr sg"
  shows "schnorr_valid ec (ec_times ec q (gen ec)) c (ss_r sg) (ss_s sg)" "ss_r sg = r" "ss_ec sg = ec"
    "ssa_assert_valid sg = Inr ()" "0 \<le> ss_s sg" "ss_s sg < cv_n ec"
proof -
  note G = member_generator [OF v]
  have s: "sg = \<lparr>ss_r = r, ss_s = (k + c * q) mod cv_n ec, ss_ec = ec\<rparr>" "ssa_assert_valid sg = Inr ()"
    using S by (auto simp: ssa_sign_raw_def init_ssa_sig_def Let_def rbind_eq_Inr_iff split: if_splits)
  then show "ss_r sg = r" "ss_ec sg = ec" "ssa_assert_valid sg = Inr ()" "0 \<le> ss_s sg" "ss_s sg < cv_n ec"
    using curve_n(2) [OF v] by simp_all
  have "ec_times ec (ss_s sg) (gen ec) = ec_plus ec (ec_times ec k (gen ec)) (ec_times ec c (ec_times ec q (gen ec)))"
    unfolding times_times [OF G] times_add [OF G] using s(1) times_mod [OF G] by simp
  then show "schnorr_valid ec (ec_times ec q (gen ec)) c (ss_r sg) (ss_s sg)"
    unfolding schnorr_valid_def using k s(1) unfolding even_multiple_def by (metis ssa_sig.select_convs(1))
qed

lemma checked_sign_Inr: "checked_sign c sg x ec verify = Inr sg' \<Longrightarrow> sg' = sg"
  unfolding checked_sign_def
  by (cases verify; cases "y_even_var ec x") (auto split: sum.splits if_splits)

lemma sign_commit_parts:
  assumes v: "curve_valid ec" and d: "draws ec rnd"
    and S: "sign_commit rnd msg prv aux ch ec hf verify = Some (Inr (sg, receipt))"
  shows "\<exists>k k1 q x_Q c. even_multiple ec q x_Q \<and> x_Q = px (ec_times ec prv (gen ec)) \<and> 0 < prv \<and> prv < cv_n ec
    \<and> 0 < k1 \<and> k1 < cv_n ec \<and> even_multiple ec k (px (ec_times ec k1 (gen ec)))
    \<and> (\<forall>r. 0 \<le> r \<and> r < ec_p ec - 1 \<longrightarrow>
        commit_point r ch receipt S2C_SSA_POINT_TAG ec hf = Some (Inr (aff_of (ec_times ec k1 (gen ec)))))
    \<and> ssa_challenge msg x_Q (px (ec_times ec k1 (gen ec))) ec hf = Inr c
    \<and> ssa_sign_raw c q k (px (ec_times ec k1 (gen ec))) ec = Inr sg"
proof -
  obtain k0 x_K q x_Q where b: "bip340_nonce rnd msg prv aux ec hf = Some (Inr (k0, x_K, q, x_Q))"
    and S1: "obind (commit_nonce (rnd 2) ch k0 S2C_SSA_POINT_TAG ec hf) (\<lambda>(k, receipt).
       Some (rbind (mult (rnd 3) k None ec) (\<lambda>(x_K, y_K).
         let k = (if y_K mod 2 \<noteq> 0 then cv_n ec - k else k) in
         rbind (ssa_challenge msg x_Q x_K ec hf) (\<lambda>c.
         rbind (rbind (ssa_sign_raw c q k x_K ec) (\<lambda>sg. checked_sign c sg x_Q ec verify)) (\<lambda>sg. Inr (sg, receipt))))))
      = Some (Inr (sg, receipt))"
    using S unfolding sign_commit_def obind_Inr_iff [of "bip340_nonce _ _ _ _ _ _"] split_paired_Ex prod.case by blast
  note q = bip340_nonce_even(2-5) [OF v d b]
  obtain k1 R where c: "commit_nonce (rnd 2) ch k0 S2C_SSA_POINT_TAG ec hf = Some (Inr (k1, R))"
    and S2: "rbind (mult (rnd 3) k1 None ec) (\<lambda>(x_K, y_K).
         let k = (if y_K mod 2 \<noteq> 0 then cv_n ec - k1 else k1) in
         rbind (ssa_challenge msg x_Q x_K ec hf) (\<lambda>c.
         rbind (rbind (ssa_sign_raw c q k x_K ec) (\<lambda>sg. checked_sign c sg x_Q ec verify)) (\<lambda>sg. Inr (sg, R))))
      = Inr (sg, receipt)"
    using S1 unfolding obind_Inr_iff split_paired_Ex prod.case option.inject by blast
  have op: "0 < k1 \<and> k1 < cv_n ec \<and> commit_point r ch R S2C_SSA_POINT_TAG ec hf = Some (Inr (aff_of (ec_times ec k1 (gen ec))))"
    if "0 \<le> r \<and> r < ec_p ec - 1" for r
    using commit_nonce_opens [OF v drawsD [OF d] _ _ c] that by blast
  have k1: "0 < k1" "k1 < cv_n ec" using op [of "rnd 0"] drawsD [OF d] by blast+
  define k where "k = (if py (ec_times ec k1 (gen ec)) mod 2 \<noteq> 0 then cv_n ec - k1 else k1)"
  obtain cc where cc: "ssa_challenge msg x_Q (px (ec_times ec k1 (gen ec))) ec hf = Inr cc"
    and S3: "rbind (rbind (ssa_sign_raw cc q k (px (ec_times ec k1 (gen ec))) ec) (\<lambda>sg. checked_sign cc sg x_Q ec verify)) (\<lambda>sg. Inr (sg, R)) = Inr (sg, receipt)"
    using S2 unfolding nonce_point [OF v k1 drawsD [OF d]] rbind_simps prod.case Let_def k_def [symmetric]
      rbind_eq_Inr_iff [of "ssa_challenge _ _ _ _ _"] by blast
  have "ssa_sign_raw cc q k (px (ec_times ec k1 (gen ec))) ec = Inr sg" "R = receipt"
    using S3 checked_sign_Inr unfolding rbind_eq_Inr_iff sum.inject prod.inject by metis+
  then show ?thesis using q k1 op cc even_multiple_of [OF v k1, folded k_def] by blast
qed

text \<open>What a call that signs returns.\<close>

lemma ssa_sign_msg_made:
  assumes v: "curve_valid ec" and d: "draws ec rnd"
    and S: "ssa_sign_msg rnd aux0 msg prv aux ec hf verify ch = Some (Inr (sg, receipt))"
  shows "\<exists>K k q x_Q c. even_multiple ec q x_Q \<and> x_Q = px (ec_times ec prv (gen ec)) \<and> 0 < prv \<and> prv < cv_n ec
    \<and> even_multiple ec k (px K) \<and> ssa_challenge msg x_Q (px K) ec hf = Inr c \<and> ssa_sign_raw c q k (px K) ec = Inr sg
    \<and> (case ch of None \<Rightarrow> receipt = None
       | Some h \<Rightarrow> \<exists>C. receipt = Some C \<and> (\<forall>r. 0 \<le> r \<and> r < ec_p ec - 1 \<longrightarrow>
           commit_point r h C S2C_SSA_POINT_TAG ec hf = Some (Inr (aff_of K))))"
proof (cases ch)
  case (Some h)
  obtain aux' where "obind (sign_commit rnd msg prv (commit_entropy (aux' @ h) S2C_SSA_DATA_TAG hf) h ec hf verify)
      (\<lambda>(sg, receipt). Some (Inr (sg, Some receipt))) = Some (Inr (sg, receipt))"
    using S unfolding ssa_sign_msg_def Some option.case obind_Inr_iff [of "Some _"] by blast
  then obtain C where C: "receipt = Some C" "sign_commit rnd msg prv (commit_entropy (aux' @ h) S2C_SSA_DATA_TAG hf) h ec hf verify = Some (Inr (sg, C))"
    unfolding obind_Inr_iff split_paired_Ex prod.case by blast
  then show ?thesis using sign_commit_parts [OF v d C(2)] Some by (simp only: option.case) blast
next
  case None
  obtain aux' where "obind (bip340_nonce rnd msg prv aux' ec hf) (\<lambda>(k, x_K, q, x_Q).
             Some (rbind (ssa_challenge msg x_Q x_K ec hf) (\<lambda>c.
               rbind (rbind (ssa_sign_raw c q k x_K ec) (\<lambda>sg. checked_sign c sg x_Q ec verify)) (\<lambda>sg. Inr (sg, None :: apoint option)))))
     = Some (Inr (sg, receipt))"
    using S unfolding ssa_sign_msg_def None option.case obind_Inr_iff [of "Some _"] by blast
  then obtain k x_K q x_Q c where b: "bip340_nonce rnd msg prv aux' ec hf = Some (Inr (k, x_K, q, x_Q))"
    and c: "ssa_challenge msg x_Q x_K ec hf = Inr c"
    and s: "rbind (rbind (ssa_sign_raw c q k x_K ec) (\<lambda>sg. checked_sign c sg x_Q ec verify)) (\<lambda>sg. Inr (sg, None :: apoint option)) = Inr (sg, receipt)"
    unfolding obind_Inr_iff split_paired_Ex prod.case option.inject rbind_eq_Inr_iff [of "ssa_challenge _ _ _ _ _"] by blast
  have r: "ssa_sign_raw c q k x_K ec = Inr sg" "receipt = None"
    using s checked_sign_Inr unfolding rbind_eq_Inr_iff sum.inject prod.inject by metis+
  note e = bip340_nonce_even [OF v d b]
  have K: "px (ec_times ec k (gen ec)) = x_K" using e(1) by (simp add: even_multiple_def)
  show ?thesis unfolding None option.case
    by (rule exI [of _ "ec_times ec k (gen ec)"], unfold K) (use e c r in blast)
qed

section \<open>What was signed is verified\<close>

lemma y_even_in_subgroup:
  assumes P: "member ec P" "P \<noteq> Inf" "even (py P)" and p: "ec_p ec mod 4 = 3"
  shows "y_even_in_subgroup_var (px P) ec = Inr (py P)"
proof -
  have y: "y_even_var ec (px P) = Inr (py P)" using y_even_of_px [OF P(1,2) p] P(3) by simp
  have "require_on_curve ec (px P, py P) = Inr ()" using require_member(1) [OF P(1,2)] by (simp add: aff_of_px_py)
  moreover have "assert_in_subgroup (px P, py P) ec = Inr ()"
    using assert_in_subgroup_iff [OF memberD(1) [OF P(1)] arep_aff_of_member [OF P(1)]] memberD(2) [OF P(1)]
    by (simp add: aff_of_px_py)
  ultimately show ?thesis by (simp add: y_even_in_subgroup_var_def y)
qed

lemma challenge_range: "ssa_challenge msg x y ec hf = Inr c \<Longrightarrow> 0 < cv_n ec \<Longrightarrow> 0 < c \<and> c < cv_n ec"
  using mod_nonzero_range by (auto simp: ssa_challenge_def Let_def rbind_eq_Inr_iff split: if_splits)

lemma ssa_assert_valid_range:
  assumes "ssa_assert_valid sg = Inr ()"
  shows "0 \<le> ss_r sg" "ss_r sg < ec_p (ss_ec sg)" "0 \<le> ss_s sg" "ss_s sg < cv_n (ss_ec sg)"
  using assms by (auto simp: ssa_assert_valid_def is_x_coordinate_var_def rbind_eq_Inr_iff split: if_splits)

lemma ssa_verify_msg_iff:
  assumes v: "curve_valid ec" and e: "endo_law ec" and p: "ec_p ec mod 4 = 3"
    and Q: "member ec Q" "Q \<noteq> Inf" "even (py Q)" and key: "x_from_bip340pub_key key ec = Inr (px Q)"
    and sg: "ss_ec sg = ec" "ssa_assert_valid sg = Inr ()" and c: "ssa_challenge msg (px Q) (ss_r sg) ec hf = Inr c"
    and k: "ssa_assert_commitment r ch receipt sg hf = Some (Inr ())"
  shows "ssa_verify_msg r msg key sg hf ch receipt = Some (Inr (schnorr_valid ec Q c (ss_r sg) (ss_s sg)))"
proof -
  have J: "jrep ec (px Q, py Q, 1) Q" using key_jrep [OF Q(1,2)] by (simp add: aff_of_px_py)
  have c': "0 \<le> c" "c \<le> cv_n ec" using challenge_range [OF c curve_n(2) [OF v]] by simp_all
  note r = ssa_assert_valid_range [OF sg(2), unfolded sg(1)]
  have "ssa_assert_as_valid_msg r msg key sg hf ch receipt =
      Some (ssa_assert_as_valid_raw c (px Q, py Q, 1) (ss_r sg) (ss_s sg) ec (ssa_fixed_points key ec))"
    using sg key c k y_even_in_subgroup [OF Q p] by (simp add: ssa_assert_as_valid_msg_def Let_def)
  then show ?thesis using ssa_verdict [OF Q(1) J e c' r(3) r(1,2)] key sg(1) by (simp add: ssa_verify_msg_def)
qed

lemma ssa_sign_verifies:
  assumes v: "curve_valid ec" and e: "endo_law ec" and p: "ec_p ec mod 4 = 3" and d: "draws ec rnd"
    and S: "ssa_sign_msg rnd aux0 msg prv aux ec hf verify ch = Some (Inr (sg, receipt))"
    and r: "0 \<le> r" "r < ec_p ec - 1"
    and key: "x_from_bip340pub_key key ec = Inr (px (ec_times ec prv (gen ec)))"
  shows "ssa_verify_msg r msg key sg hf ch receipt = Some (Inr True)"
proof -
  obtain K k q x_Q c where m: "even_multiple ec q x_Q" "x_Q = px (ec_times ec prv (gen ec))" "even_multiple ec k (px K)"
      "ssa_challenge msg x_Q (px K) ec hf = Inr c" "ssa_sign_raw c q k (px K) ec = Inr sg"
    and ch: "case ch of None \<Rightarrow> receipt = None
       | Some h \<Rightarrow> \<exists>C. receipt = Some C \<and> (\<forall>r. 0 \<le> r \<and> r < ec_p ec - 1 \<longrightarrow>
           commit_point r h C S2C_SSA_POINT_TAG ec hf = Some (Inr (aff_of K)))"
    using ssa_sign_msg_made [OF v d S] by blast
  note s = ssa_sign_raw_valid [OF v m(3,1,5)]
  let ?Q = "ec_times ec q (gen ec)"
  have Q: "member ec ?Q" "?Q \<noteq> Inf" "even (py ?Q)" "px ?Q = x_Q" using m(1) by (simp_all add: even_multiple_def)
  have "ssa_assert_commitment r ch receipt sg hf = Some (Inr ())"
  proof (cases ch)
    case (Some h)
    then obtain C where "receipt = Some C" "commit_point r h C S2C_SSA_POINT_TAG ec hf = Some (Inr (aff_of K))"
      using ch r by auto
    then show ?thesis using Some s(2,3) by (simp add: ssa_assert_commitment_def px_def)
  qed (use ch in \<open>simp add: ssa_assert_commitment_def\<close>)
  from ssa_verify_msg_iff [OF v e p Q(1-3) _ s(3,4) _ this, of key msg c] show ?thesis
    using key m(2,4) Q(4) s(1,2) by simp
qed

text \<open>The check of the signer on its own signature passes too.\<close>

lemma checked_sign_passes:
  assumes v: "curve_valid ec" and e: "endo_law ec" and p: "ec_p ec mod 4 = 3"
    and k: "even_multiple ec k r" and q: "even_multiple ec q x_Q" and c: "0 < c" "c < cv_n ec"
    and S: "ssa_sign_raw c q k r ec = Inr sg"
  shows "checked_sign c sg x_Q ec verify = Inr sg"
proof -
  note s = ssa_sign_raw_valid [OF v k q S]
  let ?Q = "ec_times ec q (gen ec)"
  have Q: "member ec ?Q" "?Q \<noteq> Inf" "even (py ?Q)" "px ?Q = x_Q" using q by (simp_all add: even_multiple_def)
  have y: "y_even_var ec x_Q = Inr (py ?Q)" using y_even_of_px [OF Q(1,2) p] Q(3,4) by simp
  have J: "jrep ec (x_Q, py ?Q, 1) ?Q" using key_jrep [OF Q(1,2)] Q(4) by (simp add: aff_of_px_py)
  note r = ssa_assert_valid_range [OF s(4), unfolded s(3)]
  have "caught_false (ssa_assert_as_valid_raw c (x_Q, py ?Q, 1) (ss_r sg) (ss_s sg) ec (ec_fixed_points ec)) = Inr True"
    using ssa_verdict [OF Q(1) J e _ _ r(3) r(1,2)] c s(1) by simp
  then have "ssa_assert_as_valid_raw c (x_Q, py ?Q, 1) (ss_r sg) (ss_s sg) ec (ec_fixed_points ec) = Inr ()"
    using caught_false_iff by blast
  then show ?thesis by (simp add: checked_sign_def y)
qed

section \<open>Recovery\<close>

lemma ssa_recover_valid:
  assumes v: "curve_valid ec" and e: "endo_law ec" and p: "ec_p ec mod 4 = 3" and Q: "member ec Q" "Q \<noteq> Inf"
    and c: "0 < c" "c < cv_n ec" and s: "0 \<le> s" and V: "schnorr_valid ec Q c r s"
  shows "ssa_recover_pub_key c r s ec = Inr (px Q)"
proof -
  let ?n = "cv_n ec"
  note G = member_generator [OF v] and ok = memberD(3) [OF Q(1)]
  obtain R where R: "member ec R" "R \<noteq> Inf" "even (py R)" "px R = r"
    and eq: "ec_times ec s (gen ec) = ec_plus ec R (ec_times ec c Q)" using V unfolding schnorr_valid_def by blast
  define i where "i = inv_mod c ?n"
  note inv = inv_n [OF v unit_not_dvd [OF c], folded i_def]
  have ir: "0 \<le> i" "i < ?n" using inv(1) mod_inv_var_Inr_iff [OF curve_n(2) [OF v]] by blast+
  have KJ: "jrep ec (r, py R, 1) R" using key_jrep [OF R(1,2)] R(4) by (simp add: aff_of_px_py)
  have "ec_times ec (i * s) (gen ec) = ec_plus ec (ec_times ec i R) Q"
  proof -
    have "ec_times ec (i * s) (gen ec) = ec_times ec i (ec_plus ec R (ec_times ec c Q))"
      using eq times_times [OF G, of i s] by simp
    also have "\<dots> = ec_plus ec (ec_times ec i R) (ec_times ec (i * c) Q)"
      using times_distrib [OF R(1) member_closed(3) [OF Q(1)]] times_times [OF Q(1)] by simp
    also have "ec_times ec (i * c) Q = ec_times ec 1 Q" using inv(3) by (intro times_cong [OF Q(1)]) (simp add: mult.commute)
    finally show ?thesis unfolding times_one [OF Q(1)] .
  qed
  moreover have "ec_times ec (?n - i) R = ec_minus ec (ec_times ec i R)"
    unfolding minus_times [OF R(1)] by (rule times_cong [OF R(1)]) simp
  ultimately have sum: "ec_plus ec (ec_times ec (?n - i) R) (ec_times ec (i * s) (gen ec)) = Q"
    using plus_minus_cancel [OF member_closed(3) [OF R(1)] Q(1)] by simp
  have nn: "0 \<le> ?n - i" "0 \<le> i * s" using ir s by simp_all
  obtain QJ where J: "jac_double_mult_var (?n - i) (r, py R, 1) (i * s) (cv_GJ ec) ec (ec_fixed_points ec) = Inr QJ" "jrep ec QJ Q"
    using double_mult_python_correct [OF R(1) KJ endo_lawD [OF e R(1)] G generator_jrep [OF v] endo_lawD [OF e G] nn]
    unfolding sum jac_double_mult_var_def returns_def by blast
  note f = jrep_finite [OF J(2) Q(2) ok]
  have y: "y_even_in_subgroup_var r ec = Inr (py R)" using y_even_in_subgroup [OF R(1-3) p] R(4) by simp
  show ?thesis using c f by (simp add: ssa_recover_pub_key_def y inv(1) J(1))
qed

end
