(* ===== verification/Ssa_Batch.thy ===== *)
theory Ssa_Batch
  imports Ssa_Correct
begin

text \<open>
  Batch verification: the equation checked on the whole batch holds exactly when the defects of the single
  signatures, weighted by the random multipliers, sum up to infinity. So a batch of valid signatures is
  always accepted, and one with a single invalid signature never is, whatever the multipliers.
\<close>

section \<open>Items\<close>

text \<open>An entry of the batch with what it stands for: the key, the nonce point and the challenge.\<close>

record batch_item =
  bi_msg :: octets
  bi_key :: bip340_key
  bi_sig :: ssa_sig
  bi_Q :: point
  bi_R :: point
  bi_c :: int

definition item_ok :: "curve \<Rightarrow> hash_fn \<Rightarrow> batch_item \<Rightarrow> bool" where
  "item_ok ec hf it \<longleftrightarrow>
     ss_ec (bi_sig it) = ec \<and> ssa_assert_valid (bi_sig it) = Inr ()
   \<and> x_from_bip340pub_key (bi_key it) ec = Inr (px (bi_Q it))
   \<and> member ec (bi_Q it) \<and> bi_Q it \<noteq> Inf \<and> even (py (bi_Q it))
   \<and> member ec (bi_R it) \<and> bi_R it \<noteq> Inf \<and> even (py (bi_R it)) \<and> px (bi_R it) = ss_r (bi_sig it)
   \<and> ssa_challenge (bi_msg it) (px (bi_Q it)) (ss_r (bi_sig it)) ec hf = Inr (bi_c it)"

definition item_valid :: "curve \<Rightarrow> batch_item \<Rightarrow> bool" where
  "item_valid ec it \<longleftrightarrow> schnorr_valid ec (bi_Q it) (bi_c it) (ss_r (bi_sig it)) (ss_s (bi_sig it))"

text \<open>How far a signature is from its equation.\<close>

definition defect :: "curve \<Rightarrow> batch_item \<Rightarrow> point" where
  "defect ec it = ec_plus ec (ec_times ec (ss_s (bi_sig it)) (gen ec))
     (ec_minus ec (ec_plus ec (bi_R it) (ec_times ec (bi_c it) (bi_Q it))))"

fun weighted_defects :: "(nat \<Rightarrow> int) \<Rightarrow> curve \<Rightarrow> nat \<Rightarrow> batch_item list \<Rightarrow> point" where
  "weighted_defects a ec i [] = Inf"
| "weighted_defects a ec i (it # items) =
     ec_plus ec (ec_times ec (a i) (defect ec it)) (weighted_defects a ec (Suc i) items)"

lemma diff_Inf_iff:
  assumes "member ec S" "member ec T"
  shows "ec_plus ec S (ec_minus ec T) = Inf \<longleftrightarrow> S = T"
  using ecn.neg_unique ecn.neg_neg ecn.neg_closed ecn.add_neg memberD(2) assms by metis

lemma item_members:
  assumes "item_ok ec hf it" "curve_valid ec"
  shows "member ec (ec_plus ec (bi_R it) (ec_times ec (bi_c it) (bi_Q it)))" "member ec (defect ec it)"
proof -
  show m: "member ec (ec_plus ec (bi_R it) (ec_times ec (bi_c it) (bi_Q it)))"
    using assms(1) by (intro member_closed) (simp_all add: item_ok_def)
  show "member ec (defect ec it)" unfolding defect_def by (intro member_closed m member_generator assms(2))
qed

lemma item_valid_iff:
  assumes ok: "item_ok ec hf it" and v: "curve_valid ec"
  shows "item_valid ec it \<longleftrightarrow> defect ec it = Inf"
proof -
  have i: "member ec (bi_Q it)" "member ec (bi_R it)" "bi_R it \<noteq> Inf" "even (py (bi_R it))" "px (bi_R it) = ss_r (bi_sig it)"
    using ok by (simp_all add: item_ok_def)
  have "item_valid ec it \<longleftrightarrow>
      ec_times ec (ss_s (bi_sig it)) (gen ec) = ec_plus ec (bi_R it) (ec_times ec (bi_c it) (bi_Q it))"
    unfolding item_valid_def schnorr_valid_def using i same_px_parity [OF i(2,3)] by metis
  then show ?thesis
    unfolding defect_def diff_Inf_iff [OF member_closed(3) [OF member_generator [OF v]] item_members(1) [OF ok v]] .
qed

section \<open>The two sides of the equation\<close>

fun batch_t :: "(nat \<Rightarrow> int) \<Rightarrow> nat \<Rightarrow> batch_item list \<Rightarrow> int" where
  "batch_t a i [] = 0"
| "batch_t a i (it # items) = a i * ss_s (bi_sig it) + batch_t a (Suc i) items"

fun batch_scalars :: "(nat \<Rightarrow> int) \<Rightarrow> curve \<Rightarrow> nat \<Rightarrow> batch_item list \<Rightarrow> int list" where
  "batch_scalars a ec i [] = []"
| "batch_scalars a ec i (it # items) = [a i, a i * bi_c it mod cv_n ec] @ batch_scalars a ec (Suc i) items"

definition batch_points :: "batch_item list \<Rightarrow> point list" where
  "batch_points items = concat (map (\<lambda>it. [bi_R it, bi_Q it]) items)"

lemma batch_points_simps [simp]:
  "batch_points [] = []" "batch_points (it # items) = bi_R it # bi_Q it # batch_points items"
  by (simp_all add: batch_points_def)

lemma batch_scalars_length: "length (batch_scalars a ec i items) = length (batch_points items)"
  by (induction items arbitrary: i) simp_all

lemma batch_points_ok:
  assumes "list_all (item_ok ec hf) items" "P \<in> set (batch_points items)"
  shows "member ec P \<and> P \<noteq> Inf \<and> even (py P)"
  using assms by (induction items) (auto simp: item_ok_def)

lemma batch_loop_runs:
  assumes "list_all (item_ok ec hf) items" "\<And>it. it \<in> set items \<Longrightarrow> 0 \<le> px (bi_Q it)" and p: "ec_p ec mod 4 = 3" "sized ec"
  shows "rfold (batch_step below ec hf) (t, ss, xs)
      (zip [i..<i + length items] (map (\<lambda>it. (bi_msg it, bi_key it, bi_sig it)) items))
    = Inr (t + batch_t (batch_rand below) i items, ss @ batch_scalars (batch_rand below) ec i items, xs @ map px (batch_points items))"
  using assms(1,2)
proof (induction items arbitrary: i t ss xs)
  case (Cons it items)
  have it: "x_from_bip340pub_key (bi_key it) ec = Inr (px (bi_Q it))" "member ec (bi_Q it)" "bi_Q it \<noteq> Inf" "even (py (bi_Q it))"
    "member ec (bi_R it)" "bi_R it \<noteq> Inf" "even (py (bi_R it))" "px (bi_R it) = ss_r (bi_sig it)"
    "ssa_challenge (bi_msg it) (px (bi_Q it)) (ss_r (bi_sig it)) ec hf = Inr (bi_c it)"
    using Cons.prems(1) by (simp_all add: item_ok_def)
  note c = member_coords [OF it(2,3)]
  have b: "x_only_bytes (px (bi_Q it)) ec = Inr (to_bytes (ec_p_size ec) (px (bi_Q it)))"
    using c(2,3) p(2) by (simp add: x_only_bytes_def int_to_bytes_def sized_def)
  note y = y_even_in_subgroup [OF it(2-4) p(1)] y_even_in_subgroup [OF it(5-7) p(1), unfolded it(8)]
  have step: "batch_step below ec hf (t, ss, xs) (i, bi_msg it, bi_key it, bi_sig it) =
      Inr (t + batch_rand below i * ss_s (bi_sig it),
        ss @ [batch_rand below i, batch_rand below i * bi_c it mod cv_n ec], xs @ [px (bi_R it), px (bi_Q it)])"
    by (simp add: batch_step_def it(1,8,9) b y Let_def)
  have z: "zip [i..<i + length (it # items)] (map (\<lambda>it. (bi_msg it, bi_key it, bi_sig it)) (it # items)) =
      (i, bi_msg it, bi_key it, bi_sig it) # zip [Suc i..<Suc i + length items] (map (\<lambda>it. (bi_msg it, bi_key it, bi_sig it)) items)"
    by (simp add: upt_conv_Cons del: upt_Suc)
  show ?case unfolding z rfold.simps step rbind_simps
    using Cons.IH [where i = "Suc i"] Cons.prems by (simp add: algebra_simps)
qed simp

text \<open>The left-hand side is the right-hand side and the weighted defects.\<close>

lemma weighted_defects_member:
  assumes "list_all (item_ok ec hf) items" "curve_valid ec"
  shows "member ec (weighted_defects a ec i items)"
  using assms by (induction items arbitrary: i) (auto intro: member_closed item_members)

lemma batch_lc_member:
  assumes "list_all (item_ok ec hf) items" "curve_valid ec"
  shows "member ec (ec_lc ec (zip (batch_scalars a ec i items) (batch_points items)))"
  using assms
proof (induction items arbitrary: i)
  case (Cons it items)
  then show ?case by (simp add: item_ok_def member_closed)
qed (simp add: member_closed)

lemma batch_sides:
  assumes "list_all (item_ok ec hf) items" "curve_valid ec"
  shows "ec_times ec (batch_t a i items) (gen ec) =
    ec_plus ec (ec_lc ec (zip (batch_scalars a ec i items) (batch_points items))) (weighted_defects a ec i items)"
  using assms(1)
proof (induction items arbitrary: i)
  case (Cons it items)
  note G = member_generator [OF assms(2)]
  have ok: "item_ok ec hf it" "list_all (item_ok ec hf) items" using Cons.prems by simp_all
  have m: "member ec (bi_Q it)" "member ec (bi_R it)" using ok(1) by (simp_all add: item_ok_def)
  let ?E = "ec_plus ec (bi_R it) (ec_times ec (bi_c it) (bi_Q it))" and ?D = "defect ec it"
  note E = item_members [OF ok(1) assms(2)]
  let ?L = "ec_lc ec (zip (batch_scalars a ec (Suc i) items) (batch_points items))"
    and ?W = "weighted_defects a ec (Suc i) items"
  note L = batch_lc_member [OF ok(2) assms(2), of a "Suc i"] and W = weighted_defects_member [OF ok(2) assms(2), of a "Suc i"]
  have sG: "ec_times ec (ss_s (bi_sig it)) (gen ec) = ec_plus ec ?E ?D"
    unfolding defect_def using plus_comm ecn.add_left_comm ecn.add_neg memberD(2) member_closed(2,3) E(1) G plus_Inf by metis
  have aE: "ec_times ec (a i) ?E = ec_plus ec (ec_times ec (a i) (bi_R it)) (ec_times ec (a i * bi_c it mod cv_n ec) (bi_Q it))"
    unfolding times_distrib [OF m(2) member_closed(3) [OF m(1)]] times_times [OF m(1)] times_mod [OF m(1)] ..
  let ?x = "ec_times ec (a i) (bi_R it)" and ?y = "ec_times ec (a i * bi_c it mod cv_n ec) (bi_Q it)" and ?d = "ec_times ec (a i) ?D"
  have mm: "member ec ?x" "member ec ?y" "member ec ?d" "member ec (ec_plus ec ?x ?y)"
    using member_closed m E by blast+
  have "ec_times ec (batch_t a i (it # items)) (gen ec) =
      ec_plus ec (ec_times ec (a i) (ec_times ec (ss_s (bi_sig it)) (gen ec))) (ec_times ec (batch_t a (Suc i) items) (gen ec))"
    by (simp add: times_add [OF G] times_times [OF G])
  also have "\<dots> = ec_plus ec (ec_plus ec (ec_plus ec ?x ?y) ?d) (ec_plus ec ?L ?W)"
    unfolding sG times_distrib [OF E] aE Cons.IH [OF ok(2)] ..
  also have "\<dots> = ec_plus ec (ec_plus ec (ec_plus ec ?x ?y) ?L) (ec_plus ec ?d ?W)"
    by (rule ecn.add_swap [OF memberD(2) [OF mm(4)] memberD(2) [OF mm(3)] memberD(2) [OF L] memberD(2) [OF W]])
  also have "ec_plus ec (ec_plus ec ?x ?y) ?L = ec_plus ec ?x (ec_plus ec ?y ?L)" by (rule plus_assoc [OF mm(1,2) L])
  finally show ?case by simp
qed simp

section \<open>The batch\<close>

lemma weighted_defects_valid:
  assumes "list_all (item_valid ec) items" "list_all (item_ok ec hf) items" "curve_valid ec"
  shows "weighted_defects a ec i items = Inf"
  using assms(1,2)
proof (induction items arbitrary: i)
  case (Cons it items)
  then have "defect ec it = Inf" using item_valid_iff [of ec hf it, OF _ assms(3)] by simp
  then have "ec_times ec (a i) (defect ec it) = Inf"
    using ecn.zm_zero [OF memberD(2) [OF member_generator [OF assms(3)]]] by simp
  then show ?case using Cons by simp
qed simp

lemma weighted_defects_one:
  assumes "list_all (item_valid ec) xs" "list_all (item_valid ec) ys" "list_all (item_ok ec hf) (xs @ it # ys)"
    and v: "curve_valid ec" and a: "0 < a (i + length xs)" "a (i + length xs) < cv_n ec"
  shows "weighted_defects a ec i (xs @ it # ys) = Inf \<longleftrightarrow> item_valid ec it"
  using assms(1,3) a
proof (induction xs arbitrary: i)
  case Nil
  have ok: "item_ok ec hf it" "list_all (item_ok ec hf) ys" using Nil.prems by simp_all
  note D = item_members(2) [OF ok(1) v]
  have "weighted_defects a ec i ([] @ it # ys) = ec_times ec (a i) (defect ec it)"
    using weighted_defects_valid [OF assms(2) ok(2) v] by simp
  then show ?case
    using times_Inf_iff [OF D] unit_not_dvd [of "a i" "cv_n ec"] Nil.prems(3,4) item_valid_iff [OF ok(1) v]
      ecn.zm_zero [OF memberD(2) [OF D]] by (cases "defect ec it = Inf") simp_all
next
  case (Cons x xs)
  have "defect ec x = Inf" using item_valid_iff [OF _ v, of hf x] Cons.prems by simp
  then have x: "ec_times ec (a i) (defect ec x) = Inf"
    using ecn.zm_zero [OF memberD(2) [OF member_generator [OF v]]] by simp
  have ok: "list_all (item_ok ec hf) (xs @ it # ys)" using Cons.prems by simp
  then show ?case using Cons.IH [of "Suc i"] Cons.prems x weighted_defects_member [OF ok v]
    ecn.zero_add [OF memberD(2)] by simp
qed

lemma weighted_defects_one_fault:
  assumes v: "curve_valid ec" and ok: "list_all (item_ok ec hf) items" and a: "\<And>i. 0 < a i \<and> a i < cv_n ec"
    and one: "length (filter (\<lambda>it. \<not> item_valid ec it) items) \<le> 1"
  shows "weighted_defects a ec 0 items = Inf \<longleftrightarrow> list_all (item_valid ec) items"
proof (cases "list_all (item_valid ec) items")
  case False
  then obtain it where it: "it \<in> set items" "\<not> item_valid ec it" by (auto simp: list_all_iff)
  then obtain xs ys where s: "items = xs @ it # ys" by (auto simp: in_set_conv_decomp)
  then have "filter (\<lambda>it. \<not> item_valid ec it) xs = []" "filter (\<lambda>it. \<not> item_valid ec it) ys = []"
    using one it(2) by simp_all
  then have "list_all (item_valid ec) xs" "list_all (item_valid ec) ys"
    by (simp_all add: filter_empty_conv list_all_iff)
  from weighted_defects_one [OF this ok [unfolded s] v] show ?thesis using a it(2) False by (simp add: s)
qed (use weighted_defects_valid [OF _ ok v] in blast)

text \<open>With every other multiplier fixed, at most one value of the multiplier of an invalid signature lets the batch pass.\<close>

lemma weighted_defects_split:
  assumes "list_all (item_ok ec hf) (xs @ it # ys)" "curve_valid ec"
  shows "weighted_defects a ec i (xs @ it # ys) = ec_plus ec (ec_times ec (a (i + length xs)) (defect ec it))
    (ec_plus ec (weighted_defects a ec i xs) (weighted_defects a ec (Suc (i + length xs)) ys))"
  using assms(1)
proof (induction xs arbitrary: i)
  case Nil
  then show ?case using ecn.zero_add [OF memberD(2) [OF weighted_defects_member [OF _ assms(2)]]] by simp
next
  case (Cons x xs)
  have ok: "item_ok ec hf x" "item_ok ec hf it" "list_all (item_ok ec hf) xs" "list_all (item_ok ec hf) ys" using Cons.prems by simp_all
  let ?x = "ec_times ec (a i) (defect ec x)" and ?d = "ec_times ec (a (i + length (x # xs))) (defect ec it)"
    and ?W = "weighted_defects a ec (Suc i) xs" and ?V = "weighted_defects a ec (Suc (i + length (x # xs))) ys"
  note m = member_closed(3) [OF item_members(2) [OF ok(1) assms(2)]] member_closed(3) [OF item_members(2) [OF ok(2) assms(2)]]
    weighted_defects_member [OF ok(3) assms(2)] weighted_defects_member [OF ok(4) assms(2)]
  have "weighted_defects a ec i ((x # xs) @ it # ys) = ec_plus ec ?x (ec_plus ec ?d (ec_plus ec ?W ?V))"
    using Cons.IH [of "Suc i"] Cons.prems by simp
  also have "\<dots> = ec_plus ec ?d (ec_plus ec ?x (ec_plus ec ?W ?V))"
    by (rule ecn.add_left_comm) (rule memberD(2) [OF m(1)] memberD(2) [OF m(2)] memberD(2) [OF member_closed(1) [OF m(3,4)]])+
  also have "ec_plus ec ?x (ec_plus ec ?W ?V) = ec_plus ec (ec_plus ec ?x ?W) ?V"
    by (rule plus_assoc [OF m(1,3,4), symmetric])
  finally show ?case by simp
qed

lemma weighted_defects_cong:
  "(\<And>j. i \<le> j \<Longrightarrow> j < i + length items \<Longrightarrow> a j = b j) \<Longrightarrow> weighted_defects a ec i items = weighted_defects b ec i items"
  by (induction items arbitrary: i) simp_all

lemma batch_multiplier_unique:
  assumes v: "curve_valid ec" and ok: "list_all (item_ok ec hf) (xs @ it # ys)" and bad: "\<not> item_valid ec it"
    and r: "0 < a (length xs)" "a (length xs) < cv_n ec" "0 < b (length xs)" "b (length xs) < cv_n ec"
    and eq: "\<And>j. j \<noteq> length xs \<Longrightarrow> a j = b j"
    and W: "weighted_defects a ec 0 (xs @ it # ys) = Inf" "weighted_defects b ec 0 (xs @ it # ys) = Inf"
  shows "a (length xs) = b (length xs)"
proof -
  have i: "item_ok ec hf it" "list_all (item_ok ec hf) xs" "list_all (item_ok ec hf) ys" using ok by simp_all
  note D = item_members(2) [OF i(1) v]
  let ?k = "length xs"
  let ?R = "ec_plus ec (weighted_defects a ec 0 xs) (weighted_defects a ec (Suc ?k) ys)"
  have R: "?R = ec_plus ec (weighted_defects b ec 0 xs) (weighted_defects b ec (Suc ?k) ys)"
    using weighted_defects_cong [of 0 xs a b ec] weighted_defects_cong [of "Suc ?k" ys a b ec] eq by simp
  have mR: "member ec ?R" by (intro member_closed(1) weighted_defects_member [OF i(2) v] weighted_defects_member [OF i(3) v])
  note m = member_closed(3) [OF D, of "a ?k"] member_closed(3) [OF D, of "b ?k"]
  have "ec_plus ec (ec_times ec (a ?k) (defect ec it)) ?R = ec_plus ec (ec_times ec (b ?k) (defect ec it)) ?R"
    using W weighted_defects_split [OF ok v, of a 0] weighted_defects_split [OF ok v, of b 0] R by simp
  then have "ec_plus ec ?R (ec_times ec (a ?k) (defect ec it)) = ec_plus ec ?R (ec_times ec (b ?k) (defect ec it))"
    unfolding plus_comm [OF m(1) mR] plus_comm [OF m(2) mR] .
  then have "ec_times ec (a ?k) (defect ec it) = ec_times ec (b ?k) (defect ec it)" using plus_cancel [OF mR m] by blast
  then have "cv_n ec dvd (a ?k - b ?k)"
    using times_eq_iff [OF D] bad item_valid_iff [OF i(1) v] by blast
  then show ?thesis using r by (metis mod_eq_dvd_iff mod_pos_pos_trivial less_imp_le)
qed

lemma multi_mult_x_only_even:
  assumes v: "curve_valid ec" and p: "ec_p ec mod 4 = 3" and l: "length scalars = length Ps" "2 \<le> length Ps"
    and P: "\<And>P. P \<in> set Ps \<Longrightarrow> member ec P \<and> P \<noteq> Inf \<and> even (py P)"
  shows "multi_mult_x_only_var scalars (map px Ps) ec = Inr (aff_of (ec_lc ec (zip scalars Ps)))"
proof -
  have "rbind (y_even_var ec (px P)) (\<lambda>y. Inr (px P, y)) = Inr (aff_of P)" if "P \<in> set Ps" for P
    using y_even_of_px [of ec P] P [OF that] p by (simp add: aff_of_px_py)
  then have r: "rmap (\<lambda>x. rbind (y_even_var ec x) (\<lambda>y. Inr (x, y))) (map px Ps) = Inr (map aff_of Ps)"
    by (induction Ps) simp_all
  have a: "map aff_abs (map aff_of Ps) = Ps"
    using require_member(2) P by (auto intro!: map_idI simp: comp_def)
  have "\<forall>A\<in>set (map aff_of Ps). require_on_curve ec A = Inr () \<and> member ec (aff_abs A)"
  proof
    fix A assume "A \<in> set (map aff_of Ps)"
    then obtain S where S: "A = aff_of S" "member ec S" "S \<noteq> Inf" using P by auto
    then show "require_on_curve ec A = Inr () \<and> member ec (aff_abs A)" using require_member(1,2) [OF S(2,3)] by simp
  qed
  from multi_mult_points_correct [OF v _ _ this, of scalars] l show ?thesis
    unfolding a by (simp add: multi_mult_x_only_var_def r)
qed

lemma batch_exact:
  assumes v: "curve_valid ec" and e: "endo_law ec" and p: "ec_p ec mod 4 = 3" "sized ec"
    and ok: "list_all (item_ok ec hf) items" and l: "2 \<le> length items" and r: "0 \<le> rnd" "rnd < ec_p ec - 1"
  shows "batch_verify rnd below (map bi_msg items) (map bi_key items) (map bi_sig items) hf
    = Some (Inr (weighted_defects (batch_rand below) ec 0 items = Inf))"
proof -
  let ?a = "batch_rand below"
  let ?L = "ec_lc ec (zip (batch_scalars ?a ec 0 items) (batch_points items))"
  note G = member_generator [OF v]
  have each: "ss_ec (bi_sig it) = ec" "ssa_assert_valid (bi_sig it) = Inr ()" "x_from_bip340pub_key (bi_key it) ec = Inr (px (bi_Q it))"
      "0 \<le> px (bi_Q it)"
    if "it \<in> set items" for it
    using ok that member_coords(2) by (auto simp: list_all_iff item_ok_def)
  have z: "zip (map bi_msg items) (zip (map bi_key items) (map bi_sig items)) = map (\<lambda>it. (bi_msg it, bi_key it, bi_sig it)) items"
    by (induction items) simp_all
  have loop: "rfold (batch_step below ec hf) (0, [], []) (zip [0..<length items] (map (\<lambda>it. (bi_msg it, bi_key it, bi_sig it)) items))
      = Inr (batch_t ?a 0 items, batch_scalars ?a ec 0 items, map px (batch_points items))"
    using batch_loop_runs [OF ok _ p, of below 0 "[]" "[]" 0] each(4) by simp
  have ne: "items \<noteq> []" using l by auto
  have hd: "ss_ec (hd (map bi_sig items)) = ec" using each(1) [of "hd items"] l by (cases items) simp_all
  have same: "\<not> list_ex (\<lambda>sg. eq_key (ss_ec sg) \<noteq> eq_key ec) (map bi_sig items)" using each(1) by (auto simp: list_ex_iff)
  have valid: "rmap ssa_assert_valid (map bi_sig items) = Inr (map (\<lambda>_. ()) (map bi_sig items))"
    by (rule rmap_Inr) (use each(2) in auto)
  have keys: "rmap (\<lambda>(Q, sg). x_from_bip340pub_key Q (ss_ec sg)) (zip (map bi_key items) (map bi_sig items)) = Inr (map (\<lambda>it. px (bi_Q it)) items)"
    using each(1,3) by (induction items) simp_all
  have len: "2 \<le> length (batch_points items)" using l by (cases items) simp_all
  have mm: "multi_mult_x_only_var (batch_scalars ?a ec 0 items) (map px (batch_points items)) ec = Inr (aff_of ?L)"
    by (rule multi_mult_x_only_even [OF v p(1) batch_scalars_length len]) (use batch_points_ok [OF ok] in blast)
  note L = batch_lc_member [OF ok v, of ?a 0] and W = weighted_defects_member [OF ok v, of ?a 0]
  have "ec_times ec (batch_t ?a 0 items) (gen ec) = ?L \<longleftrightarrow> weighted_defects ?a ec 0 items = Inf"
    unfolding batch_sides [OF ok v, of ?a 0] using plus_cancel [OF L W member_closed(4) [OF v]] by simp
  then have eq: "aff_of (ec_times ec (batch_t ?a 0 items) (gen ec)) = aff_of ?L \<longleftrightarrow> weighted_defects ?a ec 0 items = Inf"
    unfolding aff_of_inj [OF member_closed(3) [OF G] L] .
  have "assert_batch_as_valid rnd below (map bi_msg items) (map bi_key items) (map bi_sig items) hf =
      Some (if aff_of (ec_times ec (batch_t ?a 0 items) (gen ec)) \<noteq> aff_of ?L
        then Inl (BTClibEccRuntimeError ''signature verification failed'') else Inr ())"
    using l hd same ne by (simp add: assert_batch_as_valid_def Let_def valid z loop mult_generator(2) [OF v r] mm)
  then show ?thesis using eq by (simp add: batch_verify_def keys caught_false_def is_caught_def)
qed

end
