(* ===== verification/Dh_Dleq.thy ===== *)
theory Dh_Dleq
  imports Ssa_Correct
begin

text \<open>
  Models of \<^verbatim>\<open>src/btclib_ecc/ecc/dh.py\<close>, the Diffie-Hellman primitive with the cofactor, and of
  \<^verbatim>\<open>src/btclib_ecc/ecc/dleq.py\<close>, the proof of equality of two discrete logarithms of BIP 374, where \<open>ec\<close>
  and \<open>hf\<close> stand for \<^verbatim>\<open>secp256k1\<close> and \<^verbatim>\<open>sha256\<close>. The two sides of an exchange derive the same octets;
  a proof that is made verifies, verification checks the two equations of the specification, and two
  accepted answers to different challenges of one commitment yield the common logarithm.
\<close>

section \<open>Diffie-Hellman\<close>

definition diffie_hellman ::
  "(nat \<Rightarrow> int) \<Rightarrow> int \<Rightarrow> apoint \<Rightarrow> int \<Rightarrow> octets option \<Rightarrow> curve \<Rightarrow> hash_fn \<Rightarrow> octets result" where
  "diffie_hellman rnd dU QV sz shared_info ec hf =
     rbind (scalar_from_int dU ec) (\<lambda>d.
     rbind (require_on_curve ec QV) (\<lambda>_.
     if snd QV = 0 then Inl (BTClibEccValueError ''invalid (INF) public key'')
     else
       rbind (if cv_cofactor ec = 1 then Inr QV else mult (rnd 0) (cv_cofactor ec) (Some QV) ec) (\<lambda>QV_in_subgroup.
       rbind (mult (rnd 1) d (Some QV_in_subgroup) ec) (\<lambda>shared_secret_point.
         if snd shared_secret_point = 0 then Inl (BTClibEccRuntimeError ''invalid (INF) key'')
         else rbind (int_to_bytes (fst shared_secret_point) (ec_p_size ec)) (\<lambda>z.
           ansi_x9_63_kdf z sz hf shared_info)))))"

text \<open>What both sides derive: the key of the point that the product of the three scalars gives.\<close>

definition shared_key :: "point \<Rightarrow> int \<Rightarrow> octets option \<Rightarrow> curve \<Rightarrow> hash_fn \<Rightarrow> octets result" where
  "shared_key S sz shared_info ec hf =
     (if S = Inf then Inl (BTClibEccRuntimeError ''invalid (INF) key'')
      else ansi_x9_63_kdf (to_bytes (ec_p_size ec) (px S)) sz hf shared_info)"

lemma mult_member:
  assumes "member ec P" "P \<noteq> Inf" "endo_law ec" "0 \<le> rnd" "rnd < ec_p ec - 1"
  shows "mult rnd m (Some (aff_of P)) ec = Inr (aff_of (ec_times ec m P))"
  using mult_correct [OF memberD(1) [OF assms(1)] require_member(1) [OF assms(1,2)], of rnd m]
    require_member(2) [OF assms(1,2)] memberD(2) [OF assms(1)] endo_lawD [OF assms(3,1)] assms(4,5) by simp

lemma mult_INF:
  assumes "curve_valid ec" "endo_law ec" "require_on_curve ec INF_aff = Inr ()" "0 \<le> rnd" "rnd < ec_p ec - 1"
  shows "mult rnd m (Some INF_aff) ec = Inr INF_aff"
proof -
  have I: "member ec Inf" by (rule member_closed(4) [OF assms(1)])
  have "aff_abs INF_aff = Inf" by (simp add: aff_abs_def INF_aff_def)
  then show ?thesis
    using mult_correct [OF assms(1,3), of rnd m] memberD(2) [OF I] endo_lawD [OF assms(2) I] assms(4,5)
      ecn.zm_zero [OF memberD(2) [OF I]] by simp
qed

lemma diffie_hellman_shared:
  assumes v: "curve_valid ec" and e: "endo_law ec" and s: "sized ec" and d: "draws ec rnd" and a: "0 < a" "a < cv_n ec"
    and b: "0 < b" "b < cv_n ec" and h: "\<not> cv_n ec dvd cv_cofactor ec"
  shows "diffie_hellman rnd a (aff_of (ec_times ec b (gen ec))) sz info ec hf
    = shared_key (ec_times ec (a * b * cv_cofactor ec) (gen ec)) sz info ec hf"
proof -
  note G = member_generator [OF v]
  let ?Q = "ec_times ec b (gen ec)" and ?H = "ec_times ec (cv_cofactor ec * b) (gen ec)"
  have Q: "member ec ?Q" "?Q \<noteq> Inf" using member_closed(3) [OF G] gen_times_finite [OF v b] by blast+
  have nb: "\<not> cv_n ec dvd cv_cofactor ec * b"
    using h unit_not_dvd [OF b] curve_n(1) [OF v] by (simp add: prime_int_dvd_mult_iff)
  have H: "member ec ?H" "?H \<noteq> Inf"
    using member_closed(3) [OF G] times_unit_finite [OF G generator_finite [OF v] nb] by blast+
  let ?S = "ec_times ec (a * b * cv_cofactor ec) (gen ec)"
  have na: "\<not> cv_n ec dvd a * b * cv_cofactor ec"
    using nb unit_not_dvd [OF a] curve_n(1) [OF v] by (simp add: prime_int_dvd_mult_iff)
  have S: "member ec ?S" "?S \<noteq> Inf"
    using member_closed(3) [OF G] times_unit_finite [OF G generator_finite [OF v] na] by blast+
  have m1: "(if cv_cofactor ec = 1 then Inr (aff_of ?Q) else mult (rnd 0) (cv_cofactor ec) (Some (aff_of ?Q)) ec) = Inr (aff_of ?H)"
    using mult_member [OF Q e drawsD [OF d]] times_times [OF G] by simp
  have m2: "mult (rnd 1) a (Some (aff_of ?H)) ec = Inr (aff_of ?S)"
    using mult_member [OF H e drawsD [OF d], of 1 a] times_times [OF G] by (simp add: mult.assoc mult.left_commute mult.commute)
  note c = member_coords [OF S]
  have bytes: "int_to_bytes (px ?S) (ec_p_size ec) = Inr (to_bytes (ec_p_size ec) (px ?S))"
    using c(2,3) s by (simp add: int_to_bytes_def sized_def)
  have sa: "scalar_from_int a ec = Inr a" using a by (simp add: scalar_from_int_def)
  show ?thesis
    unfolding diffie_hellman_def sa rbind_simps require_member(1) [OF Q] if_not_P [OF require_member(3) [OF Q]] m1 m2
    using require_member(3) [OF S] bytes S(2) by (simp add: shared_key_def px_def)
qed

section \<open>Equality of discrete logarithms\<close>

definition DLEQ_AUX_TAG :: octets where "DLEQ_AUX_TAG = ascii ''BIP0374/aux''"
definition DLEQ_NONCE_TAG :: octets where "DLEQ_NONCE_TAG = ascii ''BIP0374/nonce''"
definition DLEQ_CHALLENGE_TAG :: octets where "DLEQ_CHALLENGE_TAG = ascii ''BIP0374/challenge''"
definition DLEQ_SCALAR_SIZE :: nat where "DLEQ_SCALAR_SIZE = 32"
definition DLEQ_PROOF_SIZE :: nat where "DLEQ_PROOF_SIZE = 64"

definition dleq_challenge ::
  "apoint \<Rightarrow> apoint \<Rightarrow> apoint \<Rightarrow> apoint \<Rightarrow> apoint \<Rightarrow> apoint \<Rightarrow> octets \<Rightarrow> curve \<Rightarrow> hash_fn \<Rightarrow> int result" where
  "dleq_challenge A B C R1 R2 G msg ec hf =
     rbind (rmap (\<lambda>P. bytes_from_point P ec True) [A, B, C, G, R1, R2]) (\<lambda>secs.
       Inr (int_from_bytes (tagged_hash DLEQ_CHALLENGE_TAG (concat secs @ msg) hf)))"

definition dleq_msg_bytes :: "octets option \<Rightarrow> octets result" where
  "dleq_msg_bytes msg = (case msg of None \<Rightarrow> Inr [] | Some m \<Rightarrow> bytes_from_octets m (Some [DLEQ_SCALAR_SIZE]))"

definition bytes_xor :: "octets \<Rightarrow> octets \<Rightarrow> octets result" where
  "bytes_xor a b =
     (if length a \<noteq> length b then Inl (ValueError ''zip() arguments of different lengths'')
      else Inr (map2 (XOR) a b))"

definition assert_proof_as_valid ::
  "pub_key \<Rightarrow> pub_key \<Rightarrow> pub_key \<Rightarrow> octets \<Rightarrow> pub_key \<Rightarrow> octets option \<Rightarrow> curve \<Rightarrow> hash_fn \<Rightarrow> unit result" where
  "assert_proof_as_valid A B C proof G msg ec hf =
     rbind (point_from_pub_key A ec) (\<lambda>A_point.
     rbind (point_from_pub_key B ec) (\<lambda>B_point.
     rbind (point_from_pub_key C ec) (\<lambda>C_point.
     rbind (point_from_pub_key G ec) (\<lambda>G_point.
     rbind (dleq_msg_bytes msg) (\<lambda>m.
     rbind (bytes_from_octets proof (Some [DLEQ_PROOF_SIZE])) (\<lambda>proof_bytes.
       let e = int_from_bytes (take DLEQ_SCALAR_SIZE proof_bytes); s = int_from_bytes (drop DLEQ_SCALAR_SIZE proof_bytes) in
       if cv_n ec \<le> s then Inl (BTClibEccValueError ''s not in 0..n-1'')
       else rbind (double_mult_var s G_point (- e) A_point ec) (\<lambda>R1.
         if snd R1 = 0 then Inl (BTClibEccValueError ''invalid (INF) R1'')
         else rbind (double_mult_var s B_point (- e) C_point ec) (\<lambda>R2.
           if snd R2 = 0 then Inl (BTClibEccValueError ''invalid (INF) R2'')
           else rbind (dleq_challenge A_point B_point C_point R1 R2 G_point m ec hf) (\<lambda>e'.
             if e \<noteq> e' then Inl (BTClibEccValueError ''invalid challenge'') else Inr ())))))))))"

definition verify_proof ::
  "pub_key \<Rightarrow> pub_key \<Rightarrow> pub_key \<Rightarrow> octets \<Rightarrow> pub_key \<Rightarrow> octets option \<Rightarrow> curve \<Rightarrow> hash_fn \<Rightarrow> bool result" where
  "verify_proof A B C proof G msg ec hf =
     rbind (rmap (\<lambda>P. point_from_pub_key P ec) [A, B, C, G]) (\<lambda>_.
     rbind (bytes_from_octets proof (Some [DLEQ_PROOF_SIZE])) (\<lambda>_.
     rbind (dleq_msg_bytes msg) (\<lambda>_.
       caught_false (assert_proof_as_valid A B C proof G msg ec hf))))"

definition generate_proof ::
  "(nat \<Rightarrow> int) \<Rightarrow> octets \<Rightarrow> int \<Rightarrow> pub_key \<Rightarrow> octets option \<Rightarrow> pub_key \<Rightarrow> octets option \<Rightarrow> curve \<Rightarrow> hash_fn \<Rightarrow> octets result" where
  "generate_proof rnd aux0 a B aux G msg ec hf =
     rbind (scalar_from_int a ec) (\<lambda>a.
     rbind (point_from_pub_key B ec) (\<lambda>B_point.
     rbind (point_from_pub_key G ec) (\<lambda>G_point.
     rbind (dleq_msg_bytes msg) (\<lambda>m.
     rbind (case aux of None \<Rightarrow> Inr aux0 | Some x \<Rightarrow> bytes_from_octets x (Some [DLEQ_SCALAR_SIZE])) (\<lambda>aux_bytes.
     rbind (mult (rnd 0) a (Some G_point) ec) (\<lambda>A.
     rbind (mult (rnd 1) a (Some B_point) ec) (\<lambda>C.
     rbind (int_to_bytes a DLEQ_SCALAR_SIZE) (\<lambda>ab.
     rbind (bytes_xor ab (tagged_hash DLEQ_AUX_TAG aux_bytes hf)) (\<lambda>t.
     rbind (bytes_from_point A ec True) (\<lambda>As.
     rbind (bytes_from_point C ec True) (\<lambda>Cs.
       let rand = tagged_hash DLEQ_NONCE_TAG (t @ As @ Cs @ m) hf; k = int_from_bytes rand mod cv_n ec in
       if k = 0 then Inl (BTClibEccRuntimeError ''invalid zero nonce'')
       else
         rbind (mult (rnd 2) k (Some G_point) ec) (\<lambda>R1.
         rbind (mult (rnd 3) k (Some B_point) ec) (\<lambda>R2.
         rbind (dleq_challenge A B_point C R1 R2 G_point m ec hf) (\<lambda>e.
           let s = (k + e * a) mod cv_n ec in
           rbind (int_to_bytes e DLEQ_SCALAR_SIZE) (\<lambda>es.
           rbind (int_to_bytes s DLEQ_SCALAR_SIZE) (\<lambda>ss.
           rbind (verify_proof (Key_Point A) (Key_Point B_point) (Key_Point C) (es @ ss) (Key_Point G_point) msg ec hf) (\<lambda>ok.
             if \<not> ok then Inl (BTClibEccRuntimeError ''implausible proof failure'') else Inr (es @ ss))))))))))))))))))"

text \<open>The two equations.\<close>

definition dleq_equations :: "curve \<Rightarrow> point \<Rightarrow> point \<Rightarrow> point \<Rightarrow> point \<Rightarrow> point \<Rightarrow> point \<Rightarrow> int \<Rightarrow> int \<Rightarrow> bool" where
  "dleq_equations ec G A B C R1 R2 e s \<longleftrightarrow>
     ec_times ec s G = ec_plus ec R1 (ec_times ec e A) \<and> ec_times ec s B = ec_plus ec R2 (ec_times ec e C)"

lemma double_mult_members:
  assumes "member ec P" "P \<noteq> Inf" "member ec S" "S \<noteq> Inf" "endo_law ec"
  shows "double_mult_var u (aff_of P) v (aff_of S) ec = Inr (aff_of (ec_plus ec (ec_times ec u P) (ec_times ec v S)))"
  using double_mult_var_correct [of ec "aff_of P" "aff_of S" u v] require_member [OF assms(1,2)] require_member [OF assms(3,4)]
    endo_lawD [OF assms(5)] assms(1,3) by simp

lemma commitment_point_iff:
  assumes "member ec P" "member ec S" "member ec R"
  shows "ec_plus ec (ec_times ec s P) (ec_times ec (- e) S) = R \<longleftrightarrow> ec_times ec s P = ec_plus ec R (ec_times ec e S)"
proof -
  have "ec_plus ec (ec_times ec s P) (ec_times ec (- e) S) = ec_plus ec (ec_minus ec (ec_times ec e S)) (ec_times ec s P)"
    unfolding minus_times [OF assms(2)] by (rule plus_comm [OF member_closed(3) [OF assms(1)] member_closed(3) [OF assms(2)]])
  then show ?thesis using solve_for_left [OF assms(3) member_closed(3) [OF assms(2)] member_closed(3) [OF assms(1)]] by metis
qed

lemma aff_of_finite: "member ec P \<Longrightarrow> snd (aff_of P) = 0 \<longleftrightarrow> P = Inf"
  using require_member(3) [of ec P] by (cases "P = Inf") (simp_all add: INF_aff_def)

lemma point_bytes:
  assumes "member ec P" "P \<noteq> Inf" "sized ec"
  shows "\<exists>bs. bytes_from_point (aff_of P) ec True = Inr bs"
  using member_coords [OF assms(1,2)] assms(3) require_member [OF assms(1,2)]
  by (simp add: bytes_from_point_def int_to_bytes_def sized_def aff_of_px_py)

text \<open>Verification of points of the group: the equations hold of some commitment the challenge is of.\<close>

lemma verify_proof_iff:
  assumes e: "endo_law ec" and s: "sized ec"
    and P: "member ec G" "G \<noteq> Inf" "member ec A" "A \<noteq> Inf" "member ec B" "B \<noteq> Inf" "member ec C" "C \<noteq> Inf"
    and m: "dleq_msg_bytes msg = Inr m" and l: "length proof = 64"
    and es: "ev = int_from_bytes (take 32 proof)" "sv = int_from_bytes (drop 32 proof)"
  shows "verify_proof (Key_Point (aff_of A)) (Key_Point (aff_of B)) (Key_Point (aff_of C)) proof (Key_Point (aff_of G)) msg ec hf
    = Inr (sv < cv_n ec \<and> (\<exists>R1 R2. member ec R1 \<and> R1 \<noteq> Inf \<and> member ec R2 \<and> R2 \<noteq> Inf \<and> dleq_equations ec G A B C R1 R2 ev sv
        \<and> dleq_challenge (aff_of A) (aff_of B) (aff_of C) (aff_of R1) (aff_of R2) (aff_of G) m ec hf = Inr ev))"
proof -
  define R1 where "R1 = ec_plus ec (ec_times ec sv G) (ec_times ec (- ev) A)"
  define R2 where "R2 = ec_plus ec (ec_times ec sv B) (ec_times ec (- ev) C)"
  have R: "member ec R1" "member ec R2" unfolding R1_def R2_def by (intro member_closed P)+
  have d: "double_mult_var sv (aff_of G) (- ev) (aff_of A) ec = Inr (aff_of R1)"
    "double_mult_var sv (aff_of B) (- ev) (aff_of C) ec = Inr (aff_of R2)"
    unfolding R1_def R2_def by (rule double_mult_members [OF P(1-4) e] double_mult_members [OF P(5-8) e])+
  have eqs: "dleq_equations ec G A B C R1' R2' ev sv \<longleftrightarrow> R1' = R1 \<and> R2' = R2" if "member ec R1'" "member ec R2'" for R1' R2'
    unfolding dleq_equations_def commitment_point_iff [OF P(1,3) that(1), symmetric] commitment_point_iff [OF P(5,7) that(2), symmetric]
      R1_def R2_def by blast
  note keys = key_of_member [OF P(1,2)] key_of_member [OF P(3,4)] key_of_member [OF P(5,6)] key_of_member [OF P(7,8)]
  define ch where "ch = dleq_challenge (aff_of A) (aff_of B) (aff_of C) (aff_of R1) (aff_of R2) (aff_of G) m ec hf"
  define X where "X = (if cv_n ec \<le> sv then Inl (BTClibEccValueError ''s not in 0..n-1'')
       else if snd (aff_of R1) = 0 then Inl (BTClibEccValueError ''invalid (INF) R1'')
       else if snd (aff_of R2) = 0 then Inl (BTClibEccValueError ''invalid (INF) R2'')
       else rbind ch (\<lambda>e'. if ev \<noteq> e' then Inl (BTClibEccValueError ''invalid challenge'') else Inr ()))"
  have len: "bytes_from_octets proof (Some [DLEQ_PROOF_SIZE]) = Inr proof" using l by (simp add: bytes_from_octets_def DLEQ_PROOF_SIZE_def)
  have ev: "ev = int_from_bytes (take DLEQ_SCALAR_SIZE proof)" "sv = int_from_bytes (drop DLEQ_SCALAR_SIZE proof)"
    using es by (simp_all add: DLEQ_SCALAR_SIZE_def)
  have "assert_proof_as_valid (Key_Point (aff_of A)) (Key_Point (aff_of B)) (Key_Point (aff_of C)) proof (Key_Point (aff_of G)) msg ec hf = X"
    unfolding assert_proof_as_valid_def keys rbind_simps m len Let_def ev [symmetric] d ch_def [symmetric] X_def by (rule refl)
  then have "verify_proof (Key_Point (aff_of A)) (Key_Point (aff_of B)) (Key_Point (aff_of C)) proof (Key_Point (aff_of G)) msg ec hf = caught_false X"
    unfolding verify_proof_def rmap.simps keys rbind_simps m len by simp
  also have "\<dots> = Inr (sv < cv_n ec \<and> R1 \<noteq> Inf \<and> R2 \<noteq> Inf \<and> ch = Inr ev)"
  proof (cases "sv < cv_n ec \<and> R1 \<noteq> Inf \<and> R2 \<noteq> Inf")
    case True
    obtain c where "ch = Inr c"
      using point_bytes [OF P(1,2) s] point_bytes [OF P(3,4) s] point_bytes [OF P(5,6) s] point_bytes [OF P(7,8) s]
        point_bytes [OF R(1) _ s] point_bytes [OF R(2) _ s] True by (auto simp: ch_def dleq_challenge_def)
    then show ?thesis using True aff_of_finite [OF R(1)] aff_of_finite [OF R(2)]
      by (auto simp: X_def caught_false_def is_caught_def)
  next
    case False
    then show ?thesis using aff_of_finite [OF R(1)] aff_of_finite [OF R(2)] by (auto simp: X_def caught_false_def is_caught_def)
  qed
  also have "(sv < cv_n ec \<and> R1 \<noteq> Inf \<and> R2 \<noteq> Inf \<and> ch = Inr ev) \<longleftrightarrow> (sv < cv_n ec \<and> (\<exists>R1 R2. member ec R1 \<and> R1 \<noteq> Inf \<and> member ec R2 \<and> R2 \<noteq> Inf \<and> dleq_equations ec G A B C R1 R2 ev sv
        \<and> dleq_challenge (aff_of A) (aff_of B) (aff_of C) (aff_of R1) (aff_of R2) (aff_of G) m ec hf = Inr ev))"
    using R eqs unfolding ch_def by blast
  finally show ?thesis .
qed

text \<open>Two answers to different challenges of the same commitment determine the common logarithm.\<close>

lemma dleq_extract:
  assumes P: "member ec G" "member ec A" "member ec B" "member ec C" "member ec R1" "member ec R2"
    and e: "dleq_equations ec G A B C R1 R2 e1 s1" "dleq_equations ec G A B C R1 R2 e2 s2" "\<not> cv_n ec dvd (e1 - e2)"
  shows "\<exists>a. A = ec_times ec a G \<and> C = ec_times ec a B"
proof -
  let ?n = "cv_n ec"
  define i where "i = inv_mod (e1 - e2) ?n"
  have i: "?n dvd ((e1 - e2) * i - 1)" unfolding i_def by (rule inv_n(3) [OF memberD(1) [OF P(1)] e(3)])
  have solve: "S = ec_times ec (i * (s1 - s2)) P"
    if m: "member ec P" "member ec S" "member ec R"
      and q: "ec_times ec s1 P = ec_plus ec R (ec_times ec e1 S)" "ec_times ec s2 P = ec_plus ec R (ec_times ec e2 S)" for P S R
  proof -
    note o = memberD(2) [OF m(3)] memberD(2) [OF member_closed(3) [OF m(2), of e1]] memberD(2) [OF member_closed(2) [OF m(3)]]
      memberD(2) [OF member_closed(2) [OF member_closed(3) [OF m(2), of e2]]]
    have "ec_times ec (s1 - s2) P = ec_plus ec (ec_times ec s1 P) (ec_minus ec (ec_times ec s2 P))" by (rule ecn.zm_diff [OF memberD(2) [OF m(1)]])
    also have "\<dots> = ec_plus ec (ec_plus ec R (ec_times ec e1 S)) (ec_plus ec (ec_minus ec R) (ec_minus ec (ec_times ec e2 S)))"
      unfolding q ecn.neg_add [OF memberD(2) [OF m(3)] memberD(2) [OF member_closed(3) [OF m(2)]]] ..
    also have "\<dots> = ec_plus ec (ec_plus ec R (ec_minus ec R)) (ec_plus ec (ec_times ec e1 S) (ec_minus ec (ec_times ec e2 S)))"
      by (rule ecn.add_swap [OF o(1-4)])
    also have "\<dots> = ec_times ec (e1 - e2) S"
      unfolding ecn.add_neg [OF memberD(2) [OF m(3)]] ecn.zm_diff [OF memberD(2) [OF m(2)]]
      by (rule ecn.zero_add [OF ecn.add_closed [OF o(2,4)]])
    finally have "ec_times ec (e1 - e2) S = ec_times ec (s1 - s2) P" ..
    then have "S = ec_times ec i (ec_times ec (s1 - s2) P)"
      using times_inverse_iff [OF m(2) member_closed(3) [OF m(1)] i] by blast
    then show ?thesis unfolding times_times [OF m(1)] .
  qed
  show ?thesis using solve [OF P(1,2,5)] solve [OF P(3,4,6)] e(1,2) unfolding dleq_equations_def by blast
qed

text \<open>
  A proof is made of every key in range, unless the derived nonce is zero: the check of the proof just made
  never fails, and what is returned verifies.
\<close>

lemma xor_same_length: "length a = length b \<Longrightarrow> \<exists>t. bytes_xor a b = Inr t"
  by (simp add: bytes_xor_def)

lemma take_drop_32: "length es = 32 \<Longrightarrow> take 32 (es @ ss) = es \<and> drop 32 (es @ ss) = ss"
  by simp

lemma generate_proof_complete:
  assumes e: "endo_law ec" and s: "sized ec" and d: "draws ec rnd" and P: "member ec G" "G \<noteq> Inf" "member ec B" "B \<noteq> Inf"
    and h: "hash_ok hf" "hf_size hf = 32" and n: "cv_n ec < 256 ^ 32" and a: "0 < a" "a < cv_n ec"
    and m: "dleq_msg_bytes msg = Inr m" and aux: "case aux of None \<Rightarrow> length aux0 = 32 | Some x \<Rightarrow> length x = 32"
  shows "(\<exists>proof. generate_proof rnd aux0 a (Key_Point (aff_of B)) aux (Key_Point (aff_of G)) msg ec hf = Inr proof
      \<and> verify_proof (Key_Point (aff_of (ec_times ec a G))) (Key_Point (aff_of B)) (Key_Point (aff_of (ec_times ec a B))) proof
          (Key_Point (aff_of G)) msg ec hf = Inr True)
    \<or> generate_proof rnd aux0 a (Key_Point (aff_of B)) aux (Key_Point (aff_of G)) msg ec hf
        = Inl (BTClibEccRuntimeError ''invalid zero nonce'')"
proof -
  let ?gen = "generate_proof rnd aux0 a (Key_Point (aff_of B)) aux (Key_Point (aff_of G)) msg ec hf"
  note v = memberD(1) [OF P(1)] and keys = key_of_member [OF P(1,2)] key_of_member [OF P(3,4)]
  note mG = mult_member [OF P(1,2) e drawsD [OF d]] and mB = mult_member [OF P(3,4) e drawsD [OF d]]
  define A where "A = ec_times ec a G"
  define C where "C = ec_times ec a B"
  note na = unit_not_dvd [OF a]
  have AC: "member ec A" "A \<noteq> Inf" "member ec C" "C \<noteq> Inf"
    unfolding A_def C_def using member_closed(3) times_unit_finite P na by blast+
  have sa: "scalar_from_int a ec = Inr a" using a by (simp add: scalar_from_int_def)
  obtain auxb where auxb: "(case aux of None \<Rightarrow> Inr aux0 | Some x \<Rightarrow> bytes_from_octets x (Some [DLEQ_SCALAR_SIZE])) = Inr auxb"
    using aux by (cases aux) (simp_all add: bytes_from_octets_def DLEQ_SCALAR_SIZE_def)
  have ab: "int_to_bytes a DLEQ_SCALAR_SIZE = Inr (to_bytes 32 a)" using a n by (simp add: int_to_bytes_def DLEQ_SCALAR_SIZE_def)
  have th: "length (tagged_hash tag x hf) = 32" for tag x using length_tagged_hash [OF h(1)] h(2) by simp
  obtain t where t: "bytes_xor (to_bytes 32 a) (tagged_hash DLEQ_AUX_TAG auxb hf) = Inr t"
    using xor_same_length [of "to_bytes 32 a"] th by force
  obtain As Cs where sec: "bytes_from_point (aff_of A) ec True = Inr As" "bytes_from_point (aff_of C) ec True = Inr Cs"
    using point_bytes [OF AC(1,2) s] point_bytes [OF AC(3,4) s] by blast
  define k where "k = int_from_bytes (tagged_hash DLEQ_NONCE_TAG (t @ As @ Cs @ m) hf) mod cv_n ec"
  define R1 where "R1 = ec_times ec k G"
  define R2 where "R2 = ec_times ec k B"
  define ch where "ch = dleq_challenge (aff_of A) (aff_of B) (aff_of C) (aff_of R1) (aff_of R2) (aff_of G) m ec hf"
  define fin where "fin = (\<lambda>e. let s = (k + e * a) mod cv_n ec in
           rbind (int_to_bytes e DLEQ_SCALAR_SIZE) (\<lambda>es.
           rbind (int_to_bytes s DLEQ_SCALAR_SIZE) (\<lambda>ss.
           rbind (verify_proof (Key_Point (aff_of A)) (Key_Point (aff_of B)) (Key_Point (aff_of C)) (es @ ss) (Key_Point (aff_of G)) msg ec hf) (\<lambda>ok.
             if \<not> ok then Inl (BTClibEccRuntimeError ''implausible proof failure'') else Inr (es @ ss)))))"
  have gen: "?gen = (if k = 0 then Inl (BTClibEccRuntimeError ''invalid zero nonce'') else rbind ch fin)"
    unfolding generate_proof_def sa keys rbind_simps m auxb mG mB A_def [symmetric] C_def [symmetric] ab t sec Let_def
      k_def [symmetric] R1_def [symmetric] R2_def [symmetric] ch_def [symmetric] fin_def by (rule refl)
  show ?thesis
  proof (cases "k = 0")
    case False
    have k: "0 < k" "k < cv_n ec" using mod_nonzero_range [OF curve_n(2) [OF v]] False by (simp_all add: k_def)
    have R: "member ec R1" "R1 \<noteq> Inf" "member ec R2" "R2 \<noteq> Inf"
      unfolding R1_def R2_def using member_closed(3) times_unit_finite P unit_not_dvd [OF k] by blast+
    obtain ev where ev: "ch = Inr ev"
      using point_bytes [OF P(1,2) s] point_bytes [OF AC(1,2) s] point_bytes [OF P(3,4) s] point_bytes [OF AC(3,4) s]
        point_bytes [OF R(1,2) s] point_bytes [OF R(3,4) s] by (auto simp: ch_def dleq_challenge_def)
    obtain pre where pre: "ev = int_from_bytes (tagged_hash DLEQ_CHALLENGE_TAG pre hf)"
      using ev unfolding ch_def dleq_challenge_def rbind_eq_Inr_iff by auto
    have er: "0 \<le> ev \<and> ev < 256 ^ 32"
      using int_from_bytes_bounds [of "tagged_hash DLEQ_CHALLENGE_TAG pre hf"] unfolding pre th .
    define sv where "sv = (k + ev * a) mod cv_n ec"
    have sr: "0 \<le> sv" "sv < cv_n ec" using curve_n(2) [OF v] by (simp_all add: sv_def)
    define pfb where "pfb = to_bytes 32 ev @ to_bytes 32 sv"
    have pfb: "length pfb = 64" "ev = int_from_bytes (take 32 pfb)" "sv = int_from_bytes (drop 32 pfb)"
      using er sr n by (simp_all add: pfb_def to_from_bytes)
    have eq: "ec_times ec sv S = ec_plus ec (ec_times ec k S) (ec_times ec ev (ec_times ec a S))" if "member ec S" for S
      unfolding times_times [OF that] times_add [OF that] sv_def times_mod [OF that] ..
    have "dleq_equations ec G A B C R1 R2 ev sv"
      unfolding dleq_equations_def A_def C_def R1_def R2_def using eq P(1,3) by blast
    then have ver: "verify_proof (Key_Point (aff_of A)) (Key_Point (aff_of B)) (Key_Point (aff_of C)) pfb (Key_Point (aff_of G)) msg ec hf = Inr True"
      unfolding verify_proof_iff [OF e s P(1,2) AC(1,2) P(3,4) AC(3,4) m pfb] using sr(2) R ev unfolding ch_def by blast
    have "fin ev = Inr pfb"
      unfolding fin_def Let_def sv_def [symmetric] using er sr n ver by (simp add: int_to_bytes_def DLEQ_SCALAR_SIZE_def pfb_def)
    then show ?thesis using gen False ev ver by (simp add: A_def C_def)
  qed (use gen in simp)
qed

end
