(* ===== verification/Reciprocity.thy ===== *)
theory Reciprocity
  imports Square_Roots
begin

text \<open>
  What the Jacobi loop of \<^verbatim>\<open>number_theory.py\<close> computes: the sign that counts how many multiples of the
  argument have their least absolute residue negative. The sign is multiplicative, its value at two and
  the law of reciprocity follow the turns of the loop, and for a prime that is three modulo four it is
  positive exactly on the squares.
\<close>

section \<open>Signs of residues\<close>

definition res_sign :: "int \<Rightarrow> int \<Rightarrow> int" where
  "res_sign n x = (if 2 * (x mod n) < n then 1 else - 1)"

definition absres :: "int \<Rightarrow> int \<Rightarrow> int" where
  "absres n x = (if 2 * (x mod n) < n then x mod n else n - x mod n)"

definition halfway :: "int \<Rightarrow> int" where "halfway n = (n - 1) div 2"

definition gauss_sign :: "int \<Rightarrow> int \<Rightarrow> int" where
  "gauss_sign a n = (\<Prod>i\<in>{1..halfway n}. res_sign n (a * i))"

lemma half_odd: "odd n \<Longrightarrow> n = 2 * halfway n + 1"
  by (auto simp: halfway_def elim!: oddE)

lemma res_sign_values: "res_sign n x = 1 \<or> res_sign n x = - 1"
  by (simp add: res_sign_def)

lemma res_sign_square [simp]: "res_sign n x * res_sign n x = 1"
  by (simp add: res_sign_def)

lemma res_sign_cong: "n dvd (x - y) \<Longrightarrow> res_sign n x = res_sign n y"
  by (simp add: res_sign_def mod_eq_dvd_iff [symmetric])

lemma residue_range: "0 < n \<Longrightarrow> \<not> n dvd x \<Longrightarrow> 0 < x mod n \<and> x mod n < n" for n :: int
  by (metis dvd_eq_mod_eq_0 order_less_le pos_mod_bound pos_mod_sign)

lemma res_sign_minus:
  assumes "odd n" "0 < n" "\<not> n dvd x"
  shows "res_sign n (- x) = - res_sign n x"
proof -
  have m: "0 < x mod n" "x mod n < n" using residue_range [OF assms(2,3)] by simp_all
  then have e: "(- x) mod n = n - x mod n" by (simp add: zmod_zminus1_eq_if)
  have "2 * (x mod n) \<noteq> n" using assms(1) by (metis dvd_triv_left)
  then show ?thesis unfolding res_sign_def e by auto
qed

lemma res_sign_sign_mult:
  assumes "odd n" "0 < n" "\<not> n dvd x" "e = 1 \<or> e = - 1"
  shows "res_sign n (e * x) = e * res_sign n x"
  using assms(4) res_sign_minus [OF assms(1-3)] by auto

lemma absres_cong:
  assumes "0 < n"
  shows "n dvd (x - res_sign n x * absres n x)"
proof -
  have "n dvd (x - x mod n)" by (simp add: minus_mod_eq_mult_div)
  moreover have "res_sign n x * absres n x = x mod n \<or> res_sign n x * absres n x = x mod n - n"
    by (simp add: res_sign_def absres_def)
  moreover have "x - (x mod n - n) = (x - x mod n) + n" by simp
  ultimately show ?thesis by (metis dvd_add_triv_right_iff)
qed

lemma absres_range:
  assumes "odd n" "0 < n" "\<not> n dvd x"
  shows "absres n x \<in> {1..halfway n}"
proof -
  have m: "0 < x mod n" "x mod n < n" using residue_range [OF assms(2,3)] by simp_all
  have "n = 2 * halfway n + 1" by (rule half_odd [OF assms(1)])
  then show ?thesis using m by (auto simp: absres_def)
qed

lemma coprime_mult_not_dvd:
  fixes n :: int
  assumes "coprime a n" "0 < i" "i < n"
  shows "\<not> n dvd a * i"
  using assms coprime_dvd_mult_right_iff [of n a i] zdvd_imp_le [of n i] by (auto simp: coprime_commute)

lemma half_less: "odd n \<Longrightarrow> 0 < n \<Longrightarrow> i \<le> halfway n \<Longrightarrow> i < n"
  using half_odd [of n] by linarith

lemma absres_bij:
  assumes n: "odd n" "0 < n" and a: "coprime a n"
  shows "bij_betw (\<lambda>i. absres n (a * i)) {1..halfway n} {1..halfway n}"
proof -
  let ?f = "\<lambda>i. absres n (a * i)"
  have nd: "\<not> n dvd a * i" if "i \<in> {1..halfway n}" for i
    using coprime_mult_not_dvd [OF a] half_less [OF n] that by simp
  have inj: "inj_on ?f {1..halfway n}"
  proof (rule inj_onI)
    fix i j assume ij: "i \<in> {1..halfway n}" "j \<in> {1..halfway n}" and e: "?f i = ?f j"
    have "n dvd (a * i - res_sign n (a * i) * ?f i)" "n dvd (a * j - res_sign n (a * j) * ?f i)"
      using absres_cong [OF n(2)] e by metis+
    then have "n dvd (a * i - a * j) \<or> n dvd (a * i + a * j)"
    proof -
      assume d: "n dvd (a * i - res_sign n (a * i) * ?f i)" "n dvd (a * j - res_sign n (a * j) * ?f i)"
      show ?thesis
      proof (cases "res_sign n (a * i) = res_sign n (a * j)")
        case True
        then show ?thesis using dvd_diff [OF d] by (simp add: algebra_simps)
      next
        case False
        then have "res_sign n (a * j) = - res_sign n (a * i)" using res_sign_values [of n "a * i"] res_sign_values [of n "a * j"] by auto
        then show ?thesis using dvd_add [OF d] by (simp add: algebra_simps)
      qed
    qed
    then have "n dvd a * (i - j) \<or> n dvd a * (i + j)" by (simp add: algebra_simps)
    then have "n dvd (i - j) \<or> n dvd (i + j)" using a by (simp add: coprime_dvd_mult_right_iff coprime_commute)
    moreover have b: "n = 2 * halfway n + 1" by (rule half_odd [OF n(1)])
    moreover have "0 < i + j" "i + j < n" "\<bar>i - j\<bar> < n" using ij b by auto
    ultimately show "i = j" using zdvd_imp_le [of n "i + j"] zdvd_imp_le [of n "\<bar>i - j\<bar>"] by auto
  qed
  have "?f ` {1..halfway n} \<subseteq> {1..halfway n}" using absres_range [OF n nd] by blast
  moreover have "card (?f ` {1..halfway n}) = card {1..halfway n}" by (rule card_image [OF inj])
  ultimately have "?f ` {1..halfway n} = {1..halfway n}" by (intro card_subset_eq) simp_all
  then show ?thesis using inj by (simp add: bij_betw_def)
qed

lemma gauss_sign_mult:
  assumes n: "odd n" "0 < n" and a: "coprime a n" and b: "coprime b n"
  shows "gauss_sign (a * b) n = gauss_sign a n * gauss_sign b n"
proof -
  let ?f = "\<lambda>i. absres n (b * i)"
  have t: "res_sign n (a * b * i) = res_sign n (b * i) * res_sign n (a * ?f i)" if i: "i \<in> {1..halfway n}" for i
  proof -
    have fi: "?f i \<in> {1..halfway n}" using bij_betwE [OF absres_bij [OF n b]] i by blast
    have "n dvd a * (b * i - res_sign n (b * i) * ?f i)" using absres_cong [OF n(2)] by (rule dvd_mult)
    then have "res_sign n (a * b * i) = res_sign n (res_sign n (b * i) * (a * ?f i))"
      by (intro res_sign_cong) (simp add: algebra_simps)
    also have "\<dots> = res_sign n (b * i) * res_sign n (a * ?f i)"
      by (rule res_sign_sign_mult [OF n coprime_mult_not_dvd [OF a] res_sign_values]) (use fi half_less [OF n] in simp_all)
    finally show ?thesis .
  qed
  have "gauss_sign (a * b) n = (\<Prod>i\<in>{1..halfway n}. res_sign n (b * i) * res_sign n (a * ?f i))"
    unfolding gauss_sign_def by (rule prod.cong) (use t in simp_all)
  also have "\<dots> = gauss_sign b n * (\<Prod>i\<in>{1..halfway n}. res_sign n (a * ?f i))"
    by (simp add: prod.distrib gauss_sign_def)
  also have "(\<Prod>i\<in>{1..halfway n}. res_sign n (a * ?f i)) = gauss_sign a n"
    unfolding gauss_sign_def by (rule prod.reindex_bij_betw [OF absres_bij [OF n b]])
  finally show ?thesis by (simp add: mult.commute)
qed

lemma gauss_sign_cong: "n dvd (a - b) \<Longrightarrow> gauss_sign a n = gauss_sign b n"
  unfolding gauss_sign_def by (rule prod.cong) (simp_all add: res_sign_cong flip: left_diff_distrib)

lemma gauss_sign_values: "gauss_sign a n = 1 \<or> gauss_sign a n = - 1"
proof -
  have "finite A \<Longrightarrow> (\<Prod>i\<in>A. res_sign n (a * i)) = 1 \<or> (\<Prod>i\<in>A. res_sign n (a * i)) = - 1" for A :: "int set"
  proof (induction A rule: finite_induct)
    case (insert i A)
    then show ?case using res_sign_values [of n "a * i"] by auto
  qed simp
  then show ?thesis by (simp add: gauss_sign_def)
qed

lemma gauss_sign_square: "odd n \<Longrightarrow> 0 < n \<Longrightarrow> coprime s n \<Longrightarrow> gauss_sign (s * s) n = 1"
  using gauss_sign_mult [of n s s] gauss_sign_values [of s n] by auto

lemma gauss_sign_1 [simp]: "gauss_sign 1 n = 1"
proof -
  have "res_sign n i = 1" if "i \<in> {1..halfway n}" for i
  proof -
    have "i \<le> (n - 1) div 2" "0 < i" using that by (simp_all add: halfway_def)
    then have "2 * i < n" by linarith
    then show ?thesis using \<open>0 < i\<close> by (simp add: res_sign_def)
  qed
  then show ?thesis by (simp add: gauss_sign_def)
qed

section \<open>Counting\<close>

text \<open>The sign as a parity: that of the quotients, for an odd argument.\<close>

definition quotients :: "int \<Rightarrow> int \<Rightarrow> int" where
  "quotients a n = (\<Sum>i\<in>{1..halfway n}. a * i div n)"

definition negatives :: "int \<Rightarrow> int \<Rightarrow> int" where
  "negatives a n = (\<Sum>i\<in>{1..halfway n}. if res_sign n (a * i) = 1 then 0 else 1)"

lemma gauss_sign_negatives: "gauss_sign a n = (if even (negatives a n) then 1 else - 1)"
proof -
  have "finite A \<Longrightarrow> (\<Prod>i\<in>A. res_sign n (a * i)) = (if even (\<Sum>i\<in>A. if res_sign n (a * i) = 1 then 0 else 1 :: int) then 1 else - 1)"
    for A :: "int set"
  proof (induction A rule: finite_induct)
    case (insert i A)
    then show ?case using res_sign_values [of n "a * i"] by auto
  qed simp
  then show ?thesis by (simp add: gauss_sign_def negatives_def)
qed

lemma residue_sum_parity:
  assumes n: "odd n" "0 < n" and a: "coprime a n"
  shows "even ((a - 1) * (\<Sum>i\<in>{1..halfway n}. i) - quotients a n - negatives a n)"
proof -
  let ?S = "\<Sum>i\<in>{1..halfway n}. i" and ?f = "\<lambda>i. absres n (a * i)"
  have even_sum: "(\<And>i. i \<in> A \<Longrightarrow> even (g i)) \<Longrightarrow> even (\<Sum>i\<in>A. g i :: int)" for A :: "int set" and g
    by (rule dvd_sum) simp
  have "even (\<Sum>i\<in>{1..halfway n}. a * i - a * i div n - ?f i - (if res_sign n (a * i) = 1 then 0 else 1))"
  proof (rule even_sum)
    fix i
    have "a * i = a * i div n * n + a * i mod n" by simp
    then have "a * i - a * i div n - ?f i - (if res_sign n (a * i) = 1 then 0 else 1)
        = a * i div n * (n - 1) + (a * i mod n - ?f i - (if res_sign n (a * i) = 1 then 0 else 1))" by (simp add: algebra_simps)
    moreover have "even (a * i mod n - ?f i - (if res_sign n (a * i) = 1 then 0 else 1))"
      using n(1) by (simp add: absres_def res_sign_def)
    ultimately show "even (a * i - a * i div n - ?f i - (if res_sign n (a * i) = 1 then 0 else 1))" using n(1) by simp
  qed
  moreover have "(\<Sum>i\<in>{1..halfway n}. ?f i) = ?S"
    using sum.reindex_bij_betw [OF absres_bij [OF n a], of "\<lambda>i. i"] .
  moreover have "(\<Sum>i\<in>{1..halfway n}. a * i) = a * ?S" by (simp add: sum_distrib_left)
  ultimately have "even (a * ?S - quotients a n - ?S - negatives a n)"
    by (simp only: sum_subtractf quotients_def negatives_def)
  moreover have "a * ?S - quotients a n - ?S - negatives a n = (a - 1) * ?S - quotients a n - negatives a n"
    by (simp add: algebra_simps)
  ultimately show ?thesis by simp
qed

lemma gauss_sign_odd:
  assumes "odd n" "0 < n" "coprime a n" "odd a"
  shows "gauss_sign a n = (if even (quotients a n) then 1 else - 1)"
  using residue_sum_parity [OF assms(1-3)] assms(4) by (auto simp: gauss_sign_negatives)

lemma sum_first: "0 \<le> h \<Longrightarrow> 2 * (\<Sum>i\<in>{1..h}. i) = h * (h + 1)" for h :: int
proof (induction h rule: int_ge_induct)
  case (step h)
  have "{1..h + 1} = insert (h + 1) {1..h}" using step(1) by auto
  then show ?case using step by (simp add: algebra_simps)
qed simp

lemma gauss_sign_2:
  assumes n: "odd n" "0 < n"
  shows "gauss_sign 2 n = (if n mod 8 \<in> {3, 5} then - 1 else 1)"
proof -
  let ?S = "\<Sum>i\<in>{1..halfway n}. i"
  have "quotients 2 n = 0"
    unfolding quotients_def by (rule sum.neutral) (use half_odd [OF n(1)] in auto)
  then have p: "even (negatives 2 n) \<longleftrightarrow> even ?S" using residue_sum_parity [OF n, of 2] n(1) by simp
  have S: "2 * ?S = halfway n * (halfway n + 1)" by (rule sum_first) (use n(2) in \<open>simp add: halfway_def\<close>)
  obtain q r where qr: "halfway n = 4 * q + r" "0 \<le> r" "r < 4"
    using mult_div_mod_eq [of 4 "halfway n"] pos_mod_bound [of 4 "halfway n"] pos_mod_sign [of 4 "halfway n"] by (metis zero_less_numeral)
  have n8: "n mod 8 = 2 * r + 1"
  proof -
    have "n = 8 * q + (2 * r + 1)" using half_odd [OF n(1)] qr(1) by simp
    then show ?thesis using qr(2,3) by simp
  qed
  have "r = 0 \<or> r = 1 \<or> r = 2 \<or> r = 3" using qr by linarith
  then have "even ?S \<longleftrightarrow> r = 0 \<or> r = 3"
  proof (elim disjE)
    assume r: "r = 0"
    then have "?S = 2 * (q * (4 * q + 1))" using S qr(1) by (simp add: algebra_simps)
    then show ?thesis using r by simp
  next
    assume r: "r = 1"
    then have "?S = 2 * (q * (4 * q + 3)) + 1" using S qr(1) by (simp add: algebra_simps)
    then show ?thesis using r by simp
  next
    assume r: "r = 2"
    then have "?S = 2 * (q * (4 * q + 5) + 1) + 1" using S qr(1) by (simp add: algebra_simps)
    then show ?thesis using r by simp
  next
    assume r: "r = 3"
    then have "?S = 2 * (q * (4 * q + 7) + 3)" using S qr(1) by (simp add: algebra_simps)
    then show ?thesis using r by simp
  qed
  then show ?thesis unfolding gauss_sign_negatives p n8 using qr by auto
qed

text \<open>The two quotient sums fill the rectangle.\<close>

lemma div_as_count:
  assumes n: "0 < n" and k: "0 \<le> k" "k div n \<le> M" and d: "\<And>j. 0 < j \<Longrightarrow> j \<le> M \<Longrightarrow> n * j \<noteq> k"
  shows "k div n = (\<Sum>j\<in>{1..M}. if n * j < k then 1 else 0 :: int)"
proof -
  have "{j \<in> {1..M}. n * j < k} = {1..k div n}"
  proof (intro set_eqI iffI)
    fix j assume "j \<in> {j \<in> {1..M}. n * j < k}"
    then have "1 \<le> j" "j * n \<le> k" by (simp_all add: mult.commute)
    then show "j \<in> {1..k div n}" using zdiv_mono1 [of "j * n" k n] n by simp
  next
    fix j assume j: "j \<in> {1..k div n}"
    then have "n * j \<le> n * (k div n)" using n by (intro mult_left_mono) simp_all
    also have "\<dots> \<le> k" using n by (simp add: minus_mod_eq_mult_div [symmetric])
    finally have "n * j \<le> k" .
    then show "j \<in> {j \<in> {1..M}. n * j < k}" using j k(2) d [of j] by (auto simp: order_less_le)
  qed
  then have "(\<Sum>j\<in>{1..M}. if n * j < k then 1 else 0 :: int) = int (card {1..k div n})"
    using sum.inter_filter [of "{1..M}" "\<lambda>_. 1 :: int" "\<lambda>j. n * j < k"] by (simp add: sum.If_cases Int_def)
  then show ?thesis using k(1) n by (simp add: pos_imp_zdiv_nonneg_iff)
qed

lemma quotients_as_count:
  assumes m: "odd m" "0 < m" and n: "odd n" "0 < n" and c: "coprime m n"
  shows "quotients m n = (\<Sum>i\<in>{1..halfway n}. \<Sum>j\<in>{1..halfway m}. if n * j < m * i then 1 else 0)"
  unfolding quotients_def
proof (rule sum.cong)
  fix i assume i: "i \<in> {1..halfway n}"
  note hn = half_odd [OF n(1)] and hm = half_odd [OF m(1)]
  have nd: "\<not> n dvd m * i" using coprime_mult_not_dvd [OF c] half_less [OF n] i by simp
  show "m * i div n = (\<Sum>j\<in>{1..halfway m}. if n * j < m * i then 1 else 0)"
  proof (rule div_as_count [OF n(2)])
    show "0 \<le> m * i" using m(2) i by simp
    have "2 * (m * i) \<le> m * (2 * halfway n)" using i m(2) by simp
    also have "\<dots> < n * m" using hn m(2) by (simp add: algebra_simps)
    finally have "2 * (m * i) < n * m" .
    moreover have "n * m < n * (2 * (halfway m + 1))" by (rule mult_strict_left_mono [OF _ n(2)]) (use hm in presburger)
    ultimately have "m * i < n * (halfway m + 1)" by (simp add: algebra_simps)
    moreover have "n * (m * i div n) \<le> m * i" using n(2) by (simp add: minus_mod_eq_mult_div [symmetric])
    ultimately have "n * (m * i div n) < n * (halfway m + 1)" by simp
    then have "m * i div n < halfway m + 1" unfolding mult_less_cancel_left_pos [OF n(2)] .
    then show "m * i div n \<le> halfway m" by simp
    show "n * j \<noteq> m * i" if "0 < j" "j \<le> halfway m" for j using nd by (metis dvd_triv_left)
  qed
qed simp

lemma quotients_rectangle:
  assumes m: "odd m" "0 < m" and n: "odd n" "0 < n" and c: "coprime m n"
  shows "quotients m n + quotients n m = halfway m * halfway n"
proof -
  have c': "coprime n m" using c by (simp add: coprime_commute)
  have one: "(if n * j < m * i then 1 else 0) + (if m * i < n * j then 1 else 0) = (1 :: int)"
    if "i \<in> {1..halfway n}" for i j
  proof -
    have "\<not> n dvd m * i" using coprime_mult_not_dvd [OF c] half_less [OF n] that by simp
    then have "n * j \<noteq> m * i" by (metis dvd_triv_left)
    then show ?thesis by auto
  qed
  have "quotients n m = (\<Sum>i\<in>{1..halfway n}. \<Sum>j\<in>{1..halfway m}. if m * i < n * j then 1 else 0)"
    unfolding quotients_as_count [OF n m c'] by (rule sum.swap)
  then have "quotients m n + quotients n m =
      (\<Sum>i\<in>{1..halfway n}. \<Sum>j\<in>{1..halfway m}. (if n * j < m * i then 1 else 0) + (if m * i < n * j then 1 else 0))"
    unfolding quotients_as_count [OF m n c] by (simp add: sum.distrib)
  also have "\<dots> = (\<Sum>i\<in>{1..halfway n}. \<Sum>j\<in>{1..halfway m}. 1)"
    by (rule sum.cong [OF refl], rule sum.cong [OF refl]) (use one in blast)
  also have "\<dots> = halfway m * halfway n" using m(2) n(2) by (simp add: halfway_def)
  finally show ?thesis .
qed

lemma odd_half_iff: "odd n \<Longrightarrow> odd (halfway n) \<longleftrightarrow> n mod 4 = 3"
  unfolding halfway_def by presburger

lemma gauss_reciprocity:
  assumes m: "odd m" "0 < m" and n: "odd n" "0 < n" and c: "coprime m n"
  shows "gauss_sign m n = (if m mod 4 = 3 \<and> n mod 4 = 3 then - gauss_sign n m else gauss_sign n m)"
proof -
  have c': "coprime n m" using c by (simp add: coprime_commute)
  have "odd (halfway m * halfway n) \<longleftrightarrow> m mod 4 = 3 \<and> n mod 4 = 3"
    using odd_half_iff [OF m(1)] odd_half_iff [OF n(1)] by simp
  moreover have "odd (halfway m * halfway n) \<longleftrightarrow> odd (quotients m n + quotients n m)"
    by (simp only: quotients_rectangle [OF assms])
  ultimately show ?thesis
    unfolding gauss_sign_odd [OF n c m(1)] gauss_sign_odd [OF m c' n(1)] by auto
qed

section \<open>The loop of the code\<close>

lemma gauss_sign_power_2:
  assumes "odd n" "0 < n"
  shows "gauss_sign (2 ^ t) n = (if odd t \<and> n mod 8 \<in> {3, 5} then - 1 else 1)"
proof (induction t)
  case (Suc t)
  have "gauss_sign (2 ^ Suc t) n = gauss_sign 2 n * gauss_sign (2 ^ t) n"
    unfolding power_Suc by (rule gauss_sign_mult [OF assms]) (use assms(1) in simp_all)
  then show ?case unfolding Suc gauss_sign_2 [OF assms] by auto
qed simp

lemma legendre_loop_gauss:
  assumes "odd p" "0 < p" "0 \<le> a"
  shows "legendre_loop a p r = (if coprime a p then r * gauss_sign a p else 0)"
  using assms
proof (induction a p r rule: legendre_loop.induct)
  case (1 a p r)
  show ?case
  proof (cases "0 < a")
    case True
    define t where "t = trailing_zeros a"
    define a' where "a' = a div 2 ^ t"
    have a': "a = 2 ^ t * a'" "odd a'" "0 < a'"
      using trailing_zeros_split [OF True] by (simp_all add: a'_def t_def mult.commute)
    define r1 where "r1 = (if odd t \<and> p mod 8 \<in> {3, 5} then - r else r)"
    define r2 where "r2 = (if a' mod 4 = 3 \<and> p mod 4 = 3 then - r1 else r1)"
    have t2: "coprime (2 ^ t) p" using "1.prems"(1) by simp
    have c: "coprime a p \<longleftrightarrow> coprime a' p" using t2 by (simp add: a'(1))
    have c': "coprime a' p \<longleftrightarrow> coprime (p mod a') a'"
      using a'(3) by (simp add: coprime_commute)
    have "legendre_loop a p r = legendre_loop (p mod a') a' r2"
      using True by (subst legendre_loop.simps) (simp add: Let_def a'_def r1_def r2_def t_def)
    also have "\<dots> = (if coprime (p mod a') a' then r2 * gauss_sign (p mod a') a' else 0)"
      using 1(1) [OF True t_def a'_def r1_def r2_def a'(2,3)] a'(3) by simp
    also have "gauss_sign (p mod a') a' = gauss_sign p a'"
      by (rule gauss_sign_cong) (simp add: mod_eq_dvd_iff [symmetric])
    finally have l: "legendre_loop a p r = (if coprime a' p then r2 * gauss_sign p a' else 0)" unfolding c' .
    have "r2 * gauss_sign p a' = r * gauss_sign a p" if k: "coprime a' p"
    proof -
      have "gauss_sign a p = gauss_sign (2 ^ t) p * gauss_sign a' p"
        unfolding a'(1) by (rule gauss_sign_mult [OF "1.prems"(1,2) t2 k])
      then show ?thesis
        unfolding gauss_sign_power_2 [OF "1.prems"(1,2)] gauss_reciprocity [OF a'(2,3) "1.prems"(1,2) k] r2_def r1_def by simp
    qed
    then show ?thesis using l c by simp
  next
    case False
    with "1.prems" have "a = 0" by simp
    moreover have "gauss_sign 0 1 = 1" by (simp add: gauss_sign_def halfway_def)
    ultimately show ?thesis using "1.prems" by (auto simp: legendre_loop.simps [of 0])
  qed
qed

lemma legendre_value:
  assumes "odd p" "1 < p"
  shows "legendre_symbol_var a p = Inr (if coprime a p then gauss_sign a p else 0)"
proof -
  have "coprime (a mod p) p \<longleftrightarrow> coprime a p" using assms(2) by simp
  moreover have "gauss_sign (a mod p) p = gauss_sign a p"
    by (rule gauss_sign_cong) (simp add: mod_eq_dvd_iff [symmetric])
  ultimately show ?thesis
    using assms by (simp add: legendre_symbol_var_def assert_valid_modulus_def legendre_loop_gauss)
qed

lemma legendre_square:
  assumes "odd p" "1 < p" "coprime s p"
  shows "legendre_symbol_var (s * s) p = Inr 1"
  using assms by (simp add: legendre_value gauss_sign_square)

lemma gauss_sign_minus_1:
  assumes "n mod 4 = 3" "0 < n"
  shows "gauss_sign (- 1) n = - 1"
proof -
  have n: "odd n" using assms(1) by presburger
  have "res_sign n (- 1 * i) = - 1" if i: "i \<in> {1..halfway n}" for i
  proof -
    have b: "0 < i" "i < n" "2 * i < n" using i half_odd [OF n] by auto
    have "\<not> n dvd i" using zdvd_not_zless b by blast
    then have "res_sign n (- i) = - res_sign n i" by (rule res_sign_minus [OF n assms(2)])
    then show ?thesis using b by (simp add: res_sign_def)
  qed
  then have "gauss_sign (- 1) n = (\<Prod>i\<in>{1..halfway n}. - 1)" unfolding gauss_sign_def by (rule prod.cong [OF refl])
  also have "\<dots> = (- 1) ^ nat (halfway n)" by simp
  moreover have "odd (nat (halfway n))" using odd_half_iff [OF n] assms by (simp add: even_nat_iff halfway_def)
  ultimately show ?thesis by simp
qed

section \<open>Prime moduli\<close>

lemma prod_cong_mod:
  fixes p :: int
  assumes cong: "\<And>i. i \<in> A \<Longrightarrow> p dvd (f i - g i)"
  shows "p dvd (prod f A - prod g A)"
proof -
  have "prod f A mod p = (\<Prod>i\<in>A. f i mod p) mod p" by (rule mod_prod_eq [symmetric])
  also have "(\<Prod>i\<in>A. f i mod p) = (\<Prod>i\<in>A. g i mod p)"
    by (rule prod.cong [OF refl]) (use cong in \<open>simp add: mod_eq_dvd_iff\<close>)
  also have "\<dots> mod p = prod g A mod p" by (rule mod_prod_eq)
  finally show ?thesis by (simp add: mod_eq_dvd_iff)
qed

lemma prime_not_dvd_prod: "finite A \<Longrightarrow> prime_int p \<Longrightarrow> (\<And>i. i \<in> A \<Longrightarrow> \<not> p dvd f i) \<Longrightarrow> \<not> p dvd prod f A"
  by (induction A rule: finite_induct) (auto simp: prime_int_dvd_mult_iff dest: prime_int_gt_1)

lemma euler_criterion:
  assumes p: "prime_int p" "odd p" and a: "coprime a p"
  shows "p dvd (a ^ nat (halfway p) - gauss_sign a p)"
proof -
  let ?A = "{1..halfway p}" and ?f = "\<lambda>i. absres p (a * i)"
  note p0 = prime_int_pos [OF p(1)]
  have "(\<Prod>i\<in>?A. a * i) = a ^ nat (halfway p) * \<Prod>?A" by (simp add: prod.distrib)
  moreover have "(\<Prod>i\<in>?A. res_sign p (a * i) * ?f i) = gauss_sign a p * \<Prod>?A"
    using prod.reindex_bij_betw [OF absres_bij [OF p(2) p0 a], of "\<lambda>i. i"]
    by (simp add: prod.distrib gauss_sign_def)
  moreover have "p dvd ((\<Prod>i\<in>?A. a * i) - (\<Prod>i\<in>?A. res_sign p (a * i) * ?f i))"
    by (rule prod_cong_mod) (simp_all add: absres_cong [OF p0])
  ultimately have "p dvd (a ^ nat (halfway p) - gauss_sign a p) * \<Prod>?A" by (simp add: left_diff_distrib)
  moreover have "\<not> p dvd \<Prod>?A"
    by (rule prime_not_dvd_prod) (use p(1) half_less [OF p(2) p0] zdvd_not_zless in auto)
  ultimately show ?thesis using p(1) by (simp add: prime_int_dvd_mult_iff)
qed

lemma half_3_mod_4:
  assumes "p mod 4 = 3" "0 < p"
  shows "2 * (nat (p div 4) + 1) = Suc (nat (halfway p))"
proof -
  have "halfway p = 2 * (p div 4) + 1" using assms unfolding halfway_def by presburger
  then show ?thesis using assms(2) by (simp add: nat_add_distrib nat_mult_distrib)
qed

lemma euler_root_3_mod_4:
  assumes p: "prime_int p" "p mod 4 = 3" and a: "coprime a p" "gauss_sign a p = 1"
  shows "p dvd (a ^ (nat (p div 4) + 1) * a ^ (nat (p div 4) + 1) - a)"
proof -
  have o: "odd p" using p(2) by presburger
  have "a ^ (nat (p div 4) + 1) * a ^ (nat (p div 4) + 1) - a = a * (a ^ nat (halfway p) - 1)"
    unfolding power_add [symmetric] mult_2 [symmetric] half_3_mod_4 [OF p(2) prime_int_pos [OF p(1)]]
    by (simp add: algebra_simps)
  then show ?thesis using euler_criterion [OF p(1) o a(1)] a(2) by simp
qed

lemma legendre_square_iff:
  assumes p: "prime_int p" "p mod 4 = 3" and a: "coprime a p"
  shows "legendre_symbol_var a p = Inr 1 \<longleftrightarrow> (\<exists>s. p dvd (s * s - a))"
proof -
  have o: "odd p" "1 < p" using p(2) prime_int_gt_1 [OF p(1)] by presburger+
  show ?thesis
  proof
    assume "legendre_symbol_var a p = Inr 1"
    then have "gauss_sign a p = 1" using a by (simp add: legendre_value [OF o])
    then show "\<exists>s. p dvd (s * s - a)" using euler_root_3_mod_4 [OF p a] by blast
  next
    assume "\<exists>s. p dvd (s * s - a)"
    then obtain s where s: "p dvd (s * s - a)" by blast
    have "coprime (s * s) p" using a coprime_cong [OF s] by simp
    then have "gauss_sign (s * s) p = 1" using gauss_sign_square [OF o(1)] o(2) by simp
    then show "legendre_symbol_var a p = Inr 1"
      using gauss_sign_cong [OF s] a by (simp add: legendre_value [OF o])
  qed
qed

lemma legendre_root:
  assumes "odd p" "1 < p" "p dvd (s * s - a)" "coprime a p"
  shows "legendre_symbol_var a p = Inr 1"
proof -
  have "coprime (s * s) p" using assms(4) coprime_cong [OF assms(3)] by simp
  then have "gauss_sign (s * s) p = 1" using gauss_sign_square [OF assms(1)] assms(2) by simp
  then show ?thesis using gauss_sign_cong [OF assms(3)] assms(4) by (simp add: legendre_value [OF assms(1,2)])
qed

end
