(* ===== verification/Signature_Checks.thy ===== *)
theory Signature_Checks
  imports Reciprocity Dsa_Message
begin

text \<open>
  The checks on x-coordinates: a point of the curve always passes them, and where the field prime is three
  modulo four nothing else does. So the signature a signer makes passes the check of its own fields.
\<close>

section \<open>X-coordinates\<close>

lemma curve_field:
  assumes "curve_valid ec"
  shows "prime_int (ec_p ec)" "odd (ec_p ec)" "1 < ec_p ec"
  using assms prime_odd by (auto simp: curve_valid_def curve_ok_def curve_params_def)

lemma x_coordinate_decided:
  assumes "curve_valid ec"
  shows "\<exists>b. is_x_coordinate_var x ec = Inr b"
  unfolding is_x_coordinate_var_def legendre_value [OF curve_field(2,3) [OF assms]] rbind_simps
  by (cases "0 \<le> x \<and> x < ec_p ec") (simp_all only: if_True if_False simp_thms, blast+)

lemma x_coordinate_of_root:
  assumes v: "curve_valid ec" and x: "0 \<le> x" "x < ec_p ec" and y: "ec_p ec dvd (y * y - ec_y2 ec x)"
  shows "is_x_coordinate_var x ec = Inr True"
proof (cases "coprime (ec_y2 ec x) (ec_p ec)")
  case True
  from legendre_root [OF curve_field(2,3) [OF v] y True] show ?thesis using x by (simp add: is_x_coordinate_var_def)
next
  case False
  then show ?thesis using x by (simp add: is_x_coordinate_var_def legendre_value [OF curve_field(2,3) [OF v]])
qed

lemma x_coordinate_member:
  assumes v: "curve_valid ec" and P: "member ec P" "P \<noteq> Inf"
  shows "is_x_coordinate_var (px P) ec = Inr True"
proof -
  note c = member_coords [OF P]
  have "ec_p ec dvd (py P * py P - ec_y2 ec (px P))" using c(6) by (metis ec_y2_def mod_eq_dvd_iff mod_mod_trivial)
  then show ?thesis by (rule x_coordinate_of_root [OF v c(2,3)])
qed

lemma x_coordinate_iff:
  assumes v: "curve_valid ec" and p: "ec_p ec mod 4 = 3"
  shows "is_x_coordinate_var x ec = Inr True \<longleftrightarrow>
    0 \<le> x \<and> x < ec_p ec \<and> (\<exists>y. y * y mod ec_p ec = ec_y2 ec x)"
proof
  assume L: "is_x_coordinate_var x ec = Inr True"
  then have x: "0 \<le> x" "x < ec_p ec" by (auto simp: is_x_coordinate_var_def split: if_splits)
  have "\<exists>y. ec_p ec dvd (y * y - ec_y2 ec x)"
  proof (cases "coprime (ec_y2 ec x) (ec_p ec)")
    case True
    then have "legendre_symbol_var (ec_y2 ec x) (ec_p ec) = Inr 1"
      using L x gauss_sign_values [of "ec_y2 ec x" "ec_p ec"]
      by (auto simp: is_x_coordinate_var_def legendre_value [OF curve_field(2,3) [OF v]])
    then show ?thesis using legendre_square_iff [OF curve_field(1) [OF v] p True] by blast
  next
    case False
    then have "ec_p ec dvd ec_y2 ec x" using prime_int_coprime [OF curve_field(1) [OF v]] by blast
    then show ?thesis by (intro exI [of _ 0]) simp
  qed
  then obtain y where "y * y mod ec_p ec = ec_y2 ec x mod ec_p ec" using mod_eq_if_dvd_diff by blast
  then show "0 \<le> x \<and> x < ec_p ec \<and> (\<exists>y. y * y mod ec_p ec = ec_y2 ec x)" using x by (auto simp: ec_y2_def)
next
  assume R: "0 \<le> x \<and> x < ec_p ec \<and> (\<exists>y. y * y mod ec_p ec = ec_y2 ec x)"
  then obtain y where "y * y mod ec_p ec = ec_y2 ec x" by blast
  then have "ec_p ec dvd (y * y - ec_y2 ec x)" by (metis ec_y2_def mod_eq_dvd_iff mod_mod_trivial)
  then show "is_x_coordinate_var x ec = Inr True" using x_coordinate_of_root [OF v] R by blast
qed

section \<open>The check of an ECDSA signature\<close>

lemma congruent_x_reaches:
  assumes v: "curve_valid ec" and x: "is_x_coordinate_var (r + int j * cv_n ec) ec = Inr True"
  shows "congruent_x r ec = Inr True"
  using x
proof (induction j arbitrary: r)
  case 0
  then have "r < ec_p ec" by (auto simp: is_x_coordinate_var_def split: if_splits)
  then show ?case using 0 curve_n(2) [OF v] by (simp add: congruent_x.simps [of r])
next
  case (Suc j)
  note n = curve_n(2) [OF v]
  obtain b where b: "is_x_coordinate_var r ec = Inr b" using x_coordinate_decided [OF v] by blast
  have "congruent_x (r + cv_n ec) ec = Inr True" using Suc by (simp add: algebra_simps)
  moreover have "r + int (Suc j) * cv_n ec < ec_p ec"
    using Suc.prems by (auto simp: is_x_coordinate_var_def split: if_splits)
  then have "r < ec_p ec" using mult_nonneg_nonneg [of "int (Suc j)" "cv_n ec"] n by linarith
  ultimately show ?case using n b by (cases b) (simp_all add: congruent_x.simps [of r])
qed

lemma dsa_assert_valid_signed:
  assumes v: "curve_valid ec" and S: "signed_with ec c q R (ds_r sg) (ds_s sg) key_id" and ec: "ds_ec sg = ec"
  shows "dsa_assert_valid sg = Inr ()"
proof -
  have R: "member ec R" "R \<noteq> Inf" "px R mod cv_n ec = ds_r sg" "0 < ds_r sg"
      "0 < ds_s sg" "ds_s sg < cv_n ec"
    using S by (simp_all add: signed_with_def)
  have n: "0 < cv_n ec" by (rule curve_n(2) [OF v])
  have "ds_r sg < cv_n ec" using R(3) n by (metis pos_mod_bound)
  have "px R = ds_r sg + int (nat (px R div cv_n ec)) * cv_n ec"
    using R(3) member_coords(2) [OF R(1,2)] n by (simp add: pos_imp_zdiv_nonneg_iff) (metis add.commute div_mult_mod_eq)
  then have "congruent_x (ds_r sg) ec = Inr True"
    using x_coordinate_member [OF v R(1,2)] congruent_x_reaches [OF v, of "ds_r sg"] by metis
  then show ?thesis using R ec \<open>ds_r sg < cv_n ec\<close> by (simp add: dsa_assert_valid_def)
qed

end
