(* ===== verification/Test_Schemes.thy ===== *)
theory Test_Schemes
  imports Test_Curve19 Ssa_Batch Dh_Dleq Signature_Checks
begin

text \<open>
  Values on the curve of nineteen elements for the examples about the schemes: a constant random draw, two
  keys, and a hash function of thirty-two octets next to the one of a single octet.
\<close>

lemma ec19_endo_law: "endo_law ec19"
  by (simp add: endo_law_def)

lemma ec19_gen: "gen ec19 = Pt 4 16"
  by (simp add: aff_abs_def)

lemma ec19_key: "member ec19 (ec_times ec19 k (gen ec19))"
  by (rule member_closed(3) [OF member_generator [OF ec19_valid]])

lemma ec19_draws: "draws ec19 (\<lambda>_. 1)"
  by (simp add: draws_def)

lemma ec19_multiples:
  "ec_times ec19 3 (Pt 4 16) = Pt 6 16" "ec_times ec19 5 (Pt 4 16) = Pt 12 1" "ec_times ec19 7 (Pt 4 16) = Pt 8 18"
  "ec_times ec19 8 (Pt 4 16) = Pt 12 18" "ec_times ec19 11 (Pt 4 16) = Pt 18 18"
  unfolding ec19_def by code_simp+

lemma ec19_members: "member ec19 (Pt 6 16)" "member ec19 (Pt 8 18)" "member ec19 (Pt 12 18)" "member ec19 (Pt 18 18)"
  using ec19_key [of 3] ec19_key [of 7] ec19_key [of 8] ec19_key [of 11] by (simp_all only: ec19_gen ec19_multiples)

lemma ec19_verify_keys: "even (py (Pt 6 16))" "even (py (Pt 8 18))" "even (py (Pt 12 18))" "even (py (Pt 18 18))"
  by (simp_all add: py_def)

definition toy_hash_32 :: hash_fn where
  "toy_hash_32 = \<lparr>hf_digest = (\<lambda>m. map (\<lambda>i. foldl (\<lambda>v b. 3 * v + b) (of_nat i) m) [0..<32]), hf_size = 32, hf_block = 64\<rparr>"

lemma toy_hash_32_ok: "hash_ok toy_hash_32"
  by (simp add: hash_ok_def toy_hash_32_def)

lemma toy_hash_32_sel [simp]: "hf_size toy_hash_32 = 32" "hf_block toy_hash_32 = 64"
  by (simp_all add: toy_hash_32_def)

end
