(* ===== verification/Scheme_Properties.thy ===== *)
theory Scheme_Properties
  imports Test_Schemes
begin

text \<open>The properties of the Schnorr signatures, the key agreement and the discrete logarithm proofs.\<close>

section \<open>Schnorr signatures\<close>

text \<open>
  C16: The Schnorr verifier decides the specification of BIP 340: on a well-formed signature it answers
  whether a point of even ordinate and abscissa \<open>r\<close> solves \<open>s G = R + c Q\<close>, for the point \<open>Q\<close> of even ordinate
  the key spells.
\<close>

theorem schnorr_verification_decides_spec:
  assumes "curve_valid ec" "endo_law ec" "ec_p ec mod 4 = 3" "member ec Q" "Q \<noteq> Inf" "even (py Q)"
    and "x_from_bip340pub_key key ec = Inr (px Q)" "ss_ec sg = ec" "ssa_assert_valid sg = Inr ()"
    and "ssa_challenge msg (px Q) (ss_r sg) ec hf = Inr c"
  shows "ssa_verify_msg rnd msg key sg hf None None = Some (Inr (schnorr_valid ec Q c (ss_r sg) (ss_s sg)))"
  by (rule ssa_verify_msg_iff [OF assms]) (simp add: ssa_assert_commitment_def)

theorem schnorr_verification_decides_spec_witness:
  "ssa_verify_msg 1 [1] (X_Int 12) \<lparr>ss_r = 8, ss_s = 1, ss_ec = ec19\<rparr> toy_hash None None
    = Some (Inr (schnorr_valid ec19 (Pt 12 18) 9 8 1))"
proof -
  have "ssa_assert_valid \<lparr>ss_r = 8, ss_s = 1, ss_ec = ec19\<rparr> = Inr ()" "ssa_challenge [1] 12 8 ec19 toy_hash = Inr 9"
    unfolding ec19_def by code_simp+
  then show ?thesis
    using schnorr_verification_decides_spec [OF ec19_valid ec19_endo_law _ ec19_members(3) _ ec19_verify_keys(3), of "X_Int 12"
        "\<lparr>ss_r = 8, ss_s = 1, ss_ec = ec19\<rparr>" "[1]" toy_hash 9 1]
    by (simp add: px_def)
qed

text \<open>
  C17: What any of the ways of signing returns (plain or committing to a value) verifies under the signer's
  key, in whichever form the key is given, with the receipt that opens the commitment.
\<close>

theorem schnorr_sign_then_verify:
  assumes "curve_valid ec" "endo_law ec" "ec_p ec mod 4 = 3" "draws ec rnd"
    and "ssa_sign_msg rnd aux0 msg prv aux ec hf verify commit = Some (Inr (sg, receipt))"
    and "0 \<le> r" "r < ec_p ec - 1" "x_from_bip340pub_key key ec = Inr (px (ec_times ec prv (gen ec)))"
  shows "ssa_verify_msg r msg key sg hf commit receipt = Some (Inr True)"
  by (rule ssa_sign_verifies [OF assms])

theorem schnorr_sign_then_verify_witness:
  "ssa_verify_msg 1 [1] (X_Int 6) \<lparr>ss_r = 9, ss_s = 10, ss_ec = ec19\<rparr> toy_hash (Some [9]) (Some (9, 16)) = Some (Inr True)"
proof (rule schnorr_sign_then_verify [OF ec19_valid ec19_endo_law _ ec19_draws])
  show "ssa_sign_msg (\<lambda>_. 1) [7] [1] 3 (Some [3]) ec19 toy_hash True (Some [9])
      = Some (Inr (\<lparr>ss_r = 9, ss_s = 10, ss_ec = ec19\<rparr>, Some (9, 16)))"
    unfolding ec19_def by code_simp
  show "x_from_bip340pub_key (X_Int 6) ec19 = Inr (px (ec_times ec19 3 (gen ec19)))"
    by (simp only: ec19_gen ec19_multiples x_from_bip340pub_key.simps) (simp add: px_def)
qed simp_all

definition batch_passes :: "int \<Rightarrow> (nat \<Rightarrow> int) \<Rightarrow> batch_item list \<Rightarrow> hash_fn \<Rightarrow> bool" where
  "batch_passes rnd below items hf \<longleftrightarrow>
     batch_verify rnd below (map bi_msg items) (map bi_key items) (map bi_sig items) hf = Some (Inr True)"

text \<open>
  C18: Batch verification. With multipliers in range a batch with at most one invalid signature gets the
  right answer whatever the multipliers; and where a signature is invalid, with the other multipliers fixed,
  at most one value of its own multiplier lets the batch pass.
\<close>

theorem schnorr_batch_verification:
  assumes "curve_valid ec" "endo_law ec" "ec_p ec mod 4 = 3" "sized ec" "0 \<le> rnd" "rnd < ec_p ec - 1"
    and "list_all (item_ok ec hf) items" "2 \<le> length items"
    and "\<And>i. 0 \<le> below i \<and> below i < cv_n ec - 1" "\<And>i. 0 \<le> below' i \<and> below' i < cv_n ec - 1"
  shows "(length (filter (\<lambda>it. \<not> item_valid ec it) items) \<le> 1 \<longrightarrow>
      batch_verify rnd below (map bi_msg items) (map bi_key items) (map bi_sig items) hf
        = Some (Inr (list_all (item_valid ec) items)))
    \<and> (\<forall>k < length items. \<not> item_valid ec (items ! k) \<and> (\<forall>j. j \<noteq> k \<longrightarrow> below j = below' j)
        \<and> batch_passes rnd below items hf \<and> batch_passes rnd below' items hf \<longrightarrow> batch_rand below k = batch_rand below' k)"
proof -
  note exact = batch_exact [OF assms(1-4,7,8,5,6)]
  have n: "1 < cv_n ec" by (rule curve_n(3) [OF assms(1)])
  have r: "0 < batch_rand below i \<and> batch_rand below i < cv_n ec" "0 < batch_rand below' i \<and> batch_rand below' i < cv_n ec" for i
    using n assms(9) [of i] assms(10) [of i] by (simp_all add: batch_rand_def)
  have "batch_rand below k = batch_rand below' k"
    if k: "k < length items" "\<not> item_valid ec (items ! k)" "\<forall>j. j \<noteq> k \<longrightarrow> below j = below' j"
      and W: "weighted_defects (batch_rand below) ec 0 items = Inf" "weighted_defects (batch_rand below') ec 0 items = Inf" for k
  proof -
    have s: "take k items @ items ! k # drop (Suc k) items = items" and l: "length (take k items) = k"
      using k(1) by (simp_all add: id_take_nth_drop [symmetric])
    have eq: "j \<noteq> k \<Longrightarrow> batch_rand below j = batch_rand below' j" for j using k(3) by (simp add: batch_rand_def)
    show ?thesis
      by (rule batch_multiplier_unique [of ec hf "take k items" "items ! k" "drop (Suc k) items", unfolded s l,
          OF assms(1,7) k(2) _ _ _ _ eq W]) (simp_all add: r)
  qed
  moreover have "batch_verify rnd below (map bi_msg items) (map bi_key items) (map bi_sig items) hf
        = Some (Inr (list_all (item_valid ec) items))"
    if "length (filter (\<lambda>it. \<not> item_valid ec it) items) \<le> 1"
    unfolding exact weighted_defects_one_fault [OF assms(1,7) r(1) that] ..
  ultimately show ?thesis unfolding batch_passes_def exact by blast
qed

definition batch19 :: "batch_item list" where
  "batch19 =
     [\<lparr>bi_msg = [1], bi_key = X_Int 12, bi_sig = \<lparr>ss_r = 8, ss_s = 1, ss_ec = ec19\<rparr>, bi_Q = Pt 12 18, bi_R = Pt 8 18, bi_c = 9\<rparr>,
      \<lparr>bi_msg = [1], bi_key = X_Int 6, bi_sig = \<lparr>ss_r = 18, ss_s = 1, ss_ec = ec19\<rparr>, bi_Q = Pt 6 16, bi_R = Pt 18 18, bi_c = 1\<rparr>]"

lemma batch19_ok: "list_all (item_ok ec19 toy_hash) batch19"
proof -
  have "ssa_assert_valid \<lparr>ss_r = 8, ss_s = 1, ss_ec = ec19\<rparr> = Inr ()" "ssa_challenge [1] 12 8 ec19 toy_hash = Inr 9"
    "ssa_assert_valid \<lparr>ss_r = 18, ss_s = 1, ss_ec = ec19\<rparr> = Inr ()" "ssa_challenge [1] 6 18 ec19 toy_hash = Inr 1"
    unfolding ec19_def by code_simp+
  then show ?thesis using ec19_members ec19_verify_keys by (simp add: batch19_def item_ok_def px_def)
qed

lemma batch19_valid: "item_valid ec19 (hd batch19)"
proof -
  have "ec_times ec19 1 (Pt 4 16) = ec_plus ec19 (Pt 8 18) (ec_times ec19 9 (Pt 12 18))" unfolding ec19_def by code_simp
  then show ?thesis unfolding item_valid_def schnorr_valid_def ec19_gen
    using ec19_members(2) ec19_verify_keys(2) by (intro exI [of _ "Pt 8 18"]) (simp only: batch19_def, simp add: px_def)
qed

theorem schnorr_batch_verification_witness:
  "batch_verify 1 (\<lambda>_. 0) [[1], [1]] [X_Int 12, X_Int 6]
     [\<lparr>ss_r = 8, ss_s = 1, ss_ec = ec19\<rparr>, \<lparr>ss_r = 18, ss_s = 1, ss_ec = ec19\<rparr>] toy_hash
    = Some (Inr (list_all (item_valid ec19) batch19))"
proof -
  have "length (filter (\<lambda>it. \<not> item_valid ec19 it) batch19) \<le> 1" using batch19_valid by (simp add: batch19_def)
  with schnorr_batch_verification [OF ec19_valid ec19_endo_law _ ec19_sized _ _ batch19_ok, of 1 "\<lambda>_. 0" "\<lambda>_. 0"]
  show ?thesis by (simp add: batch19_def)
qed

section \<open>Key agreement and equality of logarithms\<close>

text \<open>
  C19: The two sides of a Diffie-Hellman exchange derive the same key, that of the product of their private
  keys and the cofactor, and none is refused.
\<close>

theorem diffie_hellman_agreement:
  assumes "curve_valid ec" "endo_law ec" "sized ec" "draws ec rnd" "draws ec rnd'" "\<not> cv_n ec dvd cv_cofactor ec"
    and "0 < a" "a < cv_n ec" "0 < b" "b < cv_n ec"
  shows "diffie_hellman rnd a (aff_of (ec_times ec b (gen ec))) sz info ec hf
      = diffie_hellman rnd' b (aff_of (ec_times ec a (gen ec))) sz info ec hf
    \<and> diffie_hellman rnd a (aff_of (ec_times ec b (gen ec))) sz info ec hf
      = ansi_x9_63_kdf (to_bytes (ec_p_size ec) (px (ec_times ec (a * b * cv_cofactor ec) (gen ec)))) sz hf info"
proof -
  have "\<not> cv_n ec dvd a * b * cv_cofactor ec"
    using assms(6) unit_not_dvd [OF assms(7,8)] unit_not_dvd [OF assms(9,10)] curve_n(1) [OF assms(1)]
    by (simp add: prime_int_dvd_mult_iff)
  then have "ec_times ec (a * b * cv_cofactor ec) (gen ec) \<noteq> Inf"
    using times_Inf_iff [OF member_generator [OF assms(1)] generator_finite [OF assms(1)]] by blast
  then show ?thesis
    using diffie_hellman_shared [OF assms(1-4,7-10,6)] diffie_hellman_shared [OF assms(1-3,5,9,10,7,8,6)]
    by (simp add: shared_key_def mult.commute)
qed

theorem diffie_hellman_agreement_witness:
  "diffie_hellman (\<lambda>_. 1) 5 (aff_of (ec_times ec19 3 (gen ec19))) 4 None ec19 toy_hash
    = diffie_hellman (\<lambda>_. 1) 3 (aff_of (ec_times ec19 5 (gen ec19))) 4 None ec19 toy_hash"
  by (rule diffie_hellman_agreement [OF ec19_valid ec19_endo_law ec19_sized ec19_draws ec19_draws, THEN conjunct1]) simp_all

text \<open>
  C20: A discrete logarithm proof that is generated verifies against the two public points; generation stops
  only on a derived nonce of zero, and never because the proof just made does not verify.
\<close>

theorem dleq_proof_complete:
  assumes "endo_law ec" "sized ec" "draws ec rnd" "member ec G" "G \<noteq> Inf" "member ec B" "B \<noteq> Inf"
    and "hash_ok hf" "hf_size hf = 32" "cv_n ec < 256 ^ 32" "0 < a" "a < cv_n ec"
    and "dleq_msg_bytes msg = Inr m" "case aux of None \<Rightarrow> length aux0 = 32 | Some x \<Rightarrow> length x = 32"
  shows "(\<exists>proof. generate_proof rnd aux0 a (Key_Point (aff_of B)) aux (Key_Point (aff_of G)) msg ec hf = Inr proof
      \<and> verify_proof (Key_Point (aff_of (ec_times ec a G))) (Key_Point (aff_of B)) (Key_Point (aff_of (ec_times ec a B))) proof
          (Key_Point (aff_of G)) msg ec hf = Inr True)
    \<or> generate_proof rnd aux0 a (Key_Point (aff_of B)) aux (Key_Point (aff_of G)) msg ec hf
        = Inl (BTClibEccRuntimeError ''invalid zero nonce'')"
  by (rule generate_proof_complete [OF assms])

theorem dleq_proof_complete_witness:
  "(\<exists>proof. generate_proof (\<lambda>_. 1) (replicate 32 0) 5 (Key_Point (aff_of (Pt 6 16))) None (Key_Point (aff_of (Pt 8 18))) None ec19 toy_hash_32 = Inr proof
      \<and> verify_proof (Key_Point (aff_of (ec_times ec19 5 (Pt 8 18)))) (Key_Point (aff_of (Pt 6 16)))
          (Key_Point (aff_of (ec_times ec19 5 (Pt 6 16)))) proof (Key_Point (aff_of (Pt 8 18))) None ec19 toy_hash_32 = Inr True)
    \<or> generate_proof (\<lambda>_. 1) (replicate 32 0) 5 (Key_Point (aff_of (Pt 6 16))) None (Key_Point (aff_of (Pt 8 18))) None ec19 toy_hash_32
        = Inl (BTClibEccRuntimeError ''invalid zero nonce'')"
  by (rule dleq_proof_complete [OF ec19_endo_law ec19_sized ec19_draws ec19_members(2) _ ec19_members(1) _ toy_hash_32_ok])
    (simp_all add: dleq_msg_bytes_def)

text \<open>
  C21: Soundness of the discrete logarithm proofs: the verifier accepts only answers to the challenge of a
  commitment that satisfy the two equations, and two accepted answers to different challenges of one
  commitment determine a common logarithm of the two points.
\<close>

theorem dleq_proof_sound:
  assumes "endo_law ec" "sized ec" "member ec G" "G \<noteq> Inf" "member ec A" "A \<noteq> Inf" "member ec B" "B \<noteq> Inf" "member ec C" "C \<noteq> Inf"
    and "dleq_msg_bytes msg = Inr m" "length proof = 64"
    and "verify_proof (Key_Point (aff_of A)) (Key_Point (aff_of B)) (Key_Point (aff_of C)) proof (Key_Point (aff_of G)) msg ec hf = Inr True"
  shows "\<exists>R1 R2. member ec R1 \<and> member ec R2
    \<and> dleq_challenge (aff_of A) (aff_of B) (aff_of C) (aff_of R1) (aff_of R2) (aff_of G) m ec hf = Inr (int_from_bytes (take 32 proof))
    \<and> dleq_equations ec G A B C R1 R2 (int_from_bytes (take 32 proof)) (int_from_bytes (drop 32 proof))
    \<and> (\<forall>e s. dleq_equations ec G A B C R1 R2 e s \<and> \<not> cv_n ec dvd (int_from_bytes (take 32 proof) - e)
        \<longrightarrow> (\<exists>a. A = ec_times ec a G \<and> C = ec_times ec a B))"
proof -
  define ev sv where "ev = int_from_bytes (take 32 proof)" and "sv = int_from_bytes (drop 32 proof)"
  obtain R1 R2 where R: "member ec R1" "member ec R2" "dleq_equations ec G A B C R1 R2 ev sv"
      "dleq_challenge (aff_of A) (aff_of B) (aff_of C) (aff_of R1) (aff_of R2) (aff_of G) m ec hf = Inr ev"
    using assms(13) unfolding verify_proof_iff [OF assms(1-12) ev_def sv_def] sum.inject by blast
  have "\<exists>a. A = ec_times ec a G \<and> C = ec_times ec a B"
    if "dleq_equations ec G A B C R1 R2 e s" "\<not> cv_n ec dvd (ev - e)" for e s
    by (rule dleq_extract [OF assms(3,5,7,9) R(1-3) that])
  then show ?thesis unfolding ev_def [symmetric] sv_def [symmetric]
    by - (rule exI [of _ R1], rule exI [of _ R2], use R in blast)
qed

definition proof19 :: octets where
  "proof19 = [164, 149, 134, 119, 104, 89, 74, 59, 44, 29, 14, 255, 240, 225, 210, 195, 180, 165, 150, 135, 120, 105, 90,
      75, 60, 45, 30, 15, 0, 241, 226, 211, 0, 0, 0, 0, 0, 0, 0, 0, 0, 0, 0, 0, 0, 0, 0, 0, 0, 0, 0, 0, 0, 0, 0, 0, 0, 0, 0,
      0, 0, 0, 0, 9]"

theorem dleq_proof_sound_witness:
  "\<exists>R1 R2. member ec19 R1 \<and> member ec19 R2
    \<and> dleq_equations ec19 (Pt 8 18) (Pt 9 16) (Pt 6 16) (Pt 18 1) R1 R2 (int_from_bytes (take 32 proof19)) (int_from_bytes (drop 32 proof19))"
proof -
  have m: "member ec19 (Pt 9 16)" "member ec19 (Pt 18 1)"
  proof -
    have "ec_times ec19 9 (Pt 4 16) = Pt 9 16" "ec_times ec19 2 (Pt 4 16) = Pt 18 1" unfolding ec19_def by code_simp+
    then show "member ec19 (Pt 9 16)" "member ec19 (Pt 18 1)" using ec19_key [of 9] ec19_key [of 2] by (simp_all only: ec19_gen)
  qed
  have "verify_proof (Key_Point (9, 16)) (Key_Point (6, 16)) (Key_Point (18, 1)) proof19 (Key_Point (8, 18)) None ec19 toy_hash_32 = Inr True"
    unfolding ec19_def proof19_def by code_simp
  then have "verify_proof (Key_Point (aff_of (Pt 9 16))) (Key_Point (aff_of (Pt 6 16))) (Key_Point (aff_of (Pt 18 1))) proof19
      (Key_Point (aff_of (Pt 8 18))) None ec19 toy_hash_32 = Inr True" by simp
  from dleq_proof_sound [OF ec19_endo_law ec19_sized ec19_members(2) _ m(1) _ ec19_members(1) _ m(2) _ _ _ this, of "[]"]
  show ?thesis by (fastforce simp: dleq_msg_bytes_def proof19_def)
qed

end
