(* ===== verification/Pedersen.thy ===== *)
theory Pedersen
  imports Dh_Dleq Signature_Checks
begin

unbundle bit_operations_syntax

text \<open>
  Model of \<^verbatim>\<open>src/btclib_ecc/ecc/pedersen.py\<close>: the second generator found by incrementing a hashed
  x-coordinate, the map of Shallue and van de Woestijne and the generators it derives from a seed, the
  commitments and their checks, and the encodings whose prefix tells whether the ordinate is a square.
  Where the code names \<^verbatim>\<open>secp256k1\<close> and \<^verbatim>\<open>sha256\<close>, \<open>ec\<close> and \<open>hf\<close> stand for them; the random factors of
  the blinded operations are arguments.
\<close>

section \<open>The second generator\<close>

definition second_candidate :: "curve \<Rightarrow> int \<Rightarrow> apoint result" where
  "second_candidate ec x =
     rbind (y_even_var ec x) (\<lambda>y. rbind (assert_in_subgroup (x, y) ec) (\<lambda>_. Inr (x, y)))"

text \<open>Whether the loop ends with the candidate: only a \<^verbatim>\<open>BTClibEccValueError\<close> is caught.\<close>

definition second_settled :: "curve \<Rightarrow> int \<Rightarrow> bool" where
  "second_settled ec x = (case second_candidate ec x of Inl (BTClibEccValueError _) \<Rightarrow> False | _ \<Rightarrow> True)"

definition second_generator :: "curve \<Rightarrow> hash_fn \<Rightarrow> apoint run" where
  "second_generator ec hf =
     obind (Some (bytes_from_point (cv_G ec) ec False)) (\<lambda>G_bytes.
       let x_H = int_from_bits (hf_digest hf G_bytes) (cv_nlen ec) mod cv_n ec in
       map_option (second_candidate ec) (first_accepted (\<lambda>x. (x + 1) mod ec_p ec) (second_settled ec) x_H))"

section \<open>Generators from a seed\<close>

definition SEED_SIZE :: nat where "SEED_SIZE = 32"
definition FIRST_GENERATION :: octets where "FIRST_GENERATION = ascii ''1st generation: ''"
definition SECOND_GENERATION :: octets where "SECOND_GENERATION = ascii ''2nd generation: ''"

definition SQRT_MINUS_3 :: "curve \<Rightarrow> int result" where
  "SQRT_MINUS_3 ec = mod_sqrt_var ((- 3) mod ec_p ec) (ec_p ec)"

definition HALF_SQRT_MINUS_3_LESS_1 :: "curve \<Rightarrow> int result" where
  "HALF_SQRT_MINUS_3_LESS_1 ec =
     rbind (SQRT_MINUS_3 ec) (\<lambda>r.
       case py_pow_inv 2 (ec_p ec) of
         None \<Rightarrow> Inl (ValueError ''base is not invertible for the given modulus'')
       | Some i \<Rightarrow> Inr ((r - 1) * i mod ec_p ec))"

definition ROOT_EXPONENT :: "curve \<Rightarrow> nat" where "ROOT_EXPONENT ec = nat ((ec_p ec + 1) div 4)"

definition svdw_candidate :: "curve \<Rightarrow> int \<Rightarrow> int \<times> int \<times> bool" where
  "svdw_candidate ec x =
     (let y_squared = ec_y2 ec x; y = pow_mod y_squared (ROOT_EXPONENT ec) (ec_p ec)
      in (x, y, y * y mod ec_p ec = y_squared))"

definition svdw_abscissas :: "int \<Rightarrow> int \<Rightarrow> int \<Rightarrow> int \<Rightarrow> curve \<Rightarrow> (int \<times> int \<times> int) result" where
  "svdw_abscissas rnd c d t ec =
     (let p = ec_p ec;
        t_2 = t * t mod p;
        wd = (t_2 + ec_b ec + 1) mod p;
        x3d = (- 3) * t_2 mod p;
        j = wd * x3d mod p
      in rbind (if j \<noteq> 0 then mod_inv rnd j p else Inr 0) (\<lambda>j_inv.
        let x_1 = (d - c * t_2 mod p * x3d mod p * j_inv) mod p;
          x_2 = (- (x_1 + 1)) mod p;
          x_3 = (1 + pow_mod wd 3 p * j_inv) mod p
        in Inr (x_1, x_2, x_3)))"

definition shallue_van_de_woestijne :: "int \<Rightarrow> int \<Rightarrow> curve \<Rightarrow> apoint result" where
  "shallue_van_de_woestijne rnd t ec =
     (if \<not> (0 \<le> t \<and> t < ec_p ec) then Inl (BTClibEccValueError ''field element not in 0..p-1'')
      else rbind (SQRT_MINUS_3 ec) (\<lambda>c. rbind (HALF_SQRT_MINUS_3_LESS_1 ec) (\<lambda>d.
        rbind (svdw_abscissas rnd c d t ec) (\<lambda>(x_1, x_2, x_3).
          let first = svdw_candidate ec x_1; second = svdw_candidate ec x_2; third = svdw_candidate ec x_3;
            (x, y, _) = (if snd (snd first) then first else if snd (snd second) then second else third)
          in Inr (x, if t mod 2 \<noteq> 0 then ec_p ec - y else y)))))"

definition generator_from_seed :: "(nat \<Rightarrow> int) \<Rightarrow> octets \<Rightarrow> int option \<Rightarrow> curve \<Rightarrow> hash_fn \<Rightarrow> apoint result" where
  "generator_from_seed rnd seed blind ec hf =
     rbind (bytes_from_octets seed (Some [SEED_SIZE])) (\<lambda>seed_bytes.
     rbind (shallue_van_de_woestijne (rnd 0) (int_from_bytes (hf_digest hf (FIRST_GENERATION @ seed_bytes))) ec) (\<lambda>A.
     rbind (shallue_van_de_woestijne (rnd 1) (int_from_bytes (hf_digest hf (SECOND_GENERATION @ seed_bytes))) ec) (\<lambda>B.
     rbind (add_points (rnd 2) (rnd 3) A B ec) (\<lambda>Q.
       case blind of
         None \<Rightarrow> Inr Q
       | Some b \<Rightarrow>
           if \<not> (0 \<le> b \<and> b < cv_n ec) then Inl (BTClibEccValueError ''blinding factor not in 0..n-1'')
           else rbind (mult (rnd 4) b (Some (cv_G ec)) ec) (\<lambda>R. add_points (rnd 5) (rnd 6) Q R ec)))))"

section \<open>Commitments\<close>

definition assert_valid_generator :: "apoint \<Rightarrow> curve \<Rightarrow> unit result" where
  "assert_valid_generator H ec =
     rbind (require_on_curve ec H) (\<lambda>_.
       if H = INF_aff then Inl (BTClibEccValueError ''generator is the point at infinity'')
       else assert_in_subgroup H ec)"

definition pedersen_commit_raw :: "(nat \<Rightarrow> int) \<Rightarrow> int \<Rightarrow> int \<Rightarrow> apoint \<Rightarrow> curve \<Rightarrow> apoint result" where
  "pedersen_commit_raw rnd r v H ec =
     rbind (require_on_curve ec H) (\<lambda>_.
     rbind (mult (rnd 0) r (Some (cv_G ec)) ec) (\<lambda>R.
     rbind (mult (rnd 1) v (Some H) ec) (\<lambda>V. add_points (rnd 2) (rnd 3) R V ec)))"

definition pedersen_commit :: "(nat \<Rightarrow> int) \<Rightarrow> int \<Rightarrow> int \<Rightarrow> apoint \<Rightarrow> curve \<Rightarrow> apoint result" where
  "pedersen_commit rnd r v H ec =
     rbind (assert_valid_generator H ec) (\<lambda>_.
       if r mod cv_n ec = 0 then Inl (BTClibEccValueError ''invalid (unblinded) commitment: r is 0 mod n'')
       else pedersen_commit_raw rnd r v H ec)"

definition pedersen_assert_as_valid :: "(nat \<Rightarrow> int) \<Rightarrow> int \<Rightarrow> int \<Rightarrow> apoint \<Rightarrow> apoint \<Rightarrow> curve \<Rightarrow> unit result" where
  "pedersen_assert_as_valid rnd r v commitment H ec =
     rbind (pedersen_commit rnd r v H ec) (\<lambda>C.
       if commitment \<noteq> C then Inl (BTClibEccRuntimeError ''commitment verification failed'') else Inr ())"

definition pedersen_verify :: "(nat \<Rightarrow> int) \<Rightarrow> int \<Rightarrow> int \<Rightarrow> apoint \<Rightarrow> apoint \<Rightarrow> curve \<Rightarrow> bool result" where
  "pedersen_verify rnd r v commitment H ec =
     rbind (assert_valid_generator H ec) (\<lambda>_. caught_false (pedersen_assert_as_valid rnd r v commitment H ec))"

section \<open>Encodings\<close>

definition RANGEPROOF_TAG :: "8 word" where "RANGEPROOF_TAG = 1"
definition COMMITMENT_TAG :: "8 word" where "COMMITMENT_TAG = 9"
definition GENERATOR_TAG :: "8 word" where "GENERATOR_TAG = 11"

definition tagged_bytes_from_point :: "apoint \<Rightarrow> 8 word \<Rightarrow> curve \<Rightarrow> octets result" where
  "tagged_bytes_from_point Q tag ec =
     rbind (require_on_curve ec Q) (\<lambda>_.
       if snd Q = 0 then Inl (BTClibEccValueError ''no bytes representation for infinity point'')
       else rbind (legendre_symbol_var (snd Q) (ec_p ec)) (\<lambda>l.
         let residue = l = 1 in
         rbind (int_to_bytes (fst Q) (ec_p_size ec)) (\<lambda>xs. Inr ((tag XOR of_bool residue) # xs))))"

definition tagged_point_from_x :: "int \<Rightarrow> bool \<Rightarrow> curve \<Rightarrow> apoint result" where
  "tagged_point_from_x x not_square ec =
     rbind (y_quadratic_residue_var ec x) (\<lambda>y. Inr (x, if not_square then ec_p ec - y else y))"

definition tagged_point_from_octets :: "octets \<Rightarrow> 8 word \<Rightarrow> curve \<Rightarrow> apoint result" where
  "tagged_point_from_octets bs tag ec =
     rbind (bytes_from_octets bs (Some [ec_p_size ec + 1])) (\<lambda>octets.
       let prefix = hd octets in
       if prefix AND 0xFE \<noteq> tag XOR 1 then Inl (BTClibEccValueError ''unexpected prefix'')
       else tagged_point_from_x (int_from_bytes (tl octets)) (prefix AND 1 \<noteq> 0) ec)"

definition bytes_from_commitment :: "apoint \<Rightarrow> curve \<Rightarrow> octets result" where
  "bytes_from_commitment Q ec = tagged_bytes_from_point Q COMMITMENT_TAG ec"

definition commitment_from_octets :: "octets \<Rightarrow> curve \<Rightarrow> apoint result" where
  "commitment_from_octets bs ec = tagged_point_from_octets bs COMMITMENT_TAG ec"

definition bytes_from_generator :: "apoint \<Rightarrow> curve \<Rightarrow> octets result" where
  "bytes_from_generator Q ec = tagged_bytes_from_point Q GENERATOR_TAG ec"

definition generator_from_octets :: "octets \<Rightarrow> curve \<Rightarrow> apoint result" where
  "generator_from_octets bs ec = tagged_point_from_octets bs GENERATOR_TAG ec"

end
