(* ===== verification/Pedersen_Correct.thy ===== *)
theory Pedersen_Correct
  imports Pedersen
begin

unbundle bit_operations_syntax

text \<open>
  The second generator is always found and is a point of the group; the map of Shallue and van de Woestijne
  lands on the curve for every field element; commitments add up, and two openings of one commitment to
  different values give the logarithm of the second generator; the encodings are inverted by the decoders.
\<close>

section \<open>The second generator is found\<close>

lemma increments: "0 < p \<Longrightarrow> ((\<lambda>x. (x + 1) mod p) ^^ Suc i) s = (s + 1 + int i) mod (p :: int)"
proof (induction i)
  case (Suc i)
  have "((\<lambda>x. (x + 1) mod p) ^^ Suc (Suc i)) s = ((s + 1 + int i) mod p + 1) mod p"
    using Suc by (simp only: funpow.simps(2) [of "Suc i"] o_apply)
  also have "\<dots> = (s + 1 + int i + 1) mod p" by (rule mod_add_left_eq)
  finally show ?case by (simp add: algebra_simps)
qed simp

lemma increments_reach:
  assumes "0 \<le> t" "t < p"
  shows "\<exists>i. ((\<lambda>x. (x + 1) mod p) ^^ i) s = (t :: int)"
proof
  have p: "0 < p" using assms by simp
  have "((\<lambda>x. (x + 1) mod p) ^^ Suc (nat ((t - s - 1) mod p))) s = (s + 1 + (t - s - 1) mod p) mod p"
    using increments [OF p, of "nat ((t - s - 1) mod p)" s] p by simp
  also have "\<dots> = t mod p" by (simp add: mod_add_right_eq)
  finally show "((\<lambda>x. (x + 1) mod p) ^^ Suc (nat ((t - s - 1) mod p))) s = t" using assms by simp
qed

lemma second_candidate_of_member:
  assumes P: "member ec P" "P \<noteq> Inf" and p: "ec_p ec mod 4 = 3"
  shows "second_candidate ec (px P) = Inr (px P, if even (py P) then py P else ec_p ec - py P)"
proof -
  let ?E = "if even (py P) then P else ec_minus ec P"
  have E: "member ec ?E" "?E \<noteq> Inf" using P member_closed(2) [OF P(1)] minus_coords(4) [OF P] by simp_all
  have a: "aff_of ?E = (px P, if even (py P) then py P else ec_p ec - py P)"
    using minus_coords(2,3) [OF P] by (simp add: aff_of_px_py)
  have "assert_in_subgroup (aff_of ?E) ec = Inr ()"
    using assert_in_subgroup_iff [OF memberD(1) [OF E(1)] arep_aff_of_member [OF E(1)]] memberD(2) [OF E(1)] by blast
  then show ?thesis unfolding second_candidate_def y_even_of_px [OF P p] rbind_simps a by simp
qed

lemma second_candidate_sound:
  assumes v: "curve_valid ec" and S: "second_candidate ec x = Inr H"
  shows "fst H = x" "arep ec H (aff_abs H)" "assert_in_subgroup H ec = Inr ()"
proof -
  obtain y where y: "y_even_var ec x = Inr y" "assert_in_subgroup (x, y) ec = Inr ()" "H = (x, y)"
    using S by (auto simp: second_candidate_def rbind_eq_Inr_iff)
  then show "fst H = x" "assert_in_subgroup H ec = Inr ()" by simp_all
  have ok: "curve_ok ec" using v by (simp add: curve_valid_def)
  have "ec_on ec (aff_abs (x, y))"
  proof (cases "y = 0")
    case False
    have "y \<noteq> ec_p ec"
    proof
      assume "y = ec_p ec"
      moreover obtain r where "y_var ec x = Inr r" "y = (if r mod 2 \<noteq> 0 then ec_p ec - r else r)"
        using y(1) by (auto simp: y_even_var_def rbind_eq_Inr_iff)
      moreover from this have "ec_on ec (Pt x r)" using y_var_sound ok by blast
      ultimately show False by (cases "r mod 2 = 0") auto
    qed
    then show ?thesis using y_even_var_sound(1) [OF y(1) ok] False by (simp add: aff_abs_def)
  qed (simp add: aff_abs_def)
  then show "arep ec H (aff_abs H)" by (simp add: arep_def y(3))
qed

lemma second_candidate_error:
  assumes v: "curve_valid ec" and E: "second_candidate ec x = Inl e"
  shows "\<exists>m. e = BTClibEccValueError m"
proof (cases "y_even_var ec x")
  case (Inl e')
  then have "e' = e" using E by (simp add: second_candidate_def)
  then show ?thesis using Inl by (auto simp: y_even_var_def y_var_def rbind_def split: if_splits sum.splits)
next
  case (Inr y)
  then have a: "assert_in_subgroup (x, y) ec = Inl e"
    using E by (cases "assert_in_subgroup (x, y) ec") (simp_all add: second_candidate_def)
  obtain r where r: "y_var ec x = Inr r" "y = (if r mod 2 \<noteq> 0 then ec_p ec - r else r)"
    using Inr by (auto simp: y_even_var_def rbind_eq_Inr_iff)
  have ok: "curve_ok ec" "0 < cv_n ec" using v curve_n(2) [OF v] by (simp_all add: curve_valid_def)
  have "ec_on ec (Pt x r)" using y_var_sound [OF r(1) ok(1)] .
  then have "y \<noteq> ec_p ec" using r(2) by (cases "r mod 2 = 0") auto
  then have "ec_on ec (aff_abs (x, y))" using y_even_var_sound(1) [OF Inr ok(1)] by (cases "y = 0") (simp_all add: aff_abs_def)
  then have "arep ec (x, y) (aff_abs (x, y))" by (simp add: arep_def)
  note J = jrep_jac_from_aff [OF ok(1) this]
  obtain R where "mult_jac_var (cv_n ec) (jac_from_aff (x, y)) ec = Inr R"
    using returns_mul [OF ok(1) arep_on [OF \<open>arep ec (x, y) _\<close>] mult_jac_var_rel [OF J, of "cv_n ec"]] ok(2) by auto
  then show ?thesis using a by (auto simp: assert_in_subgroup_def require_def split: if_splits)
qed

lemma uncompressed_bytes:
  assumes "require_on_curve ec Q = Inr ()" "snd Q \<noteq> 0" "sized ec" "0 \<le> fst Q" "fst Q < ec_p ec" "0 < snd Q" "snd Q < ec_p ec"
  shows "bytes_from_point Q ec False = Inr (4 # to_bytes (ec_p_size ec) (fst Q) @ to_bytes (ec_p_size ec) (snd Q))"
  using assms by (simp add: bytes_from_point_def int_to_bytes_def sized_def)

lemma second_generator_found:
  assumes v: "curve_valid ec" and p: "ec_p ec mod 4 = 3" and s: "sized ec"
  shows "\<exists>H i x. second_generator ec hf = Some (Inr H) \<and> second_candidate ec x = Inr H
    \<and> x = ((\<lambda>x. (x + 1) mod ec_p ec) ^^ i) (int_from_bits (hf_digest hf (4 # to_bytes (ec_p_size ec) (fst (cv_G ec)) @ to_bytes (ec_p_size ec) (snd (cv_G ec)))) (cv_nlen ec) mod cv_n ec)
    \<and> (\<forall>j<i. \<exists>m. second_candidate ec (((\<lambda>x. (x + 1) mod ec_p ec) ^^ j) (int_from_bits (hf_digest hf (4 # to_bytes (ec_p_size ec) (fst (cv_G ec)) @ to_bytes (ec_p_size ec) (snd (cv_G ec)))) (cv_nlen ec) mod cv_n ec)) = Inl (BTClibEccValueError m))"
proof -
  define x0 where "x0 = int_from_bits (hf_digest hf (4 # to_bytes (ec_p_size ec) (fst (cv_G ec)) @ to_bytes (ec_p_size ec) (snd (cv_G ec)))) (cv_nlen ec) mod cv_n ec"
  note G = member_generator [OF v] generator_finite [OF v]
  note c = member_coords [OF G]
  have aff: "aff_of (gen ec) = cv_G ec" using generator_finite [OF v] by (cases "cv_G ec") (auto simp: aff_abs_def split: if_splits)
  have xy: "fst (cv_G ec) = px (gen ec)" "snd (cv_G ec) = py (gen ec)" using aff aff_of_px_py [of "gen ec"] by (metis fst_conv snd_conv)+
  have b: "bytes_from_point (cv_G ec) ec False = Inr (4 # to_bytes (ec_p_size ec) (fst (cv_G ec)) @ to_bytes (ec_p_size ec) (snd (cv_G ec)))"
    by (rule uncompressed_bytes [OF require_member(1,3) [OF G, unfolded aff] s c(2-5) [folded xy]])
  have settled: "second_settled ec x \<longleftrightarrow> (\<exists>H. second_candidate ec x = Inr H)" for x
    using second_candidate_error [OF v, of x] by (cases "second_candidate ec x") (auto simp: second_settled_def)
  obtain i where "((\<lambda>x. (x + 1) mod ec_p ec) ^^ i) x0 = px (gen ec)" using increments_reach [OF c(2,3)] by blast
  then have "second_settled ec (((\<lambda>x. (x + 1) mod ec_p ec) ^^ i) x0)"
    using second_candidate_of_member [OF G p] settled by simp
  then obtain x where x: "first_accepted (\<lambda>x. (x + 1) mod ec_p ec) (second_settled ec) x0 = Some x"
    using first_accepted_defined [of "second_settled ec"] by blast
  then obtain j where j: "x = ((\<lambda>x. (x + 1) mod ec_p ec) ^^ j) x0" "second_settled ec x"
      "\<forall>k<j. \<not> second_settled ec (((\<lambda>x. (x + 1) mod ec_p ec) ^^ k) x0)"
    using first_accepted_sound [OF x] by blast
  obtain H where H: "second_candidate ec x = Inr H" using j(2) settled by blast
  have "second_generator ec hf = Some (Inr H)"
    using H x by (simp add: second_generator_def b Let_def flip: x0_def)
  moreover have "\<exists>m. second_candidate ec (((\<lambda>x. (x + 1) mod ec_p ec) ^^ k) x0) = Inl (BTClibEccValueError m)" if "k < j" for k
    using j(3) that settled second_candidate_error [OF v] by (metis sumE)
  ultimately show ?thesis using j(1) H unfolding x0_def [symmetric] by blast
qed

text \<open>
  What the search is for, said of the numbers alone: an abscissa of the field with an even ordinate, of a point that
  the check of the subgroup accepts. The candidate of an abscissa is exactly that.
\<close>

definition generator_point :: "curve \<Rightarrow> int \<Rightarrow> int \<Rightarrow> bool" where
  "generator_point ec x y \<longleftrightarrow>
     0 \<le> x \<and> x < ec_p ec \<and> 0 \<le> y \<and> y < ec_p ec \<and> even y
   \<and> y * y mod ec_p ec = (x * x * x + ec_a ec * x + ec_b ec) mod ec_p ec \<and> assert_in_subgroup (x, y) ec = Inr ()"

definition generator_start :: "curve \<Rightarrow> hash_fn \<Rightarrow> int" where
  "generator_start ec hf =
     int_from_bits (hf_digest hf (4 # to_bytes (ec_p_size ec) (fst (cv_G ec)) @ to_bytes (ec_p_size ec) (snd (cv_G ec)))) (cv_nlen ec)
       mod cv_n ec"

lemma ec_y2_expanded: "ec_y2 ec x = (x * x * x + ec_a ec * x + ec_b ec) mod ec_p ec"
  by (simp add: ec_y2_def power2_eq_square algebra_simps)

lemma second_candidate_iff:
  assumes v: "curve_valid ec" and p: "ec_p ec mod 4 = 3"
  shows "second_candidate ec x = Inr H \<longleftrightarrow> (\<exists>y. H = (x, y) \<and> generator_point ec x y)"
proof
  have ok: "curve_ok ec" using v by (simp add: curve_valid_def)
  assume "second_candidate ec x = Inr H"
  then obtain y where y: "y_even_var ec x = Inr y" "assert_in_subgroup (x, y) ec = Inr ()" "H = (x, y)"
    by (auto simp: second_candidate_def rbind_eq_Inr_iff)
  have "0 \<le> x" "x < ec_p ec" using y(1) by (auto simp: y_even_var_def y_var_def rbind_eq_Inr_iff split: if_splits)
  then show "\<exists>y. H = (x, y) \<and> generator_point ec x y"
    using y(2,3) y_even_root [OF y(1) ok] by (simp add: generator_point_def ec_y2_expanded)
next
  have ok: "curve_ok ec" using v by (simp add: curve_valid_def)
  let ?p = "ec_p ec"
  have o: "odd ?p" using p by presburger
  assume "\<exists>y. H = (x, y) \<and> generator_point ec x y"
  then obtain y where y: "H = (x, y)" "0 \<le> x" "x < ?p" "0 \<le> y" "y < ?p" "even y" "y * y mod ?p = ec_y2 ec x"
    "assert_in_subgroup (x, y) ec = Inr ()" by (auto simp: generator_point_def ec_y2_expanded)
  have "ec_on ec (Pt x y)" using ec_y2_on_curve [OF curve_ok_p(3) [OF ok] y(2-5)] y(7) by simp
  then obtain r where r: "y_var ec x = Inr r" "r = y \<or> r = (- y) mod ?p" using y_var_complete [OF ok p] by blast
  have "(if r mod 2 \<noteq> 0 then ?p - r else r) = y"
  proof (cases "y = 0")
    case False
    then have "(- y) mod ?p = ?p - y" using y(4,5) by (simp add: zmod_zminus1_eq_if)
    then show ?thesis using r(2) y(6) o by (auto simp: odd_iff_mod_2_eq_one)
  qed (use r(2) in simp)
  then have "y_even_var ec x = Inr y" using r(1) by (simp add: y_even_var_def)
  then show "second_candidate ec x = Inr H" using y(1,8) by (simp add: second_candidate_def)
qed

lemma second_generator_first:
  assumes "curve_valid ec" "ec_p ec mod 4 = 3" "sized ec"
  shows "\<exists>i x y. second_generator ec hf = Some (Inr (x, y)) \<and> x = ((\<lambda>x. (x + 1) mod ec_p ec) ^^ i) (generator_start ec hf)
    \<and> generator_point ec x y \<and> (\<forall>j<i. \<forall>y. \<not> generator_point ec (((\<lambda>x. (x + 1) mod ec_p ec) ^^ j) (generator_start ec hf)) y)"
proof -
  note found = second_candidate_iff [OF assms(1,2)]
  obtain H i x where H: "second_generator ec hf = Some (Inr H)" "second_candidate ec x = Inr H"
    "x = ((\<lambda>x. (x + 1) mod ec_p ec) ^^ i) (generator_start ec hf)"
    "\<forall>j<i. \<exists>m. second_candidate ec (((\<lambda>x. (x + 1) mod ec_p ec) ^^ j) (generator_start ec hf)) = Inl (BTClibEccValueError m)"
    using second_generator_found [OF assms, of hf] unfolding generator_start_def by blast
  obtain y where "H = (x, y)" "generator_point ec x y" using H(2) found by blast
  moreover have "\<not> generator_point ec (((\<lambda>x. (x + 1) mod ec_p ec) ^^ j) (generator_start ec hf)) y" if "j < i" for j y
    using H(4) that found by (metis sum.distinct(1))
  ultimately show ?thesis using H(1,3) by blast
qed

section \<open>The map lands on the curve\<close>

text \<open>The product of the three ordinates squared is, up to an invertible square, a square.\<close>

lemma svdw_product:
  fixes p :: int
  assumes p: "prime_int p" "odd p" and c: "p dvd (c * c + 3)" and d: "p dvd (2 * d + 1 - c)" and b: "\<not> p dvd (b + 1)"
    and v: "p dvd (W * v - 1)" and u: "p dvd (X * u - 1)" and X: "p dvd (X + 3 * (t * t))" and W: "p dvd (W - (t * t + b + 1))"
    and x1: "p dvd (x1 - (d - c * (t * t) * v))" and x2: "p dvd (x2 + x1 + 1)" and x3: "p dvd (x3 - (1 + W * W * u))"
  defines "F \<equiv> (x1 * x1 * x1 + b) * (x2 * x2 * x2 + b)"
  shows "p dvd (F * (x3 * x3 * x3 + b) * ((c * t * v) ^ 3 * (b + 1)) ^ 2 - F * F)"
proof -
  define T where "T = t * t"
  note T = T_def [symmetric]
  have "p dvd 4 * (d * d + d + 1)"
    using c d by algebra
  moreover have "coprime p 4" using p(2) coprime_power_right_iff [of p 2 2] by simp
  ultimately have s1: "p dvd (d * d + d + 1)" using coprime_dvd_mult_right_iff by blast
  define h where "h = x1 * x1 + x1"
  have s2: "p dvd (h + 1 - 3 * T * (b + 1) * v * v)"
  proof -
    define e where "e = d - c * T * v"
    have "p dvd (x1 * x1 + x1 - (e * e + e))" using x1 unfolding T e_def [symmetric] by algebra
    moreover have "p dvd (e * e + e + 1 + c * c * T * v - c * c * T * T * v * v)" using s1 d unfolding e_def by algebra
    moreover have "p dvd (c * c * T * v - c * c * T * T * v * v + 3 * T * v - 3 * T * T * v * v)" using c by algebra
    moreover have "p dvd (3 * T * v - 3 * T * T * v * v - 3 * T * (b + 1) * v * v)" using v W unfolding T by algebra
    ultimately show ?thesis unfolding h_def by algebra
  qed
  have s3: "p dvd ((x3 - 1) * (h + 1) + (b + 1))" 
  proof -
    have "p dvd (3 * T * u + 1)" using u X unfolding T by algebra
    moreover have "p dvd (W * W * (v * v) - 1)" using v by algebra
    ultimately have "p dvd (W * W * u * (3 * T * (b + 1) * v * v) + (b + 1))" by algebra
    moreover have "p dvd (x3 - 1 - W * W * u)" using x3 by (simp add: algebra_simps)
    ultimately show ?thesis using s2 by algebra
  qed
  have s4: "p dvd (F + h * h * h + b * (1 + 3 * h) - b * b)" using x2 unfolding F_def h_def by algebra
  have s5: "p dvd (x3 * (h + 1) - (h - b))" using s3 by algebra
  have s6: "p dvd ((x3 * x3 * x3 + b) * ((h + 1) * (h + 1) * (h + 1)) + (1 + b) * F)" using s4 s5 by algebra
  define Z where "Z = c * t * v"
  have "Z * Z = c * c * (T * (v * v))" by (simp add: Z_def T_def algebra_simps)
  moreover have "p dvd (c * c * (T * (v * v)) + 3 * (T * (v * v)))" using c by algebra
  ultimately have "p dvd (Z * Z + 3 * (T * (v * v)))" by simp
  then have q: "p dvd ((h + 1) + (b + 1) * (Z * Z))" using s2 by algebra
  have "p dvd (b + 1) * ((x3 * x3 * x3 + b) * (b + 1) * (b + 1) * (Z * Z * Z) * (Z * Z * Z) - F)" using s6 q by algebra
  then have "p dvd ((x3 * x3 * x3 + b) * (b + 1) * (b + 1) * (Z * Z * Z) * (Z * Z * Z) - F)"
    using p(1) b by (simp add: prime_int_dvd_mult_iff)
  then have "p dvd F * ((x3 * x3 * x3 + b) * (b + 1) * (b + 1) * (Z * Z * Z) * (Z * Z * Z) - F)" by (rule dvd_mult)
  moreover have "F * ((x3 * x3 * x3 + b) * (b + 1) * (b + 1) * (Z * Z * Z) * (Z * Z * Z) - F)
      = F * (x3 * x3 * x3 + b) * ((c * t * v) ^ 3 * (b + 1)) ^ 2 - F * F"
    unfolding Z_def [symmetric] power2_eq_square power3_eq_cube by (simp add: algebra_simps)
  ultimately show ?thesis by simp
qed

lemma square_root_cong: "p dvd (u * u - a) \<Longrightarrow> p dvd (y - u) \<Longrightarrow> p dvd (y * y - a)" for p :: int
  by algebra

lemma svdw_candidate_flag:
  assumes p: "prime_int (ec_p ec)" "ec_p ec mod 4 = 3"
  shows "snd (snd (svdw_candidate ec x)) \<longleftrightarrow> ec_y2 ec x = 0 \<or> gauss_sign (ec_y2 ec x) (ec_p ec) = 1"
proof -
  let ?p = "ec_p ec" and ?a = "ec_y2 ec x"
  note p0 = prime_int_pos [OF p(1)]
  have o: "odd ?p" using p(2) by presburger
  have e: "ROOT_EXPONENT ec = nat (?p div 4) + 1"
  proof -
    have "(?p + 1) div 4 = ?p div 4 + 1" using p(2) by presburger
    then show ?thesis using p0 by (simp add: ROOT_EXPONENT_def nat_add_distrib)
  qed
  define y where "y = pow_mod ?a (ROOT_EXPONENT ec) ?p"
  have r: "0 \<le> ?a" "?a < ?p" using p0 by (simp_all add: ec_y2_def)
  have flag: "snd (snd (svdw_candidate ec x)) \<longleftrightarrow> ?p dvd (y * y - ?a)"
    using r by (simp add: svdw_candidate_def Let_def y_def [symmetric] mod_eq_dvd_iff [symmetric])
  have y: "?p dvd (y - ?a ^ (nat (?p div 4) + 1))" unfolding y_def e by (rule dvd_pow_mod)
  show ?thesis
  proof (cases "?a = 0")
    case True
    then have "?p dvd y" using y by simp
    then show ?thesis unfolding flag using True by simp
  next
    case False
    then have c: "coprime ?a ?p" using prime_int_coprime [OF p(1)] unit_not_dvd [of ?a ?p] r by simp
    have "?p dvd (y * y - ?a) \<longleftrightarrow> gauss_sign ?a ?p = 1"
    proof
      assume "?p dvd (y * y - ?a)"
      then have "legendre_symbol_var ?a ?p = Inr 1" using legendre_square_iff [OF p c] by blast
      then show "gauss_sign ?a ?p = 1" using c prime_int_gt_1 [OF p(1)] by (simp add: legendre_value [OF o])
    next
      assume "gauss_sign ?a ?p = 1"
      then have "?p dvd (?a ^ (nat (?p div 4) + 1) * ?a ^ (nat (?p div 4) + 1) - ?a)" by (rule euler_root_3_mod_4 [OF p c])
      then show "?p dvd (y * y - ?a)" using y by (rule square_root_cong)
    qed
    then show ?thesis unfolding flag using False by simp
  qed
qed

lemma gauss_sign_square_relation:
  assumes n: "odd n" "0 < n" and c: "coprime F n" "coprime f n" "coprime k n" and d: "n dvd (F * f * k ^ 2 - F * F)"
  shows "gauss_sign F n * gauss_sign f n = 1"
proof -
  have "gauss_sign (F * f * (k * k)) n = gauss_sign (F * F) n"
    using gauss_sign_cong [OF d] by (simp add: power2_eq_square)
  moreover have "gauss_sign (F * f * (k * k)) n = gauss_sign F n * gauss_sign f n * gauss_sign (k * k) n"
    using gauss_sign_mult [OF n] c by simp
  ultimately show ?thesis using gauss_sign_square [OF n] c by simp
qed

lemma residue_not_dvd: "0 < (n :: int) \<Longrightarrow> a mod n \<noteq> 0 \<Longrightarrow> \<not> n dvd a mod n"
  using mod_nonzero_range unit_not_dvd by blast

lemma ec_y2_cubic: "ec_a ec = 0 \<Longrightarrow> ec_p ec dvd (ec_y2 ec x - (x * x * x + ec_b ec))"
  by (simp add: ec_y2_def mod_eq_dvd_iff [symmetric] power2_eq_square)

lemma svdw_degenerate:
  assumes p: "prime_int (ec_p ec)" "ec_p ec mod 4 = 3" and a: "ec_a ec = 0"
    and b: "\<not> ec_p ec dvd (ec_b ec + 1)" "ec_p ec dvd (s * s - (ec_b ec + 1))" and d: "ec_p ec dvd (x * x + x + 1)"
  shows "snd (snd (svdw_candidate ec x))"
proof -
  let ?p = "ec_p ec"
  have "?p dvd (ec_y2 ec x - (ec_b ec + 1))"
  proof -
    have "?p dvd (x - 1) * (x * x + x + 1)" using d by (rule dvd_mult)
    then have "?p dvd (x * x * x - 1)" by (simp add: algebra_simps)
    then show ?thesis using ec_y2_cubic [OF a, of x] by algebra
  qed
  moreover have c: "coprime (ec_b ec + 1) ?p" by (rule prime_int_coprime [OF p(1) b(1)])
  moreover have "gauss_sign (ec_b ec + 1) ?p = 1"
  proof -
    have o: "odd ?p" using p(2) by presburger
    show ?thesis using legendre_root [OF o prime_int_gt_1 [OF p(1)] b(2) c] c
      by (simp add: legendre_value [OF o prime_int_gt_1 [OF p(1)]])
  qed
  ultimately have "gauss_sign (ec_y2 ec x) ?p = 1" using gauss_sign_cong by metis
  then show ?thesis using svdw_candidate_flag [OF p] by blast
qed

lemma svdw_abscissas_flag:
  assumes p: "prime_int (ec_p ec)" "ec_p ec mod 4 = 3" "3 < ec_p ec" and a: "ec_a ec = 0"
    and b: "\<not> ec_p ec dvd (ec_b ec + 1)" "ec_p ec dvd (s * s - (ec_b ec + 1))"
    and c: "ec_p ec dvd (c * c + 3)" and d: "ec_p ec dvd (2 * d + 1 - c)"
  shows "\<exists>x1 x2 x3. svdw_abscissas rnd c d t ec = Inr (x1, x2, x3)
    \<and> (\<exists>x \<in> {x1, x2, x3}. snd (snd (svdw_candidate ec x))) \<and> {x1, x2, x3} \<subseteq> {0..<ec_p ec}"
proof -
  let ?p = "ec_p ec"
  note p0 = prime_int_pos [OF p(1)]
  have o: "odd ?p" using p(2) by presburger
  define t2 where "t2 = t * t mod ?p"
  define W where "W = (t2 + ec_b ec + 1) mod ?p"
  define X where "X = (- 3) * t2 mod ?p"
  define j where "j = W * X mod ?p"
  have m: "?p dvd (t2 - t * t)" "?p dvd (W - (t2 + ec_b ec + 1))" "?p dvd (X - (- 3) * t2)" "?p dvd (j - W * X)"
    unfolding t2_def W_def X_def j_def by (rule mod_dvd_iff [OF p0])+
  define A where "A = c * t2 mod ?p * X mod ?p"
  have A: "?p dvd (A - c * t2 * X)"
    using mod_dvd_iff [OF p0, of "c * t2 mod ?p * X"] mod_dvd_iff [OF p0, of "c * t2"] unfolding A_def by algebra
  define x1 where "x1 i = (d - A * i) mod ?p" for i
  define x2 where "x2 i = (- (x1 i + 1)) mod ?p" for i
  define x3 where "x3 i = (1 + pow_mod W 3 ?p * i) mod ?p" for i
  have xs: "?p dvd (x1 i - (d - A * i))" "?p dvd (x2 i - (- (x1 i + 1)))" "?p dvd (x3 i - (1 + pow_mod W 3 ?p * i))" for i
    unfolding x1_def x2_def x3_def by (rule mod_dvd_iff [OF p0])+
  have r: "{x1 i, x2 i, x3 i} \<subseteq> {0..<?p}" for i using p0 by (simp add: x1_def x2_def x3_def)
  have ab: "svdw_abscissas rnd c d t ec = rbind (if j \<noteq> 0 then mod_inv rnd j ?p else Inr 0) (\<lambda>i. Inr (x1 i, x2 i, x3 i))"
    unfolding svdw_abscissas_def Let_def t2_def [symmetric] W_def [symmetric] X_def [symmetric] j_def [symmetric]
      A_def [symmetric] x1_def x2_def x3_def by (rule refl)
  show ?thesis
  proof (cases "j = 0")
    case True
    have "?p dvd (x1 0 * x1 0 + x1 0 + 1)"
    proof -
      have "?p dvd 4 * (x1 0 * x1 0 + x1 0 + 1)" using c d xs(1) [of 0] by algebra
      moreover have "coprime ?p 4" using o coprime_power_right_iff [of ?p 2 2] by simp
      ultimately show ?thesis using coprime_dvd_mult_right_iff by blast
    qed
    then have "snd (snd (svdw_candidate ec (x1 0)))" by (rule svdw_degenerate [OF p(1,2) a b])
    then show ?thesis using ab True r [of 0] by simp
  next
    case False
    have "\<not> ?p dvd j" using False unfolding j_def by (rule residue_not_dvd [OF p0])
    then have i: "mod_inv rnd j ?p = Inr (inv_mod j ?p)" "?p dvd (j * inv_mod j ?p - 1)"
      using mod_inv_var_prime [OF p(1)] mod_inv_eq_mod_inv_var inv_mod_prime [OF p(1)] by simp_all
    define i where "i = inv_mod j ?p"
    have ji: "?p dvd (j * i - 1)" using i(2) by (simp add: i_def)
    have v: "?p dvd (W * (X * i) - 1)" and u: "?p dvd (X * (W * i) - 1)" using ji m(4) by algebra+
    have X: "?p dvd (X + 3 * (t * t))" using m(1,3) by algebra
    have Wt: "?p dvd (W - (t * t + ec_b ec + 1))" using m(1,2) by algebra
    have X1: "?p dvd (x1 i - (d - c * (t * t) * (X * i)))" using xs(1) [of i] A m(1) by algebra
    have X2: "?p dvd (x2 i + x1 i + 1)" using xs(2) [of i] by algebra
    have "?p dvd (pow_mod W 3 ?p - W ^ 3)" by (rule dvd_pow_mod)
    then have X3: "?p dvd (x3 i - (1 + W * W * (W * i)))" using xs(3) [of i] unfolding power3_eq_cube by algebra
    note prod = svdw_product [OF p(1) o c d b(1) v u X Wt X1 X2 X3]
    let ?f = "\<lambda>x. x * x * x + ec_b ec"
    have "\<exists>x \<in> {x1 i, x2 i, x3 i}. snd (snd (svdw_candidate ec x))"
    proof (rule ccontr)
      assume "\<not> ?thesis"
      then have n: "ec_y2 ec x \<noteq> 0" "gauss_sign (ec_y2 ec x) ?p \<noteq> 1" if "x \<in> {x1 i, x2 i, x3 i}" for x
        using that svdw_candidate_flag [OF p(1,2)] by blast+
      have f: "coprime (?f x) ?p" "gauss_sign (?f x) ?p = - 1" if x: "x \<in> {x1 i, x2 i, x3 i}" for x
      proof -
        note cub = ec_y2_cubic [OF a, of x]
        have "\<not> ?p dvd ec_y2 ec x" using n(1) [OF x] unfolding ec_y2_def by (rule residue_not_dvd [OF p0])
        then have "coprime (ec_y2 ec x) ?p" by (rule prime_int_coprime [OF p(1)])
        then show "coprime (?f x) ?p" using coprime_cong [OF cub] by simp
        show "gauss_sign (?f x) ?p = - 1" using gauss_sign_cong [OF cub] n(2) [OF x] gauss_sign_values by metis
      qed
      have nd: "\<not> ?p dvd c" "\<not> ?p dvd t" "\<not> ?p dvd X * i"
      proof -
        show "\<not> ?p dvd c"
        proof
          assume "?p dvd c"
          then have "?p dvd 3" using c by (metis dvd_add_right_iff dvd_mult2)
          then show False using zdvd_imp_le p(3) by fastforce
        qed
        have one: "\<not> ?p dvd 1" using p(3) zdvd_imp_le by fastforce
        show "\<not> ?p dvd t"
        proof
          assume "?p dvd t"
          then have "?p dvd 1" using X u by algebra
          then show False using one by blast
        qed
        show "\<not> ?p dvd X * i"
        proof
          assume "?p dvd X * i"
          then have "?p dvd 1" using v by algebra
          then show False using one by blast
        qed
      qed
      have k: "coprime ((c * t * (X * i)) ^ 3 * (ec_b ec + 1)) ?p"
        using prime_int_coprime [OF p(1) nd(1)] prime_int_coprime [OF p(1) nd(2)] prime_int_coprime [OF p(1) nd(3)]
          prime_int_coprime [OF p(1) b(1)] by simp
      have F: "coprime (?f (x1 i) * ?f (x2 i)) ?p" using f(1) by simp
      have "gauss_sign (?f (x1 i) * ?f (x2 i)) ?p * gauss_sign (?f (x3 i)) ?p = 1"
        by (rule gauss_sign_square_relation [OF o p0 F f(1) k prod]) simp
      then show False using gauss_sign_mult [OF o p0 f(1) f(1), of "x1 i" "x2 i"] f(2) by simp
    qed
    then show ?thesis using ab False i(1) r [of i] by (simp add: i_def)
  qed
qed

text \<open>
  The conditions under which the two constants exist and the construction works; they hold of secp256k1, whose
  \<open>b + 1\<close> is eight.
\<close>

definition svdw_ok :: "curve \<Rightarrow> bool" where
  "svdw_ok ec \<longleftrightarrow> prime_int (ec_p ec) \<and> ec_p ec mod 4 = 3 \<and> 3 < ec_p ec \<and> ec_a ec = 0
   \<and> \<not> ec_p ec dvd (ec_b ec + 1) \<and> legendre_symbol_var (ec_b ec + 1) (ec_p ec) = Inr 1
   \<and> legendre_symbol_var (- 3) (ec_p ec) = Inr 1"

lemma svdw_constants:
  assumes "svdw_ok ec"
  shows "\<exists>c d. SQRT_MINUS_3 ec = Inr c \<and> HALF_SQRT_MINUS_3_LESS_1 ec = Inr d
    \<and> ec_p ec dvd (c * c + 3) \<and> ec_p ec dvd (2 * d + 1 - c)"
proof -
  let ?p = "ec_p ec"
  have p: "prime_int ?p" "?p mod 4 = 3" "3 < ?p" "legendre_symbol_var (- 3) ?p = Inr 1" using assms by (simp_all add: svdw_ok_def)
  have o: "odd ?p" using p(2) by presburger
  have "\<not> ?p dvd (- 3)" using p(3) zdvd_imp_le [of ?p 3] by auto
  then obtain s where s: "?p dvd (s * s - (- 3))"
    using legendre_square_iff [OF p(1,2) prime_int_coprime [OF p(1)]] p(4) by blast
  then have "?p dvd ((s * s - (- 3)) - ((- 3) mod ?p - (- 3)))"
    by (rule dvd_diff) (rule mod_dvd_iff, use p(3) in simp)
  then have "?p dvd (s * s - (- 3) mod ?p)" by (simp only: diff_diff_eq2 diff_add_cancel)
  then obtain c where c: "SQRT_MINUS_3 ec = Inr c" unfolding SQRT_MINUS_3_def using mod_sqrt_var_3_mod_4 [OF p(1,2)] by blast
  have cc: "?p dvd (c * c + 3)"
    using mod_sqrt_var_sound [OF c [unfolded SQRT_MINUS_3_def]] by (simp add: mod_eq_dvd_iff)
  have c2: "coprime 2 ?p" using o by simp
  then have i: "py_pow_inv 2 ?p = Some (inv_mod 2 ?p)" by (simp add: py_pow_inv_def)
  define d where "d = (c - 1) * inv_mod 2 ?p mod ?p"
  have "?p dvd (2 * inv_mod 2 ?p - 1)" by (rule inv_mod_prime [OF p(1)]) (use p(3) zdvd_imp_le [of ?p 2] in auto)
  moreover have "?p dvd (d - (c - 1) * inv_mod 2 ?p)" unfolding d_def by (rule mod_dvd_iff) (use p(3) in simp)
  ultimately have "?p dvd (2 * d + 1 - c)" by algebra
  then show ?thesis using c cc i by (simp add: HALF_SQRT_MINUS_3_LESS_1_def d_def)
qed

lemma shallue_van_de_woestijne_lands:
  assumes ok: "svdw_ok ec" and t: "0 \<le> t" "t < ec_p ec"
  shows "\<exists>x y. shallue_van_de_woestijne rnd t ec = Inr (x, y) \<and> 0 \<le> x \<and> x < ec_p ec \<and> 0 \<le> y \<and> y \<le> ec_p ec
    \<and> y * y mod ec_p ec = ec_y2 ec x"
proof -
  let ?p = "ec_p ec"
  have p: "prime_int ?p" "?p mod 4 = 3" "3 < ?p" and a: "ec_a ec = 0" and b: "\<not> ?p dvd (ec_b ec + 1)"
    "legendre_symbol_var (ec_b ec + 1) ?p = Inr 1" using ok by (simp_all add: svdw_ok_def)
  obtain s where s: "?p dvd (s * s - (ec_b ec + 1))"
    using legendre_square_iff [OF p(1,2) prime_int_coprime [OF p(1) b(1)]] b(2) by blast
  obtain c d where k: "SQRT_MINUS_3 ec = Inr c" "HALF_SQRT_MINUS_3_LESS_1 ec = Inr d" "?p dvd (c * c + 3)" "?p dvd (2 * d + 1 - c)"
    using svdw_constants [OF ok] by blast
  obtain x1 x2 x3 where x: "svdw_abscissas rnd c d t ec = Inr (x1, x2, x3)" "\<exists>x \<in> {x1, x2, x3}. snd (snd (svdw_candidate ec x))"
      "{x1, x2, x3} \<subseteq> {0..<?p}"
    using svdw_abscissas_flag [OF p a b(1) s k(3,4)] by blast
  define x where "x = (if snd (snd (svdw_candidate ec x1)) then x1 else if snd (snd (svdw_candidate ec x2)) then x2 else x3)"
  have fx: "snd (snd (svdw_candidate ec x))" "0 \<le> x" "x < ?p" using x(2,3) by (auto simp: x_def)
  define y where "y = pow_mod (ec_y2 ec x) (ROOT_EXPONENT ec) ?p"
  have cand: "svdw_candidate ec x = (x, y, True)" using fx(1) by (simp add: svdw_candidate_def Let_def y_def)
  then have yy: "y * y mod ?p = ec_y2 ec x" by (simp add: svdw_candidate_def Let_def y_def)
  have yr: "0 \<le> y" "y < ?p" using p(3) by (simp_all add: y_def)
  have "(if snd (snd (svdw_candidate ec x1)) then svdw_candidate ec x1 else if snd (snd (svdw_candidate ec x2)) then svdw_candidate ec x2
      else svdw_candidate ec x3) = (x, y, True)" using cand by (simp add: x_def split: if_splits)
  then have r: "shallue_van_de_woestijne rnd t ec = Inr (x, if t mod 2 \<noteq> 0 then ?p - y else y)"
    using t k(1,2) x(1) by (simp add: shallue_van_de_woestijne_def Let_def)
  have "(?p - y) * (?p - y) mod ?p = y * y mod ?p"
  proof -
    have "(?p - y) * (?p - y) - y * y = ?p * (?p - 2 * y)" by (simp add: algebra_simps)
    then show ?thesis by (simp add: mod_eq_dvd_iff)
  qed
  then show ?thesis using r fx(2,3) yy yr by (cases "t mod 2 = 0") simp_all
qed

section \<open>Commitments\<close>

definition committed :: "curve \<Rightarrow> point \<Rightarrow> int \<Rightarrow> int \<Rightarrow> point" where
  "committed ec H r v = ec_plus ec (ec_times ec r (gen ec)) (ec_times ec v H)"

lemma member_committed: "curve_valid ec \<Longrightarrow> member ec H \<Longrightarrow> member ec (committed ec H r v)"
  unfolding committed_def by (intro member_closed member_generator)

lemma generator_accepted:
  assumes "member ec H" "H \<noteq> Inf"
  shows "assert_valid_generator (aff_of H) ec = Inr ()"
proof -
  note r = require_member [OF assms]
  have "assert_in_subgroup (aff_of H) ec = Inr ()"
    using assert_in_subgroup_iff [OF memberD(1) [OF assms(1)] arep_aff_of_member [OF assms(1)]] memberD(2) [OF assms(1)] by blast
  moreover have "aff_of H \<noteq> INF_aff" using r(3) by (auto simp: INF_aff_def)
  ultimately show ?thesis unfolding assert_valid_generator_def r(1) rbind_simps by simp
qed

lemma commit_raw_value:
  assumes v: "curve_valid ec" and e: "endo_law ec" and d: "draws ec rnd" and H: "member ec H" "H \<noteq> Inf"
  shows "pedersen_commit_raw rnd r v (aff_of H) ec = Inr (aff_of (committed ec H r v))"
proof -
  note G = member_generator [OF v]
  note R = member_closed(3) [OF G, of r] and V = member_closed(3) [OF H(1), of v]
  show ?thesis
    unfolding pedersen_commit_raw_def require_member(1) [OF H] rbind_simps mult_generator(1) [OF v drawsD [OF d]]
      mult_member [OF H e drawsD [OF d]] committed_def
    by (rule add_points_correct [OF R V arep_aff_of_member [OF R] arep_aff_of_member [OF V] drawsD [OF d] drawsD [OF d]])
qed

lemma commit_value:
  assumes "curve_valid ec" "endo_law ec" "draws ec rnd" "member ec H" "H \<noteq> Inf"
  shows "pedersen_commit rnd r v (aff_of H) ec =
    (if cv_n ec dvd r then Inl (BTClibEccValueError ''invalid (unblinded) commitment: r is 0 mod n'')
     else Inr (aff_of (committed ec H r v)))"
  unfolding pedersen_commit_def generator_accepted [OF assms(4,5)] rbind_simps commit_raw_value [OF assms]
  by (simp add: dvd_eq_mod_eq_0)

lemma verify_commitment_iff:
  assumes "curve_valid ec" "endo_law ec" "draws ec rnd" "member ec H" "H \<noteq> Inf" "member ec C"
  shows "pedersen_verify rnd r v (aff_of C) (aff_of H) ec = Inr (\<not> cv_n ec dvd r \<and> C = committed ec H r v)"
  unfolding pedersen_verify_def pedersen_assert_as_valid_def generator_accepted [OF assms(4,5)] rbind_simps
    commit_value [OF assms(1-5)]
  using aff_of_inj [OF assms(6) member_committed [OF assms(1,4)]] by (simp add: caught_false_def is_caught_def)

lemma committed_add:
  assumes v: "curve_valid ec" and H: "member ec H"
  shows "ec_plus ec (committed ec H r1 v1) (committed ec H r2 v2) = committed ec H (r1 + r2) (v1 + v2)"
proof -
  note G = member_generator [OF v]
  have "ec_plus ec (committed ec H r1 v1) (committed ec H r2 v2) =
      ec_plus ec (ec_plus ec (ec_times ec r1 (gen ec)) (ec_times ec r2 (gen ec))) (ec_plus ec (ec_times ec v1 H) (ec_times ec v2 H))"
    unfolding committed_def
    by (rule ecn.add_swap) (rule memberD(2) [OF member_closed(3) [OF G]] memberD(2) [OF member_closed(3) [OF H]])+
  then show ?thesis unfolding times_add [OF G] times_add [OF H] committed_def .
qed

text \<open>Two openings of one commitment to different values give the logarithm of the second generator.\<close>

lemma committed_binding:
  assumes v: "curve_valid ec" and H: "member ec H" and eq: "committed ec H r1 v1 = committed ec H r2 v2"
    and nv: "\<not> cv_n ec dvd (v2 - v1)"
  shows "H = ec_times ec (inv_mod (v2 - v1) (cv_n ec) * (r1 - r2)) (gen ec)"
proof -
  note G = member_generator [OF v]
  have "committed ec H (r1 - r2) 0 = ec_plus ec (committed ec H r1 v1) (committed ec H (- r2) (- v1))"
    unfolding committed_add [OF v H] by simp
  also have "\<dots> = committed ec H 0 (v2 - v1)" unfolding eq committed_add [OF v H] by simp
  finally have "ec_times ec (v2 - v1) H = ec_times ec (r1 - r2) (gen ec)"
    using ecn.zero_add [OF memberD(2) [OF member_closed(3) [OF H]]] by (simp add: committed_def)
  then have "H = ec_times ec (inv_mod (v2 - v1) (cv_n ec)) (ec_times ec (r1 - r2) (gen ec))"
    using times_inverse_iff [OF H member_closed(3) [OF G] inv_n(3) [OF v nv]] by blast
  then show ?thesis unfolding times_times [OF G] .
qed

section \<open>Encodings\<close>

lemma square_root_of_member:
  assumes P: "member ec P" "P \<noteq> Inf" and p: "ec_p ec mod 4 = 3"
  shows "y_quadratic_residue_var ec (px P)
    = Inr (if legendre_symbol_var (py P) (ec_p ec) = Inr 1 then py P else ec_p ec - py P)"
proof -
  let ?p = "ec_p ec"
  note ok = memberD(3) [OF P(1)] and c = member_coords [OF P] and f = curve_field [OF memberD(1) [OF P(1)]]
  have on: "ec_on ec (Pt (px P) (py P))" using memberD(4) [OF P(1)] c(1) by metis
  obtain r where r: "y_var ec (px P) = Inr r" "r = py P \<or> r = (- py P) mod ?p"
    using y_var_complete [OF ok p on] by blast
  have nd: "\<not> ?p dvd py P" using c(4,5) by (rule unit_not_dvd)
  have cy: "coprime (py P) ?p" by (rule prime_int_coprime [OF f(1) nd])
  have m: "(- py P) mod ?p = ?p - py P" using c(4,5) by (simp add: zmod_zminus1_eq_if)
  have s: "?p dvd (py P * py P - ec_y2 ec (px P))" using c(6) by (metis ec_y2_def mod_eq_dvd_iff mod_mod_trivial)
  have "mod_sqrt_var (ec_y2 ec (px P)) ?p = Inr r" using r(1) by (auto simp: y_var_def split: if_splits sum.splits)
  then have rp: "r = pow_mod (ec_y2 ec (px P) mod ?p) (nat (?p div 4) + 1) ?p"
    using mod_sqrt_var_3_mod_4 [OF f(1) p s] by simp
  have ym: "ec_y2 ec (px P) mod ?p = ec_y2 ec (px P)" by (simp add: ec_y2_def)
  have "gauss_sign r ?p = 1"
  proof -
    have "?p dvd (r - ec_y2 ec (px P) ^ (nat (?p div 4) + 1))"
      using dvd_pow_mod [of ?p "ec_y2 ec (px P) mod ?p" "nat (?p div 4) + 1"] unfolding rp [symmetric] by (simp only: ym)
    moreover have "?p dvd (ec_y2 ec (px P) ^ k - (py P ^ k) * (py P ^ k))" for k
    proof -
      have "(py P ^ k) * (py P ^ k) = (py P * py P) ^ k" by (simp add: power_mult_distrib)
      moreover have "(py P * py P) ^ k mod ?p = ec_y2 ec (px P) ^ k mod ?p"
        using c(6) by (metis power_mod)
      ultimately show ?thesis by (metis mod_eq_dvd_iff)
    qed
    ultimately have "?p dvd (r - py P ^ (nat (?p div 4) + 1) * py P ^ (nat (?p div 4) + 1))" by (rule dvd_diff_trans)
    then have "gauss_sign r ?p = gauss_sign (py P ^ (nat (?p div 4) + 1) * py P ^ (nat (?p div 4) + 1)) ?p"
      by (rule gauss_sign_cong)
    also have "\<dots> = 1" by (rule gauss_sign_square [OF f(2)]) (use f(3) cy in simp_all)
    finally show ?thesis .
  qed
  moreover have "gauss_sign (?p - py P) ?p = - gauss_sign (py P) ?p"
  proof -
    have "gauss_sign (?p - py P) ?p = gauss_sign (- 1 * py P) ?p" by (rule gauss_sign_cong) simp
    also have "\<dots> = gauss_sign (- 1) ?p * gauss_sign (py P) ?p"
      by (rule gauss_sign_mult [OF f(2)]) (use f(3) cy in simp_all)
    finally show ?thesis using gauss_sign_minus_1 [OF p] f(3) by simp
  qed
  moreover have "legendre_symbol_var (py P) ?p = Inr (gauss_sign (py P) ?p)" using cy by (simp add: legendre_value [OF f(2,3)])
  ultimately have "r = (if legendre_symbol_var (py P) ?p = Inr 1 then py P else ?p - py P)"
    using r(2) gauss_sign_values [of "py P" ?p] unfolding m by auto
  then show ?thesis using r(1) ok p by (simp add: y_quadratic_residue_var_def curve_ok_def)
qed

lemma tagged_parts:
  assumes P: "member ec P" "P \<noteq> Inf" and p: "ec_p ec mod 4 = 3" and s: "sized ec"
  shows "int_to_bytes (px P) (ec_p_size ec) = Inr (to_bytes (ec_p_size ec) (px P))" "int_from_bytes (to_bytes (ec_p_size ec) (px P)) = px P"
    "tagged_bytes_from_point (aff_of P) tag ec
      = Inr ((tag XOR of_bool (legendre_symbol_var (py P) (ec_p ec) = Inr 1)) # to_bytes (ec_p_size ec) (px P))"
    "tagged_point_from_x (px P) (legendre_symbol_var (py P) (ec_p ec) \<noteq> Inr 1) ec = Inr (aff_of P)"
proof -
  let ?p = "ec_p ec"
  note c = member_coords [OF P] and f = curve_field [OF memberD(1) [OF P(1)]]
  obtain l where l: "legendre_symbol_var (py P) ?p = Inr l" using legendre_value [OF f(2,3)] by blast
  show xs: "int_to_bytes (px P) (ec_p_size ec) = Inr (to_bytes (ec_p_size ec) (px P))"
    and "int_from_bytes (to_bytes (ec_p_size ec) (px P)) = px P"
    using c(2,3) s by (simp_all add: int_to_bytes_def sized_def to_from_bytes)
  show "tagged_bytes_from_point (aff_of P) tag ec = Inr ((tag XOR of_bool (legendre_symbol_var (py P) ?p = Inr 1)) # to_bytes (ec_p_size ec) (px P))"
    using require_member(1,3) [OF P] l xs by (simp add: tagged_bytes_from_point_def aff_of_px_py Let_def)
  show "tagged_point_from_x (px P) (legendre_symbol_var (py P) ?p \<noteq> Inr 1) ec = Inr (aff_of P)"
    using square_root_of_member [OF P p] by (simp add: tagged_point_from_x_def aff_of_px_py)
qed

lemma tag_bits:
  fixes tag :: "8 word"
  assumes "tag \<in> {9, 11}"
  shows "(tag XOR of_bool b) AND 0xFE = tag XOR 1" "(tag XOR of_bool b) AND 1 \<noteq> 0 \<longleftrightarrow> \<not> b"
  using assms by (cases b; auto)+

lemma tagged_roundtrip:
  assumes P: "member ec P" "P \<noteq> Inf" and p: "ec_p ec mod 4 = 3" and s: "sized ec" and tag: "tag \<in> {9, 11}"
  shows "\<exists>bs. tagged_bytes_from_point (aff_of P) tag ec = Inr bs \<and> tagged_point_from_octets bs tag ec = Inr (aff_of P)"
proof -
  let ?b = "legendre_symbol_var (py P) (ec_p ec) = Inr 1" and ?xs = "to_bytes (ec_p_size ec) (px P)"
  note t = tagged_parts [OF P p s]
  have "tagged_point_from_octets ((tag XOR of_bool ?b) # ?xs) tag ec = tagged_point_from_x (px P) (\<not> ?b) ec"
    using t(2) tag_bits [OF tag] by (simp add: tagged_point_from_octets_def bytes_from_octets_def Let_def)
  then show ?thesis using t(3) [of tag] t(4) by simp
qed

end
