(* ===== verification/Streams.thy ===== *)
theory Streams
  imports Octets
begin

text \<open>
  The stream readers of \<^verbatim>\<open>src/btclib_ecc/_utils.py\<close> over the octets still to be read: a reader
  returns what it read and what is left. A parser given octets refuses what is left over.
\<close>

definition read_exactly :: "octets \<Rightarrow> nat \<Rightarrow> (octets \<times> octets) result" where
  "read_exactly stream k =
     (let data = take k stream in
      if length data \<noteq> k then Inl (BTClibEccValueError ''not enough data'') else Inr (data, drop k stream))"

definition assert_no_trailing :: "octets \<Rightarrow> unit result" where
  "assert_no_trailing stream =
     (let trailing = stream in if trailing \<noteq> [] then Inl (BTClibEccValueError ''trailing bytes'') else Inr ())"

lemma read_exactly_Inr_iff:
  "read_exactly stream k = Inr (data, rest) \<longleftrightarrow> stream = data @ rest \<and> length data = k"
  by (auto simp: read_exactly_def Let_def split: if_splits)

lemma read_exactly_append [simp]: "length data = k \<Longrightarrow> read_exactly (data @ rest) k = Inr (data, rest)"
  by (simp add: read_exactly_Inr_iff)

lemma assert_no_trailing_iff: "assert_no_trailing stream = Inr () \<longleftrightarrow> stream = []"
  by (simp add: assert_no_trailing_def)

lemma assert_no_trailing_Nil [simp]: "assert_no_trailing [] = Inr ()"
  by (simp add: assert_no_trailing_def)

end
