(* ===== verification/Borromean.thy ===== *)
theory Borromean
  imports Streams Dh_Dleq
begin

text \<open>
  Model of \<^verbatim>\<open>src/btclib_ecc/ecc/borromean.py\<close>: ring signatures over several rings of keys, closed by one
  common hash. The two loops over the positions of a ring are recursive functions over what is left of the
  ring; the value a loop carries is the point \<open>r\<close> or the exponent \<open>e\<close> of the next position. The scalars
  \<^verbatim>\<open>secrets.randbelow\<close> draws and the factors of the blinded multiplications are arguments: \<open>filler\<close> for the
  first filling of the rings, \<open>fresh\<close> for the redrawn ones.
\<close>

section \<open>Hashes and formats\<close>

definition borromean_hash :: "octets \<Rightarrow> octets \<Rightarrow> nat \<Rightarrow> nat \<Rightarrow> hash_fn \<Rightarrow> octets result" where
  "borromean_hash m R i j hf =
     rbind (int_to_bytes (int i) 4) (\<lambda>ib. rbind (int_to_bytes (int j) 4) (\<lambda>jb. Inr (hf_digest hf (R @ m @ ib @ jb))))"

definition bytes_from_ring_point :: "apoint \<Rightarrow> curve \<Rightarrow> nat \<Rightarrow> nat \<Rightarrow> octets result" where
  "bytes_from_ring_point Q ec ring position =
     (case bytes_from_point Q ec True of
        Inl (BTClibEccValueError e) \<Rightarrow> Inl (BorromeanRingError e (Some ring) (Some position))
      | r \<Rightarrow> r)"

definition get_msg_format :: "octets \<Rightarrow> apoint list list \<Rightarrow> curve \<Rightarrow> hash_fn \<Rightarrow> octets result" where
  "get_msg_format msg pubk_rings ec hf =
     rbind (rmap (rmap (\<lambda>Q. bytes_from_point Q ec True)) pubk_rings) (\<lambda>t. Inr (hf_digest hf (msg @ concat (map concat t))))"

section \<open>Signatures\<close>

record borromean_sig =
  bs_e0 :: octets
  bs_s :: "int list list"
  bs_ec :: curve

definition assert_s_value :: "curve \<Rightarrow> int \<Rightarrow> unit result" where
  "assert_s_value ec v = (if \<not> (0 \<le> v \<and> v < cv_n ec) then Inl (BTClibEccValueError ''scalar s not in 0..n-1'') else Inr ())"

definition assert_s_ring :: "curve \<Rightarrow> int list \<Rightarrow> unit result" where
  "assert_s_ring ec ring =
     (if ring = [] then Inl (BTClibEccValueError ''ring has no keys'')
      else rbind (rmap (assert_s_value ec) ring) (\<lambda>_. Inr ()))"

definition borromean_assert_valid :: "borromean_sig \<Rightarrow> unit result" where
  "borromean_assert_valid sg =
     (if bs_e0 sg = [] then Inl (BTClibEccValueError ''e0 is empty'')
      else if bs_s sg = [] then Inl (BTClibEccValueError ''no rings'')
      else rbind (rmap (assert_s_ring (bs_ec sg)) (bs_s sg)) (\<lambda>_. Inr ()))"

definition init_borromean_sig :: "octets \<Rightarrow> int list list \<Rightarrow> curve \<Rightarrow> bool \<Rightarrow> borromean_sig result" where
  "init_borromean_sig e0 s ec check_validity =
     (let sg = \<lparr>bs_e0 = e0, bs_s = s, bs_ec = ec\<rparr> in
      rbind (if check_validity then borromean_assert_valid sg else Inr ()) (\<lambda>_. Inr sg))"

definition borromean_serialize :: "borromean_sig \<Rightarrow> bool \<Rightarrow> octets result" where
  "borromean_serialize sg check_validity =
     rbind (if check_validity then borromean_assert_valid sg else Inr ()) (\<lambda>_.
     rbind (rmap (rmap (\<lambda>v. int_to_bytes v (cv_n_size (bs_ec sg)))) (bs_s sg)) (\<lambda>vs.
       Inr (bs_e0 sg @ concat (map concat vs))))"

text \<open>\<^verbatim>\<open>parse\<close> reads octets; \<open>ec\<close> and \<open>e0_size\<close> are \<^verbatim>\<open>secp256k1\<close> and the digest size of \<^verbatim>\<open>sha256\<close> there.\<close>

primrec read_ring :: "octets \<Rightarrow> nat \<Rightarrow> nat \<Rightarrow> (int list \<times> octets) result" where
  "read_ring stream n_size 0 = Inr ([], stream)"
| "read_ring stream n_size (Suc rsize) =
     rbind (read_exactly stream n_size) (\<lambda>(chunk, stream).
     rbind (read_ring stream n_size rsize) (\<lambda>(ring, stream). Inr (int_from_bytes chunk # ring, stream)))"

primrec read_rings :: "octets \<Rightarrow> nat \<Rightarrow> nat list \<Rightarrow> (int list list \<times> octets) result" where
  "read_rings stream n_size [] = Inr ([], stream)"
| "read_rings stream n_size (rsize # rsizes) =
     rbind (read_ring stream n_size rsize) (\<lambda>(ring, stream).
     rbind (read_rings stream n_size rsizes) (\<lambda>(rings, stream). Inr (ring # rings, stream)))"

definition borromean_parse :: "octets \<Rightarrow> nat list \<Rightarrow> nat \<Rightarrow> curve \<Rightarrow> bool \<Rightarrow> borromean_sig result" where
  "borromean_parse data rsizes e0_size ec check_validity =
     rbind (read_exactly data e0_size) (\<lambda>(e0, stream).
     rbind (read_rings stream (cv_n_size ec) rsizes) (\<lambda>(s, stream).
     rbind (assert_no_trailing stream) (\<lambda>_. init_borromean_sig e0 s ec check_validity)))"

section \<open>Checks of the arguments\<close>

definition assert_matches_pubk_rings :: "apoint list list \<Rightarrow> int list list \<Rightarrow> unit result" where
  "assert_matches_pubk_rings pubk_rings s =
     (if length s \<noteq> length pubk_rings then Inl (BTClibEccValueError ''pubkey rings and s-value rings'')
      else rbind (rmap (\<lambda>(pubk_ring, s_ring).
             if length s_ring \<noteq> length pubk_ring then Inl (BTClibEccValueError ''s-values for keys'') else Inr ())
             (zip pubk_rings s)) (\<lambda>_. Inr ()))"

definition assert_sign_key_idx_in_range :: "apoint list list \<Rightarrow> int list \<Rightarrow> unit result" where
  "assert_sign_key_idx_in_range pubk_rings sign_key_idx =
     rbind (rmap (\<lambda>(pubk_ring, j_star).
        if \<not> (0 \<le> j_star \<and> j_star < int (length pubk_ring)) then Inl (BTClibEccValueError ''sign_key_idx is not a valid index'')
        else Inr ()) (zip pubk_rings sign_key_idx)) (\<lambda>_. Inr ())"

definition assert_valid_pubk_rings :: "apoint list list \<Rightarrow> curve \<Rightarrow> unit result" where
  "assert_valid_pubk_rings pubk_rings ec = rbind (rmap (rmap (\<lambda>Q. bytes_from_point Q ec True)) pubk_rings) (\<lambda>_. Inr ())"

section \<open>Signing\<close>

definition sign_exponent :: "octets \<Rightarrow> octets \<Rightarrow> nat \<Rightarrow> nat \<Rightarrow> curve \<Rightarrow> hash_fn \<Rightarrow> int result" where
  "sign_exponent m r i j ec hf =
     rbind (borromean_hash m r i j hf) (\<lambda>h.
       let e = int_from_bits h (cv_nlen ec) mod cv_n ec in
       if \<not> (0 < e \<and> e < cv_n ec) then Inl (BorromeanRingError ''implausible signature failure'' (Some i) (Some j)) else Inr e)"

text \<open>The point of a position, from its exponent, its key and its scalar.\<close>

definition ring_point :: "int \<Rightarrow> apoint \<Rightarrow> int \<Rightarrow> curve \<Rightarrow> nat \<Rightarrow> nat \<Rightarrow> octets result" where
  "ring_point e P s ec i j =
     rbind (double_mult_var (- e) P s (cv_G ec) ec) (\<lambda>t. bytes_from_ring_point t ec i j)"

text \<open>From the position after the signer's to the end of the ring: \<open>j\<close> is the first position left.\<close>

primrec ring_forward :: "curve \<Rightarrow> hash_fn \<Rightarrow> octets \<Rightarrow> nat \<Rightarrow> nat \<Rightarrow> octets \<Rightarrow> (apoint \<times> int) list \<Rightarrow> octets result" where
  "ring_forward ec hf m i j r [] = Inr r"
| "ring_forward ec hf m i j r (Ps # rest) =
     rbind (sign_exponent m r i j ec hf) (\<lambda>e.
     rbind (ring_point e (fst Ps) (snd Ps) ec i j) (\<lambda>r. ring_forward ec hf m i (Suc j) r rest))"

text \<open>From the first position to the signer's.\<close>

primrec ring_back :: "curve \<Rightarrow> hash_fn \<Rightarrow> octets \<Rightarrow> nat \<Rightarrow> nat \<Rightarrow> int \<Rightarrow> (apoint \<times> int) list \<Rightarrow> int result" where
  "ring_back ec hf m i j e [] = Inr e"
| "ring_back ec hf m i j e (Ps # rest) =
     rbind (ring_point e (fst Ps) (snd Ps) ec i j) (\<lambda>r.
     rbind (sign_exponent m r i (Suc j) ec hf) (\<lambda>e. ring_back ec hf m i (Suc j) e rest))"

definition open_ring ::
  "int \<Rightarrow> curve \<Rightarrow> hash_fn \<Rightarrow> octets \<Rightarrow> nat \<Rightarrow> apoint list \<Rightarrow> nat \<Rightarrow> int \<Rightarrow> int list \<Rightarrow> octets result" where
  "open_ring rnd ec hf m i pubk_ring j_star k s =
     (let start_idx = (j_star + 1) mod length pubk_ring in
      rbind (mult rnd k (Some (cv_G ec)) ec) (\<lambda>K.
      rbind (bytes_from_ring_point K ec i j_star) (\<lambda>r.
        if start_idx \<noteq> 0 then ring_forward ec hf m i start_idx r (drop start_idx (zip pubk_ring s)) else Inr r)))"

definition close_ring ::
  "curve \<Rightarrow> hash_fn \<Rightarrow> octets \<Rightarrow> octets \<Rightarrow> nat \<Rightarrow> apoint list \<Rightarrow> nat \<Rightarrow> int \<Rightarrow> int \<Rightarrow> int list \<Rightarrow> int list \<Rightarrow> int list result" where
  "close_ring ec hf m e0 i pubk_ring j_star k q s fresh =
     rbind (sign_exponent m e0 i 0 ec hf) (\<lambda>e.
     rbind (ring_back ec hf m i 0 e (zip (take j_star pubk_ring) (take j_star fresh))) (\<lambda>e.
       Inr (take j_star fresh @ [(k + q * e) mod cv_n ec] @ drop (Suc j_star) s)))"

record ring_signer =
  rs_pubk :: "apoint list"
  rs_idx :: nat
  rs_k :: int
  rs_q :: int
  rs_s :: "int list"
  rs_fresh :: "int list"

definition borromean_sign_hash ::
  "(nat \<Rightarrow> int) \<Rightarrow> (nat \<Rightarrow> nat \<Rightarrow> int) \<Rightarrow> (nat \<Rightarrow> nat \<Rightarrow> int) \<Rightarrow> octets \<Rightarrow> int list \<Rightarrow> int list \<Rightarrow> int list \<Rightarrow> apoint list list
    \<Rightarrow> curve \<Rightarrow> hash_fn \<Rightarrow> borromean_sig result" where
  "borromean_sign_hash rnd filler fresh msg_hash ks sign_key_idx sign_keys pubk_rings ec hf =
     rbind (bytes_from_octets msg_hash (Some [hf_size hf])) (\<lambda>m.
     rbind (assert_valid_pubk_rings pubk_rings ec) (\<lambda>_.
     if \<not> (length pubk_rings = length sign_key_idx \<and> length sign_key_idx = length ks \<and> length ks = length sign_keys)
     then Inl (BTClibEccValueError ''rings, signing indexes, nonces and signing keys'')
     else
       rbind (assert_sign_key_idx_in_range pubk_rings sign_key_idx) (\<lambda>_.
       rbind (rmap (\<lambda>k. scalar_from_int k ec) ks) (\<lambda>k_ints.
       rbind (rmap (\<lambda>q. scalar_from_int q ec) sign_keys) (\<lambda>q_ints.
         let rings = map (\<lambda>i. \<lparr>rs_pubk = pubk_rings ! i, rs_idx = nat (sign_key_idx ! i), rs_k = k_ints ! i, rs_q = q_ints ! i,
               rs_s = map (filler i) [0..<length (pubk_rings ! i)], rs_fresh = map (fresh i) [0..<length (pubk_rings ! i)]\<rparr>)
             [0..<length pubk_rings] in
         rbind (rmap (\<lambda>(i, g). open_ring (rnd i) ec hf m i (rs_pubk g) (rs_idx g) (rs_k g) (rs_s g)) (enumerate 0 rings)) (\<lambda>rs.
           let e0 = hf_digest hf (concat rs @ m) in
           rbind (rmap (\<lambda>(i, g). close_ring ec hf m e0 i (rs_pubk g) (rs_idx g) (rs_k g) (rs_q g) (rs_s g) (rs_fresh g))
                    (enumerate 0 rings)) (\<lambda>s.
             init_borromean_sig e0 s ec True)))))))"

definition borromean_sign ::
  "(nat \<Rightarrow> int) \<Rightarrow> (nat \<Rightarrow> nat \<Rightarrow> int) \<Rightarrow> (nat \<Rightarrow> nat \<Rightarrow> int) \<Rightarrow> octets \<Rightarrow> int list \<Rightarrow> int list \<Rightarrow> int list \<Rightarrow> apoint list list
    \<Rightarrow> curve \<Rightarrow> hash_fn \<Rightarrow> borromean_sig result" where
  "borromean_sign rnd filler fresh msg ks sign_key_idx sign_keys pubk_rings ec hf =
     rbind (get_msg_format msg pubk_rings ec hf) (\<lambda>m.
       borromean_sign_hash rnd filler fresh m ks sign_key_idx sign_keys pubk_rings ec hf)"

section \<open>Verification\<close>

definition verify_exponent :: "octets \<Rightarrow> octets \<Rightarrow> nat \<Rightarrow> nat \<Rightarrow> curve \<Rightarrow> hash_fn \<Rightarrow> int result" where
  "verify_exponent m r i j ec hf =
     rbind (borromean_hash m r i j hf) (\<lambda>h.
       let e = int_from_bits h (cv_nlen ec) mod cv_n ec in
       if e = 0 then Inl (BorromeanRingError ''implausible signature failure'' (Some i) (Some j)) else Inr e)"

text \<open>The points of the positions left, each hashed to the exponent of the next one but the last.\<close>

fun ring_verify :: "curve \<Rightarrow> hash_fn \<Rightarrow> octets \<Rightarrow> nat \<Rightarrow> nat \<Rightarrow> int \<Rightarrow> (apoint \<times> int) list \<Rightarrow> octets result" where
  "ring_verify ec hf m i j e [] = Inl IndexError"
| "ring_verify ec hf m i j e [Ps] = ring_point e (fst Ps) (snd Ps) ec i j"
| "ring_verify ec hf m i j e (Ps # Qs # rest) =
     rbind (ring_point e (fst Ps) (snd Ps) ec i j) (\<lambda>r.
     rbind (verify_exponent m r i (Suc j) ec hf) (\<lambda>e. ring_verify ec hf m i (Suc j) e (Qs # rest)))"

definition borromean_assert_as_valid ::
  "octets \<Rightarrow> borromean_sig \<Rightarrow> apoint list list \<Rightarrow> hash_fn \<Rightarrow> unit result" where
  "borromean_assert_as_valid msg sg pubk_rings hf =
     rbind (borromean_assert_valid sg) (\<lambda>_.
       let ec = bs_ec sg in
       rbind (assert_matches_pubk_rings pubk_rings (bs_s sg)) (\<lambda>_.
       rbind (get_msg_format msg pubk_rings ec hf) (\<lambda>m.
       rbind (rmap (\<lambda>(i, pubk_ring, s).
               rbind (verify_exponent m (bs_e0 sg) i 0 ec hf) (\<lambda>e. ring_verify ec hf m i 0 e (zip pubk_ring s)))
             (enumerate 0 (zip pubk_rings (bs_s sg)))) (\<lambda>rs.
         if hf_digest hf (concat rs @ m) \<noteq> bs_e0 sg
         then Inl (BorromeanRingError ''signature verification failed'' None None) else Inr ()))))"

definition borromean_verify :: "octets \<Rightarrow> borromean_sig \<Rightarrow> apoint list list \<Rightarrow> hash_fn \<Rightarrow> bool result" where
  "borromean_verify msg sg pubk_rings hf = caught_false (borromean_assert_as_valid msg sg pubk_rings hf)"

text \<open>The signature given as octets: the sizes of the rings are those of the keys.\<close>

definition borromean_verify_octets :: "octets \<Rightarrow> octets \<Rightarrow> apoint list list \<Rightarrow> nat \<Rightarrow> curve \<Rightarrow> hash_fn \<Rightarrow> bool result" where
  "borromean_verify_octets msg data pubk_rings e0_size ec hf =
     rbind (borromean_parse data (map length pubk_rings) e0_size ec False) (\<lambda>sg. borromean_verify msg sg pubk_rings hf)"

end
