(* ===== verification/Borromean_Correct.thy ===== *)
theory Borromean_Correct
  imports Borromean
begin

text \<open>
  A signature that the signer returns verifies: the verifier walks each ring from its first position, the
  signer walked it from its own, and the two meet at the signer's point. The encoding is inverted by the
  parser.
\<close>

section \<open>One ring\<close>

lemma verify_exponent_eq:
  assumes "curve_valid ec"
  shows "verify_exponent m r i j ec hf = sign_exponent m r i j ec hf"
proof -
  note n = curve_n(2) [OF assms]
  have "int_from_bits h (cv_nlen ec) mod cv_n ec = 0 \<longleftrightarrow>
      \<not> (0 < int_from_bits h (cv_nlen ec) mod cv_n ec \<and> int_from_bits h (cv_nlen ec) mod cv_n ec < cv_n ec)" for h
    using pos_mod_bound [OF n, of "int_from_bits h (cv_nlen ec)"] pos_mod_sign [OF n, of "int_from_bits h (cv_nlen ec)"] by linarith
  then show ?thesis unfolding verify_exponent_def sign_exponent_def Let_def by simp
qed

lemma ring_verify_forward:
  assumes "curve_valid ec"
  shows "ring_verify ec hf m i j e (Ps # rest) =
    rbind (ring_point e (fst Ps) (snd Ps) ec i j) (\<lambda>r. ring_forward ec hf m i (Suc j) r rest)"
proof (induction rest arbitrary: j e Ps)
  case Nil
  show ?case by (cases "ring_point e (fst Ps) (snd Ps) ec i j") simp_all
next
  case (Cons Qs rest)
  show ?case unfolding ring_verify.simps Cons.IH ring_forward.simps verify_exponent_eq [OF assms] ..
qed

lemma ring_verify_back:
  assumes "curve_valid ec" "ring_back ec hf m i j e front = Inr e'"
  shows "ring_verify ec hf m i j e (front @ Ps # rest) = ring_verify ec hf m i (j + length front) e' (Ps # rest)"
  using assms(2)
proof (induction front arbitrary: j e)
  case (Cons Qs front)
  obtain r e1 where s: "ring_point e (fst Qs) (snd Qs) ec i j = Inr r" "sign_exponent m r i (Suc j) ec hf = Inr e1"
      "ring_back ec hf m i (Suc j) e1 front = Inr e'"
    using Cons.prems by (auto simp: rbind_eq_Inr_iff)
  obtain Rs rest' where t: "front @ Ps # rest = Rs # rest'" by (cases front) simp_all
  have "ring_verify ec hf m i j e ((Qs # front) @ Ps # rest) = ring_verify ec hf m i (Suc j) e1 (front @ Ps # rest)"
    unfolding append_Cons t ring_verify.simps s(1) verify_exponent_eq [OF assms(1)] rbind_simps s(2) ..
  then show ?case using Cons.IH [OF s(3)] by simp
qed simp

text \<open>The signer's position: whatever the exponent, the point is that of the nonce.\<close>

lemma signer_point:
  assumes v: "curve_valid ec" and e: "endo_law ec" and q: "0 < q" "q < cv_n ec"
  shows "ring_point x (aff_of (ec_times ec q (gen ec))) ((k + q * x) mod cv_n ec) ec i j
    = bytes_from_ring_point (aff_of (ec_times ec k (gen ec))) ec i j"
proof -
  note G = member_generator [OF v] generator_finite [OF v]
  note Q = member_closed(3) [OF G(1), of q] gen_times_finite [OF v q]
  have "aff_of (gen ec) = cv_G ec" using G(2) by (cases "cv_G ec") (auto simp: aff_abs_def split: if_splits)
  moreover have "ec_plus ec (ec_times ec (- x) (ec_times ec q (gen ec))) (ec_times ec ((k + q * x) mod cv_n ec) (gen ec))
      = ec_times ec k (gen ec)"
    unfolding times_mod [OF G(1)] times_times [OF G(1)] times_add [OF G(1)] by (simp add: algebra_simps)
  ultimately show ?thesis
    using double_mult_members [OF Q G e, of "- x" "(k + q * x) mod cv_n ec"] by (simp add: ring_point_def)
qed

lemma closed_ring_verifies:
  assumes v: "curve_valid ec" and e: "endo_law ec" and q: "0 < q" "q < cv_n ec" and rnd: "0 \<le> rnd" "rnd < ec_p ec - 1"
    and j: "j < length P" and l: "length s = length P" "length fresh = length P" and key: "P ! j = aff_of (ec_times ec q (gen ec))"
    and O: "open_ring rnd ec hf m i P j k s = Inr r" and C: "close_ring ec hf m e0 i P j k q s fresh = Inr s'"
  shows "length s' = length P \<and> rbind (verify_exponent m e0 i 0 ec hf) (\<lambda>e. ring_verify ec hf m i 0 e (zip P s')) = Inr r"
proof -
  obtain x y where x: "sign_exponent m e0 i 0 ec hf = Inr x"
      "ring_back ec hf m i 0 x (zip (take j P) (take j fresh)) = Inr y"
      "s' = take j fresh @ [(k + q * y) mod cv_n ec] @ drop (Suc j) s"
    using C unfolding close_ring_def rbind_eq_Inr_iff sum.inject by blast
  let ?front = "zip (take j P) (take j fresh)" and ?rest = "drop (Suc j) (zip P s)"
  have P: "P = take j P @ P ! j # drop (Suc j) P" using j by (simp add: id_take_nth_drop)
  have z: "zip P s' = ?front @ (P ! j, (k + q * y) mod cv_n ec) # ?rest"
  proof -
    have "zip P s' = zip (take j P @ P ! j # drop (Suc j) P) s'" using P by simp
    also have "\<dots> = ?front @ (P ! j, (k + q * y) mod cv_n ec) # zip (drop (Suc j) P) (drop (Suc j) s)"
      using j l unfolding x(3) by (simp add: zip_append)
    finally show ?thesis by (simp add: drop_zip)
  qed
  define r0 where "r0 = bytes_from_ring_point (aff_of (ec_times ec k (gen ec))) ec i j"
  have O': "rbind r0 (\<lambda>r. ring_forward ec hf m i (Suc j) r ?rest) = Inr r"
  proof (cases "Suc j = length P")
    case True
    then show ?thesis using O l mult_generator(1) [OF v rnd, of k] by (cases r0) (simp_all add: open_ring_def Let_def r0_def)
  next
    case False
    then have "(j + 1) mod length P = Suc j" using j by simp
    then show ?thesis using O mult_generator(1) [OF v rnd, of k] by (simp add: open_ring_def Let_def r0_def)
  qed
  have "ring_verify ec hf m i 0 x (zip P s') = ring_verify ec hf m i j y ((P ! j, (k + q * y) mod cv_n ec) # ?rest)"
    using ring_verify_back [OF v x(2)] j l unfolding z by simp
  also have "\<dots> = rbind r0 (\<lambda>r. ring_forward ec hf m i (Suc j) r ?rest)"
    unfolding ring_verify_forward [OF v] fst_conv snd_conv key signer_point [OF v e q] r0_def ..
  finally show ?thesis using O' x(1,3) j l by (simp add: verify_exponent_eq [OF v])
qed

section \<open>The signature\<close>

lemma borromean_sign_verifies:
  assumes v: "curve_valid ec" and e: "endo_law ec" and d: "draws ec rnd"
    and S: "borromean_sign rnd filler fresh msg ks idx qs rings ec hf = Inr sg"
    and keys: "\<And>i. i < length rings \<Longrightarrow> rings ! i ! nat (idx ! i) = aff_of (ec_times ec (qs ! i) (gen ec))"
  shows "borromean_verify msg sg rings hf = Inr True"
proof -
  obtain m where m: "get_msg_format msg rings ec hf = Inr m"
      and S1: "borromean_sign_hash rnd filler fresh m ks idx qs rings ec hf = Inr sg"
    using S by (auto simp: borromean_sign_def rbind_eq_Inr_iff)
  let ?N = "length rings"
  have l: "length idx = ?N" "length ks = ?N" "length qs = ?N"
    using S1 by (auto simp: borromean_sign_hash_def rbind_eq_Inr_iff split: if_splits)
  obtain kk qq where a: "assert_sign_key_idx_in_range rings idx = Inr ()" "rmap (\<lambda>k. scalar_from_int k ec) ks = Inr kk"
      "rmap (\<lambda>q. scalar_from_int q ec) qs = Inr qq"
    using S1 by (auto simp: borromean_sign_hash_def rbind_eq_Inr_iff split: if_splits)
  have bm: "bytes_from_octets m (Some [hf_size hf]) = Inr m"
    using S1 bytes_from_octets_Inr by (fastforce simp: borromean_sign_hash_def rbind_eq_Inr_iff)
  define G where "G = map (\<lambda>i. \<lparr>rs_pubk = rings ! i, rs_idx = nat (idx ! i), rs_k = kk ! i, rs_q = qq ! i,
               rs_s = map (filler i) [0..<length (rings ! i)], rs_fresh = map (fresh i) [0..<length (rings ! i)]\<rparr>) [0..<?N]"
  define opn where "opn = (\<lambda>(i, g :: ring_signer). open_ring (rnd i) ec hf m i (rs_pubk g) (rs_idx g) (rs_k g) (rs_s g))"
  define cls where "cls e0 = (\<lambda>(i, g :: ring_signer). close_ring ec hf m e0 i (rs_pubk g) (rs_idx g) (rs_k g) (rs_q g) (rs_s g) (rs_fresh g))" for e0
  have "rbind (rmap opn (enumerate 0 G)) (\<lambda>rs. rbind (rmap (cls (hf_digest hf (concat rs @ m))) (enumerate 0 G))
      (\<lambda>s. init_borromean_sig (hf_digest hf (concat rs @ m)) s ec True)) = Inr sg"
    using S1 unfolding borromean_sign_hash_def rbind_eq_Inr_iff
    by (auto simp: a l bm Let_def rbind_eq_Inr_iff G_def opn_def cls_def split: if_splits)
  then obtain rs s where rs: "rmap opn (enumerate 0 G) = Inr rs" and s: "rmap (cls (hf_digest hf (concat rs @ m))) (enumerate 0 G) = Inr s"
      and sg: "init_borromean_sig (hf_digest hf (concat rs @ m)) s ec True = Inr sg"
    unfolding rbind_eq_Inr_iff by blast
  define e0 where "e0 = hf_digest hf (concat rs @ m)"
  have sg': "bs_e0 sg = e0" "bs_s sg = s" "bs_ec sg = ec" "borromean_assert_valid sg = Inr ()"
    using sg by (auto simp: init_borromean_sig_def e0_def rbind_eq_Inr_iff Let_def)
  have G: "length G = ?N" by (simp add: G_def)
  have each: "length (s ! i) = length (rings ! i)
      \<and> rbind (verify_exponent m e0 i 0 ec hf) (\<lambda>e. ring_verify ec hf m i 0 e (zip (rings ! i) (s ! i))) = Inr (rs ! i)"
    if i: "i < ?N" for i
  proof -
    have "opn (i, G ! i) = Inr (rs ! i)" "cls e0 (i, G ! i) = Inr (s ! i)"
      using rs s i G by (simp_all add: rmap_Inr_iff list_all2_conv_all_nth nth_enumerate_eq e0_def)
    then have oc: "open_ring (rnd i) ec hf m i (rings ! i) (nat (idx ! i)) (kk ! i) (map (filler i) [0..<length (rings ! i)]) = Inr (rs ! i)"
        "close_ring ec hf m e0 i (rings ! i) (nat (idx ! i)) (kk ! i) (qq ! i) (map (filler i) [0..<length (rings ! i)])
          (map (fresh i) [0..<length (rings ! i)]) = Inr (s ! i)"
      using i by (simp_all add: opn_def cls_def G_def)
    have "scalar_from_int (qs ! i) ec = Inr (qq ! i)"
      using a(3) i l by (simp add: rmap_Inr_iff list_all2_conv_all_nth)
    then have q: "0 < qq ! i" "qq ! i < cv_n ec" "qq ! i = qs ! i" by (auto simp: scalar_from_int_Inr_iff)
    have "0 \<le> idx ! i \<and> idx ! i < int (length (rings ! i))"
      using a(1) i l by (fastforce simp: assert_sign_key_idx_in_range_def rbind_eq_Inr_iff rmap_Inr_iff list_all2_conv_all_nth split: if_splits)
    then have j: "nat (idx ! i) < length (rings ! i)" by auto
    show ?thesis
      by (rule closed_ring_verifies [OF v e q(1,2) drawsD [OF d] j _ _ _ oc]) (simp_all add: keys [OF i] q(3))
  qed
  have ls: "length s = ?N" "length rs = ?N"
    using rs s G by (simp_all add: rmap_Inr_iff list_all2_conv_all_nth)
  have "assert_matches_pubk_rings rings s = Inr ()"
  proof -
    have "rmap (\<lambda>(pubk_ring, s_ring). if length s_ring \<noteq> length pubk_ring then Inl (BTClibEccValueError ''s-values for keys'') else Inr ())
        (zip rings s) = Inr (map (\<lambda>_. ()) (zip rings s))"
      by (rule rmap_Inr) (use each ls in \<open>auto simp: in_set_zip\<close>)
    then show ?thesis using ls by (simp add: assert_matches_pubk_rings_def)
  qed
  moreover have "rmap (\<lambda>(i, pubk_ring, s). rbind (verify_exponent m e0 i 0 ec hf) (\<lambda>e. ring_verify ec hf m i 0 e (zip pubk_ring s)))
      (enumerate 0 (zip rings s)) = Inr rs"
    unfolding rmap_Inr_iff list_all2_conv_all_nth using each ls by (simp add: nth_enumerate_eq)
  ultimately have "borromean_assert_as_valid msg sg rings hf = Inr ()"
    using sg' m by (simp add: borromean_assert_as_valid_def Let_def flip: e0_def)
  then show ?thesis by (simp add: borromean_verify_def caught_false_def)
qed

section \<open>The encoding\<close>

lemma read_ring_written:
  assumes "\<And>v. v \<in> set ring \<Longrightarrow> 0 \<le> v \<and> v < 256 ^ k"
  shows "read_ring (concat (map (to_bytes k) ring) @ rest) k (length ring) = Inr (ring, rest)"
  using assms by (induction ring) (simp_all add: to_from_bytes)

lemma read_rings_written:
  assumes "\<And>ring v. ring \<in> set rings \<Longrightarrow> v \<in> set ring \<Longrightarrow> 0 \<le> v \<and> v < 256 ^ k"
  shows "read_rings (concat (map (\<lambda>ring. concat (map (to_bytes k) ring)) rings) @ rest) k (map length rings) = Inr (rings, rest)"
  using assms
proof (induction rings)
  case (Cons ring rings)
  have "read_ring (concat (map (to_bytes k) ring) @ rest') k (length ring) = Inr (ring, rest')" for rest'
    by (rule read_ring_written) (rule Cons.prems [OF list.set_intros(1)])
  moreover have "read_rings (concat (map (\<lambda>ring. concat (map (to_bytes k) ring)) rings) @ rest) k (map length rings) = Inr (rings, rest)"
    by (rule Cons.IH) (rule Cons.prems [OF list.set_intros(2)])
  ultimately show ?case by simp
qed simp

lemma rmap_returned: "rmap f xs = Inr ys \<Longrightarrow> x \<in> set xs \<Longrightarrow> \<exists>y. f x = Inr y"
  by (induction xs arbitrary: ys) (auto simp: rbind_eq_Inr_iff)

lemma borromean_scalars:
  assumes "borromean_assert_valid sg = Inr ()" "ring \<in> set (bs_s sg)" "v \<in> set ring"
  shows "0 \<le> v \<and> v < cv_n (bs_ec sg)"
proof -
  obtain us where "rmap (assert_s_ring (bs_ec sg)) (bs_s sg) = Inr us"
    using assms(1) by (auto simp: borromean_assert_valid_def rbind_eq_Inr_iff split: if_splits)
  from rmap_returned [OF this assms(2)] obtain ws where "rmap (assert_s_value (bs_ec sg)) ring = Inr ws"
    by (auto simp: assert_s_ring_def rbind_eq_Inr_iff split: if_splits)
  from rmap_returned [OF this assms(3)] show ?thesis by (auto simp: assert_s_value_def split: if_splits)
qed

lemma read_ring_sound:
  assumes "read_ring stream k n = Inr (ring, rest)"
  shows "stream = concat (map (to_bytes k) ring) @ rest \<and> length ring = n \<and> (\<forall>v \<in> set ring. 0 \<le> v \<and> v < 256 ^ k)"
  using assms
proof (induction n arbitrary: stream ring rest)
  case (Suc n)
  obtain chunk s1 ring1 where r: "stream = chunk @ s1" "length chunk = k" "read_ring s1 k n = Inr (ring1, rest)"
      "ring = int_from_bytes chunk # ring1"
    using Suc.prems by (auto simp: rbind_eq_Inr_iff read_exactly_Inr_iff)
  show ?case using Suc.IH [OF r(3)] r(1,2,4) to_bytes_from_bytes [of chunk] int_from_bytes_bounds [of chunk] by simp
qed simp

lemma read_rings_sound:
  assumes "read_rings stream k ns = Inr (rings, rest)"
  shows "stream = concat (map (\<lambda>ring. concat (map (to_bytes k) ring)) rings) @ rest \<and> map length rings = ns
    \<and> (\<forall>ring \<in> set rings. \<forall>v \<in> set ring. 0 \<le> v \<and> v < 256 ^ k)"
  using assms
proof (induction ns arbitrary: stream rings rest)
  case (Cons n ns)
  obtain ring s1 rings1 where r: "read_ring stream k n = Inr (ring, s1)" "read_rings s1 k ns = Inr (rings1, rest)" "rings = ring # rings1"
    using Cons.prems by (auto simp: rbind_eq_Inr_iff)
  show ?case using read_ring_sound [OF r(1)] Cons.IH [OF r(2)] r(3) by simp
qed simp

lemma scalars_written:
  assumes "\<And>ring v. ring \<in> set rings \<Longrightarrow> v \<in> set ring \<Longrightarrow> 0 \<le> v \<and> v < 256 ^ k"
  shows "rmap (rmap (\<lambda>v. int_to_bytes v k)) rings = Inr (map (map (to_bytes k)) rings)"
proof (intro rmap_Inr)
  fix ring v assume "ring \<in> set rings" "v \<in> set ring"
  from assms [OF this] show "int_to_bytes v k = Inr (to_bytes k v)" by (simp add: int_to_bytes_def)
qed

text \<open>Only the octets of the signature are parsed to it.\<close>

lemma borromean_serialize_parse:
  assumes "borromean_parse data ns k ec True = Inr sg"
  shows "borromean_serialize sg True = Inr data \<and> map length (bs_s sg) = ns \<and> length (bs_e0 sg) = k \<and> bs_ec sg = ec"
proof -
  obtain e0 s1 s where r: "data = e0 @ s1" "length e0 = k" "read_rings s1 (cv_n_size ec) ns = Inr (s, [])"
      "init_borromean_sig e0 s ec True = Inr sg"
    using assms by (auto simp: borromean_parse_def rbind_eq_Inr_iff read_exactly_Inr_iff assert_no_trailing_iff)
  have sg: "borromean_assert_valid sg = Inr ()" "bs_e0 sg = e0" "bs_s sg = s" "bs_ec sg = ec"
    using r(4) by (auto simp: init_borromean_sig_def Let_def rbind_eq_Inr_iff)
  note rd = read_rings_sound [OF r(3)]
  have "rmap (rmap (\<lambda>v. int_to_bytes v (cv_n_size ec))) s = Inr (map (map (to_bytes (cv_n_size ec))) s)"
    by (rule scalars_written) (use rd in blast)
  then show ?thesis using sg rd r(1,2) by (simp add: borromean_serialize_def comp_def)
qed

lemma borromean_parse_serialize:
  assumes S: "borromean_serialize sg True = Inr bs" and n: "cv_n (bs_ec sg) \<le> 256 ^ cv_n_size (bs_ec sg)" and l: "length (bs_e0 sg) = k"
  shows "borromean_parse bs (map length (bs_s sg)) k (bs_ec sg) True = Inr sg"
proof -
  let ?ec = "bs_ec sg"
  have val: "borromean_assert_valid sg = Inr ()" using S by (auto simp: borromean_serialize_def rbind_eq_Inr_iff)
  have r: "0 \<le> v \<and> v < 256 ^ cv_n_size ?ec" if "ring \<in> set (bs_s sg)" "v \<in> set ring" for ring v
    using borromean_scalars [OF val that] n by linarith
  have "rmap (rmap (\<lambda>v. int_to_bytes v (cv_n_size ?ec))) (bs_s sg) = Inr (map (map (to_bytes (cv_n_size ?ec))) (bs_s sg))"
    by (rule scalars_written) (rule r)
  then have "bs = bs_e0 sg @ concat (map (\<lambda>ring. concat (map (to_bytes (cv_n_size ?ec)) ring)) (bs_s sg))"
    using S val by (simp add: borromean_serialize_def comp_def)
  moreover have "init_borromean_sig (bs_e0 sg) (bs_s sg) ?ec True = Inr sg"
    using val by (cases sg) (simp add: init_borromean_sig_def)
  ultimately show ?thesis
    using read_rings_written [of "bs_s sg" "cv_n_size ?ec" "[]"] r l by (simp add: borromean_parse_def)
qed

end
