(* ===== verification/Privacy_Properties.thy ===== *)
theory Privacy_Properties
  imports Test_Schemes Pedersen_Correct Borromean_Correct
begin

text \<open>The properties of the Pedersen commitments, their generators, and the Borromean ring signatures.\<close>

section \<open>Generators\<close>

text \<open>
  C22: The search for the second generator always ends, on every hash function: counting up from the hash of the
  generator, it returns the first abscissa that has a point accepted by the check of the subgroup, with the even
  ordinate.
\<close>

theorem second_generator_always_found:
  assumes "curve_valid ec" "ec_p ec mod 4 = 3" "sized ec"
  shows "\<exists>i x y. second_generator ec hf = Some (Inr (x, y)) \<and> x = ((\<lambda>x. (x + 1) mod ec_p ec) ^^ i) (generator_start ec hf)
    \<and> generator_point ec x y \<and> (\<forall>j<i. \<forall>y. \<not> generator_point ec (((\<lambda>x. (x + 1) mod ec_p ec) ^^ j) (generator_start ec hf)) y)"
  by (rule second_generator_first [OF assms])

theorem second_generator_always_found_witness:
  "\<exists>i x y. second_generator ec19 toy_hash = Some (Inr (x, y)) \<and> x = ((\<lambda>x. (x + 1) mod 19) ^^ i) (generator_start ec19 toy_hash)
    \<and> generator_point ec19 x y"
  using second_generator_always_found [OF ec19_valid _ ec19_sized, of toy_hash] by auto

text \<open>
  The map of Shallue and van de Woestijne sends every field element to a point of the curve: one of the three
  candidates is always an abscissa, and the chosen ordinate has the parity of the argument's.
\<close>

theorem svdw_lands_on_curve:
  assumes "svdw_ok ec" "0 \<le> t" "t < ec_p ec"
  shows "\<exists>x y. shallue_van_de_woestijne rnd t ec = Inr (x, y) \<and> 0 \<le> x \<and> x < ec_p ec \<and> 0 \<le> y \<and> y \<le> ec_p ec
    \<and> y * y mod ec_p ec = ec_y2 ec x"
  by (rule shallue_van_de_woestijne_lands [OF assms])

lemma svdw_ok_test: "svdw_ok (ec19\<lparr>ec_b := 3\<rparr>)"
proof -
  have "legendre_symbol_var 4 19 = Inr 1" "legendre_symbol_var (- 3) 19 = Inr 1" by code_simp+
  then show ?thesis using ec19_valid prime_19 by (simp add: svdw_ok_def)
qed

theorem svdw_lands_on_curve_witness:
  "\<exists>x y. shallue_van_de_woestijne 1 7 (ec19\<lparr>ec_b := 3\<rparr>) = Inr (x, y) \<and> y * y mod 19 = ec_y2 (ec19\<lparr>ec_b := 3\<rparr>) x"
  using svdw_lands_on_curve [OF svdw_ok_test, of 7 1] by auto

section \<open>Commitments\<close>

text \<open>
  C23: A commitment is \<open>r G + v H\<close>, refused only for a blinding factor of zero; verification accepts exactly the
  openings; and the sum of two commitments commits to the sum of the values.
\<close>

theorem pedersen_commitments_exact:
  assumes "curve_valid ec" "endo_law ec" "draws ec rnd" "member ec H" "H \<noteq> Inf" "member ec C"
  shows "pedersen_commit rnd r v (aff_of H) ec =
      (if cv_n ec dvd r then Inl (BTClibEccValueError ''invalid (unblinded) commitment: r is 0 mod n'')
       else Inr (aff_of (committed ec H r v)))
    \<and> pedersen_verify rnd r v (aff_of C) (aff_of H) ec = Inr (\<not> cv_n ec dvd r \<and> C = committed ec H r v)
    \<and> ec_plus ec (committed ec H r v) (committed ec H r' v') = committed ec H (r + r') (v + v')"
  by (intro conjI commit_value [OF assms(1-5)] verify_commitment_iff [OF assms] committed_add [OF assms(1,4)])

theorem pedersen_commitments_exact_witness:
  "pedersen_commit (\<lambda>_. 1) 5 9 (6, 16) ec19 = Inr (aff_of (committed ec19 (Pt 6 16) 5 9))"
  using pedersen_commitments_exact [OF ec19_valid ec19_endo_law ec19_draws ec19_members(1) _ ec19_members(1), of 5 9] by simp

text \<open>
  C24: Binding: who opens one commitment to two values knows the logarithm of the second generator, and it is
  computed from the two openings.
\<close>

theorem pedersen_binding:
  assumes "curve_valid ec" "endo_law ec" "draws ec rnd" "member ec H" "H \<noteq> Inf" "member ec C"
    and "pedersen_verify rnd r v (aff_of C) (aff_of H) ec = Inr True"
    and "pedersen_verify rnd r' v' (aff_of C) (aff_of H) ec = Inr True" "\<not> cv_n ec dvd (v' - v)"
  shows "H = ec_times ec (inv_mod (v' - v) (cv_n ec) * (r - r')) (gen ec)"
proof (rule committed_binding [OF assms(1,4) _ assms(9)])
  show "committed ec H r v = committed ec H r' v'"
    using assms(7,8) unfolding verify_commitment_iff [OF assms(1-6)] by simp
qed

theorem pedersen_binding_witness: "Pt 6 16 = ec_times ec19 (inv_mod (2 - 1) (cv_n ec19) * (5 - 2)) (gen ec19)"
proof (rule pedersen_binding [OF ec19_valid ec19_endo_law ec19_draws ec19_members(1) _ ec19_members(3)])
  show "pedersen_verify (\<lambda>_. 1) 5 1 (aff_of (Pt 12 18)) (aff_of (Pt 6 16)) ec19 = Inr True"
    unfolding ec19_def by code_simp
  show "pedersen_verify (\<lambda>_. 1) 2 2 (aff_of (Pt 12 18)) (aff_of (Pt 6 16)) ec19 = Inr True"
    unfolding ec19_def by code_simp
qed simp_all

text \<open>
  The encodings of commitments and of generators, whose prefix tells whether the ordinate is a square, decode
  to the point encoded.
\<close>

theorem commitment_encoding_roundtrip:
  assumes "member ec P" "P \<noteq> Inf" "ec_p ec mod 4 = 3" "sized ec"
  shows "(\<exists>bs. bytes_from_commitment (aff_of P) ec = Inr bs \<and> commitment_from_octets bs ec = Inr (aff_of P))
    \<and> (\<exists>bs. bytes_from_generator (aff_of P) ec = Inr bs \<and> generator_from_octets bs ec = Inr (aff_of P))"
  using tagged_roundtrip [OF assms, of COMMITMENT_TAG] tagged_roundtrip [OF assms, of GENERATOR_TAG]
  by (simp add: bytes_from_commitment_def commitment_from_octets_def bytes_from_generator_def generator_from_octets_def
      COMMITMENT_TAG_def GENERATOR_TAG_def)

theorem commitment_encoding_roundtrip_witness:
  "\<exists>bs. bytes_from_commitment (6, 16) ec19 = Inr bs \<and> commitment_from_octets bs ec19 = Inr (6, 16)"
  using commitment_encoding_roundtrip [OF ec19_members(1) _ _ ec19_sized] by simp

text \<open>
  The check of a generator compares it with one spelling of the point at infinity only: another spelling,
  any abscissa with ordinate zero, is accepted, and a commitment under it does not depend on the value.
\<close>

lemma generator_check_misses_infinity:
  "assert_valid_generator (7, 0) ec19 = Inr () \<and> assert_valid_generator INF_aff ec19 \<noteq> Inr ()
    \<and> pedersen_commit (\<lambda>_. 1) 5 9 (7, 0) ec19 = pedersen_commit (\<lambda>_. 1) 5 1 (7, 0) ec19
    \<and> pedersen_verify (\<lambda>_. 1) 5 1 (12, 1) (7, 0) ec19 = Inr True
    \<and> pedersen_verify (\<lambda>_. 1) 5 9 (12, 1) (7, 0) ec19 = Inr True"
proof -
  have "assert_valid_generator (7, 0) ec19 = Inr ()" "assert_valid_generator INF_aff ec19 \<noteq> Inr ()"
    "pedersen_commit (\<lambda>_. 1) 5 9 (7, 0) ec19 = pedersen_commit (\<lambda>_. 1) 5 1 (7, 0) ec19"
    "pedersen_verify (\<lambda>_. 1) 5 1 (12, 1) (7, 0) ec19 = Inr True"
    "pedersen_verify (\<lambda>_. 1) 5 9 (12, 1) (7, 0) ec19 = Inr True"
    unfolding ec19_def by code_simp+
  then show ?thesis by blast
qed

section \<open>Borromean ring signatures\<close>

text \<open>
  C25: Every signature that is made verifies, whatever the rings, the positions of the signers and the scalars
  drawn for the others, where each signer's key is at the signer's position.
\<close>

theorem borromean_sign_then_verify:
  assumes "curve_valid ec" "endo_law ec" "draws ec rnd"
    and "borromean_sign rnd filler fresh msg ks idx qs rings ec hf = Inr sg"
    and "\<And>i. i < length rings \<Longrightarrow> rings ! i ! nat (idx ! i) = aff_of (ec_times ec (qs ! i) (gen ec))"
  shows "borromean_verify msg sg rings hf = Inr True"
  by (rule borromean_sign_verifies [OF assms])

theorem borromean_sign_then_verify_witness:
  "borromean_verify [1] \<lparr>bs_e0 = [143], bs_s = [[4, 2], [5, 3]], bs_ec = ec19\<rparr> [[(12, 18), (6, 16)], [(8, 18), (12, 18)]] toy_hash = Inr True"
proof (rule borromean_sign_then_verify [OF ec19_valid ec19_endo_law ec19_draws])
  show "borromean_sign (\<lambda>_. 1) (\<lambda>i j. 2 + int j) (\<lambda>i j. 4 + int j) [1] [5, 6] [1, 0] [3, 7]
     [[(12, 18), (6, 16)], [(8, 18), (12, 18)]] ec19 toy_hash = Inr \<lparr>bs_e0 = [143], bs_s = [[4, 2], [5, 3]], bs_ec = ec19\<rparr>"
    unfolding ec19_def by code_simp
next
  fix i assume "i < length [[(12 :: int, 18 :: int), (6, 16)], [(8, 18), (12, 18)]]"
  then have "i = 0 \<or> i = 1" by auto
  moreover have "[[(12, 18), (6, 16)], [(8, 18), (12, 18)]] ! 0 ! nat ([1, 0] ! 0) = aff_of (Pt 6 16)"
    "[[(12, 18), (6, 16)], [(8, 18), (12, 18)]] ! 1 ! nat ([1, 0] ! 1) = aff_of (Pt 8 18)" by simp_all
  moreover have "aff_of (ec_times ec19 ([3, 7] ! 0) (gen ec19)) = aff_of (Pt 6 16)"
    "aff_of (ec_times ec19 ([3, 7] ! 1) (gen ec19)) = aff_of (Pt 8 18)"
    by (simp_all only: One_nat_def nth_Cons_0 nth_Cons_Suc ec19_gen ec19_multiples)
  ultimately show "[[(12, 18), (6, 16)], [(8, 18), (12, 18)]] ! i ! nat ([1, 0] ! i) = aff_of (ec_times ec19 ([3, 7] ! i) (gen ec19))"
    by metis
qed

text \<open>
  Octets and signatures correspond one to one, given the sizes of the rings: a signature is read back from
  its octets, and what is parsed serializes to the octets it was parsed from.
\<close>

theorem borromean_serialization_exact:
  assumes "cv_n (bs_ec sg) \<le> 256 ^ cv_n_size (bs_ec sg)"
  shows "borromean_serialize sg True = Inr bs \<longleftrightarrow>
    borromean_parse bs (map length (bs_s sg)) (length (bs_e0 sg)) (bs_ec sg) True = Inr sg"
  using borromean_parse_serialize [OF _ assms refl] borromean_serialize_parse by blast

theorem borromean_serialization_exact_witness:
  "borromean_parse [9, 2, 3, 4] [1, 2] 1 ec19 True = Inr \<lparr>bs_e0 = [9], bs_s = [[2], [3, 4]], bs_ec = ec19\<rparr>"
proof -
  have "borromean_serialize \<lparr>bs_e0 = [9], bs_s = [[2], [3, 4]], bs_ec = ec19\<rparr> True = Inr [9, 2, 3, 4]"
    unfolding ec19_def by code_simp
  then show ?thesis
    using borromean_serialization_exact [of "\<lparr>bs_e0 = [9], bs_s = [[2], [3, 4]], bs_ec = ec19\<rparr>" "[9, 2, 3, 4]"]
    by (simp add: numeral_2_eq_2)
qed

end
