(* ===== verification/Cosigning.thy ===== *)
theory Cosigning
  imports Dh_Dleq
begin

text \<open>
  What \<^verbatim>\<open>src/btclib_ecc/ecc/musig2.py\<close> and \<^verbatim>\<open>src/btclib_ecc/ecc/frost.py\<close> have in common, each file with
  its own copy: the compressed encodings with an infinity, the tweaked key with its two accumulators, the
  hash the nonces come from, the aggregation of nonces, and the arithmetic of a partial signature, of its
  check and of the final sum. \<open>ec\<close> and \<open>hf\<close> stand for \<^verbatim>\<open>secp256k1\<close> and \<^verbatim>\<open>sha256\<close>; the random factors of
  the blinded multiplications are arguments.
\<close>

section \<open>Encodings\<close>

definition PK_SIZE :: nat where "PK_SIZE = 33"
definition SCALAR_SIZE :: nat where "SCALAR_SIZE = 32"
definition NONCE_SIZE :: nat where "NONCE_SIZE = 66"
definition INF_BYTES :: octets where "INF_BYTES = replicate PK_SIZE 0"

definition cbytes :: "apoint \<Rightarrow> curve \<Rightarrow> octets result" where
  "cbytes P ec = bytes_from_point P ec True"

definition cbytes_ext :: "apoint \<Rightarrow> curve \<Rightarrow> octets result" where
  "cbytes_ext P ec = (if snd P = 0 then Inr INF_BYTES else cbytes P ec)"

definition cpoint :: "octets \<Rightarrow> curve \<Rightarrow> apoint result" where
  "cpoint bs ec = rbind (bytes_from_octets bs (Some [PK_SIZE])) (\<lambda>data. point_from_octets data ec False)"

definition cpoint_ext :: "octets \<Rightarrow> curve \<Rightarrow> apoint result" where
  "cpoint_ext bs ec =
     rbind (bytes_from_octets bs (Some [PK_SIZE])) (\<lambda>data. if data = INF_BYTES then Inr INF_aff else cpoint data ec)"

text \<open>\<^verbatim>\<open>except BTClibEccValueError\<close>, raised again as the contribution of one participant.\<close>

definition contributed :: "nat option \<Rightarrow> string \<Rightarrow> 'a result \<Rightarrow> 'a result" where
  "contributed i what r = (case r of Inl (BTClibEccValueError e) \<Rightarrow> Inl (InvalidContributionError i what) | _ \<Rightarrow> r)"

section \<open>Tweaked keys\<close>

record tweak_context =
  tw_Q :: apoint
  tw_gacc :: int
  tw_tacc :: int

definition x_only_pub_key :: "tweak_context \<Rightarrow> curve \<Rightarrow> octets result" where
  "x_only_pub_key ctx ec = int_to_bytes (fst (tw_Q ctx)) (ec_p_size ec)"

text \<open>The two files differ in the message for a tweak out of range.\<close>

definition tweak_step :: "string \<Rightarrow> int \<Rightarrow> tweak_context \<Rightarrow> octets \<Rightarrow> bool \<Rightarrow> curve \<Rightarrow> tweak_context result" where
  "tweak_step range_err rnd ctx tweak_bytes is_xonly ec =
     (if length tweak_bytes \<noteq> SCALAR_SIZE then Inl (BTClibEccValueError ''The tweak must be a 32-byte array.'')
      else
        let Q = tw_Q ctx; n = cv_n ec;
          g = (if is_xonly \<and> snd Q mod 2 \<noteq> 0 then n - 1 else 1);
          t = int_from_bytes tweak_bytes
        in if t \<ge> n then Inl (BTClibEccValueError range_err)
        else rbind (tweak_add_var rnd (if g = 1 then Q else negate ec Q) t ec) (\<lambda>Q.
          if snd Q = 0 then Inl (BTClibEccValueError ''The result of tweaking cannot be infinity.'')
          else Inr \<lparr>tw_Q = Q, tw_gacc = g * tw_gacc ctx mod n, tw_tacc = (t + g * tw_tacc ctx) mod n\<rparr>))"

definition tweak_steps ::
  "string \<Rightarrow> (nat \<Rightarrow> int) \<Rightarrow> tweak_context \<Rightarrow> octets list \<Rightarrow> bool list \<Rightarrow> curve \<Rightarrow> tweak_context result" where
  "tweak_steps range_err rnd ctx tweaks is_xonly ec =
     rfold (\<lambda>ctx (i, tweak_bytes, xonly). tweak_step range_err (rnd i) ctx tweak_bytes xonly ec) ctx (enumerate 0 (zip tweaks is_xonly))"

section \<open>Nonces\<close>

definition cosign_nonce_hash :: "octets \<Rightarrow> octets \<Rightarrow> octets \<Rightarrow> octets \<Rightarrow> nat \<Rightarrow> octets \<Rightarrow> octets \<Rightarrow> hash_fn \<Rightarrow> int result" where
  "cosign_nonce_hash tag rand pk agg_pk i msg_prefixed extra_in hf =
     rbind (int_to_bytes (int (length pk)) 1) (\<lambda>pk_len.
     rbind (int_to_bytes (int (length agg_pk)) 1) (\<lambda>agg_pk_len.
     rbind (int_to_bytes (int (length extra_in)) 4) (\<lambda>extra_len.
     rbind (int_to_bytes (int i) 1) (\<lambda>ib.
       Inr (int_from_bytes (tagged_hash tag (rand @ pk_len @ pk @ agg_pk_len @ agg_pk @ msg_prefixed @ extra_len @ extra_in @ ib) hf))))))"

definition prefixed_msg :: "octets option \<Rightarrow> octets result" where
  "prefixed_msg msg =
     (case msg of None \<Rightarrow> Inr [0] | Some m \<Rightarrow> rbind (int_to_bytes (int (length m)) 8) (\<lambda>len. Inr (1 # len @ m)))"

text \<open>The public nonce of two scalars.\<close>

definition public_nonce :: "(nat \<Rightarrow> int) \<Rightarrow> int \<Rightarrow> int \<Rightarrow> curve \<Rightarrow> octets result" where
  "public_nonce rnd k_1 k_2 ec =
     rbind (mult (rnd 0) k_1 None ec) (\<lambda>K_1. rbind (cbytes K_1 ec) (\<lambda>first.
     rbind (mult (rnd 1) k_2 None ec) (\<lambda>K_2. rbind (cbytes K_2 ec) (\<lambda>second. Inr (first @ second)))))"

definition secret_scalars :: "int \<Rightarrow> int \<Rightarrow> octets result" where
  "secret_scalars k_1 k_2 =
     rbind (int_to_bytes k_1 SCALAR_SIZE) (\<lambda>first. rbind (int_to_bytes k_2 SCALAR_SIZE) (\<lambda>second. Inr (first @ second)))"

definition nonce_half :: "nat \<Rightarrow> octets \<Rightarrow> octets" where
  "nonce_half j nonce = take PK_SIZE (drop (j * PK_SIZE) nonce)"

definition nonce_column :: "octets list \<Rightarrow> nat \<Rightarrow> curve \<Rightarrow> octets result" where
  "nonce_column nonces j ec =
     rbind (rmap (\<lambda>(i, pub_nonce). contributed (Some i) ''pubnonce'' (cpoint (nonce_half j pub_nonce) ec)) (enumerate 0 nonces)) (\<lambda>R_j.
     rbind (sum_var R_j ec) (\<lambda>S. cbytes_ext S ec))"

definition aggregate_nonces :: "octets list \<Rightarrow> curve \<Rightarrow> octets result" where
  "aggregate_nonces pub_nonces ec =
     rbind (rmap (\<lambda>nonce. bytes_from_octets nonce (Some [NONCE_SIZE])) pub_nonces) (\<lambda>nonces.
     rbind (nonce_column nonces 0 ec) (\<lambda>first. rbind (nonce_column nonces 1 ec) (\<lambda>second. Inr (first @ second))))"

section \<open>Sessions\<close>

record session_values =
  sv_Q :: apoint
  sv_gacc :: int
  sv_tacc :: int
  sv_b :: int
  sv_R :: apoint
  sv_e :: int

text \<open>The nonce of the signature: the generator stands in for an infinity.\<close>

definition final_nonce :: "int \<Rightarrow> apoint \<Rightarrow> apoint \<Rightarrow> int \<Rightarrow> curve \<Rightarrow> apoint result" where
  "final_nonce rnd R_1 R_2 b ec =
     rbind (mult rnd b (Some R_2) ec) (\<lambda>bR. rbind (add_var ec R_1 bR) (\<lambda>R. Inr (if snd R = 0 then cv_G ec else R)))"

definition key_sign :: "'a session_values_scheme \<Rightarrow> curve \<Rightarrow> int" where
  "key_sign v ec = (if snd (sv_Q v) mod 2 = 0 then 1 else cv_n ec - 1)"

definition partial_response :: "'a session_values_scheme \<Rightarrow> int \<Rightarrow> int \<Rightarrow> int \<Rightarrow> int \<Rightarrow> curve \<Rightarrow> octets result" where
  "partial_response v k_1 k_2 a d_secret ec =
     (let n = cv_n ec;
        (k_1, k_2) = (if snd (sv_R v) mod 2 \<noteq> 0 then (n - k_1, n - k_2) else (k_1, k_2));
        g = key_sign v ec;
        d = g * sv_gacc v * d_secret mod n;
        s = (k_1 + sv_b v * k_2 + sv_e v * a * d) mod n
      in int_to_bytes s SCALAR_SIZE)"

definition nonce_point :: "int \<Rightarrow> 'a session_values_scheme \<Rightarrow> apoint \<Rightarrow> apoint \<Rightarrow> curve \<Rightarrow> apoint result" where
  "nonce_point rnd v R_s1 R_s2 ec =
     rbind (mult rnd (sv_b v) (Some R_s2) ec) (\<lambda>bR.
     rbind (add_var ec R_s1 bR) (\<lambda>R_s. Inr (if snd (sv_R v) mod 2 \<noteq> 0 then negate ec R_s else R_s)))"

definition partial_equation :: "(nat \<Rightarrow> int) \<Rightarrow> 'a session_values_scheme \<Rightarrow> int \<Rightarrow> apoint \<Rightarrow> int \<Rightarrow> apoint \<Rightarrow> curve \<Rightarrow> bool result" where
  "partial_equation rnd v s R_s a P ec =
     (let n = cv_n ec; g = key_sign v ec * sv_gacc v mod n in
      rbind (mult (rnd 0) s (Some (cv_G ec)) ec) (\<lambda>lhs.
      rbind (mult (rnd 1) (sv_e v * a * g mod n) (Some P) ec) (\<lambda>eP.
      rbind (add_var ec R_s eP) (\<lambda>rhs. Inr (lhs = rhs)))))"

definition add_psig :: "curve \<Rightarrow> int \<Rightarrow> nat \<times> octets \<Rightarrow> int result" where
  "add_psig ec s ip =
     rbind (bytes_from_octets (snd ip) (Some [SCALAR_SIZE])) (\<lambda>bs.
       let s_i = int_from_bytes bs in
       if s_i \<ge> cv_n ec then Inl (InvalidContributionError (Some (fst ip)) ''psig'') else Inr ((s + s_i) mod cv_n ec))"

definition aggregate_psigs :: "'a session_values_scheme \<Rightarrow> octets list \<Rightarrow> curve \<Rightarrow> int result" where
  "aggregate_psigs v psigs ec =
     rbind (rfold (add_psig ec) 0 (enumerate 0 psigs)) (\<lambda>s. Inr ((s + sv_e v * key_sign v ec * sv_tacc v) mod cv_n ec))"

text \<open>
  A signer's secret nonce is a mutable buffer: signing returns what it holds afterwards, with the two scalars
  erased, next to the result.
\<close>

definition wipe_nonce :: "octets \<Rightarrow> octets" where
  "wipe_nonce sec_nonce = replicate (2 * SCALAR_SIZE) 0 @ drop (2 * SCALAR_SIZE) sec_nonce"

definition nonce_scalar :: "nat \<Rightarrow> octets \<Rightarrow> int" where
  "nonce_scalar j sec_nonce = int_from_bytes (take SCALAR_SIZE (drop (j * SCALAR_SIZE) sec_nonce))"

definition assert_fresh_nonce :: "octets \<Rightarrow> curve \<Rightarrow> (int \<times> int) result" where
  "assert_fresh_nonce sec_nonce ec =
     (let k_1 = nonce_scalar 0 sec_nonce; k_2 = nonce_scalar 1 sec_nonce; n = cv_n ec in
      if \<not> (0 < k_1 \<and> k_1 < n) then Inl (BTClibEccValueError ''first secnonce value is out of range.'')
      else if \<not> (0 < k_2 \<and> k_2 < n) then Inl (BTClibEccValueError ''second secnonce value is out of range.'')
      else Inr (k_1, k_2))"

end
