(* ===== verification/Musig2.thy ===== *)
theory Musig2
  imports Cosigning "HOL-Library.List_Lexorder"
begin

text \<open>
  Model of \<^verbatim>\<open>src/btclib_ecc/ecc/musig2.py\<close>, the multi-signatures of BIP 327: key aggregation and tweaks,
  nonces, sessions, partial signatures with their verification and aggregation, deterministic signing, and
  adaptor signatures. The values of a session are computed where they are used: the code keeps them in the
  session, a pure cache. The delegation to the bindings is not modelled.
\<close>

definition KEY_AGG_LIST_TAG :: octets where "KEY_AGG_LIST_TAG = ascii ''KeyAgg list''"
definition KEY_AGG_COEFF_TAG :: octets where "KEY_AGG_COEFF_TAG = ascii ''KeyAgg coefficient''"
definition MUSIG_AUX_TAG :: octets where "MUSIG_AUX_TAG = ascii ''MuSig/aux''"
definition MUSIG_NONCE_TAG :: octets where "MUSIG_NONCE_TAG = ascii ''MuSig/nonce''"
definition MUSIG_NONCE_COEFF_TAG :: octets where "MUSIG_NONCE_COEFF_TAG = ascii ''MuSig/noncecoef''"
definition MUSIG_DET_NONCE_TAG :: octets where "MUSIG_DET_NONCE_TAG = ascii ''MuSig/deterministic/nonce''"

section \<open>Keys\<close>

definition musig_pub_keys :: "octets list \<Rightarrow> octets list result" where
  "musig_pub_keys pub_keys = rmap (\<lambda>pk. bytes_from_octets pk (Some [PK_SIZE])) pub_keys"

definition musig_require_same_length :: "octets list \<Rightarrow> bool list \<Rightarrow> unit result" where
  "musig_require_same_length tweaks is_xonly =
     (if length tweaks \<noteq> length is_xonly
      then Inl (BTClibEccValueError ''The `tweaks` and `is_xonly` arrays must have the same length.'') else Inr ())"

definition individual_pub_key :: "int \<Rightarrow> int \<Rightarrow> curve \<Rightarrow> octets result" where
  "individual_pub_key rnd prv_key ec =
     rbind (scalar_from_int prv_key ec) (\<lambda>q. bytes_from_prv_key_int rnd q ec True)"

text \<open>Python orders octets by their first difference, a prefix before what it starts: the order of the library.\<close>

definition key_sort :: "octets list \<Rightarrow> octets list result" where
  "key_sort pub_keys = rbind (musig_pub_keys pub_keys) (\<lambda>pks. Inr (sort pks))"

definition hash_pub_keys :: "octets list \<Rightarrow> hash_fn \<Rightarrow> octets" where
  "hash_pub_keys pub_keys hf = tagged_hash KEY_AGG_LIST_TAG (concat pub_keys) hf"

definition second_pub_key :: "octets list \<Rightarrow> octets" where
  "second_pub_key pub_keys =
     (case filter (\<lambda>pk. pk \<noteq> hd pub_keys) (tl pub_keys) of [] \<Rightarrow> INF_BYTES | pk # _ \<Rightarrow> pk)"

definition key_agg_coeff :: "octets \<Rightarrow> octets \<Rightarrow> octets \<Rightarrow> curve \<Rightarrow> hash_fn \<Rightarrow> int" where
  "key_agg_coeff L second pub_key ec hf =
     (if pub_key = second then 1 else int_from_bytes (tagged_hash KEY_AGG_COEFF_TAG (L @ pub_key) hf) mod cv_n ec)"

definition key_agg :: "int \<Rightarrow> octets list \<Rightarrow> curve \<Rightarrow> hash_fn \<Rightarrow> tweak_context result" where
  "key_agg rnd pub_keys ec hf =
     rbind (musig_pub_keys pub_keys) (\<lambda>pks.
       let L = hash_pub_keys pks hf; second = second_pub_key pks;
         coefficients = map (\<lambda>pk. key_agg_coeff L second pk ec hf) pks in
       rbind (rmap (\<lambda>(i, pk). contributed (Some i) ''pubkey'' (cpoint pk ec)) (enumerate 0 pks)) (\<lambda>points.
       rbind (if length points = 1 then mult rnd (coefficients ! 0) (Some (points ! 0)) ec
              else multi_mult_points_var coefficients points ec) (\<lambda>Q.
         if snd Q = 0 then Inl (BTClibEccRuntimeError ''aggregate key is the infinity point'')
         else Inr \<lparr>tw_Q = Q, tw_gacc = 1, tw_tacc = 0\<rparr>)))"

definition musig_apply_tweak :: "int \<Rightarrow> tweak_context \<Rightarrow> octets \<Rightarrow> bool \<Rightarrow> curve \<Rightarrow> tweak_context result" where
  "musig_apply_tweak = tweak_step ''The tweak must be less than n.''"

definition key_agg_and_tweak ::
  "int \<Rightarrow> (nat \<Rightarrow> int) \<Rightarrow> octets list \<Rightarrow> octets list \<Rightarrow> bool list \<Rightarrow> curve \<Rightarrow> hash_fn \<Rightarrow> tweak_context result" where
  "key_agg_and_tweak rnd rnds pub_keys tweaks is_xonly ec hf =
     rbind (musig_require_same_length tweaks is_xonly) (\<lambda>_.
     rbind (key_agg rnd pub_keys ec hf) (\<lambda>ctx.
       rfold (\<lambda>ctx (i, t, xonly). musig_apply_tweak (rnds i) ctx t xonly ec) ctx (enumerate 0 (zip tweaks is_xonly))))"

section \<open>Nonces\<close>

definition musig_nonce_gen ::
  "(nat \<Rightarrow> int) \<Rightarrow> octets \<Rightarrow> int option \<Rightarrow> octets \<Rightarrow> octets option \<Rightarrow> octets option \<Rightarrow> octets option \<Rightarrow> curve \<Rightarrow> hash_fn
    \<Rightarrow> (octets \<times> octets) result" where
  "musig_nonce_gen rnd rand_octets prv_key pub_key agg_x_only_pub_key msg extra_in ec hf =
     rbind (bytes_from_octets rand_octets (Some [SCALAR_SIZE])) (\<lambda>rand'.
     rbind (case prv_key of None \<Rightarrow> Inr rand'
            | Some key \<Rightarrow> rbind (scalar_from_int key ec) (\<lambda>q. rbind (int_to_bytes q SCALAR_SIZE) (\<lambda>qs.
                bytes_xor qs (tagged_hash MUSIG_AUX_TAG rand' hf)))) (\<lambda>rand.
     rbind (bytes_from_octets pub_key (Some [PK_SIZE])) (\<lambda>pk.
     rbind (case agg_x_only_pub_key of None \<Rightarrow> Inr [] | Some x \<Rightarrow> bytes_from_octets x (Some [ec_p_size ec])) (\<lambda>agg_pk.
     rbind (prefixed_msg msg) (\<lambda>msg_prefixed.
       let extra = (case extra_in of None \<Rightarrow> [] | Some x \<Rightarrow> x) in
       rbind (cosign_nonce_hash MUSIG_NONCE_TAG rand pk agg_pk 0 msg_prefixed extra hf) (\<lambda>h_1.
       rbind (cosign_nonce_hash MUSIG_NONCE_TAG rand pk agg_pk 1 msg_prefixed extra hf) (\<lambda>h_2.
         let k_1 = h_1 mod cv_n ec; k_2 = h_2 mod cv_n ec in
         rbind (public_nonce rnd k_1 k_2 ec) (\<lambda>pub_nonce.
         rbind (secret_scalars k_1 k_2) (\<lambda>ks. Inr (ks @ pk, pub_nonce))))))))))"

definition musig_nonce_agg :: "octets list \<Rightarrow> curve \<Rightarrow> octets result" where
  "musig_nonce_agg = aggregate_nonces"

section \<open>Sessions\<close>

record musig_session =
  ms_agg_nonce :: octets
  ms_pub_keys :: "octets list"
  ms_tweaks :: "octets list"
  ms_is_xonly :: "bool list"
  ms_msg :: octets
  ms_adaptor :: "octets option"

definition init_musig_session ::
  "octets \<Rightarrow> octets list \<Rightarrow> octets list \<Rightarrow> bool list \<Rightarrow> octets \<Rightarrow> octets option \<Rightarrow> musig_session result" where
  "init_musig_session agg_nonce pub_keys tweaks is_xonly msg adaptor =
     rbind (bytes_from_octets agg_nonce (Some [NONCE_SIZE])) (\<lambda>agg_nonce.
     rbind (musig_pub_keys pub_keys) (\<lambda>pub_keys.
     rbind (case adaptor of None \<Rightarrow> Inr None | Some t \<Rightarrow> rbind (bytes_from_octets t (Some [PK_SIZE])) (\<lambda>t. Inr (Some t))) (\<lambda>adaptor.
     rbind (musig_require_same_length tweaks is_xonly) (\<lambda>_.
       Inr \<lparr>ms_agg_nonce = agg_nonce, ms_pub_keys = pub_keys, ms_tweaks = tweaks, ms_is_xonly = is_xonly, ms_msg = msg,
            ms_adaptor = adaptor\<rparr>))))"

record musig_values = session_values +
  mv_L :: octets
  mv_second :: octets
  mv_pub_keys_set :: "octets set"

text \<open>
  The factors of the blinded multiplications of a session: of the aggregation, the tweaks and the final nonce.
\<close>

definition musig_session_values :: "(nat \<Rightarrow> int) \<Rightarrow> musig_session \<Rightarrow> curve \<Rightarrow> hash_fn \<Rightarrow> musig_values result" where
  "musig_session_values rnd ctx ec hf =
     rbind (key_agg_and_tweak (rnd 0) (\<lambda>i. rnd (i + 2)) (ms_pub_keys ctx) (ms_tweaks ctx) (ms_is_xonly ctx) ec hf) (\<lambda>key_ctx.
     rbind (x_only_pub_key key_ctx ec) (\<lambda>x_Q.
     rbind (contributed None ''aggnonce'' (cpoint_ext (take PK_SIZE (ms_agg_nonce ctx)) ec)) (\<lambda>R_1.
     rbind (contributed None ''aggnonce'' (cpoint_ext (drop PK_SIZE (ms_agg_nonce ctx)) ec)) (\<lambda>R_2.
     rbind (case ms_adaptor ctx of None \<Rightarrow> Inr R_1
            | Some t \<Rightarrow> rbind (contributed None ''adaptor'' (cpoint t ec)) (add_var ec R_1)) (\<lambda>R_1.
     rbind (cbytes_ext R_1 ec) (\<lambda>r_1. rbind (cbytes_ext R_2 ec) (\<lambda>r_2.
       let t = tagged_hash MUSIG_NONCE_COEFF_TAG (r_1 @ r_2 @ x_Q @ ms_msg ctx) hf;
         b = int_from_bytes t mod cv_n ec in
       rbind (final_nonce (rnd 1) R_1 R_2 b ec) (\<lambda>R.
       rbind (ssa_challenge (ms_msg ctx) (fst (tw_Q key_ctx)) (fst R) ec hf) (\<lambda>e.
         Inr \<lparr>sv_Q = tw_Q key_ctx, sv_gacc = tw_gacc key_ctx, sv_tacc = tw_tacc key_ctx, sv_b = b, sv_R = R, sv_e = e,
              mv_L = hash_pub_keys (ms_pub_keys ctx) hf, mv_second = second_pub_key (ms_pub_keys ctx),
              mv_pub_keys_set = set (ms_pub_keys ctx)\<rparr>)))))))))"

definition session_key_agg_coeff :: "musig_values \<Rightarrow> octets \<Rightarrow> curve \<Rightarrow> hash_fn \<Rightarrow> int result" where
  "session_key_agg_coeff v pub_key ec hf =
     (if pub_key \<notin> mv_pub_keys_set v
      then Inl (BTClibEccValueError ''The signer's pubkey must be included in the list of pubkeys.'')
      else Inr (key_agg_coeff (mv_L v) (mv_second v) pub_key ec hf))"

section \<open>Partial signatures\<close>

text \<open>What follows the erasing of the nonce in \<^verbatim>\<open>sign\<close>: the two scalars are the ones read before it.\<close>

definition musig_respond :: "int \<Rightarrow> musig_values \<Rightarrow> octets \<Rightarrow> int \<Rightarrow> curve \<Rightarrow> hash_fn \<Rightarrow> octets result" where
  "musig_respond rnd v sec_nonce prv_key ec hf =
     rbind (assert_fresh_nonce sec_nonce ec) (\<lambda>(k_1, k_2).
     rbind (scalar_from_int prv_key ec) (\<lambda>d_secret.
     rbind (individual_pub_key rnd d_secret ec) (\<lambda>pk.
       if pk \<noteq> drop (2 * SCALAR_SIZE) sec_nonce
       then Inl (BTClibEccValueError ''Public key does not match nonce_gen argument'')
       else rbind (session_key_agg_coeff v pk ec hf) (\<lambda>a. partial_response v k_1 k_2 a d_secret ec))))"

definition musig_sign :: "(nat \<Rightarrow> int) \<Rightarrow> int \<Rightarrow> octets \<Rightarrow> int \<Rightarrow> musig_session \<Rightarrow> curve \<Rightarrow> hash_fn \<Rightarrow> octets \<times> octets result" where
  "musig_sign rnd rnd' sec_nonce prv_key ctx ec hf =
     (case musig_session_values rnd ctx ec hf of
        Inl e \<Rightarrow> (sec_nonce, Inl e)
      | Inr v \<Rightarrow> (wipe_nonce sec_nonce, musig_respond rnd' v sec_nonce prv_key ec hf))"

definition det_nonce_hash :: "octets \<Rightarrow> octets \<Rightarrow> octets \<Rightarrow> octets \<Rightarrow> nat \<Rightarrow> hash_fn \<Rightarrow> int result" where
  "det_nonce_hash prv_key agg_other_nonce agg_pk msg i hf =
     rbind (int_to_bytes (int (length msg)) 8) (\<lambda>len. rbind (int_to_bytes (int i) 1) (\<lambda>ib.
       Inr (int_from_bytes (tagged_hash MUSIG_DET_NONCE_TAG (prv_key @ agg_other_nonce @ agg_pk @ len @ msg @ ib) hf))))"

definition as_other_nonce :: "octets result \<Rightarrow> octets result" where
  "as_other_nonce r = (case r of Inl (InvalidContributionError i w) \<Rightarrow> Inl (InvalidContributionError None ''aggothernonce'') | _ \<Rightarrow> r)"

text \<open>
  \<open>rnd\<close> serves the key, the nonces and the session in turn: the \<open>k\<close>-th group of draws is \<open>rnd k\<close>.
\<close>

definition musig_deterministic_sign ::
  "(nat \<Rightarrow> nat \<Rightarrow> int) \<Rightarrow> int \<Rightarrow> octets \<Rightarrow> octets list \<Rightarrow> octets list \<Rightarrow> bool list \<Rightarrow> octets \<Rightarrow> octets option \<Rightarrow> curve \<Rightarrow> hash_fn
    \<Rightarrow> (octets \<times> octets) result" where
  "musig_deterministic_sign rnd prv_key agg_other_nonce pub_keys tweaks is_xonly msg rand ec hf =
     rbind (scalar_from_int prv_key ec) (\<lambda>q.
     rbind (int_to_bytes q SCALAR_SIZE) (\<lambda>qs.
     rbind (case rand of None \<Rightarrow> Inr qs | Some r \<Rightarrow> bytes_xor qs (tagged_hash MUSIG_AUX_TAG r hf)) (\<lambda>sk.
     rbind (bytes_from_octets agg_other_nonce (Some [NONCE_SIZE])) (\<lambda>agg_other_nonce.
     rbind (key_agg_and_tweak (rnd 0 0) (rnd 1) pub_keys tweaks is_xonly ec hf) (\<lambda>key_ctx.
     rbind (x_only_pub_key key_ctx ec) (\<lambda>agg_pk.
     rbind (det_nonce_hash sk agg_other_nonce agg_pk msg 0 hf) (\<lambda>h_1.
     rbind (det_nonce_hash sk agg_other_nonce agg_pk msg 1 hf) (\<lambda>h_2.
       let k_1 = h_1 mod cv_n ec; k_2 = h_2 mod cv_n ec in
       rbind (public_nonce (rnd 2) k_1 k_2 ec) (\<lambda>pub_nonce.
       rbind (secret_scalars k_1 k_2) (\<lambda>ks.
       rbind (individual_pub_key (rnd 0 1) q ec) (\<lambda>pk.
       rbind (as_other_nonce (musig_nonce_agg [pub_nonce, agg_other_nonce] ec)) (\<lambda>agg_nonce.
       rbind (init_musig_session agg_nonce pub_keys tweaks is_xonly msg None) (\<lambda>ctx.
       rbind (snd (musig_sign (rnd 3) (rnd 0 2) (ks @ pk) q ctx ec hf)) (\<lambda>psig.
         Inr (pub_nonce, psig)))))))))))))))"

definition musig_partial_sig_verify_raw ::
  "(nat \<Rightarrow> int) \<Rightarrow> (nat \<Rightarrow> int) \<Rightarrow> octets \<Rightarrow> octets \<Rightarrow> octets \<Rightarrow> musig_session \<Rightarrow> curve \<Rightarrow> hash_fn \<Rightarrow> bool result" where
  "musig_partial_sig_verify_raw rnd rnd' psig pub_nonce pub_key ctx ec hf =
     rbind (musig_session_values rnd ctx ec hf) (\<lambda>v.
     rbind (bytes_from_octets psig (Some [SCALAR_SIZE])) (\<lambda>psig_bytes.
       let s = int_from_bytes psig_bytes in
       if s \<ge> cv_n ec then Inr False
       else
         rbind (bytes_from_octets pub_nonce (Some [NONCE_SIZE])) (\<lambda>pub_nonce.
         rbind (bytes_from_octets pub_key (Some [PK_SIZE])) (\<lambda>pub_key.
         rbind (cpoint (take PK_SIZE pub_nonce) ec) (\<lambda>R_s1.
         rbind (cpoint (drop PK_SIZE pub_nonce) ec) (\<lambda>R_s2.
         rbind (nonce_point (rnd' 2) v R_s1 R_s2 ec) (\<lambda>R_s.
         rbind (cpoint pub_key ec) (\<lambda>P.
         rbind (session_key_agg_coeff v pub_key ec hf) (\<lambda>a. partial_equation rnd' v s R_s a P ec)))))))))"

definition musig_partial_sig_verify ::
  "(nat \<Rightarrow> int) \<Rightarrow> (nat \<Rightarrow> int) \<Rightarrow> octets \<Rightarrow> octets list \<Rightarrow> octets list \<Rightarrow> octets list \<Rightarrow> bool list \<Rightarrow> octets \<Rightarrow> int \<Rightarrow> curve \<Rightarrow> hash_fn
    \<Rightarrow> bool result" where
  "musig_partial_sig_verify rnd rnd' psig pub_nonces pub_keys tweaks is_xonly msg i ec hf =
     (if length pub_nonces \<noteq> length pub_keys
      then Inl (BTClibEccValueError ''The `pubnonces` and `pubkeys` arrays must have the same length.'')
      else if \<not> (0 \<le> i \<and> i < int (length pub_keys))
      then Inl (BTClibEccValueError ''The signer index must satisfy 0 <= i <= u - 1.'')
      else
        rbind (musig_nonce_agg pub_nonces ec) (\<lambda>agg_nonce.
        rbind (init_musig_session agg_nonce pub_keys tweaks is_xonly msg None) (\<lambda>ctx.
          musig_partial_sig_verify_raw rnd rnd' psig (pub_nonces ! nat i) (pub_keys ! nat i) ctx ec hf)))"

section \<open>Aggregation and adaptors\<close>

definition agg_s :: "(nat \<Rightarrow> int) \<Rightarrow> octets list \<Rightarrow> musig_session \<Rightarrow> curve \<Rightarrow> hash_fn \<Rightarrow> (int \<times> int) result" where
  "agg_s rnd psigs ctx ec hf =
     rbind (musig_session_values rnd ctx ec hf) (\<lambda>v.
     rbind (aggregate_psigs v psigs ec) (\<lambda>s. Inr (fst (sv_R v), s)))"

definition musig_partial_sig_agg :: "(nat \<Rightarrow> int) \<Rightarrow> octets list \<Rightarrow> musig_session \<Rightarrow> curve \<Rightarrow> hash_fn \<Rightarrow> ssa_sig result" where
  "musig_partial_sig_agg rnd psigs ctx ec hf =
     (if ms_adaptor ctx \<noteq> None
      then Inl (BTClibEccValueError ''session carries an adaptor: call partial_sig_agg_adaptor instead'')
      else rbind (agg_s rnd psigs ctx ec hf) (\<lambda>(x_R, s). init_ssa_sig x_R s ec True))"

record pre_signature =
  ps_r :: int
  ps_s :: int

definition partial_sig_agg_adaptor :: "(nat \<Rightarrow> int) \<Rightarrow> octets list \<Rightarrow> musig_session \<Rightarrow> curve \<Rightarrow> hash_fn \<Rightarrow> pre_signature result" where
  "partial_sig_agg_adaptor rnd psigs ctx ec hf =
     (if ms_adaptor ctx = None
      then Inl (BTClibEccValueError ''session carries no adaptor: call partial_sig_agg instead'')
      else rbind (agg_s rnd psigs ctx ec hf) (\<lambda>(x_R, s). Inr \<lparr>ps_r = x_R, ps_s = s\<rparr>))"

definition adapt :: "(nat \<Rightarrow> int) \<Rightarrow> pre_signature \<Rightarrow> int \<Rightarrow> musig_session \<Rightarrow> curve \<Rightarrow> hash_fn \<Rightarrow> ssa_sig result" where
  "adapt rnd pre_sig t ctx ec hf =
     rbind (musig_session_values rnd ctx ec hf) (\<lambda>v.
     rbind (scalar_from_int t ec) (\<lambda>t.
       let t = (if snd (sv_R v) mod 2 \<noteq> 0 then cv_n ec - t else t);
         s = (ps_s pre_sig + t) mod cv_n ec
       in init_ssa_sig (ps_r pre_sig) s ec True))"

definition extract_adaptor :: "(nat \<Rightarrow> int) \<Rightarrow> ssa_sig \<Rightarrow> pre_signature \<Rightarrow> musig_session \<Rightarrow> curve \<Rightarrow> hash_fn \<Rightarrow> octets result" where
  "extract_adaptor rnd sg pre_sig ctx ec hf =
     rbind (musig_session_values rnd ctx ec hf) (\<lambda>v.
       let t = (ss_s sg - ps_s pre_sig) mod cv_n ec;
         t = (if snd (sv_R v) mod 2 \<noteq> 0 then (- t) mod cv_n ec else t)
       in int_to_bytes t SCALAR_SIZE)"

end
