(* ===== verification/Cosigning_Correct.thy ===== *)
theory Cosigning_Correct
  imports Cosigning Signature_Checks
begin

text \<open>
  The operations of the co-signing protocols on the points of the group: multiplications, sums and encodings
  that include the infinity, the tweaked key as a combination of the key before and the generator, the
  aggregation of nonces, and the sum of partial signatures, each of which satisfies the equation that is
  checked, as a Schnorr signature of the tweaked key.
\<close>

section \<open>The curves of the protocols\<close>

text \<open>
  What the protocols use of \<^verbatim>\<open>secp256k1\<close>: sizes of 32 octets, a prime congruent to three modulo four, an
  order that every point of the curve has, and the spelling \<open>(5, 0)\<close> of the infinity not being the abscissa
  of a point of order two.
\<close>

definition cosign_curve :: "curve \<Rightarrow> bool" where
  "cosign_curve ec \<longleftrightarrow> curve_valid ec \<and> endo_law ec \<and> ec_p ec mod 4 = 3 \<and> ec_p ec < 256 ^ 32 \<and> ec_p_size ec = 32
     \<and> cv_n ec < 256 ^ 32 \<and> require_on_curve ec INF_aff = Inr () \<and> (\<forall>P. ec_on ec P \<longrightarrow> in_order ec (cv_n ec) P)"

lemma cosignD:
  assumes "cosign_curve ec"
  shows "curve_valid ec" "endo_law ec" "ec_p ec mod 4 = 3" "sized ec" "ec_p_size ec = 32" "cv_n ec < 256 ^ 32"
    "require_on_curve ec INF_aff = Inr ()" "member ec Inf" "member ec (gen ec)" "curve_ok ec"
  using assms member_closed(4) member_generator by (simp_all add: cosign_curve_def sized_def curve_valid_def)

lemma cosign_member: "cosign_curve ec \<Longrightarrow> ec_on ec P \<Longrightarrow> member ec P"
  by (simp add: cosign_curve_def member_def)

section \<open>Points\<close>

lemma mult_point:
  assumes c: "cosign_curve ec" and P: "member ec P" and r: "0 \<le> rnd" "rnd < ec_p ec - 1"
  shows "mult rnd m (Some (aff_of P)) ec = Inr (aff_of (ec_times ec m P))"
proof (cases "P = Inf")
  case True
  then show ?thesis using mult_INF [OF cosignD(1,2,7) [OF c] r, of m] ecn.zm_zero [OF memberD(2) [OF P], of m] by simp
next
  case False
  show ?thesis by (rule mult_member [OF P False cosignD(2) [OF c] r])
qed

lemma require_point: "cosign_curve ec \<Longrightarrow> member ec P \<Longrightarrow> require_on_curve ec (aff_of P) = Inr ()"
  using require_member(1) cosignD(7) by (cases "P = Inf") simp_all

lemma add_aff_point:
  assumes P: "member ec P" and S: "member ec S"
  shows "add_aff_var ec (aff_of P) (aff_of S) = Inr (aff_of (ec_plus ec P S))"
proof (cases "P = Inf \<or> S = Inf")
  case True
  then show ?thesis using aff_of_finite [OF P] aff_of_finite [OF S] ecn.zero_add [OF memberD(2) [OF S]]
    by (auto simp: add_aff_var_def)
next
  case False
  then have fin: "P \<noteq> Inf" "S \<noteq> Inf" by simp_all
  obtain C where C: "add_aff_var ec (aff_of P) (aff_of S) = Inr C" "arep ec C (ec_plus ec P S)"
    using add_aff_members [OF P S arep_aff_of_member [OF P] arep_aff_of_member [OF S]] by blast
  show ?thesis
  proof (cases "ec_plus ec P S = Inf")
    case sum: True
    have "S = ec_minus ec P" by (rule ecn.neg_unique [OF memberD(2) [OF P] memberD(2) [OF S] sum])
    then have "px S = px P" "py S = ec_p ec - py P" using minus_coords [OF P fin(1)] by simp_all
    moreover have "odd (ec_p ec)" using prime_odd curve_ok_p [OF memberD(3) [OF P]] by blast
    then have "ec_p ec - py P \<noteq> py P" by presburger
    ultimately show ?thesis using member_coords(4) [OF P fin(1)] member_coords(4) [OF S fin(2)] sum
      by (simp add: add_aff_var_def aff_of_px_py [of P] aff_of_px_py [of S])
  next
    case False
    then show ?thesis using C aff_of_unique by (metis arep_def)
  qed
qed

lemma add_point:
  assumes "cosign_curve ec" "member ec P" "member ec S"
  shows "add_var ec (aff_of P) (aff_of S) = Inr (aff_of (ec_plus ec P S))"
  unfolding add_var_def require_point [OF assms(1,2)] require_point [OF assms(1,3)] rbind_simps
  by (rule add_aff_point [OF assms(2,3)])

lemma negate_point: "member ec P \<Longrightarrow> negate ec (aff_of P) = aff_of (ec_minus ec P)"
proof (cases "P = Inf")
  case True
  assume P: "member ec P"
  show ?thesis using True ecn.neg_zero [OF memberD(2) [OF P]] by (simp add: negate_def INF_aff_def)
next
  case False
  assume P: "member ec P"
  note c = member_coords [OF P False]
  have "(ec_p ec - py P) mod ec_p ec = ec_p ec - py P" using c by (intro mod_pos_pos_trivial) simp_all
  then show ?thesis using minus_coords [OF P False] by (simp add: negate_def aff_of_px_py)
qed

primrec psum :: "curve \<Rightarrow> point list \<Rightarrow> point" where
  "psum ec [] = Inf"
| "psum ec (P # Ps) = ec_plus ec P (psum ec Ps)"

lemma psum_member: "cosign_curve ec \<Longrightarrow> \<forall>P \<in> set Ps. member ec P \<Longrightarrow> member ec (psum ec Ps)"
  by (induction Ps) (simp_all add: cosignD member_closed)

lemma fold_points:
  assumes c: "cosign_curve ec" and S: "member ec S" and P: "\<forall>P \<in> set Ps. member ec P"
  shows "rfold (add_aff_var ec) (aff_of S) (map aff_of Ps) = Inr (aff_of (ec_plus ec S (psum ec Ps)))"
  using S P
proof (induction Ps arbitrary: S)
  case (Cons Q Ps)
  have Q: "member ec Q" and Ps: "\<forall>P \<in> set Ps. member ec P" using Cons.prems(2) by simp_all
  show ?case
    using add_aff_point [OF Cons.prems(1) Q] Cons.IH [OF member_closed(1) [OF Cons.prems(1) Q] Ps]
      plus_assoc [OF Cons.prems(1) Q psum_member [OF c Ps]] by simp
qed simp

lemma sum_points:
  assumes c: "cosign_curve ec" and P: "\<forall>P \<in> set Ps. member ec P"
  shows "sum_var (map aff_of Ps) ec = Inr (aff_of (psum ec Ps))"
proof -
  have "rfold (add_aff_var ec) INF_aff (map aff_of Ps) = Inr (aff_of (psum ec Ps))"
    using fold_points [OF c cosignD(8) [OF c] P] ecn.zero_add [OF memberD(2) [OF psum_member [OF c P]]] by simp
  moreover have "rmap (require_on_curve ec) (map aff_of Ps) = Inr (map (\<lambda>_. ()) (map aff_of Ps))"
    by (rule rmap_require_all) (use require_point [OF c] P in auto)
  ultimately show ?thesis by (simp add: sum_var_def)
qed

section \<open>Encodings\<close>

lemma cpoint_sound:
  assumes c: "cosign_curve ec" and A: "cpoint bs ec = Inr A"
  shows "\<exists>P. member ec P \<and> P \<noteq> Inf \<and> A = aff_of P"
proof -
  have "point_from_octets bs ec False = Inr A" using A by (auto simp: cpoint_def rbind_eq_Inr_iff bytes_from_octets_def split: if_splits)
  then have a: "arep ec A (Pt (fst A) (snd A))"
    using point_from_octets_accepted accepted_point(5) cosignD(10) [OF c] by blast
  then have "ec_on ec (Pt (fst A) (snd A))" by (simp add: arep_def)
  then show ?thesis using cosign_member [OF c] by (intro exI [of _ "Pt (fst A) (snd A)"]) simp
qed

lemma accepted_member: "member ec P \<Longrightarrow> P \<noteq> Inf \<Longrightarrow> accepted ec (aff_of P)"
  using require_member [of ec P] assert_in_subgroup_iff [OF memberD(1) arep_aff_of_member] memberD(2) by (simp add: accepted_def)

lemma cbytes_point:
  assumes c: "cosign_curve ec" and P: "member ec P" "P \<noteq> Inf"
  shows "\<exists>bs. cbytes (aff_of P) ec = Inr bs \<and> length bs = PK_SIZE \<and> bs \<noteq> INF_BYTES \<and> cpoint bs ec = Inr (aff_of P)"
proof -
  let ?bs = "(if odd (snd (aff_of P)) then 3 else 2) # to_bytes (ec_p_size ec) (fst (aff_of P))"
  note a = accepted_member [OF P] and k = cosignD [OF c]
  have "bytes_from_point (aff_of P) ec True = Inr ?bs" by (rule accepted_encodes(1) [OF a k(10,4)])
  moreover have "point_from_octets ?bs ec False = Inr (aff_of P)" by (rule compressed_roundtrip [OF a k(10,4,3)])
  moreover have "hd ?bs \<noteq> hd INF_BYTES" by (simp add: INF_BYTES_def PK_SIZE_def)
  then have "?bs \<noteq> INF_BYTES" by metis
  ultimately show ?thesis using k(5)
    by (intro exI [of _ ?bs]) (simp add: cbytes_def cpoint_def bytes_from_octets_def PK_SIZE_def)
qed

lemma cpoint_ext_sound:
  assumes c: "cosign_curve ec" and A: "cpoint_ext bs ec = Inr A"
  shows "\<exists>P. member ec P \<and> A = aff_of P"
proof (cases "bs = INF_BYTES")
  case True
  then show ?thesis using A cosignD(8) [OF c]
    by (intro exI [of _ Inf]) (auto simp: cpoint_ext_def bytes_from_octets_def INF_BYTES_def)
next
  case False
  then have "cpoint bs ec = Inr A" using A by (auto simp: cpoint_ext_def bytes_from_octets_def split: if_splits)
  from cpoint_sound [OF c this] show ?thesis by blast
qed

lemma cbytes_ext_point:
  assumes c: "cosign_curve ec" and P: "member ec P"
  shows "\<exists>bs. cbytes_ext (aff_of P) ec = Inr bs \<and> length bs = PK_SIZE \<and> cpoint_ext bs ec = Inr (aff_of P)"
proof (cases "P = Inf")
  case True
  then show ?thesis by (simp add: cbytes_ext_def INF_aff_def cpoint_ext_def bytes_from_octets_def INF_BYTES_def)
next
  case False
  obtain bs where "cbytes (aff_of P) ec = Inr bs" "length bs = PK_SIZE" "bs \<noteq> INF_BYTES" "cpoint bs ec = Inr (aff_of P)"
    using cbytes_point [OF c P False] by blast
  then show ?thesis using require_member(3) [OF P False] by (simp add: cbytes_ext_def cpoint_ext_def bytes_from_octets_def)
qed

text \<open>The point that octets spell, and the infinity where they spell none.\<close>

definition pt :: "curve \<Rightarrow> octets \<Rightarrow> point" where
  "pt ec bs = (case cpoint bs ec of Inr A \<Rightarrow> aff_abs A | Inl _ \<Rightarrow> Inf)"

lemma cpoint_pt:
  assumes c: "cosign_curve ec" and A: "cpoint bs ec = Inr A"
  shows "A = aff_of (pt ec bs)" "member ec (pt ec bs)" "pt ec bs \<noteq> Inf"
proof -
  obtain P where P: "member ec P" "P \<noteq> Inf" "A = aff_of P" using cpoint_sound [OF c A] by blast
  moreover have "pt ec bs = P" using A P require_member(2) [OF P(1,2)] by (simp add: pt_def)
  ultimately show "A = aff_of (pt ec bs)" "member ec (pt ec bs)" "pt ec bs \<noteq> Inf" by simp_all
qed

lemma pt_member: "cosign_curve ec \<Longrightarrow> member ec (pt ec bs)"
  using cpoint_pt(2) [of ec bs] cosignD(8) by (cases "cpoint bs ec") (auto simp: pt_def)

lemma contributed_Inr_iff [simp]: "contributed i w r = Inr x \<longleftrightarrow> r = Inr x"
  by (cases r) (auto simp: contributed_def split: py_error.splits)

lemma rmap_decode:
  assumes c: "cosign_curve ec" and R: "rmap (\<lambda>(i, x). contributed (Some i) w (cpoint (f x) ec)) (enumerate k xs) = Inr As"
  shows "As = map (\<lambda>x. aff_of (pt ec (f x))) xs \<and> (\<forall>x \<in> set xs. cpoint (f x) ec = Inr (aff_of (pt ec (f x))) \<and> pt ec (f x) \<noteq> Inf)"
  using R
proof (induction xs arbitrary: k As)
  case (Cons x xs)
  obtain A As' where A: "cpoint (f x) ec = Inr A" "rmap (\<lambda>(i, x). contributed (Some i) w (cpoint (f x) ec)) (enumerate (Suc k) xs) = Inr As'"
      "As = A # As'"
    using Cons.prems by (auto simp: rbind_eq_Inr_iff)
  show ?case using Cons.IH [OF A(2)] A(1,3) cpoint_pt [OF c A(1)] by simp
qed simp

section \<open>Nonces\<close>

lemma nonce_column_sound:
  assumes c: "cosign_curve ec" and N: "nonce_column nonces j ec = Inr bs"
  shows "length bs = PK_SIZE \<and> cpoint_ext bs ec = Inr (aff_of (psum ec (map (\<lambda>x. pt ec (nonce_half j x)) nonces)))
    \<and> (\<forall>x \<in> set nonces. cpoint (nonce_half j x) ec = Inr (aff_of (pt ec (nonce_half j x))))"
proof -
  let ?Ps = "map (\<lambda>x. pt ec (nonce_half j x)) nonces"
  obtain As S where A: "rmap (\<lambda>(i, x). contributed (Some i) ''pubnonce'' (cpoint (nonce_half j x) ec)) (enumerate 0 nonces) = Inr As"
      "sum_var As ec = Inr S" "cbytes_ext S ec = Inr bs"
    using N by (auto simp: nonce_column_def rbind_eq_Inr_iff)
  have m: "\<forall>P \<in> set ?Ps. member ec P" using pt_member [OF c] by simp
  have As: "As = map aff_of ?Ps" using rmap_decode [OF c A(1)] by simp
  have "S = aff_of (psum ec ?Ps)" using A(2) sum_points [OF c m] As by simp
  then show ?thesis using A(3) cbytes_ext_point [OF c psum_member [OF c m]] rmap_decode [OF c A(1)] by auto
qed

lemma aggregate_nonces_sound:
  assumes c: "cosign_curve ec" and N: "aggregate_nonces nonces ec = Inr bs"
  shows "length bs = NONCE_SIZE"
    "cpoint_ext (take PK_SIZE bs) ec = Inr (aff_of (psum ec (map (\<lambda>x. pt ec (nonce_half 0 x)) nonces)))"
    "cpoint_ext (drop PK_SIZE bs) ec = Inr (aff_of (psum ec (map (\<lambda>x. pt ec (nonce_half 1 x)) nonces)))"
    "\<forall>x \<in> set nonces. length x = NONCE_SIZE \<and> cpoint (nonce_half 0 x) ec = Inr (aff_of (pt ec (nonce_half 0 x)))
      \<and> cpoint (nonce_half 1 x) ec = Inr (aff_of (pt ec (nonce_half 1 x)))"
proof -
  obtain ns first second where N': "rmap (\<lambda>nonce. bytes_from_octets nonce (Some [NONCE_SIZE])) nonces = Inr ns"
      "nonce_column ns 0 ec = Inr first" "nonce_column ns 1 ec = Inr second" "bs = first @ second"
    using N by (auto simp: aggregate_nonces_def rbind_eq_Inr_iff)
  have ns: "ns = nonces \<and> (\<forall>x \<in> set nonces. length x = NONCE_SIZE)"
    using N'(1) by (induction nonces arbitrary: ns) (auto simp: rbind_eq_Inr_iff bytes_from_octets_def split: if_splits)
  note a = nonce_column_sound [OF c N'(2)] and b = nonce_column_sound [OF c N'(3)]
  show "length bs = NONCE_SIZE" using a b N'(4) by (simp add: NONCE_SIZE_def PK_SIZE_def)
  show "cpoint_ext (take PK_SIZE bs) ec = Inr (aff_of (psum ec (map (\<lambda>x. pt ec (nonce_half 0 x)) nonces)))"
    "cpoint_ext (drop PK_SIZE bs) ec = Inr (aff_of (psum ec (map (\<lambda>x. pt ec (nonce_half 1 x)) nonces)))"
    using a b N'(4) ns by simp_all
  show "\<forall>x \<in> set nonces. length x = NONCE_SIZE \<and> cpoint (nonce_half 0 x) ec = Inr (aff_of (pt ec (nonce_half 0 x)))
      \<and> cpoint (nonce_half 1 x) ec = Inr (aff_of (pt ec (nonce_half 1 x)))"
    using a b ns by blast
qed

lemma nonce_halves: "length bs = NONCE_SIZE \<Longrightarrow> nonce_half 0 bs = take PK_SIZE bs \<and> nonce_half 1 bs = drop PK_SIZE bs"
  by (simp add: nonce_half_def NONCE_SIZE_def PK_SIZE_def)

lemma public_nonce_sound:
  assumes c: "cosign_curve ec" and d: "draws ec rnd" and N: "public_nonce rnd k_1 k_2 ec = Inr bs"
  shows "length bs = NONCE_SIZE" "cpoint (nonce_half 0 bs) ec = Inr (aff_of (ec_times ec k_1 (gen ec)))"
    "cpoint (nonce_half 1 bs) ec = Inr (aff_of (ec_times ec k_2 (gen ec)))"
proof -
  note G = cosignD(9) [OF c] and k = cosignD [OF c]
  obtain first second where b: "cbytes (aff_of (ec_times ec k_1 (gen ec))) ec = Inr first"
      "cbytes (aff_of (ec_times ec k_2 (gen ec))) ec = Inr second" "bs = first @ second"
    using N mult_generator(2) [OF k(1) drawsD [OF d]] by (auto simp: public_nonce_def rbind_eq_Inr_iff)
  have fin: "P \<noteq> Inf" if "cbytes (aff_of P) ec = Inr x" "member ec P" for P x
    using that require_point [OF c that(2)] by (auto simp: cbytes_def bytes_from_point_def INF_aff_def)
  note m = member_closed(3) [OF G]
  have "length first = PK_SIZE \<and> cpoint first ec = Inr (aff_of (ec_times ec k_1 (gen ec)))"
    "length second = PK_SIZE \<and> cpoint second ec = Inr (aff_of (ec_times ec k_2 (gen ec)))"
    using cbytes_point [OF c m fin [OF b(1) m]] cbytes_point [OF c m fin [OF b(2) m]] b(1,2) by auto
  then show "length bs = NONCE_SIZE" "cpoint (nonce_half 0 bs) ec = Inr (aff_of (ec_times ec k_1 (gen ec)))"
    "cpoint (nonce_half 1 bs) ec = Inr (aff_of (ec_times ec k_2 (gen ec)))"
    using b(3) by (simp_all add: nonce_half_def NONCE_SIZE_def PK_SIZE_def)
qed

section \<open>Tweaked keys\<close>

text \<open>The key of a context: the untweaked one multiplied by the sign, plus the accumulated tweaks.\<close>

definition tweak_inv :: "curve \<Rightarrow> point \<Rightarrow> tweak_context \<Rightarrow> bool" where
  "tweak_inv ec Q0 ctx \<longleftrightarrow>
     tw_Q ctx = aff_of (ec_plus ec (ec_times ec (tw_gacc ctx) Q0) (ec_times ec (tw_tacc ctx) (gen ec)))
   \<and> ec_plus ec (ec_times ec (tw_gacc ctx) Q0) (ec_times ec (tw_tacc ctx) (gen ec)) \<noteq> Inf
   \<and> (tw_gacc ctx = 1 \<or> tw_gacc ctx = cv_n ec - 1) \<and> 0 \<le> tw_tacc ctx \<and> tw_tacc ctx < cv_n ec"

lemma tweak_point:
  assumes c: "cosign_curve ec" and P: "member ec P" and r: "0 \<le> rnd" "rnd < ec_p ec - 1"
  shows "tweak_add_var rnd (aff_of P) t ec = Inr (aff_of (ec_plus ec P (ec_times ec t (gen ec))))"
proof -
  note k = cosignD [OF c]
  have "mult rnd (t mod cv_n ec) (Some (cv_G ec)) ec = Inr (aff_of (ec_times ec t (gen ec)))"
    using mult_generator(1) [OF k(1) r, of "t mod cv_n ec"] times_mod [OF k(9)] by simp
  then show ?thesis
    unfolding tweak_add_var_def require_point [OF c P] using add_point [OF c P member_closed(3) [OF k(9)]] by simp
qed

lemma times_pred: "member ec P \<Longrightarrow> ec_times ec (cv_n ec - 1) P = ec_minus ec P"
  using times_cong [of ec P "cv_n ec - 1" "- 1"] minus_times [of ec P 1] times_one [of ec P] by simp

lemma tweak_step_inv:
  assumes c: "cosign_curve ec" and Q0: "member ec Q0" and I: "tweak_inv ec Q0 ctx" and r: "0 \<le> rnd" "rnd < ec_p ec - 1"
    and S: "tweak_step w rnd ctx bs x ec = Inr ctx'"
  shows "tweak_inv ec Q0 ctx'"
proof -
  note k = cosignD [OF c] and n = curve_n [OF cosignD(1) [OF c]]
  let ?n = "cv_n ec" and ?ga = "tw_gacc ctx" and ?ta = "tw_tacc ctx"
  define Q where "Q = ec_plus ec (ec_times ec ?ga Q0) (ec_times ec ?ta (gen ec))"
  define g where "g = (if x \<and> snd (tw_Q ctx) mod 2 \<noteq> 0 then ?n - 1 else 1)"
  define t where "t = int_from_bytes bs"
  have Q: "tw_Q ctx = aff_of Q" "?ga = 1 \<or> ?ga = ?n - 1" "0 \<le> ?ta" "?ta < ?n" using I by (simp_all add: tweak_inv_def Q_def)
  have m: "member ec Q" unfolding Q_def by (intro member_closed Q0 k(9))
  have g: "g = 1 \<or> g = ?n - 1" by (simp add: g_def)
  have "(if g = 1 then tw_Q ctx else negate ec (tw_Q ctx)) = aff_of (ec_times ec g Q)"
    using g times_one [OF m] times_pred [OF m] negate_point [OF m] by (auto simp: Q(1))
  then have "tweak_add_var rnd (if g = 1 then tw_Q ctx else negate ec (tw_Q ctx)) t ec
      = Inr (aff_of (ec_plus ec (ec_times ec g Q) (ec_times ec t (gen ec))))"
    using tweak_point [OF c member_closed(3) [OF m] r] by simp
  note S' = S [unfolded tweak_step_def Let_def, folded g_def t_def, unfolded this]
  let ?Q' = "ec_plus ec (ec_times ec g Q) (ec_times ec t (gen ec))"
  have m': "member ec ?Q'" by (intro member_closed m k(9))
  have r': "ctx' = \<lparr>tw_Q = aff_of ?Q', tw_gacc = g * ?ga mod ?n, tw_tacc = (t + g * ?ta) mod ?n\<rparr>" "?Q' \<noteq> Inf"
    using S' aff_of_finite [OF m'] by (auto split: if_splits)
  have "?Q' = ec_plus ec (ec_times ec (g * ?ga mod ?n) Q0) (ec_times ec ((t + g * ?ta) mod ?n) (gen ec))"
  proof -
    have "ec_times ec g Q = ec_plus ec (ec_times ec (g * ?ga) Q0) (ec_times ec (g * ?ta) (gen ec))"
      unfolding Q_def using times_distrib [OF member_closed(3) [OF Q0] member_closed(3) [OF k(9)]] times_times [OF Q0] times_times [OF k(9)]
      by simp
    then show ?thesis
      unfolding times_mod [OF Q0] times_mod [OF k(9)] times_add [OF k(9), symmetric]
      using plus_assoc [OF member_closed(3) [OF Q0] member_closed(3) [OF k(9)] member_closed(3) [OF k(9)]]
        plus_comm [OF member_closed(3) [OF k(9)] member_closed(3) [OF k(9)]] by simp
  qed
  moreover have "g * ?ga mod ?n = 1 \<or> g * ?ga mod ?n = ?n - 1"
  proof -
    have "(?n - 1) * (?n - 1) mod ?n = 1"
    proof -
      have "(?n - 1) * (?n - 1) = 1 + (?n - 2) * ?n" by (simp add: algebra_simps)
      then show ?thesis using n(3) by (metis mod_mult_self1 mod_pos_pos_trivial zero_le_one)
    qed
    then show ?thesis using g Q(2) n(3) zmod_minus1 [OF n(2)] by auto
  qed
  ultimately show ?thesis unfolding tweak_inv_def r'(1) using r'(2) n(2) by simp
qed

lemma tweaks_inv:
  assumes c: "cosign_curve ec" and Q0: "member ec Q0" and I: "tweak_inv ec Q0 ctx" and d: "draws ec rnd"
    and S: "rfold (\<lambda>ctx (i, t, x). tweak_step w (rnd i) ctx t x ec) ctx (enumerate k zs) = Inr ctx'"
  shows "tweak_inv ec Q0 ctx'"
  using I S
proof (induction zs arbitrary: k ctx)
  case (Cons z zs)
  obtain c1 where c1: "tweak_step w (rnd k) ctx (fst z) (snd z) ec = Inr c1"
      "rfold (\<lambda>ctx (i, t, x). tweak_step w (rnd i) ctx t x ec) c1 (enumerate (Suc k) zs) = Inr ctx'"
    using Cons.prems(2) by (cases z) (auto simp: rbind_eq_Inr_iff)
  show ?case by (rule Cons.IH [OF tweak_step_inv [OF c Q0 Cons.prems(1) drawsD [OF d] c1(1)] c1(2)])
qed simp

lemma tweak_inv_start:
  assumes c: "cosign_curve ec" and Q: "member ec Q" "Q \<noteq> Inf"
  shows "tweak_inv ec Q \<lparr>tw_Q = aff_of Q, tw_gacc = 1, tw_tacc = 0\<rparr>"
  using curve_n [OF cosignD(1) [OF c]] times_one [OF Q(1)] Q(2) by (simp add: tweak_inv_def)

section \<open>Partial signatures\<close>

text \<open>The sign of the final nonce and of the tweaked key, and the equation a partial signature answers.\<close>

definition nonce_sign :: "'a session_values_scheme \<Rightarrow> int" where
  "nonce_sign v = (if snd (sv_R v) mod 2 \<noteq> 0 then - 1 else 1)"

definition response_valid :: "curve \<Rightarrow> 'a session_values_scheme \<Rightarrow> int \<Rightarrow> point \<Rightarrow> point \<Rightarrow> int \<Rightarrow> point \<Rightarrow> bool" where
  "response_valid ec v s R1 R2 a P \<longleftrightarrow>
     ec_times ec s (gen ec) = ec_plus ec (ec_times ec (nonce_sign v) (ec_plus ec R1 (ec_times ec (sv_b v) R2)))
       (ec_times ec (sv_e v * key_sign v ec * sv_gacc v * a) P)"

lemma nonce_point_value:
  assumes c: "cosign_curve ec" and R: "member ec R1" "member ec R2" and r: "0 \<le> rnd" "rnd < ec_p ec - 1"
  shows "nonce_point rnd v (aff_of R1) (aff_of R2) ec = Inr (aff_of (ec_times ec (nonce_sign v) (ec_plus ec R1 (ec_times ec (sv_b v) R2))))"
proof -
  let ?S = "ec_plus ec R1 (ec_times ec (sv_b v) R2)"
  have m: "member ec (ec_times ec (sv_b v) R2)" "member ec ?S" by (intro member_closed R)+
  have "ec_times ec (- 1) ?S = ec_minus ec ?S" using minus_times [OF m(2), of 1] times_one [OF m(2)] by simp
  then show ?thesis
    using mult_point [OF c R(2) r] add_point [OF c R(1) m(1)] negate_point [OF m(2)] times_one [OF m(2)]
    by (simp add: nonce_point_def nonce_sign_def)
qed

lemma partial_equation_iff:
  assumes c: "cosign_curve ec" and R: "member ec R" and P: "member ec P" and d: "draws ec rnd"
  shows "partial_equation rnd v s (aff_of R) a (aff_of P) ec =
    Inr (ec_times ec s (gen ec) = ec_plus ec R (ec_times ec (sv_e v * key_sign v ec * sv_gacc v * a) P))"
proof -
  note k = cosignD [OF c] and n = curve_n [OF cosignD(1) [OF c]]
  let ?g = "key_sign v ec * sv_gacc v"
  have "cv_n ec dvd (sv_e v * a * (?g mod cv_n ec) mod cv_n ec - sv_e v * key_sign v ec * sv_gacc v * a)"
  proof -
    have "sv_e v * a * (?g mod cv_n ec) mod cv_n ec = sv_e v * a * ?g mod cv_n ec" by (rule mod_mult_right_eq)
    then show ?thesis using mod_dvd_iff [OF n(2), of "sv_e v * a * ?g"] by (simp add: ac_simps)
  qed
  from times_cong [OF P this] mult_point [OF c P drawsD [OF d, of 1], where m = "sv_e v * a * (?g mod cv_n ec) mod cv_n ec"]
  have "mult (rnd 1) (sv_e v * a * (?g mod cv_n ec) mod cv_n ec) (Some (aff_of P)) ec
      = Inr (aff_of (ec_times ec (sv_e v * key_sign v ec * sv_gacc v * a) P))" by simp
  then show ?thesis
    using mult_generator(1) [OF k(1) drawsD [OF d, of 0], where m = s] add_point [OF c R member_closed(3) [OF P]]
      aff_of_inj [OF member_closed(3) [OF k(9)] member_closed(1) [OF R member_closed(3) [OF P]]]
    by (simp add: partial_equation_def Let_def)
qed

lemma partial_response_valid:
  assumes c: "cosign_curve ec" and S: "partial_response v k_1 k_2 a d_secret ec = Inr bs"
  shows "length bs = SCALAR_SIZE" "int_from_bytes bs < cv_n ec"
    "response_valid ec v (int_from_bytes bs) (ec_times ec k_1 (gen ec)) (ec_times ec k_2 (gen ec)) a (ec_times ec d_secret (gen ec))"
proof -
  note k = cosignD [OF c] and n = curve_n [OF cosignD(1) [OF c]]
  let ?n = "cv_n ec" and ?h = "nonce_sign v"
  define l_1 l_2 where "l_1 = (if snd (sv_R v) mod 2 \<noteq> 0 then ?n - k_1 else k_1)" and "l_2 = (if snd (sv_R v) mod 2 \<noteq> 0 then ?n - k_2 else k_2)"
  define s where "s = (l_1 + sv_b v * l_2 + sv_e v * a * (key_sign v ec * sv_gacc v * d_secret mod ?n)) mod ?n"
  have "int_to_bytes s SCALAR_SIZE = Inr bs"
    using S by (simp add: partial_response_def Let_def s_def l_1_def l_2_def split: if_splits)
  then have bs: "length bs = SCALAR_SIZE" "int_from_bytes bs = s" unfolding int_to_bytes_Inr_iff by simp_all
  then show "length bs = SCALAR_SIZE" "int_from_bytes bs < ?n" using n(2) by (simp_all add: s_def)
  let ?t = "?h * (k_1 + sv_b v * k_2) + sv_e v * key_sign v ec * sv_gacc v * a * d_secret"
  have "?n dvd (s - ?t)"
  proof -
    define y where "y = key_sign v ec * sv_gacc v * d_secret mod ?n"
    have "?n dvd (s - (l_1 + sv_b v * l_2 + sv_e v * a * y))" unfolding s_def y_def by (rule mod_dvd_iff [OF n(2)])
    moreover have "?n dvd (y - key_sign v ec * sv_gacc v * d_secret)" unfolding y_def by (rule mod_dvd_iff [OF n(2)])
    moreover have "?n dvd (l_1 - ?h * k_1)" "?n dvd (l_2 - ?h * k_2)" by (simp_all add: l_1_def l_2_def nonce_sign_def)
    ultimately show ?thesis
    proof -
      assume a: "?n dvd (s - (l_1 + sv_b v * l_2 + sv_e v * a * y))" "?n dvd (y - key_sign v ec * sv_gacc v * d_secret)"
        "?n dvd (l_1 - ?h * k_1)" "?n dvd (l_2 - ?h * k_2)"
      have "?n dvd ((s - (l_1 + sv_b v * l_2 + sv_e v * a * y)) + (l_1 - ?h * k_1) + sv_b v * (l_2 - ?h * k_2)
          + sv_e v * a * (y - key_sign v ec * sv_gacc v * d_secret))"
        by (intro dvd_add a dvd_mult)
      then show ?thesis by (simp add: algebra_simps)
    qed
  qed
  then have "ec_times ec s (gen ec) = ec_times ec ?t (gen ec)" by (rule times_cong [OF k(9)])
  then show "response_valid ec v (int_from_bytes bs) (ec_times ec k_1 (gen ec)) (ec_times ec k_2 (gen ec)) a (ec_times ec d_secret (gen ec))"
    unfolding response_valid_def bs(2) by (simp add: times_times [OF k(9)] times_add [OF k(9)])
qed

lemma add_psig_Inr_iff:
  "add_psig ec s (i, x) = Inr s' \<longleftrightarrow>
     length x = SCALAR_SIZE \<and> int_from_bytes x < cv_n ec \<and> s' = (s + int_from_bytes x) mod cv_n ec"
  by (auto simp: add_psig_def bytes_from_octets_def rbind_eq_Inr_iff Let_def)

lemma aggregated_scalars:
  assumes "rfold (add_psig ec) s0 (enumerate k ps) = Inr s" "0 < cv_n ec"
  shows "cv_n ec dvd (s - (s0 + sum_list (map int_from_bytes ps))) \<and> (\<forall>x \<in> set ps. length x = SCALAR_SIZE \<and> int_from_bytes x < cv_n ec)"
  using assms(1)
proof (induction ps arbitrary: s0 k)
  case (Cons x ps)
  let ?s1 = "(s0 + int_from_bytes x) mod cv_n ec"
  have r: "length x = SCALAR_SIZE" "int_from_bytes x < cv_n ec" "rfold (add_psig ec) ?s1 (enumerate (Suc k) ps) = Inr s"
    using Cons.prems by (auto simp: rbind_eq_Inr_iff add_psig_Inr_iff)
  have "cv_n ec dvd ((s - (?s1 + sum_list (map int_from_bytes ps))) + (?s1 - (s0 + int_from_bytes x)))"
    using Cons.IH [OF r(3)] mod_dvd_iff [OF assms(2)] by (intro dvd_add) simp_all
  then show ?case using Cons.IH [OF r(3)] r(1,2) by (simp add: algebra_simps)
qed simp

section \<open>The signature that results\<close>

lemma plus_swap:
  assumes "member ec A" "member ec B" "member ec C" "member ec D"
  shows "ec_plus ec (ec_plus ec A B) (ec_plus ec C D) = ec_plus ec (ec_plus ec A C) (ec_plus ec B D)"
  by (rule ecn.add_swap [OF assms [THEN memberD(2)]])

lemma lc_member: "cosign_curve ec \<Longrightarrow> \<forall>x \<in> set xs. member ec (P x) \<Longrightarrow> member ec (ec_lc ec (map (\<lambda>x. (a x, P x)) xs))"
  by (induction xs) (simp_all add: cosignD member_closed)

text \<open>A combination of points, by the single multiplication where there is one.\<close>

lemma combination_value:
  assumes c: "cosign_curve ec" and m: "\<forall>x \<in> set xs. member ec (P x) \<and> P x \<noteq> Inf" and ne: "xs \<noteq> []" and r: "0 \<le> rnd" "rnd < ec_p ec - 1"
  shows "(if length xs = 1 then mult rnd (map a xs ! 0) (Some (map (\<lambda>x. aff_of (P x)) xs ! 0)) ec
     else multi_mult_points_var (map a xs) (map (\<lambda>x. aff_of (P x)) xs) ec) = Inr (aff_of (ec_lc ec (map (\<lambda>x. (a x, P x)) xs)))"
proof (cases "length xs = 1")
  case True
  then obtain x where "xs = [x]" by (metis One_nat_def length_0_conv length_Suc_conv)
  then show ?thesis using m mult_point [OF c _ r] by simp
next
  case False
  then have l: "2 \<le> length xs" using ne by (cases xs) (simp_all add: Suc_le_eq)
  have eq: "map aff_abs (map (\<lambda>x. aff_of (P x)) xs) = map P xs"
    using m by (auto intro!: require_member(2) [of ec])
  have "\<forall>A \<in> set (map (\<lambda>x. aff_of (P x)) xs). require_on_curve ec A = Inr () \<and> member ec (aff_abs A)"
    using m require_member(1,2) by auto
  from multi_mult_points_correct [OF cosignD(1) [OF c] _ _ this, of "map a xs", unfolded eq] l
  have "multi_mult_points_var (map a xs) (map (\<lambda>x. aff_of (P x)) xs) ec = Inr (aff_of (ec_lc ec (zip (map a xs) (map P xs))))"
    by simp
  moreover have "zip (map a xs) (map P xs) = map (\<lambda>x. (a x, P x)) xs" by (induction xs) simp_all
  ultimately show ?thesis using False by simp
qed

lemma psum_nonces:
  assumes c: "cosign_curve ec" and m: "\<forall>x \<in> set xs. member ec (R1 x) \<and> member ec (R2 x)"
  shows "psum ec (map (\<lambda>x. ec_plus ec (R1 x) (ec_times ec b (R2 x))) xs)
    = ec_plus ec (psum ec (map R1 xs)) (ec_times ec b (psum ec (map R2 xs)))"
  using m
proof (induction xs)
  case Nil
  then show ?case using ecn.zm_zero [OF memberD(2) [OF cosignD(8) [OF c]], of b] by simp
next
  case (Cons x xs)
  have m: "member ec (R1 x)" "member ec (R2 x)" "member ec (psum ec (map R1 xs))" "member ec (psum ec (map R2 xs))"
    using Cons.prems by (auto intro!: psum_member [OF c])
  show ?case
    using Cons plus_swap [OF m(1) member_closed(3) [OF m(2)] m(3) member_closed(3) [OF m(4)]] times_distrib [OF m(2,4)] by simp
qed

lemma responses_sum:
  assumes c: "cosign_curve ec" and m: "\<forall>x \<in> set xs. member ec (R1 x) \<and> member ec (R2 x) \<and> member ec (P x)"
    and V: "\<forall>x \<in> set xs. response_valid ec v (s x) (R1 x) (R2 x) (a x) (P x)"
  shows "ec_times ec (sum_list (map s xs)) (gen ec) =
    ec_plus ec (ec_times ec (nonce_sign v) (ec_plus ec (psum ec (map R1 xs)) (ec_times ec (sv_b v) (psum ec (map R2 xs)))))
      (ec_times ec (sv_e v * key_sign v ec * sv_gacc v) (ec_lc ec (map (\<lambda>x. (a x, P x)) xs)))"
proof -
  let ?T = "\<lambda>x. ec_plus ec (R1 x) (ec_times ec (sv_b v) (R2 x))" and ?c = "sv_e v * key_sign v ec * sv_gacc v"
  note G = cosignD(9) [OF c]
  have "ec_times ec (sum_list (map s xs)) (gen ec) =
      ec_plus ec (ec_times ec (nonce_sign v) (psum ec (map ?T xs))) (ec_times ec ?c (ec_lc ec (map (\<lambda>x. (a x, P x)) xs)))"
    using m V
  proof (induction xs)
    case Nil
    then show ?case using ecn.zm_zero [OF memberD(2) [OF cosignD(8) [OF c]]] by simp
  next
    case (Cons x xs)
    have m: "member ec (?T x)" "member ec (P x)" "member ec (psum ec (map ?T xs))" "member ec (ec_lc ec (map (\<lambda>x. (a x, P x)) xs))"
      using Cons.prems(1) by (auto intro!: psum_member [OF c] lc_member [OF c] member_closed)
    have IH: "ec_times ec (sum_list (map s xs)) (gen ec) =
      ec_plus ec (ec_times ec (nonce_sign v) (psum ec (map ?T xs))) (ec_times ec ?c (ec_lc ec (map (\<lambda>x. (a x, P x)) xs)))"
      using Cons by simp
    have "ec_times ec (s x) (gen ec) = ec_plus ec (ec_times ec (nonce_sign v) (?T x)) (ec_times ec (?c * a x) (P x))"
      using Cons.prems(2) by (simp add: response_valid_def)
    then have "ec_times ec (s x + sum_list (map s xs)) (gen ec) =
        ec_plus ec (ec_plus ec (ec_times ec (nonce_sign v) (?T x)) (ec_times ec ?c (ec_times ec (a x) (P x))))
          (ec_plus ec (ec_times ec (nonce_sign v) (psum ec (map ?T xs))) (ec_times ec ?c (ec_lc ec (map (\<lambda>x. (a x, P x)) xs))))"
      unfolding times_add [OF G, symmetric] IH times_times [OF m(2)] by simp
    also have "\<dots> = ec_plus ec (ec_plus ec (ec_times ec (nonce_sign v) (?T x)) (ec_times ec (nonce_sign v) (psum ec (map ?T xs))))
        (ec_plus ec (ec_times ec ?c (ec_times ec (a x) (P x))) (ec_times ec ?c (ec_lc ec (map (\<lambda>x. (a x, P x)) xs))))"
      by (intro plus_swap member_closed m)
    finally show ?case
      unfolding times_distrib [OF m(1,3), symmetric] times_distrib [OF member_closed(3) [OF m(2)] m(4), symmetric] by simp
  qed
  then show ?thesis using psum_nonces [OF c, of xs R1 R2 "sv_b v"] m by simp
qed

text \<open>
  The sum with the share of the tweaks: the equation of the signature, for the point \<open>T\<close> of the nonces of the
  signers.
\<close>

lemma tweaked_sum:
  assumes c: "cosign_curve ec" and I: "tweak_inv ec Q0 \<lparr>tw_Q = sv_Q v, tw_gacc = sv_gacc v, tw_tacc = sv_tacc v\<rparr>"
    and Q0: "member ec Q0" and T: "member ec T" and Q: "member ec Q" "sv_Q v = aff_of Q"
    and E: "ec_times ec s0 (gen ec) = ec_plus ec T (ec_times ec (sv_e v * key_sign v ec * sv_gacc v) Q0)"
    and s: "cv_n ec dvd (s - (s0 + sv_e v * key_sign v ec * sv_tacc v))"
  shows "ec_times ec s (gen ec) = ec_plus ec T (ec_times ec (sv_e v) (ec_times ec (key_sign v ec) Q))"
proof -
  note k = cosignD [OF c]
  let ?c = "sv_e v * key_sign v ec"
  have Qv: "Q = ec_plus ec (ec_times ec (sv_gacc v) Q0) (ec_times ec (sv_tacc v) (gen ec))"
  proof -
    have "member ec (ec_plus ec (ec_times ec (sv_gacc v) Q0) (ec_times ec (sv_tacc v) (gen ec)))" by (intro member_closed Q0 k(9))
    then show ?thesis using I Q aff_of_inj [OF Q(1)] by (simp add: tweak_inv_def)
  qed
  have "ec_times ec s (gen ec) = ec_plus ec (ec_times ec s0 (gen ec)) (ec_times ec (?c * sv_tacc v) (gen ec))"
    unfolding times_add [OF k(9)] by (rule times_cong [OF k(9) s])
  also have "\<dots> = ec_plus ec T (ec_plus ec (ec_times ec (?c * sv_gacc v) Q0) (ec_times ec (?c * sv_tacc v) (gen ec)))"
    unfolding E by (intro plus_assoc T member_closed Q0 k(9))
  also have "ec_plus ec (ec_times ec (?c * sv_gacc v) Q0) (ec_times ec (?c * sv_tacc v) (gen ec)) = ec_times ec ?c Q"
    unfolding Qv times_distrib [OF member_closed(3) [OF Q0] member_closed(3) [OF k(9)]] times_times [OF Q0] times_times [OF k(9)]
    by (rule refl)
  finally show ?thesis unfolding times_times [OF Q(1)] .
qed

lemma signed_point:
  assumes c: "cosign_curve ec" and P: "member ec P" "P \<noteq> Inf" and h: "h = (if odd (py P) then - 1 else 1) \<or> h = (if odd (py P) then cv_n ec - 1 else 1)"
  shows "even (py (ec_times ec h P))" "px (ec_times ec h P) = px P" "ec_times ec h P \<noteq> Inf"
proof -
  have "ec_times ec h P = (if odd (py P) then ec_minus ec P else P)"
    using h times_one [OF P(1)] times_pred [OF P(1)] minus_times [OF P(1), of 1] by auto
  then show "even (py (ec_times ec h P))" "px (ec_times ec h P) = px P" "ec_times ec h P \<noteq> Inf"
    using parity_minus [OF P] minus_coords(2,4) [OF P] P(2) by simp_all
qed

lemma cosigned_valid:
  assumes c: "cosign_curve ec" and Q: "member ec Q" "Q \<noteq> Inf" "sv_Q v = aff_of Q" and R: "member ec R" "R \<noteq> Inf" "sv_R v = aff_of R"
    and E: "ec_times ec s (gen ec) = ec_plus ec (ec_times ec (nonce_sign v) R) (ec_times ec (sv_e v) (ec_times ec (key_sign v ec) Q))"
  shows "schnorr_valid ec (ec_times ec (key_sign v ec) Q) (sv_e v) (px R) s"
    "even (py (ec_times ec (key_sign v ec) Q))" "px (ec_times ec (key_sign v ec) Q) = px Q" "ec_times ec (key_sign v ec) Q \<noteq> Inf"
proof -
  have kq: "key_sign v ec = (if odd (py Q) then cv_n ec - 1 else 1)" by (simp add: key_sign_def Q(3) aff_of_px_py odd_iff_mod_2_eq_one)
  have kr: "nonce_sign v = (if odd (py R) then - 1 else 1)" by (simp add: nonce_sign_def R(3) aff_of_px_py odd_iff_mod_2_eq_one)
  note r = signed_point [OF c R(1,2) disjI1 [OF kr]]
  show "even (py (ec_times ec (key_sign v ec) Q))" "px (ec_times ec (key_sign v ec) Q) = px Q" "ec_times ec (key_sign v ec) Q \<noteq> Inf"
    by (rule signed_point [OF c Q(1,2) disjI2 [OF kq]])+
  show "schnorr_valid ec (ec_times ec (key_sign v ec) Q) (sv_e v) (px R) s"
    unfolding schnorr_valid_def
    by (rule exI [of _ "ec_times ec (nonce_sign v) R"]) (use r E member_closed(3) [OF R(1)] in blast)
qed

lemma final_nonce_value:
  assumes c: "cosign_curve ec" and R: "member ec R1" "member ec R2" and r: "0 \<le> rnd" "rnd < ec_p ec - 1"
  shows "final_nonce rnd (aff_of R1) (aff_of R2) b ec =
    Inr (let R = ec_plus ec R1 (ec_times ec b R2) in if R = Inf then cv_G ec else aff_of R)"
proof -
  have m: "member ec (ec_plus ec R1 (ec_times ec b R2))" by (intro member_closed R)
  show ?thesis
    using mult_point [OF c R(2) r, of b] add_point [OF c R(1) member_closed(3) [OF R(2)]] aff_of_finite [OF m]
    by (simp add: final_nonce_def Let_def)
qed

lemma cosigned_accepted:
  assumes c: "cosign_curve ec" and Q: "member ec Q" "Q \<noteq> Inf" "sv_Q v = aff_of Q" and R: "member ec R" "R \<noteq> Inf" "sv_R v = aff_of R"
    and E: "ec_times ec s (gen ec) = ec_plus ec (ec_times ec (nonce_sign v) R) (ec_times ec (sv_e v) (ec_times ec (key_sign v ec) Q))"
    and s: "0 \<le> s" "s < cv_n ec" and ch: "ssa_challenge msg (fst (sv_Q v)) (fst (sv_R v)) ec hf = Inr (sv_e v)"
    and key: "x_from_bip340pub_key key ec = Inr (fst (sv_Q v))"
  shows "\<exists>sg. init_ssa_sig (fst (sv_R v)) s ec True = Inr sg \<and> ss_s sg = s \<and> ssa_verify_msg r msg key sg hf None None = Some (Inr True)"
proof -
  note k = cosignD [OF c] and w = cosigned_valid [OF c Q R E]
  let ?sg = "\<lparr>ss_r = px R, ss_s = s, ss_ec = ec\<rparr>"
  have av: "ssa_assert_valid ?sg = Inr ()"
    using x_coordinate_member [OF k(1) R(1,2)] s by (simp add: ssa_assert_valid_def)
  have fst: "fst (sv_R v) = px R" "fst (sv_Q v) = px Q" using Q(3) R(3) by (simp_all add: px_def)
  have "ssa_verify_msg r msg key ?sg hf None None = Some (Inr (schnorr_valid ec (ec_times ec (key_sign v ec) Q) (sv_e v) (ss_r ?sg) (ss_s ?sg)))"
    by (rule ssa_verify_msg_iff [OF k(1-3) member_closed(3) [OF Q(1)] w(4,2)])
      (use w(3) av ch key fst in \<open>simp_all add: ssa_assert_commitment_def\<close>)
  then show ?thesis using av w(1) fst by (simp add: init_ssa_sig_def)
qed

end
