(* ===== verification/Single_Use.thy ===== *)
theory Single_Use
  imports Cosigning_Correct
begin

text \<open>
  Secrets that are used once: an operation that returns the secret as it leaves it, beside its outcome. The
  contract is that an outcome spends the secret, and that a spent one is refused and stays spent; whatever the
  sequence of calls, at most one of them then succeeds. The nonces of the co-signing protocols are such secrets.
\<close>

primrec run_calls :: "('n \<Rightarrow> 'c \<Rightarrow> 'n \<times> 'r result) \<Rightarrow> 'n \<Rightarrow> 'c list \<Rightarrow> 'r result list" where
  "run_calls step secret [] = []"
| "run_calls step secret (call # calls) =
     (let (secret, r) = step secret call in r # run_calls step secret calls)"

locale single_use =
  fixes step :: "'n \<Rightarrow> 'c \<Rightarrow> 'n \<times> 'r result" and spent :: "'n \<Rightarrow> bool"
  assumes success_spends: "snd (step n c) = Inr r \<Longrightarrow> spent (fst (step n c))"
    and spent_refused: "spent n \<Longrightarrow> \<exists>e. snd (step n c) = Inl e"
    and spent_stays: "spent n \<Longrightarrow> spent (fst (step n c))"
begin

lemma spent_runs: "spent n \<Longrightarrow> filter is_ok (run_calls step n calls) = []"
proof (induction calls arbitrary: n)
  case (Cons c calls)
  from spent_refused [OF Cons.prems, of c] obtain e where "snd (step n c) = Inl e" by blast
  then show ?case using Cons.IH [OF spent_stays [OF Cons.prems, of c]] by (simp add: case_prod_beta)
qed simp

lemma at_most_one: "length (filter is_ok (run_calls step n calls)) \<le> 1"
proof (induction calls arbitrary: n)
  case (Cons c calls)
  show ?case
  proof (cases "snd (step n c)")
    case (Inl e)
    then show ?thesis using Cons.IH [of "fst (step n c)"] by (simp add: case_prod_beta)
  next
    case (Inr r)
    then show ?thesis using spent_runs [OF success_spends [OF Inr], of calls] by (simp add: case_prod_beta)
  qed
qed simp

end

section \<open>Secret nonces\<close>

definition nonce_spent :: "octets \<Rightarrow> bool" where
  "nonce_spent sec_nonce \<longleftrightarrow> nonce_scalar 0 sec_nonce = 0"

lemma wiped_nonce_spent: "nonce_spent (wipe_nonce sn)"
proof -
  have "int_from_bytes (replicate k 0) = 0" for k by (induction k) (simp_all add: int_from_bytes_def)
  then show ?thesis by (simp add: nonce_spent_def nonce_scalar_def wipe_nonce_def SCALAR_SIZE_def)
qed

lemma spent_nonce_refused: "nonce_spent sn \<Longrightarrow> assert_fresh_nonce sn ec = Inl (BTClibEccValueError ''first secnonce value is out of range.'')"
  by (simp add: nonce_spent_def assert_fresh_nonce_def Let_def)

lemma secret_scalars_read:
  assumes "secret_scalars k_1 k_2 = Inr ks"
  shows "length ks = 2 * SCALAR_SIZE" "nonce_scalar 0 (ks @ pk) = k_1" "nonce_scalar 1 (ks @ pk) = k_2"
proof -
  obtain first second where b: "int_to_bytes k_1 SCALAR_SIZE = Inr first" "int_to_bytes k_2 SCALAR_SIZE = Inr second" "ks = first @ second"
    using assms by (auto simp: secret_scalars_def rbind_eq_Inr_iff)
  then show "length ks = 2 * SCALAR_SIZE" "nonce_scalar 0 (ks @ pk) = k_1" "nonce_scalar 1 (ks @ pk) = k_2"
    unfolding int_to_bytes_Inr_iff by (auto simp: nonce_scalar_def)
qed

end
