(* ===== verification/Musig2_Correct.thy ===== *)
theory Musig2_Correct
  imports Musig2 Single_Use
begin

text \<open>
  The multi-signatures on the points of the group: the aggregate key is the combination of the keys with
  their coefficients, a partial signature that is made satisfies its equation, the check decides the equation,
  and partial signatures that pass add up to a Schnorr signature of the tweaked aggregate key, adapted or not.
\<close>

section \<open>Keys and sessions\<close>

lemma multi_mult_none: "multi_mult_points_var [] [] ec = Inr A \<Longrightarrow> snd A = 0"
  by (auto simp: multi_mult_points_var_def multi_mult_var_def BOS_COSTER_THRESHOLD_def multi_mult_w_NAF_var_def
      multi_mult_pairs_def rbind_eq_Inr_iff INFJ_def aff_from_jac_var_def split: if_splits)

definition musig_key :: "curve \<Rightarrow> octets list \<Rightarrow> hash_fn \<Rightarrow> point" where
  "musig_key ec pks hf =
     ec_lc ec (map (\<lambda>pk. (key_agg_coeff (hash_pub_keys pks hf) (second_pub_key pks) pk ec hf, pt ec pk)) pks)"

lemma musig_pub_keys_Inr_iff: "musig_pub_keys pks = Inr xs \<longleftrightarrow> xs = pks \<and> (\<forall>pk \<in> set pks. length pk = PK_SIZE)"
  unfolding musig_pub_keys_def
  by (induction pks arbitrary: xs) (auto simp: rbind_eq_Inr_iff bytes_from_octets_def split: if_splits)

lemma musig_key_member: "cosign_curve ec \<Longrightarrow> member ec (musig_key ec pks hf)"
  unfolding musig_key_def by (rule lc_member) (simp_all add: pt_member)

lemma key_agg_sound:
  assumes c: "cosign_curve ec" and r: "0 \<le> rnd" "rnd < ec_p ec - 1" and K: "key_agg rnd pks ec hf = Inr ctx"
  shows "tweak_inv ec (musig_key ec pks hf) ctx"
    and "\<forall>pk \<in> set pks. length pk = PK_SIZE \<and> cpoint pk ec = Inr (aff_of (pt ec pk)) \<and> pt ec pk \<noteq> Inf"
proof -
  let ?a = "\<lambda>pk. key_agg_coeff (hash_pub_keys pks hf) (second_pub_key pks) pk ec hf"
  obtain points Q where K': "rmap (\<lambda>(i, pk). contributed (Some i) ''pubkey'' (cpoint pk ec)) (enumerate 0 pks) = Inr points"
      "(if length points = 1 then mult rnd (map ?a pks ! 0) (Some (points ! 0)) ec else multi_mult_points_var (map ?a pks) points ec) = Inr Q"
      "snd Q \<noteq> 0" "ctx = \<lparr>tw_Q = Q, tw_gacc = 1, tw_tacc = 0\<rparr>" "\<forall>pk \<in> set pks. length pk = PK_SIZE"
    using K by (auto simp: key_agg_def musig_pub_keys_Inr_iff rbind_eq_Inr_iff Let_def split: if_splits)
  note d = rmap_decode [OF c, where f = "\<lambda>x. x", OF K'(1)]
  have pm: "member ec (pt ec pk)" for pk by (rule pt_member [OF c])
  show "\<forall>pk \<in> set pks. length pk = PK_SIZE \<and> cpoint pk ec = Inr (aff_of (pt ec pk)) \<and> pt ec pk \<noteq> Inf" using d K'(5) by blast
  have Q: "Q = aff_of (musig_key ec pks hf)"
  proof -
    have ne: "pks \<noteq> []"
    proof
      assume "pks = []"
      then have "multi_mult_points_var [] [] ec = Inr Q" using K'(2) d by simp
      from multi_mult_none [OF this] K'(3) show False by contradiction
    qed
    have pts: "points = map (\<lambda>x. aff_of (pt ec x)) pks" "\<forall>x \<in> set pks. member ec (pt ec x) \<and> pt ec x \<noteq> Inf"
      using d pm by blast+
    from K'(2) [unfolded pts(1) length_map] combination_value [OF c pts(2) ne r, of ?a]
    have "(Inr Q :: apoint result) = Inr (aff_of (musig_key ec pks hf))" unfolding musig_key_def by (rule trans [OF sym])
    then show ?thesis by simp
  qed
  then have "musig_key ec pks hf \<noteq> Inf" using K'(3) by (auto simp: INF_aff_def)
  from tweak_inv_start [OF c musig_key_member [OF c] this] show "tweak_inv ec (musig_key ec pks hf) ctx" using K'(4) Q by simp
qed

lemma key_agg_and_tweak_sound:
  assumes c: "cosign_curve ec" and r: "0 \<le> rnd" "rnd < ec_p ec - 1" "draws ec rnds"
    and K: "key_agg_and_tweak rnd rnds pks tweaks xs ec hf = Inr ctx"
  shows "tweak_inv ec (musig_key ec pks hf) ctx"
    and "\<forall>pk \<in> set pks. length pk = PK_SIZE \<and> cpoint pk ec = Inr (aff_of (pt ec pk)) \<and> pt ec pk \<noteq> Inf"
proof -
  obtain ctx0 where K': "key_agg rnd pks ec hf = Inr ctx0"
      "rfold (\<lambda>ctx (i, t, x). tweak_step ''The tweak must be less than n.'' (rnds i) ctx t x ec) ctx0 (enumerate 0 (zip tweaks xs)) = Inr ctx"
    using K by (auto simp: key_agg_and_tweak_def musig_apply_tweak_def rbind_eq_Inr_iff)
  note a = key_agg_sound [OF c r(1,2) K'(1)]
  show "tweak_inv ec (musig_key ec pks hf) ctx" by (rule tweaks_inv [OF c musig_key_member [OF c] a(1) r(3) K'(2)])
  show "\<forall>pk \<in> set pks. length pk = PK_SIZE \<and> cpoint pk ec = Inr (aff_of (pt ec pk)) \<and> pt ec pk \<noteq> Inf" by (rule a(2))
qed

lemma draws_shift: "draws ec rnd \<Longrightarrow> draws ec (\<lambda>i. rnd (i + k))"
  by (simp add: draws_def)

lemma musig_values_sound:
  assumes c: "cosign_curve ec" and d: "draws ec rnd" and V: "musig_session_values rnd ctx ec hf = Inr v"
  obtains R1 R2 T where "member ec R1" "member ec R2" "member ec T"
    "cpoint_ext (take PK_SIZE (ms_agg_nonce ctx)) ec = Inr (aff_of R1)" "cpoint_ext (drop PK_SIZE (ms_agg_nonce ctx)) ec = Inr (aff_of R2)"
    "case ms_adaptor ctx of None \<Rightarrow> T = Inf | Some t \<Rightarrow> cpoint t ec = Inr (aff_of T)"
    "sv_R v = (let R = ec_plus ec (ec_plus ec R1 T) (ec_times ec (sv_b v) R2) in if R = Inf then cv_G ec else aff_of R)"
    "tweak_inv ec (musig_key ec (ms_pub_keys ctx) hf) \<lparr>tw_Q = sv_Q v, tw_gacc = sv_gacc v, tw_tacc = sv_tacc v\<rparr>"
    "\<forall>pk \<in> set (ms_pub_keys ctx). length pk = PK_SIZE \<and> cpoint pk ec = Inr (aff_of (pt ec pk)) \<and> pt ec pk \<noteq> Inf"
    "ssa_challenge (ms_msg ctx) (fst (sv_Q v)) (fst (sv_R v)) ec hf = Inr (sv_e v)"
    "mv_L v = hash_pub_keys (ms_pub_keys ctx) hf" "mv_second v = second_pub_key (ms_pub_keys ctx)"
    "mv_pub_keys_set v = set (ms_pub_keys ctx)"
proof -
  obtain kc A1 A2 A1' b R e where V': "key_agg_and_tweak (rnd 0) (\<lambda>i. rnd (i + 2)) (ms_pub_keys ctx) (ms_tweaks ctx) (ms_is_xonly ctx) ec hf = Inr kc"
      "cpoint_ext (take PK_SIZE (ms_agg_nonce ctx)) ec = Inr A1" "cpoint_ext (drop PK_SIZE (ms_agg_nonce ctx)) ec = Inr A2"
      "(case ms_adaptor ctx of None \<Rightarrow> Inr A1 | Some t \<Rightarrow> rbind (contributed None ''adaptor'' (cpoint t ec)) (add_var ec A1)) = Inr A1'"
      "final_nonce (rnd 1) A1' A2 b ec = Inr R" "ssa_challenge (ms_msg ctx) (fst (tw_Q kc)) (fst R) ec hf = Inr e"
      "v = \<lparr>sv_Q = tw_Q kc, sv_gacc = tw_gacc kc, sv_tacc = tw_tacc kc, sv_b = b, sv_R = R, sv_e = e,
              mv_L = hash_pub_keys (ms_pub_keys ctx) hf, mv_second = second_pub_key (ms_pub_keys ctx),
              mv_pub_keys_set = set (ms_pub_keys ctx)\<rparr>"
    using V unfolding musig_session_values_def Let_def rbind_eq_Inr_iff contributed_Inr_iff by blast
  obtain R1 R2 where R: "member ec R1" "A1 = aff_of R1" "member ec R2" "A2 = aff_of R2"
    using cpoint_ext_sound [OF c V'(2)] cpoint_ext_sound [OF c V'(3)] by blast
  have "\<exists>T. member ec T \<and> A1' = aff_of (ec_plus ec R1 T) \<and> (case ms_adaptor ctx of None \<Rightarrow> T = Inf | Some t \<Rightarrow> cpoint t ec = Inr (aff_of T))"
  proof (cases "ms_adaptor ctx")
    case None
    then show ?thesis using V'(4) R(2) cosignD(8) [OF c] by simp
  next
    case (Some t)
    then obtain A where A: "cpoint t ec = Inr A" "add_var ec A1 A = Inr A1'" using V'(4) by (auto simp: rbind_eq_Inr_iff)
    obtain T where T: "member ec T" "A = aff_of T" using cpoint_sound [OF c A(1)] by blast
    then show ?thesis using Some A add_point [OF c R(1) T(1)] R(2) by auto
  qed
  then obtain T where T: "member ec T" "A1' = aff_of (ec_plus ec R1 T)"
      "case ms_adaptor ctx of None \<Rightarrow> T = Inf | Some t \<Rightarrow> cpoint t ec = Inr (aff_of T)" by blast
  note k = key_agg_and_tweak_sound [OF c drawsD [OF d] draws_shift [OF d] V'(1)]
  have RR: "R = (let R = ec_plus ec (ec_plus ec R1 T) (ec_times ec b R2) in if R = Inf then cv_G ec else aff_of R)"
    using V'(5) final_nonce_value [OF c member_closed(1) [OF R(1) T(1)] R(3) drawsD [OF d], of 1 b] T(2) R(4) by simp
  have "\<lparr>tw_Q = tw_Q kc, tw_gacc = tw_gacc kc, tw_tacc = tw_tacc kc\<rparr> = kc" by (cases kc) simp
  then have I: "tweak_inv ec (musig_key ec (ms_pub_keys ctx) hf) \<lparr>tw_Q = tw_Q kc, tw_gacc = tw_gacc kc, tw_tacc = tw_tacc kc\<rparr>"
    using k(1) by (simp only:)
  show thesis
    by (rule that [OF R(1,3) T(1) V'(2) [unfolded R(2)] V'(3) [unfolded R(4)] T(3)]) (use V'(6,7) RR k(2) I in simp_all)
qed

section \<open>Partial signatures\<close>

abbreviation session_coeff :: "musig_session \<Rightarrow> octets \<Rightarrow> curve \<Rightarrow> hash_fn \<Rightarrow> int" where
  "session_coeff ctx pk ec hf \<equiv> key_agg_coeff (hash_pub_keys (ms_pub_keys ctx) hf) (second_pub_key (ms_pub_keys ctx)) pk ec hf"

lemma session_coeff_value:
  assumes c: "cosign_curve ec" and d: "draws ec rnd" and V: "musig_session_values rnd ctx ec hf = Inr v"
  shows "session_key_agg_coeff v pk ec hf = Inr a \<longleftrightarrow> pk \<in> set (ms_pub_keys ctx) \<and> a = session_coeff ctx pk ec hf"
  by (rule musig_values_sound [OF c d V]) (auto simp: session_key_agg_coeff_def)

lemma musig_verify_iff:
  assumes c: "cosign_curve ec" and d: "draws ec rnd" "draws ec rnd'" and V: "musig_session_values rnd ctx ec hf = Inr v"
  shows "musig_partial_sig_verify_raw rnd rnd' psig pn pk ctx ec hf = Inr True \<longleftrightarrow>
    length psig = SCALAR_SIZE \<and> int_from_bytes psig < cv_n ec \<and> length pn = NONCE_SIZE
  \<and> cpoint (nonce_half 0 pn) ec = Inr (aff_of (pt ec (nonce_half 0 pn))) \<and> cpoint (nonce_half 1 pn) ec = Inr (aff_of (pt ec (nonce_half 1 pn)))
  \<and> pk \<in> set (ms_pub_keys ctx)
  \<and> response_valid ec v (int_from_bytes psig) (pt ec (nonce_half 0 pn)) (pt ec (nonce_half 1 pn)) (session_coeff ctx pk ec hf) (pt ec pk)"
  (is "?L \<longleftrightarrow> ?R")
proof -
  let ?R1 = "pt ec (nonce_half 0 pn)" and ?R2 = "pt ec (nonce_half 1 pn)"
  note m = pt_member [OF c]
  have np: "nonce_point (rnd' 2) v (aff_of ?R1) (aff_of ?R2) ec = Inr (aff_of (ec_times ec (nonce_sign v) (ec_plus ec ?R1 (ec_times ec (sv_b v) ?R2))))"
    by (rule nonce_point_value [OF c m m drawsD [OF d(2)]])
  have pe: "partial_equation rnd' v s (aff_of (ec_times ec (nonce_sign v) (ec_plus ec ?R1 (ec_times ec (sv_b v) ?R2)))) a (aff_of (pt ec pk)) ec
      = Inr (response_valid ec v s ?R1 ?R2 a (pt ec pk))" for s a
    unfolding response_valid_def by (rule partial_equation_iff [OF c _ m d(2)]) (intro member_closed m)
  have keys: "cpoint pk ec = Inr (aff_of (pt ec pk)) \<and> length pk = PK_SIZE" if "pk \<in> set (ms_pub_keys ctx)"
    by (rule musig_values_sound [OF c d(1) V]) (use that in blast)
  note h = nonce_halves [of pn]
  show ?thesis
  proof
    assume ?L
    then obtain A1 A2 R_s P a where L: "length psig = SCALAR_SIZE" "int_from_bytes psig < cv_n ec" "length pn = NONCE_SIZE"
        "cpoint (take PK_SIZE pn) ec = Inr A1" "cpoint (drop PK_SIZE pn) ec = Inr A2" "nonce_point (rnd' 2) v A1 A2 ec = Inr R_s"
        "cpoint pk ec = Inr P" "session_key_agg_coeff v pk ec hf = Inr a" "partial_equation rnd' v (int_from_bytes psig) R_s a P ec = Inr True"
      unfolding musig_partial_sig_verify_raw_def V rbind_simps rbind_eq_Inr_iff Let_def
      by (auto simp: bytes_from_octets_def rbind_eq_Inr_iff split: if_splits)
    note hh = h [OF L(3)]
    have A: "cpoint (nonce_half 0 pn) ec = Inr (aff_of ?R1)" "A1 = aff_of ?R1" "cpoint (nonce_half 1 pn) ec = Inr (aff_of ?R2)" "A2 = aff_of ?R2"
      using cpoint_pt(1) [OF c L(4)] cpoint_pt(1) [OF c L(5)] L(4,5) hh by simp_all
    have a: "pk \<in> set (ms_pub_keys ctx)" "a = session_coeff ctx pk ec hf" using L(8) session_coeff_value [OF c d(1) V] by blast+
    show ?R using L(1-3,6,7,9) A a keys [OF a(1)] np pe by simp
  next
    assume R: ?R
    then have "session_key_agg_coeff v pk ec hf = Inr (session_coeff ctx pk ec hf)" using session_coeff_value [OF c d(1) V] by blast
    then show ?L using R keys h np pe
      by (simp add: musig_partial_sig_verify_raw_def V bytes_from_octets_def)
  qed
qed

lemma individual_key:
  assumes c: "cosign_curve ec" and r: "0 \<le> rnd" "rnd < ec_p ec - 1" and K: "individual_pub_key rnd q ec = Inr pk"
  shows "cpoint pk ec = Inr (aff_of (ec_times ec q (gen ec)))" "length pk = PK_SIZE" "0 < q" "q < cv_n ec"
proof -
  note k = cosignD [OF c]
  show q: "0 < q" "q < cv_n ec" using K by (auto simp: individual_pub_key_def scalar_from_int_def split: if_splits)
  let ?P = "ec_times ec q (gen ec)"
  have "cbytes (aff_of ?P) ec = Inr pk"
    using K q mult_generator(2) [OF k(1) r, of "q mod cv_n ec"]
    by (simp add: individual_pub_key_def scalar_from_int_def bytes_from_prv_key_int_def cbytes_def)
  then show "cpoint pk ec = Inr (aff_of ?P)" "length pk = PK_SIZE"
    using cbytes_point [OF c member_closed(3) [OF k(9)] gen_times_finite [OF k(1) q]] by auto
qed

lemma signed_psig_verifies:
  assumes c: "cosign_curve ec" and d: "draws ec rnd" "draws ec rnd'" "0 \<le> r" "r < ec_p ec - 1"
    and N: "length sn = 2 * SCALAR_SIZE + PK_SIZE" "length pn = NONCE_SIZE" "cpoint (nonce_half 0 pn) ec = Inr (aff_of (ec_times ec (nonce_scalar 0 sn) (gen ec)))"
      "cpoint (nonce_half 1 pn) ec = Inr (aff_of (ec_times ec (nonce_scalar 1 sn) (gen ec)))"
    and S: "snd (musig_sign rnd r sn q ctx ec hf) = Inr psig"
  shows "musig_partial_sig_verify_raw rnd rnd' psig pn (drop (2 * SCALAR_SIZE) sn) ctx ec hf = Inr True"
proof -
  let ?pk = "drop (2 * SCALAR_SIZE) sn"
  obtain v where V: "musig_session_values rnd ctx ec hf = Inr v" "musig_respond r v sn q ec hf = Inr psig"
    using S by (cases "musig_session_values rnd ctx ec hf") (simp_all add: musig_sign_def)
  obtain a where a: "individual_pub_key r q ec = Inr ?pk" "session_key_agg_coeff v ?pk ec hf = Inr a"
      "partial_response v (nonce_scalar 0 sn) (nonce_scalar 1 sn) a q ec = Inr psig"
    using V(2) by (auto simp: musig_respond_def rbind_eq_Inr_iff assert_fresh_nonce_def scalar_from_int_def Let_def split: if_splits)
  note k = cosignD [OF c] and p = partial_response_valid [OF c a(3)] and i = individual_key [OF c d(3,4) a(1)]
  have eq: "pt ec bs = ec_times ec j (gen ec)" if "cpoint bs ec = Inr (aff_of (ec_times ec j (gen ec)))" for bs j
    using cpoint_pt(1,2) [OF c that] aff_of_inj member_closed(3) [OF k(9)] by metis
  show ?thesis
    unfolding musig_verify_iff [OF c d(1,2) V(1)]
    using p a(2) session_coeff_value [OF c d(1) V(1)] N eq [OF N(3)] eq [OF N(4)] eq [OF i(1)] by auto
qed

lemma nonce_gen_layout:
  assumes c: "cosign_curve ec" and d: "draws ec rnd" and N: "musig_nonce_gen rnd rand prv pk x msg extra ec hf = Inr (sn, pn)"
  shows "length sn = 2 * SCALAR_SIZE + PK_SIZE" "length pn = NONCE_SIZE" "drop (2 * SCALAR_SIZE) sn = pk"
    "cpoint (nonce_half 0 pn) ec = Inr (aff_of (ec_times ec (nonce_scalar 0 sn) (gen ec)))"
    "cpoint (nonce_half 1 pn) ec = Inr (aff_of (ec_times ec (nonce_scalar 1 sn) (gen ec)))"
proof -
  obtain k_1 k_2 ks pk' where b: "bytes_from_octets pk (Some [PK_SIZE]) = Inr pk'" "public_nonce rnd k_1 k_2 ec = Inr pn"
      "secret_scalars k_1 k_2 = Inr ks" "sn = ks @ pk'"
    using N unfolding musig_nonce_gen_def Let_def rbind_eq_Inr_iff by blast
  then have "pk' = pk" "length pk = PK_SIZE" by (auto simp: bytes_from_octets_def split: if_splits)
  then show "length sn = 2 * SCALAR_SIZE + PK_SIZE" "length pn = NONCE_SIZE" "drop (2 * SCALAR_SIZE) sn = pk"
    "cpoint (nonce_half 0 pn) ec = Inr (aff_of (ec_times ec (nonce_scalar 0 sn) (gen ec)))"
    "cpoint (nonce_half 1 pn) ec = Inr (aff_of (ec_times ec (nonce_scalar 1 sn) (gen ec)))"
    using public_nonce_sound [OF c d b(2)] secret_scalars_read [OF b(3)] b(4) by simp_all
qed

section \<open>A nonce signs once\<close>

text \<open>The calls of \<^verbatim>\<open>sign\<close> on one buffer, one after the other.\<close>

record musig_call =
  mc_rnd :: "nat \<Rightarrow> int"
  mc_rnd' :: int
  mc_key :: int
  mc_session :: musig_session

definition musig_step :: "curve \<Rightarrow> hash_fn \<Rightarrow> octets \<Rightarrow> musig_call \<Rightarrow> octets \<times> octets result" where
  "musig_step ec hf sec_nonce call =
     musig_sign (mc_rnd call) (mc_rnd' call) sec_nonce (mc_key call) (mc_session call) ec hf"

definition musig_calls :: "octets \<Rightarrow> musig_call list \<Rightarrow> curve \<Rightarrow> hash_fn \<Rightarrow> octets result list" where
  "musig_calls sec_nonce calls ec hf = run_calls (musig_step ec hf) sec_nonce calls"

interpretation musig_nonce: single_use "musig_step ec hf" nonce_spent for ec hf
proof
  fix n and c :: musig_call
  consider (e) e where "musig_session_values (mc_rnd c) (mc_session c) ec hf = Inl e"
    | (v) v where "musig_session_values (mc_rnd c) (mc_session c) ec hf = Inr v"
    by (cases "musig_session_values (mc_rnd c) (mc_session c) ec hf") blast+
  note session = this
  show "nonce_spent (fst (musig_step ec hf n c))" if r: "snd (musig_step ec hf n c) = Inr r" for r
    using session r by cases (simp_all add: musig_step_def musig_sign_def wiped_nonce_spent)
  show "\<exists>e. snd (musig_step ec hf n c) = Inl e" if n: "nonce_spent n"
    using session spent_nonce_refused [OF n] by cases (simp_all add: musig_step_def musig_sign_def musig_respond_def)
  show "nonce_spent (fst (musig_step ec hf n c))" if n: "nonce_spent n"
    using session n by cases (simp_all add: musig_step_def musig_sign_def wiped_nonce_spent)
qed

section \<open>The sum of the partial signatures\<close>

record musig_part =
  mp_psig :: octets
  mp_nonce :: octets
  mp_key :: octets

lemma musig_sum:
  assumes c: "cosign_curve ec" and d: "draws ec rnd" and V: "musig_session_values rnd ctx ec hf = Inr v"
    and N: "musig_nonce_agg (map mp_nonce parts) ec = Inr (ms_agg_nonce ctx)" and K: "ms_pub_keys ctx = map mp_key parts"
    and P: "\<forall>x \<in> set parts. \<exists>rnd'. draws ec rnd' \<and> musig_partial_sig_verify_raw rnd rnd' (mp_psig x) (mp_nonce x) (mp_key x) ctx ec hf = Inr True"
    and Q: "member ec Q" "sv_Q v = aff_of Q"
  shows "\<exists>s R1 R2. agg_s rnd (map mp_psig parts) ctx ec hf = Inr (fst (sv_R v), s) \<and> 0 \<le> s \<and> s < cv_n ec \<and> member ec R1 \<and> member ec R2
    \<and> cpoint_ext (take PK_SIZE (ms_agg_nonce ctx)) ec = Inr (aff_of R1) \<and> cpoint_ext (drop PK_SIZE (ms_agg_nonce ctx)) ec = Inr (aff_of R2)
    \<and> ec_times ec s (gen ec) = ec_plus ec (ec_times ec (nonce_sign v) (ec_plus ec R1 (ec_times ec (sv_b v) R2)))
         (ec_times ec (sv_e v) (ec_times ec (key_sign v ec) Q))"
proof -
  note n = curve_n [OF cosignD(1) [OF c]] and m = pt_member [OF c]
  let ?R1 = "\<lambda>x. pt ec (nonce_half 0 (mp_nonce x))" and ?R2 = "\<lambda>x. pt ec (nonce_half 1 (mp_nonce x))"
  let ?a = "\<lambda>x. session_coeff ctx (mp_key x) ec hf" and ?P = "\<lambda>x. pt ec (mp_key x)" and ?s = "\<lambda>x. int_from_bytes (mp_psig x)"
  let ?S1 = "psum ec (map ?R1 parts)" and ?S2 = "psum ec (map ?R2 parts)"
  have ver: "length (mp_psig x) = SCALAR_SIZE \<and> ?s x < cv_n ec \<and> response_valid ec v (?s x) (?R1 x) (?R2 x) (?a x) (?P x)"
    if "x \<in> set parts" for x
    using P that musig_verify_iff [OF c d _ V] by blast
  have I: "tweak_inv ec (musig_key ec (ms_pub_keys ctx) hf) \<lparr>tw_Q = sv_Q v, tw_gacc = sv_gacc v, tw_tacc = sv_tacc v\<rparr>"
    by (rule musig_values_sound [OF c d V])
  have key: "musig_key ec (ms_pub_keys ctx) hf = ec_lc ec (map (\<lambda>x. (?a x, ?P x)) parts)"
    by (simp add: musig_key_def K comp_def)
  have S: "member ec ?S1" "member ec ?S2" using m by (auto intro!: psum_member [OF c])
  have E: "ec_times ec (sum_list (map ?s parts)) (gen ec) = ec_plus ec (ec_times ec (nonce_sign v) (ec_plus ec ?S1 (ec_times ec (sv_b v) ?S2)))
      (ec_times ec (sv_e v * key_sign v ec * sv_gacc v) (musig_key ec (ms_pub_keys ctx) hf))"
    unfolding key using responses_sum [OF c, of parts ?R1 ?R2 ?P v ?s ?a] m ver by blast
  have run: "rfold (add_psig ec) s0 (enumerate k (map mp_psig ps)) = Inr (foldl (\<lambda>s x. (s + ?s x) mod cv_n ec) s0 ps)"
    if "set ps \<subseteq> set parts" for ps s0 k
    using that ver by (induction ps arbitrary: s0 k) (simp_all add: add_psig_def bytes_from_octets_def Let_def not_le)
  define s0 where "s0 = foldl (\<lambda>s x. (s + ?s x) mod cv_n ec) 0 parts"
  define s where "s = (s0 + sv_e v * key_sign v ec * sv_tacc v) mod cv_n ec"
  have r: "rfold (add_psig ec) 0 (enumerate 0 (map mp_psig parts)) = Inr s0" using run [of parts 0 0] by (simp add: s0_def)
  have "cv_n ec dvd (s0 - sum_list (map ?s parts))" using aggregated_scalars [OF r n(2)] by (simp add: comp_def)
  then have "cv_n ec dvd ((s - (s0 + sv_e v * key_sign v ec * sv_tacc v)) + (s0 - sum_list (map ?s parts)))"
    unfolding s_def by (intro dvd_add mod_dvd_iff n)
  then have s: "cv_n ec dvd (s - (sum_list (map ?s parts) + sv_e v * key_sign v ec * sv_tacc v))" by (simp add: algebra_simps)
  have "ec_times ec s (gen ec) = ec_plus ec (ec_times ec (nonce_sign v) (ec_plus ec ?S1 (ec_times ec (sv_b v) ?S2)))
         (ec_times ec (sv_e v) (ec_times ec (key_sign v ec) Q))"
    by (rule tweaked_sum [OF c I musig_key_member [OF c] _ Q E s]) (intro member_closed S)
  moreover have "agg_s rnd (map mp_psig parts) ctx ec hf = Inr (fst (sv_R v), s)"
    using V r by (simp add: agg_s_def aggregate_psigs_def s_def)
  moreover have "0 \<le> s" "s < cv_n ec" using n(2) by (simp_all add: s_def)
  moreover have "cpoint_ext (take PK_SIZE (ms_agg_nonce ctx)) ec = Inr (aff_of ?S1)" "cpoint_ext (drop PK_SIZE (ms_agg_nonce ctx)) ec = Inr (aff_of ?S2)"
    using aggregate_nonces_sound(2,3) [OF c N [unfolded musig_nonce_agg_def]] by (simp_all add: comp_def)
  ultimately show ?thesis using S by blast
qed

lemma musig_key_point:
  assumes c: "cosign_curve ec" and d: "draws ec rnd" and V: "musig_session_values rnd ctx ec hf = Inr v"
  shows "\<exists>Q. member ec Q \<and> Q \<noteq> Inf \<and> sv_Q v = aff_of Q"
proof -
  have "tweak_inv ec (musig_key ec (ms_pub_keys ctx) hf) \<lparr>tw_Q = sv_Q v, tw_gacc = sv_gacc v, tw_tacc = sv_tacc v\<rparr>"
    by (rule musig_values_sound [OF c d V])
  moreover have "member ec (ec_plus ec (ec_times ec (sv_gacc v) (musig_key ec (ms_pub_keys ctx) hf)) (ec_times ec (sv_tacc v) (gen ec)))"
    by (intro member_closed musig_key_member [OF c] cosignD(9) [OF c])
  ultimately show ?thesis unfolding tweak_inv_def by auto
qed

text \<open>
  The session of a signature: its values, its partial signatures, each of which passes, and a final nonce that
  is not the stand-in of the infinity.
\<close>

definition musig_complete ::
  "(nat \<Rightarrow> int) \<Rightarrow> musig_session \<Rightarrow> musig_part list \<Rightarrow> musig_values \<Rightarrow> curve \<Rightarrow> hash_fn \<Rightarrow> bool" where
  "musig_complete rnd ctx parts v ec hf \<longleftrightarrow>
     musig_session_values rnd ctx ec hf = Inr v \<and> musig_nonce_agg (map mp_nonce parts) ec = Inr (ms_agg_nonce ctx)
   \<and> ms_pub_keys ctx = map mp_key parts \<and> sv_R v \<noteq> cv_G ec
   \<and> list_all (\<lambda>x. musig_partial_sig_verify_raw rnd rnd (mp_psig x) (mp_nonce x) (mp_key x) ctx ec hf = Inr True) parts"

lemma musig_complete_sum:
  assumes c: "cosign_curve ec" and d: "draws ec rnd" and M: "musig_complete rnd ctx parts v ec hf"
  shows "\<exists>s Q R T. agg_s rnd (map mp_psig parts) ctx ec hf = Inr (fst (sv_R v), s) \<and> 0 \<le> s \<and> s < cv_n ec
    \<and> member ec Q \<and> Q \<noteq> Inf \<and> sv_Q v = aff_of Q \<and> member ec R \<and> R \<noteq> Inf \<and> sv_R v = aff_of R
    \<and> member ec T \<and> (case ms_adaptor ctx of None \<Rightarrow> T = Inf | Some t \<Rightarrow> cpoint t ec = Inr (aff_of T))
    \<and> ec_plus ec (ec_times ec s (gen ec)) (ec_times ec (nonce_sign v) T)
        = ec_plus ec (ec_times ec (nonce_sign v) R) (ec_times ec (sv_e v) (ec_times ec (key_sign v ec) Q))
    \<and> ssa_challenge (ms_msg ctx) (fst (sv_Q v)) (fst (sv_R v)) ec hf = Inr (sv_e v)"
proof -
  have M': "musig_session_values rnd ctx ec hf = Inr v" "musig_nonce_agg (map mp_nonce parts) ec = Inr (ms_agg_nonce ctx)"
    "ms_pub_keys ctx = map mp_key parts" "sv_R v \<noteq> cv_G ec"
    and P: "\<forall>x \<in> set parts. \<exists>rnd'. draws ec rnd' \<and> musig_partial_sig_verify_raw rnd rnd' (mp_psig x) (mp_nonce x) (mp_key x) ctx ec hf = Inr True"
    using M d by (auto simp: musig_complete_def list_all_iff)
  obtain Q where Q: "member ec Q" "Q \<noteq> Inf" "sv_Q v = aff_of Q" using musig_key_point [OF c d M'(1)] by blast
  obtain s R1 R2 where S: "agg_s rnd (map mp_psig parts) ctx ec hf = Inr (fst (sv_R v), s)" "0 \<le> s" "s < cv_n ec" "member ec R1" "member ec R2"
      "cpoint_ext (take PK_SIZE (ms_agg_nonce ctx)) ec = Inr (aff_of R1)" "cpoint_ext (drop PK_SIZE (ms_agg_nonce ctx)) ec = Inr (aff_of R2)"
      "ec_times ec s (gen ec) = ec_plus ec (ec_times ec (nonce_sign v) (ec_plus ec R1 (ec_times ec (sv_b v) R2)))
         (ec_times ec (sv_e v) (ec_times ec (key_sign v ec) Q))"
    using musig_sum [OF c d M'(1-3) P Q(1,3)] by blast
  obtain R1' R2' T where V: "member ec R1'" "member ec R2'" "member ec T"
      "cpoint_ext (take PK_SIZE (ms_agg_nonce ctx)) ec = Inr (aff_of R1')" "cpoint_ext (drop PK_SIZE (ms_agg_nonce ctx)) ec = Inr (aff_of R2')"
      "case ms_adaptor ctx of None \<Rightarrow> T = Inf | Some t \<Rightarrow> cpoint t ec = Inr (aff_of T)"
      "sv_R v = (let R = ec_plus ec (ec_plus ec R1' T) (ec_times ec (sv_b v) R2') in if R = Inf then cv_G ec else aff_of R)"
      "ssa_challenge (ms_msg ctx) (fst (sv_Q v)) (fst (sv_R v)) ec hf = Inr (sv_e v)"
    by (rule musig_values_sound [OF c d M'(1)])
  have eq: "R1' = R1" "R2' = R2" using S(6,7) V(4,5) aff_of_inj [OF V(1) S(4)] aff_of_inj [OF V(2) S(5)] by simp_all
  define R where "R = ec_plus ec (ec_plus ec R1 T) (ec_times ec (sv_b v) R2)"
  have R: "member ec R" "R \<noteq> Inf" "sv_R v = aff_of R"
    using V(7) M'(4) unfolding eq R_def [symmetric] Let_def by (auto simp: R_def split: if_splits intro!: member_closed S V)
  let ?h = "nonce_sign v" and ?X = "ec_times ec (sv_e v) (ec_times ec (key_sign v ec) Q)" and ?N = "ec_plus ec R1 (ec_times ec (sv_b v) R2)"
  have m: "member ec ?N" "member ec ?X" "member ec (ec_times ec (sv_b v) R2)" by (intro member_closed S Q)+
  have "R = ec_plus ec ?N T" unfolding R_def
    using plus_assoc [OF S(4) V(3) m(3)] plus_assoc [OF S(4) m(3) V(3)] plus_comm [OF V(3) m(3)] by simp
  then have "ec_plus ec (ec_times ec s (gen ec)) (ec_times ec ?h T) = ec_plus ec (ec_times ec ?h R) ?X"
    unfolding S(8) times_distrib [OF m(1) V(3)]
    using plus_assoc [OF member_closed(3) [OF m(1)] m(2) member_closed(3) [OF V(3)]]
      plus_assoc [OF member_closed(3) [OF m(1)] member_closed(3) [OF V(3)] m(2)] plus_comm [OF m(2) member_closed(3) [OF V(3)]]
    by (simp add: times_distrib [OF m(1) V(3)])
  then show ?thesis using S(1-3) Q R V(3,6,8) by blast
qed

lemma musig_signature_verifies:
  assumes c: "cosign_curve ec" and d: "draws ec rnd" and M: "musig_complete rnd ctx parts v ec hf" and A: "ms_adaptor ctx = None"
    and key: "x_from_bip340pub_key key ec = Inr (fst (sv_Q v))"
  shows "\<exists>sg. musig_partial_sig_agg rnd (map mp_psig parts) ctx ec hf = Inr sg \<and> ssa_verify_msg r (ms_msg ctx) key sg hf None None = Some (Inr True)"
proof -
  obtain s Q R where S: "agg_s rnd (map mp_psig parts) ctx ec hf = Inr (fst (sv_R v), s)" "0 \<le> s" "s < cv_n ec"
      "member ec Q" "Q \<noteq> Inf" "sv_Q v = aff_of Q" "member ec R" "R \<noteq> Inf" "sv_R v = aff_of R"
      "ec_times ec s (gen ec) = ec_plus ec (ec_times ec (nonce_sign v) R) (ec_times ec (sv_e v) (ec_times ec (key_sign v ec) Q))"
      "ssa_challenge (ms_msg ctx) (fst (sv_Q v)) (fst (sv_R v)) ec hf = Inr (sv_e v)"
    using musig_complete_sum [OF c d M] A ecn.zm_zero [OF memberD(2) [OF cosignD(8) [OF c]], of "nonce_sign v"] by auto
  from cosigned_accepted [OF c S(4-10) S(2,3,11) key, of r] show ?thesis
    using S(1) A by (auto simp: musig_partial_sig_agg_def)
qed

lemma musig_adapted_verifies:
  assumes c: "cosign_curve ec" and d: "draws ec rnd" and M: "musig_complete rnd ctx parts v ec hf"
    and t: "0 < t" "t < cv_n ec" and A: "ms_adaptor ctx = Some tb" "cpoint tb ec = Inr (aff_of (ec_times ec t (gen ec)))"
    and key: "x_from_bip340pub_key key ec = Inr (fst (sv_Q v))"
  shows "\<exists>pre sg. partial_sig_agg_adaptor rnd (map mp_psig parts) ctx ec hf = Inr pre \<and> adapt rnd pre t ctx ec hf = Inr sg
    \<and> ssa_verify_msg r (ms_msg ctx) key sg hf None None = Some (Inr True)
    \<and> extract_adaptor rnd sg pre ctx ec hf = Inr (to_bytes SCALAR_SIZE t)"
proof -
  note k = cosignD [OF c] and n = curve_n [OF cosignD(1) [OF c]]
  let ?n = "cv_n ec"
  obtain s Q R T where S: "agg_s rnd (map mp_psig parts) ctx ec hf = Inr (fst (sv_R v), s)" "0 \<le> s" "s < cv_n ec"
      "member ec Q" "Q \<noteq> Inf" "sv_Q v = aff_of Q" "member ec R" "R \<noteq> Inf" "sv_R v = aff_of R"
      "member ec T" "cpoint tb ec = Inr (aff_of T)"
      "ec_plus ec (ec_times ec s (gen ec)) (ec_times ec (nonce_sign v) T)
        = ec_plus ec (ec_times ec (nonce_sign v) R) (ec_times ec (sv_e v) (ec_times ec (key_sign v ec) Q))"
      "ssa_challenge (ms_msg ctx) (fst (sv_Q v)) (fst (sv_R v)) ec hf = Inr (sv_e v)"
    using musig_complete_sum [OF c d M] A(1) by auto
  have V: "musig_session_values rnd ctx ec hf = Inr v" using M by (simp add: musig_complete_def)
  have T: "T = ec_times ec t (gen ec)" using S(11) A(2) aff_of_inj [OF S(10) member_closed(3) [OF k(9)], of t] by simp
  define t' where "t' = (if snd (sv_R v) mod 2 \<noteq> 0 then ?n - t else t)"
  define s' where "s' = (s + t') mod ?n"
  have "?n dvd (t' - nonce_sign v * t)" by (simp add: t'_def nonce_sign_def)
  then have "?n dvd ((s' - (s + t')) + (t' - nonce_sign v * t))" unfolding s'_def by (intro dvd_add mod_dvd_iff n)
  then have "?n dvd (s' - (s + nonce_sign v * t))" by (simp add: algebra_simps)
  then have E: "ec_times ec s' (gen ec) = ec_plus ec (ec_times ec (nonce_sign v) R) (ec_times ec (sv_e v) (ec_times ec (key_sign v ec) Q))"
    unfolding S(12) [symmetric] T times_times [OF k(9)] times_add [OF k(9)] by (rule times_cong [OF k(9)])
  have s': "0 \<le> s'" "s' < ?n" using n(2) by (simp_all add: s'_def)
  obtain sg where sg: "init_ssa_sig (fst (sv_R v)) s' ec True = Inr sg" "ss_s sg = s'" "ssa_verify_msg r (ms_msg ctx) key sg hf None None = Some (Inr True)"
    using cosigned_accepted [OF c S(4-9) E s' S(13) key, of r] by blast
  let ?pre = "\<lparr>ps_r = fst (sv_R v), ps_s = s\<rparr>"
  have pre: "partial_sig_agg_adaptor rnd (map mp_psig parts) ctx ec hf = Inr ?pre" using S(1) A(1) by (simp add: partial_sig_agg_adaptor_def)
  have ad: "adapt rnd ?pre t ctx ec hf = Inr sg" using V t sg(1) by (simp add: adapt_def scalar_from_int_def s'_def t'_def)
  have "(s' - s) mod ?n = t' mod ?n" unfolding s'_def by (simp add: mod_diff_left_eq)
  moreover have "0 < t'" "t' < ?n" using t by (simp_all add: t'_def)
  ultimately have tt: "(s' - s) mod ?n = t'" by simp
  have "(- (?n - t)) mod ?n = t" using t by (simp add: mod_pos_pos_trivial)
  then have "(let u = (s' - s) mod ?n; u = (if snd (sv_R v) mod 2 \<noteq> 0 then (- u) mod ?n else u) in int_to_bytes u SCALAR_SIZE) = int_to_bytes t SCALAR_SIZE"
    unfolding tt by (simp add: t'_def)
  moreover have "int_to_bytes t SCALAR_SIZE = Inr (to_bytes SCALAR_SIZE t)"
    using t k(6) by (simp add: int_to_bytes_def SCALAR_SIZE_def)
  ultimately have "extract_adaptor rnd sg ?pre ctx ec hf = Inr (to_bytes SCALAR_SIZE t)"
    using V sg(2) by (simp add: extract_adaptor_def)
  then show ?thesis using pre ad sg(3) by blast
qed

end
