(* ===== verification/Test_Cosigning.thy ===== *)
theory Test_Cosigning
  imports Test_Schemes Musig2_Correct
begin

text \<open>
  The curve of nineteen elements with the sizes of secp256k1, on which the co-signing protocols run, and a hash
  function of thirty-two octets whose first octet varies.
\<close>

definition ec32 :: curve where
  "ec32 = ec19\<lparr>ec_p_size := 32, cv_n_size := 32\<rparr>"

lemma ec32_sel [simp]:
  "ec_p ec32 = 19" "ec_a ec32 = 0" "ec_b ec32 = 2" "ec_p_size ec32 = 32" "cv_n ec32 = 13"
  "cv_G ec32 = (4, 16)" "cv_cofactor ec32 = 1" "cv_nlen ec32 = 4" "cv_n_size ec32 = 32"
  by (simp_all add: ec32_def)

lemma ec32_valid: "curve_valid ec32"
  using ec19_valid unfolding curve_valid_def curve_ok_def in_order_def ec32_def by simp

lemma ec32_endo: "endo_law ec32"
  by (simp add: endo_law_def endo_ok_def is_secp256k1_def eq_key_def secp256k1_key_def)

lemma ec32_gen: "gen ec32 = Pt 4 16"
  by (simp add: aff_abs_def)

lemma ec32_points:
  "filter (\<lambda>(x, y). (19 :: int) dvd y * y - (x * x * x + 2)) (List.product [0..18] [0..18])
    = [(4, 3), (4, 16), (6, 3), (6, 16), (8, 1), (8, 18), (9, 3), (9, 16), (12, 1), (12, 18), (18, 1), (18, 18)]"
  by code_simp

lemma ec32_multiples:
  "map (\<lambda>k. ec_times ec32 k (Pt 4 16)) [12, 1, 10, 3, 6, 7, 4, 9, 5, 8, 2, 11]
    = [Pt 4 3, Pt 4 16, Pt 6 3, Pt 6 16, Pt 8 1, Pt 8 18, Pt 9 3, Pt 9 16, Pt 12 1, Pt 12 18, Pt 18 1, Pt 18 18]"
  unfolding ec32_def ec19_def by code_simp

lemma ec32_group: "ec_on ec32 P \<Longrightarrow> in_order ec32 (cv_n ec32) P"
proof (cases P)
  case Inf
  then show ?thesis using member_closed(4) [OF ec32_valid] memberD(2) by blast
next
  case (Pt x y)
  assume on: "ec_on ec32 P"
  then have "(x, y) \<in> set (filter (\<lambda>(x, y). (19 :: int) dvd y * y - (x * x * x + 2)) (List.product [0..18] [0..18]))" using Pt by auto
  then have "P \<in> set (map (\<lambda>k. ec_times ec32 k (Pt 4 16)) [12, 1, 10, 3, 6, 7, 4, 9, 5, 8, 2, 11])" unfolding ec32_points ec32_multiples using Pt by auto
  then obtain k where "P = ec_times ec32 k (gen ec32)" unfolding ec32_gen by auto
  then show ?thesis using memberD(2) [OF member_closed(3) [OF member_generator [OF ec32_valid]]] by blast
qed

lemma ec32_cosign: "cosign_curve ec32"
proof -
  have "require_on_curve ec32 INF_aff = Inr ()" unfolding ec32_def ec19_def by code_simp
  then show ?thesis using ec32_valid ec32_endo ec32_group unfolding cosign_curve_def by simp
qed

lemma ec32_draws: "draws ec32 (\<lambda>_. 1)"
  by (simp add: draws_def)

definition co_hash :: hash_fn where
  "co_hash = \<lparr>hf_digest = (\<lambda>m. let b = foldl (\<lambda>v b. 3 * v + b) 1 m in b # replicate 30 0 @ [b]), hf_size = 32, hf_block = 64\<rparr>"

text \<open>The octets of a point of this curve, from its prefix and its abscissa.\<close>

definition octets32 :: "8 word \<Rightarrow> 8 word \<Rightarrow> octets" where
  "octets32 a x = a # replicate 31 0 @ [x]"

definition scalar32 :: "8 word \<Rightarrow> octets" where
  "scalar32 x = replicate 31 0 @ [x]"

end
