(* ===== verification/Cosigning_Properties.thy ===== *)
theory Cosigning_Properties
  imports Test_Cosigning
begin

text \<open>The properties of the multi-signatures of BIP 327.\<close>

section \<open>An example session\<close>

definition session32 :: "octets option \<Rightarrow> musig_session" where
  "session32 adaptor =
     \<lparr>ms_agg_nonce = octets32 3 8 @ octets32 2 18, ms_pub_keys = [octets32 2 6, octets32 3 12], ms_tweaks = [scalar32 4],
      ms_is_xonly = [True], ms_msg = [0], ms_adaptor = adaptor\<rparr>"

definition values32 :: "int \<Rightarrow> apoint \<Rightarrow> musig_values" where
  "values32 b R =
     \<lparr>sv_Q = (4, 3), sv_gacc = 1, sv_tacc = 4, sv_b = b, sv_R = R, sv_e = 5,
      mv_L = hash_pub_keys [octets32 2 6, octets32 3 12] co_hash, mv_second = octets32 3 12,
      mv_pub_keys_set = {octets32 2 6, octets32 3 12}\<rparr>"

definition parts32 :: "8 word \<Rightarrow> 8 word \<Rightarrow> musig_part list" where
  "parts32 s s' =
     [\<lparr>mp_psig = scalar32 s, mp_nonce = octets32 2 4 @ octets32 3 18, mp_key = octets32 2 6\<rparr>,
      \<lparr>mp_psig = scalar32 s', mp_nonce = octets32 3 12 @ octets32 2 9, mp_key = octets32 3 12\<rparr>]"

lemma session32_values: "musig_session_values (\<lambda>_. 1) (session32 None) ec32 co_hash = Inr (values32 8 (6, 16))"
  unfolding ec32_def ec19_def by code_simp

lemma session32_adaptor_values:
  "musig_session_values (\<lambda>_. 1) (session32 (Some (octets32 3 18))) ec32 co_hash = Inr (values32 12 (6, 3))"
  unfolding ec32_def ec19_def by code_simp

lemma session32_complete: "musig_complete (\<lambda>_. 1) (session32 None) (parts32 2 0) (values32 8 (6, 16)) ec32 co_hash"
proof -
  have "musig_nonce_agg (map mp_nonce (parts32 2 0)) ec32 = Inr (ms_agg_nonce (session32 None))"
    "ms_pub_keys (session32 None) = map mp_key (parts32 2 0)" "sv_R (values32 8 (6, 16)) \<noteq> cv_G ec32"
    "list_all (\<lambda>x. musig_partial_sig_verify_raw (\<lambda>_. 1) (\<lambda>_. 1) (mp_psig x) (mp_nonce x) (mp_key x) (session32 None) ec32 co_hash = Inr True)
       (parts32 2 0)"
    unfolding ec32_def ec19_def by code_simp+
  then show ?thesis using session32_values unfolding musig_complete_def by blast
qed

lemma session32_adaptor_complete:
  "musig_complete (\<lambda>_. 1) (session32 (Some (octets32 3 18))) (parts32 12 5) (values32 12 (6, 3)) ec32 co_hash"
proof -
  let ?s = "session32 (Some (octets32 3 18))"
  have "musig_nonce_agg (map mp_nonce (parts32 12 5)) ec32 = Inr (ms_agg_nonce ?s)"
    "ms_pub_keys ?s = map mp_key (parts32 12 5)" "sv_R (values32 12 (6, 3)) \<noteq> cv_G ec32"
    "list_all (\<lambda>x. musig_partial_sig_verify_raw (\<lambda>_. 1) (\<lambda>_. 1) (mp_psig x) (mp_nonce x) (mp_key x) ?s ec32 co_hash = Inr True)
       (parts32 12 5)"
    unfolding ec32_def ec19_def by code_simp+
  then show ?thesis using session32_adaptor_values unfolding musig_complete_def by blast
qed

section \<open>Properties\<close>

text \<open>
  C26: A partial signature that is made, with a nonce that was generated for the signer's key, verifies against the
  public nonce and the key, in any session: tweaked or not, with an adaptor or not.
\<close>

theorem musig_partial_signatures_verify:
  assumes "cosign_curve ec" "draws ec rnd" "draws ec rnd'" "draws ec rnd''" "0 \<le> r" "r < ec_p ec - 1"
    and "musig_nonce_gen rnd'' rand prv pk x msg extra ec hf = Inr (sec_nonce, pub_nonce)"
    and "snd (musig_sign rnd r sec_nonce q ctx ec hf) = Inr psig"
  shows "musig_partial_sig_verify_raw rnd rnd' psig pub_nonce pk ctx ec hf = Inr True"
  using signed_psig_verifies [OF assms(1-3,5,6) _ _ _ _ assms(8)] nonce_gen_layout [OF assms(1,4,7)] by metis

theorem musig_partial_signatures_verify_witness:
  "musig_partial_sig_verify_raw (\<lambda>_. 1) (\<lambda>_. 1) (scalar32 6) (octets32 3 12 @ octets32 3 18) (octets32 2 6) (session32 None) ec32 co_hash = Inr True"
proof (rule musig_partial_signatures_verify [OF ec32_cosign ec32_draws ec32_draws ec32_draws])
  show "musig_nonce_gen (\<lambda>_. 1) (replicate 32 0) None (octets32 2 6) None None None ec32 co_hash
      = Inr (scalar32 5 @ scalar32 2 @ octets32 2 6, octets32 3 12 @ octets32 3 18)"
    unfolding ec32_def ec19_def by code_simp
  show "snd (musig_sign (\<lambda>_. 1) 1 (scalar32 5 @ scalar32 2 @ octets32 2 6) 3 (session32 None) ec32 co_hash) = Inr (scalar32 6)"
    unfolding ec32_def ec19_def by code_simp
qed simp_all

text \<open>
  C27: Partial signatures that pass, of a session whose aggregate nonce is that of their nonces, add up to a
  signature that the verifier of BIP 340 accepts under the tweaked aggregate key, in whichever form the key is
  given, where the final nonce is not the stand-in for the infinity.
\<close>

theorem musig_signature_verifies_bip340:
  assumes "cosign_curve ec" "draws ec rnd" "musig_complete rnd ctx parts v ec hf" "ms_adaptor ctx = None"
    and "x_from_bip340pub_key key ec = Inr (fst (sv_Q v))"
  shows "\<exists>sg. musig_partial_sig_agg rnd (map mp_psig parts) ctx ec hf = Inr sg
    \<and> ssa_verify_msg r (ms_msg ctx) key sg hf None None = Some (Inr True)"
  by (rule musig_signature_verifies [OF assms])

theorem musig_signature_verifies_bip340_witness:
  "\<exists>sg. musig_partial_sig_agg (\<lambda>_. 1) (map mp_psig (parts32 2 0)) (session32 None) ec32 co_hash = Inr sg
    \<and> ssa_verify_msg 1 (ms_msg (session32 None)) (X_Int 4) sg co_hash None None = Some (Inr True)"
  by (rule musig_signature_verifies_bip340 [OF ec32_cosign ec32_draws session32_complete]) (simp_all add: session32_def values32_def)

text \<open>
  C28: With an adaptor: the pre-signature adapted with the secret of the adaptor point verifies, and the secret is
  extracted back from the two.
\<close>

theorem musig_adaptor_roundtrip:
  assumes "cosign_curve ec" "draws ec rnd" "musig_complete rnd ctx parts v ec hf" "0 < t" "t < cv_n ec"
    and "ms_adaptor ctx = Some tb" "cpoint tb ec = Inr (aff_of (ec_times ec t (gen ec)))"
    and "x_from_bip340pub_key key ec = Inr (fst (sv_Q v))"
  shows "\<exists>pre sg. partial_sig_agg_adaptor rnd (map mp_psig parts) ctx ec hf = Inr pre \<and> adapt rnd pre t ctx ec hf = Inr sg
    \<and> ssa_verify_msg r (ms_msg ctx) key sg hf None None = Some (Inr True)
    \<and> extract_adaptor rnd sg pre ctx ec hf = Inr (to_bytes SCALAR_SIZE t)"
  by (rule musig_adapted_verifies [OF assms])

theorem musig_adaptor_roundtrip_witness:
  "\<exists>pre sg. partial_sig_agg_adaptor (\<lambda>_. 1) (map mp_psig (parts32 12 5)) (session32 (Some (octets32 3 18))) ec32 co_hash = Inr pre
    \<and> adapt (\<lambda>_. 1) pre 2 (session32 (Some (octets32 3 18))) ec32 co_hash = Inr sg
    \<and> ssa_verify_msg 1 (ms_msg (session32 (Some (octets32 3 18)))) (X_Int 4) sg co_hash None None = Some (Inr True)
    \<and> extract_adaptor (\<lambda>_. 1) sg pre (session32 (Some (octets32 3 18))) ec32 co_hash = Inr (to_bytes SCALAR_SIZE 2)"
proof (rule musig_adaptor_roundtrip [OF ec32_cosign ec32_draws session32_adaptor_complete])
  have "cpoint (octets32 3 18) ec32 = Inr (18, 1)" "ec_times ec32 2 (Pt 4 16) = Pt 18 1" unfolding ec32_def ec19_def by code_simp+
  then show "cpoint (octets32 3 18) ec32 = Inr (aff_of (ec_times ec32 2 (gen ec32)))" by (simp only: ec32_gen) simp
qed (simp_all add: session32_def values32_def)

text \<open>
  C29: A secret nonce signs at most once: whatever the sequence of calls of \<^verbatim>\<open>sign\<close> on one buffer, with whichever keys
  and sessions, no more than one returns a signature.
\<close>

theorem musig_nonce_signs_at_most_once: "length (filter is_ok (musig_calls sec_nonce calls ec hf)) \<le> 1"
  unfolding musig_calls_def by (rule musig_nonce.at_most_one)

text \<open>
  C30: Key aggregation and tweaking keep the invariant of the context: the key is finite, it is the untweaked
  aggregate key times the sign accumulated, plus the tweaks accumulated times the generator, the sign is one or
  minus one modulo the order, and the sum of the tweaks is reduced.
\<close>

theorem musig_tweak_invariant:
  assumes "cosign_curve ec" "0 \<le> rnd" "rnd < ec_p ec - 1" "draws ec rnds"
    and "key_agg_and_tweak rnd rnds pks tweaks xs ec hf = Inr ctx"
  shows "tweak_inv ec (musig_key ec pks hf) ctx"
  by (rule key_agg_and_tweak_sound(1) [OF assms])

theorem musig_tweak_invariant_witness:
  "tweak_inv ec32 (musig_key ec32 [octets32 2 6, octets32 3 12] co_hash) \<lparr>tw_Q = (4, 3), tw_gacc = 1, tw_tacc = 4\<rparr>"
proof (rule musig_tweak_invariant [OF ec32_cosign _ _ ec32_draws])
  show "key_agg_and_tweak 1 (\<lambda>_. 1) [octets32 2 6, octets32 3 12] [scalar32 4] [True] ec32 co_hash
      = Inr \<lparr>tw_Q = (4, 3), tw_gacc = 1, tw_tacc = 4\<rparr>"
    unfolding ec32_def ec19_def by code_simp
qed simp_all

end
