(* ===== verification/Frost.thy ===== *)
theory Frost
  imports Cosigning
begin

text \<open>
  Model of \<^verbatim>\<open>src/btclib_ecc/ecc/frost.py\<close>, the threshold signatures of BIP 445: interpolation of the shares,
  validation of the public key material, nonces, sessions, partial signatures with their verification and
  aggregation, deterministic signing. What the file copies from \<^verbatim>\<open>musig2.py\<close> is the shared model. The values
  of a session are computed where they are used: the code keeps them in the session, a pure cache. The messages of errors
  that name an index are given without it.
\<close>

definition FROST_AUX_TAG :: octets where "FROST_AUX_TAG = ascii ''BIP0445/aux''"
definition FROST_NONCE_TAG :: octets where "FROST_NONCE_TAG = ascii ''BIP0445/nonce''"
definition FROST_NONCE_COEFF_TAG :: octets where "FROST_NONCE_COEFF_TAG = ascii ''BIP0445/noncecoef''"
definition FROST_DET_NONCE_TAG :: octets where "FROST_DET_NONCE_TAG = ascii ''BIP0445/deterministic/nonce''"
definition ID_SIZE :: nat where "ID_SIZE = 4"
definition MAX_PARTICIPANTS :: int where "MAX_PARTICIPANTS = 128"

section \<open>Interpolation\<close>

definition frost_pub_shares :: "octets list \<Rightarrow> octets list result" where
  "frost_pub_shares pub_shares = rmap (\<lambda>ps. bytes_from_octets ps (Some [PK_SIZE])) pub_shares"

definition has_duplicates :: "int list \<Rightarrow> bool" where
  "has_duplicates ids \<longleftrightarrow> card (set ids) \<noteq> length ids"

definition serialize_ids :: "int list \<Rightarrow> octets result" where
  "serialize_ids ids = rbind (rmap (\<lambda>i. int_to_bytes i ID_SIZE) (sort ids)) (\<lambda>bs. Inr (concat bs))"

text \<open>\<^verbatim>\<open>pow(deno, -1, n)\<close>: a denominator without an inverse raises a \<^verbatim>\<open>ValueError\<close>.\<close>

definition times_inverse :: "int \<Rightarrow> int \<Rightarrow> int \<Rightarrow> int result" where
  "times_inverse num deno n =
     (case py_pow_inv deno n of
        None \<Rightarrow> Inl (ValueError ''base is not invertible for the given modulus'')
      | Some i \<Rightarrow> Inr (num * i mod n))"

definition derive_interpolating_value :: "int list \<Rightarrow> int \<Rightarrow> curve \<Rightarrow> int result" where
  "derive_interpolating_value ids my_id ec =
     (let n = cv_n ec;
        (num, deno) = foldl (\<lambda>(num, deno) curr_id.
          if curr_id = my_id then (num, deno)
          else (num * (curr_id + 1) mod n, deno * (curr_id - my_id) mod n)) (1, 1) ids
      in times_inverse num deno n)"

definition share_coefficient :: "int list \<Rightarrow> int \<Rightarrow> curve \<Rightarrow> int \<Rightarrow> int result" where
  "share_coefficient ids x ec my_id =
     (let n = cv_n ec;
        (num, deno) = foldl (\<lambda>(num, deno) curr_id.
          if curr_id = my_id then (num, deno)
          else (num * (x - curr_id) mod n, deno * (my_id - curr_id) mod n)) (1, 1) ids
      in times_inverse num deno n)"

definition derive_pubshare_at :: "int \<Rightarrow> int list \<Rightarrow> apoint list \<Rightarrow> int \<Rightarrow> curve \<Rightarrow> apoint result" where
  "derive_pubshare_at rnd ids pub_shares x ec =
     rbind (rmap (share_coefficient ids x ec) ids) (\<lambda>coefficients.
       if length pub_shares = 1 then mult rnd (coefficients ! 0) (Some (pub_shares ! 0)) ec
       else multi_mult_points_var coefficients pub_shares ec)"

definition derive_thresh_pubkey :: "int \<Rightarrow> int list \<Rightarrow> apoint list \<Rightarrow> curve \<Rightarrow> octets result" where
  "derive_thresh_pubkey rnd ids pub_shares ec =
     rbind (derive_pubshare_at rnd ids pub_shares (- 1) ec) (\<lambda>Q.
       if snd Q = 0 then Inl (BTClibEccValueError ''The threshold public key must not be the point at infinity.'')
       else cbytes Q ec)"

section \<open>Key material\<close>

record threshold_info =
  ti_t :: int
  ti_thresh_pk :: octets
  ti_pub_shares :: "octets option list"

definition init_threshold_info :: "int \<Rightarrow> octets \<Rightarrow> octets option list \<Rightarrow> threshold_info result" where
  "init_threshold_info t thresh_pk pub_shares =
     rbind (bytes_from_octets thresh_pk (Some [PK_SIZE])) (\<lambda>thresh_pk.
     rbind (rmap (\<lambda>ps. case ps of None \<Rightarrow> Inr None
                   | Some b \<Rightarrow> rbind (bytes_from_octets b (Some [PK_SIZE])) (\<lambda>b. Inr (Some b))) pub_shares) (\<lambda>pub_shares.
       Inr \<lparr>ti_t = t, ti_thresh_pk = thresh_pk, ti_pub_shares = pub_shares\<rparr>))"

definition reworded :: "string \<Rightarrow> 'a result \<Rightarrow> 'a result" where
  "reworded msg r = (case r of Inl (BTClibEccValueError e) \<Rightarrow> Inl (BTClibEccValueError msg) | _ \<Rightarrow> r)"

primrec parse_present_pub_shares :: "nat \<Rightarrow> octets option list \<Rightarrow> curve \<Rightarrow> (int \<times> apoint) list result" where
  "parse_present_pub_shares i [] ec = Inr []"
| "parse_present_pub_shares i (ps # pub_shares) ec =
     (case ps of
        None \<Rightarrow> parse_present_pub_shares (Suc i) pub_shares ec
      | Some b \<Rightarrow>
          rbind (reworded ''Invalid pubshare'' (cpoint b ec)) (\<lambda>point.
          rbind (parse_present_pub_shares (Suc i) pub_shares ec) (\<lambda>parsed. Inr ((int i, point) # parsed))))"

text \<open>The shares beyond the first \<open>t\<close>, each against the polynomial of those.\<close>

primrec check_pub_shares :: "int list \<Rightarrow> apoint list \<Rightarrow> int \<Rightarrow> (int \<times> apoint) list \<Rightarrow> curve \<Rightarrow> unit result" where
  "check_pub_shares base_ids base_points rnd [] ec = Inr ()"
| "check_pub_shares base_ids base_points rnd (share # shares) ec =
     rbind (derive_pubshare_at rnd base_ids base_points (fst share) ec) (\<lambda>point.
       if point \<noteq> snd share
       then Inl (BTClibEccValueError ''The provided key material is incorrect: the public shares do not lie on a single polynomial.'')
       else check_pub_shares base_ids base_points rnd shares ec)"

definition validate_threshold_info :: "int \<Rightarrow> threshold_info \<Rightarrow> curve \<Rightarrow> unit result" where
  "validate_threshold_info rnd info ec =
     (let t = ti_t info; thresh_pk = ti_thresh_pk info; pub_shares = ti_pub_shares info; n = int (length pub_shares) in
      if \<not> (1 \<le> t \<and> t \<le> n) then Inl (BTClibEccValueError ''The threshold must be 1 <= t <= n.'')
      else if n > MAX_PARTICIPANTS then Inl (BTClibEccValueError ''The number of participants must be n <= 128.'')
      else
        rbind (reworded ''Invalid threshold public key.'' (cpoint thresh_pk ec)) (\<lambda>_.
        rbind (parse_present_pub_shares 0 pub_shares ec) (\<lambda>parsed.
          if int (length parsed) < t then Inl (BTClibEccValueError ''At least t pubshares must be present.'')
          else
            let base_ids = map fst (take (nat t) parsed); base_points = map snd (take (nat t) parsed) in
            rbind (check_pub_shares base_ids base_points rnd (drop (nat t) parsed) ec) (\<lambda>_.
            rbind (derive_thresh_pubkey rnd base_ids base_points ec) (\<lambda>pk.
              if pk \<noteq> thresh_pk
              then Inl (BTClibEccValueError ''The provided key material is incorrect: the public shares do not match the threshold public key.'')
              else Inr ())))))"

section \<open>Tweaks and nonces\<close>

definition plain_pub_key :: "tweak_context \<Rightarrow> curve \<Rightarrow> octets result" where
  "plain_pub_key ctx ec = cbytes (tw_Q ctx) ec"

definition tweak_ctx_init :: "octets \<Rightarrow> curve \<Rightarrow> tweak_context result" where
  "tweak_ctx_init thresh_pk ec = rbind (cpoint thresh_pk ec) (\<lambda>Q. Inr \<lparr>tw_Q = Q, tw_gacc = 1, tw_tacc = 0\<rparr>)"

definition frost_require_same_length :: "octets list \<Rightarrow> bool list \<Rightarrow> unit result" where
  "frost_require_same_length tweaks is_xonly =
     (if length tweaks \<noteq> length is_xonly
      then Inl (BTClibEccValueError ''The tweaks and is_xonly arrays must have the same length.'') else Inr ())"

definition frost_apply_tweak :: "int \<Rightarrow> tweak_context \<Rightarrow> octets \<Rightarrow> bool \<Rightarrow> curve \<Rightarrow> tweak_context result" where
  "frost_apply_tweak = tweak_step ''The tweak value is out of range.''"

definition thresh_pubkey_and_tweak :: "(nat \<Rightarrow> int) \<Rightarrow> octets \<Rightarrow> octets list \<Rightarrow> bool list \<Rightarrow> curve \<Rightarrow> tweak_context result" where
  "thresh_pubkey_and_tweak rnds thresh_pk tweaks is_xonly ec =
     rbind (frost_require_same_length tweaks is_xonly) (\<lambda>_.
     rbind (tweak_ctx_init thresh_pk ec) (\<lambda>ctx.
       rfold (\<lambda>ctx (i, t, xonly). frost_apply_tweak (rnds i) ctx t xonly ec) ctx (enumerate 0 (zip tweaks is_xonly))))"

definition sized_or_empty :: "octets option \<Rightarrow> nat \<Rightarrow> octets result" where
  "sized_or_empty bs k = (case bs of None \<Rightarrow> Inr [] | Some b \<Rightarrow> bytes_from_octets b (Some [k]))"

definition frost_nonce_gen ::
  "(nat \<Rightarrow> int) \<Rightarrow> octets \<Rightarrow> octets option \<Rightarrow> octets option \<Rightarrow> octets option \<Rightarrow> octets option \<Rightarrow> octets option \<Rightarrow> curve \<Rightarrow> hash_fn
    \<Rightarrow> (octets \<times> octets) result" where
  "frost_nonce_gen rnd rand_octets sec_share pub_share thresh_pk_xonly msg extra_in ec hf =
     rbind (bytes_from_octets rand_octets (Some [SCALAR_SIZE])) (\<lambda>rand'.
     rbind (case sec_share of None \<Rightarrow> Inr rand'
            | Some s \<Rightarrow> rbind (bytes_from_octets s (Some [SCALAR_SIZE])) (\<lambda>s. bytes_xor s (tagged_hash FROST_AUX_TAG rand' hf))) (\<lambda>rand.
     rbind (sized_or_empty pub_share PK_SIZE) (\<lambda>pub_share_bytes.
     rbind (sized_or_empty thresh_pk_xonly (ec_p_size ec)) (\<lambda>thresh_bytes.
     rbind (prefixed_msg msg) (\<lambda>msg_prefixed.
       let extra = (case extra_in of None \<Rightarrow> [] | Some x \<Rightarrow> x) in
       rbind (cosign_nonce_hash FROST_NONCE_TAG rand pub_share_bytes thresh_bytes 0 msg_prefixed extra hf) (\<lambda>h_1.
       rbind (cosign_nonce_hash FROST_NONCE_TAG rand pub_share_bytes thresh_bytes 1 msg_prefixed extra hf) (\<lambda>h_2.
         let k_1 = h_1 mod cv_n ec; k_2 = h_2 mod cv_n ec in
         rbind (public_nonce rnd k_1 k_2 ec) (\<lambda>pub_nonce.
         rbind (secret_scalars k_1 k_2) (\<lambda>ks. Inr (ks, pub_nonce))))))))))"

definition frost_nonce_agg :: "octets list \<Rightarrow> curve \<Rightarrow> octets result" where
  "frost_nonce_agg = aggregate_nonces"

section \<open>Sessions\<close>

primrec parse_session_pub_shares :: "int list \<Rightarrow> int \<Rightarrow> octets list option \<Rightarrow> curve \<Rightarrow> apoint list result" where
  "parse_session_pub_shares [] n pub_shares ec = Inr []"
| "parse_session_pub_shares (signer_id # ids) n pub_shares ec =
     (if \<not> (0 \<le> signer_id \<and> signer_id \<le> n - 1) then Inl (BTClibEccValueError ''Invalid id'')
      else case pub_shares of
        None \<Rightarrow> parse_session_pub_shares ids n None ec
      | Some bs \<Rightarrow>
          rbind (reworded ''Invalid pubshare'' (cpoint (hd bs) ec)) (\<lambda>point.
          rbind (parse_session_pub_shares ids n (Some (tl bs)) ec) (\<lambda>points. Inr (point # points))))"

definition validate_session_params :: "int \<Rightarrow> int \<Rightarrow> int \<Rightarrow> int list \<Rightarrow> octets list option \<Rightarrow> octets \<Rightarrow> curve \<Rightarrow> unit result" where
  "validate_session_params rnd n t ids pub_shares thresh_pk ec =
     (if \<not> (1 \<le> t \<and> t \<le> n) then Inl (BTClibEccValueError ''The threshold must be 1 <= t <= n.'')
      else if n > MAX_PARTICIPANTS then Inl (BTClibEccValueError ''The number of participants must be n <= 128.'')
      else if \<not> (t \<le> int (length ids) \<and> int (length ids) \<le> n)
      then Inl (BTClibEccValueError ''The number of signers must be between t and n.'')
      else if (case pub_shares of None \<Rightarrow> False | Some bs \<Rightarrow> length bs \<noteq> length ids)
      then Inl (BTClibEccValueError ''The pubshares and ids lists must have the same length.'')
      else
        rbind (parse_session_pub_shares ids n pub_shares ec) (\<lambda>points.
          if has_duplicates ids then Inl (BTClibEccValueError ''The ids list contains duplicate elements.'')
          else case pub_shares of
            None \<Rightarrow> Inr ()
          | Some _ \<Rightarrow> rbind (derive_thresh_pubkey rnd ids points ec) (\<lambda>pk.
              if pk \<noteq> thresh_pk
              then Inl (BTClibEccValueError ''The provided key material is incorrect: the public shares do not match the threshold public key.'')
              else Inr ())))"

record frost_session =
  fs_n :: int
  fs_t :: int
  fs_ids :: "int list"
  fs_pub_shares :: "octets list option"
  fs_thresh_pk :: octets
  fs_agg_nonce :: octets
  fs_tweaks :: "octets list"
  fs_is_xonly :: "bool list"
  fs_msg :: octets

definition init_frost_session ::
  "int \<Rightarrow> int \<Rightarrow> int list \<Rightarrow> octets list option \<Rightarrow> octets \<Rightarrow> octets \<Rightarrow> octets list \<Rightarrow> bool list \<Rightarrow> octets \<Rightarrow> frost_session result" where
  "init_frost_session n t ids pub_shares thresh_pk agg_nonce tweaks is_xonly msg =
     rbind (case pub_shares of None \<Rightarrow> Inr None | Some bs \<Rightarrow> rbind (frost_pub_shares bs) (\<lambda>bs. Inr (Some bs))) (\<lambda>pub_shares.
     rbind (bytes_from_octets thresh_pk (Some [PK_SIZE])) (\<lambda>thresh_pk.
     rbind (bytes_from_octets agg_nonce (Some [NONCE_SIZE])) (\<lambda>agg_nonce.
     rbind (frost_require_same_length tweaks is_xonly) (\<lambda>_.
       Inr \<lparr>fs_n = n, fs_t = t, fs_ids = ids, fs_pub_shares = pub_shares, fs_thresh_pk = thresh_pk, fs_agg_nonce = agg_nonce,
            fs_tweaks = tweaks, fs_is_xonly = is_xonly, fs_msg = msg\<rparr>))))"

definition frost_session_values :: "(nat \<Rightarrow> int) \<Rightarrow> frost_session \<Rightarrow> curve \<Rightarrow> hash_fn \<Rightarrow> session_values result" where
  "frost_session_values rnd ctx ec hf =
     rbind (validate_session_params (rnd 0) (fs_n ctx) (fs_t ctx) (fs_ids ctx) (fs_pub_shares ctx) (fs_thresh_pk ctx) ec) (\<lambda>_.
     rbind (thresh_pubkey_and_tweak (\<lambda>i. rnd (i + 2)) (fs_thresh_pk ctx) (fs_tweaks ctx) (fs_is_xonly ctx) ec) (\<lambda>key_ctx.
     rbind (int_to_bytes (int (length (fs_ids ctx))) 4) (\<lambda>len.
     rbind (serialize_ids (fs_ids ctx)) (\<lambda>ids_bytes.
     rbind (x_only_pub_key key_ctx ec) (\<lambda>x_Q.
       let coeff_hash = tagged_hash FROST_NONCE_COEFF_TAG (len @ ids_bytes @ fs_agg_nonce ctx @ x_Q @ fs_msg ctx) hf;
         b = int_from_bytes coeff_hash mod cv_n ec in
       rbind (contributed None ''aggnonce'' (cpoint_ext (take PK_SIZE (fs_agg_nonce ctx)) ec)) (\<lambda>R_1.
       rbind (contributed None ''aggnonce'' (cpoint_ext (drop PK_SIZE (fs_agg_nonce ctx)) ec)) (\<lambda>R_2.
       rbind (final_nonce (rnd 1) R_1 R_2 b ec) (\<lambda>R.
       rbind (ssa_challenge (fs_msg ctx) (fst (tw_Q key_ctx)) (fst R) ec hf) (\<lambda>e.
         Inr \<lparr>sv_Q = tw_Q key_ctx, sv_gacc = tw_gacc key_ctx, sv_tacc = tw_tacc key_ctx, sv_b = b, sv_R = R, sv_e = e\<rparr>)))))))))"

text \<open>\<^verbatim>\<open>ids.index(my_id)\<close>, after the check that it is there.\<close>

primrec index_of :: "int \<Rightarrow> int list \<Rightarrow> nat" where
  "index_of k [] = 0"
| "index_of k (x # xs) = (if x = k then 0 else Suc (index_of k xs))"

section \<open>Partial signatures\<close>

definition frost_respond :: "int \<Rightarrow> session_values \<Rightarrow> octets \<Rightarrow> octets \<Rightarrow> int \<Rightarrow> frost_session \<Rightarrow> curve \<Rightarrow> octets result" where
  "frost_respond rnd v sec_nonce sec_share my_id ctx ec =
     rbind (assert_fresh_nonce sec_nonce ec) (\<lambda>(k_1, k_2).
     rbind (bytes_from_octets sec_share (Some [SCALAR_SIZE])) (\<lambda>d_bytes.
       let d_secret = int_from_bytes d_bytes in
       if \<not> (0 < d_secret \<and> d_secret < cv_n ec)
       then Inl (BTClibEccValueError ''The signer's secret share value is out of range.'')
       else
         rbind (mult rnd d_secret None ec) (\<lambda>P. rbind (cbytes P ec) (\<lambda>pub_share.
           if my_id \<notin> set (fs_ids ctx) then Inl (BTClibEccValueError ''The signer's id is missing from the ids list.'')
           else if (case fs_pub_shares ctx of None \<Rightarrow> False | Some bs \<Rightarrow> bs ! index_of my_id (fs_ids ctx) \<noteq> pub_share)
           then Inl (BTClibEccValueError ''The signer's pubshare is missing from the pubshares list.'')
           else rbind (derive_interpolating_value (fs_ids ctx) my_id ec) (\<lambda>a. partial_response v k_1 k_2 a d_secret ec)))))"

definition frost_sign ::
  "(nat \<Rightarrow> int) \<Rightarrow> int \<Rightarrow> octets \<Rightarrow> octets \<Rightarrow> int \<Rightarrow> frost_session \<Rightarrow> curve \<Rightarrow> hash_fn \<Rightarrow> octets \<times> octets result" where
  "frost_sign rnd rnd' sec_nonce sec_share my_id ctx ec hf =
     (case frost_session_values rnd ctx ec hf of
        Inl e \<Rightarrow> (sec_nonce, Inl e)
      | Inr v \<Rightarrow> (wipe_nonce sec_nonce, frost_respond rnd' v sec_nonce sec_share my_id ctx ec))"

definition frost_det_nonce_hash :: "octets \<Rightarrow> int \<Rightarrow> int list \<Rightarrow> octets \<Rightarrow> octets \<Rightarrow> octets \<Rightarrow> nat \<Rightarrow> hash_fn \<Rightarrow> int result" where
  "frost_det_nonce_hash sec_share my_id ids agg_other_nonce thresh_pk_xonly msg i hf =
     rbind (int_to_bytes my_id ID_SIZE) (\<lambda>id_bytes.
     rbind (int_to_bytes (int (length ids)) ID_SIZE) (\<lambda>len.
     rbind (serialize_ids ids) (\<lambda>ids_bytes.
     rbind (int_to_bytes (int (length msg)) 8) (\<lambda>msg_len.
     rbind (int_to_bytes (int i) 1) (\<lambda>ib.
       Inr (int_from_bytes (tagged_hash FROST_DET_NONCE_TAG
         (sec_share @ id_bytes @ len @ ids_bytes @ agg_other_nonce @ thresh_pk_xonly @ msg_len @ msg @ ib) hf)))))))"

definition frost_other_nonce :: "octets result \<Rightarrow> octets result" where
  "frost_other_nonce r = (case r of Inl (InvalidContributionError i w) \<Rightarrow> Inl (InvalidContributionError None ''aggothernonce'') | _ \<Rightarrow> r)"

definition frost_deterministic_sign ::
  "(nat \<Rightarrow> nat \<Rightarrow> int) \<Rightarrow> octets \<Rightarrow> int \<Rightarrow> octets option \<Rightarrow> int \<Rightarrow> int \<Rightarrow> int list \<Rightarrow> octets list option \<Rightarrow> octets \<Rightarrow> octets list \<Rightarrow> bool list
    \<Rightarrow> octets \<Rightarrow> octets option \<Rightarrow> curve \<Rightarrow> hash_fn \<Rightarrow> (octets \<times> octets) result" where
  "frost_deterministic_sign rnd sec_share my_id agg_other_nonce n t ids pub_shares thresh_pk tweaks is_xonly msg aux_rand ec hf =
     rbind (case pub_shares of None \<Rightarrow> Inr None | Some bs \<Rightarrow> rbind (frost_pub_shares bs) (\<lambda>bs. Inr (Some bs))) (\<lambda>shares.
     rbind (bytes_from_octets thresh_pk (Some [PK_SIZE])) (\<lambda>thresh_pk_bytes.
     rbind (validate_session_params (rnd 0 0) n t ids shares thresh_pk_bytes ec) (\<lambda>_.
     rbind (bytes_from_octets sec_share (Some [SCALAR_SIZE])) (\<lambda>sec_share_bytes.
     rbind (case aux_rand of None \<Rightarrow> Inr sec_share_bytes | Some r \<Rightarrow> bytes_xor sec_share_bytes (tagged_hash FROST_AUX_TAG r hf)) (\<lambda>masked.
     rbind (sized_or_empty agg_other_nonce NONCE_SIZE) (\<lambda>other_bytes.
     rbind (thresh_pubkey_and_tweak (rnd 1) thresh_pk_bytes tweaks is_xonly ec) (\<lambda>key_ctx.
     rbind (x_only_pub_key key_ctx ec) (\<lambda>x_Q.
     rbind (frost_det_nonce_hash masked my_id ids other_bytes x_Q msg 0 hf) (\<lambda>h_1.
     rbind (frost_det_nonce_hash masked my_id ids other_bytes x_Q msg 1 hf) (\<lambda>h_2.
       let k_1 = h_1 mod cv_n ec; k_2 = h_2 mod cv_n ec in
       rbind (public_nonce (rnd 2) k_1 k_2 ec) (\<lambda>pub_nonce.
       rbind (secret_scalars k_1 k_2) (\<lambda>sec_nonce.
       rbind (case agg_other_nonce of None \<Rightarrow> Inr pub_nonce
              | Some other \<Rightarrow> frost_other_nonce (frost_nonce_agg [pub_nonce, other] ec)) (\<lambda>agg_nonce.
       rbind (init_frost_session n t ids pub_shares thresh_pk agg_nonce tweaks is_xonly msg) (\<lambda>ctx.
       rbind (snd (frost_sign (rnd 3) (rnd 0 1) sec_nonce sec_share my_id ctx ec hf)) (\<lambda>psig.
         Inr (pub_nonce, psig))))))))))))))))"

text \<open>\<^verbatim>\<open>except BTClibEccValueError: return False\<close>, around one decoding.\<close>

definition decoded_or_false :: "apoint result \<Rightarrow> (apoint \<Rightarrow> bool result) \<Rightarrow> bool result" where
  "decoded_or_false r f = (case r of Inl (BTClibEccValueError e) \<Rightarrow> Inr False | Inl e \<Rightarrow> Inl e | Inr P \<Rightarrow> f P)"

definition frost_partial_sig_verify_raw ::
  "(nat \<Rightarrow> int) \<Rightarrow> (nat \<Rightarrow> int) \<Rightarrow> octets \<Rightarrow> int \<Rightarrow> octets \<Rightarrow> octets \<Rightarrow> frost_session \<Rightarrow> curve \<Rightarrow> hash_fn \<Rightarrow> bool result" where
  "frost_partial_sig_verify_raw rnd rnd' psig my_id pub_nonce pub_share ctx ec hf =
     rbind (frost_session_values rnd ctx ec hf) (\<lambda>v.
       if my_id \<notin> set (fs_ids ctx) then Inl (BTClibEccValueError ''The signer's id is missing from the ids list.'')
       else
         rbind (bytes_from_octets psig (Some [SCALAR_SIZE])) (\<lambda>psig_bytes.
           let s = int_from_bytes psig_bytes in
           if s \<ge> cv_n ec then Inr False
           else
             rbind (bytes_from_octets pub_nonce (Some [NONCE_SIZE])) (\<lambda>pub_nonce.
             decoded_or_false (cpoint (take PK_SIZE pub_nonce) ec) (\<lambda>R_s1.
             decoded_or_false (cpoint (drop PK_SIZE pub_nonce) ec) (\<lambda>R_s2.
             rbind (nonce_point (rnd' 2) v R_s1 R_s2 ec) (\<lambda>R_s.
             decoded_or_false (cpoint pub_share ec) (\<lambda>P.
             rbind (case fs_pub_shares ctx of None \<Rightarrow> Inr True
                    | Some bs \<Rightarrow> rbind (cbytes P ec) (\<lambda>pb. Inr (pb = bs ! index_of my_id (fs_ids ctx)))) (\<lambda>same.
               if \<not> same then Inr False
               else rbind (derive_interpolating_value (fs_ids ctx) my_id ec) (\<lambda>a. partial_equation rnd' v s R_s a P ec)))))))))"

definition frost_partial_sig_verify ::
  "(nat \<Rightarrow> int) \<Rightarrow> (nat \<Rightarrow> int) \<Rightarrow> octets \<Rightarrow> octets list \<Rightarrow> int \<Rightarrow> int \<Rightarrow> int list \<Rightarrow> octets list \<Rightarrow> octets \<Rightarrow> octets list \<Rightarrow> bool list \<Rightarrow> octets
    \<Rightarrow> int \<Rightarrow> curve \<Rightarrow> hash_fn \<Rightarrow> bool result" where
  "frost_partial_sig_verify rnd rnd' psig pub_nonces n t ids pub_shares thresh_pk tweaks is_xonly msg i ec hf =
     (if length pub_nonces \<noteq> length ids \<or> length pub_shares \<noteq> length ids
      then Inl (BTClibEccValueError ''The pubnonces, pubshares and ids lists must have the same length.'')
      else if \<not> (0 \<le> i \<and> i < int (length ids))
      then Inl (BTClibEccValueError ''The signer index must satisfy 0 <= i <= u - 1.'')
      else
        rbind (frost_nonce_agg pub_nonces ec) (\<lambda>agg_nonce.
        rbind (init_frost_session n t ids (Some pub_shares) thresh_pk agg_nonce tweaks is_xonly msg) (\<lambda>ctx.
        rbind (frost_pub_shares pub_shares) (\<lambda>shares.
          frost_partial_sig_verify_raw rnd rnd' psig (ids ! nat i) (pub_nonces ! nat i) (shares ! nat i) ctx ec hf))))"

definition frost_partial_sig_agg :: "(nat \<Rightarrow> int) \<Rightarrow> octets list \<Rightarrow> frost_session \<Rightarrow> curve \<Rightarrow> hash_fn \<Rightarrow> ssa_sig result" where
  "frost_partial_sig_agg rnd psigs ctx ec hf =
     rbind (frost_session_values rnd ctx ec hf) (\<lambda>v.
       if length psigs \<noteq> length (fs_ids ctx)
       then Inl (BTClibEccValueError ''The psigs and ids lists must have the same length.'')
       else rbind (aggregate_psigs v psigs ec) (\<lambda>s. init_ssa_sig (fst (sv_R v)) s ec True))"

end
