(* ===== verification/Interpolation.thy ===== *)
theory Interpolation
  imports Prime_Field
begin

text \<open>
  Lagrange interpolation modulo a prime, on the integers: polynomial functions with as many coefficients as
  there are points, the bound on their roots, and the formula that recovers the value at any point from the
  values at distinct ones.
\<close>

section \<open>Polynomial functions\<close>

definition poly_eval :: "int list \<Rightarrow> int \<Rightarrow> int" where
  "poly_eval cs x = foldr (\<lambda>c v. c + x * v) cs 0"

lemma poly_eval_simps [simp]: "poly_eval [] x = 0" "poly_eval (c # cs) x = c + x * poly_eval cs x"
  by (simp_all add: poly_eval_def)

text \<open>A function with \<open>k\<close> coefficients, of degree below \<open>k\<close>.\<close>

definition polyfun :: "nat \<Rightarrow> (int \<Rightarrow> int) \<Rightarrow> bool" where
  "polyfun k F \<longleftrightarrow> (\<exists>cs. length cs = k \<and> (\<forall>x. F x = poly_eval cs x))"

lemma polyfun_0: "polyfun 0 F \<longleftrightarrow> (\<forall>x. F x = 0)"
  by (simp add: polyfun_def)

lemma polyfun_Suc: "polyfun (Suc k) F \<longleftrightarrow> (\<exists>c G. polyfun k G \<and> (\<forall>x. F x = c + x * G x))"
proof
  assume "polyfun (Suc k) F"
  then obtain c cs where "length cs = k" "\<forall>x. F x = c + x * poly_eval cs x" by (auto simp: polyfun_def length_Suc_conv)
  then show "\<exists>c G. polyfun k G \<and> (\<forall>x. F x = c + x * G x)" unfolding polyfun_def by blast
next
  assume "\<exists>c G. polyfun k G \<and> (\<forall>x. F x = c + x * G x)"
  then obtain c cs where "length cs = k" "\<forall>x. F x = c + x * poly_eval cs x" unfolding polyfun_def by auto
  then show "polyfun (Suc k) F" unfolding polyfun_def by (intro exI [of _ "c # cs"]) simp
qed

lemma polyfun_zero: "polyfun k (\<lambda>_. 0)"
  by (induction k) (auto simp: polyfun_0 polyfun_Suc intro!: exI [of _ 0] exI [of _ "\<lambda>_. 0"])

lemma polyfun_add: "polyfun k F \<Longrightarrow> polyfun k G \<Longrightarrow> polyfun k (\<lambda>x. F x + G x)"
proof (induction k arbitrary: F G)
  case (Suc k)
  obtain c F' where F: "polyfun k F'" "\<forall>x. F x = c + x * F' x" using Suc.prems(1) unfolding polyfun_Suc by blast
  obtain d G' where G: "polyfun k G'" "\<forall>x. G x = d + x * G' x" using Suc.prems(2) unfolding polyfun_Suc by blast
  have "\<forall>x. F x + G x = (c + d) + x * (F' x + G' x)" using F(2) G(2) by (simp add: algebra_simps)
  with Suc.IH [OF F(1) G(1)] show ?case unfolding polyfun_Suc by (intro exI [of _ "c + d"] exI [of _ "\<lambda>x. F' x + G' x"] conjI)
qed (simp add: polyfun_0)

lemma polyfun_scale: "polyfun k F \<Longrightarrow> polyfun k (\<lambda>x. a * F x)"
proof (induction k arbitrary: F)
  case (Suc k)
  obtain c F' where F: "polyfun k F'" "\<forall>x. F x = c + x * F' x" using Suc.prems unfolding polyfun_Suc by blast
  have "\<forall>x. a * F x = a * c + x * (a * F' x)" using F(2) by (simp add: algebra_simps)
  with Suc.IH [OF F(1)] show ?case unfolding polyfun_Suc by (intro exI [of _ "a * c"] exI [of _ "\<lambda>x. a * F' x"] conjI)
qed (simp add: polyfun_0)

lemma polyfun_pad: "polyfun k F \<Longrightarrow> polyfun (Suc k) F"
proof (induction k arbitrary: F)
  case 0
  then show ?case unfolding polyfun_Suc polyfun_0 by (intro exI [of _ 0] exI [of _ "\<lambda>_. 0"]) simp
next
  case (Suc k)
  then show ?case unfolding polyfun_Suc [of "Suc k"] polyfun_Suc [of k F] by blast
qed

lemma polyfun_mono: "polyfun k F \<Longrightarrow> k \<le> l \<Longrightarrow> polyfun l F"
proof (induction l)
  case (Suc l)
  then show ?case using polyfun_pad by (cases "k = Suc l") auto
qed simp

lemma polyfun_times_root: "polyfun k F \<Longrightarrow> polyfun (Suc k) (\<lambda>x. (x - c) * F x)"
proof -
  assume F: "polyfun k F"
  have "polyfun (Suc k) (\<lambda>x. x * F x)" unfolding polyfun_Suc using F by (intro exI [of _ 0] exI [of _ F]) simp
  from polyfun_add [OF this polyfun_scale [OF polyfun_pad [OF F], of "- c"]] show ?thesis by (simp add: algebra_simps)
qed

lemma polyfun_prod: "polyfun (Suc (length cs)) (\<lambda>x. prod_list (map (\<lambda>c. x - c) cs))"
proof (induction cs)
  case Nil
  show ?case unfolding polyfun_Suc polyfun_0 by (intro exI [of _ 1] exI [of _ "\<lambda>_. 0"]) (simp add: polyfun_0)
next
  case (Cons c cs)
  from polyfun_times_root [OF this, of c] show ?case by simp
qed

lemma polyfun_sum_list: "(\<And>i. i \<in> set xs \<Longrightarrow> polyfun k (F i)) \<Longrightarrow> polyfun k (\<lambda>x. sum_list (map (\<lambda>i. F i x) xs))"
  by (induction xs) (simp_all add: polyfun_zero polyfun_add)

section \<open>Roots\<close>

lemma polyfun_divide:
  assumes "polyfun (Suc k) F"
  shows "\<exists>G. polyfun k G \<and> (\<forall>x. F x = F c + (x - c) * G x)"
  using assms
proof (induction k arbitrary: F)
  case 0
  then have "\<forall>x. F x = F c" unfolding polyfun_Suc polyfun_0 by auto
  then have "\<forall>x. F x = F c + (x - c) * 0" by simp
  then show ?case using polyfun_zero by (intro exI [of _ "\<lambda>_. 0"] conjI)
next
  case (Suc k)
  obtain a A where A: "polyfun (Suc k) A" "\<forall>x. F x = a + x * A x" using Suc.prems unfolding polyfun_Suc [of "Suc k"] by blast
  obtain G where G: "polyfun k G" "\<forall>x. A x = A c + (x - c) * G x" using Suc.IH [OF A(1)] by blast
  have "F x = F c + (x - c) * (A x + c * G x)" for x
  proof -
    have "F x = F c + (x - c) * A x + c * (A x - A c)" using A(2) by (simp add: algebra_simps)
    also have "A x - A c = (x - c) * G x" using G(2) by (metis add_diff_cancel_left')
    finally show ?thesis by (simp add: algebra_simps)
  qed
  then show ?case using polyfun_add [OF A(1) polyfun_scale [OF polyfun_pad [OF G(1)], of c]]
    by (intro exI [of _ "\<lambda>x. A x + c * G x"]) blast
qed

text \<open>The points are pairwise incongruent.\<close>

definition incongruent :: "int \<Rightarrow> int list \<Rightarrow> bool" where
  "incongruent n xs \<longleftrightarrow> distinct (map (\<lambda>x. x mod n) xs)"

lemma incongruent_Cons: "incongruent n (c # xs) \<longleftrightarrow> (\<forall>x \<in> set xs. \<not> n dvd (x - c)) \<and> incongruent n xs"
  by (auto simp: incongruent_def mod_eq_dvd_iff image_iff) (metis dvd_minus_iff minus_diff_eq)+

lemma polyfun_roots:
  assumes n: "prime_int n" and F: "polyfun k F" and xs: "incongruent n xs" "k \<le> length xs" and r: "\<forall>x \<in> set xs. n dvd F x"
  shows "n dvd F y"
  using assms
proof (induction k arbitrary: F xs y)
  case (Suc k)
  obtain c ys where ys: "xs = c # ys" using Suc.prems(4) by (cases xs) simp_all
  obtain G where G: "polyfun k G" "\<forall>x. F x = F c + (x - c) * G x" using polyfun_divide [OF Suc.prems(2)] by blast
  have c: "n dvd F c" using Suc.prems(5) ys by simp
  have "n dvd G x" if x: "x \<in> set ys" for x
  proof -
    have "n dvd (F c + (x - c) * G x)" using Suc.prems(5) x ys G(2) by (metis list.set_intros(2))
    then have "n dvd (x - c) * G x" using c by (simp add: dvd_add_right_iff)
    then show ?thesis using prime_int_dvd_mult_iff [OF n] Suc.prems(3) ys incongruent_Cons x by blast
  qed
  then have "n dvd G y" using Suc.IH [OF n G(1), of ys y] Suc.prems(3,4) ys incongruent_Cons by auto
  then show ?case using G(2) c by (metis dvd_add dvd_mult)
qed (simp add: polyfun_0)

section \<open>The interpolation formula\<close>

definition others :: "int list \<Rightarrow> int \<Rightarrow> int list" where
  "others xs i = filter (\<lambda>c. c \<noteq> i) xs"

definition lagrange_num :: "int list \<Rightarrow> int \<Rightarrow> int \<Rightarrow> int" where
  "lagrange_num xs i x = prod_list (map (\<lambda>c. x - c) (others xs i))"

lemma incongruent_distinct: "incongruent n xs \<Longrightarrow> distinct xs"
  unfolding incongruent_def by (simp add: distinct_map)

lemma incongruent_diff: "incongruent n xs \<Longrightarrow> i \<in> set xs \<Longrightarrow> c \<in> set xs \<Longrightarrow> c \<noteq> i \<Longrightarrow> \<not> n dvd (i - c)"
  unfolding incongruent_def distinct_map inj_on_def by (metis mod_eq_dvd_iff)

lemma prime_dvd_prod_list: "prime_int n \<Longrightarrow> n dvd prod_list xs \<Longrightarrow> \<exists>x \<in> set xs. n dvd x"
proof (induction xs)
  case Nil
  then show ?case using prime_int_gt_1 [of n] by auto
qed (auto simp: prime_int_dvd_mult_iff)

lemma lagrange_num_self:
  assumes "prime_int n" "incongruent n xs" "i \<in> set xs"
  shows "\<not> n dvd lagrange_num xs i i"
proof
  assume "n dvd lagrange_num xs i i"
  from prime_dvd_prod_list [OF assms(1) this [unfolded lagrange_num_def]] obtain c where "c \<in> set xs" "c \<noteq> i" "n dvd (i - c)"
    by (auto simp: others_def)
  then show False using incongruent_diff [OF assms(2,3)] by blast
qed

lemma lagrange_num_other: "j \<in> set xs \<Longrightarrow> j \<noteq> i \<Longrightarrow> lagrange_num xs i j = 0"
  by (auto simp: lagrange_num_def others_def prod_list_zero_iff)

lemma polyfun_lagrange:
  assumes "distinct xs" "i \<in> set xs"
  shows "polyfun (length xs) (lagrange_num xs i)"
proof -
  have "length (others xs i) = length xs - 1"
    using distinct_remove1_removeAll [OF assms(1), of i] length_remove1 [of i xs] assms(2)
    by (simp add: others_def removeAll_filter_not_eq eq_commute)
  moreover have "0 < length xs" using assms(2) by (cases xs) simp_all
  ultimately have "Suc (length (others xs i)) = length xs" by simp
  with polyfun_prod [of "others xs i"] show ?thesis unfolding lagrange_num_def [abs_def] by simp
qed

text \<open>
  The coefficient of a point: the numerator at \<open>x\<close> over the one at the point itself, modulo \<open>n\<close>.
\<close>

definition lagrange_ok :: "int \<Rightarrow> int list \<Rightarrow> int \<Rightarrow> int \<Rightarrow> int \<Rightarrow> bool" where
  "lagrange_ok n xs x i a \<longleftrightarrow> n dvd (a * lagrange_num xs i i - lagrange_num xs i x)"

lemma lagrange_ok_inverse:
  assumes "lagrange_ok n xs x i a" "n dvd (lagrange_num xs i i * v - 1)"
  shows "n dvd (a - v * lagrange_num xs i x)"
proof -
  have "n dvd v * (a * lagrange_num xs i i - lagrange_num xs i x) - a * (lagrange_num xs i i * v - 1)"
    by (rule dvd_diff [OF dvd_mult dvd_mult]) (use assms in \<open>simp_all add: lagrange_ok_def\<close>)
  moreover have "v * (a * lagrange_num xs i i - lagrange_num xs i x) - a * (lagrange_num xs i i * v - 1) = a - v * lagrange_num xs i x"
    by (simp add: algebra_simps)
  ultimately show ?thesis by simp
qed

lemma sum_list_dvd_diff:
  assumes "\<And>i. i \<in> set xs \<Longrightarrow> n dvd (f i - g i)"
  shows "(n :: int) dvd (sum_list (map f xs) - sum_list (map g xs))"
  using assms
proof (induction xs)
  case (Cons i xs)
  have "n dvd ((f i - g i) + (sum_list (map f xs) - sum_list (map g xs)))" using Cons by (intro dvd_add) simp_all
  then show ?case by (simp add: algebra_simps)
qed simp

lemma sum_list_single:
  assumes "distinct xs" "j \<in> set xs" "\<And>i. i \<in> set xs \<Longrightarrow> i \<noteq> j \<Longrightarrow> f i = 0"
  shows "sum_list (map f xs) = (f j :: int)"
proof -
  have "sum_list (map f xs) = sum f (set xs)" using assms(1) by (simp add: sum_list_distinct_conv_sum_set)
  also have "\<dots> = f j" using assms(2,3) by (subst sum.remove [of _ j]) auto
  finally show ?thesis .
qed

text \<open>Interpolation: the values at distinct points give the value at every point.\<close>

lemma interpolation:
  assumes n: "prime_int n" and xs: "incongruent n xs" and F: "polyfun k F" "k \<le> length xs"
    and a: "\<And>i. i \<in> set xs \<Longrightarrow> lagrange_ok n xs x i (a i)"
  shows "n dvd (sum_list (map (\<lambda>i. a i * F i) xs) - F x)"
proof -
  define v where "v i = inv_mod (lagrange_num xs i i) n" for i
  have v: "n dvd (lagrange_num xs i i * v i - 1)" if "i \<in> set xs" for i
    unfolding v_def using inv_mod_prime [OF n lagrange_num_self [OF n xs that]] by simp
  let ?D = "\<lambda>y. sum_list (map (\<lambda>i. (v i * F i) * lagrange_num xs i y) xs) + (- 1) * F y"
  note d = incongruent_distinct [OF xs]
  have "polyfun (length xs) ?D"
    by (intro polyfun_add polyfun_sum_list polyfun_scale polyfun_lagrange [OF d] polyfun_mono [OF F])
  moreover have "n dvd ?D j" if j: "j \<in> set xs" for j
  proof -
    have "sum_list (map (\<lambda>i. (v i * F i) * lagrange_num xs i j) xs) = v j * F j * lagrange_num xs j j"
      using sum_list_single [OF d j, of "\<lambda>i. (v i * F i) * lagrange_num xs i j"] lagrange_num_other [OF j] by simp
    then have "?D j = F j * (lagrange_num xs j j * v j - 1)" by (simp add: algebra_simps)
    then show ?thesis using v [OF j] by (simp only: dvd_mult)
  qed
  ultimately have D: "n dvd ?D x" using polyfun_roots [OF n _ xs] by blast
  have "n dvd (sum_list (map (\<lambda>i. a i * F i) xs) - sum_list (map (\<lambda>i. (v i * F i) * lagrange_num xs i x) xs))"
  proof (rule sum_list_dvd_diff)
    fix i assume i: "i \<in> set xs"
    have "n dvd F i * (a i - v i * lagrange_num xs i x)" by (rule dvd_mult) (rule lagrange_ok_inverse [OF a [OF i] v [OF i]])
    then show "n dvd (a i * F i - v i * F i * lagrange_num xs i x)" by (simp add: algebra_simps)
  qed
  from dvd_add [OF this D] show ?thesis by simp
qed

text \<open>The coefficients are themselves such functions of the point they are for.\<close>

lemma coefficients_interpolate:
  assumes n: "prime_int n" and xs: "incongruent n xs" and bs: "incongruent n bs" "length bs \<le> length xs" and b: "b \<in> set bs"
    and a: "\<And>i. i \<in> set xs \<Longrightarrow> lagrange_ok n xs x i (a i)"
    and l: "\<And>i. i \<in> set xs \<Longrightarrow> lagrange_ok n bs i b (l i)" and r: "lagrange_ok n bs x b r"
  shows "n dvd (sum_list (map (\<lambda>i. a i * l i) xs) - r)"
proof -
  define v where "v = inv_mod (lagrange_num bs b b) n"
  have v: "n dvd (lagrange_num bs b b * v - 1)"
    unfolding v_def using inv_mod_prime [OF n lagrange_num_self [OF n bs(1) b]] by simp
  let ?F = "\<lambda>i. v * lagrange_num bs b i"
  have "polyfun (length bs) ?F" by (intro polyfun_scale polyfun_lagrange [OF incongruent_distinct [OF bs(1)] b])
  then have A: "n dvd (sum_list (map (\<lambda>i. a i * ?F i) xs) - ?F x)" by (rule interpolation [OF n xs _ bs(2) a])
  have B: "n dvd (sum_list (map (\<lambda>i. a i * l i) xs) - sum_list (map (\<lambda>i. a i * ?F i) xs))"
  proof (rule sum_list_dvd_diff)
    fix i assume i: "i \<in> set xs"
    have "n dvd a i * (l i - ?F i)" by (rule dvd_mult) (rule lagrange_ok_inverse [OF l [OF i] v])
    then show "n dvd (a i * l i - a i * ?F i)" by (simp add: right_diff_distrib)
  qed
  have C: "n dvd (r - ?F x)" by (rule lagrange_ok_inverse [OF r v])
  from dvd_diff [OF dvd_add [OF A B] C] show ?thesis by simp
qed

end
