(* ===== verification/Frost_Correct.thy ===== *)
theory Frost_Correct
  imports Frost Single_Use Interpolation
begin

text \<open>
  The threshold signatures on the points of the group: the coefficients the code computes are those of the
  interpolation formula, key material that is accepted lies on one polynomial, so that any large enough set of
  shares gives the threshold key, and partial signatures that pass add up to a Schnorr signature.
\<close>

section \<open>Coefficients\<close>

lemma foldl_products:
  fixes n :: int
  assumes "0 < n" "foldl (\<lambda>(u, v) c. if c = i then (u, v) else (u * f c mod n, v * g c mod n)) (u0, v0) ids = (U, V)"
  shows "n dvd (U - u0 * prod_list (map f (others ids i))) \<and> n dvd (V - v0 * prod_list (map g (others ids i)))"
  using assms(2)
proof (induction ids arbitrary: u0 v0)
  case (Cons c ids)
  show ?case
  proof (cases "c = i")
    case True
    then show ?thesis using Cons by (simp add: others_def)
  next
    case False
    let ?u = "u0 * f c mod n" and ?v = "v0 * g c mod n"
    let ?F = "prod_list (map f (others ids i))" and ?G = "prod_list (map g (others ids i))"
    have IH: "n dvd (U - ?u * ?F)" "n dvd (V - ?v * ?G)" using Cons False by simp_all
    have "n dvd (?u - u0 * f c) * ?F" "n dvd (?v - v0 * g c) * ?G"
      by (intro dvd_mult2, simp add: mod_eq_dvd_iff [symmetric])+
    from dvd_add [OF IH(1) this(1)] dvd_add [OF IH(2) this(2)]
    show ?thesis using False by (simp add: others_def algebra_simps)
  qed
qed (simp add: others_def)

lemma times_inverse_Inr:
  assumes "times_inverse num deno n = Inr a" "0 < n"
  shows "n dvd (a * deno - num)"
proof -
  have g: "gcd deno n = 1" and a: "a = num * inv_mod deno n mod n"
    using assms(1) by (auto simp: times_inverse_def py_pow_inv_def split: if_splits)
  have "n dvd (deno * inv_mod deno n - 1)" using inv_mod_correct [of n deno] assms(2) g by (simp add: coprime_iff_gcd_eq_1)
  moreover have "n dvd (a - num * inv_mod deno n)" using assms(2) unfolding a by (simp add: mod_eq_dvd_iff [symmetric])
  ultimately have "n dvd ((a - num * inv_mod deno n) * deno + num * (deno * inv_mod deno n - 1))" by (intro dvd_add dvd_mult2 dvd_mult)
  then show ?thesis by (simp add: algebra_simps)
qed

lemma times_inverse_returns: "prime_int n \<Longrightarrow> \<not> n dvd deno \<Longrightarrow> \<exists>a. times_inverse num deno n = Inr a"
  using prime_int_coprime [of n deno] by (simp add: times_inverse_def py_pow_inv_def coprime_iff_gcd_eq_1)

lemma share_coefficient_ok:
  assumes "share_coefficient ids x ec i = Inr a" "0 < cv_n ec"
  shows "lagrange_ok (cv_n ec) ids x i a"
proof -
  let ?n = "cv_n ec"
  obtain U V where F: "foldl (\<lambda>(u, v) c. if c = i then (u, v) else (u * (x - c) mod ?n, v * (i - c) mod ?n)) (1, 1) ids = (U, V)"
    by (cases "foldl (\<lambda>(u, v) c. if c = i then (u, v) else (u * (x - c) mod ?n, v * (i - c) mod ?n)) (1, 1) ids") blast
  have "times_inverse U V ?n = Inr a" using assms(1) F by (simp add: share_coefficient_def)
  then have "?n dvd (a * V - U)" by (rule times_inverse_Inr [OF _ assms(2)])
  moreover have "?n dvd (U - lagrange_num ids i x)" "?n dvd (V - lagrange_num ids i i)"
    using foldl_products [OF assms(2) F] by (simp_all add: lagrange_num_def)
  ultimately have "?n dvd ((a * V - U) + (U - lagrange_num ids i x) - a * (V - lagrange_num ids i i))" by (rule dvd_diff [OF dvd_add dvd_mult])
  then show ?thesis unfolding lagrange_ok_def by (simp add: algebra_simps)
qed

lemma share_coefficient_returns:
  assumes n: "prime_int (cv_n ec)" and ids: "incongruent (cv_n ec) ids" "i \<in> set ids"
  shows "\<exists>a. share_coefficient ids x ec i = Inr a"
proof -
  let ?n = "cv_n ec"
  obtain U V where F: "foldl (\<lambda>(u, v) c. if c = i then (u, v) else (u * (x - c) mod ?n, v * (i - c) mod ?n)) (1, 1) ids = (U, V)"
    by (cases "foldl (\<lambda>(u, v) c. if c = i then (u, v) else (u * (x - c) mod ?n, v * (i - c) mod ?n)) (1, 1) ids") blast
  have "?n dvd (V - lagrange_num ids i i)" using foldl_products [OF prime_int_pos [OF n] F] by (simp add: lagrange_num_def)
  then have "\<not> ?n dvd V" using lagrange_num_self [OF n ids] by (metis dvd_diff_commute dvd_diffD1 dvd_refl dvd_add_right_iff diff_add_cancel)
  then show ?thesis using times_inverse_returns [OF n] F by (simp add: share_coefficient_def)
qed

lemma prod_list_minus: "prod_list (map (\<lambda>c. - f c) cs) = (- 1) ^ length cs * prod_list (map f cs)" for f :: "int \<Rightarrow> int"
  by (induction cs) simp_all

lemma interpolating_value_ok:
  assumes "derive_interpolating_value ids i ec = Inr a" "0 < cv_n ec"
  shows "lagrange_ok (cv_n ec) ids (- 1) i a"
proof -
  let ?n = "cv_n ec"
  obtain U V where F: "foldl (\<lambda>(u, v) c. if c = i then (u, v) else (u * (c + 1) mod ?n, v * (c - i) mod ?n)) (1, 1) ids = (U, V)"
    by (cases "foldl (\<lambda>(u, v) c. if c = i then (u, v) else (u * (c + 1) mod ?n, v * (c - i) mod ?n)) (1, 1) ids") blast
  have "times_inverse U V ?n = Inr a" using assms(1) F by (simp add: derive_interpolating_value_def)
  then have A: "?n dvd (a * V - U)" by (rule times_inverse_Inr [OF _ assms(2)])
  let ?N = "prod_list (map (\<lambda>c. c + 1) (others ids i))" and ?D = "prod_list (map (\<lambda>c. c - i) (others ids i))"
  have "?n dvd (U - ?N)" "?n dvd (V - ?D)" using foldl_products [OF assms(2) F] by simp_all
  with A have "?n dvd ((a * V - U) + (U - ?N) - a * (V - ?D))" by (intro dvd_diff [OF dvd_add dvd_mult])
  then have "?n dvd (- 1) ^ length (others ids i) * (a * ?D - ?N)" by (intro dvd_mult) (simp add: algebra_simps)
  moreover have m: "(\<lambda>c :: int. - 1 - c) = (\<lambda>c. - (c + 1))" "(\<lambda>c. i - c) = (\<lambda>c. - (c - i))" by (simp_all add: fun_eq_iff)
  have "lagrange_num ids i (- 1) = (- 1) ^ length (others ids i) * ?N" "lagrange_num ids i i = (- 1) ^ length (others ids i) * ?D"
    unfolding lagrange_num_def m by (rule prod_list_minus)+
  ultimately show ?thesis unfolding lagrange_ok_def by (simp add: algebra_simps)
qed

text \<open>Two coefficients of one point for the same abscissa are congruent.\<close>

lemma lagrange_ok_unique:
  assumes "prime_int n" "incongruent n ids" "i \<in> set ids" "lagrange_ok n ids x i a" "lagrange_ok n ids x i b"
  shows "n dvd (a - b)"
proof -
  have "n dvd ((a * lagrange_num ids i i - lagrange_num ids i x) - (b * lagrange_num ids i i - lagrange_num ids i x))"
    by (rule dvd_diff [OF assms(4,5) [unfolded lagrange_ok_def]])
  then have "n dvd (a - b) * lagrange_num ids i i" by (simp add: algebra_simps)
  then show ?thesis using prime_int_dvd_mult_iff [OF assms(1)] lagrange_num_self [OF assms(1-3)] by blast
qed

lemma lagrange_ok_at_points:
  assumes "prime_int n" "incongruent n ids" "i \<in> set ids" "j \<in> set ids" "lagrange_ok n ids j i a"
  shows "n dvd (a - (if i = j then 1 else 0))"
proof (rule lagrange_ok_unique [OF assms(1-3,5)])
  show "lagrange_ok n ids j i (if i = j then 1 else 0)"
    using lagrange_num_other [OF assms(4)] by (simp add: lagrange_ok_def)
qed

section \<open>Combinations of shares\<close>

text \<open>The coefficient of a share, and the point that shares give at an abscissa.\<close>

definition coeff :: "curve \<Rightarrow> int list \<Rightarrow> int \<Rightarrow> int \<Rightarrow> int" where
  "coeff ec ids x i = (case share_coefficient ids x ec i of Inr a \<Rightarrow> a | Inl _ \<Rightarrow> 0)"

definition value_at :: "curve \<Rightarrow> (int \<times> point) list \<Rightarrow> int \<Rightarrow> point" where
  "value_at ec shares x = ec_lc ec (map (\<lambda>s. (coeff ec (map fst shares) x (fst s), snd s)) shares)"

lemma coeff_ok:
  assumes "curve_valid ec" "incongruent (cv_n ec) ids" "i \<in> set ids"
  shows "share_coefficient ids x ec i = Inr (coeff ec ids x i)" "lagrange_ok (cv_n ec) ids x i (coeff ec ids x i)"
proof -
  obtain a where "share_coefficient ids x ec i = Inr a"
    using share_coefficient_returns [OF curve_n(1) [OF assms(1)] assms(2,3)] by blast
  then show "share_coefficient ids x ec i = Inr (coeff ec ids x i)" "lagrange_ok (cv_n ec) ids x i (coeff ec ids x i)"
    using share_coefficient_ok curve_n(2) [OF assms(1)] by (simp_all add: coeff_def)
qed

lemma lc_add:
  assumes "cosign_curve ec" "\<forall>s \<in> set xs. member ec (P s)"
  shows "ec_plus ec (ec_lc ec (map (\<lambda>s. (f s, P s)) xs)) (ec_lc ec (map (\<lambda>s. (g s, P s)) xs)) = ec_lc ec (map (\<lambda>s. (f s + g s, P s)) xs)"
  using assms(2)
proof (induction xs)
  case (Cons s xs)
  have m: "member ec (P s)" "member ec (ec_lc ec (map (\<lambda>s. (h s, P s)) xs))" for h
    using Cons.prems lc_member [OF assms(1), of xs P h] by simp_all
  show ?case using Cons plus_swap [OF member_closed(3) [OF m(1)] m(2) member_closed(3) [OF m(1)] m(2)] times_add [OF m(1)] by simp
qed simp

lemma lc_scale:
  assumes "cosign_curve ec" "\<forall>s \<in> set xs. member ec (P s)"
  shows "ec_times ec k (ec_lc ec (map (\<lambda>s. (f s, P s)) xs)) = ec_lc ec (map (\<lambda>s. (k * f s, P s)) xs)"
  using assms(2)
proof (induction xs)
  case Nil
  then show ?case using ecn.zm_zero [OF memberD(2) [OF cosignD(8) [OF assms(1)]], of k] by simp
next
  case (Cons s xs)
  have m: "member ec (P s)" "member ec (ec_lc ec (map (\<lambda>s. (f s, P s)) xs))"
    using Cons.prems lc_member [OF assms(1), of xs P f] by simp_all
  show ?case using Cons times_distrib [OF member_closed(3) [OF m(1)] m(2)] times_times [OF m(1)] by simp
qed

lemma lc_cong:
  assumes "\<forall>s \<in> set xs. member ec (P s) \<and> cv_n ec dvd (f s - g s)"
  shows "ec_lc ec (map (\<lambda>s. (f s, P s)) xs) = ec_lc ec (map (\<lambda>s. (g s, P s)) xs)"
  using assms times_cong by (induction xs) auto

lemma lc_exchange:
  assumes "cosign_curve ec" "\<forall>s \<in> set base. member ec (P s)"
  shows "ec_lc ec (map (\<lambda>i. (a i, ec_lc ec (map (\<lambda>s. (l i s, P s)) base))) xs)
    = ec_lc ec (map (\<lambda>s. (sum_list (map (\<lambda>i. a i * l i s) xs), P s)) base)"
proof (induction xs)
  case Nil
  have "ec_lc ec (map (\<lambda>s. (0, P s)) base) = Inf" using lc_scale [OF assms, of 0 "\<lambda>_. 0"] by simp
  then show ?case by simp
next
  case (Cons i xs)
  then show ?case using lc_scale [OF assms, of "a i" "l i"] lc_add [OF assms, of "\<lambda>s. a i * l i s"] by simp
qed

lemma value_at_member: "cosign_curve ec \<Longrightarrow> \<forall>s \<in> set shares. member ec (snd s) \<Longrightarrow> member ec (value_at ec shares x)"
  unfolding value_at_def by (rule lc_member) simp_all

text \<open>At the abscissa of a share: the share.\<close>

lemma value_at_share:
  assumes c: "cosign_curve ec" and m: "\<forall>s \<in> set shares. member ec (snd s)" and i: "incongruent (cv_n ec) (map fst shares)"
    and s: "s \<in> set shares"
  shows "value_at ec shares (fst s) = snd s"
proof -
  note v = cosignD(1) [OF c] and d = incongruent_distinct [OF i]
  have "value_at ec shares (fst s) = ec_lc ec (map (\<lambda>t. (if fst t = fst s then 1 else 0, snd t)) shares)"
    unfolding value_at_def
  proof (rule lc_cong, intro ballI conjI)
    fix t assume t: "t \<in> set shares"
    show "member ec (snd t)" using m t by blast
    show "cv_n ec dvd (coeff ec (map fst shares) (fst s) (fst t) - (if fst t = fst s then 1 else 0))"
      by (rule lagrange_ok_at_points [OF curve_n(1) [OF v] i _ _ coeff_ok(2) [OF v i]]) (use s t in simp_all)
  qed
  also have "\<dots> = snd s"
    using d s m
  proof (induction shares)
    case (Cons t shares)
    have z: "ec_lc ec (map (\<lambda>t. (if fst t = fst s then 1 else 0, snd t)) us) = Inf" if "fst s \<notin> fst ` set us" for us
      using that by (induction us) auto
    show ?case
    proof (cases "t = s")
      case True
      have "fst s \<notin> fst ` set shares" using Cons.prems(1) True by auto
      then show ?thesis using z Cons.prems(3) times_one [of ec "snd s"] True by simp
    next
      case False
      then have "s \<in> set shares" "fst t \<noteq> fst s" using Cons.prems(1,2) by auto
      then show ?thesis using Cons ecn.zero_add [OF memberD(2), of ec "snd s"] by simp
    qed
  qed simp
  finally show ?thesis .
qed

text \<open>Any large enough set of points of the polynomial determines it.\<close>

lemma value_at_points:
  assumes c: "cosign_curve ec" and m: "\<forall>s \<in> set base. member ec (snd s)" and i: "incongruent (cv_n ec) (map fst base)"
    and xs: "incongruent (cv_n ec) xs" "length base \<le> length xs"
  shows "value_at ec (map (\<lambda>i. (i, value_at ec base i)) xs) x = value_at ec base x"
proof -
  note v = cosignD(1) [OF c]
  let ?l = "\<lambda>i s. coeff ec (map fst base) i (fst s)" and ?a = "coeff ec xs x"
  have "value_at ec (map (\<lambda>i. (i, value_at ec base i)) xs) x = ec_lc ec (map (\<lambda>i. (?a i, ec_lc ec (map (\<lambda>s. (?l i s, snd s)) base))) xs)"
    by (simp add: value_at_def comp_def)
  also have "\<dots> = ec_lc ec (map (\<lambda>s. (sum_list (map (\<lambda>i. ?a i * ?l i s) xs), snd s)) base)" by (rule lc_exchange [OF c m])
  also have "\<dots> = value_at ec base x"
    unfolding value_at_def
  proof (rule lc_cong, intro ballI conjI)
    fix s assume s: "s \<in> set base"
    then show "member ec (snd s)" using m by blast
    have b: "fst s \<in> set (map fst base)" using s by simp
    show "cv_n ec dvd (sum_list (map (\<lambda>i. ?a i * ?l i s) xs) - coeff ec (map fst base) x (fst s))"
      by (rule coefficients_interpolate [OF curve_n(1) [OF v] xs(1) i _ b coeff_ok(2) [OF v xs(1)] coeff_ok(2) [OF v i b] coeff_ok(2) [OF v i b]])
        (use xs(2) in simp_all)
  qed
  finally show ?thesis .
qed

section \<open>The threshold key\<close>

lemma derived_pubshare:
  assumes c: "cosign_curve ec" and m: "\<forall>s \<in> set shares. member ec (snd s) \<and> snd s \<noteq> Inf" and i: "incongruent (cv_n ec) (map fst shares)"
    and ne: "shares \<noteq> []" and r: "0 \<le> rnd" "rnd < ec_p ec - 1"
  shows "derive_pubshare_at rnd (map fst shares) (map (\<lambda>s. aff_of (snd s)) shares) x ec = Inr (aff_of (value_at ec shares x))"
proof -
  let ?ids = "map fst shares"
  have "rmap (share_coefficient ?ids x ec) ?ids = Inr (map (coeff ec ?ids x) ?ids)"
    by (rule rmap_Inr) (rule coeff_ok(1) [OF cosignD(1) [OF c] i])
  moreover have "map (coeff ec ?ids x) ?ids = map (\<lambda>s. coeff ec ?ids x (fst s)) shares" by simp
  ultimately show ?thesis
    using combination_value [OF c m ne r, of "\<lambda>s. coeff ec ?ids x (fst s)"]
    by (simp add: derive_pubshare_at_def value_at_def del: map_map)
qed

lemma derived_thresh:
  assumes c: "cosign_curve ec" and m: "\<forall>s \<in> set shares. member ec (snd s) \<and> snd s \<noteq> Inf" and i: "incongruent (cv_n ec) (map fst shares)"
    and ne: "shares \<noteq> []" and r: "0 \<le> rnd" "rnd < ec_p ec - 1"
  shows "derive_thresh_pubkey rnd (map fst shares) (map (\<lambda>s. aff_of (snd s)) shares) ec =
    (if value_at ec shares (- 1) = Inf then Inl (BTClibEccValueError ''The threshold public key must not be the point at infinity.'')
     else cbytes (aff_of (value_at ec shares (- 1))) ec)"
proof -
  have "member ec (value_at ec shares (- 1))" using m by (intro value_at_member [OF c]) blast
  then show ?thesis using derived_pubshare [OF c m i ne r, of "- 1"] aff_of_finite by (simp add: derive_thresh_pubkey_def)
qed

lemma reworded_Inr_iff [simp]: "reworded w r = Inr x \<longleftrightarrow> r = Inr x"
  by (cases r) (auto simp: reworded_def split: py_error.splits)

lemma reworded_Inr [simp]: "reworded w (Inr x) = Inr x"
  by simp

text \<open>The shares that are present, with their points.\<close>

definition present :: "curve \<Rightarrow> octets option list \<Rightarrow> (int \<times> point) list" where
  "present ec pub_shares = concat (map (\<lambda>(i, ps). case ps of None \<Rightarrow> [] | Some b \<Rightarrow> [(int i, pt ec b)]) (enumerate 0 pub_shares))"

lemma parsed_shares:
  assumes c: "cosign_curve ec" and P: "parse_present_pub_shares k ps ec = Inr parsed"
  shows "parsed = map (\<lambda>s. (fst s, aff_of (snd s))) (concat (map (\<lambda>(i, ps). case ps of None \<Rightarrow> [] | Some b \<Rightarrow> [(int i, pt ec b)]) (enumerate k ps)))
    \<and> (\<forall>b. Some b \<in> set ps \<longrightarrow> cpoint b ec = Inr (aff_of (pt ec b)) \<and> pt ec b \<noteq> Inf)"
  using P
proof (induction ps arbitrary: k parsed)
  case (Cons x ps)
  show ?case
  proof (cases x)
    case None
    then show ?thesis using Cons by simp
  next
    case (Some b)
    then obtain A rest where A: "cpoint b ec = Inr A" "parse_present_pub_shares (Suc k) ps ec = Inr rest" "parsed = (int k, A) # rest"
      using Cons.prems by (auto simp: rbind_eq_Inr_iff)
    then show ?thesis using Cons.IH [OF A(2)] Some cpoint_pt [OF c A(1)] by auto
  qed
qed simp

lemma present_octets:
  assumes "s \<in> set (present ec ps)"
  shows "\<exists>b. Some b \<in> set ps \<and> snd s = pt ec b"
proof -
  obtain i x where x: "(i, x) \<in> set (enumerate 0 ps)" "s \<in> set (case x of None \<Rightarrow> [] | Some b \<Rightarrow> [(int i, pt ec b)])"
    using assms by (auto simp: present_def)
  moreover have "x \<in> set ps" using x(1) by (metis in_set_enumerate_eq fst_conv snd_conv add.right_neutral nth_mem diff_zero)
  ultimately show ?thesis by (cases x) auto
qed

lemma present_ids:
  "sorted (map fst (concat (map (\<lambda>(i, ps). case ps of None \<Rightarrow> [] | Some b \<Rightarrow> [(int i, pt ec b)]) (enumerate k ps))))
   \<and> distinct (map fst (concat (map (\<lambda>(i, ps). case ps of None \<Rightarrow> [] | Some b \<Rightarrow> [(int i, pt ec b)]) (enumerate k ps))))
   \<and> (\<forall>j \<in> set (map fst (concat (map (\<lambda>(i, ps). case ps of None \<Rightarrow> [] | Some b \<Rightarrow> [(int i, pt ec b)]) (enumerate k ps)))).
        int k \<le> j \<and> j < int (k + length ps))"
proof (induction ps arbitrary: k)
  case (Cons x ps)
  then show ?case using Cons [of "Suc k"] by (cases x) force+
qed simp

lemma small_incongruent: "distinct xs \<Longrightarrow> \<forall>x \<in> set xs. 0 \<le> x \<and> x < (n :: int) \<Longrightarrow> incongruent n xs"
  unfolding incongruent_def distinct_map inj_on_def by simp

lemma present_incongruent: "int (length ps) \<le> n \<Longrightarrow> incongruent n (map fst (present ec ps))"
  unfolding present_def using present_ids [where ec = ec and k = 0 and ps = ps] by (intro small_incongruent) force+

lemma checked_shares:
  assumes "check_pub_shares ids pts rnd shares ec = Inr ()" "s \<in> set shares"
  shows "derive_pubshare_at rnd ids pts (fst s) ec = Inr (snd s)"
  using assms by (induction shares) (auto simp: rbind_eq_Inr_iff split: if_splits)

text \<open>
  Accepted material: at least the threshold of shares is present, all of them are on the polynomial of the first
  ones, whose value at \<open>- 1\<close> the threshold key encodes.
\<close>

lemma validated_info:
  assumes c: "cosign_curve ec" and r: "0 \<le> rnd" "rnd < ec_p ec - 1" and n: "int (length (ti_pub_shares info)) \<le> cv_n ec"
    and V: "validate_threshold_info rnd info ec = Inr ()"
  defines "shares \<equiv> present ec (ti_pub_shares info)"
  defines "base \<equiv> take (nat (ti_t info)) shares"
  shows "length base = nat (ti_t info)" "0 < ti_t info" "\<forall>s \<in> set shares. member ec (snd s) \<and> snd s \<noteq> Inf"
    "\<forall>s \<in> set shares. value_at ec base (fst s) = snd s" "cbytes (aff_of (value_at ec base (- 1))) ec = Inr (ti_thresh_pk info)"
    "value_at ec base (- 1) \<noteq> Inf"
proof -
  let ?k = "nat (ti_t info)"
  obtain parsed where P: "1 \<le> ti_t info" "parse_present_pub_shares 0 (ti_pub_shares info) ec = Inr parsed" "\<not> int (length parsed) < ti_t info"
      "check_pub_shares (map fst (take ?k parsed)) (map snd (take ?k parsed)) rnd (drop ?k parsed) ec = Inr ()"
      "derive_thresh_pubkey rnd (map fst (take ?k parsed)) (map snd (take ?k parsed)) ec = Inr (ti_thresh_pk info)"
    using V unfolding validate_threshold_info_def Let_def by (auto simp: rbind_eq_Inr_iff split: if_splits)
  have parsed: "parsed = map (\<lambda>s. (fst s, aff_of (snd s))) shares"
    using parsed_shares [OF c P(2)] by (simp add: shares_def present_def)
  show t: "0 < ti_t info" using P(1) by simp
  show l: "length base = ?k" using P(3) parsed unfolding base_def by simp
  have "snd s \<noteq> Inf \<and> member ec (snd s)" if s: "s \<in> set shares" for s
  proof -
    obtain b where "Some b \<in> set (ti_pub_shares info)" "snd s = pt ec b"
      using present_octets [OF s [unfolded shares_def]] by blast
    then show ?thesis using parsed_shares [OF c P(2)] pt_member [OF c] by metis
  qed
  then show m: "\<forall>s \<in> set shares. member ec (snd s) \<and> snd s \<noteq> Inf" by blast
  have inc: "incongruent (cv_n ec) (map fst shares)" unfolding shares_def by (rule present_incongruent [OF n])
  have ib: "incongruent (cv_n ec) (map fst base)"
    using inc unfolding base_def incongruent_def by (metis distinct_take take_map)
  have mb: "\<forall>s \<in> set base. member ec (snd s) \<and> snd s \<noteq> Inf" using m in_set_takeD unfolding base_def by fast
  have ne: "base \<noteq> []" using l t by auto
  have B: "map fst (take ?k parsed) = map fst base" "map snd (take ?k parsed) = map (\<lambda>s. aff_of (snd s)) base"
    by (simp_all add: parsed base_def take_map)
  show "\<forall>s \<in> set shares. value_at ec base (fst s) = snd s"
  proof
    fix s assume s: "s \<in> set shares"
    show "value_at ec base (fst s) = snd s"
    proof (cases "s \<in> set base")
      case True
      then show ?thesis using value_at_share [OF c _ ib] mb by blast
    next
      case False
      have "set shares = set base \<union> set (drop ?k shares)" unfolding base_def by (metis append_take_drop_id set_append)
      then have d: "s \<in> set (drop ?k shares)" using s False by blast
      then have "(fst s, aff_of (snd s)) \<in> set (drop ?k parsed)" unfolding parsed drop_map by force
      from checked_shares [OF P(4) [unfolded B] this] have "aff_of (value_at ec base (fst s)) = aff_of (snd s)"
        using derived_pubshare [OF c mb ib ne r] by simp
      then show ?thesis using aff_of_inj value_at_member [OF c, of base] mb m s by blast
    qed
  qed
  from P(5) [unfolded B] show "cbytes (aff_of (value_at ec base (- 1))) ec = Inr (ti_thresh_pk info)" "value_at ec base (- 1) \<noteq> Inf"
    using derived_thresh [OF c mb ib ne r] by (simp_all split: if_splits)
qed

lemma any_quorum:
  assumes c: "cosign_curve ec" and r: "0 \<le> rnd" "rnd < ec_p ec - 1" "0 \<le> rnd'" "rnd' < ec_p ec - 1" and n: "int (length (ti_pub_shares info)) \<le> cv_n ec"
    and V: "validate_threshold_info rnd info ec = Inr ()"
    and Q: "set quorum \<subseteq> set (present ec (ti_pub_shares info))" "distinct (map fst quorum)" "ti_t info \<le> int (length quorum)"
  shows "derive_thresh_pubkey rnd' (map fst quorum) (map (\<lambda>s. aff_of (snd s)) quorum) ec = Inr (ti_thresh_pk info)"
proof -
  define shares where "shares = present ec (ti_pub_shares info)"
  define base where "base = take (nat (ti_t info)) shares"
  note v = validated_info [OF c r(1,2) n V, folded shares_def, folded base_def]
  have inc: "incongruent (cv_n ec) (map fst shares)" unfolding shares_def by (rule present_incongruent [OF n])
  have ib: "incongruent (cv_n ec) (map fst base)"
    using inc unfolding base_def incongruent_def by (metis distinct_take take_map)
  have mb: "\<forall>s \<in> set base. member ec (snd s)" using v(3) in_set_takeD unfolding base_def by fast
  have qs: "set quorum \<subseteq> set shares" using Q(1) by (simp add: shares_def)
  have iq: "incongruent (cv_n ec) (map fst quorum)"
  proof -
    have "inj_on (\<lambda>x. x mod cv_n ec) (fst ` set quorum)"
      using inc qs unfolding incongruent_def distinct_map by (auto intro: inj_on_subset)
    then show ?thesis using Q(2) unfolding incongruent_def distinct_map [of "\<lambda>x. x mod cv_n ec"] by simp
  qed
  have qv: "quorum = map (\<lambda>i. (i, value_at ec base i)) (map fst quorum)"
  proof -
    have "value_at ec base (fst s) = snd s" if "s \<in> set quorum" for s using v(4) qs that by blast
    then show ?thesis by (simp add: map_idI)
  qed
  have "length base \<le> length quorum" using v(1,2) Q(3) by simp
  then have "value_at ec quorum (- 1) = value_at ec base (- 1)"
    using value_at_points [OF c mb ib iq, of "- 1"] qv by simp
  moreover have "quorum \<noteq> []" using v(2) Q(3) by auto
  ultimately show ?thesis
    using derived_thresh [OF c _ iq _ r(3,4)] v(3,5,6) qs by auto
qed

text \<open>The conditions the validation checks, on the points: they are all of them.\<close>

lemma parsed_shares_exist:
  "\<forall>b. Some b \<in> set ps \<longrightarrow> (\<exists>A. cpoint b ec = Inr A) \<Longrightarrow> \<exists>parsed. parse_present_pub_shares k ps ec = Inr parsed"
proof (induction ps arbitrary: k)
  case (Cons x ps)
  then obtain parsed where p: "parse_present_pub_shares (Suc k) ps ec = Inr parsed" by fastforce
  show ?case
  proof (cases x)
    case (Some b)
    then obtain A where "cpoint b ec = Inr A" using Cons.prems by auto
    then show ?thesis using p Some by simp
  qed (use p in simp)
qed simp

lemma all_shares_check:
  "\<forall>s \<in> set shares. derive_pubshare_at rnd ids pts (fst s) ec = Inr (snd s) \<Longrightarrow> check_pub_shares ids pts rnd shares ec = Inr ()"
  by (induction shares) simp_all

definition threshold_material :: "threshold_info \<Rightarrow> curve \<Rightarrow> bool" where
  "threshold_material info ec \<longleftrightarrow>
     (let t = ti_t info; pub_shares = ti_pub_shares info; shares = present ec pub_shares; base = take (nat t) shares in
        1 \<le> t \<and> t \<le> int (length pub_shares) \<and> int (length pub_shares) \<le> MAX_PARTICIPANTS \<and> t \<le> int (length shares)
      \<and> (\<forall>b. Some b \<in> set pub_shares \<longrightarrow> (\<exists>A. cpoint b ec = Inr A))
      \<and> (\<forall>s \<in> set shares. value_at ec base (fst s) = snd s)
      \<and> value_at ec base (- 1) \<noteq> Inf \<and> cbytes (aff_of (value_at ec base (- 1))) ec = Inr (ti_thresh_pk info))"

lemma threshold_material_accepted:
  assumes c: "cosign_curve ec" and r: "0 \<le> rnd" "rnd < ec_p ec - 1" and n: "int (length (ti_pub_shares info)) \<le> cv_n ec"
    and M: "threshold_material info ec"
  shows "validate_threshold_info rnd info ec = Inr ()"
proof -
  define shares where "shares = present ec (ti_pub_shares info)"
  define base where "base = take (nat (ti_t info)) shares"
  let ?k = "nat (ti_t info)"
  have C: "1 \<le> ti_t info" "ti_t info \<le> int (length (ti_pub_shares info))" "int (length (ti_pub_shares info)) \<le> MAX_PARTICIPANTS"
      "ti_t info \<le> int (length shares)" "\<forall>b. Some b \<in> set (ti_pub_shares info) \<longrightarrow> (\<exists>A. cpoint b ec = Inr A)"
      "\<And>s. s \<in> set shares \<Longrightarrow> value_at ec base (fst s) = snd s" "value_at ec base (- 1) \<noteq> Inf"
      "cbytes (aff_of (value_at ec base (- 1))) ec = Inr (ti_thresh_pk info)"
    using M unfolding threshold_material_def Let_def shares_def [symmetric] base_def [symmetric] by blast+
  obtain parsed where P: "parse_present_pub_shares 0 (ti_pub_shares info) ec = Inr parsed"
    using parsed_shares_exist [OF C(5)] by blast
  have parsed: "parsed = map (\<lambda>s. (fst s, aff_of (snd s))) shares"
    using parsed_shares [OF c P] by (simp add: shares_def present_def)
  have m: "member ec (snd s) \<and> snd s \<noteq> Inf" if s: "s \<in> set shares" for s
  proof -
    obtain b where "Some b \<in> set (ti_pub_shares info)" "snd s = pt ec b"
      using present_octets [OF s [unfolded shares_def]] by blast
    then show ?thesis using parsed_shares [OF c P] pt_member [OF c] by metis
  qed
  have ib: "incongruent (cv_n ec) (map fst base)"
    using present_incongruent [OF n, of ec] unfolding base_def shares_def incongruent_def by (metis distinct_take take_map)
  have mb: "\<forall>s \<in> set base. member ec (snd s) \<and> snd s \<noteq> Inf" using m in_set_takeD unfolding base_def by fast
  have ne: "base \<noteq> []" using C(1,4) unfolding base_def by auto
  have B: "map fst (take ?k parsed) = map fst base" "map snd (take ?k parsed) = map (\<lambda>s. aff_of (snd s)) base"
    by (simp_all add: parsed base_def take_map)
  have "derive_pubshare_at rnd (map fst base) (map (\<lambda>s. aff_of (snd s)) base) (fst s) ec = Inr (snd s)"
    if s: "s \<in> set (drop ?k parsed)" for s
  proof -
    from in_set_dropD [OF s] obtain u where u: "u \<in> set shares" "s = (fst u, aff_of (snd u))" unfolding parsed by auto
    then show ?thesis using derived_pubshare [OF c mb ib ne r, of "fst u"] C(6) by simp
  qed
  then have "check_pub_shares (map fst base) (map (\<lambda>s. aff_of (snd s)) base) rnd (drop ?k parsed) ec = Inr ()"
    by (intro all_shares_check) blast
  moreover have "derive_thresh_pubkey rnd (map fst base) (map (\<lambda>s. aff_of (snd s)) base) ec = Inr (ti_thresh_pk info)"
    using derived_thresh [OF c mb ib ne r] C(7,8) by simp
  moreover obtain A where "cpoint (ti_thresh_pk info) ec = Inr A"
    using cbytes_point [OF c value_at_member [OF c] C(7)] mb C(8) by auto
  moreover have "\<not> int (length parsed) < ti_t info" using C(4) by (simp add: parsed)
  ultimately show ?thesis
    using C(1-3) P B by (simp add: validate_threshold_info_def Let_def)
qed

lemma threshold_material_iff:
  assumes c: "cosign_curve ec" and r: "0 \<le> rnd" "rnd < ec_p ec - 1" and n: "int (length (ti_pub_shares info)) \<le> cv_n ec"
  shows "validate_threshold_info rnd info ec = Inr () \<longleftrightarrow> threshold_material info ec"
proof
  assume V: "validate_threshold_info rnd info ec = Inr ()"
  obtain parsed where P: "1 \<le> ti_t info" "ti_t info \<le> int (length (ti_pub_shares info))" "int (length (ti_pub_shares info)) \<le> MAX_PARTICIPANTS"
      "parse_present_pub_shares 0 (ti_pub_shares info) ec = Inr parsed" "\<not> int (length parsed) < ti_t info"
    using V unfolding validate_threshold_info_def Let_def by (auto simp: rbind_eq_Inr_iff split: if_splits)
  have "length parsed = length (present ec (ti_pub_shares info))" "\<forall>b. Some b \<in> set (ti_pub_shares info) \<longrightarrow> (\<exists>A. cpoint b ec = Inr A)"
    using parsed_shares [OF c P(4)] by (auto simp: present_def)
  then show "threshold_material info ec"
    using P(1-3,5) validated_info(4-6) [OF c r n V] unfolding threshold_material_def Let_def by simp
qed (rule threshold_material_accepted [OF c r n])

section \<open>Sessions\<close>

lemma frost_session_points:
  assumes P: "parse_session_pub_shares ids n (Some bs) ec = Inr points" "length bs = length ids" and c: "cosign_curve ec"
  shows "points = map (\<lambda>b. aff_of (pt ec b)) bs \<and> (\<forall>b \<in> set bs. cpoint b ec = Inr (aff_of (pt ec b)) \<and> pt ec b \<noteq> Inf)
    \<and> (\<forall>i \<in> set ids. 0 \<le> i \<and> i < n)"
  using P
proof (induction ids arbitrary: bs points)
  case (Cons i ids)
  obtain b bs' where bs: "bs = b # bs'" "length bs' = length ids" using Cons.prems(2) by (cases bs) simp_all
  obtain A rest where A: "cpoint b ec = Inr A" "parse_session_pub_shares ids n (Some bs') ec = Inr rest" "points = A # rest" "0 \<le> i" "i < n"
    using Cons.prems(1) bs(1) by (auto simp: rbind_eq_Inr_iff split: if_splits)
  show ?case using Cons.IH [OF A(2) bs(2)] A(3-5) bs(1) cpoint_pt [OF c A(1)] A(1) by auto
qed simp

lemma distinct_of_no_duplicates: "\<not> has_duplicates ids \<Longrightarrow> distinct ids"
  by (simp add: has_duplicates_def card_distinct)

lemma validated_session:
  assumes c: "cosign_curve ec" and r: "0 \<le> rnd" "rnd < ec_p ec - 1" and n: "n \<le> cv_n ec"
    and V: "validate_session_params rnd n t ids (Some bs) pk ec = Inr ()"
  shows "length bs = length ids" "incongruent (cv_n ec) ids" "ids \<noteq> []"
    "\<forall>b \<in> set bs. cpoint b ec = Inr (aff_of (pt ec b)) \<and> pt ec b \<noteq> Inf"
    "value_at ec (zip ids (map (pt ec) bs)) (- 1) \<noteq> Inf" "cbytes (aff_of (value_at ec (zip ids (map (pt ec) bs)) (- 1))) ec = Inr pk"
proof -
  obtain points where P: "1 \<le> t" "t \<le> int (length ids)" "length bs = length ids" "parse_session_pub_shares ids n (Some bs) ec = Inr points"
      "\<not> has_duplicates ids" "derive_thresh_pubkey rnd ids points ec = Inr pk"
    using V by (auto simp: validate_session_params_def rbind_eq_Inr_iff split: if_splits)
  note p = frost_session_points [OF P(4,3) c]
  show l: "length bs = length ids" by (rule P(3))
  show i: "incongruent (cv_n ec) ids" by (rule small_incongruent) (use distinct_of_no_duplicates [OF P(5)] p n in fastforce)+
  show ne: "ids \<noteq> []" using P(1,2) by auto
  show b: "\<forall>b \<in> set bs. cpoint b ec = Inr (aff_of (pt ec b)) \<and> pt ec b \<noteq> Inf" using p by blast
  let ?s = "zip ids (map (pt ec) bs)"
  have f: "map fst ?s = ids" "map (\<lambda>s. aff_of (snd s)) ?s = points"
  proof -
    have "map snd ?s = map (pt ec) bs" using l by (intro map_snd_zip) simp
    then have "map (\<lambda>P. aff_of P) (map snd ?s) = map (\<lambda>P. aff_of P) (map (pt ec) bs)" by simp
    then show "map (\<lambda>s. aff_of (snd s)) ?s = points" using p by (simp add: comp_def)
  qed (use l in simp)
  have m: "\<forall>s \<in> set ?s. member ec (snd s) \<and> snd s \<noteq> Inf"
  proof
    fix s assume "s \<in> set ?s"
    then have "snd s \<in> set (map (pt ec) bs)" by (metis set_zip_rightD prod.collapse)
    then show "member ec (snd s) \<and> snd s \<noteq> Inf" using b pt_member [OF c] by fastforce
  qed
  have "?s \<noteq> []" using ne f(1) by auto
  from derived_thresh [OF c m _ this r] P(6) i
  show "value_at ec ?s (- 1) \<noteq> Inf" "cbytes (aff_of (value_at ec ?s (- 1))) ec = Inr pk"
    unfolding f by (simp_all split: if_splits)
qed

lemma tweaked_thresh:
  assumes c: "cosign_curve ec" and d: "draws ec rnds" and K: "thresh_pubkey_and_tweak rnds pk tweaks xs ec = Inr ctx"
  shows "tweak_inv ec (pt ec pk) ctx" "cpoint pk ec = Inr (aff_of (pt ec pk))"
proof -
  obtain Q where K': "cpoint pk ec = Inr Q"
      "rfold (\<lambda>ctx (i, t, x). tweak_step ''The tweak value is out of range.'' (rnds i) ctx t x ec) \<lparr>tw_Q = Q, tw_gacc = 1, tw_tacc = 0\<rparr>
         (enumerate 0 (zip tweaks xs)) = Inr ctx"
    using K by (auto simp: thresh_pubkey_and_tweak_def frost_apply_tweak_def tweak_ctx_init_def rbind_eq_Inr_iff)
  note q = cpoint_pt [OF c K'(1)]
  show "cpoint pk ec = Inr (aff_of (pt ec pk))" using K'(1) q(1) by simp
  show "tweak_inv ec (pt ec pk) ctx"
    by (rule tweaks_inv [OF c q(2) tweak_inv_start [OF c q(2,3)] d K'(2) [unfolded q(1)]])
qed

lemma draws_plus: "draws ec rnd \<Longrightarrow> draws ec (\<lambda>i. rnd (i + k))"
  by (simp add: draws_def)

lemma frost_values_sound:
  assumes c: "cosign_curve ec" and d: "draws ec rnd" and V: "frost_session_values rnd ctx ec hf = Inr v"
  obtains R1 R2 where "member ec R1" "member ec R2"
    "cpoint_ext (take PK_SIZE (fs_agg_nonce ctx)) ec = Inr (aff_of R1)" "cpoint_ext (drop PK_SIZE (fs_agg_nonce ctx)) ec = Inr (aff_of R2)"
    "sv_R v = (let R = ec_plus ec R1 (ec_times ec (sv_b v) R2) in if R = Inf then cv_G ec else aff_of R)"
    "tweak_inv ec (pt ec (fs_thresh_pk ctx)) \<lparr>tw_Q = sv_Q v, tw_gacc = sv_gacc v, tw_tacc = sv_tacc v\<rparr>"
    "cpoint (fs_thresh_pk ctx) ec = Inr (aff_of (pt ec (fs_thresh_pk ctx)))"
    "ssa_challenge (fs_msg ctx) (fst (sv_Q v)) (fst (sv_R v)) ec hf = Inr (sv_e v)"
    "validate_session_params (rnd 0) (fs_n ctx) (fs_t ctx) (fs_ids ctx) (fs_pub_shares ctx) (fs_thresh_pk ctx) ec = Inr ()"
proof -
  obtain u kc A1 A2 b R e where V': "validate_session_params (rnd 0) (fs_n ctx) (fs_t ctx) (fs_ids ctx) (fs_pub_shares ctx) (fs_thresh_pk ctx) ec = Inr u"
      "thresh_pubkey_and_tweak (\<lambda>i. rnd (i + 2)) (fs_thresh_pk ctx) (fs_tweaks ctx) (fs_is_xonly ctx) ec = Inr kc"
      "cpoint_ext (take PK_SIZE (fs_agg_nonce ctx)) ec = Inr A1" "cpoint_ext (drop PK_SIZE (fs_agg_nonce ctx)) ec = Inr A2"
      "final_nonce (rnd 1) A1 A2 b ec = Inr R" "ssa_challenge (fs_msg ctx) (fst (tw_Q kc)) (fst R) ec hf = Inr e"
      "v = \<lparr>sv_Q = tw_Q kc, sv_gacc = tw_gacc kc, sv_tacc = tw_tacc kc, sv_b = b, sv_R = R, sv_e = e\<rparr>"
    using V unfolding frost_session_values_def Let_def rbind_eq_Inr_iff contributed_Inr_iff by blast
  obtain R1 R2 where R: "member ec R1" "A1 = aff_of R1" "member ec R2" "A2 = aff_of R2"
    using cpoint_ext_sound [OF c V'(3)] cpoint_ext_sound [OF c V'(4)] by blast
  note k = tweaked_thresh [OF c draws_plus [OF d] V'(2)]
  have RR: "R = (let R = ec_plus ec R1 (ec_times ec b R2) in if R = Inf then cv_G ec else aff_of R)"
    using V'(5) final_nonce_value [OF c R(1,3) drawsD [OF d], of 1 b] R(2,4) by simp
  have "\<lparr>tw_Q = tw_Q kc, tw_gacc = tw_gacc kc, tw_tacc = tw_tacc kc\<rparr> = kc" by (cases kc) simp
  then have I: "tweak_inv ec (pt ec (fs_thresh_pk ctx)) \<lparr>tw_Q = tw_Q kc, tw_gacc = tw_gacc kc, tw_tacc = tw_tacc kc\<rparr>"
    using k(1) by (simp only:)
  show thesis
    by (rule that [OF R(1,3) V'(3) [unfolded R(2)] V'(4) [unfolded R(4)]]) (use V'(1,6,7) RR k(2) I in simp_all)
qed

section \<open>Partial signatures\<close>

lemma interpolating_returns:
  assumes n: "prime_int (cv_n ec)" and ids: "incongruent (cv_n ec) ids" "i \<in> set ids"
  shows "\<exists>a. derive_interpolating_value ids i ec = Inr a"
proof -
  let ?n = "cv_n ec"
  obtain U V where F: "foldl (\<lambda>(u, v) c. if c = i then (u, v) else (u * (c + 1) mod ?n, v * (c - i) mod ?n)) (1, 1) ids = (U, V)"
    by (cases "foldl (\<lambda>(u, v) c. if c = i then (u, v) else (u * (c + 1) mod ?n, v * (c - i) mod ?n)) (1, 1) ids") blast
  let ?D = "prod_list (map (\<lambda>c. c - i) (others ids i))"
  have V: "?n dvd (V - ?D)" using foldl_products [OF prime_int_pos [OF n] F] by simp
  have "lagrange_num ids i i = (- 1) ^ length (others ids i) * ?D"
  proof -
    have m: "(\<lambda>c. i - c) = (\<lambda>c. - (c - i))" by (simp add: fun_eq_iff)
    show ?thesis unfolding lagrange_num_def m by (rule prod_list_minus)
  qed
  then have "\<not> ?n dvd ?D" using lagrange_num_self [OF n ids] by (metis dvd_mult)
  then have "\<not> ?n dvd V" using V by (metis dvd_diff_commute dvd_diffD1 dvd_refl dvd_add_right_iff diff_add_cancel)
  then show ?thesis using times_inverse_returns [OF n] F by (simp add: derive_interpolating_value_def)
qed

text \<open>The coefficient of a signer.\<close>

definition signer_coeff :: "curve \<Rightarrow> int list \<Rightarrow> int \<Rightarrow> int" where
  "signer_coeff ec ids i = (case derive_interpolating_value ids i ec of Inr a \<Rightarrow> a | Inl _ \<Rightarrow> 0)"

text \<open>The octets of a share as the session has it, where it has the shares.\<close>

definition share_matches :: "frost_session \<Rightarrow> int \<Rightarrow> octets \<Rightarrow> bool" where
  "share_matches ctx i b = (case fs_pub_shares ctx of None \<Rightarrow> True | Some bs \<Rightarrow> b = bs ! index_of i (fs_ids ctx))"

lemma session_ids:
  assumes V: "validate_session_params rnd n t ids bs pk ec = Inr ()" and n: "n \<le> cv_n ec"
  shows "incongruent (cv_n ec) ids"
proof -
  obtain points where P: "parse_session_pub_shares ids n bs ec = Inr points" "\<not> has_duplicates ids"
    using V by (auto simp: validate_session_params_def rbind_eq_Inr_iff split: if_splits)
  have "\<forall>i \<in> set ids. 0 \<le> i \<and> i < n"
    using P(1) by (induction ids arbitrary: bs points) (auto simp: rbind_eq_Inr_iff split: if_splits option.splits)
  then show ?thesis using n by (intro small_incongruent distinct_of_no_duplicates [OF P(2)]) fastforce
qed

lemma frost_verify_sound:
  assumes c: "cosign_curve ec" and d: "draws ec rnd" "draws ec rnd'" and V: "frost_session_values rnd ctx ec hf = Inr v"
    and L: "frost_partial_sig_verify_raw rnd rnd' psig i pn b ctx ec hf = Inr True"
  shows "length psig = SCALAR_SIZE" "int_from_bytes psig < cv_n ec" "length pn = NONCE_SIZE"
    "cpoint (nonce_half 0 pn) ec = Inr (aff_of (pt ec (nonce_half 0 pn)))" "cpoint (nonce_half 1 pn) ec = Inr (aff_of (pt ec (nonce_half 1 pn)))"
    "i \<in> set (fs_ids ctx)" "derive_interpolating_value (fs_ids ctx) i ec = Inr (signer_coeff ec (fs_ids ctx) i)"
    "response_valid ec v (int_from_bytes psig) (pt ec (nonce_half 0 pn)) (pt ec (nonce_half 1 pn)) (signer_coeff ec (fs_ids ctx) i) (pt ec b)"
    "pt ec b \<noteq> Inf" "\<And>bs. fs_pub_shares ctx = Some bs \<Longrightarrow> cbytes (aff_of (pt ec b)) ec = Inr (bs ! index_of i (fs_ids ctx))"
proof -
  let ?R1 = "pt ec (nonce_half 0 pn)" and ?R2 = "pt ec (nonce_half 1 pn)"
  note m = pt_member [OF c]
  have split: "\<exists>P. r = Inr P \<and> f P = Inr True" if "decoded_or_false r f = Inr True" for r f
    using that by (auto simp: decoded_or_false_def split: sum.splits py_error.splits)
  obtain A1 A2 R_s P a same where L': "length psig = SCALAR_SIZE" "int_from_bytes psig < cv_n ec" "length pn = NONCE_SIZE" "i \<in> set (fs_ids ctx)"
      "cpoint (take PK_SIZE pn) ec = Inr A1" "cpoint (drop PK_SIZE pn) ec = Inr A2" "nonce_point (rnd' 2) v A1 A2 ec = Inr R_s"
      "cpoint b ec = Inr P" "(case fs_pub_shares ctx of None \<Rightarrow> Inr True
                    | Some bs \<Rightarrow> rbind (cbytes P ec) (\<lambda>pb. Inr (pb = bs ! index_of i (fs_ids ctx)))) = Inr same" "same"
      "derive_interpolating_value (fs_ids ctx) i ec = Inr a" "partial_equation rnd' v (int_from_bytes psig) R_s a P ec = Inr True"
    using L unfolding frost_partial_sig_verify_raw_def V rbind_simps Let_def
    by (auto simp: bytes_from_octets_def rbind_eq_Inr_iff split: if_splits dest!: split)
  have hh: "nonce_half 0 pn = take PK_SIZE pn" "nonce_half 1 pn = drop PK_SIZE pn" using nonce_halves [OF L'(3)] by simp_all
  have A: "cpoint (nonce_half 0 pn) ec = Inr (aff_of ?R1)" "A1 = aff_of ?R1" "cpoint (nonce_half 1 pn) ec = Inr (aff_of ?R2)" "A2 = aff_of ?R2"
    using cpoint_pt(1) [OF c L'(5)] cpoint_pt(1) [OF c L'(6)] L'(5,6) hh by simp_all
  note b = cpoint_pt [OF c L'(8)]
  have a: "a = signer_coeff ec (fs_ids ctx) i" using L'(11) by (simp add: signer_coeff_def)
  have R_s: "R_s = aff_of (ec_times ec (nonce_sign v) (ec_plus ec ?R1 (ec_times ec (sv_b v) ?R2)))"
    using trans [OF sym [OF L'(7) [unfolded A(2,4)]] nonce_point_value [OF c m m drawsD [OF d(2)]]] by blast
  have "partial_equation rnd' v (int_from_bytes psig) R_s a P ec =
      Inr (response_valid ec v (int_from_bytes psig) ?R1 ?R2 a (pt ec b))"
    unfolding response_valid_def R_s b(1) by (rule partial_equation_iff [OF c _ m d(2)]) (intro member_closed m)
  from trans [OF sym [OF L'(12)] this] have "response_valid ec v (int_from_bytes psig) ?R1 ?R2 a (pt ec b)" by blast
  then show "response_valid ec v (int_from_bytes psig) ?R1 ?R2 (signer_coeff ec (fs_ids ctx) i) (pt ec b)" using a by simp
  show "length psig = SCALAR_SIZE" "int_from_bytes psig < cv_n ec" "length pn = NONCE_SIZE" "i \<in> set (fs_ids ctx)"
    "cpoint (nonce_half 0 pn) ec = Inr (aff_of ?R1)" "cpoint (nonce_half 1 pn) ec = Inr (aff_of ?R2)"
    "derive_interpolating_value (fs_ids ctx) i ec = Inr (signer_coeff ec (fs_ids ctx) i)" "pt ec b \<noteq> Inf"
    using L'(1-4,11) A a b(3) by simp_all
  show "cbytes (aff_of (pt ec b)) ec = Inr (bs ! index_of i (fs_ids ctx))" if "fs_pub_shares ctx = Some bs" for bs
    using L'(9,10) that b(1) by (auto simp: rbind_eq_Inr_iff)
qed

lemma frost_verify_complete:
  assumes c: "cosign_curve ec" and d: "draws ec rnd" "draws ec rnd'" and V: "frost_session_values rnd ctx ec hf = Inr v"
    and R: "length psig = SCALAR_SIZE" "int_from_bytes psig < cv_n ec" "length pn = NONCE_SIZE"
      "cpoint (nonce_half 0 pn) ec = Inr (aff_of (pt ec (nonce_half 0 pn)))" "cpoint (nonce_half 1 pn) ec = Inr (aff_of (pt ec (nonce_half 1 pn)))"
      "i \<in> set (fs_ids ctx)" "derive_interpolating_value (fs_ids ctx) i ec = Inr a"
      "response_valid ec v (int_from_bytes psig) (pt ec (nonce_half 0 pn)) (pt ec (nonce_half 1 pn)) a (pt ec b)"
      "cpoint b ec = Inr (aff_of (pt ec b))" "cbytes (aff_of (pt ec b)) ec = Inr b" "share_matches ctx i b"
  shows "frost_partial_sig_verify_raw rnd rnd' psig i pn b ctx ec hf = Inr True"
proof -
  let ?R1 = "pt ec (nonce_half 0 pn)" and ?R2 = "pt ec (nonce_half 1 pn)"
  let ?R = "ec_times ec (nonce_sign v) (ec_plus ec ?R1 (ec_times ec (sv_b v) ?R2))"
  note m = pt_member [OF c]
  have "nonce_point (rnd' 2) v (aff_of ?R1) (aff_of ?R2) ec = Inr (aff_of ?R)"
    by (rule nonce_point_value [OF c m m drawsD [OF d(2)]])
  moreover have "partial_equation rnd' v (int_from_bytes psig) (aff_of ?R) a (aff_of (pt ec b)) ec =
      Inr (response_valid ec v (int_from_bytes psig) ?R1 ?R2 a (pt ec b))"
    unfolding response_valid_def by (rule partial_equation_iff [OF c _ m d(2)]) (intro member_closed m)
  moreover have "(case fs_pub_shares ctx of None \<Rightarrow> Inr True
      | Some bs \<Rightarrow> rbind (cbytes (aff_of (pt ec b)) ec) (\<lambda>pb. Inr (pb = bs ! index_of i (fs_ids ctx)))) = (Inr True :: bool result)"
    using R(10,11) by (auto simp: share_matches_def split: option.splits)
  ultimately show ?thesis
    using R nonce_halves [OF R(3)]
    by (simp add: frost_partial_sig_verify_raw_def V bytes_from_octets_def decoded_or_false_def)
qed

lemma frost_signed_verifies:
  assumes c: "cosign_curve ec" and d: "draws ec rnd" "draws ec rnd'" "0 \<le> r" "r < ec_p ec - 1"
    and N: "length pn = NONCE_SIZE" "cpoint (nonce_half 0 pn) ec = Inr (aff_of (ec_times ec (nonce_scalar 0 sn) (gen ec)))"
      "cpoint (nonce_half 1 pn) ec = Inr (aff_of (ec_times ec (nonce_scalar 1 sn) (gen ec)))"
    and S: "snd (frost_sign rnd r sn share i ctx ec hf) = Inr psig"
  shows "\<exists>b. cbytes (aff_of (ec_times ec (int_from_bytes share) (gen ec))) ec = Inr b
    \<and> frost_partial_sig_verify_raw rnd rnd' psig i pn b ctx ec hf = Inr True"
proof -
  let ?d = "int_from_bytes share"
  obtain v where V: "frost_session_values rnd ctx ec hf = Inr v" "frost_respond r v sn share i ctx ec = Inr psig"
    using S by (cases "frost_session_values rnd ctx ec hf") (simp_all add: frost_sign_def)
  note k = cosignD [OF c]
  obtain b a where a: "0 < ?d" "?d < cv_n ec" "cbytes (aff_of (ec_times ec ?d (gen ec))) ec = Inr b" "i \<in> set (fs_ids ctx)"
      "share_matches ctx i b" "derive_interpolating_value (fs_ids ctx) i ec = Inr a"
      "partial_response v (nonce_scalar 0 sn) (nonce_scalar 1 sn) a ?d ec = Inr psig"
    using V(2) mult_generator(2) [OF k(1) d(3,4), of ?d]
    by (auto simp: frost_respond_def share_matches_def rbind_eq_Inr_iff assert_fresh_nonce_def bytes_from_octets_def Let_def
        split: if_splits option.splits)
  note p = partial_response_valid [OF c a(7)]
  have eq: "pt ec bs = ec_times ec j (gen ec)" if "cpoint bs ec = Inr (aff_of (ec_times ec j (gen ec)))" for bs j
    using cpoint_pt(1,2) [OF c that] aff_of_inj member_closed(3) [OF k(9)] by metis
  have "cpoint b ec = Inr (aff_of (ec_times ec ?d (gen ec)))"
    using cbytes_point [OF c member_closed(3) [OF k(9)] gen_times_finite [OF k(1) a(1,2)]] a(3) by auto
  then have "frost_partial_sig_verify_raw rnd rnd' psig i pn b ctx ec hf = Inr True"
    by (intro frost_verify_complete [OF c d(1,2) V(1) p(1,2) N(1) _ _ a(4,6)])
      (use p(3) N eq [OF N(2)] eq [OF N(3)] eq a(3,5) in simp_all)
  then show ?thesis using a(3) by blast
qed

lemma frost_nonce_layout:
  assumes c: "cosign_curve ec" and d: "draws ec rnd" and N: "frost_nonce_gen rnd rand share pub_share xonly msg extra ec hf = Inr (sn, pn)"
  shows "length sn = 2 * SCALAR_SIZE" "length pn = NONCE_SIZE"
    "cpoint (nonce_half 0 pn) ec = Inr (aff_of (ec_times ec (nonce_scalar 0 sn) (gen ec)))"
    "cpoint (nonce_half 1 pn) ec = Inr (aff_of (ec_times ec (nonce_scalar 1 sn) (gen ec)))"
proof -
  obtain k_1 k_2 where b: "public_nonce rnd k_1 k_2 ec = Inr pn" "secret_scalars k_1 k_2 = Inr sn"
    using N unfolding frost_nonce_gen_def Let_def rbind_eq_Inr_iff by blast
  show "length sn = 2 * SCALAR_SIZE" "length pn = NONCE_SIZE"
    "cpoint (nonce_half 0 pn) ec = Inr (aff_of (ec_times ec (nonce_scalar 0 sn) (gen ec)))"
    "cpoint (nonce_half 1 pn) ec = Inr (aff_of (ec_times ec (nonce_scalar 1 sn) (gen ec)))"
    using public_nonce_sound [OF c d b(1)] secret_scalars_read(1) [OF b(2)] secret_scalars_read(2,3) [OF b(2), of "[]"] by simp_all
qed

section \<open>A nonce signs once\<close>

text \<open>The calls of \<^verbatim>\<open>sign\<close> on one buffer, one after the other.\<close>

record frost_call =
  fc_rnd :: "nat \<Rightarrow> int"
  fc_rnd' :: int
  fc_share :: octets
  fc_id :: int
  fc_session :: frost_session

definition frost_step :: "curve \<Rightarrow> hash_fn \<Rightarrow> octets \<Rightarrow> frost_call \<Rightarrow> octets \<times> octets result" where
  "frost_step ec hf sec_nonce call =
     frost_sign (fc_rnd call) (fc_rnd' call) sec_nonce (fc_share call) (fc_id call) (fc_session call) ec hf"

definition frost_calls :: "octets \<Rightarrow> frost_call list \<Rightarrow> curve \<Rightarrow> hash_fn \<Rightarrow> octets result list" where
  "frost_calls sec_nonce calls ec hf = run_calls (frost_step ec hf) sec_nonce calls"

interpretation frost_nonce: single_use "frost_step ec hf" nonce_spent for ec hf
proof
  fix n and c :: frost_call
  consider (e) e where "frost_session_values (fc_rnd c) (fc_session c) ec hf = Inl e"
    | (v) v where "frost_session_values (fc_rnd c) (fc_session c) ec hf = Inr v"
    by (cases "frost_session_values (fc_rnd c) (fc_session c) ec hf") blast+
  note session = this
  show "nonce_spent (fst (frost_step ec hf n c))" if r: "snd (frost_step ec hf n c) = Inr r" for r
    using session r by cases (simp_all add: frost_step_def frost_sign_def wiped_nonce_spent)
  show "\<exists>e. snd (frost_step ec hf n c) = Inl e" if n: "nonce_spent n"
    using session spent_nonce_refused [OF n] by cases (simp_all add: frost_step_def frost_sign_def frost_respond_def)
  show "nonce_spent (fst (frost_step ec hf n c))" if n: "nonce_spent n"
    using session n by cases (simp_all add: frost_step_def frost_sign_def wiped_nonce_spent)
qed

section \<open>The sum of the partial signatures\<close>

record frost_part =
  fp_id :: int
  fp_psig :: octets
  fp_nonce :: octets
  fp_share :: octets

definition frost_complete ::
  "(nat \<Rightarrow> int) \<Rightarrow> frost_session \<Rightarrow> frost_part list \<Rightarrow> session_values \<Rightarrow> curve \<Rightarrow> hash_fn \<Rightarrow> bool" where
  "frost_complete rnd ctx parts v ec hf \<longleftrightarrow>
     frost_session_values rnd ctx ec hf = Inr v \<and> frost_nonce_agg (map fp_nonce parts) ec = Inr (fs_agg_nonce ctx)
   \<and> fs_ids ctx = map fp_id parts \<and> fs_pub_shares ctx = Some (map fp_share parts) \<and> fs_n ctx \<le> cv_n ec \<and> sv_R v \<noteq> cv_G ec
   \<and> list_all (\<lambda>x. frost_partial_sig_verify_raw rnd rnd (fp_psig x) (fp_id x) (fp_nonce x) (fp_share x) ctx ec hf = Inr True) parts"

lemma frost_signature_verifies:
  assumes c: "cosign_curve ec" and d: "draws ec rnd" and M: "frost_complete rnd ctx parts v ec hf"
    and key: "x_from_bip340pub_key key ec = Inr (fst (sv_Q v))"
  shows "\<exists>sg. frost_partial_sig_agg rnd (map fp_psig parts) ctx ec hf = Inr sg \<and> ssa_verify_msg r (fs_msg ctx) key sg hf None None = Some (Inr True)"
proof -
  note n = curve_n [OF cosignD(1) [OF c]] and m = pt_member [OF c] and v = cosignD(1) [OF c]
  let ?R1 = "\<lambda>x. pt ec (nonce_half 0 (fp_nonce x))" and ?R2 = "\<lambda>x. pt ec (nonce_half 1 (fp_nonce x))"
  let ?a = "\<lambda>x. signer_coeff ec (fs_ids ctx) (fp_id x)" and ?P = "\<lambda>x. pt ec (fp_share x)" and ?s = "\<lambda>x. int_from_bytes (fp_psig x)"
  let ?S1 = "psum ec (map ?R1 parts)" and ?S2 = "psum ec (map ?R2 parts)" and ?Q0 = "pt ec (fs_thresh_pk ctx)"
  have V: "frost_session_values rnd ctx ec hf = Inr v" and N: "frost_nonce_agg (map fp_nonce parts) ec = Inr (fs_agg_nonce ctx)"
    and I: "fs_ids ctx = map fp_id parts" and B: "fs_pub_shares ctx = Some (map fp_share parts)" and nn: "fs_n ctx \<le> cv_n ec" and G: "sv_R v \<noteq> cv_G ec"
    and P: "\<And>x. x \<in> set parts \<Longrightarrow> frost_partial_sig_verify_raw rnd rnd (fp_psig x) (fp_id x) (fp_nonce x) (fp_share x) ctx ec hf = Inr True"
    using M by (auto simp: frost_complete_def list_all_iff)
  obtain R1 R2 where W: "member ec R1" "member ec R2"
      "cpoint_ext (take PK_SIZE (fs_agg_nonce ctx)) ec = Inr (aff_of R1)" "cpoint_ext (drop PK_SIZE (fs_agg_nonce ctx)) ec = Inr (aff_of R2)"
      "sv_R v = (let R = ec_plus ec R1 (ec_times ec (sv_b v) R2) in if R = Inf then cv_G ec else aff_of R)"
      "tweak_inv ec ?Q0 \<lparr>tw_Q = sv_Q v, tw_gacc = sv_gacc v, tw_tacc = sv_tacc v\<rparr>"
      "cpoint (fs_thresh_pk ctx) ec = Inr (aff_of ?Q0)"
      "ssa_challenge (fs_msg ctx) (fst (sv_Q v)) (fst (sv_R v)) ec hf = Inr (sv_e v)"
      "validate_session_params (rnd 0) (fs_n ctx) (fs_t ctx) (fs_ids ctx) (fs_pub_shares ctx) (fs_thresh_pk ctx) ec = Inr ()"
    by (rule frost_values_sound [OF c d V])
  have S: "member ec ?S1" "member ec ?S2" using m by (auto intro!: psum_member [OF c])
  have eq: "R1 = ?S1" "R2 = ?S2"
    using aggregate_nonces_sound(2,3) [OF c N [unfolded frost_nonce_agg_def]] W(3,4) aff_of_inj [OF W(1) S(1)] aff_of_inj [OF W(2) S(2)]
    by (simp_all add: comp_def)
  define R where "R = ec_plus ec ?S1 (ec_times ec (sv_b v) ?S2)"
  have Rm: "member ec R" unfolding R_def by (intro member_closed S)
  have R: "member ec R" "R \<noteq> Inf" "sv_R v = aff_of R"
    using Rm W(5) G unfolding eq R_def [symmetric] Let_def by (auto split: if_splits)
  have Q0: "?Q0 = ec_lc ec (map (\<lambda>x. (?a x, ?P x)) parts)"
  proof -
    note w = validated_session [OF c drawsD [OF d] nn W(9) [unfolded B]]
    let ?sh = "zip (fs_ids ctx) (map (pt ec) (map fp_share parts))"
    have sh: "?sh = map (\<lambda>x. (fp_id x, ?P x)) parts" unfolding I by (induction parts) simp_all
    have ids: "map fst (map (\<lambda>x. (fp_id x, ?P x)) parts) = fs_ids ctx" by (simp add: I)
    have mv: "member ec (value_at ec ?sh (- 1))" using m unfolding sh by (intro value_at_member [OF c]) auto
    have "cpoint (fs_thresh_pk ctx) ec = Inr (aff_of (value_at ec ?sh (- 1)))"
      using cbytes_point [OF c mv w(5)] w(6) by auto
    then have "?Q0 = value_at ec ?sh (- 1)" using W(7) aff_of_inj [OF m mv] by simp
    also have "\<dots> = ec_lc ec (map (\<lambda>x. (coeff ec (fs_ids ctx) (- 1) (fp_id x), ?P x)) parts)"
      unfolding sh value_at_def ids by (simp add: comp_def)
    also have "\<dots> = ec_lc ec (map (\<lambda>x. (?a x, ?P x)) parts)"
    proof (rule lc_cong, intro ballI conjI)
      fix x assume x: "x \<in> set parts"
      then have i: "fp_id x \<in> set (fs_ids ctx)" by (simp add: I)
      show "member ec (?P x)" by (rule m)
      show "cv_n ec dvd (coeff ec (fs_ids ctx) (- 1) (fp_id x) - ?a x)"
        by (rule lagrange_ok_unique [OF n(1) w(2) i coeff_ok(2) [OF v w(2) i]])
          (rule interpolating_value_ok [OF frost_verify_sound(7) [OF c d d V P [OF x]] n(2)])
    qed
    finally show ?thesis .
  qed
  have ver: "length (fp_psig x) = SCALAR_SIZE \<and> ?s x < cv_n ec \<and> response_valid ec v (?s x) (?R1 x) (?R2 x) (?a x) (?P x)"
    if "x \<in> set parts" for x
    using frost_verify_sound(1,2,8) [OF c d d V P [OF that]] by blast
  have E: "ec_times ec (sum_list (map ?s parts)) (gen ec) = ec_plus ec (ec_times ec (nonce_sign v) R)
      (ec_times ec (sv_e v * key_sign v ec * sv_gacc v) ?Q0)"
    unfolding Q0 R_def using responses_sum [OF c, of parts ?R1 ?R2 ?P v ?s ?a] m ver by blast
  have run: "rfold (add_psig ec) s0 (enumerate k (map fp_psig ps)) = Inr (foldl (\<lambda>s x. (s + ?s x) mod cv_n ec) s0 ps)"
    if "set ps \<subseteq> set parts" for ps s0 k
    using that ver by (induction ps arbitrary: s0 k) (simp_all add: add_psig_def bytes_from_octets_def Let_def not_le)
  define s0 where "s0 = foldl (\<lambda>s x. (s + ?s x) mod cv_n ec) 0 parts"
  define s where "s = (s0 + sv_e v * key_sign v ec * sv_tacc v) mod cv_n ec"
  have r: "rfold (add_psig ec) 0 (enumerate 0 (map fp_psig parts)) = Inr s0" using run [of parts 0 0] by (simp add: s0_def)
  have "cv_n ec dvd (s0 - sum_list (map ?s parts))" using aggregated_scalars [OF r n(2)] by (simp add: comp_def)
  then have "cv_n ec dvd ((s - (s0 + sv_e v * key_sign v ec * sv_tacc v)) + (s0 - sum_list (map ?s parts)))"
    unfolding s_def by (intro dvd_add mod_dvd_iff n)
  then have s: "cv_n ec dvd (s - (sum_list (map ?s parts) + sv_e v * key_sign v ec * sv_tacc v))" by (simp add: algebra_simps)
  obtain Q where Q: "member ec Q" "Q \<noteq> Inf" "sv_Q v = aff_of Q"
  proof
    show "member ec (ec_plus ec (ec_times ec (sv_gacc v) ?Q0) (ec_times ec (sv_tacc v) (gen ec)))"
      by (intro member_closed m cosignD(9) [OF c])
  qed (use W(6) in \<open>simp_all add: tweak_inv_def\<close>)
  have F: "ec_times ec s (gen ec) = ec_plus ec (ec_times ec (nonce_sign v) R) (ec_times ec (sv_e v) (ec_times ec (key_sign v ec) Q))"
    by (rule tweaked_sum [OF c W(6) m member_closed(3) [OF R(1)] Q(1,3) E s])
  have sr: "0 \<le> s" "s < cv_n ec" using n(2) by (simp_all add: s_def)
  from cosigned_accepted [OF c Q R F sr W(8) key]
  obtain sg where sg: "init_ssa_sig (fst (sv_R v)) s ec True = Inr sg" "ssa_verify_msg r (fs_msg ctx) key sg hf None None = Some (Inr True)" by blast
  have "frost_partial_sig_agg rnd (map fp_psig parts) ctx ec hf = Inr sg"
    using V I r sg(1) by (simp add: frost_partial_sig_agg_def aggregate_psigs_def s_def)
  then show ?thesis using sg(2) by blast
qed

end
