(* ===== verification/Threshold_Properties.thy ===== *)
theory Threshold_Properties
  imports Test_Cosigning Frost_Correct
begin

text \<open>The properties of the threshold signatures of BIP 445.\<close>

section \<open>An example: two signers of three\<close>

definition info32 :: threshold_info where
  "info32 = \<lparr>ti_t = 2, ti_thresh_pk = octets32 3 12, ti_pub_shares = [Some (octets32 2 12), Some (octets32 2 18), Some (octets32 2 4)]\<rparr>"

definition threshold32 :: frost_session where
  "threshold32 =
     \<lparr>fs_n = 3, fs_t = 2, fs_ids = [0, 2], fs_pub_shares = Some [octets32 2 12, octets32 2 4], fs_thresh_pk = octets32 3 12,
      fs_agg_nonce = octets32 2 12 @ octets32 2 12, fs_tweaks = [scalar32 4], fs_is_xonly = [True], fs_msg = [0]\<rparr>"

definition threshold_values32 :: session_values where
  "threshold_values32 = \<lparr>sv_Q = (4, 3), sv_gacc = 12, sv_tacc = 4, sv_b = 11, sv_R = (12, 1), sv_e = 6\<rparr>"

definition frost_parts32 :: "frost_part list" where
  "frost_parts32 =
     [\<lparr>fp_id = 0, fp_psig = scalar32 8, fp_nonce = octets32 2 8 @ octets32 3 9, fp_share = octets32 2 12\<rparr>,
      \<lparr>fp_id = 2, fp_psig = scalar32 4, fp_nonce = octets32 2 4 @ octets32 3 9, fp_share = octets32 2 4\<rparr>]"

lemma info32_valid: "validate_threshold_info 1 info32 ec32 = Inr ()"
  unfolding ec32_def ec19_def by code_simp

lemma threshold32_values: "frost_session_values (\<lambda>_. 1) threshold32 ec32 co_hash = Inr threshold_values32"
  unfolding ec32_def ec19_def by code_simp

lemma threshold32_complete: "frost_complete (\<lambda>_. 1) threshold32 frost_parts32 threshold_values32 ec32 co_hash"
proof -
  have "frost_nonce_agg (map fp_nonce frost_parts32) ec32 = Inr (fs_agg_nonce threshold32)"
    "fs_ids threshold32 = map fp_id frost_parts32" "fs_pub_shares threshold32 = Some (map fp_share frost_parts32)"
    "fs_n threshold32 \<le> cv_n ec32" "sv_R threshold_values32 \<noteq> cv_G ec32"
    "list_all (\<lambda>x. frost_partial_sig_verify_raw (\<lambda>_. 1) (\<lambda>_. 1) (fp_psig x) (fp_id x) (fp_nonce x) (fp_share x) threshold32 ec32 co_hash
       = Inr True) frost_parts32"
    unfolding ec32_def ec19_def by code_simp+
  then show ?thesis using threshold32_values unfolding frost_complete_def by blast
qed

section \<open>Properties\<close>

text \<open>
  C31: The validation of the public key material accepts exactly the material that is right: the threshold within the
  number of participants and that within the limit, every share that is present a point, enough of them, all on
  the polynomial of the first, and the threshold key the encoding of its finite value at minus one.
\<close>

theorem threshold_material_checked_exactly:
  assumes "cosign_curve ec" "0 \<le> rnd" "rnd < ec_p ec - 1" "int (length (ti_pub_shares info)) \<le> cv_n ec"
  shows "validate_threshold_info rnd info ec = Inr () \<longleftrightarrow> threshold_material info ec"
  by (rule threshold_material_iff [OF assms])

theorem threshold_material_checked_exactly_witness: "threshold_material info32 ec32"
  using threshold_material_checked_exactly [OF ec32_cosign, of 1 info32] info32_valid by (simp add: info32_def)

text \<open>
  C32: Material that was accepted gives the threshold key from any quorum: the shares of any participants, in any
  order, as many as the threshold or more, derive the same key.
\<close>

theorem every_quorum_derives_the_threshold_key:
  assumes "cosign_curve ec" "0 \<le> rnd" "rnd < ec_p ec - 1" "0 \<le> rnd'" "rnd' < ec_p ec - 1" "int (length (ti_pub_shares info)) \<le> cv_n ec"
    and "validate_threshold_info rnd info ec = Inr ()"
    and "set quorum \<subseteq> set (present ec (ti_pub_shares info))" "distinct (map fst quorum)" "ti_t info \<le> int (length quorum)"
  shows "derive_thresh_pubkey rnd' (map fst quorum) (map (\<lambda>s. aff_of (snd s)) quorum) ec = Inr (ti_thresh_pk info)"
  by (rule any_quorum [OF assms])

theorem every_quorum_derives_the_threshold_key_witness:
  "derive_thresh_pubkey 1 [2, 1] [(4, 16), (18, 18)] ec32 = Inr (octets32 3 12)"
proof -
  have p: "present ec32 (ti_pub_shares info32) = [(0, Pt 12 18), (1, Pt 18 18), (2, Pt 4 16)]"
    unfolding ec32_def ec19_def by code_simp
  have "derive_thresh_pubkey 1 (map fst [(2 :: int, Pt 4 16), (1, Pt 18 18)]) (map (\<lambda>s. aff_of (snd s)) [(2 :: int, Pt 4 16), (1, Pt 18 18)]) ec32
      = Inr (ti_thresh_pk info32)"
    by (rule every_quorum_derives_the_threshold_key [OF ec32_cosign _ _ _ _ _ info32_valid]) (simp_all add: p, simp_all add: info32_def)
  then show ?thesis by (simp add: info32_def)
qed

text \<open>
  C33: A partial signature that is made with a generated nonce verifies against the public nonce and the public share
  of the signer, in any session.
\<close>

theorem frost_partial_signatures_verify:
  assumes "cosign_curve ec" "draws ec rnd" "draws ec rnd'" "draws ec rnd''" "0 \<le> r" "r < ec_p ec - 1"
    and "frost_nonce_gen rnd'' rand sec pub xonly msg extra ec hf = Inr (sec_nonce, pub_nonce)"
    and "snd (frost_sign rnd r sec_nonce share i ctx ec hf) = Inr psig"
  shows "\<exists>b. cbytes (aff_of (ec_times ec (int_from_bytes share) (gen ec))) ec = Inr b
    \<and> frost_partial_sig_verify_raw rnd rnd' psig i pub_nonce b ctx ec hf = Inr True"
  using frost_signed_verifies [OF assms(1-3,5,6) _ _ _ assms(8)] frost_nonce_layout [OF assms(1,4,7)] by metis

theorem frost_partial_signatures_verify_witness:
  "\<exists>b. cbytes (aff_of (ec_times ec32 (int_from_bytes (scalar32 8)) (gen ec32))) ec32 = Inr b
    \<and> frost_partial_sig_verify_raw (\<lambda>_. 1) (\<lambda>_. 1) (scalar32 8) 0 (octets32 2 8 @ octets32 3 9) b threshold32 ec32 co_hash = Inr True"
proof (rule frost_partial_signatures_verify [OF ec32_cosign ec32_draws ec32_draws ec32_draws])
  show "frost_nonce_gen (\<lambda>_. 1) (replicate 32 0) None None None None None ec32 co_hash
      = Inr (scalar32 7 @ scalar32 4, octets32 2 8 @ octets32 3 9)"
    unfolding ec32_def ec19_def by code_simp
  show "snd (frost_sign (\<lambda>_. 1) 1 (scalar32 7 @ scalar32 4) (scalar32 8) 0 threshold32 ec32 co_hash) = Inr (scalar32 8)"
    unfolding ec32_def ec19_def by code_simp
qed simp_all

text \<open>
  C34: Partial signatures that pass, of a session that names the shares of its signers and whose aggregate nonce is
  that of their nonces, add up to a signature that the verifier of BIP 340 accepts under the tweaked threshold
  key, where the final nonce is not the stand-in for the infinity.
\<close>

theorem frost_signature_verifies_bip340:
  assumes "cosign_curve ec" "draws ec rnd" "frost_complete rnd ctx parts v ec hf"
    and "x_from_bip340pub_key key ec = Inr (fst (sv_Q v))"
  shows "\<exists>sg. frost_partial_sig_agg rnd (map fp_psig parts) ctx ec hf = Inr sg
    \<and> ssa_verify_msg r (fs_msg ctx) key sg hf None None = Some (Inr True)"
  by (rule frost_signature_verifies [OF assms])

theorem frost_signature_verifies_bip340_witness:
  "\<exists>sg. frost_partial_sig_agg (\<lambda>_. 1) (map fp_psig frost_parts32) threshold32 ec32 co_hash = Inr sg
    \<and> ssa_verify_msg 1 (fs_msg threshold32) (X_Int 4) sg co_hash None None = Some (Inr True)"
  by (rule frost_signature_verifies_bip340 [OF ec32_cosign ec32_draws threshold32_complete]) (simp_all add: threshold_values32_def)

text \<open>A secret nonce signs at most once, whatever the sequence of calls on its buffer.\<close>

theorem frost_nonce_signs_at_most_once: "length (filter is_ok (frost_calls sec_nonce calls ec hf)) \<le> 1"
  unfolding frost_calls_def by (rule frost_nonce.at_most_one)

end
