(* ===== verification/Rangeproof.thy ===== *)
theory Rangeproof
  imports Borromean Pedersen
begin

unbundle bit_operations_syntax

text \<open>
  Model of \<^verbatim>\<open>src/btclib_ecc/ecc/rangeproof.py\<close>: proofs that a commitment opens to a value of a range. The
  value is written in base four, one Borromean ring per digit; the blinding factors and the scalars of the rings
  come from a generator that the prover can run again to read the value and a message back. \<open>ec\<close> and \<open>hf\<close> stand
  for \<^verbatim>\<open>secp256k1\<close> and \<^verbatim>\<open>sha256\<close>; the random factors of the blinded operations are arguments. The values are
  Python integers, with the bounds of 64 bits where the code states them.
\<close>

definition HAS_NZ_RANGE :: int where "HAS_NZ_RANGE = 64"
definition HAS_MIN :: int where "HAS_MIN = 32"
definition RP_RESERVED :: int where "RP_RESERVED = 128"
definition EXP_MASK :: int where "EXP_MASK = 31"
definition MAX_EXP :: int where "MAX_EXP = 18"
definition MAX_MANTISSA :: int where "MAX_MANTISSA = 64"
definition UINT64_MAX :: int where "UINT64_MAX = 2 ^ 64 - 1"
definition INT64_MAX :: int where "INT64_MAX = 2 ^ 63 - 1"
definition MIN_VALUE_SIZE :: nat where "MIN_VALUE_SIZE = 8"
definition RP_NONCE_SIZE :: nat where "RP_NONCE_SIZE = 32"
definition RING_STRIDE :: nat where "RING_STRIDE = 4"

section \<open>The header\<close>

definition assert_valid_mantissa :: "int \<Rightarrow> unit result" where
  "assert_valid_mantissa mantissa =
     (if \<not> (1 \<le> mantissa \<and> mantissa \<le> MAX_MANTISSA) then Inl (BTClibEccValueError ''rangeproof mantissa not in 1..64'') else Inr ())"

definition mantissa_checked :: "int \<Rightarrow> unit result" where
  "mantissa_checked mantissa = (if mantissa \<noteq> 0 then assert_valid_mantissa mantissa else Inr ())"

definition rp_rsizes :: "int \<Rightarrow> nat list result" where
  "rp_rsizes mantissa =
     rbind (mantissa_checked mantissa) (\<lambda>_.
       if mantissa = 0 then Inr [1]
       else Inr (replicate (nat (mantissa div 2)) 4 @ (if mantissa mod 2 \<noteq> 0 then [2] else [])))"

definition sign_octets :: "nat \<Rightarrow> nat" where
  "sign_octets rings = (rings + 6) div 8"

text \<open>The loop that scales the ceiling of the mantissa, which refuses what would not fit.\<close>

primrec scaled_up :: "nat \<Rightarrow> int \<Rightarrow> int result" where
  "scaled_up 0 v = Inr v"
| "scaled_up (Suc k) v =
     (if v > UINT64_MAX div 10 then Inl (BTClibEccValueError ''rangeproof max value overflows at exponent'')
      else scaled_up k (v * 10))"

definition rp_max_value :: "int \<Rightarrow> int \<Rightarrow> int \<Rightarrow> int result" where
  "rp_max_value exp mantissa min_value =
     rbind (mantissa_checked mantissa) (\<lambda>_.
     rbind (scaled_up (nat (max exp 0)) (if mantissa \<noteq> 0 then drop_bit (nat (64 - mantissa)) UINT64_MAX else 0)) (\<lambda>v.
       if v > UINT64_MAX - min_value then Inl (BTClibEccValueError ''rangeproof max value overflows past min value'')
       else Inr (v + min_value)))"

definition or_zero :: "int option \<Rightarrow> int" where
  "or_zero x = (case x of None \<Rightarrow> 0 | Some v \<Rightarrow> v)"

definition assert_valid_header :: "int \<Rightarrow> int \<Rightarrow> int option \<Rightarrow> unit result" where
  "assert_valid_header exp mantissa min_value =
     rbind (if mantissa \<noteq> 0
            then if \<not> (0 \<le> exp \<and> exp \<le> MAX_EXP) then Inl (BTClibEccValueError ''rangeproof exponent not in 0..18'') else Inr ()
            else if exp \<noteq> - 1 then Inl (BTClibEccValueError ''rangeproof exponent of a public value is not -1'') else Inr ()) (\<lambda>_.
     rbind (case min_value of
              Some v \<Rightarrow> if \<not> (0 \<le> v \<and> v \<le> UINT64_MAX) then Inl (BTClibEccValueError ''rangeproof min value not in 0..2**64-1'') else Inr ()
            | None \<Rightarrow> Inr ()) (\<lambda>_.
     rbind (rp_max_value exp mantissa (or_zero min_value)) (\<lambda>_. Inr ())))"

text \<open>\<^verbatim>\<open>bytes([x])\<close>.\<close>

definition one_byte :: "int \<Rightarrow> octets result" where
  "one_byte x = (if 0 \<le> x \<and> x < 256 then Inr [word_of_int x] else Inl (ValueError ''bytes must be in range(0, 256)''))"

definition header_flags :: "int \<Rightarrow> int \<Rightarrow> int option \<Rightarrow> int" where
  "header_flags exp mantissa min_value =
     (let flags = (if mantissa \<noteq> 0 then HAS_NZ_RANGE OR exp else 0)
      in if min_value \<noteq> None then flags OR HAS_MIN else flags)"

definition header_octets :: "int \<Rightarrow> int \<Rightarrow> int option \<Rightarrow> octets result" where
  "header_octets exp mantissa min_value =
     rbind (mantissa_checked mantissa) (\<lambda>_.
     rbind (one_byte (header_flags exp mantissa min_value)) (\<lambda>flags.
     rbind (if mantissa \<noteq> 0 then one_byte (mantissa - 1) else Inr []) (\<lambda>m.
     rbind (case min_value of None \<Rightarrow> Inr [] | Some v \<Rightarrow> int_to_bytes v MIN_VALUE_SIZE) (\<lambda>v. Inr (flags @ m @ v)))))"

definition hashed_prefix :: "apoint \<Rightarrow> apoint \<Rightarrow> int \<Rightarrow> int \<Rightarrow> int option \<Rightarrow> curve \<Rightarrow> octets result" where
  "hashed_prefix commitment H exp mantissa min_value ec =
     rbind (tagged_bytes_from_point commitment RANGEPROOF_TAG ec) (\<lambda>c.
     rbind (tagged_bytes_from_point H RANGEPROOF_TAG ec) (\<lambda>g.
     rbind (header_octets exp mantissa min_value) (\<lambda>h. Inr (c @ g @ h))))"

section \<open>The parameters of a proof\<close>

record proof_params =
  pp_v :: int
  pp_rsizes :: "nat list"
  pp_sign_key_idx :: "nat list"
  pp_min_value :: int
  pp_mantissa :: int
  pp_scale :: int
  pp_exp :: int

function scale_down :: "int \<Rightarrow> int \<Rightarrow> int \<Rightarrow> int \<Rightarrow> int \<times> int" where
  "scale_down exp reached v v2 =
     (if reached < exp \<and> v2 \<le> UINT64_MAX div 10 then scale_down exp (reached + 1) (v div 10) (v2 * 10) else (v, reached))"
  by pat_completeness auto
termination by (relation "measure (\<lambda>(exp, reached, v, v2). nat (exp - reached))") auto

declare scale_down.simps [simp del]

text \<open>The digits of \<open>v\<close> in base four.\<close>

definition digits4 :: "int \<Rightarrow> nat \<Rightarrow> nat list" where
  "digits4 v k = map (\<lambda>i. nat (drop_bit (2 * i) v AND 3)) [0..<k]"

definition prove_params :: "int \<Rightarrow> int \<Rightarrow> int \<Rightarrow> int \<Rightarrow> proof_params result" where
  "prove_params value min_value exp min_bits =
     (let exp = (if min_value = UINT64_MAX then - 1 else exp) in
      if exp < 0
      then Inr \<lparr>pp_v = 0, pp_rsizes = [1], pp_sign_key_idx = [0], pp_min_value = value, pp_mantissa = 0, pp_scale = 1, pp_exp = - 1\<rparr>
      else if (min_value \<noteq> 0 \<and> value > INT64_MAX) \<or> (value \<noteq> 0 \<and> min_value \<ge> INT64_MAX)
      then Inl (BTClibEccValueError ''rangeproof range from min value does not fit 2**64'')
      else
        let max_bits = (if min_value \<noteq> 0 then 64 - int (bit_length min_value) else 64);
          min_bits = min min_bits max_bits;
          exp = (if min_bits > 61 \<or> value > INT64_MAX then 0 else exp);
          v = value - min_value;
          v2 = (if min_bits \<noteq> 0 then drop_bit (nat (64 - min_bits)) UINT64_MAX else 0);
          (v, exp) = scale_down exp 0 v v2;
          scale = 10 ^ nat exp;
          min_value = value - v * scale;
          mantissa = max (if bit_length v \<noteq> 0 then int (bit_length v) else 1) min_bits
        in rbind (rp_rsizes mantissa) (\<lambda>rsizes.
          Inr \<lparr>pp_v = v, pp_rsizes = rsizes, pp_sign_key_idx = digits4 v (length rsizes), pp_min_value = min_value,
               pp_mantissa = mantissa, pp_scale = scale, pp_exp = exp\<rparr>))"

section \<open>The keys of the rings\<close>

primrec expand_ring :: "curve \<Rightarrow> apoint \<Rightarrow> apoint \<Rightarrow> nat \<Rightarrow> apoint list result" where
  "expand_ring ec base P 0 = Inr []"
| "expand_ring ec base P (Suc k) =
     rbind (add_aff_var ec P base) (\<lambda>Q. rbind (expand_ring ec base Q k) (\<lambda>Qs. Inr (Q # Qs)))"

fun expand_rings :: "curve \<Rightarrow> apoint \<Rightarrow> apoint list \<Rightarrow> nat list \<Rightarrow> apoint list list result" where
  "expand_rings ec base heads [] = Inr []"
| "expand_rings ec base [] (sz # rsizes) = Inl IndexError"
| "expand_rings ec base (P # heads) (sz # rsizes) =
     rbind (expand_ring ec base P (sz - 1)) (\<lambda>ring.
     rbind (if rsizes \<noteq> [] then rbind (double_aff_var ec base) (double_aff_var ec) else Inr base) (\<lambda>base.
     rbind (expand_rings ec base heads rsizes) (\<lambda>rings. Inr ((P # ring) # rings))))"

definition pub_expand :: "int \<Rightarrow> apoint list \<Rightarrow> apoint \<Rightarrow> int \<Rightarrow> nat list \<Rightarrow> curve \<Rightarrow> apoint list list result" where
  "pub_expand rnd ring_commitments H exp rsizes ec =
     rbind (mult rnd (10 ^ nat (max exp 0)) (Some H) ec) (\<lambda>B. expand_rings ec (negate ec B) ring_commitments rsizes)"

section \<open>What the nonce expands to\<close>

record nonce_chain =
  nc_blinding_factors :: "int list"
  nc_draws :: "int list list"

text \<open>The iterator \<^verbatim>\<open>_blocks\<close>: the generator and whether the first block was taken.\<close>

type_synonym block_state = "bool \<times> hmac_drbg"

definition blocks :: "octets \<Rightarrow> hash_fn \<Rightarrow> block_state" where
  "blocks seed hf = (False, init_drbg seed hf)"

definition next_block :: "curve \<Rightarrow> hash_fn \<Rightarrow> block_state \<Rightarrow> octets \<times> block_state" where
  "next_block ec hf st =
     (let d = (if fst st then drbg_reseed hf (snd st) else snd st); (t, d) = drbg_generate hf (cv_n_size ec) d in (t, True, d))"

definition message_room :: "nat list \<Rightarrow> curve \<Rightarrow> nat" where
  "message_room rsizes ec = RING_STRIDE * cv_n_size ec * (length rsizes - 1)"

text \<open>A slice assignment of Python.\<close>

definition overwrite :: "'a list \<Rightarrow> nat \<Rightarrow> nat \<Rightarrow> 'a list \<Rightarrow> 'a list" where
  "overwrite xs from to ys = take from xs @ ys @ drop to xs"

definition rp_prep :: "nat list \<Rightarrow> int \<Rightarrow> nat \<Rightarrow> octets \<Rightarrow> curve \<Rightarrow> octets result" where
  "rp_prep rsizes v sign_key_idx message ec =
     (if length message > message_room rsizes ec then Inl (BTClibEccValueError ''rangeproof message is longer than the octets its rings hold'')
      else
        let prep = overwrite (replicate (RING_STRIDE * cv_n_size ec * length rsizes) 0) 0 (length message) message in
        if last rsizes > 1 then
          let j = last rsizes - 1 - (if sign_key_idx = last rsizes - 1 then 1 else 0);
            offset = ((length rsizes - 1) * RING_STRIDE + j) * cv_n_size ec in
          rbind (int_to_bytes v MIN_VALUE_SIZE) (\<lambda>vb.
            Inr (overwrite prep offset (offset + cv_n_size ec) ([128] @ replicate 7 0 @ vb @ vb @ vb)))
        else Inr prep)"

text \<open>One scalar of the generator, the next one until it is in range; the scalars of one ring.\<close>

definition next_scalar :: "curve \<Rightarrow> hash_fn \<Rightarrow> block_state \<Rightarrow> int \<times> block_state" where
  "next_scalar ec hf st = (let (b, st) = next_block ec hf st in (int_from_bytes b, st))"

definition draw_secret :: "curve \<Rightarrow> hash_fn \<Rightarrow> block_state \<Rightarrow> (int \<times> block_state) option" where
  "draw_secret ec hf st =
     (let (_, st) = next_block ec hf st in
      first_accepted (\<lambda>(_, st). next_scalar ec hf st) (\<lambda>(sec, _). 0 < sec \<and> sec < cv_n ec) (next_scalar ec hf st))"

primrec draw_ring :: "curve \<Rightarrow> hash_fn \<Rightarrow> octets \<Rightarrow> nat \<Rightarrow> block_state \<Rightarrow> nat list \<Rightarrow> (int list \<times> block_state) result" where
  "draw_ring ec hf prep i st [] = Inr ([], st)"
| "draw_ring ec hf prep i st (j # js) =
     (let offset = (i * RING_STRIDE + j) * cv_n_size ec; (b, st) = next_block ec hf st in
      rbind (bytes_xor b (take (cv_n_size ec) (drop offset prep))) (\<lambda>x.
        let s = int_from_bytes x in
        if \<not> (0 < s \<and> s < cv_n ec) then Inl (BTClibEccRuntimeError ''rangeproof nonce is not a scalar'')
        else rbind (draw_ring ec hf prep i st js) (\<lambda>(ring, st). Inr (s # ring, st))))"

text \<open>The rings from the \<open>i\<close>-th on, \<open>acc\<close> being the sum of the blinding factors before it.\<close>

fun draw_rings :: "curve \<Rightarrow> hash_fn \<Rightarrow> octets \<Rightarrow> nat \<Rightarrow> int \<Rightarrow> block_state \<Rightarrow> nat list \<Rightarrow> (int list \<times> int list list) run" where
  "draw_rings ec hf prep i acc st [] = Some (Inr ([], []))"
| "draw_rings ec hf prep i acc st (sz # rsizes) =
     (case (if rsizes \<noteq> [] then draw_secret ec hf st else Some ((- acc) mod cv_n ec, st)) of
        None \<Rightarrow> None
      | Some (sec, st) \<Rightarrow>
          obind (Some (draw_ring ec hf prep i st [0..<sz])) (\<lambda>(ring, st).
          obind (draw_rings ec hf prep (Suc i) ((acc + sec) mod cv_n ec) st rsizes) (\<lambda>(secs, draws).
            Some (Inr (sec # secs, ring # draws)))))"

definition rp_genrand :: "octets \<Rightarrow> nat list \<Rightarrow> octets \<Rightarrow> curve \<Rightarrow> hash_fn \<Rightarrow> nonce_chain run" where
  "rp_genrand seed rsizes prep ec hf =
     obind (draw_rings ec hf prep 0 0 (blocks seed hf) rsizes) (\<lambda>(secs, draws).
       Some (Inr \<lparr>nc_blinding_factors = secs, nc_draws = draws\<rparr>))"

section \<open>Proofs\<close>

record range_proof =
  rp_exp :: int
  rp_mantissa :: int
  rp_min_value :: "int option"
  rp_signs :: "bool list"
  rp_ring_commitments :: "int list"
  rp_sig :: borromean_sig

definition assert_ring_commitment :: "nat \<Rightarrow> int \<Rightarrow> unit result" where
  "assert_ring_commitment p_size x =
     (if \<not> (0 \<le> x \<and> x < 256 ^ p_size) then Inl (BTClibEccValueError ''ring commitment does not fit'') else Inr ())"

definition rp_assert_valid :: "range_proof \<Rightarrow> unit result" where
  "rp_assert_valid rp =
     rbind (assert_valid_header (rp_exp rp) (rp_mantissa rp) (rp_min_value rp)) (\<lambda>_.
     rbind (rp_rsizes (rp_mantissa rp)) (\<lambda>rsizes.
       let rings = length rsizes in
       if length (rp_signs rp) \<noteq> rings - 1 then Inl (BTClibEccValueError ''rangeproof has sign bits for ring commitments'')
       else if length (rp_ring_commitments rp) \<noteq> rings - 1
       then Inl (BTClibEccValueError ''rangeproof has ring commitments where the mantissa asks for'')
       else
         rbind (rmap (assert_ring_commitment (ec_p_size (bs_ec (rp_sig rp)))) (rp_ring_commitments rp)) (\<lambda>_.
         rbind (borromean_assert_valid (rp_sig rp)) (\<lambda>_.
           if map length (bs_s (rp_sig rp)) \<noteq> rsizes then Inl (BTClibEccValueError ''borromean rings are not the mantissa's'')
           else Inr ()))))"

definition init_range_proof ::
  "int \<Rightarrow> int \<Rightarrow> int option \<Rightarrow> bool list \<Rightarrow> int list \<Rightarrow> borromean_sig \<Rightarrow> bool \<Rightarrow> range_proof result" where
  "init_range_proof exp mantissa min_value signs ring_commitments sg check_validity =
     (let rp = \<lparr>rp_exp = exp, rp_mantissa = mantissa, rp_min_value = min_value, rp_signs = signs,
        rp_ring_commitments = ring_commitments, rp_sig = sg\<rparr>
      in rbind (if check_validity then rp_assert_valid rp else Inr ()) (\<lambda>_. Inr rp))"

definition checked_proof :: "range_proof \<Rightarrow> bool \<Rightarrow> unit result" where
  "checked_proof rp check_validity = (if check_validity then rp_assert_valid rp else Inr ())"

definition pubk_rings :: "(nat \<Rightarrow> int) \<Rightarrow> range_proof \<Rightarrow> apoint \<Rightarrow> apoint \<Rightarrow> bool \<Rightarrow> curve \<Rightarrow> apoint list list result" where
  "pubk_rings rnd rp commitment H check_validity ec =
     rbind (checked_proof rp check_validity) (\<lambda>_.
     rbind (require_on_curve ec commitment) (\<lambda>_.
     if length (rp_ring_commitments rp) \<noteq> length (rp_signs rp) then Inl (ValueError ''zip() arguments of different lengths'')
     else
       rbind (rmap (\<lambda>(x, sign). tagged_point_from_x x sign ec) (zip (rp_ring_commitments rp) (rp_signs rp))) (\<lambda>stated.
       rbind (if or_zero (rp_min_value rp) \<noteq> 0 then mult (rnd 0) (or_zero (rp_min_value rp)) (Some H) ec else Inr INF_aff) (\<lambda>start.
       rbind (rfold (add_aff_var ec) start stated) (\<lambda>acc.
       rbind (add_aff_var ec commitment (negate ec acc)) (\<lambda>end.
         if end = INF_aff then Inl (BTClibEccValueError ''rangeproof last ring commitment is the point at infinity'')
         else rbind (rp_rsizes (rp_mantissa rp)) (\<lambda>rsizes. pub_expand (rnd 1) (stated @ [end]) H (rp_exp rp) rsizes ec)))))))"

definition mantissa_value :: "range_proof \<Rightarrow> int \<Rightarrow> int result" where
  "mantissa_value rp value =
     (let min_value = or_zero (rp_min_value rp) in
      rbind (rp_max_value (rp_exp rp) (rp_mantissa rp) min_value) (\<lambda>max_value.
        if \<not> (min_value \<le> value \<and> value \<le> max_value) then Inl (BTClibEccValueError ''rangeproof value not in the range'')
        else
          let scale = 10 ^ nat (max (rp_exp rp) 0); v = (value - min_value) div scale; remainder = (value - min_value) mod scale in
          if remainder \<noteq> 0 then Inl (BTClibEccValueError ''rangeproof value is not the exponent's own multiple'') else Inr v))"

definition rp_sign_key_idx :: "range_proof \<Rightarrow> int \<Rightarrow> nat list result" where
  "rp_sign_key_idx rp value =
     rbind (mantissa_value rp value) (\<lambda>v. rbind (rp_rsizes (rp_mantissa rp)) (\<lambda>rsizes. Inr (digits4 v (length rsizes))))"

definition proof_nonce_chain ::
  "range_proof \<Rightarrow> apoint \<Rightarrow> int \<Rightarrow> octets \<Rightarrow> apoint \<Rightarrow> octets \<Rightarrow> bool \<Rightarrow> curve \<Rightarrow> hash_fn \<Rightarrow> nonce_chain run" where
  "proof_nonce_chain rp commitment value nonce H message check_validity ec hf =
     obind (Some (checked_proof rp check_validity)) (\<lambda>_.
     obind (Some (require_on_curve ec commitment)) (\<lambda>_.
     obind (Some (rp_sign_key_idx rp value)) (\<lambda>sign_key_idx.
     obind (Some (bytes_from_octets nonce (Some [RP_NONCE_SIZE]))) (\<lambda>nonce.
     obind (Some (hashed_prefix commitment H (rp_exp rp) (rp_mantissa rp) (rp_min_value rp) ec)) (\<lambda>prefix.
     obind (Some (mantissa_value rp value)) (\<lambda>v.
     obind (Some (rp_rsizes (rp_mantissa rp))) (\<lambda>rsizes.
     obind (Some (rp_prep rsizes v (last sign_key_idx) message ec)) (\<lambda>prep. rp_genrand (nonce @ prefix) rsizes prep ec hf))))))))"

section \<open>Octets\<close>

text \<open>The sign bits, eight to an octet, the first the least significant.\<close>

definition sign_bit_octets :: "bool list \<Rightarrow> nat \<Rightarrow> octets" where
  "sign_bit_octets signs rings =
     foldl (\<lambda>octets (i, sign). octets[i div 8 := octets ! (i div 8) OR push_bit (i mod 8) (of_bool sign)])
       (replicate (sign_octets rings) 0) (enumerate 0 signs)"

definition rp_serialize :: "range_proof \<Rightarrow> bool \<Rightarrow> octets result" where
  "rp_serialize rp check_validity =
     rbind (checked_proof rp check_validity) (\<lambda>_.
     rbind (header_octets (rp_exp rp) (rp_mantissa rp) (rp_min_value rp)) (\<lambda>header.
     rbind (rp_rsizes (rp_mantissa rp)) (\<lambda>rsizes.
     if sign_octets (length rsizes) * 8 < length (rp_signs rp) then Inl IndexError
     else
       rbind (rmap (\<lambda>x. int_to_bytes x (ec_p_size (bs_ec (rp_sig rp)))) (rp_ring_commitments rp)) (\<lambda>xs.
       rbind (borromean_serialize (rp_sig rp) False) (\<lambda>sg.
         Inr (header @ sign_bit_octets (rp_signs rp) (length rsizes) @ concat xs @ sg))))))"

text \<open>The parser of the rings' signature on a stream that goes on: no check of what is left.\<close>

definition borromean_parse_stream :: "octets \<Rightarrow> nat list \<Rightarrow> nat \<Rightarrow> curve \<Rightarrow> bool \<Rightarrow> (borromean_sig \<times> octets) result" where
  "borromean_parse_stream stream rsizes e0_size ec check_validity =
     rbind (read_exactly stream e0_size) (\<lambda>(e0, stream).
     rbind (read_rings stream (cv_n_size ec) rsizes) (\<lambda>(s, stream).
     rbind (init_borromean_sig e0 s ec check_validity) (\<lambda>sg. Inr (sg, stream))))"

definition read_header :: "octets \<Rightarrow> ((int \<times> int \<times> int option) \<times> octets) result" where
  "read_header stream =
     rbind (read_exactly stream 1) (\<lambda>(octets, stream).
       let flags = uint (hd octets) in
       if flags AND RP_RESERVED \<noteq> 0 then Inl (BTClibEccValueError ''bit 7 set in the rangeproof flags'')
       else
         rbind (if flags AND HAS_NZ_RANGE \<noteq> 0
                then rbind (read_exactly stream 1) (\<lambda>(octets, stream).
                       let mantissa = uint (hd octets) + 1 in
                       rbind (assert_valid_mantissa mantissa) (\<lambda>_. Inr ((flags AND EXP_MASK, mantissa), stream)))
                else Inr ((- 1, 0), stream)) (\<lambda>((exp, mantissa), stream).
         rbind (if flags AND HAS_MIN \<noteq> 0
                then rbind (read_exactly stream MIN_VALUE_SIZE) (\<lambda>(octets, stream). Inr (Some (int_from_bytes octets), stream))
                else Inr (None, stream)) (\<lambda>(min_value, stream). Inr ((exp, mantissa, min_value), stream))))"

definition read_signs :: "nat \<Rightarrow> octets \<Rightarrow> (bool list \<times> octets) result" where
  "read_signs rings stream =
     rbind (read_exactly stream (sign_octets rings)) (\<lambda>(octets, stream).
       let signs = map (\<lambda>i. bit (octets ! (i div 8)) (i mod 8)) [0..<rings - 1]; padding = (rings - 1) mod 8 in
       if padding \<noteq> 0 \<and> drop_bit padding (last octets) \<noteq> 0
       then Inl (BTClibEccValueError ''rangeproof sign bit padding is not zero'') else Inr (signs, stream))"

definition rp_parse :: "octets \<Rightarrow> bool \<Rightarrow> nat \<Rightarrow> curve \<Rightarrow> range_proof result" where
  "rp_parse data check_validity e0_size ec =
     rbind (read_header data) (\<lambda>((exp, mantissa, min_value), stream).
     rbind (rp_rsizes mantissa) (\<lambda>rsizes.
     rbind (read_signs (length rsizes) stream) (\<lambda>(signs, stream).
     rbind (read_ring stream (ec_p_size ec) (length rsizes - 1)) (\<lambda>(ring_commitments, stream).
     rbind (borromean_parse_stream stream rsizes e0_size ec check_validity) (\<lambda>(sg, stream).
     rbind (assert_no_trailing stream) (\<lambda>_.
       init_range_proof exp mantissa min_value signs ring_commitments sg check_validity))))))"

section \<open>The signature of the rings\<close>

definition rp_challenge :: "octets \<Rightarrow> octets \<Rightarrow> nat \<Rightarrow> nat \<Rightarrow> curve \<Rightarrow> hash_fn \<Rightarrow> int result" where
  "rp_challenge m r i j ec hf =
     rbind (borromean_hash m r i j hf) (\<lambda>h.
       let e = int_from_bits h (cv_nlen ec) in
       if \<not> (0 < e \<and> e < cv_n ec) then Inl (BTClibEccRuntimeError ''rangeproof challenge is not a scalar'') else Inr e)"

definition rp_point :: "int \<Rightarrow> apoint \<Rightarrow> int \<Rightarrow> curve \<Rightarrow> octets result" where
  "rp_point e Q s ec = rbind (double_mult_var e Q s (cv_G ec) ec) (\<lambda>t. bytes_from_point t ec True)"

primrec rp_forward :: "curve \<Rightarrow> hash_fn \<Rightarrow> octets \<Rightarrow> nat \<Rightarrow> nat \<Rightarrow> octets \<Rightarrow> (apoint \<times> int) list \<Rightarrow> octets result" where
  "rp_forward ec hf m i j r [] = Inr r"
| "rp_forward ec hf m i j r (Qs # rest) =
     rbind (rp_challenge m r i j ec hf) (\<lambda>e.
     rbind (rp_point e (fst Qs) (snd Qs) ec) (\<lambda>r. rp_forward ec hf m i (Suc j) r rest))"

primrec rp_back :: "curve \<Rightarrow> hash_fn \<Rightarrow> octets \<Rightarrow> nat \<Rightarrow> nat \<Rightarrow> int \<Rightarrow> (apoint \<times> int) list \<Rightarrow> int result" where
  "rp_back ec hf m i j e [] = Inr e"
| "rp_back ec hf m i j e (Qs # rest) =
     rbind (rp_point e (fst Qs) (snd Qs) ec) (\<lambda>r.
     rbind (rp_challenge m r i (Suc j) ec hf) (\<lambda>e. rp_back ec hf m i (Suc j) e rest))"

record rp_signer =
  sr_ring :: "apoint list"
  sr_k :: int
  sr_sec :: int
  sr_idx :: nat
  sr_draws :: "int list"

definition rp_open_ring :: "int \<Rightarrow> curve \<Rightarrow> hash_fn \<Rightarrow> octets \<Rightarrow> nat \<Rightarrow> rp_signer \<Rightarrow> octets result" where
  "rp_open_ring rnd ec hf m i g =
     rbind (mult rnd (sr_k g) (Some (cv_G ec)) ec) (\<lambda>K.
     rbind (bytes_from_point K ec True) (\<lambda>r.
       rp_forward ec hf m i (Suc (sr_idx g)) r (drop (Suc (sr_idx g)) (zip (sr_ring g) (sr_draws g)))))"

definition rp_close_ring :: "curve \<Rightarrow> hash_fn \<Rightarrow> octets \<Rightarrow> octets \<Rightarrow> nat \<Rightarrow> rp_signer \<Rightarrow> int list result" where
  "rp_close_ring ec hf m e0 i g =
     rbind (rp_challenge m e0 i 0 ec hf) (\<lambda>e.
     rbind (rp_back ec hf m i 0 e (take (sr_idx g) (zip (sr_ring g) (sr_draws g)))) (\<lambda>e.
       let s = (sr_k g - e * sr_sec g) mod cv_n ec in
       if s = 0 then Inl (BTClibEccRuntimeError ''rangeproof signature value is zero'')
       else Inr ((sr_draws g)[sr_idx g := s])))"

text \<open>The lists have one entry per ring, and the draws one scalar per key, as \<^verbatim>\<open>sign\<close> makes them.\<close>

definition rp_borromean_sign ::
  "(nat \<Rightarrow> int) \<Rightarrow> octets \<Rightarrow> apoint list list \<Rightarrow> int list \<Rightarrow> int list \<Rightarrow> nat list \<Rightarrow> int list list \<Rightarrow> curve \<Rightarrow> hash_fn
    \<Rightarrow> borromean_sig result" where
  "rp_borromean_sign rnd m rings ks secs idx drawn ec hf =
     (if \<not> (length rings = length ks \<and> length ks = length idx) then Inl (ValueError ''zip() arguments of different lengths'')
      else
        let signers = map (\<lambda>i. \<lparr>sr_ring = rings ! i, sr_k = ks ! i, sr_sec = secs ! i, sr_idx = idx ! i, sr_draws = drawn ! i\<rparr>)
              [0..<length rings] in
        rbind (rmap (\<lambda>(i, g). rp_open_ring (rnd i) ec hf m i g) (enumerate 0 signers)) (\<lambda>rs.
          let e0 = hf_digest hf (concat rs @ m) in
          rbind (rmap (\<lambda>(i, g). rp_close_ring ec hf m e0 i g) (enumerate 0 signers)) (\<lambda>s. init_borromean_sig e0 s ec True)))"

section \<open>Proving\<close>

definition ring_head :: "(nat \<Rightarrow> int) \<Rightarrow> int \<Rightarrow> apoint \<Rightarrow> curve \<Rightarrow> nat \<Rightarrow> int \<Rightarrow> nat \<Rightarrow> apoint result" where
  "ring_head rnd scale H ec i sec j =
     rbind (pedersen_commit_raw rnd sec (push_bit (2 * i) (int j * scale)) H ec) (\<lambda>head.
       if head = INF_aff then Inl (BTClibEccRuntimeError ''rangeproof ring commitment is the point at infinity'') else Inr head)"

definition none_if_zero :: "int \<Rightarrow> int option" where
  "none_if_zero v = (if v = 0 then None else Some v)"

definition rp_sign ::
  "(nat \<Rightarrow> nat \<Rightarrow> int) \<Rightarrow> int \<Rightarrow> int \<Rightarrow> octets \<Rightarrow> apoint \<Rightarrow> int \<Rightarrow> int \<Rightarrow> int \<Rightarrow> octets \<Rightarrow> octets \<Rightarrow> curve \<Rightarrow> hash_fn \<Rightarrow> range_proof run" where
  "rp_sign rnd blind value nonce H min_value exp min_bits message extra_commit ec hf =
     obind (Some (scalar_from_int blind ec)) (\<lambda>blind.
     if \<not> (0 \<le> value \<and> value \<le> UINT64_MAX) then Some (Inl (BTClibEccValueError ''rangeproof value not in 0..2**64-1''))
     else if \<not> (0 \<le> min_value \<and> min_value \<le> value) then Some (Inl (BTClibEccValueError ''rangeproof min value not in 0..value''))
     else if \<not> (- 1 \<le> exp \<and> exp \<le> MAX_EXP) then Some (Inl (BTClibEccValueError ''rangeproof exponent not in -1..18''))
     else if \<not> (0 \<le> min_bits \<and> min_bits \<le> MAX_MANTISSA) then Some (Inl (BTClibEccValueError ''rangeproof min bits not in 0..64''))
     else
       obind (Some (bytes_from_octets nonce (Some [RP_NONCE_SIZE]))) (\<lambda>nonce.
       obind (Some (prove_params value min_value exp min_bits)) (\<lambda>params.
       obind (Some (pedersen_commit (rnd 0) blind value H ec)) (\<lambda>commitment.
       obind (Some (hashed_prefix commitment H (pp_exp params) (pp_mantissa params) (none_if_zero (pp_min_value params)) ec)) (\<lambda>prefix.
       obind (Some (rp_prep (pp_rsizes params) (pp_v params) (last (pp_sign_key_idx params)) message ec)) (\<lambda>prep.
       obind (rp_genrand (nonce @ prefix) (pp_rsizes params) prep ec hf) (\<lambda>chain.
         let ks = map2 (!) (nc_draws chain) (pp_sign_key_idx params);
           blinds = nc_blinding_factors chain;
           secs = butlast blinds @ [(last blinds + blind) mod cv_n ec] in
         if last secs = 0 then Some (Inl (BTClibEccRuntimeError ''rangeproof last ring blinding factor is zero''))
         else
           obind (Some (rmap (\<lambda>(i, sec, j). ring_head (rnd (i + 3)) (pp_scale params) H ec i sec j)
                          (enumerate 0 (zip secs (pp_sign_key_idx params))))) (\<lambda>heads.
           obind (Some (rmap (\<lambda>head. tagged_bytes_from_point head RANGEPROOF_TAG ec) (butlast heads))) (\<lambda>stated.
             let m = hf_digest hf (prefix @ concat stated @ extra_commit) in
             obind (Some (pub_expand (rnd 1 0) heads H (pp_exp params) (pp_rsizes params) ec)) (\<lambda>rings.
             obind (Some (rp_borromean_sign (rnd 2) m rings ks secs (pp_sign_key_idx params) (nc_draws chain) ec hf)) (\<lambda>sg.
               Some (init_range_proof (pp_exp params) (pp_mantissa params) (none_if_zero (pp_min_value params))
                 (map (\<lambda>octets. hd octets \<noteq> 0) stated) (map (\<lambda>octets. int_from_bytes (tl octets)) stated) sg True))))))))))))"

definition sign_public_value ::
  "(nat \<Rightarrow> nat \<Rightarrow> int) \<Rightarrow> int \<Rightarrow> int \<Rightarrow> octets \<Rightarrow> apoint \<Rightarrow> curve \<Rightarrow> hash_fn \<Rightarrow> range_proof run" where
  "sign_public_value rnd blind value nonce H ec hf = rp_sign rnd blind value nonce H 0 (- 1) 0 [] [] ec hf"

section \<open>Verification\<close>

text \<open>The challenges of the positions left and the octets of the last point.\<close>

primrec rp_ring_verify :: "curve \<Rightarrow> hash_fn \<Rightarrow> octets \<Rightarrow> nat \<Rightarrow> nat \<Rightarrow> int \<Rightarrow> (apoint \<times> int) list \<Rightarrow> (int list \<times> octets) result" where
  "rp_ring_verify ec hf m i j e [] = Inr ([], [])"
| "rp_ring_verify ec hf m i j e (Qs # rest) =
     (if snd Qs = 0 then Inl (BTClibEccRuntimeError ''rangeproof signature value is zero'')
      else if fst Qs = INF_aff then Inl (BTClibEccRuntimeError ''rangeproof ring key is the point at infinity'')
      else
        rbind (rp_point e (fst Qs) (snd Qs) ec) (\<lambda>r.
          if rest \<noteq> [] then
            rbind (rp_challenge m r i (Suc j) ec hf) (\<lambda>e'.
            rbind (rp_ring_verify ec hf m i (Suc j) e' rest) (\<lambda>(es, r). Inr (e # es, r)))
          else Inr ([e], r)))"

definition rp_borromean_verify :: "octets \<Rightarrow> apoint list list \<Rightarrow> borromean_sig \<Rightarrow> curve \<Rightarrow> hash_fn \<Rightarrow> int list list result" where
  "rp_borromean_verify m rings sg ec hf =
     rbind (rmap (\<lambda>(i, ring, s). rbind (rp_challenge m (bs_e0 sg) i 0 ec hf) (\<lambda>e. rp_ring_verify ec hf m i 0 e (zip ring s)))
              (enumerate 0 (zip rings (bs_s sg)))) (\<lambda>walked.
       if hf_digest hf (concat (map snd walked) @ m) \<noteq> bs_e0 sg
       then Inl (BTClibEccRuntimeError ''rangeproof signature verification failed'') else Inr (map fst walked))"

definition ring_message :: "apoint \<Rightarrow> range_proof \<Rightarrow> apoint \<Rightarrow> octets \<Rightarrow> curve \<Rightarrow> hash_fn \<Rightarrow> octets result" where
  "ring_message commitment rp H extra_commit ec hf =
     (if length (rp_ring_commitments rp) \<noteq> length (rp_signs rp) then Inl (ValueError ''zip() arguments of different lengths'')
      else
        rbind (rmap (\<lambda>(x, sign_bit). rbind (int_to_bytes x (ec_p_size ec)) (\<lambda>xb. Inr (of_bool sign_bit # xb)))
                 (zip (rp_ring_commitments rp) (rp_signs rp))) (\<lambda>stated.
        rbind (hashed_prefix commitment H (rp_exp rp) (rp_mantissa rp) (rp_min_value rp) ec) (\<lambda>prefix.
          Inr (hf_digest hf (prefix @ concat stated @ extra_commit)))))"

definition verify_rings ::
  "(nat \<Rightarrow> int) \<Rightarrow> apoint \<Rightarrow> range_proof \<Rightarrow> apoint \<Rightarrow> octets \<Rightarrow> curve \<Rightarrow> hash_fn \<Rightarrow> int list list result" where
  "verify_rings rnd commitment rp H extra_commit ec hf =
     rbind (ring_message commitment rp H extra_commit ec hf) (\<lambda>m.
     rbind (pubk_rings rnd rp commitment H True ec) (\<lambda>rings. rp_borromean_verify m rings (rp_sig rp) ec hf))"

definition rp_assert_as_valid :: "(nat \<Rightarrow> int) \<Rightarrow> apoint \<Rightarrow> range_proof \<Rightarrow> apoint \<Rightarrow> octets \<Rightarrow> curve \<Rightarrow> hash_fn \<Rightarrow> unit result" where
  "rp_assert_as_valid rnd commitment rp H extra_commit ec hf =
     rbind (rp_assert_valid rp) (\<lambda>_. rbind (verify_rings rnd commitment rp H extra_commit ec hf) (\<lambda>_. Inr ()))"

definition rp_verify :: "(nat \<Rightarrow> int) \<Rightarrow> apoint \<Rightarrow> range_proof \<Rightarrow> apoint \<Rightarrow> octets \<Rightarrow> curve \<Rightarrow> hash_fn \<Rightarrow> bool result" where
  "rp_verify rnd commitment rp H extra_commit ec hf =
     caught_false (rp_assert_as_valid rnd commitment rp H extra_commit ec hf)"

text \<open>A proof given as octets is parsed before.\<close>

definition rp_verify_octets :: "(nat \<Rightarrow> int) \<Rightarrow> apoint \<Rightarrow> octets \<Rightarrow> apoint \<Rightarrow> octets \<Rightarrow> nat \<Rightarrow> curve \<Rightarrow> hash_fn \<Rightarrow> bool result" where
  "rp_verify_octets rnd commitment data H extra_commit e0_size ec hf =
     rbind (rp_parse data True e0_size ec) (\<lambda>rp. rp_verify rnd commitment rp H extra_commit ec hf)"

section \<open>Rewinding\<close>

definition inverse_mod :: "int \<Rightarrow> int \<Rightarrow> int result" where
  "inverse_mod e n = (case py_pow_inv e n of None \<Rightarrow> Inl (ValueError ''base is not invertible for the given modulus'') | Some i \<Rightarrow> Inr i)"

definition recover_x :: "int \<Rightarrow> int \<Rightarrow> int \<Rightarrow> curve \<Rightarrow> int result" where
  "recover_x k e s ec = rbind (inverse_mod e (cv_n ec)) (\<lambda>i. Inr ((k - s) * i mod cv_n ec))"

definition recover_k :: "int \<Rightarrow> int \<Rightarrow> int \<Rightarrow> curve \<Rightarrow> int" where
  "recover_k x e s ec = (s + x * e) mod cv_n ec"

definition ch32xor :: "int \<Rightarrow> int \<Rightarrow> curve \<Rightarrow> octets result" where
  "ch32xor a b ec =
     rbind (int_to_bytes a (cv_n_size ec)) (\<lambda>x. rbind (int_to_bytes b (cv_n_size ec)) (\<lambda>y. bytes_xor x y))"

definition octets_slice :: "octets \<Rightarrow> nat \<Rightarrow> nat \<Rightarrow> octets" where
  "octets_slice bs from to = take (to - from) (drop from bs)"

definition value_at_position :: "int list \<Rightarrow> int list \<Rightarrow> int \<Rightarrow> curve \<Rightarrow> (int \<times> int) option result" where
  "value_at_position written drawn position ec =
     rbind (py_nth written position) (\<lambda>a. rbind (py_nth drawn position) (\<lambda>b. rbind (ch32xor a b ec) (\<lambda>tmp.
       Inr (if bit (tmp ! 0) 7 \<and> octets_slice tmp 8 16 = octets_slice tmp 16 24 \<and> octets_slice tmp 16 24 = octets_slice tmp 24 32
            then Some (position, int_from_bytes (octets_slice tmp 24 32)) else None))))"

definition value_encoding :: "nat list \<Rightarrow> int list \<Rightarrow> int list \<Rightarrow> curve \<Rightarrow> (int \<times> int) option result" where
  "value_encoding rsizes written drawn ec =
     rbind (value_at_position written drawn (int (last rsizes) - 1) ec) (\<lambda>found.
       case found of Some r \<Rightarrow> Inr (Some r) | None \<Rightarrow> value_at_position written drawn (int (last rsizes) - 2) ec)"

record rewound =
  rw_blind :: int
  rw_value :: int
  rw_message :: octets

text \<open>The octets of the message under the scalar of one position.\<close>

definition message_block ::
  "nonce_chain \<Rightarrow> int list list \<Rightarrow> int list list \<Rightarrow> int \<Rightarrow> curve \<Rightarrow> nat \<times> nat \<Rightarrow> octets result" where
  "message_block chain ev s v ec ij =
     (let (i, j) = ij in
      ch32xor (if drop_bit (2 * i) v AND 3 = int j then recover_k (nc_blinding_factors chain ! i) (ev ! i ! j) (s ! i ! j) ec
               else s ! i ! j)
        (nc_draws chain ! i ! j) ec)"

definition rp_rewind ::
  "(nat \<Rightarrow> nat \<Rightarrow> int) \<Rightarrow> apoint \<Rightarrow> range_proof \<Rightarrow> octets \<Rightarrow> apoint \<Rightarrow> octets \<Rightarrow> curve \<Rightarrow> hash_fn \<Rightarrow> rewound run" where
  "rp_rewind rnd commitment rp nonce H extra_commit ec hf =
     obind (Some (rp_assert_valid rp)) (\<lambda>_.
     obind (Some (verify_rings (rnd 0) commitment rp H extra_commit ec hf)) (\<lambda>ev.
     obind (Some (rp_rsizes (rp_mantissa rp))) (\<lambda>rsizes.
     obind (Some (bytes_from_octets nonce (Some [RP_NONCE_SIZE]))) (\<lambda>nonce.
     obind (Some (hashed_prefix commitment H (rp_exp rp) (rp_mantissa rp) (rp_min_value rp) ec)) (\<lambda>prefix.
     obind (rp_genrand (nonce @ prefix) rsizes (replicate (RING_STRIDE * cv_n_size ec * length rsizes) 0) ec hf) (\<lambda>chain.
       let s = bs_s (rp_sig rp); k = length rsizes - 1 in
       obind (if rsizes = [1]
              then Some (rbind (recover_x (nc_draws chain ! 0 ! 0) (ev ! 0 ! 0) (s ! 0 ! 0) ec) (\<lambda>blind.
                     Inr \<lparr>rw_blind = blind, rw_value = or_zero (rp_min_value rp), rw_message = []\<rparr>))
              else
                Some (rbind (value_encoding rsizes (s ! k) (nc_draws chain ! k) ec) (\<lambda>found.
                  case found of
                    None \<Rightarrow> Inl (BTClibEccRuntimeError ''rangeproof rewind reads no value encoding'')
                  | Some (skip1, v) \<Rightarrow>
                      let skip2 = drop_bit (2 * k) v AND 3 in
                      if skip1 = skip2 then Inl (BTClibEccRuntimeError ''rangeproof rewind reads the value at the digit'')
                      else if skip2 \<ge> int (last rsizes)
                      then Inl (BTClibEccRuntimeError ''rangeproof rewind reads a digit the last ring has no key for'')
                      else
                        let d = nat skip2 in
                        rbind (recover_x (nc_draws chain ! k ! d) (ev ! k ! d) (s ! k ! d) ec) (\<lambda>x.
                        rbind (rmap (message_block chain ev s v ec)
                                 (filter (\<lambda>(i, j). i \<noteq> k \<or> (int j \<noteq> skip1 \<and> int j \<noteq> skip2))
                                   (concat (map (\<lambda>(i, sz). map (Pair i) [0..<sz]) (enumerate 0 rsizes))))) (\<lambda>blocks.
                          Inr \<lparr>rw_blind = (x - nc_blinding_factors chain ! k) mod cv_n ec,
                               rw_value = v * 10 ^ nat (rp_exp rp) + or_zero (rp_min_value rp),
                               rw_message = concat blocks\<rparr>))))) (\<lambda>opened.
       obind (Some (pedersen_commit_raw (rnd 1) (rw_blind opened) (rw_value opened) H ec)) (\<lambda>C.
         if C \<noteq> commitment then Some (Inl (BTClibEccRuntimeError ''rangeproof rewind does not open the commitment''))
         else Some (Inr opened)))))))))"

end
