(* ===== verification/Rangeproof_Params.thy ===== *)
theory Rangeproof_Params
  imports Rangeproof Borromean_Correct
begin

unbundle bit_operations_syntax

text \<open>
  The numbers of a range proof: the header and the sizes of the rings, the parameters the prover derives, the
  digits of the value, and what the generator expands a nonce to.
\<close>

section \<open>Ring sizes and digits\<close>

lemma rp_rsizes_Inr_iff:
  "rp_rsizes m = Inr ks \<longleftrightarrow> 0 \<le> m \<and> m \<le> 64 \<and>
     ks = (if m = 0 then [1] else replicate (nat (m div 2)) 4 @ (if m mod 2 \<noteq> 0 then [2] else []))"
  by (auto simp: rp_rsizes_def mantissa_checked_def assert_valid_mantissa_def MAX_MANTISSA_def)

lemma rsizes_nonempty: "rp_rsizes m = Inr ks \<Longrightarrow> ks \<noteq> []"
proof -
  assume "rp_rsizes m = Inr ks"
  then have k: "0 \<le> m" "ks = (if m = 0 then [1] else replicate (nat (m div 2)) 4 @ (if m mod 2 \<noteq> 0 then [2] else []))"
    unfolding rp_rsizes_Inr_iff by blast+
  have "m div 2 = 0 \<Longrightarrow> m mod 2 = 0 \<Longrightarrow> m = 0" by presburger
  then show ?thesis using k by (auto split: if_splits)
qed

lemma rsizes_length: "rp_rsizes m = Inr ks \<Longrightarrow> m \<noteq> 0 \<Longrightarrow> int (length ks) = (m + 1) div 2"
  unfolding rp_rsizes_Inr_iff by (auto split: if_splits) presburger+

lemma rsizes_nth:
  assumes "rp_rsizes m = Inr ks" "i < length ks"
  shows "ks ! i = (if m = 0 then 1 else if 2 * int i + 1 < m then 4 else 2)"
proof -
  have k: "0 \<le> m" "ks = (if m = 0 then [1] else replicate (nat (m div 2)) 4 @ (if m mod 2 \<noteq> 0 then [2] else []))"
    using assms(1) unfolding rp_rsizes_Inr_iff by blast+
  show ?thesis
  proof (cases "m = 0")
    case False
    have "i < nat (m div 2) \<longleftrightarrow> int i < m div 2" using k(1) by linarith
    also have "\<dots> \<longleftrightarrow> 2 * int i + 1 < m" by presburger
    finally have "i < nat (m div 2) \<longleftrightarrow> 2 * int i + 1 < m" .
    then show ?thesis using k(2) False assms(2) by (auto simp: nth_append split: if_splits)
  qed (use k assms(2) in simp)
qed

lemma and_3: "x AND 3 = x mod 4" for x :: int
  using take_bit_eq_mask [of 2 x] by (simp add: take_bit_eq_mod mask_eq_exp_minus_1)

lemma digits4_nth: "i < k \<Longrightarrow> digits4 v k ! i = nat (v div 4 ^ i mod 4)"
proof -
  have "(2 :: int) ^ (2 * i) = 4 ^ i" using power_mult [of "2 :: int" 2 i] by simp
  then show "i < k \<Longrightarrow> digits4 v k ! i = nat (v div 4 ^ i mod 4)" by (simp add: digits4_def drop_bit_eq_div and_3)
qed

lemma digits4_length [simp]: "length (digits4 v k) = k"
  by (simp add: digits4_def)

lemma digits4_value: "(\<Sum>i<k. int (digits4 v k ! i) * 4 ^ i) = v mod 4 ^ k" for v :: int
proof -
  have "(\<Sum>i<j. v div 4 ^ i mod 4 * 4 ^ i) = v mod 4 ^ j" for j
  proof (induction j)
    case (Suc j)
    have "v mod (4 ^ j * 4) = 4 ^ j * (v div 4 ^ j mod 4) + v mod 4 ^ j" by (rule zmod_zmult2_eq) simp
    then show ?case using Suc by (simp add: ac_simps)
  qed simp
  moreover have "(\<Sum>i<k. int (digits4 v k ! i) * 4 ^ i) = (\<Sum>i<k. v div 4 ^ i mod 4 * 4 ^ i)"
    by (rule sum.cong) (simp_all add: digits4_nth)
  ultimately show ?thesis by simp
qed

text \<open>The digits of a value within the mantissa are positions of the rings.\<close>

lemma digits_in_rings:
  assumes k: "rp_rsizes m = Inr ks" and v: "0 \<le> v" "v < 2 ^ nat m"
  shows "list_all2 (<) (digits4 v (length ks)) ks" "(\<Sum>i<length ks. int (digits4 v (length ks) ! i) * 4 ^ i) = v"
proof -
  have m: "0 \<le> m" using k by (simp add: rp_rsizes_Inr_iff)
  have b: "nat m \<le> 2 * length ks"
    using rsizes_length [OF k] m by (cases "m = 0") simp_all
  have "v < 2 ^ (2 * length ks)" using v(2) power_increasing [OF b, of "2 :: int"] by linarith
  then have "v < 4 ^ length ks" using power_mult [of "2 :: int" 2 "length ks"] by simp
  then show "(\<Sum>i<length ks. int (digits4 v (length ks) ! i) * 4 ^ i) = v" using v(1) by (simp add: digits4_value)
  show "list_all2 (<) (digits4 v (length ks)) ks"
  proof (rule list_all2_all_nthI)
    fix i assume "i < length (digits4 v (length ks))"
    then have i: "i < length ks" by simp
    have d: "digits4 v (length ks) ! i = nat (v div 4 ^ i mod 4)" by (rule digits4_nth [OF i])
    consider "m = 0" | "2 * int i + 1 < m" | "m \<noteq> 0" "\<not> 2 * int i + 1 < m" by blast
    then show "digits4 v (length ks) ! i < ks ! i"
    proof cases
      case 1
      then have "v = 0" using v by simp
      then show ?thesis using 1 d rsizes_nth [OF k i] by simp
    next
      case 2
      then show ?thesis using d rsizes_nth [OF k i] m by (auto simp: nat_less_iff)
    next
      case 3
      have "nat m \<le> 2 * i + 1" using 3 by linarith
      then have "v < 2 ^ (2 * i + 1)" using v(2) power_increasing [of "nat m" "2 * i + 1" "2 :: int"] by linarith
      moreover have "(2 :: int) ^ (2 * i + 1) = 4 ^ i * 2" using power_mult [of "2 :: int" 2 i] by simp
      ultimately have "v < 2 * 4 ^ i" by simp
      moreover have "0 \<le> v mod 4 ^ i" by simp
      moreover have "v div 4 ^ i * 4 ^ i + v mod 4 ^ i = v" by (rule div_mult_mod_eq)
      ultimately have "v div 4 ^ i * 4 ^ i < 2 * 4 ^ i" by linarith
      then have "v div 4 ^ i < 2" by (simp add: mult_less_cancel_right)
      moreover have "0 \<le> v div 4 ^ i" using v(1) by (simp add: pos_imp_zdiv_nonneg_iff)
      ultimately show ?thesis using d rsizes_nth [OF k i] 3 by (auto simp: nat_less_iff)
    qed
  qed simp
qed

section \<open>The parameters\<close>

lemma scale_down_bounds:
  "scale_down exp r v v2 = (v', e') \<Longrightarrow> 0 \<le> v \<Longrightarrow> 0 \<le> v' \<and> r \<le> e' \<and> v' * 10 ^ nat (e' - r) \<le> v"
proof (induction exp r v v2 rule: scale_down.induct)
  case (1 exp r v v2)
  show ?case
  proof (cases "r < exp \<and> v2 \<le> UINT64_MAX div 10")
    case True
    then have "scale_down exp (r + 1) (v div 10) (v2 * 10) = (v', e')" using 1(2) by (simp add: scale_down.simps [of exp r])
    then have i: "0 \<le> v'" "r + 1 \<le> e'" "v' * 10 ^ nat (e' - (r + 1)) \<le> v div 10" using 1 True by auto
    have "nat (e' - r) = Suc (nat (e' - (r + 1)))" using i(2) by linarith
    then have "v' * 10 ^ nat (e' - r) = 10 * (v' * 10 ^ nat (e' - (r + 1)))" by simp
    also have "\<dots> \<le> v" using i(3) by linarith
    finally show ?thesis using i by simp
  next
    case False
    have "v' = v" "e' = r" using 1(2) unfolding scale_down.simps [of exp r v v2] if_not_P [OF False] by simp_all
    then show ?thesis using 1(3) by simp
  qed
qed

definition params_ok :: "int \<Rightarrow> proof_params \<Rightarrow> bool" where
  "params_ok value p \<longleftrightarrow>
     value = pp_min_value p + pp_v p * pp_scale p \<and> 0 \<le> pp_v p \<and> 0 \<le> pp_min_value p \<and> pp_scale p = 10 ^ nat (max (pp_exp p) 0)
   \<and> rp_rsizes (pp_mantissa p) = Inr (pp_rsizes p) \<and> pp_sign_key_idx p = digits4 (pp_v p) (length (pp_rsizes p))
   \<and> pp_v p < 2 ^ nat (pp_mantissa p) \<and> (pp_mantissa p \<noteq> 0 \<longrightarrow> 0 \<le> pp_exp p) \<and> (pp_mantissa p = 0 \<longrightarrow> pp_v p = 0)"

lemma prove_params_sound:
  assumes P: "prove_params value min_value exp min_bits = Inr p" and v: "0 \<le> min_value" "min_value \<le> value"
  shows "params_ok value p"
proof -
  define e1 where "e1 = (if min_value = UINT64_MAX then - 1 else exp)"
  show ?thesis
  proof (cases "e1 < 0")
    case True
    then have "p = \<lparr>pp_v = 0, pp_rsizes = [1], pp_sign_key_idx = [0], pp_min_value = value, pp_mantissa = 0, pp_scale = 1, pp_exp = - 1\<rparr>"
      using P unfolding prove_params_def Let_def e1_def by auto
    then show ?thesis using v by (simp add: params_ok_def rp_rsizes_Inr_iff digits4_def)
  next
    case False
    define bits where "bits = min min_bits (if min_value \<noteq> 0 then 64 - int (bit_length min_value) else 64)"
    define e2 where "e2 = (if bits > 61 \<or> value > INT64_MAX then 0 else e1)"
    define v2 where "v2 = (if bits \<noteq> 0 then drop_bit (nat (64 - bits)) UINT64_MAX else 0)"
    obtain w e3 where s: "scale_down e2 0 (value - min_value) v2 = (w, e3)" by fastforce
    define m where "m = max (if bit_length w \<noteq> 0 then int (bit_length w) else 1) bits"
    obtain ks where ks: "rp_rsizes m = Inr ks"
        "p = \<lparr>pp_v = w, pp_rsizes = ks, pp_sign_key_idx = digits4 w (length ks), pp_min_value = value - w * 10 ^ nat e3,
          pp_mantissa = m, pp_scale = 10 ^ nat e3, pp_exp = e3\<rparr>"
      using P False unfolding prove_params_def Let_def e1_def [symmetric] bits_def [symmetric] e2_def [symmetric] v2_def [symmetric] s
        prod.case m_def [symmetric]
      by (auto simp: rbind_eq_Inr_iff split: if_splits)
    have w: "0 \<le> w" "0 \<le> e3" "w * 10 ^ nat e3 \<le> value - min_value" using scale_down_bounds [OF s] v(2) by simp_all
    have m: "1 \<le> m" "int (bit_length w) \<le> m" by (auto simp: m_def)
    have "w < 2 ^ bit_length w" by (rule bit_length_upper [OF w(1)])
    also have "(2 :: int) ^ bit_length w \<le> 2 ^ nat m" using m(2) by (intro power_increasing) linarith+
    finally show ?thesis using ks w v m(1) by (simp add: params_ok_def)
  qed
qed

section \<open>The generator\<close>

lemma draw_ring_sound:
  assumes "draw_ring ec hf prep i st js = Inr (ring, st')"
  shows "length ring = length js \<and> (\<forall>s \<in> set ring. 0 < s \<and> s < cv_n ec)"
  using assms
proof (induction js arbitrary: st ring)
  case (Cons j js)
  obtain b st1 where b: "next_block ec hf st = (b, st1)" by (cases "next_block ec hf st")
  obtain x ring' where r: "draw_ring ec hf prep i st1 js = Inr (ring', st')" "ring = int_from_bytes x # ring'"
      "0 < int_from_bytes x" "int_from_bytes x < cv_n ec"
    using Cons.prems by (auto simp: b Let_def rbind_eq_Inr_iff split: if_splits)
  then show ?case using Cons.IH [OF r(1)] by simp
qed simp

lemma draw_secret_range:
  assumes "draw_secret ec hf st = Some (sec, st')"
  shows "0 < sec \<and> sec < cv_n ec"
  using assms unfolding draw_secret_def Let_def by (auto simp: first_accepted_iff split: prod.splits)

text \<open>
  One secret and one ring of scalars per ring; the secrets sum to zero, and all but the last are units.
\<close>

lemma draw_rings_sound:
  assumes "draw_rings ec hf prep i acc st ks = Some (Inr (secs, drawn))" "ks \<noteq> []" "0 < cv_n ec"
  shows "length secs = length ks \<and> map length drawn = ks \<and> cv_n ec dvd (acc + sum_list secs)
    \<and> (\<forall>s \<in> set (butlast secs). 0 < s \<and> s < cv_n ec) \<and> (\<forall>ring \<in> set drawn. \<forall>s \<in> set ring. 0 < s \<and> s < cv_n ec)"
  using assms(1,2)
proof (induction ks arbitrary: i acc st secs drawn)
  case (Cons k ks)
  obtain sec st1 where s: "(if ks \<noteq> [] then draw_secret ec hf st else Some ((- acc) mod cv_n ec, st)) = Some (sec, st1)"
    using Cons.prems(1) by (fastforce split: option.splits)
  obtain ring st2 secs' drawn' where r: "draw_ring ec hf prep i st1 [0..<k] = Inr (ring, st2)"
      "draw_rings ec hf prep (Suc i) ((acc + sec) mod cv_n ec) st2 ks = Some (Inr (secs', drawn'))" "secs = sec # secs'" "drawn = ring # drawn'"
    using Cons.prems(1) unfolding draw_rings.simps s by (auto simp: obind_Inr_iff)
  note rs = draw_ring_sound [OF r(1)]
  show ?case
  proof (cases "ks = []")
    case True
    then have "secs' = []" "drawn' = []" "sec = (- acc) mod cv_n ec" using r(2) s by simp_all
    moreover have "cv_n ec dvd (acc + (- acc) mod cv_n ec)" by (simp add: dvd_eq_mod_eq_0 mod_add_right_eq)
    ultimately show ?thesis using True r(3,4) rs by simp
  next
    case False
    note IH = Cons.IH [OF r(2) False]
    have sec: "0 < sec \<and> sec < cv_n ec" using s False draw_secret_range by simp
    have "cv_n ec dvd ((acc + sec) - (acc + sec) mod cv_n ec)" by simp
    from dvd_add [OF _ this] IH
    have "cv_n ec dvd (((acc + sec) mod cv_n ec + sum_list secs') + ((acc + sec) - (acc + sec) mod cv_n ec))" by blast
    moreover have "secs' \<noteq> []" using IH False by auto
    ultimately show ?thesis using IH r(3,4) rs sec by (simp add: algebra_simps)
  qed
qed simp

end
