(* ===== verification/Rangeproof_Correct.thy ===== *)
theory Rangeproof_Correct
  imports Rangeproof_Params Pedersen_Correct Cosigning_Correct
begin

text \<open>
  A range proof that the prover returns verifies: the keys the verifier derives are those the prover signed for,
  because the commitments to the digits, shifted to their places, add up to the commitment to the value.
\<close>

section \<open>The walk of one ring\<close>

lemma rp_challenge_range: "rp_challenge m r i j ec hf = Inr e \<Longrightarrow> 0 < e \<and> e < cv_n ec"
  by (auto simp: rp_challenge_def rbind_eq_Inr_iff Let_def split: if_splits)

lemma rp_back_range: "rp_back ec hf m i j e front = Inr e' \<Longrightarrow> 0 < e \<and> e < cv_n ec \<Longrightarrow> 0 < e' \<and> e' < cv_n ec"
proof (induction front arbitrary: j e)
  case (Cons Qs front)
  then obtain r e1 where "rp_challenge m r i (Suc j) ec hf = Inr e1" "rp_back ec hf m i (Suc j) e1 front = Inr e'"
    by (auto simp: rbind_eq_Inr_iff)
  then show ?case using Cons.IH rp_challenge_range by blast
qed simp

definition walkable :: "(apoint \<times> int) list \<Rightarrow> bool" where
  "walkable xs \<longleftrightarrow> (\<forall>x \<in> set xs. fst x \<noteq> INF_aff \<and> snd x \<noteq> 0)"

lemma walk_forward:
  assumes "rp_point e (fst Qs) (snd Qs) ec = Inr r0" "rp_forward ec hf m i (Suc j) r0 rest = Inr r" "walkable (Qs # rest)"
  shows "\<exists>es. rp_ring_verify ec hf m i j e (Qs # rest) = Inr (e # es, r) \<and> length es = length rest"
  using assms
proof (induction rest arbitrary: j e Qs r0)
  case Nil
  then show ?case by (simp add: walkable_def)
next
  case (Cons Rs rest)
  obtain e1 r1 where f: "rp_challenge m r0 i (Suc j) ec hf = Inr e1" "rp_point e1 (fst Rs) (snd Rs) ec = Inr r1"
      "rp_forward ec hf m i (Suc (Suc j)) r1 rest = Inr r"
    using Cons.prems(2) by (auto simp: rbind_eq_Inr_iff)
  have "walkable (Rs # rest)" using Cons.prems(3) by (simp add: walkable_def)
  from Cons.IH [OF f(2,3) this] obtain es where "rp_ring_verify ec hf m i (Suc j) e1 (Rs # rest) = Inr (e1 # es, r)" "length es = length rest"
    by blast
  then show ?case using Cons.prems(1,3) f(1) by (simp add: walkable_def)
qed

lemma walk_back:
  assumes "rp_back ec hf m i j e front = Inr e'" "walkable front" "rest \<noteq> []"
    and "rp_ring_verify ec hf m i (j + length front) e' rest = Inr (es, r)"
  shows "\<exists>es'. rp_ring_verify ec hf m i j e (front @ rest) = Inr (es' @ es, r) \<and> length es' = length front"
  using assms
proof (induction front arbitrary: j e)
  case (Cons Qs front)
  obtain r1 e1 where b: "rp_point e (fst Qs) (snd Qs) ec = Inr r1" "rp_challenge m r1 i (Suc j) ec hf = Inr e1"
      "rp_back ec hf m i (Suc j) e1 front = Inr e'"
    using Cons.prems(1) by (auto simp: rbind_eq_Inr_iff)
  have "walkable front" "fst Qs \<noteq> INF_aff" "snd Qs \<noteq> 0" using Cons.prems(2) by (simp_all add: walkable_def)
  moreover from this(1) obtain es' where "rp_ring_verify ec hf m i (Suc j) e1 (front @ rest) = Inr (es' @ es, r)" "length es' = length front"
    using Cons.IH [OF b(3)] Cons.prems(3,4) by auto
  ultimately show ?case using b Cons.prems(3) by (intro exI [of _ "e # es'"]) simp
qed simp

lemma walked_finite: "rp_ring_verify ec hf m i j e xs = Inr w \<Longrightarrow> \<forall>x \<in> set xs. fst x \<noteq> INF_aff"
proof (induction xs arbitrary: j e w)
  case (Cons Qs rest)
  then have "fst Qs \<noteq> INF_aff" by (auto split: if_splits)
  moreover have "\<forall>x \<in> set rest. fst x \<noteq> INF_aff"
  proof (cases "rest = []")
    case False
    then obtain e' w' where "rp_ring_verify ec hf m i (Suc j) e' rest = Inr w'"
      using Cons.prems by (auto simp: rbind_eq_Inr_iff split: if_splits)
    then show ?thesis by (rule Cons.IH)
  qed simp
  ultimately show ?case by simp
qed simp

lemma own_point:
  assumes v: "curve_valid ec" and e: "endo_law ec" and q: "0 < q" "q < cv_n ec"
  shows "rp_point x (aff_of (ec_times ec q (gen ec))) ((k - x * q) mod cv_n ec) ec = bytes_from_point (aff_of (ec_times ec k (gen ec))) ec True"
proof -
  note G = member_generator [OF v] generator_finite [OF v]
  note Q = member_closed(3) [OF G(1), of q] gen_times_finite [OF v q]
  have "aff_of (gen ec) = cv_G ec" using G(2) by (cases "cv_G ec") (auto simp: aff_abs_def split: if_splits)
  moreover have "ec_plus ec (ec_times ec x (ec_times ec q (gen ec))) (ec_times ec ((k - x * q) mod cv_n ec) (gen ec))
      = ec_times ec k (gen ec)"
    unfolding times_mod [OF G(1)] times_times [OF G(1)] times_add [OF G(1)] by simp
  ultimately show ?thesis
    using double_mult_members [OF Q G e, of x "(k - x * q) mod cv_n ec"] by (simp add: rp_point_def)
qed

text \<open>
  What a ring that was opened and closed looks like to the verifier: the walk ends where the signer's did, the
  scalars are the drawn ones but for the signer's, which answers the challenge of its position.
\<close>

definition ring_answers :: "curve \<Rightarrow> rp_signer \<Rightarrow> int list \<Rightarrow> int list \<Rightarrow> bool" where
  "ring_answers ec g es s \<longleftrightarrow>
     length es = length (sr_ring g) \<and> 0 < es ! sr_idx g \<and> es ! sr_idx g < cv_n ec
   \<and> s = (sr_draws g)[sr_idx g := (sr_k g - es ! sr_idx g * sr_sec g) mod cv_n ec]"

lemma signed_ring_walked:
  assumes v: "curve_valid ec" and e: "endo_law ec" and rnd: "0 \<le> rnd" "rnd < ec_p ec - 1"
    and q: "0 < sr_sec g" "sr_sec g < cv_n ec" and key: "sr_ring g ! sr_idx g = aff_of (ec_times ec (sr_sec g) (gen ec))"
    and j: "sr_idx g < length (sr_ring g)" "length (sr_draws g) = length (sr_ring g)" and nz: "\<forall>s \<in> set (sr_draws g). s \<noteq> 0"
    and inf: "INF_aff \<notin> set (sr_ring g)"
    and O: "rp_open_ring rnd ec hf m i g = Inr r" and C: "rp_close_ring ec hf m e0 i g = Inr s"
  shows "\<exists>es. rbind (rp_challenge m e0 i 0 ec hf) (\<lambda>e. rp_ring_verify ec hf m i 0 e (zip (sr_ring g) s)) = Inr (es, r) \<and> ring_answers ec g es s"
proof -
  let ?z = "zip (sr_ring g) (sr_draws g)" and ?j = "sr_idx g"
  obtain x y where x: "rp_challenge m e0 i 0 ec hf = Inr x" "rp_back ec hf m i 0 x (take ?j ?z) = Inr y"
      "(sr_k g - y * sr_sec g) mod cv_n ec \<noteq> 0" "s = (sr_draws g)[?j := (sr_k g - y * sr_sec g) mod cv_n ec]"
    using C by (auto simp: rp_close_ring_def rbind_eq_Inr_iff Let_def split: if_splits)
  let ?t = "(sr_k g - y * sr_sec g) mod cv_n ec"
  have zs: "zip (sr_ring g) s = take ?j ?z @ (sr_ring g ! ?j, ?t) # drop (Suc ?j) ?z"
  proof -
    have "zip (sr_ring g) s = ?z[?j := (sr_ring g ! ?j, ?t)]" using j by (simp add: update_zip x(4))
    then show ?thesis using j by (simp add: upd_conv_take_nth_drop)
  qed
  have wz: "walkable ?z" using nz inf unfolding walkable_def by (auto dest: set_zip_leftD set_zip_rightD)
  have w: "walkable (take ?j ?z)" using wz in_set_takeD unfolding walkable_def by fast
  have w': "walkable ((sr_ring g ! ?j, ?t) # drop (Suc ?j) ?z)"
  proof -
    have "sr_ring g ! ?j \<noteq> INF_aff" using inf j(1) nth_mem by metis
    then show ?thesis using wz x(3) in_set_dropD [of _ "Suc ?j" ?z] unfolding walkable_def by auto
  qed
  obtain r0 where r0: "bytes_from_point (aff_of (ec_times ec (sr_k g) (gen ec))) ec True = Inr r0"
      "rp_forward ec hf m i (Suc ?j) r0 (drop (Suc ?j) ?z) = Inr r"
    using O mult_generator(1) [OF v rnd, of "sr_k g"] by (auto simp: rp_open_ring_def rbind_eq_Inr_iff)
  have "rp_point y (fst (sr_ring g ! ?j, ?t)) (snd (sr_ring g ! ?j, ?t)) ec = Inr r0"
    unfolding fst_conv snd_conv key own_point [OF v e q] by (rule r0(1))
  from walk_forward [OF this r0(2) w'] obtain es where
    es: "rp_ring_verify ec hf m i ?j y ((sr_ring g ! ?j, ?t) # drop (Suc ?j) ?z) = Inr (y # es, r)" "length es = length (drop (Suc ?j) ?z)"
    by blast
  have lf: "length (take ?j ?z) = ?j" using j by simp
  obtain es' where w2: "rp_ring_verify ec hf m i 0 x (zip (sr_ring g) s) = Inr (es' @ y # es, r)" "length es' = ?j"
    using walk_back [OF x(2) w, of "(sr_ring g ! ?j, ?t) # drop (Suc ?j) ?z" "y # es" r] es(1) unfolding zs lf by auto
  have y: "(es' @ y # es) ! ?j = y" using nth_append_length [of es' y es] w2(2) by simp
  have "length (es' @ y # es) = length (sr_ring g)" using w2(2) es(2) j by simp
  moreover have "0 < y \<and> y < cv_n ec" by (rule rp_back_range [OF x(2) rp_challenge_range [OF x(1)]])
  ultimately have "ring_answers ec g (es' @ y # es) s" using x(4) unfolding ring_answers_def y by blast
  then show ?thesis using x(1) w2(1) by auto
qed

section \<open>The keys of the rings\<close>

lemma double_member: "member ec B \<Longrightarrow> double_aff_var ec (aff_of B) = Inr (aff_of (ec_plus ec B B))"
  by (rule double_aff_var_correct [OF memberD(3) arep_aff_of_member])

definition ring_keys :: "curve \<Rightarrow> point \<Rightarrow> point \<Rightarrow> nat \<Rightarrow> apoint list" where
  "ring_keys ec B P k = map (\<lambda>j. aff_of (ec_plus ec P (ec_times ec (int j) B))) [0..<k]"

lemma ring_keys_nth: "j < k \<Longrightarrow> ring_keys ec B P k ! j = aff_of (ec_plus ec P (ec_times ec (int j) B))"
  unfolding ring_keys_def by (subst nth_map) (simp_all only: length_upt diff_zero nth_upt add_0)

lemma expand_ring_value:
  assumes "member ec B" "member ec P"
  shows "expand_ring ec (aff_of B) (aff_of P) k = Inr (map (\<lambda>j. aff_of (ec_plus ec P (ec_times ec (int (Suc j)) B))) [0..<k])"
  using assms(2)
proof (induction k arbitrary: P)
  case (Suc k)
  have Q: "member ec (ec_plus ec P B)" by (rule member_closed(1) [OF Suc.prems assms(1)])
  have "ec_plus ec (ec_plus ec P B) (ec_times ec (int (Suc j)) B) = ec_plus ec P (ec_times ec (int (Suc (Suc j))) B)" for j
  proof -
    have "ec_plus ec B (ec_times ec (int (Suc j)) B) = ec_times ec (int (Suc (Suc j))) B"
      using times_add [OF assms(1), of 1 "int (Suc j)"] times_one [OF assms(1)] by simp
    then show ?thesis using plus_assoc [OF Suc.prems assms(1) member_closed(3) [OF assms(1)]] by simp
  qed
  then show ?case
    using Suc.IH [OF Q] add_aff_point [OF Suc.prems assms(1)] times_one [OF assms(1)]
    by (simp add: upt_conv_Cons map_Suc_upt [symmetric] del: upt_Suc)
qed simp

lemma ring_value:
  assumes "member ec B" "member ec P" "0 < k"
  shows "rbind (expand_ring ec (aff_of B) (aff_of P) (k - 1)) (\<lambda>ring. Inr (aff_of P # ring)) = Inr (ring_keys ec B P k)"
proof -
  define f where "f = (\<lambda>j. aff_of (ec_plus ec P (ec_times ec (int j) B)))"
  have "[0..<k] = 0 # map Suc [0..<k - 1]" using assms(3) by (simp add: upt_conv_Cons map_Suc_upt)
  then have "ring_keys ec B P k = f 0 # map (\<lambda>j. f (Suc j)) [0..<k - 1]" unfolding ring_keys_def f_def [symmetric] by simp
  moreover have "f 0 = aff_of P" using ecn.add_zero [OF memberD(2) [OF assms(2)]] by (simp add: f_def)
  moreover have "expand_ring ec (aff_of B) (aff_of P) (k - 1) = Inr (map (\<lambda>j. f (Suc j)) [0..<k - 1])"
    unfolding f_def by (rule expand_ring_value [OF assms(1,2)])
  ultimately show ?thesis by simp
qed

fun expanded :: "curve \<Rightarrow> point \<Rightarrow> point list \<Rightarrow> nat list \<Rightarrow> apoint list list" where
  "expanded ec B (P # Ps) (k # ks) = ring_keys ec B P k # expanded ec (ec_times ec 4 B) Ps ks"
| "expanded ec B _ _ = []"

lemma expand_rings_value:
  assumes "length Ps = length ks" "\<forall>P \<in> set Ps. member ec P" "\<forall>k \<in> set ks. 0 < k" "member ec B"
  shows "expand_rings ec (aff_of B) (map aff_of Ps) ks = Inr (expanded ec B Ps ks)"
  using assms
proof (induction Ps ks arbitrary: B rule: list_induct2')
  case (4 P Ps k ks)
  have m: "member ec P" "member ec B" "0 < k" using 4 by simp_all
  obtain ring where ring: "expand_ring ec (aff_of B) (aff_of P) (k - 1) = Inr ring" "ring_keys ec B P k = aff_of P # ring"
    using ring_value [OF m(2,1,3)] expand_ring_value [OF m(2,1)] by auto
  have "ec_plus ec (ec_plus ec B B) (ec_plus ec B B) = ec_times ec 4 B"
    using times_add [OF m(2), of 2 2] times_add [OF m(2), of 1 1] times_one [OF m(2)] by simp
  then have d: "rbind (double_aff_var ec (aff_of B)) (double_aff_var ec) = Inr (aff_of (ec_times ec 4 B))"
    using double_member [OF m(2)] double_member [OF member_closed(1) [OF m(2) m(2)]] by simp
  show ?case
  proof (cases "ks = []")
    case True
    then show ?thesis using 4 ring by simp
  next
    case False
    then show ?thesis using 4(1) [of "ec_times ec 4 B"] 4(2-) member_closed(3) [OF m(2)] ring d by simp
  qed
qed simp_all

lemma expanded_nth:
  assumes "i < length Ps" "length Ps = length ks" "member ec B"
  shows "expanded ec B Ps ks ! i = ring_keys ec (ec_times ec (4 ^ i) B) (Ps ! i) (ks ! i)"
  using assms
proof (induction ec B Ps ks arbitrary: i rule: expanded.induct)
  case (1 ec B P Ps k ks)
  show ?case
  proof (cases i)
    case 0
    then show ?thesis using times_one [OF 1(4)] by simp
  next
    case (Suc i')
    have "ec_times ec (4 ^ i') (ec_times ec 4 B) = ec_times ec (4 ^ i) B" using times_times [OF 1(4), of "4 ^ i'" 4] Suc by (simp add: mult.commute)
    then show ?thesis using 1 Suc member_closed(3) [OF 1(4)] by simp
  qed
qed simp_all

lemma expanded_length: "length Ps = length ks \<Longrightarrow> length (expanded ec B Ps ks) = length ks"
  by (induction ec B Ps ks rule: expanded.induct) simp_all

lemma pub_expand_value:
  assumes c: "cosign_curve ec" and r: "0 \<le> rnd" "rnd < ec_p ec - 1" and H: "member ec H"
    and P: "length Ps = length ks" "\<forall>P \<in> set Ps. member ec P" "\<forall>k \<in> set ks. 0 < k"
  shows "pub_expand rnd (map aff_of Ps) (aff_of H) exp ks ec = Inr (expanded ec (ec_minus ec (ec_times ec (10 ^ nat (max exp 0)) H)) Ps ks)"
proof -
  have m: "member ec (ec_times ec (10 ^ nat (max exp 0)) H)" by (rule member_closed(3) [OF H])
  show ?thesis
    unfolding pub_expand_def mult_point [OF c H r] rbind_simps negate_point [OF m]
    by (rule expand_rings_value [OF P member_closed(2) [OF m]])
qed

section \<open>The commitments to the digits\<close>

lemma aff_of_INF: "member ec P \<Longrightarrow> aff_of P = INF_aff \<longleftrightarrow> P = Inf"
  using aff_of_finite [of ec P] by (cases "P = Inf") (auto simp: INF_aff_def)

lemma committed_zero: "curve_valid ec \<Longrightarrow> member ec H \<Longrightarrow> committed ec H 0 0 = Inf"
  by (simp add: committed_def)

lemma committed_cong: "curve_valid ec \<Longrightarrow> cv_n ec dvd (r - r') \<Longrightarrow> committed ec H r v = committed ec H r' v"
  unfolding committed_def using times_cong member_generator by metis

lemma psum_committed:
  assumes "curve_valid ec" "member ec H"
  shows "psum ec (map (\<lambda>x. committed ec H (f x) (g x)) xs) = committed ec H (sum_list (map f xs)) (sum_list (map g xs))"
  by (induction xs) (simp_all add: committed_zero [OF assms] committed_add [OF assms])

lemma psum_append:
  "cosign_curve ec \<Longrightarrow> \<forall>P \<in> set Ps. member ec P \<Longrightarrow> \<forall>P \<in> set Qs. member ec P \<Longrightarrow> psum ec (Ps @ Qs) = ec_plus ec (psum ec Ps) (psum ec Qs)"
proof (induction Ps)
  case Nil
  then show ?case using ecn.zero_add [OF memberD(2) [OF psum_member]] by simp
next
  case (Cons P Ps)
  then show ?case using plus_assoc [of ec P "psum ec Ps" "psum ec Qs"] psum_member [of ec Ps] psum_member [of ec Qs] by simp
qed

definition head_points :: "curve \<Rightarrow> point \<Rightarrow> int \<Rightarrow> int list \<Rightarrow> nat list \<Rightarrow> point list" where
  "head_points ec H scale secs idx =
     map (\<lambda>i. committed ec H (secs ! i) (int (idx ! i) * scale * 4 ^ i)) [0..<length idx]"

lemma head_points_member: "curve_valid ec \<Longrightarrow> member ec H \<Longrightarrow> \<forall>P \<in> set (head_points ec H scale secs idx). member ec P"
  by (auto simp: head_points_def member_committed)

lemma head_points_sum:
  assumes "curve_valid ec" "member ec H" "length secs = length idx"
  shows "psum ec (head_points ec H scale secs idx) = committed ec H (sum_list secs) (scale * (\<Sum>i<length idx. int (idx ! i) * 4 ^ i))"
proof -
  have "sum_list (map (\<lambda>i. secs ! i) [0..<length idx]) = sum_list secs" using assms(3) by (metis map_nth)
  moreover have "sum_list (map (\<lambda>i. int (idx ! i) * scale * 4 ^ i) [0..<length idx]) = scale * (\<Sum>i<length idx. int (idx ! i) * 4 ^ i)"
    by (simp add: interv_sum_list_conv_sum_set_nat atLeast0LessThan sum_distrib_left ac_simps)
  ultimately show ?thesis unfolding head_points_def psum_committed [OF assms(1,2)] by simp
qed

lemma heads_value:
  assumes v: "curve_valid ec" and e: "endo_law ec" and d: "\<And>k. draws ec (rnd k)" and H: "member ec H" "H \<noteq> Inf"
    and l: "length secs = length idx"
    and R: "rmap (\<lambda>(i, sec, j). ring_head (rnd (i + 3)) scale (aff_of H) ec i sec j) (enumerate 0 (zip secs idx)) = Inr heads"
  shows "heads = map aff_of (head_points ec H scale secs idx)" "\<forall>P \<in> set (head_points ec H scale secs idx). P \<noteq> Inf"
proof -
  have "heads ! i = aff_of (head_points ec H scale secs idx ! i) \<and> head_points ec H scale secs idx ! i \<noteq> Inf" if i: "i < length idx" for i
  proof -
    have "ring_head (rnd (i + 3)) scale (aff_of H) ec i (secs ! i) (idx ! i) = Inr (heads ! i)"
      using R i l by (simp add: rmap_Inr_iff list_all2_conv_all_nth nth_enumerate_eq)
    moreover have "push_bit (2 * i) (int (idx ! i) * scale) = int (idx ! i) * scale * 4 ^ i"
      using power_mult [of "2 :: int" 2 i] by (simp add: push_bit_eq_mult)
    ultimately show ?thesis
      using commit_raw_value [OF v e d H, of "i + 3" "secs ! i" "int (idx ! i) * scale * 4 ^ i"] i
        aff_of_INF [OF member_committed [OF v H(1)], of "secs ! i" "int (idx ! i) * scale * 4 ^ i"]
      by (simp add: ring_head_def head_points_def split: if_splits)
  qed
  moreover have "length heads = length idx" using R l by (simp add: rmap_Inr_iff list_all2_conv_all_nth)
  ultimately show "heads = map aff_of (head_points ec H scale secs idx)" "\<forall>P \<in> set (head_points ec H scale secs idx). P \<noteq> Inf"
    by (auto intro!: nth_equalityI simp: head_points_def)
qed

section \<open>What the prover returns\<close>

text \<open>The octets of a stated commitment: its prefix says whether the ordinate is not a square.\<close>

definition not_square :: "curve \<Rightarrow> point \<Rightarrow> bool" where
  "not_square ec P \<longleftrightarrow> legendre_symbol_var (py P) (ec_p ec) \<noteq> Inr 1"

definition stated_octets :: "curve \<Rightarrow> point \<Rightarrow> octets" where
  "stated_octets ec P = of_bool (not_square ec P) # to_bytes (ec_p_size ec) (px P)"

lemma stated_value:
  assumes c: "cosign_curve ec" and P: "member ec P" "P \<noteq> Inf"
  shows "tagged_bytes_from_point (aff_of P) RANGEPROOF_TAG ec = Inr (stated_octets ec P)"
    "tagged_point_from_x (px P) (not_square ec P) ec = Inr (aff_of P)"
    "int_to_bytes (px P) (ec_p_size ec) = Inr (to_bytes (ec_p_size ec) (px P))" "int_from_bytes (to_bytes (ec_p_size ec) (px P)) = px P"
proof -
  note t = tagged_parts [OF P cosignD(3,4) [OF c]]
  have "RANGEPROOF_TAG XOR of_bool (legendre_symbol_var (py P) (ec_p ec) = Inr 1) = of_bool (not_square ec P)"
    by (simp add: RANGEPROOF_TAG_def not_square_def)
  then show "tagged_bytes_from_point (aff_of P) RANGEPROOF_TAG ec = Inr (stated_octets ec P)"
    using t(3) [of RANGEPROOF_TAG] by (simp add: stated_octets_def)
  show "tagged_point_from_x (px P) (not_square ec P) ec = Inr (aff_of P)" using t(4) by (simp add: not_square_def)
  show "int_to_bytes (px P) (ec_p_size ec) = Inr (to_bytes (ec_p_size ec) (px P))" "int_from_bytes (to_bytes (ec_p_size ec) (px P)) = px P"
    by (rule t)+
qed

definition last_shifted :: "int list \<Rightarrow> int \<Rightarrow> int \<Rightarrow> int list" where
  "last_shifted blinds blind n = butlast blinds @ [(last blinds + blind) mod n]"

definition proved_by ::
  "(nat \<Rightarrow> int) \<Rightarrow> curve \<Rightarrow> hash_fn \<Rightarrow> point \<Rightarrow> int \<Rightarrow> int \<Rightarrow> octets \<Rightarrow> proof_params \<Rightarrow> octets \<Rightarrow> nonce_chain \<Rightarrow> int list \<Rightarrow> borromean_sig \<Rightarrow> range_proof \<Rightarrow> bool"
where
  "proved_by rnd ec hf H blind value extra p prefix chain secs sg rp \<longleftrightarrow>
     (let Ps = head_points ec H (pp_scale p) secs (pp_sign_key_idx p);
        m = hf_digest hf (prefix @ concat (map (stated_octets ec) (butlast Ps)) @ extra) in
      params_ok value p \<and> 0 < blind \<and> blind < cv_n ec \<and> secs = last_shifted (nc_blinding_factors chain) blind (cv_n ec) \<and> last secs \<noteq> 0
    \<and> hashed_prefix (aff_of (committed ec H blind value)) (aff_of H) (pp_exp p) (pp_mantissa p) (none_if_zero (pp_min_value p)) ec = Inr prefix
    \<and> (\<forall>P \<in> set Ps. P \<noteq> Inf)
    \<and> rp_borromean_sign rnd m (expanded ec (ec_minus ec (ec_times ec (pp_scale p) H)) Ps (pp_rsizes p))
         (map2 (!) (nc_draws chain) (pp_sign_key_idx p)) secs (pp_sign_key_idx p) (nc_draws chain) ec hf = Inr sg
    \<and> rp = \<lparr>rp_exp = pp_exp p, rp_mantissa = pp_mantissa p, rp_min_value = none_if_zero (pp_min_value p),
            rp_signs = map (not_square ec) (butlast Ps), rp_ring_commitments = map px (butlast Ps), rp_sig = sg\<rparr>
    \<and> rp_assert_valid rp = Inr ())"

lemma genrand_sound:
  assumes "rp_genrand seed ks prep ec hf = Some (Inr chain)" "ks \<noteq> []" "0 < cv_n ec"
  shows "length (nc_blinding_factors chain) = length ks" "map length (nc_draws chain) = ks"
    "cv_n ec dvd sum_list (nc_blinding_factors chain)" "\<forall>s \<in> set (butlast (nc_blinding_factors chain)). 0 < s \<and> s < cv_n ec"
    "\<forall>ring \<in> set (nc_draws chain). \<forall>s \<in> set ring. 0 < s \<and> s < cv_n ec"
proof -
  obtain secs drawn where r: "draw_rings ec hf prep 0 0 (blocks seed hf) ks = Some (Inr (secs, drawn))"
      "chain = \<lparr>nc_blinding_factors = secs, nc_draws = drawn\<rparr>"
    using assms(1) by (auto simp: rp_genrand_def obind_Inr_iff)
  from draw_rings_sound [OF r(1) assms(2,3)]
  show "length (nc_blinding_factors chain) = length ks" "map length (nc_draws chain) = ks"
    "cv_n ec dvd sum_list (nc_blinding_factors chain)" "\<forall>s \<in> set (butlast (nc_blinding_factors chain)). 0 < s \<and> s < cv_n ec"
    "\<forall>ring \<in> set (nc_draws chain). \<forall>s \<in> set ring. 0 < s \<and> s < cv_n ec"
    unfolding r(2) by simp_all
qed

lemma params_shape:
  assumes "params_ok value p"
  shows "pp_rsizes p \<noteq> []" "length (pp_sign_key_idx p) = length (pp_rsizes p)" "list_all2 (<) (pp_sign_key_idx p) (pp_rsizes p)"
    "(\<Sum>i<length (pp_rsizes p). int (pp_sign_key_idx p ! i) * 4 ^ i) = pp_v p" "\<forall>k \<in> set (pp_rsizes p). 0 < k"
proof -
  have p: "rp_rsizes (pp_mantissa p) = Inr (pp_rsizes p)" "0 \<le> pp_v p" "pp_v p < 2 ^ nat (pp_mantissa p)"
      "pp_sign_key_idx p = digits4 (pp_v p) (length (pp_rsizes p))"
    using assms by (simp_all add: params_ok_def)
  show "pp_rsizes p \<noteq> []" by (rule rsizes_nonempty [OF p(1)])
  show "length (pp_sign_key_idx p) = length (pp_rsizes p)" using p(4) by simp
  show l: "list_all2 (<) (pp_sign_key_idx p) (pp_rsizes p)"
    "(\<Sum>i<length (pp_rsizes p). int (pp_sign_key_idx p ! i) * 4 ^ i) = pp_v p"
    unfolding p(4) by (rule digits_in_rings [OF p(1-3)])+
  show "\<forall>k \<in> set (pp_rsizes p). 0 < k" using l(1) by (fastforce simp: list_all2_conv_all_nth in_set_conv_nth)
qed

lemma rp_sign_parts:
  assumes c: "cosign_curve ec" and H: "member ec H" "H \<noteq> Inf" and d: "\<And>k. draws ec (rnd k)"
    and S: "rp_sign rnd blind value nonce (aff_of H) min_value exp min_bits message extra ec hf = Some (Inr rp)"
  obtains p prefix prep chain secs sg where
    "proved_by (rnd 2) ec hf H blind value extra p prefix chain secs sg rp" "length nonce = RP_NONCE_SIZE"
    "prove_params value min_value exp min_bits = Inr p"
    "rp_prep (pp_rsizes p) (pp_v p) (last (pp_sign_key_idx p)) message ec = Inr prep"
    "rp_genrand (nonce @ prefix) (pp_rsizes p) prep ec hf = Some (Inr chain)"
proof -
  note v = cosignD(1,2) [OF c] and n = curve_n [OF cosignD(1) [OF c]]
  let ?C = "committed ec H blind value"
  have b: "scalar_from_int blind ec = Inr blind"
    using S unfolding rp_sign_def obind_Inr_iff by (auto simp: scalar_from_int_Inr_iff)
  then have blind: "0 < blind" "blind < cv_n ec" by (simp_all add: scalar_from_int_Inr_iff)
  have ndv: "\<not> cv_n ec dvd blind" using blind zdvd_not_zless by blast
  have C: "pedersen_commit (rnd 0) blind value (aff_of H) ec = Inr (aff_of ?C)"
    using commit_value [OF v d H, of 0 blind "value"] ndv by simp
  obtain p prefix prep chain where
    p: "0 \<le> min_value" "min_value \<le> value" "length nonce = RP_NONCE_SIZE" "prove_params value min_value exp min_bits = Inr p"
      "hashed_prefix (aff_of ?C) (aff_of H) (pp_exp p) (pp_mantissa p) (none_if_zero (pp_min_value p)) ec = Inr prefix"
      "rp_prep (pp_rsizes p) (pp_v p) (last (pp_sign_key_idx p)) message ec = Inr prep"
      "rp_genrand (nonce @ prefix) (pp_rsizes p) prep ec hf = Some (Inr chain)"
    and R: "(let ks = map2 (!) (nc_draws chain) (pp_sign_key_idx p); blinds = nc_blinding_factors chain;
           secs = butlast blinds @ [(last blinds + blind) mod cv_n ec] in
         if last secs = 0 then Some (Inl (BTClibEccRuntimeError ''rangeproof last ring blinding factor is zero''))
         else
           obind (Some (rmap (\<lambda>(i, sec, j). ring_head (rnd (i + 3)) (pp_scale p) (aff_of H) ec i sec j)
                          (enumerate 0 (zip secs (pp_sign_key_idx p))))) (\<lambda>heads.
           obind (Some (rmap (\<lambda>head. tagged_bytes_from_point head RANGEPROOF_TAG ec) (butlast heads))) (\<lambda>stated.
             let m = hf_digest hf (prefix @ concat stated @ extra) in
             obind (Some (pub_expand (rnd 1 0) heads (aff_of H) (pp_exp p) (pp_rsizes p) ec)) (\<lambda>rings.
             obind (Some (rp_borromean_sign (rnd 2) m rings ks secs (pp_sign_key_idx p) (nc_draws chain) ec hf)) (\<lambda>sg.
               Some (init_range_proof (pp_exp p) (pp_mantissa p) (none_if_zero (pp_min_value p))
                 (map (\<lambda>octets. hd octets \<noteq> 0) stated) (map (\<lambda>octets. int_from_bytes (tl octets)) stated) sg True)))))) = Some (Inr rp)"
    using S unfolding rp_sign_def b obind_simps C
    by (auto simp: obind_Inr_iff bytes_from_octets_def split: if_splits)
  have ok: "params_ok value p" by (rule prove_params_sound [OF p(4,1,2)])
  note shape = params_shape [OF ok] and g = genrand_sound [OF p(7) params_shape(1) [OF ok] n(2)]
  define secs where "secs = last_shifted (nc_blinding_factors chain) blind (cv_n ec)"
  define Ps where "Ps = head_points ec H (pp_scale p) secs (pp_sign_key_idx p)"
  have bne: "nc_blinding_factors chain \<noteq> []" using g(1) shape(1) by auto
  have l: "length secs = length (pp_sign_key_idx p)" using g(1) shape(1,2) bne by (simp add: secs_def last_shifted_def)
  obtain heads stated rings sg where
    h: "last secs \<noteq> 0" "rmap (\<lambda>(i, sec, j). ring_head (rnd (i + 3)) (pp_scale p) (aff_of H) ec i sec j) (enumerate 0 (zip secs (pp_sign_key_idx p))) = Inr heads"
      "rmap (\<lambda>head. tagged_bytes_from_point head RANGEPROOF_TAG ec) (butlast heads) = Inr stated"
      "pub_expand (rnd 1 0) heads (aff_of H) (pp_exp p) (pp_rsizes p) ec = Inr rings"
      "rp_borromean_sign (rnd 2) (hf_digest hf (prefix @ concat stated @ extra)) rings (map2 (!) (nc_draws chain) (pp_sign_key_idx p)) secs
         (pp_sign_key_idx p) (nc_draws chain) ec hf = Inr sg"
      "init_range_proof (pp_exp p) (pp_mantissa p) (none_if_zero (pp_min_value p))
         (map (\<lambda>octets. hd octets \<noteq> 0) stated) (map (\<lambda>octets. int_from_bytes (tl octets)) stated) sg True = Inr rp"
    using R unfolding Let_def last_shifted_def [symmetric] secs_def [symmetric] by (auto simp: obind_Inr_iff split: if_splits)
  note hv = heads_value [OF v d H l h(2), folded Ps_def]
  have Pm: "\<forall>P \<in> set Ps. member ec P" unfolding Ps_def by (rule head_points_member [OF v(1) H(1)])
  have lP: "length Ps = length (pp_rsizes p)" using shape(2) by (simp add: Ps_def head_points_def)
  have bl: "member ec P \<and> P \<noteq> Inf" if "P \<in> set (butlast Ps)" for P using Pm hv(2) in_set_butlastD [OF that] by blast
  have "rmap (\<lambda>head. tagged_bytes_from_point head RANGEPROOF_TAG ec) (map aff_of (butlast Ps)) = Inr (map (stated_octets ec) (butlast Ps))"
    unfolding rmap_Inr_iff list_all2_conv_all_nth using bl stated_value(1) [OF c] by (auto simp: in_set_conv_nth)
  then have st: "stated = map (stated_octets ec) (butlast Ps)" using h(3) unfolding hv(1) map_butlast [symmetric] by simp
  have sc: "10 ^ nat (max (pp_exp p) 0) = pp_scale p" using ok by (simp add: params_ok_def)
  have rings: "rings = expanded ec (ec_minus ec (ec_times ec (pp_scale p) H)) Ps (pp_rsizes p)"
    using h(4) pub_expand_value [OF c drawsD [OF d] H(1) lP Pm shape(5), where exp = "pp_exp p"] unfolding hv(1) sc by simp
  have f: "map (\<lambda>octets. hd octets \<noteq> 0) stated = map (not_square ec) (butlast Ps)" "map (\<lambda>octets. int_from_bytes (tl octets)) stated = map px (butlast Ps)"
    using stated_value(4) [OF c] bl unfolding st by (auto simp: stated_octets_def)
  have rp: "rp = \<lparr>rp_exp = pp_exp p, rp_mantissa = pp_mantissa p, rp_min_value = none_if_zero (pp_min_value p),
      rp_signs = map (not_square ec) (butlast Ps), rp_ring_commitments = map px (butlast Ps), rp_sig = sg\<rparr>" "rp_assert_valid rp = Inr ()"
    using h(6) unfolding f by (auto simp: init_range_proof_def Let_def rbind_eq_Inr_iff)
  have "proved_by (rnd 2) ec hf H blind value extra p prefix chain secs sg rp"
    unfolding proved_by_def Let_def Ps_def [symmetric]
    using ok blind h(1) p(5) hv(2) rp h(5) [unfolded st rings] secs_def by blast
  then show ?thesis by (rule that) (rule p)+
qed

section \<open>What the verifier makes of it\<close>

definition proof_rings :: "curve \<Rightarrow> point \<Rightarrow> proof_params \<Rightarrow> int list \<Rightarrow> apoint list list" where
  "proof_rings ec H p secs =
     expanded ec (ec_minus ec (ec_times ec (pp_scale p) H)) (head_points ec H (pp_scale p) secs (pp_sign_key_idx p)) (pp_rsizes p)"

definition proof_signer :: "curve \<Rightarrow> point \<Rightarrow> proof_params \<Rightarrow> nonce_chain \<Rightarrow> int list \<Rightarrow> nat \<Rightarrow> rp_signer" where
  "proof_signer ec H p chain secs i =
     \<lparr>sr_ring = proof_rings ec H p secs ! i, sr_k = nc_draws chain ! i ! (pp_sign_key_idx p ! i), sr_sec = secs ! i,
      sr_idx = pp_sign_key_idx p ! i, sr_draws = nc_draws chain ! i\<rparr>"

lemma or_zero_none [simp]: "or_zero (none_if_zero m) = m"
  by (simp add: or_zero_def none_if_zero_def)

lemma last_shifted_facts:
  assumes "blinds \<noteq> []" "n dvd sum_list blinds" "\<forall>s \<in> set (butlast blinds). 0 < s \<and> s < n" "0 < n" "last (last_shifted blinds blind n) \<noteq> 0"
  shows "length (last_shifted blinds blind n) = length blinds" "n dvd (blind - sum_list (last_shifted blinds blind n))"
    "\<forall>s \<in> set (last_shifted blinds blind n). 0 < s \<and> s < n"
proof -
  have e: "blinds = butlast blinds @ [last blinds]" using assms(1) by simp
  show "length (last_shifted blinds blind n) = length blinds" using assms(1) by (simp add: last_shifted_def)
  have "sum_list blinds = sum_list (butlast blinds) + last blinds" by (subst e) simp
  moreover have "n dvd (last blinds + blind - (last blinds + blind) mod n)" by simp
  ultimately have "n dvd ((last blinds + blind - (last blinds + blind) mod n) - sum_list blinds)" using dvd_diff [OF _ assms(2)] by blast
  then show "n dvd (blind - sum_list (last_shifted blinds blind n))"
    using \<open>sum_list blinds = sum_list (butlast blinds) + last blinds\<close> by (simp add: last_shifted_def algebra_simps)
  have "0 \<le> (last blinds + blind) mod n" "(last blinds + blind) mod n < n" using assms(4) by simp_all
  then show "\<forall>s \<in> set (last_shifted blinds blind n). 0 < s \<and> s < n"
    using assms(3,5) by (auto simp: last_shifted_def)
qed

lemma proof_rings_nth:
  assumes c: "cosign_curve ec" and H: "member ec H" and ok: "params_ok value p" and i: "i < length (pp_rsizes p)"
  shows "proof_rings ec H p secs ! i = ring_keys ec (ec_times ec (- (4 ^ i * pp_scale p)) H)
      (committed ec H (secs ! i) (int (pp_sign_key_idx p ! i) * pp_scale p * 4 ^ i)) (pp_rsizes p ! i)"
    "length (proof_rings ec H p secs ! i) = pp_rsizes p ! i"
    "proof_rings ec H p secs ! i ! (pp_sign_key_idx p ! i) = aff_of (ec_times ec (secs ! i) (gen ec))"
proof -
  note s = params_shape [OF ok] and v = cosignD(1) [OF c]
  let ?Ps = "head_points ec H (pp_scale p) secs (pp_sign_key_idx p)" and ?j = "pp_sign_key_idx p ! i"
  have l: "length ?Ps = length (pp_rsizes p)" using s(2) by (simp add: head_points_def)
  have m: "member ec (ec_times ec (pp_scale p) H)" by (rule member_closed(3) [OF H])
  have "ec_times ec (4 ^ i) (ec_minus ec (ec_times ec (pp_scale p) H)) = ec_times ec (- (4 ^ i * pp_scale p)) H"
    unfolding minus_times [OF H] times_times [OF H] by simp
  then show r: "proof_rings ec H p secs ! i = ring_keys ec (ec_times ec (- (4 ^ i * pp_scale p)) H)
      (committed ec H (secs ! i) (int ?j * pp_scale p * 4 ^ i)) (pp_rsizes p ! i)"
    using expanded_nth [OF _ l member_closed(2) [OF m], of i] i s(2) l by (simp add: proof_rings_def head_points_def)
  show "length (proof_rings ec H p secs ! i) = pp_rsizes p ! i" unfolding r by (simp add: ring_keys_def)
  have j: "?j < pp_rsizes p ! i" using s(2,3) i by (simp add: list_all2_conv_all_nth)
  have "ec_plus ec (committed ec H (secs ! i) (int ?j * pp_scale p * 4 ^ i)) (committed ec H 0 (int ?j * (- (4 ^ i * pp_scale p))))
      = committed ec H (secs ! i) 0"
    unfolding committed_add [OF v H] by (simp add: algebra_simps)
  moreover have "committed ec H 0 k = ec_times ec k H" "committed ec H k 0 = ec_times ec k (gen ec)" for k
    using ecn.zero_add [OF memberD(2) [OF member_closed(3) [OF H]]] by (simp_all add: committed_def)
  ultimately show "proof_rings ec H p secs ! i ! ?j = aff_of (ec_times ec (secs ! i) (gen ec))"
    unfolding r ring_keys_nth [OF j] times_times [OF H] by (simp only:)
qed

lemma verifier_rings:
  assumes c: "cosign_curve ec" and H: "member ec H" and d: "draws ec rnd"
    and P: "proved_by rnd0 ec hf H blind value extra p prefix chain secs sg rp"
    and G: "nc_blinding_factors chain \<noteq> []" "cv_n ec dvd sum_list (nc_blinding_factors chain)"
      "\<forall>s \<in> set (butlast (nc_blinding_factors chain)). 0 < s \<and> s < cv_n ec" "length (nc_blinding_factors chain) = length (pp_rsizes p)"
  shows "pubk_rings rnd rp (aff_of (committed ec H blind value)) (aff_of H) True ec = Inr (proof_rings ec H p secs)"
proof -
  let ?C = "committed ec H blind value" and ?min = "pp_min_value p"
  note v = cosignD(1) [OF c] and n = curve_n [OF cosignD(1) [OF c]]
  define Ps where "Ps = head_points ec H (pp_scale p) secs (pp_sign_key_idx p)"
  have a: "params_ok value p" "secs = last_shifted (nc_blinding_factors chain) blind (cv_n ec)" "last secs \<noteq> 0" "\<forall>P \<in> set Ps. P \<noteq> Inf"
      "rp = \<lparr>rp_exp = pp_exp p, rp_mantissa = pp_mantissa p, rp_min_value = none_if_zero ?min,
            rp_signs = map (not_square ec) (butlast Ps), rp_ring_commitments = map px (butlast Ps), rp_sig = sg\<rparr>"
      "rp_assert_valid rp = Inr ()"
    using P unfolding proved_by_def Let_def Ps_def [symmetric] by blast+
  note s = params_shape [OF a(1)]
  note f = last_shifted_facts [OF G(1-3) n(2) a(3) [unfolded a(2)], folded a(2)]
  have Pm: "\<forall>P \<in> set Ps. member ec P" unfolding Ps_def by (rule head_points_member [OF v H])
  have lP: "length Ps = length (pp_rsizes p)" using s(2) by (simp add: Ps_def head_points_def)
  then have ne: "Ps \<noteq> []" using s(1) by auto
  then have spl: "Ps = butlast Ps @ [last Ps]" by simp
  have bl: "\<forall>P \<in> set (butlast Ps). member ec P" and lm: "member ec (last Ps)" "last Ps \<noteq> Inf"
    using Pm a(4) ne in_set_butlastD by (fast, simp_all)
  have mm: "member ec (ec_times ec ?min H)" by (rule member_closed(3) [OF H])
  let ?X = "ec_plus ec (ec_times ec ?min H) (psum ec (butlast Ps))"
  have Xm: "member ec ?X" by (rule member_closed(1) [OF mm psum_member [OF c bl]])
  have "rmap (\<lambda>(x, sign). tagged_point_from_x x sign ec) (map (\<lambda>P. (px P, not_square ec P)) (butlast Ps)) = Inr (map aff_of (butlast Ps))"
    unfolding rmap_Inr_iff list_all2_map1 list_all2_map2 prod.case
    by (rule list.rel_refl_strong, rule stated_value(2) [OF c]) (use bl a(4) in_set_butlastD in fast)+
  then have stated: "rmap (\<lambda>(x, sign). tagged_point_from_x x sign ec) (zip (map px (butlast Ps)) (map (not_square ec) (butlast Ps)))
      = Inr (map aff_of (butlast Ps))" by (simp add: zip_map_map zip_same_conv_map comp_def)
  have start: "(if ?min \<noteq> 0 then mult (rnd 0) ?min (Some (aff_of H)) ec else Inr INF_aff) = Inr (aff_of (ec_times ec ?min H))"
    using mult_point [OF c H drawsD [OF d]] by simp
  have mH: "ec_times ec ?min H = committed ec H 0 ?min"
    using ecn.zero_add [OF memberD(2) [OF mm]] by (simp add: committed_def)
  have C: "?C = ec_plus ec ?X (last Ps)"
  proof -
    have "ec_plus ec ?X (last Ps) = ec_plus ec (ec_times ec ?min H) (psum ec Ps)"
      using plus_assoc [OF mm psum_member [OF c bl] lm(1)] psum_append [OF c bl, of "[last Ps]"] lm(1) spl by simp
    also have "psum ec Ps = committed ec H (sum_list secs) (pp_scale p * pp_v p)"
      using head_points_sum [OF v H, of secs "pp_sign_key_idx p" "pp_scale p"] f(1) G(4) s(2,4) by (simp add: Ps_def)
    also have "ec_plus ec (ec_times ec ?min H) (committed ec H (sum_list secs) (pp_scale p * pp_v p)) = committed ec H (sum_list secs) value"
      unfolding mH committed_add [OF v H] using a(1) by (simp add: params_ok_def mult.commute)
    also have "\<dots> = ?C" by (rule committed_cong [OF v f(2), symmetric])
    finally show ?thesis by simp
  qed
  have "ec_plus ec ?C (ec_minus ec ?X) = last Ps"
    unfolding C using plus_minus_cancel [OF Xm lm(1)] plus_comm [OF member_closed(2) [OF Xm] member_closed(1) [OF Xm lm(1)]] by simp
  then have "end": "add_aff_var ec (aff_of ?C) (negate ec (aff_of ?X)) = Inr (aff_of (last Ps))"
    unfolding negate_point [OF Xm] using add_aff_point [OF member_committed [OF v H] member_closed(2) [OF Xm]] by simp
  have sc: "10 ^ nat (max (pp_exp p) 0) = pp_scale p" and rs: "rp_rsizes (pp_mantissa p) = Inr (pp_rsizes p)"
    using a(1) by (simp_all add: params_ok_def)
  have "map aff_of (butlast Ps) @ [aff_of (last Ps)] = map aff_of Ps" by (subst (3) spl) simp
  then have ex: "pub_expand (rnd 1) (map aff_of (butlast Ps) @ [aff_of (last Ps)]) (aff_of H) (pp_exp p) (pp_rsizes p) ec = Inr (proof_rings ec H p secs)"
    using pub_expand_value [OF c drawsD [OF d] H lP Pm s(5), where exp = "pp_exp p"] by (simp add: proof_rings_def Ps_def sc)
  have ni: "aff_of (last Ps) \<noteq> INF_aff" using aff_of_INF [OF lm(1)] lm(2) by simp
  have flds: "rp_exp rp = pp_exp p" "rp_mantissa rp = pp_mantissa p" "rp_min_value rp = none_if_zero ?min"
      "rp_signs rp = map (not_square ec) (butlast Ps)" "rp_ring_commitments rp = map px (butlast Ps)"
    by (simp_all add: a(5))
  show ?thesis
    by (simp only: pubk_rings_def checked_proof_def if_True if_False simp_thms a(6) rbind_simps require_point [OF c member_committed [OF v H]]
      flds length_map or_zero_none stated start fold_points [OF c mm bl] "end" ni rs ex)
qed

lemma proof_walked:
  assumes c: "cosign_curve ec" and H: "member ec H" and d: "draws ec rnd0" "draws ec rnd"
    and P: "proved_by rnd0 ec hf H blind value extra p prefix chain secs sg rp"
    and G: "rp_genrand seed (pp_rsizes p) prep ec hf = Some (Inr chain)"
    and inf: "\<forall>ring \<in> set (proof_rings ec H p secs). INF_aff \<notin> set ring"
  shows "\<exists>ev. verify_rings rnd (aff_of (committed ec H blind value)) rp (aff_of H) extra ec hf = Inr ev \<and> length ev = length (pp_rsizes p)
    \<and> bs_s sg = map (\<lambda>i. bs_s sg ! i) [0..<length (pp_rsizes p)]
    \<and> (\<forall>i < length (pp_rsizes p). ring_answers ec (proof_signer ec H p chain secs i) (ev ! i) (bs_s sg ! i))"
proof -
  note v = cosignD(1) [OF c] and n = curve_n [OF cosignD(1) [OF c]]
  define Ps where "Ps = head_points ec H (pp_scale p) secs (pp_sign_key_idx p)"
  define m where "m = hf_digest hf (prefix @ concat (map (stated_octets ec) (butlast Ps)) @ extra)"
  let ?N = "length (pp_rsizes p)" and ?rings = "proof_rings ec H p secs"
  define sgn where "sgn = proof_signer ec H p chain secs"
  have pr: "expanded ec (ec_minus ec (ec_times ec (pp_scale p) H)) Ps (pp_rsizes p) = ?rings" by (simp only: proof_rings_def Ps_def)
  have a: "params_ok value p" "secs = last_shifted (nc_blinding_factors chain) blind (cv_n ec)" "last secs \<noteq> 0" "\<forall>P \<in> set Ps. P \<noteq> Inf"
      "rp = \<lparr>rp_exp = pp_exp p, rp_mantissa = pp_mantissa p, rp_min_value = none_if_zero (pp_min_value p),
            rp_signs = map (not_square ec) (butlast Ps), rp_ring_commitments = map px (butlast Ps), rp_sig = sg\<rparr>"
      "hashed_prefix (aff_of (committed ec H blind value)) (aff_of H) (pp_exp p) (pp_mantissa p) (none_if_zero (pp_min_value p)) ec = Inr prefix"
      "rp_borromean_sign rnd0 m ?rings (map2 (!) (nc_draws chain) (pp_sign_key_idx p)) secs (pp_sign_key_idx p) (nc_draws chain) ec hf = Inr sg"
    using P unfolding proved_by_def Let_def Ps_def [symmetric] m_def [symmetric] pr by blast+
  note s = params_shape [OF a(1)] and g = genrand_sound [OF G params_shape(1) [OF a(1)] n(2)]
  have bne: "nc_blinding_factors chain \<noteq> []" using g(1) s(1) by auto
  note f = last_shifted_facts [OF bne g(3,4) n(2) a(3) [unfolded a(2)], folded a(2)]
  have lr: "length ?rings = ?N"
    using expanded_length s(2) by (simp add: proof_rings_def head_points_def)
  have Nd: "length (nc_draws chain) = ?N" using arg_cong [OF g(2), of length] by simp
  have ld: "length (nc_draws chain ! i) = pp_rsizes p ! i" if i: "i < ?N" for i
    using i Nd g(2) nth_map [of i "nc_draws chain" length] by simp
  have signers: "map (\<lambda>i. \<lparr>sr_ring = ?rings ! i, sr_k = map2 (!) (nc_draws chain) (pp_sign_key_idx p) ! i, sr_sec = secs ! i,
      sr_idx = pp_sign_key_idx p ! i, sr_draws = nc_draws chain ! i\<rparr>) [0..<?N] = map sgn [0..<?N]"
    using Nd s(2) by (simp add: sgn_def proof_signer_def)
  obtain rs zs where o: "rmap (\<lambda>(i, g). rp_open_ring (rnd0 i) ec hf m i g) (enumerate 0 (map sgn [0..<?N])) = Inr rs"
    and z: "rmap (\<lambda>(i, g). rp_close_ring ec hf m (hf_digest hf (concat rs @ m)) i g) (enumerate 0 (map sgn [0..<?N])) = Inr zs"
    and sg: "init_borromean_sig (hf_digest hf (concat rs @ m)) zs ec True = Inr sg"
    using a(7) unfolding rp_borromean_sign_def Let_def lr signers by (auto simp: rbind_eq_Inr_iff split: if_splits)
  define e0 where "e0 = hf_digest hf (concat rs @ m)"
  have sg': "bs_e0 sg = e0" "bs_s sg = zs" using sg by (auto simp: init_borromean_sig_def e0_def rbind_eq_Inr_iff Let_def)
  have lz: "length rs = ?N" "length zs = ?N" using o z by (simp_all add: rmap_Inr_iff list_all2_conv_all_nth)
  have each: "\<exists>es. rbind (rp_challenge m e0 i 0 ec hf) (\<lambda>e. rp_ring_verify ec hf m i 0 e (zip (?rings ! i) (zs ! i))) = Inr (es, rs ! i)
      \<and> ring_answers ec (sgn i) es (zs ! i)" if i: "i < ?N" for i
  proof -
    have oc: "rp_open_ring (rnd0 i) ec hf m i (sgn i) = Inr (rs ! i)" "rp_close_ring ec hf m e0 i (sgn i) = Inr (zs ! i)"
      using o z i by (simp_all add: rmap_Inr_iff list_all2_conv_all_nth nth_enumerate_eq e0_def)
    note r = proof_rings_nth [OF c H a(1) i, of secs]
    have q: "0 < sr_sec (sgn i)" "sr_sec (sgn i) < cv_n ec" using f(1,3) g(1) i by (simp_all add: sgn_def proof_signer_def)
    have "sr_ring (sgn i) = ?rings ! i" by (simp add: sgn_def proof_signer_def)
    moreover have "\<exists>es. rbind (rp_challenge m e0 i 0 ec hf) (\<lambda>e. rp_ring_verify ec hf m i 0 e (zip (sr_ring (sgn i)) (zs ! i))) = Inr (es, rs ! i)
        \<and> ring_answers ec (sgn i) es (zs ! i)"
    proof (rule signed_ring_walked [OF v cosignD(2) [OF c] drawsD [OF d(1)] q _ _ _ _ _ oc])
      show "\<forall>s \<in> set (sr_draws (sgn i)). s \<noteq> 0"
        using g(5) Nd i nth_mem [of i "nc_draws chain"] by (fastforce simp: sgn_def proof_signer_def)
      show "sr_idx (sgn i) < length (sr_ring (sgn i))" "length (sr_draws (sgn i)) = length (sr_ring (sgn i))"
        using r(2) s(2,3) ld i by (simp_all add: sgn_def proof_signer_def list_all2_conv_all_nth)
      show "INF_aff \<notin> set (sr_ring (sgn i))" using inf lr i by (simp add: sgn_def proof_signer_def)
    qed (use r(3) in \<open>simp add: sgn_def proof_signer_def\<close>)
    ultimately show ?thesis by simp
  qed
  then obtain es where es: "\<And>i. i < ?N \<Longrightarrow> rbind (rp_challenge m e0 i 0 ec hf) (\<lambda>e. rp_ring_verify ec hf m i 0 e (zip (?rings ! i) (zs ! i))) = Inr (es i, rs ! i)"
      "\<And>i. i < ?N \<Longrightarrow> ring_answers ec (sgn i) (es i) (zs ! i)" by metis
  have walk: "rmap (\<lambda>(i, ring, s). rbind (rp_challenge m e0 i 0 ec hf) (\<lambda>e. rp_ring_verify ec hf m i 0 e (zip ring s)))
      (enumerate 0 (zip ?rings zs)) = Inr (map (\<lambda>i. (es i, rs ! i)) [0..<?N])"
    unfolding rmap_Inr_iff list_all2_conv_all_nth using es(1) lr lz by (simp add: nth_enumerate_eq)
  have "map (\<lambda>i. rs ! i) [0..<?N] = rs" using lz(1) by (metis map_nth)
  then have ver: "rp_borromean_verify m ?rings sg ec hf = Inr (map es [0..<?N])"
    using walk sg' by (simp add: rp_borromean_verify_def comp_def flip: e0_def)
  have bl: "member ec P \<and> P \<noteq> Inf" if "P \<in> set (butlast Ps)" for P
    using that in_set_butlastD head_points_member [OF v H] a(4) unfolding Ps_def by fast
  have "rmap (\<lambda>(x, sign_bit). rbind (int_to_bytes x (ec_p_size ec)) (\<lambda>xb. Inr (of_bool sign_bit # xb)))
      (map (\<lambda>P. (px P, not_square ec P)) (butlast Ps)) = Inr (map (stated_octets ec) (butlast Ps))"
    unfolding rmap_Inr_iff list_all2_map1 list_all2_map2 prod.case stated_octets_def
    by (rule list.rel_refl_strong) (use bl stated_value(3) [OF c] in simp)
  then have "rmap (\<lambda>(x, sign_bit). rbind (int_to_bytes x (ec_p_size ec)) (\<lambda>xb. Inr (of_bool sign_bit # xb)))
      (zip (map px (butlast Ps)) (map (not_square ec) (butlast Ps))) = Inr (map (stated_octets ec) (butlast Ps))"
    by (simp add: zip_map_map zip_same_conv_map comp_def)
  then have "ring_message (aff_of (committed ec H blind value)) rp (aff_of H) extra ec hf = Inr m"
    using a(6) by (simp add: ring_message_def a(5) m_def)
  moreover have "pubk_rings rnd rp (aff_of (committed ec H blind value)) (aff_of H) True ec = Inr ?rings"
    by (rule verifier_rings [OF c H d(2) P bne g(3,4,1)])
  ultimately have "verify_rings rnd (aff_of (committed ec H blind value)) rp (aff_of H) extra ec hf = Inr (map es [0..<?N])"
    using ver a(5) by (simp add: verify_rings_def)
  moreover have "zs = map (\<lambda>i. zs ! i) [0..<?N]" using lz(2) by (metis map_nth)
  ultimately show ?thesis using es(2) sg'(2) by (intro exI [of _ "map es [0..<?N]"]) (simp add: sgn_def)
qed

lemma verified_finite:
  assumes "rp_borromean_verify m rings sg ec hf = Inr ev" "map length (bs_s sg) = map length rings"
  shows "\<forall>ring \<in> set rings. INF_aff \<notin> set ring"
proof
  fix ring assume "ring \<in> set rings"
  then obtain i where i: "i < length rings" "ring = rings ! i" by (auto simp: in_set_conv_nth)
  have l: "length (bs_s sg) = length rings" using arg_cong [OF assms(2), of length] by simp
  have li: "length (bs_s sg ! i) = length ring" using arg_cong [OF assms(2), of "\<lambda>xs. xs ! i"] i l by simp
  obtain walked where "rmap (\<lambda>(i, ring, s). rbind (rp_challenge m (bs_e0 sg) i 0 ec hf) (\<lambda>e. rp_ring_verify ec hf m i 0 e (zip ring s)))
      (enumerate 0 (zip rings (bs_s sg))) = Inr walked"
    using assms(1) by (auto simp: rp_borromean_verify_def rbind_eq_Inr_iff)
  then have "rbind (rp_challenge m (bs_e0 sg) i 0 ec hf) (\<lambda>e. rp_ring_verify ec hf m i 0 e (zip ring (bs_s sg ! i))) = Inr (walked ! i)"
    using i l by (simp add: rmap_Inr_iff list_all2_conv_all_nth nth_enumerate_eq)
  then obtain e where "rp_ring_verify ec hf m i 0 e (zip ring (bs_s sg ! i)) = Inr (walked ! i)" by (auto simp: rbind_eq_Inr_iff)
  from walked_finite [OF this] have "\<forall>Q \<in> set (map fst (zip ring (bs_s sg ! i))). Q \<noteq> INF_aff" by simp
  then show "INF_aff \<notin> set ring" using li by auto
qed

lemma range_proof_verifies:
  assumes c: "cosign_curve ec" and H: "member ec H" "H \<noteq> Inf" and d: "\<And>k. draws ec (rnd k)" "draws ec rnd'"
    and S: "rp_sign rnd blind value nonce (aff_of H) min_value exp min_bits message extra ec hf = Some (Inr rp)"
  shows "\<exists>rings. pubk_rings rnd' rp (aff_of (committed ec H blind value)) (aff_of H) True ec = Inr rings
    \<and> (rp_verify rnd' (aff_of (committed ec H blind value)) rp (aff_of H) extra ec hf = Inr True \<longleftrightarrow> (\<forall>ring \<in> set rings. INF_aff \<notin> set ring))"
proof -
  let ?C = "aff_of (committed ec H blind value)"
  obtain p prefix prep chain secs sg where P: "proved_by (rnd 2) ec hf H blind value extra p prefix chain secs sg rp"
      "rp_genrand (nonce @ prefix) (pp_rsizes p) prep ec hf = Some (Inr chain)"
    by (rule rp_sign_parts [OF c H d(1) S])
  have a: "params_ok value p" "rp_assert_valid rp = Inr ()" "rp_sig rp = sg" "rp_mantissa rp = pp_mantissa p"
    using P(1) unfolding proved_by_def Let_def by auto
  note s = params_shape [OF a(1)] and n = curve_n [OF cosignD(1) [OF c]]
  note g = genrand_sound [OF P(2) s(1) n(2)]
  have bne: "nc_blinding_factors chain \<noteq> []" using g(1) s(1) by auto
  have R: "pubk_rings rnd' rp ?C (aff_of H) True ec = Inr (proof_rings ec H p secs)"
    by (rule verifier_rings [OF c H(1) d(2) P(1) bne g(3,4,1)])
  have rl: "map length (proof_rings ec H p secs) = pp_rsizes p"
    using proof_rings_nth(2) [OF c H(1) a(1)] expanded_length s(2) by (intro nth_equalityI) (simp_all add: proof_rings_def head_points_def)
  have "rp_rsizes (pp_mantissa p) = Inr (pp_rsizes p)" using a(1) by (simp add: params_ok_def)
  then have sl: "map length (bs_s sg) = pp_rsizes p" using a(2,3,4) by (auto simp: rp_assert_valid_def rbind_eq_Inr_iff Let_def split: if_splits)
  have "rp_verify rnd' ?C rp (aff_of H) extra ec hf = Inr True \<longleftrightarrow> (\<exists>ev. verify_rings rnd' ?C rp (aff_of H) extra ec hf = Inr ev)"
    by (cases "verify_rings rnd' ?C rp (aff_of H) extra ec hf") (simp_all add: rp_verify_def caught_false_def rp_assert_as_valid_def a(2))
  moreover have "\<forall>ring \<in> set (proof_rings ec H p secs). INF_aff \<notin> set ring" if V: "verify_rings rnd' ?C rp (aff_of H) extra ec hf = Inr ev" for ev
  proof -
    obtain m where "rp_borromean_verify m (proof_rings ec H p secs) sg ec hf = Inr ev"
      using V R a(3) by (auto simp: verify_rings_def rbind_eq_Inr_iff)
    then show ?thesis by (rule verified_finite) (simp add: rl sl)
  qed
  ultimately show ?thesis using R proof_walked [OF c H(1) d(1) d(2) P] by blast
qed

end
