(* ===== verification/Rangeproof_Rewind.thy ===== *)
theory Rangeproof_Rewind
  imports Rangeproof_Correct
begin

unbundle bit_operations_syntax

text \<open>
  Rewinding a proof that was signed with the same nonce: the generator runs again over zeros, so that the exclusive
  or of what is written with what it draws is what the prover prepared, the message and the value; the secret of
  the last ring gives the blinding factor.
\<close>

section \<open>The same draws over other octets\<close>

definition prep_block :: "curve \<Rightarrow> octets \<Rightarrow> nat \<Rightarrow> nat \<Rightarrow> octets" where
  "prep_block ec prep i j = take (cv_n_size ec) (drop ((i * RING_STRIDE + j) * cv_n_size ec) prep)"

definition masked :: "curve \<Rightarrow> octets \<Rightarrow> int \<Rightarrow> int \<Rightarrow> bool" where
  "masked ec blk x x0 \<longleftrightarrow> (\<exists>b. length b = cv_n_size ec \<and> length blk = cv_n_size ec \<and> x0 = int_from_bytes b \<and> x = int_from_bytes (map2 (XOR) b blk))"

definition zeros :: "curve \<Rightarrow> nat \<Rightarrow> octets" where
  "zeros ec k = replicate (RING_STRIDE * cv_n_size ec * k) 0"

lemma zero_block: "i < k \<Longrightarrow> j < RING_STRIDE \<Longrightarrow> prep_block ec (zeros ec k) i j = replicate (cv_n_size ec) 0"
proof -
  assume i: "i < k" and j: "j < RING_STRIDE"
  have "i * RING_STRIDE + j + 1 \<le> k * RING_STRIDE" using mult_le_mono1 [of "Suc i" k RING_STRIDE] i j by simp
  then have "(i * RING_STRIDE + j + 1) * cv_n_size ec \<le> RING_STRIDE * cv_n_size ec * k"
    using mult_le_mono1 [of "i * RING_STRIDE + j + 1" "k * RING_STRIDE" "cv_n_size ec"] by (simp add: ac_simps)
  then show ?thesis by (simp add: prep_block_def zeros_def min_def algebra_simps)
qed

lemma xor_zeros: "map2 (XOR) b (replicate (length b) (0 :: 8 word)) = b"
  by (induction b) simp_all

lemma xor_twice: "length a = length b \<Longrightarrow> map2 (XOR) (map2 (XOR) a b) a = (b :: 8 word list)"
  by (induction a b rule: list_induct2) (simp_all add: xor.commute xor.left_commute xor.assoc)

lemma draw_ring_masked:
  assumes "draw_ring ec hf prep i st js = Inr (ring, st')" "draw_ring ec hf (zeros ec k) i st js = Inr (ring0, st0)"
    and "i < k" "\<forall>j \<in> set js. j < RING_STRIDE"
  shows "st0 = st' \<and> list_all2 (\<lambda>j (x, x0). masked ec (prep_block ec prep i j) x x0) js (zip ring ring0) \<and> length ring = length js \<and> length ring0 = length js"
  using assms(1,2,4)
proof (induction js arbitrary: st ring ring0)
  case (Cons j js)
  obtain b st1 where b: "next_block ec hf st = (b, st1)" by (cases "next_block ec hf st")
  obtain x ring' where r: "bytes_xor b (prep_block ec prep i j) = Inr x" "draw_ring ec hf prep i st1 js = Inr (ring', st')" "ring = int_from_bytes x # ring'"
    using Cons.prems(1) by (auto simp: b prep_block_def Let_def rbind_eq_Inr_iff split: if_splits)
  obtain x0 ring0' where r0: "bytes_xor b (prep_block ec (zeros ec k) i j) = Inr x0" "draw_ring ec hf (zeros ec k) i st1 js = Inr (ring0', st0)"
      "ring0 = int_from_bytes x0 # ring0'"
    using Cons.prems(2) by (auto simp: b prep_block_def Let_def rbind_eq_Inr_iff split: if_splits)
  have "j < RING_STRIDE" using Cons.prems(3) by simp
  then have x0: "bytes_xor b (replicate (cv_n_size ec) 0) = Inr x0" using r0(1) zero_block [OF assms(3)] by simp
  then have len: "length b = cv_n_size ec" by (auto simp: bytes_xor_def split: if_splits)
  have lb: "length b = cv_n_size ec" "x0 = b"
    using x0 xor_zeros [of b] by (simp_all add: len bytes_xor_def)
  have "masked ec (prep_block ec prep i j) (int_from_bytes x) (int_from_bytes x0)"
    using r(1) lb unfolding masked_def by (intro exI [of _ b]) (auto simp: bytes_xor_def split: if_splits)
  then show ?case using Cons.IH [OF r(2) r0(2)] Cons.prems(3) r(3) r0(3) by simp
qed simp

lemma draw_rings_masked:
  assumes "draw_rings ec hf prep i acc st ks = Some (Inr (secs, drawn))" "draw_rings ec hf (zeros ec k) i acc st ks = Some (Inr (secs0, drawn0))"
    and "i + length ks \<le> k" "\<forall>sz \<in> set ks. sz \<le> RING_STRIDE"
  shows "secs0 = secs \<and> (\<forall>i' < length ks. \<forall>j < ks ! i'. masked ec (prep_block ec prep (i + i') j) (drawn ! i' ! j) (drawn0 ! i' ! j))
    \<and> map length drawn0 = ks"
  using assms
proof (induction ks arbitrary: i acc st secs drawn secs0 drawn0)
  case (Cons sz ks)
  obtain sec st1 where s: "(if ks \<noteq> [] then draw_secret ec hf st else Some ((- acc) mod cv_n ec, st)) = Some (sec, st1)"
    using Cons.prems(1) by (fastforce split: option.splits)
  obtain ring st2 secs' drawn' where r: "draw_ring ec hf prep i st1 [0..<sz] = Inr (ring, st2)"
      "draw_rings ec hf prep (Suc i) ((acc + sec) mod cv_n ec) st2 ks = Some (Inr (secs', drawn'))" "secs = sec # secs'" "drawn = ring # drawn'"
    using Cons.prems(1) unfolding draw_rings.simps s by (auto simp: obind_Inr_iff)
  obtain ring0 st3 secs0' drawn0' where r0: "draw_ring ec hf (zeros ec k) i st1 [0..<sz] = Inr (ring0, st3)"
      "draw_rings ec hf (zeros ec k) (Suc i) ((acc + sec) mod cv_n ec) st3 ks = Some (Inr (secs0', drawn0'))" "secs0 = sec # secs0'" "drawn0 = ring0 # drawn0'"
    using Cons.prems(2) unfolding draw_rings.simps s by (auto simp: obind_Inr_iff)
  have "i < k" "\<forall>j \<in> set [0..<sz]. j < RING_STRIDE" using Cons.prems(3,4) by auto
  note d = draw_ring_masked [OF r(1) r0(1) this]
  have IH: "secs0' = secs' \<and> (\<forall>i' < length ks. \<forall>j < ks ! i'. masked ec (prep_block ec prep (Suc i + i') j) (drawn' ! i' ! j) (drawn0' ! i' ! j))
      \<and> map length drawn0' = ks"
  proof (rule Cons.IH [OF r(2)])
    show "draw_rings ec hf (zeros ec k) (Suc i) ((acc + sec) mod cv_n ec) st2 ks = Some (Inr (secs0', drawn0'))" using r0(2) d by simp
    show "Suc i + length ks \<le> k" "\<forall>sz \<in> set ks. sz \<le> RING_STRIDE" using Cons.prems(3,4) by simp_all
  qed
  have "masked ec (prep_block ec prep (i + i') j) (drawn ! i' ! j) (drawn0 ! i' ! j)" if i': "i' < length (sz # ks)" and j: "j < (sz # ks) ! i'" for i' j
  proof (cases i')
    case 0
    then have js: "j < sz" using j by simp
    then have "masked ec (prep_block ec prep i j) (ring ! j) (ring0 ! j)"
      using list_all2_nthD [OF conjunct1 [OF conjunct2 [OF d]], of j] conjunct2 [OF conjunct2 [OF d]] js by simp
    then show ?thesis using 0 r(4) r0(4) by simp
  next
    case (Suc l)
    then have "masked ec (prep_block ec prep (Suc i + l) j) (drawn' ! l ! j) (drawn0' ! l ! j)" using IH i' j by simp
    then show ?thesis using Suc r(4) r0(4) by simp
  qed
  moreover have "secs0 = secs" using IH r(3) r0(3) by simp
  moreover have "map length drawn0 = sz # ks" using IH r0(4) d by simp
  ultimately show ?case by blast
qed simp

lemma genrand_masked:
  assumes "rp_genrand seed ks prep ec hf = Some (Inr chain)" "rp_genrand seed ks (zeros ec (length ks)) ec hf = Some (Inr chainz)"
    and "\<forall>sz \<in> set ks. sz \<le> RING_STRIDE"
  shows "nc_blinding_factors chainz = nc_blinding_factors chain"
    "\<And>i j. i < length ks \<Longrightarrow> j < ks ! i \<Longrightarrow> masked ec (prep_block ec prep i j) (nc_draws chain ! i ! j) (nc_draws chainz ! i ! j)"
    "map length (nc_draws chainz) = ks"
proof -
  obtain secs drawn where r: "draw_rings ec hf prep 0 0 (blocks seed hf) ks = Some (Inr (secs, drawn))"
      "chain = \<lparr>nc_blinding_factors = secs, nc_draws = drawn\<rparr>"
    using assms(1) by (auto simp: rp_genrand_def obind_Inr_iff)
  obtain secs0 drawn0 where r0: "draw_rings ec hf (zeros ec (length ks)) 0 0 (blocks seed hf) ks = Some (Inr (secs0, drawn0))"
      "chainz = \<lparr>nc_blinding_factors = secs0, nc_draws = drawn0\<rparr>"
    using assms(2) by (auto simp: rp_genrand_def obind_Inr_iff)
  from draw_rings_masked [OF r(1) r0(1) _ assms(3)]
  show "nc_blinding_factors chainz = nc_blinding_factors chain"
    "\<And>i j. i < length ks \<Longrightarrow> j < ks ! i \<Longrightarrow> masked ec (prep_block ec prep i j) (nc_draws chain ! i ! j) (nc_draws chainz ! i ! j)"
    "map length (nc_draws chainz) = ks"
    unfolding r(2) r0(2) by simp_all
qed

lemma masked_xor:
  assumes "masked ec blk x x0"
  shows "ch32xor x x0 ec = Inr blk" "blk = replicate (cv_n_size ec) 0 \<Longrightarrow> x = x0"
proof -
  obtain b where b: "length b = cv_n_size ec" "length blk = cv_n_size ec" "x0 = int_from_bytes b" "x = int_from_bytes (map2 (XOR) b blk)"
    using assms by (auto simp: masked_def)
  have "int_to_bytes x (cv_n_size ec) = Inr (map2 (XOR) b blk)" "int_to_bytes x0 (cv_n_size ec) = Inr b"
    unfolding int_to_bytes_Inr_iff using b by simp_all
  then show "ch32xor x x0 ec = Inr blk" using b xor_twice [of b blk] by (simp add: ch32xor_def bytes_xor_def)
  show "x = x0" if "blk = replicate (cv_n_size ec) 0" using that b xor_zeros [of b] by simp
qed

section \<open>What is prepared\<close>

lemma length_overwrite: "from \<le> to \<Longrightarrow> length ys = to - from \<Longrightarrow> to \<le> length xs \<Longrightarrow> length (overwrite xs from to ys) = length xs"
  by (simp add: overwrite_def)

lemma overwrite_slice:
  assumes "from \<le> to" "length ys = to - from" "to \<le> length xs"
  shows "take (to - from) (drop from (overwrite xs from to ys)) = ys"
    "n + k \<le> from \<Longrightarrow> take k (drop n (overwrite xs from to ys)) = take k (drop n xs)"
    "to \<le> n \<Longrightarrow> take k (drop n (overwrite xs from to ys)) = take k (drop n xs)"
  using assms by (auto simp: overwrite_def take_drop min_def)

text \<open>The octets of the value, as they are written at its position.\<close>

definition value_octets :: "octets \<Rightarrow> octets" where
  "value_octets vb = [128] @ replicate 7 0 @ vb @ vb @ vb"

lemma value_octets_facts:
  assumes "length vb = 8"
  shows "length (value_octets vb) = 32" "bit (value_octets vb ! 0) 7" "octets_slice (value_octets vb) 8 16 = vb"
    "octets_slice (value_octets vb) 16 24 = vb" "octets_slice (value_octets vb) 24 32 = vb"
proof -
  have "bit (128 :: 8 word) 7" by simp
  then show "bit (value_octets vb ! 0) 7" by (simp add: value_octets_def)
qed (use assms in \<open>simp_all add: value_octets_def octets_slice_def\<close>)

definition value_place :: "nat list \<Rightarrow> nat \<Rightarrow> nat" where
  "value_place ks d = last ks - 1 - (if d = last ks - 1 then 1 else 0)"

lemma rp_prep_blocks:
  assumes P: "rp_prep ks v d message ec = Inr prep" and n: "cv_n_size ec = 32" and k: "k = length ks - 1" "ks \<noteq> []"
    and last: "last ks \<le> 4"
  shows "length message \<le> 128 * k" "take (128 * k) prep = message @ replicate (128 * k - length message) 0"
    "j < 4 \<Longrightarrow> last ks \<le> 1 \<or> j \<noteq> value_place ks d \<Longrightarrow> prep_block ec prep k j = replicate 32 0"
    "1 < last ks \<Longrightarrow> \<exists>vb. int_to_bytes v 8 = Inr vb \<and> prep_block ec prep k (value_place ks d) = value_octets vb"
proof -
  show m: "length message \<le> 128 * k" using P n k by (simp add: rp_prep_def message_room_def RING_STRIDE_def split: if_splits)
  define base where "base = message @ replicate (128 * Suc k - length message) (0 :: 8 word)"
  have L: "length ks = Suc k" using k by (cases ks) simp_all
  have ow: "overwrite (replicate (RING_STRIDE * cv_n_size ec * length ks) 0) 0 (length message) message = base"
    using m by (simp add: overwrite_def base_def n L RING_STRIDE_def)
  have lb: "length base = 128 * Suc k" using m by (simp add: base_def)
  have head: "take (128 * k) base = message @ replicate (128 * k - length message) 0" using m by (simp add: base_def min_def)
  have tail: "take 32 (drop ((k * 4 + j) * 32) base) = replicate 32 0" if "j < 4" for j
    using that m by (simp add: base_def min_def)
  have "take (128 * k) prep = message @ replicate (128 * k - length message) 0
      \<and> (\<forall>j<4. last ks \<le> 1 \<or> j \<noteq> value_place ks d \<longrightarrow> prep_block ec prep k j = replicate 32 0)
      \<and> (1 < last ks \<longrightarrow> (\<exists>vb. int_to_bytes v 8 = Inr vb \<and> prep_block ec prep k (value_place ks d) = value_octets vb))"
  proof (cases "1 < last ks")
    case False
    then have "prep = base" using P m n ow by (simp add: rp_prep_def message_room_def RING_STRIDE_def L)
    then show ?thesis using head tail False by (simp add: prep_block_def n RING_STRIDE_def)
  next
    case True
    let ?o = "(k * 4 + value_place ks d) * 32"
    have w: "value_place ks d < 4" using last by (simp add: value_place_def)
    obtain vb where vb: "int_to_bytes v 8 = Inr vb" "prep = overwrite base ?o (?o + 32) (value_octets vb)"
      using P m n True unfolding rp_prep_def Let_def ow value_octets_def [symmetric]
      by (auto simp: rbind_eq_Inr_iff message_room_def RING_STRIDE_def L value_place_def MIN_VALUE_SIZE_def split: if_splits)
    have l: "length vb = 8" using vb(1) by (simp add: int_to_bytes_Inr_iff)
    have o: "?o \<le> ?o + 32" "length (value_octets vb) = ?o + 32 - ?o" "?o + 32 \<le> length base"
      using w lb value_octets_facts(1) [OF l] by simp_all
    note ov = overwrite_slice [OF o]
    have "take (128 * k) prep = message @ replicate (128 * k - length message) 0" using ov(2) [of 0 "128 * k"] head unfolding vb(2) by simp
    moreover have "prep_block ec prep k (value_place ks d) = value_octets vb"
      using ov(1) by (simp add: prep_block_def n RING_STRIDE_def vb(2))
    moreover have "prep_block ec prep k j = replicate 32 0" if j: "j < 4" "j \<noteq> value_place ks d" for j
    proof (cases "j < value_place ks d")
      case True
      then show ?thesis using ov(2) [of "(k * 4 + j) * 32" 32] tail [OF j(1)] by (simp add: prep_block_def n RING_STRIDE_def vb(2))
    next
      case False
      then have "?o + 32 \<le> (k * 4 + j) * 32" using j by simp
      from ov(3) [OF this, of 32] tail [OF j(1)] show ?thesis by (simp add: prep_block_def n RING_STRIDE_def vb(2))
    qed
    ultimately show ?thesis using vb(1) True by simp
  qed
  then show "take (128 * k) prep = message @ replicate (128 * k - length message) 0"
    "j < 4 \<Longrightarrow> last ks \<le> 1 \<or> j \<noteq> value_place ks d \<Longrightarrow> prep_block ec prep k j = replicate 32 0"
    "1 < last ks \<Longrightarrow> \<exists>vb. int_to_bytes v 8 = Inr vb \<and> prep_block ec prep k (value_place ks d) = value_octets vb"
    by blast+
qed

text \<open>The blocks in their order are the octets themselves.\<close>

lemma concat_chunks: "length xs = q * n \<Longrightarrow> concat (map (\<lambda>m. take n (drop (m * n) xs)) [0..<q]) = xs"
proof (induction q arbitrary: xs)
  case (Suc q)
  have same: "take n (drop (m * n) (take (q * n) xs)) = take n (drop (m * n) xs)" if "m < q" for m
  proof -
    have "Suc m * n \<le> q * n" using that by (intro mult_le_mono1) simp
    then show ?thesis by (simp add: drop_take min_def le_diff_conv2)
  qed
  have "map (\<lambda>m. take n (drop (m * n) xs)) [0..<q] = map (\<lambda>m. take n (drop (m * n) (take (q * n) xs))) [0..<q]"
    by (rule map_cong) (simp_all add: same)
  moreover have "concat (map (\<lambda>m. take n (drop (m * n) (take (q * n) xs))) [0..<q]) = take (q * n) xs"
    by (rule Suc.IH) (simp add: Suc.prems)
  ultimately have "concat (map (\<lambda>m. take n (drop (m * n) xs)) [0..<q]) = take (q * n) xs" by (simp only:)
  moreover have "take n (drop (q * n) xs) = drop (q * n) xs" using Suc.prems by simp
  ultimately show ?case by simp
qed simp

lemma positions: "map (\<lambda>(i, j). i * 4 + j) (concat (map (\<lambda>i. map (Pair i) [0..<4]) [0..<k])) = [0..<k * 4]"
proof (induction k)
  case (Suc k)
  have "[k * 4..<Suc k * 4] = map (\<lambda>j. k * 4 + j) [0..<4]" by (simp add: upt_rec [of "k * 4"] upt_rec)
  moreover have "[0..<Suc k * 4] = [0..<k * 4] @ [k * 4..<Suc k * 4]" using upt_add_eq_append [of 0 "k * 4" 4] by (simp add: add.commute)
  ultimately show ?case using Suc by (simp add: comp_def)
qed simp

lemma concat_blocks:
  assumes "128 * k \<le> length prep" "cv_n_size ec = 32"
  shows "concat (map (\<lambda>(i, j). prep_block ec prep i j) (concat (map (\<lambda>i. map (Pair i) [0..<4]) [0..<k]))) = take (128 * k) prep"
proof -
  have "map (\<lambda>(i, j). prep_block ec prep i j) (concat (map (\<lambda>i. map (Pair i) [0..<4]) [0..<k]))
      = map (\<lambda>m. take 32 (drop (m * 32) prep)) [0..<k * 4]"
    unfolding positions [symmetric] map_map by (rule map_cong) (auto simp: prep_block_def RING_STRIDE_def assms(2))
  also have "\<dots> = map (\<lambda>m. take 32 (drop (m * 32) (take (128 * k) prep))) [0..<k * 4]"
    by (rule map_cong) (auto simp: drop_take min_def)
  also have "concat \<dots> = take (128 * k) prep" by (rule concat_chunks) (use assms(1) in simp)
  finally show ?thesis .
qed

lemma length_without_two:
  assumes "a \<noteq> b" "a < n" "b < n"
  shows "length (filter (\<lambda>j. j \<noteq> a \<and> j \<noteq> b) [0..<n]) = n - 2"
proof -
  have "length (filter (\<lambda>j. j \<noteq> a \<and> j \<noteq> b) [0..<n]) = card ({0..<n} - {a, b})"
    by (subst distinct_card [symmetric]) (auto intro: arg_cong [of _ _ card])
  also have "\<dots> = n - 2" using assms by (subst card_Diff_subset) auto
  finally show ?thesis .
qed

section \<open>What is read back\<close>

lemma recovered_nonce: "0 \<le> k \<Longrightarrow> k < cv_n ec \<Longrightarrow> recover_k x e ((k - e * x) mod cv_n ec) ec = k"
  by (simp add: recover_k_def mod_add_left_eq mult.commute)

lemma recovered_secret:
  assumes p: "prime_int (cv_n ec)" and e: "0 < e" "e < cv_n ec" and x: "0 \<le> x" "x < cv_n ec"
  shows "recover_x k e ((k - e * x) mod cv_n ec) ec = Inr x"
proof -
  have n: "0 < cv_n ec" using e by simp
  have "gcd e (cv_n ec) = 1" using prime_int_coprime [OF p] e zdvd_not_zless by (simp add: coprime_iff_gcd_eq_1)
  then obtain i where i: "py_pow_inv e (cv_n ec) = Some i" by (auto simp: py_pow_inv_def)
  then have d: "cv_n ec dvd (e * i - 1)" using py_pow_inv_Some_iff [OF n] by blast
  have "(k - (k - e * x) mod cv_n ec) * i mod cv_n ec = (k - (k - e * x)) * i mod cv_n ec"
    by (metis mod_diff_right_eq mod_mult_left_eq)
  also have "\<dots> = (x + x * (e * i - 1)) mod cv_n ec" by (simp add: algebra_simps)
  also have "\<dots> = x mod cv_n ec"
    using dvd_mult [OF d, of x] by (metis add.right_neutral dvd_eq_mod_eq_0 mod_add_right_eq)
  also have "\<dots> = x" using x by simp
  finally show ?thesis using i by (simp add: recover_x_def inverse_mod_def)
qed

lemma block_read:
  assumes A: "ring_answers ec g es s" and m: "masked ec blk (sr_draws g ! j) x0" and j: "j < length (sr_draws g)"
    and r: "0 \<le> sr_draws g ! j" "sr_draws g ! j < cv_n ec"
    and d: "b \<longleftrightarrow> j = sr_idx g" "b \<Longrightarrow> sr_k g = sr_draws g ! j \<and> sr_sec g = sec"
  shows "ch32xor (if b then recover_k sec (es ! j) (s ! j) ec else s ! j) x0 ec = Inr blk"
proof -
  have s: "s = (sr_draws g)[sr_idx g := (sr_k g - es ! sr_idx g * sr_sec g) mod cv_n ec]" using A by (simp add: ring_answers_def)
  have "(if b then recover_k sec (es ! j) (s ! j) ec else s ! j) = sr_draws g ! j"
    using d j recovered_nonce [OF r, of sec "es ! j"] by (auto simp: s)
  then show ?thesis using masked_xor(1) [OF m] by simp
qed

text \<open>The encoding of the value is found where it was put.\<close>

lemma value_read:
  assumes m: "masked ec (value_octets vb) (written ! j) (drawn ! j)" and vb: "int_to_bytes v 8 = Inr vb"
    and j: "j < length written" "j < length drawn"
  shows "value_at_position written drawn (int j) ec = Inr (Some (int j, v))"
proof -
  have l: "length vb = 8" "int_from_bytes vb = v" using vb by (simp_all add: int_to_bytes_Inr_iff)
  show ?thesis using value_octets_facts [OF l(1)] masked_xor(1) [OF m] j by (simp add: value_at_position_def l(2))
qed

lemma value_found:
  assumes m: "masked ec (value_octets vb) (written ! value_place ks d) (drawn ! value_place ks d)" and vb: "int_to_bytes v 8 = Inr vb"
    and l: "length written = last ks" "length drawn = last ks" "1 < last ks" "d < last ks"
    and own: "d = last ks - 1 \<Longrightarrow> value_at_position written drawn (int d) ec = Inr None"
  shows "value_encoding ks written drawn ec = Inr (Some (int (value_place ks d), v))"
proof -
  have w: "value_place ks d < last ks" using l(3) by (simp add: value_place_def)
  have R: "value_at_position written drawn (int (value_place ks d)) ec = Inr (Some (int (value_place ks d), v))"
    by (rule value_read [OF m vb]) (simp_all add: l w)
  show ?thesis
  proof (cases "d = last ks - 1")
    case True
    then have "int (last ks) - 1 = int d" "int (last ks) - 2 = int (value_place ks d)" using l(3) by (auto simp: value_place_def)
    then show ?thesis using own [OF True] R by (simp add: value_encoding_def)
  next
    case False
    then have "int (last ks) - 1 = int (value_place ks d)" using l(3) by (simp add: value_place_def)
    then show ?thesis using R by (simp add: value_encoding_def)
  qed
qed

lemma rsizes_shape:
  assumes "rp_rsizes m = Inr ks" "k < length ks" "k = length ks - 1"
  shows "\<forall>i<k. ks ! i = 4" "ks \<noteq> [1] \<longrightarrow> 1 < ks ! k" "ks ! k \<le> 4" "ks = [1] \<longleftrightarrow> m = 0"
proof -
  note nth = rsizes_nth [OF assms(1)] and l = rsizes_length [OF assms(1)]
  have m: "m = 0 \<Longrightarrow> ks = [1]" using assms(1) by (simp add: rp_rsizes_Inr_iff)
  show "\<forall>i<k. ks ! i = 4"
  proof (intro allI impI)
    fix i assume i: "i < k"
    then have "m \<noteq> 0" using m assms(3) by auto
    moreover from this have "2 * int i + 1 < m" using l i assms(2,3) by linarith
    ultimately show "ks ! i = 4" using nth [of i] i assms(2) by simp
  qed
  have v: "ks ! k = (if m = 0 then 1 else if 2 * int k + 1 < m then 4 else 2)" by (rule nth [OF assms(2)])
  have "k = 0" if "ks = [1]" using that assms(3) by simp
  then have e: "ks = [1] \<longleftrightarrow> m = 0" using m v by (cases "m = 0") (auto split: if_splits)
  show "ks = [1] \<longleftrightarrow> m = 0" "ks \<noteq> [1] \<longrightarrow> 1 < ks ! k" "ks ! k \<le> 4" unfolding e v by simp_all
qed

lemma digits4_int: "i < k \<Longrightarrow> int (digits4 v k ! i) = drop_bit (2 * i) v AND 3"
  by (simp add: digits4_def)

lemma concat_zeros: "concat (map (\<lambda>j. replicate n (0 :: 8 word)) xs) = replicate (n * length xs) 0"
  by (induction xs) (simp_all flip: replicate_add)

text \<open>The positions the message is read at: every one of the rings before the last, in order, and those of the last left.\<close>

lemma read_positions:
  assumes k: "ks \<noteq> []" "k = length ks - 1" "\<forall>i < k. ks ! i = 4"
  shows "filter (\<lambda>(i, j). i \<noteq> k \<or> (int j \<noteq> int a \<and> int j \<noteq> int d)) (concat (map (\<lambda>(i, sz). map (Pair i) [0..<sz]) (enumerate 0 ks)))
    = concat (map (\<lambda>i. map (Pair i) [0..<4]) [0..<k]) @ map (Pair k) (filter (\<lambda>j. j \<noteq> a \<and> j \<noteq> d) [0..<last ks])"
proof -
  have "butlast ks = replicate k 4" using k by (intro nth_equalityI) (simp_all add: nth_butlast)
  then have ks: "ks = replicate k 4 @ [last ks]" using append_butlast_last_id [OF k(1)] by simp
  have e: "enumerate 0 ks = map (\<lambda>i. (i, 4)) [0..<k] @ [(k, last ks)]"
    by (subst ks) (simp add: enumerate_append_eq enumerate_replicate_eq)
  have "filter (\<lambda>(i, j). i \<noteq> k \<or> (int j \<noteq> int a \<and> int j \<noteq> int d)) (concat (map (\<lambda>i. map (Pair i) [0..<4]) [0..<k]))
      = concat (map (\<lambda>i. map (Pair i) [0..<4]) [0..<k])" by (rule filter_True) auto
  then show ?thesis unfolding e by (simp add: comp_def filter_map)
qed

text \<open>
  A proof and the two runs of the generator, as the one who rewinds has them: \<open>chain\<close> is what the prover drew over
  \<open>prep\<close>, \<open>chainz\<close> what the same nonce gives over zeros, \<open>ev\<close> the challenges of the verifier and \<open>s\<close> the scalars.
\<close>

definition readable ::
  "curve \<Rightarrow> point \<Rightarrow> int \<Rightarrow> int \<Rightarrow> octets \<Rightarrow> proof_params \<Rightarrow> octets \<Rightarrow> nonce_chain \<Rightarrow> nonce_chain \<Rightarrow> int list \<Rightarrow> int list list \<Rightarrow> int list list \<Rightarrow> bool"
where
  "readable ec H blind value message p prep chain chainz secs ev s \<longleftrightarrow>
     (let ks = pp_rsizes p in
      cv_n_size ec = 32 \<and> prime_int (cv_n ec) \<and> params_ok value p \<and> 0 < blind \<and> blind < cv_n ec
    \<and> rp_prep ks (pp_v p) (last (pp_sign_key_idx p)) message ec = Inr prep
    \<and> nc_blinding_factors chainz = nc_blinding_factors chain \<and> length (nc_blinding_factors chain) = length ks
    \<and> map length (nc_draws chain) = ks \<and> map length (nc_draws chainz) = ks
    \<and> (\<forall>i < length ks. \<forall>j < ks ! i. 0 < nc_draws chain ! i ! j \<and> nc_draws chain ! i ! j < cv_n ec
         \<and> masked ec (prep_block ec prep i j) (nc_draws chain ! i ! j) (nc_draws chainz ! i ! j))
    \<and> secs = last_shifted (nc_blinding_factors chain) blind (cv_n ec) \<and> (\<forall>x \<in> set secs. 0 < x \<and> x < cv_n ec)
    \<and> cv_n ec dvd (blind - sum_list secs)
    \<and> length s = length ks \<and> (\<forall>i < length ks. ring_answers ec (proof_signer ec H p chain secs i) (ev ! i) (s ! i)))"

lemma params_last:
  assumes ok: "params_ok value p" and k: "k = length (pp_rsizes p) - 1"
  shows "k < length (pp_rsizes p)" "last (pp_rsizes p) = pp_rsizes p ! k" "last (pp_sign_key_idx p) = pp_sign_key_idx p ! k"
    "last (pp_sign_key_idx p) < last (pp_rsizes p)" "\<forall>i<k. pp_rsizes p ! i = 4" "pp_rsizes p \<noteq> [1] \<Longrightarrow> 1 < last (pp_rsizes p)"
    "last (pp_rsizes p) \<le> 4" "pp_rsizes p = [1] \<longleftrightarrow> pp_mantissa p = 0"
    "last (pp_rsizes p) \<le> 1 \<or> last (pp_sign_key_idx p) \<noteq> value_place (pp_rsizes p) (last (pp_sign_key_idx p))"
proof -
  note s = params_shape [OF ok]
  have rs: "rp_rsizes (pp_mantissa p) = Inr (pp_rsizes p)" using ok by (simp add: params_ok_def)
  show kl: "k < length (pp_rsizes p)" "last (pp_rsizes p) = pp_rsizes p ! k" using s(1) by (simp_all add: k last_conv_nth)
  show d: "last (pp_sign_key_idx p) = pp_sign_key_idx p ! k" using s(1,2) last_conv_nth [of "pp_sign_key_idx p"] unfolding k by fastforce
  show "last (pp_sign_key_idx p) < last (pp_rsizes p)" unfolding d kl(2) using s(2,3) kl(1) by (simp add: list_all2_conv_all_nth)
  show "\<forall>i<k. pp_rsizes p ! i = 4" "pp_rsizes p \<noteq> [1] \<Longrightarrow> 1 < last (pp_rsizes p)" "last (pp_rsizes p) \<le> 4" "pp_rsizes p = [1] \<longleftrightarrow> pp_mantissa p = 0"
    using rsizes_shape [OF rs kl(1) k] kl(2) by auto
  show "last (pp_rsizes p) \<le> 1 \<or> last (pp_sign_key_idx p) \<noteq> value_place (pp_rsizes p) (last (pp_sign_key_idx p))"
    by (auto simp: value_place_def)
qed

lemma proof_signer_sel [simp]:
  "sr_draws (proof_signer ec H p chain secs i) = nc_draws chain ! i" "sr_idx (proof_signer ec H p chain secs i) = pp_sign_key_idx p ! i"
  "sr_sec (proof_signer ec H p chain secs i) = secs ! i"
  "sr_k (proof_signer ec H p chain secs i) = nc_draws chain ! i ! (pp_sign_key_idx p ! i)"
  by (simp_all add: proof_signer_def)

lemma lengths_nth: "map length xss = ks \<Longrightarrow> length xss = length ks" "map length xss = ks \<Longrightarrow> i < length ks \<Longrightarrow> length (xss ! i) = ks ! i"
  by auto

lemma readableD:
  assumes "readable ec H blind value message p prep chain chainz secs ev s"
  shows "cv_n_size ec = 32" "prime_int (cv_n ec)" "params_ok value p" "0 < blind" "blind < cv_n ec"
    "rp_prep (pp_rsizes p) (pp_v p) (last (pp_sign_key_idx p)) message ec = Inr prep"
    "nc_blinding_factors chainz = nc_blinding_factors chain" "length (nc_blinding_factors chain) = length (pp_rsizes p)"
    "length (nc_draws chainz) = length (pp_rsizes p)"
    "\<And>i. i < length (pp_rsizes p) \<Longrightarrow> length (nc_draws chain ! i) = pp_rsizes p ! i"
    "\<And>i. i < length (pp_rsizes p) \<Longrightarrow> length (nc_draws chainz ! i) = pp_rsizes p ! i"
    "\<And>i j. i < length (pp_rsizes p) \<Longrightarrow> j < pp_rsizes p ! i \<Longrightarrow> 0 < nc_draws chain ! i ! j \<and> nc_draws chain ! i ! j < cv_n ec"
    "\<And>i j. i < length (pp_rsizes p) \<Longrightarrow> j < pp_rsizes p ! i \<Longrightarrow> masked ec (prep_block ec prep i j) (nc_draws chain ! i ! j) (nc_draws chainz ! i ! j)"
    "secs = last_shifted (nc_blinding_factors chain) blind (cv_n ec)" "cv_n ec dvd (blind - sum_list secs)"
    "\<forall>x \<in> set secs. 0 < x \<and> x < cv_n ec" "length s = length (pp_rsizes p)"
    "\<And>i. i < length (pp_rsizes p) \<Longrightarrow> ring_answers ec (proof_signer ec H p chain secs i) (ev ! i) (s ! i)"
  using assms lengths_nth unfolding readable_def Let_def by blast+

text \<open>The secret of the last ring is the blinding factor shifted, or the blinding factor itself for a public value.\<close>

lemma own_secret:
  assumes R: "readable ec H blind value message p prep chain chainz secs ev s" and k: "k = length (pp_rsizes p) - 1" and d: "d = last (pp_sign_key_idx p)"
  shows "recover_x (nc_draws chainz ! k ! d) (ev ! k ! d) (s ! k ! d) ec = Inr (secs ! k)"
    "(secs ! k - nc_blinding_factors chainz ! k) mod cv_n ec = blind" "pp_rsizes p = [1] \<Longrightarrow> secs ! k = blind"
proof -
  note r = readableD [OF R]
  note l = params_last [OF r(3) k, folded d]
  have ne: "pp_rsizes p \<noteq> []" "nc_blinding_factors chain \<noteq> []" using l(1) r(8) by auto
  have ls: "length secs = length (pp_rsizes p)" using r(8,14) l(1) by (simp add: last_shifted_def)
  have dk: "d < pp_rsizes p ! k" using l(2,4) by simp
  have "prep_block ec prep k d = replicate (cv_n_size ec) 0"
    using rp_prep_blocks(3) [OF r(6,1) k ne(1) l(7) _ l(9) [unfolded d], folded d] l(4,7) r(1) by simp
  from masked_xor(2) [OF r(13) [OF l(1) dk] this]
  have same: "nc_draws chainz ! k ! d = nc_draws chain ! k ! d" by simp
  have A: "0 < ev ! k ! d" "ev ! k ! d < cv_n ec" "s ! k = (nc_draws chain ! k)[d := (nc_draws chain ! k ! d - ev ! k ! d * secs ! k) mod cv_n ec]"
    using r(18) [OF l(1)] l(3) unfolding ring_answers_def by simp_all
  have sk: "0 \<le> secs ! k" "secs ! k < cv_n ec" using r(16) ls l(1) nth_mem [of k secs] by (simp_all add: less_imp_le)
  have "s ! k ! d = (nc_draws chain ! k ! d - ev ! k ! d * secs ! k) mod cv_n ec" unfolding A(3) using r(10) [OF l(1)] dk by simp
  then show "recover_x (nc_draws chainz ! k ! d) (ev ! k ! d) (s ! k ! d) ec = Inr (secs ! k)"
    using recovered_secret [OF r(2) A(1,2) sk] unfolding same by simp
  have "last (nc_blinding_factors chain) = nc_blinding_factors chain ! k" "length (butlast (nc_blinding_factors chain)) = k"
    using last_conv_nth [OF ne(2)] r(8) k by simp_all
  then have "secs ! k = (nc_blinding_factors chain ! k + blind) mod cv_n ec" unfolding r(14) last_shifted_def by (metis nth_append_length)
  then show "(secs ! k - nc_blinding_factors chainz ! k) mod cv_n ec = blind" using r(4,5) unfolding r(7) by (simp add: mod_diff_left_eq)
  show "secs ! k = blind" if one: "pp_rsizes p = [1]"
  proof -
    obtain x where x: "secs = [x]" using ls one by (cases secs) auto
    have "0 < x" "x < cv_n ec" "cv_n ec dvd (blind - x)" using r(15,16) by (simp_all add: x)
    then show ?thesis using r(4,5) mod_eq_dvd_iff [of blind "cv_n ec" x] one by (simp add: x k)
  qed
qed

lemma value_of_proof:
  assumes R: "readable ec H blind value message p prep chain chainz secs ev s" and k: "k = length (pp_rsizes p) - 1" and d: "d = last (pp_sign_key_idx p)"
    and l1: "1 < last (pp_rsizes p)" and own: "d = last (pp_rsizes p) - 1 \<Longrightarrow> value_at_position (s ! k) (nc_draws chainz ! k) (int d) ec = Inr None"
  shows "value_encoding (pp_rsizes p) (s ! k) (nc_draws chainz ! k) ec = Inr (Some (int (value_place (pp_rsizes p) d), pp_v p))"
proof -
  note r = readableD [OF R]
  note l = params_last [OF r(3) k, folded d]
  let ?w = "value_place (pp_rsizes p) d"
  have w: "?w < last (pp_rsizes p)" "?w \<noteq> d" using l1 l(9) by (auto simp: value_place_def)
  have ne: "pp_rsizes p \<noteq> []" using l(1) by auto
  obtain vb where vb: "int_to_bytes (pp_v p) 8 = Inr vb" "prep_block ec prep k ?w = value_octets vb"
    using rp_prep_blocks(4) [OF r(6,1) k ne l(7) l1, folded d] by blast
  have A: "s ! k = (nc_draws chain ! k)[d := (nc_draws chain ! k ! d - ev ! k ! d * secs ! k) mod cv_n ec]"
    using r(18) [OF l(1)] l(3) unfolding ring_answers_def by simp
  note len = r(10,11) [OF l(1), folded l(2)]
  show ?thesis
  proof (rule value_found [OF _ vb(1) _ len(2) l1 l(4) own])
    show "masked ec (value_octets vb) (s ! k ! ?w) (nc_draws chainz ! k ! ?w)"
      using r(13) [OF l(1), folded l(2), OF w(1)] w(2) by (simp add: vb(2) A)
  qed (simp_all add: A len)
qed

text \<open>What is read at one position, and then at all of them.\<close>

lemma position_read:
  assumes R: "readable ec H blind value message p prep chain chainz secs ev s" and i: "i < length (pp_rsizes p)" "j < pp_rsizes p ! i"
    and own: "i = length (pp_rsizes p) - 1 \<Longrightarrow> j \<noteq> pp_sign_key_idx p ! i"
  shows "message_block chainz ev s (pp_v p) ec (i, j) = Inr (prep_block ec prep i j)"
proof -
  note r = readableD [OF R]
  have digit: "drop_bit (2 * i) (pp_v p) AND 3 = int (pp_sign_key_idx p ! i)"
    using digits4_int [OF i(1), of "pp_v p"] r(3) by (simp add: params_ok_def)
  have sec: "secs ! i = nc_blinding_factors chain ! i" if "j = pp_sign_key_idx p ! i"
  proof -
    have "i \<noteq> length (pp_rsizes p) - 1" using own that by blast
    then have "i < length (butlast (nc_blinding_factors chain))" using i(1) by (simp add: r(8))
    then show ?thesis by (simp add: r(14) last_shifted_def nth_append nth_butlast)
  qed
  have "ch32xor (if drop_bit (2 * i) (pp_v p) AND 3 = int j then recover_k (nc_blinding_factors chain ! i) (ev ! i ! j) (s ! i ! j) ec
      else s ! i ! j) (nc_draws chainz ! i ! j) ec = Inr (prep_block ec prep i j)"
    by (rule block_read [OF r(18) [OF i(1)]]) (use r(10) [OF i(1)] r(12,13) [OF i] i(2) sec in \<open>auto simp: digit\<close>)
  then show ?thesis unfolding message_block_def Let_def prod.case r(7) .
qed

lemma message_of_proof:
  assumes R: "readable ec H blind value message p prep chain chainz secs ev s" and k: "k = length (pp_rsizes p) - 1" and d: "d = last (pp_sign_key_idx p)"
    and w: "w = value_place (pp_rsizes p) d" and l1: "1 < last (pp_rsizes p)"
  obtains blocks where
    "rmap (message_block chainz ev s (pp_v p) ec) (filter (\<lambda>(i, j). i \<noteq> k \<or> (int j \<noteq> int w \<and> int j \<noteq> int d))
        (concat (map (\<lambda>(i, sz). map (Pair i) [0..<sz]) (enumerate 0 (pp_rsizes p))))) = Inr blocks"
    "concat blocks = message @ replicate (128 * k + 32 * (last (pp_rsizes p) - 2) - length message) 0"
proof -
  let ?ks = "pp_rsizes p"
  note r = readableD [OF R]
  note l = params_last [OF r(3) k, folded d]
  have ne: "?ks \<noteq> []" using l(1) by auto
  have wd: "w < last ?ks" "w \<noteq> d" using l1 l(9) by (auto simp: w value_place_def)
  note blocks = rp_prep_blocks(1-3) [OF r(6,1) k ne l(7), folded d w]
  define qs where "qs = concat (map (\<lambda>i. map (Pair i) [0..<4]) [0..<k]) @ map (Pair k) (filter (\<lambda>j. j \<noteq> w \<and> j \<noteq> d) [0..<last ?ks])"
  have "rmap (message_block chainz ev s (pp_v p) ec) qs = Inr (map (\<lambda>(i, j). prep_block ec prep i j) qs)"
  proof (rule rmap_Inr)
    fix q assume "q \<in> set qs"
    then obtain i j where q: "q = (i, j)" "i < length ?ks" "j < ?ks ! i" "i = k \<longrightarrow> j \<noteq> d"
      using l(1,2,5) by (auto simp: k qs_def)
    then show "message_block chainz ev s (pp_v p) ec q = Inr ((\<lambda>(i, j). prep_block ec prep i j) q)"
      using position_read [OF R q(2,3)] l(3) by (simp add: k)
  qed
  moreover have "concat (map (\<lambda>(i, j). prep_block ec prep i j) qs) = message @ replicate (128 * k + 32 * (last ?ks - 2) - length message) 0"
  proof -
    have "length (take (128 * k) prep) = 128 * k" using blocks(1) unfolding blocks(2) by simp
    then have "128 * k \<le> length prep" by simp
    note concat_blocks [OF this r(1)]
    moreover have "map (\<lambda>j. prep_block ec prep k j) (filter (\<lambda>j. j \<noteq> w \<and> j \<noteq> d) [0..<last ?ks])
        = map (\<lambda>j. replicate 32 0) (filter (\<lambda>j. j \<noteq> w \<and> j \<noteq> d) [0..<last ?ks])"
      by (rule map_cong) (use blocks(3) l(7) in \<open>auto simp: w\<close>)
    then have "concat (map (\<lambda>j. prep_block ec prep k j) (filter (\<lambda>j. j \<noteq> w \<and> j \<noteq> d) [0..<last ?ks])) = replicate (32 * (last ?ks - 2)) 0"
      by (simp only: concat_zeros length_without_two [OF wd(2,1) l(4)])
    moreover have "replicate (128 * k - length message) 0 @ replicate (32 * (last ?ks - 2)) (0 :: 8 word)
        = replicate (128 * k + 32 * (last ?ks - 2) - length message) 0"
      using blocks(1) by (simp flip: replicate_add)
    ultimately show ?thesis using blocks(2) by (simp add: comp_def qs_def)
  qed
  ultimately show ?thesis using that unfolding read_positions [OF ne k l(5)] qs_def [symmetric] by blast
qed

text \<open>
  A proof that verifies is read back by who knows the nonce: the blinding factor, the value, and the message with
  zeros to the end of the octets the proof carries. The reading of the value tries the last position of the last
  ring first: where the prover signed at that position, what it wrote there must not look like a value.
\<close>

lemma verified_readable:
  assumes c: "cosign_curve ec" and H: "member ec H" "H \<noteq> Inf" and n32: "cv_n_size ec = 32"
    and dr: "\<And>k. draws ec (rnd k)" "draws ec rnd'"
    and S: "rp_sign rnd blind value nonce (aff_of H) min_value exp min_bits message extra ec hf = Some (Inr rp)"
    and V: "rp_verify rnd' (aff_of (committed ec H blind value)) rp (aff_of H) extra ec hf = Inr True"
    and P: "prove_params value min_value exp min_bits = Inr p"
    and X: "hashed_prefix (aff_of (committed ec H blind value)) (aff_of H) (rp_exp rp) (rp_mantissa rp) (rp_min_value rp) ec = Inr prefix"
    and Z: "rp_genrand (nonce @ prefix) (pp_rsizes p) (zeros ec (length (pp_rsizes p))) ec hf = Some (Inr chainz)"
  obtains prep chain secs ev where "readable ec H blind value message p prep chain chainz secs ev (bs_s (rp_sig rp))"
    "verify_rings rnd' (aff_of (committed ec H blind value)) rp (aff_of H) extra ec hf = Inr ev" "length nonce = RP_NONCE_SIZE"
    "rp_assert_valid rp = Inr ()" "rp_mantissa rp = pp_mantissa p" "rp_exp rp = pp_exp p" "rp_min_value rp = none_if_zero (pp_min_value p)"
proof -
  let ?C = "aff_of (committed ec H blind value)" and ?ks = "pp_rsizes p"
  note n = curve_n [OF cosignD(1) [OF c]]
  obtain q prefix' prep chain secs sg where q: "proved_by (rnd 2) ec hf H blind value extra q prefix' chain secs sg rp" "length nonce = RP_NONCE_SIZE"
      "prove_params value min_value exp min_bits = Inr q" "rp_prep (pp_rsizes q) (pp_v q) (last (pp_sign_key_idx q)) message ec = Inr prep"
      "rp_genrand (nonce @ prefix') (pp_rsizes q) prep ec hf = Some (Inr chain)"
    by (rule rp_sign_parts [OF c H dr(1) S])
  have qp: "q = p" "prefix' = prefix" using q(1,3) P X unfolding proved_by_def Let_def by auto
  note P1 = q [unfolded qp]
  have a: "params_ok value p" "rp_sig rp = sg" "0 < blind" "blind < cv_n ec" "secs = last_shifted (nc_blinding_factors chain) blind (cv_n ec)" "last secs \<noteq> 0"
    and b: "rp_assert_valid rp = Inr ()" "rp_mantissa rp = pp_mantissa p" "rp_exp rp = pp_exp p" "rp_min_value rp = none_if_zero (pp_min_value p)"
    using P1(1) unfolding proved_by_def Let_def by auto
  note s = params_shape [OF a(1)]
  note g = genrand_sound [OF P1(5) s(1) n(2)]
  have sizes: "\<forall>sz \<in> set ?ks. sz \<le> RING_STRIDE" using a(1) by (auto simp: params_ok_def rp_rsizes_Inr_iff RING_STRIDE_def split: if_splits)
  note mk = genrand_masked [OF P1(5) Z sizes]
  have bne: "nc_blinding_factors chain \<noteq> []" using g(1) s(1) by auto
  note f = last_shifted_facts [OF bne g(3,4) n(2) a(6) [unfolded a(5)], folded a(5)]
  obtain rings where R: "pubk_rings rnd' rp ?C (aff_of H) True ec = Inr rings" "\<forall>ring \<in> set rings. INF_aff \<notin> set ring"
    using range_proof_verifies [OF c H dr S] V by blast
  have "rings = proof_rings ec H p secs" using verifier_rings [OF c H(1) dr(2) P1(1) bne g(3,4,1)] R(1) by simp
  with R(2) have fin: "\<forall>ring \<in> set (proof_rings ec H p secs). INF_aff \<notin> set ring" by simp
  obtain ev where ev: "verify_rings rnd' ?C rp (aff_of H) extra ec hf = Inr ev" "bs_s sg = map (\<lambda>i. bs_s sg ! i) [0..<length ?ks]"
      "\<And>i. i < length ?ks \<Longrightarrow> ring_answers ec (proof_signer ec H p chain secs i) (ev ! i) (bs_s sg ! i)"
    using proof_walked [OF c H(1) dr(1) dr(2) P1(1) P1(5) fin] by blast
  have "length (bs_s sg) = length ?ks" using arg_cong [OF ev(2), of length] by simp
  moreover have "0 < nc_draws chain ! i ! j \<and> nc_draws chain ! i ! j < cv_n ec" if "i < length ?ks" "j < ?ks ! i" for i j
    using g(5) that lengths_nth(1) [OF g(2)] lengths_nth(2) [OF g(2) that(1)] nth_mem by metis
  ultimately have "readable ec H blind value message p prep chain chainz secs ev (bs_s (rp_sig rp))"
    unfolding readable_def Let_def a(2) using n32 n(1) a(1,3,4,5) P1(4) mk g(1,2) f(2,3) ev(3) by blast
  then show ?thesis using ev(1) P1(2) b by (rule that)
qed

lemma rewind_reads_back:
  assumes c: "cosign_curve ec" and H: "member ec H" "H \<noteq> Inf" and n32: "cv_n_size ec = 32"
    and dr: "\<And>k. draws ec (rnd k)" "\<And>k. draws ec (rnd' k)"
    and S: "rp_sign rnd blind value nonce (aff_of H) min_value exp min_bits message extra ec hf = Some (Inr rp)"
    and V: "rp_verify (rnd' 0) (aff_of (committed ec H blind value)) rp (aff_of H) extra ec hf = Inr True"
    and P: "prove_params value min_value exp min_bits = Inr p"
    and X: "hashed_prefix (aff_of (committed ec H blind value)) (aff_of H) (rp_exp rp) (rp_mantissa rp) (rp_min_value rp) ec = Inr prefix"
    and Z: "rp_genrand (nonce @ prefix) (pp_rsizes p) (zeros ec (length (pp_rsizes p))) ec hf = Some (Inr chainz)"
    and own: "pp_rsizes p \<noteq> [1] \<Longrightarrow> last (pp_sign_key_idx p) = last (pp_rsizes p) - 1 \<Longrightarrow>
      value_at_position (last (bs_s (rp_sig rp))) (last (nc_draws chainz)) (int (last (pp_sign_key_idx p))) ec = Inr None"
  shows "rp_rewind rnd' (aff_of (committed ec H blind value)) rp nonce (aff_of H) extra ec hf
    = Some (Inr \<lparr>rw_blind = blind, rw_value = value,
        rw_message = message @ replicate (128 * (length (pp_rsizes p) - 1) + 32 * (last (pp_rsizes p) - 2) - length message) 0\<rparr>)"
proof -
  obtain prep chain secs ev where R: "readable ec H blind value message p prep chain chainz secs ev (bs_s (rp_sig rp))"
    and ev: "verify_rings (rnd' 0) (aff_of (committed ec H blind value)) rp (aff_of H) extra ec hf = Inr ev" "length nonce = RP_NONCE_SIZE"
      "rp_assert_valid rp = Inr ()" "rp_mantissa rp = pp_mantissa p" "rp_exp rp = pp_exp p" "rp_min_value rp = none_if_zero (pp_min_value p)"
    by (rule verified_readable [OF c H n32 dr S V P X Z])
  note r = readableD [OF R]
  define k d where "k = length (pp_rsizes p) - 1" and "d = last (pp_sign_key_idx p)"
  note l = params_last [OF r(3) k_def, folded d_def]
  note x = own_secret [OF R k_def d_def]
  have commit: "pedersen_commit_raw (rnd' 1) blind value (aff_of H) ec = Inr (aff_of (committed ec H blind value))"
    by (rule commit_raw_value [OF cosignD(1,2) [OF c] dr(2) H])
  have nonce: "bytes_from_octets nonce (Some [RP_NONCE_SIZE]) = Inr nonce" using ev(2) by (simp add: bytes_from_octets_def)
  have rs: "rp_rsizes (rp_mantissa rp) = Inr (pp_rsizes p)" and val: "value = pp_v p * 10 ^ nat (max (pp_exp p) 0) + pp_min_value p"
    and sg: "pp_rsizes p = [1] \<longrightarrow> pp_v p = 0" "pp_rsizes p \<noteq> [1] \<longrightarrow> 0 \<le> pp_exp p"
    using r(3) l(8) by (auto simp: params_ok_def ev(4))
  note start = ev(1,3) rs nonce X Z [unfolded zeros_def]
  show ?thesis
  proof (cases "pp_rsizes p = [1]")
    case True
    then have "k = 0" "message = []" "d = 0" "pp_v p = 0" "secs ! 0 = blind"
      using rp_prep_blocks(1) [OF r(6,1) k_def _ l(7)] l(1,4) sg(1) x(3) by (auto simp: k_def)
    with True x(1) val commit show ?thesis
      unfolding rp_rewind_def start obind_simps Let_def by (simp add: ev(6))
  next
    case False
    note l1 = l(6) [OF False]
    define w where "w = value_place (pp_rsizes p) d"
    have w: "w \<noteq> d" "d < last (pp_rsizes p)" using l(4,9) l1 by (auto simp: w_def)
    have digit: "drop_bit (2 * k) (pp_v p) AND 3 = int d" using digits4_int [OF l(1), of "pp_v p"] r(3) l(3) by (simp add: params_ok_def)
    have "last (bs_s (rp_sig rp)) = bs_s (rp_sig rp) ! k" "last (nc_draws chainz) = nc_draws chainz ! k"
      using l(1) r(9,17) last_conv_nth [of "bs_s (rp_sig rp)"] last_conv_nth [of "nc_draws chainz"] by (fastforce simp: k_def)+
    then have found: "value_encoding (pp_rsizes p) (bs_s (rp_sig rp) ! k) (nc_draws chainz ! k) ec = Inr (Some (int w, pp_v p))"
      using value_of_proof [OF R k_def d_def l1] own [OF False, folded d_def] by (simp add: w_def)
    obtain blocks where read: "rmap (message_block chainz ev (bs_s (rp_sig rp)) (pp_v p) ec)
        (filter (\<lambda>(i, j). i \<noteq> k \<or> (int j \<noteq> int w \<and> int j \<noteq> int d)) (concat (map (\<lambda>(i, sz). map (Pair i) [0..<sz]) (enumerate 0 (pp_rsizes p)))))
        = Inr blocks"
      "concat blocks = message @ replicate (128 * k + 32 * (last (pp_rsizes p) - 2) - length message) 0"
      by (rule message_of_proof [OF R k_def d_def w_def l1])
    show ?thesis
      using False found w val commit x(1,2) sg(2) read
      unfolding rp_rewind_def start obind_simps Let_def k_def [symmetric] by (simp add: ev(5,6) digit)
  qed
qed

end
