(* ===== verification/Test_Rangeproof.thy ===== *)
theory Test_Rangeproof
  imports Test_Cosigning Rangeproof_Rewind
begin

unbundle bit_operations_syntax

text \<open>
  A curve of 163 points over the field of 139 elements, as the constructor returns it but for the size of an
  abscissa, which is that of secp256k1: an octet is a scalar more often than not, so that a range proof with two
  rings can be made and checked by evaluation. And a hash function for a public value on the smaller curve.
\<close>

definition ec139 :: curve where
  "ec139 = (with_generator
     \<lparr>ec_p = 139, ec_a = 0, ec_b = 2, ec_p_size = 1, ec_p_is_3_mod_4 = True, ec_scalar_len = 9,
      ec_a_is_zero = True, ec_a_is_minus_3 = False, ec_stand_in_q = (46, 27, 19), ec_stand_in_r = (12, 10, 8),
      ec_fixed_points = {}\<rparr> (3, 53) 163 1)\<lparr>ec_p_size := 32\<rparr>"

lemma ec139_sel [simp]:
  "ec_p ec139 = 139" "ec_a ec139 = 0" "ec_b ec139 = 2" "ec_p_size ec139 = 32" "cv_n ec139 = 163"
  "cv_G ec139 = (3, 53)" "cv_cofactor ec139 = 1" "cv_n_size ec139 = 1"
  by (simp_all add: ec139_def with_generator_def Let_def curve_group.defs bit_length.simps)

lemma ec139_init: "init_curve False 139 0 2 (3, 53) 163 1 False True = Inr (ec139\<lparr>ec_p_size := 1\<rparr>)"
  unfolding ec139_def by code_simp

lemma prime_139: "prime_int 139" "prime_int 163"
  by (rule prime_int_by_trial; code_simp)+

lemma ec139_valid: "curve_valid ec139"
  using init_curve_valid [OF ec139_init prime_139] by (simp add: curve_valid_def curve_ok_def in_order_def)

lemma ec139_endo: "endo_law ec139"
  by (simp add: endo_law_def endo_ok_def is_secp256k1_def eq_key_def secp256k1_key_def)

lemma ec139_gen: "gen ec139 = Pt 3 53"
  by (simp add: aff_abs_def)

text \<open>
  When the abscissae that have a point are few enough for the order, every point of the curve is a multiple of the
  generator.
\<close>

lemma counted_group:
  assumes v: "curve_valid ec" and xs: "\<And>x y. ec_on ec (Pt x y) \<Longrightarrow> x \<in> set xs" "2 * length xs + 1 \<le> nat (cv_n ec)" and P: "ec_on ec P"
  shows "in_order ec (cv_n ec) P"
proof -
  note G = member_generator [OF v] and n = curve_n [OF v]
  define A where "A = Collect (ec_on ec)"
  define at where "at x = {Q. \<exists>y. Q = Pt x y \<and> ec_on ec Q}" for x
  have pr: "prime_int (ec_p ec)" using v by (simp add: curve_valid_def curve_ok_def curve_params_def)
  have two: "finite (at x) \<and> card (at x) \<le> 2" for x
  proof (cases "at x = {}")
    case False
    then obtain y where y: "ec_on ec (Pt x y)" by (auto simp: at_def)
    have "Q \<in> {Pt x y, Pt x ((- y) mod ec_p ec)}" if "Q \<in> at x" for Q
    proof -
      obtain y' where y': "Q = Pt x y'" "ec_on ec (Pt x y')" using \<open>Q \<in> at x\<close> by (auto simp: at_def)
      have "y' = (- y) mod ec_p ec" if "ec_p ec dvd (y' + y)" using that y'(2) mod_eq_dvd_iff [of y' "ec_p ec" "- y"] by simp
      then show ?thesis using same_x [OF pr y'(2) y] y'(1) by blast
    qed
    then have "at x \<subseteq> {Pt x y, Pt x ((- y) mod ec_p ec)}" by blast
    from finite_subset [OF this] card_mono [OF _ this] show ?thesis
      using card_insert_le_m1 [of 2 "{Pt x ((- y) mod ec_p ec)}" "Pt x y"] by auto
  qed simp
  have sub: "A \<subseteq> insert Inf (\<Union>x \<in> set xs. at x)" 
  proof
    fix Q assume "Q \<in> A"
    then show "Q \<in> insert Inf (\<Union>x \<in> set xs. at x)" using xs(1) by (cases Q) (auto simp: A_def at_def)
  qed
  have "card (\<Union>x \<in> set xs. at x) \<le> (\<Sum>x \<in> set xs. card (at x))" by (rule card_UN_le) simp
  also have "\<dots> \<le> card (set xs) * 2" using sum_bounded_above [of "set xs" "\<lambda>x. card (at x)" 2] two by simp
  also have "\<dots> \<le> 2 * length xs" using card_length [of xs] by simp
  finally have "card (insert Inf (\<Union>x \<in> set xs. at x)) \<le> nat (cv_n ec)"
    using card_insert_le_m1 [of "Suc (2 * length xs)" "\<Union>x \<in> set xs. at x" Inf] xs(2) by simp
  moreover have fin: "finite (insert Inf (\<Union>x \<in> set xs. at x))" using two by simp
  ultimately have cA: "finite A" "card A \<le> nat (cv_n ec)" using finite_subset [OF sub fin] card_mono [OF fin sub] by simp_all
  define B where "B = (\<lambda>k. ec_times ec k (gen ec)) ` {0..<cv_n ec}"
  have "inj_on (\<lambda>k. ec_times ec k (gen ec)) {0..<cv_n ec}"
  proof (rule inj_onI)
    fix j k assume jk: "j \<in> {0..<cv_n ec}" "k \<in> {0..<cv_n ec}" "ec_times ec j (gen ec) = ec_times ec k (gen ec)"
    then have "cv_n ec dvd (j - k)" using times_eq_iff [OF G generator_finite [OF v]] by blast
    then show "j = k" using jk(1,2) mod_eq_dvd_iff [of j "cv_n ec" k] by simp
  qed
  then have "card B = nat (cv_n ec)" by (simp add: B_def card_image)
  moreover have "B \<subseteq> A" using memberD(4) [OF member_closed(3) [OF G]] by (auto simp: A_def B_def)
  ultimately have "A = B" using cA card_seteq [of A B] by simp
  then obtain k where "P = ec_times ec k (gen ec)" using P by (auto simp: A_def B_def)
  then show ?thesis using memberD(2) [OF member_closed(3) [OF G]] by blast
qed

definition abscissae139 :: "int list" where
  "abscissae139 = filter (\<lambda>x. legendre_symbol_var (x * x * x + 2) 139 \<noteq> Inr (- 1)) (map int [0..<139])"

lemma abscissae139_count: "length abscissae139 = 81"
  by code_simp

lemma ec139_group: "ec_on ec139 P \<Longrightarrow> in_order ec139 (cv_n ec139) P"
proof (rule counted_group [OF ec139_valid, where xs = abscissae139])
  fix x y assume on: "ec_on ec139 (Pt x y)"
  then have d: "139 dvd (y * y - (x * x * x + 2))" and x: "0 \<le> x" "x < 139" by simp_all
  have "legendre_symbol_var (x * x * x + 2) 139 \<noteq> Inr (- 1)"
  proof (cases "coprime (x * x * x + 2) (139 :: int)")
    case True
    have "\<not> 139 dvd y"
    proof
      assume "139 dvd y"
      then have "139 dvd (x * x * x + 2)" using d by (metis dvd_diff_right_iff dvd_mult)
      with True coprime_common_divisor [of "x * x * x + 2" 139 139] show False by simp
    qed
    then have "gauss_sign (y * y) 139 = 1" using gauss_sign_square [of 139 y] prime_int_coprime [OF prime_139(1)] by simp
    then show ?thesis using True gauss_sign_cong [OF d] by (simp add: legendre_value)
  qed (simp add: legendre_value)
  moreover have "x \<in> set (map int [0..<139])" using x by (auto intro: image_eqI [of _ _ "nat x"])
  ultimately show "x \<in> set abscissae139" by (simp add: abscissae139_def)
qed (simp_all add: abscissae139_count)

lemma ec139_cosign: "cosign_curve ec139"
proof -
  have "require_on_curve ec139 INF_aff = Inr ()" unfolding ec139_def by code_simp
  then show ?thesis using ec139_valid ec139_endo ec139_group unfolding cosign_curve_def by simp
qed

lemma ec139_draws: "draws ec139 (\<lambda>_. 1)"
  by (simp add: draws_def)

definition mixing_hash :: hash_fn where
  "mixing_hash = \<lparr>hf_digest = (\<lambda>m. [foldl (\<lambda>v b. 5 * (v XOR b) + 1) 7 m]), hf_size = 1, hf_block = 4\<rparr>"

definition nonce139 :: octets where
  "nonce139 = replicate 31 0 @ [242]"

definition proof139 :: range_proof where
  "proof139 = \<lparr>rp_exp = 0, rp_mantissa = 3, rp_min_value = None, rp_signs = [False], rp_ring_commitments = [29],
     rp_sig = \<lparr>bs_e0 = [12], bs_s = [[157, 141, 29, 120], [29, 131]], bs_ec = ec139\<rparr>\<rparr>"

definition rings139 :: "apoint list list" where
  "rings139 = [[(29, 30), (130, 78), (59, 83), (48, 111)], [(15, 67), (91, 101)]]"

definition chain139 :: nonce_chain where
  "chain139 = \<lparr>nc_blinding_factors = [77, 86], nc_draws = [[157, 141, 29, 13], [29, 141]]\<rparr>"

definition scalar8 :: "8 word \<Rightarrow> octets" where
  "scalar8 x = replicate 7 0 @ [x]"

definition prefix139 :: octets where
  "prefix139 = octets32 1 80 @ octets32 0 57 @ [64, 2]"

definition prep139 :: octets where
  "prep139 = [0, 0, 0, 0] @ [128] @ replicate 7 0 @ scalar8 7 @ scalar8 7 @ scalar8 7 @ [0, 0, 0]"

text \<open>The parts of the run of \<^verbatim>\<open>sign\<close>.\<close>

lemma parts139_a:
  "scalar_from_int 117 ec139 = Inr 117" "bytes_from_octets nonce139 (Some [RP_NONCE_SIZE]) = Inr nonce139"
  "prove_params 7 0 0 3 = Inr \<lparr>pp_v = 7, pp_rsizes = [4, 2], pp_sign_key_idx = [3, Suc 0], pp_min_value = 0, pp_mantissa = 3,
     pp_scale = 1, pp_exp = 0\<rparr>"
  "pedersen_commit (\<lambda>_. 1) 117 7 (57, 66) ec139 = Inr (80, 75)"
  "hashed_prefix (80, 75) (57, 66) 0 3 None ec139 = Inr prefix139"
  "rp_prep [4, 2] 7 (Suc 0) [] ec139 = Inr prep139"
  unfolding ec139_def nonce139_def prefix139_def prep139_def octets32_def scalar8_def by code_simp+

lemma parts139_b: "rp_genrand (nonce139 @ prefix139) [4, 2] prep139 ec139 mixing_hash = Some (Inr chain139)"
  unfolding ec139_def nonce139_def prefix139_def prep139_def chain139_def octets32_def scalar8_def by code_simp

lemma parts139_c:
  "ring_head (\<lambda>_. 1) 1 (57, 66) ec139 0 77 3 = Inr (29, 30)" "ring_head (\<lambda>_. 1) 1 (57, 66) ec139 (Suc 0) 40 (Suc 0) = Inr (15, 67)"
  unfolding ec139_def by code_simp+

lemma parts139_d:
  "tagged_bytes_from_point (29, 30) RANGEPROOF_TAG ec139 = Inr (octets32 0 29)"
  "hf_digest mixing_hash (prefix139 @ octets32 0 29) = [195]"
  "pub_expand 1 [(29, 30), (15, 67)] (57, 66) 0 [4, 2] ec139 = Inr rings139"
  unfolding ec139_def prefix139_def rings139_def octets32_def by code_simp+

lemmas parts139 = parts139_a parts139_b parts139_c parts139_d

lemma known_point:
  assumes "curve_valid ec" "endo_law ec" "0 < q" "q < cv_n ec" "0 \<le> s" "s < cv_n ec" "aff_of (ec_times ec q (gen ec)) = Q"
  shows "rp_point x Q s ec = bytes_from_point (aff_of (ec_times ec (s + x * q) (gen ec))) ec True"
  using own_point [OF assms(1-4), of x "s + x * q"] assms(5-7) by simp

text \<open>The multiples of the generator that the run goes through, by a chain of additions.\<close>

lemma inverses139:
  "inv_mod 106 139 = 80" "inv_mod (- 56) 139 = 67" "inv_mod 30 139 = 51" "inv_mod (- 87) 139 = 131" "inv_mod (- 105) 139 = 45"
  "inv_mod 55 139 = 91" "inv_mod 60 139 = 95" "inv_mod 16 139 = 113" "inv_mod (- 43) 139 = 42" "inv_mod 2 139 = 70"
  "inv_mod 47 139 = 71" "inv_mod 8 139 = 87" "inv_mod (- 27) 139 = 36"
  by (rule inv_mod_eqI; simp)+

lemma chained:
  assumes "ec_times ec139 j (Pt 3 53) = P" "ec_times ec139 k (Pt 3 53) = Q"
  shows "ec_times ec139 (j + k) (Pt 3 53) = ec_plus ec139 P Q" "ec_times ec139 (- k) (Pt 3 53) = ec_minus ec139 Q"
  using times_add [OF member_generator [OF ec139_valid], of j k] minus_times [OF member_generator [OF ec139_valid], of k] assms by (simp_all only: ec139_gen)

lemma multiples139:
  "ec_times ec139 (2) (Pt 3 53) = Pt 59 56" "ec_times ec139 (82) (Pt 3 53) = Pt 130 78" "ec_times ec139 (50) (Pt 3 53) = Pt 15 67" "ec_times ec139 (60) (Pt 3 53) = Pt 30 133" "ec_times ec139 (13) (Pt 3 53) = Pt 85 5" "ec_times ec139 (- 22) (Pt 3 53) = Pt 26 131" "ec_times ec139 (- 44) (Pt 3 53) = Pt 72 70" "ec_times ec139 (- 41) (Pt 3 53) = Pt 43 138" "ec_times ec139 (- 59) (Pt 3 53) = Pt 126 53" "ec_times ec139 (- 2) (Pt 3 53) = Pt 59 83" "ec_times ec139 (3) (Pt 3 53) = Pt 29 30"
proof -
  note calc = third_point_def Let_def inverses139
  have m1: "ec_times ec139 1 (Pt 3 53) = Pt 3 53" using ecn.zm_1 [OF memberD(2) [OF member_generator [OF ec139_valid]]] unfolding ec139_gen .
  have m2: "ec_times ec139 2 (Pt 3 53) = Pt 59 56" using chained(1) [OF m1 m1] by (simp add: calc)
  have m3: "ec_times ec139 3 (Pt 3 53) = Pt 29 30" using chained(1) [OF m2 m1] by (simp add: calc)
  have m5: "ec_times ec139 5 (Pt 3 53) = Pt 116 117" using chained(1) [OF m3 m2] by (simp add: calc)
  have m8: "ec_times ec139 8 (Pt 3 53) = Pt 134 4" using chained(1) [OF m5 m3] by (simp add: calc)
  have m11: "ec_times ec139 11 (Pt 3 53) = Pt 4 30" using chained(1) [OF m8 m3] by (simp add: calc)
  have m13: "ec_times ec139 13 (Pt 3 53) = Pt 85 5" using chained(1) [OF m11 m2] by (simp add: calc)
  have m22: "ec_times ec139 22 (Pt 3 53) = Pt 26 8" using chained(1) [OF m11 m11] by (simp add: calc)
  have m44: "ec_times ec139 44 (Pt 3 53) = Pt 72 69" using chained(1) [OF m22 m22] by (simp add: calc)
  have n3: "ec_times ec139 (- 3) (Pt 3 53) = Pt 29 109" using chained(2) [OF m3 m3] by (simp add: calc)
  have m41: "ec_times ec139 41 (Pt 3 53) = Pt 43 1" using chained(1) [OF m44 n3] by (simp add: calc)
  have m82: "ec_times ec139 82 (Pt 3 53) = Pt 130 78" using chained(1) [OF m41 m41] by (simp add: calc)
  have m6: "ec_times ec139 6 (Pt 3 53) = Pt 119 8" using chained(1) [OF m3 m3] by (simp add: calc)
  have m50: "ec_times ec139 50 (Pt 3 53) = Pt 15 67" using chained(1) [OF m44 m6] by (simp add: calc)
  have m16: "ec_times ec139 16 (Pt 3 53) = Pt 74 72" using chained(1) [OF m8 m8] by (simp add: calc)
  have m60: "ec_times ec139 60 (Pt 3 53) = Pt 30 133" using chained(1) [OF m44 m16] by (simp add: calc)
  have n1: "ec_times ec139 (- 1) (Pt 3 53) = Pt 3 86" using chained(2) [OF m1 m1] by (simp add: calc)
  have m59: "ec_times ec139 59 (Pt 3 53) = Pt 126 86" using chained(1) [OF m60 n1] by (simp add: calc)
  have n22: "ec_times ec139 (- 22) (Pt 3 53) = Pt 26 131" using chained(2) [OF m22 m22] by (simp add: calc)
  have n44: "ec_times ec139 (- 44) (Pt 3 53) = Pt 72 70" using chained(2) [OF m44 m44] by (simp add: calc)
  have n41: "ec_times ec139 (- 41) (Pt 3 53) = Pt 43 138" using chained(2) [OF m41 m41] by (simp add: calc)
  have n59: "ec_times ec139 (- 59) (Pt 3 53) = Pt 126 53" using chained(2) [OF m59 m59] by (simp add: calc)
  have n2: "ec_times ec139 (- 2) (Pt 3 53) = Pt 59 83" using chained(2) [OF m2 m2] by (simp add: calc)
  show "ec_times ec139 (2) (Pt 3 53) = Pt 59 56" "ec_times ec139 (82) (Pt 3 53) = Pt 130 78" "ec_times ec139 (50) (Pt 3 53) = Pt 15 67" "ec_times ec139 (60) (Pt 3 53) = Pt 30 133" "ec_times ec139 (13) (Pt 3 53) = Pt 85 5" "ec_times ec139 (- 22) (Pt 3 53) = Pt 26 131" "ec_times ec139 (- 44) (Pt 3 53) = Pt 72 70" "ec_times ec139 (- 41) (Pt 3 53) = Pt 43 138" "ec_times ec139 (- 59) (Pt 3 53) = Pt 126 53" "ec_times ec139 (- 2) (Pt 3 53) = Pt 59 83" "ec_times ec139 (3) (Pt 3 53) = Pt 29 30"
    by (fact m2 m82 m50 m60 m13 n22 n44 n41 n59 n2 m3)+
qed

lemma mult139: "mult 1 k (Some (3, 53)) ec139 = Inr (aff_of (ec_times ec139 (k mod 163) (Pt 3 53)))"
  using mult_generator(1) [OF ec139_valid, of 1 k] times_mod [OF member_generator [OF ec139_valid], of k] ec139_gen by simp

lemma times139: "163 dvd (j - k) \<Longrightarrow> ec_times ec139 j (Pt 3 53) = ec_times ec139 k (Pt 3 53)"
  using times_cong [OF member_generator [OF ec139_valid], of j k] ec139_gen by simp

lemma keys139:
  "mult 1 (3) (Some (3, 53)) ec139 = Inr (29, 30)" "mult 1 (82) (Some (3, 53)) ec139 = Inr (130, 78)"
  "mult 1 (161) (Some (3, 53)) ec139 = Inr (59, 83)" "mult 1 (50) (Some (3, 53)) ec139 = Inr (15, 67)"
  "mult 1 (157 + 96 * 3) (Some (3, 53)) ec139 = Inr (72, 70)" "mult 1 (141 + 89 * 82) (Some (3, 53)) ec139 = Inr (126, 53)"
  "mult 1 (29 + 35 * 161) (Some (3, 53)) ec139 = Inr (43, 138)" "mult 1 (29 + 43 * 50) (Some (3, 53)) ec139 = Inr (30, 133)"
  "mult 1 (13) (Some (3, 53)) ec139 = Inr (85, 5)" "mult 1 (141) (Some (3, 53)) ec139 = Inr (26, 131)"
  using multiples139 times139 [of 161 "- 2"] times139 [of 119 "- 44"] times139 [of 104 "- 59"] times139 [of 122 "- 41"] times139 [of 141 "- 22"]
  by (simp_all add: mult139)

lemma octets139:
  "bytes_from_point (72, 70) ec139 True = Inr (octets32 2 72)" "bytes_from_point (126, 53) ec139 True = Inr (octets32 3 126)"
  "bytes_from_point (43, 138) ec139 True = Inr (octets32 2 43)" "bytes_from_point (30, 133) ec139 True = Inr (octets32 3 30)"
  unfolding ec139_def octets32_def by code_simp+

lemma point_of_key:
  assumes "0 < q" "q < 163" "0 \<le> s" "s < 163" "mult 1 q (Some (3, 53)) ec139 = Inr Q"
  shows "rp_point x Q s ec139 = rbind (mult 1 (s + x * q) (Some (3, 53)) ec139) (\<lambda>K. bytes_from_point K ec139 True)"
  using known_point [OF ec139_valid ec139_endo, of q s Q x] assms mult_generator(1) [OF ec139_valid, of 1 q]
    mult_generator(1) [OF ec139_valid, of 1 "s + x * q"] by simp

lemma points139:
  "rp_point 96 (29, 30) 157 ec139 = Inr (octets32 2 72)" "rp_point 89 (130, 78) 141 ec139 = Inr (octets32 3 126)"
  "rp_point 35 (59, 83) 29 ec139 = Inr (octets32 2 43)" "rp_point 43 (15, 67) 29 ec139 = Inr (octets32 3 30)"
  using keys139 octets139 point_of_key [of 3 157 "(29, 30)" 96] point_of_key [of 82 141 "(130, 78)" 89]
    point_of_key [of 161 29 "(59, 83)" 35] point_of_key [of 50 29 "(15, 67)" 43] by simp_all

lemma challenges139:
  "rp_challenge [195] [12] 0 0 ec139 mixing_hash = Inr 96" "rp_challenge [195] (octets32 2 72) 0 (Suc 0) ec139 mixing_hash = Inr 89"
  "rp_challenge [195] (octets32 3 126) 0 (Suc (Suc 0)) ec139 mixing_hash = Inr 35" "rp_challenge [195] (octets32 2 43) 0 (Suc (Suc (Suc 0))) ec139 mixing_hash = Inr 60"
  "rp_challenge [195] [12] (Suc 0) 0 ec139 mixing_hash = Inr 43" "rp_challenge [195] (octets32 3 30) (Suc 0) (Suc 0) ec139 mixing_hash = Inr 41"
  "bytes_from_point (85, 5) ec139 True = Inr (octets32 3 85)" "bytes_from_point (26, 131) ec139 True = Inr (octets32 3 26)"
  "hf_digest mixing_hash (octets32 3 85 @ octets32 3 26 @ [195]) = [12]"
  unfolding ec139_def octets32_def by code_simp+

lemma rings_signed139:
  "rp_borromean_sign (\<lambda>_. 1) [195] rings139 [13, 141] [77, 40] [3, Suc 0] (nc_draws chain139) ec139 mixing_hash
    = Inr \<lparr>bs_e0 = [12], bs_s = [[157, 141, 29, 120], [29, 131]], bs_ec = ec139\<rparr>"
proof -
  have "init_borromean_sig [12] [[157, 141, 29, 120], [29, 131]] ec139 True
      = Inr \<lparr>bs_e0 = [12], bs_s = [[157, 141, 29, 120], [29, 131]], bs_ec = ec139\<rparr>" unfolding ec139_def by code_simp
  then show ?thesis
    by (simp add: rp_borromean_sign_def rings139_def chain139_def rp_open_ring_def rp_close_ring_def points139 challenges139 keys139 Let_def upt_rec)
qed

lemma proof139_made: "rp_sign (\<lambda>_ _. 1) 117 7 nonce139 (57, 66) 0 0 3 [] [] ec139 mixing_hash = Some (Inr proof139)"
proof -
  have "init_range_proof 0 3 None [False] [29] \<lparr>bs_e0 = [12], bs_s = [[157, 141, 29, 120], [29, 131]], bs_ec = ec139\<rparr> True = Inr proof139"
    unfolding proof139_def ec139_def by code_simp
  moreover have "int_from_bytes (replicate 31 0 @ [29 :: 8 word]) = 29" by code_simp
  then have "hd (octets32 0 29) = 0" "int_from_bytes (tl (octets32 0 29)) = 29" by (simp_all add: octets32_def)
  ultimately show ?thesis
    using rings_signed139 by (simp add: rp_sign_def parts139 UINT64_MAX_def MAX_EXP_def MAX_MANTISSA_def none_if_zero_def Let_def chain139_def)
qed

section \<open>A public value\<close>

definition digest32 :: "8 word \<Rightarrow> octets" where
  "digest32 b = b # replicate 30 0 @ [b]"

definition public_hash :: hash_fn where
  "public_hash = \<lparr>hf_digest = (\<lambda>m. let b = foldl (\<lambda>v b. 5 * (v XOR b) + 1) 7 m in
     if length m < 96 then digest32 b else scalar32 (b AND 15)), hf_size = 32, hf_block = 64\<rparr>"

definition proof32 :: range_proof where
  "proof32 = \<lparr>rp_exp = - 1, rp_mantissa = 0, rp_min_value = Some 9, rp_signs = [], rp_ring_commitments = [],
     rp_sig = \<lparr>bs_e0 = digest32 169, bs_s = [[8]], bs_ec = ec32\<rparr>\<rparr>"

definition prefix32 :: octets where
  "prefix32 = octets32 1 6 @ octets32 0 18 @ [32] @ scalar8 9"

lemma parts32:
  "hashed_prefix (6, 3) (18, 1) (- 1) 0 (Some 9) ec32 = Inr prefix32"
  "rp_genrand (scalar32 1 @ prefix32) [Suc 0] (replicate 128 0) ec32 public_hash = Some (Inr \<lparr>nc_blinding_factors = [0], nc_draws = [[12]]\<rparr>)"
  "prove_params 9 0 (- 1) 0 = Inr \<lparr>pp_v = 0, pp_rsizes = [Suc 0], pp_sign_key_idx = [0], pp_min_value = 9, pp_mantissa = 0,
     pp_scale = 1, pp_exp = - 1\<rparr>"
  "rp_prep [Suc 0] 0 0 [] ec32 = Inr (replicate 128 0)" "scalar_from_int 5 ec32 = Inr 5"
  "bytes_from_octets (scalar32 1) (Some [RP_NONCE_SIZE]) = Inr (scalar32 1)"
  "hf_digest public_hash prefix32 = digest32 54"
  unfolding ec32_def ec19_def prefix32_def octets32_def digest32_def scalar32_def scalar8_def by code_simp+

lemma points32:
  "pedersen_commit (\<lambda>_. 1) 5 9 (18, 1) ec32 = Inr (6, 3)" "ring_head (\<lambda>_. 1) 1 (18, 1) ec32 0 5 0 = Inr (12, 1)"
  "pub_expand 1 [(12, 1)] (18, 1) (- 1) [Suc 0] ec32 = Inr [[(12, 1)]]"
  "mult 1 12 (Some (4, 16)) ec32 = Inr (4, 3)" "bytes_from_point (4, 3) ec32 True = Inr (octets32 3 4)"
  "hf_digest public_hash (octets32 3 4 @ digest32 54) = digest32 169"
  "rp_challenge (digest32 54) (digest32 169) 0 0 ec32 public_hash = Inr 6"
  unfolding ec32_def ec19_def octets32_def digest32_def by code_simp+

lemma proof32_made: "sign_public_value (\<lambda>_ _. 1) 5 9 (scalar32 1) (18, 1) ec32 public_hash = Some (Inr proof32)"
proof -
  have "init_range_proof (- 1) 0 (Some 9) [] [] \<lparr>bs_e0 = digest32 169, bs_s = [[8]], bs_ec = ec32\<rparr> True = Inr proof32"
    "init_borromean_sig (digest32 169) [[8]] ec32 True = Inr \<lparr>bs_e0 = digest32 169, bs_s = [[8]], bs_ec = ec32\<rparr>"
    unfolding proof32_def ec32_def ec19_def octets32_def digest32_def by code_simp+
  then show ?thesis
    by (simp add: sign_public_value_def rp_sign_def rp_borromean_sign_def rp_open_ring_def rp_close_ring_def parts32 points32
      UINT64_MAX_def MAX_EXP_def MAX_MANTISSA_def none_if_zero_def Let_def upt_rec)
qed

end
