(* ===== verification/Rangeproof_Serial.thy ===== *)
theory Rangeproof_Serial
  imports Rangeproof_Params
begin

unbundle bit_operations_syntax

text \<open>
  Range proofs and octets: a valid proof is read back from what it is written to, the header, the sign bits, the
  commitments and the signature in turn; and the octets of a public value are not unique, since the bits of the
  exponent are read over where there is no range.
\<close>

section \<open>The header\<close>

lemma header_flags_read:
  assumes e: "0 \<le> exp" "exp \<le> 18" and m: "mantissa \<noteq> 0"
  shows "0 \<le> header_flags exp mantissa min_value" "header_flags exp mantissa min_value < 128"
    "header_flags exp mantissa min_value AND RP_RESERVED = 0" "header_flags exp mantissa min_value AND HAS_NZ_RANGE \<noteq> 0"
    "header_flags exp mantissa min_value AND EXP_MASK = exp"
    "header_flags exp mantissa min_value AND HAS_MIN \<noteq> 0 \<longleftrightarrow> min_value \<noteq> None"
proof -
  have "list_all (\<lambda>e. let f = 64 OR e; g = f OR 32 in 0 \<le> f \<and> f < 128 \<and> f AND 128 = 0 \<and> f AND 64 \<noteq> 0 \<and> f AND 31 = e \<and> f AND 32 = 0
      \<and> 0 \<le> g \<and> g < 128 \<and> g AND 128 = 0 \<and> g AND 64 \<noteq> 0 \<and> g AND 31 = e \<and> g AND 32 \<noteq> 0) (map int [0..<19])" by code_simp
  moreover have "exp \<in> set (map int [0..<19])" using e by (auto intro: image_eqI [of _ _ "nat exp"])
  ultimately have "let f = 64 OR exp; g = f OR 32 in 0 \<le> f \<and> f < 128 \<and> f AND 128 = 0 \<and> f AND 64 \<noteq> 0 \<and> f AND 31 = exp \<and> f AND 32 = 0
      \<and> 0 \<le> g \<and> g < 128 \<and> g AND 128 = 0 \<and> g AND 64 \<noteq> 0 \<and> g AND 31 = exp \<and> g AND 32 \<noteq> 0" unfolding list_all_iff by blast
  then show "0 \<le> header_flags exp mantissa min_value" "header_flags exp mantissa min_value < 128"
    "header_flags exp mantissa min_value AND RP_RESERVED = 0" "header_flags exp mantissa min_value AND HAS_NZ_RANGE \<noteq> 0"
    "header_flags exp mantissa min_value AND EXP_MASK = exp"
    "header_flags exp mantissa min_value AND HAS_MIN \<noteq> 0 \<longleftrightarrow> min_value \<noteq> None"
    using m by (auto simp: header_flags_def Let_def HAS_NZ_RANGE_def HAS_MIN_def RP_RESERVED_def EXP_MASK_def)
qed

lemma read_one [simp]: "read_exactly (b # rest) 1 = Inr ([b], rest)"
  using read_exactly_append [of "[b]" 1 rest] by simp

lemma uint_of_octet: "0 \<le> x \<Longrightarrow> x < 256 \<Longrightarrow> uint (word_of_int x :: 8 word) = x"
  by (simp add: uint_word_of_int)

lemma read_min_value:
  assumes "(case min_value of None \<Rightarrow> Inr [] | Some v \<Rightarrow> int_to_bytes v MIN_VALUE_SIZE) = Inr bs"
  shows "(if min_value \<noteq> None
          then rbind (read_exactly (bs @ rest) MIN_VALUE_SIZE) (\<lambda>(octets, stream). Inr (Some (int_from_bytes octets), stream))
          else Inr (None, bs @ rest)) = Inr (min_value, rest)"
  using assms by (auto simp: int_to_bytes_Inr_iff split: option.splits)

lemma read_header_written:
  assumes v: "assert_valid_header exp mantissa min_value = Inr ()" and h: "header_octets exp mantissa min_value = Inr h"
  shows "read_header (h @ rest) = Inr ((exp, mantissa, min_value), rest)"
proof -
  have e: "mantissa = 0 \<Longrightarrow> exp = - 1" "mantissa \<noteq> 0 \<Longrightarrow> 0 \<le> exp \<and> exp \<le> 18"
    using v by (auto simp: assert_valid_header_def MAX_EXP_def rbind_eq_Inr_iff split: if_splits)
  obtain bs where bs: "(case min_value of None \<Rightarrow> Inr [] | Some v \<Rightarrow> int_to_bytes v MIN_VALUE_SIZE) = Inr bs"
    using h by (auto simp: header_octets_def rbind_eq_Inr_iff)
  note min = read_min_value [OF bs, of rest]
  show ?thesis
  proof (cases "mantissa = 0")
    case True
    then have "h = word_of_int (if min_value = None then 0 else 32) # bs"
      using h bs by (auto simp: header_octets_def header_flags_def one_byte_def mantissa_checked_def rbind_eq_Inr_iff HAS_MIN_def)
    then show ?thesis using min True e(1)
      by (cases min_value) (simp_all add: read_header_def read_one [unfolded One_nat_def] RP_RESERVED_def HAS_NZ_RANGE_def HAS_MIN_def uint_word_of_int)
  next
    case False
    note f = header_flags_read [OF conjunct1 [OF e(2) [OF False]] conjunct2 [OF e(2) [OF False]] False, of min_value]
    have m: "1 \<le> mantissa" "mantissa \<le> 64"
      using h False by (auto simp: header_octets_def mantissa_checked_def assert_valid_mantissa_def MAX_MANTISSA_def rbind_eq_Inr_iff split: if_splits)
    define fo mo :: "8 word" where "fo = word_of_int (header_flags exp mantissa min_value)" and "mo = word_of_int (mantissa - 1)"
    have hs: "h = fo # mo # bs" unfolding fo_def mo_def
      using h bs False m f(1,2) by (auto simp: header_octets_def one_byte_def rbind_eq_Inr_iff split: if_splits)
    have u: "uint fo = header_flags exp mantissa min_value" "uint mo = mantissa - 1"
      unfolding fo_def mo_def by (rule uint_of_octet; use f(1,2) m in linarith)+
    have "read_header (h @ rest) = rbind (if min_value \<noteq> None
          then rbind (read_exactly (bs @ rest) MIN_VALUE_SIZE) (\<lambda>(octets, stream). Inr (Some (int_from_bytes octets), stream))
          else Inr (None, bs @ rest)) (\<lambda>(min_value, stream). Inr ((exp, mantissa, min_value), stream))"
      using m by (simp add: hs read_header_def read_one [unfolded One_nat_def] u f(3-6) Let_def assert_valid_mantissa_def MAX_MANTISSA_def)
    then show ?thesis by (simp only: min rbind_simps prod.case)
  qed
qed

section \<open>The sign bits\<close>

lemma sign_bit_octets_bit:
  assumes "length signs \<le> 8 * sign_octets rings"
  shows "length (sign_bit_octets signs rings) = sign_octets rings \<and>
    (\<forall>q < sign_octets rings. \<forall>r < 8. bit (sign_bit_octets signs rings ! q) r = (8 * q + r < length signs \<and> signs ! (8 * q + r)))"
  using assms unfolding sign_bit_octets_def
proof (induction signs rule: rev_induct)
  case (snoc s signs)
  let ?f = "\<lambda>octets (i, sign). octets[i div 8 := octets ! (i div 8) OR push_bit (i mod 8) (of_bool sign)]"
  define octs where "octs = foldl ?f (replicate (sign_octets rings) (0 :: 8 word)) (enumerate 0 signs)"
  let ?n = "length signs"
  have IH: "length octs = sign_octets rings" "\<And>q r. q < sign_octets rings \<Longrightarrow> r < 8 \<Longrightarrow> bit (octs ! q) r = (8 * q + r < ?n \<and> signs ! (8 * q + r))"
    using snoc by (simp_all add: octs_def)
  have step: "foldl ?f (replicate (sign_octets rings) (0 :: 8 word)) (enumerate 0 (signs @ [s]))
      = octs[?n div 8 := octs ! (?n div 8) OR push_bit (?n mod 8) (of_bool s)]"
    by (simp add: enumerate_append_eq octs_def)
  have n: "?n div 8 < sign_octets rings" using snoc.prems by simp
  have "bit (octs[?n div 8 := octs ! (?n div 8) OR push_bit (?n mod 8) (of_bool s)] ! q) r
      = (8 * q + r < Suc ?n \<and> (signs @ [s]) ! (8 * q + r))" if q: "q < sign_octets rings" "r < 8" for q r
  proof (cases "q = ?n div 8")
    case False
    then have "8 * q + r \<noteq> ?n" using q(2) by auto
    then show ?thesis using False IH q by (auto simp: nth_append)
  next
    case True
    have e: "8 * q + r = ?n \<longleftrightarrow> r = ?n mod 8" using mult_div_mod_eq [of 8 ?n] unfolding True by linarith
    have "bit (push_bit (?n mod 8) (of_bool s :: 8 word)) r = (r = ?n mod 8 \<and> s)"
      using q(2) by (cases s) (auto simp: bit_simps)
    then show ?thesis using True IH q n e by (auto simp: bit_simps nth_append less_Suc_eq)
  qed
  then show ?case unfolding step using IH(1) by simp
qed (simp add: sign_octets_def)

lemma read_signs_written:
  assumes "0 < rings" "length signs = rings - 1"
  shows "read_signs rings (sign_bit_octets signs rings @ rest) = Inr (signs, rest)"
proof -
  let ?o = "sign_bit_octets signs rings" and ?N = "sign_octets rings"
  have b: "rings - 1 \<le> 8 * ?N" unfolding sign_octets_def using assms(1) by presburger
  note o = sign_bit_octets_bit [of signs rings, unfolded assms(2), OF b]
  have "map (\<lambda>i. bit (?o ! (i div 8)) (i mod 8)) [0..<rings - 1] = signs"
  proof (rule nth_equalityI)
    fix i assume i': "i < length (map (\<lambda>i. bit (?o ! (i div 8)) (i mod 8)) [0..<rings - 1])"
    then have i: "i < length signs" using assms(2) by simp
    then have "i div 8 < ?N" using b assms(2) by linarith
    then have "bit (?o ! (i div 8)) (i mod 8) = signs ! i" using o i assms(2) by simp
    then show "map (\<lambda>i. bit (?o ! (i div 8)) (i mod 8)) [0..<rings - 1] ! i = signs ! i" using i assms(2) by simp
  qed (simp add: assms(2))
  moreover have "(rings - 1) mod 8 \<noteq> 0 \<longrightarrow> drop_bit ((rings - 1) mod 8) (last ?o) = 0"
  proof (intro impI bit_eqI)
    fix k :: nat assume pad: "(rings - 1) mod 8 \<noteq> 0"
    have N: "?N = Suc ((rings - 1) div 8)" using pad assms(1) unfolding sign_octets_def by presburger
    then have "?o \<noteq> []" using o by (metis length_0_conv nat.distinct(1))
    then have l: "last ?o = ?o ! ((rings - 1) div 8)" using o N by (simp add: last_conv_nth)
    show "bit (drop_bit ((rings - 1) mod 8) (last ?o)) k = bit (0 :: 8 word) k"
    proof (cases "(rings - 1) mod 8 + k < 8")
      case True
      have "\<not> 8 * ((rings - 1) div 8) + ((rings - 1) mod 8 + k) < rings - 1"
        using mult_div_mod_eq [of 8 "rings - 1"] by linarith
      then have "\<not> bit (?o ! ((rings - 1) div 8)) ((rings - 1) mod 8 + k)" using o True by (simp add: N)
      then show ?thesis by (simp add: l bit_simps)
    qed (auto simp: bit_simps dest: bit_imp_le_length)
  qed
  ultimately show ?thesis using conjunct1 [OF o] by (auto simp: read_signs_def Let_def)
qed

section \<open>The proof\<close>

lemma signature_read:
  assumes v: "borromean_assert_valid sg = Inr ()" and n: "cv_n (bs_ec sg) \<le> 256 ^ cv_n_size (bs_ec sg)" and S: "borromean_serialize sg False = Inr bs"
  shows "borromean_parse_stream bs (map length (bs_s sg)) (length (bs_e0 sg)) (bs_ec sg) True = Inr (sg, [])"
proof -
  let ?ec = "bs_ec sg"
  have r: "0 \<le> v \<and> v < 256 ^ cv_n_size ?ec" if "ring \<in> set (bs_s sg)" "v \<in> set ring" for ring v
    using borromean_scalars [OF v that] n by linarith
  have "rmap (rmap (\<lambda>v. int_to_bytes v (cv_n_size ?ec))) (bs_s sg) = Inr (map (map (to_bytes (cv_n_size ?ec))) (bs_s sg))"
    by (rule scalars_written) (rule r)
  then have "bs = bs_e0 sg @ concat (map (\<lambda>ring. concat (map (to_bytes (cv_n_size ?ec)) ring)) (bs_s sg)) @ []"
    using S by (simp add: borromean_serialize_def comp_def)
  moreover have "init_borromean_sig (bs_e0 sg) (bs_s sg) ?ec True = Inr sg"
    using v by (cases sg) (simp add: init_borromean_sig_def)
  ultimately show ?thesis
    using read_rings_written [of "bs_s sg" "cv_n_size ?ec" "[]"] r by (simp add: borromean_parse_stream_def)
qed

lemma rp_parse_serialize:
  assumes S: "rp_serialize rp True = Inr bs" and n: "cv_n ec \<le> 256 ^ cv_n_size ec"
    and ec: "bs_ec (rp_sig rp) = ec" "length (bs_e0 (rp_sig rp)) = k"
  shows "rp_parse bs True k ec = Inr rp"
proof -
  have V: "rp_assert_valid rp = Inr ()" using S by (auto simp: rp_serialize_def checked_proof_def rbind_eq_Inr_iff)
  obtain ks us where ks: "assert_valid_header (rp_exp rp) (rp_mantissa rp) (rp_min_value rp) = Inr ()" "rp_rsizes (rp_mantissa rp) = Inr ks"
      "length (rp_signs rp) = length ks - 1" "length (rp_ring_commitments rp) = length ks - 1"
      "rmap (assert_ring_commitment (ec_p_size ec)) (rp_ring_commitments rp) = Inr us"
      "borromean_assert_valid (rp_sig rp) = Inr ()" "map length (bs_s (rp_sig rp)) = ks"
    using V ec(1) by (auto simp: rp_assert_valid_def rbind_eq_Inr_iff Let_def split: if_splits)
  obtain h xs sg where w: "header_octets (rp_exp rp) (rp_mantissa rp) (rp_min_value rp) = Inr h"
      "rmap (\<lambda>x. int_to_bytes x (ec_p_size ec)) (rp_ring_commitments rp) = Inr xs" "borromean_serialize (rp_sig rp) False = Inr sg"
      "bs = h @ sign_bit_octets (rp_signs rp) (length ks) @ concat xs @ sg"
    using S ks(2) ec(1) by (auto simp: rp_serialize_def checked_proof_def V rbind_eq_Inr_iff split: if_splits)
  have x: "0 \<le> x \<and> x < 256 ^ ec_p_size ec" if "x \<in> set (rp_ring_commitments rp)" for x
    using rmap_returned [OF ks(5) that] by (auto simp: assert_ring_commitment_def split: if_splits)
  have "rmap (\<lambda>x. int_to_bytes x (ec_p_size ec)) (rp_ring_commitments rp) = Inr (map (to_bytes (ec_p_size ec)) (rp_ring_commitments rp))"
    by (rule rmap_Inr) (use x in \<open>force simp: int_to_bytes_def\<close>)
  then have xs: "xs = map (to_bytes (ec_p_size ec)) (rp_ring_commitments rp)" using w(2) by simp
  have ring: "read_ring (concat xs @ sg) (ec_p_size ec) (length ks - 1) = Inr (rp_ring_commitments rp, sg)"
    using read_ring_written [OF x, of "rp_ring_commitments rp" sg] unfolding xs ks(4) by simp
  have "0 < length ks" using rsizes_nonempty [OF ks(2)] by simp
  then have signs: "read_signs (length ks) (sign_bit_octets (rp_signs rp) (length ks) @ concat xs @ sg) = Inr (rp_signs rp, concat xs @ sg)"
    using ks(3) by (rule read_signs_written)
  have sig: "borromean_parse_stream sg ks k ec True = Inr (rp_sig rp, [])"
    using signature_read [OF ks(6) _ w(3)] n ec ks(7) by simp
  have "init_range_proof (rp_exp rp) (rp_mantissa rp) (rp_min_value rp) (rp_signs rp) (rp_ring_commitments rp) (rp_sig rp) True = Inr rp"
    using V by (cases rp) (simp add: init_range_proof_def)
  then show ?thesis
    by (simp add: rp_parse_def w(4) read_header_written [OF ks(1) w(1)] ks(2) signs ring [unfolded One_nat_def] ring sig)
qed

text \<open>An exponent without a range is read over: the octets of a public value are not unique.\<close>

lemma public_exponent_dropped:
  assumes "0 \<le> x" "x < 32"
  shows "rp_parse (word_of_int x # data) check_validity k ec = rp_parse (0 # data) check_validity k ec"
proof -
  have "list_all (\<lambda>e. e AND 128 = 0 \<and> e AND 64 = 0 \<and> e AND 32 = 0) (map int [0..<32])" by code_simp
  moreover have "x \<in> set (map int [0..<32])" using assms by (auto intro: image_eqI [of _ _ "nat x"])
  ultimately have x: "x AND 128 = 0" "x AND 64 = 0" "x AND 32 = 0" unfolding list_all_iff by blast+
  have "uint (word_of_int x :: 8 word) = x" using assms by (simp add: uint_of_octet)
  then have "read_header (word_of_int x # data) = read_header (0 # data)"
    by (simp add: read_header_def read_one [unfolded One_nat_def] Let_def x RP_RESERVED_def HAS_NZ_RANGE_def HAS_MIN_def)
  then show ?thesis by (simp add: rp_parse_def)
qed

end
