(* ===== verification/Rangeproof_Valid.thy ===== *)
theory Rangeproof_Valid
  imports Rangeproof_Params
begin

unbundle bit_operations_syntax

text \<open>
  What a well-formed range proof is, stated over its fields: the header within its bounds and its greatest value
  within 64 bits, one sign bit and one commitment for each ring but the last, the rings of the signature the ones
  of the mantissa, every scalar below the order. \<^verbatim>\<open>assert_valid\<close> decides it.
\<close>

definition header_typed :: "int \<Rightarrow> int \<Rightarrow> int option \<Rightarrow> bool" where
  "header_typed exp mantissa min_value \<longleftrightarrow>
     0 \<le> mantissa \<and> mantissa \<le> 64 \<and> (if mantissa = 0 then exp = - 1 else 0 \<le> exp \<and> exp \<le> 18)
   \<and> 0 \<le> or_zero min_value \<and> (if mantissa = 0 then 0 else (2 ^ nat mantissa - 1) * 10 ^ nat exp) + or_zero min_value < 2 ^ 64"

definition ring_sizes :: "int \<Rightarrow> nat list" where
  "ring_sizes mantissa = (if mantissa = 0 then [1] else replicate (nat (mantissa div 2)) 4 @ (if odd mantissa then [2] else []))"

definition scalars_typed :: "borromean_sig \<Rightarrow> bool" where
  "scalars_typed sg \<longleftrightarrow> bs_e0 sg \<noteq> [] \<and> bs_s sg \<noteq> []
     \<and> (\<forall>ring \<in> set (bs_s sg). ring \<noteq> [] \<and> (\<forall>v \<in> set ring. 0 \<le> v \<and> v < cv_n (bs_ec sg)))"

definition range_proof_typed :: "range_proof \<Rightarrow> bool" where
  "range_proof_typed rp \<longleftrightarrow>
     header_typed (rp_exp rp) (rp_mantissa rp) (rp_min_value rp) \<and> scalars_typed (rp_sig rp)
   \<and> map length (bs_s (rp_sig rp)) = ring_sizes (rp_mantissa rp)
   \<and> length (rp_signs rp) = length (ring_sizes (rp_mantissa rp)) - 1
   \<and> length (rp_ring_commitments rp) = length (ring_sizes (rp_mantissa rp)) - 1
   \<and> (\<forall>x \<in> set (rp_ring_commitments rp). 0 \<le> x \<and> x < 256 ^ ec_p_size (bs_ec (rp_sig rp)))"

section \<open>The header\<close>

lemma scaled_up_Inr_iff:
  "0 \<le> v \<Longrightarrow> v \<le> UINT64_MAX \<Longrightarrow> scaled_up k v = Inr w \<longleftrightarrow> w = v * 10 ^ k \<and> v * 10 ^ k \<le> UINT64_MAX"
proof (induction k arbitrary: v)
  case (Suc k)
  show ?case
  proof (cases "v > UINT64_MAX div 10")
    case True
    then have "UINT64_MAX < v * 10" by (simp add: UINT64_MAX_def)
    also have "v * 10 \<le> v * 10 ^ Suc k" using Suc.prems(1) by (intro mult_left_mono) simp_all
    finally show ?thesis using True by simp
  next
    case False
    then have "v * 10 \<le> UINT64_MAX" by (simp add: UINT64_MAX_def)
    then show ?thesis using False Suc.IH [of "v * 10"] Suc.prems(1) by (simp add: mult.assoc)
  qed
qed auto

lemma div_ceiling: "0 < k \<Longrightarrow> c * k = u + 1 \<Longrightarrow> u div k = c - 1" for c k u :: int
proof -
  assume k: "0 < k" and u: "c * k = u + 1"
  have "u = (k - 1) + (c - 1) * k" using u by (simp add: left_diff_distrib)
  then have "u div k = (c - 1) + (k - 1) div k" using k by (simp only: div_mult_self1)
  also have "(k - 1) div k = 0" using k by (simp add: div_pos_pos_trivial)
  finally show ?thesis by simp
qed

lemma mantissa_ceiling: "1 \<le> m \<Longrightarrow> m \<le> 64 \<Longrightarrow> drop_bit (nat (64 - m)) UINT64_MAX = 2 ^ nat m - 1"
proof -
  assume m: "1 \<le> m" "m \<le> 64"
  have "nat m + nat (64 - m) = 64" using m by linarith
  then have "(2 :: int) ^ nat m * 2 ^ nat (64 - m) = 2 ^ 64" by (simp only: power_add [symmetric])
  also have "\<dots> = UINT64_MAX + 1" by (simp add: UINT64_MAX_def)
  finally show ?thesis unfolding drop_bit_eq_div by (rule div_ceiling [rotated]) simp
qed

lemma rp_max_value_Inr_iff:
  assumes "mantissa \<noteq> 0 \<Longrightarrow> 0 \<le> exp"  "mantissa = 0 \<Longrightarrow> exp \<le> 0" "0 \<le> min_value"
  shows "(\<exists>v. rp_max_value exp mantissa min_value = Inr v) \<longleftrightarrow> 0 \<le> mantissa \<and> mantissa \<le> 64
    \<and> (if mantissa = 0 then 0 else (2 ^ nat mantissa - 1) * 10 ^ nat exp) + min_value < 2 ^ 64"
proof (cases "mantissa = 0")
  case True
  then show ?thesis using assms(2) by (auto simp: rp_max_value_def mantissa_checked_def UINT64_MAX_def)
next
  case False
  show ?thesis
  proof (cases "1 \<le> mantissa \<and> mantissa \<le> 64")
    case True
    let ?c = "(2 :: int) ^ nat mantissa - 1"
    have "(2 :: int) ^ nat mantissa \<le> 2 ^ 64" using True by (intro power_increasing) linarith+
    then have c: "0 \<le> ?c" "?c \<le> UINT64_MAX" by (simp_all add: UINT64_MAX_def)
    have "max exp 0 = exp" using assms(1) [OF False] by simp
    then have "(\<exists>v. rp_max_value exp mantissa min_value = Inr v)
        \<longleftrightarrow> (\<exists>w. scaled_up (nat exp) ?c = Inr w \<and> w \<le> UINT64_MAX - min_value)"
      using False True mantissa_ceiling [of mantissa]
      by (auto simp: rp_max_value_def mantissa_checked_def assert_valid_mantissa_def MAX_MANTISSA_def rbind_eq_Inr_iff not_less split: if_splits)
    also have "\<dots> \<longleftrightarrow> ?c * 10 ^ nat exp \<le> UINT64_MAX - min_value"
      unfolding scaled_up_Inr_iff [OF c] using assms(3) by auto
    finally show ?thesis using False True by (auto simp: UINT64_MAX_def)
  next
    case out: False
    then show ?thesis using False
      by (auto simp: rp_max_value_def mantissa_checked_def assert_valid_mantissa_def MAX_MANTISSA_def)
  qed
qed

lemma assert_valid_header_iff: "assert_valid_header exp mantissa min_value = Inr () \<longleftrightarrow> header_typed exp mantissa min_value"
proof (cases "(if mantissa = 0 then exp = - 1 else 0 \<le> exp \<and> exp \<le> 18) \<and> 0 \<le> or_zero min_value")
  case True
  have e: "case min_value of None \<Rightarrow> True | Some v \<Rightarrow> 0 \<le> v \<and> v \<le> UINT64_MAX" if t: "header_typed exp mantissa min_value"
  proof -
    define c :: int where "c = (if mantissa = 0 then 0 else (2 ^ nat mantissa - 1) * 10 ^ nat exp)"
    have "0 \<le> c" by (simp add: c_def)
    moreover have "c + or_zero min_value < 2 ^ 64" "0 \<le> or_zero min_value" using t by (simp_all add: header_typed_def c_def)
    ultimately show ?thesis by (auto simp: or_zero_def UINT64_MAX_def split: option.splits)
  qed
  have "assert_valid_header exp mantissa min_value = Inr () \<longleftrightarrow> (case min_value of None \<Rightarrow> True | Some v \<Rightarrow> 0 \<le> v \<and> v \<le> UINT64_MAX)
      \<and> (\<exists>v. rp_max_value exp mantissa (or_zero min_value) = Inr v)"
    using True by (auto simp: assert_valid_header_def MAX_EXP_def rbind_eq_Inr_iff split: option.splits if_splits)
  also have "(\<exists>v. rp_max_value exp mantissa (or_zero min_value) = Inr v) \<longleftrightarrow> header_typed exp mantissa min_value"
    using rp_max_value_Inr_iff [of mantissa exp "or_zero min_value"] True by (auto simp: header_typed_def)
  finally show ?thesis using e by blast
next
  case False
  then show ?thesis
    by (auto simp: assert_valid_header_def MAX_EXP_def header_typed_def or_zero_def rbind_eq_Inr_iff split: option.splits if_splits)
qed

lemma ring_sizes: "0 \<le> mantissa \<Longrightarrow> mantissa \<le> 64 \<Longrightarrow> rp_rsizes mantissa = Inr (ring_sizes mantissa)"
  by (simp add: rp_rsizes_Inr_iff ring_sizes_def odd_iff_mod_2_eq_one)

section \<open>The proof\<close>

lemma rmap_unit_iff: "(\<exists>us. rmap f xs = Inr us) \<longleftrightarrow> (\<forall>x \<in> set xs. \<exists>u. f x = Inr u)"
  by (induction xs) (auto simp: rbind_eq_Inr_iff)

lemma rmap_rbind_unit: "rbind (rmap f xs) (\<lambda>_. g) = Inr y \<longleftrightarrow> (\<forall>x \<in> set xs. \<exists>u. f x = Inr u) \<and> g = Inr y"
  unfolding rmap_unit_iff [symmetric] by (auto simp: rbind_eq_Inr_iff)

lemma borromean_assert_valid_iff: "borromean_assert_valid sg = Inr () \<longleftrightarrow> scalars_typed sg"
  by (auto simp: borromean_assert_valid_def scalars_typed_def rmap_rbind_unit assert_s_ring_def assert_s_value_def split: if_splits)

lemma rp_assert_valid_iff: "rp_assert_valid rp = Inr () \<longleftrightarrow> range_proof_typed rp"
proof (cases "header_typed (rp_exp rp) (rp_mantissa rp) (rp_min_value rp)")
  case True
  then have "rp_rsizes (rp_mantissa rp) = Inr (ring_sizes (rp_mantissa rp))" by (auto simp: header_typed_def intro: ring_sizes)
  moreover have "assert_valid_header (rp_exp rp) (rp_mantissa rp) (rp_min_value rp) = Inr ()" using True by (simp add: assert_valid_header_iff)
  moreover have "(\<exists>u. assert_ring_commitment k x = Inr u) \<longleftrightarrow> 0 \<le> x \<and> x < 256 ^ k" for k x
    by (auto simp: assert_ring_commitment_def)
  ultimately show ?thesis
    by (auto simp: rp_assert_valid_def range_proof_typed_def True Let_def rmap_rbind_unit rbind_eq_Inr_iff [of "borromean_assert_valid _"]
      borromean_assert_valid_iff)
next
  case False
  then show ?thesis by (auto simp: rp_assert_valid_def range_proof_typed_def rbind_eq_Inr_iff assert_valid_header_iff)
qed

text \<open>Whatever makes a proof object checks it.\<close>

lemma made_proofs_typed:
  "init_range_proof exp mantissa min_value signs xs sg True = Inr rp \<Longrightarrow> range_proof_typed rp"
  "rp_parse data True k ec = Inr rp \<Longrightarrow> range_proof_typed rp"
  "rp_sign rnd blind value nonce H low exp min_bits message extra ec hf = Some (Inr rp) \<Longrightarrow> range_proof_typed rp"
proof -
  show i: "init_range_proof exp mantissa min_value signs xs sg True = Inr rp \<Longrightarrow> range_proof_typed rp" for exp mantissa min_value signs xs sg
    by (auto simp: init_range_proof_def Let_def rbind_eq_Inr_iff rp_assert_valid_iff)
  show "rp_parse data True k ec = Inr rp \<Longrightarrow> range_proof_typed rp"
    using i by (auto simp: rp_parse_def rbind_eq_Inr_iff)
  show "rp_sign rnd blind value nonce H low exp min_bits message extra ec hf = Some (Inr rp) \<Longrightarrow> range_proof_typed rp"
    using i unfolding rp_sign_def Let_def by (auto simp: obind_Inr_iff split: if_splits)
qed

end
