(* ===== verification/Rangeproof_Properties.thy ===== *)
theory Rangeproof_Properties
  imports Test_Rangeproof Rangeproof_Serial Rangeproof_Valid
begin

text \<open>The properties of the range proofs.\<close>

section \<open>The examples\<close>

definition H139 :: point where "H139 = Pt 57 66"
definition H32 :: point where "H32 = Pt 18 1"

lemma H139_member: "member ec139 H139" "H139 \<noteq> Inf" "aff_of H139 = (57, 66)"
  using ec139_group [of H139] ec139_valid by (simp_all add: member_def H139_def)

lemma H32_member: "member ec32 H32" "H32 \<noteq> Inf" "aff_of H32 = (18, 1)"
  using ec32_group [of H32] ec32_valid by (simp_all add: member_def H32_def)

lemma commitment139: "aff_of (committed ec139 H139 117 7) = (80, 75)"
  using commit_value [OF ec139_valid ec139_endo ec139_draws H139_member(1,2), of 117 7] parts139_a(4) H139_member(3) by simp

lemma commitment32: "aff_of (committed ec32 H32 5 9) = (6, 3)"
  using commit_value [OF ec32_valid ec32_endo ec32_draws H32_member(1,2), of 5 9] points32(1) H32_member(3) by simp

lemma rings_found: "pubk_rings (\<lambda>_. 1) proof139 (80, 75) (57, 66) True ec139 = Inr rings139"
  unfolding ec139_def proof139_def rings139_def by code_simp

lemma ring32: "pubk_rings (\<lambda>_. 1) proof32 (6, 3) (18, 1) True ec32 = Inr [[(12, 1)]]"
  unfolding ec32_def ec19_def proof32_def octets32_def digest32_def by code_simp

lemma proof32_signed: "rp_sign (\<lambda>_ _. 1) 5 9 (scalar32 1) (18, 1) 0 (- 1) 0 [] [] ec32 public_hash = Some (Inr proof32)"
  using proof32_made by (simp add: sign_public_value_def)

lemma proof32_verifies: "rp_verify (\<lambda>_. 1) (6, 3) proof32 (18, 1) [] ec32 public_hash = Inr True"
proof -
  have "\<exists>rings. pubk_rings (\<lambda>_. 1) proof32 (6, 3) (18, 1) True ec32 = Inr rings
      \<and> (rp_verify (\<lambda>_. 1) (6, 3) proof32 (18, 1) [] ec32 public_hash = Inr True \<longleftrightarrow> (\<forall>ring \<in> set rings. INF_aff \<notin> set ring))"
    using range_proof_verifies [OF ec32_cosign H32_member(1,2) ec32_draws ec32_draws, unfolded H32_member(3), OF proof32_signed]
    unfolding commitment32 .
  then show ?thesis unfolding ring32 by (auto simp: INF_aff_def)
qed

lemma written139:
  "rp_serialize proof139 True = Inr ([64, 2, 0] @ replicate 31 0 @ [29, 12, 157, 141, 29, 120, 29, 131])"
  unfolding ec139_def proof139_def by code_simp

section \<open>Properties\<close>

text \<open>
  C35: A range proof that is made verifies for the commitment to the value, whatever the random factors of the two
  sides, unless one of the keys the verifier derives for the rings is the point at infinity, and then it does not.
\<close>

theorem range_proof_sign_then_verify:
  assumes "cosign_curve ec" "member ec H" "H \<noteq> Inf" "\<And>k. draws ec (rnd k)" "draws ec rnd'"
    and "rp_sign rnd blind value nonce (aff_of H) min_value exp min_bits message extra ec hf = Some (Inr rp)"
  shows "\<exists>rings. pubk_rings rnd' rp (aff_of (committed ec H blind value)) (aff_of H) True ec = Inr rings
    \<and> (rp_verify rnd' (aff_of (committed ec H blind value)) rp (aff_of H) extra ec hf = Inr True \<longleftrightarrow> (\<forall>ring \<in> set rings. INF_aff \<notin> set ring))"
  by (rule range_proof_verifies [OF assms])

theorem range_proof_sign_then_verify_witness:
  "rp_sign (\<lambda>_ _. 1) 117 7 nonce139 (57, 66) 0 0 3 [] [] ec139 mixing_hash = Some (Inr proof139)
    \<and> rp_verify (\<lambda>_. 1) (80, 75) proof139 (57, 66) [] ec139 mixing_hash = Inr True"
proof -
  have "\<exists>rings. pubk_rings (\<lambda>_. 1) proof139 (80, 75) (57, 66) True ec139 = Inr rings
      \<and> (rp_verify (\<lambda>_. 1) (80, 75) proof139 (57, 66) [] ec139 mixing_hash = Inr True \<longleftrightarrow> (\<forall>ring \<in> set rings. INF_aff \<notin> set ring))"
    using range_proof_sign_then_verify [OF ec139_cosign H139_member(1,2) ec139_draws ec139_draws, unfolded H139_member(3), OF proof139_made]
    unfolding commitment139 .
  then show ?thesis using proof139_made unfolding rings_found by (auto simp: rings139_def INF_aff_def)
qed

text \<open>
  C36: Whoever knows the nonce reads a proof that verifies back to the blinding factor, the value and the message,
  which is followed by zeros up to the octets the proof carries; provided the generator run over zeros meets no
  octets that are not a scalar, and, where the prover signed at the last position of the last ring, what it wrote
  there does not look like the encoding of a value.
\<close>

theorem range_proof_rewinds:
  assumes "cosign_curve ec" "member ec H" "H \<noteq> Inf" "cv_n_size ec = 32" "\<And>k. draws ec (rnd k)" "\<And>k. draws ec (rnd' k)"
    and "rp_sign rnd blind amount nonce (aff_of H) min_value exp min_bits message extra ec hf = Some (Inr rp)"
    and "rp_verify (rnd' 0) (aff_of (committed ec H blind amount)) rp (aff_of H) extra ec hf = Inr True"
    and "prove_params amount min_value exp min_bits = Inr p"
    and "hashed_prefix (aff_of (committed ec H blind amount)) (aff_of H) (rp_exp rp) (rp_mantissa rp) (rp_min_value rp) ec = Inr prefix"
    and "rp_genrand (nonce @ prefix) (pp_rsizes p) (replicate (RING_STRIDE * cv_n_size ec * length (pp_rsizes p)) 0) ec hf = Some (Inr drawn)"
    and "pp_rsizes p \<noteq> [1] \<Longrightarrow> last (pp_sign_key_idx p) = last (pp_rsizes p) - 1 \<Longrightarrow>
      value_at_position (last (bs_s (rp_sig rp))) (last (nc_draws drawn)) (int (last (pp_sign_key_idx p))) ec = Inr None"
  shows "rp_rewind rnd' (aff_of (committed ec H blind amount)) rp nonce (aff_of H) extra ec hf
    = Some (Inr \<lparr>rw_blind = blind, rw_value = amount,
        rw_message = message @ replicate (128 * (length (pp_rsizes p) - 1) + 32 * (last (pp_rsizes p) - 2) - length message) 0\<rparr>)"
  by (rule rewind_reads_back [where rnd = rnd and rnd' = rnd' and min_value = min_value and exp = exp and min_bits = min_bits and p = p
      and prefix = prefix and chainz = drawn]; (fact assms | fact assms(11) [folded zeros_def]))

theorem range_proof_rewinds_witness:
  "rp_sign (\<lambda>_ _. 1) 5 9 (scalar32 1) (18, 1) 0 (- 1) 0 [] [] ec32 public_hash = Some (Inr proof32)
    \<and> rp_rewind (\<lambda>_ _. 1) (6, 3) proof32 (scalar32 1) (18, 1) [] ec32 public_hash = Some (Inr \<lparr>rw_blind = 5, rw_value = 9, rw_message = []\<rparr>)"
proof -
  let ?p = "\<lparr>pp_v = 0, pp_rsizes = [Suc 0], pp_sign_key_idx = [0], pp_min_value = 9, pp_mantissa = 0, pp_scale = 1, pp_exp = - 1\<rparr>"
  have "rp_rewind (\<lambda>_ _. 1) (6, 3) proof32 (scalar32 1) (18, 1) [] ec32 public_hash
    = Some (Inr \<lparr>rw_blind = 5, rw_value = 9,
        rw_message = [] @ replicate (128 * (length (pp_rsizes ?p) - 1) + 32 * (last (pp_rsizes ?p) - 2) - length ([] :: octets)) 0\<rparr>)"
    using range_proof_rewinds [where ec = ec32 and H = H32 and rnd = "\<lambda>_ _. 1" and rnd' = "\<lambda>_ _. 1" and blind = 5 and amount = 9 and nonce = "scalar32 1"
        and min_value = 0 and exp = "- 1" and min_bits = 0 and message = "[]" and extra = "[]" and hf = public_hash and rp = proof32 and p = ?p
        and prefix = prefix32 and drawn = "\<lparr>nc_blinding_factors = [0], nc_draws = [[12]]\<rparr>", unfolded H32_member(3) commitment32]
      ec32_cosign H32_member(1,2) ec32_draws proof32_signed proof32_verifies parts32(1-3)
    by (simp add: proof32_def RING_STRIDE_def)
  then show ?thesis using proof32_signed by simp
qed

text \<open>
  C37: A range proof that is written is read back, when the curve and the size of the digest are the ones it is
  read for; the octets are not the only ones that are read to a proof of a public value, as the bits of the
  exponent are read over where there is no range.
\<close>

theorem range_proof_serialization_roundtrip:
  "(rp_serialize rp True = Inr bs \<and> cv_n (bs_ec (rp_sig rp)) \<le> 256 ^ cv_n_size (bs_ec (rp_sig rp))
      \<longrightarrow> rp_parse bs True (length (bs_e0 (rp_sig rp))) (bs_ec (rp_sig rp)) = Inr rp)
    \<and> (0 \<le> x \<and> x < 32 \<longrightarrow> rp_parse (word_of_int x # data) check_validity k ec = rp_parse (0 # data) check_validity k ec)"
  using rp_parse_serialize [of rp bs] public_exponent_dropped [of x] by blast

theorem range_proof_serialization_roundtrip_witness:
  "rp_parse ([64, 2, 0] @ replicate 31 0 @ [29, 12, 157, 141, 29, 120, 29, 131]) True 1 ec139 = Inr proof139
    \<and> rp_parse [17] True 32 ec32 = rp_parse [0] True 32 ec32"
  using range_proof_serialization_roundtrip [of proof139 "[64, 2, 0] @ replicate 31 0 @ [29, 12, 157, 141, 29, 120, 29, 131]" 17 "[]" True 32 ec32]
    written139 by (simp add: proof139_def)

text \<open>
  C40: The check of a range proof accepts exactly the well-formed ones: the header within its bounds and its
  greatest value below 2 to the 64, a sign bit and a commitment of the field's size for each ring but the last, the
  rings of the signature the ones of the mantissa, the scalars below the order; and whatever the parser or the
  prover returns is well-formed.
\<close>

theorem range_proof_type_decided:
  "(rp_assert_valid rp = Inr () \<longleftrightarrow> range_proof_typed rp)
    \<and> (rp_parse data True k ec = Inr rp \<longrightarrow> range_proof_typed rp)
    \<and> (rp_sign rnd blind value nonce H min_value exp min_bits message extra ec hf = Some (Inr rp) \<longrightarrow> range_proof_typed rp)"
  using rp_assert_valid_iff made_proofs_typed(2,3) by blast

theorem range_proof_type_decided_witness: "range_proof_typed proof139 \<and> rp_assert_valid proof139 = Inr ()"
proof -
  have "range_proof_typed proof139"
    using range_proof_type_decided [where rp = proof139 and rnd = "\<lambda>_ _. 1"] proof139_made by blast
  then show ?thesis using range_proof_type_decided [where rp = proof139] by blast
qed

end
