(* ===== verification/Rfc6979_Correct.thy ===== *)
theory Rfc6979_Correct
  imports Nonces
begin

text \<open>
  RFC 6979, section 3.2, as it is printed: the octets \<open>K\<close> and \<open>V\<close> that each candidate is drawn from, the
  concatenation \<open>T\<close> of the blocks it fills, and the number that its leftmost bits are. The generator of the code,
  which appends one block at a time and advances its two octet strings in place, draws these numbers in this order.
\<close>

section \<open>The specification\<close>

text \<open>Steps b to g, over the octets that the key, the hash and the extra entropy are concatenated to.\<close>

definition rfc_start :: "hash_fn \<Rightarrow> octets \<Rightarrow> octets \<times> octets" where
  "rfc_start hf seed =
     (let K0 = replicate (hf_size hf) 0; V0 = replicate (hf_size hf) 1;
        K1 = hmac hf K0 (V0 @ 0 # seed); V1 = hmac hf K1 V0;
        K2 = hmac hf K1 (V1 @ 1 # seed)
      in (K2, hmac hf K2 V1))"

text \<open>The blocks of step h.2: as many as are needed for the octets asked for.\<close>

definition rfc_blocks :: "hash_fn \<Rightarrow> nat \<Rightarrow> nat" where
  "rfc_blocks hf sz = (sz + hf_size hf - 1) div hf_size hf"

definition rfc_T :: "hash_fn \<Rightarrow> octets \<Rightarrow> octets \<Rightarrow> nat \<Rightarrow> octets" where
  "rfc_T hf K V m = concat (map (\<lambda>j. (hmac hf K ^^ Suc j) V) [0..<m])"

text \<open>The two strings before the candidate of the given number is drawn; step h.3 leads to the next.\<close>

fun rfc_KV :: "hash_fn \<Rightarrow> octets \<Rightarrow> nat \<Rightarrow> nat \<Rightarrow> octets \<times> octets" where
  "rfc_KV hf seed m 0 = rfc_start hf seed"
| "rfc_KV hf seed m (Suc i) =
     (let (K, V) = rfc_KV hf seed m i; V' = (hmac hf K ^^ m) V; K' = hmac hf K (V' @ [0]) in (K', hmac hf K' V'))"

definition rfc_number :: "curve \<Rightarrow> hash_fn \<Rightarrow> octets \<Rightarrow> nat \<Rightarrow> int" where
  "rfc_number ec hf seed i =
     (let m = rfc_blocks hf (cv_n_size ec); (K, V) = rfc_KV hf seed m i
      in int_from_bytes (take (cv_n_size ec) (rfc_T hf K V m)) div 2 ^ (8 * cv_n_size ec - cv_nlen ec))"

definition usable_scalar :: "curve \<Rightarrow> int \<Rightarrow> bool" where
  "usable_scalar ec k \<longleftrightarrow> 0 < k \<and> k < cv_n ec"

section \<open>The generator draws these numbers\<close>

lemma ceil_div_step:
  assumes "0 < (h :: nat)" "0 < x"
  shows "(x + h - 1) div h = Suc ((x - h + h - 1) div h)"
proof (cases "h \<le> x")
  case True
  then have e: "x + h - 1 = (x - h + h - 1) + h" using assms by simp
  show ?thesis unfolding e by (rule trans [OF div_add_self2]) (use assms(1) in simp_all)
next
  case False
  define y where "y = x - 1"
  have "x + h - 1 = y + h" "y < h" using assms False by (simp_all add: y_def)
  moreover have "(y + h) div h = y div h + 1" by (rule div_add_self2) (use assms(1) in simp)
  ultimately have "(x + h - 1) div h = 1" by simp
  moreover have "x - h + h - 1 < h" using False assms by simp
  ultimately show ?thesis by simp
qed

lemma rfc_T_Suc: "rfc_T hf K V (Suc m) = hmac hf K V @ rfc_T hf K (hmac hf K V) m"
  by (simp only: rfc_T_def upt_conv_Cons [OF zero_less_Suc] list.map concat.simps map_Suc_upt [symmetric] map_map)
    (simp add: o_def funpow_swap1)

lemma length_rfc_T: "hash_ok hf \<Longrightarrow> length (rfc_T hf K V m) = m * hf_size hf"
  by (induction m arbitrary: V) (simp_all add: rfc_T_Suc length_hmac, simp add: rfc_T_def)

lemma generate_loop_blocks:
  assumes "hash_ok hf"
  shows "generate_loop hf K V t sz =
    ((hmac hf K ^^ rfc_blocks hf (sz - length t)) V, t @ rfc_T hf K V (rfc_blocks hf (sz - length t)))"
  using assms
proof (induction hf K V t sz rule: generate_loop.induct)
  case (1 hf K V t sz)
  have h: "0 < hf_size hf" "length (hmac hf K V) = hf_size hf" using 1(2) length_hmac by (auto simp: hash_ok_def)
  then have ne: "hmac hf K V \<noteq> []" by auto
  show ?case
  proof (cases "length t < sz")
    case True
    let ?m = "rfc_blocks hf (sz - length t - hf_size hf)"
    have m: "rfc_blocks hf (sz - length t) = Suc ?m"
      using ceil_div_step [OF h(1), of "sz - length t"] True by (simp add: rfc_blocks_def)
    have "generate_loop hf K V t sz = generate_loop hf K (hmac hf K V) (t @ hmac hf K V) sz"
      using True ne by (subst generate_loop.simps) (simp add: Let_def)
    also have "\<dots> = ((hmac hf K ^^ ?m) (hmac hf K V), (t @ hmac hf K V) @ rfc_T hf K (hmac hf K V) ?m)"
      using 1(1) [OF conjI [OF True ne] refl 1(2)] h(2) by simp
    finally show ?thesis unfolding m rfc_T_Suc by (simp add: funpow_swap1)
  next
    case False
    then show ?thesis using h(1) by (subst generate_loop.simps) (simp add: rfc_blocks_def rfc_T_def)
  qed
qed

lemma blocks_reach: "0 < h \<Longrightarrow> (sz :: nat) \<le> (sz + h - 1) div h * h"
  using div_mult_mod_eq [of "sz + h - 1" h] mod_less_divisor [of h "sz + h - 1"] by linarith

lemma rfc_candidate_drawn:
  assumes "hash_ok hf"
  shows "rfc_candidate ec hf \<lparr>dr_k = K, dr_v = V\<rparr> =
    (int_from_bytes (take (cv_n_size ec) (rfc_T hf K V (rfc_blocks hf (cv_n_size ec)))) div 2 ^ (8 * cv_n_size ec - cv_nlen ec),
     \<lparr>dr_k = K, dr_v = (hmac hf K ^^ rfc_blocks hf (cv_n_size ec)) V\<rparr>)"
proof -
  have "cv_n_size ec \<le> length (rfc_T hf K V (rfc_blocks hf (cv_n_size ec)))"
    using assms blocks_reach [of "hf_size hf" "cv_n_size ec"] by (simp add: length_rfc_T rfc_blocks_def hash_ok_def)
  then have "int_from_bits (take (cv_n_size ec) (rfc_T hf K V (rfc_blocks hf (cv_n_size ec)))) (cv_nlen ec) =
    int_from_bytes (take (cv_n_size ec) (rfc_T hf K V (rfc_blocks hf (cv_n_size ec)))) div 2 ^ (8 * cv_n_size ec - cv_nlen ec)"
    by (simp add: int_from_bits_def Let_def drop_bit_eq_div mult.commute min_absorb2)
  then show ?thesis by (simp add: rfc_candidate_def drbg_generate_def generate_loop_blocks [OF assms])
qed

lemma rfc_candidates_drawn:
  assumes "hash_ok hf"
  shows "((\<lambda>(nonce, d). rfc_candidate ec hf (drbg_reseed hf d)) ^^ i) (rfc_candidate ec hf (init_drbg seed hf)) =
    (rfc_number ec hf seed i,
     let (K, V) = rfc_KV hf seed (rfc_blocks hf (cv_n_size ec)) i in \<lparr>dr_k = K, dr_v = (hmac hf K ^^ rfc_blocks hf (cv_n_size ec)) V\<rparr>)"
proof (induction i)
  case 0
  have "init_drbg seed hf = (case rfc_start hf seed of (K, V) \<Rightarrow> \<lparr>dr_k = K, dr_v = V\<rparr>)"
    by (simp add: init_drbg_def rfc_start_def Let_def)
  then show ?case by (simp add: rfc_candidate_drawn [OF assms] rfc_number_def Let_def split: prod.split)
next
  case (Suc i)
  obtain K V where kv: "rfc_KV hf seed (rfc_blocks hf (cv_n_size ec)) i = (K, V)" by force
  show ?case
    unfolding funpow.simps(2) o_apply Suc kv Let_def prod.case
    by (simp add: kv drbg_reseed_def Let_def rfc_candidate_drawn [OF assms] rfc_number_def)
qed

lemma rfc6979_nonce_first:
  assumes h: "hash_ok hf" and q: "0 \<le> q" "q < 256 ^ cv_n_size ec" and c: "0 \<le> c" "c < 256 ^ cv_n_size ec"
    and s: "seed = to_bytes (cv_n_size ec) q @ to_bytes (cv_n_size ec) c @ (case extra of None \<Rightarrow> [] | Some e \<Rightarrow> e)"
  shows "rfc6979_nonce_raw c q ec hf extra = Some (Inr k) \<longleftrightarrow>
      (\<exists>i. k = rfc_number ec hf seed i \<and> usable_scalar ec k \<and> (\<forall>j<i. \<not> usable_scalar ec (rfc_number ec hf seed j)))"
    "rfc6979_nonce_raw c q ec hf extra = None \<longleftrightarrow> (\<forall>i. \<not> usable_scalar ec (rfc_number ec hf seed i))"
proof -
  note cand = rfc_candidates_drawn [OF h, of _ ec seed]
  have r: "rfc6979_nonce_raw c q ec hf extra = map_option Inr (rfc6979_loop ec hf (init_drbg seed hf))"
    using q c by (simp add: rfc6979_nonce_raw_def int_to_bytes_def s)
  show "rfc6979_nonce_raw c q ec hf extra = Some (Inr k) \<longleftrightarrow>
      (\<exists>i. k = rfc_number ec hf seed i \<and> usable_scalar ec k \<and> (\<forall>j<i. \<not> usable_scalar ec (rfc_number ec hf seed j)))"
    unfolding r usable_scalar_def using rfc6979_loop_iff [of ec hf "init_drbg seed hf" k, unfolded cand fst_conv] by auto
  have "rfc6979_loop ec hf (init_drbg seed hf) = None \<longleftrightarrow> (\<forall>i. \<not> usable_scalar ec (rfc_number ec hf seed i))"
    using first_accepted_defined [of "\<lambda>(nonce, d). 0 < nonce \<and> nonce < cv_n ec" "\<lambda>(nonce, d). rfc_candidate ec hf (drbg_reseed hf d)"
        "rfc_candidate ec hf (init_drbg seed hf)", unfolded cand]
    by (auto simp: rfc6979_loop_def usable_scalar_def)
  then show "rfc6979_nonce_raw c q ec hf extra = None \<longleftrightarrow> (\<forall>i. \<not> usable_scalar ec (rfc_number ec hf seed i))" unfolding r by simp
qed

end
