(* ===== verification/Ellswift.thy ===== *)
theory Ellswift
  imports Signature_Checks
begin

text \<open>
  Model of \<^verbatim>\<open>src/btclib_ecc/ecc/ellswift.py\<close>: the map of a pair of field elements to an x-coordinate, its
  inverse in eight cases, and the encoding and decoding of a point, on the Python path. The constants of a curve
  are computed at every call, which the code keeps in a dictionary; the field elements and the cases the encoder
  draws are an argument, so that its search is a function of them.
\<close>

section \<open>The map\<close>

definition ell_constants :: "curve \<Rightarrow> (int \<times> int) result" where
  "ell_constants ec =
     (if ec_a ec \<noteq> 0 then Inl (BTClibEccValueError ''the ElligatorSwift map wants a curve with a == 0'')
      else rbind (mod_sqrt_var ((- 3) mod ec_p ec) (ec_p ec)) (\<lambda>r.
        rbind (mod_inv_var 2 (ec_p ec)) (\<lambda>i. Inr (r, i))))"

definition try_sqrt :: "int \<Rightarrow> int \<Rightarrow> int option result" where
  "try_sqrt a p =
     (case mod_sqrt_var a p of
        Inr r \<Rightarrow> Inr (Some r)
      | Inl (BTClibEccValueError _) \<Rightarrow> Inr None
      | Inl e \<Rightarrow> Inl e)"

fun first_x_coordinate :: "int list \<Rightarrow> curve \<Rightarrow> int result" where
  "first_x_coordinate [] ec = Inl (BTClibEccRuntimeError ''no x-coordinate for the given field elements'')"
| "first_x_coordinate (x # xs) ec =
     rbind (is_x_coordinate_var x ec) (\<lambda>b. if b then Inr x else first_x_coordinate xs ec)"

text \<open>The zeros and the one pair the map would divide by zero at, replaced.\<close>

definition ell_arguments :: "int \<Rightarrow> int \<Rightarrow> curve \<Rightarrow> int \<times> int" where
  "ell_arguments u t ec =
     (let p = ec_p ec; u = u mod p; t = t mod p;
        u = (if u = 0 then 1 else u);
        t = (if t = 0 then 1 else t);
        t = (if (pow_mod u 3 p + t * t + ec_b ec) mod p = 0 then 2 * t mod p else t)
      in (u, t))"

definition xswiftec_var :: "int \<Rightarrow> int \<Rightarrow> curve \<Rightarrow> int result" where
  "xswiftec_var u t ec =
     (let p = ec_p ec in
      rbind (ell_constants ec) (\<lambda>(minus_3_sqrt, inv2).
        let (u, t) = ell_arguments u t ec in
        rbind (mod_inv_var (2 * t) p) (\<lambda>i.
        let X = (pow_mod u 3 p + ec_b ec - t * t) * i mod p in
        rbind (mod_inv_var (minus_3_sqrt * u mod p) p) (\<lambda>i.
        let Y = (X + t) * i mod p in
        rbind (mod_inv_var Y p) (\<lambda>inv_Y.
          first_x_coordinate
            [(u + 4 * Y * Y) mod p, (- X * inv_Y - u) * inv2 mod p, (X * inv_Y - u) * inv2 mod p] ec)))))"

section \<open>Its inverse\<close>

text \<open>
  The two halves of \<^verbatim>\<open>_xswiftec_inv_var\<close>: what its first branch finds for \<open>v\<close> and \<open>s\<close>, where \<open>None\<close> is
  its early return, and the signs of the four returns.
\<close>

definition ell_branch :: "int \<Rightarrow> int \<Rightarrow> nat \<Rightarrow> int \<Rightarrow> curve \<Rightarrow> (int \<times> int) option result" where
  "ell_branch x u cas inv2 ec =
     (let p = ec_p ec; b = ec_b ec in
      if \<not> bit cas 1 then
        rbind (is_x_coordinate_var ((- x - u) mod p) ec) (\<lambda>other.
          if other then Inr None
          else let v = x in
            rbind (mod_inv_var ((u * u + u * v + v * v) mod p) p) (\<lambda>i.
              Inr (Some (v, - (pow_mod u 3 p + b) * i mod p))))
      else
        let s = (x - u) mod p in
        if s = 0 then Inr None
        else
          rbind (try_sqrt (- s * (4 * (pow_mod u 3 p + b) + 3 * s * u mod p * u) mod p) p) (\<lambda>r.
            case r of
              None \<Rightarrow> Inr None
            | Some r \<Rightarrow>
                if bit cas 0 \<and> r = 0 then Inr None
                else rbind (mod_inv_var s p) (\<lambda>i. Inr (Some ((- u + r * i) * inv2 mod p, s)))))"

definition ell_signed :: "nat \<Rightarrow> int \<Rightarrow> int \<Rightarrow> int \<Rightarrow> int \<Rightarrow> int \<Rightarrow> int \<Rightarrow> int" where
  "ell_signed cas w u v minus_3_sqrt inv2 p =
     (if \<not> bit cas 0 \<and> \<not> bit cas 2 then - w * (u * ((1 - minus_3_sqrt) mod p) mod p * inv2 + v) mod p
      else if bit cas 0 \<and> \<not> bit cas 2 then w * (u * ((1 + minus_3_sqrt) mod p) mod p * inv2 + v) mod p
      else if \<not> bit cas 0 \<and> bit cas 2 then w * (u * ((1 - minus_3_sqrt) mod p) mod p * inv2 + v) mod p
      else - w * (u * ((1 + minus_3_sqrt) mod p) mod p * inv2 + v) mod p)"

definition xswiftec_inv_var :: "int \<Rightarrow> int \<Rightarrow> nat \<Rightarrow> curve \<Rightarrow> int option result" where
  "xswiftec_inv_var x u cas ec =
     (let p = ec_p ec in
      rbind (ell_constants ec) (\<lambda>(minus_3_sqrt, inv2).
        let x = x mod p; u = u mod p in
        rbind (ell_branch x u cas inv2 ec) (\<lambda>branch.
          case branch of
            None \<Rightarrow> Inr None
          | Some (v, s) \<Rightarrow>
              rbind (try_sqrt s p) (\<lambda>w.
                case w of
                  None \<Rightarrow> Inr None
                | Some w \<Rightarrow> Inr (Some (ell_signed cas w u v minus_3_sqrt inv2 p))))))"

section \<open>Encodings\<close>

definition x_t_from_ell_var :: "octets \<Rightarrow> curve \<Rightarrow> (int \<times> int) result" where
  "x_t_from_ell_var ell ec =
     (let size = ec_p_size ec;
        u = int_from_bytes (take size ell) mod ec_p ec;
        t = int_from_bytes (drop size ell) mod ec_p ec
      in rbind (xswiftec_var u t ec) (\<lambda>x. Inr (x, t)))"

definition point_from_ell_var :: "octets \<Rightarrow> curve \<Rightarrow> apoint result" where
  "point_from_ell_var ell ec =
     rbind (x_t_from_ell_var ell ec) (\<lambda>(x, t).
     rbind (y_even_var ec x) (\<lambda>y. Inr (x, if t mod 2 \<noteq> 0 then ec_p ec - y else y)))"

text \<open>One round of the encoder: the field element and the case it draws.\<close>

definition ell_attempt :: "apoint \<Rightarrow> curve \<Rightarrow> int \<times> nat \<Rightarrow> octets option result" where
  "ell_attempt Q ec = (\<lambda>(u, cas).
     rbind (xswiftec_inv_var (fst Q) u cas ec) (\<lambda>t.
       case t of
         None \<Rightarrow> Inr None
       | Some t \<Rightarrow>
           let t = (if t mod 2 \<noteq> snd Q mod 2 then ec_p ec - t else t) in
           rbind (int_to_bytes u (ec_p_size ec)) (\<lambda>us.
           rbind (int_to_bytes t (ec_p_size ec)) (\<lambda>ts. Inr (Some (us @ ts))))))"

definition ell_from_point_var :: "(nat \<Rightarrow> int \<times> nat) \<Rightarrow> apoint \<Rightarrow> curve \<Rightarrow> octets run" where
  "ell_from_point_var drawn Q ec =
     map_option (\<lambda>k. rbind (ell_attempt Q ec (drawn k)) (\<lambda>ell. Inr (the ell)))
       (first_accepted Suc (\<lambda>k. ell_attempt Q ec (drawn k) \<noteq> Inr None) 0)"

definition ell_from_octets :: "octets \<Rightarrow> curve \<Rightarrow> octets result" where
  "ell_from_octets ell ec =
     (if length ell \<noteq> 2 * ec_p_size ec then Inl (BTClibEccValueError ''invalid ElligatorSwift size'') else Inr ell)"

definition create_var :: "int \<Rightarrow> (nat \<Rightarrow> int \<times> nat) \<Rightarrow> int \<Rightarrow> curve \<Rightarrow> octets run" where
  "create_var rnd drawn prv_key ec =
     obind (Some (scalar_from_int prv_key ec)) (\<lambda>q.
     obind (Some (ell_constants ec)) (\<lambda>_.
     obind (Some (mult rnd q (Some (cv_G ec)) ec)) (\<lambda>Q. ell_from_point_var drawn Q ec)))"

definition encode_var :: "(nat \<Rightarrow> int \<times> nat) \<Rightarrow> pub_key \<Rightarrow> curve \<Rightarrow> octets run" where
  "encode_var drawn key ec =
     obind (Some (point_from_pub_key key ec)) (\<lambda>Q.
     obind (Some (ell_constants ec)) (\<lambda>_. ell_from_point_var drawn Q ec))"

definition decode_var :: "octets \<Rightarrow> curve \<Rightarrow> apoint result" where
  "decode_var ell ec = rbind (ell_from_octets ell ec) (\<lambda>ell. point_from_ell_var ell ec)"

end
