(* ===== verification/Ellswift_Correct.thy ===== *)
theory Ellswift_Correct
  imports Ellswift Pedersen_Correct
begin

text \<open>
  The map of a pair of field elements always finds an x-coordinate, as the ordinates squared of its three
  candidates have a square for product; what the inverse returns is mapped back to the x-coordinate it was asked
  for; so every string of the right size is decoded to a point, and an encoding decodes to the point encoded.
\<close>

section \<open>The curves of the map\<close>

text \<open>
  Those whose constants exist, over a field of three modulo four, with no point of ordinate zero; secp256k1 is one,
  its order being odd.
\<close>

definition ell_curve :: "curve \<Rightarrow> bool" where
  "ell_curve ec \<longleftrightarrow> curve_valid ec \<and> sized ec \<and> ec_p ec mod 4 = 3 \<and> 3 < ec_p ec \<and> \<not> isl (ell_constants ec)
   \<and> (\<forall>x. \<not> ec_p ec dvd (x * x * x + ec_b ec))"

lemma ell_curveD:
  assumes "ell_curve ec"
  shows "curve_valid ec" "sized ec" "ec_p ec mod 4 = 3" "3 < ec_p ec" "\<not> ec_p ec dvd (x * x * x + ec_b ec)"
    "prime_int (ec_p ec)" "odd (ec_p ec)" "0 < ec_p ec" "curve_ok ec"
  using assms curve_field by (auto simp: ell_curve_def curve_valid_def)

lemma ell_constants_sound:
  assumes "ell_curve ec"
  obtains c i where "ell_constants ec = Inr (c, i)" "ec_a ec = 0" "ec_p ec dvd (c * c + 3)" "ec_p ec dvd (2 * i - 1)"
proof -
  note p = ell_curveD(4,6) [OF assms]
  obtain k where k: "ell_constants ec = Inr k" using assms by (cases "ell_constants ec") (auto simp: ell_curve_def)
  have two: "\<not> ec_p ec dvd 2" by (rule prime_not_dvd_2 [OF p(2)]) (use p(1) in simp)
  obtain c where c: "ec_a ec = 0" "mod_sqrt_var ((- 3) mod ec_p ec) (ec_p ec) = Inr c" "k = (c, inv_mod 2 (ec_p ec))"
    using k mod_inv_var_prime [OF p(2) two] by (auto simp: ell_constants_def rbind_eq_Inr_iff split: if_splits)
  have "ec_p ec dvd (c * c + 3)" using mod_sqrt_var_sound [OF c(2)] by (simp add: mod_eq_dvd_iff)
  then show ?thesis using that k c inv_mod_prime [OF p(2) two] by blast
qed

lemma x_coordinate_sign:
  assumes e: "ell_curve ec" and a: "ec_a ec = 0" and x: "0 \<le> x" "x < ec_p ec"
  shows "is_x_coordinate_var x ec = Inr (gauss_sign (x * x * x + ec_b ec) (ec_p ec) = 1)"
proof -
  note p = ell_curveD(6,7,8) [OF e] and c = ec_y2_cubic [OF a, of x]
  have cop: "coprime (x * x * x + ec_b ec) (ec_p ec)" by (rule prime_int_coprime [OF p(1) ell_curveD(5) [OF e]])
  then have "coprime (ec_y2 ec x) (ec_p ec)" using coprime_cong [OF c] by simp
  then have "legendre_symbol_var (ec_y2 ec x) (ec_p ec) = Inr (gauss_sign (x * x * x + ec_b ec) (ec_p ec))"
    using gauss_sign_cong [OF c] by (simp add: legendre_value [OF p(2) prime_int_gt_1 [OF p(1)]])
  then show ?thesis using x gauss_sign_values [of "x * x * x + ec_b ec" "ec_p ec"] by (auto simp: is_x_coordinate_var_def)
qed

lemma dvd_cong_iff: "(p :: int) dvd (a - b) \<Longrightarrow> p dvd a \<longleftrightarrow> p dvd b"
  by (metis diff_add_cancel dvd_add_right_iff)

section \<open>The algebra of the map\<close>

text \<open>The three ordinates squared, whose product is \<open>s\<close> up to a square.\<close>

lemma swift_product:
  fixes p :: int
  assumes "p dvd (s * (u * u + u * v + v * v) + (u * u * u + b))" "p dvd (v + w + u)" "p dvd (x - (u + s))"
  shows "p dvd ((v * v * v + b) * (w * w * w + b) * (x * x * x + b)
    - s * ((u * u + u * v + v * v) * ((v - u - s) * (w - u - s))) ^ 2)"
proof -
  define N where "N = u * u + u * v + v * v"
  have h: "p dvd (s * N + (u * u * u + b))" using assms(1) by (simp add: N_def)
  have v: "p dvd ((v * v * v + b) - N * (v - u - s))" using h unfolding N_def by algebra
  have w: "p dvd ((w * w * w + b) - N * (w - u - s))" using h assms(2) unfolding N_def by algebra
  have x: "p dvd ((x * x * x + b) - s * ((v - u - s) * (w - u - s)))" using h assms(2,3) unfolding N_def by algebra
  show ?thesis using v w x unfolding N_def [symmetric] power2_eq_square by algebra
qed

text \<open>
  From a \<open>t\<close> that the inverse finds, the numbers of the map are read off: \<open>w\<close> is a root of \<open>s\<close>, \<open>c\<close> one of \<open>-3\<close>,
  each up to its sign.
\<close>

lemma swift_inverse:
  fixes p :: int
  assumes p: "prime_int p" "\<not> p dvd 2" and c: "p dvd (c * c + 3)" "\<not> p dvd c" "\<not> p dvd u"
    and s: "p dvd (w * w - s)" "p dvd (s * (u * u + u * v + v * v) + (u * u * u + b))" "\<not> p dvd (u * u * u + b)"
    and t: "p dvd (2 * t - w * (u * (1 - c) + 2 * v))"
  shows "\<not> p dvd t" "\<not> p dvd (u * u * u + t * t + b)"
    "p dvd (2 * t * (c * u) * Y - (u * u * u + t * t + b)) \<Longrightarrow> p dvd (2 * Y + w)"
    "p dvd (2 * t * X - (u * u * u + b - t * t)) \<Longrightarrow> p dvd (2 * X + w * (u + 2 * v))"
proof -
  define A where "A = u * (1 - c) + 2 * v"
  define B where "B = u * (1 + c) + 2 * v"
  define G where "G = u * u * u + b"
  have AB: "p dvd (A * B - 4 * (u * u + u * v + v * v))" using c(1) unfolding A_def B_def by algebra
  have G: "p dvd (s * (A * B) + 4 * G)" using AB s(2) unfolding G_def by algebra
  have four: "\<not> p dvd 4" using p prime_int_dvd_mult_iff [OF p(1), of 2 2] by simp
  have n: "\<not> p dvd s * (A * B)"
  proof
    assume "p dvd s * (A * B)"
    then have "p dvd 4 * G" using G by algebra
    then show False using prime_int_dvd_mult_iff [OF p(1)] four s(3) unfolding G_def by blast
  qed
  have A: "\<not> p dvd A" "\<not> p dvd s" using n by auto
  have w: "\<not> p dvd w"
  proof
    assume "p dvd w"
    then have "p dvd s" using s(1) by algebra
    then show False using A(2) by blast
  qed
  have wA: "\<not> p dvd w * A" using w A(1) prime_int_dvd_mult_iff [OF p(1)] by blast
  have tA: "p dvd (2 * t - w * A)" using t unfolding A_def .
  show "\<not> p dvd t"
  proof
    assume "p dvd t"
    then have "p dvd w * A" using tA by algebra
    then show False using wA by blast
  qed
  have GT: "p dvd (4 * (G + t * t) + 2 * (c * u) * (s * A))"
    using G tA s(1) unfolding A_def B_def by algebra
  have cu: "\<not> p dvd 2 * (c * u)" using p(2) c(2,3) prime_int_dvd_mult_iff [OF p(1)] by blast
  show "\<not> p dvd (u * u * u + t * t + b)"
  proof
    assume "p dvd (u * u * u + t * t + b)"
    then have "p dvd 2 * (c * u) * (s * A)" using GT unfolding G_def by algebra
    then show False using cu A prime_int_dvd_mult_iff [OF p(1)] by blast
  qed
  show "p dvd (2 * Y + w)" if "p dvd (2 * t * (c * u) * Y - (u * u * u + t * t + b))"
  proof -
    have "p dvd (2 * Y + w) * (w * A) * (2 * (c * u))" using that GT tA s(1) unfolding G_def by algebra
    then show ?thesis using prime_dvd_cancel [OF p(1)] cu wA by blast
  qed
  show "p dvd (2 * X + w * (u + 2 * v))" if "p dvd (2 * t * X - (u * u * u + b - t * t))"
  proof -
    have "p dvd (2 * X + w * (u + 2 * v)) * (w * A) * 2"
      using that G tA s(1) unfolding G_def A_def B_def by algebra
    then show ?thesis using prime_dvd_cancel [OF p(1)] p(2) wA by blast
  qed
qed

section \<open>The candidates\<close>

lemma ell_arguments_sound:
  assumes e: "ell_curve ec" and a: "ell_arguments u t ec = (U, T)"
  shows "0 < U" "U < ec_p ec" "\<not> ec_p ec dvd T" "\<not> ec_p ec dvd (U * U * U + T * T + ec_b ec)"
proof -
  let ?p = "ec_p ec" and ?b = "ec_b ec"
  note p = ell_curveD(4,6,8) [OF e]
  have two: "\<not> ?p dvd 2" by (rule prime_not_dvd_2 [OF p(2)]) (use p(1) in simp)
  have three: "\<not> ?p dvd 3" using p(1) zdvd_imp_le [of ?p 3] by auto
  have one: "\<not> ?p dvd 1" using p(1) zdvd_imp_le [of ?p 1] by auto
  define t' where "t' = (if t mod ?p = 0 then 1 else t mod ?p)"
  have U: "U = (if u mod ?p = 0 then 1 else u mod ?p)"
    and T: "T = (if (pow_mod U 3 ?p + t' * t' + ?b) mod ?p = 0 then 2 * t' mod ?p else t')"
    using a by (auto simp: ell_arguments_def Let_def t'_def)
  show "0 < U" "U < ?p" using U p(1) mod_nonzero_range [OF p(3), of u] by auto
  have t': "\<not> ?p dvd t'" using one residue_not_dvd [OF p(3), of t] by (auto simp: t'_def)
  have c: "?p dvd ((pow_mod U 3 ?p + t' * t' + ?b) - (U * U * U + t' * t' + ?b))"
    using dvd_pow_mod [of ?p U 3] by (simp add: power3_eq_cube)
  show "\<not> ?p dvd T" "\<not> ?p dvd (U * U * U + T * T + ?b)"
  proof (atomize (full), cases "(pow_mod U 3 ?p + t' * t' + ?b) mod ?p = 0")
    case True
    then have z: "?p dvd (U * U * U + t' * t' + ?b)" using dvd_cong_iff [OF c] by blast
    have T2: "?p dvd (T - 2 * t')" using T True dvd_mod_diff [of ?p] by simp
    have "\<not> ?p dvd 2 * t'" using t' two prime_int_dvd_mult_iff [OF p(2)] by blast
    moreover have "?p dvd 2 * t'" if "?p dvd T" using that T2 by algebra
    moreover have "?p dvd 3 * (t' * t')" if "?p dvd (U * U * U + T * T + ?b)" using that T2 z by algebra
    moreover have "\<not> ?p dvd 3 * (t' * t')" using t' three prime_int_dvd_mult_iff [OF p(2)] by blast
    ultimately show "\<not> ?p dvd T \<and> \<not> ?p dvd (U * U * U + T * T + ?b)" by blast
  next
    case False
    then have "\<not> ?p dvd (pow_mod U 3 ?p + t' * t' + ?b)" by auto
    then have "\<not> ?p dvd (U * U * U + t' * t' + ?b)" using dvd_cong_iff [OF c] by blast
    then show "\<not> ?p dvd T \<and> \<not> ?p dvd (U * U * U + T * T + ?b)" using t' T False by simp
  qed
qed

text \<open>The numbers of the map and the equations that determine them.\<close>

definition swift_numbers :: "curve \<Rightarrow> int \<Rightarrow> int \<Rightarrow> int \<Rightarrow> int \<Rightarrow> int \<Rightarrow> bool" where
  "swift_numbers ec c u t X Y \<longleftrightarrow>
     ec_p ec dvd (2 * t * X - (u * u * u + ec_b ec - t * t)) \<and> \<not> ec_p ec dvd Y
   \<and> ec_p ec dvd (2 * t * (c * u) * Y - (u * u * u + t * t + ec_b ec))"

definition swift_candidates :: "curve \<Rightarrow> int \<Rightarrow> int \<Rightarrow> int \<Rightarrow> int \<Rightarrow> int \<Rightarrow> int \<Rightarrow> bool" where
  "swift_candidates ec u X Y x1 x2 x3 \<longleftrightarrow>
     ec_p ec dvd (x1 - (u + 4 * (Y * Y))) \<and> ec_p ec dvd ((2 * x2 + u) * Y + X) \<and> ec_p ec dvd ((2 * x3 + u) * Y - X)
   \<and> {x1, x2, x3} \<subseteq> {0..<ec_p ec}"

lemma xswiftec_candidates:
  assumes e: "ell_curve ec" and k: "ell_constants ec = Inr (c, i)" "ec_p ec dvd (c * c + 3)" "ec_p ec dvd (2 * i - 1)"
    and a: "ell_arguments u t ec = (U, T)"
  obtains X Y x1 x2 x3 where "xswiftec_var u t ec = first_x_coordinate [x1, x2, x3] ec"
    "swift_numbers ec c U T X Y" "swift_candidates ec U X Y x1 x2 x3"
proof -
  let ?p = "ec_p ec" and ?b = "ec_b ec"
  note p = ell_curveD(4,6,8) [OF e] and s = ell_arguments_sound [OF e a]
  have two: "\<not> ?p dvd 2" by (rule prime_not_dvd_2 [OF p(2)]) (use p(1) in simp)
  have c: "\<not> ?p dvd c"
  proof
    assume "?p dvd c"
    then have "?p dvd 3" using k(2) by (metis dvd_add_right_iff dvd_mult2)
    then show False using p(1) zdvd_imp_le [of ?p 3] by auto
  qed
  have U: "\<not> ?p dvd U" using s(1,2) zdvd_imp_le [of ?p U] by auto
  have cU: "\<not> ?p dvd c * U" using c U prime_int_dvd_mult_iff [OF p(2)] by blast
  have cUm: "?p dvd (c * U mod ?p - c * U)" by (rule mod_dvd_iff [OF p(3)])
  have nd: "\<not> ?p dvd 2 * T" "\<not> ?p dvd c * U mod ?p"
    using two s(3) cU dvd_cong_iff [OF cUm] prime_int_dvd_mult_iff [OF p(2)] by blast+
  define i1 where "i1 = inv_mod (2 * T) ?p"
  define i2 where "i2 = inv_mod (c * U mod ?p) ?p"
  define X where "X = (pow_mod U 3 ?p + ?b - T * T) * i1 mod ?p"
  define Y where "Y = (X + T) * i2 mod ?p"
  have i1: "?p dvd (2 * T * i1 - 1)" "mod_inv_var (2 * T) ?p = Inr i1"
    using inv_mod_prime [OF p(2) nd(1)] mod_inv_var_prime [OF p(2) nd(1)] by (simp_all add: i1_def)
  have i2: "?p dvd (c * U mod ?p * i2 - 1)" "mod_inv_var (c * U mod ?p) ?p = Inr i2"
    using inv_mod_prime [OF p(2) nd(2)] mod_inv_var_prime [OF p(2) nd(2)] by (simp_all add: i2_def)
  have u3: "?p dvd (pow_mod U 3 ?p - U * U * U)" using dvd_pow_mod [of ?p U 3] by (simp add: power3_eq_cube)
  have X: "?p dvd (2 * T * X - (U * U * U + ?b - T * T))"
    using mod_dvd_iff [OF p(3), of "(pow_mod U 3 ?p + ?b - T * T) * i1"] u3 i1(1) unfolding X_def [symmetric] by algebra
  have Y: "?p dvd (2 * T * (c * U) * Y - (U * U * U + T * T + ?b))"
    using mod_dvd_iff [OF p(3), of "(X + T) * i2"] X i2(1) cUm unfolding Y_def [symmetric] by algebra
  have nY: "\<not> ?p dvd Y"
  proof
    assume "?p dvd Y"
    then have "?p dvd (U * U * U + T * T + ?b)" using Y by algebra
    then show False using s(4) by blast
  qed
  define j where "j = inv_mod Y ?p"
  have j: "?p dvd (Y * j - 1)" "mod_inv_var Y ?p = Inr j"
    using inv_mod_prime [OF p(2) nY] mod_inv_var_prime [OF p(2) nY] by (simp_all add: j_def)
  define x1 where "x1 = (U + 4 * Y * Y) mod ?p"
  define x2 where "x2 = (- X * j - U) * i mod ?p"
  define x3 where "x3 = (X * j - U) * i mod ?p"
  have x: "?p dvd (x1 - (U + 4 * Y * Y))" "?p dvd (x2 - (- X * j - U) * i)" "?p dvd (x3 - (X * j - U) * i)"
    unfolding x1_def x2_def x3_def by (rule mod_dvd_iff [OF p(3)])+
  have "xswiftec_var u t ec = first_x_coordinate [x1, x2, x3] ec"
    unfolding xswiftec_var_def Let_def k(1) a rbind_simps prod.case i1(2) i2(2) X_def [symmetric] Y_def [symmetric] j(2)
      x1_def [symmetric] x2_def [symmetric] x3_def [symmetric] by (rule refl)
  moreover have "swift_numbers ec c U T X Y" using X Y nY by (simp add: swift_numbers_def)
  moreover have "?p dvd (x1 - (U + 4 * (Y * Y)))" using x(1) by (simp add: mult.assoc)
  moreover have "?p dvd ((2 * x2 + U) * Y + X)" "?p dvd ((2 * x3 + U) * Y - X)" using x(2,3) k(3) j(1) by algebra+
  moreover have "{x1, x2, x3} \<subseteq> {0..<?p}" using p(3) by (simp add: x1_def x2_def x3_def)
  ultimately show ?thesis using that unfolding swift_candidates_def by blast
qed

section \<open>An x-coordinate is always found\<close>

abbreviation ell_sign :: "curve \<Rightarrow> int \<Rightarrow> int" where
  "ell_sign ec x \<equiv> gauss_sign (x * x * x + ec_b ec) (ec_p ec)"

lemma signs_product:
  "a * b * c = (1 :: int) \<Longrightarrow> a = 1 \<or> a = - 1 \<Longrightarrow> b = 1 \<or> b = - 1 \<Longrightarrow> c = 1 \<or> c = - 1 \<Longrightarrow> a = 1 \<or> b = 1 \<or> c = 1"
  by auto

lemma product_rotated: "a * b * c = (1 :: int) \<Longrightarrow> c * a * b = 1"
  by (simp add: ac_simps)

lemma cubic_cong: "(p :: int) dvd (x - y) \<Longrightarrow> p dvd ((x * x * x + b) - (y * y * y + b))"
  by algebra

lemma ell_sign_cong: "ec_p ec dvd (x - y) \<Longrightarrow> ell_sign ec x = ell_sign ec y"
  by (rule gauss_sign_cong) (rule cubic_cong)

lemma candidates_related:
  assumes e: "ell_curve ec" and p: "ec_p ec dvd (c * c + 3)" "\<not> ec_p ec dvd t"
    and n: "swift_numbers ec c u t X Y" and x: "swift_candidates ec u X Y x1 x2 x3"
  shows "ec_p ec dvd (X * X + 3 * (u * u) * (Y * Y) + (u * u * u + ec_b ec))" "ec_p ec dvd (x2 + x3 + u)"
    "ec_p ec dvd (4 * (Y * Y) * (u * u + u * x2 + x2 * x2) + (u * u * u + ec_b ec))"
proof -
  let ?p = "ec_p ec" and ?b = "ec_b ec"
  note q = ell_curveD [OF e]
  have two: "\<not> ?p dvd 2" by (rule prime_not_dvd_2 [OF q(6)]) (use q(4) in simp)
  have X: "?p dvd (2 * t * X - (u * u * u + ?b - t * t))" and nY: "\<not> ?p dvd Y"
    and Y: "?p dvd (2 * t * (c * u) * Y - (u * u * u + t * t + ?b))" using n by (simp_all add: swift_numbers_def)
  have x2: "?p dvd ((2 * x2 + u) * Y + X)" and x3: "?p dvd ((2 * x3 + u) * Y - X)"
    using x by (simp_all add: swift_candidates_def)
  have "?p dvd (X * X + 3 * (u * u) * (Y * Y) + (u * u * u + ?b)) * (2 * t) * (2 * t)" using X Y p(1) by algebra
  then show conic: "?p dvd (X * X + 3 * (u * u) * (Y * Y) + (u * u * u + ?b))"
    using prime_dvd_cancel [OF q(6)] two p(2) prime_int_dvd_mult_iff [OF q(6)] by meson
  have "?p dvd (x2 + x3 + u) * Y * 2" using x2 x3 by algebra
  then show "?p dvd (x2 + x3 + u)" using prime_dvd_cancel [OF q(6)] two nY by meson
  show "?p dvd (4 * (Y * Y) * (u * u + u * x2 + x2 * x2) + (u * u * u + ?b))" using conic x2 by algebra
qed

lemma candidates_sign:
  assumes e: "ell_curve ec" and p: "ec_p ec dvd (c * c + 3)" "\<not> ec_p ec dvd t" "\<not> ec_p ec dvd (u * u * u + t * t + ec_b ec)"
    and n: "swift_numbers ec c u t X Y" and x: "swift_candidates ec u X Y x1 x2 x3"
  shows "ell_sign ec x1 * ell_sign ec x2 * ell_sign ec x3 = 1"
proof -
  let ?p = "ec_p ec" and ?b = "ec_b ec"
  let ?f = "\<lambda>x. x * x * x + ?b"
  note q = ell_curveD [OF e] and rel = candidates_related [OF e p(1,2) n x]
  have x1: "?p dvd (x1 - (u + 4 * (Y * Y)))" using x by (simp add: swift_candidates_def)
  define D where "D = (u * u + u * x2 + x2 * x2) * ((x2 - u - 4 * (Y * Y)) * (x3 - u - 4 * (Y * Y)))"
  have prod: "?p dvd (?f x2 * ?f x3 * ?f x1 - (2 * Y * D) * (2 * Y * D))"
    using swift_product [OF rel(3,2) x1] unfolding D_def [symmetric] power2_eq_square by (simp add: mult_ac)
  have cop: "coprime (?f x) ?p" for x by (rule prime_int_coprime [OF q(6) q(5)])
  have "\<not> ?p dvd ?f x2 * ?f x3 * ?f x1" using q(5) prime_int_dvd_mult_iff [OF q(6)] by blast
  then have "\<not> ?p dvd (2 * Y * D) * (2 * Y * D)" using dvd_cong_iff [OF prod] by blast
  then have k: "coprime (2 * Y * D) ?p" by (intro prime_int_coprime [OF q(6)]) (rule notI, drule dvd_mult, erule notE)
  have "gauss_sign (?f x2 * ?f x3 * ?f x1) ?p = 1"
    using gauss_sign_cong [OF prod] gauss_sign_square [OF q(7,8) k] by simp
  moreover have "gauss_sign (?f x2 * ?f x3 * ?f x1) ?p = gauss_sign (?f x2) ?p * gauss_sign (?f x3) ?p * gauss_sign (?f x1) ?p"
    using gauss_sign_mult [OF q(7,8), of "?f x2 * ?f x3" "?f x1"] gauss_sign_mult [OF q(7,8), of "?f x2" "?f x3"] cop by simp
  ultimately have "ell_sign ec x2 * ell_sign ec x3 * ell_sign ec x1 = 1" by simp
  then show ?thesis by (rule product_rotated)
qed

lemma first_x_found:
  assumes e: "ell_curve ec" "ec_a ec = 0" and r: "set xs \<subseteq> {0..<ec_p ec}" and x: "x \<in> set xs" "ell_sign ec x = 1"
  shows "\<exists>y \<in> set xs. first_x_coordinate xs ec = Inr y \<and> ell_sign ec y = 1"
  using r x
proof (induction xs)
  case (Cons z xs)
  have "is_x_coordinate_var z ec = Inr (ell_sign ec z = 1)" using x_coordinate_sign [OF e, of z] Cons.prems(1) by simp
  then show ?case using Cons by (cases "ell_sign ec z = 1") auto
qed simp

lemma xswiftec_total:
  assumes e: "ell_curve ec"
  shows "\<exists>x. xswiftec_var u t ec = Inr x \<and> 0 \<le> x \<and> x < ec_p ec \<and> is_x_coordinate_var x ec = Inr True"
proof -
  obtain c i where k: "ell_constants ec = Inr (c, i)" "ec_a ec = 0" "ec_p ec dvd (c * c + 3)" "ec_p ec dvd (2 * i - 1)"
    using ell_constants_sound [OF e] by blast
  obtain U T where a: "ell_arguments u t ec = (U, T)" by force
  obtain X Y x1 x2 x3 where m: "xswiftec_var u t ec = first_x_coordinate [x1, x2, x3] ec"
    "swift_numbers ec c U T X Y" "swift_candidates ec U X Y x1 x2 x3"
    by (rule xswiftec_candidates [OF e k(1,3,4) a])
  have "ell_sign ec x1 * ell_sign ec x2 * ell_sign ec x3 = 1"
    by (rule candidates_sign [OF e k(3) ell_arguments_sound(3,4) [OF e a] m(2,3)])
  then have "ell_sign ec x1 = 1 \<or> ell_sign ec x2 = 1 \<or> ell_sign ec x3 = 1"
    by (rule signs_product [OF _ gauss_sign_values gauss_sign_values gauss_sign_values])
  moreover have r: "set [x1, x2, x3] \<subseteq> {0..<ec_p ec}" using m(3) by (simp add: swift_candidates_def)
  ultimately obtain y where "y \<in> {0..<ec_p ec}" "first_x_coordinate [x1, x2, x3] ec = Inr y" "ell_sign ec y = 1"
    using first_x_found [OF e k(2) r, of x1] first_x_found [OF e k(2) r, of x2] first_x_found [OF e k(2) r, of x3] r
    by (meson in_mono list.set_intros)
  then show ?thesis using m(1) x_coordinate_sign [OF e k(2)] by auto
qed

section \<open>The inverse\<close>

text \<open>What the inverse finds: a pair that the map sends to \<open>x\<close>, in either of its two families of cases.\<close>

definition ell_preimage :: "curve \<Rightarrow> int \<Rightarrow> int \<Rightarrow> int \<Rightarrow> int \<Rightarrow> bool" where
  "ell_preimage ec c x u t \<longleftrightarrow>
     (\<exists>v s w. ec_p ec dvd (w * w - s) \<and> ec_p ec dvd (s * (u * u + u * v + v * v) + (u * u * u + ec_b ec))
      \<and> (ec_p ec dvd (2 * t - w * (u * (1 - c) + 2 * v)) \<or> ec_p ec dvd (2 * t - w * (u * (1 + c) + 2 * v)))
      \<and> (ec_p ec dvd (x - (u + s)) \<or> ec_p ec dvd (v - x) \<and> ell_sign ec (- x - u) = - 1))"

lemma ell_preimage_minus: "ell_preimage ec c x u t \<Longrightarrow> ec_p ec dvd (t + t') \<Longrightarrow> ell_preimage ec c x u t'"
proof -
  assume "ell_preimage ec c x u t" and t: "ec_p ec dvd (t + t')"
  then obtain v s w where vsw: "ec_p ec dvd (w * w - s)" "ec_p ec dvd (s * (u * u + u * v + v * v) + (u * u * u + ec_b ec))"
    "ec_p ec dvd (2 * t - w * (u * (1 - c) + 2 * v)) \<or> ec_p ec dvd (2 * t - w * (u * (1 + c) + 2 * v))"
    "ec_p ec dvd (x - (u + s)) \<or> ec_p ec dvd (v - x) \<and> ell_sign ec (- x - u) = - 1"
    unfolding ell_preimage_def by blast
  have "ec_p ec dvd (2 * t - w * d) \<Longrightarrow> ec_p ec dvd (2 * t' - (- w) * d)" for d using t by algebra
  then have "ec_p ec dvd (2 * t' - (- w) * (u * (1 - c) + 2 * v)) \<or> ec_p ec dvd (2 * t' - (- w) * (u * (1 + c) + 2 * v))"
    using vsw(3) by blast
  moreover have "ec_p ec dvd ((- w) * (- w) - s)" using vsw(1) by simp
  ultimately show ?thesis unfolding ell_preimage_def using vsw(2,4) by blast
qed

text \<open>Where the candidates are, given the numbers that the inverse worked with.\<close>

lemma candidates_located:
  assumes p: "prime_int p" "\<not> p dvd 2" and w: "p dvd (w * w - s)" and Y: "p dvd (2 * Y + w)" "\<not> p dvd Y"
    and X: "p dvd (2 * X + w * (u + 2 * v))"
    and x: "p dvd (x1 - (u + 4 * (Y * Y)))" "p dvd ((2 * x2 + u) * Y + X)" "p dvd ((2 * x3 + u) * Y - X)"
  shows "p dvd (x1 - (u + s))" "p dvd (x2 - (- u - v))" "p dvd (x3 - v)"
proof -
  show "p dvd (x1 - (u + s))" using w Y(1) x(1) by algebra
  have "p dvd (x2 - (- u - v)) * 2 * (2 * Y)" "p dvd (x3 - v) * 2 * (2 * Y)" using x Y(1) X by algebra+
  moreover have "\<not> p dvd 2 * Y" using p Y(2) prime_int_dvd_mult_iff by blast
  ultimately show "p dvd (x2 - (- u - v))" "p dvd (x3 - v)" using prime_dvd_cancel [OF p(1)] p(2) by blast+
qed

lemma ell_arguments_id:
  assumes e: "ell_curve ec" and u: "0 < u" "u < ec_p ec" and t: "\<not> ec_p ec dvd t" "\<not> ec_p ec dvd (u * u * u + t * t + ec_b ec)"
  shows "ell_arguments u t ec = (u, t mod ec_p ec)"
proof -
  let ?p = "ec_p ec"
  have T: "?p dvd (t mod ?p - t)" by (rule mod_dvd_iff [OF ell_curveD(8) [OF e]])
  have "?p dvd ((pow_mod u 3 ?p + (t mod ?p) * (t mod ?p) + ec_b ec) - (u * u * u + t * t + ec_b ec))"
    using T dvd_pow_mod [of ?p u 3] unfolding power3_eq_cube by algebra
  then have "\<not> ?p dvd (pow_mod u 3 ?p + (t mod ?p) * (t mod ?p) + ec_b ec)" using dvd_cong_iff t(2) by blast
  then have "(pow_mod u 3 ?p + (t mod ?p) * (t mod ?p) + ec_b ec) mod ?p \<noteq> 0" by (metis dvd_eq_mod_eq_0)
  moreover have "t mod ?p \<noteq> 0" using t(1) by (metis dvd_eq_mod_eq_0)
  ultimately show ?thesis using u by (simp add: ell_arguments_def Let_def)
qed

lemma first_of_candidates:
  assumes e: "ell_curve ec" "ec_a ec = 0" and r: "{x1, x2, x3} \<subseteq> {0..<ec_p ec}" and x: "0 \<le> x" "x < ec_p ec" "ell_sign ec x = 1"
    and s: "ell_sign ec x1 * ell_sign ec x2 * ell_sign ec x3 = 1"
    and c: "ec_p ec dvd (x1 - x) \<or> ell_sign ec z = - 1 \<and> (ec_p ec dvd (x2 - x) \<and> ec_p ec dvd (x3 - z)
      \<or> ec_p ec dvd (x2 - z) \<and> ec_p ec dvd (x3 - x))"
  shows "first_x_coordinate [x1, x2, x3] ec = Inr x"
proof -
  have q: "is_x_coordinate_var x' ec = Inr (ell_sign ec x' = 1)" if "x' \<in> {x1, x2, x3}" for x'
    using x_coordinate_sign [OF e] r that by auto
  have eq: "x' = x" if "ec_p ec dvd (x' - x)" "x' \<in> {x1, x2, x3}" for x'
    using eq_if_dvd_diff [OF that(1)] r that(2) x(1,2) by auto
  from c consider "ec_p ec dvd (x1 - x)" | "ell_sign ec z = - 1" "ec_p ec dvd (x2 - x)" "ec_p ec dvd (x3 - z)"
    | "ell_sign ec z = - 1" "ec_p ec dvd (x2 - z)" "ec_p ec dvd (x3 - x)" by blast
  then show ?thesis
  proof cases
    case 1
    then show ?thesis using eq [of x1] q [of x1] x(3) by simp
  next
    case 2
    then have "x2 = x" "ell_sign ec x3 = - 1" using eq [of x2] ell_sign_cong [OF 2(3)] by simp_all
    then show ?thesis using q [of x1] q [of x2] x(3) s by simp
  next
    case 3
    then have "x3 = x" "ell_sign ec x2 = - 1" using eq [of x3] ell_sign_cong [OF 3(2)] by simp_all
    then show ?thesis using q [of x1] q [of x2] q [of x3] x(3) s by simp
  qed
qed

lemma xswiftec_of_preimage:
  assumes e: "ell_curve ec" and k: "ell_constants ec = Inr (c, i)"
    and x: "0 \<le> x" "x < ec_p ec" "ell_sign ec x = 1" and u: "0 < u" "u < ec_p ec" and t: "ell_preimage ec c x u t"
  shows "\<not> ec_p ec dvd t" "\<not> ec_p ec dvd (u * u * u + t * t + ec_b ec)" "xswiftec_var u t ec = Inr x"
proof -
  let ?p = "ec_p ec" and ?b = "ec_b ec" and ?T = "t mod ec_p ec"
  note q = ell_curveD [OF e]
  have K: "ec_a ec = 0" "?p dvd (c * c + 3)" "?p dvd (2 * i - 1)"
    using ell_constants_sound [OF e] k by (metis Inr_inject prod.inject)+
  have two: "\<not> ?p dvd 2" by (rule prime_not_dvd_2 [OF q(6)]) (use q(4) in simp)
  have nc: "\<not> ?p dvd c"
  proof
    assume "?p dvd c"
    then have "?p dvd 3" using K(2) by (metis dvd_add_right_iff dvd_mult2)
    then show False using q(4) zdvd_imp_le [of ?p 3] by auto
  qed
  have nu: "\<not> ?p dvd u" using u zdvd_imp_le [of ?p u] by auto
  obtain v s w where w: "?p dvd (w * w - s)" and s: "?p dvd (s * (u * u + u * v + v * v) + (u * u * u + ?b))"
    and tw: "?p dvd (2 * t - w * (u * (1 - c) + 2 * v)) \<or> ?p dvd (2 * t - w * (u * (1 + c) + 2 * v))"
    and cs: "?p dvd (x - (u + s)) \<or> ?p dvd (v - x) \<and> ell_sign ec (- x - u) = - 1"
    using t unfolding ell_preimage_def by blast
  define d where "d = (if ?p dvd (2 * t - w * (u * (1 - c) + 2 * v)) then 1 else - 1 :: int)"
  have d: "d = 1 \<or> d = - 1" by (simp add: d_def)
  have tw: "?p dvd (2 * t - w * (u * (1 - d * c) + 2 * v))" using tw by (auto simp: d_def)
  have dc: "?p dvd (d * c * (d * c) + 3)" "\<not> ?p dvd d * c" using K(2) nc d by auto
  note inv = swift_inverse [OF q(6) two dc nu w s q(5)]
  have nt: "\<not> ?p dvd t" "\<not> ?p dvd (u * u * u + t * t + ?b)" using inv(1,2) [OF tw] by blast+
  then show "\<not> ?p dvd t" "\<not> ?p dvd (u * u * u + t * t + ?b)" by blast+
  have Tt: "?p dvd (?T - t)" by (rule mod_dvd_iff [OF q(8)])
  have twT: "?p dvd (2 * ?T - w * (u * (1 - d * c) + 2 * v))" using tw Tt by algebra
  have a: "ell_arguments u t ec = (u, ?T)" by (rule ell_arguments_id [OF e u nt])
  obtain X Y x1 x2 x3 where m: "xswiftec_var u t ec = first_x_coordinate [x1, x2, x3] ec"
    "swift_numbers ec c u ?T X Y" "swift_candidates ec u X Y x1 x2 x3"
    by (rule xswiftec_candidates [OF e k K(2,3) a])
  have "?p dvd (2 * ?T * (d * c * u) * (d * Y) - (u * u * u + ?T * ?T + ?b))" "?p dvd (2 * ?T * X - (u * u * u + ?b - ?T * ?T))"
    "\<not> ?p dvd Y" using m(2) d by (auto simp: swift_numbers_def)
  then have Y: "?p dvd (2 * (d * Y) + w)" and X: "?p dvd (2 * X + w * (u + 2 * v))" and nY: "\<not> ?p dvd d * Y"
    using inv(3,4) [OF twT] d by auto
  have xs: "?p dvd (x1 - (u + 4 * (d * Y * (d * Y))))" "?p dvd ((2 * x2 + u) * Y + X)" "?p dvd ((2 * x3 + u) * Y - X)"
    "{x1, x2, x3} \<subseteq> {0..<?p}" using m(3) d by (auto simp: swift_candidates_def)
  have sg: "ell_sign ec x1 * ell_sign ec x2 * ell_sign ec x3 = 1"
    by (rule candidates_sign [OF e K(2) ell_arguments_sound(3,4) [OF e a] m(2,3)])
  have loc: "?p dvd (x1 - (u + s)) \<and> (?p dvd (x2 - v) \<and> ?p dvd (x3 - (- u - v)) \<or> ?p dvd (x2 - (- u - v)) \<and> ?p dvd (x3 - v))"
    using d
  proof
    assume d: "d = 1"
    show ?thesis using candidates_located [OF q(6) two w Y nY X xs(1), of x2 x3] xs(2,3) d by simp
  next
    assume d: "d = - 1"
    have "?p dvd ((2 * x3 + u) * (- Y) + X)" "?p dvd ((2 * x2 + u) * (- Y) - X)" using xs(2,3) by algebra+
    then have "?p dvd ((2 * x3 + u) * (d * Y) + X)" "?p dvd ((2 * x2 + u) * (d * Y) - X)" using d by simp_all
    from candidates_located [OF q(6) two w Y nY X xs(1) this] show ?thesis by blast
  qed
  have "?p dvd (x1 - x) \<or> ell_sign ec (- x - u) = - 1 \<and> (?p dvd (x2 - x) \<and> ?p dvd (x3 - (- x - u))
      \<or> ?p dvd (x2 - (- x - u)) \<and> ?p dvd (x3 - x))"
    using cs
  proof
    assume "?p dvd (x - (u + s))"
    then have "?p dvd (x1 - x)" using loc by (metis dvd_diff diff_diff_eq2 diff_add_cancel diff_add_eq)
    then show ?thesis ..
  next
    assume v: "?p dvd (v - x) \<and> ell_sign ec (- x - u) = - 1"
    then have "?p dvd (z - v) \<Longrightarrow> ?p dvd (z - x)" "?p dvd (z - (- u - v)) \<Longrightarrow> ?p dvd (z - (- x - u))" for z by algebra+
    then show ?thesis using loc v by blast
  qed
  then show "xswiftec_var u t ec = Inr x"
    unfolding m(1) by (rule first_of_candidates [OF e K(1) xs(4) x sg])
qed

lemma try_sqrt_Some: "try_sqrt a p = Inr (Some r) \<Longrightarrow> p dvd (r * r - a)"
  using mod_sqrt_var_sound [of a p r] by (auto simp: try_sqrt_def mod_eq_dvd_iff split: sum.splits py_error.splits)

lemma ell_signed_double:
  assumes p: "0 < p" and i: "p dvd (2 * i - 1)"
  obtains w' where "w' = w \<or> w' = - w"
    "p dvd (2 * ell_signed cas w u v c i p - w' * (u * (1 - c) + 2 * v))
      \<or> p dvd (2 * ell_signed cas w u v c i p - w' * (u * (1 + c) + 2 * v))"
proof -
  have r: "p dvd (2 * (e * (u * (k mod p) mod p * i + v) mod p) - e * (u * k + 2 * v))" for e k
  proof -
    have "p dvd (k mod p - k)" "p dvd (u * (k mod p) mod p - u * (k mod p))"
      "p dvd (e * (u * (k mod p) mod p * i + v) mod p - e * (u * (k mod p) mod p * i + v))"
      by (rule mod_dvd_iff [OF p])+
    then show ?thesis using i by algebra
  qed
  have "\<exists>e k. ell_signed cas w u v c i p = e * (u * (k mod p) mod p * i + v) mod p \<and> (e = w \<or> e = - w) \<and> (k = 1 - c \<or> k = 1 + c)"
    unfolding ell_signed_def by (simp only: split: if_split) blast
  then obtain e k where s: "ell_signed cas w u v c i p = e * (u * (k mod p) mod p * i + v) mod p" "e = w \<or> e = - w"
    "k = 1 - c \<or> k = 1 + c" by blast
  show ?thesis by (rule that [OF s(2)]) (use s(3) r [of e k] in \<open>auto simp: s(1)\<close>)
qed

lemma ell_branch_sound:
  assumes e: "ell_curve ec" "ec_a ec = 0" and i: "ec_p ec dvd (2 * inv2 - 1)"
    and b: "ell_branch x u cas inv2 ec = Inr (Some (v, s))"
  shows "ec_p ec dvd (s * (u * u + u * v + v * v) + (u * u * u + ec_b ec))"
    "ec_p ec dvd (x - (u + s)) \<or> v = x \<and> ell_sign ec (- x - u) = - 1"
proof (atomize (full), cases "bit cas 1")
  case False
  let ?p = "ec_p ec"
  note q = ell_curveD [OF e(1)]
  obtain j where n: "is_x_coordinate_var ((- x - u) mod ?p) ec = Inr False" "v = x"
    "mod_inv_var ((u * u + u * x + x * x) mod ?p) ?p = Inr j" "s = - (pow_mod u 3 ?p + ec_b ec) * j mod ?p"
    using b False by (auto simp: ell_branch_def Let_def rbind_eq_Inr_iff split: if_splits)
  have j: "?p dvd ((u * u + u * x + x * x) mod ?p * j - 1)"
    using n(3) mod_inv_var_Inr_iff [OF q(8)] by blast
  have "?p dvd ((u * u + u * x + x * x) mod ?p - (u * u + u * x + x * x))" "?p dvd (pow_mod u 3 ?p - u * u * u)"
    "?p dvd (s - (- (pow_mod u 3 ?p + ec_b ec) * j))"
    unfolding n(4) using mod_dvd_iff [OF q(8)] dvd_pow_mod [of ?p u 3] by (simp_all add: power3_eq_cube)
  then have "?p dvd (s * (u * u + u * x + x * x) + (u * u * u + ec_b ec))" using j by algebra
  moreover have "ell_sign ec ((- x - u) mod ?p) \<noteq> 1"
    using n(1) x_coordinate_sign [OF e, of "(- x - u) mod ?p"] q(8) by simp
  then have "ell_sign ec (- x - u) = - 1"
    using ell_sign_cong [OF mod_dvd_iff [OF q(8), of "- x - u"]] gauss_sign_values by metis
  ultimately show "?p dvd (s * (u * u + u * v + v * v) + (u * u * u + ec_b ec))
    \<and> (?p dvd (x - (u + s)) \<or> v = x \<and> ell_sign ec (- x - u) = - 1)" using n(2) by simp
next
  case True
  let ?p = "ec_p ec"
  note q = ell_curveD [OF e(1)]
  have two: "\<not> ?p dvd 2" by (rule prime_not_dvd_2 [OF q(6)]) (use q(4) in simp)
  obtain r j where n: "s = (x - u) mod ?p" "s \<noteq> 0"
    "try_sqrt (- s * (4 * (pow_mod u 3 ?p + ec_b ec) + 3 * s * u mod ?p * u) mod ?p) ?p = Inr (Some r)"
    "mod_inv_var s ?p = Inr j" "v = (- u + r * j) * inv2 mod ?p"
    using b True by (auto simp: ell_branch_def Let_def rbind_eq_Inr_iff split: if_splits option.splits)
  have ns: "\<not> ?p dvd s" using n(1,2) residue_not_dvd [OF q(8)] by simp
  have j: "?p dvd (s * j - 1)" using n(4) mod_inv_var_Inr_iff [OF q(8)] by blast
  have r: "?p dvd (r * r - (- s * (4 * (u * u * u + ec_b ec) + 3 * s * u * u)))"
    using try_sqrt_Some [OF n(3)] mod_dvd_iff [OF q(8), of "3 * s * u"] dvd_pow_mod [of ?p u 3]
      mod_dvd_iff [OF q(8), of "- s * (4 * (pow_mod u 3 ?p + ec_b ec) + 3 * s * u mod ?p * u)"]
    unfolding power3_eq_cube by algebra
  have v: "?p dvd ((2 * v + u) * s - r)"
    using mod_dvd_iff [OF q(8), of "(- u + r * j) * inv2"] i j unfolding n(5) [symmetric] by algebra
  have "?p dvd (s * (u * u + u * v + v * v) + (u * u * u + ec_b ec)) * s * (2 * 2)" using r v by algebra
  moreover have "\<not> ?p dvd 2 * 2" using two prime_int_dvd_mult_iff [OF q(6)] by blast
  ultimately have "?p dvd (s * (u * u + u * v + v * v) + (u * u * u + ec_b ec))" using prime_dvd_cancel [OF q(6)] ns by blast
  moreover have "?p dvd (x - (u + s))" using mod_dvd_iff [OF q(8), of "x - u"] unfolding n(1) [symmetric] by algebra
  ultimately show "?p dvd (s * (u * u + u * v + v * v) + (u * u * u + ec_b ec))
    \<and> (?p dvd (x - (u + s)) \<or> v = x \<and> ell_sign ec (- x - u) = - 1)" by blast
qed

lemma xswiftec_inv_preimage:
  assumes e: "ell_curve ec" and k: "ell_constants ec = Inr (c, i)" and r: "0 \<le> x" "x < ec_p ec" "0 < u" "u < ec_p ec"
    and t: "xswiftec_inv_var x u cas ec = Inr (Some t)"
  shows "ell_preimage ec c x u t" "0 \<le> t" "t < ec_p ec"
proof -
  let ?p = "ec_p ec"
  note q = ell_curveD [OF e]
  have K: "ec_a ec = 0" "?p dvd (2 * i - 1)" using ell_constants_sound [OF e] k by (metis Inr_inject prod.inject)+
  obtain v s w where b: "ell_branch x u cas i ec = Inr (Some (v, s))" "try_sqrt s ?p = Inr (Some w)"
    "t = ell_signed cas w u v c i ?p"
    using t r by (auto simp: xswiftec_inv_var_def k Let_def rbind_eq_Inr_iff split: option.splits)
  note B = ell_branch_sound [OF e K(1,2) b(1)]
  obtain w' where w: "w' = w \<or> w' = - w"
    "?p dvd (2 * t - w' * (u * (1 - c) + 2 * v)) \<or> ?p dvd (2 * t - w' * (u * (1 + c) + 2 * v))"
    unfolding b(3) by (rule ell_signed_double [OF q(8) K(2)])
  have "?p dvd (w' * w' - s)" using try_sqrt_Some [OF b(2)] w(1) by auto
  then show "ell_preimage ec c x u t" unfolding ell_preimage_def using B w(2) by fastforce
  show "0 \<le> t" "t < ?p" unfolding b(3) ell_signed_def using q(8) by simp_all
qed

end
