(* ===== verification/Ellswift_Exact.thy ===== *)
theory Ellswift_Exact
  imports Ellswift_Correct Test_Schemes
begin

text \<open>
  The inverse of the map is exact: over a field element and an x-coordinate, its eight cases return every \<open>t\<close> that is
  mapped there and nothing else. So the encoder, whatever it draws, either goes on for ever because no draw has an
  answer or returns an encoding that decodes to the point; and every string of the right size decodes.
\<close>

section \<open>Square roots\<close>

lemma try_sqrt_cases:
  assumes "prime_int p" "p mod 4 = 3"
  obtains "try_sqrt a p = Inr None" "\<nexists>r. p dvd (r * r - a)" | r where "try_sqrt a p = Inr (Some r)" "p dvd (r * r - a)"
proof (cases "\<exists>r. p dvd (r * r - a)")
  case True
  then obtain r where "mod_sqrt_var a p = Inr r" using mod_sqrt_var_3_mod_4 [OF assms] by blast
  then have "try_sqrt a p = Inr (Some r)" by (simp add: try_sqrt_def)
  then show ?thesis using that(2) try_sqrt_Some by blast
next
  case False
  then have "\<nexists>r. mod_sqrt_var a p = Inr r" using mod_sqrt_var_sound by (metis mod_eq_dvd_iff)
  moreover have "mod_sqrt_var a p = Inr r \<or> (\<exists>m. mod_sqrt_var a p = Inl (BTClibEccValueError m))"
    if "r = pow_mod (a mod p) (nat (p div 4) + 1) p" for r
    using assms(2) prime_int_gt_1 [OF assms(1)] that
    by (simp add: mod_sqrt_var_def assert_valid_modulus_def require_def checked_root_def Let_def)
  ultimately have "try_sqrt a p = Inr None" by (fastforce simp: try_sqrt_def)
  then show ?thesis using that(1) False by blast
qed

lemma root_up_to_sign: "prime_int p \<Longrightarrow> p dvd (r * r - s * s) \<Longrightarrow> p dvd (r - s) \<or> p dvd (r + s)"
  by (metis prime_int_dvd_mult_iff square_diff_square_factored mult.commute)

section \<open>Every preimage is found\<close>

text \<open>A \<open>t\<close> expressed by the numbers of the map: which of the two other candidates is \<open>v\<close> is the sign \<open>d\<close>.\<close>

lemma swift_t:
  fixes p :: int
  assumes p: "prime_int p" "\<not> p dvd 2" "\<not> p dvd t"
    and X: "p dvd (2 * t * X - (G - t * t))" and Y: "p dvd (2 * t * (c * u) * Y - (G + t * t))"
    and v: "p dvd (X - d * Y * (u + 2 * v))" "d * d = 1"
  shows "p dvd (2 * t - (- 2 * d * Y) * (u * (1 - d * c) + 2 * v))"
proof -
  have "p dvd (X + t - c * u * Y) * (2 * t)" using X Y by algebra
  then have t: "p dvd (X + t - c * u * Y)" using prime_dvd_cancel [OF p(1)] p prime_int_dvd_mult_iff [OF p(1)] by blast
  have e: "2 * t - (- 2 * d * Y) * (u * (1 - d * c) + 2 * v)
      = 2 * (X + t - c * u * Y) - 2 * (X - d * Y * (u + 2 * v)) + 2 * (1 - d * d) * (c * u * Y)"
    by (simp add: algebra_simps)
  have "p dvd 2 * (X + t - c * u * Y) - 2 * (X - d * Y * (u + 2 * v))" by (intro dvd_diff dvd_mult t v(1))
  then show ?thesis unfolding e v(2) by simp
qed

text \<open>The case with given signs.\<close>

definition ell_case :: "bool \<Rightarrow> bool \<Rightarrow> bool \<Rightarrow> nat" where
  "ell_case b2 b1 b0 = of_bool b0 + 2 * of_bool b1 + 4 * of_bool b2"

lemma ell_case_bits: "bit (ell_case b2 b1 b0) 0 = b0" "bit (ell_case b2 b1 b0) 1 = b1" "bit (ell_case b2 b1 b0) 2 = b2" "ell_case b2 b1 b0 < 8"
  by (cases b0; cases b1; cases b2; simp add: ell_case_def bit_iff_odd; fail)+

lemma ell_signed_reaches:
  assumes p: "prime_int p" "0 < p" "\<not> p dvd 2" and i: "p dvd (2 * i - 1)" and w: "p dvd (w * w - w' * w')"
    and t: "0 \<le> t" "t < p" "p dvd (2 * t - w' * (u * (1 - d * c) + 2 * v))" and d: "d = 1 \<or> d = - 1"
  shows "\<exists>b2. ell_signed (ell_case b2 b1 (d = - 1)) w u v c i p = t"
proof -
  have r: "e * (u * ((1 - d * c) mod p) mod p * i + v) mod p = t" if "p dvd (e - w')" for e
  proof -
    have "p dvd ((1 - d * c) mod p - (1 - d * c))" "p dvd (u * ((1 - d * c) mod p) mod p - u * ((1 - d * c) mod p))"
      "p dvd (e * (u * ((1 - d * c) mod p) mod p * i + v) mod p - e * (u * ((1 - d * c) mod p) mod p * i + v))"
      by (rule mod_dvd_iff [OF p(2)])+
    then have "p dvd (e * (u * ((1 - d * c) mod p) mod p * i + v) mod p - t) * 2" using i t(3) that by algebra
    then have "p dvd (e * (u * ((1 - d * c) mod p) mod p * i + v) mod p - t)" using prime_dvd_cancel [OF p(1)] p(3) by blast
    then show ?thesis using eq_if_dvd_diff t(1,2) p(2) by simp
  qed
  have "p dvd (w - w') \<or> p dvd (- w - w')" using root_up_to_sign [OF p(1) w] by (metis minus_add_distrib dvd_minus_iff uminus_add_conv_diff add.commute)
  then show ?thesis
  proof
    assume e: "p dvd (w - w')"
    show ?thesis using d r [OF e] by (intro exI [of _ "d = 1"]) (auto simp: ell_signed_def ell_case_bits)
  next
    assume e: "p dvd (- w - w')"
    show ?thesis using d r [OF e] by (intro exI [of _ "d = - 1"]) (auto simp: ell_signed_def ell_case_bits)
  qed
qed

lemma ell_branch_cong: "bit cas 0 = bit cas' 0 \<Longrightarrow> bit cas 1 = bit cas' 1 \<Longrightarrow> ell_branch x u cas i ec = ell_branch x u cas' i ec"
  by (simp only: ell_branch_def)

lemma ell_branch_bit_2: "ell_branch x u (ell_case b2 b1 b0) i ec = ell_branch x u (ell_case False b1 b0) i ec"
  by (rule ell_branch_cong) (simp_all only: ell_case_bits)

lemma inverse_reaches:
  assumes e: "ell_curve ec" and k: "ell_constants ec = Inr (c, i)" "ec_p ec dvd (2 * i - 1)"
    and r: "0 \<le> x" "x < ec_p ec" "0 < u" "u < ec_p ec" "0 \<le> t" "t < ec_p ec" "\<not> ec_p ec dvd t"
    and n: "swift_numbers ec c u t X Y" and v: "ec_p ec dvd (X - d * Y * (u + 2 * v))" "d = 1 \<or> d = - 1"
    and s: "ec_p ec dvd (s - 4 * (Y * Y))" and b: "\<And>b2. ell_branch x u (ell_case b2 b1 (d = - 1)) i ec = Inr (Some (v, s))"
  shows "\<exists>cas < 8. xswiftec_inv_var x u cas ec = Inr (Some t)"
proof -
  let ?p = "ec_p ec"
  note q = ell_curveD [OF e]
  have two: "\<not> ?p dvd 2" by (rule prime_not_dvd_2 [OF q(6)]) (use q(4) in simp)
  have XY: "?p dvd (2 * t * X - ((u * u * u + ec_b ec) - t * t))" "?p dvd (2 * t * (c * u) * Y - ((u * u * u + ec_b ec) + t * t))"
    using n by (simp_all add: swift_numbers_def algebra_simps)
  have dd: "d * d = 1" using v(2) by auto
  note t = swift_t [OF q(6) two r(7) XY v(1) dd]
  have root: "?p dvd ((- 2 * d * Y) * (- 2 * d * Y) - s)" using s v(2) by auto (metis dvd_diff_commute)+
  obtain w where w: "try_sqrt s ?p = Inr (Some w)" "?p dvd (w * w - s)"
    by (rule try_sqrt_cases [OF q(6,3), of s]) (use root in blast)+
  have "?p dvd (w * w - (- 2 * d * Y) * (- 2 * d * Y))" using w(2) root by algebra
  from ell_signed_reaches [OF q(6,8) two k(2) this r(5,6) t v(2), of b1]
  obtain b2 where "ell_signed (ell_case b2 b1 (d = - 1)) w u v c i ?p = t" by blast
  then have "xswiftec_inv_var x u (ell_case b2 b1 (d = - 1)) ec = Inr (Some t)"
    using r(1-4) by (simp add: xswiftec_inv_var_def k(1) Let_def b w(1))
  then show ?thesis using ell_case_bits(4) by blast
qed

lemma first_branch_found:
  assumes e: "ell_curve ec" "ec_a ec = 0" and x: "0 \<le> x" "x < ec_p ec" and z: "ec_p ec dvd (z - (- x - u))" "ell_sign ec z = - 1"
    and N: "ec_p ec dvd (4 * (Y * Y) * (u * u + u * x + x * x) + (u * u * u + ec_b ec))" and b1: "\<not> bit cas 1"
  shows "\<exists>s. ell_branch x u cas i ec = Inr (Some (x, s)) \<and> ec_p ec dvd (s - 4 * (Y * Y))"
proof -
  let ?p = "ec_p ec" and ?N = "u * u + u * x + x * x"
  note q = ell_curveD [OF e(1)]
  have nN: "\<not> ?p dvd ?N"
  proof
    assume "?p dvd ?N"
    then have "?p dvd (u * u * u + ec_b ec)" using N by algebra
    then show False using q(5) by blast
  qed
  have Nm: "?p dvd (?N mod ?p - ?N)" by (rule mod_dvd_iff [OF q(8)])
  then have nNm: "\<not> ?p dvd ?N mod ?p" using nN dvd_cong_iff by blast
  define j where "j = inv_mod (?N mod ?p) ?p"
  have j: "mod_inv_var (?N mod ?p) ?p = Inr j" "?p dvd (?N mod ?p * j - 1)"
    using mod_inv_var_prime [OF q(6) nNm] inv_mod_prime [OF q(6) nNm] by (simp_all add: j_def)
  define s where "s = - (pow_mod u 3 ?p + ec_b ec) * j mod ?p"
  have "?p dvd (s - (- (pow_mod u 3 ?p + ec_b ec) * j))" unfolding s_def by (rule mod_dvd_iff [OF q(8)])
  then have "?p dvd (s - 4 * (Y * Y))" using j(2) Nm N dvd_pow_mod [of ?p u 3] unfolding power3_eq_cube by algebra
  moreover have "is_x_coordinate_var ((- x - u) mod ?p) ec = Inr False"
  proof -
    have "ell_sign ec ((- x - u) mod ?p) = ell_sign ec z"
      by (rule ell_sign_cong) (use mod_dvd_iff [OF q(8), of "- x - u"] z(1) in algebra)
    then show ?thesis using x_coordinate_sign [OF e, of "(- x - u) mod ?p"] q(8) z(2) by simp
  qed
  ultimately show ?thesis using b1 j(1) by (auto simp: ell_branch_def Let_def s_def)
qed

lemma second_branch_found:
  assumes e: "ell_curve ec" and i: "ec_p ec dvd (2 * i - 1)" and x: "ec_p ec dvd (x - (u + 4 * (Y * Y)))" "\<not> ec_p ec dvd Y"
    and X: "ec_p ec dvd (X * X + 3 * (u * u) * (Y * Y) + (u * u * u + ec_b ec))"
  obtains v s d where "d = 1 \<or> d = - 1" "ec_p ec dvd (X - d * Y * (u + 2 * v))" "ec_p ec dvd (s - 4 * (Y * Y))"
    "\<And>b2. ell_branch x u (ell_case b2 True (d = - 1)) i ec = Inr (Some (v, s))"
proof -
  let ?p = "ec_p ec"
  note q = ell_curveD [OF e]
  have two: "\<not> ?p dvd 2" by (rule prime_not_dvd_2 [OF q(6)]) (use q(4) in simp)
  define s where "s = (x - u) mod ?p"
  have s: "?p dvd (s - 4 * (Y * Y))" using mod_dvd_iff [OF q(8), of "x - u"] x(1) unfolding s_def [symmetric] by algebra
  have "\<not> ?p dvd 2 * (2 * (Y * Y))" using two x(2) prime_int_dvd_mult_iff [OF q(6)] by blast
  then have ns: "\<not> ?p dvd s" using dvd_cong_iff [OF s] by (simp add: mult.assoc)
  define A where "A = - s * (4 * (pow_mod u 3 ?p + ec_b ec) + 3 * s * u mod ?p * u) mod ?p"
  have A: "?p dvd (A - (- s * (4 * (u * u * u + ec_b ec) + 3 * s * u * u)))"
    using mod_dvd_iff [OF q(8), of "3 * s * u"] dvd_pow_mod [of ?p u 3]
      mod_dvd_iff [OF q(8), of "- s * (4 * (pow_mod u 3 ?p + ec_b ec) + 3 * s * u mod ?p * u)"]
    unfolding power3_eq_cube A_def [symmetric] by algebra
  have root: "?p dvd ((4 * X * Y) * (4 * X * Y) - A)" using A s X by algebra
  obtain r where r: "try_sqrt A ?p = Inr (Some r)" "?p dvd (r * r - A)"
    by (rule try_sqrt_cases [OF q(6,3), of A]) (use root in blast)+
  define j where "j = inv_mod s ?p"
  have j: "mod_inv_var s ?p = Inr j" "?p dvd (s * j - 1)"
    using mod_inv_var_prime [OF q(6) ns] inv_mod_prime [OF q(6) ns] by (simp_all add: j_def)
  define v where "v = (- u + r * j) * i mod ?p"
  have v: "?p dvd ((u + 2 * v) * s - r)"
    using mod_dvd_iff [OF q(8), of "(- u + r * j) * i"] i j(2) unfolding v_def [symmetric] by algebra
  have sX: "?p dvd (X - d * Y * (u + 2 * v))" if "?p dvd (r - d * (4 * X * Y))" "d = 1 \<or> d = - 1" for d
  proof -
    have dd: "d * d = 1" using that(2) by auto
    have "?p dvd (d * Y * (u + 2 * v) - d * d * X) * (2 * Y * 2)" using that(1) v s by algebra
    then have "?p dvd (d * Y * (u + 2 * v) - d * d * X)"
      using prime_dvd_cancel [OF q(6)] two x(2) prime_int_dvd_mult_iff [OF q(6)] by blast
    then show ?thesis unfolding dd by (simp add: dvd_diff_commute)
  qed
  have branch: "ell_branch x u (ell_case b2 True b0) i ec = Inr (Some (v, s))" if "\<not> (b0 \<and> r = 0)" for b2 b0
  proof -
    have "s \<noteq> 0" using ns by auto
    then show ?thesis using that r(1) j(1)
      unfolding ell_branch_def Let_def s_def [symmetric] A_def [symmetric] ell_case_bits by (simp add: v_def)
  qed
  have "?p dvd (r * r - (4 * X * Y) * (4 * X * Y))" using r(2) root by algebra
  then consider "?p dvd (r - 1 * (4 * X * Y))" | "?p dvd (r - (- 1) * (4 * X * Y))" "\<not> ?p dvd (r - 1 * (4 * X * Y))"
    using root_up_to_sign [OF q(6)] by fastforce
  then show ?thesis
  proof cases
    case 1
    show ?thesis by (rule that [of 1 v s]) (use sX [OF 1] s branch in simp_all)
  next
    case 2
    have "r \<noteq> 0"
    proof
      assume "r = 0"
      then have "?p dvd (r - 1 * (4 * X * Y))" using 2(1) by simp
      then show False using 2(2) by blast
    qed
    then show ?thesis by (intro that [of "- 1" v s]) (use sX [OF 2(1)] s branch in simp_all)
  qed
qed

lemma xswiftec_inv_complete:
  assumes e: "ell_curve ec" and u: "0 < u" "u < ec_p ec" and t: "0 \<le> t" "t < ec_p ec" "\<not> ec_p ec dvd t"
    "\<not> ec_p ec dvd (u * u * u + t * t + ec_b ec)" and x: "xswiftec_var u t ec = Inr x"
  shows "\<exists>cas < 8. xswiftec_inv_var x u cas ec = Inr (Some t)"
proof -
  let ?p = "ec_p ec"
  note q = ell_curveD [OF e]
  obtain c i where k: "ell_constants ec = Inr (c, i)" "ec_a ec = 0" "?p dvd (c * c + 3)" "?p dvd (2 * i - 1)"
    using ell_constants_sound [OF e] by blast
  have a: "ell_arguments u t ec = (u, t)" using ell_arguments_id [OF e u t(3,4)] t(1,2) by simp
  obtain X Y x1 x2 x3 where m: "xswiftec_var u t ec = first_x_coordinate [x1, x2, x3] ec"
    "swift_numbers ec c u t X Y" "swift_candidates ec u X Y x1 x2 x3"
    by (rule xswiftec_candidates [OF e k(1,3,4) a])
  note rel = candidates_related [OF e k(3) t(3) m(2,3)] and sg = candidates_sign [OF e k(3) t(3,4) m(2,3)]
  have nY: "\<not> ?p dvd Y" using m(2) by (simp add: swift_numbers_def)
  have r: "0 \<le> x1" "x1 < ?p" "0 \<le> x2" "x2 < ?p" "0 \<le> x3" "x3 < ?p" and x1: "?p dvd (x1 - (u + 4 * (Y * Y)))"
    and X2: "?p dvd ((2 * x2 + u) * Y + X)" and X3: "?p dvd ((2 * x3 + u) * Y - X)"
    using m(3) by (simp_all add: swift_candidates_def)
  note is_x = x_coordinate_sign [OF e k(2)]
  note val = gauss_sign_values [of _ ?p]
  consider (one) "x = x1" | (two) "x = x2" "ell_sign ec x3 = - 1" | (three) "x = x3" "ell_sign ec x2 = - 1"
    using x [unfolded m(1)] is_x [OF r(1,2)] is_x [OF r(3,4)] is_x [OF r(5,6)] sg val [of "x1 * x1 * x1 + ec_b ec"]
      val [of "x2 * x2 * x2 + ec_b ec"] val [of "x3 * x3 * x3 + ec_b ec"] by (auto split: if_splits)
  then show ?thesis
  proof cases
    case one
    obtain v s d where b: "d = 1 \<or> d = - 1" "?p dvd (X - d * Y * (u + 2 * v))" "?p dvd (s - 4 * (Y * Y))"
      "\<And>b2. ell_branch x1 u (ell_case b2 True (d = - 1)) i ec = Inr (Some (v, s))"
      by (rule second_branch_found [OF e k(4) x1 nY rel(1)]) blast
    show ?thesis unfolding one by (rule inverse_reaches [OF e k(1,4) r(1,2) u t(1-3) m(2) b(2,1,3,4)])
  next
    case two
    have z: "?p dvd (x3 - (- x2 - u))" using rel(2) by algebra
    have v: "?p dvd (X - (- 1) * Y * (u + 2 * x2))" using X2 by algebra
    obtain s where s: "?p dvd (s - 4 * (Y * Y))" "\<And>b2. ell_branch x2 u (ell_case b2 False ((- 1 :: int) = - 1)) i ec = Inr (Some (x2, s))"
      using first_branch_found [OF e k(2) r(3,4) z two(2) rel(3)] ell_case_bits(2) by (metis ell_branch_bit_2)
    show ?thesis unfolding two(1) by (rule inverse_reaches [OF e k(1,4) r(3,4) u t(1-3) m(2) v _ s]) simp
  next
    case three
    have z: "?p dvd (x2 - (- x3 - u))" using rel(2) by algebra
    have v: "?p dvd (X - 1 * Y * (u + 2 * x3))" using X3 by algebra
    have n: "?p dvd (4 * (Y * Y) * (u * u + u * x3 + x3 * x3) + (u * u * u + ec_b ec))" using rel(2,3) by algebra
    obtain s where s: "?p dvd (s - 4 * (Y * Y))" "\<And>b2. ell_branch x3 u (ell_case b2 False ((1 :: int) = - 1)) i ec = Inr (Some (x3, s))"
      using first_branch_found [OF e k(2) r(5,6) z three(2) n] ell_case_bits(2) by (metis ell_branch_bit_2)
    show ?thesis unfolding three(1) by (rule inverse_reaches [OF e k(1,4) r(5,6) u t(1-3) m(2) v _ s]) simp
  qed
qed

lemma xswiftec_inv_exact:
  assumes e: "ell_curve ec" and u: "0 < u" "u < ec_p ec" and x: "is_x_coordinate_var x ec = Inr True"
  shows "(\<exists>cas < 8. xswiftec_inv_var x u cas ec = Inr (Some t)) \<longleftrightarrow>
    0 < t \<and> t < ec_p ec \<and> \<not> ec_p ec dvd (u * u * u + t * t + ec_b ec) \<and> xswiftec_var u t ec = Inr x"
proof
  let ?p = "ec_p ec"
  obtain c i where k: "ell_constants ec = Inr (c, i)" "ec_a ec = 0"
    using ell_constants_sound [OF e] by blast
  have r: "0 \<le> x" "x < ?p" using x by (auto simp: is_x_coordinate_var_def split: if_splits)
  have sx: "ell_sign ec x = 1" using x_coordinate_sign [OF e k(2) r] x by simp
  assume "\<exists>cas < 8. xswiftec_inv_var x u cas ec = Inr (Some t)"
  then obtain cas where "xswiftec_inv_var x u cas ec = Inr (Some t)" by blast
  note t = xswiftec_inv_preimage [OF e k(1) r u this]
  note b = xswiftec_of_preimage [OF e k(1) r sx u t(1)]
  then show "0 < t \<and> t < ?p \<and> \<not> ?p dvd (u * u * u + t * t + ec_b ec) \<and> xswiftec_var u t ec = Inr x"
    using t(2,3) by (cases "t = 0") auto
next
  assume "0 < t \<and> t < ec_p ec \<and> \<not> ec_p ec dvd (u * u * u + t * t + ec_b ec) \<and> xswiftec_var u t ec = Inr x"
  moreover from this have "\<not> ec_p ec dvd t" using zdvd_imp_le [of "ec_p ec" t] by auto
  ultimately show "\<exists>cas < 8. xswiftec_inv_var x u cas ec = Inr (Some t)"
    using xswiftec_inv_complete [OF e u, of t x] by auto
qed

section \<open>Encodings\<close>

text \<open>The inverse never fails over the x-coordinate of a point: it answers, or has no answer.\<close>

lemma xswiftec_inv_answers:
  assumes e: "ell_curve ec" and x: "is_x_coordinate_var x ec = Inr True" and u: "0 < u" "u < ec_p ec"
  shows "\<exists>t. xswiftec_inv_var x u cas ec = Inr t"
proof -
  let ?p = "ec_p ec" and ?N = "u * u + u * x + x * x"
  note q = ell_curveD [OF e]
  obtain c i where k: "ell_constants ec = Inr (c, i)" "ec_a ec = 0"
    using ell_constants_sound [OF e] by blast
  have r: "0 \<le> x" "x < ?p" using x by (auto simp: is_x_coordinate_var_def split: if_splits)
  have sx: "ell_sign ec x = 1" using x_coordinate_sign [OF e k(2) r] x by simp
  have "\<exists>b. ell_branch x u cas i ec = Inr b"
  proof (cases "bit cas 1")
    case False
    obtain other where o: "is_x_coordinate_var ((- x - u) mod ?p) ec = Inr other" using x_coordinate_decided [OF q(1)] by blast
    show ?thesis
    proof (cases other)
      case no: False
      have "\<not> ?p dvd ?N"
      proof
        assume "?p dvd ?N"
        then have "?p dvd (((- x - u) * (- x - u) * (- x - u) + ec_b ec) - (x * x * x + ec_b ec))" by algebra
        then have "ell_sign ec (- x - u) = 1" using gauss_sign_cong sx by metis
        then have "ell_sign ec ((- x - u) mod ?p) = 1" using ell_sign_cong [OF mod_dvd_iff [OF q(8), of "- x - u"]] by simp
        then show False using x_coordinate_sign [OF e k(2), of "(- x - u) mod ?p"] q(8) o no by simp
      qed
      then have "\<not> ?p dvd ?N mod ?p" using dvd_cong_iff [OF mod_dvd_iff [OF q(8), of ?N]] by blast
      from mod_inv_var_prime [OF q(6) this] show ?thesis using False o no by (simp add: ell_branch_def Let_def)
    qed (use False o in \<open>simp add: ell_branch_def Let_def\<close>)
  next
    case True
    show ?thesis
    proof (cases "(x - u) mod ?p = 0")
      case False
      have inv: "mod_inv_var ((x - u) mod ?p) ?p = Inr (inv_mod ((x - u) mod ?p) ?p)"
        by (rule mod_inv_var_prime [OF q(6) residue_not_dvd [OF q(8) False]])
      define A where "A = - ((x - u) mod ?p) * (4 * (pow_mod u 3 ?p + ec_b ec) + 3 * ((x - u) mod ?p) * u mod ?p * u) mod ?p"
      obtain root where "try_sqrt A ?p = Inr root" using try_sqrt_cases [OF q(6,3), of A] by metis
      then show ?thesis using True False inv
        unfolding ell_branch_def Let_def A_def [symmetric] by (cases root) auto
    qed (use True in \<open>simp add: ell_branch_def Let_def\<close>)
  qed
  then obtain b where b: "ell_branch x u cas i ec = Inr b" by blast
  obtain root where "b \<noteq> None \<longrightarrow> try_sqrt (snd (the b)) ?p = Inr root" using try_sqrt_cases [OF q(6,3)] by metis
  then show ?thesis using b r u
    by (cases b; cases root) (auto simp: xswiftec_inv_var_def k(1) Let_def)
qed

lemma y_even_of_x:
  assumes e: "ell_curve ec" and x: "is_x_coordinate_var x ec = Inr True"
  obtains E where "y_even_var ec x = Inr E" "0 < E" "E < ec_p ec" "even E" "E * E mod ec_p ec = ec_y2 ec x"
proof -
  note q = ell_curveD [OF e]
  obtain y where y: "0 \<le> x" "x < ec_p ec" "y * y mod ec_p ec = ec_y2 ec x" using x x_coordinate_iff [OF q(1,3)] by blast
  have "(y mod ec_p ec) * (y mod ec_p ec) mod ec_p ec = ec_y2 ec x" using y(3) by (simp add: mod_mult_eq)
  then have "ec_on ec (Pt x (y mod ec_p ec))" using ec_y2_on_curve [OF q(8) y(1,2), of "y mod ec_p ec"] q(8) by simp
  then obtain r where "y_var ec x = Inr r" using y_var_complete [OF q(9,3)] by blast
  then obtain E where E: "y_even_var ec x = Inr E" by (simp add: y_even_var_def)
  note s = y_even_root [OF E q(9)]
  have "E \<noteq> 0"
  proof
    obtain c i where k: "ec_a ec = 0" using ell_constants_sound [OF e] by blast
    assume "E = 0"
    then have "ec_p ec dvd ec_y2 ec x" using s(4) by simp
    then show False using ec_y2_cubic [OF k, of x] q(5) dvd_cong_iff by blast
  qed
  then show ?thesis using that E s by simp
qed

lemma ell_decoded:
  assumes e: "ell_curve ec" and l: "length ell = 2 * ec_p_size ec"
  shows "\<exists>x y. decode_var ell ec = Inr (x, y) \<and> 0 < y \<and> ec_on ec (Pt x y)"
proof -
  note q = ell_curveD [OF e]
  define u t where "u = int_from_bytes (take (ec_p_size ec) ell) mod ec_p ec" and "t = int_from_bytes (drop (ec_p_size ec) ell) mod ec_p ec"
  obtain x where x: "xswiftec_var u t ec = Inr x" "0 \<le> x" "x < ec_p ec" "is_x_coordinate_var x ec = Inr True"
    using xswiftec_total [OF e] by blast
  obtain E where E: "y_even_var ec x = Inr E" "0 < E" "E < ec_p ec" "even E" "E * E mod ec_p ec = ec_y2 ec x"
    by (rule y_even_of_x [OF e x(4)])
  define y where "y = (if t mod 2 \<noteq> 0 then ec_p ec - E else E)"
  have "decode_var ell ec = Inr (x, y)"
    using l x(1) E(1)
    by (simp add: decode_var_def ell_from_octets_def point_from_ell_var_def x_t_from_ell_var_def Let_def y_def flip: u_def t_def)
  moreover have "y * y mod ec_p ec = ec_y2 ec x"
  proof -
    have "ec_p ec dvd ((ec_p ec - E) * (ec_p ec - E) - E * E)" by (simp add: algebra_simps)
    then have "(ec_p ec - E) * (ec_p ec - E) mod ec_p ec = E * E mod ec_p ec" by (rule mod_eq_if_dvd_diff)
    then show ?thesis using E(5) by (simp add: y_def)
  qed
  then have "ec_on ec (Pt x y)" using ec_y2_on_curve [OF q(8) x(2,3), of y] E by (simp add: y_def)
  ultimately show ?thesis using E(2,3) by (auto simp: y_def)
qed

text \<open>One round of the encoder, over a point.\<close>

lemma ell_attempt_result:
  assumes e: "ell_curve ec" and P: "member ec P" "P \<noteq> Inf" and u: "0 < u" "u < ec_p ec"
  shows "(xswiftec_inv_var (px P) u cas ec = Inr None \<and> ell_attempt (aff_of P) ec (u, cas) = Inr None)
    \<or> (\<exists>ell. ell_attempt (aff_of P) ec (u, cas) = Inr (Some ell) \<and> length ell = 2 * ec_p_size ec \<and> decode_var ell ec = Inr (aff_of P)
        \<and> xswiftec_inv_var (px P) u cas ec \<noteq> Inr None)"
proof -
  let ?p = "ec_p ec" and ?x = "px P" and ?y = "py P" and ?n = "ec_p_size ec"
  note q = ell_curveD [OF e] and c = member_coords [OF P] and ix = x_coordinate_member [OF ell_curveD(1) [OF e] P]
  obtain cc i where k: "ell_constants ec = Inr (cc, i)" "ec_a ec = 0" using ell_constants_sound [OF e] by blast
  have sx: "ell_sign ec ?x = 1" using x_coordinate_sign [OF e k(2) c(2,3)] ix by simp
  obtain ans where ans: "xswiftec_inv_var ?x u cas ec = Inr ans" using xswiftec_inv_answers [OF e ix u] by blast
  show ?thesis
  proof (cases ans)
    case None
    then show ?thesis using ans by (simp add: ell_attempt_def aff_of_px_py)
  next
    case (Some t)
    note t = xswiftec_inv_preimage [OF e k(1) c(2,3) u ans [unfolded Some]]
    note nt = xswiftec_of_preimage(1) [OF e k(1) c(2,3) sx u t(1)]
    then have t0: "0 < t" using t(2) by (cases "t = 0") auto
    define t' where "t' = (if t mod 2 \<noteq> ?y mod 2 then ?p - t else t)"
    have t': "0 < t'" "t' < ?p" using t0 t(3) by (simp_all add: t'_def)
    have "ell_preimage ec cc ?x u t'" using t(1) ell_preimage_minus [OF t(1), of "?p - t"] by (simp add: t'_def)
    from xswiftec_of_preimage(3) [OF e k(1) c(2,3) sx u this] have maps: "xswiftec_var u t' ec = Inr ?x" .
    have "t' mod 2 = ?y mod 2" using q(7) unfolding t'_def by presburger
    then have par: "t' mod 2 \<noteq> 0 \<longleftrightarrow> odd ?y" by presburger
    have sz: "?p < 256 ^ ?n" using q(2) by (simp add: sized_def)
    define ell where "ell = to_bytes ?n u @ to_bytes ?n t'"
    have round: "ell_attempt (aff_of P) ec (u, cas) = Inr (Some ell)"
      using ans Some u t' sz by (simp add: ell_attempt_def aff_of_px_py int_to_bytes_def Let_def ell_def flip: t'_def)
    obtain E where E: "y_even_var ec ?x = Inr E" "0 < E" "E < ?p" "even E" "E * E mod ?p = ec_y2 ec ?x"
      by (rule y_even_of_x [OF e ix])
    have "y_even_var ec ?x = Inr (if even ?y then ?y else ?p - ?y)" by (rule y_even_of_px [OF P q(3)])
    then have "(if t' mod 2 \<noteq> 0 then ?p - E else E) = ?y" using E(1) par by simp
    then have "decode_var ell ec = Inr (aff_of P)"
      using u t' sz maps E(1)
      by (simp add: decode_var_def ell_from_octets_def point_from_ell_var_def x_t_from_ell_var_def Let_def ell_def to_from_bytes aff_of_px_py)
    then show ?thesis using round ans Some by (auto simp: ell_def)
  qed
qed

text \<open>The search: it ends when some draw has an answer, and then with an encoding of the point.\<close>

lemma ell_search:
  assumes e: "ell_curve ec" and P: "member ec P" "P \<noteq> Inf" and d: "\<And>k. 0 < fst (drawn k) \<and> fst (drawn k) < ec_p ec"
  shows "ell_from_point_var drawn (aff_of P) ec = None \<longleftrightarrow>
      (\<forall>k. xswiftec_inv_var (px P) (fst (drawn k)) (snd (drawn k)) ec = Inr None)"
    "ell_from_point_var drawn (aff_of P) ec = Some res \<Longrightarrow>
      \<exists>ell. res = Inr ell \<and> length ell = 2 * ec_p_size ec \<and> decode_var ell ec = Inr (aff_of P)"
proof -
  let ?ok = "\<lambda>k. ell_attempt (aff_of P) ec (drawn k) \<noteq> Inr None"
  have round: "(\<not> ?ok k \<and> xswiftec_inv_var (px P) (fst (drawn k)) (snd (drawn k)) ec = Inr None)
    \<or> (\<exists>ell. ell_attempt (aff_of P) ec (drawn k) = Inr (Some ell) \<and> length ell = 2 * ec_p_size ec \<and> decode_var ell ec = Inr (aff_of P)
        \<and> xswiftec_inv_var (px P) (fst (drawn k)) (snd (drawn k)) ec \<noteq> Inr None)" for k
    using ell_attempt_result [OF e P, of "fst (drawn k)" "snd (drawn k)"] d [of k] by auto

  have none: "\<not> ?ok k \<longleftrightarrow> xswiftec_inv_var (px P) (fst (drawn k)) (snd (drawn k)) ec = Inr None" for k
    using round [of k] by auto
  have it: "(Suc ^^ k) 0 = k" for k by (induction k) simp_all
  have "first_accepted Suc ?ok 0 = None \<longleftrightarrow> (\<forall>k. \<not> ?ok k)"
    using first_accepted_defined [of ?ok Suc 0, unfolded it] by blast
  then show "ell_from_point_var drawn (aff_of P) ec = None \<longleftrightarrow>
      (\<forall>k. xswiftec_inv_var (px P) (fst (drawn k)) (snd (drawn k)) ec = Inr None)"
    unfolding ell_from_point_var_def map_option_is_None using none by simp
  assume "ell_from_point_var drawn (aff_of P) ec = Some res"
  then obtain k where k: "first_accepted Suc ?ok 0 = Some k" "res = rbind (ell_attempt (aff_of P) ec (drawn k)) (\<lambda>ell. Inr (the ell))"
    by (auto simp: ell_from_point_var_def)
  have "?ok k" using first_accepted_sound [OF k(1)] by blast
  then show "\<exists>ell. res = Inr ell \<and> length ell = 2 * ec_p_size ec \<and> decode_var ell ec = Inr (aff_of P)"
    using round [of k] k(2) by auto
qed

end
