(* ===== verification/Ellswift_Properties.thy ===== *)
theory Ellswift_Properties
  imports Ellswift_Exact
begin

text \<open>The properties of the ElligatorSwift map and encodings.\<close>

section \<open>The example\<close>

lemma no_root19: "\<not> 19 dvd (x * x * x + 2 :: int)"
proof
  assume d: "19 dvd (x * x * x + 2)"
  define y where "y = x mod 19"
  have "19 dvd (y - x)" by (simp add: y_def mod_eq_dvd_iff [symmetric])
  then have "19 dvd ((y * y * y + 2) - (x * x * x + 2))" by (rule cubic_cong)
  then have "19 dvd (y * y * y + 2)" using d dvd_cong_iff by blast
  moreover have "y \<in> set (map int [0..<19])"
  proof -
    have "y = int (nat y)" "nat y < 19" by (simp_all add: y_def)
    then show ?thesis by force
  qed
  moreover have "list_all (\<lambda>y. \<not> 19 dvd (y * y * y + 2 :: int)) (map int [0..<19])" by code_simp
  ultimately show False by (simp only: list_all_iff)
qed

lemma ec19_ell: "ell_curve ec19"
proof -
  have "ell_constants ec19 = Inr (4, 10)" unfolding ec19_def by code_simp
  then show ?thesis using ec19_valid ec19_sized no_root19 by (simp add: ell_curve_def)
qed

section \<open>Properties\<close>

text \<open>
  C38: On a curve such as secp256k1, with \<open>a = 0\<close>, the constants of the map, a prime that is three modulo four and no point
  of order two: every string of the size of two field elements decodes to a point of the curve. The eight cases of the inverse
  return, over an x-coordinate and a non-zero field element, the numbers that the map sends to it: all of them and no
  other, but for zero and for those at which the map replaces its argument. An encoding of a public key, whatever is
  drawn for it, decodes to that key; the search for one goes on for ever only when no draw has an answer; and the
  encoding made from a private key is one of its public key.
\<close>

theorem ellswift_encodings_exact:
  assumes "ell_curve ec" "\<And>k. 0 < fst (drawn k) \<and> fst (drawn k) < ec_p ec" "member ec P" "P \<noteq> Inf"
    and "0 \<le> rnd" "rnd < ec_p ec - 1" "0 < q" "q < cv_n ec"
  shows "(length octs = 2 * ec_p_size ec \<longrightarrow> (\<exists>x y. decode_var octs ec = Inr (x, y) \<and> 0 < y \<and> ec_on ec (Pt x y)))
    \<and> (0 < u \<and> u < ec_p ec \<longrightarrow>
        ((\<exists>cas < 8. xswiftec_inv_var (px P) u cas ec = Inr (Some t)) \<longleftrightarrow>
          0 < t \<and> t < ec_p ec \<and> \<not> ec_p ec dvd (u * u * u + t * t + ec_b ec) \<and> xswiftec_var u t ec = Inr (px P)))
    \<and> (encode_var drawn (Key_Point (aff_of P)) ec = Some res \<longrightarrow>
        (\<exists>ell. res = Inr ell \<and> length ell = 2 * ec_p_size ec \<and> decode_var ell ec = Inr (aff_of P)))
    \<and> (encode_var drawn (Key_Point (aff_of P)) ec = None \<longleftrightarrow>
        (\<forall>k. xswiftec_inv_var (px P) (fst (drawn k)) (snd (drawn k)) ec = Inr None))
    \<and> create_var rnd drawn q ec = encode_var drawn (Key_Point (aff_of (ec_times ec q (gen ec)))) ec"
proof -
  note v = ell_curveD(1) [OF assms(1)]
  obtain k where k: "ell_constants ec = Inr k" using ell_constants_sound [OF assms(1)] by blast
  have enc: "encode_var drawn (Key_Point (aff_of S)) ec = ell_from_point_var drawn (aff_of S) ec" if "member ec S" "S \<noteq> Inf" for S
    using key_of_member [OF that] k by (simp add: encode_var_def)
  have qG: "member ec (ec_times ec q (gen ec))" "ec_times ec q (gen ec) \<noteq> Inf"
    using member_closed(3) [OF member_generator [OF v]] gen_times_finite [OF v assms(7,8)] by blast+
  have create: "create_var rnd drawn q ec = ell_from_point_var drawn (aff_of (ec_times ec q (gen ec))) ec"
    using k mult_generator(1) [OF v assms(5,6), of q] assms(7,8) by (simp add: create_var_def scalar_from_int_def)
  have exact: "0 < u \<and> u < ec_p ec \<longrightarrow>
      ((\<exists>cas < 8. xswiftec_inv_var (px P) u cas ec = Inr (Some t)) \<longleftrightarrow>
        0 < t \<and> t < ec_p ec \<and> \<not> ec_p ec dvd (u * u * u + t * t + ec_b ec) \<and> xswiftec_var u t ec = Inr (px P))"
    using xswiftec_inv_exact [OF assms(1) _ _ x_coordinate_member [OF v assms(3,4)], of u t] by blast
  show ?thesis unfolding enc [OF assms(3,4)] enc [OF qG] create
    using ell_decoded [OF assms(1), of octs] ell_search [OF assms(1,3,4), where drawn = drawn, OF assms(2)] exact by blast
qed

theorem ellswift_encodings_exact_witness:
  "encode_var (\<lambda>_. (2, 0)) (Key_Point (4, 16)) ec19 = Some (Inr [2, 18]) \<and> decode_var [2, 18] ec19 = Inr (4, 16)
    \<and> (\<exists>x y. decode_var [0, 0] ec19 = Inr (x, y) \<and> ec_on ec19 (Pt x y))
    \<and> xswiftec_var 2 18 ec19 = Inr 4 \<and> \<not> (\<exists>cas < 8. xswiftec_inv_var 4 2 cas ec19 = Inr (Some 5))"
proof -
  have a: "ell_attempt (4, 16) ec19 (2, 0) = Inr (Some [2, 18])" and c: "xswiftec_inv_var 4 2 0 ec19 = Inr (Some 18)"
    and n: "xswiftec_var 2 5 ec19 \<noteq> Inr 4"
    unfolding ec19_def by code_simp+
  have P: "member ec19 (Pt 4 16)" using ec19_member [of 1] times_one [OF member_generator [OF ec19_valid]] by (simp add: aff_abs_def)
  obtain k where k: "ell_constants ec19 = Inr k" using ell_constants_sound [OF ec19_ell] by blast
  have e: "encode_var (\<lambda>_. (2, 0)) (Key_Point (4, 16)) ec19 = Some (Inr [2, 18])"
    using key_of_member [OF P] k a first_accepted.simps [of Suc "\<lambda>_. True" 0] by (simp add: encode_var_def ell_from_point_var_def)
  have cas: "\<exists>cas < 8. xswiftec_inv_var 4 2 cas ec19 = Inr (Some 18)" using c by (intro exI [of _ 0]) simp
  note T = ellswift_encodings_exact [OF ec19_ell _ P, of "\<lambda>_. (2, 0)" 0 1]
  have "decode_var [2, 18] ec19 = Inr (4, 16)" "\<exists>x y. decode_var [0, 0] ec19 = Inr (x, y) \<and> ec_on ec19 (Pt x y)"
    using T [of "[2, 18]" 1 1 "Inr [2, 18]"] T [of "[0, 0]" 1 1 "Inr []"] e by auto
  moreover have "xswiftec_var 2 18 ec19 = Inr 4" "\<not> (\<exists>cas < 8. xswiftec_inv_var 4 2 cas ec19 = Inr (Some 5))"
    using T [of "[]" 2 18 "Inr []"] T [of "[]" 2 5 "Inr []"] cas n by (simp_all add: px_py_Pt)
  ultimately show ?thesis using e by blast
qed

end
