(* ===== verification/Ecies.thy ===== *)
theory Ecies
  imports Sec_Point Hashes
begin

text \<open>
  Model of \<^verbatim>\<open>src/btclib_ecc/ecc/ecies.py\<close>: the derivation of the three keys, the envelope with its octets and
  its base64 armor, encryption and decryption. The block cipher is an argument, as it is in the code; \<open>ec\<close> stands for
  \<^verbatim>\<open>secp256k1\<close>, \<open>h512\<close> and \<open>h256\<close> for \<^verbatim>\<open>sha512\<close> and \<^verbatim>\<open>sha256\<close>; the ephemeral key, which the code draws when it is not
  given one, and the random factors of the multiplications are arguments. An armor is the text, the code
  taking octets of ASCII for it too.
\<close>

section \<open>The base64 of the standard library\<close>

definition B64 :: string where
  "B64 = ''ABCDEFGHIJKLMNOPQRSTUVWXYZabcdefghijklmnopqrstuvwxyz0123456789+/''"

definition b64_char :: "nat \<Rightarrow> char" where "b64_char v = B64 ! v"

definition b64_value :: "char \<Rightarrow> nat option" where
  "b64_value c = (let i = length (takeWhile (\<lambda>d. d \<noteq> c) B64) in if i < length B64 then Some i else None)"

fun base64_encode :: "octets \<Rightarrow> string" where
  "base64_encode (a # b # c # rest) =
     (let a = unat a; b = unat b; c = unat c in
      map b64_char [a div 4, a mod 4 * 16 + b div 16, b mod 16 * 4 + c div 64, c mod 64]) @ base64_encode rest"
| "base64_encode [a, b] =
     (let a = unat a; b = unat b in map b64_char [a div 4, a mod 4 * 16 + b div 16, b mod 16 * 4] @ ''='')"
| "base64_encode [a] = (let a = unat a in map b64_char [a div 4, a mod 4 * 16] @ ''=='')"
| "base64_encode [] = []"

text \<open>
  With \<^verbatim>\<open>validate=True\<close>: nothing outside the alphabet, and the padding only at the end. The bits of the last
  character that no octet takes are read over.
\<close>

fun base64_decode :: "string \<Rightarrow> octets option" where
  "base64_decode [] = Some []"
| "base64_decode (p # q # r # s # rest) =
     (case (b64_value p, b64_value q) of
        (Some a, Some b) \<Rightarrow>
          let x = word_of_nat (a * 4 + b div 16) in
          if r = CHR ''='' \<and> s = CHR ''='' \<and> rest = [] then Some [x]
          else (case b64_value r of
              None \<Rightarrow> None
            | Some c \<Rightarrow>
                let y = word_of_nat (b mod 16 * 16 + c div 4) in
                if s = CHR ''='' \<and> rest = [] then Some [x, y]
                else (case (b64_value s, base64_decode rest) of
                    (Some d, Some zs) \<Rightarrow> Some (x # y # word_of_nat (c mod 4 * 64 + d) # zs)
                  | _ \<Rightarrow> None))
      | _ \<Rightarrow> None)"
| "base64_decode _ = None"

section \<open>The envelope\<close>

definition MAGIC :: octets where "MAGIC = ascii ''BIE1''"
definition MAGIC_SIZE :: nat where "MAGIC_SIZE = 4"
definition EPH_PUB_KEY_SIZE :: nat where "EPH_PUB_KEY_SIZE = 33"
definition MAC_SIZE :: nat where "MAC_SIZE = 32"
definition BLOCK_SIZE :: nat where "BLOCK_SIZE = 16"

definition derive_keys :: "int \<Rightarrow> int \<Rightarrow> pub_key \<Rightarrow> curve \<Rightarrow> hash_fn \<Rightarrow> (octets \<times> octets \<times> octets) result" where
  "derive_keys rnd prv_key key ec h512 =
     rbind (scalar_from_int prv_key ec) (\<lambda>q.
     rbind (sec_from_pub_key key ec) (\<lambda>sec.
     rbind (mult_sec rnd sec q ec) (\<lambda>shared.
     rbind (bytes_from_point shared ec True) (\<lambda>shared_point_bytes.
       let digest = hf_digest h512 shared_point_bytes in
       Inr (take 16 digest, take 16 (drop 16 digest), drop 32 digest)))))"

record envelope =
  ev_magic :: octets
  ev_eph_pub_key :: octets
  ev_ciphertext :: octets
  ev_mac :: octets

definition envelope_assert_valid :: "envelope \<Rightarrow> curve \<Rightarrow> unit result" where
  "envelope_assert_valid ev ec =
     (if length (ev_magic ev) \<noteq> MAGIC_SIZE then Inl (BTClibEccValueError ''invalid magic size'')
      else if length (ev_eph_pub_key ev) \<noteq> EPH_PUB_KEY_SIZE
      then Inl (BTClibEccValueError ''invalid ephemeral public key size'')
      else rbind (point_from_pub_key (Key_Octets (ev_eph_pub_key ev)) ec) (\<lambda>_.
        if length (ev_ciphertext ev) < BLOCK_SIZE then Inl (BTClibEccValueError ''invalid ciphertext size'')
        else if length (ev_ciphertext ev) mod BLOCK_SIZE \<noteq> 0
        then Inl (BTClibEccValueError ''ciphertext is not a whole number of blocks'')
        else if length (ev_mac ev) \<noteq> MAC_SIZE then Inl (BTClibEccValueError ''invalid MAC size'')
        else Inr ()))"

definition init_envelope :: "octets \<Rightarrow> octets \<Rightarrow> octets \<Rightarrow> octets \<Rightarrow> bool \<Rightarrow> curve \<Rightarrow> envelope result" where
  "init_envelope magic eph_pub_key ciphertext mac check_validity ec =
     (let ev = \<lparr>ev_magic = magic, ev_eph_pub_key = eph_pub_key, ev_ciphertext = ciphertext, ev_mac = mac\<rparr> in
      if check_validity then rbind (envelope_assert_valid ev ec) (\<lambda>_. Inr ev) else Inr ev)"

definition mac_from_key :: "envelope \<Rightarrow> octets \<Rightarrow> hash_fn \<Rightarrow> octets" where
  "mac_from_key ev key_m h256 = hmac h256 key_m (ev_magic ev @ ev_eph_pub_key ev @ ev_ciphertext ev)"

definition assert_valid_mac :: "envelope \<Rightarrow> octets \<Rightarrow> hash_fn \<Rightarrow> unit result" where
  "assert_valid_mac ev key_m h256 =
     (if ev_mac ev \<noteq> mac_from_key ev key_m h256
      then Inl (BTClibEccRuntimeError ''invalid MAC: wrong private key, or tampered envelope'') else Inr ())"

definition from_ciphertext :: "octets \<Rightarrow> octets \<Rightarrow> octets \<Rightarrow> octets \<Rightarrow> curve \<Rightarrow> hash_fn \<Rightarrow> envelope result" where
  "from_ciphertext eph_pub_key ciphertext key_m magic ec h256 =
     rbind (init_envelope magic eph_pub_key ciphertext (replicate MAC_SIZE 0) False ec) (\<lambda>placeholder.
       init_envelope magic eph_pub_key ciphertext (mac_from_key placeholder key_m h256) True ec)"

definition envelope_serialize :: "envelope \<Rightarrow> bool \<Rightarrow> curve \<Rightarrow> octets result" where
  "envelope_serialize ev check_validity ec =
     rbind (if check_validity then envelope_assert_valid ev ec else Inr ()) (\<lambda>_.
       Inr (ev_magic ev @ ev_eph_pub_key ev @ ev_ciphertext ev @ ev_mac ev))"

definition envelope_parse :: "octets \<Rightarrow> octets \<Rightarrow> bool \<Rightarrow> curve \<Rightarrow> envelope result" where
  "envelope_parse bs magic check_validity ec =
     (let min_size = MAGIC_SIZE + EPH_PUB_KEY_SIZE + BLOCK_SIZE + MAC_SIZE; magic_found = take MAGIC_SIZE bs;
        eph_pub_key_end = MAGIC_SIZE + EPH_PUB_KEY_SIZE; mac_start = length bs - MAC_SIZE in
      if length bs < min_size then Inl (BTClibEccValueError ''invalid envelope size'')
      else if magic_found \<noteq> magic then Inl (BTClibEccValueError ''invalid magic bytes'')
      else init_envelope magic_found (drop MAGIC_SIZE (take eph_pub_key_end bs))
        (drop eph_pub_key_end (take mac_start bs)) (drop mac_start bs) check_validity ec)"

definition b64encode :: "envelope \<Rightarrow> bool \<Rightarrow> curve \<Rightarrow> string result" where
  "b64encode ev check_validity ec = rbind (envelope_serialize ev check_validity ec) (\<lambda>bs. Inr (base64_encode bs))"

text \<open>
  A character that is not ASCII is refused with the same error as one outside the alphabet, which it is.
\<close>

definition b64decode :: "string \<Rightarrow> octets \<Rightarrow> bool \<Rightarrow> curve \<Rightarrow> envelope result" where
  "b64decode armor magic check_validity ec =
     (let txt = strip armor in
      case base64_decode txt of
        None \<Rightarrow> Inl (BTClibEccValueError ''invalid base64 encoding'')
      | Some bs \<Rightarrow>
          if base64_encode bs \<noteq> txt then Inl (BTClibEccValueError ''invalid base64 encoding: not canonical'')
          else envelope_parse bs magic check_validity ec)"

section \<open>Encryption\<close>

type_synonym cipher = "octets \<Rightarrow> octets \<Rightarrow> octets \<Rightarrow> octets"

definition ecies_encrypt ::
  "(nat \<Rightarrow> int) \<Rightarrow> octets \<Rightarrow> pub_key \<Rightarrow> cipher \<Rightarrow> int \<Rightarrow> octets \<Rightarrow> curve \<Rightarrow> hash_fn \<Rightarrow> hash_fn \<Rightarrow> string result" where
  "ecies_encrypt rnd msg key encrypt_f eph_prv_key magic ec h512 h256 =
     rbind (scalar_from_int eph_prv_key ec) (\<lambda>q.
     rbind (derive_keys (rnd 0) q key ec h512) (\<lambda>(iv, key_e, key_m).
     let ciphertext = encrypt_f key_e iv msg in
     if length ciphertext \<le> length msg then Inl (BTClibEccValueError ''encrypt_f did not pad'')
     else
       rbind (mult (rnd 1) q None ec) (\<lambda>Q.
       rbind (bytes_from_point Q ec True) (\<lambda>eph_pub_key.
       rbind (from_ciphertext eph_pub_key ciphertext key_m magic ec h256) (\<lambda>ev. b64encode ev True ec)))))"

definition ecies_decrypt ::
  "int \<Rightarrow> string \<Rightarrow> int \<Rightarrow> cipher \<Rightarrow> octets \<Rightarrow> curve \<Rightarrow> hash_fn \<Rightarrow> hash_fn \<Rightarrow> octets result" where
  "ecies_decrypt rnd armor prv_key decrypt_f magic ec h512 h256 =
     rbind (b64decode armor magic True ec) (\<lambda>ev.
     rbind (derive_keys rnd prv_key (Key_Octets (ev_eph_pub_key ev)) ec h512) (\<lambda>(iv, key_e, key_m).
     rbind (assert_valid_mac ev key_m h256) (\<lambda>_. Inr (decrypt_f key_e iv (ev_ciphertext ev)))))"

end
