(* ===== verification/Ecies_Correct.thy ===== *)
theory Ecies_Correct
  imports Ecies Cosigning_Correct
begin

text \<open>
  Both ends of an exchange derive the same three keys; the base64 of octets decodes to them, so an envelope is read
  back from its armor, and from no other text up to the space around it; and what is encrypted for a public key is
  decrypted with its private key.
\<close>

section \<open>Base64\<close>

lemma b64_char_value: "v < 64 \<Longrightarrow> b64_value (b64_char v) = Some v \<and> b64_char v \<noteq> CHR ''='' \<and> \<not> str_space (b64_char v)"
proof -
  assume "v < 64"
  then have "v \<in> set [0..<64]" by simp
  moreover have "list_all (\<lambda>v. b64_value (b64_char v) = Some v \<and> b64_char v \<noteq> CHR ''='' \<and> \<not> str_space (b64_char v)) [0..<64]"
    by code_simp
  ultimately show ?thesis unfolding list_all_iff by blast
qed

lemma b64_sextets:
  assumes "a < 256" "b < 256" "c < (256 :: nat)"
  shows "a div 4 < 64" "a mod 4 * 16 + b div 16 < 64" "b mod 16 * 4 + c div 64 < 64" "c mod 64 < 64"
    "a mod 4 * 16 < 64" "b mod 16 * 4 < 64"
    "a div 4 * 4 + (a mod 4 * 16 + b div 16) div 16 = a"
    "(a mod 4 * 16 + b div 16) mod 16 * 16 + (b mod 16 * 4 + c div 64) div 4 = b"
    "(b mod 16 * 4 + c div 64) mod 4 * 64 + c mod 64 = c"
    "a div 4 * 4 + a mod 4 * 16 div 16 = a" "(a mod 4 * 16 + b div 16) mod 16 * 16 + b mod 16 * 4 div 4 = b"
proof -
  have q: "b div 16 < 16" "c div 64 < 4" "a mod 4 < 4" "b mod 16 < 16" using assms by (simp_all add: less_mult_imp_div_less)
  show "a div 4 < 64" "a mod 4 * 16 + b div 16 < 64" "b mod 16 * 4 + c div 64 < 64" "c mod 64 < 64"
    "a mod 4 * 16 < 64" "b mod 16 * 4 < 64" using assms q by (simp_all add: less_mult_imp_div_less)
  show "a div 4 * 4 + (a mod 4 * 16 + b div 16) div 16 = a" "a div 4 * 4 + a mod 4 * 16 div 16 = a" using q by simp_all
  have m: "(a mod 4 * 16 + b div 16) mod 16 = b div 16" using q(1) by simp
  show "(a mod 4 * 16 + b div 16) mod 16 * 16 + (b mod 16 * 4 + c div 64) div 4 = b"
    "(a mod 4 * 16 + b div 16) mod 16 * 16 + b mod 16 * 4 div 4 = b" unfolding m using q(2) by simp_all
  show "(b mod 16 * 4 + c div 64) mod 4 * 64 + c mod 64 = c" using q(2) by simp
qed

lemma unat_octet: "unat (w :: 8 word) < 256"
proof -
  have "unat w < 2 ^ LENGTH(8)" by (rule unsigned_less)
  then show ?thesis by simp
qed

lemma base64_roundtrip: "base64_decode (base64_encode bs) = Some bs"
proof (induction bs rule: base64_encode.induct)
  case (1 a b c rest)
  note s = b64_sextets [OF unat_octet [of a] unat_octet [of b] unat_octet [of c]]
  show ?case using 1 b64_char_value [OF s(1)] b64_char_value [OF s(2)] b64_char_value [OF s(3)] b64_char_value [OF s(4)] s(7,8,9)
    by (simp add: Let_def)
next
  case (2 a b)
  note s = b64_sextets [OF unat_octet [of a] unat_octet [of b] unat_octet [of b]]
  show ?case using b64_char_value [OF s(1)] b64_char_value [OF s(2)] b64_char_value [OF s(6)] s(7,11)
    by (simp add: Let_def)
next
  case (3 a)
  note s = b64_sextets [OF unat_octet [of a] unat_octet [of a] unat_octet [of a]]
  show ?case using b64_char_value [OF s(1)] b64_char_value [OF s(5)] s(10) by (simp add: Let_def)
qed simp

lemma base64_ends: "bs \<noteq> [] \<Longrightarrow> base64_encode bs \<noteq> [] \<and> \<not> str_space (hd (base64_encode bs)) \<and> \<not> str_space (last (base64_encode bs))"
proof (induction bs rule: base64_encode.induct)
  case (1 a b c rest)
  note s = b64_sextets [OF unat_octet [of a] unat_octet [of b] unat_octet [of c]]
  show ?case using 1 b64_char_value [OF s(1)] b64_char_value [OF s(4)] by (cases "rest = []") (simp_all add: Let_def)
next
  case (2 a b)
  note s = b64_sextets [OF unat_octet [of a] unat_octet [of b] unat_octet [of b]]
  show ?case using b64_char_value [OF s(1)] by (simp add: Let_def str_space_def)
next
  case (3 a)
  note s = b64_sextets [OF unat_octet [of a] unat_octet [of a] unat_octet [of a]]
  show ?case using b64_char_value [OF s(1)] by (simp add: Let_def str_space_def)
qed simp

lemma strip_base64: "strip (base64_encode bs) = base64_encode bs"
  using base64_ends [of bs] strip_id by (cases "bs = []") (auto simp: strip_def)

section \<open>Envelopes\<close>

lemma envelope_sizes:
  assumes "envelope_assert_valid ev ec = Inr ()"
  shows "length (ev_magic ev) = 4" "length (ev_eph_pub_key ev) = 33" "16 \<le> length (ev_ciphertext ev)" "length (ev_mac ev) = 32"
  using assms by (auto simp: envelope_assert_valid_def rbind_eq_Inr_iff MAGIC_SIZE_def EPH_PUB_KEY_SIZE_def BLOCK_SIZE_def MAC_SIZE_def
      split: if_splits)

lemma envelope_parse_serialize:
  assumes "envelope_assert_valid ev ec = Inr ()"
  shows "envelope_parse (ev_magic ev @ ev_eph_pub_key ev @ ev_ciphertext ev @ ev_mac ev) (ev_magic ev) check_validity ec = Inr ev"
  using envelope_sizes [OF assms] assms
  by (cases ev) (simp add: envelope_parse_def init_envelope_def Let_def MAGIC_SIZE_def EPH_PUB_KEY_SIZE_def BLOCK_SIZE_def MAC_SIZE_def)

lemma envelope_serialize_parse:
  assumes "envelope_parse bs magic check_validity ec = Inr ev"
  shows "ev_magic ev @ ev_eph_pub_key ev @ ev_ciphertext ev @ ev_mac ev = bs" "ev_magic ev = magic"
    "check_validity \<Longrightarrow> envelope_assert_valid ev ec = Inr ()"
proof -
  have l: "85 \<le> length bs" and ev: "ev_magic ev = take 4 bs" "ev_eph_pub_key ev = drop 4 (take 37 bs)"
    "ev_ciphertext ev = drop 37 (take (length bs - 32) bs)" "ev_mac ev = drop (length bs - 32) bs" "take 4 bs = magic"
    and v: "check_validity \<longrightarrow> envelope_assert_valid ev ec = Inr ()"
    using assms by (auto simp: envelope_parse_def init_envelope_def Let_def rbind_eq_Inr_iff MAGIC_SIZE_def EPH_PUB_KEY_SIZE_def
        BLOCK_SIZE_def MAC_SIZE_def split: if_splits)
  have l': "37 \<le> length bs - 32" using l by simp
  have "take 4 bs @ drop 4 (take 37 bs) = take 37 bs"
    using append_take_drop_id [of 4 "take 37 bs"] l by (simp add: min_def)
  moreover have "take 37 bs @ drop 37 (take (length bs - 32) bs) = take (length bs - 32) bs"
    using append_take_drop_id [of 37 "take (length bs - 32) bs"] by (simp add: min_def l')
  ultimately show "ev_magic ev @ ev_eph_pub_key ev @ ev_ciphertext ev @ ev_mac ev = bs"
    unfolding ev by (metis append.assoc append_take_drop_id)
  show "ev_magic ev = magic" using ev by simp
  show "check_validity \<Longrightarrow> envelope_assert_valid ev ec = Inr ()" using v by blast
qed

lemma armor_exact:
  "b64decode armor magic True ec = Inr ev \<longleftrightarrow> b64encode ev True ec = Inr (strip armor) \<and> ev_magic ev = magic"
proof
  assume "b64decode armor magic True ec = Inr ev"
  then obtain bs where "base64_encode bs = strip armor" "envelope_parse bs magic True ec = Inr ev"
    by (auto simp: b64decode_def Let_def split: option.splits if_splits)
  then show "b64encode ev True ec = Inr (strip armor) \<and> ev_magic ev = magic"
    using envelope_serialize_parse [of bs magic True ec ev] by (simp add: b64encode_def envelope_serialize_def)
next
  assume L: "b64encode ev True ec = Inr (strip armor) \<and> ev_magic ev = magic"
  let ?bs = "ev_magic ev @ ev_eph_pub_key ev @ ev_ciphertext ev @ ev_mac ev"
  have v: "envelope_assert_valid ev ec = Inr ()" and s: "strip armor = base64_encode ?bs"
    using L by (auto simp: b64encode_def envelope_serialize_def rbind_eq_Inr_iff)
  show "b64decode armor magic True ec = Inr ev"
    using envelope_parse_serialize [OF v, of True] L by (simp add: b64decode_def Let_def s base64_roundtrip)
qed

section \<open>Keys\<close>

definition keys_of_point :: "point \<Rightarrow> curve \<Rightarrow> hash_fn \<Rightarrow> octets \<times> octets \<times> octets" where
  "keys_of_point P ec hk =
     (let digest = hf_digest hk ((if odd (py P) then 3 else 2) # to_bytes (ec_p_size ec) (px P))
      in (take 16 digest, take 16 (drop 16 digest), drop 32 digest))"

lemma member_encodes:
  assumes "member ec P" "P \<noteq> Inf" "sized ec"
  shows "bytes_from_point (aff_of P) ec True = Inr ((if odd (py P) then 3 else 2) # to_bytes (ec_p_size ec) (px P))"
    "bytes_from_point (aff_of P) ec False = Inr (4 # to_bytes (ec_p_size ec) (px P) @ to_bytes (ec_p_size ec) (py P))"
  using accepted_encodes [OF accepted_member [OF assms(1,2)] memberD(3) [OF assms(1)] assms(3)] by (simp_all add: aff_of_px_py)

lemma member_decodes:
  assumes "member ec P" "P \<noteq> Inf" "sized ec" "ec_p ec mod 4 = 3"
  shows "point_from_octets ((if odd (py P) then 3 else 2) # to_bytes (ec_p_size ec) (px P)) ec h = Inr (aff_of P)"
    "point_from_octets (4 # to_bytes (ec_p_size ec) (px P) @ to_bytes (ec_p_size ec) (py P)) ec h = Inr (aff_of P)"
  using compressed_roundtrip [OF accepted_member [OF assms(1,2)] memberD(3) [OF assms(1)] assms(3,4)]
    uncompressed_roundtrip [OF accepted_member [OF assms(1,2)] memberD(3) [OF assms(1)] assms(3)] by (simp_all add: aff_of_px_py)

lemma derive_keys_value:
  assumes v: "curve_valid ec" "endo_law ec" "sized ec" and r: "0 \<le> rnd" "rnd < ec_p ec - 1" and q: "0 < q" "q < cv_n ec"
    and P: "member ec P" "P \<noteq> Inf" and s: "sec_from_pub_key key ec = Inr sec" "point_from_octets sec ec False = Inr (aff_of P)"
  shows "derive_keys rnd q key ec hk = Inr (keys_of_point (ec_times ec q P) ec hk)"
proof -
  have qP: "member ec (ec_times ec q P)" "ec_times ec q P \<noteq> Inf"
    using member_closed(3) [OF P(1)] times_unit_finite [OF P unit_not_dvd [OF q]] by blast+
  have a: "aff_abs (aff_of P) = P" by (rule require_member(2) [OF P])
  have "mult rnd q (Some (aff_of P)) ec = Inr (aff_of (ec_times ec q P))"
    using mult_correct [OF v(1) require_member(1) [OF P], of rnd q] memberD(2) [OF P(1)] endo_lawD [OF v(2) P(1)] r by (simp add: a)
  then show ?thesis
    using q s member_encodes(1) [OF qP v(3)]
    by (simp add: derive_keys_def scalar_from_int_def mult_sec_def keys_of_point_def Let_def)
qed

section \<open>Encryption\<close>

text \<open>
  What the code relies on of the cipher it is given, AES in CBC mode with the padding of PKCS 7: whole blocks, more
  octets than there were, and the inverse. It is the contract that the module states for its two arguments.
\<close>

definition cipher_ok :: "cipher \<Rightarrow> cipher \<Rightarrow> bool" where
  "cipher_ok encrypt_f decrypt_f \<longleftrightarrow>
     (\<forall>key iv msg. length key = 16 \<and> length iv = 16 \<longrightarrow>
       length (encrypt_f key iv msg) mod 16 = 0 \<and> length msg < length (encrypt_f key iv msg)
     \<and> decrypt_f key iv (encrypt_f key iv msg) = msg)"

text \<open>The curve and the two hash functions, of the sizes that the layout is written for.\<close>

definition ecies_ok :: "curve \<Rightarrow> hash_fn \<Rightarrow> hash_fn \<Rightarrow> bool" where
  "ecies_ok ec hk hm \<longleftrightarrow> curve_valid ec \<and> endo_law ec \<and> sized ec \<and> ec_p_size ec = 32 \<and> ec_p ec mod 4 = 3
   \<and> hash_ok hk \<and> hf_size hk = 64 \<and> hash_ok hm \<and> hf_size hm = 32"

lemma length_keys: "hash_ok hk \<Longrightarrow> hf_size hk = 64 \<Longrightarrow> keys_of_point P ec hk = (iv, key_e, key_m) \<Longrightarrow> length iv = 16 \<and> length key_e = 16"
  by (auto simp: keys_of_point_def Let_def hash_ok_def)

lemma encrypt_decrypt:
  assumes o: "ecies_ok ec hk hm" and c: "cipher_ok encrypt_f decrypt_f" and m: "length magic = 4"
    and d: "draws ec rnd" "draws ec rnd'" and q: "0 < q" "q < cv_n ec" and e: "0 < eph" "eph < cv_n ec"
  obtains armor where
    "ecies_encrypt rnd msg (Key_Point (aff_of (ec_times ec q (gen ec)))) encrypt_f eph magic ec hk hm = Inr armor"
    "ecies_decrypt (rnd' 0) armor q decrypt_f magic ec hk hm = Inr msg"
proof -
  have v: "curve_valid ec" "endo_law ec" "sized ec" and p: "ec_p_size ec = 32" "ec_p ec mod 4 = 3"
    and h: "hash_ok hk" "hf_size hk = 64" "hash_ok hm" "hf_size hm = 32" using o by (simp_all add: ecies_ok_def)
  note G = member_generator [OF v(1)]
  let ?Q = "ec_times ec q (gen ec)" and ?E = "ec_times ec eph (gen ec)" and ?S = "ec_times ec (eph * q) (gen ec)"
  have Q: "member ec ?Q" "?Q \<noteq> Inf" using member_closed(3) [OF G] gen_times_finite [OF v(1) q] by blast+
  have E: "member ec ?E" "?E \<noteq> Inf" using member_closed(3) [OF G] gen_times_finite [OF v(1) e] by blast+
  define pub where "pub = (if odd (py ?E) then 3 else 2) # to_bytes (ec_p_size ec) (px ?E)"
  have pub: "bytes_from_point (aff_of ?E) ec True = Inr pub" "point_from_octets pub ec False = Inr (aff_of ?E)" "length pub = 33"
    using member_encodes(1) [OF E v(3)] member_decodes(1) [OF E v(3) p(2)] p(1) by (simp_all add: pub_def)
  obtain iv key_e key_m where k: "keys_of_point ?S ec hk = (iv, key_e, key_m)" by (metis prod_cases3)
  have sizes: "length key_e = 16" "length iv = 16" using length_keys [OF h(1,2) k] by blast+
  have enc_keys: "derive_keys (rnd 0) eph (Key_Point (aff_of ?Q)) ec hk = Inr (iv, key_e, key_m)"
    using derive_keys_value [OF v drawsD [OF d(1)] e Q, where key = "Key_Point (aff_of ?Q)" and hk = hk] member_encodes(2) [OF Q v(3)]
      member_decodes(2) [OF Q v(3) p(2)] k times_times [OF G, of eph q] by simp
  have hd: "hd pub \<noteq> 6" "hd pub \<noteq> 7" by (simp_all add: pub_def)
  have dec_keys: "derive_keys (rnd' 0) q (Key_Octets pub) ec hk = Inr (iv, key_e, key_m)"
    using derive_keys_value [OF v drawsD [OF d(2)] q E, where key = "Key_Octets pub" and hk = hk] pub hd p(1) k times_times [OF G, of q eph]
    by (simp add: bytes_from_octets_def mult.commute)
  define ct where "ct = encrypt_f key_e iv msg"
  have ct: "length ct mod 16 = 0" "length msg < length ct" "decrypt_f key_e iv ct = msg"
    using c sizes unfolding cipher_ok_def ct_def by blast+
  have big: "16 \<le> length ct" using ct(1,2) by presburger
  define mac where "mac = hmac hm key_m (magic @ pub @ ct)"
  define ev where "ev = \<lparr>ev_magic = magic, ev_eph_pub_key = pub, ev_ciphertext = ct, ev_mac = mac\<rparr>"
  have mac: "length mac = 32" using h(3,4) by (simp add: mac_def length_hmac)
  have valid: "envelope_assert_valid ev ec = Inr ()"
    using m pub ct(1) big mac by (simp add: envelope_assert_valid_def ev_def MAGIC_SIZE_def EPH_PUB_KEY_SIZE_def BLOCK_SIZE_def MAC_SIZE_def)
  have framed: "from_ciphertext pub ct key_m magic ec hm = Inr ev"
    using valid by (simp add: from_ciphertext_def init_envelope_def mac_from_key_def Let_def ev_def mac_def)
  obtain armor where armor: "b64encode ev True ec = Inr armor" "strip armor = armor"
    using valid strip_base64 by (simp add: b64encode_def envelope_serialize_def)
  have "ecies_encrypt rnd msg (Key_Point (aff_of ?Q)) encrypt_f eph magic ec hk hm = Inr armor"
    using e enc_keys ct(2) mult_generator(2) [OF v(1) drawsD [OF d(1)], of 1 eph] pub(1) framed armor(1)
    by (simp add: ecies_encrypt_def scalar_from_int_def Let_def flip: ct_def)
  moreover have "b64decode armor magic True ec = Inr ev" using armor armor_exact [of armor magic ec ev] by (simp add: ev_def)
  then have "ecies_decrypt (rnd' 0) armor q decrypt_f magic ec hk hm = Inr msg"
    using dec_keys ct(3) by (simp add: ecies_decrypt_def ev_def assert_valid_mac_def mac_from_key_def mac_def)
  ultimately show ?thesis using that by blast
qed

text \<open>Nothing reaches the cipher that its code did not authenticate under the key it is derived with.\<close>

lemma decrypt_authentic:
  assumes "ecies_decrypt rnd armor q decrypt_f magic ec hk hm = Inr msg"
  obtains ev iv key_e key_m where "b64encode ev True ec = Inr (strip armor)" "ev_magic ev = magic"
    "derive_keys rnd q (Key_Octets (ev_eph_pub_key ev)) ec hk = Inr (iv, key_e, key_m)"
    "ev_mac ev = hmac hm key_m (magic @ ev_eph_pub_key ev @ ev_ciphertext ev)" "msg = decrypt_f key_e iv (ev_ciphertext ev)"
proof -
  obtain ev iv key_e key_m where "b64decode armor magic True ec = Inr ev"
    "derive_keys rnd q (Key_Octets (ev_eph_pub_key ev)) ec hk = Inr (iv, key_e, key_m)"
    "assert_valid_mac ev key_m hm = Inr ()" "msg = decrypt_f key_e iv (ev_ciphertext ev)"
    using assms by (auto simp: ecies_decrypt_def rbind_eq_Inr_iff)
  then show ?thesis using that [of ev iv key_e key_m] armor_exact [of armor magic ec ev]
    by (auto simp: assert_valid_mac_def mac_from_key_def split: if_splits)
qed

end
