(* ===== verification/Ecies_Properties.thy ===== *)
theory Ecies_Properties
  imports Ecies_Correct Test_Cosigning
begin

text \<open>The property of the encryption to a public key.\<close>

section \<open>The example\<close>

text \<open>
  The padding of PKCS 7 alone, over blocks that are left as they are, keeps the contract of the cipher; the hash
  functions are of the two sizes.
\<close>

definition pad_blocks :: cipher where
  "pad_blocks key iv msg = (let k = 16 - length msg mod 16 in msg @ replicate k (word_of_nat k))"

definition strip_blocks :: cipher where
  "strip_blocks key iv bs = take (length bs - unat (last bs)) bs"

lemma pad_blocks_ok: "cipher_ok pad_blocks strip_blocks"
proof -
  have "length (pad_blocks key iv msg) mod 16 = 0 \<and> length msg < length (pad_blocks key iv msg)
    \<and> strip_blocks key iv (pad_blocks key iv msg) = msg" for key iv msg
  proof -
    define k where "k = 16 - length msg mod 16"
    have k: "0 < k" "k \<le> 16" "(length msg + k) mod 16 = 0" using mod_less_divisor [of 16 "length msg"] unfolding k_def by presburger+
    then have "unat (word_of_nat k :: 8 word) = k" by (simp add: unsigned_of_nat take_bit_eq_mod)
    then show ?thesis using k by (simp add: pad_blocks_def strip_blocks_def Let_def flip: k_def)
  qed
  then show ?thesis by (simp add: cipher_ok_def)
qed

definition linear_hash :: "nat \<Rightarrow> hash_fn" where
  "linear_hash k = \<lparr>hf_digest = (\<lambda>m. map (\<lambda>i. foldl (\<lambda>v b. 3 * v + b) (of_nat i) m) [0..<k]), hf_size = k, hf_block = 128\<rparr>"

lemma ec32_ecies: "ecies_ok ec32 (linear_hash 64) (linear_hash 32)"
  using ec32_valid ec32_endo by (simp add: ecies_ok_def sized_def hash_ok_def linear_hash_def)

section \<open>The property\<close>

text \<open>
  C39: What is encrypted for a public key, with any ephemeral key and a cipher that keeps its contract, is an armor that
  the private key decrypts to the message. And a text that is decrypted at all is, but for the space around it, the
  armor of a valid envelope whose code is the one of the key that its ephemeral key and the private key derive.
\<close>

theorem ecies_decrypts_what_it_encrypts:
  assumes "ecies_ok ec h512 h256" "cipher_ok encrypt_f decrypt_f" "length magic = 4" "draws ec rnd" "draws ec rnd'"
    and "0 < q" "q < cv_n ec" "0 < eph" "eph < cv_n ec"
  shows "(\<exists>armor. ecies_encrypt rnd msg (Key_Point (aff_of (ec_times ec q (gen ec)))) encrypt_f eph magic ec h512 h256 = Inr armor
      \<and> ecies_decrypt (rnd' 0) armor q decrypt_f magic ec h512 h256 = Inr msg)
    \<and> (ecies_decrypt (rnd' 0) txt q decrypt_f magic ec h512 h256 = Inr msg \<longrightarrow>
        (\<exists>ev iv key_e key_m. b64encode ev True ec = Inr (strip txt) \<and> ev_magic ev = magic
          \<and> derive_keys (rnd' 0) q (Key_Octets (ev_eph_pub_key ev)) ec h512 = Inr (iv, key_e, key_m)
          \<and> ev_mac ev = hmac h256 key_m (magic @ ev_eph_pub_key ev @ ev_ciphertext ev)
          \<and> msg = decrypt_f key_e iv (ev_ciphertext ev)))"
proof -
  obtain armor where "ecies_encrypt rnd msg (Key_Point (aff_of (ec_times ec q (gen ec)))) encrypt_f eph magic ec h512 h256 = Inr armor"
    "ecies_decrypt (rnd' 0) armor q decrypt_f magic ec h512 h256 = Inr msg"
    by (rule encrypt_decrypt [OF assms])
  then show ?thesis using decrypt_authentic by metis
qed

theorem ecies_decrypts_what_it_encrypts_witness:
  "\<exists>armor. ecies_encrypt (\<lambda>_. 1) [1, 2, 3] (Key_Point (4, 16)) pad_blocks 5 MAGIC ec32 (linear_hash 64) (linear_hash 32) = Inr armor
    \<and> ecies_decrypt 1 armor 1 strip_blocks MAGIC ec32 (linear_hash 64) (linear_hash 32) = Inr [1, 2, 3]"
proof -
  have m: "length MAGIC = 4" by (simp add: MAGIC_def ascii_def)
  have G: "ec_times ec32 1 (Pt 4 16) = Pt 4 16" using times_one [OF member_generator [OF ec32_valid]] unfolding ec32_gen .
  have A: "aff_of (ec_times ec32 1 (gen ec32)) = (4, 16)" unfolding ec32_gen G by simp
  show ?thesis
    using ecies_decrypts_what_it_encrypts [OF ec32_ecies pad_blocks_ok m ec32_draws ec32_draws, of 1 5 "[1, 2, 3]" "[]"] unfolding A by simp
qed

end
