(* ===== verification/Curve_Points.thy ===== *)
theory Curve_Points
  imports Scheme_Algebra
begin

text \<open>
  Model of \<^verbatim>\<open>src/btclib_ecc/curves/curve_group_f.py\<close>: the enumeration of the points of a small curve and of the
  multiples of one point. The first lists, after infinity, exactly the points of the curve; the second, whose loop
  may not end, lists the multiples of the generator up to the order.
\<close>

definition points_at :: "('z) curve_group_scheme \<Rightarrow> int \<Rightarrow> apoint list result" where
  "points_at ec x =
     (case y_var ec x of
        Inl (BTClibEccValueError _) \<Rightarrow> Inr []
      | Inl e \<Rightarrow> Inl e
      | Inr y \<Rightarrow> Inr (if y \<noteq> 0 then [(x, y), (x, ec_p ec - y)] else [(x, y)]))"

definition find_all_points :: "('z) curve_group_scheme \<Rightarrow> apoint list result" where
  "find_all_points ec =
     (if ec_p ec > 10000 then Inl (BTClibEccValueError ''p is too big to count all group points'')
      else rbind (rmap (points_at ec) [0..ec_p ec - 1]) (\<lambda>found. Inr (INF_aff # concat found)))"

text \<open>The list of the code, last point first.\<close>

partial_function (option) subgroup_walk :: "curve \<Rightarrow> apoint \<Rightarrow> apoint list \<Rightarrow> apoint list result option" where
  "subgroup_walk ec G points =
     (if hd points = INF_aff then Some (Inr (rev points))
      else case add_var ec (hd points) G of
        Inl e \<Rightarrow> Some (Inl e)
      | Inr Q \<Rightarrow> subgroup_walk ec G (Q # points))"

definition find_subgroup_points :: "curve \<Rightarrow> apoint \<Rightarrow> apoint list result option" where
  "find_subgroup_points ec G =
     (if ec_p ec > 10000 then Some (Inl (BTClibEccValueError ''p is too big to count all subgroup points''))
      else subgroup_walk ec G [G])"

section \<open>All the points\<close>

lemma points_at_set:
  assumes ok: "curve_ok ec" and "ec_p ec mod 4 = 3"
  shows "\<exists>ps. points_at ec x = Inr ps \<and> distinct ps \<and> fst ` set ps \<subseteq> {x}
    \<and> (\<forall>y. (x, y) \<in> set ps \<longleftrightarrow> ec_on ec (Pt x y))"
proof (cases "y_var ec x")
  case (Inl e)
  then have "points_at ec x = Inr []" by (auto simp: points_at_def y_var_def split: if_splits sum.splits)
  moreover have "\<not> ec_on ec (Pt x y)" for y using y_var_complete [OF assms, of x y] Inl by auto
  ultimately show ?thesis by simp
next
  case (Inr r)
  note on = y_var_sound [OF Inr ok] and p = curve_ok_p [OF ok]
  have r: "0 \<le> r" "r < ec_p ec" using on by auto
  have odd: "odd (ec_p ec)" using prime_odd p by blast
  have m: "(- r) mod ec_p ec = (if r = 0 then 0 else ec_p ec - r)" if "0 \<le> r" "r < ec_p ec" for r
    using that by (simp add: zmod_zminus1_eq_if)
  have neg: "ec_on ec (Pt x ((- r) mod ec_p ec))" using ec_neg_closed [OF p(3) on] by simp
  have iff: "ec_on ec (Pt x y) \<longleftrightarrow> y = r \<or> y = (- r) mod ec_p ec" for y
  proof
    assume y: "ec_on ec (Pt x y)"
    then have "r = y \<or> r = (- y) mod ec_p ec" using y_var_complete [OF assms y] Inr by simp
    moreover have "0 \<le> y" "y < ec_p ec" using y by auto
    ultimately show "y = r \<or> y = (- r) mod ec_p ec" using m [of y] m [of r] r by (auto split: if_splits)
  qed (use on neg in blast)
  have "r \<noteq> ec_p ec - r" using odd by (metis add_diff_cancel_right' diff_add_cancel dvd_triv_left mult_2)
  then show ?thesis unfolding iff using Inr m [OF r] by (auto simp: points_at_def)
qed

lemma find_all_points_exact:
  assumes "curve_ok ec" "ec_p ec mod 4 = 3" "ec_p ec \<le> 10000"
  shows "\<exists>ps. find_all_points ec = Inr (INF_aff # ps) \<and> distinct ps \<and> set ps = {(x, y). ec_on ec (Pt x y)}"
proof -
  obtain f where f: "points_at ec x = Inr (f x)" "distinct (f x)" "fst ` set (f x) \<subseteq> {x}"
    "\<And>y. (x, y) \<in> set (f x) \<longleftrightarrow> ec_on ec (Pt x y)" for x
    using points_at_set [OF assms(1,2)] by metis
  have apart: "fst z = x" if "z \<in> set (f x)" for z x using f(3) [of x] that by blast
  have "distinct (concat (map f xs))" if "distinct xs" for xs
    using that
  proof (induction xs)
    case (Cons a xs)
    have "set (f a) \<inter> (\<Union>x \<in> set xs. set (f x)) = {}"
    proof (rule equals0I)
      fix z assume "z \<in> set (f a) \<inter> (\<Union>x \<in> set xs. set (f x))"
      then obtain x where "x \<in> set xs" "z \<in> set (f x)" "z \<in> set (f a)" by blast
      then show False using apart [of z x] apart [of z a] Cons.prems by simp
    qed
    then show ?case using Cons f(2) by simp
  qed simp
  then have d: "distinct (concat (map f [0..ec_p ec - 1]))" by simp
  have range: "0 \<le> x \<and> x < ec_p ec" if "ec_on ec (Pt x y)" for x y using that by simp
  have s: "set (concat (map f [0..ec_p ec - 1])) = {(x, y). ec_on ec (Pt x y)}"
  proof (rule set_eqI)
    fix z :: apoint
    obtain x y where z: "z = (x, y)" by force
    have "z \<in> set (concat (map f [0..ec_p ec - 1])) \<longleftrightarrow> (\<exists>w. 0 \<le> w \<and> w \<le> ec_p ec - 1 \<and> z \<in> set (f w))"
      by auto
    also have "\<dots> \<longleftrightarrow> 0 \<le> x \<and> x \<le> ec_p ec - 1 \<and> (x, y) \<in> set (f x)"
      using apart [of "(x, y)"] unfolding z by auto
    also have "\<dots> \<longleftrightarrow> ec_on ec (Pt x y)" unfolding f(4) using range [of x y] by linarith
    finally show "z \<in> set (concat (map f [0..ec_p ec - 1])) \<longleftrightarrow> z \<in> {(x, y). ec_on ec (Pt x y)}" by (simp add: z)
  qed
  show ?thesis using d s rmap_Inr [of "[0..ec_p ec - 1]" "points_at ec" f] f(1) assms(3)
    by (simp add: find_all_points_def)
qed

section \<open>The multiples of the generator\<close>

lemma add_var_members:
  assumes "member ec P" "P \<noteq> Inf" "member ec S" "S \<noteq> Inf"
  shows "add_var ec (aff_of P) (aff_of S) = Inr (aff_of (ec_plus ec P S))"
proof -
  have "arep ec (aff_of P) P" "arep ec (aff_of S) S" using arep_aff_of_member assms by blast+
  then have "add_aff_var ec (aff_of P) (aff_of S) = Inr (aff_of (ec_plus ec P S))"
    using add_aff_var_correct [OF memberD(3) [OF assms(1)], of "aff_of P" P "aff_of S" S] assms by auto
  then show ?thesis using require_member(1) assms by (simp add: add_var_def)
qed

lemma subgroup_walk_multiples:
  assumes v: "curve_valid ec"
  shows "0 < k \<Longrightarrow> k \<le> nat (cv_n ec) \<Longrightarrow>
    subgroup_walk ec (cv_G ec) (map (\<lambda>i. aff_of (ec_times ec (int i) (gen ec))) (rev [1..<Suc k]))
      = Some (Inr (map (\<lambda>i. aff_of (ec_times ec (int i) (gen ec))) [1..<Suc (nat (cv_n ec))]))"
proof (induction "nat (cv_n ec) - k" arbitrary: k)
  let ?t = "\<lambda>i. aff_of (ec_times ec (int i) (gen ec))"
  note G = member_generator [OF v]
  have GA: "aff_of (gen ec) = cv_G ec" using aff_of_unique [of "cv_G ec" "gen ec"] generator_finite [OF v] by simp
  {
    case 0
    then have k: "k = nat (cv_n ec)" "int k = cv_n ec" by simp_all
    have "ec_times ec (int k) (gen ec) = Inf"
      by (rule trans [OF times_cong [OF G, of "int k" 0]]) (simp_all add: k(2))
    then have "?t k = INF_aff" by (simp only: aff_of.simps)
    moreover have "hd (map ?t (rev [1..<Suc k])) = ?t k" using 0 by simp
    ultimately have "hd (map ?t (rev [1..<Suc k])) = INF_aff" by (simp only:)
    then show ?case by (subst subgroup_walk.simps) (simp add: k(1) rev_map)
  next
    case (Suc d)
    have k: "0 < int k" "int k < cv_n ec" using Suc by simp_all
    have fin: "ec_times ec (int k) (gen ec) \<noteq> Inf" by (rule gen_times_finite [OF v k])
    have hd: "hd (map ?t (rev [1..<Suc k])) = ?t k" using Suc by simp
    have "?t k \<noteq> INF_aff" using fin aff_of_inj [OF member_closed(3) [OF G] member_closed(4) [OF v]] by (simp only: aff_of.simps not_False_eq_True)
    moreover have "add_var ec (?t k) (cv_G ec) = Inr (?t (Suc k))"
    proof -
      have "ec_plus ec (ec_times ec (int k) (gen ec)) (gen ec) = ec_times ec (int k + 1) (gen ec)"
        using times_add [OF G, of "int k" 1] unfolding times_one [OF G] .
      moreover have "int (Suc k) = int k + 1" by simp
      ultimately show ?thesis
        using add_var_members [OF member_closed(3) [OF G] fin G generator_finite [OF v]] by (simp only: GA)
    qed
    moreover have step: "map ?t (rev [1..<Suc (Suc k)]) = ?t (Suc k) # map ?t (rev [1..<Suc k])"
      using upt_Suc [of 1 "Suc k"] by (simp only: le_numeral_extra rev_append rev.simps append.simps list.map Suc_le_eq zero_less_Suc One_nat_def if_True)
    ultimately have "subgroup_walk ec (cv_G ec) (map ?t (rev [1..<Suc k]))
        = subgroup_walk ec (cv_G ec) (map ?t (rev [1..<Suc (Suc k)]))"
      using hd step subgroup_walk.simps [of ec "cv_G ec" "map ?t (rev [1..<Suc k])"] by (simp only: if_False sum.case)
    then show ?case using Suc(1) [of "Suc k"] Suc by simp
  }
qed

lemma find_subgroup_points_generator:
  assumes v: "curve_valid ec" and "ec_p ec \<le> 10000"
  shows "find_subgroup_points ec (cv_G ec) = Some (Inr (map (\<lambda>i. aff_of (ec_times ec (int i) (gen ec))) [1..<Suc (nat (cv_n ec))]))"
proof -
  note G = member_generator [OF v]
  have "aff_of (gen ec) = cv_G ec" using aff_of_unique [of "cv_G ec" "gen ec"] generator_finite [OF v] by simp
  moreover have "1 \<le> nat (cv_n ec)" using memberD(5) [OF G] by linarith
  ultimately show ?thesis using subgroup_walk_multiples [OF v, of 1] assms(2) times_one [OF G]
    by (simp add: find_subgroup_points_def)
qed

text \<open>
  The walk stops at one spelling of infinity only: from another one, which the check of the curve accepts, it goes on
  for ever.
\<close>

lemma subgroup_walk_moves:
  assumes "subgroup_walk ec G points = Some r"
  shows "add_var ec G G = Inr G \<longrightarrow> G \<noteq> INF_aff \<longrightarrow> hd points \<noteq> G"
  using assms
proof (induction rule: subgroup_walk.raw_induct [rotated, consumes 1])
  case (1 walk ec G points r)
  show ?case
  proof (intro impI notI)
    assume a: "add_var ec G G = Inr G" "G \<noteq> INF_aff" "hd points = G"
    then have "walk ec G (G # points) = Some r" using 1(2) by simp
    from 1(1) [OF this] show False using a by simp
  qed
qed

lemma find_subgroup_points_infinity:
  assumes "require_on_curve ec G = Inr ()" "snd G = 0" "G \<noteq> INF_aff" "ec_p ec \<le> 10000"
  shows "find_subgroup_points ec G = None"
proof -
  have "add_aff_var ec G G = Inr G" using assms(2) by (cases G) (simp add: add_aff_var_def)
  then have "add_var ec G G = Inr G" using assms(1) by (simp add: add_var_def)
  then have "subgroup_walk ec G [G] \<noteq> Some r" for r using subgroup_walk_moves [of ec G "[G]" r] assms(3) by auto
  then show ?thesis using assms(4) by (auto simp: find_subgroup_points_def)
qed

end
