(* ===== verification/Spec2Isabelle.thy ===== *)
theory Spec2Isabelle
  imports Scheme_Properties Privacy_Properties Cosigning_Properties Threshold_Properties Rangeproof_Properties Rfc6979_Correct Ellswift_Properties Ecies_Properties Curve_Points Test_Curve Prime_Test Mult_Variants_Correct
begin

text \<open>
  A verification development for \<^verbatim>\<open>btclib_ecc\<close>, the elliptic curve package under \<^verbatim>\<open>src/btclib_ecc\<close>: the curve
  arithmetic, the signature schemes ECDSA (\<^verbatim>\<open>ecc/dsa.py\<close>) and BIP 340 (\<^verbatim>\<open>ecc/ssa.py\<close>), and the protocols built on
  them. What is modelled is the Python that runs without the optional bindings to \<^verbatim>\<open>libsecp256k1\<close>.

  \<^bold>\<open>The parts of the program and the theories that model them.\<close> A definition has the name of the function it models,
  with a prefix where two files use one name (\<^verbatim>\<open>dsa_\<close>, \<^verbatim>\<open>ssa_\<close>, \<^verbatim>\<open>musig_\<close>, \<^verbatim>\<open>frost_\<close>, \<^verbatim>\<open>rp_\<close>); a record is the class whose fields
  it has.

  \<^item> \<^verbatim>\<open>number_theory.py\<close>: \<open>Number_Theory\<close> (inverses, blinded and batched), \<open>Jacobi\<close>, \<open>Square_Roots\<close>, \<open>Prime_Test\<close>. Compared
    with \<open>Prime_Field\<close> and \<open>Reciprocity\<close>, which are mathematics.
  \<^item> \<^verbatim>\<open>curves/curve_group.py\<close>: \<open>Curve_Group\<close> (record \<open>curve_group\<close>, affine and Jacobian operations), \<open>Recoding\<close> (digits and
    wNAF), \<open>Scalar_Mult\<close>, \<open>Multi_Mult\<close>; \<^verbatim>\<open>curves/curve_group_2.py\<close>: \<open>Mult_Variants\<close>; \<^verbatim>\<open>curves/curve_group_f.py\<close>: \<open>Curve_Points\<close>.
  \<^item> \<^verbatim>\<open>curves/curve.py\<close>: \<open>Curve\<close> (record \<open>curve\<close>, constructor, public multiplications and sums); \<^verbatim>\<open>curves/sec_point.py\<close>:
    \<open>Sec_Point\<close> (SEC 1 encodings, the conversions of keys).
  \<^item> \<^verbatim>\<open>_utils.py\<close>: \<open>Octets\<close> and \<open>Streams\<close>; \<^verbatim>\<open>hashes.py\<close>, \<^verbatim>\<open>kdf.py\<close>: \<open>Hashes\<close>; \<^verbatim>\<open>exceptions.py\<close>, \<^verbatim>\<open>alias.py\<close>: \<open>Prelude\<close>, \<open>Curve_Group\<close>.
  \<^item> \<^verbatim>\<open>ecc/rfc6979_nonce.py\<close>, \<^verbatim>\<open>bip340_nonce.py\<close>, \<^verbatim>\<open>commit_nonce.py\<close>: \<open>Nonces\<close>, against RFC 6979 in \<open>Rfc6979_Correct\<close>.
  \<^item> \<^verbatim>\<open>ecc/dsa.py\<close>: \<open>Dsa\<close>, with \<open>Dsa_Correct\<close>, \<open>Dsa_Der\<close>, \<open>Dsa_Message\<close>; \<^verbatim>\<open>ecc/ssa.py\<close>: \<open>Ssa\<close>, with \<open>Ssa_Correct\<close>, \<open>Ssa_Batch\<close>;
    \<^verbatim>\<open>ecc/dh.py\<close>, \<^verbatim>\<open>ecc/dleq.py\<close>: \<open>Dh_Dleq\<close>.
  \<^item> \<^verbatim>\<open>ecc/pedersen.py\<close>: \<open>Pedersen\<close>; \<^verbatim>\<open>ecc/borromean.py\<close>: \<open>Borromean\<close>; \<^verbatim>\<open>ecc/rangeproof.py\<close>: \<open>Rangeproof\<close>, with
    \<open>Rangeproof_Params\<close>, \<open>Rangeproof_Correct\<close>, \<open>Rangeproof_Rewind\<close>, \<open>Rangeproof_Serial\<close>, \<open>Rangeproof_Valid\<close>.
  \<^item> \<^verbatim>\<open>ecc/musig2.py\<close>, \<^verbatim>\<open>ecc/frost.py\<close>: \<open>Cosigning\<close> for what both files have, each with a copy of its own, \<open>Musig2\<close>, \<open>Frost\<close>.
  \<^item> \<^verbatim>\<open>ecc/ellswift.py\<close>: \<open>Ellswift\<close>; \<^verbatim>\<open>ecc/ecies.py\<close>: \<open>Ecies\<close>.

  A theory \<^verbatim>\<open>X_Correct\<close> holds the lemmas of the component \<^verbatim>\<open>X\<close>, \<^verbatim>\<open>X_Properties\<close> the main theorems that end there; those of the
  number theory, the curve, the encodings and ECDSA are in this theory. \<^verbatim>\<open>Test_\<close> theories hold the small curves of the
  repository's tests, on which the examples after the theorems are evaluated.

  \<^bold>\<open>How state and effects are represented.\<close> A call that may raise has type \<open>'a result\<close>: \<open>Inl\<close> the exception, with its
  message up to the formatted tail, or \<open>Inr\<close> the value. A call whose loop may not end has type \<open>'a run\<close>, and \<open>None\<close> is the
  loop that goes on for ever: the rejection loops of the nonces, of the grinding, of the second generator and of the
  ElligatorSwift encoder, all by \<open>first_accepted\<close> or another \<^theory_text>\<open>partial_function\<close>, never by fuel. Every other loop is a
  total function. Integers are unbounded as in Python, \<open>bytes\<close> are lists of 8-bit words. A random draw is an argument, a
  sequence where there are several, and theorems quantify over it within the bounds the code draws from (\<open>draws\<close>). A
  buffer that is wiped, the secret nonce or the signer, is a value returned beside the outcome. A stream is the octets left,
  returned with what was read.

  \<^bold>\<open>The layers of the proofs.\<close> \<open>Group_Law\<close> proves that the points of a curve with a constructor for infinity are a group,
  associativity included. \<open>Point_Group\<close> states that interface as the locale \<open>point_group\<close>, extended by \<open>order_group\<close> for
  points that a number annihilates; multiples and linear combinations are proved there once. \<open>Odd_Order\<close> interprets both
  on the curve, and adds \<open>mult_rep\<close> and \<open>mult_table\<close>, the contract of a representation that is added, doubled and negated,
  which the Jacobian triples of the code meet (\<open>mj\<close>, \<open>mo\<close>) and on which every multiplication is proved. \<open>Single_Use\<close> is
  the contract of a secret used once, met by the signing of MuSig2 and of FROST (\<open>musig_nonce\<close>, \<open>frost_nonce\<close>).

  \<^item> \<open>jrep\<close>, \<open>arep\<close>: a Jacobian or affine value of the code represents a point. \<open>curve_ok\<close>, \<open>curve_valid\<close>: the invariants of the
    two classes. \<open>member\<close>: a point of the subgroup.
  \<^item> Curve: each operation refines the group operation on all arguments, each of the recodings and multiplications
    returns the multiple, the linear combinations agree, the constructor establishes the invariant.
  \<^item> Encodings: round trips, and that only canonical octets are decoded (SEC 1, strict DER, range proofs, the armor).
  \<^item> Signatures: verification decides a relation between points stated with no algorithm; what is signed verifies, for
    each way of choosing the nonce; recovery, batches, what a nonce used twice gives away.
  \<^item> Commitments, rings and range proofs: exact openings, binding, completeness, rewinding.
  \<^item> Co-signing: partial signatures verify, what passes adds up to a BIP 340 signature of the tweaked key, adaptors, every
    quorum derives one key, at most one signature for a nonce.
  \<^item> Key exchange, encryption, point encoding: both sides agree, decryption inverts encryption and accepts only what
    carries the right code, the ElligatorSwift map and its inverse are exact.

  \<^bold>\<open>Hypotheses that recur.\<close> \<open>hash_ok\<close>: a hash function, which is an argument, has digests of its size. \<open>sized\<close>: the field prime
  fits in the octets of an abscissa, as \<^verbatim>\<open>p_size\<close> is computed. \<open>p mod 4 = 3\<close> where a root of every square must be
  found: the case of secp256k1. \<open>endo_law\<close>: on secp256k1 the map \<open>(x, y) \<mapsto> (\<beta> x, y)\<close> is the multiplication by \<open>\<lambda>\<close>, a
  published fact about that curve; it says nothing on other curves. \<open>cosign_curve\<close>: what secp256k1 is to the co-signing
  protocols and the range proofs: sizes of 32 octets and cofactor one. \<open>ell_curve\<close>: a curve with \<open>a = 0\<close> for which the constants of the map exist and no
  point has order two. \<open>cipher_ok\<close>: the contract \<^verbatim>\<open>ecies.py\<close> states for the cipher it is given, whole blocks, longer than
  the message, inverted by decryption. Primality of the field and of the order is a hypothesis
  of the theorem on the constructor; what its test, which can be declined, does is in \<open>Prime_Test\<close>.

  \<^bold>\<open>What is not modelled.\<close> The delegation to the bindings and their loading (\<^verbatim>\<open>_libsecp256k1.py\<close>: third-party code); the
  catalogue of named curves, read from JSON; caches of constants, tables and session values, which do not change what is
  returned; type checks, which the types of the model make; the hexadecimal spelling of octets arguments where the
  function takes both; printing, hashing and copying of objects; timing and the erasure of memory beyond the value that is
  left in a buffer; the files that only export names. A signature or proof given as octets is the parser followed by the
  function.
\<close>

section \<open>Number theory\<close>

text \<open>
  The blinded inversion returns what the plain one returns, whatever the random factor, errors
  included; and the batch inversion by one shared inversion, blinded or not, returns what inverting
  the elements one by one returns, errors included.
\<close>

theorem mod_inv_blinding_transparent:
  assumes "length rnds = length xs"
  shows "mod_inv rnd a m = mod_inv_var a m
    \<and> mod_inv_batch rnds rnds' xs m = mod_inv_batch_var xs m
    \<and> mod_inv_batch_var xs m =
        (if xs = [] then rbind (assert_valid_modulus m) (\<lambda>_. Inr []) else rmap (\<lambda>x. mod_inv_var x m) xs)"
  using mod_inv_eq_mod_inv_var mod_inv_batch_eq [OF assms] mod_inv_batch_var_eq by blast

theorem mod_inv_blinding_transparent_witness:
  "mod_inv 3 5 13 = mod_inv_var 5 13
    \<and> mod_inv_batch [2, 7] (\<lambda>_. 4) [5, 6] 13 = mod_inv_batch_var [5, 6] 13
    \<and> mod_inv_batch_var [5, 6] 13 =
        (if [5, 6 :: int] = [] then rbind (assert_valid_modulus 13) (\<lambda>_. Inr []) else rmap (\<lambda>x. mod_inv_var x 13) [5, 6])"
  by (rule mod_inv_blinding_transparent) simp

text \<open>
  Inversion succeeds exactly on the residues that have an inverse, and returns the reduced one.
\<close>

theorem mod_inv_exact:
  assumes "0 < m"
  shows "mod_inv_var a m = Inr x \<longleftrightarrow> 0 \<le> x \<and> x < m \<and> m dvd (a * x - 1)"
  by (rule mod_inv_var_Inr_iff [OF assms])

theorem mod_inv_exact_witness:
  "mod_inv_var 5 13 = Inr 8 \<longleftrightarrow> 0 \<le> (8 :: int) \<and> (8 :: int) < 13 \<and> (13 :: int) dvd (5 * 8 - 1)"
  by (rule mod_inv_exact) simp

text \<open>A square root that is returned is one, reduced, for every modulus and every input.\<close>

theorem mod_sqrt_is_root:
  assumes "mod_sqrt_var a p = Inr r"
  shows "r * r mod p = a mod p \<and> 0 \<le> r \<and> r < p"
  by (rule mod_sqrt_var_sound [OF assms])

theorem mod_sqrt_is_root_witness: "(7 :: int) * 7 mod 13 = 10 mod 13 \<and> 0 \<le> (7 :: int) \<and> (7 :: int) < 13"
  by (rule mod_sqrt_is_root) code_simp

text \<open>
  The Legendre symbol, computed by the reciprocity law, is zero exactly on the multiples of a factor
  of the modulus, a sign otherwise, and the value of the Jacobi symbol of the primality test.
\<close>

theorem legendre_symbol_values:
  assumes "odd p" "0 < p"
  shows "\<exists>s. legendre_symbol_var a p = Inr s \<and> s = jacobi a p \<and> s \<in> {-1, 0, 1} \<and> (s = 0 \<longleftrightarrow> gcd a p \<noteq> 1)"
proof -
  have "legendre_symbol_var a p = Inr (legendre_loop (a mod p) p 1)"
    using assms(2) by (simp add: legendre_symbol_var_def assert_valid_modulus_def)
  moreover have "gcd (a mod p) p = gcd a p" by (metis gcd.commute gcd_red_int)
  ultimately show ?thesis
    using legendre_loop_values [OF assms, of "a mod p" 1] assms
    by (auto simp: jacobi_def legendre_loop_eq_jacobi_loop)
qed

theorem legendre_symbol_values_witness:
  "\<exists>s. legendre_symbol_var 5 13 = Inr s \<and> s = jacobi 5 13 \<and> s \<in> {-1, 0, 1} \<and> (s = 0 \<longleftrightarrow> gcd 5 13 \<noteq> (1 :: int))"
  by (rule legendre_symbol_values) simp_all

text \<open>
  On an odd prime the Legendre symbol satisfies Euler's criterion; it is one on every square, and
  where the prime is three modulo four on nothing else.
\<close>

theorem legendre_decides_squares:
  assumes "prime_int p" "odd p" "\<not> p dvd a"
  shows "\<exists>s. legendre_symbol_var a p = Inr s \<and> (s = 1 \<or> s = - 1) \<and> p dvd (a ^ nat ((p - 1) div 2) - s)
    \<and> ((\<exists>x. p dvd (x * x - a)) \<longrightarrow> s = 1) \<and> (p mod 4 = 3 \<and> s = 1 \<longrightarrow> (\<exists>x. p dvd (x * x - a)))"
proof -
  note c = prime_int_coprime [OF assms(1,3)] and p = prime_int_gt_1 [OF assms(1)]
  have v: "legendre_symbol_var a p = Inr (gauss_sign a p)" using legendre_value [OF assms(2) p] c by simp
  have "p dvd (a ^ nat ((p - 1) div 2) - gauss_sign a p)"
    using euler_criterion [OF assms(1,2) c] by (simp add: halfway_def)
  moreover have "(\<exists>x. p dvd (x * x - a)) \<longrightarrow> gauss_sign a p = 1" using legendre_root [OF assms(2) p _ c] v by auto
  moreover have "p mod 4 = 3 \<and> gauss_sign a p = 1 \<longrightarrow> (\<exists>x. p dvd (x * x - a))"
    using legendre_square_iff [OF assms(1) _ c] v by auto
  ultimately show ?thesis using v gauss_sign_values by blast
qed

theorem legendre_decides_squares_witness:
  "\<exists>s. legendre_symbol_var 5 19 = Inr s \<and> (19 :: int) dvd (5 ^ 9 - s)"
  using legendre_decides_squares [OF prime_19, of 5] by auto

text \<open>
  What the primality test accepts is odd, has no proper factor up to forty, and is a prime when below
  1681; every odd prime passes its strong test to base two.
\<close>

theorem primality_test_guarantees:
  "(is_prime x \<longrightarrow> odd x \<and> (\<forall>d. 1 < d \<and> d dvd x \<and> d \<noteq> x \<longrightarrow> 40 < d) \<and> (x < 1681 \<longrightarrow> prime_int x))
    \<and> (prime_int x \<and> x \<noteq> 2 \<longrightarrow> is_strong_probable_prime_base_2 x)"
  using is_prime_odd is_prime_factor is_prime_exact prime_passes_base_2 [of x] prime_int_gt_1 [of x] by fastforce

theorem primality_test_guarantees_witness:
  "is_prime 11 \<and> is_prime 43 \<and> prime_int 43 \<and> is_strong_probable_prime_base_2 43"
proof -
  have "is_prime 11" "is_prime 43" by code_simp+
  then show ?thesis using primality_test_guarantees [of 43] by simp
qed

section \<open>Recodings of a scalar\<close>

text \<open>
  The width-\<open>w\<close> non-adjacent form of a scalar sums up to the scalar, and its digits are zero or odd
  and within the table of the width.
\<close>

theorem wNAF_recodes:
  assumes "0 \<le> m" "1 \<le> w"
  shows "le_value 2 (wNAF_of_m_var m w) = m
    \<and> (\<forall>d\<in>set (wNAF_of_m_var m w). d = 0 \<or> d mod 2 = 1 \<and> \<bar>d\<bar> \<le> 2 ^ nat (w - 1) \<and> (2 \<le> w \<longrightarrow> \<bar>d\<bar> < 2 ^ nat (w - 1)))"
  using wNAF_correct [OF assms] by blast

theorem wNAF_recodes_witness:
  "le_value 2 (wNAF_of_m_var 29 3) = 29 \<and> list_all (\<lambda>d. d = 0 \<or> odd d) (wNAF_of_m_var 29 3)"
  using wNAF_recodes [of 29 3] by (auto simp: list_all_iff)

text \<open>
  The regular recoding of an odd scalar has the requested number of digits, every one odd and within
  the table, the last one positive, and they sum up to the scalar.
\<close>

theorem signed_odd_digits_recode:
  assumes "0 < m" "odd m" "1 \<le> w" "1 \<le> sz" "m < 2 ^ nat (w * sz)"
  shows "\<exists>ds. signed_odd_digits m w sz = Inr ds \<and> le_value (2 ^ nat w) ds = m
    \<and> (\<forall>d\<in>set ds. odd d \<and> \<bar>d\<bar> < 2 ^ nat w) \<and> length ds = nat sz \<and> 0 < last ds"
  using signed_odd_digits_correct [OF assms] by (auto simp: returns_def)

theorem signed_odd_digits_recode_witness:
  "\<exists>ds. signed_odd_digits 21 2 4 = Inr ds \<and> le_value 4 ds = 21 \<and> list_all (\<lambda>d. odd d \<and> \<bar>d\<bar> < 4) ds \<and> length ds = 4"
  using signed_odd_digits_recode [of 21 2 4] by (auto simp: list_all_iff)

section \<open>Arithmetic of the points\<close>

text \<open>
  C4: The complete Jacobian addition is the addition of the group on every pair of points: equal points,
  opposite points and infinity included, the choice among the three formulas being made on the data.
\<close>

theorem add_jac_refines_group_law:
  assumes "curve_ok ec" "jrep ec Q P" "jrep ec R S"
  shows "jrep ec (add_jac ec Q R) (ec_plus ec P S) \<and> jrep ec (double_jac ec Q) (ec_plus ec P P)
    \<and> jrep ec (negate_jac ec Q) (ec_minus ec P)"
  using jrep_add_jac [OF assms] jrep_double_jac [OF assms(1,2)] jrep_negate_jac [OF assms(1,2)] by blast

theorem add_jac_refines_group_law_witness:
  "jrep ec13 (add_jac ec13 (1, 1, 1) (1, 1, 1)) (ec_plus ec13 (Pt 1 1) (Pt 1 1))
    \<and> jrep ec13 (double_jac ec13 (1, 1, 1)) (ec_plus ec13 (Pt 1 1) (Pt 1 1))
    \<and> jrep ec13 (negate_jac ec13 (1, 1, 1)) (ec_minus ec13 (Pt 1 1))"
  by (rule add_jac_refines_group_law [OF ec13_ok ec13_G(2,2)])

text \<open>
  The mixed addition, whose second point is affine, is the addition of the group, also where the
  affine point is the pair that stands for infinity.
\<close>

theorem add_jac_aff_refines_group_law:
  assumes "curve_ok ec" "jrep ec Q P" "arep ec R S"
  shows "jrep ec (add_jac_aff ec Q R) (ec_plus ec P S)"
  by (rule jrep_add_jac_aff [OF assms])

theorem add_jac_aff_refines_group_law_witness:
  "jrep ec13 (add_jac_aff ec13 (1, 1, 1) (1, 1)) (ec_plus ec13 (Pt 1 1) (Pt 1 1))"
  by (rule add_jac_aff_refines_group_law [OF ec13_ok ec13_G(2,3)])

text \<open>
  The affine addition never fails on points of the curve, and returns their sum wherever that is not a
  point on the x-axis, which the affine encoding cannot tell from infinity.
\<close>

theorem add_aff_refines_group_law:
  assumes "curve_ok ec" "arep ec Q P" "arep ec R S" "off_axis (ec_plus ec P S)"
  shows "\<exists>A. add_aff_var ec Q R = Inr A \<and> arep ec A (ec_plus ec P S)"
  by (rule arep_add_aff_var [OF assms])

theorem add_aff_refines_group_law_witness:
  "\<exists>A. add_aff_var ec13 (1, 1) (1, 1) = Inr A \<and> arep ec13 A (ec_plus ec13 (Pt 1 1) (Pt 1 1))"
proof -
  have "ec_plus ec13 (Pt 1 1) (Pt 1 1) = Pt 10 6" by code_simp
  then show ?thesis
    using add_aff_refines_group_law [OF ec13_ok ec13_G(3,3)] by (simp add: off_axis_def)
qed

text \<open>
  The conversion of a batch of Jacobian points to affine by one inversion returns, point by point, the
  affine coordinates of the points, and so does the conversion of a single one; blinding the Jacobian
  coordinates with any factor does not change the point.
\<close>

theorem affine_conversions_exact:
  assumes "curve_ok ec" "list_all2 (jrep ec) Qs Ps" "jrep ec Q P" "0 \<le> rnd" "rnd < ec_p ec - 1"
  shows "aff_from_jac_batch_var ec Qs = Inr (map aff_of Ps)
    \<and> aff_from_jac_var ec Q = Inr (aff_of P) \<and> aff_from_jac_var ec (blinded_jac rnd Q ec) = Inr (aff_of P)"
  using aff_from_jac_batch_var_correct [OF assms(1,2)] aff_from_jac_var_correct [OF assms(1)]
    jrep_blinded_jac [OF assms(1,3-5)] assms(3) by blast

theorem affine_conversions_exact_witness:
  "aff_from_jac_batch_var ec13 [(4, 8, 2), (7, 0, 0)] = Inr (map aff_of [Pt 1 1, Inf])
    \<and> aff_from_jac_var ec13 (4, 8, 2) = Inr (aff_of (Pt 1 1))
    \<and> aff_from_jac_var ec13 (blinded_jac 3 (4, 8, 2) ec13) = Inr (aff_of (Pt 1 1))"
  by (rule affine_conversions_exact [OF ec13_ok]) simp_all

text \<open>
  A y-coordinate that is found for an x-coordinate makes a point of the curve; the even one is even;
  and where the field prime is three modulo four one is found for every point of the curve.
\<close>

theorem y_coordinates_sound_and_complete:
  assumes "curve_ok ec"
  shows "(\<forall>y. y_var ec x = Inr y \<longrightarrow> ec_on ec (Pt x y))
    \<and> (\<forall>y. y_even_var ec x = Inr y \<and> y \<noteq> ec_p ec \<longrightarrow> ec_on ec (Pt x y) \<and> even y)
    \<and> (\<forall>y. ec_p ec mod 4 = 3 \<and> ec_on ec (Pt x y) \<longrightarrow> (\<exists>r. y_var ec x = Inr r \<and> (r = y \<or> r = (- y) mod ec_p ec)))"
  using y_var_sound [OF _ assms] y_even_var_sound [OF _ assms] y_var_complete [OF assms] by blast

theorem y_coordinates_sound_and_complete_witness:
  "y_var ec13 1 = Inr 1 \<and> ec_on ec13 (Pt 1 1)"
proof -
  have "y_var ec13 1 = Inr 1" by code_simp
  then show ?thesis using y_coordinates_sound_and_complete [OF ec13_ok, of 1] by blast
qed

section \<open>Multiplication by a scalar\<close>

text \<open>
  On a valid curve whose field prime is three modulo four, the check of an x-coordinate is decided on
  every integer, and passes exactly on the reduced ones of a point of the curve.
\<close>

theorem x_coordinate_check_exact:
  assumes "curve_valid ec" "ec_p ec mod 4 = 3"
  shows "is_x_coordinate_var x ec = Inr (0 \<le> x \<and> x < ec_p ec \<and> (\<exists>y. y * y mod ec_p ec = ec_y2 ec x))"
  using x_coordinate_decided [OF assms(1), of x] x_coordinate_iff [OF assms, of x] by auto

theorem x_coordinate_check_exact_witness:
  "is_x_coordinate_var 8 ec19 = Inr (0 \<le> (8 :: int) \<and> (8 :: int) < ec_p ec19 \<and> (\<exists>y. y * y mod ec_p ec19 = ec_y2 ec19 8))"
  by (rule x_coordinate_check_exact [OF ec19_valid]) simp

text \<open>
  C1: The regular window, the multiplication of every curve but secp256k1, returns a representative of
  the \<open>m\<close>-th multiple of the point, for every width and every non-negative scalar, zero and even
  scalars included, when the point has odd order.
\<close>

theorem regular_window_multiplies:
  assumes "in_order ec n P" "jrep ec Q P" "0 \<le> m" "1 \<le> w"
  shows "\<exists>R. mult_regular_window m Q ec w = Inr R \<and> jrep ec R (ec_times ec m P)"
  by (rule returns_ord [OF assms(1) mult_regular_window_rel [OF in_order_ok [OF assms(1)] assms(2-4)]])

theorem regular_window_multiplies_witness:
  "\<exists>R. mult_regular_window 6 (1, 1, 1) ec13 4 = Inr R \<and> jrep ec13 R (ec_times ec13 6 (Pt 1 1))"
  by (rule regular_window_multiplies [OF ec13_order ec13_G(2)]) simp_all

text \<open>
  C2: The fixed-base multiplication, which adds one entry of each precomputed table and blinds the
  accumulator, returns the multiple, whatever the random factor of the blinding is.
\<close>

theorem fixed_base_multiplies:
  assumes "in_order ec n P" "jrep ec Q P" "0 \<le> m" "m < 2 ^ ec_scalar_len ec" "1 \<le> w"
    and "0 \<le> rnd" "rnd < ec_p ec - 1"
  shows "\<exists>R. mult_fixed_base rnd m Q ec w = Inr R \<and> jrep ec R (ec_times ec m P)"
  by (rule returns_ord [OF assms(1) mult_fixed_base_rel [OF assms]])

theorem fixed_base_multiplies_witness:
  "\<exists>R. mult_fixed_base 4 6 (1, 1, 1) ec13 3 = Inr R \<and> jrep ec13 R (ec_times ec13 6 (Pt 1 1))"
  by (rule fixed_base_multiplies [OF ec13_order ec13_G(2)]) simp_all

text \<open>
  Every other single multiplication, the double-and-add loop, the Montgomery ladder, base three, the
  fixed windows, the sliding window and the wNAF, returns a representative of the same multiple, for
  every point of the curve, also one of even order.
\<close>

theorem multiplication_variants_agree:
  assumes "curve_ok ec" "jrep ec Q P" "0 \<le> m" "1 \<le> w"
  shows "returns (mult_jac_var m Q ec) (\<lambda>R. jrep ec R (ec_times ec m P))
    \<and> returns (mult_mont_ladder_var m Q ec) (\<lambda>R. jrep ec R (ec_times ec m P))
    \<and> returns (mult_base_3_var m Q ec) (\<lambda>R. jrep ec R (ec_times ec m P))
    \<and> returns (mult_fixed_window_var m Q ec w False) (\<lambda>R. jrep ec R (ec_times ec m P))
    \<and> returns (mult_sliding_window_var m Q ec w) (\<lambda>R. jrep ec R (ec_times ec m P))
    \<and> returns (mult_w_NAF_var m Q ec w) (\<lambda>R. jrep ec R (ec_times ec m P))"
proof -
  note r = returns_mono [OF _ mul_relD [OF assms(1) jrep_on [OF assms(2)]]]
  show ?thesis
    using r [OF mult_jac_var_rel [OF assms(2,3)]] r [OF mult_mont_ladder_var_rel [OF assms(2,3)]]
      r [OF mult_base_3_var_rel [OF assms(2,3)]] r [OF mult_fixed_window_var_rel [OF assms(2-4), of False]]
      r [OF mult_sliding_window_var_rel [OF assms(2-4)]] r [OF mult_w_NAF_var_rel [OF assms(2-4)]]
    by (simp only: simp_thms)
qed

theorem multiplication_variants_agree_witness:
  "returns (mult_jac_var 6 (1, 1, 1) ec13) (\<lambda>R. jrep ec13 R (ec_times ec13 6 (Pt 1 1)))
    \<and> returns (mult_mont_ladder_var 6 (1, 1, 1) ec13) (\<lambda>R. jrep ec13 R (ec_times ec13 6 (Pt 1 1)))
    \<and> returns (mult_base_3_var 6 (1, 1, 1) ec13) (\<lambda>R. jrep ec13 R (ec_times ec13 6 (Pt 1 1)))
    \<and> returns (mult_fixed_window_var 6 (1, 1, 1) ec13 3 False) (\<lambda>R. jrep ec13 R (ec_times ec13 6 (Pt 1 1)))
    \<and> returns (mult_sliding_window_var 6 (1, 1, 1) ec13 3) (\<lambda>R. jrep ec13 R (ec_times ec13 6 (Pt 1 1)))
    \<and> returns (mult_w_NAF_var 6 (1, 1, 1) ec13 3) (\<lambda>R. jrep ec13 R (ec_times ec13 6 (Pt 1 1)))"
  by (rule multiplication_variants_agree [OF ec13_ok ec13_G(2)]) simp_all

text \<open>
  The two double multiplications with precomputed sums or tables return \<open>u * H + v * Q\<close>: Shamir's
  on any two points, the regular windows on points of odd order.
\<close>

theorem double_multiplications_agree:
  assumes "in_order ec n H" "in_order ec n Q" "jrep ec HJ H" "jrep ec QJ Q" "0 \<le> u" "0 \<le> v" "1 \<le> w"
  shows "returns (double_mult_shamir u HJ v QJ ec) (\<lambda>R. jrep ec R (ec_plus ec (ec_times ec u H) (ec_times ec v Q)))
    \<and> returns (double_mult_regular_window u HJ v QJ ec w sl)
        (\<lambda>R. jrep ec R (ec_plus ec (ec_times ec u H) (ec_times ec v Q)))"
  using double_mult_shamir_correct [OF in_order_ok [OF assms(1)] assms(3-6)]
    double_mult_regular_window_correct [OF assms, of sl] by blast

theorem double_multiplications_agree_witness:
  "returns (double_mult_shamir 3 (1, 1, 1) 5 (1, 1, 1) ec13)
      (\<lambda>R. jrep ec13 R (ec_plus ec13 (ec_times ec13 3 (Pt 1 1)) (ec_times ec13 5 (Pt 1 1))))
    \<and> returns (double_mult_regular_window 3 (1, 1, 1) 5 (1, 1, 1) ec13 2 0)
      (\<lambda>R. jrep ec13 R (ec_plus ec13 (ec_times ec13 3 (Pt 1 1)) (ec_times ec13 5 (Pt 1 1))))"
  by (rule double_multiplications_agree [OF ec13_order ec13_order ec13_G(2,2)]) simp_all

text \<open>
  C3: The interleaved wNAF and the heap of Bos and Coster both return the linear combination of the points
  with the scalars, for any number of them from two on, zero scalars and equal points included; the
  first whatever its width and its set of points with a memoized table.
\<close>

theorem multi_multiplications_agree:
  assumes "in_order ec n P0" "length scalars = length Qs" "2 \<le> length scalars"
    and "\<forall>m\<in>set scalars. 0 \<le> m" "\<forall>Q\<in>set Qs. jgood ec n Q" "1 \<le> w"
  shows "returns (multi_mult_w_NAF_var scalars Qs ec w fixed) (\<lambda>R. jrep ec R (ec_lc ec (abs_pairs ec (zip scalars Qs))))
    \<and> returns (multi_mult_bos_coster_var scalars Qs ec) (\<lambda>R. jrep ec R (ec_lc ec (abs_pairs ec (zip scalars Qs))))"
  using multi_mult_w_NAF_var_correct [OF assms, of fixed] multi_mult_bos_coster_var_correct [OF assms(1-5)]
  by blast

theorem multi_multiplications_agree_witness:
  "returns (multi_mult_w_NAF_var [3, 0, 5] [(1, 1, 1), (1, 1, 1), (1, 1, 1)] ec13 4 {(1, 1, 1)})
      (\<lambda>R. jrep ec13 R (ec_lc ec13 (abs_pairs ec13 (zip [3, 0, 5] [(1, 1, 1), (1, 1, 1), (1, 1, 1)]))))
    \<and> returns (multi_mult_bos_coster_var [3, 0, 5] [(1, 1, 1), (1, 1, 1), (1, 1, 1)] ec13)
      (\<lambda>R. jrep ec13 R (ec_lc ec13 (abs_pairs ec13 (zip [3, 0, 5] [(1, 1, 1), (1, 1, 1), (1, 1, 1)]))))"
  by (rule multi_multiplications_agree [OF ec13_order]) (use jgoodI [OF ec13_order ec13_G(2)] in simp_all)

text \<open>
  C5: The decomposition of a scalar along the endomorphism of secp256k1 is exact modulo the order, and both
  halves are below \<open>2\<^sup>1\<^sup>2\<^sup>8\<close> in absolute value, for every scalar: the bound that sizes the windows.
\<close>

theorem decomposition_exact_and_short:
  "secp_N dvd (fst (multiplier_decomposer m) + snd (multiplier_decomposer m) * secp_LAM - m)
    \<and> \<bar>fst (multiplier_decomposer m)\<bar> < 2 ^ HALF_LEN \<and> \<bar>snd (multiplier_decomposer m)\<bar> < 2 ^ HALF_LEN"
  using multiplier_decomposer_correct [of m] unfolding HALF_LEN_def by (metis prod.collapse)

section \<open>Curves with a generator\<close>

text \<open>
  C6: A curve the constructor returns has the invariant of the class: a nonsingular curve over the prime
  field, a finite generator that the prime order annihilates, a cofactor within the bound of Hasse, and
  octet sizes that hold the field. Only the primality of the two parameters, which the code tests by a
  probable prime test, and the two checks a caller may decline are assumed.
\<close>

theorem constructor_establishes_invariant:
  assumes "init_curve trusted p a b G n h wk oc = Inr ec"
    and "prime_int p" "prime_int n" "trusted \<longrightarrow> 2 < p \<and> odd n"
    and "\<not> oc \<longrightarrow> ec_mult p a n (aff_abs G) = Inf"
  shows "curve_valid ec \<and> sized ec \<and> ec_p ec = p \<and> ec_a ec = a \<and> ec_b ec = b \<and> cv_G ec = G \<and> cv_n ec = n \<and> cv_cofactor ec = h"
  using init_curve_valid [OF assms] init_curve_sized [OF assms(1)] prime_int_pos [OF assms(2)] by blast

theorem constructor_establishes_invariant_witness: "curve_valid ec19 \<and> sized ec19 \<and> cv_n ec19 = 13"
  using constructor_establishes_invariant [OF ec19_init prime_19 prime_13] by simp

text \<open>
  C7: The public multiplication returns the affine coordinates of \<open>m * Q\<close> for every integer \<open>m\<close>, also a
  negative or unreduced one, every point of the group and every value of the blinding factors; a
  missing point means the generator.
\<close>

theorem mult_is_group_multiple:
  assumes "curve_valid ec" "require_on_curve ec Q = Inr ()" "in_order ec (cv_n ec) (aff_abs Q)"
    and "endo_ok ec (aff_abs Q)" "0 \<le> rnd" "rnd < ec_p ec - 1"
  shows "mult rnd m (Some Q) ec = Inr (aff_of (ec_times ec m (aff_abs Q)))
    \<and> mult rnd m None ec = Inr (aff_of (ec_times ec m (aff_abs (cv_G ec))))"
  using mult_correct [OF assms] mult_generator(2) [OF assms(1,5,6)] by blast

theorem mult_is_group_multiple_witness:
  "mult 7 (- 3) (Some (4, 3)) ec19 = Inr (aff_of (ec_times ec19 (- 3) (Pt 4 3)))"
proof -
  have r: "require_on_curve ec19 (4, 3) = Inr ()" by (simp add: require_on_curve_def is_on_curve_def group_is_on_curve_def ec_y2_def)
  have "ec_times ec19 12 (Pt 4 16) = Pt 4 3" by (simp, code_simp)
  then have "in_order ec19 (cv_n ec19) (Pt 4 3)" using memberD(2) [OF ec19_member [of 12]] by simp
  then show ?thesis using mult_is_group_multiple [OF ec19_valid r, of 7 "- 3"] by (simp add: aff_abs_def)
qed

text \<open>
  The double multiplication and the linear combination of any number of points, scalars of any sign,
  return the affine coordinates of the combination in the group.
\<close>

theorem combinations_exact:
  assumes "curve_valid ec" "length scalars = length points" "2 \<le> length points"
    and "\<forall>Q\<in>set points. require_on_curve ec Q = Inr () \<and> member ec (aff_abs Q) \<and> endo_ok ec (aff_abs Q)"
    and "H \<in> set points" "Q \<in> set points"
  shows "multi_mult_points_var scalars points ec = Inr (aff_of (ec_lc ec (zip scalars (map aff_abs points))))
    \<and> double_mult_var u H v Q ec = Inr (aff_of (ec_plus ec (ec_times ec u (aff_abs H)) (ec_times ec v (aff_abs Q))))"
  using multi_mult_points_correct [OF assms(1-3)] double_mult_var_correct assms(4-6) by blast

theorem combinations_exact_witness:
  "multi_mult_points_var [3, - 5] [(4, 16), (4, 16)] ec19 = Inr (aff_of (ec_lc ec19 [(3, Pt 4 16), (- 5, Pt 4 16)]))"
proof -
  have r: "require_on_curve ec19 (4, 16) = Inr ()" by (simp add: require_on_curve_def is_on_curve_def group_is_on_curve_def ec_y2_def)
  have "member ec19 (Pt 4 16)" using member_generator [OF ec19_valid] by (simp add: aff_abs_def)
  then show ?thesis
    using combinations_exact [OF ec19_valid, of "[3, - 5]" "[(4, 16), (4, 16)]" "(4, 16)" "(4, 16)"] r
    by (simp add: aff_abs_def)
qed

text \<open>
  The subgroup check accepts a point of the curve exactly when the order annihilates it, where the
  cofactor is above one; where the cofactor is one it is a no-op.
\<close>

theorem subgroup_check_exact:
  assumes "curve_valid ec" "arep ec Q P"
  shows "assert_in_subgroup Q ec = Inr () \<longleftrightarrow> cv_cofactor ec = 1 \<or> in_order ec (cv_n ec) P"
  by (rule assert_in_subgroup_iff [OF assms])

theorem subgroup_check_exact_witness:
  "assert_in_subgroup (4, 16) ec19 = Inr () \<longleftrightarrow> cv_cofactor ec19 = 1 \<or> in_order ec19 (cv_n ec19) (Pt 4 16)"
  by (rule subgroup_check_exact [OF ec19_valid]) (simp add: arep_def aff_abs_def)

section \<open>Octets and encodings\<close>

text \<open>
  Octets and integers are in bijection at every size, in big endian, and an integer that does not fit
  is refused; the text \<^verbatim>\<open>hex_string\<close> prints of an integer is read back as the integer.
\<close>

theorem integers_roundtrip:
  "(int_to_bytes x k = Inr bs \<longleftrightarrow> length bs = k \<and> int_from_bytes bs = x)
    \<and> (hex_string x = Inr s \<longrightarrow> int_from_integer (PyStr s) = Inr x)"
  using int_to_bytes_Inr_iff int_from_hex_string by blast

theorem integers_roundtrip_witness: "int_from_integer (PyStr ''01 FFFFFFFF'') = Inr 0x1FFFFFFFF"
proof -
  have "hex_string 0x1FFFFFFFF = Inr ''01 FFFFFFFF''" by code_simp
  then show ?thesis using integers_roundtrip [of "0x1FFFFFFFF"] by blast
qed

text \<open>
  C8: Both encodings of a point of the group decode to it, the compressed one over a field prime that is
  three modulo four, with or without the hybrid prefixes allowed.
\<close>

theorem point_encoding_roundtrip:
  assumes "accepted ec Q" "curve_ok ec" "sized ec" "compressed \<longrightarrow> ec_p ec mod 4 = 3"
  shows "rbind (bytes_from_point Q ec compressed) (\<lambda>bs. point_from_octets bs ec hybrid) = Inr Q"
  using accepted_encodes [OF assms(1-3)] uncompressed_roundtrip [OF assms(1-3)] compressed_roundtrip [OF assms(1-3)] assms(4)
  by (cases compressed) simp_all

theorem point_encoding_roundtrip_witness:
  "rbind (bytes_from_point (4, 16) ec19 True) (\<lambda>bs. point_from_octets bs ec19 False) = Inr (4, 16)"
proof (rule point_encoding_roundtrip [OF _ ec19_ok ec19_sized])
  show "accepted ec19 (4, 16)"
    by (simp add: accepted_def require_on_curve_def is_on_curve_def group_is_on_curve_def ec_y2_def assert_in_subgroup_def)
qed simp

text \<open>
  C9: What the decoder accepts is a finite point of the curve in the subgroup, and the octets are one of
  the two encodings of it: no other octets decode to a point.
\<close>

theorem point_decoding_canonical:
  assumes "point_from_octets bs ec False = Inr Q" "curve_ok ec" "sized ec"
  shows "accepted ec Q \<and> arep ec Q (Pt (fst Q) (snd Q))
    \<and> (bytes_from_point Q ec True = Inr bs \<or> bytes_from_point Q ec False = Inr bs)"
  using point_from_octets_accepted [OF assms(1,2)] accepted_point(5) assms(2) decode_canonical [OF assms] by blast

theorem point_decoding_canonical_witness: "accepted ec19 (4, 16) \<and> bytes_from_point (4, 16) ec19 True = Inr [2, 4]"
proof -
  have "point_from_octets [2, 4] ec19 False = Inr (4, 16)" unfolding ec19_def by code_simp
  from point_decoding_canonical [OF this ec19_ok ec19_sized] show ?thesis
    by (simp add: bytes_from_point_def accepted_def int_to_bytes_def)
qed

text \<open>
  The two key derivation functions return exactly the requested number of octets, and refuse exactly
  the sizes that are not positive or beyond the standard's limit.
\<close>

theorem key_derivation_sizes:
  assumes "hash_ok hf"
  shows "(returns (ansi_x9_63_kdf z sz hf info) (\<lambda>k. length k = nat sz) \<longleftrightarrow> 0 < sz \<and> sz \<le> int (hf_size hf) * (2 ^ 32 - 1))
    \<and> (returns (hkdf z sz hf salt info) (\<lambda>k. length k = nat sz) \<longleftrightarrow> 0 < sz \<and> sz \<le> 255 * int (hf_size hf))"
  using ansi_x9_63_kdf_size [OF assms] hkdf_size [OF assms] by blast

theorem key_derivation_sizes_witness:
  "returns (hkdf [1, 2] 3 toy_hash None None) (\<lambda>k. length k = nat 3)"
  by (subst key_derivation_sizes [OF toy_hash_ok, THEN conjunct2]) simp

section \<open>ECDSA\<close>

text \<open>
  C10: The verifier decides the specification: on a well-formed signature, for any key of the group, it
  answers whether some point \<open>R\<close> with \<open>s R = c G + r Q\<close> has an x-coordinate congruent to \<open>r\<close>.
\<close>

theorem ecdsa_verification_decides_spec:
  assumes "curve_valid ec" "endo_law ec" "member ec Q" "Q \<noteq> Inf" "ds_ec sg = ec"
    and "length msg_hash = hf_size hf" "dsa_assert_valid sg = Inr ()"
  shows "\<exists>c. challenge msg_hash ec hf = Inr c
    \<and> dsa_verify_hash rnd msg_hash (Key_Point (aff_of Q)) sg hf None None
        = Some (Inr (ecdsa_valid ec Q c (ds_r sg) (ds_s sg)))"
  by (rule dsa_verify_hash_iff [OF assms])

definition sig19 :: dsa_sig where "sig19 = \<lparr>ds_r = 6, ds_s = 3, ds_ec = ec19\<rparr>"

lemma sig19_valid: "dsa_assert_valid sig19 = Inr ()"
  unfolding sig19_def ec19_def by code_simp

theorem ecdsa_verification_decides_spec_witness:
  "\<exists>c. challenge [9] ec19 toy_hash = Inr c
    \<and> dsa_verify_hash 1 [9] (Key_Point (aff_of (ec_times ec19 5 (gen ec19)))) sig19 toy_hash None None
        = Some (Inr (ecdsa_valid ec19 (ec_times ec19 5 (gen ec19)) c 6 3))"
  using ecdsa_verification_decides_spec [OF ec19_valid ec19_endo_law ec19_key, of 5 sig19 "[9]" toy_hash 1]
    gen_times_finite [OF ec19_valid, of 5] sig19_valid
  by (simp add: sig19_def)

text \<open>
  C11: A signature made by any of the ways a nonce is chosen (given, deterministic, ground for a low \<open>r\<close>,
  or committing to a value) verifies under the signer's key, with the receipt that opens the commitment.
\<close>

theorem ecdsa_sign_then_verify:
  assumes "curve_valid ec" "endo_law ec" "\<And>j. draws ec (rnd j)" "draws ec rnd'"
    and "dsa_sign_hash rnd rnd' msg_hash q nonce lower_s ec hf grind check key commit = Some (Inr (sg, receipt))"
    and "0 \<le> r" "r < ec_p ec - 1"
  shows "dsa_verify_hash r msg_hash (Key_Point (aff_of (ec_times ec q (gen ec)))) sg hf commit receipt = Some (Inr True)"
proof (rule dsa_sign_verifies [OF assms(1-5) _ assms(6,7)])
  show "dsa_assert_valid sg = Inr ()"
    using dsa_sign_hash_signed [OF assms(1,3-5)] dsa_assert_valid_signed [OF assms(1)] by blast
qed

theorem ecdsa_sign_then_verify_witness:
  "dsa_verify_hash 1 [9] (Key_Point (aff_of (ec_times ec19 5 (gen ec19)))) sig19 toy_hash None None = Some (Inr True)"
proof (rule ecdsa_sign_then_verify [OF ec19_valid ec19_endo_law ec19_draws ec19_draws])
  show "dsa_sign_hash (\<lambda>_ _. 1) (\<lambda>_. 1) [9] 5 (Some 3) True ec19 toy_hash False True None None = Some (Inr (sig19, None))"
    unfolding sig19_def ec19_def by code_simp
qed simp_all

text \<open>
  C12: From a recoverable signature, the identifier it comes with and the challenge, the signer's public key
  is recovered, on a curve of prime order over a field prime that is three modulo four.
\<close>

theorem ecdsa_recovers_public_key:
  assumes "curve_valid ec" "endo_law ec" "cv_cofactor ec = 1" "ec_p ec mod 4 = 3" "0 < q" "q < cv_n ec"
    and "0 < k" "k < cv_n ec" "draws ec rnd" "sign_recoverable_raw rnd c q k lower_s ec = Inr (sg, key_id)"
  shows "rbind (recover_pub_key_raw key_id c (ds_r sg) (ds_s sg) ec False) (aff_from_jac_var ec)
    = Inr (aff_of (ec_times ec q (gen ec)))"
proof -
  note Q = member_closed(3) [OF member_generator [OF assms(1)]]
  obtain R where "signed_with ec c q R (ds_r sg) (ds_s sg) key_id"
    using sign_recoverable_raw_signed(1) [OF assms(1,7,8) drawsD [OF assms(9)] assms(10)] by blast
  then show ?thesis
    by (intro aff_from_jac_returns [OF Q] recover_pub_key_raw_signed [OF assms(1-4)] gen_times_finite [OF assms(1,5,6)])
qed

theorem ecdsa_recovers_public_key_witness:
  "rbind (recover_pub_key_raw 0 9 9 6 ec19 False) (aff_from_jac_var ec19) = Inr (aff_of (ec_times ec19 5 (gen ec19)))"
proof -
  have "sign_recoverable_raw (\<lambda>_. 1) 9 5 4 True ec19 = Inr (\<lparr>ds_r = 9, ds_s = 6, ds_ec = ec19\<rparr>, 0)"
    unfolding ec19_def by code_simp
  from ecdsa_recovers_public_key [OF ec19_valid ec19_endo_law _ _ _ _ _ _ ec19_draws this]
  show ?thesis by simp
qed

text \<open>
  C13: Two signatures of one key over different challenges, made with the same nonce, reveal the private key and the
  nonce up to its sign, whether or not either signature was normalised: from the two as they are, which is so when
  neither was, or after the scalar of the second is negated.
\<close>

theorem ecdsa_reused_nonce_reveals_key:
  assumes "curve_valid ec" "0 < q" "q < cv_n ec" "0 < k" "k < cv_n ec" "draws ec rnd1" "draws ec rnd2"
    and "sign_raw rnd1 c1 q k low1 ec = Inr sig1" "sign_raw rnd2 c2 q k low2 ec = Inr sig2"
    and "challenge h1 ec hf = Inr c1" "challenge h2 ec hf = Inr c2" "c1 \<noteq> c2"
  shows "\<exists>k' \<in> {k, cv_n ec - k}. (\<not> low1 \<longrightarrow> k' = k)
    \<and> (crack_prv_key_var h1 sig1 h2 sig2 hf = Inr (q, k')
      \<or> (low1 \<or> low2) \<and> crack_prv_key_var h1 sig1 h2 (sig2\<lparr>ds_s := cv_n ec - ds_s sig2\<rparr>) hf = Inr (q, k'))"
proof -
  have "dsa_assert_valid sig1 = Inr ()" "dsa_assert_valid sig2 = Inr ()"
    using raw_nonce_signed [OF assms(1,4,5) drawsD [OF assms(6)] assms(8)] raw_nonce_signed [OF assms(1,4,5) drawsD [OF assms(7)] assms(9)]
      dsa_assert_valid_signed [OF assms(1)] by blast+
  from crack_prv_key [OF assms this] show ?thesis .
qed

text \<open>The second signature was normalised, its scalar being two in place of eleven, and is cracked after it is negated.\<close>

theorem ecdsa_reused_nonce_reveals_key_witness:
  "crack_prv_key_var [16] \<lparr>ds_r = 6, ds_s = 6, ds_ec = ec19\<rparr> [48] \<lparr>ds_r = 6, ds_s = 11, ds_ec = ec19\<rparr> toy_hash = Inr (5, 3)"
proof -
  have s: "sign_raw (\<lambda>_. 1) 1 5 3 False ec19 = Inr \<lparr>ds_r = 6, ds_s = 6, ds_ec = ec19\<rparr>"
    "sign_raw (\<lambda>_. 1) 3 5 3 True ec19 = Inr \<lparr>ds_r = 6, ds_s = 2, ds_ec = ec19\<rparr>"
    unfolding ec19_def by code_simp+
  have c: "challenge [16] ec19 toy_hash = Inr 1" "challenge [48] ec19 toy_hash = Inr 3"
    unfolding ec19_def by code_simp+
  have "crack_prv_key_var [16] \<lparr>ds_r = 6, ds_s = 6, ds_ec = ec19\<rparr> [48] \<lparr>ds_r = 6, ds_s = 2, ds_ec = ec19\<rparr> toy_hash \<noteq> Inr (5, 3)"
    unfolding ec19_def by code_simp
  then show ?thesis
    using ecdsa_reused_nonce_reveals_key [OF ec19_valid _ _ _ _ ec19_draws ec19_draws s c] by simp
qed

text \<open>
  C14: Strict DER parsing accepts exactly the serialized form of the signature it returns, when that form
  has at most 72 octets: it inverts the serializer and no signature has a second encoding.
\<close>

theorem ecdsa_der_strict_exact:
  "dsa_parse bs ec valid True = Inr sg \<longleftrightarrow> ds_ec sg = ec \<and> dsa_serialize sg valid = Inr bs \<and> length bs \<le> 72"
  by (rule dsa_parse_strict_iff)

text \<open>
  C15: The deterministic nonce is the one of RFC 6979: the first of the numbers its steps h.1 to h.3 draw that is
  within one and the order less one, and none of them was when the search does not end.
\<close>

theorem rfc6979_first_usable_candidate:
  assumes "hash_ok hf" "0 \<le> q" "q < 256 ^ cv_n_size ec" "0 \<le> c" "c < 256 ^ cv_n_size ec"
    and "seed = to_bytes (cv_n_size ec) q @ to_bytes (cv_n_size ec) c @ (case extra of None \<Rightarrow> [] | Some e \<Rightarrow> e)"
  shows "(rfc6979_nonce_raw c q ec hf extra = Some (Inr k) \<longleftrightarrow>
      (\<exists>i. k = rfc_number ec hf seed i \<and> usable_scalar ec k \<and> (\<forall>j<i. \<not> usable_scalar ec (rfc_number ec hf seed j))))
    \<and> (rfc6979_nonce_raw c q ec hf extra = None \<longleftrightarrow> (\<forall>i. \<not> usable_scalar ec (rfc_number ec hf seed i)))"
  using rfc6979_nonce_first [OF assms] by blast

text \<open>The first number drawn is the order, thirteen, and is passed over.\<close>

theorem rfc6979_first_usable_candidate_witness: "rfc6979_nonce_raw 5 5 ec19 toy_hash None = Some (Inr 3)"
proof -
  have first: "rfc_number ec19 toy_hash [5, 5] 0 = 13" by code_simp
  have second: "rfc_number ec19 toy_hash [5, 5] 1 = 3" by code_simp
  have "\<exists>i. 3 = rfc_number ec19 toy_hash [5, 5] i \<and> usable_scalar ec19 3
      \<and> (\<forall>j<i. \<not> usable_scalar ec19 (rfc_number ec19 toy_hash [5, 5] j))"
    by (rule exI [of _ 1]) (simp add: first second [unfolded One_nat_def] usable_scalar_def)
  then show ?thesis
    using rfc6979_first_usable_candidate [OF toy_hash_ok, of 5 ec19 5 "[5, 5]" None 3] by simp
qed

end
